(* ===== verification/Prelude.thy ===== *)
theory Prelude
  imports Main "HOL-Library.Word" "HOL-Library.While_Combinator"
begin

text \<open>
  Shared vocabulary of the development: the machine integer types of the C code, strictly
  increasing arrays, the reference answer of a search in such an array (\<open>lower_bound\<close> and
  \<open>search_result\<close>), and what inserting or deleting one cell at that position does.
  The locale \<open>sorted_search\<close> is the contract that every search routine of the library
  promises (see \<open>include/roaring/array_util.h\<close> and \<open>include/roaring/containers/run.h\<close>).
\<close>

type_synonym u8 = "8 word"
type_synonym u16 = "16 word"
type_synonym u32 = "32 word"
type_synonym u64 = "64 word"

named_theorems search_simps

abbreviation ssorted :: "'a::linorder list \<Rightarrow> bool" where
  "ssorted \<equiv> sorted_wrt (<)"

section \<open>Strictly increasing lists\<close>

lemma ssorted_imp_sorted: "ssorted xs \<Longrightarrow> sorted xs"
  by (metis strict_sorted_iff)

lemma ssorted_imp_distinct: "ssorted xs \<Longrightarrow> distinct xs"
  by (metis strict_sorted_iff)

lemma ssorted_nth_less: "ssorted xs \<Longrightarrow> i < j \<Longrightarrow> j < length xs \<Longrightarrow> xs ! i < xs ! j"
  by (simp add: sorted_wrt_nth_less)

lemma ssorted_nth_le: "ssorted xs \<Longrightarrow> i \<le> j \<Longrightarrow> j < length xs \<Longrightarrow> xs ! i \<le> xs ! j"
  by (metis le_neq_implies_less less_imp_le order_refl ssorted_nth_less)

lemma ssorted_set_unique: "ssorted xs \<Longrightarrow> ssorted ys \<Longrightarrow> set xs = set ys \<Longrightarrow> xs = ys"
  by (simp add: strict_sorted_equal)

lemma ssorted_card: "ssorted xs \<Longrightarrow> card (set xs) = length xs"
  by (simp add: distinct_card ssorted_imp_distinct)

lemma ssorted_take: "ssorted xs \<Longrightarrow> ssorted (take n xs)"
  by (metis append_take_drop_id sorted_wrt_append)

lemma ssorted_drop: "ssorted xs \<Longrightarrow> ssorted (drop n xs)"
  by (metis append_take_drop_id sorted_wrt_append)

lemma ssorted_filter: "ssorted xs \<Longrightarrow> ssorted (filter P xs)"
  by (simp add: sorted_wrt_filter)

lemma ssorted_snoc: "ssorted (xs @ [x]) \<longleftrightarrow> ssorted xs \<and> (\<forall>y \<in> set xs. y < x)"
  by (simp add: sorted_wrt_append)

section \<open>The reference answer of a search\<close>

text \<open>The index of the first cell that is not smaller than the key (the length if none).\<close>

definition lower_bound :: "'a::linorder list \<Rightarrow> 'a \<Rightarrow> nat" where
  "lower_bound xs k = length (takeWhile (\<lambda>x. x < k) xs)"

lemma lower_bound_le [simp]: "lower_bound xs k \<le> length xs"
  by (simp add: lower_bound_def length_takeWhile_le)

lemma lower_bound_nth: "i < lower_bound xs k \<Longrightarrow> xs ! i < k"
  by (metis lower_bound_def nth_mem set_takeWhileD takeWhile_nth)

lemma lower_bound_ge: "lower_bound xs k < length xs \<Longrightarrow> k \<le> xs ! lower_bound xs k"
  by (metis lower_bound_def linorder_not_less nth_length_takeWhile)

lemma lower_bound_eqI:
  assumes "p \<le> length xs" and "\<And>i. i < p \<Longrightarrow> xs ! i < k" and "p < length xs \<Longrightarrow> k \<le> xs ! p"
  shows "lower_bound xs k = p"
proof (rule linorder_cases)
  assume l: "lower_bound xs k < p"
  then have "xs ! lower_bound xs k < k" and "lower_bound xs k < length xs"
    using assms by auto
  then show ?thesis using lower_bound_ge [of xs k] by auto
next
  assume g: "p < lower_bound xs k"
  then have "xs ! p < k" by (rule lower_bound_nth)
  moreover have "p < length xs" using g by (metis lower_bound_le order_less_le_trans)
  ultimately show ?thesis using assms(3) by auto
qed

lemma lower_bound_Nil [simp]: "lower_bound [] k = 0"
  by (simp add: lower_bound_def)

lemma lower_bound_Cons: "lower_bound (x # xs) k = (if x < k then Suc (lower_bound xs k) else 0)"
  by (simp add: lower_bound_def)

lemma ssorted_nth_less_iff:
  "ssorted xs \<Longrightarrow> i < length xs \<Longrightarrow> xs ! i < k \<longleftrightarrow> i < lower_bound xs k"
proof
  assume s: "ssorted xs" and i: "i < length xs" and k: "xs ! i < k"
  show "i < lower_bound xs k"
  proof (rule ccontr)
    assume n: "\<not> i < lower_bound xs k"
    then have "k \<le> xs ! lower_bound xs k" using i by (auto intro: lower_bound_ge)
    also have "\<dots> \<le> xs ! i" using s n i by (auto intro: ssorted_nth_le)
    finally show False using k by simp
  qed
qed (rule lower_bound_nth)

lemma ssorted_nth_ge:
  "ssorted xs \<Longrightarrow> lower_bound xs k \<le> i \<Longrightarrow> i < length xs \<Longrightarrow> k \<le> xs ! i"
  by (meson linorder_not_le ssorted_nth_less_iff)

lemma ssorted_mem_iff:
  "ssorted xs \<Longrightarrow> k \<in> set xs \<longleftrightarrow> lower_bound xs k < length xs \<and> xs ! lower_bound xs k = k"
proof
  assume s: "ssorted xs" and "k \<in> set xs"
  then obtain i where i: "i < length xs" "xs ! i = k" by (auto simp: in_set_conv_nth)
  have "lower_bound xs k = i"
    by (rule lower_bound_eqI) (use i s in \<open>auto intro: ssorted_nth_less\<close>)
  then show "lower_bound xs k < length xs \<and> xs ! lower_bound xs k = k" using i by simp
qed (metis nth_mem)

lemma ssorted_take_lower_bound: "ssorted xs \<Longrightarrow> set (take (lower_bound xs k) xs) = {x \<in> set xs. x < k}"
  by (induction xs) (auto simp: lower_bound_Cons)

lemma ssorted_drop_lower_bound: "ssorted xs \<Longrightarrow> set (drop (lower_bound xs k) xs) = {x \<in> set xs. k \<le> x}"
  by (induction xs) (auto simp: lower_bound_Cons)

lemma lower_bound_card: "ssorted xs \<Longrightarrow> lower_bound xs k = card {x \<in> set xs. x < k}"
  by (metis length_take lower_bound_le min.absorb2 ssorted_card ssorted_take ssorted_take_lower_bound)

lemma lower_bound_mono: "ssorted xs \<Longrightarrow> k \<le> l \<Longrightarrow> lower_bound xs k \<le> lower_bound xs l"
  by (simp add: lower_bound_card) (rule card_mono, auto)

text \<open>
  The convention of the C code: a non-negative result is the index of the key, a negative
  result \<open>r\<close> says that the key is absent and belongs at index \<open>- r - 1\<close>.
\<close>

definition search_result :: "'a::linorder list \<Rightarrow> 'a \<Rightarrow> int" where
  "search_result xs k =
     (let p = lower_bound xs k
      in if p < length xs \<and> xs ! p = k then int p else - (int p + 1))"

lemma search_result_nonneg: "ssorted xs \<Longrightarrow> 0 \<le> search_result xs k \<longleftrightarrow> k \<in> set xs"
  by (auto simp: search_result_def Let_def ssorted_mem_iff)

lemma search_result_found: "ssorted xs \<Longrightarrow> k \<in> set xs \<Longrightarrow> search_result xs k = int (lower_bound xs k)"
  by (simp add: search_result_def Let_def ssorted_mem_iff)

lemma search_result_absent:
  "ssorted xs \<Longrightarrow> k \<notin> set xs \<Longrightarrow> search_result xs k = - (int (lower_bound xs k) + 1)"
  by (simp add: search_result_def Let_def ssorted_mem_iff)

section \<open>Inserting and deleting one cell\<close>

definition list_insert_at :: "nat \<Rightarrow> 'a \<Rightarrow> 'a list \<Rightarrow> 'a list" where
  "list_insert_at i x xs = take i xs @ x # drop i xs"

definition list_remove_at :: "nat \<Rightarrow> 'a list \<Rightarrow> 'a list" where
  "list_remove_at i xs = take i xs @ drop (Suc i) xs"

lemma length_list_insert_at [simp]: "length (list_insert_at i x xs) = Suc (length xs)"
  by (simp add: list_insert_at_def)

lemma length_list_remove_at [simp]: "i < length xs \<Longrightarrow> length (list_remove_at i xs) = length xs - 1"
  by (simp add: list_remove_at_def)

lemma set_list_insert_at [simp]: "set (list_insert_at i x xs) = insert x (set xs)"
  by (metis Un_insert_right append_take_drop_id list.set(2) list_insert_at_def set_append)

lemma ssorted_insert_at:
  assumes "ssorted xs" and "k \<notin> set xs"
  shows "ssorted (list_insert_at (lower_bound xs k) k xs)"
proof -
  let ?p = "lower_bound xs k"
  have "\<forall>y \<in> set (drop ?p xs). k < y"
    using assms ssorted_drop_lower_bound [OF assms(1), of k]
    by (metis (no_types, lifting) antisym_conv2 in_set_dropD mem_Collect_eq)
  moreover have "\<forall>x \<in> set (take ?p xs). x < k"
    using ssorted_take_lower_bound [OF assms(1), of k] by auto
  ultimately show ?thesis
    using assms(1) unfolding list_insert_at_def
    by (auto simp: sorted_wrt_append ssorted_take ssorted_drop) (meson order_less_trans)
qed

lemma ssorted_remove_at: "ssorted xs \<Longrightarrow> ssorted (list_remove_at i xs)"
proof -
  assume s: "ssorted xs"
  have "\<forall>x \<in> set (take i xs). \<forall>y \<in> set (drop (Suc i) xs). x < y"
    using s by (auto simp: in_set_conv_nth intro!: ssorted_nth_less) arith
  then show ?thesis
    using s by (simp add: list_remove_at_def sorted_wrt_append ssorted_take ssorted_drop)
qed

lemma set_remove_at:
  assumes "distinct xs" and "i < length xs"
  shows "set (list_remove_at i xs) = set xs - {xs ! i}"
proof -
  have xs: "xs = take i xs @ xs ! i # drop (Suc i) xs"
    using assms(2) by (rule id_take_nth_drop)
  then have "distinct (take i xs @ xs ! i # drop (Suc i) xs)" using assms(1) by simp
  then have "xs ! i \<notin> set (take i xs) \<union> set (drop (Suc i) xs)" by auto
  moreover have "set xs = insert (xs ! i) (set (take i xs) \<union> set (drop (Suc i) xs))"
    by (subst xs) auto
  ultimately show ?thesis by (auto simp: list_remove_at_def)
qed

lemma set_remove_lower_bound:
  "ssorted xs \<Longrightarrow> k \<in> set xs \<Longrightarrow> set (list_remove_at (lower_bound xs k) xs) = set xs - {k}"
  using set_remove_at [OF ssorted_imp_distinct] by (auto simp: ssorted_mem_iff)

section \<open>Machine words read as numbers\<close>

lemma unat_u16_less [simp]: "unat (x :: u16) < 65536"
  using unsigned_less [of x] by simp

lemma unat_u32_less [simp]: "unat (x :: u32) < 4294967296"
  using unsigned_less [of x] by simp

lemma unat_u16_of_nat [simp]: "n < 65536 \<Longrightarrow> unat (word_of_nat n :: u16) = n"
  by (simp add: unat_of_nat take_bit_eq_mod)

lemma unat_u32_of_nat [simp]: "n < 4294967296 \<Longrightarrow> unat (word_of_nat n :: u32) = n"
  by (simp add: unat_of_nat take_bit_eq_mod)

lemma unat_u64_of_nat [simp]: "n < 18446744073709551616 \<Longrightarrow> unat (word_of_nat n :: u64) = n"
  by (simp add: unat_of_nat take_bit_eq_mod)

lemma u16_eq_of_nat: "unat x = n \<Longrightarrow> x = (word_of_nat n :: u16)"
  by auto

lemma unat_ucast_u16_u32 [simp]: "unat (ucast (x :: u16) :: u32) = unat x"
proof -
  have "unat x < 2 ^ 32" by (rule order_less_trans [OF unat_u16_less]) simp
  then have "take_bit 32 (unat x) = unat x" by (rule take_bit_nat_eq_self)
  then show ?thesis by (simp add: unsigned_ucast_eq)
qed

lemma unat_ucast_u32_u16: "unat (w :: u32) < 65536 \<Longrightarrow> unat (ucast w :: u16) = unat w"
  by (simp add: unsigned_ucast_eq take_bit_eq_mod)

lemma sint_u32_small: "unat (w :: u32) < 2147483648 \<Longrightarrow> sint w = int (unat w)"
proof -
  assume "unat w < 2147483648"
  then have "int (unat w) < 2147483648" by linarith
  then have "signed_take_bit 31 (int (unat w)) = int (unat w)"
    by (intro signed_take_bit_int_eq_self) (simp_all del: of_nat_unat)
  then show ?thesis by (simp add: sint_uint)
qed

lemma unat_u32_diff: "unat b \<le> unat a \<Longrightarrow> unat (a - b :: u32) = unat a - unat b"
  by (simp add: unat_sub word_le_nat_alt)

lemma unat_u32_pred: "0 < unat (a :: u32) \<Longrightarrow> unat (a - 1) = unat a - 1"
  using unat_u32_diff [of 1 a] by simp

lemma unat_u32_add: "unat a + unat b < 4294967296 \<Longrightarrow> unat (a + b :: u32) = unat a + unat b"
  by (simp add: unat_word_ariths)

section \<open>Ranges of 16-bit values\<close>

text \<open>The values from \<open>lo\<close> (included) to \<open>hi\<close> (excluded), bounds as the C code has them in \<open>uint32_t\<close>.\<close>

definition u16_range :: "nat \<Rightarrow> nat \<Rightarrow> u16 set" where
  "u16_range lo hi = {x. lo \<le> unat x \<and> unat x < hi}"

lemma mem_u16_range [simp]: "x \<in> u16_range lo hi \<longleftrightarrow> lo \<le> unat x \<and> unat x < hi"
  by (simp add: u16_range_def)

lemma u16_range_image: "hi \<le> 65536 \<Longrightarrow> u16_range lo hi = word_of_nat ` {lo ..< hi}"
proof (intro set_eqI iffI)
  fix x assume "x \<in> u16_range lo hi"
  then have "x = word_of_nat (unat x)" and "unat x \<in> {lo ..< hi}" by simp_all
  then show "x \<in> word_of_nat ` {lo ..< hi}" by blast
qed (auto simp: u16_range_def)

lemma card_u16_range: "hi \<le> 65536 \<Longrightarrow> card (u16_range lo hi) = hi - lo"
proof -
  assume h: "hi \<le> 65536"
  have "inj_on (word_of_nat :: nat \<Rightarrow> u16) {lo ..< hi}"
    by (rule inj_onI) (metis atLeastLessThan_iff h order_less_le_trans unat_u16_of_nat)
  then show ?thesis using h by (simp add: u16_range_image card_image)
qed

lemma ssorted_gap:
  fixes xs :: "'a::len word list"
  assumes "ssorted xs"
  shows "i \<le> j \<Longrightarrow> j < length xs \<Longrightarrow> unat (xs ! i) + (j - i) \<le> unat (xs ! j)"
proof (induction j)
  case (Suc j)
  show ?case
  proof (cases "i = Suc j")
    case False
    then have "unat (xs ! i) + (j - i) \<le> unat (xs ! j)" using Suc by simp
    moreover have "unat (xs ! j) < unat (xs ! Suc j)"
      using ssorted_nth_less [OF assms, of j "Suc j"] Suc.prems by (simp add: word_less_nat_alt)
    ultimately show ?thesis using False Suc.prems by simp
  qed simp
qed simp

section \<open>The contract of a search routine\<close>

text \<open>
  A search routine gets the array and its length, and is only trusted on strictly increasing
  arrays. Its clients use the consequences below, never its code.
\<close>

locale sorted_search =
  fixes search :: "'a list \<Rightarrow> nat \<Rightarrow> 'k::linorder \<Rightarrow> int"
    and key :: "'a \<Rightarrow> 'k"
  assumes search_correct: "ssorted (map key xs) \<Longrightarrow> n = length xs \<Longrightarrow> search xs n k = search_result (map key xs) k"
begin

lemma found_iff: "ssorted (map key xs) \<Longrightarrow> 0 \<le> search xs (length xs) k \<longleftrightarrow> k \<in> key ` set xs"
  by (simp add: search_correct search_result_nonneg)

lemma found_index:
  "ssorted (map key xs) \<Longrightarrow> k \<in> key ` set xs \<Longrightarrow> nat (search xs (length xs) k) = lower_bound (map key xs) k"
  by (simp add: search_correct search_result_found)

lemma found_nth:
  "ssorted (map key xs) \<Longrightarrow> 0 \<le> search xs (length xs) k \<Longrightarrow>
     nat (search xs (length xs) k) < length xs \<and> key (xs ! nat (search xs (length xs) k)) = k"
  using ssorted_mem_iff [of "map key xs" k]
  by (auto simp: search_correct search_result_def Let_def split: if_splits)

lemma absent_index:
  "ssorted (map key xs) \<Longrightarrow> search xs (length xs) k < 0 \<Longrightarrow>
     nat (- search xs (length xs) k - 1) = lower_bound (map key xs) k"
  by (auto simp: search_correct search_result_def Let_def split: if_splits)

lemma absent_value:
  "ssorted (map key xs) \<Longrightarrow> search xs (length xs) k < 0 \<Longrightarrow>
     search xs (length xs) k = - (int (lower_bound (map key xs) k) + 1)"
  by (auto simp: search_correct search_result_def Let_def split: if_splits)

lemma absent_insert_sorted:
  assumes "ssorted (map key xs)" and "search xs (length xs) (key x) < 0"
  shows "ssorted (map key (list_insert_at (nat (- search xs (length xs) (key x) - 1)) x xs))"
proof -
  have "key x \<notin> set (map key xs)" using assms found_iff [of xs "key x"] by auto
  then have "ssorted (list_insert_at (lower_bound (map key xs) (key x)) (key x) (map key xs))"
    using assms(1) by (simp add: ssorted_insert_at)
  then show ?thesis using absent_index [OF assms]
    by (simp add: list_insert_at_def take_map drop_map)
qed

lemma found_remove_sorted:
  "ssorted (map key xs) \<Longrightarrow> ssorted (map key (list_remove_at i xs))"
  using ssorted_remove_at [of "map key xs" i] by (simp add: list_remove_at_def take_map drop_map)

end

end
