(* ===== verification/Container_Spec.thy ===== *)
theory Container_Spec
  imports Prelude
begin

text \<open>
  What the rest of the library expects of a container: it stands for a set of values
  (\<open>abs\<close>), it has a well-formedness invariant, and \<open>contains\<close>, \<open>add\<close> and \<open>remove\<close> are
  membership, insertion and deletion on that set. Array, bitset and run containers, the
  tagged container that \<open>containers.h\<close> dispatches on (sets of 16-bit values) and the bitmap of
  \<open>roaring.c\<close> (sets of 32-bit values) each interpret \<open>container\<close>.
  \<open>set_operation\<close> is the contract of a binary operation between two kinds of container,
  \<open>set_test\<close> that of a binary predicate.
\<close>

locale container =
  fixes inv :: "'c \<Rightarrow> bool"
    and abs :: "'c \<Rightarrow> 'v::finite set"
    and contains :: "'c \<Rightarrow> 'v \<Rightarrow> bool"
    and add :: "'c \<Rightarrow> 'v \<Rightarrow> 'c \<times> bool"
    and remove :: "'c \<Rightarrow> 'v \<Rightarrow> 'c \<times> bool"
    and cardinality :: "'c \<Rightarrow> int"
  assumes contains_abs: "inv c \<Longrightarrow> contains c x \<longleftrightarrow> x \<in> abs c"
    and add_correct: "inv c \<Longrightarrow> inv (fst (add c x)) \<and> abs (fst (add c x)) = insert x (abs c)
           \<and> (snd (add c x) \<longleftrightarrow> x \<notin> abs c)"
    and remove_correct: "inv c \<Longrightarrow> inv (fst (remove c x)) \<and> abs (fst (remove c x)) = abs c - {x}
           \<and> (snd (remove c x) \<longleftrightarrow> x \<in> abs c)"
    and cardinality_abs: "inv c \<Longrightarrow> cardinality c = int (card (abs c))"
begin

lemma add_inv: "inv c \<Longrightarrow> inv (fst (add c x))"
  and remove_inv: "inv c \<Longrightarrow> inv (fst (remove c x))"
  using add_correct remove_correct by blast+

lemma contains_add: "inv c \<Longrightarrow> contains (fst (add c x)) y \<longleftrightarrow> y = x \<or> contains c y"
  by (simp add: contains_abs add_correct)

lemma contains_remove: "inv c \<Longrightarrow> contains (fst (remove c x)) y \<longleftrightarrow> y \<noteq> x \<and> contains c y"
  by (auto simp: contains_abs remove_correct)

lemma cardinality_add:
  "inv c \<Longrightarrow> cardinality (fst (add c x)) = cardinality c + of_bool (snd (add c x))"
  by (simp add: cardinality_abs add_correct card_insert_if)

lemma cardinality_remove:
  "inv c \<Longrightarrow> cardinality (fst (remove c x)) = cardinality c - of_bool (snd (remove c x))"
  by (simp add: cardinality_abs remove_correct card_Diff_singleton_if of_nat_diff Suc_leI card_gt_0_iff)
     (metis One_nat_def Suc_leI card_gt_0_iff empty_iff finite of_nat_1 of_nat_diff)

lemma add_remove_abs: "inv c \<Longrightarrow> x \<notin> abs c \<Longrightarrow> abs (fst (remove (fst (add c x)) x)) = abs c"
  by (simp add: add_correct remove_correct)

lemma add_many:
  "inv c \<Longrightarrow> inv (fold (\<lambda>x c. fst (add c x)) xs c) \<and>
     abs (fold (\<lambda>x c. fst (add c x)) xs c) = abs c \<union> set xs"
  by (induction xs arbitrary: c) (simp_all add: add_correct)

end

locale set_operation =
  fixes inv1 :: "'a \<Rightarrow> bool" and abs1 :: "'a \<Rightarrow> 'v set"
    and inv2 :: "'b \<Rightarrow> bool" and abs2 :: "'b \<Rightarrow> 'v set"
    and inv :: "'c \<Rightarrow> bool" and abs :: "'c \<Rightarrow> 'v set"
    and oper :: "'a \<Rightarrow> 'b \<Rightarrow> 'c"
    and member :: "bool \<Rightarrow> bool \<Rightarrow> bool"
  assumes oper_inv: "inv1 a \<Longrightarrow> inv2 b \<Longrightarrow> inv (oper a b)"
    and oper_member: "inv1 a \<Longrightarrow> inv2 b \<Longrightarrow> x \<in> abs (oper a b) \<longleftrightarrow> member (x \<in> abs1 a) (x \<in> abs2 b)"
begin

lemma oper_abs: "inv1 a \<Longrightarrow> inv2 b \<Longrightarrow> abs (oper a b) = {x. member (x \<in> abs1 a) (x \<in> abs2 b)}"
  using oper_member by blast

lemma oper_cong:
  "inv1 a \<Longrightarrow> inv2 b \<Longrightarrow> inv1 a' \<Longrightarrow> inv2 b' \<Longrightarrow> abs1 a = abs1 a' \<Longrightarrow> abs2 b = abs2 b' \<Longrightarrow>
     abs (oper a b) = abs (oper a' b')"
  by (simp add: oper_abs)

end

locale set_test =
  fixes inv1 :: "'a \<Rightarrow> bool" and abs1 :: "'a \<Rightarrow> 'v set"
    and inv2 :: "'b \<Rightarrow> bool" and abs2 :: "'b \<Rightarrow> 'v set"
    and test :: "'a \<Rightarrow> 'b \<Rightarrow> bool"
    and rel :: "'v set \<Rightarrow> 'v set \<Rightarrow> bool"
  assumes test_rel: "inv1 a \<Longrightarrow> inv2 b \<Longrightarrow> test a b \<longleftrightarrow> rel (abs1 a) (abs2 b)"
begin

lemma test_cong:
  "inv1 a \<Longrightarrow> inv2 b \<Longrightarrow> inv1 a' \<Longrightarrow> inv2 b' \<Longrightarrow> abs1 a = abs1 a' \<Longrightarrow> abs2 b = abs2 b' \<Longrightarrow>
     test a b = test a' b'"
  by (simp add: test_rel)

end

end
