(* ===== verification/Array_Util.thy ===== *)
theory Array_Util
  imports Prelude
begin

text \<open>
  The routines of \<open>include/roaring/array_util.h\<close> and \<open>src/array_util.c\<close> on sorted arrays of
  16-bit (and 32-bit) integers, in their portable form (the code after the \<open>#else\<close> of each
  SIMD selection). An array is the list of its cells; \<open>int32_t\<close> and \<open>size_t\<close> positions are
  \<open>nat\<close> (they never go negative and stay far below \<open>2 ^ 31\<close>), results that can be negative
  are \<open>int\<close>. A pointer that walks through an array is the suffix it still has to read.
\<close>

section \<open>Search\<close>

subsection \<open>binarySearch: block narrowing and a scan\<close>

text \<open>The scan \<open>for (j = start; j < end; j++)\<close> of \<open>binarySearch\<close>; \<open>None\<close> when it falls through.\<close>

function bs_scan :: "u16 list \<Rightarrow> nat \<Rightarrow> nat \<Rightarrow> u16 \<Rightarrow> int option" where
  "bs_scan array j end ikey =
     (if j < end
      then if array ! j \<ge> ikey
           then Some (if array ! j = ikey then int j else - (int j + 1))
           else bs_scan array (j + 1) end ikey
      else None)"
  by pat_completeness auto
termination
  by (relation "measure (\<lambda>(array, j, end, ikey). end - j)") auto

text \<open>\<open>while (n > 3)\<close>: narrow to one of four quarters by the last cells of three blocks.\<close>

function bs_quad :: "u16 list \<Rightarrow> u16 \<Rightarrow> nat \<Rightarrow> nat \<Rightarrow> nat \<times> nat" where
  "bs_quad array ikey base n =
     (if n > 3
      then let quarter = n div 4;
               c1 = of_bool (array ! ((base + quarter + 1) * 16 - 1) < ikey);
               c2 = of_bool (array ! ((base + 2 * quarter + 1) * 16 - 1) < ikey);
               c3 = of_bool (array ! ((base + 3 * quarter + 1) * 16 - 1) < ikey)
           in bs_quad array ikey (base + (c1 + c2 + c3) * quarter) (n - 3 * quarter)
      else (base, n))"
  by pat_completeness auto
termination
  by (relation "measure (\<lambda>(array, ikey, base, n). n)") auto

text \<open>\<open>while (n > 1)\<close>: narrow to one of two halves.\<close>

function bs_half :: "u16 list \<Rightarrow> u16 \<Rightarrow> nat \<Rightarrow> nat \<Rightarrow> nat \<times> nat" where
  "bs_half array ikey base n =
     (if n > 1
      then let half = n div 2
           in bs_half array ikey
                (if array ! ((base + half + 1) * 16 - 1) < ikey then base + half else base)
                (n - half)
      else (base, n))"
  by pat_completeness auto
termination
  by (relation "measure (\<lambda>(array, ikey, base, n). n)") auto

declare bs_scan.simps [simp del] bs_quad.simps [simp del] bs_half.simps [simp del]

definition bs_block :: "u16 list \<Rightarrow> u16 \<Rightarrow> nat \<Rightarrow> nat" where
  "bs_block array ikey num_blocks =
     (let (base4, n4) = bs_quad array ikey 0 num_blocks;
          (base, n) = bs_half array ikey base4 n4
      in if array ! ((base + 1) * 16 - 1) < ikey then base + 1 else base)"

definition binarySearch :: "u16 list \<Rightarrow> nat \<Rightarrow> u16 \<Rightarrow> int" where
  "binarySearch array lenarray ikey =
     (if lenarray < 16
      then case bs_scan array 0 lenarray ikey of Some r \<Rightarrow> r | None \<Rightarrow> - (int lenarray + 1)
      else let num_blocks = lenarray div 16;
               lo = bs_block array ikey num_blocks
           in if lo < num_blocks
              then case bs_scan array (lo * 16) (lo * 16 + 16) ikey of
                     Some r \<Rightarrow> r | None \<Rightarrow> - (int (lo * 16 + 16) + 1)
              else case bs_scan array (num_blocks * 16) lenarray ikey of
                     Some r \<Rightarrow> r | None \<Rightarrow> - (int lenarray + 1))"

text \<open>
  The proofs only need to know where the cells stop being smaller than the key: \<open>p\<close> is
  that position, and no read leaves the first \<open>n\<close> cells. A block test \<open>b\<close> then answers
  whether \<open>b\<close> is one of the \<open>p div 16\<close> blocks that are smaller throughout.
\<close>

definition splits_at :: "'a::linorder list \<Rightarrow> nat \<Rightarrow> 'a \<Rightarrow> nat \<Rightarrow> bool" where
  "splits_at array n ikey p \<longleftrightarrow> p \<le> n \<and> (\<forall>i < n. array ! i < ikey \<longleftrightarrow> i < p)"

lemma splits_at_lower_bound:
  "n \<le> length a \<Longrightarrow> ssorted (take n a) \<Longrightarrow> splits_at a n k (lower_bound (take n a) k)"
  using ssorted_nth_less_iff [of "take n a" _ k] lower_bound_le [of "take n a" k]
  by (simp add: splits_at_def)

lemma bs_scan_splits:
  "splits_at a n k p \<Longrightarrow> j \<le> p \<Longrightarrow> e \<le> n \<Longrightarrow>
     bs_scan a j e k =
       (if p < e then Some (if a ! p = k then int p else - (int p + 1)) else None)"
proof (induction a j e k rule: bs_scan.induct)
  case (1 a j e k)
  show ?case
  proof (cases "j < e \<and> a ! j < k")
    case True
    then have "Suc j \<le> p" using "1.prems" by (auto simp: splits_at_def)
    have nk: "\<not> k \<le> a ! j" and je: "j < e" using True by auto
    have "bs_scan a j e k = bs_scan a (j + 1) e k"
      using nk je by (subst bs_scan.simps) simp
    then show ?thesis using "1.IH" [OF je nk] "1.prems" \<open>Suc j \<le> p\<close> by simp
  next
    case False
    show ?thesis
    proof (cases "j < e")
      case True
      then have ge: "k \<le> a ! j" using False by auto
      then have "p = j" using "1.prems" True unfolding splits_at_def
        by (metis leD le_neq_implies_less order_less_le_trans)
      then show ?thesis using True ge by (subst bs_scan.simps) simp
    next
      case no: False
      then show ?thesis using "1.prems"(2) by (subst bs_scan.simps) simp
    qed
  qed
qed

lemma block_test:
  "splits_at a n k p \<Longrightarrow> (b + 1) * 16 \<le> n \<Longrightarrow> a ! ((b + 1) * 16 - 1) < k \<longleftrightarrow> b < p div 16"
proof -
  assume s: "splits_at a n k p" and b: "(b + 1) * 16 \<le> n"
  have "(b + 1) * 16 - 1 < n" using b by arith
  then have "a ! ((b + 1) * 16 - 1) < k \<longleftrightarrow> (b + 1) * 16 - 1 < p"
    using s unfolding splits_at_def by blast
  also have "\<dots> \<longleftrightarrow> (b + 1) * 16 \<le> p" by arith
  also have "\<dots> \<longleftrightarrow> b < p div 16" by (simp add: less_eq_div_iff_mult_less_eq flip: Suc_le_eq)
  finally show ?thesis .
qed

lemma quarter_count:
  fixes base q F n :: nat
  assumes "base \<le> F" and "F \<le> base + n" and "4 * q \<le> n"
    and "c = of_bool (base + q < F) + of_bool (base + 2 * q < F) + of_bool (base + 3 * q < F)"
  shows "base + c * q \<le> F \<and> F \<le> base + c * q + (n - 3 * q)
    \<and> base + c * q + (n - 3 * q) \<le> base + n"
  using assms
  by (cases "base + q < F"; cases "base + 2 * q < F"; cases "base + 3 * q < F") simp_all

lemma bs_quad_splits:
  assumes "splits_at a len k p" and "nb * 16 \<le> len"
  shows "base \<le> p div 16 \<Longrightarrow> p div 16 \<le> base + n \<Longrightarrow> base + n \<le> nb \<Longrightarrow> 0 < n \<Longrightarrow>
     (case bs_quad a k base n of (base', n') \<Rightarrow>
        base' \<le> p div 16 \<and> p div 16 \<le> base' + n' \<and> base' + n' \<le> nb \<and> 0 < n')"
proof (induction n arbitrary: base rule: less_induct)
  case (less n)
  show ?case
  proof (cases "n > 3")
    case True
    define q where "q = n div 4"
    define F where "F = p div 16"
    have q: "0 < q" "4 * q \<le> n" using True by (auto simp: q_def)
    have t: "a ! ((base + i * q + 1) * 16 - 1) < k \<longleftrightarrow> base + i * q < F" if "i \<le> 3" for i
      unfolding F_def
    proof (rule block_test [OF assms(1)])
      have "i * q \<le> 3 * q" using that by simp
      then have "base + i * q + 1 \<le> nb" using q less.prems(3) by linarith
      then show "(base + i * q + 1) * 16 \<le> len"
        using assms(2) by (meson le_trans mult_le_mono1)
    qed
    define c :: nat where "c = of_bool (base + q < F) + of_bool (base + 2 * q < F)
        + of_bool (base + 3 * q < F)"
    have step: "bs_quad a k base n = bs_quad a k (base + c * q) (n - 3 * q)"
      using True t [of 1] t [of 2] t [of 3]
      by (simp add: bs_quad.simps [of a k base n] Let_def c_def flip: q_def)
    have "base + c * q \<le> F \<and> F \<le> base + c * q + (n - 3 * q) \<and> base + c * q + (n - 3 * q) \<le> base + n"
      using less.prems(1,2) q(2) by (intro quarter_count) (auto simp: F_def c_def)
    then show ?thesis
      using less.IH [of "n - 3 * q" "base + c * q"] less.prems(3) q step
      by (simp add: F_def)
  next
    case False
    then show ?thesis using less.prems by (simp add: bs_quad.simps [of a k base n])
  qed
qed

lemma bs_half_splits:
  assumes "splits_at a len k p" and "nb * 16 \<le> len"
  shows "base \<le> p div 16 \<Longrightarrow> p div 16 \<le> base + n \<Longrightarrow> base + n \<le> nb \<Longrightarrow> 0 < n \<Longrightarrow>
     (case bs_half a k base n of (base', n') \<Rightarrow>
        base' \<le> p div 16 \<and> p div 16 \<le> base' + 1 \<and> base' + 1 \<le> nb)"
  using assms
proof (induction a k base n rule: bs_half.induct)
  case (1 a k base n)
  show ?case
  proof (cases "n > 1")
    case True
    let ?h = "n div 2"
    have "(base + ?h + 1) * 16 \<le> nb * 16"
      using True "1.prems"(3) by (intro mult_le_mono1) linarith
    then have t: "a ! ((base + ?h + 1) * 16 - 1) < k \<longleftrightarrow> base + ?h < p div 16"
      using block_test [OF "1.prems"(5)] "1.prems"(6) by (meson le_trans)
    show ?thesis
      using True t "1.IH" [OF True refl] "1.prems"
      by (cases "base + ?h < p div 16") (simp_all add: bs_half.simps [of a k base n] Let_def)
  next
    case False
    then show ?thesis using "1.prems" by (auto simp: bs_half.simps [of a k base n])
  qed
qed

lemma bs_block_splits:
  assumes "splits_at a len k p" and "nb * 16 \<le> len" and "0 < nb" and "p div 16 \<le> nb"
  shows "bs_block a k nb = p div 16"
proof -
  obtain base4 n4 where q: "bs_quad a k 0 nb = (base4, n4)" by fastforce
  have "base4 \<le> p div 16 \<and> p div 16 \<le> base4 + n4 \<and> base4 + n4 \<le> nb \<and> 0 < n4"
    using bs_quad_splits [OF assms(1,2), of 0 nb] assms q by simp
  moreover obtain base n where h: "bs_half a k base4 n4 = (base, n)" by fastforce
  ultimately have b: "base \<le> p div 16" "p div 16 \<le> base + 1" "base + 1 \<le> nb"
    using bs_half_splits [OF assms(1,2), of base4 n4] by auto
  have "(base + 1) * 16 \<le> len" using b(3) assms(2) by (meson le_trans mult_le_mono1)
  then have "a ! ((base + 1) * 16 - 1) < k \<longleftrightarrow> base < p div 16"
    by (rule block_test [OF assms(1)])
  then show ?thesis using q h b by (auto simp: bs_block_def)
qed

lemma binarySearch_splits:
  assumes "splits_at a n k p"
  shows "binarySearch a n k = (if p < n \<and> a ! p = k then int p else - (int p + 1))"
proof -
  have pn: "p \<le> n" using assms by (simp add: splits_at_def)
  note scan = bs_scan_splits [OF assms]
  show ?thesis
  proof (cases "n < 16")
    case True
    then show ?thesis using scan [of 0 n] pn by (simp add: binarySearch_def)
  next
    case False
    have blk: "bs_block a k (n div 16) = p div 16"
      using False pn by (intro bs_block_splits [OF assms]) (auto simp: div_le_mono)
    show ?thesis
    proof (cases "p div 16 < n div 16")
      case True
      then have "p div 16 * 16 + 16 \<le> n" and "p < p div 16 * 16 + 16" by linarith+
      then show ?thesis
        using False True blk scan [of "p div 16 * 16" "p div 16 * 16 + 16"]
        by (simp add: binarySearch_def Let_def)
    next
      case no: False
      then have "n div 16 * 16 \<le> p" using pn by (metis div_le_mono div_times_less_eq_dividend
            le_antisym linorder_not_less)
      then show ?thesis
        using False no blk scan [of "n div 16 * 16" n] pn
        by (simp add: binarySearch_def Let_def)
    qed
  qed
qed

theorem binarySearch_prefix:
  "n \<le> length a \<Longrightarrow> ssorted (take n a) \<Longrightarrow> binarySearch a n k = search_result (take n a) k"
  using binarySearch_splits [OF splits_at_lower_bound, of n a k]
    lower_bound_le [of "take n a" k]
  by (auto simp: search_result_def Let_def)

interpretation bs: sorted_search binarySearch "\<lambda>x. x"
  by unfold_locales (simp add: binarySearch_prefix)

lemma splits_at_ge: "splits_at a n k p \<Longrightarrow> i < n \<Longrightarrow> k \<le> a ! i \<Longrightarrow> p \<le> i"
  unfolding splits_at_def by (metis leD leI)

lemma splits_at_hit:
  assumes "n \<le> length a" and "ssorted (take n a)" and s: "splits_at a n k p"
    and "j < n" and "a ! j = k"
  shows "p = j"
proof (rule ccontr)
  assume "p \<noteq> j"
  moreover have "p \<le> j" using splits_at_ge [OF s assms(4)] assms(5) by simp
  ultimately have pj: "p < j" by simp
  then have "take n a ! p < take n a ! j"
    using assms by (intro ssorted_nth_less) auto
  then have "a ! p < k" using assms pj by simp
  then show False using s pj assms(4) unfolding splits_at_def by (metis order_less_trans order_less_irrefl)
qed

subsection \<open>advanceUntil: galloping search\<close>

text \<open>\<open>while ((lower + spansize < length) && (array[lower + spansize] < min)) spansize <<= 1\<close>\<close>

definition au_gallop :: "u16 list \<Rightarrow> nat \<Rightarrow> nat \<Rightarrow> u16 \<Rightarrow> nat" where
  "au_gallop array lower len minv =
     while (\<lambda>spansize. lower + spansize < len \<and> array ! (lower + spansize) < minv)
       (\<lambda>spansize. spansize * 2) 1"

text \<open>\<open>while (lower + 1 != upper)\<close>; the third component is the early \<open>return mid\<close>.\<close>

definition au_bisect :: "u16 list \<Rightarrow> u16 \<Rightarrow> nat \<Rightarrow> nat \<Rightarrow> nat" where
  "au_bisect array minv lower upper =
     (case while (\<lambda>(lower, upper, found). found = None \<and> lower + 1 \<noteq> upper)
            (\<lambda>(lower, upper, found).
               let mid = (lower + upper) div 2
               in if array ! mid = minv then (lower, upper, Some mid)
                  else if array ! mid < minv then (mid, upper, None)
                  else (lower, mid, None))
            (lower, upper, None :: nat option)
      of (lower, upper, found) \<Rightarrow> (case found of Some mid \<Rightarrow> mid | None \<Rightarrow> upper))"

definition advanceUntil :: "u16 list \<Rightarrow> int \<Rightarrow> nat \<Rightarrow> u16 \<Rightarrow> nat" where
  "advanceUntil array pos len minv =
     (let lower = nat (pos + 1)
      in if lower \<ge> len \<or> array ! lower \<ge> minv then lower
         else let spansize = au_gallop array lower len minv;
                  upper = (if lower + spansize < len then lower + spansize else len - 1)
              in if array ! upper = minv then upper
                 else if array ! upper < minv then len
                 else au_bisect array minv (lower + spansize div 2) upper)"

lemma au_gallop_splits:
  assumes "splits_at a n k p" and "lower < p"
  shows "lower + au_gallop a lower n k div 2 < p \<and> p \<le> lower + au_gallop a lower n k"
  unfolding au_gallop_def
proof (rule while_rule [where P = "\<lambda>s. 0 < s \<and> lower + s div 2 < p"
      and r = "measure (\<lambda>s. n - s)"])
  show "0 < (1 :: nat) \<and> lower + 1 div 2 < p" using assms by simp
next
  fix s :: nat
  assume "0 < s \<and> lower + s div 2 < p" and "lower + s < n \<and> a ! (lower + s) < k"
  then show "0 < s * 2 \<and> lower + s * 2 div 2 < p"
    using assms(1) by (auto simp: splits_at_def)
next
  fix s :: nat
  assume "0 < s \<and> lower + s div 2 < p" and "\<not> (lower + s < n \<and> a ! (lower + s) < k)"
  then show "lower + s div 2 < p \<and> p \<le> lower + s"
    using splits_at_ge [OF assms(1), of "lower + s"] assms(1)
    by (cases "lower + s < n") (auto simp: splits_at_def not_less)
next
  show "wf (measure (\<lambda>s. n - s))" by simp
next
  fix s :: nat
  assume "0 < s \<and> lower + s div 2 < p" and "lower + s < n \<and> a ! (lower + s) < k"
  then show "(s * 2, s) \<in> measure (\<lambda>s. n - s)" by auto
qed

lemma au_bisect_splits:
  assumes "n \<le> length a" and "ssorted (take n a)" and "splits_at a n k p"
    and "lower < p" and "p \<le> upper" and "upper < n"
  shows "au_bisect a k lower upper = p"
proof -
  let ?b = "\<lambda>(lower, upper, found). found = None \<and> lower + 1 \<noteq> (upper :: nat)"
  let ?c = "\<lambda>(lower, upper, found :: nat option).
      let mid = (lower + upper) div 2
      in if a ! mid = k then (lower, upper, Some mid)
         else if a ! mid < k then (mid, upper, None) else (lower, mid, None)"
  let ?P = "\<lambda>(lower, upper, found). lower < p \<and> p \<le> upper \<and> upper < n \<and>
      (case found of Some m \<Rightarrow> m = p | None \<Rightarrow> True)"
  let ?r = "measure (\<lambda>(lower, upper, found). if found = None then Suc (upper - lower) else 0)"
  have step: "?P (?c s) \<and> (?c s, s) \<in> ?r" if P: "?P s" and B: "?b s" for s
  proof -
    obtain l u where s: "s = (l, u, None)" using B by (cases s) auto
    with P B have h: "l < p" "p \<le> u" "u < n" "l + 1 < u" by auto
    define m where "m = (l + u) div 2"
    have m: "l < m" "m < u" using h by (auto simp: m_def)
    have hit: "a ! m = k \<Longrightarrow> m = p"
      using splits_at_hit [OF assms(1-3)] m h by (metis order_less_trans)
    have lt: "a ! m < k \<longleftrightarrow> m < p" using assms(3) m h by (simp add: splits_at_def)
    show ?thesis using h m hit lt by (auto simp: s Let_def simp flip: m_def)
  qed
  have "case while ?b ?c (lower, upper, None) of
      (l, u, found) \<Rightarrow> (case found of Some m \<Rightarrow> m = p | None \<Rightarrow> u = p)"
  proof (rule while_rule [where P = ?P and r = ?r])
    show "?P (lower, upper, None)" using assms by simp
    show "case s of (l, u, found) \<Rightarrow> (case found of Some m \<Rightarrow> m = p | None \<Rightarrow> u = p)"
      if P: "?P s" and B: "\<not> ?b s" for s
    proof -
      obtain l u f where s: "s = (l, u, f)" by (cases s)
      show ?thesis using P B by (cases f) (simp_all add: s)
    qed
    show "wf ?r" by simp
    show "?P (?c s)" if "?P s" and "?b s" for s using step [OF that] by (rule conjunct1)
    show "(?c s, s) \<in> ?r" if "?P s" and "?b s" for s using step [OF that] by (rule conjunct2)
  qed
  moreover obtain l u f where w: "while ?b ?c (lower, upper, None) = (l, u, f)"
    by (rule prod_cases3)
  ultimately show ?thesis unfolding au_bisect_def w by (cases f) simp_all
qed

lemma advanceUntil_splits:
  assumes "n \<le> length a" and "ssorted (take n a)" and "splits_at a n k p" and "nat (pos + 1) \<le> n"
  shows "advanceUntil a pos n k = max (nat (pos + 1)) p"
proof -
  define lower where "lower = nat (pos + 1)"
  have p: "p \<le> n" "\<And>i. i < n \<Longrightarrow> a ! i < k \<longleftrightarrow> i < p"
    using assms(3) by (auto simp: splits_at_def)
  show ?thesis
  proof (cases "lower < n \<and> a ! lower < k")
    case False
    then have "p \<le> lower" using p(1) assms(4) splits_at_ge [OF assms(3), of lower]
      by (cases "lower < n") (auto simp: lower_def not_less)
    then show ?thesis using False
      by (auto simp: advanceUntil_def Let_def not_less max_def simp flip: lower_def)
  next
    case True
    then have lp: "lower < p" using p by auto
    define s where "s = au_gallop a lower n k"
    have s: "lower + s div 2 < p" "p \<le> lower + s"
      using au_gallop_splits [OF assms(3) lp] by (auto simp: s_def)
    define upper where "upper = (if lower + s < n then lower + s else n - 1)"
    have un: "upper < n" using True by (auto simp: upper_def)
    have res: "advanceUntil a pos n k = (if a ! upper = k then upper
        else if a ! upper < k then n else au_bisect a k (lower + s div 2) upper)"
      using True by (auto simp: advanceUntil_def Let_def upper_def s_def lower_def not_le)
    have "advanceUntil a pos n k = p"
    proof (cases "a ! upper" k rule: linorder_cases)
      case equal
      then show ?thesis using res splits_at_hit [OF assms(1-3) un] by simp
    next
      case less
      then have "upper < p" using p un by blast
      then have "n = p" using s p(1) by (auto simp: upper_def split: if_splits)
      then show ?thesis using res less by auto
    next
      case greater
      then have "p \<le> upper" using splits_at_ge [OF assms(3) un] by simp
      then show ?thesis
        using res greater au_bisect_splits [OF assms(1-3) s(1) _ un] by auto
    qed
    then show ?thesis using lp by (simp add: lower_def)
  qed
qed

lemma advanceUntil_correct:
  "ssorted a \<Longrightarrow> n = length a \<Longrightarrow> nat (pos + 1) \<le> n \<Longrightarrow>
     advanceUntil a pos n k = max (nat (pos + 1)) (lower_bound a k)"
  using advanceUntil_splits [of n a k "lower_bound a k" pos] splits_at_lower_bound [of n a k]
  by simp

subsection \<open>Counting\<close>

definition count_less :: "u16 list \<Rightarrow> nat \<Rightarrow> u16 \<Rightarrow> nat" where
  "count_less array lenarray ikey =
     (if lenarray = 0 then 0
      else let pos = binarySearch array lenarray ikey
           in if pos \<ge> 0 then nat pos else nat (- (pos + 1)))"

definition count_greater :: "u16 list \<Rightarrow> nat \<Rightarrow> u16 \<Rightarrow> int" where
  "count_greater array lenarray ikey =
     (if lenarray = 0 then 0
      else let pos = binarySearch array lenarray ikey
           in if pos \<ge> 0 then int lenarray - (pos + 1) else int lenarray - (- pos - 1))"

lemma count_less_prefix:
  "n \<le> length a \<Longrightarrow> ssorted (take n a) \<Longrightarrow> count_less a n k = lower_bound (take n a) k"
  by (auto simp: count_less_def binarySearch_prefix search_result_def Let_def)

lemma count_less_card:
  "n \<le> length a \<Longrightarrow> ssorted (take n a) \<Longrightarrow> count_less a n k = card {x \<in> set (take n a). x < k}"
  by (simp add: count_less_prefix lower_bound_card)

lemma card_less_eq_greater:
  fixes k :: "'a::linorder"
  assumes "finite S"
  shows "card {x \<in> S. x < k} + of_bool (k \<in> S) + card {x \<in> S. k < x} = card S"
proof -
  have "S = {x \<in> S. x < k} \<union> {x \<in> S. x = k} \<union> {x \<in> S. k < x}" by auto
  then have "card S = card ({x \<in> S. x < k} \<union> {x \<in> S. x = k}) + card {x \<in> S. k < x}"
    using assms by (subst card_Un_disjoint [symmetric]) auto
  also have "card ({x \<in> S. x < k} \<union> {x \<in> S. x = k}) = card {x \<in> S. x < k} + card {x \<in> S. x = k}"
    using assms by (intro card_Un_disjoint) auto
  also have "card {x \<in> S. x = k} = of_bool (k \<in> S)"
    by (auto simp: Collect_conv_if)
  finally show ?thesis by simp
qed

lemma count_greater_card:
  assumes "n \<le> length a" and "ssorted (take n a)"
  shows "count_greater a n k = int (card {x \<in> set (take n a). k < x})"
proof -
  let ?xs = "take n a"
  have c: "card {x \<in> set ?xs. x < k} + of_bool (k \<in> set ?xs) + card {x \<in> set ?xs. k < x} = n"
    using card_less_eq_greater [of "set ?xs" k] ssorted_card [OF assms(2)] assms(1) by simp
  have "count_greater a n k = int n - int (lower_bound ?xs k) - of_bool (k \<in> set ?xs)"
    using assms
    by (auto simp: count_greater_def binarySearch_prefix search_result_found search_result_absent Let_def)
  also have "lower_bound ?xs k = card {x \<in> set ?xs. x < k}" using assms(2) by (rule lower_bound_card)
  finally show ?thesis using arg_cong [OF c, of int] by (cases "k \<in> set ?xs") simp_all
qed

end
