(* ===== verification/Array_Setops.thy ===== *)
theory Array_Setops
  imports Array_Util
begin

text \<open>
  Set operations of \<open>src/array_util.c\<close> on strictly increasing arrays. The generic loops are
  written once over a linear order; \<open>uint16_t\<close> and \<open>uint32_t\<close> versions instantiate them, as
  their C texts differ in the element type only. Each loop is specified by the set of its
  output, which together with strict sortedness determines the output.
\<close>

section \<open>Intersection\<close>

text \<open>
  The three program points of the \<open>goto\<close> loop: \<open>isect_a\<close> is \<open>while (*A < *B)\<close>,
  \<open>isect_skip\<close> the label \<open>SKIP_FIRST_COMPARE\<close>, \<open>isect_b\<close> is \<open>while (*A > *B)\<close> and the test
  after it. The arguments are the suffixes at \<open>A\<close> and \<open>B\<close>, the result what is written to
  \<open>out\<close> from here on. The pointers never reach the end inside the loop.
\<close>

function (sequential) isect_a :: "'a::linorder list \<Rightarrow> 'a list \<Rightarrow> 'a list"
  and isect_skip :: "'a::linorder list \<Rightarrow> 'a list \<Rightarrow> 'a list"
  and isect_b :: "'a::linorder list \<Rightarrow> 'a list \<Rightarrow> 'a list" where
  "isect_a (a # as) (b # bs) =
     (if a < b then isect_skip (a # as) (b # bs) else isect_b (a # as) (b # bs))"
| "isect_a _ _ = []"
| "isect_skip (a # as) (b # bs) = (if as = [] then [] else isect_a as (b # bs))"
| "isect_skip _ _ = []"
| "isect_b (a # as) (b # bs) =
     (if a > b then (if bs = [] then [] else isect_b (a # as) bs)
      else if a = b then a # (if as = [] \<or> bs = [] then [] else isect_a as bs)
      else isect_skip (a # as) (b # bs))"
| "isect_b _ _ = []"
  by pat_completeness auto
termination
  by (relation "measures [\<lambda>x. case x of Inl (a, b) \<Rightarrow> length a + length b
        | Inr (Inl (a, b)) \<Rightarrow> length a + length b | Inr (Inr (a, b)) \<Rightarrow> length a + length b,
      \<lambda>x. case x of Inl _ \<Rightarrow> 2 | Inr (Inl _) \<Rightarrow> 0 | Inr (Inr _) \<Rightarrow> 1]") auto

definition intersect_generic :: "'a::linorder list \<Rightarrow> 'a list \<Rightarrow> 'a list" where
  "intersect_generic A B = (if A = [] \<or> B = [] then [] else isect_a A B)"

definition intersect_uint16 :: "u16 list \<Rightarrow> u16 list \<Rightarrow> u16 list" where
  "intersect_uint16 A B = intersect_generic A B"

definition intersection_uint32 :: "u32 list \<Rightarrow> u32 list \<Rightarrow> u32 list" where
  "intersection_uint32 A B = intersect_generic A B"

lemma filter_mem_Cons:
  "b \<notin> set as \<Longrightarrow> filter (\<lambda>x. x \<in> set (b # bs)) as = filter (\<lambda>x. x \<in> set bs) as"
  "b \<notin> set as \<Longrightarrow> filter (\<lambda>x. x \<notin> set (b # bs)) as = filter (\<lambda>x. x \<notin> set bs) as"
  by (auto intro!: filter_cong)

lemma ssorted_hd_notin: "ssorted (a # as) \<Longrightarrow> b \<le> a \<Longrightarrow> b \<notin> set as"
  by auto

lemma isect_filter:
  "ssorted A \<Longrightarrow> ssorted B \<Longrightarrow> isect_a A B = filter (\<lambda>x. x \<in> set B) A"
  "ssorted A \<Longrightarrow> ssorted B \<Longrightarrow> (A \<noteq> [] \<Longrightarrow> B \<noteq> [] \<Longrightarrow> hd A < hd B) \<Longrightarrow>
     isect_skip A B = filter (\<lambda>x. x \<in> set B) A"
  "ssorted A \<Longrightarrow> ssorted B \<Longrightarrow> isect_b A B = filter (\<lambda>x. x \<in> set B) A"
proof (induction A B and A B and A B rule: isect_a_isect_skip_isect_b.induct)
  case (5 a as b bs)
  show ?case
  proof (cases a b rule: linorder_cases)
    case less
    then have "isect_b (a # as) (b # bs) = isect_skip (a # as) (b # bs)" by auto
    then show ?thesis using 5 less by (metis less_imp_not_less list.sel(1) order_less_irrefl)
  next
    case equal
    then have "b \<notin> set as" using 5 by (auto intro: ssorted_hd_notin)
    then show ?thesis using 5 equal filter_mem_Cons(1) [of b as bs] by auto
  next
    case greater
    then have "b \<notin> set (a # as)" using 5 by (auto dest: ssorted_hd_notin [of a as b])
    then show ?thesis using 5 greater filter_mem_Cons(1) [of b "a # as" bs] by auto
  qed
qed (auto simp: filter_empty_conv)

theorem intersect_generic_filter:
  "ssorted A \<Longrightarrow> ssorted B \<Longrightarrow> intersect_generic A B = filter (\<lambda>x. x \<in> set B) A"
  by (auto simp: intersect_generic_def isect_filter)

text \<open>The counting version of the same loop.\<close>

function (sequential) icard_a :: "'a::linorder list \<Rightarrow> 'a list \<Rightarrow> nat \<Rightarrow> nat"
  and icard_skip :: "'a::linorder list \<Rightarrow> 'a list \<Rightarrow> nat \<Rightarrow> nat"
  and icard_b :: "'a::linorder list \<Rightarrow> 'a list \<Rightarrow> nat \<Rightarrow> nat" where
  "icard_a (a # as) (b # bs) n =
     (if a < b then icard_skip (a # as) (b # bs) n else icard_b (a # as) (b # bs) n)"
| "icard_a _ _ n = n"
| "icard_skip (a # as) (b # bs) n = (if as = [] then n else icard_a as (b # bs) n)"
| "icard_skip _ _ n = n"
| "icard_b (a # as) (b # bs) n =
     (if a > b then (if bs = [] then n else icard_b (a # as) bs n)
      else if a = b then (if as = [] \<or> bs = [] then n + 1 else icard_a as bs (n + 1))
      else icard_skip (a # as) (b # bs) n)"
| "icard_b _ _ n = n"
  by pat_completeness auto
termination
  by (relation "measures [\<lambda>x. case x of Inl (a, b, n) \<Rightarrow> length a + length b
        | Inr (Inl (a, b, n)) \<Rightarrow> length a + length b
        | Inr (Inr (a, b, n)) \<Rightarrow> length a + length b,
      \<lambda>x. case x of Inl _ \<Rightarrow> 2 | Inr (Inl _) \<Rightarrow> 0 | Inr (Inr _) \<Rightarrow> 1]") auto

definition intersect_generic_card :: "'a::linorder list \<Rightarrow> 'a list \<Rightarrow> nat" where
  "intersect_generic_card A B = (if A = [] \<or> B = [] then 0 else icard_a A B 0)"

definition intersect_uint16_cardinality :: "u16 list \<Rightarrow> u16 list \<Rightarrow> nat" where
  "intersect_uint16_cardinality A B = intersect_generic_card A B"

definition intersection_uint32_card :: "u32 list \<Rightarrow> u32 list \<Rightarrow> nat" where
  "intersection_uint32_card A B = intersect_generic_card A B"

lemma icard_isect:
  "icard_a A B n = n + length (isect_a A B)"
  "icard_skip A B n = n + length (isect_skip A B)"
  "icard_b A B n = n + length (isect_b A B)"
  by (induction A B n and A B n and A B n rule: icard_a_icard_skip_icard_b.induct) auto

theorem intersect_generic_card_eq: "intersect_generic_card A B = length (intersect_generic A B)"
  by (simp add: intersect_generic_card_def intersect_generic_def icard_isect)

text \<open>The early-exit version.\<close>

function (sequential) iany_a :: "'a::linorder list \<Rightarrow> 'a list \<Rightarrow> bool"
  and iany_skip :: "'a::linorder list \<Rightarrow> 'a list \<Rightarrow> bool"
  and iany_b :: "'a::linorder list \<Rightarrow> 'a list \<Rightarrow> bool" where
  "iany_a (a # as) (b # bs) =
     (if a < b then iany_skip (a # as) (b # bs) else iany_b (a # as) (b # bs))"
| "iany_a _ _ = False"
| "iany_skip (a # as) (b # bs) = (if as = [] then False else iany_a as (b # bs))"
| "iany_skip _ _ = False"
| "iany_b (a # as) (b # bs) =
     (if a > b then (if bs = [] then False else iany_b (a # as) bs)
      else if a = b then True
      else iany_skip (a # as) (b # bs))"
| "iany_b _ _ = False"
  by pat_completeness auto
termination
  by (relation "measures [\<lambda>x. case x of Inl (a, b) \<Rightarrow> length a + length b
        | Inr (Inl (a, b)) \<Rightarrow> length a + length b | Inr (Inr (a, b)) \<Rightarrow> length a + length b,
      \<lambda>x. case x of Inl _ \<Rightarrow> 2 | Inr (Inl _) \<Rightarrow> 0 | Inr (Inr _) \<Rightarrow> 1]") auto

definition intersect_uint16_nonempty :: "u16 list \<Rightarrow> u16 list \<Rightarrow> bool" where
  "intersect_uint16_nonempty A B = (if A = [] \<or> B = [] then False else iany_a A B)"

lemma iany_isect:
  "iany_a A B \<longleftrightarrow> isect_a A B \<noteq> []"
  "iany_skip A B \<longleftrightarrow> isect_skip A B \<noteq> []"
  "iany_b A B \<longleftrightarrow> isect_b A B \<noteq> []"
  by (induction A B and A B and A B rule: iany_a_iany_skip_iany_b.induct) auto

theorem intersect_uint16_nonempty_eq:
  "intersect_uint16_nonempty A B \<longleftrightarrow> intersect_uint16 A B \<noteq> []"
  by (simp add: intersect_uint16_nonempty_def intersect_uint16_def intersect_generic_def iany_isect)

section \<open>Union\<close>

text \<open>
  The loop \<open>while (true)\<close> of \<open>union_uint16\<close>, both suffixes non-empty, with the tail copy
  (\<open>memmove\<close>) that follows each \<open>break\<close>.
\<close>

fun union_loop :: "'a::linorder list \<Rightarrow> 'a list \<Rightarrow> 'a list" where
  "union_loop (val_1 # r1) (val_2 # r2) =
     (if val_1 < val_2 then val_1 # (if r1 = [] then val_2 # r2 else union_loop r1 (val_2 # r2))
      else if val_2 < val_1 then val_2 # (if r2 = [] then val_1 # r1 else union_loop (val_1 # r1) r2)
      else val_1 # (if r1 = [] \<or> r2 = [] then (if r1 \<noteq> [] then r1 else r2)
                    else union_loop r1 r2))"
| "union_loop _ _ = []"

definition union_generic :: "'a::linorder list \<Rightarrow> 'a list \<Rightarrow> 'a list" where
  "union_generic set_1 set_2 =
     (if set_2 = [] then set_1 else if set_1 = [] then set_2 else union_loop set_1 set_2)"

definition union_uint16 :: "u16 list \<Rightarrow> u16 list \<Rightarrow> u16 list" where
  "union_uint16 set_1 set_2 = union_generic set_1 set_2"

definition union_uint32 :: "u32 list \<Rightarrow> u32 list \<Rightarrow> u32 list" where
  "union_uint32 set_1 set_2 = union_generic set_1 set_2"

definition fast_union_uint16 :: "u16 list \<Rightarrow> u16 list \<Rightarrow> u16 list" where
  "fast_union_uint16 set_1 set_2 =
     (if length set_1 < length set_2 then union_uint16 set_1 set_2 else union_uint16 set_2 set_1)"

lemma union_loop_set: "A \<noteq> [] \<Longrightarrow> B \<noteq> [] \<Longrightarrow> set (union_loop A B) = set A \<union> set B"
  by (induction A B rule: union_loop.induct) auto

lemma union_loop_ssorted: "ssorted A \<Longrightarrow> ssorted B \<Longrightarrow> ssorted (union_loop A B)"
proof (induction A B rule: union_loop.induct)
  case (1 a as b bs)
  show ?case
  proof (cases a b rule: linorder_cases)
    case less
    then show ?thesis using 1 by (auto simp: union_loop_set)
  next
    case equal
    then show ?thesis using 1 by (auto simp: union_loop_set)
  next
    case greater
    then show ?thesis using 1 by (auto simp: union_loop_set)
  qed
qed auto

theorem union_generic_set: "set (union_generic A B) = set A \<union> set B"
  by (auto simp: union_generic_def union_loop_set)

theorem union_generic_ssorted: "ssorted A \<Longrightarrow> ssorted B \<Longrightarrow> ssorted (union_generic A B)"
  by (simp add: union_generic_def union_loop_ssorted)

fun union_card_loop :: "'a::linorder list \<Rightarrow> 'a list \<Rightarrow> nat \<Rightarrow> nat" where
  "union_card_loop (val_1 # r1) (val_2 # r2) pos =
     (if val_1 < val_2
      then (if r1 = [] then pos + 1 + length (val_2 # r2) else union_card_loop r1 (val_2 # r2) (pos + 1))
      else if val_2 < val_1
      then (if r2 = [] then pos + 1 + length (val_1 # r1) else union_card_loop (val_1 # r1) r2 (pos + 1))
      else (if r1 = [] \<or> r2 = [] then pos + 1 + (if r1 \<noteq> [] then length r1 else length r2)
            else union_card_loop r1 r2 (pos + 1)))"
| "union_card_loop _ _ pos = pos"

definition union_uint32_card :: "u32 list \<Rightarrow> u32 list \<Rightarrow> nat" where
  "union_uint32_card set_1 set_2 =
     (if set_2 = [] then length set_1 else if set_1 = [] then length set_2
      else union_card_loop set_1 set_2 0)"

lemma union_card_loop_eq: "union_card_loop A B n = n + length (union_loop A B)"
  by (induction A B n rule: union_card_loop.induct) auto

theorem union_uint32_card_eq: "union_uint32_card A B = length (union_uint32 A B)"
  by (simp add: union_uint32_card_def union_uint32_def union_generic_def union_card_loop_eq)

section \<open>Difference\<close>

fun difference_loop :: "u16 list \<Rightarrow> u16 list \<Rightarrow> u16 list" where
  "difference_loop (s1 # r1) (s2 # r2) =
     (if s1 < s2 then s1 # (if r1 = [] then [] else difference_loop r1 (s2 # r2))
      else if s1 = s2
      then (if r1 = [] then [] else if r2 = [] then r1 else difference_loop r1 r2)
      else (if r2 = [] then s1 # r1 else difference_loop (s1 # r1) r2))"
| "difference_loop _ _ = []"

definition difference_uint16 :: "u16 list \<Rightarrow> u16 list \<Rightarrow> u16 list" where
  "difference_uint16 a1 a2 =
     (if a1 = [] then [] else if a2 = [] then a1 else difference_loop a1 a2)"

lemma difference_loop_filter:
  "ssorted A \<Longrightarrow> ssorted B \<Longrightarrow> B \<noteq> [] \<Longrightarrow> difference_loop A B = filter (\<lambda>x. x \<notin> set B) A"
proof (induction A B rule: difference_loop.induct)
  case (1 a as b bs)
  show ?case
  proof (cases a b rule: linorder_cases)
    case less
    then show ?thesis using 1 by auto
  next
    case equal
    then have "b \<notin> set as" using 1 by (auto intro: ssorted_hd_notin)
    then show ?thesis using 1 equal filter_mem_Cons(2) [of b as bs] by auto
  next
    case greater
    then have "b \<notin> set (a # as)" using 1 by (auto dest: ssorted_hd_notin [of a as b])
    then show ?thesis using 1 greater filter_mem_Cons(2) [of b "a # as" bs] by auto
  qed
qed auto

theorem difference_uint16_filter:
  "ssorted A \<Longrightarrow> ssorted B \<Longrightarrow> difference_uint16 A B = filter (\<lambda>x. x \<notin> set B) A"
  by (simp add: difference_uint16_def difference_loop_filter)

section \<open>Symmetric difference\<close>

fun xor_uint16 :: "u16 list \<Rightarrow> u16 list \<Rightarrow> u16 list" where
  "xor_uint16 (v1 # r1) (v2 # r2) =
     (if v1 = v2 then xor_uint16 r1 r2
      else if v1 < v2 then v1 # xor_uint16 r1 (v2 # r2)
      else v2 # xor_uint16 (v1 # r1) r2)"
| "xor_uint16 (v1 # r1) [] = v1 # r1"
| "xor_uint16 [] r2 = r2"

lemma xor_uint16_set:
  "ssorted A \<Longrightarrow> ssorted B \<Longrightarrow> set (xor_uint16 A B) = (set A - set B) \<union> (set B - set A)"
  by (induction A B rule: xor_uint16.induct) auto

lemma xor_uint16_ssorted: "ssorted A \<Longrightarrow> ssorted B \<Longrightarrow> ssorted (xor_uint16 A B)"
proof (induction A B rule: xor_uint16.induct)
  case (1 a as b bs)
  then show ?case by (cases a b rule: linorder_cases) (auto simp: xor_uint16_set)
qed auto

end
