(* ===== verification/Array_Skewed.thy ===== *)
theory Array_Skewed
  imports Array_Setops
begin

text \<open>
  Intersection of a small with a large array (\<open>src/array_util.c\<close>): branchless binary searches
  for four and two targets at once, the block-wise \<open>intersect_skewed_uint16\<close>, and the two
  galloping loops that only count or only test. Positions in an array are indices here, since
  these routines jump.
\<close>

section \<open>binarySearch4 and binarySearch2\<close>

text \<open>
  \<open>base1\<close> .. \<open>base4\<close> are pointers into the array, here the offsets from its start. All four
  searches share \<open>n\<close> and \<open>half\<close>.
\<close>

function bs4_loop :: "u16 list \<Rightarrow> nat \<Rightarrow> u16 \<times> u16 \<times> u16 \<times> u16 \<Rightarrow> nat \<times> nat \<times> nat \<times> nat \<Rightarrow>
    nat \<times> nat \<times> nat \<times> nat" where
  "bs4_loop array n (target1, target2, target3, target4) (base1, base2, base3, base4) =
     (if n > 1
      then let half = n div 2
           in bs4_loop array (n - half) (target1, target2, target3, target4)
                (if array ! (base1 + half) < target1 then base1 + half else base1,
                 if array ! (base2 + half) < target2 then base2 + half else base2,
                 if array ! (base3 + half) < target3 then base3 + half else base3,
                 if array ! (base4 + half) < target4 then base4 + half else base4)
      else (base1, base2, base3, base4))"
  by pat_completeness auto
termination
  by (relation "measure (\<lambda>(array, n, targets, bases). n)") auto

text \<open>With \<open>n = 0\<close> the four output cells \<open>indices\<close> keep their values.\<close>

definition binarySearch4 :: "u16 list \<Rightarrow> nat \<Rightarrow> u16 \<times> u16 \<times> u16 \<times> u16 \<Rightarrow> nat \<times> nat \<times> nat \<times> nat \<Rightarrow>
    nat \<times> nat \<times> nat \<times> nat" where
  "binarySearch4 array n targets indices =
     (if n = 0 then indices
      else case targets of (target1, target2, target3, target4) \<Rightarrow>
        (case bs4_loop array n targets (0, 0, 0, 0) of (base1, base2, base3, base4) \<Rightarrow>
           (of_bool (array ! base1 < target1) + base1, of_bool (array ! base2 < target2) + base2,
            of_bool (array ! base3 < target3) + base3, of_bool (array ! base4 < target4) + base4)))"

function bs2_loop :: "u16 list \<Rightarrow> nat \<Rightarrow> u16 \<times> u16 \<Rightarrow> nat \<times> nat \<Rightarrow> nat \<times> nat" where
  "bs2_loop array n (target1, target2) (base1, base2) =
     (if n > 1
      then let half = n div 2
           in bs2_loop array (n - half) (target1, target2)
                (if array ! (base1 + half) < target1 then base1 + half else base1,
                 if array ! (base2 + half) < target2 then base2 + half else base2)
      else (base1, base2))"
  by pat_completeness auto
termination
  by (relation "measure (\<lambda>(array, n, targets, bases). n)") auto

definition binarySearch2 :: "u16 list \<Rightarrow> nat \<Rightarrow> u16 \<times> u16 \<Rightarrow> nat \<times> nat \<Rightarrow> nat \<times> nat" where
  "binarySearch2 array n targets indices =
     (if n = 0 then indices
      else case targets of (target1, target2) \<Rightarrow>
        (case bs2_loop array n targets (0, 0) of (base1, base2) \<Rightarrow>
           (of_bool (array ! base1 < target1) + base1,
            of_bool (array ! base2 < target2) + base2)))"

text \<open>One lane of the search: what each of the four components computes on its own.\<close>

function bs1_loop :: "u16 list \<Rightarrow> nat \<Rightarrow> u16 \<Rightarrow> nat \<Rightarrow> nat" where
  "bs1_loop array n target base =
     (if n > 1
      then bs1_loop array (n - n div 2) target
             (if array ! (base + n div 2) < target then base + n div 2 else base)
      else base)"
  by pat_completeness auto
termination
  by (relation "measure (\<lambda>(array, n, target, base). n)") auto

declare bs4_loop.simps [simp del] bs2_loop.simps [simp del] bs1_loop.simps [simp del]

lemma bs4_lanes:
  "bs4_loop a n (t1, t2, t3, t4) (b1, b2, b3, b4) =
     (bs1_loop a n t1 b1, bs1_loop a n t2 b2, bs1_loop a n t3 b3, bs1_loop a n t4 b4)"
proof (induction n arbitrary: b1 b2 b3 b4 rule: less_induct)
  case (less n)
  show ?case
    by (subst bs4_loop.simps, subst (1 2 3 4) bs1_loop.simps) (simp add: Let_def less.IH)
qed

lemma bs2_lanes:
  "bs2_loop a n (t1, t2) (b1, b2) = (bs1_loop a n t1 b1, bs1_loop a n t2 b2)"
proof (induction n arbitrary: b1 b2 rule: less_induct)
  case (less n)
  show ?case
    by (subst bs2_loop.simps, subst (1 2) bs1_loop.simps) (simp add: Let_def less.IH)
qed

lemma bs1_loop_splits:
  assumes "splits_at a len t p"
  shows "0 < n \<Longrightarrow> base + n \<le> len \<Longrightarrow> base = 0 \<or> base < p \<Longrightarrow> p \<le> base + n \<Longrightarrow>
     of_bool (a ! bs1_loop a n t base < t) + bs1_loop a n t base = p"
proof (induction n arbitrary: base rule: less_induct)
  case (less n)
  show ?case
  proof (cases "n > 1")
    case True
    let ?h = "n div 2"
    have "a ! (base + ?h) < t \<longleftrightarrow> base + ?h < p"
      using assms less.prems True by (auto simp: splits_at_def)
    then have "bs1_loop a n t base = bs1_loop a (n - ?h) t (if base + ?h < p then base + ?h else base)"
      using True by (subst bs1_loop.simps) simp
    then show ?thesis
      using less.IH [of "n - ?h" "if base + ?h < p then base + ?h else base"] less.prems True
      by (cases "base + ?h < p") auto
  next
    case False
    then have n: "n = 1" using less.prems by simp
    then have "a ! base < t \<longleftrightarrow> base < p" using assms less.prems by (auto simp: splits_at_def)
    then show ?thesis using n less.prems by (subst (1 2) bs1_loop.simps) auto
  qed
qed

lemma bs1_loop_correct:
  "ssorted a \<Longrightarrow> a \<noteq> [] \<Longrightarrow>
     of_bool (a ! bs1_loop a (length a) t 0 < t) + bs1_loop a (length a) t 0 = lower_bound a t"
  using bs1_loop_splits [of a "length a" t "lower_bound a t" "length a" 0]
    splits_at_lower_bound [of "length a" a t] by simp

theorem binarySearch4_correct:
  "ssorted a \<Longrightarrow> a \<noteq> [] \<Longrightarrow> binarySearch4 a (length a) (t1, t2, t3, t4) i =
     (lower_bound a t1, lower_bound a t2, lower_bound a t3, lower_bound a t4)"
  by (simp add: binarySearch4_def bs4_lanes bs1_loop_correct)

theorem binarySearch2_correct:
  "ssorted a \<Longrightarrow> a \<noteq> [] \<Longrightarrow> binarySearch2 a (length a) (t1, t2) i = (lower_bound a t1, lower_bound a t2)"
  by (simp add: binarySearch2_def bs2_lanes bs1_loop_correct)

section \<open>intersect_skewed_uint16\<close>

text \<open>\<open>if ((index + idx_l < size_l) && (large[idx_l + index] == target)) buffer[pos++] = target;\<close>\<close>

definition skewed_hit :: "u16 list \<Rightarrow> nat \<Rightarrow> nat \<Rightarrow> u16 \<Rightarrow> u16 list" where
  "skewed_hit large idx_l index target =
     (if index + idx_l < length large \<and> large ! (idx_l + index) = target then [target] else [])"

text \<open>The \<open>while\<close> loop over blocks of four: final \<open>idx_s\<close>, \<open>idx_l\<close>, indices and buffer.\<close>

function skewed_loop4 :: "u16 list \<Rightarrow> u16 list \<Rightarrow> nat \<Rightarrow> nat \<Rightarrow> nat \<times> nat \<times> nat \<times> nat \<Rightarrow> u16 list \<Rightarrow>
    nat \<times> nat \<times> (nat \<times> nat \<times> nat \<times> nat) \<times> u16 list" where
  "skewed_loop4 small large idx_s idx_l indices buffer =
     (if idx_s + 4 \<le> length small \<and> idx_l < length large
      then let target1 = small ! idx_s; target2 = small ! (idx_s + 1);
               target3 = small ! (idx_s + 2); target4 = small ! (idx_s + 3);
               (index1, index2, index3, index4) =
                 binarySearch4 (drop idx_l large) (length large - idx_l)
                   (target1, target2, target3, target4) indices
           in skewed_loop4 small large (idx_s + 4) (idx_l + index4)
                (index1, index2, index3, index4)
                (buffer @ skewed_hit large idx_l index1 target1 @ skewed_hit large idx_l index2 target2
                   @ skewed_hit large idx_l index3 target3 @ skewed_hit large idx_l index4 target4)
      else (idx_s, idx_l, indices, buffer))"
  by pat_completeness auto
termination
  by (relation "measure (\<lambda>(small, large, idx_s, idx_l, indices, buffer). length small - idx_s)") auto

declare skewed_loop4.simps [simp del]

definition skewed_pair :: "u16 list \<Rightarrow> u16 list \<Rightarrow> nat \<Rightarrow> nat \<Rightarrow> nat \<times> nat \<times> nat \<times> nat \<Rightarrow> u16 list \<Rightarrow>
    nat \<times> nat \<times> u16 list" where
  "skewed_pair small large idx_s idx_l indices buffer =
     (if idx_s + 2 \<le> length small \<and> idx_l < length large
      then let target1 = small ! idx_s; target2 = small ! (idx_s + 1);
               (index1, index2) =
                 binarySearch2 (drop idx_l large) (length large - idx_l) (target1, target2)
                   (fst indices, fst (snd indices))
           in (idx_s + 2, idx_l + index2,
               buffer @ skewed_hit large idx_l index1 target1 @ skewed_hit large idx_l index2 target2)
      else (idx_s, idx_l, buffer))"

definition skewed_last :: "u16 list \<Rightarrow> u16 list \<Rightarrow> nat \<Rightarrow> nat \<Rightarrow> u16 list \<Rightarrow> u16 list" where
  "skewed_last small large idx_s idx_l buffer =
     (if idx_s < length small \<and> idx_l < length large
      then let val_s = small ! idx_s;
               index = binarySearch (drop idx_l large) (length large - idx_l) val_s
           in if index \<ge> 0 then buffer @ [val_s] else buffer
      else buffer)"

definition intersect_skewed_uint16 :: "u16 list \<Rightarrow> u16 list \<Rightarrow> u16 list" where
  "intersect_skewed_uint16 small large =
     (if length small = 0 then []
      else case skewed_loop4 small large 0 0 (0, 0, 0, 0) [] of (idx_s, idx_l, indices, buffer) \<Rightarrow>
        (case skewed_pair small large idx_s idx_l indices buffer of (idx_s, idx_l, buffer) \<Rightarrow>
           skewed_last small large idx_s idx_l buffer))"

text \<open>
  The invariant: the buffer holds the common elements of the first \<open>idx_s\<close> cells of \<open>small\<close>,
  and the cells of \<open>large\<close> before \<open>idx_l\<close> are smaller than everything left in \<open>small\<close>.
\<close>

definition skewed_inv :: "u16 list \<Rightarrow> u16 list \<Rightarrow> nat \<Rightarrow> nat \<Rightarrow> u16 list \<Rightarrow> bool" where
  "skewed_inv small large idx_s idx_l buffer \<longleftrightarrow>
     idx_s \<le> length small \<and> idx_l \<le> length large \<and>
     buffer = filter (\<lambda>x. x \<in> set large) (take idx_s small) \<and>
     (\<forall>x \<in> set (drop idx_s small). idx_l \<le> lower_bound large x)"

lemma lower_bound_drop:
  "ssorted xs \<Longrightarrow> i \<le> lower_bound xs k \<Longrightarrow> i + lower_bound (drop i xs) k = lower_bound xs k"
proof -
  assume s: "ssorted xs" and i: "i \<le> lower_bound xs k"
  have il: "i \<le> length xs" using i lower_bound_le [of xs k] by linarith
  have "lower_bound (drop i xs) k = lower_bound xs k - i"
  proof (rule lower_bound_eqI)
    show "lower_bound xs k - i \<le> length (drop i xs)"
      using lower_bound_le [of xs k] by (simp add: diff_le_mono)
    show "drop i xs ! j < k" if "j < lower_bound xs k - i" for j
    proof -
      have "i + j < lower_bound xs k" using that i by simp
      then show ?thesis using lower_bound_nth [of "i + j" xs k] il by simp
    qed
    show "k \<le> drop i xs ! (lower_bound xs k - i)" if "lower_bound xs k - i < length (drop i xs)"
      using that i il by (simp add: lower_bound_ge)
  qed
  then show ?thesis using i by simp
qed

lemma skewed_hit_eq:
  "ssorted large \<Longrightarrow> idx_l \<le> lower_bound large t \<Longrightarrow>
     skewed_hit large idx_l (lower_bound (drop idx_l large) t) t = filter (\<lambda>x. x \<in> set large) [t]"
  using lower_bound_drop [of large idx_l t] ssorted_mem_iff [of large t]
  by (auto simp: skewed_hit_def add.commute)

lemma take_Suc_filter:
  "i < length xs \<Longrightarrow> filter P (take (Suc i) xs) = filter P (take i xs) @ filter P [xs ! i]"
  by (simp add: take_Suc_conv_app_nth)

lemma skewed_inv_advance:
  assumes inv: "skewed_inv small large idx_s idx_l buffer"
    and s: "ssorted small" "ssorted large" and n: "idx_s + n \<le> length small" and "0 < n"
  shows "skewed_inv small large (idx_s + n)
      (idx_l + lower_bound (drop idx_l large) (small ! (idx_s + n - 1)))
      (filter (\<lambda>x. x \<in> set large) (take (idx_s + n) small))"
proof -
  let ?t = "small ! (idx_s + n - 1)"
  have "?t \<in> set (drop idx_s small)"
    using n \<open>0 < n\<close> nth_mem [of "n - 1" "drop idx_s small"] by simp
  then have eq: "idx_l + lower_bound (drop idx_l large) ?t = lower_bound large ?t"
    using inv s by (intro lower_bound_drop) (auto simp: skewed_inv_def)
  moreover have "lower_bound large ?t \<le> lower_bound large x" if "x \<in> set (drop (idx_s + n) small)" for x
  proof -
    obtain j where "j < length (drop (idx_s + n) small)" "x = drop (idx_s + n) small ! j"
      using \<open>x \<in> _\<close> by (metis in_set_conv_nth)
    then have j: "idx_s + n + j < length small" "x = small ! (idx_s + n + j)"
      using n by simp_all
    then have "?t \<le> x" using s(1) \<open>0 < n\<close> by (auto intro!: ssorted_nth_le)
    then show ?thesis using s(2) by (rule lower_bound_mono [rotated])
  qed
  ultimately show ?thesis using n by (simp add: skewed_inv_def)
qed

lemma skewed_block4:
  assumes inv: "skewed_inv small large idx_s idx_l buffer"
    and s: "ssorted small" "ssorted large" and n: "idx_s + 4 \<le> length small" "idx_l < length large"
  shows "binarySearch4 (drop idx_l large) (length large - idx_l)
      (small ! idx_s, small ! (idx_s + 1), small ! (idx_s + 2), small ! (idx_s + 3)) indices =
      (lower_bound (drop idx_l large) (small ! idx_s),
       lower_bound (drop idx_l large) (small ! (idx_s + 1)),
       lower_bound (drop idx_l large) (small ! (idx_s + 2)),
       lower_bound (drop idx_l large) (small ! (idx_s + 3)))"
    and "i < 4 \<Longrightarrow> skewed_hit large idx_l (lower_bound (drop idx_l large) (small ! (idx_s + i))) (small ! (idx_s + i))
      = filter (\<lambda>x. x \<in> set large) [small ! (idx_s + i)]"
proof -
  show "binarySearch4 (drop idx_l large) (length large - idx_l)
      (small ! idx_s, small ! (idx_s + 1), small ! (idx_s + 2), small ! (idx_s + 3)) indices =
      (lower_bound (drop idx_l large) (small ! idx_s),
       lower_bound (drop idx_l large) (small ! (idx_s + 1)),
       lower_bound (drop idx_l large) (small ! (idx_s + 2)),
       lower_bound (drop idx_l large) (small ! (idx_s + 3)))"
    using binarySearch4_correct [of "drop idx_l large"] s n by (simp add: ssorted_drop)
  assume "i < 4"
  then have "small ! (idx_s + i) \<in> set (drop idx_s small)"
    using n nth_mem [of i "drop idx_s small"] by simp
  then show "skewed_hit large idx_l (lower_bound (drop idx_l large) (small ! (idx_s + i))) (small ! (idx_s + i))
      = filter (\<lambda>x. x \<in> set large) [small ! (idx_s + i)]"
    using inv s by (intro skewed_hit_eq) (auto simp: skewed_inv_def)
qed

lemma skewed_loop4_inv:
  assumes "ssorted small" and "ssorted large"
  shows "skewed_inv small large idx_s idx_l buffer \<Longrightarrow>
     (case skewed_loop4 small large idx_s idx_l indices buffer of (idx_s', idx_l', indices', buffer') \<Rightarrow>
        skewed_inv small large idx_s' idx_l' buffer' \<and>
        (length small < idx_s' + 4 \<or> idx_l' = length large))"
  using assms
proof (induction small large idx_s idx_l indices buffer rule: skewed_loop4.induct)
  case (1 small large idx_s idx_l indices buffer)
  show ?case
  proof (cases "idx_s + 4 \<le> length small \<and> idx_l < length large")
    case True
    note blk = skewed_block4 [OF "1.prems"(1,2,3)] and inv = "1.prems"(1)
    let ?lb = "\<lambda>i. lower_bound (drop idx_l large) (small ! (idx_s + i))"
    let ?hit = "\<lambda>i. skewed_hit large idx_l (?lb i) (small ! (idx_s + i))"
    have "buffer @ ?hit 0 @ ?hit 1 @ ?hit 2 @ ?hit 3 = filter (\<lambda>x. x \<in> set large) (take (idx_s + 4) small)"
      using blk(2) [of 0] blk(2) [of 1] blk(2) [of 2] blk(2) [of 3] True inv
      by (simp add: skewed_inv_def take_Suc_filter numeral_eq_Suc del: filter.simps)
    then have "skewed_inv small large (idx_s + 4) (idx_l + ?lb 3) (buffer @ ?hit 0 @ ?hit 1 @ ?hit 2 @ ?hit 3)"
      using skewed_inv_advance [OF inv "1.prems"(2,3), of 4] True by (simp add: add.commute)
    moreover have "skewed_loop4 small large idx_s idx_l indices buffer =
        skewed_loop4 small large (idx_s + 4) (idx_l + ?lb 3) (?lb 0, ?lb 1, ?lb 2, ?lb 3)
          (buffer @ ?hit 0 @ ?hit 1 @ ?hit 2 @ ?hit 3)"
      using True blk(1) [of indices] by (subst skewed_loop4.simps) (simp add: Let_def)
    ultimately show ?thesis
      using "1.IH" [OF True refl refl refl refl] True blk(1) [of indices] "1.prems"(2,3) by simp
  next
    case False
    then show ?thesis using "1.prems"
      by (auto simp: skewed_loop4.simps [of small large idx_s] skewed_inv_def)
  qed
qed

lemma skewed_pair_inv:
  assumes "ssorted small" and "ssorted large" and inv: "skewed_inv small large idx_s idx_l buffer"
    and rest: "length small < idx_s + 4 \<or> idx_l = length large"
  shows "case skewed_pair small large idx_s idx_l indices buffer of (idx_s', idx_l', buffer') \<Rightarrow>
     skewed_inv small large idx_s' idx_l' buffer' \<and> (length small < idx_s' + 2 \<or> idx_l' = length large)"
proof (cases "idx_s + 2 \<le> length small \<and> idx_l < length large")
  case True
  let ?lb = "\<lambda>i. lower_bound (drop idx_l large) (small ! (idx_s + i))"
  let ?hit = "\<lambda>i. skewed_hit large idx_l (?lb i) (small ! (idx_s + i))"
  have bs: "binarySearch2 (drop idx_l large) (length large - idx_l)
      (small ! idx_s, small ! (idx_s + 1)) (fst indices, fst (snd indices)) = (?lb 0, ?lb 1)"
    using binarySearch2_correct [of "drop idx_l large"] assms True by (simp add: ssorted_drop)
  have "?hit i = filter (\<lambda>x. x \<in> set large) [small ! (idx_s + i)]" if "i < 2" for i
  proof -
    have "i < length (drop idx_s small)" using True that by auto
    then have "small ! (idx_s + i) \<in> set (drop idx_s small)"
      using True nth_mem [of i "drop idx_s small"] by simp
    then show ?thesis using assms by (intro skewed_hit_eq) (auto simp: skewed_inv_def)
  qed
  from this [of 0] this [of 1]
  have "buffer @ ?hit 0 @ ?hit 1 = filter (\<lambda>x. x \<in> set large) (take (idx_s + 2) small)"
    using True inv by (simp add: skewed_inv_def take_Suc_filter numeral_eq_Suc del: filter.simps)
  then have "skewed_inv small large (idx_s + 2) (idx_l + ?lb 1) (buffer @ ?hit 0 @ ?hit 1)"
    using skewed_inv_advance [OF inv assms(1,2), of 2] True by simp
  then show ?thesis using True bs rest by (simp add: skewed_pair_def Let_def)
next
  case False
  then show ?thesis using inv by (auto simp: skewed_pair_def skewed_inv_def)
qed

lemma skewed_inv_done:
  assumes "skewed_inv small large idx_s idx_l buffer" and "idx_s = length small \<or> idx_l = length large"
    and "ssorted large"
  shows "buffer = filter (\<lambda>x. x \<in> set large) small"
proof -
  have "filter (\<lambda>x. x \<in> set large) (drop idx_s small) = []"
    using assms unfolding skewed_inv_def filter_empty_conv
    by (metis drop_all empty_iff list.set(1) order_refl lower_bound_le le_antisym order_less_irrefl ssorted_mem_iff)
  then have "filter (\<lambda>x. x \<in> set large) (take idx_s small @ drop idx_s small) = buffer"
    using assms(1) by (simp only: skewed_inv_def filter_append append_Nil2)
  then show ?thesis by simp
qed

theorem intersect_skewed_uint16_filter:
  assumes s: "ssorted small" "ssorted large"
  shows "intersect_skewed_uint16 small large = filter (\<lambda>x. x \<in> set large) small"
proof (cases "small = []")
  case True
  then show ?thesis by (simp add: intersect_skewed_uint16_def)
next
  case False
  have "skewed_inv small large 0 0 []" by (simp add: skewed_inv_def)
  moreover obtain i4 l4 ix4 b4 where l4: "skewed_loop4 small large 0 0 (0, 0, 0, 0) [] = (i4, l4, ix4, b4)"
    by (rule prod_cases4)
  ultimately have inv4: "skewed_inv small large i4 l4 b4" "length small < i4 + 4 \<or> l4 = length large"
    using skewed_loop4_inv [OF s, of 0 0 "[]" "(0, 0, 0, 0)"] by auto
  obtain i2 l2 b2 where l2: "skewed_pair small large i4 l4 ix4 b4 = (i2, l2, b2)"
    by (rule prod_cases3)
  have inv2: "skewed_inv small large i2 l2 b2" "length small < i2 + 2 \<or> l2 = length large"
    using skewed_pair_inv [OF s inv4, of ix4] l2 by auto
  have res: "intersect_skewed_uint16 small large = skewed_last small large i2 l2 b2"
    using False by (simp add: intersect_skewed_uint16_def l4 l2)
  show ?thesis
  proof (cases "i2 < length small \<and> l2 < length large")
    case True
    then have i2: "Suc i2 = length small" using inv2(2) by auto
    let ?v = "small ! i2"
    have v: "?v \<in> set (drop i2 small)" using True by (simp add: in_set_conv_nth) (metis add.right_neutral
          diff_is_0_eq linorder_not_less nth_drop zero_less_diff less_imp_le)
    have "0 \<le> binarySearch (drop l2 large) (length large - l2) ?v \<longleftrightarrow> ?v \<in> set (drop l2 large)"
      using bs.found_iff [of "drop l2 large" ?v] s by (simp add: ssorted_drop)
    also have "\<dots> \<longleftrightarrow> ?v \<in> set large"
      using lower_bound_drop [OF s(2), of l2 ?v] inv2(1) v s
        ssorted_mem_iff [OF s(2), of ?v] ssorted_mem_iff [of "drop l2 large" ?v]
      by (auto simp: skewed_inv_def ssorted_drop)
    finally have "skewed_last small large i2 l2 b2 = b2 @ filter (\<lambda>x. x \<in> set large) [?v]"
      using True by (simp add: skewed_last_def Let_def)
    then show ?thesis using res inv2(1) take_Suc_filter [of i2 small] True i2
      by (simp add: skewed_inv_def del: filter.simps)
  next
    case False
    then have "skewed_last small large i2 l2 b2 = b2" by (auto simp: skewed_last_def)
    moreover have "i2 = length small \<or> l2 = length large"
      using False inv2(1) by (auto simp: skewed_inv_def)
    ultimately show ?thesis using res skewed_inv_done [OF inv2(1)] s(2) by simp
  qed
qed

section \<open>Galloping: count and test\<close>

text \<open>
  One round of \<open>while (true)\<close>: the state is \<open>idx_l\<close>, \<open>idx_s\<close>, \<open>pos\<close> and whether the loop goes
  on (a \<open>break\<close> clears the flag). \<open>val_l\<close> and \<open>val_s\<close> are reloaded at every round.
\<close>

definition skewed_card_step :: "u16 list \<Rightarrow> u16 list \<Rightarrow> nat \<times> nat \<times> nat \<times> bool \<Rightarrow> nat \<times> nat \<times> nat \<times> bool" where
  "skewed_card_step small large = (\<lambda>(idx_l, idx_s, pos, running).
     let val_l = large ! idx_l; val_s = small ! idx_s
     in if val_l < val_s
        then let idx_l' = advanceUntil large (int idx_l) (length large) val_s
             in (idx_l', idx_s, pos, idx_l' \<noteq> length large)
        else if val_s < val_l
        then (idx_l, idx_s + 1, pos, idx_s + 1 \<noteq> length small)
        else if idx_s + 1 = length small then (idx_l, idx_s + 1, pos + 1, False)
        else let idx_l' = advanceUntil large (int idx_l) (length large) (small ! (idx_s + 1))
             in (idx_l', idx_s + 1, pos + 1, idx_l' \<noteq> length large))"

definition intersect_skewed_uint16_cardinality :: "u16 list \<Rightarrow> u16 list \<Rightarrow> nat" where
  "intersect_skewed_uint16_cardinality small large =
     (if length small = 0 then 0
      else case while (\<lambda>(idx_l, idx_s, pos, running). running) (skewed_card_step small large)
                  (0, 0, 0, True)
           of (idx_l, idx_s, pos, running) \<Rightarrow> pos)"

text \<open>The test stops with \<open>Some True\<close> at the first common value, with \<open>Some False\<close> at a \<open>break\<close>.\<close>

definition skewed_any_step :: "u16 list \<Rightarrow> u16 list \<Rightarrow> nat \<times> nat \<times> bool option \<Rightarrow> nat \<times> nat \<times> bool option" where
  "skewed_any_step small large = (\<lambda>(idx_l, idx_s, result).
     let val_l = large ! idx_l; val_s = small ! idx_s
     in if val_l < val_s
        then let idx_l' = advanceUntil large (int idx_l) (length large) val_s
             in (idx_l', idx_s, if idx_l' = length large then Some False else None)
        else if val_s < val_l
        then (idx_l, idx_s + 1, if idx_s + 1 = length small then Some False else None)
        else (idx_l, idx_s, Some True))"

definition intersect_skewed_uint16_nonempty :: "u16 list \<Rightarrow> u16 list \<Rightarrow> bool" where
  "intersect_skewed_uint16_nonempty small large =
     (if length small = 0 then False
      else case while (\<lambda>(idx_l, idx_s, result). result = None) (skewed_any_step small large)
                  (0, 0, None)
           of (idx_l, idx_s, result) \<Rightarrow> (result = Some True))"

text \<open>
  Both keep the following invariant about the two positions (the part of \<open>skewed_inv\<close> that does
  not speak of the output): nothing that is left in \<open>small\<close> occurs in \<open>large\<close> before \<open>idx_l\<close>.
\<close>

definition gallop_inv :: "u16 list \<Rightarrow> u16 list \<Rightarrow> nat \<Rightarrow> nat \<Rightarrow> bool" where
  "gallop_inv small large i l \<longleftrightarrow>
     i \<le> length small \<and> l \<le> length large \<and> (\<forall>x \<in> set (drop i small). l \<le> lower_bound large x)"

definition common :: "u16 list \<Rightarrow> u16 list \<Rightarrow> nat \<Rightarrow> nat" where
  "common small large i = length (filter (\<lambda>x. x \<in> set large) (take i small))"

lemma gallop_inv_0: "gallop_inv small large 0 0"
  by (simp add: gallop_inv_def)

lemma gallop_inv_le: "gallop_inv small large i l \<Longrightarrow> i \<le> length small \<and> l \<le> length large"
  by (simp add: gallop_inv_def)

lemma gallop_inv_Suc: "gallop_inv small large i l \<Longrightarrow> i < length small \<Longrightarrow> gallop_inv small large (Suc i) l"
  unfolding gallop_inv_def using set_drop_subset_set_drop [of i "Suc i" small] by auto

lemma gallop_behind:
  assumes s: "ssorted small" "ssorted large" and inv: "gallop_inv small large i l"
    and b: "i < length small" "l < length large" and lt: "large ! l < small ! i"
  shows "l < advanceUntil large (int l) (length large) (small ! i) \<and>
     gallop_inv small large i (advanceUntil large (int l) (length large) (small ! i))"
proof -
  have l: "l < lower_bound large (small ! i)" using ssorted_nth_less_iff [OF s(2) b(2)] lt by simp
  then have a: "advanceUntil large (int l) (length large) (small ! i) = lower_bound large (small ! i)"
    using b advanceUntil_correct [OF s(2) refl, of "int l" "small ! i"] by (simp add: nat_add_distrib)
  have "lower_bound large (small ! i) \<le> lower_bound large x" if x: "x \<in> set (drop i small)" for x
  proof -
    obtain j where j: "j < length (drop i small)" "x = drop i small ! j"
      using x by (metis in_set_conv_nth)
    then have "small ! i \<le> x" using s(1) by (simp add: ssorted_nth_le)
    then show ?thesis using s(2) by (simp add: lower_bound_mono)
  qed
  then show ?thesis using l a inv by (simp add: gallop_inv_def)
qed

lemma common_Suc:
  "i < length small \<Longrightarrow> common small large (Suc i) = common small large i + of_bool (small ! i \<in> set large)"
  by (simp add: common_def take_Suc_conv_app_nth)

lemma gallop_ahead:
  assumes s: "ssorted large" and inv: "gallop_inv small large i l"
    and b: "i < length small" "l < length large" and gt: "small ! i < large ! l"
  shows "small ! i \<notin> set large"
proof -
  have "small ! i \<in> set (drop i small)" using b by (metis Cons_nth_drop_Suc list.set_intros(1))
  then have "l \<le> lower_bound large (small ! i)" using inv by (simp add: gallop_inv_def)
  moreover have "\<not> l < lower_bound large (small ! i)"
    using gt ssorted_nth_less_iff [OF s b(2), of "small ! i"] by auto
  ultimately have "lower_bound large (small ! i) = l" by simp
  then show ?thesis using gt ssorted_mem_iff [OF s, of "small ! i"] by auto
qed

lemma gallop_done:
  assumes s: "ssorted large" and inv: "gallop_inv small large i l"
    and e: "i = length small \<or> l = length large"
  shows "common small large i = common small large (length small)"
proof -
  have "x \<notin> set large" if "x \<in> set (drop i small)" for x
  proof -
    have "l = length large" using e that by auto
    then have "length large \<le> lower_bound large x" using inv that by (simp add: gallop_inv_def)
    then show ?thesis using ssorted_mem_iff [OF s, of x] by simp
  qed
  then have "filter (\<lambda>x. x \<in> set large) (drop i small) = []" by (simp add: filter_empty_conv)
  moreover have "filter (\<lambda>x. x \<in> set large) small
      = filter (\<lambda>x. x \<in> set large) (take i small) @ filter (\<lambda>x. x \<in> set large) (drop i small)"
    by (simp flip: filter_append)
  ultimately show ?thesis by (simp add: common_def)
qed

definition card_inv :: "u16 list \<Rightarrow> u16 list \<Rightarrow> nat \<times> nat \<times> nat \<times> bool \<Rightarrow> bool" where
  "card_inv small large = (\<lambda>(l, i, pos, running). gallop_inv small large i l \<and> pos = common small large i
     \<and> (if running then i < length small \<and> l < length large else i = length small \<or> l = length large))"

lemma skewed_card_step_inv:
  assumes s: "ssorted small" "ssorted large" and inv: "card_inv small large (l, i, pos, True)"
  shows "case skewed_card_step small large (l, i, pos, True) of (l', i', pos', running) \<Rightarrow>
     card_inv small large (l', i', pos', running) \<and> l \<le> l' \<and> i \<le> i' \<and> (l < l' \<or> i < i')"
proof -
  have g: "gallop_inv small large i l" and b: "i < length small" "l < length large"
    and p: "pos = common small large i" using inv by (simp_all add: card_inv_def)
  note defs = skewed_card_step_def card_inv_def Let_def
  note nx = gallop_inv_Suc [OF g b(1)]
  show ?thesis
  proof (cases "large ! l" "small ! i" rule: linorder_cases)
    case less
    note be = gallop_behind [OF s g b less]
    show ?thesis using less b p be gallop_inv_le [OF conjunct2 [OF be]] by (simp add: defs)
  next
    case greater
    then have "\<not> large ! l < small ! i" by simp
    then show ?thesis using greater nx b p gallop_ahead [OF s(2) g b greater] by (simp add: defs common_Suc)
  next
    case equal
    then have c: "common small large (Suc i) = Suc pos" using b p by (simp add: common_Suc flip: equal)
    show ?thesis
    proof (cases "Suc i = length small")
      case True
      then show ?thesis using nx b c equal by (simp add: defs)
    next
      case False
      then have i: "Suc i < length small" using b by simp
      have "large ! l < small ! Suc i" using equal ssorted_nth_less [OF s(1) lessI i] by simp
      note be = gallop_behind [OF s nx i b(2) this]
      show ?thesis using be gallop_inv_le [OF conjunct2 [OF be]] i c equal by (simp add: defs)
    qed
  qed
qed

lemma card_while:
  assumes s: "ssorted small" "ssorted large" and ne: "small \<noteq> []" "large \<noteq> []"
  shows "card_inv small large (while (\<lambda>(idx_l, idx_s, pos, running). running)
           (skewed_card_step small large) (0, 0, 0, True)) \<and>
     \<not> (\<lambda>(idx_l, idx_s, pos, running). running) (while (\<lambda>(idx_l, idx_s, pos, running). running)
           (skewed_card_step small large) (0, 0, 0, True))"
proof (rule while_rule [where P = "card_inv small large"
      and r = "measure (\<lambda>(l, i, pos, running). (length small - i) + (length large - l))"])
  show "card_inv small large (0, 0, 0, True)" using ne by (simp add: card_inv_def gallop_inv_0 common_def)
next
  fix st assume I: "card_inv small large st" and "(\<lambda>(idx_l, idx_s, pos, running). running) st"
  then obtain l i pos where st: "st = (l, i, pos, True)" by (cases st) auto
  obtain l' i' pos' r' where n: "skewed_card_step small large st = (l', i', pos', r')" by (rule prod_cases4)
  have step: "card_inv small large (l', i', pos', r')" "l \<le> l'" "i \<le> i'" "l < l' \<or> i < i'"
    using skewed_card_step_inv [OF s I [unfolded st]] n unfolding st by simp_all
  then show "card_inv small large (skewed_card_step small large st)" using n by simp
  have "i < length small" "l < length large" using I by (simp_all add: st card_inv_def)
  then show "(skewed_card_step small large st, st)
      \<in> measure (\<lambda>(l, i, pos, running). (length small - i) + (length large - l))"
    using step(2-4) by (simp add: n) (simp add: st, arith)
qed simp_all

theorem intersect_skewed_uint16_cardinality_eq:
  assumes "ssorted small" and "ssorted large" and "large \<noteq> []"
  shows "intersect_skewed_uint16_cardinality small large = length (intersect_skewed_uint16 small large)"
proof (cases "small = []")
  case True
  then show ?thesis by (simp add: intersect_skewed_uint16_cardinality_def intersect_skewed_uint16_def)
next
  case False
  obtain l i pos r where w: "while (\<lambda>(idx_l, idx_s, pos, running). running)
      (skewed_card_step small large) (0, 0, 0, True) = (l, i, pos, r)" by (rule prod_cases4)
  note c = card_while [OF assms(1,2) False assms(3), unfolded w]
  have "pos = common small large (length small)"
    using c gallop_done [OF assms(2), of small i l] by (cases r) (auto simp: card_inv_def)
  then show ?thesis using False w intersect_skewed_uint16_filter [OF assms(1,2)]
    by (simp add: intersect_skewed_uint16_cardinality_def common_def)
qed

definition any_inv :: "u16 list \<Rightarrow> u16 list \<Rightarrow> nat \<times> nat \<times> bool option \<Rightarrow> bool" where
  "any_inv small large = (\<lambda>(l, i, result). (case result of
      None \<Rightarrow> gallop_inv small large i l \<and> common small large i = 0 \<and> i < length small \<and> l < length large
    | Some True \<Rightarrow> 0 < common small large (length small)
    | Some False \<Rightarrow> common small large (length small) = 0))"

lemma skewed_any_step_inv:
  assumes s: "ssorted small" "ssorted large" and inv: "any_inv small large (l, i, None)"
  shows "case skewed_any_step small large (l, i, None) of (l', i', result) \<Rightarrow>
     any_inv small large (l', i', result) \<and> l \<le> l' \<and> i \<le> i' \<and> (l < l' \<or> i < i' \<or> result = Some True)"
proof -
  have g: "gallop_inv small large i l" and b: "i < length small" "l < length large"
    and p: "common small large i = 0" using inv by (simp_all add: any_inv_def)
  note defs = skewed_any_step_def any_inv_def Let_def
  show ?thesis
  proof (cases "large ! l" "small ! i" rule: linorder_cases)
    case less
    note be = gallop_behind [OF s g b less]
    show ?thesis using less b p be gallop_inv_le [OF conjunct2 [OF be]] gallop_done [OF s(2) conjunct2 [OF be]]
      by (simp add: defs)
  next
    case greater
    have c: "common small large (Suc i) = 0" using b p gallop_ahead [OF s(2) g b greater] by (simp add: common_Suc)
    moreover have "\<not> large ! l < small ! i" using greater by simp
    ultimately show ?thesis using greater gallop_inv_Suc [OF g b(1)] b by (auto simp: defs)
  next
    case equal
    have "large ! l \<in> set large" "small ! i \<in> set small" using b by simp_all
    then have "small ! i \<in> set (filter (\<lambda>x. x \<in> set large) small)" using equal by simp
    then have "0 < common small large (length small)" by (auto simp: common_def simp del: set_filter)
    then show ?thesis using equal by (simp add: defs)
  qed
qed

lemma any_while:
  assumes s: "ssorted small" "ssorted large" and ne: "small \<noteq> []" "large \<noteq> []"
  shows "any_inv small large (while (\<lambda>(idx_l, idx_s, result). result = None)
           (skewed_any_step small large) (0, 0, None)) \<and>
     \<not> (\<lambda>(idx_l, idx_s, result). result = None) (while (\<lambda>(idx_l, idx_s, result). result = None)
           (skewed_any_step small large) (0, 0, None))"
proof (rule while_rule [where P = "any_inv small large"
      and r = "measure (\<lambda>(l, i, result). (length small - i) + (length large - l) + of_bool (result = None))"])
  show "any_inv small large (0, 0, None)" using ne by (simp add: any_inv_def gallop_inv_0 common_def)
next
  fix st assume I: "any_inv small large st" and "(\<lambda>(idx_l, idx_s, result). result = None) st"
  then obtain l i where st: "st = (l, i, None)" by (cases st) auto
  obtain l' i' r' where n: "skewed_any_step small large st = (l', i', r')" by (rule prod_cases3)
  have step: "any_inv small large (l', i', r')" "l \<le> l'" "i \<le> i'" "l < l' \<or> i < i' \<or> r' = Some True"
    using skewed_any_step_inv [OF s I [unfolded st]] n unfolding st by simp_all
  then show "any_inv small large (skewed_any_step small large st)" using n by simp
  have "i < length small" "l < length large" using I by (simp_all add: st any_inv_def)
  then show "(skewed_any_step small large st, st)
      \<in> measure (\<lambda>(l, i, result). (length small - i) + (length large - l) + of_bool (result = None))"
    using step(2-4) by (simp add: n) (auto simp: st of_bool_def)
qed simp_all

theorem intersect_skewed_uint16_nonempty_eq:
  assumes "ssorted small" and "ssorted large" and "large \<noteq> []"
  shows "intersect_skewed_uint16_nonempty small large \<longleftrightarrow> intersect_skewed_uint16 small large \<noteq> []"
proof (cases "small = []")
  case True
  then show ?thesis by (simp add: intersect_skewed_uint16_nonempty_def intersect_skewed_uint16_def)
next
  case False
  obtain l i r where w: "while (\<lambda>(idx_l, idx_s, result). result = None)
      (skewed_any_step small large) (0, 0, None) = (l, i, r)" by (rule prod_cases3)
  note a = any_while [OF assms(1,2) False assms(3), unfolded w]
  then obtain v where v: "r = Some v" by auto
  have "v \<longleftrightarrow> 0 < common small large (length small)"
    using a v by (cases v) (auto simp: any_inv_def)
  then show ?thesis using False w v intersect_skewed_uint16_filter [OF assms(1,2)]
    by (simp add: intersect_skewed_uint16_nonempty_def common_def)
qed

end
