(* ===== verification/Array_Container.thy ===== *)
theory Array_Container
  imports Container_Spec Array_Util Array_Setops Array_Skewed
begin

text \<open>
  The array container of \<open>include/roaring/containers/array.h\<close> and
  \<open>src/containers/array.c\<close>: a strictly increasing array of 16-bit values with its
  cardinality and capacity. \<open>ac_array\<close> holds the \<open>cardinality\<close> cells that are initialised;
  the rest of the allocation has no observable content. Allocation always succeeds, so the
  \<open>NULL\<close> results of a failed \<open>roaring_malloc\<close> have no counterpart. Functions that update
  a container in place return it.
\<close>

abbreviation DEFAULT_MAX_SIZE :: int where
  "DEFAULT_MAX_SIZE \<equiv> 4096"

abbreviation INT32_MAX :: int where
  "INT32_MAX \<equiv> 2147483647"

record array_container =
  ac_cardinality :: int
  ac_capacity :: int
  ac_array :: "u16 list"

abbreviation ac_len :: "array_container \<Rightarrow> nat" where
  "ac_len c \<equiv> nat (ac_cardinality c)"

definition array_abs :: "array_container \<Rightarrow> u16 set" where
  "array_abs c = set (ac_array c)"

definition array_inv :: "array_container \<Rightarrow> bool" where
  "array_inv c \<longleftrightarrow> ssorted (ac_array c) \<and> ac_cardinality c = int (length (ac_array c))
     \<and> ac_cardinality c \<le> ac_capacity c"

section \<open>Creation, capacity and size\<close>

definition array_container_create_given_capacity :: "int \<Rightarrow> array_container" where
  "array_container_create_given_capacity cells = \<lparr>ac_cardinality = 0, ac_capacity = cells, ac_array = []\<rparr>"

definition array_container_create :: array_container where
  "array_container_create = array_container_create_given_capacity 0"

definition array_container_create_range :: "u32 \<Rightarrow> u32 \<Rightarrow> array_container" where
  "array_container_create_range lo hi =
     (let answer = array_container_create_given_capacity (sint (hi - lo + 1));
          cells = map (\<lambda>k. word_of_nat k) [unat lo ..< unat hi]
      in answer\<lparr>ac_array := cells, ac_cardinality := int (length cells)\<rparr>)"

definition array_container_clone :: "array_container \<Rightarrow> array_container" where
  "array_container_clone src =
     (array_container_create_given_capacity (ac_capacity src))
       \<lparr>ac_cardinality := ac_cardinality src, ac_array := take (ac_len src) (ac_array src)\<rparr>"

definition array_container_nonzero_cardinality :: "array_container \<Rightarrow> bool" where
  "array_container_nonzero_cardinality c \<longleftrightarrow> ac_cardinality c > 0"

definition array_container_empty :: "array_container \<Rightarrow> bool" where
  "array_container_empty c \<longleftrightarrow> ac_cardinality c = 0"

definition array_container_full :: "array_container \<Rightarrow> bool" where
  "array_container_full c \<longleftrightarrow> ac_cardinality c = ac_capacity c"

definition array_container_serialized_size_in_bytes :: "int \<Rightarrow> int" where
  "array_container_serialized_size_in_bytes n = n * 2"

definition array_container_size_in_bytes :: "array_container \<Rightarrow> int" where
  "array_container_size_in_bytes c = ac_cardinality c * 2"

definition array_container_shrink_to_fit :: "array_container \<Rightarrow> array_container \<times> int" where
  "array_container_shrink_to_fit src =
     (if ac_cardinality src = ac_capacity src then (src, 0)
      else let savings = ac_capacity src - ac_cardinality src;
               src = src\<lparr>ac_capacity := ac_cardinality src\<rparr>
           in (if ac_capacity src = 0 then src\<lparr>ac_array := []\<rparr> else src, savings))"

definition grow_capacity :: "int \<Rightarrow> int" where
  "grow_capacity capacity =
     (if capacity \<le> 0 then 0
      else if capacity < 64 then capacity * 2
      else if capacity < 1024 then capacity * 3 div 2
      else capacity * 5 div 4)"

definition clamp :: "int \<Rightarrow> int \<Rightarrow> int \<Rightarrow> int" where
  "clamp val lo hi = (if val < lo then lo else if val > hi then hi else val)"

text \<open>With \<open>preserve\<close> the cells are reallocated, without it the new allocation has no content.\<close>

definition array_container_grow :: "array_container \<Rightarrow> int \<Rightarrow> bool \<Rightarrow> array_container" where
  "array_container_grow c least preserve =
     (let most = (if least \<le> DEFAULT_MAX_SIZE then DEFAULT_MAX_SIZE else 65536);
          new_capacity = clamp (grow_capacity (ac_capacity c)) least most;
          c = c\<lparr>ac_capacity := new_capacity\<rparr>
      in if preserve then c else c\<lparr>ac_array := []\<rparr>)"

definition array_container_copy :: "array_container \<Rightarrow> array_container \<Rightarrow> array_container" where
  "array_container_copy src dst =
     (let cardinality = ac_cardinality src;
          dst = (if cardinality > ac_capacity dst then array_container_grow dst cardinality False else dst)
      in dst\<lparr>ac_cardinality := cardinality, ac_array := take (nat cardinality) (ac_array src)\<rparr>)"

section \<open>Adding and removing values\<close>

definition array_container_append :: "array_container \<Rightarrow> u16 \<Rightarrow> array_container" where
  "array_container_append arr pos =
     (let capacity = ac_capacity arr;
          arr = (if array_container_full arr then array_container_grow arr (capacity + 1) True else arr)
      in arr\<lparr>ac_array := ac_array arr @ [pos], ac_cardinality := ac_cardinality arr + 1\<rparr>)"

definition array_container_try_add :: "array_container \<Rightarrow> u16 \<Rightarrow> int \<Rightarrow> array_container \<times> int" where
  "array_container_try_add arr value max_cardinality =
     (let cardinality = ac_cardinality arr
      in if (array_container_empty arr \<or> ac_array arr ! nat (cardinality - 1) < value)
            \<and> cardinality < max_cardinality
         then (array_container_append arr value, 1)
         else let loc = binarySearch (ac_array arr) (nat cardinality) value
              in if loc \<ge> 0 then (arr, 0)
                 else if cardinality < max_cardinality
                 then let arr = (if array_container_full arr
                                 then array_container_grow arr (ac_capacity arr + 1) True else arr);
                          insert_idx = - loc - 1
                      in (arr\<lparr>ac_array := list_insert_at (nat insert_idx) value (ac_array arr),
                               ac_cardinality := ac_cardinality arr + 1\<rparr>, 1)
                 else (arr, - 1))"

definition array_container_add :: "array_container \<Rightarrow> u16 \<Rightarrow> array_container \<times> bool" where
  "array_container_add arr value =
     (let (arr, r) = array_container_try_add arr value INT32_MAX in (arr, r = 1))"

definition array_container_remove :: "array_container \<Rightarrow> u16 \<Rightarrow> array_container \<times> bool" where
  "array_container_remove arr pos =
     (let idx = binarySearch (ac_array arr) (ac_len arr) pos
      in if idx \<ge> 0
         then (arr\<lparr>ac_array := list_remove_at (nat idx) (ac_array arr),
                    ac_cardinality := ac_cardinality arr - 1\<rparr>, True)
         else (arr, False))"

text \<open>
  The loop \<open>for (value = min; value < max; value += step)\<close> on \<open>uint32_t\<close>: \<open>None\<close> when it does
  not end.
\<close>

partial_function (option) add_from_range_loop ::
    "u32 \<Rightarrow> u16 \<Rightarrow> u32 \<Rightarrow> array_container \<Rightarrow> array_container option" where
  "add_from_range_loop hi step value arr =
     (if value < hi
      then add_from_range_loop hi step (value + ucast step) (array_container_append arr (ucast value))
      else Some arr)"

definition array_container_add_from_range ::
    "array_container \<Rightarrow> u32 \<Rightarrow> u32 \<Rightarrow> u16 \<Rightarrow> array_container option" where
  "array_container_add_from_range arr lo hi step = add_from_range_loop hi step lo arr"

text \<open>
  \<open>memmove\<close> puts the last \<open>nvals_greater\<close> cells at the end of the new array, the loop fills
  the cells between. The new cardinality is computed on \<open>uint32_t\<close> and read as \<open>int32_t\<close>.
\<close>

definition array_container_add_range_nvals ::
    "array_container \<Rightarrow> u32 \<Rightarrow> u32 \<Rightarrow> int \<Rightarrow> int \<Rightarrow> array_container" where
  "array_container_add_range_nvals arr lo hi nvals_less nvals_greater =
     (let union_cardinality = sint (word_of_int nvals_less + (hi - lo + 1) + word_of_int nvals_greater :: u32);
          arr = (if union_cardinality > ac_capacity arr
                 then array_container_grow arr union_cardinality True else arr)
      in arr\<lparr>ac_array := take (nat nvals_less) (ac_array arr)
               @ map (\<lambda>i. ucast (lo + word_of_nat i)) [0 ..< Suc (unat (hi - lo))]
               @ drop (nat (ac_cardinality arr - nvals_greater)) (ac_array arr),
             ac_cardinality := union_cardinality\<rparr>)"

definition array_container_remove_range :: "array_container \<Rightarrow> u32 \<Rightarrow> u32 \<Rightarrow> array_container" where
  "array_container_remove_range arr pos count =
     (if count \<noteq> 0
      then arr\<lparr>ac_array := take (unat pos) (ac_array arr) @ drop (unat (pos + count)) (ac_array arr),
               ac_cardinality := ac_cardinality arr - int (unat count)\<rparr>
      else arr)"

section \<open>Queries\<close>

text \<open>\<open>array_container_contains\<close> has its own copy of the block search of \<open>binarySearch\<close>.\<close>

definition array_container_contains :: "array_container \<Rightarrow> u16 \<Rightarrow> bool" where
  "array_container_contains arr pos =
     (let carr = ac_array arr; cardinality = ac_len arr;
          hit = (\<lambda>r. case r of Some j \<Rightarrow> j \<ge> 0 | None \<Rightarrow> False)
      in if cardinality < 16 then hit (bs_scan carr 0 cardinality pos)
         else let num_blocks = cardinality div 16;
                  lo = bs_block carr pos num_blocks
              in if lo < num_blocks then hit (bs_scan carr (lo * 16) (lo * 16 + 16) pos)
                 else hit (bs_scan carr (num_blocks * 16) cardinality pos))"

definition array_container_contains_range :: "array_container \<Rightarrow> u32 \<Rightarrow> u32 \<Rightarrow> bool" where
  "array_container_contains_range arr range_start range_end =
     (let range_count = sint (range_end - range_start);
          rs_included = ucast range_start :: u16;
          re_included = ucast (range_end - 1) :: u16
      in if range_count \<le> 0 then True
         else if range_count > ac_cardinality arr then False
         else let start = binarySearch (ac_array arr) (ac_len arr) rs_included
              in start \<ge> 0 \<and> ac_cardinality arr \<ge> start + range_count
                 \<and> ac_array arr ! nat (start + range_count - 1) = re_included)"

definition array_container_minimum :: "array_container \<Rightarrow> u16" where
  "array_container_minimum arr = (if ac_cardinality arr = 0 then 0 else ac_array arr ! 0)"

definition array_container_maximum :: "array_container \<Rightarrow> u16" where
  "array_container_maximum arr =
     (if ac_cardinality arr = 0 then 0 else ac_array arr ! nat (ac_cardinality arr - 1))"

definition array_container_rank :: "array_container \<Rightarrow> u16 \<Rightarrow> int" where
  "array_container_rank arr x =
     (let idx = binarySearch (ac_array arr) (ac_len arr) x
      in if idx \<ge> 0 then idx + 1 else - idx - 1)"

text \<open>
  \<open>rank_many_loop\<close> is the \<open>for\<close> loop: the queries still to answer, the position the searches
  start at, and as result the answers written, one per consumed query.
\<close>

fun rank_many_loop :: "array_container \<Rightarrow> u64 \<Rightarrow> u16 \<Rightarrow> nat \<Rightarrow> u32 list \<Rightarrow> u64 list" where
  "rank_many_loop arr start_rank high pos [] = []"
| "rank_many_loop arr start_rank high pos (x # iter) =
     (if ucast (drop_bit 16 x) \<noteq> high then []
      else let idx = binarySearch (drop pos (ac_array arr)) (ac_len arr - pos) (ucast x)
           in if idx \<ge> 0
              then (start_rank + of_nat pos + of_int (idx + 1))
                     # rank_many_loop arr start_rank high (nat (idx + 1)) iter
              else (start_rank + of_nat pos + of_int (- idx - 1))
                     # rank_many_loop arr start_rank high pos iter)"

definition array_container_rank_many :: "array_container \<Rightarrow> u64 \<Rightarrow> u32 list \<Rightarrow> nat \<times> u64 list" where
  "array_container_rank_many arr start_rank queries =
     (let ans = rank_many_loop arr start_rank (ucast (drop_bit 16 (hd queries))) 0 queries
      in (length ans, ans))"

definition array_container_get_index :: "array_container \<Rightarrow> u16 \<Rightarrow> int" where
  "array_container_get_index arr x =
     (let idx = binarySearch (ac_array arr) (ac_len arr) x
      in if idx \<ge> 0 then idx else - 1)"

definition array_container_index_equalorlarger :: "array_container \<Rightarrow> u16 \<Rightarrow> int" where
  "array_container_index_equalorlarger arr x =
     (let idx = binarySearch (ac_array arr) (ac_len arr) x
      in if idx \<ge> 0 then idx
         else let candidate = - idx - 1
              in if candidate < ac_cardinality arr then candidate else - 1)"

text \<open>\<open>Inl\<close> is the result \<open>false\<close> with the new \<open>start_rank\<close>, \<open>Inr\<close> the result \<open>true\<close> with the element.\<close>

definition array_container_select :: "array_container \<Rightarrow> u32 \<Rightarrow> u32 \<Rightarrow> u32 + u32" where
  "array_container_select c start_rank rank =
     (let n = ac_cardinality c
      in if start_rank + of_int n \<le> rank then Inl (start_rank + of_int n)
         else Inr (ucast (ac_array c ! unat (rank - start_rank))))"

fun number_of_runs_loop :: "u16 list \<Rightarrow> int \<Rightarrow> int \<Rightarrow> int" where
  "number_of_runs_loop [] prev nr_runs = nr_runs"
| "number_of_runs_loop (p # ps) prev nr_runs =
     number_of_runs_loop ps (uint p) (if uint p \<noteq> prev + 1 then nr_runs + 1 else nr_runs)"

definition array_container_number_of_runs :: "array_container \<Rightarrow> int" where
  "array_container_number_of_runs ac = number_of_runs_loop (take (ac_len ac) (ac_array ac)) (- 2) 0"

text \<open>The reasons \<open>array_container_validate\<close> gives; \<open>None\<close> is the result \<open>true\<close>.\<close>

datatype validate_error = Negative_Capacity | Negative_Cardinality | Cardinality_Exceeds_Capacity
  | Cardinality_Exceeds_Max | Zero_Cardinality | Not_Increasing

fun increasing_from :: "u16 \<Rightarrow> u16 list \<Rightarrow> bool" where
  "increasing_from prev [] = True"
| "increasing_from prev (x # xs) = (if x \<le> prev then False else increasing_from x xs)"

definition array_container_validate :: "array_container \<Rightarrow> validate_error option" where
  "array_container_validate v =
     (if ac_capacity v < 0 then Some Negative_Capacity
      else if ac_cardinality v < 0 then Some Negative_Cardinality
      else if ac_cardinality v > ac_capacity v then Some Cardinality_Exceeds_Capacity
      else if ac_cardinality v > DEFAULT_MAX_SIZE then Some Cardinality_Exceeds_Max
      else if ac_cardinality v = 0 then Some Zero_Cardinality
      else if increasing_from (ac_array v ! 0) (tl (take (ac_len v) (ac_array v))) then None
      else Some Not_Increasing)"

definition array_container_equals :: "array_container \<Rightarrow> array_container \<Rightarrow> bool" where
  "array_container_equals c1 c2 =
     (if ac_cardinality c1 \<noteq> ac_cardinality c2 then False
      else take (ac_len c1) (ac_array c1) = take (ac_len c1) (ac_array c2))"

fun subset_loop :: "u16 list \<Rightarrow> u16 list \<Rightarrow> bool" where
  "subset_loop (x # xs) (y # ys) =
     (if x = y then subset_loop xs ys else if x > y then subset_loop (x # xs) ys else False)"
| "subset_loop [] ys = True"
| "subset_loop (x # xs) [] = False"

definition array_container_is_subset :: "array_container \<Rightarrow> array_container \<Rightarrow> bool" where
  "array_container_is_subset c1 c2 =
     (if ac_cardinality c1 > ac_cardinality c2 then False else subset_loop (ac_array c1) (ac_array c2))"

section \<open>Binary operations\<close>

text \<open>
  \<open>out\<close> is the container the result goes to; only its capacity matters. The tests
  \<open>card_1 * threshold < card_2\<close> choose the skewed routines.
\<close>

definition array_container_union :: "array_container \<Rightarrow> array_container \<Rightarrow> array_container \<Rightarrow> array_container" where
  "array_container_union array_1 array_2 out =
     (let max_cardinality = ac_cardinality array_1 + ac_cardinality array_2;
          out = (if ac_capacity out < max_cardinality then array_container_grow out max_cardinality False else out);
          cells = fast_union_uint16 (ac_array array_1) (ac_array array_2)
      in out\<lparr>ac_array := cells, ac_cardinality := int (length cells)\<rparr>)"

definition array_container_andnot :: "array_container \<Rightarrow> array_container \<Rightarrow> array_container \<Rightarrow> array_container" where
  "array_container_andnot array_1 array_2 out =
     (let out = (if ac_capacity out < ac_cardinality array_1
                 then array_container_grow out (ac_cardinality array_1) False else out);
          cells = difference_uint16 (ac_array array_1) (ac_array array_2)
      in out\<lparr>ac_array := cells, ac_cardinality := int (length cells)\<rparr>)"

definition array_container_xor :: "array_container \<Rightarrow> array_container \<Rightarrow> array_container \<Rightarrow> array_container" where
  "array_container_xor array_1 array_2 out =
     (let max_cardinality = ac_cardinality array_1 + ac_cardinality array_2;
          out = (if ac_capacity out < max_cardinality then array_container_grow out max_cardinality False else out);
          cells = xor_uint16 (ac_array array_1) (ac_array array_2)
      in out\<lparr>ac_array := cells, ac_cardinality := int (length cells)\<rparr>)"

definition array_container_intersection :: "array_container \<Rightarrow> array_container \<Rightarrow> array_container \<Rightarrow> array_container" where
  "array_container_intersection array1 array2 out =
     (let card_1 = ac_cardinality array1; card_2 = ac_cardinality array2;
          min_card = (if card_1 < card_2 then card_1 else card_2);
          out = (if ac_capacity out < min_card then array_container_grow out min_card False else out);
          cells = (if card_1 * 64 < card_2 then intersect_skewed_uint16 (ac_array array1) (ac_array array2)
                   else if card_2 * 64 < card_1 then intersect_skewed_uint16 (ac_array array2) (ac_array array1)
                   else intersect_uint16 (ac_array array1) (ac_array array2))
      in out\<lparr>ac_array := cells, ac_cardinality := int (length cells)\<rparr>)"

definition array_container_intersection_cardinality :: "array_container \<Rightarrow> array_container \<Rightarrow> int" where
  "array_container_intersection_cardinality array1 array2 =
     (let card_1 = ac_cardinality array1; card_2 = ac_cardinality array2
      in if card_1 * 64 < card_2 then int (intersect_skewed_uint16_cardinality (ac_array array1) (ac_array array2))
         else if card_2 * 64 < card_1 then int (intersect_skewed_uint16_cardinality (ac_array array2) (ac_array array1))
         else int (intersect_uint16_cardinality (ac_array array1) (ac_array array2)))"

definition array_container_intersect :: "array_container \<Rightarrow> array_container \<Rightarrow> bool" where
  "array_container_intersect array1 array2 =
     (let card_1 = ac_cardinality array1; card_2 = ac_cardinality array2
      in if card_1 * 64 < card_2 then intersect_skewed_uint16_nonempty (ac_array array1) (ac_array array2)
         else if card_2 * 64 < card_1 then intersect_skewed_uint16_nonempty (ac_array array2) (ac_array array1)
         else intersect_uint16_nonempty (ac_array array1) (ac_array array2))"

definition array_container_intersection_inplace :: "array_container \<Rightarrow> array_container \<Rightarrow> array_container" where
  "array_container_intersection_inplace src_1 src_2 =
     (let card_1 = ac_cardinality src_1; card_2 = ac_cardinality src_2;
          cells = (if card_1 * 64 < card_2 then intersect_skewed_uint16 (ac_array src_1) (ac_array src_2)
                   else if card_2 * 64 < card_1 then intersect_skewed_uint16 (ac_array src_2) (ac_array src_1)
                   else intersect_uint16 (ac_array src_1) (ac_array src_2))
      in src_1\<lparr>ac_array := cells, ac_cardinality := int (length cells)\<rparr>)"

section \<open>Shifting, enumeration and bytes\<close>

text \<open>
  \<open>want_lo\<close> and \<open>want_hi\<close> say whether the caller passed a place for that half; \<open>None\<close> is a
  half that is not written. The bound \<open>top\<close> is an \<open>int\<close> that \<open>count_less\<close> takes as \<open>uint16_t\<close>.
\<close>

definition array_container_offset :: "array_container \<Rightarrow> bool \<Rightarrow> bool \<Rightarrow> u16 \<Rightarrow>
    array_container option \<times> array_container option" where
  "array_container_offset c want_lo want_hi offset =
     (let top = 65536 - uint offset;
          lo_cap = count_less (ac_array c) (ac_len c) (word_of_int top);
          lo = (if want_lo \<and> lo_cap \<noteq> 0
                then Some \<lparr>ac_cardinality = int lo_cap, ac_capacity = int lo_cap,
                           ac_array = map (\<lambda>i. ac_array c ! i + offset) [0 ..< lo_cap]\<rparr>
                else None);
          hi_cap = ac_cardinality c - int lo_cap;
          hi = (if want_hi \<and> hi_cap \<noteq> 0
                then Some \<lparr>ac_cardinality = hi_cap, ac_capacity = hi_cap,
                           ac_array = map (\<lambda>i. ac_array c ! (lo_cap + i) + offset) [0 ..< nat hi_cap]\<rparr>
                else None)
      in (lo, hi))"

definition array_container_to_uint32_array :: "array_container \<Rightarrow> u32 \<Rightarrow> int \<times> u32 list" where
  "array_container_to_uint32_array cont base =
     (ac_cardinality cont, map (\<lambda>i. base + ucast (ac_array cont ! i)) [0 ..< ac_len cont])"

text \<open>The caller's iterator gets a value and its state and says whether to go on.\<close>

fun iterate_values :: "('v \<Rightarrow> 's \<Rightarrow> bool \<times> 's) \<Rightarrow> 'v list \<Rightarrow> 's \<Rightarrow> bool \<times> 's" where
  "iterate_values iterator [] ptr = (True, ptr)"
| "iterate_values iterator (v # vs) ptr =
     (case iterator v ptr of (continue, ptr') \<Rightarrow>
        if \<not> continue then (False, ptr') else iterate_values iterator vs ptr')"

definition array_container_iterate ::
    "array_container \<Rightarrow> u32 \<Rightarrow> (u32 \<Rightarrow> 's \<Rightarrow> bool \<times> 's) \<Rightarrow> 's \<Rightarrow> bool \<times> 's" where
  "array_container_iterate cont base iterator ptr =
     iterate_values iterator (map (\<lambda>v. ucast v + base) (take (ac_len cont) (ac_array cont))) ptr"

definition array_container_iterate64 ::
    "array_container \<Rightarrow> u32 \<Rightarrow> (u64 \<Rightarrow> 's \<Rightarrow> bool \<times> 's) \<Rightarrow> u64 \<Rightarrow> 's \<Rightarrow> bool \<times> 's" where
  "array_container_iterate64 cont base iterator high_bits ptr =
     iterate_values iterator
       (map (\<lambda>v. or high_bits (ucast (ucast v + base :: u32))) (take (ac_len cont) (ac_array cont))) ptr"

text \<open>The bytes of a cell, low byte first, as \<open>memcpy\<close> finds them on the little-endian target.\<close>

definition u16_to_le :: "u16 \<Rightarrow> u8 list" where
  "u16_to_le v = [ucast v, ucast (drop_bit 8 v)]"

definition u16_from_le :: "u8 list \<Rightarrow> u16" where
  "u16_from_le b = ucast (b ! 0) + push_bit 8 (ucast (b ! 1))"

definition array_container_write :: "array_container \<Rightarrow> u8 list \<times> int" where
  "array_container_write c =
     (concat (map u16_to_le (take (ac_len c) (ac_array c))), array_container_size_in_bytes c)"

definition array_container_read :: "int \<Rightarrow> array_container \<Rightarrow> u8 list \<Rightarrow> array_container \<times> int" where
  "array_container_read cardinality c buf =
     (let c = (if ac_capacity c < cardinality then array_container_grow c cardinality False else c);
          c = c\<lparr>ac_cardinality := cardinality,
                ac_array := map (\<lambda>i. u16_from_le [buf ! (2 * i), buf ! (2 * i + 1)]) [0 ..< nat cardinality]\<rparr>
      in (c, array_container_size_in_bytes c))"

section \<open>The invariant and its consequences\<close>

named_theorems array_simps

lemma ssorted_u16_length: "ssorted (xs :: u16 list) \<Longrightarrow> length xs \<le> 65536"
proof -
  assume "ssorted xs"
  then have "length xs = card (set xs)" by (simp add: ssorted_card)
  also have "\<dots> \<le> card (UNIV :: u16 set)" by (rule card_mono) simp_all
  finally show ?thesis by (simp add: card_word)
qed

lemma card_u16_less: "S \<noteq> UNIV \<Longrightarrow> card (S :: u16 set) < 65536"
  using psubset_card_mono [of UNIV S] by (auto simp: card_word)

lemma array_inv_len [array_simps]: "array_inv c \<Longrightarrow> ac_len c = length (ac_array c)"
  and array_inv_cardinality [array_simps]: "array_inv c \<Longrightarrow> ac_cardinality c = int (length (ac_array c))"
  and array_inv_sorted [array_simps]: "array_inv c \<Longrightarrow> ssorted (ac_array c)"
  by (simp_all add: array_inv_def)

lemma array_inv_card: "array_inv c \<Longrightarrow> ac_cardinality c = int (card (array_abs c))"
  by (simp add: array_abs_def array_inv_def ssorted_card)

lemma array_inv_bound: "array_inv c \<Longrightarrow> 0 \<le> ac_cardinality c \<and> ac_cardinality c \<le> 65536"
  using ssorted_u16_length [of "ac_array c"] by (simp add: array_inv_def)

lemma array_abs_unique: "array_inv c \<Longrightarrow> array_inv d \<Longrightarrow> array_abs c = array_abs d \<Longrightarrow> ac_array c = ac_array d"
  by (simp add: array_abs_def array_inv_def ssorted_set_unique)

lemma array_inv_update:
  "ssorted cells \<Longrightarrow> int (length cells) \<le> ac_capacity c \<Longrightarrow>
     array_inv (c\<lparr>ac_array := cells, ac_cardinality := int (length cells)\<rparr>)"
  by (simp add: array_inv_def)

lemma array_grow_capacity:
  "least \<le> 65536 \<Longrightarrow> least \<le> ac_capacity (array_container_grow c least p)
     \<and> ac_capacity (array_container_grow c least p) \<le> 65536"
  by (auto simp: array_container_grow_def clamp_def Let_def)

lemma array_grow_keeps [array_simps]:
  "ac_cardinality (array_container_grow c least p) = ac_cardinality c"
  "ac_array (array_container_grow c least True) = ac_array c"
  by (simp_all add: array_container_grow_def Let_def)

definition with_room :: "array_container \<Rightarrow> int \<Rightarrow> array_container" where
  "with_room c n = (if ac_capacity c < n then array_container_grow c n False else c)"

lemma with_room_capacity: "n \<le> 65536 \<Longrightarrow> n \<le> ac_capacity (with_room c n)"
  using array_grow_capacity [of n c False] by (simp add: with_room_def)

lemma array_create_inv: "0 \<le> n \<Longrightarrow> array_inv (array_container_create_given_capacity n)"
  and array_create_abs: "array_abs (array_container_create_given_capacity n) = {}"
  by (simp_all add: array_inv_def array_abs_def array_container_create_given_capacity_def)

lemma array_clone_eq: "array_inv c \<Longrightarrow> array_container_clone c = c"
  by (cases c) (simp add: array_container_clone_def array_container_create_given_capacity_def array_inv_def)

lemma array_copy_correct:
  "array_inv src \<Longrightarrow> array_inv (array_container_copy src dst) \<and> ac_array (array_container_copy src dst) = ac_array src"
  using array_inv_bound [of src] array_grow_capacity [of "ac_cardinality src" dst False]
  by (auto simp: array_container_copy_def array_inv_def Let_def)

lemma array_shrink_correct:
  assumes "array_inv c"
  shows "array_inv (fst (array_container_shrink_to_fit c))"
    and "ac_array (fst (array_container_shrink_to_fit c)) = ac_array c"
    and "ac_capacity (fst (array_container_shrink_to_fit c)) = ac_cardinality c"
    and "snd (array_container_shrink_to_fit c) = ac_capacity c - ac_cardinality c"
  using assms by (auto simp: array_container_shrink_to_fit_def array_inv_def Let_def)

section \<open>Membership, insertion and deletion\<close>

lemma array_contains_correct:
  assumes "array_inv c"
  shows "array_container_contains c x \<longleftrightarrow> x \<in> array_abs c"
proof -
  have eq: "array_container_contains c x \<longleftrightarrow> 0 \<le> binarySearch (ac_array c) (ac_len c) x"
    by (auto simp: array_container_contains_def binarySearch_def Let_def split: option.splits)
  show ?thesis using bs.found_iff [of "ac_array c" x] assms
    by (simp add: eq array_simps array_abs_def)
qed

lemma array_append_correct:
  assumes "array_inv c" and "\<forall>y \<in> array_abs c. y < x"
  shows "array_inv (array_container_append c x) \<and> ac_array (array_container_append c x) = ac_array c @ [x]"
proof -
  have s: "ssorted (ac_array c @ [x])" using assms by (simp add: ssorted_snoc array_inv_def array_abs_def)
  then have "ac_cardinality c + 1 \<le> 65536"
    using ssorted_u16_length [OF s] assms(1) by (simp add: array_inv_def)
  then show ?thesis
    using array_grow_capacity [of "ac_capacity c + 1" c True] s assms(1)
    by (auto simp: array_container_append_def array_inv_def array_container_full_def array_grow_keeps Let_def)
qed

lemma array_last_less:
  assumes "array_inv c" and "array_container_empty c \<or> ac_array c ! nat (ac_cardinality c - 1) < x"
  shows "\<forall>y \<in> array_abs c. y < x"
proof
  fix y assume "y \<in> array_abs c"
  then obtain i where i: "i < length (ac_array c)" "y = ac_array c ! i"
    by (auto simp: array_abs_def in_set_conv_nth)
  then have "y \<le> ac_array c ! (length (ac_array c) - 1)"
    using assms(1) by (auto simp: array_inv_def intro: ssorted_nth_le)
  moreover have "ac_array c ! (length (ac_array c) - 1) < x"
    using assms i by (auto simp: array_container_empty_def array_inv_def nat_diff_distrib)
  ultimately show "y < x" by simp
qed

lemma array_insert_correct:
  assumes "array_inv c" and "x \<notin> array_abs c" and "cap = (if array_container_full c
      then array_container_grow c (ac_capacity c + 1) True else c)"
  shows "array_inv (cap\<lparr>ac_array := list_insert_at (lower_bound (ac_array c) x) x (ac_array cap),
      ac_cardinality := ac_cardinality cap + 1\<rparr>)"
proof -
  have s: "ssorted (list_insert_at (lower_bound (ac_array c) x) x (ac_array c))"
    using assms by (simp add: ssorted_insert_at array_inv_def array_abs_def)
  then have "ac_cardinality c + 1 \<le> 65536"
    using ssorted_u16_length [OF s] assms(1) by (simp add: array_inv_def)
  then show ?thesis
    using array_grow_capacity [of "ac_capacity c + 1" c True] s assms(1)
    by (auto simp: assms(3) array_inv_def array_container_full_def array_grow_keeps)
qed

lemma array_try_add_correct:
  assumes inv: "array_inv c" and r: "array_container_try_add c x m = (c', r)"
  shows "array_inv c'"
    and "array_abs c' = (if r = 1 then insert x (array_abs c) else array_abs c)"
    and "r = (if x \<in> array_abs c then 0 else if ac_cardinality c < m then 1 else - 1)"
proof -
  let ?fast = "(array_container_empty c \<or> ac_array c ! nat (ac_cardinality c - 1) < x) \<and> ac_cardinality c < m"
  have all: "array_inv c' \<and> array_abs c' = (if r = 1 then insert x (array_abs c) else array_abs c)
      \<and> r = (if x \<in> array_abs c then 0 else if ac_cardinality c < m then 1 else - 1)"
  proof (cases ?fast)
    case True
    then have "\<forall>y \<in> array_abs c. y < x" using array_last_less [OF inv] by blast
    then show ?thesis using array_append_correct [OF inv] True r
      by (auto simp: array_container_try_add_def array_abs_def Let_def)
  next
    case slow: False
    define loc where "loc = binarySearch (ac_array c) (ac_len c) x"
    have found: "0 \<le> loc \<longleftrightarrow> x \<in> array_abs c"
      using bs.found_iff [of "ac_array c" x] inv by (simp add: loc_def array_simps array_abs_def)
    show ?thesis
    proof (cases "x \<in> array_abs c")
      case True
      then show ?thesis using slow r found inv
        by (auto simp: array_container_try_add_def Let_def simp flip: loc_def)
    next
      case False
      define cap where "cap = (if array_container_full c
        then array_container_grow c (ac_capacity c + 1) True else c)"
      have keep: "ac_array cap = ac_array c" by (simp add: cap_def array_grow_keeps)
      have ins: "nat (- loc - 1) = lower_bound (ac_array c) x"
        using bs.absent_index [of "ac_array c" x] inv found False by (simp add: loc_def array_simps)
      have "array_container_try_add c x m = (if ac_cardinality c < m
          then (cap\<lparr>ac_array := list_insert_at (lower_bound (ac_array c) x) x (ac_array cap),
                    ac_cardinality := ac_cardinality cap + 1\<rparr>, 1) else (c, - 1))"
        using found False unfolding array_container_try_add_def Let_def if_not_P [OF slow]
        by (simp add: ins flip: loc_def cap_def)
      then show ?thesis using r False inv array_insert_correct [OF inv False cap_def]
        by (auto simp: array_abs_def keep split: if_splits)
    qed
  qed
  from all show "array_inv c'"
    and "array_abs c' = (if r = 1 then insert x (array_abs c) else array_abs c)"
    and "r = (if x \<in> array_abs c then 0 else if ac_cardinality c < m then 1 else - 1)" by blast+
qed

lemma array_add_correct:
  assumes "array_inv c"
  shows "array_inv (fst (array_container_add c x)) \<and> array_abs (fst (array_container_add c x)) = insert x (array_abs c)
     \<and> (snd (array_container_add c x) \<longleftrightarrow> x \<notin> array_abs c)"
proof -
  obtain c' r where t: "array_container_try_add c x INT32_MAX = (c', r)" by fastforce
  show ?thesis
    using array_try_add_correct [OF assms t] array_inv_bound [OF assms]
    by (auto simp: array_container_add_def t split: if_splits)
qed

lemma array_remove_correct:
  assumes "array_inv c"
  shows "array_inv (fst (array_container_remove c x)) \<and> array_abs (fst (array_container_remove c x)) = array_abs c - {x}
     \<and> (snd (array_container_remove c x) \<longleftrightarrow> x \<in> array_abs c)"
proof -
  have s: "ssorted (ac_array c)" using assms by (simp add: array_simps)
  show ?thesis
  proof (cases "x \<in> array_abs c")
    case True
    then have x: "x \<in> set (ac_array c)" by (simp add: array_abs_def)
    then have "0 \<le> binarySearch (ac_array c) (ac_len c) x"
      and "nat (binarySearch (ac_array c) (ac_len c) x) = lower_bound (ac_array c) x"
      using bs.found_iff [of "ac_array c" x] bs.found_index [of "ac_array c" x] s assms
      by (simp_all add: array_simps)
    moreover have "lower_bound (ac_array c) x < length (ac_array c)"
      using ssorted_mem_iff [OF s, of x] x by simp
    ultimately show ?thesis using assms x set_remove_lower_bound [OF s x] ssorted_remove_at [OF s]
      by (auto simp: array_container_remove_def array_inv_def array_abs_def Let_def of_nat_diff Suc_leI)
  next
    case False
    then have "\<not> 0 \<le> binarySearch (ac_array c) (ac_len c) x"
      using bs.found_iff [of "ac_array c" x] s assms by (simp add: array_simps array_abs_def)
    then show ?thesis using assms False by (simp add: array_container_remove_def Let_def)
  qed
qed

interpretation ac: container array_inv array_abs array_container_contains array_container_add
  array_container_remove ac_cardinality
  by (unfold_locales; (rule array_contains_correct array_add_correct array_remove_correct array_inv_card; assumption))

section \<open>Queries\<close>

lemma card_le_split:
  fixes x :: "'a::linorder"
  assumes "finite S"
  shows "card {y \<in> S. y \<le> x} = card {y \<in> S. y < x} + of_bool (x \<in> S)"
proof -
  have "{y \<in> S. y \<le> x} = {y \<in> S. y < x} \<union> (if x \<in> S then {x} else {})" by (auto simp: le_less)
  then show ?thesis using assms by (auto simp: card_insert_if)
qed

lemma array_search:
  assumes "array_inv c"
  shows "binarySearch (ac_array c) (ac_len c) x =
     (if x \<in> array_abs c then int (card {y \<in> array_abs c. y < x}) else - (int (card {y \<in> array_abs c. y < x}) + 1))"
  using assms binarySearch_prefix [of "length (ac_array c)" "ac_array c" x]
  by (simp add: array_simps array_abs_def search_result_found search_result_absent lower_bound_card)

lemma array_rank_correct: "array_inv c \<Longrightarrow> array_container_rank c x = int (card {y \<in> array_abs c. y \<le> x})"
  by (simp add: array_container_rank_def array_search Let_def card_le_split)

lemma array_get_index_correct:
  "array_inv c \<Longrightarrow> array_container_get_index c x =
     (if x \<in> array_abs c then int (card {y \<in> array_abs c. y < x}) else - 1)"
  by (simp add: array_container_get_index_def array_search Let_def)

lemma array_index_equalorlarger_correct:
  assumes inv: "array_inv c"
  shows "array_container_index_equalorlarger c x =
     (if \<exists>y \<in> array_abs c. x \<le> y then int (lower_bound (ac_array c) x) else - 1)"
proof -
  have s: "ssorted (ac_array c)" using inv by (simp add: array_simps)
  have lb: "card {y \<in> array_abs c. y < x} = lower_bound (ac_array c) x"
    using lower_bound_card [OF s] by (simp add: array_abs_def)
  have "(\<exists>y \<in> array_abs c. x \<le> y) \<longleftrightarrow> lower_bound (ac_array c) x < length (ac_array c)"
    using ssorted_drop_lower_bound [OF s, of x] lower_bound_ge [of "ac_array c" x] nth_mem
    unfolding array_abs_def
    by (metis (mono_tags, lifting) drop_eq_Nil2 emptyE linorder_not_le list.set(1) mem_Collect_eq)
  moreover have "x \<in> array_abs c \<Longrightarrow> \<exists>y \<in> array_abs c. x \<le> y" by blast
  ultimately show ?thesis unfolding array_container_index_equalorlarger_def array_search [OF inv] lb
    by (auto simp: Let_def array_inv_cardinality [OF inv])
qed

lemma array_minimum_correct:
  assumes "array_inv c" and "array_abs c \<noteq> {}"
  shows "array_container_minimum c \<in> array_abs c \<and> (\<forall>y \<in> array_abs c. array_container_minimum c \<le> y)"
proof -
  have ne: "0 < length (ac_array c)" using assms(2) by (simp add: array_abs_def)
  moreover have "ac_array c ! 0 \<le> y" if "y \<in> set (ac_array c)" for y
    using that assms(1) by (auto simp: in_set_conv_nth array_simps intro: ssorted_nth_le)
  ultimately show ?thesis using assms(1)
    by (simp add: array_container_minimum_def array_simps array_abs_def)
qed

lemma array_maximum_correct:
  assumes "array_inv c" and "array_abs c \<noteq> {}"
  shows "array_container_maximum c \<in> array_abs c \<and> (\<forall>y \<in> array_abs c. y \<le> array_container_maximum c)"
proof -
  have ne: "0 < length (ac_array c)" using assms(2) by (simp add: array_abs_def)
  moreover have "y \<le> ac_array c ! (length (ac_array c) - 1)" if "y \<in> set (ac_array c)" for y
    using that assms(1) by (auto simp: in_set_conv_nth array_simps intro: ssorted_nth_le)
  moreover have "nat (int (length (ac_array c)) - 1) = length (ac_array c) - 1" by simp
  ultimately show ?thesis using assms(1)
    by (simp add: array_container_maximum_def array_simps array_abs_def)
qed

lemma array_equals_correct:
  assumes "array_inv c" and "array_inv d"
  shows "array_container_equals c d \<longleftrightarrow> array_abs c = array_abs d"
  using assms array_abs_unique [OF assms]
  by (auto simp: array_container_equals_def array_inv_def array_abs_def)

lemma subset_loop_correct: "ssorted xs \<Longrightarrow> ssorted ys \<Longrightarrow> subset_loop xs ys \<longleftrightarrow> set xs \<subseteq> set ys"
proof (induction xs ys rule: subset_loop.induct)
  case (1 x xs y ys)
  show ?case
  proof (cases x y rule: linorder_cases)
    case less
    then have "x \<notin> set (y # ys)" using "1.prems"(2) by auto
    then show ?thesis using less by auto
  next
    case equal
    moreover have "x \<notin> set xs" using "1.prems"(1) by auto
    ultimately show ?thesis using "1.IH"(1) "1.prems" by auto
  next
    case greater
    moreover have "y \<notin> set (x # xs)" using greater "1.prems"(1) by auto
    ultimately show ?thesis using "1.IH"(2) "1.prems" by auto
  qed
qed auto

lemma array_is_subset_correct:
  assumes "array_inv c" and "array_inv d"
  shows "array_container_is_subset c d \<longleftrightarrow> array_abs c \<subseteq> array_abs d"
proof -
  have "array_abs c \<subseteq> array_abs d \<Longrightarrow> ac_cardinality c \<le> ac_cardinality d"
    using assms by (simp add: array_inv_card card_mono)
  then show ?thesis using assms subset_loop_correct [of "ac_array c" "ac_array d"]
    by (auto simp: array_container_is_subset_def array_simps array_abs_def)
qed

lemma array_select_correct:
  assumes inv: "array_inv c" and b: "unat s + length (ac_array c) < 2 ^ 32" and le: "s \<le> r"
  shows "array_container_select c s r =
     (if unat s + length (ac_array c) \<le> unat r then Inl (s + word_of_nat (length (ac_array c)))
      else Inr (ucast (ac_array c ! (unat r - unat s))))"
proof -
  have u: "unat (s + word_of_nat (length (ac_array c))) = unat s + length (ac_array c)"
    using b by (simp add: unat_word_ariths unat_of_nat take_bit_eq_mod)
  have "unat (r - s) = unat r - unat s" using le by (simp add: unat_sub)
  then show ?thesis using inv u
    by (auto simp: array_container_select_def Let_def array_simps word_le_nat_alt)
qed

section \<open>Binary operations\<close>

lemma array_grow_room:
  "least \<le> ac_capacity (array_container_grow c least p) \<or> 65536 \<le> ac_capacity (array_container_grow c least p)"
  by (auto simp: array_container_grow_def clamp_def Let_def)

lemma array_out_inv:
  assumes "ssorted cells" and "int (length cells) \<le> n"
  shows "array_inv ((with_room out n)\<lparr>ac_array := cells, ac_cardinality := int (length cells)\<rparr>)"
  using array_grow_room [of n out False] ssorted_u16_length [OF assms(1)] assms
  by (intro array_inv_update) (auto simp: with_room_def)

lemma union_length: "ssorted A \<Longrightarrow> ssorted B \<Longrightarrow> length (fast_union_uint16 A B) \<le> length A + length B"
  using ssorted_card [of "fast_union_uint16 A B"] card_Un_le [of "set A" "set B"] ssorted_card [of A]
    ssorted_card [of B]
  by (auto simp: fast_union_uint16_def union_uint16_def union_generic_set union_generic_ssorted Un_commute
      split: if_splits)

lemma xor_length: "ssorted A \<Longrightarrow> ssorted B \<Longrightarrow> length (xor_uint16 A B) \<le> length A + length B"
  by (induction A B rule: xor_uint16.induct) auto

lemma fast_union_set: "set (fast_union_uint16 A B) = set A \<union> set B"
  and fast_union_ssorted: "ssorted A \<Longrightarrow> ssorted B \<Longrightarrow> ssorted (fast_union_uint16 A B)"
  by (auto simp: fast_union_uint16_def union_uint16_def union_generic_set union_generic_ssorted)

lemma array_union_correct:
  assumes "array_inv a" and "array_inv b"
  shows "array_inv (array_container_union a b out)"
    and "array_abs (array_container_union a b out) = array_abs a \<union> array_abs b"
proof -
  have eq: "array_container_union a b out = (with_room out (ac_cardinality a + ac_cardinality b))
      \<lparr>ac_array := fast_union_uint16 (ac_array a) (ac_array b),
       ac_cardinality := int (length (fast_union_uint16 (ac_array a) (ac_array b)))\<rparr>"
    by (simp add: array_container_union_def with_room_def Let_def)
  show "array_inv (array_container_union a b out)"
    unfolding eq using assms union_length [of "ac_array a" "ac_array b"]
    by (intro array_out_inv fast_union_ssorted) (simp_all add: array_simps)
  show "array_abs (array_container_union a b out) = array_abs a \<union> array_abs b"
    by (simp add: eq array_abs_def fast_union_set)
qed

lemma array_andnot_correct:
  assumes "array_inv a" and "array_inv b"
  shows "array_inv (array_container_andnot a b out)"
    and "array_abs (array_container_andnot a b out) = array_abs a - array_abs b"
proof -
  let ?cells = "filter (\<lambda>x. x \<notin> set (ac_array b)) (ac_array a)"
  have eq: "array_container_andnot a b out = (with_room out (ac_cardinality a))
      \<lparr>ac_array := ?cells, ac_cardinality := int (length ?cells)\<rparr>"
    using assms by (simp add: array_container_andnot_def with_room_def Let_def difference_uint16_filter array_simps)
  show "array_inv (array_container_andnot a b out)"
    unfolding eq using assms by (intro array_out_inv ssorted_filter) (simp_all add: array_simps)
  show "array_abs (array_container_andnot a b out) = array_abs a - array_abs b"
    by (auto simp: eq array_abs_def)
qed

lemma array_xor_correct:
  assumes "array_inv a" and "array_inv b"
  shows "array_inv (array_container_xor a b out)"
    and "array_abs (array_container_xor a b out) = (array_abs a - array_abs b) \<union> (array_abs b - array_abs a)"
proof -
  have eq: "array_container_xor a b out = (with_room out (ac_cardinality a + ac_cardinality b))
      \<lparr>ac_array := xor_uint16 (ac_array a) (ac_array b),
       ac_cardinality := int (length (xor_uint16 (ac_array a) (ac_array b)))\<rparr>"
    by (simp add: array_container_xor_def with_room_def Let_def)
  show "array_inv (array_container_xor a b out)"
    unfolding eq using assms xor_length [of "ac_array a" "ac_array b"]
    by (intro array_out_inv xor_uint16_ssorted) (simp_all add: array_simps)
  show "array_abs (array_container_xor a b out) = (array_abs a - array_abs b) \<union> (array_abs b - array_abs a)"
    using assms by (simp add: eq array_abs_def xor_uint16_set array_simps)
qed

definition intersection_cells :: "u16 list \<Rightarrow> u16 list \<Rightarrow> u16 list" where
  "intersection_cells A B = (if int (length A) * 64 < int (length B) then intersect_skewed_uint16 A B
     else if int (length B) * 64 < int (length A) then intersect_skewed_uint16 B A else intersect_uint16 A B)"

lemma filter_mem_commute:
  "ssorted A \<Longrightarrow> ssorted B \<Longrightarrow> filter (\<lambda>x. x \<in> set B) A = filter (\<lambda>x. x \<in> set A) B"
  by (rule ssorted_set_unique) (auto simp: ssorted_filter)

lemma intersection_cells_filter:
  "ssorted A \<Longrightarrow> ssorted B \<Longrightarrow> intersection_cells A B = filter (\<lambda>x. x \<in> set B) A"
  by (simp add: intersection_cells_def intersect_skewed_uint16_filter intersect_uint16_def
      intersect_generic_filter filter_mem_commute)

lemma array_intersection_correct:
  assumes "array_inv a" and "array_inv b"
  shows "array_inv (array_container_intersection a b out)"
    and "array_abs (array_container_intersection a b out) = array_abs a \<inter> array_abs b"
    and "array_inv (array_container_intersection_inplace a b)"
    and "array_abs (array_container_intersection_inplace a b) = array_abs a \<inter> array_abs b"
proof -
  let ?A = "ac_array a" and ?B = "ac_array b"
  let ?cells = "filter (\<lambda>x. x \<in> set ?B) ?A"
  have s: "ssorted ?A" "ssorted ?B" and n: "ac_cardinality a = int (length ?A)" "ac_cardinality b = int (length ?B)"
    using assms by (simp_all add: array_simps)
  note cells = intersection_cells_filter [OF s]
  have sc: "ssorted ?cells" using s(1) by (rule ssorted_filter)
  have la: "length ?cells \<le> length ?A" by (rule length_filter_le)
  moreover have "length ?cells \<le> length ?B"
    unfolding filter_mem_commute [OF s] by (rule length_filter_le)
  ultimately have "int (length ?cells) \<le> (if ac_cardinality a < ac_cardinality b then ac_cardinality a else ac_cardinality b)"
    using n by simp
  note out = array_out_inv [OF sc this, of out]
  have eq: "array_container_intersection a b out =
      (with_room out (if ac_cardinality a < ac_cardinality b then ac_cardinality a else ac_cardinality b))
        \<lparr>ac_array := ?cells, ac_cardinality := int (length ?cells)\<rparr>"
    unfolding cells [symmetric]
    by (simp add: array_container_intersection_def intersection_cells_def with_room_def Let_def n)
  have inplace: "array_container_intersection_inplace a b = a\<lparr>ac_array := ?cells, ac_cardinality := int (length ?cells)\<rparr>"
    unfolding cells [symmetric] by (simp add: array_container_intersection_inplace_def intersection_cells_def Let_def n)
  show "array_inv (array_container_intersection a b out)" using out by (simp only: eq)
  show "array_abs (array_container_intersection a b out) = array_abs a \<inter> array_abs b"
    by (auto simp: eq array_abs_def)
  show "array_inv (array_container_intersection_inplace a b)"
    unfolding inplace
  proof (rule array_inv_update [OF sc])
    show "int (length ?cells) \<le> ac_capacity a" using la n assms(1) unfolding array_inv_def by linarith
  qed
  show "array_abs (array_container_intersection_inplace a b) = array_abs a \<inter> array_abs b"
    by (auto simp: inplace array_abs_def)
qed

lemma skewed_empty: "intersect_skewed_uint16_cardinality [] B = 0" "\<not> intersect_skewed_uint16_nonempty [] B"
  by (simp_all add: intersect_skewed_uint16_cardinality_def intersect_skewed_uint16_nonempty_def)

lemma array_intersection_cardinality_correct:
  assumes "array_inv a" and "array_inv b"
  shows "array_container_intersection_cardinality a b = int (card (array_abs a \<inter> array_abs b))"
    and "array_container_intersect a b \<longleftrightarrow> array_abs a \<inter> array_abs b \<noteq> {}"
proof -
  let ?A = "ac_array a" and ?B = "ac_array b"
  have s: "ssorted ?A" "ssorted ?B" and n: "ac_cardinality a = int (length ?A)" "ac_cardinality b = int (length ?B)"
    using assms by (simp_all add: array_simps)
  have ne: "int (length X) * 64 < int (length Y) \<Longrightarrow> Y \<noteq> []" for X Y :: "u16 list" by auto
  note cells = intersection_cells_filter [OF s]
  have set: "set (intersection_cells ?A ?B) = array_abs a \<inter> array_abs b"
    by (auto simp: cells array_abs_def)
  have "ssorted (intersection_cells ?A ?B)" using s by (simp add: cells ssorted_filter)
  then have "length (intersection_cells ?A ?B) = card (array_abs a \<inter> array_abs b)"
    using ssorted_card set by metis
  moreover have "array_container_intersection_cardinality a b = int (length (intersection_cells ?A ?B))"
    using s n by (auto simp: array_container_intersection_cardinality_def intersection_cells_def Let_def
        intersect_skewed_uint16_cardinality_eq [OF _ _ ne] intersect_uint16_cardinality_def intersect_uint16_def
        intersect_generic_card_eq)
  ultimately show "array_container_intersection_cardinality a b = int (card (array_abs a \<inter> array_abs b))" by simp
  have "array_container_intersect a b \<longleftrightarrow> intersection_cells ?A ?B \<noteq> []"
    using s n by (auto simp: array_container_intersect_def intersection_cells_def Let_def
        intersect_skewed_uint16_nonempty_eq [OF _ _ ne] intersect_uint16_nonempty_eq)
  then show "array_container_intersect a b \<longleftrightarrow> array_abs a \<inter> array_abs b \<noteq> {}"
    using set by (metis set_empty)
qed

interpretation array_union: set_operation array_inv array_abs array_inv array_abs array_inv array_abs
  "\<lambda>a b. array_container_union a b out" "(\<or>)" for out
  by unfold_locales (simp_all add: array_union_correct)

interpretation array_andnot: set_operation array_inv array_abs array_inv array_abs array_inv array_abs
  "\<lambda>a b. array_container_andnot a b out" "\<lambda>p q. p \<and> \<not> q" for out
  by unfold_locales (simp_all add: array_andnot_correct)

interpretation array_xor: set_operation array_inv array_abs array_inv array_abs array_inv array_abs
  "\<lambda>a b. array_container_xor a b out" "(\<noteq>)" for out
  by unfold_locales (auto simp: array_xor_correct)

interpretation array_intersection: set_operation array_inv array_abs array_inv array_abs array_inv array_abs
  "\<lambda>a b. array_container_intersection a b out" "(\<and>)" for out
  by unfold_locales (simp_all add: array_intersection_correct)

interpretation array_subset: set_test array_inv array_abs array_inv array_abs array_container_is_subset "(\<subseteq>)"
  by unfold_locales (simp add: array_is_subset_correct)

interpretation array_equals: set_test array_inv array_abs array_inv array_abs array_container_equals "(=)"
  by unfold_locales (simp add: array_equals_correct)

interpretation array_intersect: set_test array_inv array_abs array_inv array_abs array_container_intersect
  "\<lambda>S T. S \<inter> T \<noteq> {}"
  by unfold_locales (simp add: array_intersection_cardinality_correct)

end
