(* ===== verification/Array_Ranges.thy ===== *)
theory Array_Ranges
  imports Array_Container
begin

text \<open>
  What the array container promises beyond single values: ranges (test, insertion, deletion,
  filling), ranks of a whole sorted query array, the number of runs, validation, shifting by
  an offset, enumeration and the byte format.
\<close>

section \<open>Ranges\<close>

lemma lower_bound_abs: "array_inv c \<Longrightarrow> lower_bound (ac_array c) x = card {y \<in> array_abs c. y < x}"
  by (simp add: array_abs_def array_simps lower_bound_card)

lemma array_mem_lower_bound:
  "array_inv c \<Longrightarrow> x \<in> array_abs c \<longleftrightarrow>
     lower_bound (ac_array c) x < length (ac_array c) \<and> ac_array c ! lower_bound (ac_array c) x = x"
  by (simp add: array_abs_def array_simps ssorted_mem_iff)

lemma array_range_present:
  assumes inv: "array_inv c" and b: "unat s = lo" "unat e = hi - 1" "lo < hi" "hi \<le> 65536"
    and sub: "u16_range lo hi \<subseteq> array_abs c"
  shows "lower_bound (ac_array c) s + (hi - lo) \<le> length (ac_array c) \<and>
     ac_array c ! (lower_bound (ac_array c) s + (hi - lo) - 1) = e"
proof -
  have "{y \<in> array_abs c. y < e} = {y \<in> array_abs c. y < s} \<union> u16_range lo (hi - 1)"
    using sub b by (auto simp: word_less_nat_alt subset_iff)
  moreover have "{y \<in> array_abs c. y < s} \<inter> u16_range lo (hi - 1) = {}"
    using b(1) by (auto simp: word_less_nat_alt)
  ultimately have "lower_bound (ac_array c) e = lower_bound (ac_array c) s + (hi - 1 - lo)"
    using b card_Un_disjoint [of "{y \<in> array_abs c. y < s}" "u16_range lo (hi - 1)"]
    by (simp add: lower_bound_abs [OF inv] card_u16_range)
  moreover have "e \<in> array_abs c" using sub b by (auto simp: subset_iff)
  ultimately have "lower_bound (ac_array c) s + (hi - 1 - lo) < length (ac_array c)
      \<and> ac_array c ! (lower_bound (ac_array c) s + (hi - 1 - lo)) = e"
    using array_mem_lower_bound [OF inv, of e] by simp
  moreover have "lower_bound (ac_array c) s + (hi - lo) - 1 = lower_bound (ac_array c) s + (hi - 1 - lo)"
    using b(3) by arith
  ultimately show ?thesis using b(3) by simp arith
qed

lemma array_range_contiguous:
  assumes s: "ssorted xs" and e: "p + n \<le> length xs" "0 < n" "unat (xs ! (p + n - 1)) = unat (xs ! p) + n - 1"
    and x: "unat (xs ! p) \<le> unat x" "unat x < unat (xs ! p) + n"
  shows "x \<in> set (xs :: u16 list)"
proof -
  define j where "j = p + (unat x - unat (xs ! p))"
  have j: "p \<le> j" "j \<le> p + n - 1" "p + n - 1 < length xs" using x e unfolding j_def by arith+
  have "unat (xs ! p) + (j - p) \<le> unat (xs ! j)" using j by (intro ssorted_gap [OF s]) auto
  moreover have "unat (xs ! j) + (p + n - 1 - j) \<le> unat (xs ! (p + n - 1))"
    using j by (intro ssorted_gap [OF s]) auto
  ultimately have "unat (xs ! j) = unat x" using x e(2,3) unfolding j_def by arith
  then have "xs ! j = x" by (simp only: word_unat_eq_iff)
  then show ?thesis using j by (metis le_less_trans nth_mem)
qed

lemma array_contains_range_correct:
  assumes inv: "array_inv c" and b: "unat lo \<le> unat hi" "unat hi \<le> 65536"
  shows "array_container_contains_range c lo hi \<longleftrightarrow> u16_range (unat lo) (unat hi) \<subseteq> array_abs c"
proof (cases "lo = hi")
  case True
  then show ?thesis by (auto simp: array_container_contains_range_def)
next
  case False
  then have lt: "unat lo < unat hi" using b(1) by (metis le_neq_implies_less word_unat_eq_iff)
  let ?n = "unat hi - unat lo" and ?xs = "ac_array c"
  define s e :: u16 where "s = ucast lo" and "e = ucast (hi - 1)"
  have us: "unat s = unat lo" "unat e = unat hi - 1"
    using lt b unat_ucast_u32_u16 [of lo] unat_ucast_u32_u16 [of "hi - 1"] unat_u32_pred [of hi]
    by (simp_all add: s_def e_def)
  have u: "unat (hi - lo) = ?n" using b(1) by (rule unat_u32_diff)
  have n: "sint (hi - lo) = int ?n" using sint_u32_small [of "hi - lo"] u b by simp
  let ?p = "lower_bound ?xs s"
  have ns: "\<not> int ?n \<le> 0" using lt by linarith
  have len: "ac_cardinality c = int (length ?xs)" using inv by (simp add: array_simps)
  have start: "binarySearch ?xs (ac_len c) s = (if s \<in> array_abs c then int ?p else - (int ?p + 1))"
    using array_search [OF inv, of s] by (simp add: lower_bound_abs [OF inv])
  have idx: "nat (int ?p + int ?n - 1) = ?p + ?n - 1" using lt by linarith
  have main: "array_container_contains_range c lo hi \<longleftrightarrow>
      ?n \<le> length ?xs \<and> s \<in> array_abs c \<and> ?p + ?n \<le> length ?xs \<and> ?xs ! (?p + ?n - 1) = e"
    unfolding array_container_contains_range_def Let_def n if_not_P [OF ns] s_def [symmetric]
      e_def [symmetric] start [unfolded len] len by (auto simp: idx simp del: of_nat_diff)
  show ?thesis
  proof
    assume "array_container_contains_range c lo hi"
    then have h: "s \<in> array_abs c" "?p + ?n \<le> length ?xs" "?xs ! (?p + ?n - 1) = e" by (auto simp: main)
    have p: "?xs ! ?p = s" using h(1) array_mem_lower_bound [OF inv] by blast
    have last: "unat (?xs ! (?p + ?n - 1)) = unat (?xs ! ?p) + ?n - 1"
      using lt by (simp only: h(3) p us)
    show "u16_range (unat lo) (unat hi) \<subseteq> array_abs c"
    proof
      fix x assume "x \<in> u16_range (unat lo) (unat hi)"
      then have "unat (?xs ! ?p) \<le> unat x" "unat x < unat (?xs ! ?p) + ?n"
        unfolding p us mem_u16_range by simp_all
      then show "x \<in> array_abs c"
        using array_range_contiguous [OF array_inv_sorted [OF inv] h(2) _ last] lt
        by (simp add: array_abs_def)
    qed
  next
    assume sub: "u16_range (unat lo) (unat hi) \<subseteq> array_abs c"
    then have "s \<in> array_abs c" using lt us by (simp add: subset_iff)
    then show "array_container_contains_range c lo hi"
      using array_range_present [OF inv us lt b(2) sub] by (simp add: main)
  qed
qed

lemma range_cells:
  assumes "hi \<le> 65536"
  shows "ssorted (map (\<lambda>k. word_of_nat k :: u16) [lo ..< hi])"
    and "set (map (\<lambda>k. word_of_nat k :: u16) [lo ..< hi]) = u16_range lo hi"
proof -
  have "ssorted [lo ..< hi]" by simp
  then show "ssorted (map (\<lambda>k. word_of_nat k :: u16) [lo ..< hi])"
    unfolding sorted_wrt_map
  proof (rule sorted_wrt_mono_rel [rotated])
    fix x y assume "x \<in> set [lo ..< hi]" "y \<in> set [lo ..< hi]" "x < y"
    then show "(word_of_nat x :: u16) < word_of_nat y" using assms by (simp add: word_less_nat_alt)
  qed
  show "set (map (\<lambda>k. word_of_nat k :: u16) [lo ..< hi]) = u16_range lo hi"
    using assms by (simp add: u16_range_image)
qed

lemma array_create_range_correct:
  assumes "unat lo \<le> unat hi" and "unat hi \<le> 65536"
  shows "array_inv (array_container_create_range lo hi)"
    and "array_abs (array_container_create_range lo hi) = u16_range (unat lo) (unat hi)"
proof -
  have "unat (hi - lo) = unat hi - unat lo" using assms(1) by (rule unat_u32_diff)
  then have n: "unat (hi - lo + 1) = unat hi - unat lo + 1"
    using unat_u32_add [of "hi - lo" 1] assms by simp
  have "sint (hi - lo + 1) = int (unat (hi - lo + 1))"
    by (rule sint_u32_small) (use n assms in linarith)
  then have "int (length [unat lo ..< unat hi]) \<le> sint (hi - lo + 1)"
    using n assms by simp
  then show "array_inv (array_container_create_range lo hi)"
    using range_cells(1) [OF assms(2)]
    by (simp add: array_container_create_range_def array_container_create_given_capacity_def
        array_inv_def Let_def del: of_nat_diff)
  show "array_abs (array_container_create_range lo hi) = u16_range (unat lo) (unat hi)"
    using range_cells(2) [OF assms(2)]
    by (simp add: array_container_create_range_def Let_def array_abs_def)
qed

text \<open>
  With a positive step and an exclusive bound of at most \<open>2 ^ 16\<close> the filling loop ends, and
  adds the arithmetic progression.
\<close>

definition progression :: "nat \<Rightarrow> nat \<Rightarrow> nat \<Rightarrow> u16 set" where
  "progression lo hi step = {x. lo \<le> unat x \<and> unat x < hi \<and> step dvd (unat x - lo)}"

lemma progression_step:
  assumes "v < hi" and "hi \<le> 65536" and "0 < step"
  shows "progression v hi step = insert (word_of_nat v) (progression (v + step) hi step)"
proof (intro set_eqI)
  fix x :: u16
  have "step dvd unat x - v \<longleftrightarrow> step dvd unat x - (v + step)" if "v + step \<le> unat x"
  proof -
    have "unat x - v = (unat x - (v + step)) + step" using that by arith
    then show ?thesis by simp
  qed
  moreover have "x = word_of_nat v \<longleftrightarrow> unat x = v"
    using assms by (auto simp: word_unat_eq_iff)
  moreover have "\<not> step dvd unat x - v" if "v < unat x" "unat x < v + step"
    using that by (simp add: nat_dvd_not_less)
  ultimately show "x \<in> progression v hi step \<longleftrightarrow>
      x \<in> insert (word_of_nat v) (progression (v + step) hi step)"
    using assms by (cases "v + step \<le> unat x"; cases "unat x = v") (auto simp: progression_def)
qed

lemma add_from_range_loop_correct:
  assumes step: "step \<noteq> 0" and hi: "unat hi \<le> 65536"
  shows "array_inv c \<Longrightarrow> \<forall>y \<in> array_abs c. unat y < unat v \<Longrightarrow>
     \<exists>c'. add_from_range_loop hi step v c = Some c' \<and> array_inv c' \<and>
       array_abs c' = array_abs c \<union> progression (unat v) (unat hi) (unat step)"
proof (induction "unat hi - unat v" arbitrary: v c rule: less_induct)
  case less
  show ?case
  proof (cases "v < hi")
    case True
    then have v: "unat v < unat hi" by (simp add: word_less_nat_alt)
    have st: "0 < unat step" using step by (simp add: unat_gt_0)
    have u: "unat (v + ucast step) = unat v + unat step"
      using unat_u32_add [of v "ucast step"] v hi unat_u16_less [of step] by simp
    have x: "unat (ucast v :: u16) = unat v" using v hi by (intro unat_ucast_u32_u16) simp
    have "\<forall>y \<in> array_abs c. y < ucast v" using less.prems(2) x by (simp add: word_less_nat_alt)
    then have app: "array_inv (array_container_append c (ucast v))"
        "array_abs (array_container_append c (ucast v)) = insert (ucast v) (array_abs c)"
      using array_append_correct [OF less.prems(1)] by (auto simp: array_abs_def)
    have "\<forall>y \<in> array_abs (array_container_append c (ucast v)). unat y < unat (v + ucast step)"
      using less.prems(2) st x u by (auto simp: app)
    moreover have "unat hi - (unat v + unat step) < unat hi - unat v" using v st by linarith
    ultimately obtain c' where c': "add_from_range_loop hi step (v + ucast step) (array_container_append c (ucast v)) = Some c'"
        "array_inv c'" "array_abs c' = insert (ucast v) (array_abs c) \<union> progression (unat v + unat step) (unat hi) (unat step)"
      using less.hyps [of "v + ucast step" "array_container_append c (ucast v)"] v st app u by auto
    moreover have "progression (unat v) (unat hi) (unat step) =
        insert (ucast v) (progression (unat v + unat step) (unat hi) (unat step))"
      using progression_step [OF v hi st] by simp
    moreover have "add_from_range_loop hi step v c =
        add_from_range_loop hi step (v + ucast step) (array_container_append c (ucast v))"
      using True by (subst add_from_range_loop.simps) simp
    ultimately show ?thesis by auto
  next
    case False
    then have "progression (unat v) (unat hi) (unat step) = {}"
      by (auto simp: progression_def word_less_nat_alt)
    then show ?thesis using False less.prems by (subst add_from_range_loop.simps) simp
  qed
qed

lemma array_add_from_range_correct:
  assumes "array_inv c" and "step \<noteq> 0" and "unat hi \<le> 65536" and "\<forall>y \<in> array_abs c. unat y < unat lo"
  obtains c' where "array_container_add_from_range c lo hi step = Some c'" and "array_inv c'"
    and "array_abs c' = array_abs c \<union> progression (unat lo) (unat hi) (unat step)"
  using add_from_range_loop_correct [OF assms(2,3,1,4)] by (auto simp: array_container_add_from_range_def)

text \<open>
  Splitting a sorted array by rank: the first cells up to a rank are the small values, the
  last ones the large values.
\<close>

lemma take_rank: "ssorted xs \<Longrightarrow> take (card {x \<in> set xs. x < k}) xs = filter (\<lambda>x. x < k) xs"
proof -
  assume s: "ssorted xs"
  have "take (lower_bound xs k) xs = filter (\<lambda>x. x < k) xs"
    by (rule ssorted_set_unique) (use s in \<open>auto simp: ssorted_take ssorted_filter ssorted_take_lower_bound\<close>)
  then show ?thesis using s by (simp add: lower_bound_card)
qed

lemma drop_rank: "ssorted xs \<Longrightarrow> drop (card {x \<in> set xs. x \<le> k}) xs = filter (\<lambda>x. k < x) xs"
proof -
  assume s: "ssorted xs"
  have c: "card {x \<in> set xs. x \<le> k} = length (filter (\<lambda>x. x \<le> k) xs)"
    using s by (simp add: ssorted_filter flip: ssorted_card)
  have "xs = filter (\<lambda>x. x \<le> k) xs @ filter (\<lambda>x. k < x) xs"
    by (rule ssorted_set_unique) (use s in \<open>auto simp: sorted_wrt_append ssorted_filter\<close>)
  then show ?thesis unfolding c by (metis append_eq_conv_conj)
qed

lemma array_add_range_nvals_correct:
  assumes inv: "array_inv c" and b: "unat lo \<le> unat hi" "unat hi < 65536"
    and less: "nless = int (card {x \<in> array_abs c. unat x < unat lo})"
    and greater: "ngreater = int (card {x \<in> array_abs c. unat hi < unat x})"
  defines "c' \<equiv> array_container_add_range_nvals c lo hi nless ngreater"
  shows "array_inv c'" and "array_abs c' = array_abs c \<union> u16_range (unat lo) (Suc (unat hi))"
proof -
  let ?xs = "ac_array c"
  define l h :: u16 where "l = ucast lo" and "h = ucast hi"
  have u: "unat l = unat lo" "unat h = unat hi"
    using b unat_ucast_u32_u16 [of lo] unat_ucast_u32_u16 [of hi] by (simp_all add: l_def h_def)
  have s: "ssorted ?xs" using inv by (simp add: array_simps)
  have n: "ac_cardinality c = int (length ?xs)" using inv by (simp add: array_simps)
  have nl: "nless = int (card {x \<in> set ?xs. x < l})"
    by (simp add: less word_less_nat_alt u array_abs_def)
  have "card {x \<in> set ?xs. x \<le> h} + card {x \<in> set ?xs. h < x} = length ?xs"
    using card_less_eq_greater [of "set ?xs" h] card_le_split [of "set ?xs" h] ssorted_card [OF s] by simp
  moreover have "ngreater = int (card {x \<in> set ?xs. h < x})"
    by (simp add: greater word_less_nat_alt u array_abs_def)
  ultimately have ng: "nat (ac_cardinality c - ngreater) = card {x \<in> set ?xs. x \<le> h}"
    and ng': "nat ngreater = length (filter (\<lambda>x. h < x) ?xs)" "0 \<le> ngreater"
    using n s by (simp_all add: ssorted_filter flip: ssorted_card)
  let ?range = "map (\<lambda>i. ucast (lo + word_of_nat i) :: u16) [0 ..< Suc (unat (hi - lo))]"
  have d: "unat (hi - lo) = unat hi - unat lo" using b(1) by (rule unat_u32_diff)
  have "(ucast (lo + word_of_nat i) :: u16) = word_of_nat (unat lo + i)" if "i < Suc (unat (hi - lo))" for i
  proof -
    have "unat (lo + word_of_nat i) = unat lo + i"
      using that d b unat_u32_add [of lo "word_of_nat i"] by simp
    then show ?thesis using that d b unat_ucast_u32_u16 [of "lo + word_of_nat i"]
      by (intro u16_eq_of_nat) simp
  qed
  then have "?range = map (\<lambda>i. word_of_nat (i + unat lo)) [0 ..< Suc (unat hi) - unat lo]"
    using d b by (simp add: Suc_diff_le add.commute del: upt_Suc)
  also have "\<dots> = map word_of_nat (map (\<lambda>i. i + unat lo) [0 ..< Suc (unat hi) - unat lo])"
    by (simp only: map_map o_def)
  also have "\<dots> = map word_of_nat [unat lo ..< Suc (unat hi)]"
    using b by (simp only: map_add_upt) simp
  finally have range: "?range = map word_of_nat [unat lo ..< Suc (unat hi)]" .
  have rng: "ssorted ?range" "set ?range = u16_range (unat lo) (Suc (unat hi))"
    unfolding range by (rule range_cells; use b in simp)+
  let ?cells = "filter (\<lambda>x. x < l) ?xs @ ?range @ filter (\<lambda>x. h < x) ?xs"
  have ss: "ssorted ?cells"
    using rng s b by (auto simp: sorted_wrt_append ssorted_filter word_less_nat_alt u simp del: upt_Suc map_append)
  have uc: "sint (word_of_int nless + (hi - lo + 1) + word_of_int ngreater :: u32) = int (length ?cells)"
  proof -
    let ?a = "length (filter (\<lambda>x. x < l) ?xs)" and ?b = "length (filter (\<lambda>x. h < x) ?xs)"
    have a: "word_of_int nless = (word_of_nat ?a :: u32)"
      using s by (simp add: nl ssorted_filter flip: ssorted_card)
    have b': "word_of_int ngreater = (word_of_nat ?b :: u32)"
      using ng' by (metis int_nat_eq of_int_of_nat_eq)
    have len: "length ?cells = ?a + Suc (unat (hi - lo)) + ?b" by simp
    have m: "length ?cells \<le> 65536" using ss by (rule ssorted_u16_length)
    then have ua: "unat (word_of_nat ?a :: u32) = ?a" "unat (word_of_nat ?b :: u32) = ?b"
      unfolding len by simp_all
    have "unat (hi - lo + 1) = Suc (unat (hi - lo))"
      using m unat_u32_add [of "hi - lo" 1] unfolding len by simp
    then have "unat (word_of_nat ?a + (hi - lo + 1)) = ?a + Suc (unat (hi - lo))"
      using m unat_u32_add [of "word_of_nat ?a" "hi - lo + 1"] ua unfolding len by simp
    then have "unat (word_of_nat ?a + (hi - lo + 1) + word_of_nat ?b) = length ?cells"
      using m unat_u32_add [of "word_of_nat ?a + (hi - lo + 1)" "word_of_nat ?b"] ua unfolding len by simp
    then show ?thesis using sint_u32_small [of "word_of_nat ?a + (hi - lo + 1) + word_of_nat ?b"] m
      unfolding a b' by simp
  qed
  have eq: "c' = (if int (length ?cells) > ac_capacity c then array_container_grow c (int (length ?cells)) True else c)
      \<lparr>ac_array := ?cells, ac_cardinality := int (length ?cells)\<rparr>"
  proof -
    have t: "take (nat nless) ?xs = filter (\<lambda>x. x < l) ?xs" using take_rank [OF s, of l] by (simp add: nl)
    have d: "drop (nat (ac_cardinality c - ngreater)) ?xs = filter (\<lambda>x. h < x) ?xs"
      unfolding ng by (rule drop_rank [OF s])
    show ?thesis unfolding c'_def array_container_add_range_nvals_def uc Let_def
      by (simp add: array_grow_keeps t d del: length_append upt_Suc)
  qed
  show "array_inv c'"
    unfolding eq using ssorted_u16_length [OF ss] array_grow_capacity [of "int (length ?cells)" c True]
    by (intro array_inv_update ss) (auto simp del: length_append length_map upt_Suc)
  show "array_abs c' = array_abs c \<union> u16_range (unat lo) (Suc (unat hi))"
  proof -
    have "array_abs c' = set ?cells" by (simp only: eq array_abs_def) simp
    also have "\<dots> = {x \<in> array_abs c. unat x < unat lo} \<union> u16_range (unat lo) (Suc (unat hi))
        \<union> {x \<in> array_abs c. unat hi < unat x}"
      unfolding set_append rng(2) by (auto simp: array_abs_def word_less_nat_alt u)
    also have "\<dots> = array_abs c \<union> u16_range (unat lo) (Suc (unat hi))" using b by auto
    finally show ?thesis .
  qed
qed

lemma array_remove_range_correct:
  fixes lo hi :: u32
  assumes inv: "array_inv c" and b: "unat lo \<le> unat hi" "unat hi < 65536"
    and less: "unat pos = card {x \<in> array_abs c. unat x < unat lo}"
    and count: "unat pos + unat count = card {x \<in> array_abs c. unat x \<le> unat hi}"
  defines "c' \<equiv> array_container_remove_range c pos count"
  shows "array_inv c'" and "array_abs c' = array_abs c - u16_range (unat lo) (Suc (unat hi))"
proof -
  let ?xs = "ac_array c"
  define l h :: u16 where "l = ucast lo" and "h = ucast hi"
  have u: "unat l = unat lo" "unat h = unat hi"
    using b unat_ucast_u32_u16 [of lo] unat_ucast_u32_u16 [of hi] by (simp_all add: l_def h_def)
  have s: "ssorted ?xs" using inv by (simp add: array_simps)
  have n: "ac_cardinality c = int (length ?xs)" using inv by (simp add: array_simps)
  have t: "take (unat pos) ?xs = filter (\<lambda>x. x < l) ?xs"
    using take_rank [OF s, of l] by (simp add: less word_less_nat_alt u array_abs_def)
  have le: "unat pos + unat count \<le> length ?xs"
    unfolding count array_abs_def ssorted_card [OF s, symmetric] by (rule card_mono) auto
  then have "unat (pos + count) = unat pos + unat count"
    using ssorted_u16_length [OF s] by (intro unat_u32_add) simp
  then have d: "drop (unat (pos + count)) ?xs = filter (\<lambda>x. h < x) ?xs"
    using drop_rank [OF s, of h] by (simp add: count word_le_nat_alt u array_abs_def)
  let ?cells = "filter (\<lambda>x. x < l) ?xs @ filter (\<lambda>x. h < x) ?xs"
  have len: "length ?cells = length ?xs - unat count"
    using le arg_cong [OF t, of length] arg_cong [OF d, of length] \<open>unat (pos + count) = _\<close> by simp
  have eq: "c' = c\<lparr>ac_array := ?cells, ac_cardinality := int (length ?cells)\<rparr>"
  proof (cases "count = 0")
    case True
    then have "?cells = ?xs" unfolding t [symmetric] d [symmetric] by simp
    then show ?thesis using True n by (simp only: c'_def array_container_remove_range_def) simp
  next
    case False
    moreover have "int (length ?xs) - int (unat count) = int (length ?cells)"
      unfolding len using le by linarith
    ultimately show ?thesis unfolding c'_def array_container_remove_range_def n t d by simp
  qed
  have "ssorted ?cells"
    using s b by (auto simp: sorted_wrt_append ssorted_filter word_less_nat_alt u)
  moreover have "int (length ?cells) \<le> ac_capacity c"
  proof -
    have "int (length ?cells) \<le> int (length ?xs)" unfolding len by simp
    then show ?thesis using inv n unfolding array_inv_def by linarith
  qed
  ultimately show "array_inv c'" unfolding eq by (rule array_inv_update)
  show "array_abs c' = array_abs c - u16_range (unat lo) (Suc (unat hi))"
    using b by (auto simp: eq array_abs_def word_less_nat_alt u)
qed

section \<open>Ranks of many values\<close>

lemma rank_split:
  assumes "ssorted xs" and "\<forall>y \<in> set (take p xs). y \<le> x" and "p \<le> length xs"
  shows "card {y \<in> set xs. y \<le> x} = p + card {y \<in> set (drop p xs). y \<le> x}"
proof -
  have "set xs = set (take p xs) \<union> set (drop p xs)" by (simp flip: set_append)
  then have "{y \<in> set xs. y \<le> x} = set (take p xs) \<union> {y \<in> set (drop p xs). y \<le> x}"
    using assms(2) by auto
  moreover have "set (take p xs) \<inter> set (drop p xs) = {}"
    using ssorted_imp_distinct [OF assms(1)] by (simp add: set_take_disj_set_drop_if_distinct)
  ultimately have "card {y \<in> set xs. y \<le> x} = card (set (take p xs)) + card {y \<in> set (drop p xs). y \<le> x}"
    by (subst card_Un_disjoint [symmetric]) auto
  then show ?thesis using ssorted_card [OF ssorted_take [OF assms(1)], of p] assms(3) by simp
qed

lemma rank_many_loop_correct:
  assumes inv: "array_inv c"
  shows "\<forall>q \<in> set qs. ucast (drop_bit 16 q) = high \<Longrightarrow> sorted (map (\<lambda>q. ucast q :: u16) qs) \<Longrightarrow>
     pos \<le> length (ac_array c) \<Longrightarrow>
     (\<forall>q \<in> set qs. \<forall>y \<in> set (take pos (ac_array c)). y \<le> ucast q) \<Longrightarrow>
     rank_many_loop c start high pos qs =
       map (\<lambda>q. start + word_of_nat (card {y \<in> array_abs c. y \<le> ucast q})) qs"
proof (induction qs arbitrary: pos)
  case (Cons q qs)
  let ?xs = "ac_array c" and ?d = "drop pos (ac_array c)" and ?x = "ucast q :: u16"
  have s: "ssorted ?xs" and sd: "ssorted ?d" using inv by (simp_all add: array_simps ssorted_drop)
  have n: "ac_len c - pos = length ?d" using inv by (simp add: array_simps)
  have rank: "card {y \<in> array_abs c. y \<le> ?x} = pos + lower_bound ?d ?x + of_bool (?x \<in> set ?d)"
    using rank_split [OF s, of pos ?x] Cons.prems(3,4)
    by (simp add: array_abs_def card_le_split lower_bound_card [OF sd])
  have bsr: "binarySearch ?d (ac_len c - pos) ?x = search_result ?d ?x"
    using binarySearch_prefix [of "length ?d" ?d ?x] sd n by simp
  show ?case
  proof (cases "?x \<in> set ?d")
    case True
    let ?p = "lower_bound ?d ?x"
    have p: "?p < length ?d" "?d ! ?p = ?x" using True ssorted_mem_iff [OF sd] by blast+
    then have p': "pos + ?p < length ?xs" "?xs ! (pos + ?p) = ?x" by simp_all
    have "y \<le> ucast r" if r: "r \<in> set qs" and y: "y \<in> set (take (Suc ?p) ?xs)" for r y
    proof -
      obtain i where "i < Suc ?p" "i < length ?xs" "y = ?xs ! i"
        using y unfolding in_set_conv_nth by auto
      then have "y \<le> ?xs ! (pos + ?p)" using ssorted_nth_le [OF s, of i "pos + ?p"] p' by simp
      also have "\<dots> \<le> ucast r" using p'(2) Cons.prems(2) r by simp
      finally show ?thesis .
    qed
    then have "rank_many_loop c start high (Suc ?p) qs =
        map (\<lambda>q. start + word_of_nat (card {y \<in> array_abs c. y \<le> ucast q})) qs"
      using Cons.prems p' by (intro Cons.IH) auto
    then show ?thesis using True Cons.prems(1) search_result_found [OF sd True]
      by (simp add: bsr rank Let_def nat_add_distrib add_ac)
  next
    case False
    have "rank_many_loop c start high pos qs =
        map (\<lambda>q. start + word_of_nat (card {y \<in> array_abs c. y \<le> ucast q})) qs"
      using Cons.prems by (intro Cons.IH) auto
    then show ?thesis using False Cons.prems(1) search_result_absent [OF sd False]
      by (simp add: bsr rank Let_def add_ac)
  qed
qed simp

lemma rank_many_loop_stops:
  "rank_many_loop c start high pos qs =
     rank_many_loop c start high pos (takeWhile (\<lambda>q. ucast (drop_bit 16 q) = high) qs)"
  by (induction qs arbitrary: pos) (simp_all add: Let_def)

lemma unat_high16: "unat (drop_bit 16 (a :: u32)) = unat a div 65536" "unat (drop_bit 16 a) < 65536"
proof -
  show d: "unat (drop_bit 16 a) = unat a div 65536"
    by (simp add: drop_bit_eq_div unat_div_distrib)
  show "unat (drop_bit 16 a) < 65536" unfolding d using unat_u32_less [of a] by linarith
qed

lemma array_rank_many_correct:
  assumes "array_inv c" and qs: "run = takeWhile (\<lambda>q. drop_bit 16 q = drop_bit 16 (hd qs)) qs"
    and "sorted (map (\<lambda>q. ucast q :: u16) run)"
  shows "array_container_rank_many c start qs =
     (length run, map (\<lambda>q. start + word_of_nat (card {y \<in> array_abs c. y \<le> ucast q})) run)"
proof -
  have "(ucast (drop_bit 16 a) :: u16) = ucast (drop_bit 16 b) \<longleftrightarrow> drop_bit 16 a = drop_bit 16 b" for a b :: u32
    using unat_ucast_u32_u16 [OF unat_high16(2), of a] unat_ucast_u32_u16 [OF unat_high16(2), of b]
    by (metis word_unat_eq_iff)
  then have run: "takeWhile (\<lambda>q. (ucast (drop_bit 16 q) :: u16) = ucast (drop_bit 16 (hd qs))) qs = run"
    by (simp add: qs)
  then have "\<forall>q \<in> set run. (ucast (drop_bit 16 q) :: u16) = ucast (drop_bit 16 (hd qs))"
    using set_takeWhileD by fastforce
  then show ?thesis using rank_many_loop_correct [OF assms(1) _ assms(3), of "ucast (drop_bit 16 (hd qs))" 0 start]
      rank_many_loop_stops [of c start "ucast (drop_bit 16 (hd qs))" 0 qs]
    by (simp add: array_container_rank_many_def run)
qed

section \<open>Runs, validation\<close>

text \<open>A value starts a run when its predecessor is not in the set.\<close>

definition run_starts :: "u16 set \<Rightarrow> u16 set" where
  "run_starts S = {x \<in> S. x = 0 \<or> x - 1 \<notin> S}"

lemma uint_u16_pred: "x \<noteq> 0 \<Longrightarrow> uint (x - 1 :: u16) = uint x - 1"
  by (simp add: uint_minus_simple_alt [THEN iffD1] word_le_def uint_sub_if' order_less_le)
    (metis One_nat_def diff_ge_0_iff_ge int_one_le_iff_zero_less uint_0_iff uint_ge_0 order_less_le)

lemma number_of_runs_loop_correct:
  "ssorted ps \<Longrightarrow> (\<forall>x \<in> set ps. prev < uint x) \<Longrightarrow>
     number_of_runs_loop ps prev n =
       n + int (card {x \<in> set ps. uint x \<noteq> prev + 1 \<and> (x = 0 \<or> x - 1 \<notin> set ps)})"
proof (induction ps arbitrary: prev n)
  case (Cons p ps)
  have gt: "p < x" if "x \<in> set ps" for x using Cons.prems(1) that by simp
  have IH: "number_of_runs_loop ps (uint p) m =
      m + int (card {x \<in> set ps. uint x \<noteq> uint p + 1 \<and> (x = 0 \<or> x - 1 \<notin> set ps)})" for m
    using Cons.prems(1) by (intro Cons.IH) (auto simp: word_less_def)
  let ?T = "{x \<in> set ps. uint x \<noteq> uint p + 1 \<and> (x = 0 \<or> x - 1 \<notin> set ps)}"
  let ?S = "{x \<in> set (p # ps). uint x \<noteq> prev + 1 \<and> (x = 0 \<or> x - 1 \<notin> set (p # ps))}"
  have tail: "x \<in> ?S \<longleftrightarrow> x \<in> ?T" if x: "x \<in> set ps" for x
  proof -
    have x0: "x \<noteq> 0" using gt [OF x] by auto
    have "x - 1 = p \<longleftrightarrow> uint x = uint p + 1"
      using uint_u16_pred [OF x0] by (auto simp: word_uint_eq_iff)
    moreover have "uint x \<noteq> prev + 1"
      using gt [OF x] Cons.prems(2) by (auto simp: word_less_def)
    ultimately show ?thesis using x x0 by auto
  qed
  have first: "p \<in> ?S \<longleftrightarrow> uint p \<noteq> prev + 1"
  proof -
    have "p - 1 \<notin> set (p # ps)" if "p \<noteq> 0"
      using gt [of "p - 1"] uint_u16_pred [OF that] by (auto simp: word_less_def)
    then show ?thesis by auto
  qed
  have pT: "p \<notin> ?T" using gt by auto
  have "x \<in> ?S \<longleftrightarrow> x \<in> ?T \<union> (if uint p \<noteq> prev + 1 then {p} else {})" for x
  proof (cases "x = p")
    case True
    then show ?thesis using first pT by (cases "uint p = prev + 1") simp_all
  next
    case False
    then show ?thesis using tail [of x] by (cases "x \<in> set ps") simp_all
  qed
  then have "?S = ?T \<union> (if uint p \<noteq> prev + 1 then {p} else {})" by blast
  then have "card ?S = card ?T + of_bool (uint p \<noteq> prev + 1)" using pT by simp
  then show ?case by (simp only: number_of_runs_loop.simps IH) simp
qed simp

lemma array_number_of_runs_correct:
  "array_inv c \<Longrightarrow> array_container_number_of_runs c = int (card (run_starts (array_abs c)))"
proof -
  assume inv: "array_inv c"
  have u: "- 2 < uint x" "uint x \<noteq> - 1" for x :: u16 using uint_ge_0 [of x] by linarith+
  show ?thesis using number_of_runs_loop_correct [of "ac_array c" "- 2" 0] inv u
    by (simp add: array_container_number_of_runs_def array_simps array_abs_def run_starts_def)
qed

lemma increasing_from_ssorted: "increasing_from p xs \<longleftrightarrow> ssorted (p # xs)"
  by (induction p xs rule: increasing_from.induct) (auto simp: not_le intro: order_less_trans)

lemma array_validate_correct:
  assumes "ac_cardinality c = int (length (ac_array c))"
  shows "array_container_validate c = None \<longleftrightarrow>
     array_inv c \<and> 0 < ac_cardinality c \<and> ac_cardinality c \<le> DEFAULT_MAX_SIZE"
proof (cases "ac_array c")
  case Nil
  then show ?thesis using assms by (simp add: array_container_validate_def)
next
  case (Cons x xs)
  then show ?thesis using assms
    by (auto simp: array_container_validate_def increasing_from_ssorted array_inv_def)
qed

section \<open>Shifting\<close>

text \<open>
  With a positive offset, the values that stay below \<open>2 ^ 16\<close> go to the low half and the
  others, wrapped around, to the high half.
\<close>

lemma ssorted_shift:
  assumes "ssorted (xs :: u16 list)"
    and "(\<forall>x \<in> set xs. unat x + unat d < 65536) \<or> (\<forall>x \<in> set xs. 65536 \<le> unat x + unat d)"
  shows "ssorted (map (\<lambda>x. x + d) xs)"
proof -
  have u: "unat (x + d) = (if unat x + unat d < 65536 then unat x + unat d else unat x + unat d - 65536)" for x
  proof -
    have m: "unat (x + d) = (unat x + unat d) mod 65536" by (simp add: unat_word_ariths)
    have "unat x + unat d - 65536 < 65536" using unat_u16_less [of x] unat_u16_less [of d] by linarith
    then show ?thesis unfolding m by (auto simp: le_mod_geq)
  qed
  have "x + d < y + d" if xy: "x \<in> set xs" "y \<in> set xs" "x < y" for x y
  proof -
    consider "unat x + unat d < 65536" "unat y + unat d < 65536"
      | "65536 \<le> unat x + unat d" "65536 \<le> unat y + unat d" using assms(2) xy by blast
    then show ?thesis using xy(3) u [of x] u [of y] unfolding word_less_nat_alt by cases auto
  qed
  then show ?thesis unfolding sorted_wrt_map using assms(1) by (rule sorted_wrt_mono_rel)
qed

lemma array_offset_correct:
  assumes inv: "array_inv c" and d: "d \<noteq> 0"
    and r: "array_container_offset c True True d = (lo, hi)"
  shows "case lo of None \<Rightarrow> {x \<in> array_abs c. unat x + unat d < 65536} = {}
     | Some l \<Rightarrow> array_inv l \<and> array_abs l = (\<lambda>x. x + d) ` {x \<in> array_abs c. unat x + unat d < 65536}"
    and "case hi of None \<Rightarrow> {x \<in> array_abs c. 65536 \<le> unat x + unat d} = {}
     | Some h \<Rightarrow> array_inv h \<and> array_abs h = (\<lambda>x. x + d) ` {x \<in> array_abs c. 65536 \<le> unat x + unat d}"
proof -
  let ?xs = "ac_array c"
  have s: "ssorted ?xs" and n: "ac_cardinality c = int (length ?xs)" using inv by (simp_all add: array_simps)
  have d0: "0 < unat d" using d by (simp add: unat_gt_0)
  define top where "top = (word_of_int (65536 - uint d) :: u16)"
  have "65536 - uint d = int (65536 - unat d)"
    using unat_u16_less [of d] by (simp only: uint_nat of_nat_diff less_imp_le of_nat_numeral)
  then have "top = word_of_nat (65536 - unat d)" unfolding top_def by (simp only: of_int_of_nat_eq)
  then have top: "unat top = 65536 - unat d" using d0 unat_u16_of_nat [of "65536 - unat d"] by simp
  have lt: "x < top \<longleftrightarrow> unat x + unat d < 65536" for x
    using unat_u16_less [of d] by (auto simp: word_less_nat_alt top)
  define k where "k = count_less ?xs (ac_len c) top"
  have k: "k = lower_bound ?xs top" using count_less_prefix [of "length ?xs" ?xs top] s n by (simp add: k_def)
  then have kl: "k \<le> length ?xs" by simp
  have lo_set: "set (take k ?xs) = {x \<in> array_abs c. unat x + unat d < 65536}"
    unfolding k ssorted_take_lower_bound [OF s] by (simp add: lt array_abs_def)
  have hi_set: "set (drop k ?xs) = {x \<in> array_abs c. 65536 \<le> unat x + unat d}"
    unfolding k ssorted_drop_lower_bound [OF s] by (auto simp: array_abs_def simp flip: lt not_less)
  have lo_cells: "map (\<lambda>i. ?xs ! i + d) [0 ..< k] = map (\<lambda>x. x + d) (take k ?xs)"
    using kl by (intro nth_equalityI) auto
  have hi_cells: "map (\<lambda>i. ?xs ! (k + i) + d) [0 ..< length ?xs - k] = map (\<lambda>x. x + d) (drop k ?xs)"
    using kl by (intro nth_equalityI) auto
  have hc: "int (length ?xs) - int k = int (length ?xs - k)" using kl by simp
  have hn: "nat (int (length ?xs) - int k) = length ?xs - k" by arith
  have eq: "lo = (if k \<noteq> 0 then Some \<lparr>ac_cardinality = int k, ac_capacity = int k,
        ac_array = map (\<lambda>x. x + d) (take k ?xs)\<rparr> else None)"
    "hi = (if length ?xs - k \<noteq> 0 then Some \<lparr>ac_cardinality = int (length ?xs - k),
        ac_capacity = int (length ?xs - k), ac_array = map (\<lambda>x. x + d) (drop k ?xs)\<rparr> else None)"
    using r unfolding array_container_offset_def Let_def top_def [symmetric] n k_def [unfolded n, symmetric] hc
    by (auto simp: lo_cells hi_cells hn)
  have "ssorted (map (\<lambda>x. x + d) (take k ?xs))"
    using ssorted_take [OF s] by (rule ssorted_shift) (simp add: lo_set)
  then show "case lo of None \<Rightarrow> {x \<in> array_abs c. unat x + unat d < 65536} = {}
     | Some l \<Rightarrow> array_inv l \<and> array_abs l = (\<lambda>x. x + d) ` {x \<in> array_abs c. unat x + unat d < 65536}"
    using kl unfolding lo_set [symmetric] by (auto simp: eq array_inv_def array_abs_def)
  have "ssorted (map (\<lambda>x. x + d) (drop k ?xs))"
    using ssorted_drop [OF s] by (rule ssorted_shift) (simp add: hi_set)
  then show "case hi of None \<Rightarrow> {x \<in> array_abs c. 65536 \<le> unat x + unat d} = {}
     | Some h \<Rightarrow> array_inv h \<and> array_abs h = (\<lambda>x. x + d) ` {x \<in> array_abs c. 65536 \<le> unat x + unat d}"
    using kl unfolding hi_set [symmetric] by (auto simp: eq array_inv_def array_abs_def)
qed

section \<open>Enumeration and bytes\<close>

lemma array_to_uint32_array_correct:
  assumes "array_inv c"
  shows "array_container_to_uint32_array c base =
     (int (card (array_abs c)), map (\<lambda>x. base + ucast x) (sorted_list_of_set (array_abs c)))"
proof -
  have "sorted_list_of_set (array_abs c) = ac_array c"
    using assms by (simp add: array_abs_def array_simps sorted_list_of_set.idem_if_sorted_distinct
        ssorted_imp_sorted ssorted_imp_distinct)
  moreover have "map (\<lambda>i. base + ucast (ac_array c ! i)) [0 ..< length (ac_array c)]
      = map (\<lambda>x. base + ucast x) (ac_array c)"
    by (intro nth_equalityI) auto
  moreover have "card (array_abs c) = length (ac_array c)"
    using assms by (simp add: array_abs_def ssorted_card array_simps)
  ultimately show ?thesis using assms
    by (simp add: array_container_to_uint32_array_def array_simps)
qed

lemma u16_from_to_le: "u16_from_le (u16_to_le v) = v"
proof -
  have "ucast (ucast v :: u8) + push_bit 8 (ucast (ucast (drop_bit 8 v) :: u8)) = v"
    by (subst disjunctive_add) (auto simp: bit_eq_iff bit_simps)
  then show ?thesis by (simp add: u16_from_le_def u16_to_le_def)
qed

lemma concat_pairs_nth:
  "i < length xs \<Longrightarrow> concat (map u16_to_le xs) ! (2 * i) = u16_to_le (xs ! i) ! 0
     \<and> concat (map u16_to_le xs) ! (2 * i + 1) = u16_to_le (xs ! i) ! 1"
proof (induction xs arbitrary: i)
  case (Cons x xs)
  then show ?case by (cases i) (auto simp: u16_to_le_def)
qed simp

lemma array_write_read:
  assumes "array_inv c"
  shows "fst (array_container_write c) = concat (map u16_to_le (ac_array c))"
    and "int (length (fst (array_container_write c))) = snd (array_container_write c)"
    and "ac_array (fst (array_container_read (ac_cardinality c) d (fst (array_container_write c) @ rest))) = ac_array c"
    and "array_inv (fst (array_container_read (ac_cardinality c) d (fst (array_container_write c) @ rest)))"
proof -
  let ?xs = "ac_array c" and ?buf = "concat (map u16_to_le (ac_array c))"
  have len: "length (concat (map u16_to_le xs)) = 2 * length xs" for xs
    by (induction xs) (simp_all add: u16_to_le_def)
  show w: "fst (array_container_write c) = ?buf"
    using assms by (simp add: array_container_write_def array_simps)
  show "int (length (fst (array_container_write c))) = snd (array_container_write c)"
    using assms len unfolding w by (simp add: array_container_write_def array_container_size_in_bytes_def array_simps)
  have "u16_from_le [(?buf @ rest) ! (2 * i), (?buf @ rest) ! (2 * i + 1)] = ?xs ! i" if "i < length ?xs" for i
    using concat_pairs_nth [OF that] len [of ?xs] that u16_from_to_le [of "?xs ! i"]
    by (simp add: nth_append u16_to_le_def)
  then have cells: "map (\<lambda>i. u16_from_le [(?buf @ rest) ! (2 * i), (?buf @ rest) ! (2 * i + 1)]) [0 ..< length ?xs] = ?xs"
    by (intro nth_equalityI) simp_all
  show r: "ac_array (fst (array_container_read (ac_cardinality c) d (fst (array_container_write c) @ rest))) = ?xs"
    unfolding w using assms cells by (simp add: array_container_read_def Let_def array_simps)
  have "ac_cardinality c \<le> 65536" using array_inv_bound [OF assms] by simp
  then show "array_inv (fst (array_container_read (ac_cardinality c) d (fst (array_container_write c) @ rest)))"
    using r assms array_grow_capacity [of "ac_cardinality c" d False]
    unfolding w array_inv_def by (auto simp: array_container_read_def Let_def array_simps)
qed

end
