(* ===== verification/Array_Properties.thy ===== *)
theory Array_Properties
  imports Array_Ranges
begin

text \<open>
  The properties of the sorted-array routines (\<open>array_util.h\<close>, \<open>array_util.c\<close>) and of the
  array container (\<open>containers/array.h\<close>, \<open>containers/array.c\<close>), each a consequence of the
  lemmas of the theories below it, with an application to a concrete container.
\<close>

section \<open>Search and sorted arrays\<close>

lemma lower_bound_filter: "ssorted xs \<Longrightarrow> lower_bound xs k = length (filter (\<lambda>x. x < k) xs)"
  by (simp add: lower_bound_card ssorted_filter flip: ssorted_card)

text \<open>C14: on a strictly increasing array the block search \<open>binarySearch\<close> returns the index of
  the key when the key is there, and otherwise \<open>- p - 1\<close> where \<open>p\<close> is the number of smaller
  values, the place where the key belongs.\<close>

theorem binarySearch_spec:
  assumes "ssorted xs"
  shows "let p = length (filter (\<lambda>x. x < k) xs)
     in binarySearch xs (length xs) k = (if k \<in> set xs then int p else - int p - 1)
        \<and> (k \<in> set xs \<longrightarrow> xs ! p = k)"
  using assms bs.found_iff [of xs k] bs.found_nth [of xs k] bs.absent_value [of xs k]
    bs.found_index [of xs k]
  by (auto simp: lower_bound_filter Let_def)

theorem binarySearch_spec_witness:
  "binarySearch [3, 5, 9] (length [3, 5, 9 :: u16]) 5 = 1 \<and>
   binarySearch [3, 5, 9] (length [3, 5, 9 :: u16]) 6 = - 3"
  using binarySearch_spec [of "[3, 5, 9]" 5] binarySearch_spec [of "[3, 5, 9]" 6] by simp

text \<open>The galloping search \<open>advanceUntil\<close> returns the first position after \<open>pos\<close> whose
  value is at least \<open>min\<close>, or the length of the array when there is none: the later of
  \<open>pos + 1\<close> and the number of values below \<open>min\<close>.\<close>

theorem advanceUntil_spec:
  assumes "ssorted xs" and "- 1 \<le> pos" and "pos < int (length xs)"
  shows "let r = advanceUntil xs pos (length xs) k
     in r = max (nat (pos + 1)) (length (filter (\<lambda>x. x < k) xs)) \<and> r \<le> length xs
        \<and> (r < length xs \<longrightarrow> k \<le> xs ! r)"
  using assms advanceUntil_correct [OF assms(1) refl, of pos k]
    ssorted_nth_ge [OF assms(1), of k]
  by (auto simp: Let_def lower_bound_filter)

theorem advanceUntil_spec_witness:
  "advanceUntil [1, 4, 6, 8, 20, 31] 0 (length [1, 4, 6, 8, 20, 31 :: u16]) 19 = 4"
  using advanceUntil_spec [of "[1, 4, 6, 8, 20, 31]" 0 19] by (simp add: Let_def)

text \<open>C15: the skewed intersection of a short with a long sorted array (four searches at a time,
  then two, then one) writes exactly the common values in order, and the counting and the
  testing variant agree with it.\<close>

theorem intersect_skewed_spec:
  assumes "ssorted small" and "ssorted large" and "large \<noteq> []"
  shows "intersect_skewed_uint16 small large = filter (\<lambda>x. x \<in> set large) small
     \<and> intersect_skewed_uint16_cardinality small large = length (filter (\<lambda>x. x \<in> set large) small)
     \<and> (intersect_skewed_uint16_nonempty small large \<longleftrightarrow> (\<exists>x \<in> set small. x \<in> set large))"
  using assms by (simp add: intersect_skewed_uint16_filter intersect_skewed_uint16_cardinality_eq
      intersect_skewed_uint16_nonempty_eq filter_empty_conv)

theorem intersect_skewed_spec_witness:
  "intersect_skewed_uint16 [2, 5, 6, 9, 11, 30, 40] [1, 2, 3, 5, 8, 9, 10, 11, 12, 40 :: u16] = [2, 5, 9, 11, 40]
   \<and> intersect_skewed_uint16_cardinality [2, 5, 6, 9, 11, 30, 40] [1, 2, 3, 5, 8, 9, 10, 11, 12, 40] = 5"
  using intersect_skewed_spec [of "[2, 5, 6, 9, 11, 30, 40]" "[1, 2, 3, 5, 8, 9, 10, 11, 12, 40]"] by simp

text \<open>C16: the merging routines on sorted 16-bit arrays compute union, difference, symmetric
  difference and intersection, and their results are again strictly increasing.\<close>

theorem sorted_array_operations_spec:
  assumes "ssorted xs" and "ssorted ys"
  shows "set (fast_union_uint16 xs ys) = set xs \<union> set ys \<and> ssorted (fast_union_uint16 xs ys)
     \<and> set (difference_uint16 xs ys) = set xs - set ys \<and> ssorted (difference_uint16 xs ys)
     \<and> set (xor_uint16 xs ys) = (set xs - set ys) \<union> (set ys - set xs) \<and> ssorted (xor_uint16 xs ys)
     \<and> set (intersect_uint16 xs ys) = set xs \<inter> set ys \<and> ssorted (intersect_uint16 xs ys)"
  using assms by (auto simp: fast_union_set fast_union_ssorted difference_uint16_filter ssorted_filter
      xor_uint16_set xor_uint16_ssorted intersect_uint16_def intersect_generic_filter)

theorem sorted_array_operations_spec_witness:
  "set (xor_uint16 [1, 4, 7] [2, 4, 9 :: u16]) = {1, 2, 7, 9} \<and> ssorted (xor_uint16 [1, 4, 7] [2, 4, 9 :: u16])"
  using sorted_array_operations_spec [of "[1, 4, 7]" "[2, 4, 9]"] by auto

section \<open>The array container\<close>

text \<open>C17: on a well-formed array container \<open>array_container_add\<close>, \<open>array_container_remove\<close> and
  \<open>array_container_contains\<close> are insertion, deletion and membership on the set of values; the
  results are well formed, the booleans tell whether the set changed, and the cardinality field
  is the number of values.\<close>

theorem array_container_spec:
  assumes "array_inv c"
  shows "(array_container_contains c x \<longleftrightarrow> x \<in> array_abs c)
     \<and> array_inv (fst (array_container_add c x))
     \<and> array_abs (fst (array_container_add c x)) = insert x (array_abs c)
     \<and> (snd (array_container_add c x) \<longleftrightarrow> x \<notin> array_abs c)
     \<and> array_inv (fst (array_container_remove c x))
     \<and> array_abs (fst (array_container_remove c x)) = array_abs c - {x}
     \<and> (snd (array_container_remove c x) \<longleftrightarrow> x \<in> array_abs c)
     \<and> ac_cardinality c = int (card (array_abs c))"
  using assms by (simp add: ac.contains_abs ac.add_correct ac.remove_correct ac.cardinality_abs)

theorem array_container_spec_witness:
  "array_abs (fst (array_container_add \<lparr>ac_cardinality = 3, ac_capacity = 3, ac_array = [2, 5, 9]\<rparr> 7)) = insert 7 {2, 5, 9}"
proof -
  let ?c = "\<lparr>ac_cardinality = 3, ac_capacity = 3, ac_array = [2, 5, 9]\<rparr>"
  have "array_inv ?c" and abs: "array_abs ?c = {2, 5, 9}" by (simp_all add: array_inv_def array_abs_def)
  then show ?thesis using array_container_spec [of ?c 7] unfolding abs by simp
qed

text \<open>C18: \<open>array_container_try_add\<close> with a limit returns 0 when the value is there, 1 when it was
  inserted and -1 when the container already holds the limit, and changes the set only in the
  second case.\<close>

theorem array_try_add_spec:
  assumes "array_inv c"
  shows "case array_container_try_add c x m of (c', r) \<Rightarrow>
     r = (if x \<in> array_abs c then 0 else if int (card (array_abs c)) < m then 1 else - 1)
     \<and> array_inv c' \<and> array_abs c' = (if r = 1 then insert x (array_abs c) else array_abs c)"
proof (cases "array_container_try_add c x m")
  case (Pair c' r)
  then show ?thesis using array_try_add_correct [OF assms Pair] ac.cardinality_abs [OF assms] by simp
qed

theorem array_try_add_spec_witness:
  "snd (array_container_try_add \<lparr>ac_cardinality = 2, ac_capacity = 4, ac_array = [2, 5]\<rparr> 7 2) = - 1"
  using array_try_add_spec [of "\<lparr>ac_cardinality = 2, ac_capacity = 4, ac_array = [2, 5]\<rparr>" 7 2]
  by (simp add: array_inv_def array_abs_def split: prod.splits)

text \<open>C19: the binary operations on two array containers compute union, intersection, difference
  and symmetric difference of their sets, keep the result well formed, and the intersection
  cardinality, the intersection test, the subset test and equality agree with the sets.\<close>

theorem array_set_operations_spec:
  assumes "array_inv a" and "array_inv b"
  shows "array_inv (array_container_union a b out) \<and> array_abs (array_container_union a b out) = array_abs a \<union> array_abs b
     \<and> array_inv (array_container_intersection a b out) \<and> array_abs (array_container_intersection a b out) = array_abs a \<inter> array_abs b
     \<and> array_inv (array_container_intersection_inplace a b) \<and> array_abs (array_container_intersection_inplace a b) = array_abs a \<inter> array_abs b
     \<and> array_inv (array_container_andnot a b out) \<and> array_abs (array_container_andnot a b out) = array_abs a - array_abs b
     \<and> array_inv (array_container_xor a b out) \<and> array_abs (array_container_xor a b out) = sym_diff (array_abs a) (array_abs b)
     \<and> array_container_intersection_cardinality a b = int (card (array_abs a \<inter> array_abs b))
     \<and> (array_container_intersect a b \<longleftrightarrow> array_abs a \<inter> array_abs b \<noteq> {})
     \<and> (array_container_is_subset a b \<longleftrightarrow> array_abs a \<subseteq> array_abs b)
     \<and> (array_container_equals a b \<longleftrightarrow> array_abs a = array_abs b)"
  using array_union_correct [OF assms] array_intersection_correct [OF assms] array_andnot_correct [OF assms]
    array_xor_correct [OF assms] array_intersection_cardinality_correct [OF assms]
    array_is_subset_correct [OF assms] array_equals_correct [OF assms] by simp

theorem array_set_operations_spec_witness:
  "array_abs (array_container_xor \<lparr>ac_cardinality = 2, ac_capacity = 4, ac_array = [2, 5]\<rparr>
     \<lparr>ac_cardinality = 2, ac_capacity = 2, ac_array = [5, 8]\<rparr> array_container_create) = sym_diff {2, 5} {5, 8}"
proof -
  let ?a = "\<lparr>ac_cardinality = 2, ac_capacity = 4, ac_array = [2, 5]\<rparr>"
  let ?b = "\<lparr>ac_cardinality = 2, ac_capacity = 2, ac_array = [5, 8]\<rparr>"
  have "array_inv ?a" "array_inv ?b" and abs: "array_abs ?a = {2, 5}" "array_abs ?b = {5, 8}"
    by (simp_all add: array_inv_def array_abs_def)
  then show ?thesis using array_set_operations_spec [of ?a ?b array_container_create] unfolding abs by simp
qed

text \<open>\<open>array_container_contains_range\<close> answers whether every value from \<open>lo\<close> up to, but
  not including, \<open>hi\<close> is in the container.\<close>

theorem array_contains_range_spec:
  assumes "array_inv c" and "unat lo \<le> unat hi" and "unat hi \<le> 65536"
  shows "array_container_contains_range c lo hi \<longleftrightarrow> (\<forall>v \<in> {unat lo ..< unat hi}. word_of_nat v \<in> array_abs c)"
  unfolding array_contains_range_correct [OF assms] using assms(3) by (auto simp: u16_range_image)

theorem array_contains_range_spec_witness:
  "array_container_contains_range \<lparr>ac_cardinality = 3, ac_capacity = 4, ac_array = [4, 5, 6]\<rparr> 4 7 \<and>
   \<not> array_container_contains_range \<lparr>ac_cardinality = 3, ac_capacity = 4, ac_array = [4, 5, 6]\<rparr> 5 8"
proof -
  have "{4 ..< 7 :: nat} = {4, 5, 6}" and "{5 ..< 8 :: nat} = {5, 6, 7}" by auto
  then show ?thesis
    using array_contains_range_spec [of "\<lparr>ac_cardinality = 3, ac_capacity = 4, ac_array = [4, 5, 6]\<rparr>" 4 7]
      array_contains_range_spec [of "\<lparr>ac_cardinality = 3, ac_capacity = 4, ac_array = [4, 5, 6]\<rparr>" 5 8]
    by (simp add: array_inv_def array_abs_def)
qed

text \<open>\<open>array_container_add_range_nvals\<close>, given the number of values below \<open>lo\<close> and above
  \<open>hi\<close>, adds every value from \<open>lo\<close> to \<open>hi\<close>; \<open>array_container_remove_range\<close>, given the same
  counts as a position and a length, removes them.\<close>

theorem array_range_update_spec:
  assumes "array_inv c" and "unat lo \<le> unat hi" and "unat hi < 65536"
    and "nless = int (card {x \<in> array_abs c. unat x < unat lo})"
    and "ngreater = int (card {x \<in> array_abs c. unat hi < unat x})"
    and "unat pos = card {x \<in> array_abs c. unat x < unat lo}"
    and "unat pos + unat count = card {x \<in> array_abs c. unat x \<le> unat hi}"
  shows "array_inv (array_container_add_range_nvals c lo hi nless ngreater)
     \<and> array_abs (array_container_add_range_nvals c lo hi nless ngreater)
         = array_abs c \<union> {x. unat lo \<le> unat x \<and> unat x \<le> unat hi}
     \<and> array_inv (array_container_remove_range c pos count)
     \<and> array_abs (array_container_remove_range c pos count)
         = array_abs c - {x. unat lo \<le> unat x \<and> unat x \<le> unat hi}"
  using array_add_range_nvals_correct [OF assms(1-5)] array_remove_range_correct [OF assms(1-3,6,7)]
  by (auto simp: u16_range_def)

theorem array_range_update_spec_witness:
  "array_abs (array_container_remove_range \<lparr>ac_cardinality = 3, ac_capacity = 4, ac_array = [4, 6, 9]\<rparr> 1 1)
     = {4, 6, 9} - {x. 5 \<le> unat x \<and> unat x \<le> 7}"
proof -
  have "{x. (x = 4 \<or> x = 6 \<or> x = (9 :: u16)) \<and> unat x < 5} = {4}"
    and "{x. (x = 4 \<or> x = 6 \<or> x = (9 :: u16)) \<and> unat x \<le> 7} = {4, 6}"
    and "{x. (x = 4 \<or> x = 6 \<or> x = (9 :: u16)) \<and> 7 < unat x} = {9}" by auto
  then show ?thesis
    using array_range_update_spec [of "\<lparr>ac_cardinality = 3, ac_capacity = 4, ac_array = [4, 6, 9]\<rparr>" 5 7 1 1 1 1]
    by (simp add: array_inv_def array_abs_def)
qed


text \<open>C20: \<open>array_container_add_from_range\<close> always returns for a non-zero step, and has then
  appended exactly the values \<open>lo\<close>, \<open>lo + step\<close>, \<open>lo + 2 step\<close>, ... below \<open>hi\<close>.\<close>

theorem array_add_from_range_spec:
  assumes "array_inv c" and "step \<noteq> 0" and "unat hi \<le> 65536" and "\<forall>y \<in> array_abs c. unat y < unat lo"
  shows "\<exists>c'. array_container_add_from_range c lo hi step = Some c' \<and> array_inv c' \<and>
     array_abs c' = array_abs c \<union> {x. unat lo \<le> unat x \<and> unat x < unat hi \<and> unat step dvd unat x - unat lo}"
  using array_add_from_range_correct [OF assms] by (metis progression_def)

theorem array_add_from_range_spec_witness:
  "\<exists>c'. array_container_add_from_range array_container_create 10 30 7 = Some c' \<and> array_inv c'"
  using array_add_from_range_spec [of array_container_create 7 30 10]
  by (auto simp: array_container_create_def array_container_create_given_capacity_def array_inv_def array_abs_def)

text \<open>The order queries: rank counts the values up to \<open>x\<close>, get_index is the index of a
  value that is there, select finds the value of a given rank or reports the rank it reached,
  minimum and maximum are the extreme values.\<close>

theorem array_order_spec:
  assumes "array_inv c" and "s \<le> r" and "unat s + card (array_abs c) < 2 ^ 32"
  shows "array_container_rank c x = int (card {y \<in> array_abs c. y \<le> x})
     \<and> array_container_get_index c x = (if x \<in> array_abs c then int (card {y \<in> array_abs c. y < x}) else - 1)
     \<and> array_container_select c s r =
         (if unat s + card (array_abs c) \<le> unat r then Inl (s + word_of_nat (card (array_abs c)))
          else Inr (ucast (sorted_list_of_set (array_abs c) ! (unat r - unat s))))
     \<and> (array_abs c \<noteq> {} \<longrightarrow> array_container_minimum c = Min (array_abs c) \<and> array_container_maximum c = Max (array_abs c))"
proof -
  have l: "length (ac_array c) = card (array_abs c)" and sl: "ac_array c = sorted_list_of_set (array_abs c)"
    using assms(1) by (auto simp: array_inv_def array_abs_def ssorted_card sorted_list_of_set.idem_if_sorted_distinct
        ssorted_imp_sorted ssorted_imp_distinct)
  show ?thesis
    using array_rank_correct [OF assms(1)] array_get_index_correct [OF assms(1)]
      array_select_correct [OF assms(1) _ assms(2)] assms(3)
      array_minimum_correct [OF assms(1)] array_maximum_correct [OF assms(1)]
    by (simp add: l flip: sl) (metis Max_eqI Min_eqI finite)
qed

theorem array_order_spec_witness:
  "array_container_select \<lparr>ac_cardinality = 3, ac_capacity = 4, ac_array = [4, 6, 9]\<rparr> 10 14 = Inl 13 \<and>
   array_container_rank \<lparr>ac_cardinality = 3, ac_capacity = 4, ac_array = [4, 6, 9]\<rparr> 7 = int (card {y \<in> {4, 6, 9}. y \<le> (7 :: u16)})"
proof -
  let ?c = "\<lparr>ac_cardinality = 3, ac_capacity = 4, ac_array = [4, 6, 9]\<rparr>"
  have "array_inv ?c" and abs: "array_abs ?c = {4, 6, 9}" by (simp_all add: array_inv_def array_abs_def)
  then show ?thesis using array_order_spec [of ?c 10 14 7] unfolding abs by simp
qed

text \<open>\<open>array_container_rank_many\<close> answers the queries up to the first one of another high
  half, each with the number of values not above it, plus the start rank.\<close>

theorem array_rank_many_spec:
  assumes "array_inv c" and "run = takeWhile (\<lambda>q. drop_bit 16 q = drop_bit 16 (hd qs)) qs"
    and "sorted (map (\<lambda>q. ucast q :: u16) run)"
  shows "array_container_rank_many c start qs =
     (length run, map (\<lambda>q. start + word_of_nat (card {y \<in> array_abs c. y \<le> ucast q})) run)"
  by (rule array_rank_many_correct [OF assms])

theorem array_rank_many_spec_witness:
  "fst (array_container_rank_many \<lparr>ac_cardinality = 3, ac_capacity = 4, ac_array = [4, 6, 9]\<rparr> 100 [5, 7, 65537])
     = length [5, 7 :: u32]"
proof -
  have t: "takeWhile (\<lambda>q. drop_bit 16 q = drop_bit 16 (hd [5, 7, 65537 :: u32])) [5, 7, 65537] = [5, 7]" by simp
  show ?thesis using array_rank_many_spec [of "\<lparr>ac_cardinality = 3, ac_capacity = 4, ac_array = [4, 6, 9]\<rparr>"
      "[5, 7]" "[5, 7, 65537]" 100] unfolding t by (simp add: array_inv_def)
qed

text \<open>Shifting a container by a non-zero offset splits it into the values that stay below
  2^16 and those that wrap around, each half well formed, and no container for an empty half.\<close>

theorem array_offset_spec:
  assumes "array_inv c" and "d \<noteq> 0" and "array_container_offset c True True d = (lo, hi)"
  shows "(case lo of None \<Rightarrow> \<forall>x \<in> array_abs c. 65536 \<le> unat x + unat d
        | Some l \<Rightarrow> array_inv l \<and> array_abs l = (\<lambda>x. x + d) ` {x \<in> array_abs c. unat x + unat d < 65536})
     \<and> (case hi of None \<Rightarrow> \<forall>x \<in> array_abs c. unat x + unat d < 65536
        | Some h \<Rightarrow> array_inv h \<and> array_abs h = (\<lambda>x. x + d) ` {x \<in> array_abs c. 65536 \<le> unat x + unat d})"
  using array_offset_correct [OF assms] by (auto simp: not_less not_le split: option.splits)

theorem array_offset_spec_witness:
  "case array_container_offset \<lparr>ac_cardinality = 2, ac_capacity = 4, ac_array = [4, 65530]\<rparr> True True 10 of
     (lo, hi) \<Rightarrow> (case hi of None \<Rightarrow> False | Some h \<Rightarrow> array_inv h)"
proof -
  let ?c = "\<lparr>ac_cardinality = 2, ac_capacity = 4, ac_array = [4, 65530]\<rparr>"
  have "array_inv ?c" and "array_abs ?c = {4, 65530}" by (simp_all add: array_inv_def array_abs_def)
  then show ?thesis using array_offset_spec [of ?c 10]
    by (cases "array_container_offset ?c True True 10") (auto split: option.splits)
qed

text \<open>Writing an array container and reading the bytes back, with anything after them,
  gives the same cells, and the number of bytes is the size announced.\<close>

theorem array_write_read_spec:
  assumes "array_inv c"
  shows "int (length (fst (array_container_write c))) = snd (array_container_write c)
     \<and> ac_array (fst (array_container_read (ac_cardinality c) d (fst (array_container_write c) @ rest))) = ac_array c
     \<and> array_inv (fst (array_container_read (ac_cardinality c) d (fst (array_container_write c) @ rest)))"
  using array_write_read [OF assms] by simp

theorem array_write_read_spec_witness:
  "ac_array (fst (array_container_read 2 array_container_create
     (fst (array_container_write \<lparr>ac_cardinality = 2, ac_capacity = 4, ac_array = [258, 65530]\<rparr>) @ [1, 2, 3]))) = [258, 65530]"
  using array_write_read_spec [of "\<lparr>ac_cardinality = 2, ac_capacity = 4, ac_array = [258, 65530]\<rparr>"
      array_container_create "[1, 2, 3]"] by (simp add: array_inv_def)

text \<open>\<open>array_container_validate\<close> accepts exactly the well-formed, non-empty containers of at
  most 4096 values, and \<open>array_container_number_of_runs\<close> counts the maximal runs.\<close>

theorem array_validate_spec:
  assumes "ac_cardinality c = int (length (ac_array c))"
  shows "(array_container_validate c = None \<longleftrightarrow> array_inv c \<and> ac_array c \<noteq> [] \<and> length (ac_array c) \<le> 4096)
     \<and> (array_inv c \<longrightarrow> array_container_number_of_runs c = int (card {x \<in> array_abs c. x = 0 \<or> x - 1 \<notin> array_abs c}))"
  using array_validate_correct [OF assms] array_number_of_runs_correct [of c] assms
  by (auto simp: run_starts_def)

theorem array_validate_spec_witness:
  "array_container_validate \<lparr>ac_cardinality = 2, ac_capacity = 4, ac_array = [258, 65530]\<rparr> = None \<and>
   array_container_validate \<lparr>ac_cardinality = 2, ac_capacity = 4, ac_array = [258, 258]\<rparr> \<noteq> None"
  using array_validate_spec [of "\<lparr>ac_cardinality = 2, ac_capacity = 4, ac_array = [258, 65530]\<rparr>"]
    array_validate_spec [of "\<lparr>ac_cardinality = 2, ac_capacity = 4, ac_array = [258, 258]\<rparr>"]
  by (simp add: array_inv_def)

end
