(* ===== verification/Run_Container.thy ===== *)
theory Run_Container
  imports Container_Spec Array_Container
begin

text \<open>
  The run container of \<open>include/roaring/containers/run.h\<close> and \<open>src/containers/run.c\<close>: a
  sorted array of pairs (start, length - 1), no two of which touch. \<open>rc_runs\<close> holds the
  \<open>n_runs\<close> cells that are in use. \<open>int32_t\<close> quantities that the code never makes negative
  (ends of runs, counts) are natural numbers; \<open>uint16_t\<close> arithmetic wraps as in C.
  Loops over two containers recurse over the runs that are left. Allocation succeeds;
  functions that update a container in place return it.
\<close>

unbundle bit_operations_syntax

record rle16 =
  rl_value :: u16
  rl_length :: u16

record run_container =
  rc_n_runs :: int
  rc_capacity :: int
  rc_runs :: "rle16 list"

definition MAKE_RLE16 :: "nat \<Rightarrow> nat \<Rightarrow> rle16" where
  "MAKE_RLE16 val len = \<lparr>rl_value = word_of_nat val, rl_length = word_of_nat len\<rparr>"

text \<open>The first and the last value of a run, as the code computes them in a wider type.\<close>

definition rstart :: "rle16 \<Rightarrow> nat" where
  "rstart r = unat (rl_value r)"

definition rend :: "rle16 \<Rightarrow> nat" where
  "rend r = unat (rl_value r) + unat (rl_length r)"

abbreviation RUN_DEFAULT_INIT_SIZE :: int where
  "RUN_DEFAULT_INIT_SIZE \<equiv> 4"

abbreviation rc_len :: "run_container \<Rightarrow> nat" where
  "rc_len run \<equiv> nat (rc_n_runs run)"

section \<open>Creation and capacity\<close>

definition run_container_create_given_capacity :: "int \<Rightarrow> run_container" where
  "run_container_create_given_capacity cells = \<lparr>rc_n_runs = 0, rc_capacity = cells, rc_runs = []\<rparr>"

definition run_container_create :: run_container where
  "run_container_create = run_container_create_given_capacity RUN_DEFAULT_INIT_SIZE"

definition run_container_shrink_to_fit :: "run_container \<Rightarrow> run_container \<times> int" where
  "run_container_shrink_to_fit src =
     (if rc_n_runs src = rc_capacity src then (src, 0)
      else (src\<lparr>rc_capacity := rc_n_runs src\<rparr>, rc_capacity src - rc_n_runs src))"

definition run_container_clone :: "run_container \<Rightarrow> run_container" where
  "run_container_clone src =
     (run_container_create_given_capacity (rc_capacity src))
       \<lparr>rc_capacity := rc_capacity src, rc_n_runs := rc_n_runs src, rc_runs := take (rc_len src) (rc_runs src)\<rparr>"

definition run_container_grow :: "run_container \<Rightarrow> int \<Rightarrow> bool \<Rightarrow> run_container" where
  "run_container_grow run least copy =
     (let c = rc_capacity run;
          newCapacity = (if c = 0 then RUN_DEFAULT_INIT_SIZE
                         else if c < 64 then c * 2
                         else if c < 1024 then c * 3 div 2
                         else c * 5 div 4);
          newCapacity = (if newCapacity < least then least else newCapacity);
          run = run\<lparr>rc_capacity := newCapacity\<rparr>
      in if copy then run else run\<lparr>rc_runs := []\<rparr>)"

definition run_container_copy :: "run_container \<Rightarrow> run_container \<Rightarrow> run_container" where
  "run_container_copy src dst =
     (let n_runs = rc_n_runs src;
          dst = (if rc_n_runs src > rc_capacity dst then run_container_grow dst n_runs False else dst)
      in dst\<lparr>rc_n_runs := n_runs, rc_runs := take (nat n_runs) (rc_runs src)\<rparr>)"

definition recoverRoomAtIndex :: "run_container \<Rightarrow> u16 \<Rightarrow> run_container" where
  "recoverRoomAtIndex run index =
     run\<lparr>rc_runs := list_remove_at (unat index) (rc_runs run), rc_n_runs := rc_n_runs run - 1\<rparr>"

text \<open>
  The cells from \<open>index\<close> on move up by one. The cell at \<open>index\<close> keeps its content (zero stands
  for a cell that was never written); every caller writes it next.
\<close>

definition makeRoomAtIndex :: "run_container \<Rightarrow> u16 \<Rightarrow> run_container" where
  "makeRoomAtIndex run index =
     (let run = (if rc_n_runs run + 1 > rc_capacity run
                 then run_container_grow run (rc_n_runs run + 1) True else run);
          i = unat index;
          cell = (if i < length (rc_runs run) then rc_runs run ! i else MAKE_RLE16 0 0)
      in run\<lparr>rc_runs := list_insert_at i cell (rc_runs run), rc_n_runs := rc_n_runs run + 1\<rparr>)"

text \<open>The assignment \<open>run->runs[i] = r\<close>.\<close>

definition set_run :: "run_container \<Rightarrow> nat \<Rightarrow> rle16 \<Rightarrow> run_container" where
  "set_run run i r = run\<lparr>rc_runs := (rc_runs run)[i := r]\<rparr>"

text \<open>The assignment \<open>run->runs[run->n_runs++] = r\<close>.\<close>

definition push_run :: "run_container \<Rightarrow> rle16 \<Rightarrow> run_container" where
  "push_run run r = run\<lparr>rc_runs := rc_runs run @ [r], rc_n_runs := rc_n_runs run + 1\<rparr>"

section \<open>Searching\<close>

text \<open>
  The loop the four searches share: \<open>low\<close> and \<open>high\<close> close in on a cell that is neither below
  nor above the key. \<open>Inr\<close> is the early return with the middle index, \<open>Inl\<close> the exit of the
  loop with the final \<open>low\<close>.
\<close>

function bisect :: "(nat \<Rightarrow> bool) \<Rightarrow> (nat \<Rightarrow> bool) \<Rightarrow> int \<Rightarrow> int \<Rightarrow> int + int" where
  "bisect lt gt low high =
     (if low \<le> high
      then let middleIndex = (low + high) div 2
           in if lt (nat middleIndex) then bisect lt gt (middleIndex + 1) high
              else if gt (nat middleIndex) then bisect lt gt low (middleIndex - 1)
              else Inr middleIndex
      else Inl low)"
  by pat_completeness auto
termination
  by (relation "measure (\<lambda>(lt, gt, low, high). nat (high - low + 1))") auto

declare bisect.simps [simp del]

definition interleavedBinarySearch :: "rle16 list \<Rightarrow> nat \<Rightarrow> u16 \<Rightarrow> int" where
  "interleavedBinarySearch array lenarray ikey =
     (case bisect (\<lambda>i. rl_value (array ! i) < ikey) (\<lambda>i. rl_value (array ! i) > ikey) 0 (int lenarray - 1) of
        Inr middleIndex \<Rightarrow> middleIndex | Inl low \<Rightarrow> - (low + 1))"

definition rle16_find_run :: "rle16 list \<Rightarrow> nat \<Rightarrow> u16 \<Rightarrow> int" where
  "rle16_find_run array lenarray ikey =
     (case bisect (\<lambda>i. ikey > rl_value (array ! i) + rl_length (array ! i)) (\<lambda>i. ikey < rl_value (array ! i))
             0 (int lenarray - 1) of
        Inr middleIndex \<Rightarrow> middleIndex | Inl low \<Rightarrow> - (low + 1))"

definition rle16_count_less :: "rle16 list \<Rightarrow> nat \<Rightarrow> u16 \<Rightarrow> int" where
  "rle16_count_less array lenarray key =
     (if lenarray = 0 then 0
      else case bisect (\<lambda>i. unat (rl_value (array ! i) + rl_length (array ! i)) + 1 < unat key)
                  (\<lambda>i. key < rl_value (array ! i)) 0 (int lenarray - 1) of
        Inr middleIndex \<Rightarrow> middleIndex | Inl low \<Rightarrow> low)"

definition rle16_count_greater :: "rle16 list \<Rightarrow> nat \<Rightarrow> u16 \<Rightarrow> int" where
  "rle16_count_greater array lenarray key =
     (if lenarray = 0 then 0
      else case bisect (\<lambda>i. rl_value (array ! i) + rl_length (array ! i) < key)
                  (\<lambda>i. unat key + 1 < unat (rl_value (array ! i))) 0 (int lenarray - 1) of
        Inr middleIndex \<Rightarrow> int lenarray - (middleIndex + 1) | Inl low \<Rightarrow> int lenarray - low)"

section \<open>Single values\<close>

definition run_container_add :: "run_container \<Rightarrow> u16 \<Rightarrow> run_container \<times> bool" where
  "run_container_add run pos =
     (let index = interleavedBinarySearch (rc_runs run) (rc_len run) pos
      in if index \<ge> 0 then (run, False)
         else let index = - index - 2;
                  r = rc_runs run ! nat index;
                  next = rc_runs run ! nat (index + 1);
                  touches = (index + 1 < rc_n_runs run \<and> uint (rl_value next) = uint pos + 1);
                  offset = uint pos - uint (rl_value r);
                  le = uint (rl_length r)
              in if index \<ge> 0 \<and> offset \<le> le then (run, False)
                 else if index \<ge> 0 \<and> offset = le + 1 then
                   (if touches
                    then (recoverRoomAtIndex (set_run run (nat index)
                            (r\<lparr>rl_length := rl_value next + rl_length next - rl_value r\<rparr>)) (of_int (index + 1)), True)
                    else (set_run run (nat index) (r\<lparr>rl_length := rl_length r + 1\<rparr>), True))
                 else if index \<ge> 0 \<and> touches
                 then (set_run run (nat (index + 1)) \<lparr>rl_value = pos, rl_length = rl_length next + 1\<rparr>, True)
                 else if index = - 1 \<and> 0 < rc_n_runs run \<and> uint (rl_value (rc_runs run ! 0)) = uint pos + 1
                 then (set_run run 0 \<lparr>rl_value = rl_value (rc_runs run ! 0) - 1,
                                      rl_length = rl_length (rc_runs run ! 0) + 1\<rparr>, True)
                 else (set_run (makeRoomAtIndex run (of_int (index + 1))) (nat (index + 1))
                         \<lparr>rl_value = pos, rl_length = 0\<rparr>, True))"

definition run_container_remove :: "run_container \<Rightarrow> u16 \<Rightarrow> run_container \<times> bool" where
  "run_container_remove run pos =
     (let index = interleavedBinarySearch (rc_runs run) (rc_len run) pos
      in if index \<ge> 0
         then let r = rc_runs run ! nat index
              in if uint (rl_length r) = 0 then (recoverRoomAtIndex run (of_int index), True)
                 else (set_run run (nat index) \<lparr>rl_value = rl_value r + 1, rl_length = rl_length r - 1\<rparr>, True)
         else let index = - index - 2;
                  r = rc_runs run ! nat index;
                  offset = uint pos - uint (rl_value r);
                  le = uint (rl_length r)
              in if index \<ge> 0 \<and> offset < le
                 then (set_run (makeRoomAtIndex (set_run run (nat index) (r\<lparr>rl_length := of_int (offset - 1)\<rparr>))
                           (of_int (index + 1))) (nat (index + 1))
                         \<lparr>rl_value = pos + 1, rl_length = of_int (le - offset - 1)\<rparr>, True)
                 else if index \<ge> 0 \<and> offset = le
                 then (set_run run (nat index) (r\<lparr>rl_length := rl_length r - 1\<rparr>), True)
                 else (run, False))"

definition run_container_contains :: "run_container \<Rightarrow> u16 \<Rightarrow> bool" where
  "run_container_contains run pos =
     (let index = interleavedBinarySearch (rc_runs run) (rc_len run) pos
      in if index \<ge> 0 then True
         else let index = - index - 2
              in index \<noteq> - 1 \<and>
                 uint pos - uint (rl_value (rc_runs run ! nat index)) \<le> uint (rl_length (rc_runs run ! nat index)))"


fun contains_range_loop :: "rle16 list \<Rightarrow> u32 \<Rightarrow> u32 \<Rightarrow> u32 \<Rightarrow> u32" where
  "contains_range_loop [] pos_start pos_end count = count"
| "contains_range_loop (r # rs) pos_start pos_end count =
     (let value = ucast (rl_value r);
          length = ucast (rl_length r);
          stop = value + length
      in if value \<ge> pos_end then count
         else if stop \<ge> pos_end then count + (if pos_end - value > 0 then pos_end - value else 0)
         else let least = (if stop - pos_start > 0 then stop - pos_start else 0)
              in contains_range_loop rs pos_start pos_end (count + (if least < length then least else length)))"

definition run_container_contains_range :: "run_container \<Rightarrow> u32 \<Rightarrow> u32 \<Rightarrow> bool" where
  "run_container_contains_range run pos_start pos_end =
     (let index = interleavedBinarySearch (rc_runs run) (rc_len run) (ucast pos_start);
          prev = - index - 2;
          r = rc_runs run ! nat prev;
          index' = (if index < 0 then prev else index)
      in if index < 0 \<and> (prev = - 1 \<or> pos_start - ucast (rl_value r) > ucast (rl_length r)) then False
         else contains_range_loop (drop (nat index') (rc_runs run)) pos_start pos_end 0 \<ge> pos_end - pos_start - 1)"

section \<open>Size and order queries\<close>

definition run_container_cardinality :: "run_container \<Rightarrow> int" where
  "run_container_cardinality run = fold (\<lambda>r acc. acc + uint (rl_length r)) (rc_runs run) (rc_n_runs run)"

definition run_container_nonzero_cardinality :: "run_container \<Rightarrow> bool" where
  "run_container_nonzero_cardinality run \<longleftrightarrow> rc_n_runs run > 0"

definition run_container_empty :: "run_container \<Rightarrow> bool" where
  "run_container_empty run \<longleftrightarrow> rc_n_runs run = 0"

definition run_container_is_full :: "run_container \<Rightarrow> bool" where
  "run_container_is_full run =
     (let vl = rc_runs run ! 0 in rc_n_runs run = 1 \<and> rl_value vl = 0 \<and> rl_length vl = 0xFFFF)"

definition run_container_minimum :: "run_container \<Rightarrow> u16" where
  "run_container_minimum run = (if rc_n_runs run = 0 then 0 else rl_value (rc_runs run ! 0))"

definition run_container_maximum :: "run_container \<Rightarrow> u16" where
  "run_container_maximum run =
     (if rc_n_runs run = 0 then 0
      else let r = rc_runs run ! nat (rc_n_runs run - 1) in rl_value r + rl_length r)"

fun run_select_loop :: "rle16 list \<Rightarrow> u32 \<Rightarrow> u32 \<Rightarrow> u32 + u32" where
  "run_select_loop [] start_rank rank = Inl start_rank"
| "run_select_loop (r # rs) start_rank rank =
     (let length = ucast (rl_length r)
      in if rank \<le> start_rank + length then Inr (ucast (rl_value r) + rank - start_rank)
         else run_select_loop rs (start_rank + (length + 1)) rank)"

definition run_container_select :: "run_container \<Rightarrow> u32 \<Rightarrow> u32 \<Rightarrow> u32 + u32" where
  "run_container_select c start_rank rank = run_select_loop (rc_runs c) start_rank rank"

fun run_rank_loop :: "rle16 list \<Rightarrow> u16 \<Rightarrow> nat \<Rightarrow> nat" where
  "run_rank_loop [] x acc = acc"
| "run_rank_loop (r # rs) x acc =
     (let startpoint = rstart r; length = unat (rl_length r); endpoint = length + startpoint
      in if unat x \<le> endpoint
         then (if unat x < startpoint then acc else acc + (unat x - startpoint) + 1)
         else run_rank_loop rs x (acc + (length + 1)))"

definition run_container_rank :: "run_container \<Rightarrow> u16 \<Rightarrow> nat" where
  "run_container_rank c x = run_rank_loop (rc_runs c) x 0"

text \<open>\<open>while (i < n_runs)\<close>: the runs from \<open>i\<close> on, and the values in the runs before.\<close>

fun skip_runs :: "nat \<Rightarrow> rle16 list \<Rightarrow> nat \<Rightarrow> rle16 list \<times> nat" where
  "skip_runs x32 [] acc = ([], acc)"
| "skip_runs x32 (r # rs) acc =
     (if x32 \<le> unat (rl_length r) + rstart r then (r # rs, acc)
      else skip_runs x32 rs (acc + (unat (rl_length r) + 1)))"

fun run_rank_many_loop :: "u64 \<Rightarrow> u16 \<Rightarrow> rle16 list \<Rightarrow> nat \<Rightarrow> u32 list \<Rightarrow> u64 list" where
  "run_rank_many_loop start_rank high runs acc [] = []"
| "run_rank_many_loop start_rank high runs acc (x # iter) =
     (if ucast (drop_bit 16 x) \<noteq> high then []
      else let x32 = unat (x AND 0xFFFF);
               (runs, acc) = skip_runs x32 runs acc
           in (case runs of [] \<Rightarrow> start_rank + of_nat acc
               | r # rs \<Rightarrow> if x32 < rstart r then start_rank + of_nat acc
                           else start_rank + of_nat acc + of_nat (x32 - rstart r) + 1)
              # run_rank_many_loop start_rank high runs acc iter)"

definition run_container_rank_many :: "run_container \<Rightarrow> u64 \<Rightarrow> u32 list \<Rightarrow> nat \<times> u64 list" where
  "run_container_rank_many c start_rank queries =
     (let ans = run_rank_many_loop start_rank (ucast (drop_bit 16 (hd queries))) (rc_runs c) 0 queries
      in (length ans, ans))"

fun run_index_loop :: "rle16 list \<Rightarrow> u16 \<Rightarrow> int \<Rightarrow> int" where
  "run_index_loop [] x acc = acc - 1"
| "run_index_loop (r # rs) x acc =
     (let startpoint = rstart r; length = unat (rl_length r); endpoint = length + startpoint
      in if unat x \<le> endpoint
         then (if unat x < startpoint then acc - 1 else acc + int (unat x - startpoint))
         else run_index_loop rs x (acc + int (length + 1)))"

definition run_container_get_index :: "run_container \<Rightarrow> u16 \<Rightarrow> int" where
  "run_container_get_index c x =
     (if run_container_contains c x then run_index_loop (rc_runs c) x 0 else - 1)"

definition run_container_index_equalorlarger :: "run_container \<Rightarrow> u16 \<Rightarrow> int" where
  "run_container_index_equalorlarger arr x =
     (let index = interleavedBinarySearch (rc_runs arr) (rc_len arr) x
      in if index \<ge> 0 then index
         else let index = - index - 2;
                  r = rc_runs arr ! nat index
              in if index \<noteq> - 1 \<and> uint x - uint (rl_value r) \<le> uint (rl_length r) then index
                 else if index + 1 < rc_n_runs arr then index + 1 else - 1)"

section \<open>Appending at the end\<close>

text \<open>The container with the last run \<open>previousrl\<close> cached, as the code passes it by reference.\<close>

definition run_container_append :: "run_container \<Rightarrow> rle16 \<Rightarrow> rle16 \<Rightarrow> run_container \<times> rle16" where
  "run_container_append run vl previousrl =
     (let previousend = rend previousrl
      in if rstart vl > previousend + 1 then (push_run run vl, vl)
         else let newend = rend vl + 1
              in if newend > previousend
                 then let previousrl = previousrl\<lparr>rl_length := word_of_nat (newend - 1 - rstart previousrl)\<rparr>
                      in (set_run run (nat (rc_n_runs run - 1)) previousrl, previousrl)
                 else (run, previousrl))"

definition run_container_append_first :: "run_container \<Rightarrow> rle16 \<Rightarrow> run_container \<times> rle16" where
  "run_container_append_first run vl = (push_run run vl, vl)"

definition run_container_append_value :: "run_container \<Rightarrow> u16 \<Rightarrow> rle16 \<Rightarrow> run_container \<times> rle16" where
  "run_container_append_value run val previousrl =
     (let previousend = rend previousrl
      in if unat val > previousend + 1
         then let previousrl = MAKE_RLE16 (unat val) 0 in (push_run run previousrl, previousrl)
         else if unat val = previousend + 1
         then let previousrl = previousrl\<lparr>rl_length := rl_length previousrl + 1\<rparr>
              in (set_run run (nat (rc_n_runs run - 1)) previousrl, previousrl)
         else (run, previousrl))"

definition run_container_append_value_first :: "run_container \<Rightarrow> u16 \<Rightarrow> run_container \<times> rle16" where
  "run_container_append_value_first run val =
     (let newrle = MAKE_RLE16 (unat val) 0 in (push_run run newrle, newrle))"

definition run_container_create_range :: "u32 \<Rightarrow> u32 \<Rightarrow> run_container" where
  "run_container_create_range start stop =
     fst (run_container_append_first (run_container_create_given_capacity 1)
            \<lparr>rl_value = ucast start, rl_length = ucast (stop - start - 1)\<rparr>)"

text \<open>The scan for exclusive-or and negation: only the last run can meet the new one.\<close>

definition run_container_smart_append_exclusive :: "run_container \<Rightarrow> u16 \<Rightarrow> u16 \<Rightarrow> run_container" where
  "run_container_smart_append_exclusive src start len =
     (let i = nat (rc_n_runs src - 1);
          last_run = rc_runs src ! i;
          old_end = rend last_run + 1;
          new_end = unat start + unat len + 1
      in if rc_n_runs src = 0 \<or> unat start > old_end
         then push_run src \<lparr>rl_value = start, rl_length = len\<rparr>
         else if old_end = unat start
         then set_run src i (last_run\<lparr>rl_length := rl_length last_run + (len + 1)\<rparr>)
         else if start = rl_value last_run
         then (if new_end < old_end then set_run src i (MAKE_RLE16 new_end (old_end - new_end - 1))
               else if new_end > old_end then set_run src i (MAKE_RLE16 old_end (new_end - old_end - 1))
               else src\<lparr>rc_n_runs := rc_n_runs src - 1, rc_runs := take i (rc_runs src)\<rparr>)
         else let src = set_run src i (last_run\<lparr>rl_length := start - rl_value last_run - 1\<rparr>)
              in if new_end < old_end then push_run src (MAKE_RLE16 new_end (old_end - new_end - 1))
                 else if new_end > old_end then push_run src (MAKE_RLE16 old_end (new_end - old_end - 1))
                 else src)"


section \<open>Ranges\<close>

definition run_container_add_range_nruns ::
    "run_container \<Rightarrow> u32 \<Rightarrow> u32 \<Rightarrow> int \<Rightarrow> int \<Rightarrow> run_container" where
  "run_container_add_range_nruns run lo hi nruns_less nruns_greater =
     (let nruns_common = rc_n_runs run - nruns_less - nruns_greater; i = nat nruns_less
      in if nruns_common = 0
         then set_run (makeRoomAtIndex run (of_int nruns_less)) i
                \<lparr>rl_value = ucast lo, rl_length = ucast (hi - lo)\<rparr>
         else let common_min = rstart (rc_runs run ! i);
                  common_max = rend (rc_runs run ! nat (nruns_less + nruns_common - 1));
                  result_min = (if common_min < unat lo then common_min else unat lo);
                  result_max = (if common_max > unat hi then common_max else unat hi);
                  run = set_run run i (MAKE_RLE16 result_min (result_max - result_min));
                  runs = rc_runs run
              in run\<lparr>rc_runs := take (i + 1) runs @ drop (nat (rc_n_runs run - nruns_greater)) runs,
                      rc_n_runs := nruns_less + 1 + nruns_greater\<rparr>)"

text \<open>Moving the tail up leaves \<open>distance\<close> cells that were never written (zero here).\<close>

definition run_container_shift_tail :: "run_container \<Rightarrow> int \<Rightarrow> int \<Rightarrow> run_container" where
  "run_container_shift_tail run count distance =
     (let run = (if distance > 0 \<and> rc_capacity run < count + distance
                 then run_container_grow run (count + distance) True else run);
          srcpos = rc_n_runs run - count;
          dstpos = srcpos + distance;
          cells = rc_runs run @ replicate (nat distance) (MAKE_RLE16 0 0)
      in run\<lparr>rc_runs := take (nat dstpos) cells @ take (nat count) (drop (nat srcpos) (rc_runs run)),
             rc_n_runs := rc_n_runs run + distance\<rparr>)"

definition run_container_remove_range :: "run_container \<Rightarrow> u32 \<Rightarrow> u32 \<Rightarrow> run_container" where
  "run_container_remove_range run lo hi =
     (let first = rle16_find_run (rc_runs run) (rc_len run) (ucast lo);
          last = rle16_find_run (rc_runs run) (rc_len run) (ucast hi);
          rf = rc_runs run ! nat first;
          rl = rc_runs run ! nat last
      in if first \<ge> 0 \<and> unat lo > rstart rf \<and> unat hi < rend rf
         then let run = makeRoomAtIndex run (of_int (first + 1));
                  run = set_run run (nat (first + 1)) (MAKE_RLE16 (unat hi + 1) (rend rf - (unat hi + 1)))
              in set_run run (nat first) (rf\<lparr>rl_length := word_of_nat (unat lo - 1 - rstart rf)\<rparr>)
         else let (run, first) =
                    (if first \<ge> 0
                     then if unat lo > rstart rf
                          then (set_run run (nat first) (rf\<lparr>rl_length := word_of_nat (unat lo - 1 - rstart rf)\<rparr>), first + 1)
                          else (run, first)
                     else (run, - first - 1));
                  rl = rc_runs run ! nat last;
                  run_max = unat (rl_value rl + rl_length rl);
                  (run, last) =
                    (if last \<ge> 0
                     then if run_max > unat hi
                          then (set_run run (nat last) (MAKE_RLE16 (unat hi + 1) (run_max - (unat hi + 1))), last - 1)
                          else (run, last)
                     else (run, (- last - 1) - 1))
              in if first \<le> last
                 then run_container_shift_tail run (rc_n_runs run - (last + 1)) (- (last - first + 1))
                 else run)"

section \<open>Binary operations\<close>

fun run_union_loop :: "rle16 list \<Rightarrow> rle16 list \<Rightarrow> run_container \<Rightarrow> rle16 \<Rightarrow> run_container" where
  "run_union_loop (r # rs) (x # xs) dst previousrle =
     (if rl_value r \<le> rl_value x
      then (case run_container_append dst r previousrle of (dst, previousrle) \<Rightarrow> run_union_loop rs (x # xs) dst previousrle)
      else (case run_container_append dst x previousrle of (dst, previousrle) \<Rightarrow> run_union_loop (r # rs) xs dst previousrle))"
| "run_union_loop [] (x # xs) dst previousrle =
     (case run_container_append dst x previousrle of (dst, previousrle) \<Rightarrow> run_union_loop [] xs dst previousrle)"
| "run_union_loop (r # rs) [] dst previousrle =
     (case run_container_append dst r previousrle of (dst, previousrle) \<Rightarrow> run_union_loop rs [] dst previousrle)"
| "run_union_loop [] [] dst previousrle = dst"

definition run_union_merge :: "rle16 list \<Rightarrow> rle16 list \<Rightarrow> run_container \<Rightarrow> run_container" where
  "run_union_merge runs1 runs2 dst =
     (if rl_value (runs1 ! 0) \<le> rl_value (runs2 ! 0)
      then (case run_container_append_first dst (runs1 ! 0) of (dst, previousrle) \<Rightarrow>
              run_union_loop (drop 1 runs1) runs2 dst previousrle)
      else (case run_container_append_first dst (runs2 ! 0) of (dst, previousrle) \<Rightarrow>
              run_union_loop runs1 (drop 1 runs2) dst previousrle))"

definition run_container_union :: "run_container \<Rightarrow> run_container \<Rightarrow> run_container \<Rightarrow> run_container" where
  "run_container_union src_1 src_2 dst =
     (if run_container_is_full src_1 then run_container_copy src_1 dst
      else if run_container_is_full src_2 then run_container_copy src_2 dst
      else let neededcapacity = rc_n_runs src_1 + rc_n_runs src_2;
               dst = (if rc_capacity dst < neededcapacity then run_container_grow dst neededcapacity False else dst)
           in run_union_merge (rc_runs src_1) (rc_runs src_2) (dst\<lparr>rc_n_runs := 0, rc_runs := []\<rparr>))"

text \<open>
  The runs of \<open>src_1\<close> are first moved behind the place of the output, which cannot reach them:
  at most one run is written for each run that is read.
\<close>

definition run_container_union_inplace :: "run_container \<Rightarrow> run_container \<Rightarrow> run_container" where
  "run_container_union_inplace src_1 src_2 =
     (if run_container_is_full src_1 then src_1
      else if run_container_is_full src_2 then run_container_copy src_2 src_1
      else let maxoutput = rc_n_runs src_1 + rc_n_runs src_2;
               neededcapacity = maxoutput + rc_n_runs src_1;
               src_1 = (if rc_capacity src_1 < neededcapacity then run_container_grow src_1 neededcapacity True else src_1);
               inputsrc1 = rc_runs src_1
           in run_union_merge inputsrc1 (rc_runs src_2) (src_1\<lparr>rc_n_runs := 0, rc_runs := []\<rparr>))"

fun run_xor_loop :: "rle16 list \<Rightarrow> rle16 list \<Rightarrow> run_container \<Rightarrow> run_container" where
  "run_xor_loop (r # rs) (x # xs) dst =
     (if rl_value r \<le> rl_value x
      then run_xor_loop rs (x # xs) (run_container_smart_append_exclusive dst (rl_value r) (rl_length r))
      else run_xor_loop (r # rs) xs (run_container_smart_append_exclusive dst (rl_value x) (rl_length x)))"
| "run_xor_loop (r # rs) [] dst =
     run_xor_loop rs [] (run_container_smart_append_exclusive dst (rl_value r) (rl_length r))"
| "run_xor_loop [] (x # xs) dst =
     run_xor_loop [] xs (run_container_smart_append_exclusive dst (rl_value x) (rl_length x))"
| "run_xor_loop [] [] dst = dst"

definition run_container_xor :: "run_container \<Rightarrow> run_container \<Rightarrow> run_container \<Rightarrow> run_container" where
  "run_container_xor src_1 src_2 dst =
     (let neededcapacity = rc_n_runs src_1 + rc_n_runs src_2;
          dst = (if rc_capacity dst < neededcapacity then run_container_grow dst neededcapacity False else dst)
      in run_xor_loop (rc_runs src_1) (rc_runs src_2) (dst\<lparr>rc_n_runs := 0, rc_runs := []\<rparr>))"

text \<open>The ends \<open>rend r + 1\<close> are exclusive, as in the code.\<close>

definition lateststart :: "rle16 \<Rightarrow> rle16 \<Rightarrow> nat" where
  "lateststart r x = (if rstart r > rstart x then rstart r else rstart x)"

fun run_intersection_loop :: "rle16 list \<Rightarrow> rle16 list \<Rightarrow> rle16 list" where
  "run_intersection_loop (r # rs) (x # xs) =
     (if rend r + 1 \<le> rstart x then run_intersection_loop rs (x # xs)
      else if rend x + 1 \<le> rstart r then run_intersection_loop (r # rs) xs
      else if rend r + 1 = rend x + 1
      then MAKE_RLE16 (lateststart r x) (rend r + 1 - lateststart r x - 1) # run_intersection_loop rs xs
      else if rend r + 1 < rend x + 1
      then MAKE_RLE16 (lateststart r x) (rend r + 1 - lateststart r x - 1) # run_intersection_loop rs (x # xs)
      else MAKE_RLE16 (lateststart r x) (rend x + 1 - lateststart r x - 1) # run_intersection_loop (r # rs) xs)"
| "run_intersection_loop _ _ = []"

definition run_container_intersection :: "run_container \<Rightarrow> run_container \<Rightarrow> run_container \<Rightarrow> run_container" where
  "run_container_intersection src_1 src_2 dst =
     (if run_container_is_full src_1 then run_container_copy src_2 dst
      else if run_container_is_full src_2 then run_container_copy src_1 dst
      else let neededcapacity = rc_n_runs src_1 + rc_n_runs src_2;
               dst = (if rc_capacity dst < neededcapacity then run_container_grow dst neededcapacity False else dst);
               runs = run_intersection_loop (rc_runs src_1) (rc_runs src_2)
           in dst\<lparr>rc_n_runs := int (length runs), rc_runs := runs\<rparr>)"

fun run_icard_loop :: "rle16 list \<Rightarrow> rle16 list \<Rightarrow> nat \<Rightarrow> nat" where
  "run_icard_loop (r # rs) (x # xs) answer =
     (if rend r + 1 \<le> rstart x then run_icard_loop rs (x # xs) answer
      else if rend x + 1 \<le> rstart r then run_icard_loop (r # rs) xs answer
      else if rend r + 1 = rend x + 1 then run_icard_loop rs xs (answer + (rend r + 1 - lateststart r x))
      else if rend r + 1 < rend x + 1 then run_icard_loop rs (x # xs) (answer + (rend r + 1 - lateststart r x))
      else run_icard_loop (r # rs) xs (answer + (rend x + 1 - lateststart r x)))"
| "run_icard_loop _ _ answer = answer"

definition run_container_intersection_cardinality :: "run_container \<Rightarrow> run_container \<Rightarrow> int" where
  "run_container_intersection_cardinality src_1 src_2 =
     (if run_container_is_full src_1 then run_container_cardinality src_2
      else if run_container_is_full src_2 then run_container_cardinality src_1
      else int (run_icard_loop (rc_runs src_1) (rc_runs src_2) 0))"

fun run_intersect_loop :: "rle16 list \<Rightarrow> rle16 list \<Rightarrow> bool" where
  "run_intersect_loop (r # rs) (x # xs) =
     (if rend r + 1 \<le> rstart x then run_intersect_loop rs (x # xs)
      else if rend x + 1 \<le> rstart r then run_intersect_loop (r # rs) xs
      else True)"
| "run_intersect_loop _ _ = False"

definition run_container_intersect :: "run_container \<Rightarrow> run_container \<Rightarrow> bool" where
  "run_container_intersect src_1 src_2 =
     (if run_container_is_full src_1 then \<not> run_container_empty src_2
      else if run_container_is_full src_2 then \<not> run_container_empty src_1
      else run_intersect_loop (rc_runs src_1) (rc_runs src_2))"

text \<open>
  The loop of the difference: \<open>start\<close> and \<open>end\<close> of what is left of the current run of
  \<open>src_1\<close>, the runs after it, and the runs of \<open>src_2\<close> that are left.
\<close>

function run_andnot_loop :: "nat \<Rightarrow> nat \<Rightarrow> rle16 list \<Rightarrow> rle16 list \<Rightarrow> rle16 list" where
  "run_andnot_loop start end rs [] = MAKE_RLE16 start (end - start - 1) # rs"
| "run_andnot_loop start end rs (x # xs) =
     (let start2 = rstart x; end2 = rend x + 1
      in if end \<le> start2
         then MAKE_RLE16 start (end - start - 1) #
                (case rs of [] \<Rightarrow> [] | r # rs' \<Rightarrow> run_andnot_loop (rstart r) (rend r + 1) rs' (x # xs))
         else if end2 \<le> start then run_andnot_loop start end rs xs
         else (if start < start2 then [MAKE_RLE16 start (start2 - start - 1)] else []) @
              (if end2 < end then run_andnot_loop end2 end rs (x # xs)
               else (case rs of [] \<Rightarrow> [] | r # rs' \<Rightarrow> run_andnot_loop (rstart r) (rend r + 1) rs' (x # xs))))"
  by pat_completeness auto
termination
  by (relation "measures [\<lambda>(start, end, rs, xs). length rs + length xs, \<lambda>(start, end, rs, xs). end - start]") auto

definition run_container_andnot :: "run_container \<Rightarrow> run_container \<Rightarrow> run_container \<Rightarrow> run_container" where
  "run_container_andnot src_1 src_2 dst =
     (let dst = (if rc_capacity dst < rc_n_runs src_1 + rc_n_runs src_2
                 then run_container_grow dst (rc_n_runs src_1 + rc_n_runs src_2) False else dst);
          runs = (case rc_runs src_1 of [] \<Rightarrow> []
                  | r # rs \<Rightarrow> run_andnot_loop (rstart r) (rend r + 1) rs (rc_runs src_2))
      in dst\<lparr>rc_n_runs := int (length runs), rc_runs := runs\<rparr>)"

fun run_subset_loop :: "rle16 list \<Rightarrow> rle16 list \<Rightarrow> bool" where
  "run_subset_loop (r # rs) (x # xs) =
     (if rstart r < rstart x then False
      else if rend r < rend x then run_subset_loop rs (x # xs)
      else if rend r = rend x then run_subset_loop rs xs
      else run_subset_loop (r # rs) xs)"
| "run_subset_loop [] xs = True"
| "run_subset_loop (r # rs) [] = False"

definition run_container_is_subset :: "run_container \<Rightarrow> run_container \<Rightarrow> bool" where
  "run_container_is_subset container1 container2 = run_subset_loop (rc_runs container1) (rc_runs container2)"

definition run_container_equals :: "run_container \<Rightarrow> run_container \<Rightarrow> bool" where
  "run_container_equals container1 container2 =
     (if rc_n_runs container1 \<noteq> rc_n_runs container2 then False
      else take (rc_len container1) (rc_runs container1) = take (rc_len container1) (rc_runs container2))"


section \<open>Shifting, enumeration, bytes and validation\<close>

text \<open>
  \<open>want_lo\<close> and \<open>want_hi\<close> say whether the caller passed a place for that half. \<open>top\<close> is passed
  to the search as a \<open>uint16_t\<close>, which makes it 0 when the offset is 0.
\<close>

definition run_container_offset :: "run_container \<Rightarrow> bool \<Rightarrow> bool \<Rightarrow> u16 \<Rightarrow>
    run_container option \<times> run_container option" where
  "run_container_offset c want_lo want_hi offset =
     (let top = 65536 - uint offset;
          pivot = run_container_index_equalorlarger c (of_int top);
          split = (pivot \<ge> 0 \<and> uint (rl_value (rc_runs c ! nat pivot)) < top);
          lo_cap = (if pivot \<ge> 0 then nat pivot + of_bool split else rc_len c);
          hi_cap = (if pivot \<ge> 0 then nat (rc_n_runs c - pivot) else 0);
          shift = (\<lambda>r. r\<lparr>rl_value := rl_value r + offset\<rparr>);
          lo = map shift (take lo_cap (rc_runs c));
          hi = map shift (take hi_cap (drop (nat pivot) (rc_runs c)));
          lo = (if split then lo[lo_cap - 1 := (lo ! (lo_cap - 1))
                  \<lparr>rl_length := word_of_nat (65536 - rstart (lo ! (lo_cap - 1)) - 1)\<rparr>] else lo);
          hi = (if split then hi[0 := \<lparr>rl_value = 0,
                  rl_length = rl_length (hi ! 0) - (word_of_nat (65535 - rstart (hi ! 0) + 1))\<rparr>] else hi)
      in (if want_lo \<and> lo_cap \<noteq> 0
          then Some ((run_container_create_given_capacity (int lo_cap))\<lparr>rc_n_runs := int lo_cap, rc_runs := lo\<rparr>) else None,
          if want_hi \<and> hi_cap \<noteq> 0
          then Some ((run_container_create_given_capacity (int hi_cap))\<lparr>rc_n_runs := int hi_cap, rc_runs := hi\<rparr>) else None))"

text \<open>The values \<open>run_start + j\<close> for \<open>j\<close> from 0 to the length.\<close>

definition run_values :: "u32 \<Rightarrow> rle16 \<Rightarrow> u32 list" where
  "run_values base r = map (\<lambda>j. base + ucast (rl_value r) + word_of_nat j) [0 ..< Suc (unat (rl_length r))]"

fun run_iterate_loop :: "(u32 \<Rightarrow> 's \<Rightarrow> bool \<times> 's) \<Rightarrow> rle16 list \<Rightarrow> u32 \<Rightarrow> 's \<Rightarrow> bool \<times> 's" where
  "run_iterate_loop iterator [] base ptr = (True, ptr)"
| "run_iterate_loop iterator (r # rs) base ptr =
     (case iterate_values iterator (run_values base r) ptr of (continue, ptr') \<Rightarrow>
        if \<not> continue then (False, ptr') else run_iterate_loop iterator rs base ptr')"

definition run_container_iterate ::
    "run_container \<Rightarrow> u32 \<Rightarrow> (u32 \<Rightarrow> 's \<Rightarrow> bool \<times> 's) \<Rightarrow> 's \<Rightarrow> bool \<times> 's" where
  "run_container_iterate cont base iterator ptr = run_iterate_loop iterator (rc_runs cont) base ptr"

definition run_container_iterate64 ::
    "run_container \<Rightarrow> u32 \<Rightarrow> (u64 \<Rightarrow> 's \<Rightarrow> bool \<times> 's) \<Rightarrow> u64 \<Rightarrow> 's \<Rightarrow> bool \<times> 's" where
  "run_container_iterate64 cont base iterator high_bits ptr =
     run_iterate_loop (\<lambda>v. iterator (high_bits OR ucast v)) (rc_runs cont) base ptr"

definition run_container_to_uint32_array :: "run_container \<Rightarrow> u32 \<Rightarrow> int \<times> u32 list" where
  "run_container_to_uint32_array cont base =
     (let out = concat (map (run_values base) (rc_runs cont)) in (int (length out), out))"

definition run_container_serialized_size_in_bytes :: "int \<Rightarrow> int" where
  "run_container_serialized_size_in_bytes num_runs = 2 + 4 * num_runs"

definition run_container_size_in_bytes :: "run_container \<Rightarrow> int" where
  "run_container_size_in_bytes c = run_container_serialized_size_in_bytes (rc_n_runs c)"

definition run_container_write :: "run_container \<Rightarrow> u8 list \<times> int" where
  "run_container_write c =
     (u16_to_le (of_int (rc_n_runs c)) @
      concat (map (\<lambda>r. u16_to_le (rl_value r) @ u16_to_le (rl_length r)) (take (rc_len c) (rc_runs c))),
      run_container_size_in_bytes c)"

definition run_container_read :: "int \<Rightarrow> run_container \<Rightarrow> u8 list \<Rightarrow> run_container \<times> int" where
  "run_container_read cardinality c buf =
     (let n = unat (u16_from_le (take 2 buf));
          c = c\<lparr>rc_n_runs := int n\<rparr>;
          c = (if int n > rc_capacity c then run_container_grow c (int n) False else c);
          runs = map (\<lambda>i. \<lparr>rl_value = u16_from_le (take 2 (drop (2 + 4 * i) buf)),
                          rl_length = u16_from_le (take 2 (drop (4 + 4 * i) buf))\<rparr>) [0 ..< n];
          c = c\<lparr>rc_runs := runs\<rparr>
      in (c, run_container_size_in_bytes c))"

datatype run_validate_error = Negative_Run_Count | Negative_Run_Capacity | Capacity_Less_Than_Run_Count
  | Zero_Run_Count | Run_Overflow | Run_Too_Large | Run_Less_Than_Last_End | Run_Equal_To_Last_End

fun run_validate_loop :: "rle16 list \<Rightarrow> u32 \<Rightarrow> run_validate_error option" where
  "run_validate_loop [] last_end = None"
| "run_validate_loop (r # rs) last_end =
     (let start = ucast (rl_value r); end = start + ucast (rl_length r) + 1
      in if end \<le> start then Some Run_Overflow
         else if end > 65536 then Some Run_Too_Large
         else if start < last_end then Some Run_Less_Than_Last_End
         else if start = last_end \<and> last_end \<noteq> 0 then Some Run_Equal_To_Last_End
         else run_validate_loop rs end)"

definition run_container_validate :: "run_container \<Rightarrow> run_validate_error option" where
  "run_container_validate run =
     (if rc_n_runs run < 0 then Some Negative_Run_Count
      else if rc_capacity run < 0 then Some Negative_Run_Capacity
      else if rc_capacity run < rc_n_runs run then Some Capacity_Less_Than_Run_Count
      else if rc_n_runs run = 0 then Some Zero_Run_Count
      else run_validate_loop (take (rc_len run) (rc_runs run)) 0)"

end
