(* ===== verification/Run_Sets.thy ===== *)
theory Run_Sets
  imports Run_Container
begin

text \<open>
  The set a run container stands for, its invariant (runs sorted, inside 16 bits, no two
  touching), the searches, and adding and removing single values.
\<close>

section \<open>The set and the invariant\<close>

definition in_run :: "rle16 \<Rightarrow> nat \<Rightarrow> bool" where
  "in_run r n \<longleftrightarrow> rstart r \<le> n \<and> n \<le> rend r"

definition covers :: "rle16 list \<Rightarrow> nat \<Rightarrow> bool" where
  "covers rs n \<longleftrightarrow> (\<exists>r \<in> set rs. in_run r n)"

definition runs_ok :: "rle16 list \<Rightarrow> bool" where
  "runs_ok rs \<longleftrightarrow> sorted_wrt (\<lambda>r s. rend r + 1 < rstart s) rs \<and> (\<forall>r \<in> set rs. rend r < 65536)"

definition run_abs :: "run_container \<Rightarrow> u16 set" where
  "run_abs c = {x. covers (rc_runs c) (unat x)}"

definition run_inv :: "run_container \<Rightarrow> bool" where
  "run_inv c \<longleftrightarrow> runs_ok (rc_runs c) \<and> rc_n_runs c = int (length (rc_runs c)) \<and> rc_n_runs c \<le> rc_capacity c"

named_theorems run_simps

lemma rstart_le_rend [simp]: "rstart r \<le> rend r"
  by (simp add: rstart_def rend_def)

lemma in_run_ends [simp]: "in_run r (rstart r)" "in_run r (rend r)"
  by (simp_all add: in_run_def)

lemma covers_simps [simp]:
  "\<not> covers [] n" "covers (r # rs) n \<longleftrightarrow> in_run r n \<or> covers rs n"
  "covers (rs @ ss) n \<longleftrightarrow> covers rs n \<or> covers ss n"
  by (auto simp: covers_def)

lemma runs_ok_Nil [simp]: "runs_ok []"
  by (simp add: runs_ok_def)

lemma runs_ok_Cons: "runs_ok (r # rs) \<longleftrightarrow> rend r < 65536 \<and> (\<forall>s \<in> set rs. rend r + 1 < rstart s) \<and> runs_ok rs"
  by (auto simp: runs_ok_def)

lemma runs_ok_append:
  "runs_ok (rs @ ss) \<longleftrightarrow> runs_ok rs \<and> runs_ok ss \<and> (\<forall>r \<in> set rs. \<forall>s \<in> set ss. rend r + 1 < rstart s)"
  by (auto simp: runs_ok_def sorted_wrt_append)

lemma run_ends [run_simps]: "runs_ok rs \<Longrightarrow> r \<in> set rs \<Longrightarrow> rend r < 65536"
  by (simp add: runs_ok_def)

lemma rstart_less [simp]: "rstart r < 65536"
  by (simp add: rstart_def)

lemma run_max_word: "rend r < 65536 \<Longrightarrow> unat (rl_value r + rl_length r) = rend r"
  by (simp add: rend_def unat_word_ariths)

lemma make_run [simp]:
  "v < 65536 \<Longrightarrow> rstart (MAKE_RLE16 v l) = v"
  "v < 65536 \<Longrightarrow> l < 65536 \<Longrightarrow> rend (MAKE_RLE16 v l) = v + l"
  by (simp_all add: MAKE_RLE16_def rstart_def rend_def)

lemma runs_gap: "runs_ok rs \<Longrightarrow> i < j \<Longrightarrow> j < length rs \<Longrightarrow> rend (rs ! i) + 1 < rstart (rs ! j)"
  unfolding runs_ok_def using sorted_wrt_nth_less [of "\<lambda>r s. rend r + 1 < rstart s" rs i j] by blast

lemma runs_ok_values: "runs_ok rs \<Longrightarrow> ssorted (map rl_value rs)"
proof -
  assume "runs_ok rs"
  then have "sorted_wrt (\<lambda>r s. rend r + 1 < rstart s) rs" by (simp add: runs_ok_def)
  then have "sorted_wrt (\<lambda>r s. rl_value r < rl_value s) rs"
    by (rule sorted_wrt_mono_rel [rotated]) (simp add: rstart_def rend_def word_less_nat_alt)
  then show ?thesis by (simp add: sorted_wrt_map)
qed

lemma covers_unique: "runs_ok rs \<Longrightarrow> i < length rs \<Longrightarrow> j < length rs \<Longrightarrow> in_run (rs ! i) n \<Longrightarrow> in_run (rs ! j) n \<Longrightarrow> i = j"
  using runs_gap [of rs i j] runs_gap [of rs j i] by (cases i j rule: linorder_cases) (auto simp: in_run_def)

lemma covers_tail: "runs_ok (r # rs) \<Longrightarrow> covers rs n \<Longrightarrow> rend r + 1 < n"
  by (auto simp: runs_ok_Cons covers_def in_run_def)

lemma covers_less: "runs_ok rs \<Longrightarrow> covers rs n \<Longrightarrow> n < 65536"
  by (auto simp: covers_def in_run_def dest: run_ends)

lemma rle16_eqI: "rstart r = rstart s \<Longrightarrow> rend r = rend s \<Longrightarrow> r = (s :: rle16)"
  by (cases r; cases s) (simp add: rstart_def rend_def word_unat_eq_iff)

text \<open>Two lists of runs with the same values are the same list.\<close>

lemma runs_ok_unique:
  assumes "runs_ok rs" and "runs_ok ss" and "\<And>n. covers rs n \<longleftrightarrow> covers ss n"
  shows "rs = ss"
  using assms
proof (induction rs arbitrary: ss)
  case Nil
  then show ?case by (cases ss) (simp_all, metis in_run_ends(1))
next
  case (Cons r rs)
  have "covers ss (rstart r)" using Cons.prems(3) [of "rstart r"] by simp
  then obtain s ss' where ss: "ss = s # ss'" by (cases ss) simp_all
  note tails = covers_tail [OF Cons.prems(1)] covers_tail [OF Cons.prems(2) [unfolded ss]]
  have le: "rstart s \<le> rstart r" "rstart r \<le> rstart s"
    using Cons.prems(3) [of "rstart r"] Cons.prems(3) [of "rstart s"] tails(2) [of "rstart r"] tails(1) [of "rstart s"]
      rstart_le_rend [of r] rstart_le_rend [of s]
    unfolding ss by (simp_all add: in_run_def, linarith+)
  then have st: "rstart r = rstart s" by simp
  have en: "rend r = rend s"
  proof (rule ccontr)
    assume "rend r \<noteq> rend s"
    then show False
      using Cons.prems(3) [of "rend r + 1"] Cons.prems(3) [of "rend s + 1"] tails [of "rend r + 1"] tails [of "rend s + 1"]
        rstart_le_rend [of r] rstart_le_rend [of s] st
      by (auto simp: ss in_run_def)
  qed
  have "r = s" using st en by (rule rle16_eqI)
  moreover have "rs = ss'"
  proof (rule Cons.IH)
    fix n
    show "covers rs n \<longleftrightarrow> covers ss' n"
      using Cons.prems(3) [of n] tails [of n] \<open>r = s\<close> by (auto simp: ss in_run_def)
  qed (use Cons.prems in \<open>auto simp: runs_ok_Cons ss\<close>)
  ultimately show ?case by (simp add: ss)
qed

section \<open>The searches\<close>

text \<open>Tests that fit a sorted array: what is below is a prefix, what is above a suffix.\<close>

definition sorted_tests :: "nat \<Rightarrow> (nat \<Rightarrow> bool) \<Rightarrow> (nat \<Rightarrow> bool) \<Rightarrow> bool" where
  "sorted_tests n lt gt \<longleftrightarrow> (\<forall>i j. i < j \<and> j < n \<longrightarrow> (lt j \<longrightarrow> lt i) \<and> (gt i \<longrightarrow> gt j))"

lemma bisect_correct:
  "sorted_tests n lt gt \<Longrightarrow> 0 \<le> low \<Longrightarrow> high < int n \<Longrightarrow> low \<le> high + 1 \<Longrightarrow> \<forall>i. int i < low \<longrightarrow> lt i \<Longrightarrow>
     \<forall>i. high < int i \<and> i < n \<longrightarrow> gt i \<Longrightarrow>
     (case bisect lt gt low high of
        Inr m \<Rightarrow> 0 \<le> m \<and> m < int n \<and> \<not> lt (nat m) \<and> \<not> gt (nat m)
      | Inl l \<Rightarrow> 0 \<le> l \<and> l \<le> int n \<and> (\<forall>i. int i < l \<longrightarrow> lt i) \<and> (\<forall>i. l \<le> int i \<and> i < n \<longrightarrow> gt i))"
proof (induction lt gt low high rule: bisect.induct)
  case (1 lt gt low high)
  show ?case
  proof (cases "low \<le> high")
    case True
    define mid where "mid = (low + high) div 2"
    then have mid: "low \<le> mid" "mid \<le> high" "0 \<le> mid" "nat mid < n"
      using True "1.prems"(2,3) by auto
    consider (lt) "lt (nat mid)" | (gt) "\<not> lt (nat mid)" "gt (nat mid)" | (hit) "\<not> lt (nat mid)" "\<not> gt (nat mid)" by blast
    then show ?thesis
    proof cases
      case lt
      have "\<forall>i. int i < mid + 1 \<longrightarrow> lt i"
      proof (intro allI impI)
        fix i assume "int i < mid + 1"
        then have "i < nat mid \<or> i = nat mid" using mid(3) by linarith
        then show "lt i" using lt mid "1.prems"(1) unfolding sorted_tests_def by (cases "i = nat mid") auto
      qed
      moreover have "bisect lt gt low high = bisect lt gt (mid + 1) high"
        using True lt by (simp add: bisect.simps [of lt gt low] flip: mid_def)
      ultimately show ?thesis using "1.IH"(1) [OF True mid_def lt "1.prems"(1)] "1.prems" mid by simp
    next
      case gt
      have "\<forall>i. mid - 1 < int i \<and> i < n \<longrightarrow> gt i"
      proof (intro allI impI)
        fix i assume "mid - 1 < int i \<and> i < n"
        then have "i < n" "nat mid < i \<or> i = nat mid" using mid(3) by auto
        then show "gt i" using gt mid "1.prems"(1) unfolding sorted_tests_def by (cases "i = nat mid") auto
      qed
      moreover have "bisect lt gt low high = bisect lt gt low (mid - 1)"
        using True gt by (simp add: bisect.simps [of lt gt low] flip: mid_def)
      ultimately show ?thesis using "1.IH"(2) [OF True mid_def gt "1.prems"(1)] "1.prems" mid by simp
    next
      case hit
      then show ?thesis using True mid by (simp add: bisect.simps [of lt gt low] flip: mid_def)
    qed
  next
    case False
    then show ?thesis using "1.prems" by (simp add: bisect.simps [of lt gt low])
  qed
qed

lemma bisect_whole:
  assumes "sorted_tests n lt gt"
  shows "(case bisect lt gt 0 (int n - 1) of
        Inr m \<Rightarrow> 0 \<le> m \<and> m < int n \<and> \<not> lt (nat m) \<and> \<not> gt (nat m)
      | Inl l \<Rightarrow> 0 \<le> l \<and> l \<le> int n \<and> (\<forall>i. int i < l \<longrightarrow> lt i) \<and> (\<forall>i. l \<le> int i \<and> i < n \<longrightarrow> gt i))"
  by (rule bisect_correct [OF assms]) auto

lemma interleavedBinarySearch_correct:
  assumes s: "ssorted (map rl_value rs)"
  shows "interleavedBinarySearch rs (length rs) k = search_result (map rl_value rs) k"
proof -
  have nth: "i < j \<Longrightarrow> j < length rs \<Longrightarrow> rl_value (rs ! i) < rl_value (rs ! j)" for i j
    using ssorted_nth_less [OF s, of i j] by simp
  have "sorted_tests (length rs) (\<lambda>i. rl_value (rs ! i) < k) (\<lambda>i. rl_value (rs ! i) > k)"
    unfolding sorted_tests_def using nth by (meson order_less_trans)
  from bisect_whole [OF this] show ?thesis
  proof (cases "bisect (\<lambda>i. rl_value (rs ! i) < k) (\<lambda>i. rl_value (rs ! i) > k) 0 (int (length rs) - 1)")
    case (Inl l)
    then have l: "0 \<le> l" "l \<le> int (length rs)" "\<And>i. int i < l \<Longrightarrow> rl_value (rs ! i) < k"
      "\<And>i. l \<le> int i \<Longrightarrow> i < length rs \<Longrightarrow> k < rl_value (rs ! i)"
      using bisect_whole [OF \<open>sorted_tests _ _ _\<close>] by auto
    have lb: "lower_bound (map rl_value rs) k = nat l"
      by (rule lower_bound_eqI) (use l in \<open>auto intro: less_imp_le\<close>)
    have "nat l < length rs \<Longrightarrow> rl_value (rs ! nat l) \<noteq> k" using l(4) [of "nat l"] l(1) by auto
    then show ?thesis using l(1) by (auto simp: interleavedBinarySearch_def Inl search_result_def lb Let_def)
  next
    case (Inr m)
    then have m: "0 \<le> m" "nat m < length rs" "rl_value (rs ! nat m) = k"
      using bisect_whole [OF \<open>sorted_tests _ _ _\<close>] by auto
    have lb: "lower_bound (map rl_value rs) k = nat m"
      by (rule lower_bound_eqI) (use m nth in auto)
    show ?thesis using m by (simp add: interleavedBinarySearch_def Inr search_result_def lb Let_def)
  qed
qed

interpretation rb: sorted_search interleavedBinarySearch rl_value
  by unfold_locales (simp add: interleavedBinarySearch_correct)


lemma runs_ok_length: "runs_ok rs \<Longrightarrow> length rs \<le> 32768"
proof -
  assume ok: "runs_ok rs"
  have "i < length rs \<Longrightarrow> 2 * i \<le> rstart (rs ! i)" for i
  proof (induction i)
    case (Suc i)
    then have "rend (rs ! i) + 1 < rstart (rs ! Suc i)" by (intro runs_gap [OF ok]) auto
    moreover have "rstart (rs ! i) \<le> rend (rs ! i)" by simp
    moreover have "2 * i \<le> rstart (rs ! i)" using Suc by simp
    ultimately show ?case unfolding mult_Suc_right by linarith
  qed simp
  then have "length rs - 1 < length rs \<Longrightarrow> 2 * (length rs - 1) < 65536"
    using rstart_less [of "rs ! (length rs - 1)"] by (meson order_le_less_trans)
  then show ?thesis by (cases "rs = []") auto
qed

section \<open>Single values\<close>

lemma run_inv_simps [run_simps]:
  "run_inv c \<Longrightarrow> runs_ok (rc_runs c)" "run_inv c \<Longrightarrow> rc_n_runs c = int (length (rc_runs c))"
  "run_inv c \<Longrightarrow> rc_len c = length (rc_runs c)"
  by (simp_all add: run_inv_def)

lemma uint_u16_int: "uint (x :: u16) = int (unat x)"
  by simp

lemma uint_offset:
  "uint (x :: u16) - uint (v :: u16) \<le> uint (l :: u16) \<longleftrightarrow> unat x \<le> unat v + unat l"
  "uint x - uint v < uint l \<longleftrightarrow> unat x < unat v + unat l"
  "uint x - uint v = uint l \<longleftrightarrow> unat x = unat v + unat l"
  "uint x - uint v = uint l + 1 \<longleftrightarrow> unat x = unat v + unat l + 1"
  "uint v = uint x + 1 \<longleftrightarrow> unat v = unat x + 1"
  unfolding uint_u16_int by linarith+

text \<open>The place of a key among the runs.\<close>

lemma search_split:
  assumes ok: "runs_ok rs"
  obtains as r bs where "rs = as @ r # bs" and "rl_value r = k" and "interleavedBinarySearch rs (length rs) k = int (length as)"
  | as bs where "rs = as @ bs" and "\<forall>r \<in> set as. rl_value r < k" and "\<forall>r \<in> set bs. k < rl_value r"
      and "interleavedBinarySearch rs (length rs) k = - int (length as) - 1"
proof -
  note s = runs_ok_values [OF ok]
  define i where "i = interleavedBinarySearch rs (length rs) k"
  show thesis
  proof (cases "0 \<le> i")
    case True
    then have "nat i < length rs" "rl_value (rs ! nat i) = k" using rb.found_nth [OF s, of k] by (simp_all add: i_def)
    then show thesis using True by (intro that(1) [OF id_take_nth_drop]) (auto simp flip: i_def)
  next
    case False
    define p where "p = lower_bound (map rl_value rs) k"
    have i: "i = - int p - 1" using rb.absent_value [OF s, of k] False by (simp add: i_def p_def)
    have nf: "k \<notin> set (map rl_value rs)" using rb.found_iff [OF s, of k] False by (simp add: i_def)
    have p: "p \<le> length rs" using lower_bound_le [of "map rl_value rs" k] by (simp add: p_def)
    have "\<forall>v \<in> set (take p (map rl_value rs)). v < k" using ssorted_take_lower_bound [OF s, of k] by (simp add: p_def)
    moreover have "\<forall>v \<in> set (drop p (map rl_value rs)). k < v"
      using ssorted_drop_lower_bound [OF s, of k] nf set_drop_subset [of p "map rl_value rs"]
      by (auto simp: p_def order_less_le)
    ultimately show thesis using that(2) [of "take p rs" "drop p rs"] i p
      by (simp add: i_def take_map drop_map)
  qed
qed

lemma run_contains_correct:
  assumes inv: "run_inv c"
  shows "run_container_contains c x \<longleftrightarrow> x \<in> run_abs c"
proof (rule search_split [OF run_inv_simps(1) [OF inv], of x])
  fix as r bs
  assume found: "rc_runs c = as @ r # bs" "rl_value r = x"
    "interleavedBinarySearch (rc_runs c) (length (rc_runs c)) x = int (length as)"
  then have "covers (rc_runs c) (unat x)" using in_run_ends(1) [of r] by (auto simp: rstart_def)
  then show ?thesis unfolding run_container_contains_def run_inv_simps(3) [OF inv] found(3) by (simp add: run_abs_def)
next
  fix as bs
  assume absent: "rc_runs c = as @ bs" "\<forall>r \<in> set as. rl_value r < x" "\<forall>r \<in> set bs. x < rl_value r"
    "interleavedBinarySearch (rc_runs c) (length (rc_runs c)) x = - int (length as) - 1"
  have ok: "runs_ok (as @ bs)" using inv absent(1) by (simp add: run_inv_def)
  have nb: "\<not> covers bs (unat x)" using absent(3) by (auto simp: covers_def in_run_def rstart_def word_less_nat_alt)
  show ?thesis
  proof (cases as rule: rev_cases)
    case Nil
    then show ?thesis using absent(1) nb unfolding run_container_contains_def run_inv_simps(3) [OF inv] absent(4)
      by (simp add: run_abs_def)
  next
    case (snoc as' r)
    have "\<not> covers as' (unat x)"
      using ok absent(2) snoc by (auto simp: runs_ok_append runs_ok_Cons covers_def in_run_def rstart_def word_less_nat_alt)
    moreover have "uint x - uint (rl_value r) \<le> uint (rl_length r) \<longleftrightarrow> in_run r (unat x)"
      using absent(2) snoc by (simp add: in_run_def rstart_def rend_def word_less_nat_alt uint_offset less_imp_le)
    ultimately show ?thesis using absent(1) nb snoc unfolding run_container_contains_def run_inv_simps(3) [OF inv] absent(4)
      by (simp add: run_abs_def nth_append Let_def)
  qed
qed


lemma run_fields [simp]:
  "rstart \<lparr>rl_value = v, rl_length = l\<rparr> = unat v" "rend \<lparr>rl_value = v, rl_length = l\<rparr> = unat v + unat l"
  "rstart (r\<lparr>rl_length := l\<rparr>) = rstart r" "rend (r\<lparr>rl_length := l\<rparr>) = rstart r + unat l"
  by (simp_all add: rstart_def rend_def)

lemma unat_u16_succ: "unat (l :: u16) < 65535 \<Longrightarrow> unat (l + 1) = unat l + 1"
  by (simp add: unat_word_ariths)

lemma unat_u16_pred: "0 < unat (l :: u16) \<Longrightarrow> unat (l - 1) = unat l - 1"
  by (simp add: unat_sub_if_size word_size)

lemma unat_run_length:
  assumes "rend b < 65536" and "rstart r \<le> rend b"
  shows "unat (rl_value b + rl_length b - rl_value r) = rend b - rstart r"
  using assms run_max_word [OF assms(1)] by (simp add: unat_sub_if_size word_size rstart_def)

lemma grow_run_simps [simp]:
  "rc_runs (run_container_grow c m True) = rc_runs c" "rc_runs (run_container_grow c m False) = []"
  "rc_n_runs (run_container_grow c m k) = rc_n_runs c" "m \<le> rc_capacity (run_container_grow c m k)"
  by (simp_all add: run_container_grow_def Let_def)

lemma set_run_simps [simp]:
  "rc_runs (set_run c i r) = (rc_runs c)[i := r]" "rc_n_runs (set_run c i r) = rc_n_runs c"
  "rc_capacity (set_run c i r) = rc_capacity c"
  by (simp_all add: set_run_def)

lemma push_run_simps [simp]:
  "rc_runs (push_run c r) = rc_runs c @ [r]" "rc_n_runs (push_run c r) = rc_n_runs c + 1"
  "rc_capacity (push_run c r) = rc_capacity c"
  by (simp_all add: push_run_def)

lemma run_index: "n \<le> 32768 \<Longrightarrow> unat (of_int (int n) :: u16) = n"
  by simp

lemma recover_room:
  assumes "rc_runs c = as @ r # bs" and "length as \<le> 32768"
  shows "rc_runs (recoverRoomAtIndex c (of_int (int (length as)))) = as @ bs"
    and "rc_n_runs (recoverRoomAtIndex c i) = rc_n_runs c - 1"
    and "rc_capacity (recoverRoomAtIndex c i) = rc_capacity c"
  using assms run_index [OF assms(2)] by (simp_all add: recoverRoomAtIndex_def list_remove_at_def)

lemma make_room:
  assumes "rc_runs c = as @ bs" and "length as \<le> 32768"
  shows "(rc_runs (makeRoomAtIndex c (of_int (int (length as)))))[length as := r] = as @ r # bs"
    and "rc_n_runs (makeRoomAtIndex c i) = rc_n_runs c + 1"
    and "rc_n_runs c + 1 \<le> rc_capacity (makeRoomAtIndex c i)"
  using assms run_index [OF assms(2)] by (simp_all add: makeRoomAtIndex_def Let_def list_insert_at_def)

lemma run_addI:
  assumes "rc_runs c' = ss" and "runs_ok ss" and "\<And>n. covers ss n \<longleftrightarrow> n = unat x \<or> covers (rc_runs c) n"
    and "rc_n_runs c' = int (length ss)" and "int (length ss) \<le> rc_capacity c'"
  shows "run_inv c' \<and> run_abs c' = insert x (run_abs c)"
  using assms by (simp add: run_inv_def run_abs_def set_eq_iff word_unat_eq_iff)

lemma run_removeI:
  assumes "rc_runs c' = ss" and "runs_ok ss" and "\<And>n. covers ss n \<longleftrightarrow> n \<noteq> unat x \<and> covers (rc_runs c) n"
    and "rc_n_runs c' = int (length ss)" and "int (length ss) \<le> rc_capacity c'"
  shows "run_inv c' \<and> run_abs c' = run_abs c - {x}"
  using assms by (simp add: run_inv_def run_abs_def set_eq_iff word_unat_eq_iff conj_commute)

lemma run_add_done:
  assumes "run_container_add c x = (c', True)" and "rc_runs c' = ss" and "runs_ok ss"
    and "\<And>n. covers ss n \<longleftrightarrow> n = unat x \<or> covers (rc_runs c) n"
    and "rc_n_runs c' = int (length ss)" and "int (length ss) \<le> rc_capacity c'"
  shows "snd (run_container_add c x) \<and> run_inv (fst (run_container_add c x)) \<and>
     run_abs (fst (run_container_add c x)) = insert x (run_abs c)"
  using run_addI [of c' ss x c, OF assms(2-6)] assms(1) by simp

text \<open>What adding does to the runs before (\<open>as\<close>) and after (\<open>bs\<close>) the value.\<close>

definition touches_next :: "rle16 list \<Rightarrow> u16 \<Rightarrow> bool" where
  "touches_next bs x \<longleftrightarrow> bs \<noteq> [] \<and> rstart (hd bs) = unat x + 1"

lemma not_touching:
  assumes "runs_ok bs" and after: "\<And>b. b \<in> set bs \<Longrightarrow> unat x < rstart b" and nt: "\<not> touches_next bs x"
  shows "\<forall>b \<in> set bs. unat x + 1 < rstart b"
proof (cases bs)
  case (Cons a list)
  have a: "unat x + 1 < rstart a" using nt after [of a] by (simp add: touches_next_def Cons)
  then have "unat x + 1 < rstart b" if "b \<in> set list" for b
    using assms(1) that rstart_le_rend [of a] unfolding Cons runs_ok_Cons by (meson order_less_le_trans less_imp_le add_lessD1)
  then show ?thesis using a Cons by simp
qed simp

lemma run_add_absent:
  assumes inv: "run_inv c" and runs: "rc_runs c = as @ bs"
    and before: "\<forall>r \<in> set as. rl_value r < x" and after: "\<forall>r \<in> set bs. x < rl_value r"
    and search: "interleavedBinarySearch (rc_runs c) (length (rc_runs c)) x = - int (length as) - 1"
    and new: "\<not> covers (rc_runs c) (unat x)"
  shows "snd (run_container_add c x) \<and> run_inv (fst (run_container_add c x)) \<and>
     run_abs (fst (run_container_add c x)) = insert x (run_abs c)"
proof -
  have ok: "runs_ok (as @ bs)" using inv runs by (simp add: run_inv_def)
  have len: "length (as @ bs) \<le> 32768" by (rule runs_ok_length [OF ok])
  have n: "rc_n_runs c = int (length as + length bs)" and cap: "rc_n_runs c \<le> rc_capacity c"
    using inv runs by (simp_all add: run_inv_def)
  have bound: "rend r < 65536" if "r \<in> set (as @ bs)" for r using ok that by (simp add: runs_ok_def)
  have aft: "unat x < rstart b" if "b \<in> set bs" for b using after that by (simp add: rstart_def word_less_nat_alt)
  have tn: "int (length as) < rc_n_runs c \<and> uint (rl_value ((as @ bs) ! length as)) = uint x + 1 \<longleftrightarrow> touches_next bs x"
    using n by (cases bs) (simp_all add: touches_next_def uint_offset rstart_def)
  note add = run_container_add_def [of c x, unfolded run_inv_simps(3) [OF inv] search Let_def, unfolded runs]
  show ?thesis
  proof (cases as rule: rev_cases)
    case Nil
    show ?thesis
    proof (cases "touches_next bs x")
      case True
      then obtain b bs' where bs: "bs = b # bs'" "rstart b = unat x + 1" by (cases bs) (auto simp: touches_next_def)
      define q where "q = \<lparr>rl_value = rl_value b - 1, rl_length = rl_length b + 1\<rparr>"
      have q: "rstart q = unat x" "rend q = rend b"
        using bs bound [of b] by (simp_all add: q_def unat_u16_pred unat_u16_succ rstart_def rend_def)
      have le: "unat x \<le> rend b" using bs(2) rstart_le_rend [of b] by linarith
      have e: "run_container_add c x = (set_run c 0 q, True)"
        using True tn n bs by (simp add: add Nil uint_offset rstart_def q_def)
      have rr: "rc_runs (set_run c 0 q) = q # bs'" using runs Nil bs by simp
      show ?thesis
        by (rule run_add_done [OF e rr]) (use ok runs n cap Nil bs le in \<open>auto simp: runs_ok_Cons q in_run_def\<close>)
    next
      case False
      define q where "q = \<lparr>rl_value = x, rl_length = 0\<rparr>"
      define c' where "c' = set_run (makeRoomAtIndex c 0) 0 q"
      have q: "rstart q = unat x" "rend q = unat x" by (simp_all add: q_def)
      have far: "\<forall>b \<in> set bs. unat x + 1 < rstart b"
        by (rule not_touching) (use ok Nil aft False in simp_all)
      have e: "run_container_add c x = (c', True)"
        using False tn n Nil by (cases bs) (simp_all add: add uint_offset rstart_def q_def c'_def touches_next_def)
      have rr: "rc_runs c' = q # bs" "rc_n_runs c' = rc_n_runs c + 1" "rc_n_runs c + 1 \<le> rc_capacity c'"
        using make_room(1) [where c = c and as = "[]" and bs = bs and r = q] make_room(2,3) [where c = c and as = "[]" and bs = bs] runs Nil by (simp_all add: c'_def)
      show ?thesis
        by (rule run_add_done [OF e rr(1)]) (use rr(2,3) ok runs n Nil far in \<open>auto simp: runs_ok_Cons q in_run_def\<close>)
    qed
  next
    case (snoc as' r)
    have r: "r \<in> set (as @ bs)" "rend r < unat x"
      using snoc new runs before by (auto simp: in_run_def not_le rstart_def word_less_nat_alt dest: less_imp_le)
    have rx: "rstart r < unat x" using r(2) rstart_le_rend [of r] by linarith
    have idx: "- (- int (length as) - 1) - 2 = int (length as')"
      and nth: "(as @ bs) ! length as' = r" "bs \<noteq> [] \<Longrightarrow> (as @ bs) ! length as = hd bs"
      using snoc by (simp_all add: nth_append hd_conv_nth)
    have off: "uint x - uint (rl_value r) \<le> uint (rl_length r) \<longleftrightarrow> False"
      "uint x - uint (rl_value r) = uint (rl_length r) + 1 \<longleftrightarrow> unat x = rend r + 1"
      using r by (simp_all add: uint_offset rend_def)
    have c: "rc_runs c = as' @ r # bs" "rc_n_runs c = 1 + int (length as' + length bs)" using runs n snoc by simp_all
    have ok': "runs_ok (as' @ r # bs)" using ok snoc by simp
    have pos: "int (length as') + 1 = int (length as)" "nat (int (length as') + 1) = length as" using snoc by simp_all
    have far: "\<forall>b \<in> set bs. unat x + 1 < rstart b" if "\<not> touches_next bs x"
      by (rule not_touching) (use ok aft that in \<open>simp_all add: runs_ok_append\<close>)
    have xb: "unat x < 65536" by simp
    note add = add [unfolded idx pos]
    consider (fuse) "unat x = rend r + 1" "touches_next bs x" | (grow) "unat x = rend r + 1" "\<not> touches_next bs x"
      | (front) "unat x \<noteq> rend r + 1" "touches_next bs x" | (new) "unat x \<noteq> rend r + 1" "\<not> touches_next bs x" by blast
    then show ?thesis
    proof cases
      case fuse
      then obtain b bs' where bs: "bs = b # bs'" "rstart b = unat x + 1" by (cases bs) (auto simp: touches_next_def)
      define q where "q = r\<lparr>rl_length := rl_value b + rl_length b - rl_value r\<rparr>"
      define c' where "c' = recoverRoomAtIndex (set_run c (length as') q) (of_int (int (length as)))"
      have le: "rstart r \<le> rend b" "unat x \<le> rend b" using r bs rstart_le_rend [of r] rstart_le_rend [of b] by linarith+
      have q: "rstart q = rstart r" "rend q = rend b"
        using le bound [of b] bs by (simp_all add: q_def unat_run_length)
      have e: "run_container_add c x = (c', True)"
        using fuse tn bs nth by (simp add: add off c'_def q_def)
      have rr: "rc_runs c' = as' @ q # bs'"
        using recover_room(1) [of "set_run c (length as') q" "as' @ [q]" b bs'] len c bs snoc by (simp add: c'_def)
      have n2: "rc_n_runs c' = rc_n_runs c - 1" "rc_capacity c' = rc_capacity c"
        by (simp_all add: c'_def recoverRoomAtIndex_def)
      show ?thesis
        by (rule run_add_done [OF e rr(1)]) (use ok' c cap bs fuse(1) rx q le rr n2 in \<open>auto simp: runs_ok_append runs_ok_Cons in_run_def\<close>)
    next
      case grow
      define q where "q = r\<lparr>rl_length := rl_length r + 1\<rparr>"
      have q: "rstart q = rstart r" "rend q = unat x"
        using grow unat_u16_less [of x] by (simp_all add: q_def unat_u16_succ rend_def rstart_def)
      have e: "run_container_add c x = (set_run c (length as') q, True)"
        using grow tn nth by (auto simp: add off q_def)
      have rr: "rc_runs (set_run c (length as') q) = as' @ q # bs" using c by simp
      show ?thesis
        by (rule run_add_done [OF e rr(1)]) (use ok' c cap far grow q rx xb in \<open>auto simp: runs_ok_append runs_ok_Cons in_run_def\<close>)
    next
      case front
      then obtain b bs' where bs: "bs = b # bs'" "rstart b = unat x + 1" by (cases bs) (auto simp: touches_next_def)
      define q where "q = \<lparr>rl_value = x, rl_length = rl_length b + 1\<rparr>"
      have le: "unat x \<le> rend b" using bs(2) rstart_le_rend [of b] by linarith
      have q: "rstart q = unat x" "rend q = rend b"
        using bs bound [of b] by (simp_all add: q_def unat_u16_succ rstart_def rend_def)
      have e: "run_container_add c x = (set_run c (length as) q, True)"
        using front tn bs nth by (simp add: add off q_def)
      have rr: "rc_runs (set_run c (length as) q) = as' @ r # q # bs'" using c bs snoc by (simp add: list_update_append)
      show ?thesis
        by (rule run_add_done [OF e rr(1)]) (use ok' c cap bs front q le r(2) rx in \<open>auto simp: runs_ok_append runs_ok_Cons in_run_def\<close>)
    next
      case new
      define q where "q = \<lparr>rl_value = x, rl_length = 0\<rparr>"
      define c' where "c' = set_run (makeRoomAtIndex c (of_int (int (length as)))) (length as) q"
      have q: "rstart q = unat x" "rend q = unat x" by (simp_all add: q_def)
      have e: "run_container_add c x = (c', True)"
        using new tn nth by (auto simp: add off q_def c'_def)
      have rr: "rc_runs c' = as @ q # bs" "rc_n_runs c' = rc_n_runs c + 1" "rc_n_runs c + 1 \<le> rc_capacity c'"
        using make_room(1) [where c = c and as = as and bs = bs and r = q] make_room(2,3) [where c = c and as = as and bs = bs] runs len by (simp_all add: c'_def)
      show ?thesis
        by (rule run_add_done [OF e rr(1)]) (use ok runs n far new r(2) rx q snoc rr in \<open>auto simp: runs_ok_append runs_ok_Cons in_run_def\<close>)
    qed
  qed
qed


lemma run_add_correct:
  assumes inv: "run_inv c"
  shows "run_inv (fst (run_container_add c x)) \<and> run_abs (fst (run_container_add c x)) = insert x (run_abs c)
     \<and> (snd (run_container_add c x) \<longleftrightarrow> x \<notin> run_abs c)"
proof (cases "x \<in> run_abs c")
  case True
  then have "run_container_contains c x" using run_contains_correct [OF inv] by simp
  then have "run_container_add c x = (c, False)"
    by (auto simp: run_container_contains_def run_container_add_def Let_def split: if_splits)
  then show ?thesis using True inv by (simp add: insert_absorb)
next
  case False
  then have new: "\<not> covers (rc_runs c) (unat x)" by (simp add: run_abs_def)
  show ?thesis
  proof (rule search_split [OF run_inv_simps(1) [OF inv], of x])
    fix as r bs
    assume "rc_runs c = as @ r # bs" "rl_value r = x"
    then show ?thesis using new in_run_ends(1) [of r] by (simp add: rstart_def)
  next
    fix as bs
    assume "rc_runs c = as @ bs" "\<forall>r \<in> set as. rl_value r < x" "\<forall>r \<in> set bs. x < rl_value r"
      "interleavedBinarySearch (rc_runs c) (length (rc_runs c)) x = - int (length as) - 1"
    from run_add_absent [OF inv this new] show ?thesis using False by simp
  qed
qed

lemma run_remove_done:
  assumes "run_container_remove c x = (c', True)" and "rc_runs c' = ss" and "runs_ok ss" and "covers (rc_runs c) (unat x)"
    and "\<And>n. covers ss n \<longleftrightarrow> n \<noteq> unat x \<and> covers (rc_runs c) n"
    and "rc_n_runs c' = int (length ss)" and "int (length ss) \<le> rc_capacity c'"
  shows "run_inv (fst (run_container_remove c x)) \<and> run_abs (fst (run_container_remove c x)) = run_abs c - {x}
     \<and> (snd (run_container_remove c x) \<longleftrightarrow> x \<in> run_abs c)"
  using run_removeI [of c' ss x c, OF assms(2,3,5-7)] assms(1,4) by (simp add: run_abs_def)

lemma run_remove_correct:
  assumes inv: "run_inv c"
  shows "run_inv (fst (run_container_remove c x)) \<and> run_abs (fst (run_container_remove c x)) = run_abs c - {x}
     \<and> (snd (run_container_remove c x) \<longleftrightarrow> x \<in> run_abs c)"
proof -
  have ok: "runs_ok (rc_runs c)" and n: "rc_n_runs c = int (length (rc_runs c))" and cap: "rc_n_runs c \<le> rc_capacity c"
    using inv by (simp_all add: run_inv_def)
  have len: "length (rc_runs c) \<le> 32768" by (rule runs_ok_length [OF ok])
  show ?thesis
  proof (rule search_split [OF ok, of x])
    fix as r bs
    assume runs: "rc_runs c = as @ r # bs" and r: "rl_value r = x"
      and search: "interleavedBinarySearch (rc_runs c) (length (rc_runs c)) x = int (length as)"
    note rm = run_container_remove_def [of c x, unfolded run_inv_simps(3) [OF inv] search Let_def, unfolded runs]
    have rx: "rstart r = unat x" "covers (rc_runs c) (unat x)"
      using r runs in_run_ends(1) [of r] by (simp_all add: rstart_def)
    show ?thesis
    proof (cases "rl_length r = 0")
      case True
      define c' where "c' = recoverRoomAtIndex c (of_int (int (length as)))"
      have e: "run_container_remove c x = (c', True)" using True by (simp add: rm c'_def)
      have rr: "rc_runs c' = as @ bs" using recover_room(1) [OF runs] len runs by (simp add: c'_def)
      have n2: "rc_n_runs c' = rc_n_runs c - 1" "rc_capacity c' = rc_capacity c" by (simp_all add: c'_def recoverRoomAtIndex_def)
      have "rend r = unat x" using True r by (simp add: rend_def)
      then show ?thesis
        by (intro run_remove_done [OF e rr])
          (use ok n cap rr n2 runs rx in \<open>force simp: runs_ok_append runs_ok_Cons in_run_def covers_def\<close>)+
    next
      case False
      then have pos: "0 < unat (rl_length r)" by (simp add: unat_gt_0)
      define q where "q = \<lparr>rl_value = rl_value r + 1, rl_length = rl_length r - 1\<rparr>"
      have lt: "rend r < 65536" using ok runs by (simp add: runs_ok_def)
      have q: "rstart q = unat x + 1" "rend q = rend r" and gt: "unat x < rend r"
        using pos lt r by (simp_all add: q_def unat_u16_succ unat_u16_pred rend_def)
      have e: "run_container_remove c x = (set_run c (length as) q, True)"
        using False by (simp add: rm q_def uint_0_iff)
      have rr: "rc_runs (set_run c (length as) q) = as @ q # bs" using runs by simp
      show ?thesis
        by (rule run_remove_done [OF e rr])
          (use ok n cap runs rx q gt in \<open>auto simp: runs_ok_append runs_ok_Cons in_run_def covers_def\<close>)
    qed
  next
    fix as bs
    assume runs: "rc_runs c = as @ bs" and before: "\<forall>r \<in> set as. rl_value r < x" and after: "\<forall>r \<in> set bs. x < rl_value r"
      and search: "interleavedBinarySearch (rc_runs c) (length (rc_runs c)) x = - int (length as) - 1"
    have nb: "\<not> covers bs (unat x)" using after by (auto simp: covers_def in_run_def rstart_def word_less_nat_alt)
    show ?thesis
    proof (cases as rule: rev_cases)
      case Nil
      then have "run_container_remove c x = (c, False)"
        by (simp add: run_container_remove_def run_inv_simps(3) [OF inv] search)
      moreover have "x \<notin> run_abs c" using nb Nil runs by (simp add: run_abs_def)
      ultimately show ?thesis using inv by simp
    next
      case (snoc as' r)
      have c: "rc_runs c = as' @ r # bs" using runs snoc by simp
      have idx: "- (- int (length as) - 1) - 2 = int (length as')" and pos: "nat (int (length as') + 1) = length as"
        "int (length as') + 1 = int (length as)" and nth: "(as @ bs) ! length as' = r"
        using snoc by (simp_all add: nth_append)
      note rm = run_container_remove_def [of c x, unfolded run_inv_simps(3) [OF inv] search Let_def, unfolded runs idx pos]
      have lt: "rend r < 65536" and rx: "rstart r < unat x"
        using ok c before snoc by (simp_all add: runs_ok_def rstart_def word_less_nat_alt)
      have na: "\<not> covers as' (unat x)"
        using ok c rx by (auto simp: runs_ok_append runs_ok_Cons covers_def in_run_def)
      have off: "uint x - uint (rl_value r) < uint (rl_length r) \<longleftrightarrow> unat x < rend r"
        "uint x - uint (rl_value r) = uint (rl_length r) \<longleftrightarrow> unat x = rend r"
        by (simp_all add: uint_offset rend_def)
      have w: "unat (of_int (uint x - uint (rl_value r) - 1) :: u16) = unat x - rstart r - 1"
      proof -
        have "uint x - uint (rl_value r) - 1 = int (unat x - rstart r - 1)" using rx unfolding uint_u16_int rstart_def by linarith
        moreover have "unat x - rstart r - 1 < 65536" using unat_u16_less [of x] by linarith
        ultimately show ?thesis by (simp only: of_int_of_nat_eq unat_u16_of_nat)
      qed
      consider (split) "unat x < rend r" | (last) "unat x = rend r" | (out) "rend r < unat x" by linarith
      then show ?thesis
      proof cases
        case split
        define p where "p = r\<lparr>rl_length := of_int (uint x - uint (rl_value r) - 1)\<rparr>"
        define q where "q = \<lparr>rl_value = x + 1, rl_length = of_int (uint (rl_length r) - (uint x - uint (rl_value r)) - 1)\<rparr>"
        define c' where "c' = set_run (makeRoomAtIndex (set_run c (length as') p) (of_int (int (length as)))) (length as) q"
        have p: "rstart p = rstart r" "rend p = unat x - 1" using w rx by (simp_all add: p_def)
        have x1: "unat (x + 1) = unat x + 1" using split lt by (intro unat_u16_succ) simp
        have "uint (rl_length r) - (uint x - uint (rl_value r)) - 1 = int (rend r - unat x - 1)"
          using split unfolding uint_u16_int rend_def by linarith
        then have "unat (rl_length q) = rend r - unat x - 1" using lt by (simp add: q_def del: of_nat_unat)
        then have q: "rstart q = unat x + 1" "rend q = rend r" using x1 split by (simp_all add: q_def rend_def)
        have e: "run_container_remove c x = (c', True)"
          using split nth by (simp add: rm off p_def q_def c'_def)
        have rr: "rc_runs c' = as' @ p # q # bs" and n2: "rc_n_runs c' = rc_n_runs c + 1" "rc_n_runs c + 1 \<le> rc_capacity c'"
          using make_room(1) [where c = "set_run c (length as') p" and as = "as' @ [p]" and bs = bs and r = q]
            make_room(2,3) [where c = "set_run c (length as') p" and as = "as' @ [p]" and bs = bs] len c snoc
          by (simp_all add: c'_def)
        show ?thesis
          by (rule run_remove_done [OF e rr])
            (use ok n cap c p q n2 rx split in \<open>auto simp: runs_ok_append runs_ok_Cons in_run_def covers_def\<close>)
      next
        case last
        define q where "q = r\<lparr>rl_length := rl_length r - 1\<rparr>"
        have q: "rstart q = rstart r" "rend q = unat x - 1"
          using last rx by (simp_all add: q_def rend_def rstart_def unat_u16_pred)
        have e: "run_container_remove c x = (set_run c (length as') q, True)"
          using last nth by (simp add: rm off q_def)
        have rr: "rc_runs (set_run c (length as') q) = as' @ q # bs" using c by simp
        show ?thesis
          by (rule run_remove_done [OF e rr])
            (use ok n cap c q rx last in \<open>auto simp: runs_ok_append runs_ok_Cons in_run_def covers_def\<close>)
      next
        case out
        then have "run_container_remove c x = (c, False)" using nth by (simp add: rm off)
        moreover have "x \<notin> run_abs c" using nb na out c by (simp add: run_abs_def in_run_def)
        ultimately show ?thesis using inv by simp
      qed
    qed
  qed
qed


section \<open>Counting\<close>

definition run_size :: "rle16 \<Rightarrow> nat" where
  "run_size r = unat (rl_length r) + 1"

lemma covers_finite: "finite {n. covers rs n}"
proof -
  have "{n. covers rs n} = (\<Union>r \<in> set rs. {rstart r .. rend r})" by (auto simp: covers_def in_run_def)
  then show ?thesis by simp
qed

lemma card_covers: "runs_ok rs \<Longrightarrow> card {n. covers rs n} = sum_list (map run_size rs)"
proof (induction rs)
  case (Cons r rs)
  have "{n. covers (r # rs) n} = {rstart r .. rend r} \<union> {n. covers rs n}" by (auto simp: in_run_def)
  moreover have "{rstart r .. rend r} \<inter> {n. covers rs n} = {}" using covers_tail [OF Cons.prems] by fastforce
  moreover have "card {rstart r .. rend r} = run_size r" by (simp add: run_size_def rend_def rstart_def)
  ultimately show ?case using Cons by (simp add: card_Un_disjoint covers_finite runs_ok_Cons)
qed (simp add: covers_def [abs_def])

lemma run_abs_image: "runs_ok (rc_runs c) \<Longrightarrow> unat ` run_abs c = {n. covers (rc_runs c) n}"
proof (intro set_eqI iffI)
  fix n assume "runs_ok (rc_runs c)" and n: "n \<in> {n. covers (rc_runs c) n}"
  then have "n = unat (word_of_nat n :: u16)" using covers_less by simp
  then show "n \<in> unat ` run_abs c" using n by (auto simp: run_abs_def)
qed (auto simp: run_abs_def)

lemma inj_unat_word: "inj_on (unat :: u16 \<Rightarrow> nat) S"
  by (rule inj_onI) (simp add: word_unat_eq_iff)

lemma card_run_abs: "run_inv c \<Longrightarrow> card (run_abs c) = sum_list (map run_size (rc_runs c))"
  using card_image [OF inj_unat_word, of "run_abs c"] by (simp add: run_abs_image card_covers run_simps)

lemma fold_lengths: "fold (\<lambda>r acc. acc + uint (rl_length r)) rs n + int (length rs) = n + int (sum_list (map run_size rs))"
  by (induction rs arbitrary: n) (simp_all add: run_size_def algebra_simps)

lemma run_cardinality_correct: "run_inv c \<Longrightarrow> run_container_cardinality c = int (card (run_abs c))"
  using fold_lengths [of "rc_runs c" 0] fold_lengths [of "rc_runs c" "rc_n_runs c"]
  by (simp add: run_container_cardinality_def card_run_abs run_simps)

interpretation rc: container run_inv run_abs run_container_contains run_container_add run_container_remove
    run_container_cardinality
  by unfold_locales (simp_all add: run_contains_correct run_add_correct run_remove_correct run_cardinality_correct)

text \<open>Containers with the same set of values have the same runs.\<close>

lemma run_abs_unique:
  assumes "run_inv c" and "run_inv d" and "run_abs c = run_abs d"
  shows "rc_runs c = rc_runs d"
  using runs_ok_unique [of "rc_runs c" "rc_runs d"] run_abs_image [of c] run_abs_image [of d] assms
  by (auto simp: run_simps set_eq_iff)

lemma run_empty_iff: "run_inv c \<Longrightarrow> run_abs c = {} \<longleftrightarrow> rc_runs c = []"
proof
  assume inv: "run_inv c" and e: "run_abs c = {}"
  then have "{n. covers (rc_runs c) n} = {}" using run_abs_image [of c] by (simp add: run_simps)
  then show "rc_runs c = []" by (cases "rc_runs c") (simp_all, metis in_run_ends(1))
qed (simp add: run_abs_def)

lemma run_empty_correct:
  "run_inv c \<Longrightarrow> run_container_empty c \<longleftrightarrow> run_abs c = {}"
  "run_inv c \<Longrightarrow> run_container_nonzero_cardinality c \<longleftrightarrow> run_abs c \<noteq> {}"
  by (simp_all add: run_empty_iff run_container_empty_def run_container_nonzero_cardinality_def run_simps)

lemma run_equals_correct:
  assumes "run_inv c" and "run_inv d"
  shows "run_container_equals c d \<longleftrightarrow> run_abs c = run_abs d"
proof
  assume "run_container_equals c d"
  then have "rc_runs c = rc_runs d" using assms by (auto simp: run_container_equals_def run_simps split: if_splits)
  then show "run_abs c = run_abs d" by (simp add: run_abs_def)
next
  assume "run_abs c = run_abs d"
  then have "rc_runs c = rc_runs d" by (rule run_abs_unique [OF assms])
  then show "run_container_equals c d" using assms by (simp add: run_container_equals_def run_simps)
qed

lemma run_full_iff:
  assumes inv: "run_inv c"
  shows "run_container_is_full c \<longleftrightarrow> run_abs c = UNIV"
proof
  assume "run_container_is_full c"
  then obtain r where r: "rc_runs c = [r]" "rl_value r = 0" "rl_length r = 0xFFFF"
    using inv by (auto simp: run_container_is_full_def Let_def run_simps length_Suc_conv)
  have "unat x \<le> 65535" for x :: u16 using unat_u16_less [of x] by linarith
  then have "in_run r (unat x)" for x :: u16 using r by (simp add: in_run_def rstart_def rend_def)
  then show "run_abs c = UNIV" using r by (simp add: run_abs_def)
next
  assume u: "run_abs c = UNIV"
  let ?r = "\<lparr>rl_value = 0, rl_length = 0xFFFF\<rparr>"
  have "covers (rc_runs c) n \<longleftrightarrow> n < 65536" for n
  proof
    assume "n < 65536"
    then have "covers (rc_runs c) (unat (word_of_nat n :: u16))"
      using u by (metis (mono_tags, lifting) UNIV_I mem_Collect_eq run_abs_def)
    then show "covers (rc_runs c) n" using \<open>n < 65536\<close> by simp
  qed (rule covers_less [OF run_inv_simps(1) [OF inv]])
  moreover have "runs_ok [?r]" and "covers [?r] n \<longleftrightarrow> n < 65536" for n
    by (simp_all add: runs_ok_Cons in_run_def less_Suc_eq_le [of n 65535, simplified])
  ultimately have "rc_runs c = [?r]" by (intro runs_ok_unique [OF run_inv_simps(1) [OF inv]]) simp_all
  then show "run_container_is_full c" using inv by (simp add: run_container_is_full_def run_simps)
qed

lemma run_min_max_correct:
  assumes inv: "run_inv c" and ne: "run_abs c \<noteq> {}"
  shows "run_container_minimum c \<in> run_abs c \<and> (\<forall>y \<in> run_abs c. run_container_minimum c \<le> y)"
    and "run_container_maximum c \<in> run_abs c \<and> (\<forall>y \<in> run_abs c. y \<le> run_container_maximum c)"
proof -
  have ok: "runs_ok (rc_runs c)" using inv by (simp add: run_inv_def)
  have nn: "rc_runs c \<noteq> []" using ne run_empty_iff [OF inv] by simp
  then obtain r rs where c: "rc_runs c = r # rs" by (cases "rc_runs c") auto
  have m: "unat (run_container_minimum c) = rstart r"
    using inv c by (simp add: run_container_minimum_def run_simps rstart_def)
  show "run_container_minimum c \<in> run_abs c \<and> (\<forall>y \<in> run_abs c. run_container_minimum c \<le> y)"
  proof -
    have "rstart r \<le> n" if "covers (r # rs) n" for n
    proof (cases "covers rs n")
      case True
      then have "rend r + 1 < n" using covers_tail ok c by simp
      then show ?thesis using rstart_le_rend [of r] by linarith
    qed (use that in \<open>simp add: in_run_def\<close>)
    then show ?thesis by (auto simp: m run_abs_def c word_le_nat_alt)
  qed
  obtain ss s where c: "rc_runs c = ss @ [s]" using nn by (cases "rc_runs c" rule: rev_cases) auto
  have s: "rend s < 65536" using ok c by (simp add: runs_ok_def)
  have l: "nat (int (length ss) + 1 - 1) = length ss" by simp
  have m: "unat (run_container_maximum c) = rend s"
    using inv c s by (simp add: run_container_maximum_def run_simps run_max_word nth_append Let_def)
  have "n \<le> rend s" if "covers (rc_runs c) n" for n
  proof -
    from that obtain q where q: "q \<in> set (ss @ [s])" "in_run q n" unfolding c covers_def by blast
    show ?thesis
    proof (cases "q \<in> set ss")
      case True
      then have "rend q + 1 < rstart s" using ok c by (simp add: runs_ok_append)
      then show ?thesis using q(2) rstart_le_rend [of s] unfolding in_run_def by linarith
    qed (use q in \<open>auto simp: in_run_def\<close>)
  qed
  then show "run_container_maximum c \<in> run_abs c \<and> (\<forall>y \<in> run_abs c. y \<le> run_container_maximum c)"
    by (auto simp: run_abs_def m word_le_nat_alt c)
qed

end
