(* ===== verification/Run_Ops.thy ===== *)
theory Run_Ops
  imports Run_Sets
begin

text \<open>
  Correctness of the binary operations on run containers: each loop over two sorted arrays of
  runs builds a sorted array of runs, no two touching, for the union, the intersection, the
  difference or the symmetric difference of the two sets.
\<close>

declare rstart_le_rend [simp del]

section \<open>Appending and union\<close>

lemma runs_ok_starts: "runs_ok (r # rs) \<Longrightarrow> s \<in> set rs \<Longrightarrow> rstart r \<le> rstart s"
  using rstart_le_rend [of r] unfolding runs_ok_Cons by (meson add_lessD1 less_imp_le order_le_less_trans)

text \<open>An output under construction: \<open>p\<close> is its last run, and \<open>k\<close> more runs have room.\<close>

definition builds :: "run_container \<Rightarrow> rle16 \<Rightarrow> nat \<Rightarrow> bool" where
  "builds c p k \<longleftrightarrow> (\<exists>D. rc_runs c = D @ [p]) \<and> runs_ok (rc_runs c) \<and> rc_n_runs c = int (length (rc_runs c))
     \<and> rc_n_runs c + int k \<le> rc_capacity c"

lemma builds_inv: "builds c p k \<Longrightarrow> run_inv c"
  by (auto simp: builds_def run_inv_def)

lemma builds_first:
  "rend v < 65536 \<Longrightarrow> int (Suc k) \<le> rc_capacity c \<Longrightarrow> rc_runs c = [] \<Longrightarrow> rc_n_runs c = 0 \<Longrightarrow> builds (push_run c v) v k"
  by (simp add: builds_def runs_ok_Cons)

lemma run_append_builds:
  assumes b: "builds c p (Suc k)" and le: "rstart p \<le> rstart v" and v: "rend v < 65536"
    and a: "run_container_append c v p = (c', p')"
  shows "builds c' p' k \<and> rstart p' \<le> rstart v \<and> (\<forall>n. covers (rc_runs c') n \<longleftrightarrow> covers (rc_runs c) n \<or> in_run v n)"
proof -
  obtain D where D: "rc_runs c = D @ [p]" "runs_ok (D @ [p])" "rc_n_runs c = int (length D) + 1"
    "rc_n_runs c + int (Suc k) \<le> rc_capacity c" using b by (auto simp: builds_def)
  have gap: "\<forall>d \<in> set D. rend d + 1 < rstart p" and Dok: "runs_ok D" using D(2) by (auto simp: runs_ok_append)
  have pp: "rstart p \<le> rend p" "rstart v \<le> rend v" by (simp_all add: rstart_le_rend)
  have far: "\<forall>d \<in> set D. rend d + 1 < rstart v" using gap le by fastforce
  have p: "rend p < 65536" using D(2) by (simp add: runs_ok_def)
  consider (new) "rstart v > rend p + 1" | (merge) "rstart v \<le> rend p + 1" "rend v + 1 > rend p"
    | (inside) "rstart v \<le> rend p + 1" "rend v + 1 \<le> rend p" by linarith
  then show ?thesis
  proof cases
    case new
    then have "c' = push_run c v" "p' = v" using a by (auto simp: run_container_append_def)
    then show ?thesis using D v new gap far p Dok by (auto simp: builds_def runs_ok_append runs_ok_Cons)
  next
    case merge
    define q where "q = p\<lparr>rl_length := word_of_nat (rend v + 1 - 1 - rstart p)\<rparr>"
    have "rstart p \<le> rend v" using le pp by linarith
    then have q: "rstart q = rstart p" "rend q = rend v" using v by (simp_all add: q_def del: of_nat_diff)
    have "c' = set_run c (length D) q" "p' = q"
      using a merge D by (auto simp: run_container_append_def q_def Let_def)
    moreover have "rc_runs (set_run c (length D) q) = D @ [q]" using D by simp
    ultimately show ?thesis using D q v gap Dok le merge pp
      by (auto simp: builds_def runs_ok_append runs_ok_Cons in_run_def)
  next
    case inside
    then have "c' = c" "p' = p" using a by (simp_all add: run_container_append_def)
    then show ?thesis using D le inside by (auto simp: builds_def in_run_def)
  qed
qed

lemma run_union_loop_correct:
  "builds c p (length rs + length xs) \<Longrightarrow> runs_ok rs \<Longrightarrow> runs_ok xs \<Longrightarrow>
     \<forall>r \<in> set rs \<union> set xs. rstart p \<le> rstart r \<Longrightarrow>
     run_inv (run_union_loop rs xs c p) \<and>
     (\<forall>n. covers (rc_runs (run_union_loop rs xs c p)) n \<longleftrightarrow> covers (rc_runs c) n \<or> covers rs n \<or> covers xs n)"
proof (induction rs xs c p rule: run_union_loop.induct)
  case (1 r rs x xs c p)
  show ?case
  proof (cases "rl_value r \<le> rl_value x")
    case True
    obtain c' p' where a: "run_container_append c r p = (c', p')" by (cases "run_container_append c r p")
    have s: "builds c' p' (length rs + length (x # xs)) \<and> rstart p' \<le> rstart r \<and>
        (\<forall>n. covers (rc_runs c') n \<longleftrightarrow> covers (rc_runs c) n \<or> in_run r n)"
      by (rule run_append_builds [OF _ _ _ a]) (use "1.prems" in \<open>auto simp: runs_ok_Cons\<close>)
    have "rstart r \<le> rstart x" using True by (simp add: rstart_def word_le_nat_alt)
    then have "\<forall>q \<in> set rs \<union> set (x # xs). rstart p' \<le> rstart q"
      using s runs_ok_starts [OF "1.prems"(2)] runs_ok_starts [OF "1.prems"(3)] by (auto intro: order_trans)
    then show ?thesis using "1.IH"(1) [OF True a [symmetric]] s "1.prems" True a by (auto simp: runs_ok_Cons)
  next
    case False
    obtain c' p' where a: "run_container_append c x p = (c', p')" by (cases "run_container_append c x p")
    have s: "builds c' p' (length (r # rs) + length xs) \<and> rstart p' \<le> rstart x \<and>
        (\<forall>n. covers (rc_runs c') n \<longleftrightarrow> covers (rc_runs c) n \<or> in_run x n)"
      by (rule run_append_builds [OF _ _ _ a]) (use "1.prems" in \<open>auto simp: runs_ok_Cons\<close>)
    have "rstart x \<le> rstart r" using False by (simp add: rstart_def word_le_nat_alt)
    then have "\<forall>q \<in> set (r # rs) \<union> set xs. rstart p' \<le> rstart q"
      using s runs_ok_starts [OF "1.prems"(2)] runs_ok_starts [OF "1.prems"(3)] by (auto intro: order_trans)
    then show ?thesis using "1.IH"(2) [OF False a [symmetric]] s "1.prems" False a by (auto simp: runs_ok_Cons)
  qed
next
  case (2 x xs c p)
  obtain c' p' where a: "run_container_append c x p = (c', p')" by (cases "run_container_append c x p")
  have s: "builds c' p' (length xs) \<and> rstart p' \<le> rstart x \<and>
      (\<forall>n. covers (rc_runs c') n \<longleftrightarrow> covers (rc_runs c) n \<or> in_run x n)"
    by (rule run_append_builds [OF _ _ _ a]) (use "2.prems" in \<open>auto simp: runs_ok_Cons\<close>)
  then have "\<forall>q \<in> set xs. rstart p' \<le> rstart q"
    using runs_ok_starts [OF "2.prems"(3)] by (auto intro: order_trans)
  then show ?case using "2.IH" [OF a [symmetric]] s "2.prems" a by (auto simp: runs_ok_Cons)
next
  case (3 r rs c p)
  obtain c' p' where a: "run_container_append c r p = (c', p')" by (cases "run_container_append c r p")
  have s: "builds c' p' (length rs) \<and> rstart p' \<le> rstart r \<and>
      (\<forall>n. covers (rc_runs c') n \<longleftrightarrow> covers (rc_runs c) n \<or> in_run r n)"
    by (rule run_append_builds [OF _ _ _ a]) (use "3.prems" in \<open>auto simp: runs_ok_Cons\<close>)
  then have "\<forall>q \<in> set rs. rstart p' \<le> rstart q"
    using runs_ok_starts [OF "3.prems"(2)] by (auto intro: order_trans)
  then show ?case using "3.IH" [OF a [symmetric]] s "3.prems" a by (auto simp: runs_ok_Cons)
next
  case (4 c p)
  then show ?case using builds_inv by auto
qed


lemma run_union_merge_correct:
  assumes ok: "runs_ok rs" "runs_ok xs" and ne: "rs \<noteq> []" "xs \<noteq> []"
    and c: "rc_runs c = []" "rc_n_runs c = 0" "int (length rs + length xs) \<le> rc_capacity c"
  shows "run_inv (run_union_merge rs xs c) \<and>
     (\<forall>n. covers (rc_runs (run_union_merge rs xs c)) n \<longleftrightarrow> covers rs n \<or> covers xs n)"
proof -
  obtain r rs' x xs' where e: "rs = r # rs'" "xs = x # xs'" using ne by (auto simp: neq_Nil_conv)
  show ?thesis
  proof (cases "rl_value r \<le> rl_value x")
    case True
    have "rstart r \<le> rstart x" using True by (simp add: rstart_def word_le_nat_alt)
    then have "\<forall>q \<in> set rs' \<union> set xs. rstart r \<le> rstart q"
      using runs_ok_starts ok unfolding e by (auto intro: order_trans)
    moreover have "builds (push_run c r) r (length rs' + length xs)"
      by (rule builds_first) (use ok c in \<open>auto simp: e runs_ok_Cons\<close>)
    ultimately show ?thesis
      using run_union_loop_correct [of "push_run c r" r rs' xs] ok True c
      by (auto simp: run_union_merge_def run_container_append_first_def e runs_ok_Cons)
  next
    case False
    have "rstart x \<le> rstart r" using False by (simp add: rstart_def word_le_nat_alt)
    then have "\<forall>q \<in> set rs \<union> set xs'. rstart x \<le> rstart q"
      using runs_ok_starts ok unfolding e by (auto intro: order_trans)
    moreover have "builds (push_run c x) x (length rs + length xs')"
      by (rule builds_first) (use ok c in \<open>auto simp: e runs_ok_Cons\<close>)
    ultimately show ?thesis
      using run_union_loop_correct [of "push_run c x" x rs xs'] ok False c
      by (auto simp: run_union_merge_def run_container_append_first_def e runs_ok_Cons)
  qed
qed

lemma run_copy_correct:
  assumes "run_inv src"
  shows "run_inv (run_container_copy src dst)" and "rc_runs (run_container_copy src dst) = rc_runs src"
    and "run_abs (run_container_copy src dst) = run_abs src"
  using assms by (auto simp: run_container_copy_def run_inv_def run_abs_def Let_def not_less)

lemma room_capacity:
  "m \<le> rc_capacity (if rc_capacity c < m then run_container_grow c m k else c)"
  by simp

lemma run_union_correct:
  assumes inv: "run_inv a" "run_inv b" and ne: "run_abs a \<noteq> {}" "run_abs b \<noteq> {}"
  shows "run_inv (run_container_union a b dst)" and "run_abs (run_container_union a b dst) = run_abs a \<union> run_abs b"
    and "run_inv (run_container_union_inplace a b)" and "run_abs (run_container_union_inplace a b) = run_abs a \<union> run_abs b"
proof -
  have nr: "rc_runs a \<noteq> []" "rc_runs b \<noteq> []" using inv ne by (simp_all add: run_empty_iff)
  have merge: "run_inv (run_union_merge (rc_runs a) (rc_runs b) c) \<and>
      run_abs (run_union_merge (rc_runs a) (rc_runs b) c) = run_abs a \<union> run_abs b"
    if "rc_runs c = []" "rc_n_runs c = 0" "rc_n_runs a + rc_n_runs b \<le> rc_capacity c" for c
    using run_union_merge_correct [OF _ _ nr that(1,2)] that(3) inv by (auto simp: run_simps run_abs_def)
  have fa: "run_inv (run_container_union a b dst) \<and> run_abs (run_container_union a b dst) = run_abs a \<union> run_abs b"
  proof (cases "run_container_is_full a \<or> run_container_is_full b")
    case True
    then show ?thesis using inv run_copy_correct [of a dst] run_copy_correct [of b dst]
      by (auto simp: run_container_union_def run_full_iff)
  next
    case False
    then show ?thesis unfolding run_container_union_def Let_def
      using merge [of "(if rc_capacity dst < rc_n_runs a + rc_n_runs b then
        run_container_grow dst (rc_n_runs a + rc_n_runs b) False else dst)\<lparr>rc_n_runs := 0, rc_runs := []\<rparr>"] by simp
  qed
  then show "run_inv (run_container_union a b dst)" "run_abs (run_container_union a b dst) = run_abs a \<union> run_abs b" by auto
  have fi: "run_inv (run_container_union_inplace a b) \<and> run_abs (run_container_union_inplace a b) = run_abs a \<union> run_abs b"
  proof (cases "run_container_is_full a \<or> run_container_is_full b")
    case True
    then show ?thesis using inv run_copy_correct [of b a]
      by (auto simp: run_container_union_inplace_def run_full_iff)
  next
    case False
    define m where "m = rc_n_runs a + rc_n_runs b + rc_n_runs a"
    define d where "d = (if rc_capacity a < m then run_container_grow a m True else a)"
    have "0 \<le> rc_n_runs a" using inv by (simp add: run_simps)
    then have "rc_n_runs a + rc_n_runs b \<le> rc_capacity d" using room_capacity [of m a True] by (simp add: d_def m_def)
    moreover have "rc_runs d = rc_runs a" by (simp add: d_def)
    moreover have "run_container_union_inplace a b = run_union_merge (rc_runs d) (rc_runs b) (d\<lparr>rc_n_runs := 0, rc_runs := []\<rparr>)"
      using False by (simp add: run_container_union_inplace_def Let_def d_def m_def)
    ultimately show ?thesis using merge [of "d\<lparr>rc_n_runs := 0, rc_runs := []\<rparr>"] by simp
  qed
  then show "run_inv (run_container_union_inplace a b)" "run_abs (run_container_union_inplace a b) = run_abs a \<union> run_abs b" by auto
qed


section \<open>Symmetric difference\<close>

text \<open>
  What holds between the output so far and the runs that are left: none of them starts before the
  last run of the output, and only one of the two inputs can still meet it.
\<close>

definition apart :: "rle16 list \<Rightarrow> rle16 list \<Rightarrow> rle16 list \<Rightarrow> bool" where
  "apart D rs xs \<longleftrightarrow> D \<noteq> [] \<longrightarrow> (\<forall>q \<in> set rs \<union> set xs. rstart (last D) \<le> rstart q) \<and>
     ((\<forall>r \<in> set rs. rend (last D) + 1 < rstart r) \<or> (\<forall>x \<in> set xs. rend (last D) + 1 < rstart x))"

definition room_for :: "run_container \<Rightarrow> nat \<Rightarrow> bool" where
  "room_for c k \<longleftrightarrow> runs_ok (rc_runs c) \<and> rc_n_runs c = int (length (rc_runs c)) \<and> rc_n_runs c + int k \<le> rc_capacity c"

lemma apart_commute: "apart D rs xs \<Longrightarrow> apart D xs rs"
  by (auto simp: apart_def)

lemma smart_appendI:
  assumes "rc_runs c' = D'" and "runs_ok D'" and "rc_n_runs c' = int (length D')" and "length D' + k \<le> m"
    and "int m \<le> rc_capacity c'" and "\<And>n. covers D' n \<longleftrightarrow> covers D n \<noteq> in_run r n" and "apart D' rs xs"
  shows "room_for c' k \<and> apart (rc_runs c') rs xs \<and> (\<forall>n. covers (rc_runs c') n \<longleftrightarrow> covers D n \<noteq> in_run r n)"
  using assms by (auto simp: room_for_def)

lemma smart_append_step:
  assumes c: "room_for c (Suc k)" and ok: "runs_ok (r # rs)" and le: "\<forall>x \<in> set xs. rstart r \<le> rstart x"
    and ap: "apart (rc_runs c) (r # rs) xs"
  defines "c' \<equiv> run_container_smart_append_exclusive c (rl_value r) (rl_length r)"
  shows "room_for c' k \<and> apart (rc_runs c') rs xs \<and>
     (\<forall>n. covers (rc_runs c') n \<longleftrightarrow> covers (rc_runs c) n \<noteq> in_run r n)"
proof -
  have r: "rend r < 65536" "rstart r \<le> rend r" and rs: "\<forall>s \<in> set rs. rend r + 1 < rstart s"
    using ok rstart_le_rend [of r] by (auto simp: runs_ok_Cons)
  have rs2: "\<forall>s \<in> set rs. rstart r \<le> rstart s" using runs_ok_starts [OF ok] by blast
  have eta: "\<lparr>rl_value = rl_value r, rl_length = rl_length r\<rparr> = r" by simp
  have n: "rc_n_runs c = int (length (rc_runs c))" and cap: "int (length (rc_runs c) + Suc k) \<le> rc_capacity c"
    and cok: "runs_ok (rc_runs c)" using c by (auto simp: room_for_def)
  have new_end: "unat (rl_value r) + unat (rl_length r) + 1 = rend r + 1" by (simp add: rend_def)
  note def = c'_def [unfolded run_container_smart_append_exclusive_def Let_def new_end eta, folded rstart_def]
  show ?thesis
  proof (cases "rc_runs c" rule: rev_cases)
    case Nil
    then have "c' = push_run c r" using n by (simp add: def)
    then show ?thesis
      by (intro smart_appendI [where D' = "[r]" and m = "Suc k"])
        (use Nil n cap r rs rs2 le in \<open>auto simp: runs_ok_Cons apart_def\<close>)
  next
    case (snoc D l)
    have i: "nat (rc_n_runs c - 1) = length D" "rc_runs c ! length D = l" using n snoc by simp_all
    have ne: "rc_n_runs c \<noteq> 0" using n snoc by simp
    note def = def [unfolded i]
    have D: "runs_ok D" "rend l < 65536" "\<forall>d \<in> set D. rend d + 1 < rstart l" "rstart l \<le> rend l"
      using cok snoc rstart_le_rend [of l] by (auto simp: runs_ok_append runs_ok_Cons)
    have ls: "rstart l \<le> rstart r" using ap snoc by (simp add: apart_def)
    have far: "\<forall>d \<in> set D. rend d + 1 < rstart r" using D(3) ls by fastforce
    have xs: "\<forall>x \<in> set xs. rend l + 1 < rstart x" if "rstart r \<le> rend l" using ap snoc that by (auto simp: apart_def)
    have m: "int (length D + 1 + Suc k) \<le> rc_capacity c" using cap snoc by simp
    have same: "rl_value r = rl_value l \<longleftrightarrow> rstart r = rstart l" by (simp add: rstart_def word_unat_eq_iff)
    have out: "\<forall>n. rstart l \<le> n \<longrightarrow> \<not> covers D n"
      using D(3) by (auto simp: covers_def in_run_def)
    note facts = snoc n m r rs rs2 le D far out
    show ?thesis
    proof (cases "rstart r > rend l + 1")
      case True
      then have "c' = push_run c r" by (simp add: def)
      then show ?thesis
        by (intro smart_appendI [where D' = "D @ [l, r]" and m = "length D + 1 + Suc k"])
          (use facts True ls in \<open>auto simp: runs_ok_append runs_ok_Cons apart_def in_run_def\<close>)
    next
      case near: False
      show ?thesis
      proof (cases "rstart r = rend l + 1")
        case True
        define q where "q = l\<lparr>rl_length := rl_length l + (rl_length r + 1)\<rparr>"
        have "unat (rl_length l + (rl_length r + 1)) = rend r - rstart l"
          using True r(1) by (simp add: unat_word_ariths rend_def rstart_def)
        moreover have up: "rstart l \<le> rend r" using True r(2) D(4) by linarith
        ultimately have q: "rstart q = rstart l" "rend q = rend r" by (simp_all add: q_def)
        have "c' = set_run c (length D) q" using True ne by (simp add: def q_def)
        then show ?thesis
          by (intro smart_appendI [where D' = "D @ [q]" and m = "length D + 1 + Suc k"])
            (use facts True q up ls in \<open>auto simp: runs_ok_append runs_ok_Cons apart_def in_run_def\<close>)
      next
        case False
        then have meet: "rstart r \<le> rend l" using near by simp
        note facts = facts xs [OF meet] meet ls
        show ?thesis
        proof (cases "rstart r = rstart l")
          case st: True
          consider (less) "rend r < rend l" | (more) "rend r > rend l" | (eq) "rend r = rend l" by linarith
          then show ?thesis
          proof cases
            case less
            define q where "q = MAKE_RLE16 (rend r + 1) (rend l + 1 - (rend r + 1) - 1)"
            have q: "rstart q = rend r + 1" "rend q = rend l" using less D(2) by (simp_all add: q_def)
            have "c' = set_run c (length D) q" using less st near False ne by (simp add: def q_def same)
            then show ?thesis
              by (intro smart_appendI [where D' = "D @ [q]" and m = "length D + 1 + Suc k"])
                (use facts less q st in \<open>auto simp: runs_ok_append runs_ok_Cons apart_def in_run_def\<close>)
          next
            case more
            define q where "q = MAKE_RLE16 (rend l + 1) (rend r + 1 - (rend l + 1) - 1)"
            have q: "rstart q = rend l + 1" "rend q = rend r" using more r by (simp_all add: q_def)
            have "c' = set_run c (length D) q" using more st near False ne by (simp add: def q_def same)
            then show ?thesis
              by (intro smart_appendI [where D' = "D @ [q]" and m = "length D + 1 + Suc k"])
                (use facts more q st in \<open>auto simp: runs_ok_append runs_ok_Cons apart_def in_run_def\<close>)
          next
            case eq
            have "c' = c\<lparr>rc_n_runs := rc_n_runs c - 1, rc_runs := D\<rparr>" using eq st near False ne snoc by (simp add: def same)
            have "apart D rs xs"
            proof (cases "D = []")
              case False
              then have "rend (last D) + 1 < rstart l" using D(3) by simp
              then show ?thesis using rs2 le st rstart_le_rend [of "last D"] unfolding apart_def by fastforce
            qed (simp add: apart_def)
            with \<open>c' = _\<close> show ?thesis
              by (intro smart_appendI [where D' = D and m = "length D + 1 + Suc k"])
                (use facts eq st in \<open>auto simp: runs_ok_append runs_ok_Cons apart_def in_run_def\<close>)
          qed
        next
          case st: False
          then have lt: "rstart l < rstart r" using ls by simp
          define p where "p = l\<lparr>rl_length := rl_value r - rl_value l - 1\<rparr>"
          have "unat (rl_value r - rl_value l - 1) = rstart r - rstart l - 1"
            using lt by (simp add: rstart_def unat_sub_if_size word_size)
          then have p: "rstart p = rstart l" "rend p = rstart r - 1" using lt by (simp_all add: p_def)
          have runs: "rc_runs (set_run c (length D) p) = D @ [p]" using snoc by simp
          consider (less) "rend r < rend l" | (more) "rend r > rend l" | (eq) "rend r = rend l" by linarith
          then show ?thesis
          proof cases
            case less
            define q where "q = MAKE_RLE16 (rend r + 1) (rend l + 1 - (rend r + 1) - 1)"
            have q: "rstart q = rend r + 1" "rend q = rend l" using less D(2) by (simp_all add: q_def)
            have "c' = push_run (set_run c (length D) p) q" using less st near False ne by (simp add: def q_def p_def same)
            then show ?thesis
              by (intro smart_appendI [where D' = "D @ [p, q]" and m = "length D + 1 + Suc k"])
                (use facts less p q lt runs in \<open>auto simp: runs_ok_append runs_ok_Cons apart_def in_run_def\<close>)
          next
            case more
            define q where "q = MAKE_RLE16 (rend l + 1) (rend r + 1 - (rend l + 1) - 1)"
            have q: "rstart q = rend l + 1" "rend q = rend r" using more r by (simp_all add: q_def)
            have "c' = push_run (set_run c (length D) p) q" using more st near False ne by (simp add: def q_def p_def same)
            then show ?thesis
              by (intro smart_appendI [where D' = "D @ [p, q]" and m = "length D + 1 + Suc k"])
                (use facts more p q lt runs in \<open>auto simp: runs_ok_append runs_ok_Cons apart_def in_run_def\<close>)
          next
            case eq
            have "c' = set_run c (length D) p" using eq st near False ne by (simp add: def p_def same)
            then show ?thesis
              by (intro smart_appendI [where D' = "D @ [p]" and m = "length D + 1 + Suc k"])
                (use facts eq p lt runs in \<open>auto simp: runs_ok_append runs_ok_Cons apart_def in_run_def\<close>)
          qed
        qed
      qed
    qed
  qed
qed


lemma run_xor_loop_correct:
  "room_for c (length rs + length xs) \<Longrightarrow> runs_ok rs \<Longrightarrow> runs_ok xs \<Longrightarrow> apart (rc_runs c) rs xs \<Longrightarrow>
     run_inv (run_xor_loop rs xs c) \<and>
     (\<forall>n. covers (rc_runs (run_xor_loop rs xs c)) n \<longleftrightarrow> covers (rc_runs c) n \<noteq> (covers rs n \<noteq> covers xs n))"
proof (induction rs xs c rule: run_xor_loop.induct)
  case (1 r rs x xs c)
  have dj: "in_run r n \<Longrightarrow> \<not> covers rs n" "in_run x n \<Longrightarrow> \<not> covers xs n" for n
    using covers_tail [OF "1.prems"(2)] covers_tail [OF "1.prems"(3)] by (fastforce simp: in_run_def)+
  show ?case
  proof (cases "rl_value r \<le> rl_value x")
    case True
    have "rstart r \<le> rstart x" using True by (simp add: rstart_def word_le_nat_alt)
    then have "\<forall>q \<in> set (x # xs). rstart r \<le> rstart q"
      using runs_ok_starts [OF "1.prems"(3)] by (auto intro: order_trans)
    from smart_append_step [OF _ "1.prems"(2) this "1.prems"(4), of "length rs + length (x # xs)"] "1.IH"(1) [OF True]
    show ?thesis using "1.prems" True dj by (auto simp: runs_ok_Cons)
  next
    case False
    have "rstart x \<le> rstart r" using False by (simp add: rstart_def word_le_nat_alt)
    then have "\<forall>q \<in> set (r # rs). rstart x \<le> rstart q"
      using runs_ok_starts [OF "1.prems"(2)] by (auto intro: order_trans)
    from smart_append_step [OF _ "1.prems"(3) this apart_commute [OF "1.prems"(4)], of "length (r # rs) + length xs"] "1.IH"(2) [OF False]
    show ?thesis using "1.prems" False dj by (auto simp: runs_ok_Cons intro: apart_commute)
  qed
next
  case (2 r rs c)
  have "in_run r n \<Longrightarrow> \<not> covers rs n" for n using covers_tail [OF "2.prems"(2)] by (fastforce simp: in_run_def)
  then show ?case using smart_append_step [OF _ "2.prems"(2) _ "2.prems"(4), of "length rs"] "2.IH" "2.prems"
    by (auto simp: runs_ok_Cons)
next
  case (3 x xs c)
  have "in_run x n \<Longrightarrow> \<not> covers xs n" for n using covers_tail [OF "3.prems"(3)] by (fastforce simp: in_run_def)
  then show ?case using smart_append_step [OF _ "3.prems"(3) _ apart_commute [OF "3.prems"(4)], of "length xs"] "3.IH" "3.prems"
    by (auto simp: runs_ok_Cons intro: apart_commute)
next
  case (4 c)
  then show ?case by (auto simp: room_for_def run_inv_def)
qed

lemma run_xor_correct:
  assumes inv: "run_inv a" "run_inv b"
  shows "run_inv (run_container_xor a b dst)" and "run_abs (run_container_xor a b dst) = sym_diff (run_abs a) (run_abs b)"
proof -
  define m where "m = rc_n_runs a + rc_n_runs b"
  define d where "d = (if rc_capacity dst < m then run_container_grow dst m False else dst)\<lparr>rc_n_runs := 0, rc_runs := []\<rparr>"
  have "room_for d (length (rc_runs a) + length (rc_runs b))"
    using inv room_capacity [of m dst False] by (simp add: room_for_def d_def m_def run_simps)
  moreover have "apart (rc_runs d) (rc_runs a) (rc_runs b)" and "rc_runs d = []" by (simp_all add: apart_def d_def)
  moreover have "run_container_xor a b dst = run_xor_loop (rc_runs a) (rc_runs b) d"
    by (simp add: run_container_xor_def Let_def d_def m_def)
  ultimately have "run_inv (run_container_xor a b dst) \<and> (\<forall>n. covers (rc_runs (run_container_xor a b dst)) n
      \<longleftrightarrow> (covers (rc_runs a) n \<noteq> covers (rc_runs b) n))"
    using run_xor_loop_correct [of d "rc_runs a" "rc_runs b"] inv by (simp add: run_simps)
  then show "run_inv (run_container_xor a b dst)" "run_abs (run_container_xor a b dst) = sym_diff (run_abs a) (run_abs b)"
    by (auto simp: run_abs_def)
qed

section \<open>Intersection\<close>

lemma covers_start: "r \<in> set rs \<Longrightarrow> covers rs (rstart r)"
  unfolding covers_def by (blast intro: in_run_ends)

lemma lateststart_max: "lateststart r x = max (rstart r) (rstart x)"
  by (simp add: lateststart_def max_def)

lemma covers_from: "runs_ok (x # xs) \<Longrightarrow> covers (x # xs) n \<Longrightarrow> rstart x \<le> n"
  using covers_tail [of x xs n] rstart_le_rend [of x] by (auto simp: in_run_def)

lemma run_before: "rend r + 1 \<le> rstart x \<Longrightarrow> runs_ok (x # xs) \<Longrightarrow> in_run r n \<Longrightarrow> \<not> covers (x # xs) n"
  using covers_from [of x xs n] by (auto simp: in_run_def simp del: covers_simps)

text \<open>A run found in the rest of both inputs starts behind the end of the run just written.\<close>

lemma overlap_step:
  assumes tail: "runs_ok ss" "\<And>n. covers ss n \<Longrightarrow> e + 1 < n"
    and "s < 65536" and "e < 65536" and "s \<le> e"
  shows "runs_ok (MAKE_RLE16 s (e + 1 - s - 1) # ss)" and "in_run (MAKE_RLE16 s (e + 1 - s - 1)) n \<longleftrightarrow> s \<le> n \<and> n \<le> e"
proof -
  have q: "rstart (MAKE_RLE16 s (e + 1 - s - 1)) = s" "rend (MAKE_RLE16 s (e + 1 - s - 1)) = e"
    using assms by simp_all
  show "runs_ok (MAKE_RLE16 s (e + 1 - s - 1) # ss)" using assms covers_start unfolding runs_ok_Cons q by blast
  show "in_run (MAKE_RLE16 s (e + 1 - s - 1)) n \<longleftrightarrow> s \<le> n \<and> n \<le> e" unfolding in_run_def q ..
qed

lemma run_intersection_loop_correct:
  "runs_ok rs \<Longrightarrow> runs_ok xs \<Longrightarrow> runs_ok (run_intersection_loop rs xs) \<and>
     (\<forall>n. covers (run_intersection_loop rs xs) n \<longleftrightarrow> covers rs n \<and> covers xs n) \<and>
     length (run_intersection_loop rs xs) \<le> length rs + length xs"
proof (induction rs xs rule: run_intersection_loop.induct)
  case (1 r rs x xs)
  have t: "covers rs n \<Longrightarrow> rend r + 1 < n" "covers xs n \<Longrightarrow> rend x + 1 < n" for n
    using covers_tail [OF "1.prems"(1)] covers_tail [OF "1.prems"(2)] by blast+
  have ok: "runs_ok rs" "runs_ok xs" "rend r < 65536" "rend x < 65536" using "1.prems" by (auto simp: runs_ok_Cons)
  have lr: "rstart r \<le> rend r" "rstart x \<le> rend x" by (simp_all add: rstart_le_rend)
  have ls: "lateststart r x < 65536" by (simp add: lateststart_max)
  consider (left) "rend r + 1 \<le> rstart x" | (right) "\<not> rend r + 1 \<le> rstart x" "rend x + 1 \<le> rstart r"
    | (eq) "\<not> rend r + 1 \<le> rstart x" "\<not> rend x + 1 \<le> rstart r" "rend r = rend x"
    | (less) "\<not> rend r + 1 \<le> rstart x" "\<not> rend x + 1 \<le> rstart r" "rend r < rend x"
    | (more) "\<not> rend r + 1 \<le> rstart x" "\<not> rend x + 1 \<le> rstart r" "rend x < rend r" by linarith
  then show ?case
  proof cases
    case left
    have "covers (r # rs) n \<and> covers (x # xs) n \<longleftrightarrow> covers rs n \<and> covers (x # xs) n" for n
      using run_before [OF left "1.prems"(2), of n] unfolding covers_simps(2) [of r] by blast
    moreover have "run_intersection_loop (r # rs) (x # xs) = run_intersection_loop rs (x # xs)" using left by simp
    ultimately show ?thesis using "1.IH"(1) [OF left ok(1) "1.prems"(2)] by (simp only: list.size) simp
  next
    case right
    have "covers (r # rs) n \<and> covers (x # xs) n \<longleftrightarrow> covers (r # rs) n \<and> covers xs n" for n
      using run_before [OF right(2) "1.prems"(1), of n] unfolding covers_simps(2) [of x] by blast
    moreover have "run_intersection_loop (r # rs) (x # xs) = run_intersection_loop (r # rs) xs" using right by simp
    ultimately show ?thesis using "1.IH"(2) [OF right "1.prems"(1) ok(2)] by (simp only: list.size) simp
  next
    case eq
    note IH = "1.IH"(3) [OF eq(1,2) _ ok(1,2)]
    show ?thesis
      using overlap_step [of "run_intersection_loop rs xs" "rend r" "lateststart r x"] IH eq ok t ls lr
      by (auto simp: in_run_def lateststart_max dest: t)
  next
    case less
    note IH = "1.IH"(4) [OF less(1,2) _ _ ok(1) "1.prems"(2)]
    show ?thesis
      using overlap_step [of "run_intersection_loop rs (x # xs)" "rend r" "lateststart r x"] IH less ok t ls lr
      by (auto simp: in_run_def lateststart_max dest: t)
  next
    case more
    note IH = "1.IH"(5) [OF more(1,2) _ _ "1.prems"(1) ok(2)]
    show ?thesis
      using overlap_step [of "run_intersection_loop (r # rs) xs" "rend x" "lateststart r x"] IH more ok t ls lr
      by (auto simp: in_run_def lateststart_max dest: t)
  qed
qed auto

lemma run_intersection_correct:
  assumes inv: "run_inv a" "run_inv b"
  shows "run_inv (run_container_intersection a b dst)"
    and "run_abs (run_container_intersection a b dst) = run_abs a \<inter> run_abs b"
proof -
  define m where "m = rc_n_runs a + rc_n_runs b"
  have "m \<le> rc_capacity (if rc_capacity dst < m then run_container_grow dst m False else dst)" by (rule room_capacity)
  moreover have "int (length (run_intersection_loop (rc_runs a) (rc_runs b))) \<le> m"
    using run_intersection_loop_correct [of "rc_runs a" "rc_runs b"] inv by (simp add: m_def run_simps)
  ultimately have c: "int (length (run_intersection_loop (rc_runs a) (rc_runs b))) \<le>
      rc_capacity (if rc_capacity dst < m then run_container_grow dst m False else dst)" by linarith
  have "run_inv (run_container_intersection a b dst) \<and>
      run_abs (run_container_intersection a b dst) = run_abs a \<inter> run_abs b"
  proof (cases "run_container_is_full a \<or> run_container_is_full b")
    case True
    then show ?thesis using inv run_copy_correct [of a dst] run_copy_correct [of b dst]
      by (auto simp: run_container_intersection_def run_full_iff)
  next
    case False
    then show ?thesis
      using c run_intersection_loop_correct [of "rc_runs a" "rc_runs b"] inv
      by (auto simp: run_container_intersection_def Let_def run_inv_def run_abs_def m_def)
  qed
  then show "run_inv (run_container_intersection a b dst)"
    and "run_abs (run_container_intersection a b dst) = run_abs a \<inter> run_abs b" by blast+
qed

lemma run_size_make: "s < 65536 \<Longrightarrow> e < 65536 \<Longrightarrow> s \<le> e \<Longrightarrow> run_size (MAKE_RLE16 s (e + 1 - s - 1)) = e + 1 - s"
  by (simp add: run_size_def MAKE_RLE16_def del: of_nat_diff)

lemma run_icard_loop_correct:
  "runs_ok rs \<Longrightarrow> runs_ok xs \<Longrightarrow> run_icard_loop rs xs acc = acc + sum_list (map run_size (run_intersection_loop rs xs))"
proof (induction rs xs acc rule: run_icard_loop.induct)
  case (1 r rs x xs acc)
  have ok: "runs_ok rs" "runs_ok xs" "rend r < 65536" "rend x < 65536" using "1.prems" by (auto simp: runs_ok_Cons)
  have ls: "lateststart r x < 65536" by (simp add: lateststart_max)
  have le: "lateststart r x \<le> rend r" "lateststart r x \<le> rend x" if "\<not> rend r + 1 \<le> rstart x" "\<not> rend x + 1 \<le> rstart r"
    using that rstart_le_rend [of r] rstart_le_rend [of x] by (auto simp: lateststart_max)
  show ?case using "1.IH" "1.prems" ok run_size_make [OF ls ok(3) le(1)] run_size_make [OF ls ok(4) le(2)] by auto
qed auto

lemma run_intersection_cardinality_correct:
  assumes inv: "run_inv a" "run_inv b"
  shows "run_container_intersection_cardinality a b = int (card (run_abs a \<inter> run_abs b))"
proof (cases "run_container_is_full a \<or> run_container_is_full b")
  case True
  then show ?thesis using inv
    by (auto simp: run_container_intersection_cardinality_def run_full_iff run_cardinality_correct)
next
  case False
  define c where "c = \<lparr>rc_n_runs = int (length (run_intersection_loop (rc_runs a) (rc_runs b))),
    rc_capacity = int (length (run_intersection_loop (rc_runs a) (rc_runs b))),
    rc_runs = run_intersection_loop (rc_runs a) (rc_runs b)\<rparr>"
  have c: "run_inv c" "run_abs c = run_abs a \<inter> run_abs b"
    using run_intersection_loop_correct [of "rc_runs a" "rc_runs b"] inv by (auto simp: run_inv_def run_abs_def c_def)
  have "int (card (run_abs c)) = int (sum_list (map run_size (rc_runs c)))" using c(1) by (simp add: card_run_abs)
  then show ?thesis using False inv c(2)
    by (simp add: run_container_intersection_cardinality_def run_icard_loop_correct run_simps c_def)
qed

lemma run_intersect_loop_iff: "run_intersect_loop rs xs \<longleftrightarrow> run_intersection_loop rs xs \<noteq> []"
  by (induction rs xs rule: run_intersect_loop.induct) simp_all

lemma runs_empty_iff: "rs = [] \<longleftrightarrow> (\<forall>n. \<not> covers rs n)"
  by (cases rs) (auto intro: in_run_ends)

lemma unat_covers: "runs_ok rs \<Longrightarrow> (\<exists>n. covers rs n \<and> P n) \<longleftrightarrow> (\<exists>x :: u16. covers rs (unat x) \<and> P (unat x))"
proof
  assume "runs_ok rs" "\<exists>n. covers rs n \<and> P n"
  then obtain n where "n < 65536" "covers rs n" "P n" using covers_less by blast
  then show "\<exists>x :: u16. covers rs (unat x) \<and> P (unat x)" by (intro exI [of _ "word_of_nat n"]) simp
qed auto

lemma run_intersect_correct:
  assumes inv: "run_inv a" "run_inv b"
  shows "run_container_intersect a b \<longleftrightarrow> run_abs a \<inter> run_abs b \<noteq> {}"
proof (cases "run_container_is_full a \<or> run_container_is_full b")
  case True
  then show ?thesis using inv by (auto simp: run_container_intersect_def run_full_iff run_empty_correct)
next
  case False
  have "run_intersect_loop (rc_runs a) (rc_runs b) \<longleftrightarrow> (\<exists>n. covers (rc_runs a) n \<and> covers (rc_runs b) n)"
    using run_intersection_loop_correct [of "rc_runs a" "rc_runs b"] inv
      runs_empty_iff [of "run_intersection_loop (rc_runs a) (rc_runs b)"]
    by (simp add: run_intersect_loop_iff run_simps)
  also have "\<dots> \<longleftrightarrow> run_abs a \<inter> run_abs b \<noteq> {}" using unat_covers [of "rc_runs a"] inv by (auto simp: run_abs_def run_simps)
  finally show ?thesis using False by (simp add: run_container_intersect_def)
qed

section \<open>Inclusion and difference\<close>

lemma run_subset_loop_correct:
  "runs_ok rs \<Longrightarrow> runs_ok xs \<Longrightarrow> run_subset_loop rs xs \<longleftrightarrow> (\<forall>n. covers rs n \<longrightarrow> covers xs n)"
proof (induction rs xs rule: run_subset_loop.induct)
  case (1 r rs x xs)
  have t: "covers rs n \<Longrightarrow> rend r + 1 < n" "covers xs n \<Longrightarrow> rend x + 1 < n" for n
    using covers_tail [OF "1.prems"(1)] covers_tail [OF "1.prems"(2)] by blast+
  have ok: "runs_ok rs" "runs_ok xs" using "1.prems" by (auto simp: runs_ok_Cons)
  have lr: "rstart r \<le> rend r" "rstart x \<le> rend x" by (simp_all add: rstart_le_rend)
  consider (early) "rstart r < rstart x" | (inside) "\<not> rstart r < rstart x" "rend r < rend x"
    | (same) "\<not> rstart r < rstart x" "rend r = rend x" | (past) "\<not> rstart r < rstart x" "rend x < rend r" by linarith
  then show ?case
  proof cases
    case early
    then have "\<not> covers (x # xs) (rstart r)" using covers_from [OF "1.prems"(2), of "rstart r"] by linarith
    moreover have "covers (r # rs) (rstart r)" by (simp add: in_run_ends)
    ultimately have "\<not> (\<forall>n. covers (r # rs) n \<longrightarrow> covers (x # xs) n)" by blast
    then show ?thesis using early by (simp del: covers_simps)
  next
    case inside
    have "in_run r n \<Longrightarrow> in_run x n" for n using inside unfolding in_run_def by linarith
    then show ?thesis using inside "1.IH"(1) [OF inside ok(1) "1.prems"(2)] by auto
  next
    case same
    have "in_run r n \<Longrightarrow> in_run x n" for n using same unfolding in_run_def by linarith
    moreover have "covers rs n \<Longrightarrow> \<not> in_run x n" for n using t(1) [of n] same unfolding in_run_def by linarith
    ultimately show ?thesis using same "1.IH"(2) [OF same(1) _ same(2) ok] by auto
  next
    case past
    have "(\<forall>n. covers (r # rs) n \<longrightarrow> covers (x # xs) n) \<longleftrightarrow> (\<forall>n. covers (r # rs) n \<longrightarrow> covers xs n)"
    proof (cases "rstart r \<le> rend x")
      case True
      then have "in_run r (rend x + 1)" using past by (simp add: in_run_def)
      then have "covers (r # rs) (rend x + 1)" by simp
      moreover have "\<not> covers xs (rend x + 1)" "\<not> in_run x (rend x + 1)" using t(2) [of "rend x + 1"] by (auto simp: in_run_def)
      then have "\<not> covers xs (rend x + 1)" "\<not> covers (x # xs) (rend x + 1)" by simp_all
      ultimately show ?thesis by blast
    next
      case False
      then have "covers (r # rs) n \<Longrightarrow> \<not> in_run x n" for n
        using covers_from [OF "1.prems"(1), of n] unfolding in_run_def by linarith
      then show ?thesis by auto
    qed
    moreover have "run_subset_loop (r # rs) (x # xs) = run_subset_loop (r # rs) xs" using past by simp
    moreover have "run_subset_loop (r # rs) xs = (\<forall>n. covers (r # rs) n \<longrightarrow> covers xs n)"
      by (rule "1.IH"(3)) (use past "1.prems"(1) ok in simp_all)
    ultimately show ?thesis by (simp only:)
  qed
next
  case (3 r rs)
  have "covers (r # rs) (rstart r)" by (simp add: in_run_ends)
  then show ?case using covers_simps(1) by (metis run_subset_loop.simps(3))
qed simp_all

lemma run_is_subset_correct:
  assumes inv: "run_inv a" "run_inv b"
  shows "run_container_is_subset a b \<longleftrightarrow> run_abs a \<subseteq> run_abs b"
  using run_subset_loop_correct [of "rc_runs a" "rc_runs b"] inv
    unat_covers [of "rc_runs a" "\<lambda>n. \<not> covers (rc_runs b) n"]
  by (auto simp: run_container_is_subset_def run_abs_def run_simps)

lemma make_run_again: "MAKE_RLE16 (rstart r) (rend r + 1 - rstart r - 1) = r"
  by (simp add: MAKE_RLE16_def rstart_def rend_def)

text \<open>\<open>start\<close> and \<open>end\<close> (exclusive) of a part of a run, before the runs \<open>rs\<close>.\<close>

definition piece_ok :: "nat \<Rightarrow> nat \<Rightarrow> rle16 list \<Rightarrow> bool" where
  "piece_ok s e rs \<longleftrightarrow> s < e \<and> e \<le> 65536 \<and> runs_ok rs \<and> (\<forall>r \<in> set rs. e < rstart r)"

definition remains :: "nat \<Rightarrow> nat \<Rightarrow> rle16 list \<Rightarrow> rle16 list \<Rightarrow> rle16 list \<Rightarrow> bool" where
  "remains s e rs xs out \<longleftrightarrow> runs_ok out \<and> length out \<le> Suc (length rs) + length xs \<and>
     (\<forall>n. covers out n \<longleftrightarrow> (s \<le> n \<and> n < e \<or> covers rs n) \<and> \<not> covers xs n)"

lemma piece_run:
  assumes "s < e" and "e \<le> 65536"
  shows "rstart (MAKE_RLE16 s (e - s - 1)) = s" and "rend (MAKE_RLE16 s (e - s - 1)) = e - 1"
    and "in_run (MAKE_RLE16 s (e - s - 1)) n \<longleftrightarrow> s \<le> n \<and> n < e"
proof -
  show q: "rstart (MAKE_RLE16 s (e - s - 1)) = s" "rend (MAKE_RLE16 s (e - s - 1)) = e - 1" using assms by simp_all
  show "in_run (MAKE_RLE16 s (e - s - 1)) n \<longleftrightarrow> s \<le> n \<and> n < e" using assms unfolding in_run_def q by auto
qed

lemma piece_Cons: "piece_ok s e rs \<Longrightarrow> \<forall>r \<in> set ss. e < rstart r \<Longrightarrow> runs_ok ss \<Longrightarrow> runs_ok (MAKE_RLE16 s (e - s - 1) # ss)"
  using piece_run [of s e] unfolding piece_ok_def runs_ok_Cons by auto

lemma piece_next: "runs_ok (r # rs) \<Longrightarrow> piece_ok (rstart r) (rend r + 1) rs"
  using rstart_le_rend [of r] by (auto simp: piece_ok_def runs_ok_Cons less_Suc_eq_le)

lemma in_run_less: "in_run r n \<longleftrightarrow> rstart r \<le> n \<and> n < rend r + 1"
  by (auto simp: in_run_def)

lemma piece_rest:
  assumes "remains (rstart r) (rend r + 1) rs xs out"
  shows "runs_ok out" and "length out \<le> Suc (length rs) + length xs"
    and "covers out n \<longleftrightarrow> covers (r # rs) n \<and> \<not> covers xs n"
  using assms unfolding remains_def covers_simps(2) in_run_less by blast+

lemma starts_above: "(\<And>n. covers ss n \<Longrightarrow> e < n) \<Longrightarrow> r \<in> set ss \<Longrightarrow> e < rstart r"
  using covers_start by blast

lemma covers_above: "\<forall>r \<in> set rs. e < rstart r \<Longrightarrow> covers rs n \<Longrightarrow> e < n"
  unfolding covers_def in_run_def by fastforce

text \<open>The current piece is done: what is left is \<open>tail\<close>, from the runs behind it.\<close>

definition andnot_rest :: "rle16 list \<Rightarrow> rle16 list \<Rightarrow> rle16 list" where
  "andnot_rest rs xs = (case rs of [] \<Rightarrow> [] | r # rs' \<Rightarrow> run_andnot_loop (rstart r) (rend r + 1) rs' xs)"

lemma andnot_rest_correct:
  assumes ok: "runs_ok rs" and IH: "\<And>r rs'. rs = r # rs' \<Longrightarrow> piece_ok (rstart r) (rend r + 1) rs' \<Longrightarrow>
      remains (rstart r) (rend r + 1) rs' xs (run_andnot_loop (rstart r) (rend r + 1) rs' xs)"
  shows "runs_ok (andnot_rest rs xs)" and "length (andnot_rest rs xs) \<le> length rs + length xs"
    and "covers (andnot_rest rs xs) n \<longleftrightarrow> covers rs n \<and> \<not> covers xs n"
proof -
  have "runs_ok (andnot_rest rs xs) \<and> length (andnot_rest rs xs) \<le> length rs + length xs \<and>
      (\<forall>n. covers (andnot_rest rs xs) n \<longleftrightarrow> covers rs n \<and> \<not> covers xs n)"
  proof (cases rs)
    case (Cons r rs')
    have "piece_ok (rstart r) (rend r + 1) rs'" using piece_next ok Cons by blast
    from piece_rest [OF IH [OF Cons this]] show ?thesis
      by (simp add: andnot_rest_def Cons del: covers_simps(2))
  qed (simp add: andnot_rest_def)
  then show "runs_ok (andnot_rest rs xs)" "length (andnot_rest rs xs) \<le> length rs + length xs"
    "covers (andnot_rest rs xs) n \<longleftrightarrow> covers rs n \<and> \<not> covers xs n" by blast+
qed

text \<open>What is left of a piece before the run \<open>x\<close> that cuts it.\<close>

lemma piece_head:
  fixes s :: nat
  assumes x: "rend x < 65536" and R: "runs_ok R" "\<And>n. covers R n \<Longrightarrow> rend x + 1 \<le> n"
  defines "h \<equiv> (if s < rstart x then [MAKE_RLE16 s (rstart x - s - 1)] else [])"
  shows "runs_ok (h @ R)" and "length (h @ R) \<le> Suc (length R)"
    and "covers (h @ R) n \<longleftrightarrow> s \<le> n \<and> n < rstart x \<or> covers R n"
proof -
  have lx: "rstart x \<le> rend x" "rstart x \<le> 65536" using rstart_le_rend x by (auto intro: order_trans less_imp_le)
  have gap: "q \<in> set R \<Longrightarrow> rstart x < rstart q" for q using covers_start [of q R] R(2) [of "rstart q"] lx by simp
  note pr = piece_run [of s "rstart x"]
  show "length (h @ R) \<le> Suc (length R)" by (simp add: h_def)
  show "runs_ok (h @ R)"
  proof (cases "s < rstart x")
    case True
    then have "\<forall>q \<in> set R. rend (MAKE_RLE16 s (rstart x - s - 1)) + 1 < rstart q"
      unfolding pr(2) [OF True lx(2)] using gap by auto
    moreover have "rend (MAKE_RLE16 s (rstart x - s - 1)) < 65536" unfolding pr(2) [OF True lx(2)] using lx True by linarith
    ultimately show ?thesis using True R(1) by (simp add: h_def runs_ok_Cons del: make_run)
  qed (simp add: h_def R(1))
  show "covers (h @ R) n \<longleftrightarrow> s \<le> n \<and> n < rstart x \<or> covers R n"
    using pr(3) [of n] lx(2) by (auto simp: h_def)
qed

text \<open>
  The runs that are taken away need not leave a gap between them, so that the single values of an
  array container can take their place.
\<close>

definition runs_apart :: "rle16 list \<Rightarrow> bool" where
  "runs_apart rs \<longleftrightarrow> sorted_wrt (\<lambda>r s. rend r < rstart s) rs \<and> (\<forall>r \<in> set rs. rend r < 65536)"

lemma runs_ok_apart: "runs_ok rs \<Longrightarrow> runs_apart rs"
  unfolding runs_ok_def runs_apart_def by (auto elim: sorted_wrt_mono_rel [rotated])

lemma runs_apart_Cons: "runs_apart (r # rs) \<longleftrightarrow> rend r < 65536 \<and> (\<forall>s \<in> set rs. rend r < rstart s) \<and> runs_apart rs"
  by (auto simp: runs_apart_def)

lemma covers_after: "runs_apart (x # xs) \<Longrightarrow> covers xs n \<Longrightarrow> rend x < n"
  unfolding runs_apart_Cons covers_def in_run_def by fastforce

lemma run_andnot_loop_correct:
  "piece_ok s e rs \<Longrightarrow> runs_apart xs \<Longrightarrow> remains s e rs xs (run_andnot_loop s e rs xs)"
proof (induction "length rs + length xs" arbitrary: s e rs xs rule: less_induct)
  case less
  have p: "s < e" "e \<le> 65536" "runs_ok rs" "\<forall>r \<in> set rs. e < rstart r" using less.prems by (simp_all add: piece_ok_def)
  show ?case
  proof (cases xs)
    case Nil
    show ?thesis using piece_Cons [OF less.prems(1), of rs] p piece_run(3) [OF p(1,2)] Nil
      by (simp add: remains_def)
  next
    case (Cons x ys)
    have yok: "runs_apart ys" "rend x < 65536" using less.prems by (simp_all add: runs_apart_Cons Cons)
    have lx: "rstart x \<le> rend x" by (rule rstart_le_rend)
    have after: "covers ys n \<Longrightarrow> rend x < n" for n using covers_after less.prems(2) Cons by blast
    then have from_x: "covers (x # ys) n \<Longrightarrow> rstart x \<le> n" for n using lx by (fastforce simp: in_run_def)
    have far: "covers rs n \<Longrightarrow> e < n" for n by (rule covers_above [OF p(4)])
    have IH: "rs = r # rs' \<Longrightarrow> piece_ok (rstart r) (rend r + 1) rs' \<Longrightarrow>
        remains (rstart r) (rend r + 1) rs' xs (run_andnot_loop (rstart r) (rend r + 1) rs' xs)" for r rs'
      using less.hyps less.prems(2) by simp
    have rest: "runs_ok (andnot_rest rs xs)" "length (andnot_rest rs xs) \<le> length rs + length xs"
        "covers (andnot_rest rs xs) n \<longleftrightarrow> covers rs n \<and> \<not> covers xs n" for n
      by (rule andnot_rest_correct [OF p(3)], erule (1) IH)+
    have rest_far: "covers (andnot_rest rs xs) n \<Longrightarrow> e < n" for n using far rest(3) by blast
    consider (before) "e \<le> rstart x" | (skip) "\<not> e \<le> rstart x" "rend x + 1 \<le> s"
      | (split) "\<not> e \<le> rstart x" "\<not> rend x + 1 \<le> s" "rend x + 1 < e"
      | (over) "\<not> e \<le> rstart x" "\<not> rend x + 1 \<le> s" "\<not> rend x + 1 < e" by linarith
    then show ?thesis
    proof cases
      case before
      have q: "run_andnot_loop s e rs xs = MAKE_RLE16 s (e - s - 1) # andnot_rest rs xs"
        using before by (simp add: andnot_rest_def Cons)
      have ok: "runs_ok (MAKE_RLE16 s (e - s - 1) # andnot_rest rs xs)"
        by (intro piece_Cons [OF less.prems(1)] ballI rest(1)) (auto intro: rest_far starts_above)
      have "\<not> covers xs n" if "n < e" for n
      proof
        assume "covers xs n"
        then have "rstart x \<le> n" using from_x Cons by simp
        then show False using before that by linarith
      qed
      then have "covers (MAKE_RLE16 s (e - s - 1) # andnot_rest rs xs) n \<longleftrightarrow>
          (s \<le> n \<and> n < e \<or> covers rs n) \<and> \<not> covers xs n" for n
        unfolding covers_simps(2) [of "MAKE_RLE16 s (e - s - 1)"] piece_run(3) [OF p(1,2)] rest(3) by blast
      then show ?thesis unfolding q remains_def using ok rest(2) by auto
    next
      case skip
      have "remains s e rs ys (run_andnot_loop s e rs ys)" using less.hyps [of rs ys] less.prems(1) yok Cons by simp
      moreover have "\<not> in_run x n" if "s \<le> n \<or> covers rs n" for n
        using far [of n] skip p that unfolding in_run_def by linarith
      then have "(s \<le> n \<and> n < e \<or> covers rs n) \<and> \<not> covers (x # ys) n \<longleftrightarrow>
          (s \<le> n \<and> n < e \<or> covers rs n) \<and> \<not> covers ys n" for n unfolding covers_simps(2) by blast
      moreover have "run_andnot_loop s e rs xs = run_andnot_loop s e rs ys" using skip Cons by simp
      ultimately show ?thesis unfolding remains_def Cons by (simp del: covers_simps(2))
    next
      case split
      define R where "R = run_andnot_loop (rend x + 1) e rs ys"
      have "piece_ok (rend x + 1) e rs" using split p by (simp add: piece_ok_def)
      then have "remains (rend x + 1) e rs ys R" using less.hyps [of rs ys] yok Cons by (simp add: R_def)
      then have R: "runs_ok R" "length R \<le> Suc (length rs) + length ys"
        "covers R n \<longleftrightarrow> (rend x + 1 \<le> n \<and> n < e \<or> covers rs n) \<and> \<not> covers ys n" for n
        by (simp_all add: remains_def)
      have q: "run_andnot_loop s e rs xs = (if s < rstart x then [MAKE_RLE16 s (rstart x - s - 1)] else []) @ R"
        using split by (simp add: Cons R_def)
      have "rend x + 1 \<le> n" if "covers R n" for n using that R(3) [of n] far [of n] split by auto
      note h = piece_head [OF yok(2) R(1) this, of s]
      have "s \<le> n \<and> n < rstart x \<or> covers R n \<longleftrightarrow> (s \<le> n \<and> n < e \<or> covers rs n) \<and> \<not> covers (x # ys) n" for n
        using after [of n] far [of n] split lx R(3) [of n] by (auto simp: in_run_def Cons)
      then show ?thesis unfolding remains_def q unfolding Cons using h R(2) by (simp del: covers_simps(2,3))
    next
      case over
      define R where "R = andnot_rest rs xs"
      have q: "run_andnot_loop s e rs xs = (if s < rstart x then [MAKE_RLE16 s (rstart x - s - 1)] else []) @ R"
        using over by (simp add: Cons R_def andnot_rest_def)
      have "rend x + 1 \<le> n" if "covers R n" for n
      proof -
        have "covers rs n" "\<not> covers xs n" using that rest(3) by (simp_all add: R_def)
        then show ?thesis using far [of n] over by (auto simp: in_run_def Cons)
      qed
      note h = piece_head [OF yok(2) rest(1) [folded R_def] this, of s]
      have "s \<le> n \<and> n < rstart x \<or> covers R n \<longleftrightarrow> (s \<le> n \<and> n < e \<or> covers rs n) \<and> \<not> covers xs n" for n
        using after [of n] far [of n] over lx rest(3) [of n, folded R_def]
        by (auto simp: in_run_def Cons)
      then show ?thesis unfolding remains_def q using h rest(2) [folded R_def] by (simp del: covers_simps(2,3))
    qed
  qed
qed

lemma run_andnot_correct:
  assumes inv: "run_inv a" "run_inv b"
  shows "run_inv (run_container_andnot a b dst)" and "run_abs (run_container_andnot a b dst) = run_abs a - run_abs b"
proof -
  define m where "m = rc_n_runs a + rc_n_runs b"
  define d where "d = (if rc_capacity dst < m then run_container_grow dst m False else dst)"
  define out where "out = andnot_rest (rc_runs a) (rc_runs b)"
  have c: "run_container_andnot a b dst = d\<lparr>rc_n_runs := int (length out), rc_runs := out\<rparr>"
    by (simp add: run_container_andnot_def out_def d_def m_def Let_def andnot_rest_def)
  have o: "runs_ok out" "length out \<le> length (rc_runs a) + length (rc_runs b)"
      "covers out n \<longleftrightarrow> covers (rc_runs a) n \<and> \<not> covers (rc_runs b) n" for n
    unfolding out_def
    by (rule andnot_rest_correct, use inv in \<open>simp add: run_simps\<close>,
      erule run_andnot_loop_correct, use inv in \<open>simp add: run_simps runs_ok_apart\<close>)+
  have "m \<le> rc_capacity d" unfolding d_def by (rule room_capacity)
  moreover have "int (length out) \<le> m" using o(2) inv by (simp add: m_def run_simps)
  ultimately show "run_inv (run_container_andnot a b dst)" using o(1) by (simp add: c run_inv_def)
  show "run_abs (run_container_andnot a b dst) = run_abs a - run_abs b"
    using o(3) by (auto simp: c run_abs_def)
qed

end
