(* ===== verification/Bitset_Util.thy ===== *)
theory Bitset_Util
  imports Prelude
begin

unbundle bit_operations_syntax

text \<open>
  Bitsets as arrays of 64-bit words: the range and list operations of
  \<open>include/roaring/bitset_util.h\<close> and \<open>src/bitset_util.c\<close> in their portable form, and
  the bit counting primitives of \<open>include/roaring/portability.h\<close>. Bit \<open>n\<close> of the array is
  bit \<open>n mod 64\<close> of word \<open>n div 64\<close> (\<open>wbit\<close>); \<open>bits_of\<close> is the set of positions that
  are set. Every operation is specified by \<open>wbit\<close> of its result.
\<close>

section \<open>Words\<close>

definition roaring_hamming :: "u64 \<Rightarrow> nat" where
  "roaring_hamming x = length (filter (bit x) [0 ..< 64])"

definition roaring_trailing_zeroes :: "u64 \<Rightarrow> nat" where
  "roaring_trailing_zeroes x = length (takeWhile (\<lambda>n. \<not> bit x n) [0 ..< 64])"

definition roaring_leading_zeroes :: "u64 \<Rightarrow> nat" where
  "roaring_leading_zeroes x = length (takeWhile (\<lambda>n. \<not> bit x n) (rev [0 ..< 64]))"

lemma bit_u64_bound: "bit (x :: u64) n \<Longrightarrow> n < 64"
  using bit_imp_le_length [of x n] by simp

lemma roaring_hamming_card: "roaring_hamming x = card {n. bit x n}"
proof -
  have "{n. bit x n} = set (filter (bit x) [0 ..< 64])" by (auto dest: bit_u64_bound)
  then have "card {n. bit x n} = card (set (filter (bit x) [0 ..< 64]))" by simp
  also have "\<dots> = length (filter (bit x) [0 ..< 64])" by (rule distinct_card) simp
  finally show ?thesis by (simp only: roaring_hamming_def)
qed

lemma roaring_hamming_le: "roaring_hamming x \<le> 64"
  unfolding roaring_hamming_def by (rule le_trans [OF length_filter_le]) simp

lemma word_nonzero_bit: "(w :: u64) \<noteq> 0 \<longleftrightarrow> (\<exists>n < 64. bit w n)"
  using bit_u64_bound [of w] by (auto simp: bit_eq_iff)

lemma trailing_zeroes_bits:
  assumes "w \<noteq> 0"
  shows "roaring_trailing_zeroes w < 64" and "bit w (roaring_trailing_zeroes w)"
    and "n < roaring_trailing_zeroes w \<Longrightarrow> \<not> bit w n"
proof -
  let ?k = "roaring_trailing_zeroes w" and ?P = "\<lambda>n. \<not> bit w n"
  obtain m where m: "m < 64" "bit w m" using assms by (auto simp: word_nonzero_bit)
  have "\<not> (\<forall>n \<in> set [0 ..< 64]. ?P n)" using m by auto
  then have "length (takeWhile ?P [0 ..< 64]) \<noteq> length [0 ..< (64 :: nat)]"
    by (metis takeWhile_eq_all_conv takeWhile_eq_take take_all_iff order_refl)
  then show k: "?k < 64"
    using length_takeWhile_le [of ?P "[0 ..< 64]"] by (simp add: roaring_trailing_zeroes_def)
  then show "bit w ?k"
    using nth_length_takeWhile [of ?P "[0 ..< 64]"] by (simp add: roaring_trailing_zeroes_def)
  show "\<not> bit w n" if "n < ?k"
  proof -
    have "takeWhile ?P [0 ..< 64] ! n = n"
      using that k by (simp add: roaring_trailing_zeroes_def takeWhile_nth)
    then have "n \<in> set (takeWhile ?P [0 ..< 64])"
      using that unfolding roaring_trailing_zeroes_def by (metis nth_mem)
    then show ?thesis by (rule set_takeWhileD [THEN conjunct2])
  qed
qed

lemma leading_zeroes_bits:
  assumes "w \<noteq> 0"
  shows "roaring_leading_zeroes w < 64" and "bit w (63 - roaring_leading_zeroes w)"
    and "63 - roaring_leading_zeroes w < n \<Longrightarrow> \<not> bit w n"
proof -
  let ?k = "roaring_leading_zeroes w" and ?P = "\<lambda>n. \<not> bit w n"
  have rev: "rev [0 ..< 64] ! i = 63 - i" if "i < 64" for i
    using that by (simp add: rev_nth)
  obtain m where m: "m < 64" "bit w m" using assms by (auto simp: word_nonzero_bit)
  have "\<not> (\<forall>n \<in> set (rev [0 ..< 64]). ?P n)" using m by auto
  then have "length (takeWhile ?P (rev [0 ..< 64])) \<noteq> length (rev [0 ..< (64 :: nat)])"
    by (metis takeWhile_eq_all_conv takeWhile_eq_take take_all_iff order_refl)
  then show k: "?k < 64"
    using length_takeWhile_le [of ?P "rev [0 ..< 64]"] by (simp add: roaring_leading_zeroes_def)
  then show "bit w (63 - ?k)"
    using nth_length_takeWhile [of ?P "rev [0 ..< 64]"] rev [of ?k] by (simp add: roaring_leading_zeroes_def)
  show "\<not> bit w n" if n: "63 - ?k < n"
  proof
    assume b: "bit w n"
    then have "n < 64" by (rule bit_u64_bound)
    then have i: "63 - n < ?k" using n k by linarith
    then have "takeWhile ?P (rev [0 ..< 64]) ! (63 - n) = n"
      using rev [of "63 - n"] \<open>n < 64\<close> unfolding roaring_leading_zeroes_def by (simp add: takeWhile_nth)
    then have "n \<in> set (takeWhile ?P (rev [0 ..< 64]))"
      using i unfolding roaring_leading_zeroes_def by (metis nth_mem)
    then show False using b by (auto dest: set_takeWhileD)
  qed
qed

text \<open>The two idioms for the lowest set bit: \<open>w & (w - 1)\<close> clears it, \<open>w & (~w + 1)\<close> isolates it.\<close>

lemma bit_pred:
  assumes "w \<noteq> 0"
  shows "bit (w - 1) n \<longleftrightarrow> n < roaring_trailing_zeroes w \<or> (bit w n \<and> n \<noteq> roaring_trailing_zeroes w)"
proof -
  let ?k = "roaring_trailing_zeroes w"
  have k: "?k < 64" "bit w ?k" and below: "\<And>n. n < ?k \<Longrightarrow> \<not> bit w n"
    using trailing_zeroes_bits [OF assms] by blast+
  have "w = unset_bit ?k w + push_bit ?k 1"
  proof (subst disjunctive_add)
    show "w = unset_bit ?k w OR push_bit ?k 1"
      by (rule bit_eqI) (use k in \<open>auto simp: bit_or_iff bit_unset_bit_iff bit_exp_iff\<close>)
  qed (auto simp: bit_unset_bit_iff bit_exp_iff)
  moreover have "mask ?k = push_bit ?k 1 - (1 :: u64)" by (simp add: mask_eq_exp_minus_1 push_bit_eq_mult)
  ultimately have "w - 1 = unset_bit ?k w + mask ?k" by (metis add_diff_eq)
  also have "\<dots> = unset_bit ?k w OR mask ?k"
    by (rule disjunctive_add) (auto simp: bit_simps below)
  finally show ?thesis using k(1) bit_u64_bound [of w n] by (auto simp: bit_simps)
qed

lemma bit_clear_lowest:
  "w \<noteq> 0 \<Longrightarrow> bit (w AND (w - 1)) n \<longleftrightarrow> bit w n \<and> n \<noteq> roaring_trailing_zeroes w"
  using trailing_zeroes_bits(3) [of w n] by (auto simp: bit_and_iff bit_pred)

lemma bit_lowest:
  assumes "w \<noteq> 0"
  shows "bit (w AND (NOT w + 1)) n \<longleftrightarrow> n = roaring_trailing_zeroes w"
proof -
  have "NOT w + 1 = NOT (w - 1)" by (simp add: not_eq_complement)
  then show ?thesis
    using trailing_zeroes_bits [OF assms] bit_u64_bound [of w n]
    by (auto simp: bit_simps bit_pred assms)
qed

lemma xor_lowest: "(w :: u64) \<noteq> 0 \<Longrightarrow> w XOR (w AND (NOT w + 1)) = w AND (w - 1)"
  by (rule bit_eqI) (auto simp: bit_xor_iff bit_lowest bit_clear_lowest trailing_zeroes_bits)

lemma clear_lowest_less: "w \<noteq> 0 \<Longrightarrow> roaring_hamming (w AND (w - 1)) < roaring_hamming w"
proof -
  assume w: "w \<noteq> 0"
  have "{n. bit (w AND (w - 1)) n} \<subset> {n. bit w n}"
    using trailing_zeroes_bits(2) [OF w] by (auto simp: bit_clear_lowest w)
  moreover have "finite {n. bit w n}" by (rule finite_subset [of _ "{..< 64}"]) (auto dest: bit_u64_bound)
  ultimately show ?thesis unfolding roaring_hamming_card by (rule psubset_card_mono [rotated])
qed

lemma filter_bits_step:
  assumes "w \<noteq> 0"
  shows "filter (bit w) [0 ..< 64] = roaring_trailing_zeroes w # filter (bit (w AND (w - 1))) [0 ..< 64]"
proof (rule ssorted_set_unique)
  have s: "ssorted (filter P [0 ..< 64])" for P :: "nat \<Rightarrow> bool" by (simp add: sorted_wrt_filter)
  show "ssorted (filter (bit w) [0 ..< 64])" by (rule s)
  have "roaring_trailing_zeroes w < n" if "bit (w AND (w - 1)) n" for n
    using that trailing_zeroes_bits(3) [OF assms, of n] bit_clear_lowest [OF assms, of n]
    by (metis linorder_neqE_nat)
  then show "ssorted (roaring_trailing_zeroes w # filter (bit (w AND (w - 1))) [0 ..< 64])"
    using s by (simp del: upt_Suc)
  show "set (filter (bit w) [0 ..< 64]) = set (roaring_trailing_zeroes w # filter (bit (w AND (w - 1))) [0 ..< 64])"
    using trailing_zeroes_bits [OF assms] by (auto simp: bit_clear_lowest assms)
qed

section \<open>Arrays of words\<close>

definition wbit :: "u64 list \<Rightarrow> nat \<Rightarrow> bool" where
  "wbit ws n \<longleftrightarrow> bit (ws ! (n div 64)) (n mod 64)"

definition bits_of :: "u64 list \<Rightarrow> nat set" where
  "bits_of ws = {n. n < 64 * length ws \<and> wbit ws n}"

lemma word_index_less [simp]: "n div 64 < l \<longleftrightarrow> n < 64 * l" for n l :: nat
  by (metis div_less_iff_less_mult mult.commute zero_less_numeral)

lemma wbit_update:
  "k < length ws \<Longrightarrow> wbit (ws[k := w]) n \<longleftrightarrow> (if n div 64 = k then bit w (n mod 64) else wbit ws n)"
  by (simp add: wbit_def nth_list_update)

lemma words_eqI:
  assumes "length vs = length ws" and "\<And>n. n < 64 * length ws \<Longrightarrow> wbit vs n \<longleftrightarrow> wbit ws n"
  shows "vs = ws"
proof (rule nth_equalityI [OF assms(1)])
  fix i assume i: "i < length vs"
  show "vs ! i = ws ! i"
  proof (rule bit_eqI)
    fix n assume "possible_bit TYPE(u64) n"
    then have n: "n < 64" by (simp add: possible_bit_word)
    then have "(64 * i + n) div 64 = i" "(64 * i + n) mod 64 = n" by simp_all
    moreover have "64 * i + n < 64 * length ws" using i n assms(1) by simp
    ultimately show "bit (vs ! i) n \<longleftrightarrow> bit (ws ! i) n"
      using assms(2) [of "64 * i + n"] by (simp add: wbit_def)
  qed
qed

text \<open>The loop \<open>for (i = a; i < b; i++) words[i] = f(words[i])\<close>.\<close>

definition for_words :: "(u64 \<Rightarrow> u64) \<Rightarrow> nat \<Rightarrow> nat \<Rightarrow> u64 list \<Rightarrow> u64 list" where
  "for_words f a b words = fold (\<lambda>i ws. ws[i := f (ws ! i)]) [a ..< b] words"

lemma length_for_words [simp]: "length (for_words f a b ws) = length ws"
proof -
  have "length (fold (\<lambda>i ws. ws[i := f (ws ! i)]) is ws) = length ws" for "is"
    by (induction "is" arbitrary: ws) simp_all
  then show ?thesis by (simp add: for_words_def)
qed

lemma nth_for_words:
  "j < length ws \<Longrightarrow> for_words f a b ws ! j = (if a \<le> j \<and> j < b then f (ws ! j) else ws ! j)"
proof (induction b)
  case (Suc b)
  show ?case
  proof (cases "a \<le> b")
    case True
    then have "for_words f a (Suc b) ws = (for_words f a b ws)[b := f (for_words f a b ws ! b)]"
      by (simp add: for_words_def)
    then show ?thesis using Suc True length_for_words [of f a b ws]
      by (cases "j = b") (auto simp: nth_list_update)
  next
    case False
    then show ?thesis using Suc.prems by (auto simp: for_words_def)
  qed
qed (simp add: for_words_def)

lemma wbit_for_words:
  "n < 64 * length ws \<Longrightarrow> wbit (for_words f a b ws) n \<longleftrightarrow>
     (if a \<le> n div 64 \<and> n div 64 < b then bit (f (ws ! (n div 64))) (n mod 64) else wbit ws n)"
  by (simp add: wbit_def nth_for_words)

text \<open>The masks \<open>~0 << k\<close> and \<open>~0 >> k\<close>, and the shift count \<open>(~end + 1) % 64\<close> of the last word.\<close>

definition ones_from :: "nat \<Rightarrow> u64" where
  "ones_from k = push_bit k (- 1)"

definition ones_upto :: "nat \<Rightarrow> u64" where
  "ones_upto k = drop_bit k (- 1)"

definition last_shift :: "u32 \<Rightarrow> nat" where
  "last_shift end = unat ((NOT end + 1) mod 64)"

lemma bit_ones_from: "k < 64 \<Longrightarrow> n < 64 \<Longrightarrow> bit (ones_from k) n \<longleftrightarrow> k \<le> n"
  unfolding ones_from_def bit_push_bit_iff by (auto simp: possible_bit_word)

lemma bit_ones_upto: "bit (ones_upto k) n \<longleftrightarrow> k + n < 64"
  unfolding ones_upto_def bit_drop_bit_eq o_def by (simp add: possible_bit_word)

lemma mod_sum_zero: "(x + u) mod M = 0 \<Longrightarrow> 0 < u \<Longrightarrow> u < M \<Longrightarrow> x < M \<Longrightarrow> x + u = (M :: nat)"
  by (cases "x + u < M") (simp_all add: le_mod_geq)

lemma last_shift_eq: "e \<noteq> 0 \<Longrightarrow> last_shift e = 63 - (unat e - 1) mod 64"
proof -
  assume "e \<noteq> 0"
  then have e: "0 < unat e" by (simp add: unat_gt_0)
  have "unat (- e + e) = (unat (- e) + unat e) mod 4294967296" by (simp only: unat_word_ariths) simp
  then have "(unat (- e) + unat e) mod 4294967296 = 0" by simp
  then have "unat (- e) + unat e = 4294967296"
    using e unat_u32_less [of e] unat_u32_less [of "- e"] by (intro mod_sum_zero)
  then have "unat (NOT e + 1) = 4294967296 - unat e" by (simp add: minus_eq_not_plus_1)
  then have "last_shift e = (4294967296 - unat e) mod 64"
    by (simp add: last_shift_def unat_mod_distrib)
  also have "\<dots> = 63 - (unat e - 1) mod 64"
  proof -
    obtain u where u: "unat e = Suc u" using e by (cases "unat e") auto
    have "Suc u < 4294967296" using unat_u32_less [of e] u by simp
    moreover have "64 * (u div 64) + u mod 64 = u" "u mod 64 < 64" by simp_all
    ultimately have "4294967296 - Suc u = 64 * (67108863 - u div 64) + (63 - u mod 64)" by linarith
    then have "(4294967296 - Suc u) mod 64 = (63 - u mod 64) mod 64" by (simp only: mod_mult_self4)
    also have "\<dots> = 63 - u mod 64" by (rule mod_less) simp
    finally have "(4294967296 - Suc u) mod 64 = 63 - u mod 64" .
    then show ?thesis by (simp add: u)
  qed
  finally show ?thesis .
qed

section \<open>Ranges\<close>

definition bitset_set_range :: "u64 list \<Rightarrow> u32 \<Rightarrow> u32 \<Rightarrow> u64 list" where
  "bitset_set_range words start end =
     (if start = end then words
      else let firstword = unat (start div 64); endword = unat ((end - 1) div 64);
               first = ones_from (unat (start mod 64)); last = ones_upto (last_shift end)
           in if firstword = endword
              then words[firstword := words ! firstword OR (first AND last)]
              else let words = words[firstword := words ! firstword OR first];
                       words = for_words (\<lambda>_. - 1) (firstword + 1) endword words
                   in words[endword := words ! endword OR last])"

definition bitset_reset_range :: "u64 list \<Rightarrow> u32 \<Rightarrow> u32 \<Rightarrow> u64 list" where
  "bitset_reset_range words start end =
     (if start = end then words
      else let firstword = unat (start div 64); endword = unat ((end - 1) div 64);
               first = ones_from (unat (start mod 64)); last = ones_upto (last_shift end)
           in if firstword = endword
              then words[firstword := words ! firstword AND NOT (first AND last)]
              else let words = words[firstword := words ! firstword AND NOT first];
                       words = for_words (\<lambda>_. 0) (firstword + 1) endword words
                   in words[endword := words ! endword AND NOT last])"

definition bitset_flip_range :: "u64 list \<Rightarrow> u32 \<Rightarrow> u32 \<Rightarrow> u64 list" where
  "bitset_flip_range words start end =
     (if start = end then words
      else let firstword = unat (start div 64); endword = unat ((end - 1) div 64);
               words = words[firstword := words ! firstword XOR NOT (ones_from (unat (start mod 64)))];
               words = for_words NOT firstword endword words
           in words[endword := words ! endword XOR ones_upto (last_shift end)])"

text \<open>\<open>for (i = firstword + 1; i < endword; i += 2) words[i] = words[i + 1] = ~0\<close>.\<close>

function set_word_pairs :: "nat \<Rightarrow> nat \<Rightarrow> u64 list \<Rightarrow> u64 list" where
  "set_word_pairs i endword words =
     (if i < endword then set_word_pairs (i + 2) endword (words[i + 1 := - 1, i := - 1]) else words)"
  by pat_completeness auto
termination
  by (relation "measure (\<lambda>(i, e, ws). e - i)") auto

declare set_word_pairs.simps [simp del]

text \<open>The shift count of the first word of a length range is \<open>(63 - lenminusone) % 64\<close>, that of
  the last word \<open>((~start + 1) - lenminusone - 1) % 64\<close>.\<close>

definition lenrange_shift :: "u32 \<Rightarrow> nat" where
  "lenrange_shift lenminusone = unat ((63 - lenminusone) mod 64)"

definition lenrange_last_shift :: "u32 \<Rightarrow> u32 \<Rightarrow> nat" where
  "lenrange_last_shift start lenminusone = unat (((NOT start + 1) - lenminusone - 1) mod 64)"

definition bitset_set_lenrange :: "u64 list \<Rightarrow> u32 \<Rightarrow> u32 \<Rightarrow> u64 list" where
  "bitset_set_lenrange words start lenminusone =
     (let firstword = unat (start div 64); endword = unat ((start + lenminusone) div 64)
      in if firstword = endword
         then words[firstword := words ! firstword
                OR push_bit (unat (start mod 64)) (ones_upto (lenrange_shift lenminusone))]
         else let temp = words ! endword;
                  words = words[firstword := words ! firstword OR ones_from (unat (start mod 64))];
                  words = set_word_pairs (firstword + 1) endword words
              in words[endword := temp OR ones_upto (lenrange_last_shift start lenminusone)])"

definition bitset_lenrange_cardinality :: "u64 list \<Rightarrow> u32 \<Rightarrow> u32 \<Rightarrow> nat" where
  "bitset_lenrange_cardinality words start lenminusone =
     (let firstword = unat (start div 64); endword = unat ((start + lenminusone) div 64)
      in if firstword = endword
         then roaring_hamming (words ! firstword
                AND push_bit (unat (start mod 64)) (ones_upto (lenrange_shift lenminusone)))
         else let answer = roaring_hamming (words ! firstword AND ones_from (unat (start mod 64)));
                  answer = fold (\<lambda>i sum. sum + roaring_hamming (words ! i)) [firstword + 1 ..< endword] answer
              in answer + roaring_hamming (words ! endword AND ones_upto (lenrange_last_shift start lenminusone)))"

definition bitset_lenrange_empty :: "u64 list \<Rightarrow> u32 \<Rightarrow> u32 \<Rightarrow> bool" where
  "bitset_lenrange_empty words start lenminusone =
     (let firstword = unat (start div 64); endword = unat ((start + lenminusone) div 64)
      in if firstword = endword
         then words ! firstword AND push_bit (unat (start mod 64)) (ones_upto (lenrange_shift lenminusone)) = 0
         else if words ! firstword AND ones_from (unat (start mod 64)) \<noteq> 0 then False
         else if \<exists>i \<in> set [firstword + 1 ..< endword]. words ! i \<noteq> 0 then False
         else words ! endword AND ones_upto (lenrange_last_shift start lenminusone) = 0)"

text \<open>
  How a range cuts a word: \<open>range_bit s e w m\<close> says that bit \<open>m\<close> of word \<open>w\<close> lies in
  \<open>[s, e)\<close>.
\<close>

lemma range_cut_aux:
  fixes a b N p q m :: nat
  assumes "p < 64" "q < 64" "m < 64"
  shows "64 * a + p \<le> 64 * N + m \<and> 64 * N + m \<le> 64 * b + q \<longleftrightarrow>
     a \<le> N \<and> N \<le> b \<and> (N = a \<longrightarrow> p \<le> m) \<and> (N = b \<longrightarrow> m \<le> q)"
proof -
  have "64 * a + p \<le> 64 * N + m \<longleftrightarrow> a \<le> N \<and> (N = a \<longrightarrow> p \<le> m)" 
    using assms by (cases a N rule: linorder_cases) auto
  moreover have "64 * N + m \<le> 64 * b + q \<longleftrightarrow> N \<le> b \<and> (N = b \<longrightarrow> m \<le> q)" 
    using assms by (cases N b rule: linorder_cases) auto
  ultimately show ?thesis by blast
qed

lemma range_cut:
  fixes s e n :: nat
  assumes "s < e"
  defines "a \<equiv> s div 64" and "b \<equiv> (e - 1) div 64"
  shows "s \<le> n \<and> n < e \<longleftrightarrow> a \<le> n div 64 \<and> n div 64 \<le> b
     \<and> (n div 64 = a \<longrightarrow> s mod 64 \<le> n mod 64) \<and> (n div 64 = b \<longrightarrow> n mod 64 \<le> (e - 1) mod 64)"
    and "a \<le> b" and "a = b \<Longrightarrow> s mod 64 \<le> (e - 1) mod 64"
proof -
  obtain d where e: "e = Suc d" using assms(1) by (cases e) auto
  have s: "64 * a + s mod 64 = s" and d: "64 * b + d mod 64 = d" and n: "64 * (n div 64) + n mod 64 = n"
    unfolding a_def b_def e by simp_all
  show "s mod 64 \<le> (e - 1) mod 64" if "a = b" using s d that assms(1) unfolding e by simp
  show "a \<le> b" using assms(1) unfolding a_def b_def e by (intro div_le_mono) simp
  show "s \<le> n \<and> n < e \<longleftrightarrow> a \<le> n div 64 \<and> n div 64 \<le> b
     \<and> (n div 64 = a \<longrightarrow> s mod 64 \<le> n mod 64) \<and> (n div 64 = b \<longrightarrow> n mod 64 \<le> (e - 1) mod 64)"
    using range_cut_aux [of "s mod 64" "d mod 64" "n mod 64" a "n div 64" b]
    unfolding s d n e by (simp add: less_Suc_eq_le)
qed

text \<open>What the word indices and masks of \<open>[s, e)\<close> are, as numbers.\<close>

lemma range_indices:
  fixes s e :: u32
  assumes "unat s < unat e"
  shows "unat (s div 64) = unat s div 64" and "unat (s mod 64) = unat s mod 64"
    and "unat ((e - 1) div 64 :: u32) = (unat e - 1) div 64"
    and "last_shift e = 63 - (unat e - 1) mod 64"
proof -
  have "e \<noteq> 0" using assms by auto
  then show "last_shift e = 63 - (unat e - 1) mod 64" by (rule last_shift_eq)
  show "unat ((e - 1) div 64) = (unat e - 1) div 64"
    using unat_u32_pred [of e] assms by (simp add: unat_div_distrib)
qed (simp_all add: unat_div_distrib unat_mod_distrib)

lemma bit_last_mask: "m < 64 \<Longrightarrow> bit (ones_upto (63 - k mod 64)) m \<longleftrightarrow> m \<le> k mod 64"
  using mod_less_divisor [of 64 k] by (auto simp: bit_ones_upto)

lemma bit_first_mask: "m < 64 \<Longrightarrow> bit (ones_from (k mod 64)) m \<longleftrightarrow> k mod 64 \<le> m"
  by (simp add: bit_ones_from)

lemma bit_minus_one_64: "m < 64 \<Longrightarrow> bit (- 1 :: u64) m"
  by (simp add: possible_bit_word)

lemma bit_not_64: "m < 64 \<Longrightarrow> bit (NOT w :: u64) m \<longleftrightarrow> \<not> bit w m"
  by (simp add: bit_not_iff possible_bit_word)

lemma length_range_ops [simp]:
  "length (bitset_set_range ws s e) = length ws"
  "length (bitset_reset_range ws s e) = length ws"
  "length (bitset_flip_range ws s e) = length ws"
  by (simp_all add: bitset_set_range_def bitset_reset_range_def bitset_flip_range_def Let_def)

named_theorems word_range

lemmas word_masks [word_range] = bit_last_mask bit_first_mask bit_minus_one_64 bit_not_64 bit_and_iff bit_or_iff bit_xor_iff

text \<open>An update of the first word, of the words between and of the last word.\<close>

lemma wbit_span:
  assumes "a < b" and "b < length ws" and "n < 64 * length ws"
  shows "wbit ((for_words f (a + 1) b (ws[a := x]))[b := y]) n \<longleftrightarrow>
     (if n div 64 = a then bit x (n mod 64) else if n div 64 = b then bit y (n mod 64)
      else if a < n div 64 \<and> n div 64 < b then bit (f (ws ! (n div 64))) (n mod 64) else wbit ws n)"
  using assms by (simp add: wbit_def nth_list_update nth_for_words)

lemma span_last: "a < b \<Longrightarrow> b < length ws \<Longrightarrow> for_words f (a + 1) b (ws[a := x]) ! b = ws ! b"
  by (simp add: nth_for_words)

lemma wbit_set_range:
  assumes "unat s < unat e" and "unat e \<le> 64 * length ws" and n: "n < 64 * length ws"
  shows "wbit (bitset_set_range ws s e) n \<longleftrightarrow> wbit ws n \<or> (unat s \<le> n \<and> n < unat e)"
proof -
  define a b where "a = unat s div 64" and "b = (unat e - 1) div 64"
  note ri = range_indices [OF assms(1)]
  have ne: "s \<noteq> e" using assms(1) by auto
  have b: "b < length ws" using assms(1,2) by (simp add: b_def)
  have m: "n mod 64 < 64" by simp
  show ?thesis
  proof (cases "a = b")
    case True
    then show ?thesis using b m
      unfolding bitset_set_range_def if_not_P [OF ne] ri Let_def range_cut(1) [OF assms(1)]
        a_def [symmetric] b_def [symmetric]
      by (cases "n div 64 = b") (auto simp: wbit_def bit_or_iff bit_and_iff bit_last_mask bit_first_mask)
  next
    case False
    then have ab: "a < b" using range_cut(2) [OF assms(1)] by (simp add: a_def b_def)
    show ?thesis
      unfolding bitset_set_range_def if_not_P [OF ne] ri Let_def range_cut(1) [OF assms(1)]
        a_def [symmetric] b_def [symmetric] if_not_P [OF False] span_last [OF ab b] wbit_span [OF ab b n]
      using ab m by (auto simp: bit_or_iff bit_last_mask bit_first_mask bit_minus_one_64 wbit_def)
  qed
qed

lemma wbit_reset_range:
  assumes "unat s < unat e" and "unat e \<le> 64 * length ws" and n: "n < 64 * length ws"
  shows "wbit (bitset_reset_range ws s e) n \<longleftrightarrow> wbit ws n \<and> \<not> (unat s \<le> n \<and> n < unat e)"
proof -
  define a b where "a = unat s div 64" and "b = (unat e - 1) div 64"
  note ri = range_indices [OF assms(1)]
  have ne: "s \<noteq> e" using assms(1) by auto
  have b: "b < length ws" using assms(1,2) by (simp add: b_def)
  have m: "n mod 64 < 64" by simp
  show ?thesis
  proof (cases "a = b")
    case True
    then show ?thesis using b m
      unfolding bitset_reset_range_def if_not_P [OF ne] ri Let_def range_cut(1) [OF assms(1)]
        a_def [symmetric] b_def [symmetric]
      by (cases "n div 64 = b") (auto simp: wbit_def bit_and_iff bit_or_iff bit_not_64 bit_last_mask bit_first_mask)
  next
    case False
    then have ab: "a < b" using range_cut(2) [OF assms(1)] by (simp add: a_def b_def)
    show ?thesis
      unfolding bitset_reset_range_def if_not_P [OF ne] ri Let_def range_cut(1) [OF assms(1)]
        a_def [symmetric] b_def [symmetric] if_not_P [OF False] span_last [OF ab b] wbit_span [OF ab b n]
      using ab m by (auto simp: bit_and_iff bit_not_64 bit_last_mask bit_first_mask wbit_def)
  qed
qed

lemma wbit_flip_range:
  assumes "unat s < unat e" and "unat e \<le> 64 * length ws" and n: "n < 64 * length ws"
  shows "wbit (bitset_flip_range ws s e) n \<longleftrightarrow> wbit ws n \<noteq> (unat s \<le> n \<and> n < unat e)"
proof -
  define a b where "a = unat s div 64" and "b = (unat e - 1) div 64"
  note ri = range_indices [OF assms(1)]
  have ne: "s \<noteq> e" using assms(1) by auto
  have b: "b < length ws" using assms(1,2) by (simp add: b_def)
  have m: "n mod 64 < 64" by simp
  have ab: "a \<le> b" using range_cut(2) [OF assms(1)] by (simp add: a_def b_def)
  then have la: "a < length ws" and N: "n div 64 < length ws" using b n by simp_all
  show ?thesis
    unfolding bitset_flip_range_def if_not_P [OF ne] ri Let_def range_cut(1) [OF assms(1)]
      a_def [symmetric] b_def [symmetric]
    using ab b la N m range_cut(3) [OF assms(1), folded a_def b_def]
    by (cases "n div 64 = a"; cases "n div 64 = b")
      (auto simp: wbit_def nth_list_update nth_for_words bit_xor_iff bit_not_64 bit_last_mask bit_first_mask)
qed

text \<open>A length range is the range \<open>[start, start + lenminusone + 1)\<close>.\<close>

lemma lenrange_indices:
  fixes s l :: u32
  assumes "unat s + unat l < 4294967295"
  shows "unat (s + l + 1) = unat s + unat l + 1"
    and "unat (s div 64) = unat s div 64" and "unat (s mod 64) = unat s mod 64"
    and "unat ((s + l) div 64) = (unat s + unat l) div 64"
    and "lenrange_last_shift s l = 63 - (unat s + unat l) mod 64"
    and "unat l < 64 \<Longrightarrow> lenrange_shift l = 63 - unat l"
proof -
  have sl: "unat (s + l) = unat s + unat l" using assms by (intro unat_u32_add) simp
  then show e: "unat (s + l + 1) = unat s + unat l + 1" using assms unat_u32_add [of "s + l" 1] by simp
  show "unat ((s + l) div 64) = (unat s + unat l) div 64" by (simp add: unat_div_distrib sl)
  have "(NOT s + 1) - l - 1 = NOT (s + l + 1) + 1" by (simp add: not_eq_complement algebra_simps)
  then have "lenrange_last_shift s l = last_shift (s + l + 1)"
    by (simp add: lenrange_last_shift_def last_shift_def)
  also have "\<dots> = 63 - (unat s + unat l) mod 64"
    using last_shift_eq [of "s + l + 1"] e by (metis add_diff_cancel_right' add_gr_0 unat_gt_0 zero_less_one)
  finally show "lenrange_last_shift s l = 63 - (unat s + unat l) mod 64" .
  show "lenrange_shift l = 63 - unat l" if "unat l < 64"
    using that unat_u32_diff [of l 63] by (simp add: lenrange_shift_def unat_mod_distrib)
qed (simp_all add: unat_div_distrib unat_mod_distrib)

lemma bit_lenrange_word:
  assumes "m < 64" and "k < 64" and "k + l < 64"
  shows "bit (push_bit k (ones_upto (63 - l))) m \<longleftrightarrow> k \<le> m \<and> m \<le> k + l"
  using assms by (auto simp: bit_push_bit_iff bit_ones_upto possible_bit_word)

lemma length_set_word_pairs [simp]: "length (set_word_pairs i e ws) = length ws"
  by (induction i e ws rule: set_word_pairs.induct) (simp add: set_word_pairs.simps)

lemma set_word_pairs_nth:
  "e < length ws \<Longrightarrow> j < length ws \<Longrightarrow> j \<noteq> e \<Longrightarrow>
     set_word_pairs i e ws ! j = (if i \<le> j \<and> j < e then - 1 else ws ! j)"
proof (induction i e ws rule: set_word_pairs.induct)
  case (1 i e ws)
  show ?case
  proof (cases "i < e")
    case True
    then have "set_word_pairs i e ws ! j = set_word_pairs (i + 2) e (ws[i + 1 := - 1, i := - 1]) ! j"
      by (simp add: set_word_pairs.simps [of i])
    also have "\<dots> = (if i + 2 \<le> j \<and> j < e then - 1 else ws[i + 1 := - 1, i := - 1] ! j)"
      using 1 True by simp
    also have "\<dots> = (if i \<le> j \<and> j < e then - 1 else ws ! j)"
      using True "1.prems" by (auto simp: nth_list_update)
    finally show ?thesis .
  qed (auto simp: set_word_pairs.simps [of i])
qed

lemma lenrange_single:
  assumes "unat s div 64 = (unat s + unat l) div 64"
  shows "unat l < 64" and "unat s mod 64 + unat l < 64" and "(unat s + unat l) mod 64 = unat s mod 64 + unat l"
proof -
  have "64 * (unat s div 64) + unat s mod 64 = unat s"
    "64 * ((unat s + unat l) div 64) + (unat s + unat l) mod 64 = unat s + unat l"
    "(unat s + unat l) mod 64 < 64" by simp_all
  then show "(unat s + unat l) mod 64 = unat s mod 64 + unat l" "unat l < 64" "unat s mod 64 + unat l < 64"
    using assms by linarith+
qed

lemma wbit_set_lenrange:
  assumes "unat s + unat l < 64 * length ws" and "length ws \<le> 1048576" and n: "n < 64 * length ws"
  shows "wbit (bitset_set_lenrange ws s l) n \<longleftrightarrow> wbit ws n \<or> (unat s \<le> n \<and> n \<le> unat s + unat l)"
    and "length (bitset_set_lenrange ws s l) = length ws"
proof -
  define a b where "a = unat s div 64" and "b = (unat s + unat l) div 64"
  have bound: "unat s + unat l < 4294967295" using assms(1,2) by linarith
  note ix = lenrange_indices [OF bound]
  have lt: "unat s < unat s + unat l + 1" by simp
  have cut: "unat s \<le> n \<and> n \<le> unat s + unat l \<longleftrightarrow> a \<le> n div 64 \<and> n div 64 \<le> b
      \<and> (n div 64 = a \<longrightarrow> unat s mod 64 \<le> n mod 64) \<and> (n div 64 = b \<longrightarrow> n mod 64 \<le> (unat s + unat l) mod 64)"
    using range_cut(1) [OF lt, of n] by (simp add: a_def b_def less_Suc_eq_le)
  have b: "b < length ws" using assms(1) by (simp add: b_def)
  have m: "n mod 64 < 64" and N: "n div 64 < length ws" using n by simp_all
  note def = bitset_set_lenrange_def Let_def ix(2-5) a_def [symmetric] b_def [symmetric]
  show "length (bitset_set_lenrange ws s l) = length ws" by (simp add: bitset_set_lenrange_def Let_def)
  show "wbit (bitset_set_lenrange ws s l) n \<longleftrightarrow> wbit ws n \<or> (unat s \<le> n \<and> n \<le> unat s + unat l)"
  proof (cases "a = b")
    case True
    then have single: "unat l < 64" "unat s mod 64 + unat l < 64" "(unat s + unat l) mod 64 = unat s mod 64 + unat l"
      using lenrange_single [of s l] by (simp_all add: a_def b_def)
    show ?thesis unfolding cut def if_P [OF True] ix(6) [OF single(1)]
      using True b m single
      by (cases "n div 64 = b") (auto simp: wbit_def bit_or_iff bit_lenrange_word)
  next
    case False
    then have ab: "a < b" using range_cut(2) [OF lt] by (simp add: a_def b_def)
    show ?thesis unfolding cut def if_not_P [OF False]
      using ab b m N
      by (cases "n div 64 = a"; cases "n div 64 = b")
        (auto simp: wbit_def nth_list_update set_word_pairs_nth bit_or_iff bit_first_mask bit_last_mask bit_minus_one_64)
  qed
qed

section \<open>Counting\<close>

lemma finite_bits_of [simp]: "finite (bits_of ws)"
  by (simp add: bits_of_def)

lemma wbit_Cons: "wbit (w # ws) n \<longleftrightarrow> (if n < 64 then bit w n else wbit ws (n - 64))"
proof (cases "n < 64")
  case False
  then obtain m where "n = m + 64" by (metis add.commute le_Suc_ex linorder_not_less)
  moreover have "(m + 64) div 64 = Suc (m div 64)" by simp
  ultimately show ?thesis by (simp add: wbit_def del: div_add_self2)
qed (simp add: wbit_def)

lemma bits_of_Cons: "bits_of (w # ws) = {n. bit w n} \<union> (\<lambda>n. n + 64) ` bits_of ws"
proof (intro set_eqI)
  fix n
  show "n \<in> bits_of (w # ws) \<longleftrightarrow> n \<in> {n. bit w n} \<union> (\<lambda>n. n + 64) ` bits_of ws"
  proof (cases "n < 64")
    case True
    then show ?thesis by (auto simp: bits_of_def wbit_Cons)
  next
    case False
    then have "\<not> bit w n" using bit_u64_bound by blast
    moreover obtain m where "n = m + 64" using False by (metis add.commute le_Suc_ex linorder_not_less)
    ultimately show ?thesis by (auto simp: bits_of_def wbit_Cons)
  qed
qed

lemma card_bits_of: "card (bits_of ws) = sum_list (map roaring_hamming ws)"
proof (induction ws)
  case (Cons w ws)
  have "card (bits_of (w # ws)) = card {n. bit w n} + card ((\<lambda>n. n + 64) ` bits_of ws)"
    unfolding bits_of_Cons
    by (rule card_Un_disjoint) (auto dest: bit_u64_bound intro: finite_subset [of _ "{..< 64}"])
  also have "card ((\<lambda>n. n + 64) ` bits_of ws) = card (bits_of ws)" by (rule card_image) (simp add: inj_on_def)
  finally show ?case by (simp add: Cons.IH roaring_hamming_card)
qed (simp add: bits_of_def)

lemma fold_plus: "fold (\<lambda>i sum. sum + f i) xs (k :: nat) = k + sum_list (map f xs)"
  by (induction xs arbitrary: k) simp_all

lemma card_word_bits:
  "card {n. n div 64 = i \<and> bit w (n mod 64)} = roaring_hamming w"
proof -
  have "{n. n div 64 = i \<and> bit w (n mod 64)} = (\<lambda>m. m + 64 * i) ` {m. bit w m}"
  proof (intro set_eqI iffI)
    fix n assume "n \<in> {n. n div 64 = i \<and> bit w (n mod 64)}"
    then have "bit w (n mod 64)" "n = n mod 64 + 64 * i" by auto
    then show "n \<in> (\<lambda>m. m + 64 * i) ` {m. bit w m}" by blast
  next
    fix n assume "n \<in> (\<lambda>m. m + 64 * i) ` {m. bit w m}"
    then obtain m where "n = m + 64 * i" "bit w m" "m < 64" by (auto dest: bit_u64_bound)
    then show "n \<in> {n. n div 64 = i \<and> bit w (n mod 64)}" by simp
  qed
  then show ?thesis by (simp add: roaring_hamming_card card_image inj_on_def)
qed

lemma card_word_prefix:
  "i \<le> length ws \<Longrightarrow> card {n. n < 64 * i \<and> wbit ws n} = sum_list (map (\<lambda>i. roaring_hamming (ws ! i)) [0 ..< i])"
proof (induction i)
  case (Suc i)
  have e: "{n. n < 64 * Suc i \<and> wbit ws n} = {n. n < 64 * i \<and> wbit ws n} \<union> {n. n div 64 = i \<and> bit (ws ! i) (n mod 64)}"
  proof (intro set_eqI)
    fix n :: nat
    have "n < 64 * Suc i \<longleftrightarrow> n < 64 * i \<or> n div 64 = i"
      using word_index_less [of n "Suc i"] word_index_less [of n i] by linarith
    then show "n \<in> {n. n < 64 * Suc i \<and> wbit ws n} \<longleftrightarrow>
        n \<in> {n. n < 64 * i \<and> wbit ws n} \<union> {n. n div 64 = i \<and> bit (ws ! i) (n mod 64)}"
      by (auto simp: wbit_def)
  qed
  have "card {n. n < 64 * Suc i \<and> wbit ws n} = card {n. n < 64 * i \<and> wbit ws n} + card {n. n div 64 = i \<and> bit (ws ! i) (n mod 64)}"
    unfolding e
  proof (rule card_Un_disjoint)
    show "finite {n. n div 64 = i \<and> bit (ws ! i) (n mod 64)}"
      by (rule finite_subset [of _ "{..< 64 * Suc i}"]) (auto simp flip: word_index_less)
    show "{n. n < 64 * i \<and> wbit ws n} \<inter> {n. n div 64 = i \<and> bit (ws ! i) (n mod 64)} = {}"
      by (auto simp flip: word_index_less)
  qed simp
  then show ?case using Suc by (simp add: card_word_bits)
qed simp

lemma hamming_0: "roaring_hamming w = 0 \<longleftrightarrow> w = 0"
proof
  assume h: "roaring_hamming w = 0"
  have "finite {n. bit w n}" by (rule finite_subset [of _ "{..< 64}"]) (auto dest: bit_u64_bound)
  then have "{n. bit w n} = {}" using h by (simp add: roaring_hamming_card)
  then show "w = 0" by (intro bit_eqI) auto
qed (simp add: roaring_hamming_card)

text \<open>A set of positions that is given word by word is counted word by word.\<close>

lemma card_by_words:
  assumes "\<And>n. n \<in> S \<longleftrightarrow> a \<le> n div 64 \<and> n div 64 \<le> b \<and> bit (w (n div 64)) (n mod 64)"
  shows "card S = (\<Sum>i = a..b. roaring_hamming (w i))"
    and "S = {} \<longleftrightarrow> (\<forall>i \<in> {a..b}. w i = 0)"
proof -
  let ?T = "\<lambda>i. {n. n div 64 = i \<and> bit (w i) (n mod 64)}"
  have S: "S = (\<Union>i \<in> {a..b}. ?T i)" by (rule set_eqI) (auto simp: assms)
  have fin: "finite (?T i)" for i
    by (rule finite_subset [of _ "{..< 64 * Suc i}"]) (auto simp flip: word_index_less)
  have "card S = (\<Sum>i = a..b. card (?T i))"
    unfolding S by (rule card_UN_disjoint) (use fin in auto)
  then show "card S = (\<Sum>i = a..b. roaring_hamming (w i))" by (simp only: card_word_bits)
  have "?T i = {} \<longleftrightarrow> w i = 0" for i
    using card_word_bits [of i "w i"] hamming_0 [of "w i"] fin [of i] by (metis (no_types, lifting) card_0_eq)
  then show "S = {} \<longleftrightarrow> (\<forall>i \<in> {a..b}. w i = 0)" unfolding S by simp
qed

lemma sum_ends:
  fixes f :: "nat \<Rightarrow> nat"
  assumes "a < b"
  shows "(\<Sum>i = a..b. f i) = f a + sum_list (map f [a + 1 ..< b]) + f b"
proof -
  have "{a..b} = insert a (insert b {a + 1 ..< b})" using assms by auto
  then show ?thesis using assms by (simp add: interv_sum_list_conv_sum_set_nat)
qed

lemma ball_ends: "a < b \<Longrightarrow> (\<forall>i \<in> {a..b :: nat}. P i) \<longleftrightarrow> P a \<and> (\<forall>i \<in> set [a + 1 ..< b]. P i) \<and> P b"
  by (auto simp: Ball_def) (metis Suc_leI le_neq_implies_less)

lemma lenrange_counts:
  assumes "unat s + unat l < 64 * length ws" and "length ws \<le> 1048576"
  defines "S \<equiv> {n. unat s \<le> n \<and> n \<le> unat s + unat l \<and> wbit ws n}"
  shows "bitset_lenrange_cardinality ws s l = card S" and "bitset_lenrange_empty ws s l \<longleftrightarrow> S = {}"
proof -
  define a b where "a = unat s div 64" and "b = (unat s + unat l) div 64"
  have bound: "unat s + unat l < 4294967295" using assms(1,2) by linarith
  note ix = lenrange_indices [OF bound]
  have lt: "unat s < unat s + unat l + 1" by simp
  have cut: "unat s \<le> n \<and> n \<le> unat s + unat l \<longleftrightarrow> a \<le> n div 64 \<and> n div 64 \<le> b
      \<and> (n div 64 = a \<longrightarrow> unat s mod 64 \<le> n mod 64) \<and> (n div 64 = b \<longrightarrow> n mod 64 \<le> (unat s + unat l) mod 64)" for n
    using range_cut(1) [OF lt, of n] by (simp add: a_def b_def less_Suc_eq_le)
  have m: "n mod 64 < 64" for n :: nat by simp
  note defs = bitset_lenrange_cardinality_def bitset_lenrange_empty_def Let_def ix(2-5)
    a_def [symmetric] b_def [symmetric]
  have "bitset_lenrange_cardinality ws s l = card S \<and> (bitset_lenrange_empty ws s l \<longleftrightarrow> S = {})"
  proof (cases "a = b")
    case True
    then have single: "unat l < 64" "unat s mod 64 + unat l < 64" "(unat s + unat l) mod 64 = unat s mod 64 + unat l"
      using lenrange_single [of s l] by (simp_all add: a_def b_def)
    define w where "w = (\<lambda>i. ws ! i AND push_bit (unat s mod 64) (ones_upto (63 - unat l)))"
    have "n \<in> S \<longleftrightarrow> a \<le> n div 64 \<and> n div 64 \<le> b \<and> bit (w (n div 64)) (n mod 64)" for n
      using cut [of n] True m [of n] single unfolding S_def w_def
      by (auto simp: bit_and_iff bit_lenrange_word wbit_def)
    note by_words = card_by_words [of S a b w, OF this]
    show ?thesis unfolding defs if_P [OF True] ix(6) [OF single(1)]
      using by_words True by (simp add: w_def)
  next
    case False
    then have ab: "a < b" using range_cut(2) [OF lt] by (simp add: a_def b_def)
    define w where "w = (\<lambda>i. if i = a then ws ! a AND ones_from (unat s mod 64)
        else if i = b then ws ! b AND ones_upto (63 - (unat s + unat l) mod 64) else ws ! i)"
    have "n \<in> S \<longleftrightarrow> a \<le> n div 64 \<and> n div 64 \<le> b \<and> bit (w (n div 64)) (n mod 64)" for n
      using cut [of n] ab m [of n] unfolding S_def w_def
      by (auto simp: bit_and_iff bit_first_mask bit_last_mask wbit_def)
    note by_words = card_by_words [of S a b w, OF this]
    have mid: "map (\<lambda>i. roaring_hamming (w i)) [a + 1 ..< b] = map (\<lambda>i. roaring_hamming (ws ! i)) [a + 1 ..< b]"
      "(\<forall>i \<in> set [a + 1 ..< b]. w i = 0) \<longleftrightarrow> (\<forall>i \<in> set [a + 1 ..< b]. ws ! i = 0)"
      by (auto simp: w_def)
    show ?thesis
      unfolding defs if_not_P [OF False] by_words sum_ends [OF ab] ball_ends [OF ab] mid fold_plus
      using ab by (simp add: w_def)
  qed
  then show "bitset_lenrange_cardinality ws s l = card S" and "bitset_lenrange_empty ws s l \<longleftrightarrow> S = {}"
    by blast+
qed

end
