(* ===== verification/Bitset_Lists.thy ===== *)
theory Bitset_Lists
  imports Bitset_Util
begin

text \<open>
  Setting, clearing and flipping the bits of a list of positions, and writing out the
  positions of the set bits, as in \<open>src/bitset_util.c\<close> (portable code). The running
  cardinality of the \<open>_withcard\<close> functions is a \<open>uint64_t\<close>.
\<close>

section \<open>Lists of positions\<close>

text \<open>\<open>UINT64_C(1) << index\<close>.\<close>

definition bit_at :: "nat \<Rightarrow> u64" where
  "bit_at index = push_bit index 1"

definition clear_list_step :: "u16 \<Rightarrow> u64 list \<times> u64 \<Rightarrow> u64 list \<times> u64" where
  "clear_list_step pos = (\<lambda>(words, n).
     let offset = unat (drop_bit 6 pos); index = unat (pos mod 64);
         load = words ! offset;
         newload = load AND NOT (bit_at index)
     in (words[offset := newload], n - drop_bit index (load XOR newload)))"

definition bitset_clear_list :: "u64 list \<Rightarrow> u64 \<Rightarrow> u16 list \<Rightarrow> u64 list \<times> u64" where
  "bitset_clear_list words n list = fold clear_list_step list (words, n)"

definition set_list_step :: "u16 \<Rightarrow> u64 list \<times> u64 \<Rightarrow> u64 list \<times> u64" where
  "set_list_step pos = (\<lambda>(words, n).
     let offset = unat (drop_bit 6 pos); index = unat (pos mod 64);
         load = words ! offset;
         newload = load OR bit_at index
     in (words[offset := newload], n + drop_bit index (load XOR newload)))"

definition bitset_set_list_withcard :: "u64 list \<Rightarrow> u64 \<Rightarrow> u16 list \<Rightarrow> u64 list \<times> u64" where
  "bitset_set_list_withcard words n list = fold set_list_step list (words, n)"

definition bitset_set_list :: "u64 list \<Rightarrow> u16 list \<Rightarrow> u64 list" where
  "bitset_set_list words list = fold (\<lambda>pos words.
     let offset = unat (drop_bit 6 pos); index = unat (pos mod 64)
     in words[offset := words ! offset OR bit_at index]) list words"

definition flip_list_step :: "u16 \<Rightarrow> u64 list \<times> u64 \<Rightarrow> u64 list \<times> u64" where
  "flip_list_step pos = (\<lambda>(words, n).
     let offset = unat (drop_bit 6 pos); index = unat (pos mod 64);
         load = words ! offset;
         newload = load XOR bit_at index
     in (words[offset := newload], n + (1 - 2 * drop_bit index (bit_at index AND load))))"

definition bitset_flip_list_withcard :: "u64 list \<Rightarrow> u64 \<Rightarrow> u16 list \<Rightarrow> u64 list \<times> u64" where
  "bitset_flip_list_withcard words n list = fold flip_list_step list (words, n)"

definition bitset_flip_list :: "u64 list \<Rightarrow> u16 list \<Rightarrow> u64 list" where
  "bitset_flip_list words list = fold (\<lambda>pos words.
     let offset = unat (drop_bit 6 pos); index = unat (pos mod 64)
     in words[offset := words ! offset XOR bit_at index]) list words"

lemma pos_offset [simp]: "unat (drop_bit 6 (pos :: u16)) = unat pos div 64"
  and pos_index [simp]: "unat ((pos :: u16) mod 64) = unat pos mod 64"
  by (simp_all add: drop_bit_eq_div unat_div_distrib unat_mod_distrib)

lemma bit_single: "i < 64 \<Longrightarrow> bit (bit_at i) n \<longleftrightarrow> n = i"
  by (auto simp: bit_at_def bit_exp_iff possible_bit_word)

lemma drop_bit_single:
  assumes "i < 64" and "\<And>n. bit w n \<Longrightarrow> n = i"
  shows "drop_bit i (w :: u64) = of_bool (bit w i)"
proof (rule bit_eqI)
  fix n
  have "bit w (i + n) \<longleftrightarrow> n = 0 \<and> bit w i" using assms(2) [of "i + n"] by (cases n) auto
  then show "bit (drop_bit i w) n \<longleftrightarrow> bit (of_bool (bit w i) :: u64) n"
    by (auto simp: bit_drop_bit_eq bit_of_bool_iff)
qed

lemma position_eq: "n div 64 = k div 64 \<and> n mod 64 = k mod 64 \<longleftrightarrow> n = (k :: nat)"
  by (metis div_mult_mod_eq)

lemma wbit_set_at:
  assumes "k < 64 * length ws"
  shows "wbit (ws[k div 64 := ws ! (k div 64) OR bit_at (k mod 64)]) n \<longleftrightarrow> n = k \<or> wbit ws n"
    and "wbit (ws[k div 64 := ws ! (k div 64) AND NOT (bit_at (k mod 64))]) n \<longleftrightarrow> n \<noteq> k \<and> wbit ws n"
    and "wbit (ws[k div 64 := ws ! (k div 64) XOR bit_at (k mod 64)]) n \<longleftrightarrow> (n = k) \<noteq> wbit ws n"
proof -
  have k: "k div 64 < length ws" using assms by simp
  have m: "k mod 64 < 64" "n mod 64 < 64" by simp_all
  note s = bit_single [OF m(1)] bit_and_iff bit_or_iff bit_xor_iff bit_not_64 [OF m(2)] position_eq [symmetric, of n k]
  show "wbit (ws[k div 64 := ws ! (k div 64) OR bit_at (k mod 64)]) n \<longleftrightarrow> n = k \<or> wbit ws n"
    unfolding wbit_update [OF k] s by (auto simp: wbit_def)
  show "wbit (ws[k div 64 := ws ! (k div 64) AND NOT (bit_at (k mod 64))]) n \<longleftrightarrow> n \<noteq> k \<and> wbit ws n"
    unfolding wbit_update [OF k] s by (auto simp: wbit_def)
  show "wbit (ws[k div 64 := ws ! (k div 64) XOR bit_at (k mod 64)]) n \<longleftrightarrow> (n = k) \<noteq> wbit ws n"
    unfolding wbit_update [OF k] s by (auto simp: wbit_def)
qed

lemma bits_of_set_at:
  assumes "k < 64 * length ws"
  shows "bits_of (ws[k div 64 := ws ! (k div 64) OR bit_at (k mod 64)]) = insert k (bits_of ws)"
    and "bits_of (ws[k div 64 := ws ! (k div 64) AND NOT (bit_at (k mod 64))]) = bits_of ws - {k}"
    and "bits_of (ws[k div 64 := ws ! (k div 64) XOR bit_at (k mod 64)])
      = (if k \<in> bits_of ws then bits_of ws - {k} else insert k (bits_of ws))"
  using assms by (auto simp: bits_of_def wbit_set_at)

lemma change_of_bit:
  assumes "i < 64"
  shows "drop_bit i (w XOR (w OR bit_at i)) = (of_bool (\<not> bit w i) :: u64)"
    and "drop_bit i (w XOR (w AND NOT (bit_at i))) = (of_bool (bit w i) :: u64)"
    and "drop_bit i (bit_at i AND w) = (of_bool (bit w i) :: u64)"
proof -
  note b = bit_xor_iff bit_or_iff bit_and_iff bit_not_iff bit_single [OF assms] possible_bit_word
  have 1: "bit (w XOR (w OR bit_at i)) n \<longleftrightarrow> n = i \<and> \<not> bit w i" for n by (auto simp: b)
  have 2: "bit (w XOR (w AND NOT (bit_at i))) n \<longleftrightarrow> n = i \<and> bit w i" for n
    using bit_u64_bound [of w] by (auto simp: b)
  have 3: "bit (bit_at i AND w) n \<longleftrightarrow> n = i \<and> bit w i" for n by (auto simp: b)
  show "drop_bit i (w XOR (w OR bit_at i)) = (of_bool (\<not> bit w i) :: u64)"
    by (subst drop_bit_single [OF assms]) (simp_all only: 1 simp_thms)
  show "drop_bit i (w XOR (w AND NOT (bit_at i))) = (of_bool (bit w i) :: u64)"
    by (subst drop_bit_single [OF assms]) (simp_all only: 2 simp_thms)
  show "drop_bit i (bit_at i AND w) = (of_bool (bit w i) :: u64)"
    by (subst drop_bit_single [OF assms]) (simp_all only: 3 simp_thms)
qed

text \<open>The words and the count change together: the difference is the number of bits gained or lost.\<close>

definition count_of :: "u64 list \<Rightarrow> u64" where
  "count_of ws = word_of_nat (card (bits_of ws))"

lemma step_simps:
  assumes "length ws = 1024"
  shows "set_list_step p (ws, n) = (ws[unat p div 64 := ws ! (unat p div 64) OR bit_at (unat p mod 64)],
      n + of_bool (unat p \<notin> bits_of ws))"
    and "clear_list_step p (ws, n) = (ws[unat p div 64 := ws ! (unat p div 64) AND NOT (bit_at (unat p mod 64))],
      n - of_bool (unat p \<in> bits_of ws))"
    and "flip_list_step p (ws, n) = (ws[unat p div 64 := ws ! (unat p div 64) XOR bit_at (unat p mod 64)],
      n + (1 - 2 * of_bool (unat p \<in> bits_of ws)))"
proof -
  have m: "unat p mod 64 < 64" by simp
  have "unat p < 64 * length ws" using assms unat_u16_less [of p] by simp
  then have b: "bit (ws ! (unat p div 64)) (unat p mod 64) \<longleftrightarrow> unat p \<in> bits_of ws"
    by (simp add: bits_of_def wbit_def)
  note defs = set_list_step_def clear_list_step_def flip_list_step_def prod.case Let_def pos_offset pos_index
    change_of_bit [OF m] b
  show "set_list_step p (ws, n) = (ws[unat p div 64 := ws ! (unat p div 64) OR bit_at (unat p mod 64)],
      n + of_bool (unat p \<notin> bits_of ws))" by (simp only: defs)
  show "clear_list_step p (ws, n) = (ws[unat p div 64 := ws ! (unat p div 64) AND NOT (bit_at (unat p mod 64))],
      n - of_bool (unat p \<in> bits_of ws))" by (simp only: defs)
  show "flip_list_step p (ws, n) = (ws[unat p div 64 := ws ! (unat p div 64) XOR bit_at (unat p mod 64)],
      n + (1 - 2 * of_bool (unat p \<in> bits_of ws)))" by (simp only: defs)
qed

lemma list_steps_correct:
  assumes "length ws = 1024"
  shows "case set_list_step p (ws, n) of (ws', n') \<Rightarrow> length ws' = 1024 \<and>
       bits_of ws' = insert (unat p) (bits_of ws) \<and> n' - count_of ws' = n - count_of ws"
    and "case clear_list_step p (ws, n) of (ws', n') \<Rightarrow> length ws' = 1024 \<and>
       bits_of ws' = bits_of ws - {unat p} \<and> n' - count_of ws' = n - count_of ws"
    and "case flip_list_step p (ws, n) of (ws', n') \<Rightarrow> length ws' = 1024 \<and>
       bits_of ws' = sym_diff (bits_of ws) {unat p} \<and> n' - count_of ws' = n - count_of ws"
proof -
  have p: "unat p < 64 * length ws" using assms unat_u16_less [of p] by simp
  note bits = bits_of_set_at [OF p]
  have pos: "unat p \<in> bits_of ws \<Longrightarrow> 0 < card (bits_of ws)" by (auto simp: card_gt_0_iff)
  show "case set_list_step p (ws, n) of (ws', n') \<Rightarrow> length ws' = 1024 \<and>
       bits_of ws' = insert (unat p) (bits_of ws) \<and> n' - count_of ws' = n - count_of ws"
    using assms by (simp add: step_simps bits count_of_def card_insert_if)
  show "case clear_list_step p (ws, n) of (ws', n') \<Rightarrow> length ws' = 1024 \<and>
       bits_of ws' = bits_of ws - {unat p} \<and> n' - count_of ws' = n - count_of ws"
    using assms pos by (simp add: step_simps bits count_of_def of_nat_diff Suc_leI)
  show "case flip_list_step p (ws, n) of (ws', n') \<Rightarrow> length ws' = 1024 \<and>
       bits_of ws' = sym_diff (bits_of ws) {unat p} \<and> n' - count_of ws' = n - count_of ws"
    using assms pos
    by (cases "unat p \<in> bits_of ws") (auto simp: step_simps bits count_of_def of_nat_diff Suc_leI)
qed

text \<open>A fold of such steps, whatever each does to the set of bits.\<close>

definition keeps_count :: "(u64 list \<times> u64) \<Rightarrow> (u64 list \<times> u64) \<Rightarrow> nat set \<Rightarrow> bool" where
  "keeps_count x y S \<longleftrightarrow> length (fst y) = 1024 \<and> bits_of (fst y) = S
     \<and> snd y - count_of (fst y) = snd x - count_of (fst x)"

lemma fold_keeps_count:
  assumes "\<And>p x. length (fst x) = 1024 \<Longrightarrow> keeps_count x (step p x) (f (unat p) (bits_of (fst x)))"
  shows "length (fst x) = 1024 \<Longrightarrow>
     keeps_count x (fold step ps x) (fold (\<lambda>p. f (unat p)) ps (bits_of (fst x)))"
proof (induction ps arbitrary: x)
  case (Cons p ps)
  have "keeps_count x (step p x) (f (unat p) (bits_of (fst x)))" using assms Cons.prems .
  then show ?case using Cons.IH [of "step p x"] by (auto simp: keeps_count_def)
qed (simp add: keeps_count_def)

lemma fold_insert_set: "fold (\<lambda>p. insert (unat p)) ps S = S \<union> unat ` set ps"
  by (induction ps arbitrary: S) auto

lemma fold_remove_set: "fold (\<lambda>p S. S - {unat p}) ps S = S - unat ` set ps"
  by (induction ps arbitrary: S) auto

lemma inj_unat_u16: "inj (unat :: u16 \<Rightarrow> nat)"
  by (rule injI) (simp only: word_unat_eq_iff)

lemma sym_diff_insert: "a \<notin> T \<Longrightarrow> sym_diff (sym_diff S {a}) T = sym_diff S (insert a T)"
  by auto

lemma fold_flip_set: "distinct (ps :: u16 list) \<Longrightarrow> fold (\<lambda>p S. sym_diff S {unat p}) ps S = sym_diff S (unat ` set ps)"
proof (induction ps arbitrary: S)
  case (Cons p ps)
  then have "unat p \<notin> unat ` set ps" by (simp add: inj_image_mem_iff [OF inj_unat_u16])
  then show ?case using Cons sym_diff_insert [of "unat p" "unat ` set ps" S] by simp
qed simp

lemma bitset_lists_correct:
  assumes "length ws = 1024"
  shows "keeps_count (ws, n) (bitset_set_list_withcard ws n ps) (bits_of ws \<union> unat ` set ps)"
    and "keeps_count (ws, n) (bitset_clear_list ws n ps) (bits_of ws - unat ` set ps)"
    and "distinct ps \<Longrightarrow> keeps_count (ws, n) (bitset_flip_list_withcard ws n ps) (sym_diff (bits_of ws) (unat ` set ps))"
proof -
  have l: "length (fst (ws, n)) = 1024" using assms by simp
  have s: "keeps_count x (set_list_step p x) (insert (unat p) (bits_of (fst x)))"
    "keeps_count x (clear_list_step p x) (bits_of (fst x) - {unat p})"
    "keeps_count x (flip_list_step p x) (sym_diff (bits_of (fst x)) {unat p})"
    if "length (fst x) = 1024" for p x
    using list_steps_correct [OF that, of p "snd x"]
    by (auto simp: keeps_count_def split: prod.splits)
  show "keeps_count (ws, n) (bitset_set_list_withcard ws n ps) (bits_of ws \<union> unat ` set ps)"
    using fold_keeps_count [of set_list_step "\<lambda>k S. insert k S", OF s(1) l, of ps]
    by (simp add: bitset_set_list_withcard_def fold_insert_set)
  show "keeps_count (ws, n) (bitset_clear_list ws n ps) (bits_of ws - unat ` set ps)"
    using fold_keeps_count [of clear_list_step "\<lambda>k S. S - {k}", OF s(2) l, of ps]
    by (simp add: bitset_clear_list_def fold_remove_set)
  show "keeps_count (ws, n) (bitset_flip_list_withcard ws n ps) (sym_diff (bits_of ws) (unat ` set ps))" if "distinct ps"
    using fold_keeps_count [of flip_list_step "\<lambda>k S. sym_diff S {k}", OF s(3) l, of ps]
    by (simp add: bitset_flip_list_withcard_def fold_flip_set that)
qed

text \<open>The variants without a count write the same words.\<close>

lemma nocard_fold:
  assumes "\<And>p x. fst (step p x) = g p (fst x)"
  shows "fst (fold step ps x) = fold g ps (fst x)"
  by (induction ps arbitrary: x) (simp_all add: assms)

lemma bitset_lists_nocard:
  "bitset_set_list ws ps = fst (bitset_set_list_withcard ws n ps)"
  "bitset_flip_list ws ps = fst (bitset_flip_list_withcard ws n ps)"
  unfolding bitset_set_list_def bitset_set_list_withcard_def bitset_flip_list_def bitset_flip_list_withcard_def
  by (subst nocard_fold [where g = "\<lambda>pos words.
     let offset = unat (drop_bit 6 pos); index = unat (pos mod 64)
     in words[offset := words ! offset OR bit_at index]"], auto simp: set_list_step_def Let_def)
    (subst nocard_fold [where g = "\<lambda>pos words.
     let offset = unat (drop_bit 6 pos); index = unat (pos mod 64)
     in words[offset := words ! offset XOR bit_at index]"], auto simp: flip_list_step_def Let_def)

section \<open>Writing out the positions\<close>

text \<open>The loop \<open>while (w != 0)\<close>: write the lowest set bit plus \<open>base\<close>, clear it.\<close>

function extract_word :: "u64 \<Rightarrow> 'a::len word \<Rightarrow> 'a word list" where
  "extract_word w base =
     (if w \<noteq> 0 then (word_of_nat (roaring_trailing_zeroes w) + base) # extract_word (w AND (w - 1)) base
      else [])"
  by pat_completeness auto
termination
  by (relation "measure (\<lambda>(w, base). roaring_hamming w)") (auto simp: clear_lowest_less)

declare extract_word.simps [simp del]

fun bitset_extract_setbits_uint16 :: "u64 list \<Rightarrow> u16 \<Rightarrow> u16 list" where
  "bitset_extract_setbits_uint16 [] base = []"
| "bitset_extract_setbits_uint16 (w # words) base =
     extract_word w base @ bitset_extract_setbits_uint16 words (base + 64)"

fun bitset_extract_setbits :: "u64 list \<Rightarrow> u32 \<Rightarrow> u32 list" where
  "bitset_extract_setbits [] base = []"
| "bitset_extract_setbits (w # words) base =
     extract_word w base @ bitset_extract_setbits words (base + 64)"

fun bitset_extract_intersection_setbits_uint16 :: "u64 list \<Rightarrow> u64 list \<Rightarrow> u16 \<Rightarrow> u16 list" where
  "bitset_extract_intersection_setbits_uint16 (w1 # words1) (w2 # words2) base =
     extract_word (w1 AND w2) base @ bitset_extract_intersection_setbits_uint16 words1 words2 (base + 64)"
| "bitset_extract_intersection_setbits_uint16 _ _ base = []"

lemma extract_word_bits:
  "extract_word w base = map (\<lambda>n. word_of_nat n + base) (filter (bit w) [0 ..< 64])"
proof (induction w base rule: extract_word.induct)
  case (1 w base)
  show ?case
  proof (cases "w = 0")
    case True
    then show ?thesis by (simp add: extract_word.simps)
  next
    case False
    have "extract_word w base = (word_of_nat (roaring_trailing_zeroes w) + base) # extract_word (w AND (w - 1)) base"
      using False by (subst extract_word.simps) simp
    then show ?thesis unfolding filter_bits_step [OF False] list.map using 1 False by simp
  qed
qed

definition positions :: "u64 list \<Rightarrow> nat list" where
  "positions ws = filter (wbit ws) [0 ..< 64 * length ws]"

lemma set_positions: "set (positions ws) = bits_of ws"
  by (auto simp: positions_def bits_of_def)

lemma positions_ssorted: "ssorted (positions ws)"
  by (simp add: positions_def sorted_wrt_filter)

lemma positions_Nil [simp]: "positions [] = []"
  by (simp add: positions_def)

lemma positions_Cons:
  "positions (w # ws) = filter (bit w) [0 ..< 64] @ map (\<lambda>n. n + 64) (positions ws)"
proof (rule ssorted_set_unique)
  have "ssorted (map (\<lambda>n. n + 64) (positions ws))"
    using positions_ssorted [of ws] by (simp add: sorted_wrt_map)
  then show "ssorted (filter (bit w) [0 ..< 64] @ map (\<lambda>n. n + 64) (positions ws))"
    by (auto simp: sorted_wrt_append sorted_wrt_filter)
  show "set (positions (w # ws)) = set (filter (bit w) [0 ..< 64] @ map (\<lambda>n. n + 64) (positions ws))"
    unfolding set_positions bits_of_Cons by (auto simp: set_positions dest: bit_u64_bound)
qed (rule positions_ssorted)

lemma extract_setbits_positions:
  "bitset_extract_setbits ws base = map (\<lambda>n. word_of_nat n + base) (positions ws)"
  by (induction ws base rule: bitset_extract_setbits.induct)
    (simp_all add: positions_Cons extract_word_bits o_def add_ac)

lemma extract_setbits_uint16_positions:
  "bitset_extract_setbits_uint16 ws base = map (\<lambda>n. word_of_nat n + base) (positions ws)"
  by (induction ws base rule: bitset_extract_setbits_uint16.induct)
    (simp_all add: positions_Cons extract_word_bits o_def add_ac)

lemma extract_intersection_positions:
  "length ws1 = length ws2 \<Longrightarrow> bitset_extract_intersection_setbits_uint16 ws1 ws2 base
     = bitset_extract_setbits_uint16 (map2 (AND) ws1 ws2) base"
  by (induction ws1 ws2 base rule: bitset_extract_intersection_setbits_uint16.induct) simp_all

end
