(* ===== verification/Bitset_Container.thy ===== *)
theory Bitset_Container
  imports Container_Spec Bitset_Lists Array_Container
begin

text \<open>
  The bitset container of \<open>include/roaring/containers/bitset.h\<close> and
  \<open>src/containers/bitset.c\<close>: 1024 words of 64 bits and the number of set bits, or \<open>- 1\<close>
  where a lazy operation has left it unknown. The portable code is modelled; loops that are
  unrolled by hand (two or four words a round) are recursions over that many words a step.
  Functions that update a container in place return it.
\<close>

abbreviation BITSET_CONTAINER_SIZE_IN_WORDS :: nat where
  "BITSET_CONTAINER_SIZE_IN_WORDS \<equiv> 1024"

abbreviation BITSET_UNKNOWN_CARDINALITY :: int where
  "BITSET_UNKNOWN_CARDINALITY \<equiv> - 1"

record bitset_container =
  bc_cardinality :: int
  bc_words :: "u64 list"

definition bitset_abs :: "bitset_container \<Rightarrow> u16 set" where
  "bitset_abs b = {x. wbit (bc_words b) (unat x)}"

definition bitset_wf :: "bitset_container \<Rightarrow> bool" where
  "bitset_wf b \<longleftrightarrow> length (bc_words b) = 1024"

definition bitset_inv :: "bitset_container \<Rightarrow> bool" where
  "bitset_inv b \<longleftrightarrow> bitset_wf b \<and> bc_cardinality b = int (card (bitset_abs b))"

text \<open>After a lazy operation the cardinality may be unknown.\<close>

definition bitset_lazy_inv :: "bitset_container \<Rightarrow> bool" where
  "bitset_lazy_inv b \<longleftrightarrow> bitset_wf b \<and>
     (bc_cardinality b = BITSET_UNKNOWN_CARDINALITY \<or> bc_cardinality b = int (card (bitset_abs b)))"

section \<open>Creation and single values\<close>

definition bitset_container_clear :: "bitset_container \<Rightarrow> bitset_container" where
  "bitset_container_clear b = b\<lparr>bc_words := replicate 1024 0, bc_cardinality := 0\<rparr>"

definition bitset_container_set_all :: "bitset_container \<Rightarrow> bitset_container" where
  "bitset_container_set_all b = b\<lparr>bc_words := replicate 1024 (- 1), bc_cardinality := 65536\<rparr>"

definition bitset_container_create :: bitset_container where
  "bitset_container_create = \<lparr>bc_cardinality = 0, bc_words = replicate 1024 0\<rparr>"

definition bitset_container_copy :: "bitset_container \<Rightarrow> bitset_container \<Rightarrow> bitset_container" where
  "bitset_container_copy source dest = dest\<lparr>bc_cardinality := bc_cardinality source, bc_words := bc_words source\<rparr>"

definition bitset_container_clone :: "bitset_container \<Rightarrow> bitset_container" where
  "bitset_container_clone src = \<lparr>bc_cardinality = bc_cardinality src, bc_words = bc_words src\<rparr>"

definition bitset_container_set :: "bitset_container \<Rightarrow> u16 \<Rightarrow> bitset_container" where
  "bitset_container_set b pos =
     (let old_word = bc_words b ! unat (drop_bit 6 pos);
          index = unat (pos AND 63);
          new_word = old_word OR bit_at index
      in b\<lparr>bc_cardinality := bc_cardinality b + uint (ucast (drop_bit index (old_word XOR new_word)) :: u32),
           bc_words := (bc_words b)[unat (drop_bit 6 pos) := new_word]\<rparr>)"

definition bitset_container_add :: "bitset_container \<Rightarrow> u16 \<Rightarrow> bitset_container \<times> bool" where
  "bitset_container_add b pos =
     (let old_word = bc_words b ! unat (drop_bit 6 pos);
          index = unat (pos AND 63);
          new_word = old_word OR bit_at index;
          increment = drop_bit index (old_word XOR new_word)
      in (b\<lparr>bc_cardinality := bc_cardinality b + uint (ucast increment :: u32),
            bc_words := (bc_words b)[unat (drop_bit 6 pos) := new_word]\<rparr>, increment > 0))"

definition bitset_container_remove :: "bitset_container \<Rightarrow> u16 \<Rightarrow> bitset_container \<times> bool" where
  "bitset_container_remove b pos =
     (let old_word = bc_words b ! unat (drop_bit 6 pos);
          index = unat (pos AND 63);
          new_word = old_word AND NOT (bit_at index);
          increment = drop_bit index (old_word XOR new_word)
      in (b\<lparr>bc_cardinality := bc_cardinality b - uint (ucast increment :: u32),
            bc_words := (bc_words b)[unat (drop_bit 6 pos) := new_word]\<rparr>, increment > 0))"

definition bitset_container_get :: "bitset_container \<Rightarrow> u16 \<Rightarrow> bool" where
  "bitset_container_get b pos =
     (let word = bc_words b ! unat (drop_bit 6 pos)
      in drop_bit (unat (pos AND 63)) word AND 1 \<noteq> 0)"

definition bitset_container_contains :: "bitset_container \<Rightarrow> u16 \<Rightarrow> bool" where
  "bitset_container_contains b pos = bitset_container_get b pos"

definition bitset_container_get_range :: "bitset_container \<Rightarrow> u32 \<Rightarrow> u32 \<Rightarrow> bool" where
  "bitset_container_get_range b pos_start pos_end =
     (let start = unat (drop_bit 6 pos_start); end = unat (drop_bit 6 pos_end);
          first = NOT (bit_at (unat (pos_start AND 0x3F)) - 1);
          last = bit_at (unat (pos_end AND 0x3F)) - 1
      in if start = end then bc_words b ! end AND first AND last = first AND last
         else if bc_words b ! start AND first \<noteq> first then False
         else if end < 1024 \<and> bc_words b ! end AND last \<noteq> last then False
         else \<forall>i \<in> set [start + 1 ..< min 1024 end]. bc_words b ! i = 0xFFFFFFFFFFFFFFFF)"

definition bitset_container_contains_range :: "bitset_container \<Rightarrow> u32 \<Rightarrow> u32 \<Rightarrow> bool" where
  "bitset_container_contains_range b pos_start pos_end = bitset_container_get_range b pos_start pos_end"

section \<open>Counting\<close>

fun compute_cardinality_loop :: "u64 list \<Rightarrow> int \<Rightarrow> int" where
  "compute_cardinality_loop (w0 # w1 # w2 # w3 # words) count =
     compute_cardinality_loop words (count + int (roaring_hamming w0) + int (roaring_hamming w1)
       + int (roaring_hamming w2) + int (roaring_hamming w3))"
| "compute_cardinality_loop _ count = count"

definition bitset_container_compute_cardinality :: "bitset_container \<Rightarrow> int" where
  "bitset_container_compute_cardinality b = compute_cardinality_loop (bc_words b) 0"

definition bitset_container_empty :: "bitset_container \<Rightarrow> bool" where
  "bitset_container_empty b =
     (if bc_cardinality b = BITSET_UNKNOWN_CARDINALITY then \<forall>w \<in> set (bc_words b). w = 0
      else bc_cardinality b = 0)"

definition bitset_container_const_nonzero_cardinality :: "bitset_container \<Rightarrow> bool" where
  "bitset_container_const_nonzero_cardinality b \<longleftrightarrow> \<not> bitset_container_empty b"

section \<open>Ranges\<close>

definition bitset_container_set_range :: "bitset_container \<Rightarrow> u32 \<Rightarrow> u32 \<Rightarrow> bitset_container" where
  "bitset_container_set_range b begin end =
     (let b = b\<lparr>bc_words := bitset_set_range (bc_words b) begin end\<rparr>
      in b\<lparr>bc_cardinality := bitset_container_compute_cardinality b\<rparr>)"

text \<open>
  A step that divides 64 is a pattern repeated in every word (the cardinality is overwritten, the
  container is expected to be empty); otherwise the values are added one by one.
\<close>

partial_function (option) step_mask :: "u32 \<Rightarrow> u32 \<Rightarrow> u64 \<Rightarrow> u64 option" where
  "step_mask step value pattern =
     (if value < 64 then step_mask step (value + step) (pattern OR bit_at (unat value)) else Some pattern)"

partial_function (option) bitset_add_loop :: "u32 \<Rightarrow> u32 \<Rightarrow> u32 \<Rightarrow> bitset_container \<Rightarrow> bitset_container option" where
  "bitset_add_loop hi step value b =
     (if value < hi then bitset_add_loop hi step (value + step) (fst (bitset_container_add b (ucast value)))
      else Some b)"

definition bitset_container_add_from_range ::
    "bitset_container \<Rightarrow> u32 \<Rightarrow> u32 \<Rightarrow> u16 \<Rightarrow> bitset_container option" where
  "bitset_container_add_from_range b lo hi step =
     (if step = 0 then Some b
      else if 64 mod (ucast step :: u32) = 0
      then (case step_mask (ucast step) (lo mod ucast step) 0 of None \<Rightarrow> None
            | Some pattern \<Rightarrow>
                let firstword = unat (lo div 64); endword = unat ((hi - 1) div 64);
                    b = b\<lparr>bc_cardinality := sint ((hi - lo + ucast step - 1) div ucast step)\<rparr>;
                    words = bc_words b;
                    first = ones_from (unat (lo mod 64)); last = ones_upto (last_shift hi)
                in Some (if firstword = endword
                     then b\<lparr>bc_words := words[firstword := words ! firstword OR (pattern AND (first AND last))]\<rparr>
                     else b\<lparr>bc_words := (for_words (\<lambda>_. pattern) (firstword + 1) endword
                            (words[firstword := pattern AND first]))[endword := pattern AND last]\<rparr>))
      else bitset_add_loop hi (ucast step) lo b)"

section \<open>Binary operations\<close>

text \<open>
  The macro \<open>CROARING_BITSET_CONTAINER_FN(opname, opsymbol, ...)\<close> makes three functions from
  an operator on words: with cardinality, without (\<open>_nocard\<close>) and cardinality only
  (\<open>_justcard\<close>).
\<close>

fun bitset_op_loop :: "(u64 \<Rightarrow> u64 \<Rightarrow> u64) \<Rightarrow> u64 list \<Rightarrow> u64 list \<Rightarrow> int \<Rightarrow> u64 list \<times> int" where
  "bitset_op_loop f (a1 # a2 # as) (b1 # b2 # bs) count =
     (let word_1 = f a1 b1; word_2 = f a2 b2;
          (out, count) = bitset_op_loop f as bs (count + int (roaring_hamming word_1) + int (roaring_hamming word_2))
      in (word_1 # word_2 # out, count))"
| "bitset_op_loop f _ _ count = ([], count)"

definition bitset_container_fn :: "(u64 \<Rightarrow> u64 \<Rightarrow> u64) \<Rightarrow>
    bitset_container \<Rightarrow> bitset_container \<Rightarrow> bitset_container \<Rightarrow> bitset_container" where
  "bitset_container_fn f src_1 src_2 dst =
     (let (out, count) = bitset_op_loop f (bc_words src_1) (bc_words src_2) 0
      in dst\<lparr>bc_words := out, bc_cardinality := count\<rparr>)"

definition bitset_container_fn_nocard :: "(u64 \<Rightarrow> u64 \<Rightarrow> u64) \<Rightarrow>
    bitset_container \<Rightarrow> bitset_container \<Rightarrow> bitset_container \<Rightarrow> bitset_container" where
  "bitset_container_fn_nocard f src_1 src_2 dst =
     dst\<lparr>bc_words := map2 f (bc_words src_1) (bc_words src_2), bc_cardinality := BITSET_UNKNOWN_CARDINALITY\<rparr>"

definition bitset_container_fn_justcard :: "(u64 \<Rightarrow> u64 \<Rightarrow> u64) \<Rightarrow> bitset_container \<Rightarrow> bitset_container \<Rightarrow> int" where
  "bitset_container_fn_justcard f src_1 src_2 = snd (bitset_op_loop f (bc_words src_1) (bc_words src_2) 0)"

definition bitset_container_or where "bitset_container_or = bitset_container_fn (OR)"
definition bitset_container_and where "bitset_container_and = bitset_container_fn (AND)"
definition bitset_container_xor where "bitset_container_xor = bitset_container_fn (XOR)"
definition bitset_container_andnot where "bitset_container_andnot = bitset_container_fn (\<lambda>v w. v AND NOT w)"
definition bitset_container_or_nocard where "bitset_container_or_nocard = bitset_container_fn_nocard (OR)"
definition bitset_container_and_nocard where "bitset_container_and_nocard = bitset_container_fn_nocard (AND)"
definition bitset_container_xor_nocard where "bitset_container_xor_nocard = bitset_container_fn_nocard (XOR)"
definition bitset_container_andnot_nocard where
  "bitset_container_andnot_nocard = bitset_container_fn_nocard (\<lambda>v w. v AND NOT w)"
definition bitset_container_or_justcard where "bitset_container_or_justcard = bitset_container_fn_justcard (OR)"
definition bitset_container_and_justcard where "bitset_container_and_justcard = bitset_container_fn_justcard (AND)"
definition bitset_container_xor_justcard where "bitset_container_xor_justcard = bitset_container_fn_justcard (XOR)"
definition bitset_container_andnot_justcard where
  "bitset_container_andnot_justcard = bitset_container_fn_justcard (\<lambda>v w. v AND NOT w)"

definition bitset_container_intersect :: "bitset_container \<Rightarrow> bitset_container \<Rightarrow> bool" where
  "bitset_container_intersect src_1 src_2 \<longleftrightarrow>
     (\<exists>i \<in> set [0 ..< 1024]. bc_words src_1 ! i AND bc_words src_2 ! i \<noteq> 0)"

definition bitset_container_equals :: "bitset_container \<Rightarrow> bitset_container \<Rightarrow> bool" where
  "bitset_container_equals container1 container2 =
     (if bc_cardinality container1 \<noteq> BITSET_UNKNOWN_CARDINALITY
         \<and> bc_cardinality container2 \<noteq> BITSET_UNKNOWN_CARDINALITY
         \<and> bc_cardinality container1 \<noteq> bc_cardinality container2 then False
      else if bc_cardinality container1 \<noteq> BITSET_UNKNOWN_CARDINALITY
         \<and> bc_cardinality container2 \<noteq> BITSET_UNKNOWN_CARDINALITY
         \<and> bc_cardinality container1 = 0x10000 then True
      else bc_words container1 = bc_words container2)"

definition bitset_container_is_subset :: "bitset_container \<Rightarrow> bitset_container \<Rightarrow> bool" where
  "bitset_container_is_subset container1 container2 =
     (if bc_cardinality container1 \<noteq> BITSET_UNKNOWN_CARDINALITY
         \<and> bc_cardinality container2 \<noteq> BITSET_UNKNOWN_CARDINALITY
         \<and> bc_cardinality container1 > bc_cardinality container2 then False
      else \<forall>i \<in> set [0 ..< 1024]. bc_words container1 ! i AND bc_words container2 ! i = bc_words container1 ! i)"

section \<open>Order queries and enumeration\<close>

fun bitset_min_loop :: "u64 list \<Rightarrow> nat \<Rightarrow> u16" where
  "bitset_min_loop [] i = 0xFFFF"
| "bitset_min_loop (w # words) i =
     (if w \<noteq> 0 then word_of_nat (roaring_trailing_zeroes w + i * 64) else bitset_min_loop words (i + 1))"

definition bitset_container_minimum :: "bitset_container \<Rightarrow> u16" where
  "bitset_container_minimum b = bitset_min_loop (bc_words b) 0"

text \<open>The loop \<open>for (i = BITSET_CONTAINER_SIZE_IN_WORDS - 1; i > 0; --i)\<close>, which leaves out word 0.\<close>

fun bitset_max_loop :: "u64 list \<Rightarrow> nat \<Rightarrow> u16" where
  "bitset_max_loop words 0 = 0"
| "bitset_max_loop words (Suc i) =
     (let w = words ! Suc i
      in if w \<noteq> 0 then word_of_nat (Suc i * 64 + 63 - roaring_leading_zeroes w) else bitset_max_loop words i)"

definition bitset_container_maximum :: "bitset_container \<Rightarrow> u16" where
  "bitset_container_maximum b = bitset_max_loop (bc_words b) (1024 - 1)"

text \<open>The bits up to \<open>x % 64\<close>: \<open>lastpos + lastpos - 1\<close>, "smear right".\<close>

definition smear_right :: "u16 \<Rightarrow> u64" where
  "smear_right x = (let lastpos = bit_at (unat (x mod 64)) in lastpos + lastpos - 1)"

definition bitset_container_rank :: "bitset_container \<Rightarrow> u16 \<Rightarrow> nat" where
  "bitset_container_rank b x =
     (let end = unat (x div 64);
          count = fold (\<lambda>i count. count + roaring_hamming (bc_words b ! i)) [0 ..< end] 0
      in count + roaring_hamming (bc_words b ! end AND smear_right x))"

text \<open>The state of the loop over the queries: the word index \<open>i\<close> and the bits counted before it.\<close>

fun bitset_rank_many_loop :: "u64 list \<Rightarrow> u64 \<Rightarrow> u16 \<Rightarrow> nat \<Rightarrow> nat \<Rightarrow> u32 list \<Rightarrow> u64 list" where
  "bitset_rank_many_loop words start_rank high i count [] = []"
| "bitset_rank_many_loop words start_rank high i count (x # iter) =
     (if ucast (drop_bit 16 x) \<noteq> high then []
      else let xlow = ucast x :: u16;
               end = unat (xlow div 64);
               count = fold (\<lambda>i count. count + roaring_hamming (words ! i)) [i ..< end] count;
               i = max i end
           in (start_rank + of_nat count + of_nat (roaring_hamming (words ! i AND smear_right xlow)))
                # bitset_rank_many_loop words start_rank high i count iter)"

definition bitset_container_rank_many :: "bitset_container \<Rightarrow> u64 \<Rightarrow> u32 list \<Rightarrow> nat \<times> u64 list" where
  "bitset_container_rank_many b start_rank queries =
     (let ans = bitset_rank_many_loop (bc_words b) start_rank (ucast (drop_bit 16 (hd queries))) 0 0 queries
      in (length ans, ans))"

definition bitset_container_get_index :: "bitset_container \<Rightarrow> u16 \<Rightarrow> int" where
  "bitset_container_get_index b x =
     (if bitset_container_get b x
      then let end = unat (x div 64);
               count = fold (\<lambda>i count. count + roaring_hamming (bc_words b ! i)) [0 ..< end] 0
           in int (count + roaring_hamming (bc_words b ! end AND smear_right x)) - 1
      else - 1)"

text \<open>The loop \<open>while (word == 0)\<close>: the current word, the words after it and the index \<open>k\<close>.\<close>

fun equalorlarger_loop :: "u64 \<Rightarrow> u64 list \<Rightarrow> nat \<Rightarrow> int" where
  "equalorlarger_loop word rest k =
     (if word = 0 then (case rest of [] \<Rightarrow> - 1 | word' # rest' \<Rightarrow> equalorlarger_loop word' rest' (k + 1))
      else int (k * 64 + roaring_trailing_zeroes word))"

definition bitset_container_index_equalorlarger :: "bitset_container \<Rightarrow> u16 \<Rightarrow> int" where
  "bitset_container_index_equalorlarger b x =
     (let k = unat (x div 64);
          diff = unat x - k * 64;
          word = push_bit diff (drop_bit diff (bc_words b ! k))
      in equalorlarger_loop word (drop (k + 1) (bc_words b)) k)"

text \<open>Selection inside a word and over the words; \<open>Inl\<close> is the rank reached without a hit.\<close>

function select_word :: "u64 \<Rightarrow> u16 \<Rightarrow> u32 \<Rightarrow> u32 \<Rightarrow> u32 + u32" where
  "select_word w base start_rank rank =
     (if w \<noteq> 0
      then if start_rank = rank then Inr (word_of_nat (roaring_trailing_zeroes w) + ucast base)
           else select_word (w AND (w - 1)) base (start_rank + 1) rank
      else Inl start_rank)"
  by pat_completeness auto
termination
  by (relation "measure (\<lambda>(w, base, start, rank). roaring_hamming w)") (auto simp: clear_lowest_less)

declare select_word.simps [simp del]

fun select_words :: "u64 list \<Rightarrow> nat \<Rightarrow> u32 \<Rightarrow> u32 \<Rightarrow> u32 + u32" where
  "select_words [] i start_rank rank = Inl start_rank"
| "select_words (w # words) i start_rank rank =
     (let count = word_of_nat (roaring_hamming w)
      in if rank \<le> start_rank + count
         then case select_word w (word_of_nat (i * 64)) start_rank rank of
                Inr element \<Rightarrow> Inr element
              | Inl start_rank \<Rightarrow> select_words words (i + 1) start_rank rank
         else select_words words (i + 1) (start_rank + count) rank)"

definition bitset_container_select :: "bitset_container \<Rightarrow> u32 \<Rightarrow> u32 \<Rightarrow> u32 + u32" where
  "bitset_container_select b start_rank rank =
     (let n = of_int (bc_cardinality b)
      in if rank \<ge> start_rank + n then Inl (start_rank + n)
         else select_words (bc_words b) 0 start_rank rank)"

fun bitset_runs_loop :: "u64 list \<Rightarrow> nat \<Rightarrow> nat" where
  "bitset_runs_loop (word # next_word # words) num_runs =
     bitset_runs_loop (next_word # words)
       (num_runs + roaring_hamming (NOT word AND push_bit 1 word) + unat (drop_bit 63 word AND NOT next_word))"
| "bitset_runs_loop [word] num_runs =
     (let num_runs = num_runs + roaring_hamming (NOT word AND push_bit 1 word)
      in if word AND 0x8000000000000000 \<noteq> 0 then num_runs + 1 else num_runs)"
| "bitset_runs_loop [] num_runs = num_runs"

definition bitset_container_number_of_runs :: "bitset_container \<Rightarrow> nat" where
  "bitset_container_number_of_runs b = bitset_runs_loop (bc_words b) 0"

definition bitset_container_to_uint32_array :: "bitset_container \<Rightarrow> u32 \<Rightarrow> u32 list" where
  "bitset_container_to_uint32_array b base = bitset_extract_setbits (bc_words b) base"

datatype bitset_validate_error = Cardinality_Incorrect | Cardinality_Too_Small

definition bitset_container_validate :: "bitset_container \<Rightarrow> bitset_validate_error option" where
  "bitset_container_validate b =
     (if bc_cardinality b \<noteq> bitset_container_compute_cardinality b then Some Cardinality_Incorrect
      else if bc_cardinality b \<le> DEFAULT_MAX_SIZE then Some Cardinality_Too_Small
      else None)"

text \<open>\<open>while (w != 0)\<close> of the iterators: the lowest bit is isolated with \<open>w & (~w + 1)\<close>.\<close>

function iterate_word :: "(u32 \<Rightarrow> 's \<Rightarrow> bool \<times> 's) \<Rightarrow> u64 \<Rightarrow> u32 \<Rightarrow> 's \<Rightarrow> bool \<times> 's" where
  "iterate_word iterator w base ptr =
     (if w \<noteq> 0
      then let t = w AND (NOT w + 1); r = roaring_trailing_zeroes w
           in case iterator (word_of_nat r + base) ptr of (continue, ptr') \<Rightarrow>
                if \<not> continue then (False, ptr') else iterate_word iterator (w XOR t) base ptr'
      else (True, ptr))"
  by pat_completeness auto
termination
  by (relation "measure (\<lambda>(it, w, base, ptr). roaring_hamming w)") (auto simp: xor_lowest clear_lowest_less)

declare iterate_word.simps [simp del]

fun iterate_words :: "(u32 \<Rightarrow> 's \<Rightarrow> bool \<times> 's) \<Rightarrow> u64 list \<Rightarrow> u32 \<Rightarrow> 's \<Rightarrow> bool \<times> 's" where
  "iterate_words iterator [] base ptr = (True, ptr)"
| "iterate_words iterator (w # words) base ptr =
     (case iterate_word iterator w base ptr of (continue, ptr') \<Rightarrow>
        if \<not> continue then (False, ptr') else iterate_words iterator words (base + 64) ptr')"

definition bitset_container_iterate ::
    "bitset_container \<Rightarrow> u32 \<Rightarrow> (u32 \<Rightarrow> 's \<Rightarrow> bool \<times> 's) \<Rightarrow> 's \<Rightarrow> bool \<times> 's" where
  "bitset_container_iterate b base iterator ptr = iterate_words iterator (bc_words b) base ptr"

definition bitset_container_iterate64 ::
    "bitset_container \<Rightarrow> u32 \<Rightarrow> (u64 \<Rightarrow> 's \<Rightarrow> bool \<times> 's) \<Rightarrow> u64 \<Rightarrow> 's \<Rightarrow> bool \<times> 's" where
  "bitset_container_iterate64 b base iterator high_bits ptr =
     iterate_words (\<lambda>v. iterator (high_bits OR ucast v)) (bc_words b) base ptr"

section \<open>Shifting and bytes\<close>

text \<open>
  The low part: \<open>memcpy\<close> when the offset is a multiple of 64, otherwise each word is joined
  from two neighbours.
\<close>

definition bitset_offset_low :: "u64 list \<Rightarrow> nat \<Rightarrow> nat \<Rightarrow> nat \<Rightarrow> u64 list" where
  "bitset_offset_low c b i end =
     (let words = replicate 1024 0
      in if i = 0 then fold (\<lambda>k words. words[b + k := c ! k]) [0 ..< end] words
         else fold (\<lambda>k words. words[b + k := push_bit i (c ! k) OR drop_bit (64 - i) (c ! (k - 1))])
                [1 ..< end] (words[b := push_bit i (c ! 0)]))"

definition bitset_offset_high :: "u64 list \<Rightarrow> nat \<Rightarrow> nat \<Rightarrow> nat \<Rightarrow> u64 list \<Rightarrow> u64 list" where
  "bitset_offset_high c b i end words =
     (if i = 0 then fold (\<lambda>k words. words[k := c ! (end + k)]) [0 ..< b] words
      else (fold (\<lambda>k words. words[k - end := push_bit i (c ! k) OR drop_bit (64 - i) (c ! (k - 1))])
             [end ..< 1024] words)[b := drop_bit (64 - i) (c ! 1023)])"

definition bitset_container_offset :: "bitset_container \<Rightarrow> bool \<Rightarrow> bool \<Rightarrow> u16 \<Rightarrow>
    bitset_container option \<times> bitset_container option" where
  "bitset_container_offset c want_lo want_hi offset =
     (let b = unat (drop_bit 6 offset); i = unat (offset mod 64); end = 1024 - b;
          lo = bitset_container_create\<lparr>bc_words := bitset_offset_low (bc_words c) b i end\<rparr>;
          lo = lo\<lparr>bc_cardinality := bitset_container_compute_cardinality lo\<rparr>;
          loc = (if want_lo \<and> bc_cardinality lo \<noteq> 0 then Some lo else None)
      in if want_lo \<and> bc_cardinality lo = bc_cardinality c then (loc, None)
         else if \<not> want_hi then (loc, None)
         else let bc = (if want_lo \<and> bc_cardinality lo = 0 then lo else bitset_container_create);
                  bc = bc\<lparr>bc_words := bitset_offset_high (bc_words c) b i end (bc_words bc)\<rparr>;
                  bc = bc\<lparr>bc_cardinality := bitset_container_compute_cardinality bc\<rparr>
              in (loc, if bc_cardinality bc = 0 then None else Some bc))"

definition u64_to_le :: "u64 \<Rightarrow> u8 list" where
  "u64_to_le w = map (\<lambda>k. ucast (drop_bit (8 * k) w)) [0 ..< 8]"

definition u64_from_le :: "u8 list \<Rightarrow> u64" where
  "u64_from_le bytes = fold (\<lambda>k w. w OR push_bit (8 * k) (ucast (bytes ! k))) [0 ..< 8] 0"

definition bitset_container_size_in_bytes :: int where
  "bitset_container_size_in_bytes = 8192"

definition bitset_container_write :: "bitset_container \<Rightarrow> u8 list \<times> int" where
  "bitset_container_write b = (concat (map u64_to_le (bc_words b)), bitset_container_size_in_bytes)"

definition bitset_container_read :: "int \<Rightarrow> bitset_container \<Rightarrow> u8 list \<Rightarrow> bitset_container \<times> int" where
  "bitset_container_read cardinality b buf =
     (b\<lparr>bc_cardinality := cardinality,
        bc_words := map (\<lambda>i. u64_from_le (take 8 (drop (8 * i) buf))) [0 ..< 1024]\<rparr>,
      bitset_container_size_in_bytes)"

section \<open>The set of a bitset\<close>

lemma bits_of_abs: "bitset_wf b \<Longrightarrow> bits_of (bc_words b) = unat ` bitset_abs b"
proof (intro set_eqI iffI)
  fix n assume wf: "bitset_wf b" and n: "n \<in> bits_of (bc_words b)"
  then have "n < 65536" by (simp add: bits_of_def bitset_wf_def)
  then have "n = unat (word_of_nat n :: u16)" by simp
  then show "n \<in> unat ` bitset_abs b" using n by (auto simp: bitset_abs_def bits_of_def)
next
  fix n assume "bitset_wf b" "n \<in> unat ` bitset_abs b"
  then show "n \<in> bits_of (bc_words b)" by (auto simp: bitset_abs_def bits_of_def bitset_wf_def)
qed

lemma abs_of_bits: "bitset_wf b \<Longrightarrow> x \<in> bitset_abs b \<longleftrightarrow> unat x \<in> bits_of (bc_words b)"
  by (simp add: bitset_abs_def bits_of_def bitset_wf_def)

lemma card_bitset_abs: "bitset_wf b \<Longrightarrow> card (bitset_abs b) = card (bits_of (bc_words b))"
  by (simp add: bits_of_abs card_image inj_unat_u16 [THEN inj_on_subset])

lemma bitset_abs_eq_iff: "bitset_wf a \<Longrightarrow> bitset_wf b \<Longrightarrow> bc_words a = bc_words b \<longleftrightarrow> bitset_abs a = bitset_abs b"
proof
  assume wf: "bitset_wf a" "bitset_wf b" and "bitset_abs a = bitset_abs b"
  then have "bits_of (bc_words a) = bits_of (bc_words b)" by (simp add: bits_of_abs)
  then show "bc_words a = bc_words b"
    using wf by (intro words_eqI) (auto simp: bitset_wf_def bits_of_def)
qed (simp add: bitset_abs_def)

lemma bitset_inv_wf: "bitset_inv b \<Longrightarrow> bitset_wf b"
  and bitset_inv_card: "bitset_inv b \<Longrightarrow> bc_cardinality b = int (card (bitset_abs b))"
  and bitset_inv_lazy: "bitset_inv b \<Longrightarrow> bitset_lazy_inv b"
  and bitset_lazy_wf: "bitset_lazy_inv b \<Longrightarrow> bitset_wf b"
  by (simp_all add: bitset_inv_def bitset_lazy_inv_def)

lemma compute_cardinality_loop_eq:
  "length ws mod 4 = 0 \<Longrightarrow> compute_cardinality_loop ws n = n + int (sum_list (map roaring_hamming ws))"
  by (induction ws n rule: compute_cardinality_loop.induct) simp_all

lemma compute_cardinality_correct:
  "bitset_wf b \<Longrightarrow> bitset_container_compute_cardinality b = int (card (bitset_abs b))"
  by (simp add: bitset_container_compute_cardinality_def compute_cardinality_loop_eq bitset_wf_def
      card_bitset_abs card_bits_of)

lemma bitset_recount:
  "length ws = 1024 \<Longrightarrow> bitset_inv (let b = b\<lparr>bc_words := ws\<rparr> in
     b\<lparr>bc_cardinality := bitset_container_compute_cardinality b\<rparr>)"
  using compute_cardinality_correct [of "b\<lparr>bc_words := ws\<rparr>"]
  by (simp add: bitset_inv_def bitset_wf_def bitset_abs_def Let_def)

lemma bitset_empty_abs: "bc_words b = replicate 1024 0 \<Longrightarrow> bitset_abs b = {}"
  by (simp add: bitset_abs_def wbit_def)

lemma bitset_create_correct:
  "bitset_inv bitset_container_create" "bitset_abs bitset_container_create = {}"
  "bitset_inv (bitset_container_clear b)" "bitset_abs (bitset_container_clear b) = {}"
  by (simp_all add: bitset_inv_def bitset_wf_def bitset_empty_abs bitset_container_create_def
      bitset_container_clear_def)

lemma bitset_set_all_correct:
  "bitset_inv (bitset_container_set_all b)" "bitset_abs (bitset_container_set_all b) = UNIV"
proof -
  show a: "bitset_abs (bitset_container_set_all b) = UNIV"
    by (auto simp: bitset_abs_def bitset_container_set_all_def wbit_def bit_minus_one_64)
  show "bitset_inv (bitset_container_set_all b)"
    unfolding bitset_inv_def a by (simp add: bitset_wf_def bitset_container_set_all_def card_word)
qed

section \<open>Single values\<close>

lemma pos_and_63 [simp]: "unat (pos AND 63 :: u16) = unat pos mod 64"
proof -
  have "pos AND 63 = take_bit 6 pos" by (simp add: take_bit_eq_mask mask_numeral)
  then show ?thesis by (simp add: unsigned_take_bit_eq take_bit_eq_mod)
qed

lemma bitset_contains_correct: "bitset_wf b \<Longrightarrow> bitset_container_contains b x \<longleftrightarrow> x \<in> bitset_abs b"
  by (simp add: bitset_container_contains_def bitset_container_get_def Let_def bitset_abs_def wbit_def
      and_one_eq odd_iff_mod_2_eq_one bit_iff_odd_drop_bit)

lemma bitset_add_eq:
  assumes "bitset_wf b"
  shows "bitset_container_add b x = (b\<lparr>bc_cardinality := bc_cardinality b + of_bool (x \<notin> bitset_abs b),
      bc_words := (bc_words b)[unat x div 64 := bc_words b ! (unat x div 64) OR bit_at (unat x mod 64)]\<rparr>,
      x \<notin> bitset_abs b)"
    and "bitset_container_remove b x = (b\<lparr>bc_cardinality := bc_cardinality b - of_bool (x \<in> bitset_abs b),
      bc_words := (bc_words b)[unat x div 64 := bc_words b ! (unat x div 64) AND NOT (bit_at (unat x mod 64))]\<rparr>,
      x \<in> bitset_abs b)"
proof -
  have m: "unat x mod 64 < 64" by simp
  have b: "bit (bc_words b ! (unat x div 64)) (unat x mod 64) \<longleftrightarrow> x \<in> bitset_abs b"
    by (simp add: bitset_abs_def wbit_def)
  show "bitset_container_add b x = (b\<lparr>bc_cardinality := bc_cardinality b + of_bool (x \<notin> bitset_abs b),
      bc_words := (bc_words b)[unat x div 64 := bc_words b ! (unat x div 64) OR bit_at (unat x mod 64)]\<rparr>,
      x \<notin> bitset_abs b)"
    unfolding bitset_container_add_def Let_def pos_offset pos_and_63 change_of_bit [OF m] b by simp
  show "bitset_container_remove b x = (b\<lparr>bc_cardinality := bc_cardinality b - of_bool (x \<in> bitset_abs b),
      bc_words := (bc_words b)[unat x div 64 := bc_words b ! (unat x div 64) AND NOT (bit_at (unat x mod 64))]\<rparr>,
      x \<in> bitset_abs b)"
    unfolding bitset_container_remove_def Let_def pos_offset pos_and_63 change_of_bit [OF m] b by simp
qed

lemma bitset_single_abs:
  assumes wf: "bitset_wf b"
  shows "bitset_abs (b\<lparr>bc_cardinality := n, bc_words := (bc_words b)[unat x div 64 :=
      bc_words b ! (unat x div 64) OR bit_at (unat x mod 64)]\<rparr>) = insert x (bitset_abs b)"
    and "bitset_abs (b\<lparr>bc_cardinality := n, bc_words := (bc_words b)[unat x div 64 :=
      bc_words b ! (unat x div 64) AND NOT (bit_at (unat x mod 64))]\<rparr>) = bitset_abs b - {x}"
proof -
  have "unat x < 64 * length (bc_words b)" using wf unat_u16_less [of x] by (simp add: bitset_wf_def)
  note w = wbit_set_at [OF this]
  show "bitset_abs (b\<lparr>bc_cardinality := n, bc_words := (bc_words b)[unat x div 64 :=
      bc_words b ! (unat x div 64) OR bit_at (unat x mod 64)]\<rparr>) = insert x (bitset_abs b)"
    by (auto simp: bitset_abs_def w word_unat_eq_iff)
  show "bitset_abs (b\<lparr>bc_cardinality := n, bc_words := (bc_words b)[unat x div 64 :=
      bc_words b ! (unat x div 64) AND NOT (bit_at (unat x mod 64))]\<rparr>) = bitset_abs b - {x}"
    by (auto simp: bitset_abs_def w word_unat_eq_iff)
qed

lemma bitset_add_correct:
  assumes "bitset_inv b"
  shows "bitset_inv (fst (bitset_container_add b x)) \<and> bitset_abs (fst (bitset_container_add b x)) = insert x (bitset_abs b)
     \<and> (snd (bitset_container_add b x) \<longleftrightarrow> x \<notin> bitset_abs b)"
proof -
  have wf: "bitset_wf b" using assms by (rule bitset_inv_wf)
  have "bitset_wf (fst (bitset_container_add b x))" using wf by (simp add: bitset_add_eq wf bitset_wf_def)
  then show ?thesis using assms
    by (simp add: bitset_inv_def bitset_add_eq [OF wf] bitset_single_abs [OF wf] card_insert_if)
qed

lemma bitset_remove_correct:
  assumes "bitset_inv b"
  shows "bitset_inv (fst (bitset_container_remove b x)) \<and> bitset_abs (fst (bitset_container_remove b x)) = bitset_abs b - {x}
     \<and> (snd (bitset_container_remove b x) \<longleftrightarrow> x \<in> bitset_abs b)"
proof -
  have wf: "bitset_wf b" using assms by (rule bitset_inv_wf)
  have "bitset_wf (fst (bitset_container_remove b x))" using wf by (simp add: bitset_add_eq wf bitset_wf_def)
  moreover have "x \<in> bitset_abs b \<Longrightarrow> 0 < card (bitset_abs b)" by (auto simp: card_gt_0_iff)
  ultimately show ?thesis using assms
    by (simp add: bitset_inv_def bitset_add_eq [OF wf] bitset_single_abs [OF wf] of_nat_diff Suc_leI)
qed

lemma bitset_set_eq_add: "bitset_container_set b x = fst (bitset_container_add b x)"
  by (simp add: bitset_container_set_def bitset_container_add_def Let_def)

interpretation bc: container bitset_inv bitset_abs bitset_container_contains bitset_container_add
  bitset_container_remove bc_cardinality
  by (unfold_locales; (rule bitset_contains_correct [OF bitset_inv_wf] bitset_add_correct
    bitset_remove_correct bitset_inv_card; assumption))

section \<open>Ranges\<close>

lemma bitset_set_range_correct:
  assumes wf: "bitset_wf b" and r: "unat s \<le> unat e" "unat e \<le> 65536"
  shows "bitset_inv (bitset_container_set_range b s e)"
    and "bitset_abs (bitset_container_set_range b s e) = bitset_abs b \<union> u16_range (unat s) (unat e)"
proof -
  have l: "64 * length (bc_words b) = 65536" using wf by (simp add: bitset_wf_def)
  show "bitset_inv (bitset_container_set_range b s e)"
    unfolding bitset_container_set_range_def using wf by (intro bitset_recount) (simp add: bitset_wf_def)
  show "bitset_abs (bitset_container_set_range b s e) = bitset_abs b \<union> u16_range (unat s) (unat e)"
  proof (cases "s = e")
    case True
    then show ?thesis by (auto simp: bitset_container_set_range_def Let_def bitset_abs_def bitset_set_range_def)
  next
    case False
    then have "unat s < unat e" using r(1) by (metis le_neq_implies_less word_unat_eq_iff)
    then show ?thesis using wbit_set_range [of s e "bc_words b"] r(2) l
      by (auto simp: bitset_container_set_range_def Let_def bitset_abs_def)
  qed
qed

lemma bitset_words_range:
  assumes wf: "bitset_wf b" and r: "unat s < unat e" "unat e \<le> 65536"
  shows "bitset_abs (b\<lparr>bc_words := bitset_set_range (bc_words b) s e\<rparr>) = bitset_abs b \<union> u16_range (unat s) (unat e)"
    and "bitset_abs (b\<lparr>bc_words := bitset_reset_range (bc_words b) s e\<rparr>) = bitset_abs b - u16_range (unat s) (unat e)"
    and "bitset_abs (b\<lparr>bc_words := bitset_flip_range (bc_words b) s e\<rparr>) = sym_diff (bitset_abs b) (u16_range (unat s) (unat e))"
proof -
  have l: "64 * length (bc_words b) = 65536" using wf by (simp add: bitset_wf_def)
  note w = wbit_set_range [OF r(1), of "bc_words b"] wbit_reset_range [OF r(1), of "bc_words b"]
    wbit_flip_range [OF r(1), of "bc_words b"]
  show "bitset_abs (b\<lparr>bc_words := bitset_set_range (bc_words b) s e\<rparr>) = bitset_abs b \<union> u16_range (unat s) (unat e)"
    using w(1) l r by (auto simp: bitset_abs_def)
  show "bitset_abs (b\<lparr>bc_words := bitset_reset_range (bc_words b) s e\<rparr>) = bitset_abs b - u16_range (unat s) (unat e)"
    using w(2) l r by (auto simp: bitset_abs_def)
  show "bitset_abs (b\<lparr>bc_words := bitset_flip_range (bc_words b) s e\<rparr>) = sym_diff (bitset_abs b) (u16_range (unat s) (unat e))"
    using w(3) l r by (auto simp: bitset_abs_def)
qed

text \<open>
  \<open>get_range\<close> answers whether a non-empty range is contained in the set. (On the empty range
  at the top, \<open>pos_start = pos_end = 2 ^ 16\<close>, the C code reads word 1024, behind the array.)
\<close>

lemma bit_below_mask: "k < 64 \<Longrightarrow> m < 64 \<Longrightarrow> bit (bit_at k - 1) m \<longleftrightarrow> m < k"
  and bit_above_mask: "k < 64 \<Longrightarrow> m < 64 \<Longrightarrow> bit (NOT (bit_at k - 1)) m \<longleftrightarrow> k \<le> m"
proof -
  have "bit_at k - 1 = mask k" by (simp add: bit_at_def mask_eq_exp_minus_1 push_bit_eq_mult)
  then show "k < 64 \<Longrightarrow> m < 64 \<Longrightarrow> bit (bit_at k - 1) m \<longleftrightarrow> m < k"
    by (simp add: bit_mask_iff possible_bit_word)
  then show "k < 64 \<Longrightarrow> m < 64 \<Longrightarrow> bit (NOT (bit_at k - 1)) m \<longleftrightarrow> k \<le> m"
    by (auto simp: bit_not_64)
qed

lemma and_eq_mask: "w AND v = v \<longleftrightarrow> (\<forall>m < 64. bit v m \<longrightarrow> bit (w :: u64) m)"
  by (auto simp: bit_eq_iff bit_and_iff possible_bit_word)

lemma pos_and_0x3F [simp]: "unat (pos AND 0x3F :: u32) = unat pos mod 64"
proof -
  have "pos AND 0x3F = take_bit 6 pos" by (simp add: take_bit_eq_mask mask_numeral)
  then show ?thesis by (simp add: unsigned_take_bit_eq take_bit_eq_mod unat_mod_distrib)
qed

lemma pos_offset32 [simp]: "unat (drop_bit 6 (pos :: u32)) = unat pos div 64"
  by (simp add: drop_bit_eq_div unat_div_distrib)

lemma all_ones: "w = 0xFFFFFFFFFFFFFFFF \<longleftrightarrow> (\<forall>m < 64. bit (w :: u64) m)"
proof -
  have "(0xFFFFFFFFFFFFFFFF :: u64) = - 1" by simp
  then show ?thesis by (auto simp: bit_eq_iff possible_bit_word)
qed

lemma range_by_word:
  "(\<forall>n. s \<le> n \<and> n < e \<longrightarrow> P n) \<longleftrightarrow> (\<forall>i. \<forall>m < 64. s \<le> 64 * i + m \<and> 64 * i + m < e \<longrightarrow> P (64 * i + m))" for e :: nat
proof
  assume h: "\<forall>i. \<forall>m < 64. s \<le> 64 * i + m \<and> 64 * i + m < e \<longrightarrow> P (64 * i + m)"
  show "\<forall>n. s \<le> n \<and> n < e \<longrightarrow> P n"
  proof (intro allI impI)
    fix n assume "s \<le> n \<and> n < e"
    then show "P n" using h [rule_format, of "n mod 64" "n div 64"] by simp
  qed
qed simp

lemma lex64:
  fixes a i p m :: nat
  assumes "p < 64" and "m < 64"
  shows "64 * a + p \<le> 64 * i + m \<longleftrightarrow> a < i \<or> (a = i \<and> p \<le> m)"
    and "64 * i + m < 64 * a + p \<longleftrightarrow> i < a \<or> (i = a \<and> m < p)"
  using assms by (cases a i rule: linorder_cases; simp)+

lemma bitset_get_range_correct:
  assumes wf: "bitset_wf b" and r: "unat s < unat e" "unat e \<le> 65536"
  shows "bitset_container_get_range b s e \<longleftrightarrow> u16_range (unat s) (unat e) \<subseteq> bitset_abs b"
proof -
  define a z p q where "a = unat s div 64" and "z = unat e div 64" and "p = unat s mod 64" and "q = unat e mod 64"
  have se: "unat s = 64 * a + p" "unat e = 64 * z + q" by (simp_all add: a_def z_def p_def q_def)
  have pq: "p < 64" "q < 64" by (simp_all add: p_def q_def)
  have az: "a \<le> z" using r(1) unfolding a_def z_def by (intro div_le_mono) simp
  have "u16_range (unat s) (unat e) \<subseteq> bitset_abs b \<longleftrightarrow> (\<forall>n. unat s \<le> n \<and> n < unat e \<longrightarrow> wbit (bc_words b) n)"
  proof
    assume h: "u16_range (unat s) (unat e) \<subseteq> bitset_abs b"
    show "\<forall>n. unat s \<le> n \<and> n < unat e \<longrightarrow> wbit (bc_words b) n"
    proof (intro allI impI)
      fix n assume n: "unat s \<le> n \<and> n < unat e"
      then have "unat (word_of_nat n :: u16) = n" using r(2) by simp
      then show "wbit (bc_words b) n" using h n by (auto simp: subset_iff bitset_abs_def dest: spec [of _ "word_of_nat n"])
    qed
  qed (auto simp: bitset_abs_def)
  also have "\<dots> \<longleftrightarrow> (\<forall>i. \<forall>m < 64. 64 * a + p \<le> 64 * i + m \<and> 64 * i + m < 64 * z + q \<longrightarrow> bit (bc_words b ! i) m)"
    using range_by_word [of "64 * a + p" "64 * z + q" "wbit (bc_words b)"] unfolding se by (simp add: wbit_def)
  finally have sub: "u16_range (unat s) (unat e) \<subseteq> bitset_abs b \<longleftrightarrow> \<dots>" .
  show ?thesis
  proof (cases "a = z")
    case True
    have "bitset_container_get_range b s e \<longleftrightarrow> (\<forall>m < 64. p \<le> m \<and> m < q \<longrightarrow> bit (bc_words b ! z) m)"
      unfolding bitset_container_get_range_def Let_def pos_offset32 pos_and_0x3F
        a_def [symmetric] z_def [symmetric] p_def [symmetric] q_def [symmetric] if_P [OF True]
        and.assoc and_eq_mask
      by (auto simp: bit_and_iff bit_above_mask [OF pq(1)] bit_below_mask [OF pq(2)])
    then show ?thesis unfolding sub using True by (auto simp: lex64 pq)
  next
    case False
    then have lt: "a < z" using az by simp
    have top: "z = 1024 \<Longrightarrow> q = 0" "z \<le> 1024" using r(2) se(2) by linarith+
    have "bitset_container_get_range b s e \<longleftrightarrow> (\<forall>m < 64. p \<le> m \<longrightarrow> bit (bc_words b ! a) m) \<and>
        (z < 1024 \<longrightarrow> (\<forall>m < 64. m < q \<longrightarrow> bit (bc_words b ! z) m)) \<and>
        (\<forall>i. a < i \<and> i < z \<longrightarrow> (\<forall>m < 64. bit (bc_words b ! i) m))"
      unfolding bitset_container_get_range_def Let_def pos_offset32 pos_and_0x3F
        a_def [symmetric] z_def [symmetric] p_def [symmetric] q_def [symmetric] if_not_P [OF False]
        and_eq_mask all_ones using top(2)
      by (auto simp: bit_above_mask [OF pq(1)] bit_below_mask [OF pq(2)])
    then show ?thesis unfolding sub using lt top
      by (auto simp: lex64 pq)
  qed
qed

section \<open>Binary operations\<close>

lemma bitset_op_loop_eq:
  "length as = length bs \<Longrightarrow> even (length as) \<Longrightarrow> bitset_op_loop f as bs n =
     (map2 f as bs, n + int (sum_list (map roaring_hamming (map2 f as bs))))"
  by (induction f as bs n rule: bitset_op_loop.induct) (auto simp: Let_def length_Suc_conv)

text \<open>An operator that works bit by bit works on the sets.\<close>

definition bitwise :: "(u64 \<Rightarrow> u64 \<Rightarrow> u64) \<Rightarrow> (bool \<Rightarrow> bool \<Rightarrow> bool) \<Rightarrow> bool" where
  "bitwise f g \<longleftrightarrow> (\<forall>v w. \<forall>m < 64. bit (f v w) m \<longleftrightarrow> g (bit v m) (bit w m))"

lemma bitwise_ops:
  "bitwise (OR) (\<or>)" "bitwise (AND) (\<and>)" "bitwise (XOR) (\<noteq>)" "bitwise (\<lambda>v w. v AND NOT w) (\<lambda>p q. p \<and> \<not> q)"
  by (simp_all add: bitwise_def bit_or_iff bit_and_iff bit_xor_iff bit_not_64)

lemma map2_abs:
  assumes "bitset_wf a" and "bitset_wf b" and "bitwise f g" and "bc_words c = map2 f (bc_words a) (bc_words b)"
  shows "bitset_wf c" and "x \<in> bitset_abs c \<longleftrightarrow> g (x \<in> bitset_abs a) (x \<in> bitset_abs b)"
  using assms by (simp_all add: bitset_wf_def bitset_abs_def wbit_def bitwise_def)

lemma bitset_fn_eq:
  assumes "bitset_wf a" and "bitset_wf b"
  shows "bitset_container_fn f a b dst = dst\<lparr>bc_words := map2 f (bc_words a) (bc_words b),
      bc_cardinality := bitset_container_compute_cardinality (dst\<lparr>bc_words := map2 f (bc_words a) (bc_words b)\<rparr>)\<rparr>"
    and "bitset_container_fn_justcard f a b = bc_cardinality (bitset_container_fn f a b dst)"
  using assms
  by (simp_all add: bitset_container_fn_def bitset_container_fn_justcard_def bitset_op_loop_eq bitset_wf_def
      bitset_container_compute_cardinality_def compute_cardinality_loop_eq)

lemma bitset_fn_correct:
  assumes wf: "bitset_wf a" "bitset_wf b" and f: "bitwise f g"
  shows "bitset_inv (bitset_container_fn f a b dst)"
    and "x \<in> bitset_abs (bitset_container_fn f a b dst) \<longleftrightarrow> g (x \<in> bitset_abs a) (x \<in> bitset_abs b)"
    and "bitset_lazy_inv (bitset_container_fn_nocard f a b dst)"
    and "x \<in> bitset_abs (bitset_container_fn_nocard f a b dst) \<longleftrightarrow> g (x \<in> bitset_abs a) (x \<in> bitset_abs b)"
    and "bitset_container_fn_justcard f a b = int (card {x. g (x \<in> bitset_abs a) (x \<in> bitset_abs b)})"
proof -
  have l: "length (map2 f (bc_words a) (bc_words b)) = 1024" using wf by (simp add: bitset_wf_def)
  show inv: "bitset_inv (bitset_container_fn f a b dst)" for dst
    using bitset_recount [OF l] by (simp add: bitset_fn_eq [OF wf] Let_def)
  show mem: "x \<in> bitset_abs (bitset_container_fn f a b dst) \<longleftrightarrow> g (x \<in> bitset_abs a) (x \<in> bitset_abs b)" for dst x
    by (rule map2_abs(2) [OF wf f]) (simp add: bitset_fn_eq [OF wf])
  have words: "bc_words (bitset_container_fn_nocard f a b dst) = map2 f (bc_words a) (bc_words b)"
    by (simp add: bitset_container_fn_nocard_def)
  show "bitset_lazy_inv (bitset_container_fn_nocard f a b dst)"
    using map2_abs(1) [OF wf f words] by (simp add: bitset_lazy_inv_def bitset_container_fn_nocard_def)
  show "x \<in> bitset_abs (bitset_container_fn_nocard f a b dst) \<longleftrightarrow> g (x \<in> bitset_abs a) (x \<in> bitset_abs b)"
    by (rule map2_abs(2) [OF wf f words])
  have "bitset_abs (bitset_container_fn f a b dst) = {x. g (x \<in> bitset_abs a) (x \<in> bitset_abs b)}"
    using mem by blast
  then show "bitset_container_fn_justcard f a b = int (card {x. g (x \<in> bitset_abs a) (x \<in> bitset_abs b)})"
    using bitset_inv_card [OF inv] by (simp add: bitset_fn_eq(2) [OF wf, of f dst])
qed

interpretation bitset_or: set_operation bitset_wf bitset_abs bitset_wf bitset_abs bitset_inv bitset_abs
  "\<lambda>a b. bitset_container_or a b dst" "(\<or>)" for dst
  unfolding bitset_container_or_def by unfold_locales (simp_all add: bitset_fn_correct [OF _ _ bitwise_ops(1)])

interpretation bitset_and: set_operation bitset_wf bitset_abs bitset_wf bitset_abs bitset_inv bitset_abs
  "\<lambda>a b. bitset_container_and a b dst" "(\<and>)" for dst
  unfolding bitset_container_and_def by unfold_locales (simp_all add: bitset_fn_correct [OF _ _ bitwise_ops(2)])

interpretation bitset_xor: set_operation bitset_wf bitset_abs bitset_wf bitset_abs bitset_inv bitset_abs
  "\<lambda>a b. bitset_container_xor a b dst" "(\<noteq>)" for dst
  unfolding bitset_container_xor_def by unfold_locales (simp_all add: bitset_fn_correct [OF _ _ bitwise_ops(3)])

interpretation bitset_andnot: set_operation bitset_wf bitset_abs bitset_wf bitset_abs bitset_inv bitset_abs
  "\<lambda>a b. bitset_container_andnot a b dst" "\<lambda>p q. p \<and> \<not> q" for dst
  unfolding bitset_container_andnot_def by unfold_locales (simp_all add: bitset_fn_correct [OF _ _ bitwise_ops(4)])

interpretation bitset_or_nocard: set_operation bitset_wf bitset_abs bitset_wf bitset_abs bitset_lazy_inv bitset_abs
  "\<lambda>a b. bitset_container_or_nocard a b dst" "(\<or>)" for dst
  unfolding bitset_container_or_nocard_def by unfold_locales (simp_all add: bitset_fn_correct [OF _ _ bitwise_ops(1)])

lemma bitset_justcard_correct:
  assumes "bitset_wf a" and "bitset_wf b"
  shows "bitset_container_or_justcard a b = int (card (bitset_abs a \<union> bitset_abs b))"
    and "bitset_container_and_justcard a b = int (card (bitset_abs a \<inter> bitset_abs b))"
    and "bitset_container_xor_justcard a b = int (card (sym_diff (bitset_abs a) (bitset_abs b)))"
    and "bitset_container_andnot_justcard a b = int (card (bitset_abs a - bitset_abs b))"
proof -
  note j = bitset_fn_correct(5) [OF assms]
  show "bitset_container_or_justcard a b = int (card (bitset_abs a \<union> bitset_abs b))"
    unfolding bitset_container_or_justcard_def j [OF bitwise_ops(1)] Un_def ..
  show "bitset_container_and_justcard a b = int (card (bitset_abs a \<inter> bitset_abs b))"
    unfolding bitset_container_and_justcard_def j [OF bitwise_ops(2)] Int_def ..
  have "{x. (x \<in> bitset_abs a) \<noteq> (x \<in> bitset_abs b)} = sym_diff (bitset_abs a) (bitset_abs b)" by auto
  then show "bitset_container_xor_justcard a b = int (card (sym_diff (bitset_abs a) (bitset_abs b)))"
    unfolding bitset_container_xor_justcard_def j [OF bitwise_ops(3)] by simp
  show "bitset_container_andnot_justcard a b = int (card (bitset_abs a - bitset_abs b))"
    unfolding bitset_container_andnot_justcard_def j [OF bitwise_ops(4)] set_diff_eq ..
qed

section \<open>Tests\<close>

lemma words_all_bits:
  "bitset_wf b \<Longrightarrow> (\<forall>i < 1024. \<forall>m < 64. P i m) \<longleftrightarrow> (\<forall>x :: u16. P (unat x div 64) (unat x mod 64))"
proof
  assume h: "\<forall>x :: u16. P (unat x div 64) (unat x mod 64)"
  show "\<forall>i < 1024. \<forall>m < 64. P i m"
  proof (intro allI impI)
    fix i m :: nat assume im: "i < 1024" "m < 64"
    then have "64 * i + m < 65536" by simp
    then have "unat (word_of_nat (64 * i + m) :: u16) = 64 * i + m" by (rule unat_u16_of_nat)
    then show "P i m" using h [rule_format, of "word_of_nat (64 * i + m)"] im(2) by simp
  qed
next
  assume h: "\<forall>i < 1024. \<forall>m < 64. P i m"
  show "\<forall>x :: u16. P (unat x div 64) (unat x mod 64)" using h by simp
qed

lemma bitset_intersect_correct:
  assumes "bitset_wf a" and "bitset_wf b"
  shows "bitset_container_intersect a b \<longleftrightarrow> bitset_abs a \<inter> bitset_abs b \<noteq> {}"
proof -
  have "bitset_container_intersect a b \<longleftrightarrow>
      \<not> (\<forall>i < 1024. \<forall>m < 64. \<not> (bit (bc_words a ! i) m \<and> bit (bc_words b ! i) m))"
    unfolding bitset_container_intersect_def word_nonzero_bit by (auto simp: bit_and_iff)
  also have "\<dots> \<longleftrightarrow> bitset_abs a \<inter> bitset_abs b \<noteq> {}"
    unfolding words_all_bits [OF assms(1)] by (auto simp: bitset_abs_def wbit_def)
  finally show ?thesis .
qed

lemma bitset_is_subset_correct:
  assumes "bitset_lazy_inv a" and "bitset_lazy_inv b"
  shows "bitset_container_is_subset a b \<longleftrightarrow> bitset_abs a \<subseteq> bitset_abs b"
proof -
  have "(\<forall>i \<in> set [0 ..< 1024]. bc_words a ! i AND bc_words b ! i = bc_words a ! i) \<longleftrightarrow>
      (\<forall>i < 1024. \<forall>m < 64. bit (bc_words a ! i) m \<longrightarrow> bit (bc_words b ! i) m)"
    by (auto simp: and_eq_mask and.commute [of "bc_words a ! i" for i])
  also have "\<dots> \<longleftrightarrow> bitset_abs a \<subseteq> bitset_abs b"
    unfolding words_all_bits [OF bitset_lazy_wf [OF assms(1)]] by (auto simp: bitset_abs_def wbit_def)
  finally have e: "(\<forall>i \<in> set [0 ..< 1024]. bc_words a ! i AND bc_words b ! i = bc_words a ! i) \<longleftrightarrow>
      bitset_abs a \<subseteq> bitset_abs b" .
  have "\<not> bitset_abs a \<subseteq> bitset_abs b" if "card (bitset_abs b) < card (bitset_abs a)"
    using that card_mono [of "bitset_abs b" "bitset_abs a"] by auto
  then show ?thesis using assms unfolding bitset_container_is_subset_def e
    by (auto simp: bitset_lazy_inv_def)
qed

lemma bitset_equals_correct:
  assumes "bitset_lazy_inv a" and "bitset_lazy_inv b"
  shows "bitset_container_equals a b \<longleftrightarrow> bitset_abs a = bitset_abs b"
proof -
  have e: "bc_words a = bc_words b \<longleftrightarrow> bitset_abs a = bitset_abs b"
    using assms by (simp add: bitset_abs_eq_iff bitset_lazy_wf)
  have full: "S = UNIV" if "int (card S) = 65536" for S :: "u16 set"
    using that card_u16_less [of S] by auto
  show ?thesis using assms full [of "bitset_abs a"] full [of "bitset_abs b"]
    unfolding bitset_container_equals_def e by (auto simp: bitset_lazy_inv_def)
qed

interpretation bitset_subset: set_test bitset_lazy_inv bitset_abs bitset_lazy_inv bitset_abs
  bitset_container_is_subset "(\<subseteq>)"
  by unfold_locales (simp add: bitset_is_subset_correct)

interpretation bitset_equals: set_test bitset_lazy_inv bitset_abs bitset_lazy_inv bitset_abs
  bitset_container_equals "(=)"
  by unfold_locales (simp add: bitset_equals_correct)

interpretation bitset_intersect: set_test bitset_wf bitset_abs bitset_wf bitset_abs
  bitset_container_intersect "\<lambda>S T. S \<inter> T \<noteq> {}"
  by unfold_locales (simp add: bitset_intersect_correct)

lemma bitset_container_empty_correct:
  assumes "bitset_lazy_inv b"
  shows "bitset_container_empty b \<longleftrightarrow> bitset_abs b = {}"
proof -
  have wf: "bitset_wf b" using assms by (rule bitset_lazy_wf)
  have "(\<forall>w \<in> set (bc_words b). w = 0) \<longleftrightarrow> (\<forall>i < 1024. \<forall>m < 64. \<not> bit (bc_words b ! i) m)"
    using wf word_nonzero_bit by (auto simp: bitset_wf_def all_set_conv_all_nth)
  also have "\<dots> \<longleftrightarrow> bitset_abs b = {}"
    unfolding words_all_bits [OF wf] by (auto simp: bitset_abs_def wbit_def)
  finally show ?thesis using assms by (auto simp: bitset_container_empty_def bitset_lazy_inv_def)
qed

end
