(* ===== verification/Bitset_Order.thy ===== *)
theory Bitset_Order
  imports Bitset_Container Array_Ranges
begin

text \<open>
  The order of the values in a bitset container: minimum and maximum, ranks and selection,
  the number of runs, enumeration, shifting by an offset and the byte format.
\<close>

section \<open>The values in order\<close>

lemma positions_values:
  assumes "bitset_wf b"
  shows "map word_of_nat (positions (bc_words b)) = sorted_list_of_set (bitset_abs b)"
    and "map unat (sorted_list_of_set (bitset_abs b)) = positions (bc_words b)"
proof -
  let ?ps = "positions (bc_words b)"
  have lt: "n < 65536" if "n \<in> set ?ps" for n
    using that assms by (simp add: set_positions bits_of_def bitset_wf_def)
  have "ssorted (map (word_of_nat :: nat \<Rightarrow> u16) ?ps)"
    unfolding sorted_wrt_map
  proof (rule sorted_wrt_mono_rel [OF _ positions_ssorted])
    fix x y assume "x \<in> set ?ps" "y \<in> set ?ps" "x < y"
    then show "(word_of_nat x :: u16) < word_of_nat y" using lt by (simp add: word_less_nat_alt)
  qed
  moreover have "set (map word_of_nat ?ps) = bitset_abs b"
    unfolding set_map set_positions bits_of_abs [OF assms] by (simp add: image_image)
  ultimately show m: "map word_of_nat ?ps = sorted_list_of_set (bitset_abs b)"
    by (metis sorted_list_of_set.idem_if_sorted_distinct ssorted_imp_sorted ssorted_imp_distinct)
  show "map unat (sorted_list_of_set (bitset_abs b)) = ?ps"
    unfolding m [symmetric] map_map by (rule map_idI) (use lt in simp)
qed

section \<open>Minimum and maximum\<close>

lemma bitset_min_loop_eq:
  "bitset_min_loop ws i = (if positions ws = [] then 0xFFFF else word_of_nat (hd (positions ws) + i * 64))"
proof (induction ws i rule: bitset_min_loop.induct)
  case (2 w ws i)
  show ?case
  proof (cases "w = 0")
    case True
    then have "positions (w # ws) = map (\<lambda>n. n + 64) (positions ws)" by (simp add: positions_Cons)
    then show ?thesis using 2 True by (simp add: hd_map algebra_simps)
  next
    case False
    then show ?thesis unfolding positions_Cons filter_bits_step [OF False] by simp
  qed
qed simp

lemma bitset_minimum_correct:
  assumes "bitset_wf b" and "bitset_abs b \<noteq> {}"
  shows "bitset_container_minimum b \<in> bitset_abs b \<and> (\<forall>y \<in> bitset_abs b. bitset_container_minimum b \<le> y)"
proof -
  let ?xs = "sorted_list_of_set (bitset_abs b)"
  have s: "sorted ?xs" "set ?xs = bitset_abs b" by simp_all
  have ne: "positions (bc_words b) \<noteq> []"
    using assms positions_values(1) [OF assms(1)] s(2) by (metis list.map_disc_iff set_empty)
  then have "bitset_container_minimum b = hd ?xs"
    unfolding bitset_container_minimum_def bitset_min_loop_eq positions_values(1) [OF assms(1), symmetric]
    by (simp add: hd_map)
  moreover have "?xs \<noteq> []" using assms(2) s(2) by (metis set_empty)
  ultimately show ?thesis using s by (metis hd_in_set list.exhaust_sel set_ConsD sorted_simps(2) order_refl)
qed

lemma bitset_max_loop_eq:
  "i < 1024 \<Longrightarrow> length ws = 1024 \<Longrightarrow>
     (if \<exists>n. 64 \<le> n \<and> n < 64 * Suc i \<and> wbit ws n
      then unat (bitset_max_loop ws i) < 64 * Suc i \<and> wbit ws (unat (bitset_max_loop ws i))
        \<and> (\<forall>n. n < 64 * Suc i \<and> wbit ws n \<longrightarrow> n \<le> unat (bitset_max_loop ws i))
      else bitset_max_loop ws i = 0)"
proof (induction i)
  case (Suc i)
  let ?w = "ws ! Suc i"
  have split: "n < 64 * Suc (Suc i) \<longleftrightarrow> n < 64 * Suc i \<or> n div 64 = Suc i" for n :: nat
    using word_index_less [of n "Suc (Suc i)"] word_index_less [of n "Suc i"] by linarith
  show ?case
  proof (cases "?w = 0")
    case True
    then have "\<not> wbit ws n" if "n div 64 = Suc i" for n using that by (simp add: wbit_def)
    then have e: "n < 64 * Suc (Suc i) \<and> wbit ws n \<longleftrightarrow> n < 64 * Suc i \<and> wbit ws n" for n
      unfolding split by blast
    have l: "bitset_max_loop ws (Suc i) = bitset_max_loop ws i" using True by simp
    have "unat (bitset_max_loop ws i) < 64 * Suc i \<Longrightarrow> unat (bitset_max_loop ws i) < 64 * Suc (Suc i)" by simp
    then show ?thesis using Suc unfolding e l by (auto split: if_splits)
  next
    case False
    let ?k = "63 - roaring_leading_zeroes ?w"
    note lz = leading_zeroes_bits [OF False]
    have v: "bitset_max_loop ws (Suc i) = word_of_nat (64 * Suc i + ?k)"
      using False lz(1) by (simp add: Let_def algebra_simps)
    have u: "unat (bitset_max_loop ws (Suc i)) = 64 * Suc i + ?k"
      unfolding v using Suc.prems lz(1) by (intro unat_u16_of_nat) simp
    have "(64 * Suc i + k) div 64 = Suc i \<and> (64 * Suc i + k) mod 64 = k" if "k < 64" for k :: nat
      using that by (simp del: mult_Suc_right)
    then have dm: "(64 * Suc i + ?k) div 64 = Suc i" "(64 * Suc i + ?k) mod 64 = ?k" by simp_all
    have hit: "wbit ws (64 * Suc i + ?k)" unfolding wbit_def dm by (rule lz(2))
    have "n \<le> 64 * Suc i + ?k" if "n < 64 * Suc (Suc i)" "wbit ws n" for n
    proof (cases "n div 64 = Suc i")
      case True
      then have "\<not> ?k < n mod 64" using that(2) lz(3) by (auto simp: wbit_def)
      moreover have "n = 64 * Suc i + n mod 64" using True by (metis mult_div_mod_eq)
      ultimately show ?thesis by linarith
    next
      case False
      then show ?thesis using that(1) split [of n] by linarith
    qed
    moreover have "\<exists>n. 64 \<le> n \<and> n < 64 * Suc (Suc i) \<and> wbit ws n"
    proof (intro exI conjI)
      show "64 \<le> 64 * Suc i + ?k" "64 * Suc i + ?k < 64 * Suc (Suc i)" by arith+
      show "wbit ws (64 * Suc i + ?k)" by (rule hit)
    qed
    ultimately show ?thesis using hit lz(1) unfolding u by simp
  qed
qed auto

text \<open>
  The maximum is right as soon as some value is at least 64; the loop does not look at word 0,
  so that a bitset with values below 64 only gets 0.
\<close>

lemma bitset_maximum_correct:
  assumes "bitset_wf b"
  shows "(\<exists>y \<in> bitset_abs b. 64 \<le> unat y) \<Longrightarrow>
      bitset_container_maximum b \<in> bitset_abs b \<and> (\<forall>y \<in> bitset_abs b. y \<le> bitset_container_maximum b)"
    and "\<not> (\<exists>y \<in> bitset_abs b. 64 \<le> unat y) \<Longrightarrow> bitset_container_maximum b = 0"
proof -
  let ?m = "bitset_container_maximum b" and ?ws = "bc_words b"
  have l: "length ?ws = 1024" using assms by (simp add: bitset_wf_def)
  have ex: "(\<exists>n. 64 \<le> n \<and> n < 65536 \<and> wbit ?ws n) \<longleftrightarrow> (\<exists>y \<in> bitset_abs b. 64 \<le> unat y)"
  proof
    assume "\<exists>n. 64 \<le> n \<and> n < 65536 \<and> wbit ?ws n"
    then obtain n where "64 \<le> n" "n < 65536" "wbit ?ws n" by blast
    then show "\<exists>y \<in> bitset_abs b. 64 \<le> unat y"
      by (intro bexI [of _ "word_of_nat n"]) (simp_all add: bitset_abs_def)
  qed (auto simp: bitset_abs_def)
  have "if \<exists>n. 64 \<le> n \<and> n < 65536 \<and> wbit ?ws n
      then unat ?m < 65536 \<and> wbit ?ws (unat ?m) \<and> (\<forall>n. n < 65536 \<and> wbit ?ws n \<longrightarrow> n \<le> unat ?m)
      else ?m = 0"
    using bitset_max_loop_eq [of 1023 ?ws] l by (simp add: bitset_container_maximum_def)
  then show "(\<exists>y \<in> bitset_abs b. 64 \<le> unat y) \<Longrightarrow> ?m \<in> bitset_abs b \<and> (\<forall>y \<in> bitset_abs b. y \<le> ?m)"
    and "\<not> (\<exists>y \<in> bitset_abs b. 64 \<le> unat y) \<Longrightarrow> ?m = 0"
    unfolding ex by (auto simp: bitset_abs_def word_le_nat_alt)
qed

section \<open>Ranks\<close>

lemma bit_smear_right: "m < 64 \<Longrightarrow> bit (smear_right x) m \<longleftrightarrow> m \<le> unat x mod 64"
proof -
  let ?k = "unat x mod 64"
  have "bit_at ?k + bit_at ?k = 2 ^ Suc ?k" by (simp add: bit_at_def push_bit_eq_mult)
  then have "smear_right x = mask (Suc ?k)"
    by (simp add: smear_right_def Let_def mask_eq_exp_minus_1)
  then show "m < 64 \<Longrightarrow> bit (smear_right x) m \<longleftrightarrow> m \<le> ?k"
    by (simp add: bit_mask_iff possible_bit_word less_Suc_eq_le)
qed

text \<open>Counting up to a position: the whole words before it and a part of its word.\<close>

lemma card_upto:
  assumes "k < 64 * length ws"
  shows "card {n. n \<le> k \<and> wbit ws n} =
     card {n. n < 64 * (k div 64) \<and> wbit ws n} + card {n. n div 64 = k div 64 \<and> n mod 64 \<le> k mod 64 \<and> wbit ws n}"
proof -
  have "n \<le> k \<longleftrightarrow> n < 64 * (k div 64) \<or> (n div 64 = k div 64 \<and> n mod 64 \<le> k mod 64)" for n
  proof -
    have "k = 64 * (k div 64) + k mod 64" "n = 64 * (n div 64) + n mod 64" by simp_all
    then show ?thesis using lex64 [of "k mod 64" "n mod 64" "k div 64" "n div 64"]
        lex64(1) [of "n mod 64" "k mod 64" "n div 64" "k div 64"] word_index_less [of n "k div 64"]
      by (metis mod_less_divisor zero_less_numeral)
  qed
  then have e: "{n. n \<le> k \<and> wbit ws n} = {n. n < 64 * (k div 64) \<and> wbit ws n} \<union>
      {n. n div 64 = k div 64 \<and> n mod 64 \<le> k mod 64 \<and> wbit ws n}" by auto
  show ?thesis unfolding e
  proof (rule card_Un_disjoint)
    show "finite {n. n div 64 = k div 64 \<and> n mod 64 \<le> k mod 64 \<and> wbit ws n}"
      by (rule finite_subset [of _ "{..< 64 * Suc (k div 64)}"]) (auto simp flip: word_index_less)
    show "{n. n < 64 * (k div 64) \<and> wbit ws n} \<inter> {n. n div 64 = k div 64 \<and> n mod 64 \<le> k mod 64 \<and> wbit ws n} = {}"
      by (auto simp flip: word_index_less)
  qed simp
qed

lemma card_abs_le: "bitset_wf b \<Longrightarrow> card {y \<in> bitset_abs b. y \<le> x} = card {n. n \<le> unat x \<and> wbit (bc_words b) n}"
proof -
  have "{n. n \<le> unat x \<and> wbit (bc_words b) n} = unat ` {y \<in> bitset_abs b. y \<le> x}"
  proof (intro set_eqI iffI)
    fix n assume n: "n \<in> {n. n \<le> unat x \<and> wbit (bc_words b) n}"
    then have "unat (word_of_nat n :: u16) = n"
      by (intro unat_u16_of_nat order_le_less_trans [OF _ unat_u16_less [of x]]) auto
    then show "n \<in> unat ` {y \<in> bitset_abs b. y \<le> x}"
      using n by (intro image_eqI [of _ _ "word_of_nat n"]) (simp_all add: bitset_abs_def word_le_nat_alt)
  qed (auto simp: bitset_abs_def word_le_nat_alt)
  then show ?thesis by (simp add: card_image inj_unat_u16 [THEN inj_on_subset])
qed

lemma rank_of_words:
  assumes "bitset_wf b" and i: "i \<le> unat x div 64" and c: "count = card {n. n < 64 * i \<and> wbit (bc_words b) n}"
  defines "e \<equiv> unat (x div 64)"
  shows "fold (\<lambda>i count. count + roaring_hamming (bc_words b ! i)) [i ..< e] count = card {n. n < 64 * e \<and> wbit (bc_words b) n}"
    and "card {n. n < 64 * e \<and> wbit (bc_words b) n} + roaring_hamming (bc_words b ! e AND smear_right x)
      = card {y \<in> bitset_abs b. y \<le> x}"
proof -
  let ?ws = "bc_words b" and ?k = "unat x"
  have k: "?k < 64 * length ?ws" using assms(1) unat_u16_less [of x] by (simp add: bitset_wf_def)
  have e: "e = ?k div 64" by (simp add: e_def unat_div_distrib)
  have el: "e < length ?ws" using k unfolding e by simp
  show "fold (\<lambda>i count. count + roaring_hamming (?ws ! i)) [i ..< e] count = card {n. n < 64 * e \<and> wbit ?ws n}"
  proof -
    have "[0 ..< e] = [0 ..< i] @ [i ..< e]" using i upt_add_eq_append [of 0 i "e - i"] by (simp add: e)
    then show ?thesis using i el e by (simp add: fold_plus c card_word_prefix)
  qed
  have "{n. n div 64 = e \<and> n mod 64 \<le> ?k mod 64 \<and> wbit ?ws n} = {n. n div 64 = e \<and> bit (?ws ! e AND smear_right x) (n mod 64)}"
    by (auto simp: wbit_def bit_and_iff bit_smear_right)
  then have "card {n. n div 64 = e \<and> n mod 64 \<le> ?k mod 64 \<and> wbit ?ws n} = roaring_hamming (?ws ! e AND smear_right x)"
    by (simp only: card_word_bits)
  then show "card {n. n < 64 * e \<and> wbit ?ws n} + roaring_hamming (?ws ! e AND smear_right x) = card {y \<in> bitset_abs b. y \<le> x}"
    using card_upto [OF k] card_abs_le [OF assms(1), of x] by (simp add: e)
qed

lemma bitset_rank_correct:
  assumes "bitset_wf b"
  shows "bitset_container_rank b x = card {y \<in> bitset_abs b. y \<le> x}"
  using rank_of_words [OF assms, of 0 x 0] by (simp add: bitset_container_rank_def Let_def)

lemma bitset_get_index_correct:
  assumes wf: "bitset_wf b"
  shows "bitset_container_get_index b x =
     (if x \<in> bitset_abs b then int (card {y \<in> bitset_abs b. y < x}) else - 1)"
proof -
  have "bitset_container_get_index b x = (if x \<in> bitset_abs b then int (bitset_container_rank b x) - 1 else - 1)"
    using bitset_contains_correct [OF wf, of x]
    by (simp add: bitset_container_get_index_def bitset_container_rank_def bitset_container_contains_def Let_def)
  then show ?thesis using bitset_rank_correct [OF wf, of x] card_le_split [of "bitset_abs b" x] by simp
qed

lemma bitset_rank_many_loop_correct:
  assumes wf: "bitset_wf b"
  shows "\<forall>q \<in> set qs. ucast (drop_bit 16 q) = high \<Longrightarrow> sorted (map (\<lambda>q. ucast q :: u16) qs) \<Longrightarrow>
     (\<forall>q \<in> set qs. i \<le> unat (ucast q :: u16) div 64) \<Longrightarrow>
     count = card {n. n < 64 * i \<and> wbit (bc_words b) n} \<Longrightarrow>
     bitset_rank_many_loop (bc_words b) start high i count qs =
       map (\<lambda>q. start + word_of_nat (card {y \<in> bitset_abs b. y \<le> ucast q})) qs"
proof (induction qs arbitrary: i count)
  case (Cons q qs)
  let ?x = "ucast q :: u16"
  let ?e = "unat (?x div 64)"
  have e: "?e = unat ?x div 64" by (simp only: unat_div_distrib) simp
  have i: "i \<le> unat ?x div 64" using Cons.prems(3) by simp
  note rw = rank_of_words [OF wf i Cons.prems(4)]
  have m: "max i ?e = ?e" using i unfolding e by (rule max_absorb2)
  have "?e \<le> unat (ucast r :: u16) div 64" if "r \<in> set qs" for r
    unfolding e using Cons.prems(2) that by (intro div_le_mono) (simp add: word_le_nat_alt)
  then have "bitset_rank_many_loop (bc_words b) start high ?e (card {n. n < 64 * ?e \<and> wbit (bc_words b) n}) qs
      = map (\<lambda>q. start + word_of_nat (card {y \<in> bitset_abs b. y \<le> ucast q})) qs"
    using Cons.prems by (intro Cons.IH) auto
  moreover have "start + word_of_nat (card {n. n < 64 * ?e \<and> wbit (bc_words b) n})
      + word_of_nat (roaring_hamming (bc_words b ! ?e AND smear_right ?x))
      = start + word_of_nat (card {y \<in> bitset_abs b. y \<le> ?x})"
    unfolding rw(2) [symmetric] by (simp only: of_nat_add add.assoc)
  ultimately show ?case using Cons.prems(1) unfolding bitset_rank_many_loop.simps Let_def rw(1) m by simp
qed simp

lemma bitset_rank_many_loop_stops:
  "bitset_rank_many_loop ws start high i count qs =
     bitset_rank_many_loop ws start high i count (takeWhile (\<lambda>q. ucast (drop_bit 16 q) = high) qs)"
  by (induction qs arbitrary: i count) (simp_all add: Let_def)

lemma bitset_rank_many_correct:
  assumes "bitset_wf b" and qs: "run = takeWhile (\<lambda>q. drop_bit 16 q = drop_bit 16 (hd qs)) qs"
    and "sorted (map (\<lambda>q. ucast q :: u16) run)"
  shows "bitset_container_rank_many b start qs =
     (length run, map (\<lambda>q. start + word_of_nat (card {y \<in> bitset_abs b. y \<le> ucast q})) run)"
proof -
  have "(ucast (drop_bit 16 a) :: u16) = ucast (drop_bit 16 b) \<longleftrightarrow> drop_bit 16 a = drop_bit 16 b" for a b :: u32
    using unat_ucast_u32_u16 [OF unat_high16(2), of a] unat_ucast_u32_u16 [OF unat_high16(2), of b]
    by (metis word_unat_eq_iff)
  then have run: "takeWhile (\<lambda>q. (ucast (drop_bit 16 q) :: u16) = ucast (drop_bit 16 (hd qs))) qs = run"
    by (simp add: qs)
  then have "\<forall>q \<in> set run. (ucast (drop_bit 16 q) :: u16) = ucast (drop_bit 16 (hd qs))"
    using set_takeWhileD by fastforce
  then show ?thesis
    using bitset_rank_many_loop_correct [OF assms(1) _ assms(3), of "ucast (drop_bit 16 (hd qs))" 0 0 start]
      bitset_rank_many_loop_stops [of "bc_words b" start "ucast (drop_bit 16 (hd qs))" 0 0 qs]
    by (simp add: bitset_container_rank_many_def run)
qed

section \<open>The first value that is not below a bound\<close>

lemma equalorlarger_loop_eq:
  "equalorlarger_loop w rest k =
     (if positions (w # rest) = [] then - 1 else int (hd (positions (w # rest)) + 64 * k))"
proof (induction w rest k rule: equalorlarger_loop.induct)
  case (1 w rest k)
  show ?case
  proof (cases "w = 0")
    case True
    then have p: "positions (w # rest) = map (\<lambda>n. n + 64) (positions rest)" by (simp add: positions_Cons)
    show ?thesis
    proof (cases rest)
      case Nil
      then show ?thesis using True p by simp
    next
      case (Cons w' rest')
      then show ?thesis using True p 1 [OF True Cons] by (simp add: hd_map)
    qed
  next
    case False
    then show ?thesis unfolding positions_Cons filter_bits_step [OF False] by (simp add: mult.commute)
  qed
qed

lemma positions_append_zeros:
  "positions (replicate k 0 @ ws) = map (\<lambda>n. n + 64 * k) (positions ws)"
  by (induction k) (simp_all add: positions_Cons o_def algebra_simps)

lemma bitset_index_equalorlarger_correct:
  assumes wf: "bitset_wf b"
  shows "bitset_container_index_equalorlarger b x =
     (case filter (\<lambda>y. x \<le> y) (sorted_list_of_set (bitset_abs b)) of [] \<Rightarrow> - 1 | y # ys \<Rightarrow> int (unat y))"
proof -
  let ?ws = "bc_words b"
  define k d where "k = unat x div 64" and "d = unat x mod 64"
  have l: "length ?ws = 1024" using wf by (simp add: bitset_wf_def)
  have k: "k < 1024" using unat_u16_less [of x] unfolding k_def by simp
  have x: "unat x = 64 * k + d" by (simp add: k_def d_def)
  let ?w = "push_bit d (drop_bit d (?ws ! k))"
  let ?vs = "replicate k 0 @ ?w # drop (Suc k) ?ws"
  have wb: "bit ?w m \<longleftrightarrow> d \<le> m \<and> bit (?ws ! k) m" for m
    using bit_u64_bound [of "?ws ! k" m] by (auto simp: bit_push_bit_iff bit_drop_bit_eq possible_bit_word)
  have "positions ?vs = filter (\<lambda>n. unat x \<le> n) (positions ?ws)"
  proof (rule ssorted_set_unique [OF positions_ssorted])
    show "ssorted (filter (\<lambda>n. unat x \<le> n) (positions ?ws))" by (rule ssorted_filter [OF positions_ssorted])
    have "wbit ?vs n \<longleftrightarrow> unat x \<le> n \<and> wbit ?ws n" if n: "n < 65536" for n
    proof -
      have nn: "n = 64 * (n div 64) + n mod 64" "n div 64 < 1024" "n mod 64 < 64" using n by simp_all
      have dn: "d < 64" by (simp add: d_def)
      have cut: "unat x \<le> n \<longleftrightarrow> k < n div 64 \<or> (k = n div 64 \<and> d \<le> n mod 64)"
        using lex64(1) [OF dn nn(3), of k "n div 64"] nn(1) x by simp
      show ?thesis
      proof (cases "n div 64" k rule: linorder_cases)
        case greater
        then have "\<not> n < 64 * k" using word_index_less [of n k] by linarith
        then have "?vs ! (n div 64) = ?ws ! (n div 64)" using greater
          using l nn(2) word_index_less [of n k] by (simp add: nth_append nth_Cons' Suc_leI)
        then show ?thesis unfolding cut using greater by (simp add: wbit_def)
      qed (auto simp: cut wbit_def nth_append wb)
    qed
    then show "set (positions ?vs) = set (filter (\<lambda>n. unat x \<le> n) (positions ?ws))"
      using k l by (auto simp: set_positions bits_of_def)
  qed
  then have ps: "map (\<lambda>n. n + 64 * k) (positions (?w # drop (Suc k) ?ws)) = filter (\<lambda>n. unat x \<le> n) (positions ?ws)"
    by (simp only: positions_append_zeros)
  have f: "filter (\<lambda>n. unat x \<le> n) (positions ?ws) = map unat (filter (\<lambda>y. x \<le> y) (sorted_list_of_set (bitset_abs b)))"
    unfolding positions_values(2) [OF wf, symmetric] by (simp add: filter_map o_def word_le_nat_alt)
  have "bitset_container_index_equalorlarger b x = equalorlarger_loop ?w (drop (Suc k) ?ws) k"
  proof -
    have kk: "unat (x div 64) = k" by (simp add: unat_div_distrib k_def)
    have dd: "unat x - k * 64 = d" by (simp add: x)
    show ?thesis unfolding bitset_container_index_equalorlarger_def Let_def kk dd by simp
  qed
  also have "\<dots> = (if filter (\<lambda>n. unat x \<le> n) (positions ?ws) = [] then - 1
      else int (hd (filter (\<lambda>n. unat x \<le> n) (positions ?ws))))"
    unfolding equalorlarger_loop_eq ps [symmetric] by (simp add: hd_map)
  also have "\<dots> = (case filter (\<lambda>y. x \<le> y) (sorted_list_of_set (bitset_abs b)) of [] \<Rightarrow> - 1 | y # ys \<Rightarrow> int (unat y))"
    unfolding f by (simp split: list.split)
  finally show ?thesis .
qed

section \<open>Selection\<close>

lemma select_word_eq:
  assumes "bs = filter (bit w) [0 ..< 64]"
  shows "unat start \<le> unat rank \<Longrightarrow> unat start + length bs < 4294967296 \<Longrightarrow>
     select_word w base start rank =
       (if unat rank < unat start + length bs then Inr (word_of_nat (bs ! (unat rank - unat start)) + ucast base)
        else Inl (start + word_of_nat (length bs)))"
  using assms
proof (induction w base start rank arbitrary: bs rule: select_word.induct)
  case (1 w base start rank)
  show ?case
  proof (cases "w = 0")
    case True
    then show ?thesis using 1 by (simp add: select_word.simps [of 0])
  next
    case False
    define bs' where "bs' = filter (bit (w AND (w - 1))) [0 ..< 64]"
    have bs: "bs = roaring_trailing_zeroes w # bs'"
      unfolding "1.prems"(3) bs'_def by (rule filter_bits_step [OF False])
    show ?thesis
    proof (cases "start = rank")
      case True
      then show ?thesis using False bs by (simp add: select_word.simps [of w])
    next
      case ne: False
      then have lt: "unat start < unat rank" using "1.prems"(1) by (metis le_neq_implies_less word_unat_eq_iff)
      have u: "unat (start + 1) = unat start + 1"
        using unat_u32_add [of start 1] "1.prems"(2) by (simp add: bs)
      have "select_word w base start rank = select_word (w AND (w - 1)) base (start + 1) rank"
        using False ne by (simp add: select_word.simps [of w])
      also have "\<dots> = (if unat rank < unat (start + 1) + length bs'
          then Inr (word_of_nat (bs' ! (unat rank - unat (start + 1))) + ucast base)
          else Inl (start + 1 + word_of_nat (length bs')))"
        using lt "1.prems"(2) by (intro "1.IH" [OF False ne _ _ bs'_def]) (simp_all add: u bs)
      finally show ?thesis using lt unfolding u bs by (simp add: nth_Cons' add.assoc)
    qed
  qed
qed

lemma select_words_eq:
  "unat start \<le> unat rank \<Longrightarrow> unat rank < unat start + length (positions ws) \<Longrightarrow>
     unat start + length (positions ws) < 4294967296 \<Longrightarrow> i + length ws \<le> 1024 \<Longrightarrow>
     select_words ws i start rank = Inr (word_of_nat (positions ws ! (unat rank - unat start) + 64 * i))"
proof (induction ws i start rank rule: select_words.induct)
  case (2 w ws i start rank)
  define bs where "bs = filter (bit w) [0 ..< 64]"
  have ps: "positions (w # ws) = bs @ map (\<lambda>n. n + 64) (positions ws)" by (simp add: positions_Cons bs_def)
  have h: "roaring_hamming w = length bs" by (simp add: roaring_hamming_def bs_def)
  have nb: "unat start + length bs < 4294967296" using "2.prems"(3) by (simp add: ps)
  then have u: "unat (start + word_of_nat (length bs)) = unat start + length bs"
    using unat_u32_add [of start "word_of_nat (length bs)"] by simp
  have base: "(ucast (word_of_nat (i * 64) :: u16) :: u32) = word_of_nat (i * 64)"
  proof -
    have "i * 64 < 65536" using "2.prems"(4) by simp
    then have "unat (word_of_nat (i * 64) :: u16) = i * 64" "unat (word_of_nat (i * 64) :: u32) = i * 64"
      by (intro unat_u16_of_nat unat_u32_of_nat; simp)+
    then show ?thesis by (simp only: word_unat_eq_iff unat_ucast_u16_u32)
  qed
  note sw = select_word_eq [OF bs_def "2.prems"(1) nb, of "word_of_nat (i * 64)"]
  show ?case
  proof (cases "unat rank < unat start + length bs")
    case True
    then have "rank \<le> start + word_of_nat (length bs)" by (simp add: word_le_nat_alt u)
    moreover have "unat rank - unat start < length bs" using True "2.prems"(1) by linarith
    ultimately show ?thesis using sw True unfolding base
      by (simp add: h Let_def ps nth_append mult.commute)
  next
    case False
    have step: "select_words (w # ws) i start rank = select_words ws (i + 1) (start + word_of_nat (length bs)) rank"
      using sw False by (simp add: h Let_def)
    have "select_words ws (i + 1) (start + word_of_nat (length bs)) rank
        = Inr (word_of_nat (positions ws ! (unat rank - unat (start + word_of_nat (length bs))) + 64 * (i + 1)))"
    proof (cases "rank \<le> start + word_of_nat (length bs)")
      case True
      then show ?thesis using False "2.prems" sw
        by (intro "2.IH"(1) [OF refl _ , of "start + word_of_nat (length bs)"]) (simp_all add: h u ps)
    next
      case no: False
      then show ?thesis using False "2.prems" "2.IH"(2) [OF refl] by (simp add: h u ps)
    qed
    also have "positions ws ! (unat rank - unat (start + word_of_nat (length bs))) + 64 * (i + 1)
        = positions (w # ws) ! (unat rank - unat start) + 64 * i"
      using False "2.prems"(1,2) by (auto simp: u ps nth_append nth_map)
    finally show ?thesis unfolding step .
  qed
qed simp

lemma bitset_select_correct:
  assumes inv: "bitset_inv b" and le: "s \<le> r" and bound: "unat s + card (bitset_abs b) < 4294967296"
  shows "bitset_container_select b s r =
     (if unat s + card (bitset_abs b) \<le> unat r then Inl (s + word_of_nat (card (bitset_abs b)))
      else Inr (ucast (sorted_list_of_set (bitset_abs b) ! (unat r - unat s))))"
proof -
  let ?xs = "sorted_list_of_set (bitset_abs b)" and ?ps = "positions (bc_words b)"
  have wf: "bitset_wf b" using inv by (rule bitset_inv_wf)
  note pv = positions_values(2) [OF wf]
  have lp: "length ?ps = card (bitset_abs b)" by (simp flip: pv)
  have u: "unat (s + word_of_nat (card (bitset_abs b))) = unat s + card (bitset_abs b)"
    using bound unat_u32_add [of s "word_of_nat (card (bitset_abs b))"] by simp
  have n: "of_int (bc_cardinality b) = (word_of_nat (card (bitset_abs b)) :: u32)"
    using bitset_inv_card [OF inv] by simp
  show ?thesis
  proof (cases "unat s + card (bitset_abs b) \<le> unat r")
    case True
    then show ?thesis by (simp add: bitset_container_select_def n Let_def word_le_nat_alt u)
  next
    case False
    have i: "unat r - unat s < length ?xs" using False le by (simp add: word_le_nat_alt)
    have "bitset_container_select b s r = select_words (bc_words b) 0 s r"
      using False by (simp add: bitset_container_select_def n Let_def word_le_nat_alt u)
    also have "\<dots> = Inr (word_of_nat (?ps ! (unat r - unat s) + 64 * 0))"
      using False le bound wf by (intro select_words_eq) (simp_all add: lp word_le_nat_alt bitset_wf_def)
    also have "?ps ! (unat r - unat s) = unat (?xs ! (unat r - unat s))" using i by (simp flip: pv)
    finally show ?thesis using False by simp
  qed
qed

section \<open>Enumeration\<close>

lemma iterate_values_append:
  "iterate_values f (xs @ ys) p = (case iterate_values f xs p of (c, p') \<Rightarrow>
     if c then iterate_values f ys p' else (False, p'))"
  by (induction f xs p rule: iterate_values.induct) (auto split: prod.splits)

lemma iterate_word_eq:
  "iterate_word f w base p = iterate_values f (map (\<lambda>n. word_of_nat n + base) (filter (bit w) [0 ..< 64])) p"
proof (induction f w base p rule: iterate_word.induct)
  case (1 f w base p)
  show ?case
  proof (cases "w = 0")
    case True
    then show ?thesis by (simp add: iterate_word.simps [of f 0])
  next
    case False
    then show ?thesis using "1.IH" [OF False refl refl]
      unfolding filter_bits_step [OF False] iterate_word.simps [of f w] xor_lowest [OF False]
      by (auto simp: Let_def xor_lowest [OF False] split: prod.splits)
  qed
qed

lemma iterate_words_eq:
  "iterate_words f ws base p = iterate_values f (map (\<lambda>n. word_of_nat n + base) (positions ws)) p"
  by (induction f ws base p rule: iterate_words.induct)
    (auto simp: iterate_word_eq positions_Cons iterate_values_append o_def add_ac split: prod.splits)

lemma values_as_positions:
  assumes "bitset_wf b"
  shows "map (\<lambda>n. word_of_nat n + base :: u32) (positions (bc_words b))
     = map (\<lambda>x. ucast x + base) (sorted_list_of_set (bitset_abs b))"
  unfolding positions_values(2) [OF assms, symmetric] by simp

lemma bitset_iterate_correct:
  assumes "bitset_wf b"
  shows "bitset_container_iterate b base f p
     = iterate_values f (map (\<lambda>x. ucast x + base) (sorted_list_of_set (bitset_abs b))) p"
  unfolding bitset_container_iterate_def iterate_words_eq values_as_positions [OF assms] ..

lemma bitset_to_uint32_array_correct:
  assumes "bitset_wf b"
  shows "bitset_container_to_uint32_array b base
     = map (\<lambda>x. ucast x + base) (sorted_list_of_set (bitset_abs b))"
  unfolding bitset_container_to_uint32_array_def extract_setbits_positions values_as_positions [OF assms] ..

lemma extract_setbits_values:
  assumes "bitset_wf b"
  shows "bitset_extract_setbits_uint16 (bc_words b) 0 = sorted_list_of_set (bitset_abs b)"
  using positions_values(1) [OF assms] by (simp add: extract_setbits_uint16_positions)

end
