(* ===== verification/Run_Order.thy ===== *)
theory Run_Order
  imports Run_Ops Bitset_Order
begin

text \<open>
  The order of the values in a run container: the values in increasing order, ranks, selection,
  the first run that reaches a value, enumeration, and the test for a range of values.
\<close>

section \<open>The values in order\<close>

definition run_list :: "rle16 list \<Rightarrow> nat list" where
  "run_list rs = concat (map (\<lambda>r. [rstart r ..< Suc (rend r)]) rs)"

lemma run_list_simps [simp]:
  "run_list [] = []" "run_list (r # rs) = [rstart r ..< Suc (rend r)] @ run_list rs"
  by (simp_all add: run_list_def)

lemma set_run_list: "set (run_list rs) = {n. covers rs n}"
  by (induction rs) (auto simp: in_run_def simp del: upt_Suc)

lemma sorted_run_list: "runs_ok rs \<Longrightarrow> ssorted (run_list rs)"
proof (induction rs)
  case (Cons r rs)
  have "\<forall>m \<in> {rstart r ..< Suc (rend r)}. \<forall>n. covers rs n \<longrightarrow> m < n" using covers_tail [OF Cons.prems] by fastforce
  then show ?case using Cons by (simp add: sorted_wrt_append set_run_list runs_ok_Cons del: upt_Suc)
qed simp

lemma length_run_list: "length (run_list rs) = sum_list (map run_size rs)"
  by (induction rs) (simp_all add: run_size_def rend_def rstart_def)

lemma run_list_abs:
  assumes inv: "run_inv c"
  shows "run_list (rc_runs c) = map unat (sorted_list_of_set (run_abs c))"
    and "sorted_list_of_set (run_abs c) = map word_of_nat (run_list (rc_runs c))"
    and "length (run_list (rc_runs c)) = card (run_abs c)"
proof -
  have ok: "runs_ok (rc_runs c)" using inv by (simp add: run_simps)
  have ss: "ssorted (sorted_list_of_set (run_abs c))" by simp
  then have "ssorted (map unat (sorted_list_of_set (run_abs c)))"
    by (simp add: sorted_wrt_map flip: word_less_nat_alt)
  moreover have "set (map unat (sorted_list_of_set (run_abs c))) = set (run_list (rc_runs c))"
    by (simp add: set_run_list run_abs_image [OF ok])
  ultimately show l: "run_list (rc_runs c) = map unat (sorted_list_of_set (run_abs c))"
    by (intro ssorted_set_unique [OF sorted_run_list [OF ok]]) simp_all
  show "sorted_list_of_set (run_abs c) = map word_of_nat (run_list (rc_runs c))"
    by (simp add: l comp_def)
  show "length (run_list (rc_runs c)) = card (run_abs c)" by (simp add: l)
qed

section \<open>Ranks and indices\<close>

text \<open>The number of covered values up to \<open>m\<close>.\<close>

definition count_upto :: "rle16 list \<Rightarrow> nat \<Rightarrow> nat" where
  "count_upto rs m = card {n. covers rs n \<and> n \<le> m}"

lemma count_upto_Nil [simp]: "count_upto [] m = 0"
  by (simp add: count_upto_def)

lemma count_upto_Cons:
  assumes ok: "runs_ok (r # rs)"
  shows "count_upto (r # rs) m = (if m \<le> rend r then Suc m - rstart r else run_size r + count_upto rs m)"
proof (cases "m \<le> rend r")
  case True
  have "{n. covers (r # rs) n \<and> n \<le> m} = {rstart r .. m}"
    using covers_tail [OF ok] True by (fastforce simp: in_run_def)
  then show ?thesis using True by (simp add: count_upto_def)
next
  case False
  have e: "{n. covers (r # rs) n \<and> n \<le> m} = {rstart r .. rend r} \<union> {n. covers rs n \<and> n \<le> m}"
    using False by (auto simp: in_run_def)
  have "{rstart r .. rend r} \<inter> {n. covers rs n \<and> n \<le> m} = {}" using covers_tail [OF ok] by fastforce
  moreover have "card {rstart r .. rend r} = run_size r" by (simp add: run_size_def rend_def rstart_def)
  moreover have "finite {n. covers rs n \<and> n \<le> m}" by simp
  ultimately show ?thesis using False unfolding count_upto_def e by (simp add: card_Un_disjoint)
qed

lemma count_upto_words:
  assumes "runs_ok (rc_runs c)"
  shows "count_upto (rc_runs c) (unat x) = card {y \<in> run_abs c. y \<le> x}"
proof -
  have "unat ` {y \<in> run_abs c. y \<le> x} = {n. covers (rc_runs c) n \<and> n \<le> unat x}" (is "?A = ?B")
  proof (intro set_eqI iffI)
    fix n assume n: "n \<in> ?B"
    then have "n = unat (word_of_nat n :: u16)" using covers_less [OF assms] by simp
    then show "n \<in> ?A" using n by (auto simp: run_abs_def word_le_nat_alt intro!: image_eqI)
  qed (auto simp: run_abs_def word_le_nat_alt)
  then show ?thesis using card_image [OF inj_unat_word, of "{y \<in> run_abs c. y \<le> x}"] by (simp add: count_upto_def)
qed

lemma run_rank_loop_correct: "runs_ok rs \<Longrightarrow> run_rank_loop rs x acc = acc + count_upto rs (unat x)"
proof (induction rs arbitrary: acc)
  case (Cons r rs)
  have e: "unat (rl_length r) + rstart r = rend r" by (simp add: rend_def rstart_def)
  show ?case using Cons unfolding run_rank_loop.simps Let_def e
    by (auto simp: count_upto_Cons [OF Cons.prems] run_size_def runs_ok_Cons)
qed simp

lemma run_rank_correct: "run_inv c \<Longrightarrow> run_container_rank c x = card {y \<in> run_abs c. y \<le> x}"
  by (simp add: run_container_rank_def run_rank_loop_correct count_upto_words run_simps)

lemma run_index_loop_correct: "runs_ok rs \<Longrightarrow> run_index_loop rs x acc = acc + int (count_upto rs (unat x)) - 1"
proof (induction rs arbitrary: acc)
  case (Cons r rs)
  have e: "unat (rl_length r) + rstart r = rend r" by (simp add: rend_def rstart_def)
  show ?case using Cons unfolding run_index_loop.simps Let_def e
    by (auto simp: count_upto_Cons [OF Cons.prems] run_size_def runs_ok_Cons)
qed simp

lemma run_get_index_correct:
  assumes inv: "run_inv c"
  shows "run_container_get_index c x = (if x \<in> run_abs c then int (card {y \<in> run_abs c. y < x}) else - 1)"
  using card_le_split [of "run_abs c" x]
  by (simp add: run_container_get_index_def run_contains_correct [OF inv] run_index_loop_correct count_upto_words
      run_inv_simps(1) [OF inv])

lemma skip_runs_correct:
  "runs_ok rs \<Longrightarrow> skip_runs m rs acc = (rs', acc') \<Longrightarrow>
     runs_ok rs' \<and> (\<forall>k \<ge> m. acc' + count_upto rs' k = acc + count_upto rs k) \<and>
     (case rs' of [] \<Rightarrow> True | r # _ \<Rightarrow> m \<le> rend r)"
proof (induction rs arbitrary: acc)
  case (Cons r rs)
  have e: "unat (rl_length r) + rstart r = rend r" by (simp add: rend_def rstart_def)
  show ?case
  proof (cases "m \<le> rend r")
    case True
    then show ?thesis using Cons.prems by (auto simp: e)
  next
    case False
    then have "skip_runs m rs (acc + (unat (rl_length r) + 1)) = (rs', acc')" using Cons.prems(2) by (simp add: e)
    from Cons.IH [OF _ this] show ?thesis using False Cons.prems(1)
      by (auto simp: runs_ok_Cons count_upto_Cons [OF Cons.prems(1)] run_size_def)
  qed
qed simp

lemma ucast_low16: "unat (x AND 0xFFFF :: u32) = unat (ucast x :: u16)"
proof -
  have "x AND 0xFFFF = take_bit 16 x" by (simp add: take_bit_eq_mask mask_eq_exp_minus_1)
  then show ?thesis by (simp add: unsigned_ucast_eq unsigned_take_bit_eq)
qed

lemma run_rank_many_loop_correct:
  "\<forall>q \<in> set qs. ucast (drop_bit 16 q) = high \<Longrightarrow> sorted (map (\<lambda>q. ucast q :: u16) qs) \<Longrightarrow> runs_ok rs \<Longrightarrow>
     run_rank_many_loop start high rs acc qs =
       map (\<lambda>q. start + word_of_nat (acc + count_upto rs (unat (ucast q :: u16)))) qs"
proof (induction qs arbitrary: rs acc)
  case (Cons q qs)
  define m where "m = unat (ucast q :: u16)"
  obtain rs' acc' where s: "skip_runs m rs acc = (rs', acc')" by (cases "skip_runs m rs acc")
  note sk = skip_runs_correct [OF Cons.prems(3) s]
  have "m \<le> unat (ucast p :: u16)" if "p \<in> set qs" for p
    using Cons.prems(2) that by (simp add: m_def word_le_nat_alt)
  then have "run_rank_many_loop start high rs' acc' qs =
      map (\<lambda>q. start + word_of_nat (acc + count_upto rs (unat (ucast q :: u16)))) qs"
    using Cons.IH [of rs' acc'] Cons.prems sk by (simp del: of_nat_add)
  moreover have "(case rs' of [] \<Rightarrow> start + of_nat acc'
      | r # rs \<Rightarrow> if m < rstart r then start + of_nat acc' else start + of_nat acc' + of_nat (m - rstart r) + 1)
      = start + word_of_nat (acc' + count_upto rs' m)"
  proof (cases rs')
    case Nil
    then show ?thesis by simp
  next
    case (Cons r ss)
    have le: "m \<le> rend r" and ok: "runs_ok (r # ss)" using sk Cons by simp_all
    show ?thesis
    proof (cases "m < rstart r")
      case False
      then have "Suc m - rstart r = Suc (m - rstart r)" by simp
      then show ?thesis using False le by (simp add: Cons count_upto_Cons [OF ok])
    qed (use le in \<open>simp add: Cons count_upto_Cons [OF ok]\<close>)
  qed
  ultimately show ?case using Cons.prems(1) sk
    by (simp add: ucast_low16 s Let_def flip: m_def)
qed simp

lemma run_rank_many_loop_stops:
  "run_rank_many_loop start high rs acc qs =
     run_rank_many_loop start high rs acc (takeWhile (\<lambda>q. ucast (drop_bit 16 q) = high) qs)"
  by (induction qs arbitrary: rs acc) (simp_all add: Let_def split: prod.splits)

lemma run_rank_many_correct:
  assumes inv: "run_inv c" and qs: "run = takeWhile (\<lambda>q. drop_bit 16 q = drop_bit 16 (hd qs)) qs"
    and sorted: "sorted (map (\<lambda>q. ucast q :: u16) run)"
  shows "run_container_rank_many c start qs =
     (length run, map (\<lambda>q. start + word_of_nat (card {y \<in> run_abs c. y \<le> ucast q})) run)"
proof -
  have "(ucast (drop_bit 16 a) :: u16) = ucast (drop_bit 16 b) \<longleftrightarrow> drop_bit 16 a = drop_bit 16 b" for a b :: u32
    using unat_ucast_u32_u16 [OF unat_high16(2), of a] unat_ucast_u32_u16 [OF unat_high16(2), of b]
    by (metis word_unat_eq_iff)
  then have run: "takeWhile (\<lambda>q. (ucast (drop_bit 16 q) :: u16) = ucast (drop_bit 16 (hd qs))) qs = run"
    by (simp add: qs)
  then have "\<forall>q \<in> set run. (ucast (drop_bit 16 q) :: u16) = ucast (drop_bit 16 (hd qs))"
    using set_takeWhileD by fastforce
  from run_rank_many_loop_correct [OF this sorted, of "rc_runs c" start 0]
  show ?thesis
    using run_rank_many_loop_stops [of start "ucast (drop_bit 16 (hd qs))" "rc_runs c" 0 qs] inv
    by (simp add: run_container_rank_many_def run count_upto_words run_simps Let_def)
qed

section \<open>Selection\<close>

lemma run_select_loop_correct:
  "runs_ok rs \<Longrightarrow> unat s \<le> unat r \<Longrightarrow> unat s + length (run_list rs) < 4294967296 \<Longrightarrow>
     run_select_loop rs s r =
       (if unat r < unat s + length (run_list rs) then Inr (word_of_nat (run_list rs ! (unat r - unat s)))
        else Inl (s + word_of_nat (length (run_list rs))))"
proof (induction rs arbitrary: s)
  case (Cons q rs)
  let ?l = "ucast (rl_length q) :: u32"
  have n: "length [rstart q ..< Suc (rend q)] = unat (rl_length q) + 1" by (simp add: rend_def rstart_def)
  have b: "unat s + unat ?l + 1 + length (run_list rs) < 4294967296" using Cons.prems(3) n by simp
  have u: "unat (s + ?l) = unat s + unat (rl_length q)" using unat_u32_add [of s ?l] b by simp
  have u1: "unat (s + (?l + 1)) = unat s + unat (rl_length q) + 1"
    using unat_u32_add [of "s + ?l" 1] b u by (simp add: add.assoc)
  show ?case
  proof (cases "unat r \<le> unat s + unat (rl_length q)")
    case True
    then have i: "unat r - unat s < length [rstart q ..< Suc (rend q)]" using n by simp
    then have "run_list (q # rs) ! (unat r - unat s) = rstart q + (unat r - unat s)"
      by (simp add: nth_append del: upt_Suc)
    moreover have "(word_of_nat (rstart q + (unat r - unat s)) :: u32) = ucast (rl_value q) + r - s"
      using Cons.prems(2) by (simp add: rstart_def of_nat_diff)
    ultimately show ?thesis using True i u n by (simp add: word_le_nat_alt)
  next
    case False
    then have "run_select_loop (q # rs) s r = run_select_loop rs (s + (?l + 1)) r"
      by (simp add: word_le_nat_alt u)
    moreover have "run_list (q # rs) ! (unat r - unat s) = run_list rs ! (unat r - (unat s + unat (rl_length q) + 1))"
    proof -
      have "\<not> unat r - unat s < unat (rl_length q) + 1" using False by linarith
      then show ?thesis unfolding run_list_simps nth_append n by simp
    qed
    moreover have "length (run_list (q # rs)) = unat (rl_length q) + 1 + length (run_list rs)" using n by simp
    moreover have "run_select_loop rs (s + (?l + 1)) r =
        (if unat r < unat s + unat (rl_length q) + 1 + length (run_list rs)
         then Inr (word_of_nat (run_list rs ! (unat r - (unat s + unat (rl_length q) + 1))))
         else Inl (s + (?l + 1) + word_of_nat (length (run_list rs))))"
      using Cons.IH [of "s + (?l + 1)"] Cons.prems(1) False b by (simp add: u1 runs_ok_Cons)
    ultimately show ?thesis by (simp add: add.assoc)
  qed
qed simp

lemma run_select_correct:
  assumes inv: "run_inv c" and le: "s \<le> r" and bound: "unat s + card (run_abs c) < 4294967296"
  shows "run_container_select c s r =
     (if unat s + card (run_abs c) \<le> unat r then Inl (s + word_of_nat (card (run_abs c)))
      else Inr (ucast (sorted_list_of_set (run_abs c) ! (unat r - unat s))))"
proof -
  note l = run_list_abs [OF inv]
  have "length (sorted_list_of_set (run_abs c)) = card (run_abs c)" by simp
  then have "word_of_nat (run_list (rc_runs c) ! (unat r - unat s)) = (ucast (sorted_list_of_set (run_abs c) ! (unat r - unat s)) :: u32)"
    if "unat r < unat s + card (run_abs c)"
    using that le unfolding l(1) by (subst nth_map) (simp_all add: word_le_nat_alt)
  then show ?thesis using run_select_loop_correct [of "rc_runs c" s r] le bound inv
    by (simp add: run_container_select_def run_simps l(3) word_le_nat_alt)
qed

section \<open>The first run that reaches a value\<close>

lemma run_index_equalorlarger_correct:
  assumes inv: "run_inv c"
  shows "case run_container_index_equalorlarger c x of i \<Rightarrow>
     (i = - 1 \<longrightarrow> (\<forall>r \<in> set (rc_runs c). rend r < unat x)) \<and>
     (i \<noteq> - 1 \<longrightarrow> 0 \<le> i \<and> nat i < length (rc_runs c) \<and> unat x \<le> rend (rc_runs c ! nat i) \<and>
        (\<forall>r \<in> set (take (nat i) (rc_runs c)). rend r < unat x))"
proof (rule search_split [OF run_inv_simps(1) [OF inv], of x])
  fix as r bs
  assume found: "rc_runs c = as @ r # bs" "rl_value r = x"
    "interleavedBinarySearch (rc_runs c) (length (rc_runs c)) x = int (length as)"
  have ok: "runs_ok (as @ r # bs)" using run_inv_simps(1) [OF inv] found(1) by simp
  have x: "rstart r = unat x" "unat x \<le> rend r" using found(2) rstart_le_rend [of r] by (simp_all add: rstart_def)
  have "\<forall>a \<in> set as. rend a < unat x" using ok x(1) by (fastforce simp: runs_ok_append)
  then show ?thesis
    unfolding run_container_index_equalorlarger_def run_inv_simps(3) [OF inv] found(3)
    by (simp add: found(1) x)
next
  fix as bs
  assume absent: "rc_runs c = as @ bs" "\<forall>r \<in> set as. rl_value r < x" "\<forall>r \<in> set bs. x < rl_value r"
    "interleavedBinarySearch (rc_runs c) (length (rc_runs c)) x = - int (length as) - 1"
  have ok: "runs_ok (as @ bs)" using run_inv_simps(1) [OF inv] absent(1) by simp
  have n: "rc_n_runs c = int (length as + length bs)" using inv absent(1) by (simp add: run_simps)
  have above: "unat x \<le> rend (bs ! 0)" if "bs \<noteq> []"
  proof -
    have "x < rl_value (bs ! 0)" using absent(3) that by (auto simp: hd_conv_nth)
    then show ?thesis using rstart_le_rend [of "bs ! 0"] by (simp add: rstart_def word_less_nat_alt)
  qed
  note def = run_container_index_equalorlarger_def run_inv_simps(3) [OF inv] absent(4) Let_def
  show ?thesis
  proof (cases as rule: rev_cases)
    case Nil
    then show ?thesis using above n unfolding def by (cases bs) (simp_all add: absent(1))
  next
    case (snoc ds d)
    have nth: "rc_runs c ! length ds = d" using absent(1) snoc by simp
    have off: "uint x - uint (rl_value d) \<le> uint (rl_length d) \<longleftrightarrow> unat x \<le> rend d"
      by (simp add: uint_offset rend_def)
    have before: "\<forall>a \<in> set ds. rend a + 1 < rstart d" using ok snoc by (simp add: runs_ok_append)
    have dx: "rstart d < unat x" using absent(2) snoc by (simp add: rstart_def word_less_nat_alt)
    have i: "- (- int (length as) - 1) - 2 = int (length ds)" using snoc by simp
    show ?thesis
    proof (cases "unat x \<le> rend d")
      case True
      have "\<forall>a \<in> set ds. rend a < unat x" using before dx by fastforce
      then show ?thesis using True unfolding def i by (simp add: nth off) (simp add: absent(1) snoc)
    next
      case False
      then have "\<forall>a \<in> set as. rend a < unat x" using before dx snoc by fastforce
      moreover have "nat (int (length ds) + 1) = Suc (length ds)" by simp
      ultimately show ?thesis using False above n unfolding def i
        by (cases bs) (simp_all add: nth off absent(1) snoc nth_append not_le)
    qed
  qed
qed

section \<open>Enumeration\<close>

lemma run_values_eq: "run_values base r = map (\<lambda>n. base + word_of_nat n) [rstart r ..< Suc (rend r)]"
proof (rule nth_equalityI)
  fix i assume "i < length (run_values base r)"
  then have i: "i < Suc (unat (rl_length r))" by (simp add: run_values_def del: upt_Suc)
  then have "i < Suc (rend r) - rstart r" by (simp add: rend_def rstart_def)
  then show "run_values base r ! i = map (\<lambda>n. base + word_of_nat n) [rstart r ..< Suc (rend r)] ! i"
    using i by (simp add: run_values_def rstart_def del: upt_Suc)
qed (simp add: run_values_def rend_def rstart_def)

lemma run_values_list: "concat (map (run_values base) rs) = map (\<lambda>n. base + word_of_nat n) (run_list rs)"
  by (induction rs) (simp_all add: run_values_eq del: upt_Suc)

lemma run_list_words:
  "run_inv c \<Longrightarrow> map (\<lambda>n. base + word_of_nat n :: u32) (run_list (rc_runs c)) = map (\<lambda>x. base + ucast x) (sorted_list_of_set (run_abs c))"
  by (simp add: run_list_abs(1))

lemma run_to_uint32_array_correct:
  assumes "run_inv c"
  shows "run_container_to_uint32_array c base =
     (int (card (run_abs c)), map (\<lambda>x. base + ucast x) (sorted_list_of_set (run_abs c)))"
  by (simp add: run_container_to_uint32_array_def run_values_list run_list_words [OF assms] Let_def)

lemma run_iterate_loop_eq: "run_iterate_loop f rs base s = iterate_values f (concat (map (run_values base) rs)) s"
  by (induction rs arbitrary: s) (simp_all add: iterate_values_append split: prod.splits)

lemma run_iterate_correct:
  assumes "run_inv c"
  shows "run_container_iterate c base f s = iterate_values f (map (\<lambda>x. base + ucast x) (sorted_list_of_set (run_abs c))) s"
    and "run_container_iterate64 c base g high s =
      iterate_values g (map (\<lambda>x. high OR ucast (base + ucast x)) (sorted_list_of_set (run_abs c))) s"
proof -
  show "run_container_iterate c base f s = iterate_values f (map (\<lambda>x. base + ucast x) (sorted_list_of_set (run_abs c))) s"
    by (simp add: run_container_iterate_def run_iterate_loop_eq run_values_list run_list_words [OF assms])
  have "iterate_values (\<lambda>v. g (high OR ucast v)) xs s = iterate_values g (map (\<lambda>v. high OR ucast v) xs) s" for xs :: "u32 list"
    by (induction xs arbitrary: s) (simp_all split: prod.splits)
  then show "run_container_iterate64 c base g high s =
      iterate_values g (map (\<lambda>x. high OR ucast (base + ucast x)) (sorted_list_of_set (run_abs c))) s"
    by (simp add: run_container_iterate64_def run_iterate_loop_eq run_values_list run_list_words [OF assms] comp_def)
qed

section \<open>Containing a range\<close>

lemma contains_range_tail:
  "runs_ok rs \<Longrightarrow> \<forall>r \<in> set rs. l \<le> rstart r \<Longrightarrow> unat s \<le> l \<Longrightarrow> unat e \<le> 65536 \<Longrightarrow> unat n + (unat e - l) < 4294967296 \<Longrightarrow>
     unat (contains_range_loop rs s e n) \<le> unat n + (unat e - l)"
proof (induction rs arbitrary: n l)
  case (Cons r rs)
  let ?v = "ucast (rl_value r) :: u32" and ?l = "ucast (rl_length r) :: u32"
  have v: "unat ?v = rstart r" "unat ?l = unat (rl_length r)" by (simp_all add: rstart_def)
  have r: "rend r < 65536" "rstart r \<le> rend r" "l \<le> rstart r" using Cons.prems by (simp_all add: runs_ok_Cons rstart_le_rend)
  have st: "unat (?v + ?l) = rend r" using unat_u32_add [of ?v ?l] r by (simp add: rend_def rstart_def)
  consider (out) "unat e \<le> rstart r" | (last) "rstart r < unat e" "unat e \<le> rend r" | (in_) "rend r < unat e"
    using r by linarith
  then show ?case
  proof cases
    case out
    then have "contains_range_loop (r # rs) s e n = n" by (simp add: word_le_nat_alt rstart_def)
    then show ?thesis by simp
  next
    case last
    have d: "unat (e - ?v) = unat e - rstart r" using last v by (simp add: unat_u32_diff)
    then have "e - ?v > 0" using last by (simp add: word_less_nat_alt)
    then have "contains_range_loop (r # rs) s e n = n + (e - ?v)"
      using last st v by (simp add: word_le_nat_alt Let_def)
    then show ?thesis using unat_u32_add [of n "e - ?v"] d Cons.prems(4,5) r by simp
  next
    case in_
    define k where "k = (let least = (if ?v + ?l - s > 0 then ?v + ?l - s else 0) in if least < ?l then least else ?l)"
    have "unat k \<le> unat (rl_length r)" by (simp add: k_def word_less_nat_alt v Let_def)
    then have k: "rstart r + unat k \<le> rend r" by (simp add: rend_def rstart_def)
    have step: "contains_range_loop (r # rs) s e n = contains_range_loop rs s e (n + k)"
      using in_ r st v by (simp add: word_le_nat_alt Let_def k_def)
    have nk: "unat (n + k) = unat n + unat k" using unat_u32_add [of n k] k r in_ Cons.prems(5) by simp
    have "unat (contains_range_loop rs s e (n + k)) \<le> unat (n + k) + (unat e - (rend r + 2))"
      by (rule Cons.IH) (use Cons.prems k nk r in_ in \<open>auto simp: runs_ok_Cons\<close>)
    then show ?thesis unfolding step nk using k r in_ by linarith
  qed
qed simp

lemma run_contains_range_correct:
  assumes inv: "run_inv c" and lt: "unat s < unat e" and e: "unat e \<le> 65536"
  shows "run_container_contains_range c s e \<longleftrightarrow> (\<forall>v \<in> {unat s ..< unat e}. covers (rc_runs c) v)"
proof -
  have us: "unat (ucast s :: u16) = unat s" using lt e by (intro unat_ucast_u32_u16) linarith
  have thr: "unat (e - s - 1) = unat e - unat s - 1"
    using lt unat_u32_diff [of s e] unat_u32_pred [of "e - s"] by simp
  have here: "contains_range_loop (r # bs) s e 0 \<ge> e - s - 1 \<longleftrightarrow> (\<forall>v \<in> {unat s ..< unat e}. covers (as @ r # bs) v)"
    if ok: "runs_ok (as @ r # bs)" and r: "in_run r (unat s)" for as r bs
  proof -
    let ?v = "ucast (rl_value r) :: u32" and ?l = "ucast (rl_length r) :: u32"
    have v: "unat ?v = rstart r" "unat ?l = unat (rl_length r)" by (simp_all add: rstart_def)
    have ok': "runs_ok (r # bs)" "rend r < 65536" "\<forall>b \<in> set bs. rend r + 1 < rstart b" "runs_ok bs"
      using ok by (auto simp: runs_ok_append runs_ok_Cons)
    have st: "unat (?v + ?l) = rend r" using unat_u32_add [of ?v ?l] ok'(2) by (simp add: rend_def rstart_def)
    have rs: "rstart r \<le> unat s" "unat s \<le> rend r" using r by (simp_all add: in_run_def)
    show ?thesis
    proof (cases "unat e \<le> rend r")
      case True
      have d: "unat (e - ?v) = unat e - rstart r" using rs lt v by (intro unat_u32_diff [THEN trans]) simp_all
      then have "e - ?v > 0" using rs lt by (simp add: word_less_nat_alt)
      then have "contains_range_loop (r # bs) s e 0 = e - ?v"
        using True st v rs lt by (simp add: word_le_nat_alt Let_def)
      then have "contains_range_loop (r # bs) s e 0 \<ge> e - s - 1" using d thr rs by (simp add: word_le_nat_alt)
      moreover have "in_run r n" if "n \<in> {unat s ..< unat e}" for n using that True rs by (simp add: in_run_def)
      ultimately show ?thesis by auto
    next
      case False
      have m: "unat (?v + ?l - s) = rend r - unat s" using st rs by (simp add: unat_u32_diff)
      define k where "k = (let least = (if ?v + ?l - s > 0 then ?v + ?l - s else 0) in if least < ?l then least else ?l)"
      have k: "unat k = rend r - unat s"
        using m v rs by (auto simp: k_def word_less_nat_alt Let_def rend_def rstart_def word_neq_0_conv)
      have step: "contains_range_loop (r # bs) s e 0 = contains_range_loop bs s e k"
        using False rs lt st v by (simp add: word_le_nat_alt Let_def k_def)
      show ?thesis
      proof (cases "unat e = rend r + 1")
        case True
        have "contains_range_loop bs s e k = k"
          using ok'(3) True by (cases bs) (auto simp: word_le_nat_alt rstart_def)
        then have "contains_range_loop (r # bs) s e 0 \<ge> e - s - 1" using step k thr True by (simp add: word_le_nat_alt)
        moreover have "in_run r n" if "n \<in> {unat s ..< unat e}" for n using that True rs by (simp add: in_run_def)
        ultimately show ?thesis by auto
      next
        case gap: False
        have "unat (contains_range_loop bs s e k) \<le> unat k + (unat e - (rend r + 2))"
          by (rule contains_range_tail) (use ok' rs e k in auto)
        then have "\<not> contains_range_loop (r # bs) s e 0 \<ge> e - s - 1"
          using step k thr gap False rs by (simp add: word_le_nat_alt)
        moreover have "\<not> covers (as @ r # bs) (rend r + 1)"
          using ok covers_tail [OF ok'(1), of "rend r + 1"] rstart_le_rend [of r]
          by (fastforce simp: runs_ok_append in_run_def covers_def)
        moreover have "rend r + 1 \<in> {unat s ..< unat e}" using False gap rs by simp
        ultimately show ?thesis by blast
      qed
    qed
  qed
  have away: "\<not> (\<forall>v \<in> {unat s ..< unat e}. covers (rc_runs c) v)" if "\<not> covers (rc_runs c) (unat s)" using that lt by auto
  show ?thesis
  proof (rule search_split [OF run_inv_simps(1) [OF inv], of "ucast s"])
    fix as r bs
    assume found: "rc_runs c = as @ r # bs" "rl_value r = ucast s"
      "interleavedBinarySearch (rc_runs c) (length (rc_runs c)) (ucast s) = int (length as)"
    have "in_run r (unat s)" using found(2) us rstart_le_rend [of r] by (simp add: in_run_def rstart_def)
    then show ?thesis using here [of as r bs] run_inv_simps(1) [OF inv] found
      by (simp add: run_container_contains_range_def run_inv_simps(3) [OF inv] Let_def)
  next
    fix as bs
    assume absent: "rc_runs c = as @ bs" "\<forall>r \<in> set as. rl_value r < ucast s" "\<forall>r \<in> set bs. ucast s < rl_value r"
      "interleavedBinarySearch (rc_runs c) (length (rc_runs c)) (ucast s) = - int (length as) - 1"
    have ok: "runs_ok (as @ bs)" using run_inv_simps(1) [OF inv] absent(1) by simp
    have nb: "\<not> covers bs (unat s)" using absent(3) us by (fastforce simp: covers_def in_run_def rstart_def word_less_nat_alt)
    note def = run_container_contains_range_def run_inv_simps(3) [OF inv] absent(4) Let_def
    show ?thesis
    proof (cases as rule: rev_cases)
      case Nil
      then show ?thesis using away nb absent(1) unfolding def by simp
    next
      case (snoc ds d)
      have nth: "rc_runs c ! length ds = d" "drop (length ds) (rc_runs c) = d # bs" using absent(1) snoc by simp_all
      have i: "- (- int (length as) - 1) - 2 = int (length ds)" "\<not> (0 \<le> - int (length as) - 1)" using snoc by simp_all
      have dx: "rstart d < unat s" using absent(2) snoc us by (simp add: rstart_def word_less_nat_alt)
      then have "unat (s - ucast (rl_value d)) = unat s - rstart d" by (intro unat_u32_diff [THEN trans]) (simp_all add: rstart_def)
      then have off: "s - ucast (rl_value d) > ucast (rl_length d) \<longleftrightarrow> rend d < unat s"
        using dx by (auto simp: word_less_nat_alt rend_def rstart_def)
      show ?thesis
      proof (cases "rend d < unat s")
        case True
        have "\<not> covers (rc_runs c) (unat s)"
          using nb True dx ok snoc absent(1) by (fastforce simp: runs_ok_append covers_def in_run_def)
        then show ?thesis using away True unfolding def i by (simp add: nth off)
      next
        case False
        then have "in_run d (unat s)" using dx by (simp add: in_run_def)
        then show ?thesis using False here [of ds d bs] ok snoc absent(1) unfolding def i by (simp add: nth off)
      qed
    qed
  qed
qed

end
