(* ===== verification/Bitset_Shift.thy ===== *)
theory Bitset_Shift
  imports Bitset_Order Array_Ranges
begin

text \<open>
  Correctness of the remaining operations of the bitset container: shifting by an offset, the
  byte image, the number of runs, validation.
\<close>

section \<open>Shifting\<close>

lemma length_fold_update: "length (fold (\<lambda>k ws. ws[g k := f k]) ks ws) = length ws"
  by (induction ks arbitrary: ws) simp_all

lemma nth_fold_shift:
  assumes j: "j < length ws"
  shows "fold (\<lambda>k ws. ws[b + k := f k]) [a ..< e] ws ! j = (if a + b \<le> j \<and> j < e + b then f (j - b) else ws ! j)"
    and "d \<le> a \<Longrightarrow> fold (\<lambda>k ws. ws[k - d := f k]) [a ..< e] ws ! j = (if a \<le> j + d \<and> j + d < e then f (j + d) else ws ! j)"
proof -
  show "fold (\<lambda>k ws. ws[b + k := f k]) [a ..< e] ws ! j = (if a + b \<le> j \<and> j < e + b then f (j - b) else ws ! j)"
  proof (induction e)
    case (Suc e)
    show ?case
    proof (cases "a \<le> e \<and> j = b + e")
      case True
      then show ?thesis using j by (simp add: length_fold_update [of "(+) b" f])
    next
      case False
      then show ?thesis using Suc by (cases "a \<le> e") auto
    qed
  qed auto
  show "fold (\<lambda>k ws. ws[k - d := f k]) [a ..< e] ws ! j = (if a \<le> j + d \<and> j + d < e then f (j + d) else ws ! j)"
    if d: "d \<le> a"
  proof (induction e)
    case (Suc e)
    show ?case
    proof (cases "a \<le> e \<and> j = e - d")
      case True
      then show ?thesis using j d by (simp add: length_fold_update [of "\<lambda>k. k - d" f])
    next
      case False
      then show ?thesis using Suc d by (cases "a \<le> e") auto
    qed
  qed simp
qed

text \<open>The word that a shift by \<open>i < 64\<close> bits leaves at index \<open>k\<close>.\<close>

definition shifted_word :: "u64 list \<Rightarrow> nat \<Rightarrow> nat \<Rightarrow> u64" where
  "shifted_word c i k = (if i = 0 then c ! k else push_bit i (if k < length c then c ! k else 0)
     OR drop_bit (64 - i) (if k = 0 then 0 else c ! (k - 1)))"

lemma bit_shifted_word:
  assumes "i < 64" and "m < 64" and "k < length c \<or> (k = length c \<and> 0 < i)"
  shows "bit (shifted_word c i k) m \<longleftrightarrow> i \<le> 64 * k + m \<and> 64 * k + m - i < 64 * length c \<and> wbit c (64 * k + m - i)"
proof (cases "i \<le> m")
  case True
  then have "64 * k + m - i = 64 * k + (m - i)" by simp
  then have "(64 * k + m - i) div 64 = k" and "(64 * k + m - i) mod 64 = m - i" using assms(2)
    by simp_all
  moreover have "\<not> bit v (64 + m - i)" for v :: u64
    using bit_imp_le_length [of v "64 + m - i"] True by auto
  ultimately show ?thesis using True assms
    by (auto simp: shifted_word_def wbit_def bit_simps Nat.add_diff_assoc2 add.commute)
next
  case False
  show ?thesis
  proof (cases k)
    case 0
    then show ?thesis using False assms by (auto simp: shifted_word_def bit_simps)
  next
    case (Suc k')
    have "64 * k + m - i = 64 * k' + (64 + m - i)" using False assms(1) Suc by simp
    then have "(64 * k + m - i) div 64 = k'" and "(64 * k + m - i) mod 64 = 64 + m - i"
      using False assms(2) by simp_all
    then show ?thesis using False assms Suc
      by (auto simp: shifted_word_def wbit_def bit_simps Nat.add_diff_assoc2 add.commute)
  qed
qed

lemma nth_offset_low:
  assumes "length c = 1024" and "b < 1024" and "j < 1024"
  shows "bitset_offset_low c b i (1024 - b) ! j = (if b \<le> j then shifted_word c i (j - b) else 0)"
    and "length (bitset_offset_low c b i (1024 - b)) = 1024"
  using assms unfolding bitset_offset_low_def Let_def
  by (auto simp: nth_fold_shift length_fold_update [of "(+) b"] shifted_word_def nth_list_update)

lemma nth_offset_high:
  assumes c: "length c = 1024" and e: "e = 1024 - b" and b: "b < 1024" and j: "j < 1024"
  shows "bitset_offset_high c b i e (replicate 1024 0) ! j
       = (if j < b \<or> (j = b \<and> i \<noteq> 0) then shifted_word c i (j + e) else 0)"
    and "length (bitset_offset_high c b i e (replicate 1024 0)) = 1024"
proof -
  define f where "f k = push_bit i (c ! k) OR drop_bit (64 - i) (c ! (k - 1))" for k
  define ws where "ws = fold (\<lambda>k words. words[k - e := f k]) [e ..< 1024] (replicate 1024 0)"
  define vs where "vs = fold (\<lambda>k words. words[k := c ! (e + k)]) [0 ..< b] (replicate 1024 0)"
  have high: "bitset_offset_high c b i e (replicate 1024 0) = (if i = 0 then vs else ws[b := drop_bit (64 - i) (c ! 1023)])"
    by (simp only: bitset_offset_high_def ws_def vs_def f_def)
  have l: "length ws = 1024" "length vs = 1024"
    using length_fold_update [of "\<lambda>k. k - e" f] length_fold_update [of "\<lambda>k. k" "\<lambda>k. c ! (e + k)"]
    by (simp_all add: ws_def vs_def)
  have "ws ! j = (if j < b then f (j + e) else 0)"
    using nth_fold_shift(2) [of j "replicate 1024 0" e e f 1024] e b j by (auto simp: ws_def)
  moreover have "vs ! j = (if j < b then c ! (j + e) else 0)"
    using nth_fold_shift(1) [of j "replicate 1024 0" 0 "\<lambda>k. c ! (e + k)" 0 b] j by (simp add: vs_def add.commute)
  moreover have "j + e = 1024 \<longleftrightarrow> j = b" "j + e < 1024 \<longleftrightarrow> j < b" "j + e \<noteq> 0" using e b by auto
  ultimately show "bitset_offset_high c b i e (replicate 1024 0) ! j
       = (if j < b \<or> (j = b \<and> i \<noteq> 0) then shifted_word c i (j + e) else 0)"
    using c j l unfolding high by (auto simp: shifted_word_def f_def nth_list_update)
  show "length (bitset_offset_high c b i e (replicate 1024 0)) = 1024"
    unfolding high using l by simp
qed

lemma split_offset:
  fixes d :: u16
  defines "b \<equiv> unat (drop_bit 6 d)" and "i \<equiv> unat (d mod 64)"
  shows "unat d = 64 * b + i" and "i < 64" and "b < 1024"
proof -
  have "unat d div 64 < 1024" using unat_u16_less [of d] by (simp only: less_mult_imp_div_less)
  then show "unat d = 64 * b + i" "i < 64" "b < 1024" by (simp_all add: b_def i_def)
qed

lemma wbit_offset:
  fixes d :: u16
  assumes c: "length c = 1024" and n: "n < 65536"
  defines "b \<equiv> unat (drop_bit 6 d)" and "i \<equiv> unat (d mod 64)"
  shows "wbit (bitset_offset_low c b i (1024 - b)) n \<longleftrightarrow> unat d \<le> n \<and> wbit c (n - unat d)"
    and "wbit (bitset_offset_high c b i (1024 - b) (replicate 1024 0)) n
       \<longleftrightarrow> n < unat d \<and> wbit c (n + 65536 - unat d)"
proof -
  note d = split_offset [of d, folded b_def i_def]
  define j m where "j = n div 64" and "m = n mod 64"
  have j: "j < 1024" using n by (simp add: j_def)
  have m: "m < 64" and nm: "n = 64 * j + m" by (simp_all add: m_def j_def)
  have w: "wbit ws n \<longleftrightarrow> bit (ws ! j) m" for ws by (simp add: wbit_def j_def m_def)
  show "wbit (bitset_offset_low c b i (1024 - b)) n \<longleftrightarrow> unat d \<le> n \<and> wbit c (n - unat d)"
  proof (cases "b \<le> j")
    case True
    then have "64 * (j - b) + m - i = n - unat d" and "i \<le> 64 * (j - b) + m \<longleftrightarrow> unat d \<le> n"
      using d nm by auto
    moreover have "j - b < length c \<or> (j - b = length c \<and> 0 < i)" using c j by auto
    note bit_shifted_word [OF d(2) m this]
    ultimately show ?thesis unfolding w nth_offset_low(1) [OF c d(3) j] using True c n by auto
  next
    case False
    then show ?thesis unfolding w nth_offset_low(1) [OF c d(3) j] using d nm m by auto
  qed
  show "wbit (bitset_offset_high c b i (1024 - b) (replicate 1024 0)) n
       \<longleftrightarrow> n < unat d \<and> wbit c (n + 65536 - unat d)"
  proof (cases "j < b \<or> (j = b \<and> i \<noteq> 0)")
    case True
    have e: "64 * (j + (1024 - b)) + m = n + 65536 - 64 * b" using d(3) nm by simp
    then have "64 * (j + (1024 - b)) + m - i = n + 65536 - unat d" and "i \<le> 64 * (j + (1024 - b)) + m"
      using d(1-3) n True nm by auto
    moreover have "n + 65536 - unat d < 65536 \<longleftrightarrow> n < unat d" using n unat_u16_less [of d] by auto
    moreover have "j + (1024 - b) < length c \<or> (j + (1024 - b) = length c \<and> 0 < i)" using c True d(3) by auto
    note bit_shifted_word [OF d(2) m this]
    ultimately show ?thesis unfolding w nth_offset_high(1) [OF c refl d(3) j] using True c by auto
  next
    case False
    then have "\<not> n < unat d" using d nm m by auto
    then show ?thesis unfolding w nth_offset_high(1) [OF c refl d(3) j] if_not_P [OF False] by simp
  qed
qed

lemma unat_u16_add:
  "unat (x + d :: u16) = (if unat x + unat d < 65536 then unat x + unat d else unat x + unat d - 65536)"
proof -
  have "n mod 65536 = (if n < 65536 then n else n - 65536)" if "n < 131072" for n :: nat
    using that by (simp add: le_mod_geq)
  moreover have "unat x + unat d < 131072" using unat_u16_less [of x] unat_u16_less [of d] by linarith
  ultimately show ?thesis by (simp add: unat_word_ariths)
qed

lemma bitset_offset_correct:
  assumes inv: "bitset_inv c" and r: "bitset_container_offset c True True d = (lo, hi)"
  shows "case lo of None \<Rightarrow> {x \<in> bitset_abs c. unat x + unat d < 65536} = {}
     | Some l \<Rightarrow> bitset_inv l \<and> bitset_abs l = (\<lambda>x. x + d) ` {x \<in> bitset_abs c. unat x + unat d < 65536}"
    and "case hi of None \<Rightarrow> {x \<in> bitset_abs c. 65536 \<le> unat x + unat d} = {}
     | Some h \<Rightarrow> bitset_inv h \<and> bitset_abs h = (\<lambda>x. x + d) ` {x \<in> bitset_abs c. 65536 \<le> unat x + unat d}"
proof -
  let ?b = "unat (drop_bit 6 d)" and ?i = "unat (d mod 64)"
  let ?L = "{x \<in> bitset_abs c. unat x + unat d < 65536}" and ?H = "{x \<in> bitset_abs c. 65536 \<le> unat x + unat d}"
  define upd where "upd ws = (let b = bitset_container_create\<lparr>bc_words := ws\<rparr>
    in b\<lparr>bc_cardinality := bitset_container_compute_cardinality b\<rparr>)" for ws
  have upd: "bitset_inv (upd ws)" "bc_words (upd ws) = ws" "bitset_abs (upd ws) = {x. wbit ws (unat x)}"
    if "length ws = 1024" for ws
    using bitset_recount [OF that, of bitset_container_create] unfolding upd_def by (simp_all add: Let_def bitset_abs_def)
  have c: "length (bc_words c) = 1024" using inv by (simp add: bitset_inv_def bitset_wf_def)
  define l h where "l = upd (bitset_offset_low (bc_words c) ?b ?i (1024 - ?b))"
    and "h = upd (bitset_offset_high (bc_words c) ?b ?i (1024 - ?b) (replicate 1024 0))"
  note b = split_offset(3) [of d] and wb = wbit_offset [OF c, of _ d]
  note l = upd [OF nth_offset_low(2) [OF c b b, of ?i], folded l_def]
  note h = upd [OF nth_offset_high(2) [OF c refl b b, of ?i], folded h_def]
  have shift: "unat (x + d) = (if unat x + unat d < 65536 then unat x + unat d else unat x + unat d - 65536)" for x
    by (rule unat_u16_add)
  have wrap: "unat (x - d) = (if unat d \<le> unat x then unat x - unat d else unat x + 65536 - unat d)" for x
    by (auto simp: unat_sub_if_size word_size)
  have ml: "x \<in> bitset_abs l \<longleftrightarrow> unat d \<le> unat x \<and> wbit (bc_words c) (unat x - unat d)" for x
    unfolding l(3) mem_Collect_eq by (rule wb(1)) simp
  have mh: "x \<in> bitset_abs h \<longleftrightarrow> unat x < unat d \<and> wbit (bc_words c) (unat x + 65536 - unat d)" for x
    unfolding h(3) mem_Collect_eq by (rule wb(2)) simp
  have mc: "x \<in> bitset_abs c \<longleftrightarrow> wbit (bc_words c) (unat x)" for x by (simp add: bitset_abs_def)
  have du: "unat d < 65536" "unat x < 65536" for x :: u16 by simp_all
  have al: "bitset_abs l = (\<lambda>x. x + d) ` ?L"
  proof (intro set_eqI iffI)
    fix x assume "x \<in> bitset_abs l"
    then have "x - d \<in> ?L" by (simp add: ml mc wrap)
    then show "x \<in> (\<lambda>x. x + d) ` ?L" by (rule rev_image_eqI) simp
  qed (auto simp: ml mc shift)
  have ah: "bitset_abs h = (\<lambda>x. x + d) ` ?H"
  proof (intro set_eqI iffI)
    fix x assume "x \<in> bitset_abs h"
    then have "x - d \<in> ?H" using du by (simp add: mh mc wrap)
    then show "x \<in> (\<lambda>x. x + d) ` ?H" by (rule rev_image_eqI) simp
  next
    fix x assume "x \<in> (\<lambda>x. x + d) ` ?H"
    then obtain y where x: "x = y + d" and y: "y \<in> bitset_abs c" "65536 \<le> unat y + unat d" by blast
    then have "unat y + unat d - 65536 < unat d" using du(2) [of y] by linarith
    then show "x \<in> bitset_abs h" using x y by (simp add: mh mc shift)
  qed
  have cl: "bc_cardinality l = int (card ?L)" and ch: "bc_cardinality h = int (card ?H)"
    using bitset_inv_card [OF l(1)] bitset_inv_card [OF h(1)] unfolding al ah by (simp_all add: card_image inj_on_def)
  have zero: "bc_words l = replicate 1024 0" if "?L = {}"
    using bitset_abs_eq_iff [OF bitset_inv_wf [OF l(1)] bitset_inv_wf [OF bitset_create_correct(1)]] that al
    by (simp add: bitset_create_correct(2)) (simp add: bitset_container_create_def)
  have nz: "?L = {} \<longleftrightarrow> bc_cardinality l = 0" "?H = {} \<longleftrightarrow> bc_cardinality h = 0" by (simp_all add: cl ch)
  have res: "(lo, hi) = (if ?L = {} then None else Some l,
      if card ?L = card (bitset_abs c) then None else if ?H = {} then None else Some h)"
  proof -
    let ?low = "bitset_offset_low (bc_words c) ?b ?i (1024 - ?b)"
    let ?high = "bitset_offset_high (bc_words c) ?b ?i (1024 - ?b)"
    let ?X = "if True \<and> bc_cardinality l = 0 then l else bitset_container_create"
    have lo: "bitset_container_create\<lparr>bc_words := ?low\<rparr>\<lparr>bc_cardinality :=
        bitset_container_compute_cardinality (bitset_container_create\<lparr>bc_words := ?low\<rparr>)\<rparr> = l"
      by (simp only: l_def upd_def Let_def)
    have X: "?high (bc_words ?X) = ?high (replicate 1024 0)"
      using zero [unfolded nz] by (simp add: bitset_container_create_def)
    have hi: "?X\<lparr>bc_words := ?high (bc_words ?X)\<rparr>\<lparr>bc_cardinality :=
        bitset_container_compute_cardinality (?X\<lparr>bc_words := ?high (bc_words ?X)\<rparr>)\<rparr> = h"
      unfolding X h_def upd_def Let_def
      by (rule bitset_container.equality) (simp_all add: bitset_container_compute_cardinality_def)
    have eq: "card ?L = card (bitset_abs c) \<longleftrightarrow> bc_cardinality l = bc_cardinality c"
      using bitset_inv_card [OF inv] cl by simp
    show ?thesis
      unfolding r [symmetric] bitset_container_offset_def Let_def nz eq lo hi by simp
  qed
  show "case lo of None \<Rightarrow> ?L = {} | Some l \<Rightarrow> bitset_inv l \<and> bitset_abs l = (\<lambda>x. x + d) ` ?L"
    using res l(1) al by (simp split: if_splits)
  have "?H = {}" if "card ?L = card (bitset_abs c)"
  proof -
    have "?L = bitset_abs c" by (rule card_subset_eq) (use that in auto)
    then show ?thesis by (metis (no_types, lifting) Collect_empty_eq mem_Collect_eq not_le)
  qed
  then show "case hi of None \<Rightarrow> ?H = {} | Some h \<Rightarrow> bitset_inv h \<and> bitset_abs h = (\<lambda>x. x + d) ` ?H"
    using res h(1) ah by (simp split: if_splits)
qed

end
