(* ===== verification/Run_Ranges.thy ===== *)
theory Run_Ranges
  imports Run_Order Bitset_Shift
begin

text \<open>
  Ranges of values in a run container: the binary searches that count the runs before and behind
  a range, adding and removing a range, creating a container from a range, shifting by an offset.
\<close>

section \<open>The searches for a range\<close>

lemma runs_before:
  assumes ok: "runs_ok rs" and "i < j" and "j < length rs"
  shows "rstart (rs ! i) \<le> rend (rs ! i)" and "rend (rs ! i) + 1 < rstart (rs ! j)" and "rstart (rs ! j) \<le> rend (rs ! j)"
  using runs_gap [OF assms] by (simp_all add: rstart_le_rend)

lemma take_drop_all:
  assumes "p \<le> length xs" and "\<And>i. i < p \<Longrightarrow> P (xs ! i)" and "\<And>i. p \<le> i \<Longrightarrow> i < length xs \<Longrightarrow> Q (xs ! i)"
  shows "\<forall>x \<in> set (take p xs). P x" and "\<forall>x \<in> set (drop p xs). Q x"
proof -
  show "\<forall>x \<in> set (take p xs). P x" using assms(1,2) by (auto simp: in_set_conv_nth)
  show "\<forall>x \<in> set (drop p xs). Q x"
  proof
    fix x assume "x \<in> set (drop p xs)"
    then obtain i where "i < length xs - p" "x = xs ! (p + i)" by (auto simp: in_set_conv_nth)
    then show "Q x" using assms(3) [of "p + i"] by simp
  qed
qed

lemma rle16_find_run_split:
  assumes ok: "runs_ok rs"
  obtains (hit) as r bs where "rs = as @ r # bs" and "in_run r (unat k)" and "rle16_find_run rs (length rs) k = int (length as)"
  | (miss) as bs where "rs = as @ bs" and "\<forall>r \<in> set as. rend r < unat k" and "\<forall>r \<in> set bs. unat k < rstart r"
      and "rle16_find_run rs (length rs) k = - int (length as) - 1"
proof -
  let ?lt = "\<lambda>i. k > rl_value (rs ! i) + rl_length (rs ! i)" and ?gt = "\<lambda>i. k < rl_value (rs ! i)"
  have lt: "?lt i \<longleftrightarrow> rend (rs ! i) < unat k" and gt: "?gt i \<longleftrightarrow> unat k < rstart (rs ! i)" if "i < length rs" for i
    using run_max_word run_ends [OF ok, of "rs ! i"] that by (simp_all add: word_less_nat_alt rstart_def)
  have "sorted_tests (length rs) ?lt ?gt"
    unfolding sorted_tests_def
  proof (intro allI impI)
    fix i j assume ij: "i < j \<and> j < length rs"
    then show "(?lt j \<longrightarrow> ?lt i) \<and> (?gt i \<longrightarrow> ?gt j)" using runs_before [OF ok, of i j] lt [of i] lt [of j] gt [of i] gt [of j] by auto
  qed
  note b = bisect_whole [OF this]
  show thesis
  proof (cases "bisect ?lt ?gt 0 (int (length rs) - 1)")
    case (Inl l)
    then have l: "0 \<le> l" "l \<le> int (length rs)" "\<And>i. int i < l \<Longrightarrow> ?lt i" "\<And>i. l \<le> int i \<Longrightarrow> i < length rs \<Longrightarrow> ?gt i"
      using b by auto
    show thesis
    proof (rule miss [of "take (nat l) rs" "drop (nat l) rs"])
      show "\<forall>r \<in> set (take (nat l) rs). rend r < unat k"
        using l(1,3) lt by (fastforce simp: in_set_conv_nth)
      show "\<forall>r \<in> set (drop (nat l) rs). unat k < rstart r"
        using l(1,4) gt by (fastforce simp: in_set_conv_nth)
    qed (use l Inl in \<open>simp_all add: rle16_find_run_def\<close>)
  next
    case (Inr m)
    then have m: "0 \<le> m" "nat m < length rs" "\<not> ?lt (nat m)" "\<not> ?gt (nat m)" using b by auto
    show thesis
    proof (rule hit [OF id_take_nth_drop [OF m(2)]])
      show "in_run (rs ! nat m) (unat k)" using m lt gt by (simp add: in_run_def not_less)
    qed (use m Inr in \<open>simp_all add: rle16_find_run_def\<close>)
  qed
qed

lemma rle16_count_less_split:
  assumes ok: "runs_ok rs"
  shows "\<exists>as bs. rs = as @ bs \<and> rle16_count_less rs (length rs) k = int (length as) \<and>
     (\<forall>r \<in> set as. rend r + 1 < unat k) \<and> (\<forall>r \<in> set bs. unat k \<le> rend r + 1)"
proof (cases "rs = []")
  case False
  let ?lt = "\<lambda>i. unat (rl_value (rs ! i) + rl_length (rs ! i)) + 1 < unat k" and ?gt = "\<lambda>i. k < rl_value (rs ! i)"
  have lt: "?lt i \<longleftrightarrow> rend (rs ! i) + 1 < unat k" and gt: "?gt i \<longleftrightarrow> unat k < rstart (rs ! i)" if "i < length rs" for i
    using run_max_word run_ends [OF ok, of "rs ! i"] that by (simp_all add: word_less_nat_alt rstart_def)
  have "sorted_tests (length rs) ?lt ?gt"
    unfolding sorted_tests_def
  proof (intro allI impI)
    fix i j assume ij: "i < j \<and> j < length rs"
    then show "(?lt j \<longrightarrow> ?lt i) \<and> (?gt i \<longrightarrow> ?gt j)" using runs_before [OF ok, of i j] lt [of i] lt [of j] gt [of i] gt [of j] by auto
  qed
  note b = bisect_whole [OF this]
  have "\<exists>p \<le> length rs. rle16_count_less rs (length rs) k = int p \<and> (\<forall>i < p. ?lt i) \<and> (\<forall>i. p \<le> i \<and> i < length rs \<longrightarrow> \<not> ?lt i)"
  proof (cases "bisect ?lt ?gt 0 (int (length rs) - 1)")
    case (Inl l)
    then have l: "0 \<le> l" "l \<le> int (length rs)" "\<And>i. int i < l \<Longrightarrow> ?lt i" "\<And>i. l \<le> int i \<Longrightarrow> i < length rs \<Longrightarrow> ?gt i"
      using b by auto
    have "\<not> ?lt i" if "l \<le> int i" "i < length rs" for i
      using l(4) [OF that] lt [OF that(2)] gt [OF that(2)] rstart_le_rend [of "rs ! i"] by auto
    then show ?thesis using l(1-3) Inl False by (intro exI [of _ "nat l"]) (auto simp: rle16_count_less_def)
  next
    case (Inr m)
    then have m: "0 \<le> m" "nat m < length rs" "\<not> ?lt (nat m)" "\<not> ?gt (nat m)" using b by auto
    have "?lt i" if "i < nat m" for i
      using m that lt [of i] gt [of "nat m"] runs_before [OF ok that m(2)] by auto
    moreover have "\<not> ?lt i" if "nat m \<le> i" "i < length rs" for i
      using m(3) that lt [of i] lt [of "nat m"] runs_before [OF ok, of "nat m" i] by (cases "i = nat m") auto
    ultimately show ?thesis using m Inr False by (intro exI [of _ "nat m"]) (auto simp: rle16_count_less_def)
  qed
  then obtain p where p: "p \<le> length rs" "rle16_count_less rs (length rs) k = int p" "\<forall>i < p. ?lt i"
    "\<forall>i. p \<le> i \<and> i < length rs \<longrightarrow> \<not> ?lt i" by blast
  have "(\<forall>r \<in> set (take p rs). rend r + 1 < unat k) \<and> (\<forall>r \<in> set (drop p rs). unat k \<le> rend r + 1)"
    using p lt by (intro conjI take_drop_all) (simp_all add: lt flip: not_less)
  then show ?thesis using p by (intro exI [of _ "take p rs"] exI [of _ "drop p rs"]) simp
qed (simp add: rle16_count_less_def)

lemma rle16_count_greater_split:
  assumes ok: "runs_ok rs"
  shows "\<exists>as bs. rs = as @ bs \<and> rle16_count_greater rs (length rs) k = int (length bs) \<and>
     (\<forall>r \<in> set as. rstart r \<le> unat k + 1) \<and> (\<forall>r \<in> set bs. unat k + 1 < rstart r)"
proof (cases "rs = []")
  case False
  let ?lt = "\<lambda>i. rl_value (rs ! i) + rl_length (rs ! i) < k" and ?gt = "\<lambda>i. unat k + 1 < unat (rl_value (rs ! i))"
  have lt: "?lt i \<longleftrightarrow> rend (rs ! i) < unat k" and gt: "?gt i \<longleftrightarrow> unat k + 1 < rstart (rs ! i)" if "i < length rs" for i
    using run_max_word run_ends [OF ok, of "rs ! i"] that by (simp_all add: word_less_nat_alt rstart_def)
  have "sorted_tests (length rs) ?lt ?gt"
    unfolding sorted_tests_def
  proof (intro allI impI)
    fix i j assume ij: "i < j \<and> j < length rs"
    then show "(?lt j \<longrightarrow> ?lt i) \<and> (?gt i \<longrightarrow> ?gt j)" using runs_before [OF ok, of i j] lt [of i] lt [of j] gt [of i] gt [of j] by auto
  qed
  note b = bisect_whole [OF this]
  have "\<exists>p \<le> length rs. rle16_count_greater rs (length rs) k = int (length rs) - int p \<and> (\<forall>i < p. \<not> ?gt i) \<and> (\<forall>i. p \<le> i \<and> i < length rs \<longrightarrow> ?gt i)"
  proof (cases "bisect ?lt ?gt 0 (int (length rs) - 1)")
    case (Inl l)
    then have l: "0 \<le> l" "l \<le> int (length rs)" "\<And>i. int i < l \<Longrightarrow> ?lt i" "\<And>i. l \<le> int i \<Longrightarrow> i < length rs \<Longrightarrow> ?gt i"
      using b by auto
    have "\<not> ?gt i" if "int i < l" for i
      using l(3) [OF that] l(2) that lt [of i] gt [of i] rstart_le_rend [of "rs ! i"] by auto
    then show ?thesis using l(1,2,4) Inl False by (intro exI [of _ "nat l"]) (auto simp: rle16_count_greater_def)
  next
    case (Inr m)
    then have m: "0 \<le> m" "nat m < length rs" "\<not> ?lt (nat m)" "\<not> ?gt (nat m)" using b by auto
    have "?gt i" if "nat m + 1 \<le> i" "i < length rs" for i
      using m that lt [of "nat m"] gt [of i] runs_before [OF ok, of "nat m" i] by auto
    moreover have "\<not> ?gt i" if "i < nat m + 1" for i
      using m(2,4) that gt [of i] gt [of "nat m"] runs_before [OF ok, of i "nat m"] by (cases "i = nat m") auto
    ultimately show ?thesis using m Inr False by (intro exI [of _ "nat m + 1"]) (auto simp: rle16_count_greater_def)
  qed
  then obtain p where p: "p \<le> length rs" "rle16_count_greater rs (length rs) k = int (length rs) - int p" "\<forall>i < p. \<not> ?gt i"
    "\<forall>i. p \<le> i \<and> i < length rs \<longrightarrow> ?gt i" by blast
  have "(\<forall>r \<in> set (take p rs). rstart r \<le> unat k + 1) \<and> (\<forall>r \<in> set (drop p rs). unat k + 1 < rstart r)"
    using p gt by (intro conjI take_drop_all) (simp_all add: gt flip: not_less)
  then show ?thesis using p by (intro exI [of _ "take p rs"] exI [of _ "drop p rs"]) simp
qed (simp add: rle16_count_greater_def)

section \<open>Adding a range\<close>

lemma run_add_rangeI:
  assumes "rc_runs c' = ss" and "runs_ok ss" and "\<And>n. covers ss n \<longleftrightarrow> (lo \<le> n \<and> n \<le> hi) \<or> covers (rc_runs c) n"
    and "rc_n_runs c' = int (length ss)" and "int (length ss) \<le> rc_capacity c'"
  shows "run_inv c' \<and> run_abs c' = run_abs c \<union> {x. lo \<le> unat x \<and> unat x \<le> hi}"
  using assms by (auto simp: run_inv_def run_abs_def)

lemma covers_gap:
  "runs_ok (as @ bs) \<Longrightarrow> covers as m \<Longrightarrow> covers bs n \<Longrightarrow> m + 1 < n"
  by (fastforce simp: runs_ok_append covers_def in_run_def)

lemma run_add_range_nruns_correct:
  assumes inv: "run_inv c" and rs: "rc_runs c = L @ M @ G" and lo: "unat lo \<le> unat hi" and hi: "unat hi < 65536"
    and L: "\<forall>r \<in> set L. rend r + 1 < unat lo" and G: "\<forall>r \<in> set G. unat hi + 1 < rstart r"
    and M: "\<forall>r \<in> set M. unat lo \<le> rend r + 1 \<and> rstart r \<le> unat hi + 1"
  shows "run_inv (run_container_add_range_nruns c lo hi (int (length L)) (int (length G))) \<and>
     run_abs (run_container_add_range_nruns c lo hi (int (length L)) (int (length G)))
       = run_abs c \<union> {x. unat lo \<le> unat x \<and> unat x \<le> unat hi}"
proof -
  have ok: "runs_ok (L @ M @ G)" and n: "rc_n_runs c = int (length L + length M + length G)"
    and cap: "rc_n_runs c \<le> rc_capacity c" using inv rs by (auto simp: run_inv_def)
  have lim: "length L \<le> 32768" using runs_ok_length [OF ok] by simp
  have nc: "rc_n_runs c - int (length L) - int (length G) = int (length M)" using n by simp
  have lohi: "unat (ucast lo :: u16) = unat lo" "unat (ucast (hi - lo) :: u16) = unat hi - unat lo"
    using lo hi unat_u32_diff [OF lo] by (simp_all add: unat_ucast_u32_u16)
  note def = run_container_add_range_nruns_def nc Let_def
  show ?thesis
  proof (cases M rule: rev_cases)
    case Nil
    define q where "q = \<lparr>rl_value = ucast lo :: u16, rl_length = ucast (hi - lo) :: u16\<rparr>"
    have q: "rstart q = unat lo" "rend q = unat hi" using lo by (simp_all add: q_def lohi)
    have e: "run_container_add_range_nruns c lo hi (int (length L)) (int (length G))
        = set_run (makeRoomAtIndex c (of_int (int (length L)))) (length L) q"
      by (simp add: def Nil q_def)
    have rc: "rc_runs c = L @ G" using rs Nil by simp
    have cap2: "1 + (int (length L) + int (length G)) \<le> rc_capacity (makeRoomAtIndex c i)" for i
      using make_room(3) [OF rc lim, of i] n Nil by simp
    show ?thesis
      unfolding e
      by (rule run_add_rangeI [where ss = "L @ q # G"])
        (use make_room(1) [OF rc lim, of q] make_room(2) [OF rc lim] n cap2 ok L G q hi lo Nil rs in
          \<open>auto simp: runs_ok_append runs_ok_Cons in_run_def\<close>)
  next
    case (snoc M' z)
    have "M \<noteq> []" using snoc by simp
    then obtain f F where F: "M = f # F" by (auto simp: neq_Nil_conv)
    define s where "s = min (rstart f) (unat lo)"
    define e where "e = max (rend z) (unat hi)"
    define q where "q = MAKE_RLE16 s (e - s)"
    have fM: "f \<in> set M" "z \<in> set M" using F by simp (simp add: snoc)
    have okM: "runs_ok M" using ok by (simp add: runs_ok_append)
    have fz: "rstart f \<le> rstart r \<and> rend r \<le> rend z" if "r \<in> set M" for r
    proof
      show "rstart f \<le> rstart r" using runs_ok_starts [of f F r] okM that F by auto
      show "rend r \<le> rend z" using okM that snoc rstart_le_rend [of z] by (fastforce simp: runs_ok_append)
    qed
    have zb: "rend z < 65536" using run_ends [OF okM fM(2)] .
    have se: "s \<le> e" "e < 65536" "s < 65536" using lo hi zb by (auto simp: s_def e_def)
    then have q: "rstart q = s" "rend q = e" by (simp_all add: q_def)
    have nth1: "rc_runs c ! length L = f" using rs F by simp
    have "nat (int (length L) + int (length M) - 1) = length L + length M'" using snoc by simp
    then have nth2: "rc_runs c ! nat (int (length L) + int (length M) - 1) = z" using rs snoc by (simp add: nth_append)
    have tk: "take (length L + 1) ((rc_runs c)[length L := q]) = L @ [q]"
      using rs F by (simp add: list_update_append)
    have dr: "drop (nat (rc_n_runs c - int (length G))) ((rc_runs c)[length L := q]) = G"
    proof -
      have "nat (rc_n_runs c - int (length G)) = length L + length M" using n by simp
      then show ?thesis using rs F by (simp add: list_update_append)
    qed
    have min_max: "(if rstart f < unat lo then rstart f else unat lo) = s" "(if rend z > unat hi then rend z else unat hi) = e"
      by (simp_all add: s_def e_def)
    have eq: "run_container_add_range_nruns c lo hi (int (length L)) (int (length G))
        = (set_run c (length L) q)\<lparr>rc_runs := L @ q # G, rc_n_runs := int (length L) + 1 + int (length G)\<rparr>"
    proof -
      have "int (length M) \<noteq> 0" using F by simp
      then show ?thesis
        unfolding def nat_int nth1 nth2 min_max q_def [symmetric] using tk dr by (simp add: set_run_def)
    qed
    have Lq: "rend r + 1 < s" if "r \<in> set L" for r
    proof -
      have "rend r + 1 < rstart f" using ok that fM(1) by (simp add: runs_ok_append)
      then show ?thesis using L that by (simp add: s_def)
    qed
    have Gq: "e + 1 < rstart r" if "r \<in> set G" for r
    proof -
      have "rend z + 1 < rstart r" using ok that fM(2) by (simp add: runs_ok_append)
      then show ?thesis using G that by (simp add: e_def max_def)
    qed
    have cov: "s \<le> m \<and> m \<le> e \<longleftrightarrow> unat lo \<le> m \<and> m \<le> unat hi \<or> covers M m" for m
    proof
      assume m: "s \<le> m \<and> m \<le> e"
      show "unat lo \<le> m \<and> m \<le> unat hi \<or> covers M m"
      proof (cases "m < unat lo")
        case True
        then have "in_run f m" using m M fM(1) by (auto simp: s_def in_run_def)
        then show ?thesis using fM(1) by (auto simp: covers_def)
      next
        case False
        then have "unat hi < m \<Longrightarrow> in_run z m" using m M fM(2) by (auto simp: e_def in_run_def)
        then show ?thesis using fM(2) False by (auto simp: covers_def)
      qed
    next
      assume "unat lo \<le> m \<and> m \<le> unat hi \<or> covers M m"
      then show "s \<le> m \<and> m \<le> e"
        using fz by (fastforce simp: s_def e_def covers_def in_run_def)
    qed
    show ?thesis
      unfolding eq
      by (rule run_add_rangeI [where ss = "L @ q # G" and lo = "unat lo" and hi = "unat hi"])
        (use ok Lq Gq q se n cap snoc cov in \<open>auto simp: runs_ok_append runs_ok_Cons in_run_def rs\<close>)
  qed
qed

lemma bisect_cong:
  "\<forall>i. low \<le> int i \<and> int i \<le> high \<longrightarrow> (lt i \<longleftrightarrow> lt' i) \<and> (gt i \<longleftrightarrow> gt' i) \<Longrightarrow> 0 \<le> low \<Longrightarrow>
     bisect lt gt low high = bisect lt' gt' low high"
proof (induction lt gt low high rule: bisect.induct)
  case (1 lt gt low high)
  show ?case
  proof (cases "low \<le> high")
    case True
    define mid where "mid = (low + high) div 2"
    have mid: "low \<le> mid" "mid \<le> high" "0 \<le> mid" using True "1.prems"(2) by (auto simp: mid_def)
    then have same: "lt (nat mid) \<longleftrightarrow> lt' (nat mid)" "gt (nat mid) \<longleftrightarrow> gt' (nat mid)" using "1.prems"(1) by auto
    have right: "lt (nat mid) \<Longrightarrow> bisect lt gt (mid + 1) high = bisect lt' gt' (mid + 1) high"
      by (rule "1.IH"(1) [OF True mid_def]) (use "1.prems" mid in auto)
    have left: "\<not> lt (nat mid) \<Longrightarrow> gt (nat mid) \<Longrightarrow> bisect lt gt low (mid - 1) = bisect lt' gt' low (mid - 1)"
      by (rule "1.IH"(2) [OF True mid_def]) (use "1.prems" mid in auto)
    show ?thesis using True same right left
      by (simp add: bisect.simps [of lt gt low] bisect.simps [of lt' gt' low] flip: mid_def)
  qed (simp add: bisect.simps [of lt gt low] bisect.simps [of lt' gt' low])
qed

lemma rle16_count_less_append: "rle16_count_less (as @ bs) (length as) k = rle16_count_less as (length as) k"
  unfolding rle16_count_less_def
  by (subst bisect_cong [where lt' = "\<lambda>i. unat (rl_value (as ! i) + rl_length (as ! i)) + 1 < unat k"
        and gt' = "\<lambda>i. k < rl_value (as ! i)"]) (auto simp: nth_append)

text \<open>The two counts, as \<open>container_add_range\<close> computes them, cut out the runs to merge.\<close>

lemma run_add_range_counted:
  assumes inv: "run_inv c" and lo: "unat lo \<le> unat hi" and hi: "unat hi < 65536"
  defines "ng \<equiv> rle16_count_greater (rc_runs c) (rc_len c) (ucast hi)"
  defines "nl \<equiv> rle16_count_less (rc_runs c) (nat (rc_n_runs c - ng)) (ucast lo)"
  shows "run_inv (run_container_add_range_nruns c lo hi nl ng) \<and>
     run_abs (run_container_add_range_nruns c lo hi nl ng) = run_abs c \<union> {x. unat lo \<le> unat x \<and> unat x \<le> unat hi}"
    and "0 \<le> nl" and "0 \<le> ng" and "nl + ng \<le> rc_n_runs c"
proof -
  have ok: "runs_ok (rc_runs c)" using inv by (simp add: run_simps)
  have u: "unat (ucast lo :: u16) = unat lo" "unat (ucast hi :: u16) = unat hi"
    using lo hi by (simp_all add: unat_ucast_u32_u16)
  obtain as G where g: "rc_runs c = as @ G" "ng = int (length G)" "\<forall>r \<in> set as. rstart r \<le> unat hi + 1"
    "\<forall>r \<in> set G. unat hi + 1 < rstart r"
    using rle16_count_greater_split [OF ok, of "ucast hi"] unfolding ng_def run_inv_simps(3) [OF inv] u by blast
  have oka: "runs_ok as" using ok g(1) by (simp add: runs_ok_append)
  have n: "rc_n_runs c = int (length as + length G)" using inv g(1) by (simp add: run_inv_def)
  then have "nat (rc_n_runs c - ng) = length as" using g(2) by simp
  then have nl: "nl = rle16_count_less as (length as) (ucast lo)"
    unfolding nl_def by (simp add: g(1) rle16_count_less_append)
  obtain L M where l: "as = L @ M" "nl = int (length L)" "\<forall>r \<in> set L. rend r + 1 < unat lo" "\<forall>r \<in> set M. unat lo \<le> rend r + 1"
    using rle16_count_less_split [OF oka, of "ucast lo"] unfolding nl [symmetric] u by blast
  have rs: "rc_runs c = L @ M @ G" using g(1) l(1) by simp
  show "run_inv (run_container_add_range_nruns c lo hi nl ng) \<and>
     run_abs (run_container_add_range_nruns c lo hi nl ng) = run_abs c \<union> {x. unat lo \<le> unat x \<and> unat x \<le> unat hi}"
    unfolding l(2) g(2) by (rule run_add_range_nruns_correct [OF inv rs lo hi l(3) g(4)]) (use l g in auto)
  show "0 \<le> nl" "0 \<le> ng" "nl + ng \<le> rc_n_runs c" using l g n by simp_all
qed

lemma run_create_range_correct:
  assumes "unat lo < unat hi" and "unat hi \<le> 65536"
  shows "run_inv (run_container_create_range lo hi) \<and>
     run_abs (run_container_create_range lo hi) = {x. unat lo \<le> unat x \<and> unat x < unat hi}"
proof -
  let ?q = "\<lparr>rl_value = ucast lo :: u16, rl_length = ucast (hi - lo - 1) :: u16\<rparr>"
  have "unat (hi - lo - 1) = unat hi - unat lo - 1"
    using assms(1) unat_u32_diff [of lo hi] unat_u32_pred [of "hi - lo"] by simp
  then have "unat (ucast (hi - lo - 1) :: u16) = unat hi - unat lo - 1" "unat (ucast lo :: u16) = unat lo"
    using assms by (simp_all add: unat_ucast_u32_u16)
  then have q: "rstart ?q = unat lo" "rend ?q = unat hi - 1" using assms(1) by simp_all
  have c: "run_container_create_range lo hi = push_run (run_container_create_given_capacity 1) ?q"
    by (simp add: run_container_create_range_def run_container_append_first_def)
  show ?thesis unfolding c using q assms
    by (auto simp: run_inv_def run_abs_def push_run_def run_container_create_given_capacity_def runs_ok_Cons in_run_def
        simp del: run_fields)
qed

section \<open>Removing a range\<close>

lemma shift_tail_down:
  assumes "rc_n_runs c = int (length (rc_runs c))" and "a \<le> b" and "b \<le> length (rc_runs c)"
  shows "rc_runs (run_container_shift_tail c (rc_n_runs c - int b) (- int (b - a))) = take a (rc_runs c) @ drop b (rc_runs c)"
    and "rc_n_runs (run_container_shift_tail c (rc_n_runs c - int b) (- int (b - a))) = rc_n_runs c - int (b - a)"
    and "rc_capacity (run_container_shift_tail c (rc_n_runs c - int b) (- int (b - a))) = rc_capacity c"
proof -
  have "nat (rc_n_runs c - (rc_n_runs c - int b)) = b" "nat (rc_n_runs c - int b) = length (rc_runs c) - b"
    "nat (rc_n_runs c - (rc_n_runs c - int b) + - int (b - a)) = a" using assms by simp_all
  then show "rc_runs (run_container_shift_tail c (rc_n_runs c - int b) (- int (b - a))) = take a (rc_runs c) @ drop b (rc_runs c)"
    and "rc_n_runs (run_container_shift_tail c (rc_n_runs c - int b) (- int (b - a))) = rc_n_runs c - int (b - a)"
    and "rc_capacity (run_container_shift_tail c (rc_n_runs c - int b) (- int (b - a))) = rc_capacity c"
    unfolding run_container_shift_tail_def Let_def using assms by simp_all
qed

text \<open>What stays below the range, as a prefix of the runs (the last of them possibly cut), and above it.\<close>

definition left_part :: "rle16 list \<Rightarrow> nat \<Rightarrow> rle16 list \<Rightarrow> bool" where
  "left_part rs lo A \<longleftrightarrow> runs_ok A \<and> (\<forall>n. covers A n \<longleftrightarrow> covers rs n \<and> n < lo) \<and> length A \<le> length rs \<and>
     (\<forall>i < length A. rstart (rs ! i) < lo)"

definition right_part :: "rle16 list \<Rightarrow> nat \<Rightarrow> rle16 list \<Rightarrow> bool" where
  "right_part rs hi E \<longleftrightarrow> runs_ok E \<and> (\<forall>n. covers E n \<longleftrightarrow> covers rs n \<and> hi < n)"

lemma parts_join:
  assumes "left_part rs lo A" and "right_part rs hi E" and "lo \<le> hi"
  shows "runs_ok (A @ E)" and "covers (A @ E) n \<longleftrightarrow> covers rs n \<and> \<not> (lo \<le> n \<and> n \<le> hi)"
proof -
  have A: "runs_ok A" "covers A n \<longleftrightarrow> covers rs n \<and> n < lo" and E: "runs_ok E" "covers E n \<longleftrightarrow> covers rs n \<and> hi < n" for n
    using assms by (simp_all add: left_part_def right_part_def)
  have "rend r + 1 < rstart s" if "r \<in> set A" "s \<in> set E" for r s
  proof -
    have "covers A (rend r)" "covers E (rstart s)" using that in_run_ends unfolding covers_def by blast+
    then have "rend r < lo" "hi < rstart s" using A(2) [of "rend r"] E(2) [of "rstart s"] by simp_all
    then show ?thesis using assms(3) by linarith
  qed
  then show "runs_ok (A @ E)" using A(1) E(1) by (simp add: runs_ok_append)
  show "covers (A @ E) n \<longleftrightarrow> covers rs n \<and> \<not> (lo \<le> n \<and> n \<le> hi)" using A(2) [of n] E(2) [of n] assms(3) by auto
qed

lemma run_remove_rangeI:
  assumes "rc_runs c' = ss" and "runs_ok ss" and "\<And>n. covers ss n \<longleftrightarrow> covers (rc_runs c) n \<and> \<not> (lo \<le> n \<and> n \<le> hi)"
    and "rc_n_runs c' = int (length ss)" and "int (length ss) \<le> rc_capacity c'"
  shows "run_inv c' \<and> run_abs c' = run_abs c - {x. lo \<le> unat x \<and> unat x \<le> hi}"
  using assms by (auto simp: run_inv_def run_abs_def)

lemma left_part_whole:
  assumes ok: "runs_ok (as @ bs)" and "\<forall>r \<in> set as. rend r < lo" and "\<forall>r \<in> set bs. lo \<le> rstart r"
  shows "left_part (as @ bs) lo as"
proof -
  have "covers as n \<Longrightarrow> n < lo" "covers bs n \<Longrightarrow> lo \<le> n" for n
    using assms(2,3) by (fastforce simp: covers_def in_run_def)+
  moreover have "rstart ((as @ bs) ! i) < lo" if "i < length as" for i
    using assms(2) that rstart_le_rend [of "as ! i"] by (fastforce simp: nth_append dest: nth_mem)
  ultimately show ?thesis using ok by (auto simp: left_part_def runs_ok_append simp flip: not_le)
qed

lemma left_part_cut:
  assumes ok: "runs_ok (as @ r # bs)" and r: "in_run r lo" "rstart r < lo"
    and q: "rstart q = rstart r" "rend q = lo - 1"
  shows "left_part (as @ r # bs) lo (as @ [q])"
proof -
  have gap: "\<forall>a \<in> set as. rend a + 1 < rstart r" "\<forall>b \<in> set bs. rend r + 1 < rstart b" "rend r < 65536" "runs_ok as"
    using ok by (auto simp: runs_ok_append runs_ok_Cons)
  have out: "covers as n \<Longrightarrow> n < lo" "covers bs n \<Longrightarrow> \<not> n < lo" for n
    using gap r by (fastforce simp: covers_def in_run_def)+
  have inq: "in_run q n \<longleftrightarrow> in_run r n \<and> n < lo" for n using r q by (auto simp: in_run_def)
  have "covers (as @ [q]) n \<longleftrightarrow> covers (as @ r # bs) n \<and> n < lo" for n
    using out [of n] by (auto simp: inq)
  moreover have "runs_ok (as @ [q])" using ok gap r q by (auto simp: runs_ok_append runs_ok_Cons in_run_def)
  moreover have "rstart ((as @ r # bs) ! i) < lo" if "i < length (as @ [q])" for i
  proof (cases "i < length as")
    case True
    then have "rend (as ! i) + 1 < rstart r" using gap(1) by simp
    then show ?thesis using True r(2) rstart_le_rend [of "as ! i"] by (simp add: nth_append)
  qed (use that r in \<open>simp add: nth_append\<close>)
  ultimately show ?thesis unfolding left_part_def by simp
qed

lemma right_part_whole:
  assumes ok: "runs_ok (as @ bs)" and "\<forall>r \<in> set as. rend r \<le> hi" and "\<forall>r \<in> set bs. hi < rstart r"
  shows "right_part (as @ bs) hi bs"
proof -
  have "covers as n \<Longrightarrow> n \<le> hi" "covers bs n \<Longrightarrow> hi < n" for n
    using assms(2,3) by (fastforce simp: covers_def in_run_def)+
  then show ?thesis using ok by (auto simp: right_part_def runs_ok_append simp flip: not_le)
qed

lemma right_part_cut:
  assumes ok: "runs_ok (as @ r # bs)" and r: "in_run r hi" "hi < rend r"
    and q: "rstart q = hi + 1" "rend q = rend r"
  shows "right_part (as @ r # bs) hi (q # bs)"
proof -
  have gap: "\<forall>a \<in> set as. rend a + 1 < rstart r" "\<forall>b \<in> set bs. rend r + 1 < rstart b" "rend r < 65536" "runs_ok bs"
    using ok by (auto simp: runs_ok_append runs_ok_Cons)
  have out: "covers as n \<Longrightarrow> \<not> hi < n" "covers bs n \<Longrightarrow> hi < n" for n
    using gap r by (fastforce simp: covers_def in_run_def)+
  have inq: "in_run q n \<longleftrightarrow> in_run r n \<and> hi < n" for n using r q by (auto simp: in_run_def)
  have "covers (q # bs) n \<longleftrightarrow> covers (as @ r # bs) n \<and> hi < n" for n
    unfolding covers_simps inq using out [of n] by blast
  then show ?thesis using gap q unfolding right_part_def by (auto simp: runs_ok_Cons)
qed

text \<open>The left and the right end of \<open>run_container_remove_range\<close>.\<close>

lemma remove_left:
  assumes ok: "runs_ok rs" and lo: "k = unat lo"
  defines "first \<equiv> rle16_find_run rs (length rs) lo"
  shows "if first \<ge> 0 \<and> k > rstart (rs ! nat first)
     then left_part rs k (take (nat first) rs @ [(rs ! nat first)\<lparr>rl_length := word_of_nat (k - 1 - rstart (rs ! nat first))\<rparr>])
       \<and> nat first < length rs \<and> in_run (rs ! nat first) k
     else left_part rs k (take (nat (if first \<ge> 0 then first else - first - 1)) rs)
       \<and> nat (if first \<ge> 0 then first else - first - 1) \<le> length rs"
proof (rule rle16_find_run_split [OF ok, of lo])
  fix as r bs
  assume hit: "rs = as @ r # bs" "in_run r (unat lo)" "rle16_find_run rs (length rs) lo = int (length as)"
  have okr: "runs_ok (as @ r # bs)" using ok hit(1) by simp
  then have gap: "\<forall>a \<in> set as. rend a + 1 < rstart r" "\<forall>b \<in> set bs. rend r + 1 < rstart b" "rend r < 65536"
    by (auto simp: runs_ok_append runs_ok_Cons)
  have nth: "rs ! length as = r" "take (length as) rs = as" using hit(1) by simp_all
  have r: "rstart r \<le> k" "k \<le> rend r" using hit(2) lo by (simp_all add: in_run_def)
  show ?thesis
  proof (cases "rstart r < k")
    case True
    define q where "q = r\<lparr>rl_length := word_of_nat (k - 1 - rstart r)\<rparr>"
    have "k - 1 - rstart r < 65536" using r gap(3) by linarith
    then have "rstart q = rstart r" "rend q = k - 1" using True by (simp_all add: q_def del: of_nat_diff)
    from left_part_cut [OF okr _ True this] show ?thesis
      using True hit(2) lo unfolding first_def hit(3) nat_int nth q_def [symmetric] unfolding hit(1) by simp
  next
    case False
    have "left_part (as @ (r # bs)) k as"
      by (rule left_part_whole [OF okr]) (use gap False r in \<open>fastforce+\<close>)
    then show ?thesis using False unfolding first_def hit(3) by (simp add: nth) (simp add: hit(1))
  qed
next
  fix as bs
  assume miss: "rs = as @ bs" "\<forall>r \<in> set as. rend r < unat lo" "\<forall>r \<in> set bs. unat lo < rstart r"
    "rle16_find_run rs (length rs) lo = - int (length as) - 1"
  have "left_part (as @ bs) k as"
    by (rule left_part_whole) (use ok miss lo in auto)
  then show ?thesis unfolding first_def miss(4) by (simp add: miss(1))
qed

lemma remove_right:
  assumes ok: "runs_ok rs" and hi: "k = unat hi"
  defines "lst \<equiv> rle16_find_run rs (length rs) hi"
  shows "if lst \<ge> 0
     then nat lst < length rs \<and> in_run (rs ! nat lst) k \<and>
       right_part rs k ((if rend (rs ! nat lst) > k
          then [MAKE_RLE16 (k + 1) (rend (rs ! nat lst) - (k + 1))] else []) @ drop (nat lst + 1) rs)
     else nat (- lst - 1) \<le> length rs \<and> (\<forall>r \<in> set (drop (nat (- lst - 1)) rs). k < rstart r) \<and>
       right_part rs k (drop (nat (- lst - 1)) rs)"
proof (rule rle16_find_run_split [OF ok, of hi])
  fix as r bs
  assume hit: "rs = as @ r # bs" "in_run r (unat hi)" "rle16_find_run rs (length rs) hi = int (length as)"
  have okr: "runs_ok (as @ r # bs)" using ok hit(1) by simp
  then have gap: "\<forall>a \<in> set as. rend a + 1 < rstart r" "\<forall>b \<in> set bs. rend r + 1 < rstart b" "rend r < 65536"
    by (auto simp: runs_ok_append runs_ok_Cons)
  have nth: "rs ! length as = r" "drop (length as + 1) rs = bs" using hit(1) by simp_all
  have r: "rstart r \<le> k" "k \<le> rend r" using hit(2) hi by (simp_all add: in_run_def)
  show ?thesis
  proof (cases "k < rend r")
    case True
    define q where "q = MAKE_RLE16 (k + 1) (rend r - (k + 1))"
    have "rstart q = k + 1" "rend q = rend r" using True gap(3) by (simp_all add: q_def)
    from right_part_cut [OF okr _ True this] show ?thesis
      using True hit(2) hi unfolding lst_def hit(3) nat_int nth q_def [symmetric] unfolding hit(1) by simp
  next
    case False
    have "right_part ((as @ [r]) @ bs) k bs"
      by (rule right_part_whole) (use okr gap False r in \<open>fastforce+\<close>)
    then show ?thesis using False hit(2) hi unfolding lst_def hit(3) nat_int nth unfolding hit(1) by simp
  qed
next
  fix as bs
  assume miss: "rs = as @ bs" "\<forall>r \<in> set as. rend r < unat hi" "\<forall>r \<in> set bs. unat hi < rstart r"
    "rle16_find_run rs (length rs) hi = - int (length as) - 1"
  have "right_part (as @ bs) k bs"
    by (rule right_part_whole) (use ok miss hi in auto)
  then show ?thesis using miss(3) hi unfolding lst_def miss(4) by (simp add: miss(1))
qed

text \<open>Dropping the runs from \<open>a\<close> to \<open>b\<close>, when there are any.\<close>

lemma drop_between:
  assumes "rc_n_runs c = int (length (rc_runs c))" and "a \<le> b" and "b \<le> length (rc_runs c)" and "i = int a" and "j = int b - 1"
  defines "c' \<equiv> (if i \<le> j then run_container_shift_tail c (rc_n_runs c - (j + 1)) (- (j - i + 1)) else c)"
  shows "rc_runs c' = take a (rc_runs c) @ drop b (rc_runs c)" and "rc_n_runs c' = int (length (rc_runs c'))"
    and "rc_capacity c' = rc_capacity c"
proof -
  have e: "rc_n_runs c - (j + 1) = rc_n_runs c - int b" "- (j - i + 1) = - int (b - a)" using assms by simp_all
  have "rc_runs c' = take a (rc_runs c) @ drop b (rc_runs c) \<and> rc_n_runs c' = rc_n_runs c - int (b - a) \<and> rc_capacity c' = rc_capacity c"
  proof (cases "a = b")
    case True
    then show ?thesis using assms by (simp add: c'_def)
  next
    case False
    then have "i \<le> j" using assms by simp
    then show ?thesis unfolding c'_def e using shift_tail_down [OF assms(1-3)] by simp
  qed
  then show "rc_runs c' = take a (rc_runs c) @ drop b (rc_runs c)" "rc_n_runs c' = int (length (rc_runs c'))"
    "rc_capacity c' = rc_capacity c" using assms(1-3) by simp_all
qed

text \<open>The range lies strictly inside one run, which is split.\<close>

lemma remove_split:
  assumes inv: "run_inv c" and rs: "rc_runs c = as @ r # bs" and b: "rstart r < l" "l \<le> h" "h < rend r"
  shows "run_inv (set_run (set_run (makeRoomAtIndex c (of_int (int (length as) + 1))) (length as + 1) (MAKE_RLE16 (h + 1) (rend r - (h + 1))))
          (length as) (r\<lparr>rl_length := word_of_nat (l - 1 - rstart r)\<rparr>)) \<and>
     run_abs (set_run (set_run (makeRoomAtIndex c (of_int (int (length as) + 1))) (length as + 1) (MAKE_RLE16 (h + 1) (rend r - (h + 1))))
          (length as) (r\<lparr>rl_length := word_of_nat (l - 1 - rstart r)\<rparr>)) = run_abs c - {x. l \<le> unat x \<and> unat x \<le> h}"
proof -
  have ok: "runs_ok (as @ r # bs)" and n: "rc_n_runs c = int (length (as @ r # bs))" using inv rs by (auto simp: run_inv_def)
  have re: "rend r < 65536" using ok by (simp add: runs_ok_append runs_ok_Cons)
  define q where "q = MAKE_RLE16 (h + 1) (rend r - (h + 1))"
  define p where "p = r\<lparr>rl_length := word_of_nat (l - 1 - rstart r)\<rparr>"
  have q: "rstart q = h + 1" "rend q = rend r" using b re by (simp_all add: q_def)
  have "l - 1 - rstart r < 65536" using b re by linarith
  then have p: "rstart p = rstart r" "rend p = l - 1" using b by (simp_all add: p_def del: of_nat_diff)
  have lim: "length (as @ [r]) \<le> 32768" using runs_ok_length [OF ok] by simp
  have rc: "rc_runs c = (as @ [r]) @ bs" using rs by simp
  have i: "int (length as) + 1 = int (length (as @ [r]))" "length as + 1 = length (as @ [r])" by simp_all
  define c' where "c' = set_run (set_run (makeRoomAtIndex c (of_int (int (length as) + 1))) (length as + 1) q) (length as) p"
  have runs: "rc_runs c' = as @ p # q # bs"
    unfolding c'_def i using make_room(1) [OF rc lim, of q] by (simp add: set_run_def list_update_append)
  have n': "rc_n_runs c' = rc_n_runs c + 1" and cap': "rc_n_runs c + 1 \<le> rc_capacity c'"
    unfolding c'_def using make_room(2,3) [OF rc lim] by (simp_all add: set_run_def)
  have "run_inv c' \<and> run_abs c' = run_abs c - {x. l \<le> unat x \<and> unat x \<le> h}"
  proof (rule run_remove_rangeI [OF runs])
    show "runs_ok (as @ p # q # bs)" using ok p q b by (auto simp: runs_ok_append runs_ok_Cons)
    fix m
    have "covers as m \<Longrightarrow> m < rstart r" "covers bs m \<Longrightarrow> rend r < m"
      using ok by (fastforce simp: runs_ok_append runs_ok_Cons covers_def in_run_def)+
    then have "covers as m \<Longrightarrow> \<not> (l \<le> m \<and> m \<le> h)" "covers bs m \<Longrightarrow> \<not> (l \<le> m \<and> m \<le> h)" using b by auto
    moreover have "in_run p m \<or> in_run q m \<longleftrightarrow> in_run r m \<and> \<not> (l \<le> m \<and> m \<le> h)"
      using p q b by (auto simp: in_run_def)
    ultimately show "covers (as @ p # q # bs) m \<longleftrightarrow> covers (rc_runs c) m \<and> \<not> (l \<le> m \<and> m \<le> h)"
      unfolding rs covers_simps by blast
  qed (use n' cap' n in simp_all)
  then show ?thesis unfolding c'_def p_def q_def .
qed

text \<open>
  The steps after the left end: \<open>run\<close> is the container with the left end cut, \<open>nf\<close> the index of
  the first run to drop.
\<close>

definition remove_rest :: "run_container \<Rightarrow> nat \<Rightarrow> int \<Rightarrow> int \<Rightarrow> run_container" where
  "remove_rest run h first lst =
     (let rl = rc_runs run ! nat lst;
          run_max = unat (rl_value rl + rl_length rl);
          (run, lst) =
            (if lst \<ge> 0
             then if run_max > h
                  then (set_run run (nat lst) (MAKE_RLE16 (h + 1) (run_max - (h + 1))), lst - 1)
                  else (run, lst)
             else (run, (- lst - 1) - 1))
      in if first \<le> lst
         then run_container_shift_tail run (rc_n_runs run - (lst + 1)) (- (lst - first + 1))
         else run)"

lemma remove_rest_join:
  assumes A: "left_part rs l A" and lh: "l \<le> h" and E: "right_part rs h E" and nf: "length A \<le> length rs"
    and run: "rc_n_runs run = int (length (rc_runs run))" "rc_n_runs run \<le> rc_capacity run"
    and runs: "take (length A) (rc_runs run) = A" "drop b (rc_runs run) = E" and b: "length A \<le> b" "b \<le> length (rc_runs run)"
    and abs: "\<And>n. covers (rc_runs c) n \<longleftrightarrow> covers rs n"
    and j: "j = int b - 1"
  defines "c' \<equiv> (if int (length A) \<le> j then run_container_shift_tail run (rc_n_runs run - (j + 1)) (- (j - int (length A) + 1)) else run)"
  shows "run_inv c' \<and> run_abs c' = run_abs c - {x. l \<le> unat x \<and> unat x \<le> h}"
proof -
  note d = drop_between [OF run(1) b refl j, folded c'_def]
  have rc: "rc_runs c' = A @ E" using d(1) runs by simp
  show ?thesis
  proof (rule run_remove_rangeI [OF rc parts_join(1) [OF A E lh]])
    show "covers (A @ E) n \<longleftrightarrow> covers (rc_runs c) n \<and> \<not> (l \<le> n \<and> n \<le> h)" for n
      using parts_join(2) [OF A E lh] abs by blast
    show "rc_n_runs c' = int (length (A @ E))" using d(2) rc by simp
    have "int (length (A @ E)) \<le> int (length (rc_runs run))" using b runs by (auto simp flip: runs(2))
    then show "int (length (A @ E)) \<le> rc_capacity c'" using d(3) run by linarith
  qed
qed

lemma remove_rest_correct:
  assumes ok: "runs_ok rs" and h: "h = unat hi" and A: "left_part rs l A" and lh: "l \<le> h"
    and run: "rc_n_runs run = int (length rs)" "rc_n_runs run \<le> rc_capacity run" "rc_runs run = A @ drop (length A) rs"
    and abs: "\<And>n. covers (rc_runs c) n \<longleftrightarrow> covers rs n" and lst: "lst = rle16_find_run rs (length rs) hi"
    and cut: "\<And>i. i < length A \<Longrightarrow> l \<le> rend (rs ! i) \<Longrightarrow>
      i + 1 = length A \<and> rend (A ! i) < l \<and> rend (rs ! i) \<le> h"
  shows "run_inv (remove_rest run h (int (length A)) lst) \<and>
     run_abs (remove_rest run h (int (length A)) lst) = run_abs c - {x. l \<le> unat x \<and> unat x \<le> h}"
proof -
  note R = remove_right [OF ok h, folded lst]
  have nA: "length A \<le> length rs" "\<forall>i < length A. rstart (rs ! i) < l" using A by (auto simp: left_part_def)
  have n: "rc_n_runs run = int (length (rc_runs run))" "length (rc_runs run) = length rs" using run nA by simp_all
  have tk: "take (length A) (rc_runs run) = A" using run(3) by simp
  have dr: "drop b (rc_runs run) = drop b rs" if "length A \<le> b" for b using run(3) that by simp
  note join = remove_rest_join [OF A lh _ nA(1)]
  show ?thesis
  proof (cases "0 \<le> lst")
    case False
    define b where "b = nat (- lst - 1)"
    have b: "b \<le> length rs" "\<forall>r \<in> set (drop b rs). h < rstart r" "right_part rs h (drop b rs)"
      using R False by (simp_all add: b_def)
    have le: "length A \<le> b"
    proof (rule ccontr)
      assume "\<not> length A \<le> b"
      then have "b < length rs" "rstart (rs ! b) < l" using nA by auto
      moreover have "rs ! b \<in> set (drop b rs)" using \<open>b < length rs\<close> by (metis Cons_nth_drop_Suc list.set_intros(1))
      ultimately show False using b(2) lh by fastforce
    qed
    have "remove_rest run h (int (length A)) lst = (let j = - lst - 1 - 1 in if int (length A) \<le> j
        then run_container_shift_tail run (rc_n_runs run - (j + 1)) (- (j - int (length A) + 1)) else run)"
      using False by (simp add: remove_rest_def Let_def)
    moreover have "- lst - 1 - 1 = int b - 1" using False by (simp add: b_def)
    ultimately show ?thesis
      using join [OF b(3) n(1) run(2) tk dr [OF le] le _ abs refl] b(1) n(2) by (simp add: Let_def)
  next
    case True
    define m where "m = nat lst"
    have m: "m < length rs" "in_run (rs ! m) h" "lst = int m" using R True by (simp_all add: m_def)
    have re: "rend (rs ! m) < 65536" using run_ends [OF ok] m(1) by simp
    show ?thesis
    proof (cases "m < length A")
      case inside: True
      have "l \<le> rend (rs ! m)" using m(2) lh by (simp add: in_run_def)
      note ct = cut [OF inside this]
      have rl: "rc_runs run ! m = A ! m" using inside run(3) by (simp add: nth_append)
      have Aok: "rend (A ! m) < 65536" using A inside run_ends [of A "A ! m"] by (simp add: left_part_def)
      have e: "remove_rest run h (int (length A)) lst = run"
        using ct lh m(3) rl Aok by (simp add: remove_rest_def run_max_word)
      have la: "length A = m + 1" "\<not> h < rend (rs ! m)" using ct by simp_all
      have "right_part rs h (drop (length A) rs)"
        unfolding la(1) using R True la(2) by (simp add: m_def)
      from join [OF this n(1) run(2) tk dr [OF order_refl] order_refl _ abs refl] show ?thesis
        unfolding e using n(2) nA by simp
    next
      case outside: False
      have rl: "rc_runs run ! m = rs ! m" using run(3) outside m(1) nA(1) by (simp add: nth_append)
      then have mx: "unat (rl_value (rc_runs run ! m) + rl_length (rc_runs run ! m)) = rend (rs ! m)"
        using re by (simp add: run_max_word)
      show ?thesis
      proof (cases "h < rend (rs ! m)")
        case True
        define q where "q = MAKE_RLE16 (h + 1) (rend (rs ! m) - (h + 1))"
        define run2 where "run2 = set_run run m q"
        have E: "right_part rs h (q # drop (m + 1) rs)" using R \<open>0 \<le> lst\<close> True by (simp add: m_def q_def)
        have dr2: "drop m (rc_runs run2) = q # drop (m + 1) rs"
        proof -
          have "drop m (rc_runs run) = rs ! m # drop (m + 1) rs"
            using outside dr [of m] Cons_nth_drop_Suc [OF m(1)] by simp
          then show ?thesis by (simp add: run2_def set_run_def drop_update_swap)
        qed
        have tk2: "take (length A) (rc_runs run2) = A" using tk outside by (simp add: run2_def set_run_def)
        have e: "remove_rest run h (int (length A)) lst = (let j = int m - 1 in if int (length A) \<le> j
            then run_container_shift_tail run2 (rc_n_runs run2 - (j + 1)) (- (j - int (length A) + 1)) else run2)"
          using True m(3) mx by (simp add: remove_rest_def Let_def run2_def q_def)
        have "rc_n_runs run2 = int (length (rc_runs run2))" "rc_n_runs run2 \<le> rc_capacity run2" "m \<le> length (rc_runs run2)"
          using n run(2) m(1) by (simp_all add: run2_def set_run_def)
        from join [OF E this(1,2) tk2 dr2 _ this(3) abs refl] outside show ?thesis unfolding e Let_def by simp
      next
        case False
        have E: "right_part rs h (drop (m + 1) rs)" using R \<open>0 \<le> lst\<close> False by (simp add: m_def)
        have le: "length A \<le> m + 1" using outside by simp
        have e: "remove_rest run h (int (length A)) lst = (let j = int (m + 1) - 1 in if int (length A) \<le> j
            then run_container_shift_tail run (rc_n_runs run - (j + 1)) (- (j - int (length A) + 1)) else run)"
          using False m(3) mx by (simp add: remove_rest_def Let_def)
        show ?thesis unfolding e Let_def using n(2) m(1)
          by (intro join [OF E n(1) run(2) tk dr [OF le] le _ abs refl]) simp
      qed
    qed
  qed
qed

lemma run_remove_range_correct:
  assumes inv: "run_inv c" and le: "unat lo \<le> unat hi" and hi: "unat hi < 65536"
  shows "run_inv (run_container_remove_range c lo hi) \<and>
     run_abs (run_container_remove_range c lo hi) = run_abs c - {x. unat lo \<le> unat x \<and> unat x \<le> unat hi}"
proof -
  let ?rs = "rc_runs c" and ?l = "unat lo" and ?h = "unat hi"
  have ok: "runs_ok ?rs" and n: "rc_n_runs c = int (length ?rs)" and cap: "rc_n_runs c \<le> rc_capacity c"
    using inv by (auto simp: run_inv_def)
  have ul: "?l = unat (ucast lo :: u16)" and uh: "?h = unat (ucast hi :: u16)"
    using le hi by (simp_all add: unat_ucast_u32_u16)
  define first where "first = rle16_find_run ?rs (length ?rs) (ucast lo)"
  define lst where "lst = rle16_find_run ?rs (length ?rs) (ucast hi)"
  define rf where "rf = ?rs ! nat first"
  note L = remove_left [OF ok ul, folded first_def, folded rf_def]
  note def = run_container_remove_range_def run_inv_simps(3) [OF inv] first_def [symmetric] lst_def [symmetric] rf_def [symmetric]
  have eq: "run_container_remove_range c lo hi =
     (if first \<ge> 0 \<and> ?l > rstart rf \<and> ?h < rend rf
      then let run = makeRoomAtIndex c (of_int (first + 1));
               run = set_run run (nat (first + 1)) (MAKE_RLE16 (?h + 1) (rend rf - (?h + 1)))
           in set_run run (nat first) (rf\<lparr>rl_length := word_of_nat (?l - 1 - rstart rf)\<rparr>)
      else case (if first \<ge> 0
                 then if ?l > rstart rf
                      then (set_run c (nat first) (rf\<lparr>rl_length := word_of_nat (?l - 1 - rstart rf)\<rparr>), first + 1)
                      else (c, first)
                 else (c, - first - 1)) of (run, i) \<Rightarrow> remove_rest run ?h i lst)"
    unfolding def Let_def remove_rest_def by (simp split: prod.splits)
  show ?thesis
  proof (cases "first \<ge> 0 \<and> ?l > rstart rf")
    case cut: True
    define q where "q = rf\<lparr>rl_length := word_of_nat (?l - 1 - rstart rf)\<rparr>"
    define A where "A = take (nat first) ?rs @ [q]"
    have A: "left_part ?rs ?l A" and f: "nat first < length ?rs" "in_run rf ?l"
      using L cut by (simp_all add: A_def q_def)
    have rs: "?rs = take (nat first) ?rs @ rf # drop (Suc (nat first)) ?rs"
      unfolding rf_def by (rule id_take_nth_drop [OF f(1)])
    have len: "length A = nat first + 1" using f(1) by (simp add: A_def)
    show ?thesis
    proof (cases "?h < rend rf")
      case True
      have "nat (first + 1) = length (take (nat first) ?rs) + 1" "nat first = length (take (nat first) ?rs)"
        "first + 1 = int (length (take (nat first) ?rs)) + 1" using cut f(1) by auto
      then show ?thesis using remove_split [OF inv rs _ le True] cut True unfolding eq by simp
    next
      case False
      have ff: "first + 1 = int (length A)" using len cut by simp
      have e: "run_container_remove_range c lo hi = remove_rest (set_run c (nat first) q) ?h (int (length A)) lst"
        unfolding eq using cut False by (simp add: q_def flip: ff)
      have "rc_runs (set_run c (nat first) q) = A @ drop (length A) ?rs"
        using f(1) by (simp add: set_run_def A_def upd_conv_take_nth_drop)
      moreover have "i + 1 = length A \<and> rend (A ! i) < ?l \<and> rend (?rs ! i) \<le> ?h"
        if i: "i < length A" "?l \<le> rend (?rs ! i)" for i
      proof -
        have "\<not> i < nat first"
        proof
          assume "i < nat first"
          then have "rend (?rs ! i) + 1 < rstart rf" unfolding rf_def by (intro runs_gap [OF ok _ f(1)])
          then show False using i(2) cut by linarith
        qed
        then have i: "i = nat first" using i(1) len by simp
        have "A ! i = q" using f(1) by (simp add: A_def i nth_append)
        moreover have "?l - 1 - rstart rf < 65536" using le hi by linarith
        then have "rend q < ?l" using cut by (simp add: q_def del: of_nat_diff)
        moreover have "rend (?rs ! i) \<le> ?h" using False by (simp add: i rf_def)
        ultimately show ?thesis using i len by simp
      qed
      ultimately show ?thesis unfolding e
        by (intro remove_rest_correct [OF ok uh A le _ _ _ _ lst_def]) (use n cap in \<open>simp_all add: set_run_def\<close>)
    qed
  next
    case False
    define f where "f = nat (if first \<ge> 0 then first else - first - 1)"
    define A where "A = take f ?rs"
    have A: "left_part ?rs ?l A" and f: "f \<le> length ?rs" using L False by (auto simp: A_def f_def)
    have len: "length A = f" using f by (simp add: A_def)
    have e: "run_container_remove_range c lo hi = remove_rest c ?h (int (length A)) lst"
      unfolding eq using False by (auto simp: len f_def)
    have "\<not> ?l \<le> rend (?rs ! i)" if "i < length A" for i
    proof
      assume le: "?l \<le> rend (?rs ! i)"
      have "A ! i = ?rs ! i" using that by (simp add: A_def)
      then have "?rs ! i \<in> set A" using nth_mem [OF that] by simp
      then have "covers A (rend (?rs ! i))" unfolding covers_def using in_run_ends(2) by blast
      then show False using A le by (simp add: left_part_def)
    qed
    moreover have "?rs = A @ drop (length A) ?rs" unfolding len by (simp add: A_def)
    ultimately show ?thesis unfolding e
      by (intro remove_rest_correct [OF ok uh A le _ _ _ _ lst_def]) (use n cap in auto)
  qed
qed

section \<open>Shifting\<close>

lemma shifted_low:
  "(\<lambda>x. x + d) ` {x. covers rs (unat x) \<and> unat x + unat d < 65536} = {y :: u16. unat d \<le> unat y \<and> covers rs (unat y - unat d)}"
proof (intro set_eqI iffI)
  fix y assume "y \<in> {y :: u16. unat d \<le> unat y \<and> covers rs (unat y - unat d)}"
  then have y: "unat d \<le> unat y" "covers rs (unat y - unat d)" by simp_all
  then have "unat (y - d) = unat y - unat d" by (simp add: unat_sub word_le_nat_alt)
  then have "y - d \<in> {x. covers rs (unat x) \<and> unat x + unat d < 65536}" using y by simp
  then show "y \<in> (\<lambda>x. x + d) ` {x. covers rs (unat x) \<and> unat x + unat d < 65536}"
    by (intro image_eqI [of _ _ "y - d"]) simp_all
qed (auto simp: unat_word_ariths)

lemma shifted_high:
  assumes ok: "runs_ok rs"
  shows "(\<lambda>x. x + d) ` {x. covers rs (unat x) \<and> 65536 \<le> unat x + unat d} = {y :: u16. covers rs (unat y + (65536 - unat d))}"
proof (intro set_eqI iffI)
  have d: "unat d < 65536" by simp
  fix y assume "y \<in> {y :: u16. covers rs (unat y + (65536 - unat d))}"
  then have y: "covers rs (unat y + (65536 - unat d))" "unat y + (65536 - unat d) < 65536"
    using covers_less [OF ok] by simp_all
  define x where "x = (word_of_nat (unat y + (65536 - unat d)) :: u16)"
  have x: "unat x = unat y + (65536 - unat d)" using y(2) by (simp add: x_def del: of_nat_add of_nat_diff)
  have "unat (x + d) = (unat x + unat d) mod 65536" by (simp add: unat_word_ariths)
  also have "unat x + unat d = unat y + 65536" unfolding x using d by linarith
  also have "(unat y + 65536) mod 65536 = unat y" using unat_u16_less [of y] by simp
  finally have "y = x + d" by (simp add: word_unat_eq_iff)
  then show "y \<in> (\<lambda>x. x + d) ` {x. covers rs (unat x) \<and> 65536 \<le> unat x + unat d}"
    using y x d by (intro image_eqI [of _ _ x]) simp_all
next
  fix y assume "y \<in> (\<lambda>x. x + d) ` {x. covers rs (unat x) \<and> 65536 \<le> unat x + unat d}"
  then obtain x where x: "y = x + d" "covers rs (unat x)" "65536 \<le> unat x + unat d" by blast
  have "unat y = unat x + unat d - 65536" using x(3) by (simp add: x(1) unat_u16_add)
  moreover have "unat d < 65536" by simp
  ultimately have "unat y + (65536 - unat d) = unat x" using x(3) by linarith
  then show "y \<in> {y. covers rs (unat y + (65536 - unat d))}" using x(2) by simp
qed

definition shift_run :: "u16 \<Rightarrow> rle16 \<Rightarrow> rle16" where
  "shift_run d r = r\<lparr>rl_value := rl_value r + d\<rparr>"

lemma shift_run_low:
  "rstart r + unat d < 65536 \<Longrightarrow> rstart (shift_run d r) = rstart r + unat d \<and> rend (shift_run d r) = rend r + unat d"
  by (simp add: shift_run_def rstart_def rend_def unat_word_ariths)

lemma shift_run_high:
  assumes "65536 \<le> rstart r + unat d"
  shows "rstart (shift_run d r) = rstart r - (65536 - unat d) \<and> rend (shift_run d r) = rend r - (65536 - unat d)"
proof -
  have "unat (rl_value r + d) = rstart r + unat d - 65536"
    using assms by (simp add: unat_u16_add rstart_def)
  then have "rstart (shift_run d r) = rstart r + unat d - 65536"
    "rend (shift_run d r) = rstart r + unat d - 65536 + unat (rl_length r)"
    by (simp_all add: shift_run_def rstart_def rend_def)
  moreover have "rend r = rstart r + unat (rl_length r)" "unat d < 65536" by (simp_all add: rend_def rstart_def)
  ultimately show ?thesis using assms by linarith
qed

lemma shift_low_runs:
  assumes ok: "runs_ok rs" and le: "\<forall>r \<in> set rs. rend r + unat d < 65536"
  shows "runs_ok (map (shift_run d) rs)" and "covers (map (shift_run d) rs) m \<longleftrightarrow> unat d \<le> m \<and> covers rs (m - unat d)"
proof -
  have sh: "rstart (shift_run d r) = rstart r + unat d" "rend (shift_run d r) = rend r + unat d" if "r \<in> set rs" for r
  proof -
    have "rstart r + unat d < 65536" using le that rstart_le_rend [of r] by fastforce
    from shift_run_low [OF this] show "rstart (shift_run d r) = rstart r + unat d" "rend (shift_run d r) = rend r + unat d" by simp_all
  qed
  have "sorted_wrt (\<lambda>r s. rend (shift_run d r) + 1 < rstart (shift_run d s)) rs"
    using ok unfolding runs_ok_def by (auto intro: sorted_wrt_mono_rel [rotated] simp: sh)
  then show "runs_ok (map (shift_run d) rs)" using le by (simp add: runs_ok_def sorted_wrt_map sh)
  have "in_run (shift_run d r) m \<longleftrightarrow> unat d \<le> m \<and> in_run r (m - unat d)" if "r \<in> set rs" for r
    using sh [OF that] by (auto simp: in_run_def)
  then show "covers (map (shift_run d) rs) m \<longleftrightarrow> unat d \<le> m \<and> covers rs (m - unat d)"
    by (auto simp: covers_def)
qed

lemma shift_high_runs:
  assumes ok: "runs_ok rs" and ge: "\<forall>r \<in> set rs. 65536 \<le> rstart r + unat d"
  shows "runs_ok (map (shift_run d) rs)" and "covers (map (shift_run d) rs) m \<longleftrightarrow> covers rs (m + (65536 - unat d))"
proof -
  have sh: "rstart (shift_run d r) = rstart r - (65536 - unat d)" "rend (shift_run d r) = rend r - (65536 - unat d)"
    "65536 - unat d \<le> rstart r" "rend r < 65536" if "r \<in> set rs" for r
    using shift_run_high ge that run_ends [OF ok that] by auto
  have "sorted_wrt (\<lambda>r s. rend (shift_run d r) + 1 < rstart (shift_run d s)) rs"
  proof (rule sorted_wrt_mono_rel)
    show "sorted_wrt (\<lambda>r s. rend r + 1 < rstart s) rs" using ok by (simp add: runs_ok_def)
    fix r s assume "r \<in> set rs" "s \<in> set rs" "rend r + 1 < rstart s"
    then show "rend (shift_run d r) + 1 < rstart (shift_run d s)" using sh [of r] sh [of s] rstart_le_rend [of r] by linarith
  qed
  moreover have "rend (shift_run d r) < 65536" if "r \<in> set rs" for r using sh [OF that] by simp
  ultimately show "runs_ok (map (shift_run d) rs)" by (simp add: runs_ok_def sorted_wrt_map)
  have "in_run (shift_run d r) m \<longleftrightarrow> in_run r (m + (65536 - unat d))" if "r \<in> set rs" for r
    unfolding in_run_def sh(1,2) [OF that] using sh(3) [OF that] rstart_le_rend [of r] by arith
  then show "covers (map (shift_run d) rs) m \<longleftrightarrow> covers rs (m + (65536 - unat d))"
    by (auto simp: covers_def)
qed

text \<open>The run that the shift splits: its lower part ends at 65535, its upper part starts at 0.\<close>

lemma split_run_low:
  assumes r: "rstart r + unat d < 65536" "65536 \<le> rend r + unat d"
  defines "q \<equiv> (shift_run d r)\<lparr>rl_length := word_of_nat (65536 - rstart (shift_run d r) - 1)\<rparr>"
  shows "rstart q = rstart r + unat d" and "rend q = 65535"
proof -
  have "rstart (shift_run d r) = rstart r + unat d" using shift_run_low r(1) by simp
  moreover have "65536 - (rstart r + unat d) - 1 < 65536" by simp
  ultimately show "rstart q = rstart r + unat d" "rend q = 65535"
    using r(1) by (simp_all add: q_def del: of_nat_diff)
qed

lemma split_run_high:
  assumes r: "rstart r + unat d < 65536" "65536 \<le> rend r + unat d" "rend r < 65536"
  defines "q \<equiv> \<lparr>rl_value = 0 :: u16, rl_length = rl_length (shift_run d r) - (word_of_nat (65535 - rstart (shift_run d r) + 1))\<rparr>"
  shows "rstart q = 0" and "rend q = rend r + unat d - 65536"
proof -
  have s: "rstart (shift_run d r) = rstart r + unat d" using shift_run_low r(1) by simp
  have l: "rl_length (shift_run d r) = rl_length r" by (simp add: shift_run_def)
  define k where "k = 65535 - (rstart r + unat d) + 1"
  have le: "k \<le> unat (rl_length r)" using r by (simp add: k_def rend_def rstart_def)
  then have "k < 65536" using unat_u16_less [of "rl_length r"] by linarith
  then have "unat (word_of_nat k :: u16) = k" by simp
  then have "unat (rl_length r - word_of_nat k) = unat (rl_length r) - k" using le by (simp add: unat_sub word_le_nat_alt)
  then show "rstart q = 0" "rend q = rend r + unat d - 65536"
    unfolding q_def s l k_def [symmetric] using r(1,2) le by (simp_all add: k_def rend_def rstart_def)
qed

lemma run_offset_correct:
  assumes inv: "run_inv c" and d: "d \<noteq> 0" and r: "run_container_offset c True True d = (lo, hi)"
  shows "case lo of None \<Rightarrow> {x \<in> run_abs c. unat x + unat d < 65536} = {}
     | Some l \<Rightarrow> run_inv l \<and> run_abs l = (\<lambda>x. x + d) ` {x \<in> run_abs c. unat x + unat d < 65536}"
    and "case hi of None \<Rightarrow> {x \<in> run_abs c. 65536 \<le> unat x + unat d} = {}
     | Some h \<Rightarrow> run_inv h \<and> run_abs h = (\<lambda>x. x + d) ` {x \<in> run_abs c. 65536 \<le> unat x + unat d}"
proof -
  let ?rs = "rc_runs c"
  have ok: "runs_ok ?rs" and n: "rc_n_runs c = int (length ?rs)" using inv by (simp_all add: run_simps)
  have d0: "0 < unat d" "unat d < 65536" using d by (simp_all add: unat_gt_0)
  define top where "top = 65536 - unat d"
  have top: "0 < top" "top + unat d = 65536" "top < 65536" using d0 unfolding top_def by linarith+
  have itop: "65536 - uint d = int top" using top(2) unfolding uint_u16_int by linarith
  have utop: "unat (of_int (int top) :: u16) = top" using top(3) by simp
  define pivot where "pivot = run_container_index_equalorlarger c (of_int (int top))"
  define split where "split = (pivot \<ge> 0 \<and> uint (rl_value (?rs ! nat pivot)) < int top)"
  have P: "(pivot = - 1 \<longrightarrow> (\<forall>r \<in> set ?rs. rend r < top)) \<and>
     (pivot \<noteq> - 1 \<longrightarrow> 0 \<le> pivot \<and> nat pivot < length ?rs \<and> top \<le> rend (?rs ! nat pivot) \<and>
        (\<forall>r \<in> set (take (nat pivot) ?rs). rend r < top))"
    using run_index_equalorlarger_correct [OF inv, of "of_int (int top)"] unfolding utop pivot_def by (simp add: Let_def)
  have sets: "{x \<in> run_abs c. unat x + unat d < 65536} = {x. covers ?rs (unat x) \<and> unat x + unat d < 65536}"
    "{x \<in> run_abs c. 65536 \<le> unat x + unat d} = {x. covers ?rs (unat x) \<and> 65536 \<le> unat x + unat d}"
    by (simp_all add: run_abs_def)
  have "(case lo of None \<Rightarrow> {x \<in> run_abs c. unat x + unat d < 65536} = {}
     | Some l \<Rightarrow> run_inv l \<and> run_abs l = (\<lambda>x. x + d) ` {x \<in> run_abs c. unat x + unat d < 65536}) \<and>
    (case hi of None \<Rightarrow> {x \<in> run_abs c. 65536 \<le> unat x + unat d} = {}
     | Some h \<Rightarrow> run_inv h \<and> run_abs h = (\<lambda>x. x + d) ` {x \<in> run_abs c. 65536 \<le> unat x + unat d})"
  proof (cases "pivot = - 1")
    case True
    then have below: "\<forall>r \<in> set ?rs. rend r < top" using P by simp
    then have le: "\<forall>r \<in> set ?rs. rend r + unat d < 65536" using top(2) by fastforce
    have nohi: "\<not> covers ?rs m" if "65536 \<le> m + unat d" for m
      using le that by (fastforce simp: covers_def in_run_def)
    have "hi = None" and lo: "lo = (if rc_len c \<noteq> 0 then Some ((run_container_create_given_capacity (int (rc_len c)))
        \<lparr>rc_n_runs := int (rc_len c), rc_runs := map (shift_run d) ?rs\<rparr>) else None)"
      using r True n unfolding run_container_offset_def itop Let_def pivot_def [symmetric] shift_run_def [symmetric]
      by (auto simp: run_container_create_given_capacity_def)
    then show ?thesis
      using shift_low_runs [OF ok le] n nohi unfolding sets shifted_low
      by (auto simp: run_inv_def run_abs_def run_container_create_given_capacity_def)
  next
    case False
    define A where "A = take (nat pivot) ?rs"
    define r where "r = ?rs ! nat pivot"
    define B where "B = drop (Suc (nat pivot)) ?rs"
    have p: "0 \<le> pivot" "nat pivot < length ?rs" using P False by simp_all
    have rs: "?rs = A @ r # B" unfolding A_def r_def B_def by (rule id_take_nth_drop [OF p(2)])
    have lA: "length A = nat pivot" using p by (simp add: A_def)
    have rtop: "top \<le> rend r" and Atop: "\<forall>r \<in> set A. rend r < top" using P False by (simp_all add: r_def A_def)
    have okr: "runs_ok (A @ r # B)" using ok rs by simp
    have okA: "runs_ok A" "runs_ok B" "rend r < 65536" "\<forall>b \<in> set B. rend r + 1 < rstart b" "runs_ok (r # B)"
      "\<forall>a \<in> set A. rend a + 1 < rstart r"
      using okr by (auto simp: runs_ok_append runs_ok_Cons)
    have leA: "\<forall>a \<in> set A. rend a + unat d < 65536" using Atop top(2) by fastforce
    have geB: "\<forall>b \<in> set B. 65536 \<le> rstart b + unat d" using okA(4) rtop top(2) by fastforce
    have cells: "take (nat pivot) ?rs = A" "take (nat pivot + 1) ?rs = A @ [r]" "drop (nat pivot) ?rs = r # B"
      "nat (rc_n_runs c - pivot) = Suc (length B)" "?rs ! nat pivot = r"
    proof -
      have "nat pivot = length A" using lA by simp
      then show "take (nat pivot) ?rs = A" "take (nat pivot + 1) ?rs = A @ [r]" "drop (nat pivot) ?rs = r # B" "?rs ! nat pivot = r"
        unfolding rs by simp_all
      show "nat (rc_n_runs c - pivot) = Suc (length B)" using n p unfolding B_def by simp
    qed
    have pv: "pivot = int (length A)" and c2: "take (Suc (length A)) ?rs = A @ [r]" "take (length A) ?rs = A"
      using p lA by (simp_all add: rs)
    have spl: "uint (rl_value r) < int top \<longleftrightarrow> rstart r < top" unfolding uint_u16_int rstart_def by linarith
    note def = run_container_offset_def itop Let_def pivot_def [symmetric] shift_run_def [symmetric] cells spl
    note lowA = shift_low_runs [OF okA(1) leA] and highB = shift_high_runs [OF okA(2) geB]
    have covB: "covers B m \<Longrightarrow> 65536 \<le> m + unat d" "covers A m \<Longrightarrow> m + unat d < 65536" for m
      using geB leA by (fastforce simp: covers_def in_run_def)+
    have above: "\<not> covers A (m + (65536 - unat d))" for m
    proof
      assume "covers A (m + (65536 - unat d))"
      then have "m + (65536 - unat d) + unat d < 65536" by (rule covB(2))
      then show False using d0 by linarith
    qed
    show ?thesis
    proof (cases "rstart r < top")
      case True
      define q where "q = (shift_run d r)\<lparr>rl_length := word_of_nat (65536 - rstart (shift_run d r) - 1)\<rparr>"
      define q2 where "q2 = \<lparr>rl_value = 0 :: u16, rl_length = rl_length (shift_run d r) - (word_of_nat (65535 - rstart (shift_run d r) + 1))\<rparr>"
      have rd: "rstart r + unat d < 65536" "65536 \<le> rend r + unat d" using True rtop top(2) by linarith+
      note q = split_run_low [OF rd, folded q_def] and q2 = split_run_high [OF rd okA(3), folded q2_def]
      have lo: "lo = Some ((run_container_create_given_capacity (int (Suc (length A))))
          \<lparr>rc_n_runs := int (Suc (length A)), rc_runs := map (shift_run d) A @ [q]\<rparr>)"
        and hi: "hi = Some ((run_container_create_given_capacity (int (Suc (length B))))
          \<lparr>rc_n_runs := int (Suc (length B)), rc_runs := q2 # map (shift_run d) B\<rparr>)"
        using r True unfolding def unfolding pv by (auto simp: list_update_append nth_append q_def q2_def c2)
      have inq: "in_run q m \<longleftrightarrow> unat d \<le> m \<and> in_run r (m - unat d)" if "m < 65536" for m
        unfolding in_run_def q using that rd by arith
      have inq2: "in_run q2 m \<longleftrightarrow> in_run r (m + (65536 - unat d))" for m
        unfolding in_run_def q2 using rd d0 by arith
      have "\<forall>a \<in> set A. rend (shift_run d a) + 1 < rstart q"
      proof
        fix a assume a: "a \<in> set A"
        then have "rstart a + unat d < 65536" using leA rstart_le_rend [of a] by fastforce
        then show "rend (shift_run d a) + 1 < rstart q" using shift_run_low [of a d] okA(6) a q(1) by simp
      qed
      then have okL: "runs_ok (map (shift_run d) A @ [q])" using lowA(1) q(2) by (simp add: runs_ok_append runs_ok_Cons)
      have "\<forall>b \<in> set B. rend q2 + 1 < rstart (shift_run d b)"
      proof
        fix b assume b: "b \<in> set B"
        then have "rstart (shift_run d b) = rstart b - (65536 - unat d)" using shift_run_high geB by blast
        moreover have "rend r + 1 < rstart b" using okA(4) b by blast
        ultimately show "rend q2 + 1 < rstart (shift_run d b)" using q2(2) rd d0 by linarith
      qed
      moreover have "rend q2 < 65536" using q2(2) okA(3) d0 by linarith
      ultimately have okH: "runs_ok (q2 # map (shift_run d) B)" using highB(1) by (simp add: runs_ok_Cons)
      have L: "covers (map (shift_run d) A @ [q]) m \<longleftrightarrow> unat d \<le> m \<and> covers ?rs (m - unat d)" if "m < 65536" for m
        using inq [OF that] lowA(2) [of m] covB(1) [of "m - unat d"] that unfolding rs by auto
      have H: "covers (q2 # map (shift_run d) B) m \<longleftrightarrow> covers ?rs (m + (65536 - unat d))" for m
        unfolding rs covers_simps inq2 highB(2) using above [of m] by blast
      show ?thesis
        unfolding lo hi sets shifted_low shifted_high [OF ok]
        using okL okH L H by (simp add: run_inv_def run_abs_def run_container_create_given_capacity_def del: covers_simps)
    next
      case False
      have lo: "lo = (if length A \<noteq> 0 then Some ((run_container_create_given_capacity (int (length A)))
          \<lparr>rc_n_runs := int (length A), rc_runs := map (shift_run d) A\<rparr>) else None)"
        and hi: "hi = Some ((run_container_create_given_capacity (int (Suc (length B))))
          \<lparr>rc_n_runs := int (Suc (length B)), rc_runs := map (shift_run d) (r # B)\<rparr>)"
        using r False unfolding def unfolding pv by (auto simp: run_container_create_given_capacity_def c2)
      have ge: "\<forall>b \<in> set (r # B). 65536 \<le> rstart b + unat d" using geB False top(2) by auto
      note high = shift_high_runs [OF okA(5) ge]
      have covr: "in_run r m \<Longrightarrow> 65536 \<le> m + unat d" for m using ge by (simp add: in_run_def)
      have L: "covers (map (shift_run d) A) m \<longleftrightarrow> unat d \<le> m \<and> covers ?rs (m - unat d)" if "m < 65536" for m
        using lowA(2) [of m] covB(1) [of "m - unat d"] covr [of "m - unat d"] that unfolding rs by auto
      have H: "covers (map (shift_run d) (r # B)) m \<longleftrightarrow> covers ?rs (m + (65536 - unat d))" for m
        unfolding rs high(2) covers_simps using above [of m] by blast
      have "run_inv (run_container_create_given_capacity (int (Suc (length B)))
          \<lparr>rc_n_runs := int (Suc (length B)), rc_runs := map (shift_run d) (r # B)\<rparr>)"
        using high(1) by (simp add: run_inv_def run_container_create_given_capacity_def)
      moreover have "length A = 0 \<Longrightarrow> {y :: u16. unat d \<le> unat y \<and> covers ?rs (unat y - unat d)} = {}"
        using L by auto
      ultimately show ?thesis
        unfolding lo hi sets shifted_high [OF ok] using shifted_low [of d ?rs]
        using lowA(1) L H by (auto simp: run_inv_def run_abs_def run_container_create_given_capacity_def simp del: covers_simps list.map)
    qed
  qed
  then show "case lo of None \<Rightarrow> {x \<in> run_abs c. unat x + unat d < 65536} = {}
     | Some l \<Rightarrow> run_inv l \<and> run_abs l = (\<lambda>x. x + d) ` {x \<in> run_abs c. unat x + unat d < 65536}"
    "case hi of None \<Rightarrow> {x \<in> run_abs c. 65536 \<le> unat x + unat d} = {}
     | Some h \<Rightarrow> run_inv h \<and> run_abs h = (\<lambda>x. x + d) ` {x \<in> run_abs c. 65536 \<le> unat x + unat d}" by blast+
qed

end
