(* ===== verification/Run_Bytes.thy ===== *)
theory Run_Bytes
  imports Run_Ranges
begin

text \<open>
  The byte format of a run container, its validation, and appending single values at the end.
\<close>

section \<open>Appending values\<close>

lemma run_append_value_builds:
  assumes b: "builds c p (Suc k)" and le: "rstart p \<le> unat v"
    and a: "run_container_append_value c v p = (c', p')"
  shows "builds c' p' k \<and> rstart p' \<le> unat v \<and> (\<forall>n. covers (rc_runs c') n \<longleftrightarrow> covers (rc_runs c) n \<or> n = unat v)"
proof -
  obtain D where D: "rc_runs c = D @ [p]" "runs_ok (D @ [p])" "rc_n_runs c = int (length D) + 1"
    "rc_n_runs c + int (Suc k) \<le> rc_capacity c" using b by (auto simp: builds_def)
  have gap: "\<forall>d \<in> set D. rend d + 1 < rstart p" and Dok: "runs_ok D" "rend p < 65536"
    using D(2) by (auto simp: runs_ok_append runs_ok_Cons)
  have pp: "rstart p \<le> rend p" by (rule rstart_le_rend)
  consider (new) "unat v > rend p + 1" | (next_) "unat v = rend p + 1" | (inside) "unat v \<le> rend p" by linarith
  then show ?thesis
  proof cases
    case new
    define q where "q = MAKE_RLE16 (unat v) 0"
    have q: "rstart q = unat v" "rend q = unat v" by (simp_all add: q_def)
    have e: "c' = push_run c q" "p' = q" using a new by (auto simp: run_container_append_value_def Let_def q_def)
    have "\<forall>d \<in> set D. rend d + 1 < unat v" using gap le by fastforce
    then show ?thesis using D Dok q new gap unfolding e
      by (auto simp: builds_def push_run_def runs_ok_append runs_ok_Cons in_run_def)
  next
    case next_
    define q where "q = p\<lparr>rl_length := rl_length p + 1\<rparr>"
    have "rstart p + unat (rl_length p) + 1 < 65536" using next_ unat_u16_less [of v] by (simp add: rend_def rstart_def del: unat_u16_less)
    then have "unat (rl_length p + 1) = unat (rl_length p) + 1" by (intro unat_u16_succ) linarith
    then have q: "rstart q = rstart p" "rend q = unat v" using next_ by (simp_all add: q_def rend_def rstart_def)
    have "nat (rc_n_runs c - 1) = length D" using D(3) by simp
    then have e: "c' = set_run c (length D) q" "p' = q"
      using a next_ by (auto simp: run_container_append_value_def Let_def q_def)
    have runs: "rc_runs (set_run c (length D) q) = D @ [q]" using D(1) by (simp add: set_run_def)
    have "unat v < 65536" by simp
    then have "runs_ok (D @ [q])" using Dok gap q by (simp add: runs_ok_append runs_ok_Cons)
    moreover have "in_run q n \<longleftrightarrow> in_run p n \<or> n = unat v" for n using q next_ le by (auto simp: in_run_def)
    ultimately show ?thesis using D(1,3,4) le q unfolding e builds_def runs by (auto simp: set_run_def)
  next
    case inside
    then have e: "c' = c" "p' = p" using a by (simp_all add: run_container_append_value_def)
    have "covers (rc_runs c) (unat v)" using D(1) inside le by (simp add: in_run_def)
    moreover have "builds c p k" using b by (auto simp: builds_def)
    ultimately show ?thesis using le unfolding e by auto
  qed
qed

lemma run_append_value_first_builds:
  assumes "rc_runs c = []" and "rc_n_runs c = 0" and "int (Suc k) \<le> rc_capacity c"
    and "run_container_append_value_first c v = (c', p')"
  shows "builds c' p' k \<and> rstart p' = unat v \<and> (\<forall>n. covers (rc_runs c') n \<longleftrightarrow> n = unat v)"
proof -
  have q: "rstart (MAKE_RLE16 (unat v) 0) = unat v" "rend (MAKE_RLE16 (unat v) 0) = unat v" by simp_all
  have e: "c' = push_run c (MAKE_RLE16 (unat v) 0)" "p' = MAKE_RLE16 (unat v) 0"
    using assms(4) by (auto simp: run_container_append_value_first_def Let_def)
  have "builds (push_run c (MAKE_RLE16 (unat v) 0)) (MAKE_RLE16 (unat v) 0) k"
    by (rule builds_first) (use assms q in simp_all)
  moreover have "in_run (MAKE_RLE16 (unat v) 0) n \<longleftrightarrow> n = unat v" for n unfolding in_run_def q by auto
  ultimately show ?thesis unfolding e using assms(1) q by (simp add: push_run_def)
qed

section \<open>Validation\<close>

lemma run_validate_loop_correct:
  "unat e \<le> 65536 \<Longrightarrow> run_validate_loop rs e = None \<longleftrightarrow> runs_ok rs \<and> (e = 0 \<or> (\<forall>r \<in> set rs. unat e < rstart r))"
proof (induction rs arbitrary: e)
  case (Cons r rs)
  let ?s = "ucast (rl_value r) :: u32" and ?l = "ucast (rl_length r) :: u32"
  have s: "unat ?s = rstart r" by (simp add: rstart_def)
  have "unat (?s + ?l) = rend r"
    using unat_u32_add [of ?s ?l] unat_u16_less [of "rl_value r"] unat_u16_less [of "rl_length r"]
    by (simp add: rend_def del: unat_u16_less)
  moreover have "rend r < 131071" using unat_u16_less [of "rl_value r"] unat_u16_less [of "rl_length r"]
    unfolding rend_def by linarith
  ultimately have en: "unat (?s + ?l + 1) = rend r + 1" using unat_u32_add [of "?s + ?l" 1] by simp
  have ne: "?s + ?l + 1 \<noteq> 0" using en by (metis add_is_0 one_neq_zero unat_0)
  have big: "\<not> (?s + ?l + 1 \<le> ?s)" using en s rstart_le_rend [of r] by (simp add: word_le_nat_alt)
  have big2: "?s + ?l + 1 > 65536 \<longleftrightarrow> 65536 \<le> rend r" using en by (auto simp: word_less_nat_alt)
  have less: "?s < e \<longleftrightarrow> rstart r < unat e" using s by (simp add: word_less_nat_alt)
  have eq: "?s = e \<longleftrightarrow> rstart r = unat e" using s by (metis word_unat_eq_iff)
  have e0: "e \<noteq> 0 \<longleftrightarrow> 0 < unat e" by (simp add: unat_gt_0)
  have step: "run_validate_loop (r # rs) e = None \<longleftrightarrow>
      rend r < 65536 \<and> (e = 0 \<or> unat e < rstart r) \<and> run_validate_loop rs (?s + ?l + 1) = None"
    using big big2 less eq e0 by (auto simp: Let_def)
  show ?case
  proof (cases "rend r < 65536")
    case True
    have "run_validate_loop rs (?s + ?l + 1) = None \<longleftrightarrow> runs_ok rs \<and> (\<forall>s \<in> set rs. rend r + 1 < rstart s)"
      using Cons.IH [of "?s + ?l + 1"] True ne by (simp add: en)
    moreover have "(e = 0 \<or> unat e < rstart r) \<longleftrightarrow> (e = 0 \<or> (\<forall>s \<in> set (r # rs). unat e < rstart s))"
      if "\<forall>s \<in> set rs. rend r + 1 < rstart s" using that rstart_le_rend [of r] by fastforce
    ultimately show ?thesis unfolding step runs_ok_Cons using True by blast
  qed (simp only: step runs_ok_Cons, simp)
qed simp

lemma run_validate_correct:
  assumes "rc_n_runs c = int (length (rc_runs c))"
  shows "run_container_validate c = None \<longleftrightarrow> run_inv c \<and> rc_runs c \<noteq> []"
  using assms run_validate_loop_correct [of 0 "rc_runs c"]
  by (auto simp: run_container_validate_def run_inv_def)

section \<open>Bytes\<close>

definition run_bytes :: "rle16 \<Rightarrow> u8 list" where
  "run_bytes r = u16_to_le (rl_value r) @ u16_to_le (rl_length r)"

lemma run_bytes_concat:
  "i < length rs \<Longrightarrow> drop (4 * i) (concat (map run_bytes rs) @ rest) =
     run_bytes (rs ! i) @ concat (map run_bytes (drop (Suc i) rs)) @ rest"
proof (induction rs arbitrary: i)
  case (Cons r rs)
  show ?case
  proof (cases i)
    case (Suc j)
    have "drop (4 * i) (concat (map run_bytes (r # rs)) @ rest) = drop (4 * j) (concat (map run_bytes rs) @ rest)"
    proof -
      have "length (run_bytes r) = 4" by (simp add: run_bytes_def u16_to_le_def)
      then have "drop (4 * i) (run_bytes r @ xs) = drop (4 * j) xs" for xs by (simp add: Suc)
      then show ?thesis by (simp only: list.map concat.simps append_assoc)
    qed
    then show ?thesis using Cons Suc by simp
  qed simp
qed simp

lemma run_read_cell:
  "i < length rs \<Longrightarrow>
     \<lparr>rl_value = u16_from_le (take 2 (drop (4 * i) (concat (map run_bytes rs) @ rest))),
      rl_length = u16_from_le (take 2 (drop 2 (drop (4 * i) (concat (map run_bytes rs) @ rest))))\<rparr> = rs ! i"
proof -
  have two: "take 2 (u16_to_le v @ xs) = u16_to_le v" "drop 2 (u16_to_le v @ xs) = xs" for v xs
    by (simp_all add: u16_to_le_def)
  assume "i < length rs"
  then show ?thesis unfolding run_bytes_concat [OF \<open>i < length rs\<close>] run_bytes_def append_assoc two u16_from_to_le by simp
qed

lemma run_write_read:
  assumes inv: "run_inv c"
  shows "int (length (fst (run_container_write c))) = snd (run_container_write c)"
    and "rc_runs (fst (run_container_read k d (fst (run_container_write c) @ rest))) = rc_runs c"
    and "run_inv (fst (run_container_read k d (fst (run_container_write c) @ rest)))"
    and "snd (run_container_read k d (fst (run_container_write c) @ rest)) = snd (run_container_write c)"
proof -
  let ?rs = "rc_runs c"
  define n where "n = length ?rs"
  have ok: "runs_ok ?rs" and rn: "rc_n_runs c = int n" using inv by (simp_all add: run_simps n_def)
  have n: "n < 65536" using runs_ok_length [OF ok] by (simp add: n_def)
  have bytes: "length (concat (map run_bytes rs)) = 4 * length rs" for rs
    by (induction rs) (simp_all add: run_bytes_def u16_to_le_def)
  have w: "fst (run_container_write c) = u16_to_le (word_of_nat n) @ concat (map run_bytes ?rs)"
    "snd (run_container_write c) = 2 + 4 * int n"
    using rn by (simp_all add: run_container_write_def run_bytes_def [abs_def] n_def run_container_size_in_bytes_def
        run_container_serialized_size_in_bytes_def)
  show "int (length (fst (run_container_write c))) = snd (run_container_write c)"
    unfolding w by (simp add: bytes n_def u16_to_le_def)
  let ?buf = "fst (run_container_write c) @ rest"
  have hd: "take 2 ?buf = u16_to_le (word_of_nat n)" unfolding w by (simp add: u16_to_le_def)
  have un: "unat (u16_from_le (take 2 ?buf)) = n" unfolding hd u16_from_to_le using n by simp
  have dr: "drop (2 + k) ?buf = drop k (concat (map run_bytes ?rs) @ rest)" for k
    unfolding w by (simp add: u16_to_le_def)
  have dr4: "drop (4 + k) ?buf = drop 2 (drop k (concat (map run_bytes ?rs) @ rest))" for k
  proof -
    have "drop (4 + k) ?buf = drop (2 + (2 + k)) ?buf" by (rule arg_cong [of _ _ "\<lambda>n. drop n ?buf"]) simp
    also have "\<dots> = drop 2 (drop (2 + k) ?buf)" by (rule drop_drop [symmetric])
    finally show ?thesis unfolding dr [of k] .
  qed
  have cells: "map (\<lambda>i. \<lparr>rl_value = u16_from_le (take 2 (drop (2 + 4 * i) ?buf)),
      rl_length = u16_from_le (take 2 (drop (4 + 4 * i) ?buf))\<rparr>) [0 ..< n] = ?rs"
    unfolding dr dr4
  proof (rule nth_equalityI)
    fix i assume "i < length (map (\<lambda>i. \<lparr>rl_value = u16_from_le (take 2 (drop (4 * i) (concat (map run_bytes ?rs) @ rest))),
      rl_length = u16_from_le (take 2 (drop 2 (drop (4 * i) (concat (map run_bytes ?rs) @ rest))))\<rparr>) [0 ..< n])"
    then have i: "i < n" by simp
    then have "i < length ?rs" by (simp add: n_def)
    from run_read_cell [OF this] show "map (\<lambda>i. \<lparr>rl_value = u16_from_le (take 2 (drop (4 * i) (concat (map run_bytes ?rs) @ rest))),
      rl_length = u16_from_le (take 2 (drop 2 (drop (4 * i) (concat (map run_bytes ?rs) @ rest))))\<rparr>) [0 ..< n] ! i = ?rs ! i"
      using i by (simp only: nth_map length_upt nth_upt diff_zero add_0)
  qed (simp add: n_def)
  have r: "rc_runs (fst (run_container_read k d ?buf)) = ?rs" "rc_n_runs (fst (run_container_read k d ?buf)) = int n"
    "int n \<le> rc_capacity (fst (run_container_read k d ?buf))"
    unfolding run_container_read_def Let_def un cells by (simp_all add: run_container_grow_def Let_def)
  then show "rc_runs (fst (run_container_read k d ?buf)) = ?rs" by simp
  show "run_inv (fst (run_container_read k d ?buf))" using r ok by (simp add: run_inv_def n_def)
  show "snd (run_container_read k d ?buf) = snd (run_container_write c)"
    unfolding w(2) run_container_read_def Let_def un
    by (simp add: run_container_grow_def Let_def run_container_size_in_bytes_def run_container_serialized_size_in_bytes_def)
qed

end
