(* ===== verification/Run_Properties.thy ===== *)
theory Run_Properties
  imports Run_Bytes
begin

text \<open>
  The properties of the run container (\<open>containers/run.h\<close>, \<open>containers/run.c\<close>), each a consequence
  of the lemmas of the theories below it, with an application to a concrete container.
\<close>

section \<open>The contracts of the binary operations\<close>

interpretation run_inter: set_operation run_inv run_abs run_inv run_abs run_inv run_abs
  "\<lambda>a b. run_container_intersection a b dst" "(\<and>)" for dst
  by unfold_locales (simp_all add: run_intersection_correct)

interpretation run_minus: set_operation run_inv run_abs run_inv run_abs run_inv run_abs
  "\<lambda>a b. run_container_andnot a b dst" "\<lambda>p q. p \<and> \<not> q" for dst
  by unfold_locales (simp_all add: run_andnot_correct)

interpretation run_xor: set_operation run_inv run_abs run_inv run_abs run_inv run_abs
  "\<lambda>a b. run_container_xor a b dst" "(\<noteq>)" for dst
  by unfold_locales (auto simp add: run_xor_correct)

interpretation run_subset: set_test run_inv run_abs run_inv run_abs run_container_is_subset "(\<subseteq>)"
  by unfold_locales (simp add: run_is_subset_correct)

interpretation run_equal: set_test run_inv run_abs run_inv run_abs run_container_equals "(=)"
  by unfold_locales (simp add: run_equals_correct)

interpretation run_meets: set_test run_inv run_abs run_inv run_abs run_container_intersect "\<lambda>S T. S \<inter> T \<noteq> {}"
  by unfold_locales (simp add: run_intersect_correct)

section \<open>Concrete containers\<close>

abbreviation run_2_5_9 :: run_container where
  "run_2_5_9 \<equiv> \<lparr>rc_n_runs = 2, rc_capacity = 2, rc_runs = [\<lparr>rl_value = 2, rl_length = 3\<rparr>, \<lparr>rl_value = 9, rl_length = 0\<rparr>]\<rparr>"

abbreviation run_4_8 :: run_container where
  "run_4_8 \<equiv> \<lparr>rc_n_runs = 1, rc_capacity = 4, rc_runs = [\<lparr>rl_value = 4, rl_length = 4\<rparr>]\<rparr>"

lemma run_examples:
  "run_inv run_2_5_9" "run_inv run_4_8"
  "run_abs run_2_5_9 = {x. 2 \<le> unat x \<and> unat x \<le> 5 \<or> unat x = 9}" "run_abs run_4_8 = {x. 4 \<le> unat x \<and> unat x \<le> 8}"
  by (auto simp: run_inv_def runs_ok_Cons run_abs_def in_run_def)

lemma run_example_member: "x \<in> run_abs run_2_5_9 \<longleftrightarrow> 2 \<le> unat x \<and> unat x \<le> 5 \<or> unat x = 9"
  "x \<in> run_abs run_4_8 \<longleftrightarrow> 4 \<le> unat x \<and> unat x \<le> 8"
  by (simp_all add: run_examples)

section \<open>The properties\<close>

text \<open>C21: on a well-formed run container \<open>run_container_add\<close>, \<open>run_container_remove\<close> and
  \<open>run_container_contains\<close> are insertion, deletion and membership on the set of values; the runs
  stay sorted, merged and inside 16 bits, the booleans tell whether the set changed, and
  \<open>run_container_cardinality\<close> is the number of values.\<close>

theorem run_container_spec:
  assumes "run_inv c"
  shows "(run_container_contains c x \<longleftrightarrow> x \<in> run_abs c)
     \<and> run_inv (fst (run_container_add c x))
     \<and> run_abs (fst (run_container_add c x)) = insert x (run_abs c)
     \<and> (snd (run_container_add c x) \<longleftrightarrow> x \<notin> run_abs c)
     \<and> run_inv (fst (run_container_remove c x))
     \<and> run_abs (fst (run_container_remove c x)) = run_abs c - {x}
     \<and> (snd (run_container_remove c x) \<longleftrightarrow> x \<in> run_abs c)
     \<and> run_container_cardinality c = int (card (run_abs c))"
  using assms by (simp add: rc.contains_abs rc.add_correct rc.remove_correct rc.cardinality_abs)

theorem run_container_spec_witness:
  "run_inv (fst (run_container_add run_2_5_9 6)) \<and> snd (run_container_add run_2_5_9 6)
   \<and> run_abs (fst (run_container_remove run_2_5_9 4)) = run_abs run_2_5_9 - {4}"
  using run_container_spec [OF run_examples(1), of 6] run_container_spec [OF run_examples(1), of 4]
    run_example_member(1) [of 6] by simp

text \<open>C22: the binary operations on two run containers compute union, intersection, difference and
  symmetric difference of their sets and keep the runs sorted and merged, the union (also in place)
  for non-empty containers; the intersection cardinality and the tests agree with the sets.\<close>

theorem run_set_operations_spec:
  assumes "run_inv a" and "run_inv b" and "run_abs a \<noteq> {}" and "run_abs b \<noteq> {}"
  shows "run_inv (run_container_union a b out) \<and> run_abs (run_container_union a b out) = run_abs a \<union> run_abs b
     \<and> run_inv (run_container_union_inplace a b) \<and> run_abs (run_container_union_inplace a b) = run_abs a \<union> run_abs b
     \<and> run_inv (run_container_intersection a b out) \<and> run_abs (run_container_intersection a b out) = run_abs a \<inter> run_abs b
     \<and> run_inv (run_container_andnot a b out) \<and> run_abs (run_container_andnot a b out) = run_abs a - run_abs b
     \<and> run_inv (run_container_xor a b out) \<and> run_abs (run_container_xor a b out) = sym_diff (run_abs a) (run_abs b)
     \<and> run_container_intersection_cardinality a b = int (card (run_abs a \<inter> run_abs b))
     \<and> (run_container_intersect a b \<longleftrightarrow> run_abs a \<inter> run_abs b \<noteq> {})
     \<and> (run_container_is_subset a b \<longleftrightarrow> run_abs a \<subseteq> run_abs b)
     \<and> (run_container_equals a b \<longleftrightarrow> run_abs a = run_abs b)"
  using assms by (simp add: run_union_correct run_intersection_correct run_andnot_correct run_xor_correct
      run_intersection_cardinality_correct run_meets.test_rel run_subset.test_rel run_equal.test_rel)

theorem run_set_operations_spec_witness:
  "run_abs (run_container_xor run_2_5_9 run_4_8 run_container_create) = sym_diff (run_abs run_2_5_9) (run_abs run_4_8)
   \<and> run_container_intersect run_2_5_9 run_4_8"
proof -
  have "4 \<in> run_abs run_2_5_9" and "4 \<in> run_abs run_4_8" unfolding run_example_member by simp_all
  then have "run_abs run_2_5_9 \<noteq> {}" and "run_abs run_4_8 \<noteq> {}" and "run_abs run_2_5_9 \<inter> run_abs run_4_8 \<noteq> {}" by blast+
  then show ?thesis using run_set_operations_spec [OF run_examples(1,2)] by blast
qed

text \<open>C23: on run containers, the range test decides inclusion of the range, the two binary searches
  cut out the runs that a new range touches so that \<open>run_container_add_range_nruns\<close> adds the range,
  \<open>run_container_remove_range\<close> removes it, and \<open>run_container_create_range\<close> builds it.\<close>

theorem run_range_spec:
  assumes "run_inv c" and "unat lo < unat hi" and "unat hi < 65536"
    and "ng = rle16_count_greater (rc_runs c) (nat (rc_n_runs c)) (ucast hi)"
    and "nl = rle16_count_less (rc_runs c) (nat (rc_n_runs c - ng)) (ucast lo)"
  shows "(run_container_contains_range c lo hi \<longleftrightarrow> {x. unat lo \<le> unat x \<and> unat x < unat hi} \<subseteq> run_abs c)
     \<and> run_inv (run_container_add_range_nruns c lo hi nl ng)
     \<and> run_abs (run_container_add_range_nruns c lo hi nl ng) = run_abs c \<union> {x. unat lo \<le> unat x \<and> unat x \<le> unat hi}
     \<and> run_inv (run_container_remove_range c lo hi)
     \<and> run_abs (run_container_remove_range c lo hi) = run_abs c - {x. unat lo \<le> unat x \<and> unat x \<le> unat hi}
     \<and> run_inv (run_container_create_range lo hi)
     \<and> run_abs (run_container_create_range lo hi) = {x. unat lo \<le> unat x \<and> unat x < unat hi}"
proof -
  have le: "unat lo \<le> unat hi" and hi: "unat hi \<le> 65536" using assms(2,3) by simp_all
  have "(\<forall>v \<in> {unat lo ..< unat hi}. covers (rc_runs c) v) \<longleftrightarrow> {x :: u16. unat lo \<le> unat x \<and> unat x < unat hi} \<subseteq> run_abs c"
    (is "?L \<longleftrightarrow> ?R")
  proof
    assume R: ?R
    show ?L
    proof
      fix v assume v: "v \<in> {unat lo ..< unat hi}"
      then have "unat (word_of_nat v :: u16) = v" using assms(3) by simp
      then show "covers (rc_runs c) v" using R v by (auto simp: run_abs_def dest: subsetD [of _ _ "word_of_nat v"])
    qed
  qed (auto simp: run_abs_def)
  then show ?thesis
    using run_contains_range_correct [OF assms(1,2) hi] run_add_range_counted(1) [OF assms(1) le assms(3), folded assms(4), folded assms(5)]
      run_remove_range_correct [OF assms(1) le assms(3)] run_create_range_correct [OF assms(2) hi] by simp
qed

theorem run_range_spec_witness:
  "run_abs (run_container_remove_range run_2_5_9 3 9) = run_abs run_2_5_9 - {x. 3 \<le> unat x \<and> unat x \<le> 9}
   \<and> run_inv (run_container_remove_range run_2_5_9 3 9)"
  using run_range_spec [OF run_examples(1), of 3 9] by simp

text \<open>The order queries on run containers: rank counts the values up to \<open>x\<close>, get_index is the
  index of a value that is there, select finds the value of a given rank or reports the rank it
  reached, minimum and maximum are the extreme values, and the array of values is in order.\<close>

theorem run_order_spec:
  assumes "run_inv c" and "s \<le> r" and "unat s + card (run_abs c) < 2 ^ 32"
  shows "run_container_rank c x = card {y \<in> run_abs c. y \<le> x}
     \<and> run_container_get_index c x = (if x \<in> run_abs c then int (card {y \<in> run_abs c. y < x}) else - 1)
     \<and> run_container_select c s r =
         (if unat s + card (run_abs c) \<le> unat r then Inl (s + word_of_nat (card (run_abs c)))
          else Inr (ucast (sorted_list_of_set (run_abs c) ! (unat r - unat s))))
     \<and> (run_abs c \<noteq> {} \<longrightarrow> run_container_minimum c = Min (run_abs c) \<and> run_container_maximum c = Max (run_abs c))
     \<and> run_container_to_uint32_array c base = (int (card (run_abs c)), map (\<lambda>x. base + ucast x) (sorted_list_of_set (run_abs c)))"
proof -
  have "run_abs c \<noteq> {} \<longrightarrow> run_container_minimum c = Min (run_abs c) \<and> run_container_maximum c = Max (run_abs c)"
    using run_min_max_correct [OF assms(1)] by (metis Max_eqI Min_eqI finite)
  then show ?thesis using assms
    by (simp add: run_rank_correct run_get_index_correct run_select_correct run_to_uint32_array_correct)
qed

theorem run_order_spec_witness:
  "run_container_rank run_4_8 6 = card {y \<in> run_abs run_4_8. y \<le> 6} \<and> run_container_minimum run_4_8 = Min (run_abs run_4_8)"
proof -
  have "card (run_abs run_4_8) \<le> card (UNIV :: u16 set)" by (rule card_mono) simp_all
  then have "unat (0 :: u32) + card (run_abs run_4_8) < 2 ^ 32" by (simp add: card_word)
  moreover have "run_abs run_4_8 \<noteq> {}" using run_example_member(2) [of 4] by auto
  ultimately show ?thesis using run_order_spec [OF run_examples(2), of 0 0 6 0] by simp
qed

text \<open>C24: shifting a run container by a non-zero offset splits it into the values that stay below
  2^16 and those that wrap around; a run across the border is cut, and both halves are well formed.\<close>

theorem run_offset_spec:
  assumes "run_inv c" and "d \<noteq> 0" and "run_container_offset c True True d = (lo, hi)"
  shows "(case lo of None \<Rightarrow> \<forall>x \<in> run_abs c. 65536 \<le> unat x + unat d
        | Some l \<Rightarrow> run_inv l \<and> run_abs l = (\<lambda>x. x + d) ` {x \<in> run_abs c. unat x + unat d < 65536})
     \<and> (case hi of None \<Rightarrow> \<forall>x \<in> run_abs c. unat x + unat d < 65536
        | Some h \<Rightarrow> run_inv h \<and> run_abs h = (\<lambda>x. x + d) ` {x \<in> run_abs c. 65536 \<le> unat x + unat d})"
  using run_offset_correct [OF assms] by (auto simp: not_less not_le split: option.splits)

theorem run_offset_spec_witness:
  "case run_container_offset run_4_8 True True 65530 of
     (lo, hi) \<Rightarrow> (case hi of None \<Rightarrow> False | Some h \<Rightarrow> run_inv h)"
  using run_offset_spec [OF run_examples(2), of 65530] run_example_member(2) [of 8]
  by (cases "run_container_offset run_4_8 True True 65530") (auto split: option.splits)

text \<open>C25: writing a run container and reading the bytes back, with anything after them, gives the
  same runs and uses the number of bytes that was written, 2 and 4 for every run (not the size of a bitset
  container, as the comment of \<open>run_container_read\<close> says); \<open>run_container_validate\<close> accepts exactly the
  well-formed, non-empty containers.\<close>

theorem run_bytes_spec:
  assumes "rc_n_runs c = int (length (rc_runs c))"
  shows "(run_container_validate c = None \<longleftrightarrow> run_inv c \<and> rc_runs c \<noteq> [])
     \<and> (run_inv c \<longrightarrow> int (length (fst (run_container_write c))) = snd (run_container_write c)
        \<and> rc_runs (fst (run_container_read k d (fst (run_container_write c) @ rest))) = rc_runs c
        \<and> run_inv (fst (run_container_read k d (fst (run_container_write c) @ rest)))
        \<and> snd (run_container_read k d (fst (run_container_write c) @ rest)) = snd (run_container_write c)
        \<and> snd (run_container_write c) = 2 + 4 * int (length (rc_runs c)))"
proof -
  have "snd (run_container_write c) = 2 + 4 * int (length (rc_runs c))"
    by (simp add: run_container_write_def run_container_size_in_bytes_def run_container_serialized_size_in_bytes_def assms)
  then show ?thesis using run_validate_correct [OF assms] run_write_read [of c] by blast
qed

theorem run_bytes_spec_witness:
  "rc_runs (fst (run_container_read 5 run_container_create (fst (run_container_write run_2_5_9) @ [7]))) = rc_runs run_2_5_9
   \<and> run_container_validate run_2_5_9 = None"
  using run_bytes_spec [of run_2_5_9 5 run_container_create "[7]"] run_examples(1) by simp

end
