(* ===== verification/Bitset_Bytes.thy ===== *)
theory Bitset_Bytes
  imports Bitset_Shift
begin

text \<open>
  The number of runs of a bitset container (as the ends of the maximal runs of its set), its byte
  format and its validation.
\<close>

section \<open>The number of runs\<close>

definition ends_of :: "nat set \<Rightarrow> nat set" where
  "ends_of B = {n \<in> B. n + 1 \<notin> B}"

definition run_end_bits :: "u64 \<Rightarrow> u64" where
  "run_end_bits w = NOT w AND push_bit 1 w"

lemma bit_run_ends: "bit (run_end_bits w) m \<longleftrightarrow> 0 < m \<and> m < 64 \<and> bit w (m - 1) \<and> \<not> bit w m"
  unfolding run_end_bits_def bit_and_iff bit_not_iff bit_push_bit_iff by (auto simp: possible_bit_word)

lemma ends_of_Cons:
  "ends_of (bits_of (w # ws)) = (\<lambda>m. m - 1) ` {m. bit (run_end_bits w) m}
     \<union> (if bit w 63 \<and> 0 \<notin> bits_of ws then {63} else {}) \<union> (\<lambda>n. n + 64) ` ends_of (bits_of ws)"
proof (rule set_eqI)
  fix n
  have mem: "k \<in> bits_of (w # ws) \<longleftrightarrow> (if k < 64 then bit w k else k - 64 \<in> bits_of ws)" for k
    by (auto simp: bits_of_def wbit_Cons dest: bit_u64_bound)
  have low: "n \<in> (\<lambda>m. m - 1) ` {m. bit (run_end_bits w) m} \<longleftrightarrow> n < 63 \<and> bit w n \<and> \<not> bit w (n + 1)"
  proof
    assume "n < 63 \<and> bit w n \<and> \<not> bit w (n + 1)"
    then have "n + 1 \<in> {m. bit (run_end_bits w) m}" by (simp add: bit_run_ends)
    then show "n \<in> (\<lambda>m. m - 1) ` {m. bit (run_end_bits w) m}" by (intro image_eqI [of _ _ "n + 1"]) simp_all
  qed (auto simp: bit_run_ends)
  have high: "n \<in> (\<lambda>n. n + 64) ` ends_of (bits_of ws) \<longleftrightarrow> 64 \<le> n \<and> n - 64 \<in> ends_of (bits_of ws)"
    by (auto intro: image_eqI [of _ _ "n - 64"])
  consider "n < 63" | "n = 63" | "64 \<le> n" by linarith
  then show "n \<in> ends_of (bits_of (w # ws)) \<longleftrightarrow> n \<in> (\<lambda>m. m - 1) ` {m. bit (run_end_bits w) m}
     \<union> (if bit w 63 \<and> 0 \<notin> bits_of ws then {63} else {}) \<union> (\<lambda>n. n + 64) ` ends_of (bits_of ws)"
  proof cases
    assume n: "64 \<le> n"
    then have "n + 1 - 64 = n - 64 + 1" by simp
    then show ?thesis unfolding Un_iff low high using n by (auto simp: ends_of_def mem)
  qed (unfold Un_iff low high, auto simp: ends_of_def mem)
qed

lemma card_ends_Cons:
  "card (ends_of (bits_of (w # ws))) =
     roaring_hamming (run_end_bits w) + of_bool (bit w 63 \<and> 0 \<notin> bits_of ws) + card (ends_of (bits_of ws))"
proof -
  let ?A = "(\<lambda>m. m - 1) ` {m. bit (run_end_bits w) m}"
  let ?B = "if bit w 63 \<and> 0 \<notin> bits_of ws then {63 :: nat} else {}"
  let ?C = "(\<lambda>n. n + 64) ` ends_of (bits_of ws)"
  have A: "\<forall>n \<in> ?A. n < 63" by (auto simp: bit_run_ends)
  have fin: "finite {m. bit (run_end_bits w) m}"
    by (rule finite_subset [of _ "{..< 64}"]) (auto dest: bit_u64_bound)
  have "inj_on (\<lambda>m. m - 1) {m. bit (run_end_bits w) m}"
  proof (rule inj_onI)
    fix x y assume xy: "x \<in> {m. bit (run_end_bits w) m}" "y \<in> {m. bit (run_end_bits w) m}" "x - 1 = y - 1"
    then have "0 < x" "0 < y" by (simp_all add: bit_run_ends)
    then show "x = y" using xy(3) by linarith
  qed
  then have cA: "card ?A = roaring_hamming (run_end_bits w)"
    unfolding roaring_hamming_card by (rule card_image)
  have cC: "card ?C = card (ends_of (bits_of ws))" by (rule card_image) (simp add: inj_on_def)
  have fB: "finite (ends_of (bits_of ws))" by (simp add: ends_of_def)
  have "card (?A \<union> ?B \<union> ?C) = card (?A \<union> ?B) + card ?C"
    using A fin fB by (intro card_Un_disjoint) (auto, fastforce?)
  also have "card (?A \<union> ?B) = card ?A + card ?B" using A fin by (intro card_Un_disjoint) auto
  finally show ?thesis unfolding ends_of_Cons cA cC by simp
qed

lemma carry_bit: "unat (drop_bit 63 w AND NOT v :: u64) = of_bool (bit w 63 \<and> \<not> bit v 0)"
proof -
  have b: "bit (drop_bit 63 w AND NOT v) n \<longleftrightarrow> n = 0 \<and> bit w 63 \<and> \<not> bit v 0" for n
  proof (cases "n = 0")
    case False
    then have "\<not> bit w (63 + n)" using bit_u64_bound [of w "63 + n"] by auto
    then show ?thesis using False by (simp add: bit_and_iff bit_drop_bit_eq)
  qed (simp add: bit_simps)
  have "drop_bit 63 w AND NOT v = of_bool (bit w 63 \<and> \<not> bit v 0)"
    by (rule bit_eqI, unfold b) (auto simp: bit_of_bool_iff bit_1_iff)
  then show ?thesis by (simp split: if_splits)
qed

lemma top_bit: "(w :: u64) AND 0x8000000000000000 \<noteq> 0 \<longleftrightarrow> bit w 63"
proof -
  have p: "(0x8000000000000000 :: u64) = push_bit 63 1" by simp
  have "bit (0x8000000000000000 :: u64) n \<longleftrightarrow> n = 63" for n
    unfolding p bit_push_bit_iff by (auto simp: bit_1_iff)
  then show ?thesis unfolding word_nonzero_bit bit_and_iff by auto
qed

lemma bitset_runs_loop_correct: "bitset_runs_loop ws k = k + card (ends_of (bits_of ws))"
proof (induction ws k rule: bitset_runs_loop.induct)
  case (1 w v ws k)
  have "0 \<in> bits_of (v # ws) \<longleftrightarrow> bit v 0" by (simp add: bits_of_def wbit_Cons)
  then show ?case using 1 by (simp add: card_ends_Cons [of w] carry_bit run_end_bits_def)
next
  case (2 w k)
  have e: "ends_of (bits_of []) = {}" by (simp add: bits_of_def ends_of_def)
  show ?case unfolding bitset_runs_loop.simps Let_def top_bit card_ends_Cons e run_end_bits_def by (simp add: bits_of_def)
next
  case (3 k)
  then show ?case by (simp add: bits_of_def ends_of_def)
qed

lemma bitset_number_of_runs_correct:
  assumes "bitset_wf b"
  shows "bitset_container_number_of_runs b = card (ends_of (unat ` bitset_abs b))"
  by (simp add: bitset_container_number_of_runs_def bitset_runs_loop_correct bits_of_abs [OF assms])

section \<open>Bytes\<close>

lemma bit_fold_or: "bit (fold (\<lambda>k w. w OR f k) ks (z :: 'a::len word)) n \<longleftrightarrow> bit z n \<or> (\<exists>k \<in> set ks. bit (f k) n)"
  by (induction ks arbitrary: z) (auto simp: bit_or_iff)

lemma u64_from_to_le: "u64_from_le (u64_to_le w @ rest) = w"
proof (rule bit_eqI)
  fix n assume "possible_bit TYPE(u64) n"
  then have n: "n < 64" by (simp add: possible_bit_word)
  have nth: "k < 8 \<Longrightarrow> (u64_to_le w @ rest) ! k = ucast (drop_bit (8 * k) w)" for k
    by (simp add: u64_to_le_def nth_append)
  have "bit (push_bit (8 * k) (ucast ((u64_to_le w @ rest) ! k) :: u64)) n \<longleftrightarrow> 8 * k \<le> n \<and> n < 8 * k + 8 \<and> bit w n"
    if "k < 8" for k
    using n that by (auto simp: nth bit_simps)
  then have "bit (u64_from_le (u64_to_le w @ rest)) n \<longleftrightarrow> (\<exists>k \<in> set [0 ..< 8]. 8 * k \<le> n \<and> n < 8 * k + 8 \<and> bit w n)"
    unfolding u64_from_le_def bit_fold_or by auto
  also have "\<dots> \<longleftrightarrow> bit w n"
    using n by (auto intro!: bexI [of _ "n div 8"])
  finally show "bit (u64_from_le (u64_to_le w @ rest)) n \<longleftrightarrow> bit w n" .
qed

lemma length_u64_to_le: "length (u64_to_le w) = 8"
  by (simp add: u64_to_le_def)

lemma u64_concat:
  "i < length ws \<Longrightarrow> drop (8 * i) (concat (map u64_to_le ws) @ rest) =
     u64_to_le (ws ! i) @ concat (map u64_to_le (drop (Suc i) ws)) @ rest"
proof (induction ws arbitrary: i)
  case (Cons w ws)
  show ?case
  proof (cases i)
    case (Suc j)
    have "drop (8 * i) (u64_to_le w @ xs) = drop (8 * j) xs" for xs by (simp add: Suc length_u64_to_le)
    then have "drop (8 * i) (concat (map u64_to_le (w # ws)) @ rest) = drop (8 * j) (concat (map u64_to_le ws) @ rest)"
      by (simp only: list.map concat.simps append_assoc)
    then show ?thesis using Cons Suc by simp
  qed simp
qed simp

lemma bitset_write_read:
  assumes wf: "bitset_wf b"
  shows "int (length (fst (bitset_container_write b))) = snd (bitset_container_write b)"
    and "fst (bitset_container_read (bc_cardinality b) d (fst (bitset_container_write b) @ rest))
           = d\<lparr>bc_cardinality := bc_cardinality b, bc_words := bc_words b\<rparr>"
    and "snd (bitset_container_read n d buf) = snd (bitset_container_write b)"
proof -
  have n: "length (bc_words b) = 1024" using wf by (simp add: bitset_wf_def)
  have len: "length (concat (map u64_to_le ws)) = 8 * length ws" for ws
    by (induction ws) (simp_all add: length_u64_to_le)
  show "int (length (fst (bitset_container_write b))) = snd (bitset_container_write b)"
    by (simp add: bitset_container_write_def len n bitset_container_size_in_bytes_def)
  have "u64_from_le (take 8 (drop (8 * i) (concat (map u64_to_le (bc_words b)) @ rest))) = bc_words b ! i"
    if "i < 1024" for i
  proof -
    have "take 8 (drop (8 * i) (concat (map u64_to_le (bc_words b)) @ rest)) = u64_to_le (bc_words b ! i)"
      using that n by (subst u64_concat) (simp_all add: length_u64_to_le)
    then show ?thesis using u64_from_to_le [of "bc_words b ! i" "[]"] by simp
  qed
  then have "map (\<lambda>i. u64_from_le (take 8 (drop (8 * i) (concat (map u64_to_le (bc_words b)) @ rest)))) [0 ..< 1024] = bc_words b"
    using n by (intro nth_equalityI) (simp_all del: drop_append)
  then show "fst (bitset_container_read (bc_cardinality b) d (fst (bitset_container_write b) @ rest))
           = d\<lparr>bc_cardinality := bc_cardinality b, bc_words := bc_words b\<rparr>"
    by (simp add: bitset_container_read_def bitset_container_write_def del: drop_append)
  show "snd (bitset_container_read n d buf) = snd (bitset_container_write b)"
    by (simp add: bitset_container_read_def bitset_container_write_def)
qed

lemma bitset_validate_correct:
  assumes "bitset_wf b"
  shows "bitset_container_validate b = None \<longleftrightarrow> bitset_inv b \<and> 4096 < card (bitset_abs b)"
  using assms by (auto simp: bitset_container_validate_def compute_cardinality_correct bitset_inv_def)

end
