(* ===== verification/Bitset_Properties.thy ===== *)
theory Bitset_Properties
  imports Bitset_Bytes
begin

text \<open>
  The properties of the word-array routines (\<open>bitset_util.h\<close>, \<open>bitset_util.c\<close>) and of the bitset
  container (\<open>containers/bitset.h\<close>, \<open>containers/bitset.c\<close>), each a consequence of the lemmas of
  the theories below it, with an application to a concrete container.
\<close>

section \<open>Concrete containers\<close>

lemma bitset_empty_example: "bitset_inv bitset_container_create" "bitset_wf bitset_container_create"
    "bitset_lazy_inv bitset_container_create" "bitset_abs bitset_container_create = {}"
  by (simp_all add: bitset_create_correct bitset_inv_wf bitset_inv_lazy)

abbreviation bitset_5_70 :: bitset_container where
  "bitset_5_70 \<equiv> fst (bitset_container_add (fst (bitset_container_add bitset_container_create 5)) 70)"

lemma bitset_example: "bitset_inv bitset_5_70" "bitset_wf bitset_5_70" "bitset_lazy_inv bitset_5_70" "bitset_abs bitset_5_70 = {5, 70}"
proof -
  show i: "bitset_inv bitset_5_70" by (simp add: bc.add_correct bitset_create_correct)
  show "bitset_wf bitset_5_70" "bitset_lazy_inv bitset_5_70" using i by (simp_all add: bitset_inv_wf bitset_inv_lazy)
  show "bitset_abs bitset_5_70 = {5, 70}" by (auto simp: bc.add_correct bitset_create_correct)
qed

section \<open>Words\<close>

text \<open>C26: the range routines on an array of 64-bit words set, clear and flip exactly the bits of the
  half-open range, and \<open>bitset_set_lenrange\<close> sets the bits from \<open>s\<close> to \<open>s + l\<close>.\<close>

theorem bitset_ranges_spec:
  assumes "unat s < unat e" and "unat e \<le> 64 * length ws" and "unat s + unat l < 64 * length ws" and "length ws \<le> 1048576"
  shows "bits_of (bitset_set_range ws s e) = bits_of ws \<union> {unat s ..< unat e}
     \<and> bits_of (bitset_reset_range ws s e) = bits_of ws - {unat s ..< unat e}
     \<and> bits_of (bitset_flip_range ws s e) = sym_diff (bits_of ws) {unat s ..< unat e}
     \<and> bits_of (bitset_set_lenrange ws s l) = bits_of ws \<union> {unat s .. unat s + unat l}
     \<and> (bitset_lenrange_cardinality ws s l = card (bits_of ws \<inter> {unat s .. unat s + unat l}))
     \<and> (bitset_lenrange_empty ws s l \<longleftrightarrow> bits_of ws \<inter> {unat s .. unat s + unat l} = {})"
proof -
  have len: "length (bitset_set_range ws s e) = length ws" "length (bitset_reset_range ws s e) = length ws"
    "length (bitset_flip_range ws s e) = length ws"
    by (simp_all add: bitset_set_range_def bitset_reset_range_def bitset_flip_range_def Let_def)
  have S: "{n. unat s \<le> n \<and> n \<le> unat s + unat l \<and> wbit ws n} = bits_of ws \<inter> {unat s .. unat s + unat l}"
    using assms(3) by (auto simp: bits_of_def)
  show ?thesis
    using assms(2,3) len wbit_set_lenrange(2) [OF assms(3,4)] lenrange_counts [OF assms(3,4), unfolded S]
    by (auto simp: bits_of_def wbit_set_range [OF assms(1,2)] wbit_reset_range [OF assms(1,2)]
        wbit_flip_range [OF assms(1,2)] wbit_set_lenrange(1) [OF assms(3,4)])
qed

theorem bitset_ranges_spec_witness:
  "bits_of (bitset_flip_range (replicate 3 0) 60 130) = sym_diff (bits_of (replicate 3 0)) {60 ..< 130}"
  using bitset_ranges_spec [of 60 130 "replicate 3 0" 0] by simp

text \<open>Setting, clearing and flipping the bits that a list names gives the expected set of bits,
  and the cardinality that is passed in changes by the number of bits gained less those lost.\<close>

theorem bitset_lists_spec:
  assumes "length ws = 1024" and "distinct ps"
  shows "(case bitset_set_list_withcard ws n ps of (ws', n') \<Rightarrow> bits_of ws' = bits_of ws \<union> unat ` set ps
        \<and> n' - n = word_of_nat (card (bits_of ws')) - word_of_nat (card (bits_of ws)))
     \<and> (case bitset_clear_list ws n ps of (ws', n') \<Rightarrow> bits_of ws' = bits_of ws - unat ` set ps
        \<and> n' - n = word_of_nat (card (bits_of ws')) - word_of_nat (card (bits_of ws)))
     \<and> (case bitset_flip_list_withcard ws n ps of (ws', n') \<Rightarrow> bits_of ws' = sym_diff (bits_of ws) (unat ` set ps)
        \<and> n' - n = word_of_nat (card (bits_of ws')) - word_of_nat (card (bits_of ws)))
     \<and> bits_of (bitset_set_list ws ps) = bits_of ws \<union> unat ` set ps
     \<and> bits_of (bitset_flip_list ws ps) = sym_diff (bits_of ws) (unat ` set ps)"
proof -
  have move: "n' - c' = n - c \<longleftrightarrow> n' - n = c' - c" for n n' c c' :: u64 by (auto simp: algebra_simps)
  show ?thesis
    using bitset_lists_correct(1,2) [OF assms(1), where n = n and ps = ps]
      bitset_lists_correct(3) [OF assms, where n = n]
    unfolding bitset_lists_nocard [of ws ps n] keeps_count_def count_of_def
    by (simp add: case_prod_unfold move)
qed

theorem bitset_lists_spec_witness:
  "bits_of (bitset_flip_list (bc_words bitset_container_create) [3, 9, 64]) = {3, 9, 64}"
proof -
  have "length (bc_words bitset_container_create) = 1024" and "bits_of (bc_words bitset_container_create) = {}"
    using bitset_empty_example bits_of_abs [of bitset_container_create] by (simp_all add: bitset_wf_def)
  then show ?thesis using bitset_lists_spec [of "bc_words bitset_container_create" "[3, 9, 64]" 0] by simp
qed

section \<open>The bitset container\<close>

text \<open>C27: on a well-formed bitset container \<open>bitset_container_add\<close>, \<open>bitset_container_remove\<close> and
  \<open>bitset_container_contains\<close> are insertion, deletion and membership, the cardinality field stays
  the number of values, and the range test decides inclusion of the range.\<close>

theorem bitset_container_spec:
  assumes "bitset_inv b" and "unat lo < unat hi" and "unat hi \<le> 65536"
  shows "(bitset_container_contains b x \<longleftrightarrow> x \<in> bitset_abs b)
     \<and> bitset_inv (fst (bitset_container_add b x))
     \<and> bitset_abs (fst (bitset_container_add b x)) = insert x (bitset_abs b)
     \<and> (snd (bitset_container_add b x) \<longleftrightarrow> x \<notin> bitset_abs b)
     \<and> bitset_inv (fst (bitset_container_remove b x))
     \<and> bitset_abs (fst (bitset_container_remove b x)) = bitset_abs b - {x}
     \<and> (snd (bitset_container_remove b x) \<longleftrightarrow> x \<in> bitset_abs b)
     \<and> bc_cardinality b = int (card (bitset_abs b))
     \<and> bitset_container_compute_cardinality b = int (card (bitset_abs b))
     \<and> (bitset_container_contains_range b lo hi \<longleftrightarrow> {x. unat lo \<le> unat x \<and> unat x < unat hi} \<subseteq> bitset_abs b)"
  using assms bitset_get_range_correct [OF bitset_inv_wf [OF assms(1)] assms(2,3)]
  by (simp add: bc.contains_abs bc.add_correct bc.remove_correct bc.cardinality_abs
      compute_cardinality_correct bitset_inv_wf bitset_container_contains_range_def u16_range_def)

theorem bitset_container_spec_witness:
  "bitset_abs (fst (bitset_container_remove bitset_5_70 5)) = {70} \<and> \<not> bitset_container_contains bitset_5_70 6"
  using bitset_container_spec [OF bitset_example(1), of 1 2 5] bitset_container_spec [OF bitset_example(1), of 1 2 6]
  unfolding bitset_example(4) by auto

text \<open>C28: the operations that \<open>CROARING_BITSET_CONTAINER_FN\<close> generates compute union, intersection,
  difference and symmetric difference with the right cardinality; the variant without cardinality
  has the same values and marks the cardinality unknown; the counting variants count; the tests
  agree with the sets, also when a cardinality is unknown.\<close>

theorem bitset_set_operations_spec:
  assumes "bitset_inv a" and "bitset_inv b"
  shows "bitset_inv (bitset_container_or a b dst) \<and> bitset_abs (bitset_container_or a b dst) = bitset_abs a \<union> bitset_abs b
     \<and> bitset_inv (bitset_container_and a b dst) \<and> bitset_abs (bitset_container_and a b dst) = bitset_abs a \<inter> bitset_abs b
     \<and> bitset_inv (bitset_container_xor a b dst) \<and> bitset_abs (bitset_container_xor a b dst) = sym_diff (bitset_abs a) (bitset_abs b)
     \<and> bitset_inv (bitset_container_andnot a b dst) \<and> bitset_abs (bitset_container_andnot a b dst) = bitset_abs a - bitset_abs b
     \<and> bitset_lazy_inv (bitset_container_or_nocard a b dst) \<and> bitset_abs (bitset_container_or_nocard a b dst) = bitset_abs a \<union> bitset_abs b
     \<and> bitset_container_or_justcard a b = int (card (bitset_abs a \<union> bitset_abs b))
     \<and> bitset_container_and_justcard a b = int (card (bitset_abs a \<inter> bitset_abs b))
     \<and> bitset_container_xor_justcard a b = int (card (sym_diff (bitset_abs a) (bitset_abs b)))
     \<and> bitset_container_andnot_justcard a b = int (card (bitset_abs a - bitset_abs b))
     \<and> (bitset_container_intersect a b \<longleftrightarrow> bitset_abs a \<inter> bitset_abs b \<noteq> {})
     \<and> (bitset_container_is_subset a b \<longleftrightarrow> bitset_abs a \<subseteq> bitset_abs b)
     \<and> (bitset_container_equals a b \<longleftrightarrow> bitset_abs a = bitset_abs b)"
proof -
  have wf: "bitset_wf a" "bitset_wf b" and lz: "bitset_lazy_inv a" "bitset_lazy_inv b"
    using assms by (simp_all add: bitset_inv_wf bitset_inv_lazy)
  have "{x. (x \<in> bitset_abs a) \<noteq> (x \<in> bitset_abs b)} = sym_diff (bitset_abs a) (bitset_abs b)" by blast
  then have "bitset_abs (bitset_container_or a b dst) = bitset_abs a \<union> bitset_abs b"
    "bitset_abs (bitset_container_or_nocard a b dst) = bitset_abs a \<union> bitset_abs b"
    "bitset_abs (bitset_container_and a b dst) = bitset_abs a \<inter> bitset_abs b"
    "bitset_abs (bitset_container_xor a b dst) = sym_diff (bitset_abs a) (bitset_abs b)"
    "bitset_abs (bitset_container_andnot a b dst) = bitset_abs a - bitset_abs b"
    using bitset_or.oper_abs [OF wf] bitset_or_nocard.oper_abs [OF wf] bitset_and.oper_abs [OF wf]
      bitset_xor.oper_abs [OF wf] bitset_andnot.oper_abs [OF wf] by (simp_all add: Un_def Int_def set_diff_eq)
  then show ?thesis
    using bitset_or.oper_inv [OF wf] bitset_and.oper_inv [OF wf] bitset_xor.oper_inv [OF wf] bitset_andnot.oper_inv [OF wf]
      bitset_or_nocard.oper_inv [OF wf] bitset_justcard_correct [OF wf] bitset_subset.test_rel [OF lz]
      bitset_equals.test_rel [OF lz] bitset_intersect.test_rel [OF wf] by (simp only: simp_thms)
qed

theorem bitset_set_operations_spec_witness:
  "bitset_abs (bitset_container_andnot bitset_5_70 (fst (bitset_container_add bitset_container_create 70)) bitset_container_create) = {5}"
proof -
  let ?a = "bitset_5_70" and ?b = "fst (bitset_container_add bitset_container_create 70)"
  have "bitset_inv ?b" and b: "bitset_abs ?b = {70}" by (simp_all add: bc.add_correct bitset_create_correct)
  then have "bitset_abs (bitset_container_andnot ?a ?b bitset_container_create) = bitset_abs ?a - bitset_abs ?b"
    using bitset_set_operations_spec [OF bitset_example(1), of ?b bitset_container_create] by blast
  then show ?thesis unfolding bitset_example(4) b by (auto simp: insert_Diff_if)
qed

text \<open>The order queries on bitset containers: rank, get_index, select, minimum, the first value not
  below a bound, and the array of values in order.\<close>

theorem bitset_order_spec:
  assumes "bitset_inv b" and "s \<le> r" and "unat s + card (bitset_abs b) < 2 ^ 32"
  shows "bitset_container_rank b x = card {y \<in> bitset_abs b. y \<le> x}
     \<and> bitset_container_get_index b x = (if x \<in> bitset_abs b then int (card {y \<in> bitset_abs b. y < x}) else - 1)
     \<and> bitset_container_select b s r =
         (if unat s + card (bitset_abs b) \<le> unat r then Inl (s + word_of_nat (card (bitset_abs b)))
          else Inr (ucast (sorted_list_of_set (bitset_abs b) ! (unat r - unat s))))
     \<and> (bitset_abs b \<noteq> {} \<longrightarrow> bitset_container_minimum b = Min (bitset_abs b))
     \<and> bitset_container_index_equalorlarger b x =
         (case filter (\<lambda>y. x \<le> y) (sorted_list_of_set (bitset_abs b)) of [] \<Rightarrow> - 1 | y # ys \<Rightarrow> int (unat y))
     \<and> bitset_container_to_uint32_array b base = map (\<lambda>x. ucast x + base) (sorted_list_of_set (bitset_abs b))"
proof -
  have wf: "bitset_wf b" using assms(1) by (rule bitset_inv_wf)
  have "bitset_abs b \<noteq> {} \<longrightarrow> bitset_container_minimum b = Min (bitset_abs b)"
    using bitset_minimum_correct [OF wf] by (metis Min_eqI finite)
  then show ?thesis using assms wf
    by (simp add: bitset_rank_correct bitset_get_index_correct bitset_select_correct bitset_to_uint32_array_correct
        bitset_index_equalorlarger_correct)
qed

theorem bitset_order_spec_witness:
  "bitset_container_rank bitset_5_70 7 = card {y \<in> {5, 70}. y \<le> (7 :: u16)} \<and> bitset_container_minimum bitset_5_70 = 5"
  using bitset_order_spec [OF bitset_example(1), of 0 0 7 0] unfolding bitset_example(4) by simp

text \<open>C29: \<open>bitset_container_maximum\<close> is the largest value when some value is at least 64; its loop
  stops before the first word, so for a non-empty container with smaller values only it returns 0
  instead of the largest value.\<close>

theorem bitset_maximum_spec:
  assumes "bitset_inv b" and "bitset_abs b \<noteq> {}"
  shows "bitset_container_maximum b = (if 64 \<le> unat (Max (bitset_abs b)) then Max (bitset_abs b) else 0)"
proof -
  have wf: "bitset_wf b" using assms(1) by (rule bitset_inv_wf)
  show ?thesis
  proof (cases "\<exists>y \<in> bitset_abs b. 64 \<le> unat y")
    case True
    then have m: "bitset_container_maximum b = Max (bitset_abs b)"
      using bitset_maximum_correct(1) [OF wf] by (metis Max_eqI finite)
    obtain y where y: "y \<in> bitset_abs b" "64 \<le> unat y" using True by blast
    then have "y \<le> Max (bitset_abs b)" by simp
    then have "64 \<le> unat (Max (bitset_abs b))" using y(2) by (simp add: word_le_nat_alt)
    then show ?thesis using m by simp
  next
    case False
    then have "\<not> 64 \<le> unat (Max (bitset_abs b))" using Max_in [OF _ assms(2)] by auto
    then show ?thesis using bitset_maximum_correct(2) [OF wf False] by simp
  qed
qed

theorem bitset_maximum_spec_witness:
  "bitset_container_maximum (fst (bitset_container_add bitset_container_create 5)) = 0 \<and>
   bitset_container_contains (fst (bitset_container_add bitset_container_create 5)) 5"
proof -
  have "bitset_inv (fst (bitset_container_add bitset_container_create 5))"
    and "bitset_abs (fst (bitset_container_add bitset_container_create 5)) = {5}"
    by (simp_all add: bc.add_correct bitset_create_correct)
  then show ?thesis using bitset_maximum_spec [of "fst (bitset_container_add bitset_container_create 5)"]
    by (simp add: bc.contains_abs)
qed

text \<open>Shifting a bitset container by an offset splits it into the values that stay below 2^16 and
  those that wrap around, and the halves that are returned are well formed.\<close>

theorem bitset_offset_spec:
  assumes "bitset_inv c" and "bitset_container_offset c True True d = (lo, hi)"
  shows "(case lo of None \<Rightarrow> \<forall>x \<in> bitset_abs c. 65536 \<le> unat x + unat d
        | Some l \<Rightarrow> bitset_inv l \<and> bitset_abs l = (\<lambda>x. x + d) ` {x \<in> bitset_abs c. unat x + unat d < 65536})
     \<and> (case hi of None \<Rightarrow> \<forall>x \<in> bitset_abs c. unat x + unat d < 65536
        | Some h \<Rightarrow> bitset_inv h \<and> bitset_abs h = (\<lambda>x. x + d) ` {x \<in> bitset_abs c. 65536 \<le> unat x + unat d})"
  using bitset_offset_correct [OF assms] by (auto simp: not_less not_le split: option.splits)

theorem bitset_offset_spec_witness:
  "case bitset_container_offset bitset_5_70 True True 65530 of
     (lo, hi) \<Rightarrow> (case hi of None \<Rightarrow> False | Some h \<Rightarrow> bitset_inv h)"
  using bitset_offset_spec [OF bitset_example(1), of 65530] unfolding bitset_example(4)
  by (cases "bitset_container_offset bitset_5_70 True True 65530") (auto split: option.splits)

text \<open>Writing the words of a bitset container in little-endian bytes and reading them back gives the
  same words; \<open>bitset_container_validate\<close> accepts exactly the well-formed containers of more than
  4096 values; \<open>bitset_container_number_of_runs\<close> counts the ends of the maximal runs.\<close>

theorem bitset_bytes_spec:
  assumes "bitset_wf b"
  shows "int (length (fst (bitset_container_write b))) = snd (bitset_container_write b)
     \<and> fst (bitset_container_read (bc_cardinality b) d (fst (bitset_container_write b) @ rest))
         = d\<lparr>bc_cardinality := bc_cardinality b, bc_words := bc_words b\<rparr>
     \<and> (bitset_container_validate b = None \<longleftrightarrow> bitset_inv b \<and> 4096 < card (bitset_abs b))
     \<and> bitset_container_number_of_runs b = card {n \<in> unat ` bitset_abs b. n + 1 \<notin> unat ` bitset_abs b}"
  using bitset_write_read [OF assms] bitset_validate_correct [OF assms] bitset_number_of_runs_correct [OF assms]
  by (simp add: ends_of_def)

theorem bitset_bytes_spec_witness:
  "bc_words (fst (bitset_container_read 2 bitset_container_create (fst (bitset_container_write bitset_5_70) @ [1])))
     = bc_words bitset_5_70 \<and> bitset_container_number_of_runs bitset_5_70 = 2"
proof -
  have "bc_cardinality bitset_5_70 = 2" using bc.cardinality_abs [OF bitset_example(1)] by (simp add: bitset_example(4))
  moreover have "{n. (n = 5 \<or> n = (70 :: nat)) \<and> n \<noteq> 4 \<and> n \<noteq> 69} = {5, 70}" by auto
  ultimately show ?thesis using bitset_bytes_spec [OF bitset_example(2), of bitset_container_create "[1]"]
    by (simp add: bitset_example(4))
qed

end
