(* ===== verification/Bitset_Runs.thy ===== *)
theory Bitset_Runs
  imports Bitset_Bytes Run_Bytes Array_Ranges
begin

text \<open>
  The loops that the mixed operations (\<open>src/containers/mixed_*.c\<close>, \<open>src/containers/convert.c\<close>)
  run over the words of a bitset container for each run of a run container or for the cells of an
  array container, and what they do to the set of bits. \<open>words_abs\<close> reads 1024 words as a set of
  16-bit values.
\<close>

section \<open>Words as sets of 16-bit values\<close>

definition words_abs :: "u64 list \<Rightarrow> u16 set" where
  "words_abs ws = {x. unat x \<in> bits_of ws}"

lemma words_abs_wf: "bitset_wf b \<Longrightarrow> words_abs (bc_words b) = bitset_abs b"
  by (auto simp: words_abs_def abs_of_bits)

lemma bitset_abs_words: "length ws = 1024 \<Longrightarrow> bitset_abs (b\<lparr>bc_words := ws\<rparr>) = words_abs ws"
  "length ws = 1024 \<Longrightarrow> bitset_abs (b\<lparr>bc_words := ws, bc_cardinality := n\<rparr>) = words_abs ws"
  "length ws = 1024 \<Longrightarrow> bitset_abs \<lparr>bc_cardinality = n, bc_words = ws\<rparr> = words_abs ws"
  by (subst words_abs_wf [symmetric]; simp add: bitset_wf_def)+

lemma bits_of_less: "length ws = 1024 \<Longrightarrow> n \<in> bits_of ws \<Longrightarrow> n < 65536"
  by (simp add: bits_of_def)

lemma bits_of_words_abs: "length ws = 1024 \<Longrightarrow> bits_of ws = unat ` words_abs ws"
  using bits_of_abs [of "\<lparr>bc_cardinality = 0, bc_words = ws\<rparr>"] bitset_abs_words(3) [of ws 0]
  by (simp add: bitset_wf_def)

lemma card_words_abs: "length ws = 1024 \<Longrightarrow> card (bits_of ws) = card (words_abs ws)"
  by (simp add: bits_of_words_abs card_image inj_unat_word)

lemma card_u16_le: "card (S :: u16 set) \<le> 65536"
  using card_mono [of UNIV S] by (simp add: card_word)

lemma words_abs_update:
  assumes "length ws = 1024" and "\<And>n. n < 65536 \<Longrightarrow> n \<in> bits_of ws' \<longleftrightarrow> f (n \<in> bits_of ws) (n \<in> N)"
  shows "words_abs ws' = {x. f (x \<in> words_abs ws) (unat x \<in> N)}"
  using assms by (auto simp: words_abs_def)

section \<open>Ranges given by runs\<close>

text \<open>\<open>bitset_set_lenrange(words, rle.value, rle.length)\<close> for each run.\<close>

definition set_lenranges :: "rle16 list \<Rightarrow> u64 list \<Rightarrow> u64 list" where
  "set_lenranges rs words = fold (\<lambda>r words. bitset_set_lenrange words (ucast (rl_value r)) (ucast (rl_length r))) rs words"

text \<open>The end \<open>rle.value + rle.length + UINT32_C(1)\<close> of a run.\<close>

definition run_stop :: "rle16 \<Rightarrow> u32" where
  "run_stop r = ucast (rl_value r) + ucast (rl_length r) + 1"

definition set_runs_range :: "rle16 list \<Rightarrow> u64 list \<Rightarrow> u64 list" where
  "set_runs_range rs words = fold (\<lambda>r words. bitset_set_range words (ucast (rl_value r)) (run_stop r)) rs words"

definition flip_runs_range :: "rle16 list \<Rightarrow> u64 list \<Rightarrow> u64 list" where
  "flip_runs_range rs words = fold (\<lambda>r words. bitset_flip_range words (ucast (rl_value r)) (run_stop r)) rs words"

definition reset_runs_range :: "rle16 list \<Rightarrow> u64 list \<Rightarrow> u64 list" where
  "reset_runs_range rs words = fold (\<lambda>r words. bitset_reset_range words (ucast (rl_value r)) (run_stop r)) rs words"

lemma run_stop_unat: "unat (run_stop r) = rend r + 1"
proof -
  have "unat (rl_value r) + unat (rl_length r) + 1 < 4294967296"
    using unat_u16_less [of "rl_value r"] unat_u16_less [of "rl_length r"] by linarith
  then show ?thesis by (simp add: run_stop_def unat_u32_add rend_def)
qed

lemma bits_of_lenrange:
  assumes "length ws = 1024" and "unat s + unat l < 65536"
  shows "bits_of (bitset_set_lenrange ws s l) = bits_of ws \<union> {unat s .. unat s + unat l}"
    and "length (bitset_set_lenrange ws s l) = 1024"
  using assms wbit_set_lenrange [of s l ws] wbit_set_lenrange(2) [of s l ws 0] by (auto simp: bits_of_def)

lemma bits_of_ranges:
  assumes "length ws = 1024" and "unat s \<le> unat e" and "unat e \<le> 65536"
  shows "bits_of (bitset_set_range ws s e) = bits_of ws \<union> {unat s ..< unat e}"
    and "bits_of (bitset_reset_range ws s e) = bits_of ws - {unat s ..< unat e}"
    and "bits_of (bitset_flip_range ws s e) = sym_diff (bits_of ws) {unat s ..< unat e}"
proof -
  have len: "length (bitset_set_range ws s e) = 1024" "length (bitset_reset_range ws s e) = 1024"
    "length (bitset_flip_range ws s e) = 1024" using assms(1) by simp_all
  have "s = e \<or> unat s < unat e" using assms(2) by (metis le_neq_implies_less word_unat_eq_iff)
  then have *: "bits_of (bitset_set_range ws s e) = bits_of ws \<union> {unat s ..< unat e}
     \<and> bits_of (bitset_reset_range ws s e) = bits_of ws - {unat s ..< unat e}
     \<and> bits_of (bitset_flip_range ws s e) = sym_diff (bits_of ws) {unat s ..< unat e}"
  proof
    assume "s = e"
    then show ?thesis by (simp add: bitset_set_range_def bitset_reset_range_def bitset_flip_range_def)
  next
    assume lt: "unat s < unat e"
    have le: "unat e \<le> 64 * length ws" using assms(1,3) by simp
    show ?thesis unfolding bits_of_def len assms(1)
      using wbit_set_range [OF lt le] wbit_reset_range [OF lt le] wbit_flip_range [OF lt le] assms(1,3) by auto
  qed
  then show "bits_of (bitset_set_range ws s e) = bits_of ws \<union> {unat s ..< unat e}"
    "bits_of (bitset_reset_range ws s e) = bits_of ws - {unat s ..< unat e}"
    "bits_of (bitset_flip_range ws s e) = sym_diff (bits_of ws) {unat s ..< unat e}" by simp_all
qed

lemma runs_fold:
  assumes step: "\<And>r ws. r \<in> set rs \<Longrightarrow> length ws = 1024 \<Longrightarrow> length (f r ws) = 1024 \<and> bits_of (f r ws) = g r (bits_of ws)"
    and len: "length ws = 1024"
  shows "length (fold f rs ws) = 1024 \<and> bits_of (fold f rs ws) = fold g rs (bits_of ws)"
  using assms by (induction rs arbitrary: ws) simp_all

lemma runs_fold_sets:
  "fold (\<lambda>r S. S \<union> {rstart r ..< Suc (rend r)}) rs S = S \<union> {n. covers rs n}"
  "fold (\<lambda>r S. S - {rstart r ..< Suc (rend r)}) rs S = S - {n. covers rs n}"
  "runs_ok rs \<Longrightarrow> fold (\<lambda>r S. sym_diff S {rstart r ..< Suc (rend r)}) rs S = sym_diff S {n. covers rs n}"
proof (induction rs arbitrary: S)
  case (Cons r rs)
  { case 1 show ?case using Cons.IH(1) by (auto simp: in_run_def) }
  { case 2 show ?case using Cons.IH(2) by (auto simp: in_run_def) }
  { case 3
    have ok: "runs_ok rs" using 3 by (simp add: runs_ok_Cons)
    have "n \<notin> {rstart r ..< Suc (rend r)}" if "covers rs n" for n using covers_tail [OF 3 that] by simp
    then show ?case using Cons.IH(3) [OF ok] by (auto simp: in_run_def) }
qed (simp_all add: covers_def [abs_def])

lemma runs_range_correct:
  assumes ok: "runs_ok rs" and len: "length ws = 1024"
  shows "length (set_lenranges rs ws) = 1024" "bits_of (set_lenranges rs ws) = bits_of ws \<union> {n. covers rs n}"
    and "length (set_runs_range rs ws) = 1024" "bits_of (set_runs_range rs ws) = bits_of ws \<union> {n. covers rs n}"
    and "length (flip_runs_range rs ws) = 1024" "bits_of (flip_runs_range rs ws) = sym_diff (bits_of ws) {n. covers rs n}"
    and "length (reset_runs_range rs ws) = 1024" "bits_of (reset_runs_range rs ws) = bits_of ws - {n. covers rs n}"
proof -
  have lim: "rend r < 65536" "rstart r \<le> rend r + 1" if "r \<in> set rs" for r
    using run_ends [OF ok that] rstart_le_rend [of r] by simp_all
  have eq: "{unat (rl_value r) .. unat (rl_value r) + unat (rl_length r)} = {rstart r ..< Suc (rend r)}" for r
    by (auto simp: rstart_def rend_def)
  have start: "unat (rl_value r) = rstart r" for r by (simp add: rstart_def)
  have A: "length (set_lenranges rs ws) = 1024 \<and> bits_of (set_lenranges rs ws) = fold (\<lambda>r S. S \<union> {rstart r ..< Suc (rend r)}) rs (bits_of ws)"
    unfolding set_lenranges_def
    by (rule runs_fold [OF _ len]) (use lim in \<open>simp add: bits_of_lenrange eq rend_def\<close>)
  then show "length (set_lenranges rs ws) = 1024" "bits_of (set_lenranges rs ws) = bits_of ws \<union> {n. covers rs n}"
    by (simp_all add: runs_fold_sets)
  have A: "length (set_runs_range rs ws) = 1024 \<and> bits_of (set_runs_range rs ws) = fold (\<lambda>r S. S \<union> {rstart r ..< Suc (rend r)}) rs (bits_of ws)"
    unfolding set_runs_range_def
    by (rule runs_fold [OF _ len]) (use lim in \<open>simp add: bits_of_ranges start run_stop_unat Suc_le_eq\<close>)
  then show "length (set_runs_range rs ws) = 1024" "bits_of (set_runs_range rs ws) = bits_of ws \<union> {n. covers rs n}"
    by (simp_all add: runs_fold_sets)
  have A: "length (flip_runs_range rs ws) = 1024 \<and> bits_of (flip_runs_range rs ws) = fold (\<lambda>r S. sym_diff S {rstart r ..< Suc (rend r)}) rs (bits_of ws)"
    unfolding flip_runs_range_def
    by (rule runs_fold [OF _ len]) (use lim in \<open>simp add: bits_of_ranges start run_stop_unat Suc_le_eq\<close>)
  then show "length (flip_runs_range rs ws) = 1024" "bits_of (flip_runs_range rs ws) = sym_diff (bits_of ws) {n. covers rs n}"
    by (simp_all add: runs_fold_sets(3) [OF ok])
  have A: "length (reset_runs_range rs ws) = 1024 \<and> bits_of (reset_runs_range rs ws) = fold (\<lambda>r S. S - {rstart r ..< Suc (rend r)}) rs (bits_of ws)"
    unfolding reset_runs_range_def
    by (rule runs_fold [OF _ len]) (use lim in \<open>simp add: bits_of_ranges start run_stop_unat Suc_le_eq\<close>)
  then show "length (reset_runs_range rs ws) = 1024" "bits_of (reset_runs_range rs ws) = bits_of ws - {n. covers rs n}"
    by (simp_all add: runs_fold_sets)
qed

lemma runs_range_abs:
  assumes ok: "runs_ok rs" and len: "length ws = 1024"
  shows "words_abs (set_lenranges rs ws) = words_abs ws \<union> {x. covers rs (unat x)}"
    and "words_abs (set_runs_range rs ws) = words_abs ws \<union> {x. covers rs (unat x)}"
    and "words_abs (flip_runs_range rs ws) = sym_diff (words_abs ws) {x. covers rs (unat x)}"
    and "words_abs (reset_runs_range rs ws) = words_abs ws - {x. covers rs (unat x)}"
  using runs_range_correct [OF ok len] by (auto simp: words_abs_def)

section \<open>Cells of an array\<close>

text \<open>The cardinality that comes back from the list routines, \<open>uint64_t\<close> read as \<open>int32_t\<close>.\<close>

definition int32_of :: "u64 \<Rightarrow> int" where
  "int32_of n = sint (ucast n :: u32)"

lemma int32_of_nat: "n < 2147483648 \<Longrightarrow> int32_of (word_of_nat n) = int n"
proof -
  assume n: "n < 2147483648"
  have "(ucast (word_of_nat n :: u64) :: u32) = word_of_nat n" using n by (simp add: word_unat_eq_iff unsigned_ucast_eq take_bit_eq_mod)
  then show ?thesis using n by (simp add: int32_of_def sint_u32_small)
qed

lemma listed_count:
  assumes "keeps_count (ws, word_of_int m) wn B" and "length ws = 1024" and "m = int (card (bits_of ws))"
  shows "length (fst wn) = 1024" and "bits_of (fst wn) = B" and "int32_of (snd wn) = int (card B)"
    and "B = unat ` S \<Longrightarrow> words_abs (fst wn) = S \<and> int32_of (snd wn) = int (card S)"
proof -
  obtain ws' n' where wn: "wn = (ws', n')" by (cases wn)
  have l: "length ws' = 1024" and b: "bits_of ws' = B" and n: "n' - word_of_nat (card (bits_of ws')) = (0 :: u64)"
    using assms by (auto simp: wn keeps_count_def count_of_def)
  have n': "n' = word_of_nat (card B)" using n b by simp
  have c: "card B \<le> 65536" using b card_words_abs [OF l] card_u16_le [of "words_abs ws'"] by simp
  show "length (fst wn) = 1024" "bits_of (fst wn) = B" using l b by (simp_all add: wn)
  show i: "int32_of (snd wn) = int (card B)" using c by (simp add: wn n' int32_of_nat)
  assume B: "B = unat ` S"
  have "words_abs ws' = S"
    by (auto simp: words_abs_def b B inj_image_mem_iff [OF inj_unat_u16])
  then show "words_abs (fst wn) = S \<and> int32_of (snd wn) = int (card S)"
    using i by (simp add: wn B card_image inj_unat_word)
qed

end
