(* ===== verification/Convert.thy ===== *)
theory Convert
  imports Bitset_Runs
begin

text \<open>
  The conversions between container types of \<open>src/containers/convert.c\<close>. A container with its
  type code is a value of \<open>container_t\<close>; a function that returns a container and writes
  \<open>*typecode_after\<close> returns such a value. Freeing the container that is replaced has no
  counterpart. \<open>container_inv\<close> is the canonical form the library keeps its containers in: an
  array holds at most 4096 values, a bitset more.
\<close>

unbundle bit_operations_syntax

datatype container_t =
    Bitset_c bitset_container
  | Array_c array_container
  | Run_c run_container

fun container_abs :: "container_t \<Rightarrow> u16 set" where
  "container_abs (Bitset_c b) = bitset_abs b"
| "container_abs (Array_c a) = array_abs a"
| "container_abs (Run_c r) = run_abs r"

fun container_inv :: "container_t \<Rightarrow> bool" where
  "container_inv (Bitset_c b) \<longleftrightarrow> bitset_inv b \<and> 4096 < bc_cardinality b"
| "container_inv (Array_c a) \<longleftrightarrow> array_inv a \<and> ac_cardinality a \<le> 4096"
| "container_inv (Run_c r) \<longleftrightarrow> run_inv r"

text \<open>What the lazy operations leave: any size, and a bitset whose cardinality may be unknown.\<close>

fun container_lazy_inv :: "container_t \<Rightarrow> bool" where
  "container_lazy_inv (Bitset_c b) \<longleftrightarrow> bitset_lazy_inv b"
| "container_lazy_inv (Array_c a) \<longleftrightarrow> array_inv a"
| "container_lazy_inv (Run_c r) \<longleftrightarrow> run_inv r"

section \<open>Definitions\<close>

definition bitset_container_from_array :: "array_container \<Rightarrow> bitset_container" where
  "bitset_container_from_array ac =
     (let limit = ac_len ac
      in fold (\<lambda>x ans. bitset_container_set ans x) (take limit (ac_array ac)) bitset_container_create)"

definition bitset_container_from_run :: "run_container \<Rightarrow> bitset_container" where
  "bitset_container_from_run arr =
     (let card = run_container_cardinality arr;
          answer = bitset_container_create;
          answer = answer\<lparr>bc_words := set_lenranges (rc_runs arr) (bc_words answer)\<rparr>
      in answer\<lparr>bc_cardinality := card\<rparr>)"

text \<open>The cells that \<open>for (int run_value = run_start; run_value <= run_end; ++run_value)\<close> writes.\<close>

definition run_cells :: "rle16 list \<Rightarrow> u16 list" where
  "run_cells rs = concat (map (\<lambda>r. map (\<lambda>run_value. word_of_nat run_value) [rstart r ..< Suc (rend r)]) rs)"

definition array_container_from_run :: "run_container \<Rightarrow> array_container" where
  "array_container_from_run arr =
     (let answer = array_container_create_given_capacity (run_container_cardinality arr);
          cells = run_cells (rc_runs arr)
      in answer\<lparr>ac_array := cells, ac_cardinality := int (length cells)\<rparr>)"

definition array_container_from_bitset :: "bitset_container \<Rightarrow> array_container" where
  "array_container_from_bitset bits =
     (let result = array_container_create_given_capacity (bc_cardinality bits)
      in result\<lparr>ac_cardinality := bc_cardinality bits, ac_array := bitset_extract_setbits_uint16 (bc_words bits) 0\<rparr>)"

text \<open>
  The conversion that ends most of the mixed operations: a bitset whose values fit an array is
  replaced by one.
\<close>

definition bitset_or_array :: "bitset_container \<Rightarrow> container_t" where
  "bitset_or_array b =
     (if bc_cardinality b \<le> DEFAULT_MAX_SIZE then Array_c (array_container_from_bitset b) else Bitset_c b)"

definition add_run :: "run_container \<Rightarrow> int \<Rightarrow> int \<Rightarrow> run_container" where
  "add_run rc s e = push_run rc \<lparr>rl_value = of_int s, rl_length = of_int (e - s)\<rparr>"

fun array_to_runs_loop :: "u16 list \<Rightarrow> int \<Rightarrow> int \<Rightarrow> run_container \<Rightarrow> run_container" where
  "array_to_runs_loop [] prev run_start answer = add_run answer run_start prev"
| "array_to_runs_loop (cur_val # cells) prev run_start answer =
     (if uint cur_val \<noteq> prev + 1
      then array_to_runs_loop cells (uint cur_val) (uint cur_val)
             (if run_start \<noteq> - 1 then add_run answer run_start prev else answer)
      else array_to_runs_loop cells (uint cur_val) run_start answer)"

definition run_container_from_array :: "array_container \<Rightarrow> run_container" where
  "run_container_from_array c =
     (let n_runs = array_container_number_of_runs c;
          answer = run_container_create_given_capacity n_runs;
          card = ac_cardinality c
      in if card = 0 then answer
         else array_to_runs_loop (take (nat card) (ac_array c)) (- 2) (- 1) answer)"

text \<open>
  The loop with a \<open>uint16_t\<close> counter stops before \<open>run_end\<close>, which is written after it, so that
  a run up to 65535 ends the loop.
\<close>

definition run_cells_u16 :: "rle16 list \<Rightarrow> u16 list" where
  "run_cells_u16 rs = concat (map (\<lambda>r. let run_end = rl_value r + rl_length r
     in map (\<lambda>run_value. word_of_nat run_value) [unat (rl_value r) ..< unat run_end] @ [run_end]) rs)"

definition convert_to_bitset_or_array_container :: "run_container \<Rightarrow> int \<Rightarrow> container_t" where
  "convert_to_bitset_or_array_container rc cardinality =
     (if cardinality \<le> DEFAULT_MAX_SIZE
      then let answer = array_container_create_given_capacity cardinality;
               cells = run_cells_u16 (rc_runs rc)
           in Array_c (answer\<lparr>ac_array := cells, ac_cardinality := int (length cells)\<rparr>)
      else let answer = bitset_container_create;
               answer = answer\<lparr>bc_words := set_lenranges (rc_runs rc) (bc_words answer)\<rparr>
           in Bitset_c (answer\<lparr>bc_cardinality := cardinality\<rparr>))"

definition bitset_container_serialized_size_in_bytes :: int where
  "bitset_container_serialized_size_in_bytes = 8192"

definition convert_run_to_efficient_container :: "run_container \<Rightarrow> container_t" where
  "convert_run_to_efficient_container c =
     (let size_as_run_container = run_container_serialized_size_in_bytes (rc_n_runs c);
          size_as_bitset_container = bitset_container_serialized_size_in_bytes;
          card = run_container_cardinality c;
          size_as_array_container = array_container_serialized_size_in_bytes card;
          min_size_non_run = (if size_as_bitset_container < size_as_array_container
                              then size_as_bitset_container else size_as_array_container)
      in if size_as_run_container \<le> min_size_non_run then Run_c c
         else if card \<le> DEFAULT_MAX_SIZE
         then let answer = array_container_create_given_capacity card;
                  cells = run_cells (rc_runs c)
              in Array_c (answer\<lparr>ac_array := cells, ac_cardinality := int (length cells)\<rparr>)
         else let answer = bitset_container_create;
                  answer = answer\<lparr>bc_words := set_runs_range (rc_runs c) (bc_words answer)\<rparr>
              in Bitset_c (answer\<lparr>bc_cardinality := card\<rparr>))"

definition convert_run_to_efficient_container_and_free :: "run_container \<Rightarrow> container_t" where
  "convert_run_to_efficient_container_and_free c = convert_run_to_efficient_container c"

text \<open>
  The scan of the words of a bitset: \<open>skip_words stop\<close> is
  \<open>while (cur == stop && long_ctr < BITSET_CONTAINER_SIZE_IN_WORDS - 1) cur = words[++long_ctr]\<close>
  on the current word, the words after it and \<open>long_ctr\<close>.
\<close>

fun skip_words :: "u64 \<Rightarrow> u64 \<Rightarrow> u64 list \<Rightarrow> nat \<Rightarrow> u64 \<times> u64 list \<times> nat" where
  "skip_words stop cur [] long_ctr = (cur, [], long_ctr)"
| "skip_words stop cur (w # rest) long_ctr =
     (if cur = stop then skip_words stop w rest (long_ctr + 1) else (cur, w # rest, long_ctr))"

lemma skip_words_length: "skip_words stop cur rest n = (cur', rest', n') \<Longrightarrow> length rest' \<le> length rest"
  by (induction stop cur rest n rule: skip_words.induct) (auto split: if_splits)

lemma skip_words_same: "skip_words stop cur rest n = (cur', rest', n') \<Longrightarrow> length rest' = length rest \<Longrightarrow> cur' = cur"
  by (induction stop cur rest n rule: skip_words.induct) (auto split: if_splits dest: skip_words_length)

lemma bit_with_ones:
  "cur \<noteq> 0 \<Longrightarrow> bit (cur OR (cur - 1) :: u64) n \<longleftrightarrow> bit cur n \<or> n < roaring_trailing_zeroes cur"
  by (auto simp: bit_or_iff bit_pred)

lemma bit_after_ones:
  fixes w :: u64
  assumes "w \<noteq> - 1" and "n < 64"
  shows "bit (w AND (w + 1)) n \<longleftrightarrow> bit w n \<and> roaring_trailing_zeroes (NOT w) < n"
proof -
  let ?e = "roaring_trailing_zeroes (NOT w)"
  have nz: "NOT w \<noteq> 0" using assms(1) by (metis bit.compl_zero bit.double_compl)
  have "w + 1 = NOT (NOT w - 1)" by (simp add: not_eq_complement)
  then have "bit (w + 1) n \<longleftrightarrow> \<not> bit (NOT w - 1) n" using assms(2) by (simp add: bit_not_64)
  also have "\<dots> \<longleftrightarrow> ?e \<le> n \<and> (bit w n \<or> n = ?e)"
    using bit_pred [OF nz, of n] assms(2) by (auto simp: bit_not_64)
  finally have "bit (w AND (w + 1)) n \<longleftrightarrow> bit w n \<and> ?e \<le> n" by (auto simp: bit_and_iff)
  moreover have "\<not> bit w ?e" using trailing_zeroes_bits(1,2) [OF nz] by (simp add: bit_not_64)
  ultimately show ?thesis by (metis le_neq_implies_less less_imp_le)
qed

lemma hamming_after_run:
  fixes cur :: u64
  assumes cur: "cur \<noteq> 0" and w: "w = cur OR (cur - 1)" and ones: "w \<noteq> - 1"
  shows "roaring_hamming (w AND (w + 1)) < roaring_hamming cur"
proof -
  let ?t = "roaring_trailing_zeroes cur" and ?e = "roaring_trailing_zeroes (NOT w)"
  have nz: "NOT w \<noteq> 0" using ones by (metis bit.compl_zero bit.double_compl)
  have "\<not> bit w ?e" using trailing_zeroes_bits(1,2) [OF nz] by (simp add: bit_not_64)
  then have te: "?t \<le> ?e" using bit_with_ones [OF cur] w by (meson not_le)
  have "{n. bit (w AND (w + 1)) n} \<subseteq> {n. bit cur n} - {?t}"
  proof
    fix n assume n: "n \<in> {n. bit (w AND (w + 1)) n}"
    then have "n < 64" by (auto dest: bit_u64_bound)
    then show "n \<in> {n. bit cur n} - {?t}"
      using n te bit_after_ones [OF ones, of n] bit_with_ones [OF cur, of n] w by auto
  qed
  moreover have "?t \<in> {n. bit cur n}" using trailing_zeroes_bits(2) [OF cur] by simp
  ultimately have "{n. bit (w AND (w + 1)) n} \<subset> {n. bit cur n}" by blast
  moreover have "finite {n. bit cur n}"
    by (rule finite_subset [of _ "{..< 64}"]) (auto dest: bit_u64_bound)
  ultimately show ?thesis by (simp add: roaring_hamming_card psubset_card_mono)
qed

lemma next_run_smaller:
  assumes s1: "skip_words 0 cur0 rest0 n0 = (cur1, rest1, n1)" and nz: "cur1 \<noteq> 0"
    and s2: "skip_words (- 1) (cur1 OR (cur1 - 1)) rest1 n1 = (w1, rest2, n2)" and ones: "w1 \<noteq> - 1"
  shows "length rest2 < length rest0 \<or>
     length rest2 = length rest0 \<and> roaring_hamming (w1 AND (w1 + 1)) < roaring_hamming cur0"
proof (cases "length rest2 < length rest0")
  case False
  then have l: "length rest1 = length rest0" "length rest2 = length rest1"
    using skip_words_length [OF s1] skip_words_length [OF s2] by simp_all
  have "cur1 = cur0" and "w1 = cur1 OR (cur1 - 1)"
    using skip_words_same [OF s1 l(1)] skip_words_same [OF s2 l(2)] by simp_all
  then show ?thesis using nz ones l hamming_after_run [of cur1 w1] by simp
qed simp

text \<open>The scan \<open>while (true)\<close>: a run starts at the lowest bit of the current word and ends at the
  first zero bit above it.\<close>

function bitset_to_runs_loop :: "u64 \<Rightarrow> u64 list \<Rightarrow> nat \<Rightarrow> run_container \<Rightarrow> run_container" where
  "bitset_to_runs_loop cur_word rest long_ctr answer =
     (case skip_words 0 cur_word rest long_ctr of (cur_word, rest, long_ctr) \<Rightarrow>
        if cur_word = 0 then answer
        else let local_run_start = roaring_trailing_zeroes cur_word;
                 run_start = int (local_run_start + 64 * long_ctr);
                 cur_word_with_1s = cur_word OR (cur_word - 1)
             in case skip_words (- 1) cur_word_with_1s rest long_ctr of (cur_word_with_1s, rest, long_ctr) \<Rightarrow>
                if cur_word_with_1s = - 1
                then add_run answer run_start (int (64 + long_ctr * 64) - 1)
                else let local_run_end = roaring_trailing_zeroes (NOT cur_word_with_1s);
                         run_end = int (local_run_end + long_ctr * 64)
                     in bitset_to_runs_loop (cur_word_with_1s AND (cur_word_with_1s + 1)) rest long_ctr
                          (add_run answer run_start (run_end - 1)))"
  by pat_completeness auto
termination
  by (relation "measures [\<lambda>(cur, rest, n, c). length rest, \<lambda>(cur, rest, n, c). roaring_hamming cur]")
    (auto dest: next_run_smaller [OF sym _ sym])

declare bitset_to_runs_loop.simps [simp del]

fun convert_run_optimize :: "container_t \<Rightarrow> container_t" where
  "convert_run_optimize (Run_c c) = convert_run_to_efficient_container c"
| "convert_run_optimize (Array_c c_qua_array) =
     (let n_runs = array_container_number_of_runs c_qua_array;
          size_as_run_container = run_container_serialized_size_in_bytes n_runs;
          card = ac_cardinality c_qua_array;
          size_as_array_container = array_container_serialized_size_in_bytes card
      in if size_as_run_container \<ge> size_as_array_container then Array_c c_qua_array
         else Run_c (array_to_runs_loop (take (nat card) (ac_array c_qua_array)) (- 2) (- 1)
                (run_container_create_given_capacity n_runs)))"
| "convert_run_optimize (Bitset_c c_qua_bitset) =
     (let n_runs = int (bitset_container_number_of_runs c_qua_bitset);
          size_as_run_container = run_container_serialized_size_in_bytes n_runs;
          size_as_bitset_container = bitset_container_serialized_size_in_bytes
      in if size_as_bitset_container \<le> size_as_run_container then Bitset_c c_qua_bitset
         else Run_c (bitset_to_runs_loop (bc_words c_qua_bitset ! 0) (drop 1 (bc_words c_qua_bitset)) 0
                (run_container_create_given_capacity n_runs)))"

text \<open>The \<open>uint32_t\<close> difference \<open>max - min + 1\<close> is added to an \<open>int32_t\<close>.\<close>

definition container_from_run_range :: "run_container \<Rightarrow> u32 \<Rightarrow> u32 \<Rightarrow> container_t" where
  "container_from_run_range run lo hi =
     (let words = set_lenranges (rc_runs run) (bc_words bitset_container_create);
          union_cardinality = fold (\<lambda>r acc. acc + (uint (rl_length r) + 1)) (rc_runs run) 0;
          union_cardinality = union_cardinality + uint (hi - lo + 1);
          union_cardinality = union_cardinality - int (bitset_lenrange_cardinality words lo (hi - lo));
          bitset = bitset_container_create
            \<lparr>bc_words := bitset_set_lenrange words lo (hi - lo), bc_cardinality := union_cardinality\<rparr>
      in if bc_cardinality bitset \<le> DEFAULT_MAX_SIZE then Array_c (array_container_from_bitset bitset)
         else Bitset_c bitset)"

end
