(* ===== verification/Convert_Correct.thy ===== *)
theory Convert_Correct
  imports Convert
begin

text \<open>
  The conversions of \<open>convert.c\<close> keep the set of values and give well-formed containers; the
  number of runs that is counted first is exactly the number of runs that is then written.
\<close>

section \<open>To arrays and bitsets\<close>

lemma run_cells_list: "run_cells rs = map word_of_nat (run_list rs)"
  by (induction rs) (simp_all add: run_cells_def del: upt_Suc)

lemma run_cells_sorted:
  assumes "run_inv c"
  shows "run_cells (rc_runs c) = sorted_list_of_set (run_abs c)"
  using run_list_abs(2) [OF assms] by (simp add: run_cells_list)

lemma run_cells_u16_eq: "runs_ok rs \<Longrightarrow> run_cells_u16 rs = run_cells rs"
proof (induction rs)
  case (Cons r rs)
  have e: "unat (rl_value r + rl_length r) = rend r" using Cons.prems by (simp add: runs_ok_Cons run_max_word)
  then have w: "rl_value r + rl_length r = word_of_nat (rend r)" by (rule u16_eq_of_nat)
  have "rstart r \<le> rend r" by (simp add: rstart_le_rend)
  then show ?case using Cons unfolding run_cells_u16_def run_cells_def
    by (simp add: runs_ok_Cons Let_def w [symmetric] e rstart_def [symmetric])
qed (simp add: run_cells_u16_def run_cells_def)

lemma ssorted_sorted_list: "finite S \<Longrightarrow> ssorted (sorted_list_of_set (S :: u16 set))"
  by simp

lemma sorted_cells_container:
  assumes "cells = sorted_list_of_set S" and "m = int (card (S :: u16 set))"
  shows "array_inv \<lparr>ac_cardinality = m, ac_capacity = m, ac_array = cells\<rparr>"
    and "array_abs \<lparr>ac_cardinality = m, ac_capacity = m, ac_array = cells\<rparr> = S"
  using assms by (simp_all add: array_inv_def array_abs_def)

lemma extract_sorted:
  assumes "length ws = 1024"
  shows "bitset_extract_setbits_uint16 ws 0 = sorted_list_of_set (words_abs ws)"
proof -
  let ?xs = "bitset_extract_setbits_uint16 ws 0"
  have xs: "?xs = map word_of_nat (positions ws)" by (simp add: extract_setbits_uint16_positions)
  have lt: "n < 65536" if "n \<in> set (positions ws)" for n
    using that assms by (auto simp: set_positions bits_of_def)
  have "ssorted ?xs" unfolding xs sorted_wrt_map
    by (rule sorted_wrt_mono_rel [OF _ positions_ssorted]) (use lt in \<open>simp add: word_less_nat_alt\<close>)
  moreover have "set ?xs = words_abs ws"
  proof (intro set_eqI iffI)
    fix x assume "x \<in> words_abs ws"
    then have "unat x \<in> set (positions ws)" by (simp add: words_abs_def set_positions)
    then have "word_of_nat (unat x) \<in> set ?xs" unfolding xs set_map by (rule imageI)
    then show "x \<in> set ?xs" by simp
  qed (use lt in \<open>auto simp: xs words_abs_def set_positions\<close>)
  ultimately show ?thesis by (simp add: strict_sorted_equal)
qed

lemma array_from_bitset_correct:
  assumes "bitset_inv b"
  shows "array_inv (array_container_from_bitset b) \<and> array_abs (array_container_from_bitset b) = bitset_abs b
     \<and> ac_cardinality (array_container_from_bitset b) = bc_cardinality b"
proof -
  have wf: "bitset_wf b" using assms by (rule bitset_inv_wf)
  then have "bitset_extract_setbits_uint16 (bc_words b) 0 = sorted_list_of_set (bitset_abs b)"
    using extract_sorted [of "bc_words b"] words_abs_wf [OF wf] by (simp add: bitset_wf_def)
  then show ?thesis using sorted_cells_container [of _ "bitset_abs b"] bitset_inv_card [OF assms]
    by (simp add: array_container_from_bitset_def array_container_create_given_capacity_def)
qed

lemma bitset_or_array_correct:
  assumes "bitset_inv b"
  shows "container_inv (bitset_or_array b)" and "container_abs (bitset_or_array b) = bitset_abs b"
  using assms array_from_bitset_correct [OF assms] by (simp_all add: bitset_or_array_def)

lemma bitset_from_array_correct:
  assumes "array_inv a"
  shows "bitset_inv (bitset_container_from_array a)" and "bitset_abs (bitset_container_from_array a) = array_abs a"
proof -
  have "bitset_container_from_array a = fold (\<lambda>x c. fst (bitset_container_add c x)) (ac_array a) bitset_container_create"
    using assms by (simp add: bitset_container_from_array_def bitset_set_eq_add array_simps)
  then show "bitset_inv (bitset_container_from_array a)" "bitset_abs (bitset_container_from_array a) = array_abs a"
    using bc.add_many [OF bitset_create_correct(1), of "ac_array a"] bitset_create_correct(2) by (simp_all add: array_abs_def)
qed

lemma run_words_bitset:
  assumes "run_inv c" and "words_abs ws = {x. covers (rc_runs c) (unat x)}" and "length ws = 1024"
    and "n = run_container_cardinality c"
  shows "bitset_inv (b\<lparr>bc_words := ws, bc_cardinality := n\<rparr>)"
    and "bitset_abs (b\<lparr>bc_words := ws, bc_cardinality := n\<rparr>) = run_abs c"
  using assms by (simp_all add: bitset_inv_def bitset_wf_def bitset_abs_words run_abs_def rc.cardinality_abs)

lemma create_words: "length (bc_words bitset_container_create) = 1024" "words_abs (bc_words bitset_container_create) = {}"
  using bitset_create_correct words_abs_wf [OF bitset_inv_wf, OF bitset_create_correct(1)] bitset_inv_wf [OF bitset_create_correct(1)]
  by (simp_all add: bitset_wf_def)

lemma runs_words_create:
  assumes "runs_ok rs"
  shows "words_abs (set_lenranges rs (bc_words bitset_container_create)) = {x. covers rs (unat x)}"
    and "words_abs (set_runs_range rs (bc_words bitset_container_create)) = {x. covers rs (unat x)}"
  using runs_range_abs [OF assms create_words(1)] create_words(2) by simp_all

lemma bitset_from_run_correct:
  assumes "run_inv c"
  shows "bitset_inv (bitset_container_from_run c)" and "bitset_abs (bitset_container_from_run c) = run_abs c"
  using run_words_bitset [OF assms runs_words_create(1) runs_range_correct(1)] assms create_words(1)
  by (simp_all add: bitset_container_from_run_def Let_def run_simps)

lemma run_cells_container:
  assumes "run_inv c" and "n = run_container_cardinality c"
  shows "array_inv ((array_container_create_given_capacity n)
      \<lparr>ac_array := run_cells (rc_runs c), ac_cardinality := int (length (run_cells (rc_runs c)))\<rparr>)"
    and "array_abs ((array_container_create_given_capacity n)
      \<lparr>ac_array := run_cells (rc_runs c), ac_cardinality := int (length (run_cells (rc_runs c)))\<rparr>) = run_abs c"
    and "int (length (run_cells (rc_runs c))) = n"
  using sorted_cells_container [of "run_cells (rc_runs c)" "run_abs c"] run_cells_sorted [OF assms(1)] assms
  by (simp_all add: array_container_create_given_capacity_def rc.cardinality_abs)

lemma array_from_run_correct:
  assumes "run_inv c"
  shows "array_inv (array_container_from_run c)" and "array_abs (array_container_from_run c) = run_abs c"
    and "ac_cardinality (array_container_from_run c) = run_container_cardinality c"
  using run_cells_container [OF assms refl] by (simp_all add: array_container_from_run_def Let_def)

lemma convert_to_bitset_or_array_correct:
  assumes "run_inv c" and "n = run_container_cardinality c"
  shows "container_inv (convert_to_bitset_or_array_container c n)"
    and "container_abs (convert_to_bitset_or_array_container c n) = run_abs c"
  using run_cells_container [OF assms] run_words_bitset [OF assms(1) runs_words_create(1) runs_range_correct(1) assms(2)]
    assms create_words(1)
  by (simp_all add: convert_to_bitset_or_array_container_def Let_def run_simps run_cells_u16_eq)

lemma convert_run_to_efficient_correct:
  assumes "run_inv c"
  shows "container_inv (convert_run_to_efficient_container c)"
    and "container_abs (convert_run_to_efficient_container c) = run_abs c"
  using run_cells_container [OF assms refl] run_words_bitset [OF assms runs_words_create(2) runs_range_correct(3) refl]
    assms create_words(1)
  by (simp_all add: convert_run_to_efficient_container_def Let_def run_simps)

lemma convert_run_and_free_correct:
  assumes "run_inv c"
  shows "container_inv (convert_run_to_efficient_container_and_free c)"
    and "container_abs (convert_run_to_efficient_container_and_free c) = run_abs c"
  using convert_run_to_efficient_correct [OF assms] by (simp_all add: convert_run_to_efficient_container_and_free_def)

section \<open>To run containers\<close>

text \<open>The first and the last values of the maximal runs of a set are as many as the runs.\<close>

lemma run_starts_runs:
  assumes "runs_ok (rc_runs c)"
  shows "card (run_starts (run_abs c)) = length (rc_runs c)"
proof -
  let ?rs = "rc_runs c"
  have "run_starts (run_abs c) = set (map rl_value ?rs)"
  proof (intro set_eqI iffI)
    fix x assume x: "x \<in> run_starts (run_abs c)"
    then have "covers ?rs (unat x)" by (simp add: run_starts_def run_abs_def)
    then obtain r where r: "r \<in> set ?rs" "rstart r \<le> unat x" "unat x \<le> rend r" by (auto simp: covers_def in_run_def)
    have "rstart r = unat x"
    proof (rule ccontr)
      assume "rstart r \<noteq> unat x"
      then have lt: "rstart r < unat x" using r by simp
      then have u: "unat (x - 1) = unat x - 1" by (intro unat_u16_pred) simp
      then have "in_run r (unat (x - 1))" using r lt unfolding in_run_def u by linarith
      then have "x - 1 \<in> run_abs c" using r(1) by (auto simp: run_abs_def covers_def)
      moreover have "x \<noteq> 0" using lt by auto
      ultimately show False using x by (simp add: run_starts_def)
    qed
    then have "x = rl_value r" by (simp add: rstart_def word_unat_eq_iff)
    then show "x \<in> set (map rl_value ?rs)" using r(1) by simp
  next
    fix x assume "x \<in> set (map rl_value ?rs)"
    then obtain r where r: "r \<in> set ?rs" "x = rl_value r" by auto
    have "covers ?rs (unat x)" using r covers_start [of r ?rs] by (simp add: rstart_def)
    moreover have "\<not> covers ?rs (unat x - 1)" if "x \<noteq> 0"
    proof
      have p: "0 < unat x" using that by (simp add: unat_gt_0)
      assume "covers ?rs (unat x - 1)"
      then obtain q where q: "q \<in> set ?rs" "rstart q \<le> unat x - 1" "unat x - 1 \<le> rend q" by (auto simp: covers_def in_run_def)
      obtain i j where ij: "i < length ?rs" "?rs ! i = q" "j < length ?rs" "?rs ! j = r" using q(1) r(1) by (metis in_set_conv_nth)
      have rx: "rstart r = unat x" using r(2) by (simp add: rstart_def)
      have "i \<noteq> j" using ij q(2) rx p by auto
      then consider "i < j" | "j < i" by linarith
      then show False
      proof cases
        case 1
        then show ?thesis using runs_gap [OF assms 1 ij(3)] ij q rx by simp
      next
        case 2
        then show ?thesis using runs_gap [OF assms 2 ij(1)] ij q rx rstart_le_rend [of r] p by simp
      qed
    qed
    moreover have "unat (x - 1) = unat x - 1" if "x \<noteq> 0" using that by (intro unat_u16_pred) (simp add: unat_gt_0)
    ultimately show "x \<in> run_starts (run_abs c)"
      unfolding run_starts_def run_abs_def mem_Collect_eq by metis
  qed
  then show ?thesis using ssorted_card [OF runs_ok_values [OF assms]] by simp
qed

lemma ends_of_runs: "runs_ok rs \<Longrightarrow> card (ends_of {n. covers rs n}) = length rs"
proof (induction rs)
  case (Cons r rs)
  have ok: "runs_ok rs" using Cons.prems by (simp add: runs_ok_Cons)
  have above: "rend r + 1 < n" if "covers rs n" for n using covers_tail [OF Cons.prems that] .
  have "ends_of {n. covers (r # rs) n} = insert (rend r) (ends_of {n. covers rs n})"
    using above rstart_le_rend [of r] by (fastforce simp: ends_of_def in_run_def)
  moreover have "rend r \<notin> ends_of {n. covers rs n}" using above [of "rend r"] by (auto simp: ends_of_def)
  moreover have "finite (ends_of {n. covers rs n})"
    by (rule finite_subset [OF _ covers_finite [of rs]]) (auto simp: ends_of_def)
  ultimately show ?case using Cons.IH [OF ok] by simp
qed (simp add: ends_of_def)

lemma run_inv_counted:
  assumes ok: "runs_ok (rc_runs c)" and n: "rc_n_runs c = int (length (rc_runs c))"
    and cap: "rc_capacity c = int (card (run_starts (run_abs c))) \<or> rc_capacity c = int (card (ends_of (unat ` run_abs c)))"
  shows "run_inv c"
  using assms run_starts_runs [OF ok] ends_of_runs [OF ok] run_abs_image [OF ok] by (auto simp: run_inv_def)

definition run_of :: "nat \<Rightarrow> nat \<Rightarrow> rle16" where
  "run_of s e = \<lparr>rl_value = word_of_nat s, rl_length = word_of_nat (e - s)\<rparr>"

lemma run_of_simps:
  assumes "s \<le> e" and "e < 65536"
  shows "rstart (run_of s e) = s" and "rend (run_of s e) = e" and "in_run (run_of s e) n \<longleftrightarrow> s \<le> n \<and> n \<le> e"
  using assms by (auto simp: run_of_def in_run_def simp del: of_nat_diff)

lemma add_run_of: "s \<le> e \<Longrightarrow> add_run rc (int s) (int e) = push_run rc (run_of s e)"
  by (simp add: add_run_def run_of_def flip: of_nat_diff)

lemma runs_ok_snoc: "runs_ok (D @ [r]) \<longleftrightarrow> runs_ok D \<and> rend r < 65536 \<and> (\<forall>d \<in> set D. rend d + 1 < rstart r)"
  by (auto simp: runs_ok_append runs_ok_Cons)

text \<open>The pending run from \<open>s\<close> to \<open>e\<close> and the cells after it.\<close>

lemma array_to_runs_loop_correct:
  assumes "ssorted xs" and "\<forall>x \<in> set xs. e < unat x" and "s \<le> e" and "e < 65536"
    and "runs_ok (rc_runs c)" and "\<forall>d \<in> set (rc_runs c). rend d + 1 < s" and "rc_n_runs c = int (length (rc_runs c))"
  shows "let c' = array_to_runs_loop xs (int e) (int s) c in runs_ok (rc_runs c')
     \<and> (\<forall>n. covers (rc_runs c') n \<longleftrightarrow> covers (rc_runs c) n \<or> (s \<le> n \<and> n \<le> e) \<or> n \<in> unat ` set xs)
     \<and> rc_n_runs c' = int (length (rc_runs c')) \<and> rc_capacity c' = rc_capacity c"
  using assms
proof (induction xs arbitrary: s e c)
  case Nil
  then show ?case using run_of_simps [OF Nil(3,4)] by (simp add: add_run_of runs_ok_snoc covers_simps)
next
  case (Cons x xs)
  have tail: "ssorted xs" "\<forall>y \<in> set xs. unat x < unat y"
    using Cons.prems(1) by (simp_all flip: word_less_nat_alt)
  have ex: "e < unat x" using Cons.prems(2) by simp
  show ?case
  proof (cases "unat x = e + 1")
    case True
    have d: "\<forall>d \<in> set (rc_runs c). rend d + 1 < s" using Cons.prems(6) .
    have "array_to_runs_loop (x # xs) (int e) (int s) c = array_to_runs_loop xs (int (unat x)) (int s) c"
      using True unfolding array_to_runs_loop.simps(2) uint_u16_int [of x] by simp
    moreover have sx: "s \<le> unat x" using Cons.prems(3) ex by simp
    ultimately show ?thesis
      using Cons.IH [OF tail sx unat_u16_less Cons.prems(5) d Cons.prems(7)] True ex Cons.prems(3)
      by (auto simp: Let_def)
  next
    case False
    let ?c = "push_run c (run_of s e)"
    have eq: "array_to_runs_loop (x # xs) (int e) (int s) c = array_to_runs_loop xs (int (unat x)) (int (unat x)) ?c"
    proof -
      have "uint x \<noteq> int e + 1" using False uint_u16_int [of x] by linarith
      then show ?thesis using add_run_of [OF Cons.prems(3)] by simp
    qed
    note r = run_of_simps [OF Cons.prems(3,4)]
    have ok: "runs_ok (rc_runs ?c)" using r Cons.prems(4,5,6) by (simp add: runs_ok_snoc)
    have d: "\<forall>d \<in> set (rc_runs ?c). rend d + 1 < unat x"
      using r Cons.prems(3,6) False ex by fastforce
    have n: "rc_n_runs ?c = int (length (rc_runs ?c))" using Cons.prems(7) by simp
    have "(covers (rc_runs ?c) m \<or> (unat x \<le> m \<and> m \<le> unat x) \<or> m \<in> unat ` set xs)
        \<longleftrightarrow> (covers (rc_runs c) m \<or> (s \<le> m \<and> m \<le> e) \<or> m \<in> unat ` set (x # xs))" for m
      using r(3) [of m] by auto
    then show ?thesis using Cons.IH [OF tail le_refl unat_u16_less ok d n]
      by (simp only: Let_def eq push_run_simps simp_thms)
  qed
qed

lemma array_to_runs_correct:
  assumes "array_inv a" and "array_abs a \<noteq> {}" and "rc_runs c = []" and "rc_n_runs c = 0"
    and "rc_capacity c = array_container_number_of_runs a"
  shows "run_inv (array_to_runs_loop (ac_array a) (- 2) (- 1) c)"
    and "run_abs (array_to_runs_loop (ac_array a) (- 2) (- 1) c) = array_abs a"
proof -
  obtain x xs where xs: "ac_array a = x # xs" using assms(2) by (cases "ac_array a") (auto simp: array_abs_def)
  have s: "ssorted xs" "\<forall>y \<in> set xs. unat x < unat y"
    using assms(1) by (simp_all add: array_inv_def xs flip: word_less_nat_alt)
  have ne: "uint x \<noteq> - 1" using uint_ge_0 [of x] by linarith
  let ?c = "array_to_runs_loop (ac_array a) (- 2) (- 1) c"
  have eq: "?c = array_to_runs_loop xs (int (unat x)) (int (unat x)) c"
    using ne by (simp add: xs)
  have r: "runs_ok (rc_runs ?c)" "\<And>n. covers (rc_runs ?c) n \<longleftrightarrow> n = unat x \<or> n \<in> unat ` set xs"
    "rc_n_runs ?c = int (length (rc_runs ?c))" "rc_capacity ?c = rc_capacity c"
    using array_to_runs_loop_correct [OF s le_refl unat_u16_less, of c] assms(3,4)
    unfolding eq Let_def by (simp_all add: eq_iff conj_commute)
  show abs: "run_abs ?c = array_abs a"
    using r(2) by (auto simp: run_abs_def array_abs_def xs inj_image_mem_iff [OF inj_unat_u16] word_unat_eq_iff [symmetric])
  have "rc_capacity ?c = int (card (run_starts (run_abs ?c)))"
    using array_number_of_runs_correct [OF assms(1)] r(4) assms(5) abs by simp
  then show "run_inv ?c" using run_inv_counted r by blast
qed

lemma run_from_array_correct:
  assumes "array_inv a"
  shows "run_inv (run_container_from_array a)" and "run_abs (run_container_from_array a) = array_abs a"
proof -
  let ?c = "run_container_create_given_capacity (array_container_number_of_runs a)"
  have c: "rc_runs ?c = []" "rc_n_runs ?c = 0" "rc_capacity ?c = array_container_number_of_runs a"
    by (simp_all add: run_container_create_given_capacity_def)
  have "run_inv (run_container_from_array a) \<and> run_abs (run_container_from_array a) = array_abs a"
  proof (cases "ac_array a = []")
    case True
    then have "array_container_number_of_runs a = 0"
      by (simp add: array_container_number_of_runs_def)
    then show ?thesis using True assms c
      by (simp add: run_container_from_array_def array_inv_def run_inv_def run_abs_def array_abs_def)
  next
    case False
    then have "array_abs a \<noteq> {}" and "ac_cardinality a \<noteq> 0" using assms by (simp_all add: array_abs_def array_inv_def)
    then show ?thesis using array_to_runs_correct [OF assms _ c] assms
      by (simp add: run_container_from_array_def Let_def array_simps)
  qed
  then show "run_inv (run_container_from_array a)" "run_abs (run_container_from_array a) = array_abs a" by simp_all
qed

text \<open>The bits that are left: those of the current word and of the words after it.\<close>

definition bits_left :: "u64 \<Rightarrow> u64 list \<Rightarrow> nat \<Rightarrow> nat set" where
  "bits_left cur rest k = (\<lambda>n. n + 64 * k) ` bits_of (cur # rest)"

lemma shift_lessThan: "(\<lambda>n. n + a) ` {..< b} = {a ..< a + b}" for a b :: nat
  unfolding lessThan_atLeast0 image_add_atLeastLessThan' by (simp add: add.commute)

lemma bits_left_Cons: "bits_left cur (w # rest) k = (\<lambda>n. n + 64 * k) ` {n. bit cur n} \<union> bits_left w rest (k + 1)"
  unfolding bits_left_def bits_of_Cons [of cur] image_Un image_image by (simp add: algebra_simps)

lemma bits_left_Nil: "bits_left cur [] k = (\<lambda>n. n + 64 * k) ` {n. bit cur n}"
  unfolding bits_left_def bits_of_Cons by (simp add: bits_of_def)

lemma bits_left_split: "bits_left cur rest k = (\<lambda>n. n + 64 * k) ` {n. bit cur n} \<union> (\<lambda>n. n + 64 * k + 64) ` bits_of rest"
  unfolding bits_left_def bits_of_Cons image_Un image_image by (simp add: algebra_simps)

lemma bits_of_ones: "{n. bit (- 1 :: u64) n} = {..< 64}"
  by (auto simp: bit_minus_one_64 dest: bit_u64_bound)

lemma bits_left_bounds:
  assumes "n \<in> bits_left cur rest k"
  shows "64 * k \<le> n" and "n < 64 * (k + 1 + length rest)"
  using assms by (auto simp: bits_left_def bits_of_def)

lemma skip_zeroes:
  "skip_words 0 cur rest k = (cur', rest', k') \<Longrightarrow>
     bits_left cur rest k = bits_left cur' rest' k' \<and> k + length rest = k' + length rest' \<and> (cur' = 0 \<longrightarrow> rest' = [])"
  by (induction "0 :: u64" cur rest k rule: skip_words.induct) (auto simp: bits_left_Cons split: if_splits)

lemma skip_ones:
  "skip_words (- 1) cur rest k = (cur', rest', k') \<Longrightarrow>
     bits_left cur rest k = {64 * k ..< 64 * k'} \<union> bits_left cur' rest' k' \<and> k \<le> k' \<and>
     k + length rest = k' + length rest' \<and> (cur' = - 1 \<longrightarrow> rest' = [])"
proof (induction "- 1 :: u64" cur rest k rule: skip_words.induct)
  case (2 cur w rest k)
  show ?case
  proof (cases "cur = - 1")
    case True
    then have IH: "bits_left w rest (k + 1) = {64 * (k + 1) ..< 64 * k'} \<union> bits_left cur' rest' k'" "k + 1 \<le> k'"
      "k + 1 + length rest = k' + length rest'" "cur' = - 1 \<longrightarrow> rest' = []"
      using 2 by simp_all
    have "(\<lambda>n. n + 64 * k) ` {..< 64} = {64 * k ..< 64 * (k + 1)}" by (simp add: shift_lessThan add.commute)
    then have "bits_left cur (w # rest) k = {64 * k ..< 64 * (k + 1)} \<union> {64 * (k + 1) ..< 64 * k'} \<union> bits_left cur' rest' k'"
      unfolding bits_left_Cons True bits_of_ones IH(1) by blast
    moreover have "{64 * k ..< 64 * (k + 1)} \<union> {64 * (k + 1) ..< 64 * k'} = {64 * k ..< 64 * k'}" using IH(2) by auto
    ultimately show ?thesis using IH by simp
  qed (use 2 in auto)
qed auto

lemma bits_left_with_ones:
  assumes "cur \<noteq> 0"
  shows "bits_left (cur OR (cur - 1)) rest k = {64 * k ..< 64 * k + roaring_trailing_zeroes cur} \<union> bits_left cur rest k"
    and "n \<in> bits_left cur rest k \<Longrightarrow> 64 * k + roaring_trailing_zeroes cur \<le> n"
proof -
  let ?t = "roaring_trailing_zeroes cur"
  have "{n. bit (cur OR (cur - 1)) n} = {..< ?t} \<union> {n. bit cur n}" using bit_with_ones [OF assms] by auto
  moreover have "(\<lambda>n. n + 64 * k) ` {..< ?t} = {64 * k ..< 64 * k + ?t}"
    by (rule shift_lessThan)
  ultimately show "bits_left (cur OR (cur - 1)) rest k = {64 * k ..< 64 * k + ?t} \<union> bits_left cur rest k"
    unfolding bits_left_split by (simp add: image_Un Un_assoc)
  assume "n \<in> bits_left cur rest k"
  moreover have "?t \<le> m" if "bit cur m" for m using trailing_zeroes_bits(3) [OF assms, of m] that by (meson not_le)
  ultimately show "64 * k + ?t \<le> n" using trailing_zeroes_bits(1) [OF assms]
    unfolding bits_left_split by fastforce
qed

lemma bits_left_after:
  fixes w :: u64
  assumes "w \<noteq> - 1"
  shows "bits_left w rest k = {64 * k ..< 64 * k + roaring_trailing_zeroes (NOT w)} \<union> bits_left (w AND (w + 1)) rest k"
    and "n \<in> bits_left (w AND (w + 1)) rest k \<Longrightarrow> 64 * k + roaring_trailing_zeroes (NOT w) < n"
proof -
  let ?e = "roaring_trailing_zeroes (NOT w)"
  have nz: "NOT w \<noteq> 0" using assms by (metis bit.compl_zero bit.double_compl)
  have e: "?e < 64" "\<not> bit w ?e" "m < ?e \<Longrightarrow> bit w m" for m
    using trailing_zeroes_bits [OF nz] by (simp_all add: bit_not_64)
  have after: "bit (w AND (w + 1)) m \<longleftrightarrow> bit w m \<and> ?e < m" for m
    using bit_after_ones [OF assms, of m] by (metis bit_and_iff bit_u64_bound)
  have "{n. bit w n} = {..< ?e} \<union> {n. bit (w AND (w + 1)) n}"
  proof (intro set_eqI)
    fix m show "m \<in> {n. bit w n} \<longleftrightarrow> m \<in> {..< ?e} \<union> {n. bit (w AND (w + 1)) n}"
      using e(2) e(3) [of m] after [of m] by (cases m ?e rule: linorder_cases) auto
  qed
  moreover have "(\<lambda>n. n + 64 * k) ` {..< ?e} = {64 * k ..< 64 * k + ?e}"
    by (rule shift_lessThan)
  ultimately show "bits_left w rest k = {64 * k ..< 64 * k + ?e} \<union> bits_left (w AND (w + 1)) rest k"
    unfolding bits_left_split by (simp add: image_Un Un_assoc)
  assume "n \<in> bits_left (w AND (w + 1)) rest k"
  then show "64 * k + ?e < n" using e(1) after unfolding bits_left_split by fastforce
qed

declare bits_left_bounds [dest]

lemma cut_interval:
  fixes n s e l1 l2 :: nat
  assumes "B \<Longrightarrow> e < n" and "A \<longleftrightarrow> (l2 \<le> n \<and> n < e) \<or> B" and "l1 \<le> l2"
    and "X \<longleftrightarrow> s \<le> n \<and> (l1 \<le> n \<and> n < l2 \<or> A)" and "s < e" and "l1 \<le> s" and "l2 \<le> e"
  shows "X \<longleftrightarrow> (s \<le> n \<and> n \<le> e - 1) \<or> B"
proof (cases B)
  case True
  then have "A" and "s \<le> n" using assms by auto
  then show ?thesis using True assms(4) by simp
next
  case False
  then have "X \<longleftrightarrow> s \<le> n \<and> n < e" using assms by auto
  then show ?thesis using False assms(5) by auto
qed

lemma bitset_to_runs_loop_correct:
  assumes "runs_ok (rc_runs c)" and "rc_n_runs c = int (length (rc_runs c))" and "k + length rest < 1024"
    and "\<And>n d. n \<in> bits_left cur rest k \<Longrightarrow> d \<in> set (rc_runs c) \<Longrightarrow> rend d + 1 < n"
  shows "let c' = bitset_to_runs_loop cur rest k c in runs_ok (rc_runs c')
     \<and> (\<forall>n. covers (rc_runs c') n \<longleftrightarrow> covers (rc_runs c) n \<or> n \<in> bits_left cur rest k)
     \<and> rc_n_runs c' = int (length (rc_runs c')) \<and> rc_capacity c' = rc_capacity c"
  using assms
proof (induction cur rest k c rule: bitset_to_runs_loop.induct)
  case (1 cur rest k c)
  obtain cur1 rest1 k1 where s1: "skip_words 0 cur rest k = (cur1, rest1, k1)" by (cases "skip_words 0 cur rest k") auto
  note z = skip_zeroes [OF s1]
  show ?case
  proof (cases "cur1 = 0")
    case True
    have "bits_left cur rest k = {}" using z True by (simp add: bits_left_Nil)
    then show ?thesis using 1(2,3) s1 True by (simp add: bitset_to_runs_loop.simps [of cur])
  next
    case nz: False
    let ?s = "64 * k1 + roaring_trailing_zeroes cur1" and ?w = "cur1 OR (cur1 - 1)"
    obtain w2 rest2 k2 where s2: "skip_words (- 1) ?w rest1 k1 = (w2, rest2, k2)" by (cases "skip_words (- 1) ?w rest1 k1") auto
    note o = skip_ones [OF s2] and w = bits_left_with_ones [OF nz, where rest = rest1 and k = k1]
    have k2: "k2 + length rest2 < 1024" using 1(4) z o by simp
    have t: "roaring_trailing_zeroes cur1 < 64" using trailing_zeroes_bits(1) [OF nz] .
    have low: "?s \<in> bits_left cur1 rest1 k1"
      using trailing_zeroes_bits(2) [OF nz] unfolding bits_left_split by (simp add: add.commute)
    have gap: "rend d + 1 < ?s" if "d \<in> set (rc_runs c)" for d using 1(5) [OF _ that] z low by simp
    have all: "n \<in> bits_left cur rest k \<longleftrightarrow> ?s \<le> n \<and> (n \<in> {64 * k1 ..< 64 * k2} \<or> n \<in> bits_left w2 rest2 k2)" for n
      using z o w by (metis (no_types, lifting) Un_iff atLeastLessThan_iff not_le)
    show ?thesis
    proof (cases "w2 = - 1")
      case ones: True
      let ?e = "64 + k2 * 64"
      have le: "?s \<le> ?e - 1" and lt: "?e - 1 < 65536" using t o k2 by simp_all
      have eq: "bitset_to_runs_loop cur rest k c = push_run c (run_of ?s (?e - 1))"
        using s1 s2 nz ones add_run_of [OF le, of c]
        by (simp add: bitset_to_runs_loop.simps [of cur] Let_def add.commute of_nat_diff)
      have left: "bits_left w2 rest2 k2 = {64 * k2 ..< 64 * k2 + 64}"
      proof -
        have "rest2 = []" using o ones by simp
        then show ?thesis unfolding ones by (simp only: bits_left_Nil bits_of_ones shift_lessThan)
      qed
      have "n \<in> bits_left cur rest k \<longleftrightarrow> ?s \<le> n \<and> n \<le> ?e - 1" for n
      proof -
        have "64 * k1 \<le> 64 * k2" using o by simp
        then show ?thesis unfolding all left Un_iff atLeastLessThan_iff by linarith
      qed
      then show ?thesis using run_of_simps [OF le lt] gap 1(2,3) lt
        by (auto simp: Let_def eq runs_ok_snoc)
    next
      case False
      let ?e = "64 * k2 + roaring_trailing_zeroes (NOT w2)" and ?w2 = "w2 AND (w2 + 1)"
      note a = bits_left_after [OF False, where rest = rest2 and k = k2]
      have nz2: "NOT w2 \<noteq> 0" using False by (metis bit.compl_zero bit.double_compl)
      have e64: "roaring_trailing_zeroes (NOT w2) < 64" using trailing_zeroes_bits(1) [OF nz2] .
      have low: "\<not> bit w2 (roaring_trailing_zeroes (NOT w2))"
        using trailing_zeroes_bits(1,2) [OF nz2] by (simp add: bit_not_64)
      have se: "?s < ?e"
      proof (cases "k2 = k1")
        case True
        then have "w2 = ?w" using o skip_words_same [OF s2] by simp
        then have "roaring_trailing_zeroes cur1 < roaring_trailing_zeroes (NOT w2)"
          using low bit_with_ones [OF nz] trailing_zeroes_bits(2) [OF nz] by (metis linorder_neqE_nat)
        then show ?thesis using True by simp
      qed (use o t in simp)
      have left: "n \<in> bits_left cur rest k \<longleftrightarrow> (?s \<le> n \<and> n \<le> ?e - 1) \<or> n \<in> bits_left ?w2 rest2 k2" for n
      proof -
        have "n \<in> bits_left ?w2 rest2 k2 \<Longrightarrow> ?e < n" by (rule a(2))
        moreover have "n \<in> bits_left w2 rest2 k2 \<longleftrightarrow> (64 * k2 \<le> n \<and> n < ?e) \<or> n \<in> bits_left ?w2 rest2 k2"
          unfolding a(1) by simp
        moreover have "64 * k1 \<le> 64 * k2" using o by simp
        moreover have "n \<in> bits_left cur rest k \<longleftrightarrow>
            ?s \<le> n \<and> (64 * k1 \<le> n \<and> n < 64 * k2 \<or> n \<in> bits_left w2 rest2 k2)" using all [of n] by simp
        ultimately show ?thesis by (rule cut_interval) (use se in simp_all)
      qed
      have le: "?s \<le> ?e - 1" and lt: "?e - 1 < 65536" using se e64 k2 by simp_all
      note r = run_of_simps [OF le lt]
      let ?c = "push_run c (run_of ?s (?e - 1))"
      have ok: "runs_ok (rc_runs ?c)" using r gap lt 1(2) by (simp add: runs_ok_snoc)
      have n: "rc_n_runs ?c = int (length (rc_runs ?c))" using 1(3) by simp
      have above: "rend d + 1 < n" if n: "n \<in> bits_left ?w2 rest2 k2" and d: "d \<in> set (rc_runs ?c)" for n d
        using a(2) [OF n] 1(5) [of n d] left [of n] n d r se by auto
      have ar: "add_run c (int (roaring_trailing_zeroes cur1 + 64 * k1)) (int (roaring_trailing_zeroes (NOT w2) + k2 * 64) - 1) = ?c"
        using add_run_of [OF le, of c] se by (simp add: add.commute mult.commute of_nat_diff)
      have eq: "bitset_to_runs_loop cur rest k c = bitset_to_runs_loop ?w2 rest2 k2 ?c"
        using s1 s2 nz False ar by (simp add: bitset_to_runs_loop.simps [of cur] Let_def)
      have "let c' = bitset_to_runs_loop ?w2 rest2 k2 ?c in runs_ok (rc_runs c')
         \<and> (\<forall>n. covers (rc_runs c') n \<longleftrightarrow> covers (rc_runs ?c) n \<or> n \<in> bits_left ?w2 rest2 k2)
         \<and> rc_n_runs c' = int (length (rc_runs c')) \<and> rc_capacity c' = rc_capacity ?c"
        using 1(1) [OF s1 [symmetric] refl nz refl refl refl s2 [symmetric] refl False refl refl, unfolded ar, OF ok n k2 above] .
      then show ?thesis unfolding eq using left r(3)
        by (simp add: Let_def disj_ac)
    qed
  qed
qed

lemma bitset_to_runs_correct:
  assumes wf: "bitset_wf b" and "rc_runs c = []" and "rc_n_runs c = 0"
    and "rc_capacity c = int (bitset_container_number_of_runs b)"
  defines "c' \<equiv> bitset_to_runs_loop (bc_words b ! 0) (drop 1 (bc_words b)) 0 c"
  shows "run_inv c'" and "run_abs c' = bitset_abs b"
proof -
  have l: "length (bc_words b) = 1024" using wf by (simp add: bitset_wf_def)
  then have "bc_words b = bc_words b ! 0 # drop 1 (bc_words b)"
    by (cases "bc_words b") auto
  then have left: "bits_left (bc_words b ! 0) (drop 1 (bc_words b)) 0 = bits_of (bc_words b)"
    by (simp add: bits_left_def)
  have r: "runs_ok (rc_runs c')" "\<And>n. covers (rc_runs c') n \<longleftrightarrow> n \<in> bits_of (bc_words b)"
    "rc_n_runs c' = int (length (rc_runs c'))" "rc_capacity c' = rc_capacity c"
    using bitset_to_runs_loop_correct [of c 0 "drop 1 (bc_words b)" "bc_words b ! 0"] assms(2,3) l
    unfolding left by (simp_all add: Let_def c'_def)
  show abs: "run_abs c' = bitset_abs b"
    unfolding run_abs_def r(2) using abs_of_bits [OF wf] by blast
  have "rc_capacity c' = int (card (ends_of (unat ` run_abs c')))"
    using bitset_number_of_runs_correct [OF wf] r(4) assms(4) abs by simp
  then show "run_inv c'" using run_inv_counted r by blast
qed

section \<open>The choice of a representation\<close>

text \<open>The size a container takes in the serialized format (\<open>container_size_in_bytes\<close>).\<close>

fun container_size_in_bytes :: "container_t \<Rightarrow> int" where
  "container_size_in_bytes (Bitset_c b) = bitset_container_size_in_bytes"
| "container_size_in_bytes (Array_c a) = array_container_size_in_bytes a"
| "container_size_in_bytes (Run_c r) = run_container_size_in_bytes r"

lemmas size_defs = array_container_size_in_bytes_def bitset_container_size_in_bytes_def run_container_size_in_bytes_def
  run_container_serialized_size_in_bytes_def array_container_serialized_size_in_bytes_def
  bitset_container_serialized_size_in_bytes_def

lemma container_inv_nonempty_array:
  "array_inv a \<Longrightarrow> 2 + 4 * array_container_number_of_runs a < ac_cardinality a * 2 \<Longrightarrow> array_abs a \<noteq> {}"
  using array_number_of_runs_correct [of a] by (auto simp: array_inv_def array_abs_def)

lemma convert_run_optimize_correct:
  assumes "container_inv c"
  shows "container_inv (convert_run_optimize c) \<and> container_abs (convert_run_optimize c) = container_abs c"
proof (cases c)
  case (Run_c r)
  then show ?thesis using assms convert_run_to_efficient_correct [of r] by simp
next
  case (Array_c a)
  let ?c = "run_container_create_given_capacity (array_container_number_of_runs a)"
  show ?thesis
  proof (cases "2 + 4 * array_container_number_of_runs a < ac_cardinality a * 2")
    case True
    have inv: "array_inv a" using assms Array_c by simp
    have "run_inv (array_to_runs_loop (ac_array a) (- 2) (- 1) ?c)"
      "run_abs (array_to_runs_loop (ac_array a) (- 2) (- 1) ?c) = array_abs a"
      using array_to_runs_correct [OF inv container_inv_nonempty_array [OF inv True], of ?c]
      by (simp_all add: run_container_create_given_capacity_def)
    then show ?thesis using True inv by (simp add: Array_c Let_def size_defs array_simps)
  next
    case False
    then show ?thesis using assms by (simp add: Array_c Let_def size_defs)
  qed
next
  case (Bitset_c b)
  let ?c = "run_container_create_given_capacity (int (bitset_container_number_of_runs b))"
  have wf: "bitset_wf b" using assms Bitset_c by (simp add: bitset_inv_wf)
  show ?thesis using assms bitset_to_runs_correct [OF wf, of ?c]
    by (simp add: Bitset_c Let_def run_container_create_given_capacity_def)
qed

lemma convert_run_to_efficient_size:
  assumes "run_inv c"
  shows "container_size_in_bytes (convert_run_to_efficient_container c) = min (run_container_size_in_bytes c)
     (min 8192 (2 * int (card (run_abs c))))"
  using run_cells_container(3) [OF assms refl] rc.cardinality_abs [OF assms]
  by (auto simp: convert_run_to_efficient_container_def Let_def size_defs)

lemma convert_run_optimize_size:
  assumes "container_inv c"
  shows "container_size_in_bytes (convert_run_optimize c) \<le> container_size_in_bytes c"
proof (cases c)
  case (Run_c r)
  then show ?thesis using assms convert_run_to_efficient_size [of r] by simp
next
  case (Array_c a)
  let ?c = "run_container_create_given_capacity (array_container_number_of_runs a)"
  show ?thesis
  proof (cases "2 + 4 * array_container_number_of_runs a < ac_cardinality a * 2")
    case True
    have inv: "array_inv a" using assms Array_c by simp
    let ?r = "array_to_runs_loop (ac_array a) (- 2) (- 1) ?c"
    have "run_inv ?r" "run_abs ?r = array_abs a"
      using array_to_runs_correct [OF inv container_inv_nonempty_array [OF inv True], of ?c]
      by (simp_all add: run_container_create_given_capacity_def)
    then have "rc_n_runs ?r = array_container_number_of_runs a"
      using run_starts_runs [of ?r] array_number_of_runs_correct [OF inv] by (simp add: run_simps)
    then show ?thesis using True inv by (simp add: Array_c Let_def size_defs array_simps)
  next
    case False
    then show ?thesis by (simp add: Array_c Let_def size_defs)
  qed
next
  case (Bitset_c b)
  let ?c = "run_container_create_given_capacity (int (bitset_container_number_of_runs b))"
  let ?r = "bitset_to_runs_loop (bc_words b ! 0) (drop 1 (bc_words b)) 0 ?c"
  have wf: "bitset_wf b" using assms Bitset_c by (simp add: bitset_inv_wf)
  have "run_inv ?r" "run_abs ?r = bitset_abs b"
    using bitset_to_runs_correct [OF wf, of ?c] by (simp_all add: run_container_create_given_capacity_def)
  then have "rc_n_runs ?r = int (bitset_container_number_of_runs b)"
    using ends_of_runs [of "rc_runs ?r"] run_abs_image [of ?r] bitset_number_of_runs_correct [OF wf] by (simp add: run_simps)
  then show ?thesis by (simp add: Bitset_c Let_def size_defs)
qed

section \<open>A run container and a range\<close>

lemma fold_sizes: "fold (\<lambda>r acc. acc + (uint (rl_length r) + 1)) rs n = n + int (sum_list (map run_size rs))"
  by (induction rs arbitrary: n) (simp_all add: run_size_def)

lemma container_from_run_range_correct:
  assumes inv: "run_inv c" and le: "unat lo \<le> unat hi" and hi: "unat hi < 65536"
  defines "c' \<equiv> container_from_run_range c lo hi"
  shows "container_inv c'" and "container_abs c' = run_abs c \<union> {x. unat lo \<le> unat x \<and> unat x \<le> unat hi}"
proof -
  let ?ws = "set_lenranges (rc_runs c) (bc_words bitset_container_create)"
  let ?I = "{unat lo .. unat hi}" and ?B = "{n. covers (rc_runs c) n}"
  have ok: "runs_ok (rc_runs c)" using inv by (rule run_inv_simps)
  have d: "unat (hi - lo) = unat hi - unat lo" using le by (rule unat_u32_diff)
  have d1: "uint (hi - lo + 1) = int (unat hi - unat lo + 1)"
    using unat_u32_add [of "hi - lo" 1] d hi by (simp add: uint_nat del: of_nat_unat)
  have len: "length ?ws = 1024" and B: "bits_of ?ws = ?B"
    using runs_range_correct(1,2) [OF ok create_words(1)] create_words bits_of_words_abs [OF create_words(1)] by simp_all
  have ws: "bits_of (bitset_set_lenrange ?ws lo (hi - lo)) = ?B \<union> ?I"
    and wl: "length (bitset_set_lenrange ?ws lo (hi - lo)) = 1024"
    using bits_of_lenrange [OF len, of lo "hi - lo"] B d le hi by simp_all
  have "{n. unat lo \<le> n \<and> n \<le> unat lo + unat (hi - lo) \<and> wbit ?ws n} = ?B \<inter> ?I"
  proof -
    have "unat lo + unat (hi - lo) = unat hi" using d le by simp
    then show ?thesis unfolding B [symmetric] bits_of_def len using hi by auto
  qed
  then have common: "bitset_lenrange_cardinality ?ws lo (hi - lo) = card (?B \<inter> ?I)"
    using lenrange_counts(1) [of lo "hi - lo" ?ws] d le hi len by simp
  have fin: "finite ?B" by (rule covers_finite)
  let ?n = "fold (\<lambda>r acc. acc + (uint (rl_length r) + 1)) (rc_runs c) 0 + uint (hi - lo + 1)
      - int (bitset_lenrange_cardinality ?ws lo (hi - lo))"
  have "card (?B \<union> ?I) + card (?B \<inter> ?I) = card ?B + card ?I" using card_Un_Int [OF fin, of ?I] by simp
  moreover have "card ?I = unat hi - unat lo + 1" using le by simp
  moreover have "?n = int (card ?B) + int (unat hi - unat lo + 1) - int (card (?B \<inter> ?I))"
    by (simp only: fold_sizes d1 common card_covers [OF ok] add_0)
  ultimately have n: "?n = int (card (?B \<union> ?I))" by linarith
  let ?b = "bitset_container_create\<lparr>bc_words := bitset_set_lenrange ?ws lo (hi - lo), bc_cardinality := ?n\<rparr>"
  have abs: "bitset_abs ?b = run_abs c \<union> {x. unat lo \<le> unat x \<and> unat x \<le> unat hi}"
    using bitset_abs_words(2) [OF wl] ws by (auto simp: words_abs_def run_abs_def)
  have "card (?B \<union> ?I) = card (bitset_abs ?b)" using card_words_abs [OF wl] bitset_abs_words(2) [OF wl] ws by simp
  then have "bitset_inv ?b" using n wl by (simp add: bitset_inv_def bitset_wf_def)
  moreover have "c' = bitset_or_array ?b" by (simp add: c'_def container_from_run_range_def bitset_or_array_def Let_def)
  ultimately show "container_inv c'" "container_abs c' = run_abs c \<union> {x. unat lo \<le> unat x \<and> unat x \<le> unat hi}"
    using bitset_or_array_correct abs by simp_all
qed

end
