(* ===== verification/Mixed_Union.thy ===== *)
theory Mixed_Union
  imports Convert_Correct
begin

text \<open>
  Unions of containers of different types, and of two arrays, from \<open>src/containers/mixed_union.c\<close>.
  Where the code tests \<open>src_2 != dst\<close> to skip a copy, the model always copies. \<open>dst\<close> is the
  container the result goes to. \<open>asserting\<close> is an \<open>assert\<close> of the code: where the condition fails there is
  no result, so nothing can be shown of it. A function that returns \<open>true\<close> for a bitset and writes \<open>*dst\<close>
  returns a \<open>container_t\<close>. The lemmas show the union of the sets, in the canonical form for the
  eager versions.
\<close>

abbreviation ARRAY_LAZY_LOWERBOUND :: int where
  "ARRAY_LAZY_LOWERBOUND \<equiv> 1024"

abbreviation cells_of :: "array_container \<Rightarrow> u16 list" where
  "cells_of a \<equiv> take (ac_len a) (ac_array a)"

section \<open>Definitions\<close>

definition array_bitset_container_union :: "array_container \<Rightarrow> bitset_container \<Rightarrow> bitset_container \<Rightarrow> bitset_container" where
  "array_bitset_container_union src_1 src_2 dst =
     (let dst = bitset_container_copy src_2 dst;
          (words, n) = bitset_set_list_withcard (bc_words dst) (of_int (bc_cardinality dst)) (cells_of src_1)
      in dst\<lparr>bc_words := words, bc_cardinality := int32_of n\<rparr>)"

definition array_bitset_container_lazy_union :: "array_container \<Rightarrow> bitset_container \<Rightarrow> bitset_container \<Rightarrow> bitset_container" where
  "array_bitset_container_lazy_union src_1 src_2 dst =
     (let dst = bitset_container_copy src_2 dst
      in dst\<lparr>bc_words := bitset_set_list (bc_words dst) (cells_of src_1),
             bc_cardinality := BITSET_UNKNOWN_CARDINALITY\<rparr>)"

definition asserting :: "bool \<Rightarrow> 'a \<Rightarrow> 'a" where
  "asserting condition result = (if condition then result else undefined)"

lemma asserting_holds [simp]: "condition \<Longrightarrow> asserting condition result = result"
  by (simp add: asserting_def)

definition run_bitset_container_union :: "run_container \<Rightarrow> bitset_container \<Rightarrow> bitset_container \<Rightarrow> bitset_container" where
  "run_bitset_container_union src_1 src_2 dst =
     asserting (\<not> run_container_is_full src_1)
       (let dst = bitset_container_copy src_2 dst;
            dst = dst\<lparr>bc_words := set_lenranges (rc_runs src_1) (bc_words dst)\<rparr>
        in dst\<lparr>bc_cardinality := bitset_container_compute_cardinality dst\<rparr>)"

definition run_bitset_container_lazy_union :: "run_container \<Rightarrow> bitset_container \<Rightarrow> bitset_container \<Rightarrow> bitset_container" where
  "run_bitset_container_lazy_union src_1 src_2 dst =
     asserting (\<not> run_container_is_full src_1)
       (let dst = bitset_container_copy src_2 dst;
            dst = dst\<lparr>bc_words := set_lenranges (rc_runs src_1) (bc_words dst)\<rparr>
        in dst\<lparr>bc_cardinality := BITSET_UNKNOWN_CARDINALITY\<rparr>)"

text \<open>The merging loops over the runs and the cells that are left.\<close>

fun array_run_union_loop :: "u16 list \<Rightarrow> rle16 list \<Rightarrow> run_container \<Rightarrow> rle16 \<Rightarrow> run_container" where
  "array_run_union_loop (v # cells) (r # rs) dst previousrle =
     (if rl_value r \<le> v
      then (case run_container_append dst r previousrle of (dst, previousrle) \<Rightarrow>
              array_run_union_loop (v # cells) rs dst previousrle)
      else (case run_container_append_value dst v previousrle of (dst, previousrle) \<Rightarrow>
              array_run_union_loop cells (r # rs) dst previousrle))"
| "array_run_union_loop (v # cells) [] dst previousrle =
     (case run_container_append_value dst v previousrle of (dst, previousrle) \<Rightarrow>
        array_run_union_loop cells [] dst previousrle)"
| "array_run_union_loop [] (r # rs) dst previousrle =
     (case run_container_append dst r previousrle of (dst, previousrle) \<Rightarrow>
        array_run_union_loop [] rs dst previousrle)"
| "array_run_union_loop [] [] dst previousrle = dst"

definition array_run_union_merge :: "u16 list \<Rightarrow> rle16 list \<Rightarrow> run_container \<Rightarrow> run_container" where
  "array_run_union_merge cells runs dst =
     (if rl_value (runs ! 0) \<le> cells ! 0
      then (case run_container_append_first dst (runs ! 0) of (dst, previousrle) \<Rightarrow>
              array_run_union_loop cells (drop 1 runs) dst previousrle)
      else (case run_container_append_value_first dst (cells ! 0) of (dst, previousrle) \<Rightarrow>
              array_run_union_loop (drop 1 cells) runs dst previousrle))"

definition array_run_container_union :: "array_container \<Rightarrow> run_container \<Rightarrow> run_container \<Rightarrow> run_container" where
  "array_run_container_union src_1 src_2 dst =
     (if run_container_is_full src_2 then run_container_copy src_2 dst
      else let dst = run_container_grow dst (2 * (ac_cardinality src_1 + rc_n_runs src_2)) False
           in array_run_union_merge (cells_of src_1) (rc_runs src_2) dst)"

text \<open>
  The runs of \<open>src_2\<close> are first moved behind the place of the output, which cannot reach them: at
  most one run is written for each run or cell that is read.
\<close>

definition array_run_container_inplace_union :: "array_container \<Rightarrow> run_container \<Rightarrow> run_container" where
  "array_run_container_inplace_union src_1 src_2 =
     (if run_container_is_full src_2 then src_2
      else let maxoutput = ac_cardinality src_1 + rc_n_runs src_2;
               neededcapacity = maxoutput + rc_n_runs src_2;
               src_2 = (if rc_capacity src_2 < neededcapacity then run_container_grow src_2 neededcapacity True else src_2);
               inputsrc2 = rc_runs src_2
           in array_run_union_merge (cells_of src_1) inputsrc2 (src_2\<lparr>rc_n_runs := 0, rc_runs := []\<rparr>))"

text \<open>The bits of the first array are set without counting; the count starts from its cardinality.\<close>

definition array_array_bitset :: "array_container \<Rightarrow> array_container \<Rightarrow> bitset_container" where
  "array_array_bitset src_1 src_2 =
     (let ourbitset = bitset_container_create;
          words = bitset_set_list (bc_words ourbitset) (cells_of src_1);
          (words, n) = bitset_set_list_withcard words (of_int (ac_cardinality src_1)) (cells_of src_2)
      in ourbitset\<lparr>bc_words := words, bc_cardinality := int32_of n\<rparr>)"

definition array_array_container_union :: "array_container \<Rightarrow> array_container \<Rightarrow> container_t" where
  "array_array_container_union src_1 src_2 =
     (let totalCardinality = ac_cardinality src_1 + ac_cardinality src_2
      in if totalCardinality \<le> DEFAULT_MAX_SIZE
         then Array_c (array_container_union src_1 src_2 (array_container_create_given_capacity totalCardinality))
         else bitset_or_array (array_array_bitset src_1 src_2))"

text \<open>
  \<open>memmove\<close> puts the cells of \<open>src_1\<close> behind the place of the output; \<open>union_uint16\<close> (or
  \<open>fast_union_uint16\<close>) then reads them from there. When the bitset ends up small its bits are
  written over \<open>src_1\<close>.
\<close>

definition array_array_container_inplace_union :: "array_container \<Rightarrow> array_container \<Rightarrow> container_t" where
  "array_array_container_inplace_union src_1 src_2 =
     (let totalCardinality = ac_cardinality src_1 + ac_cardinality src_2
      in if totalCardinality \<le> DEFAULT_MAX_SIZE
         then if ac_capacity src_1 < totalCardinality
              then Array_c (array_container_union src_1 src_2 (array_container_create_given_capacity (2 * totalCardinality)))
              else let cells = union_uint16 (cells_of src_1) (cells_of src_2)
                   in Array_c (src_1\<lparr>ac_array := cells, ac_cardinality := int (length cells)\<rparr>)
         else let ourbitset = array_array_bitset src_1 src_2
              in if bc_cardinality ourbitset \<le> DEFAULT_MAX_SIZE
                 then let src_1 = (if ac_capacity src_1 < bc_cardinality ourbitset
                                   then array_container_grow src_1 (bc_cardinality ourbitset) False else src_1)
                      in Array_c (src_1\<lparr>ac_array := bitset_extract_setbits_uint16 (bc_words ourbitset) 0,
                                        ac_cardinality := bc_cardinality ourbitset\<rparr>)
                 else Bitset_c ourbitset)"

definition array_array_lazy_bitset :: "array_container \<Rightarrow> array_container \<Rightarrow> bitset_container" where
  "array_array_lazy_bitset src_1 src_2 =
     (let ourbitset = bitset_container_create;
          words = bitset_set_list (bc_words ourbitset) (cells_of src_1);
          words = bitset_set_list words (cells_of src_2)
      in ourbitset\<lparr>bc_words := words, bc_cardinality := BITSET_UNKNOWN_CARDINALITY\<rparr>)"

definition array_array_container_lazy_union :: "array_container \<Rightarrow> array_container \<Rightarrow> container_t" where
  "array_array_container_lazy_union src_1 src_2 =
     (let totalCardinality = ac_cardinality src_1 + ac_cardinality src_2
      in if totalCardinality \<le> ARRAY_LAZY_LOWERBOUND
         then Array_c (array_container_union src_1 src_2 (array_container_create_given_capacity totalCardinality))
         else Bitset_c (array_array_lazy_bitset src_1 src_2))"

definition array_array_container_lazy_inplace_union :: "array_container \<Rightarrow> array_container \<Rightarrow> container_t" where
  "array_array_container_lazy_inplace_union src_1 src_2 =
     (let totalCardinality = ac_cardinality src_1 + ac_cardinality src_2
      in if totalCardinality \<le> ARRAY_LAZY_LOWERBOUND
         then if ac_capacity src_1 < totalCardinality
              then Array_c (array_container_union src_1 src_2 (array_container_create_given_capacity (2 * totalCardinality)))
              else let cells = fast_union_uint16 (cells_of src_1) (cells_of src_2)
                   in Array_c (src_1\<lparr>ac_array := cells, ac_cardinality := int (length cells)\<rparr>)
         else Bitset_c (array_array_lazy_bitset src_1 src_2))"

section \<open>Arrays and bitsets\<close>

lemma cells_of_eq: "array_inv a \<Longrightarrow> cells_of a = ac_array a"
  by (simp add: array_simps)

lemma card_bits_inv: "bitset_inv b \<Longrightarrow> bc_cardinality b = int (card (bits_of (bc_words b)))"
  by (simp add: bitset_inv_card card_bitset_abs bitset_inv_wf)

lemma inv_words: "bitset_inv b \<Longrightarrow> length (bc_words b) = 1024" "bitset_inv b \<Longrightarrow> bits_of (bc_words b) = unat ` bitset_abs b"
  using bitset_inv_wf bits_of_abs by (auto simp: bitset_wf_def)

lemma counted_bitset:
  assumes "length ws = 1024" and "words_abs ws = S" and "n = int (card S)"
  shows "bitset_inv (b\<lparr>bc_words := ws, bc_cardinality := n\<rparr>)"
    and "bitset_abs (b\<lparr>bc_words := ws, bc_cardinality := n\<rparr>) = S"
  using assms by (simp_all add: bitset_inv_def bitset_wf_def bitset_abs_words)

lemma uncounted_bitset:
  assumes "length ws = 1024" and "words_abs ws = S"
  shows "bitset_lazy_inv (b\<lparr>bc_words := ws, bc_cardinality := - 1\<rparr>)"
    and "bitset_abs (b\<lparr>bc_words := ws, bc_cardinality := - 1\<rparr>) = S"
  using assms by (simp_all add: bitset_lazy_inv_def bitset_wf_def bitset_abs_words)

lemma recounted_bitset:
  assumes "length ws = 1024" and "words_abs ws = S"
  shows "bitset_inv (b\<lparr>bc_words := ws, bc_cardinality := bitset_container_compute_cardinality (b\<lparr>bc_words := ws\<rparr>)\<rparr>)"
    and "bitset_abs (b\<lparr>bc_words := ws, bc_cardinality := bitset_container_compute_cardinality (b\<lparr>bc_words := ws\<rparr>)\<rparr>) = S"
  using bitset_recount [OF assms(1), of b] assms by (simp_all add: bitset_abs_words Let_def)

text \<open>The three list routines with a cardinality, applied to a well-formed bitset.\<close>

lemma listed_bitset:
  assumes "length ws = 1024" and "n = int (card (bits_of ws))"
  shows "length (fst (bitset_set_list_withcard ws (of_int n) ps)) = 1024"
    and "words_abs (fst (bitset_set_list_withcard ws (of_int n) ps)) = words_abs ws \<union> set ps"
    and "int32_of (snd (bitset_set_list_withcard ws (of_int n) ps)) = int (card (words_abs ws \<union> set ps))"
    and "length (fst (bitset_clear_list ws (of_int n) ps)) = 1024"
    and "words_abs (fst (bitset_clear_list ws (of_int n) ps)) = words_abs ws - set ps"
    and "int32_of (snd (bitset_clear_list ws (of_int n) ps)) = int (card (words_abs ws - set ps))"
    and "distinct ps \<Longrightarrow> length (fst (bitset_flip_list_withcard ws (of_int n) ps)) = 1024"
    and "distinct ps \<Longrightarrow> words_abs (fst (bitset_flip_list_withcard ws (of_int n) ps)) = sym_diff (words_abs ws) (set ps)"
    and "distinct ps \<Longrightarrow> int32_of (snd (bitset_flip_list_withcard ws (of_int n) ps)) = int (card (sym_diff (words_abs ws) (set ps)))"
proof -
  note C = bitset_lists_correct [OF assms(1), where n = "of_int n" and ps = ps]
  have b: "bits_of ws = unat ` words_abs ws" by (rule bits_of_words_abs [OF assms(1)])
  note L = listed_count [OF _ assms]
  show "length (fst (bitset_set_list_withcard ws (of_int n) ps)) = 1024" by (rule L(1) [OF C(1)])
  show "words_abs (fst (bitset_set_list_withcard ws (of_int n) ps)) = words_abs ws \<union> set ps"
    "int32_of (snd (bitset_set_list_withcard ws (of_int n) ps)) = int (card (words_abs ws \<union> set ps))"
    using L(4) [OF C(1), of "words_abs ws \<union> set ps"] b by (simp_all add: image_Un)
  have "unat ` words_abs ws - unat ` set ps = unat ` (words_abs ws - set ps)"
    by (rule image_set_diff [symmetric], rule inj_unat_u16)
  then show "words_abs (fst (bitset_clear_list ws (of_int n) ps)) = words_abs ws - set ps"
    "int32_of (snd (bitset_clear_list ws (of_int n) ps)) = int (card (words_abs ws - set ps))"
    using L(4) [OF C(2), of "words_abs ws - set ps"] b by simp_all
  show "length (fst (bitset_clear_list ws (of_int n) ps)) = 1024" by (rule L(1) [OF C(2)])
  assume d: "distinct ps"
  show "length (fst (bitset_flip_list_withcard ws (of_int n) ps)) = 1024" by (rule L(1) [OF C(3) [OF d]])
  have "sym_diff (unat ` words_abs ws) (unat ` set ps) = unat ` sym_diff (words_abs ws) (set ps)"
    by (simp add: image_Un image_set_diff [OF inj_unat_u16])
  then show "words_abs (fst (bitset_flip_list_withcard ws (of_int n) ps)) = sym_diff (words_abs ws) (set ps)"
    "int32_of (snd (bitset_flip_list_withcard ws (of_int n) ps)) = int (card (sym_diff (words_abs ws) (set ps)))"
    using L(4) [OF C(3) [OF d], of "sym_diff (words_abs ws) (set ps)"] b by simp_all
qed

lemma listed_words:
  assumes "length ws = 1024"
  shows "length (bitset_set_list ws ps) = 1024" and "words_abs (bitset_set_list ws ps) = words_abs ws \<union> set ps"
    and "distinct ps \<Longrightarrow> length (bitset_flip_list ws ps) = 1024"
    and "distinct ps \<Longrightarrow> words_abs (bitset_flip_list ws ps) = sym_diff (words_abs ws) (set ps)"
  using listed_bitset [OF assms refl, of ps] by (simp_all add: bitset_lists_nocard [of ws ps "of_int (int (card (bits_of ws)))"])

lemma copy_words:
  "bc_words (bitset_container_copy src dst) = bc_words src" "bc_cardinality (bitset_container_copy src dst) = bc_cardinality src"
  by (simp_all add: bitset_container_copy_def)

lemma array_bitset_union_correct:
  assumes "array_inv a" and "bitset_inv b"
  shows "bitset_inv (array_bitset_container_union a b dst)"
    and "bitset_abs (array_bitset_container_union a b dst) = array_abs a \<union> bitset_abs b"
  using counted_bitset [OF listed_bitset(1-3) [OF inv_words(1) card_bits_inv]] assms words_abs_wf [OF bitset_inv_wf, of b]
  by (simp_all add: array_bitset_container_union_def Let_def case_prod_unfold copy_words cells_of_eq array_abs_def Un_commute)

lemma array_bitset_lazy_union_correct:
  assumes "array_inv a" and "bitset_wf b"
  shows "bitset_lazy_inv (array_bitset_container_lazy_union a b dst)"
    and "bitset_abs (array_bitset_container_lazy_union a b dst) = array_abs a \<union> bitset_abs b"
  using uncounted_bitset [OF listed_words(1,2)] assms words_abs_wf [OF assms(2)]
  by (simp_all add: array_bitset_container_lazy_union_def Let_def copy_words cells_of_eq array_abs_def bitset_wf_def Un_commute)

lemma run_bitset_union_correct:
  assumes "run_inv r" and "bitset_wf b" and "\<not> run_container_is_full r"
  shows "bitset_inv (run_bitset_container_union r b dst)"
    and "bitset_abs (run_bitset_container_union r b dst) = run_abs r \<union> bitset_abs b"
    and "bitset_lazy_inv (run_bitset_container_lazy_union r b dst)"
    and "bitset_abs (run_bitset_container_lazy_union r b dst) = run_abs r \<union> bitset_abs b"
proof -
  have len: "length (bc_words b) = 1024" using assms(2) by (simp add: bitset_wf_def)
  have ok: "runs_ok (rc_runs r)" using assms(1) by (rule run_inv_simps)
  have W: "length (set_lenranges (rc_runs r) (bc_words b)) = 1024"
    "words_abs (set_lenranges (rc_runs r) (bc_words b)) = run_abs r \<union> bitset_abs b"
    using runs_range_correct(1) [OF ok len] runs_range_abs(1) [OF ok len] words_abs_wf [OF assms(2)]
    by (auto simp: run_abs_def)
  show "bitset_inv (run_bitset_container_union r b dst)"
    "bitset_abs (run_bitset_container_union r b dst) = run_abs r \<union> bitset_abs b"
    "bitset_lazy_inv (run_bitset_container_lazy_union r b dst)"
    "bitset_abs (run_bitset_container_lazy_union r b dst) = run_abs r \<union> bitset_abs b"
    using recounted_bitset [OF W] uncounted_bitset [OF W] assms(3)
    by (simp_all add: run_bitset_container_union_def run_bitset_container_lazy_union_def Let_def copy_words)
qed

section \<open>An array and a run container\<close>

lemma array_run_union_loop_correct:
  "builds c p (length cells + length rs) \<Longrightarrow> ssorted cells \<Longrightarrow> runs_ok rs \<Longrightarrow>
     \<forall>v \<in> set cells. rstart p \<le> unat v \<Longrightarrow> \<forall>r \<in> set rs. rstart p \<le> rstart r \<Longrightarrow>
     run_inv (array_run_union_loop cells rs c p) \<and>
     (\<forall>n. covers (rc_runs (array_run_union_loop cells rs c p)) n \<longleftrightarrow> covers (rc_runs c) n \<or> n \<in> unat ` set cells \<or> covers rs n)"
proof (induction cells rs c p rule: array_run_union_loop.induct)
  case (1 v cells r rs c p)
  show ?case
  proof (cases "rl_value r \<le> v")
    case True
    obtain c' p' where a: "run_container_append c r p = (c', p')" by (cases "run_container_append c r p")
    have s: "builds c' p' (length (v # cells) + length rs) \<and> rstart p' \<le> rstart r \<and>
        (\<forall>n. covers (rc_runs c') n \<longleftrightarrow> covers (rc_runs c) n \<or> in_run r n)"
      by (rule run_append_builds [OF _ _ _ a]) (use "1.prems" in \<open>auto simp: runs_ok_Cons\<close>)
    have "rstart r \<le> unat v" using True by (simp add: rstart_def word_le_nat_alt)
    then have "\<forall>w \<in> set (v # cells). rstart p' \<le> unat w"
      using s "1.prems"(2) by (auto simp: word_less_nat_alt)
    moreover have "\<forall>q \<in> set rs. rstart p' \<le> rstart q"
      using s runs_ok_starts [OF "1.prems"(3)] by (auto intro: order_trans)
    ultimately show ?thesis using "1.IH"(1) [OF True a [symmetric]] s "1.prems"(2,3) a True by (auto simp: runs_ok_Cons)
  next
    case False
    obtain c' p' where a: "run_container_append_value c v p = (c', p')" by (cases "run_container_append_value c v p")
    have s: "builds c' p' (length cells + length (r # rs)) \<and> rstart p' \<le> unat v \<and>
        (\<forall>n. covers (rc_runs c') n \<longleftrightarrow> covers (rc_runs c) n \<or> n = unat v)"
      by (rule run_append_value_builds [OF _ _ a]) (use "1.prems" in auto)
    have "unat v \<le> rstart r" using False by (simp add: rstart_def word_le_nat_alt)
    then have "\<forall>q \<in> set (r # rs). rstart p' \<le> rstart q"
      using s runs_ok_starts [OF "1.prems"(3)] by (auto intro: order_trans)
    moreover have "\<forall>w \<in> set cells. rstart p' \<le> unat w" using s "1.prems"(2) by (auto simp: word_less_nat_alt)
    ultimately show ?thesis using "1.IH"(2) [OF False a [symmetric]] s "1.prems"(2,3) a False by auto
  qed
next
  case (2 v cells c p)
  obtain c' p' where a: "run_container_append_value c v p = (c', p')" by (cases "run_container_append_value c v p")
  have s: "builds c' p' (length cells) \<and> rstart p' \<le> unat v \<and>
      (\<forall>n. covers (rc_runs c') n \<longleftrightarrow> covers (rc_runs c) n \<or> n = unat v)"
    by (rule run_append_value_builds [OF _ _ a]) (use "2.prems" in auto)
  then have "\<forall>w \<in> set cells. rstart p' \<le> unat w" using "2.prems"(2) by (auto simp: word_less_nat_alt)
  then show ?case using "2.IH" [OF a [symmetric]] s "2.prems" a by auto
next
  case (3 r rs c p)
  obtain c' p' where a: "run_container_append c r p = (c', p')" by (cases "run_container_append c r p")
  have s: "builds c' p' (length rs) \<and> rstart p' \<le> rstart r \<and>
      (\<forall>n. covers (rc_runs c') n \<longleftrightarrow> covers (rc_runs c) n \<or> in_run r n)"
    by (rule run_append_builds [OF _ _ _ a]) (use "3.prems" in \<open>auto simp: runs_ok_Cons\<close>)
  then have "\<forall>q \<in> set rs. rstart p' \<le> rstart q"
    using runs_ok_starts [OF "3.prems"(3)] by (auto intro: order_trans)
  then show ?case using "3.IH" [OF a [symmetric]] s "3.prems" a by (auto simp: runs_ok_Cons)
next
  case (4 c p)
  then show ?case using builds_inv by auto
qed

lemma array_run_union_merge_correct:
  assumes cells: "ssorted cells" "cells \<noteq> []" and rs: "runs_ok rs" "rs \<noteq> []"
    and c: "rc_runs c = []" "rc_n_runs c = 0" "int (length cells + length rs) \<le> rc_capacity c"
  shows "run_inv (array_run_union_merge cells rs c) \<and>
     (\<forall>n. covers (rc_runs (array_run_union_merge cells rs c)) n \<longleftrightarrow> n \<in> unat ` set cells \<or> covers rs n)"
proof -
  obtain v vs r rs' where e: "cells = v # vs" "rs = r # rs'" using cells(2) rs(2) by (auto simp: neq_Nil_conv)
  have above: "unat v \<le> unat w" if "w \<in> set cells" for w using cells(1) that by (auto simp: e word_less_nat_alt)
  show ?thesis
  proof (cases "rl_value r \<le> v")
    case True
    then have "rstart r \<le> unat v" by (simp add: rstart_def word_le_nat_alt)
    then have "\<forall>w \<in> set cells. rstart r \<le> unat w" using above by (meson order_trans)
    moreover have "\<forall>q \<in> set rs'. rstart r \<le> rstart q" using runs_ok_starts rs unfolding e by auto
    moreover have "builds (push_run c r) r (length cells + length rs')"
      by (rule builds_first) (use rs c in \<open>auto simp: e runs_ok_Cons\<close>)
    ultimately show ?thesis
      using array_run_union_loop_correct [of "push_run c r" r cells rs'] cells rs True c
      by (auto simp: array_run_union_merge_def run_container_append_first_def e runs_ok_Cons)
  next
    case False
    obtain c' p' where a: "run_container_append_value_first c v = (c', p')" by (cases "run_container_append_value_first c v")
    have s: "builds c' p' (length vs + length rs) \<and> rstart p' = unat v \<and> (\<forall>n. covers (rc_runs c') n \<longleftrightarrow> n = unat v)"
      by (rule run_append_value_first_builds [OF c(1,2) _ a]) (use c(3) in \<open>simp add: e\<close>)
    have "unat v \<le> rstart r" using False by (simp add: rstart_def word_le_nat_alt)
    then have "\<forall>q \<in> set rs. rstart p' \<le> rstart q"
      using s runs_ok_starts rs unfolding e by (auto intro: order_trans)
    moreover have "\<forall>w \<in> set vs. rstart p' \<le> unat w" using s above by (simp add: e)
    ultimately show ?thesis
      using array_run_union_loop_correct [of c' p' vs rs] s cells rs False a
      by (auto simp: array_run_union_merge_def e)
  qed
qed

text \<open>Both containers are non-empty: the code reads their first cells without a test.\<close>

lemma array_run_union_correct:
  assumes inv: "array_inv a" "run_inv r" and ne: "array_abs a \<noteq> {}" "run_abs r \<noteq> {}"
  shows "rc_runs dst = [] \<Longrightarrow> rc_n_runs dst = 0 \<Longrightarrow> run_inv (array_run_container_union a r dst) \<and>
       run_abs (array_run_container_union a r dst) = array_abs a \<union> run_abs r"
    and "run_inv (array_run_container_inplace_union a r) \<and>
       run_abs (array_run_container_inplace_union a r) = array_abs a \<union> run_abs r"
proof -
  have cells: "ac_array a \<noteq> []" "rc_runs r \<noteq> []" using ne inv by (auto simp: array_abs_def run_empty_iff)
  have merge: "run_inv (array_run_union_merge (ac_array a) (rc_runs r) c) \<and>
      run_abs (array_run_union_merge (ac_array a) (rc_runs r) c) = array_abs a \<union> run_abs r"
    if "rc_runs c = []" "rc_n_runs c = 0" "ac_cardinality a + rc_n_runs r \<le> rc_capacity c" for c
    using array_run_union_merge_correct [OF _ cells(1) _ cells(2) that(1,2)] that(3) inv
    by (auto simp: run_simps array_simps run_abs_def array_abs_def inj_image_mem_iff [OF inj_unat_u16])
  have full: "run_abs r = UNIV" if "run_container_is_full r" using that inv by (simp add: run_full_iff)
  show "run_inv (array_run_container_inplace_union a r) \<and>
       run_abs (array_run_container_inplace_union a r) = array_abs a \<union> run_abs r"
  proof (cases "run_container_is_full r")
    case False
    define m where "m = ac_cardinality a + rc_n_runs r + rc_n_runs r"
    define d where "d = (if rc_capacity r < m then run_container_grow r m True else r)"
    have "0 \<le> rc_n_runs r" using inv by (simp add: run_simps)
    moreover have "m \<le> rc_capacity d" by (simp add: d_def)
    ultimately have "rc_runs d = rc_runs r" "ac_cardinality a + rc_n_runs r \<le> rc_capacity d"
      by (simp_all add: d_def m_def)
    moreover have "array_run_container_inplace_union a r = array_run_union_merge (ac_array a) (rc_runs d) (d\<lparr>rc_n_runs := 0, rc_runs := []\<rparr>)"
      using False inv by (simp add: array_run_container_inplace_union_def Let_def cells_of_eq m_def d_def)
    ultimately show ?thesis using merge [of "d\<lparr>rc_n_runs := 0, rc_runs := []\<rparr>"] by simp
  qed (use inv full in \<open>simp add: array_run_container_inplace_union_def\<close>)
  assume dst: "rc_runs dst = []" "rc_n_runs dst = 0"
  show "run_inv (array_run_container_union a r dst) \<and>
       run_abs (array_run_container_union a r dst) = array_abs a \<union> run_abs r"
  proof (cases "run_container_is_full r")
    case False
    have "0 \<le> ac_cardinality a + rc_n_runs r" using inv by (simp add: run_simps array_simps)
    then have "ac_cardinality a + rc_n_runs r \<le> rc_capacity (run_container_grow dst (2 * (ac_cardinality a + rc_n_runs r)) False)"
      by (intro order_trans [OF _ grow_run_simps(4)]) simp
    then show ?thesis using merge [of "run_container_grow dst (2 * (ac_cardinality a + rc_n_runs r)) False"] False inv dst
      by (simp add: array_run_container_union_def Let_def cells_of_eq)
  qed (use inv full run_copy_correct [OF inv(2), of dst] in \<open>simp add: array_run_container_union_def\<close>)
qed

section \<open>Two arrays\<close>

lemma array_array_bitset_correct:
  assumes "array_inv a" and "array_inv b"
  shows "bitset_inv (array_array_bitset a b)" and "bitset_abs (array_array_bitset a b) = array_abs a \<union> array_abs b"
    and "bitset_lazy_inv (array_array_lazy_bitset a b)"
    and "bitset_abs (array_array_lazy_bitset a b) = array_abs a \<union> array_abs b"
proof -
  let ?ws = "bitset_set_list (bc_words bitset_container_create) (ac_array a)"
  have ws: "length ?ws = 1024" "words_abs ?ws = array_abs a"
    using listed_words(1,2) [OF create_words(1)] create_words(2) by (simp_all add: array_abs_def)
  have n: "ac_cardinality a = int (card (bits_of ?ws))"
    using array_inv_card [OF assms(1)] card_words_abs [OF ws(1)] ws(2) by simp
  note L = listed_bitset(1-3) [OF ws(1) n, of "ac_array b", unfolded ws(2)]
  show "bitset_inv (array_array_bitset a b)" "bitset_abs (array_array_bitset a b) = array_abs a \<union> array_abs b"
    using counted_bitset [OF L] assms
    by (simp_all add: array_array_bitset_def Let_def case_prod_unfold cells_of_eq array_abs_def)
  show "bitset_lazy_inv (array_array_lazy_bitset a b)"
    "bitset_abs (array_array_lazy_bitset a b) = array_abs a \<union> array_abs b"
    using uncounted_bitset [OF listed_words(1,2) [OF ws(1), of "ac_array b"]] ws(2) assms
    by (simp_all add: array_array_lazy_bitset_def Let_def cells_of_eq array_abs_def)
qed

lemma union_card_le: "array_inv a \<Longrightarrow> array_inv b \<Longrightarrow> ac_cardinality (array_container_union a b out) \<le> ac_cardinality a + ac_cardinality b"
  using union_length [of "ac_array a" "ac_array b"] by (simp add: array_container_union_def Let_def array_simps)

lemma array_array_union_correct:
  assumes "array_inv a" and "array_inv b"
  shows "container_inv (array_array_container_union a b) \<and> container_abs (array_array_container_union a b) = array_abs a \<union> array_abs b"
  using array_union_correct [OF assms] order_trans [OF union_card_le [OF assms], of DEFAULT_MAX_SIZE]
    bitset_or_array_correct [OF array_array_bitset_correct(1) [OF assms]] array_array_bitset_correct(2) [OF assms]
  by (simp add: array_array_container_union_def Let_def)

lemma moved_union:
  assumes "array_inv a" and "array_inv b" and "ac_cardinality a + ac_cardinality b \<le> ac_capacity a"
  shows "array_inv (a\<lparr>ac_array := union_uint16 (ac_array a) (ac_array b), ac_cardinality := int (length (union_uint16 (ac_array a) (ac_array b)))\<rparr>)"
    and "array_inv (a\<lparr>ac_array := fast_union_uint16 (ac_array a) (ac_array b), ac_cardinality := int (length (fast_union_uint16 (ac_array a) (ac_array b)))\<rparr>)"
    and "array_abs (a\<lparr>ac_array := union_uint16 (ac_array a) (ac_array b), ac_cardinality := n\<rparr>) = array_abs a \<union> array_abs b"
    and "array_abs (a\<lparr>ac_array := fast_union_uint16 (ac_array a) (ac_array b), ac_cardinality := n\<rparr>) = array_abs a \<union> array_abs b"
    and "length (union_uint16 (ac_array a) (ac_array b)) \<le> length (ac_array a) + length (ac_array b)"
proof -
  have s: "ssorted (ac_array a)" "ssorted (ac_array b)" using assms by (simp_all add: array_simps)
  have same: "fast_union_uint16 (ac_array a) (ac_array b) = union_uint16 (ac_array a) (ac_array b)"
    by (rule ssorted_set_unique)
      (use s in \<open>auto simp: fast_union_ssorted fast_union_set union_uint16_def union_generic_ssorted union_generic_set\<close>)
  show le: "length (union_uint16 (ac_array a) (ac_array b)) \<le> length (ac_array a) + length (ac_array b)"
    using union_length [OF s] by (simp add: same)
  have f: "ssorted (union_uint16 (ac_array a) (ac_array b))" using fast_union_ssorted [OF s] by (simp add: same)
  show I: "array_inv (a\<lparr>ac_array := union_uint16 (ac_array a) (ac_array b), ac_cardinality := int (length (union_uint16 (ac_array a) (ac_array b)))\<rparr>)"
    by (rule array_inv_update [OF f]) (use assms le in \<open>simp add: array_simps\<close>)
  show "array_inv (a\<lparr>ac_array := fast_union_uint16 (ac_array a) (ac_array b), ac_cardinality := int (length (fast_union_uint16 (ac_array a) (ac_array b)))\<rparr>)"
    using I by (simp add: same)
  show "array_abs (a\<lparr>ac_array := union_uint16 (ac_array a) (ac_array b), ac_cardinality := n\<rparr>) = array_abs a \<union> array_abs b"
    "array_abs (a\<lparr>ac_array := fast_union_uint16 (ac_array a) (ac_array b), ac_cardinality := n\<rparr>) = array_abs a \<union> array_abs b"
    by (simp_all add: array_abs_def fast_union_set same [symmetric])
qed

lemma array_array_inplace_union_correct:
  assumes "array_inv a" and "array_inv b"
  shows "container_inv (array_array_container_inplace_union a b) \<and>
     container_abs (array_array_container_inplace_union a b) = array_abs a \<union> array_abs b"
proof (cases "ac_cardinality a + ac_cardinality b \<le> DEFAULT_MAX_SIZE")
  case True
  have "length (union_uint16 (ac_array a) (ac_array b)) \<le> 4096"
    if "ac_cardinality a + ac_cardinality b \<le> ac_capacity a"
    using moved_union(5) [OF assms that] assms True by (simp add: array_simps)
  then show ?thesis using True array_union_correct [OF assms] order_trans [OF union_card_le [OF assms], of DEFAULT_MAX_SIZE]
      moved_union(1,3) [OF assms] assms
    by (simp add: array_array_container_inplace_union_def Let_def cells_of_eq not_less)
next
  case False
  let ?b = "array_array_bitset a b"
  have inv: "bitset_inv ?b" and abs: "bitset_abs ?b = array_abs a \<union> array_abs b" using array_array_bitset_correct [OF assms] by simp_all
  have x: "bitset_extract_setbits_uint16 (bc_words ?b) 0 = sorted_list_of_set (bitset_abs ?b)"
    using extract_sorted [of "bc_words ?b"] words_abs_wf [OF bitset_inv_wf [OF inv]] inv_words(1) [OF inv] by simp
  have le: "bc_cardinality ?b \<le> ac_capacity (if ac_capacity a < bc_cardinality ?b then array_container_grow a (bc_cardinality ?b) False else a)"
    using array_grow_capacity [of "bc_cardinality ?b" a False] card_u16_le [of "bitset_abs ?b"] bitset_inv_card [OF inv] by auto
  have c: "bc_cardinality ?b = int (length (sorted_list_of_set (bitset_abs ?b)))" using bitset_inv_card [OF inv] by simp
  show ?thesis using False inv abs x le
    by (auto simp: array_array_container_inplace_union_def Let_def array_inv_def array_abs_def c)
qed

lemma array_array_lazy_union_correct:
  assumes "array_inv a" and "array_inv b"
  shows "container_lazy_inv (array_array_container_lazy_union a b) \<and>
       container_abs (array_array_container_lazy_union a b) = array_abs a \<union> array_abs b"
    and "container_lazy_inv (array_array_container_lazy_inplace_union a b) \<and>
       container_abs (array_array_container_lazy_inplace_union a b) = array_abs a \<union> array_abs b"
  using array_union_correct [OF assms] array_array_bitset_correct(3,4) [OF assms] moved_union(2,4) [OF assms] assms
  by (auto simp: array_array_container_lazy_union_def array_array_container_lazy_inplace_union_def Let_def cells_of_eq not_less)

end
