(* ===== verification/Array_Advance.thy ===== *)
theory Array_Advance
  imports Array_Util
begin

text \<open>
  \<open>advanceUntil\<close> never goes back, on any array: the loops of the mixed operations that jump with
  it therefore end.
\<close>

lemma au_gallop_stops:
  assumes "lower < n" and "a ! lower < k"
  shows "lower + au_gallop a lower n k div 2 < n \<and> a ! (lower + au_gallop a lower n k div 2) < k
     \<and> \<not> (lower + au_gallop a lower n k < n \<and> a ! (lower + au_gallop a lower n k) < k)"
  unfolding au_gallop_def
proof (rule while_rule [where P = "\<lambda>s. 0 < s \<and> lower + s div 2 < n \<and> a ! (lower + s div 2) < k"
      and r = "measure (\<lambda>s. n - s)"])
  show "0 < (1 :: nat) \<and> lower + 1 div 2 < n \<and> a ! (lower + 1 div 2) < k" using assms by simp
qed auto

lemma au_bisect_ge:
  assumes "lower < upper"
  shows "lower \<le> au_bisect a k lower upper"
proof -
  let ?b = "\<lambda>(l, u, found). found = None \<and> l + 1 \<noteq> (u :: nat)"
  let ?c = "\<lambda>(l, u, found :: nat option).
      let mid = (l + u) div 2
      in if a ! mid = k then (l, u, Some mid)
         else if a ! mid < k then (mid, u, None) else (l, mid, None)"
  let ?P = "\<lambda>(l, u, found). lower \<le> l \<and> l < u \<and> (case found of Some m \<Rightarrow> lower \<le> m | None \<Rightarrow> True)"
  let ?r = "measure (\<lambda>(l, u, found). if found = None then Suc (u - l) else 0)"
  have step: "?P (?c s) \<and> (?c s, s) \<in> ?r" if P: "?P s" and B: "?b s" for s
  proof -
    obtain l u where s: "s = (l, u, None)" using B by (cases s) auto
    with P B have h: "lower \<le> l" "l + 1 < u" by auto
    define m where "m = (l + u) div 2"
    have "l < m" "m < u" using h by (auto simp: m_def)
    then show ?thesis using h by (auto simp: s Let_def simp flip: m_def)
  qed
  have "case while ?b ?c (lower, upper, None) of
      (l, u, found) \<Rightarrow> (case found of Some m \<Rightarrow> lower \<le> m | None \<Rightarrow> lower \<le> u)"
  proof (rule while_rule [where P = ?P and r = ?r])
    show "?P (lower, upper, None)" using assms by simp
    show "case s of (l, u, found) \<Rightarrow> (case found of Some m \<Rightarrow> lower \<le> m | None \<Rightarrow> lower \<le> u)"
      if P: "?P s" and B: "\<not> ?b s" for s
    proof -
      obtain l u f where s: "s = (l, u, f)" by (cases s)
      show ?thesis using P B by (cases f) (simp_all add: s)
    qed
    show "wf ?r" by simp
    show "?P (?c s)" if "?P s" and "?b s" for s using step [OF that] by (rule conjunct1)
    show "(?c s, s) \<in> ?r" if "?P s" and "?b s" for s using step [OF that] by (rule conjunct2)
  qed
  then show ?thesis unfolding au_bisect_def by (auto split: option.splits prod.splits)
qed

lemma advanceUntil_progress: "nat (pos + 1) \<le> advanceUntil a pos n k"
proof (cases "nat (pos + 1) \<ge> n \<or> a ! nat (pos + 1) \<ge> k")
  case False
  define lower where "lower = nat (pos + 1)"
  define s where "s = au_gallop a lower n k"
  define upper where "upper = (if lower + s < n then lower + s else n - 1)"
  have l: "lower < n" "a ! lower < k" using False by (auto simp: lower_def not_le)
  have g: "lower + s div 2 < n" "a ! (lower + s div 2) < k" using au_gallop_stops [OF l] by (auto simp: s_def)
  have le: "lower + s div 2 \<le> upper" using g(1) by (auto simp: upper_def)
  have "lower + s div 2 \<le> au_bisect a k (lower + s div 2) upper" if "\<not> a ! upper < k"
  proof (rule au_bisect_ge)
    have "upper \<noteq> lower + s div 2" using g(2) that by auto
    then show "lower + s div 2 < upper" using le by simp
  qed
  then have "lower \<le> au_bisect a k (lower + s div 2) upper" if "\<not> a ! upper < k"
    using that by (meson le_add1 order_trans)
  then show ?thesis using l le
    by (simp add: advanceUntil_def Let_def lower_def [symmetric] s_def [symmetric] upper_def [symmetric])
qed (auto simp: advanceUntil_def Let_def)

lemma advanceUntil_after: "p < advanceUntil a (int p) n k"
  using advanceUntil_progress [of "int p" a n k] by (simp add: nat_add_distrib)

lemma advanceUntil_index:
  "ssorted a \<Longrightarrow> p < length a \<Longrightarrow> advanceUntil a (int p) (length a) k = max (p + 1) (lower_bound a k)"
  using advanceUntil_correct [of a "length a" "int p" k] by (simp add: nat_add_distrib)

end
