(* ===== verification/Mixed_Intersection.thy ===== *)
theory Mixed_Intersection
  imports Mixed_Union Array_Advance
begin

text \<open>
  Intersections of containers of different types, of two bitsets, their cardinalities and tests,
  from \<open>src/containers/mixed_intersection.c\<close>. The branchless loops that write every key and
  advance only on a hit keep the keys that hit. The loops over an array and a run container work
  on the current run, the runs after it and an index in the array.
\<close>

section \<open>Definitions\<close>

definition array_bitset_container_intersection :: "array_container \<Rightarrow> bitset_container \<Rightarrow> array_container \<Rightarrow> array_container" where
  "array_bitset_container_intersection src_1 src_2 dst =
     (let dst = (if ac_capacity dst < ac_cardinality src_1 then array_container_grow dst (ac_cardinality src_1) False else dst);
          cells = filter (bitset_container_contains src_2) (cells_of src_1)
      in dst\<lparr>ac_array := cells, ac_cardinality := int (length cells)\<rparr>)"

definition array_bitset_container_intersection_cardinality :: "array_container \<Rightarrow> bitset_container \<Rightarrow> int" where
  "array_bitset_container_intersection_cardinality src_1 src_2 =
     fold (\<lambda>key newcard. newcard + of_bool (bitset_container_contains src_2 key)) (cells_of src_1) 0"

definition array_bitset_container_intersect :: "array_container \<Rightarrow> bitset_container \<Rightarrow> bool" where
  "array_bitset_container_intersect src_1 src_2 \<longleftrightarrow> (\<exists>key \<in> set (cells_of src_1). bitset_container_contains src_2 key)"

text \<open>\<open>while (rle.value + rle.length < arrayval)\<close>: \<open>None\<close> when no run is left.\<close>

fun skip_runs_below :: "u16 \<Rightarrow> rle16 \<Rightarrow> rle16 list \<Rightarrow> (rle16 \<times> rle16 list) option" where
  "skip_runs_below arrayval rle [] = (if rend rle < unat arrayval then None else Some (rle, []))"
| "skip_runs_below arrayval rle (r # rs) =
     (if rend rle < unat arrayval then skip_runs_below arrayval r rs else Some (rle, r # rs))"

function array_run_inter_loop :: "u16 list \<Rightarrow> nat \<Rightarrow> rle16 \<Rightarrow> rle16 list \<Rightarrow> u16 list" where
  "array_run_inter_loop array arraypos rle rs =
     (if arraypos < length array
      then let arrayval = array ! arraypos
           in case skip_runs_below arrayval rle rs of
                None \<Rightarrow> []
              | Some (rle, rs) \<Rightarrow>
                  if rl_value rle > arrayval
                  then array_run_inter_loop array (advanceUntil array (int arraypos) (length array) (rl_value rle)) rle rs
                  else arrayval # array_run_inter_loop array (arraypos + 1) rle rs
      else [])"
  by pat_completeness auto
termination
  by (relation "measure (\<lambda>(array, pos, rle, rs). length array - pos)") (auto intro!: diff_less_mono2 advanceUntil_after)

function array_run_icard_loop :: "u16 list \<Rightarrow> nat \<Rightarrow> rle16 \<Rightarrow> rle16 list \<Rightarrow> int \<Rightarrow> int" where
  "array_run_icard_loop array arraypos rle rs newcard =
     (if arraypos < length array
      then let arrayval = array ! arraypos
           in case skip_runs_below arrayval rle rs of
                None \<Rightarrow> newcard
              | Some (rle, rs) \<Rightarrow>
                  if rl_value rle > arrayval
                  then array_run_icard_loop array (advanceUntil array (int arraypos) (length array) (rl_value rle)) rle rs newcard
                  else array_run_icard_loop array (arraypos + 1) rle rs (newcard + 1)
      else newcard)"
  by pat_completeness auto
termination
  by (relation "measure (\<lambda>(array, pos, rle, rs, n). length array - pos)") (auto intro!: diff_less_mono2 advanceUntil_after)

function array_run_intersect_loop :: "u16 list \<Rightarrow> nat \<Rightarrow> rle16 \<Rightarrow> rle16 list \<Rightarrow> bool" where
  "array_run_intersect_loop array arraypos rle rs =
     (if arraypos < length array
      then let arrayval = array ! arraypos
           in case skip_runs_below arrayval rle rs of
                None \<Rightarrow> False
              | Some (rle, rs) \<Rightarrow>
                  if rl_value rle > arrayval
                  then array_run_intersect_loop array (advanceUntil array (int arraypos) (length array) (rl_value rle)) rle rs
                  else True
      else False)"
  by pat_completeness auto
termination
  by (relation "measure (\<lambda>(array, pos, rle, rs). length array - pos)") (auto intro!: diff_less_mono2 advanceUntil_after)

declare array_run_inter_loop.simps [simp del] array_run_icard_loop.simps [simp del] array_run_intersect_loop.simps [simp del]

text \<open>With no run at all the function returns before it writes the cardinality of \<open>dst\<close>.\<close>

definition array_run_container_intersection :: "array_container \<Rightarrow> run_container \<Rightarrow> array_container \<Rightarrow> array_container" where
  "array_run_container_intersection src_1 src_2 dst =
     (if run_container_is_full src_2 then array_container_copy src_1 dst
      else let dst = (if ac_capacity dst < ac_cardinality src_1
                      then array_container_grow dst (ac_cardinality src_1) False else dst)
           in if rc_n_runs src_2 = 0 then dst
              else let cells = array_run_inter_loop (cells_of src_1) 0 (rc_runs src_2 ! 0) (drop 1 (rc_runs src_2))
                   in dst\<lparr>ac_array := cells, ac_cardinality := int (length cells)\<rparr>)"

definition array_run_container_intersection_cardinality :: "array_container \<Rightarrow> run_container \<Rightarrow> int" where
  "array_run_container_intersection_cardinality src_1 src_2 =
     (if run_container_is_full src_2 then ac_cardinality src_1
      else if rc_n_runs src_2 = 0 then 0
      else array_run_icard_loop (cells_of src_1) 0 (rc_runs src_2 ! 0) (drop 1 (rc_runs src_2)) 0)"

definition array_run_container_intersect :: "array_container \<Rightarrow> run_container \<Rightarrow> bool" where
  "array_run_container_intersect src_1 src_2 =
     (if run_container_is_full src_2 then \<not> array_container_empty src_1
      else if rc_n_runs src_2 = 0 then False
      else array_run_intersect_loop (cells_of src_1) 0 (rc_runs src_2 ! 0) (drop 1 (rc_runs src_2)))"

text \<open>The words outside the runs are cleared: from \<open>start\<close> to each run, and from the last run to \<open>2 ^ 16\<close>.\<close>

fun reset_gaps :: "rle16 list \<Rightarrow> u32 \<Rightarrow> u64 list \<Rightarrow> u64 list" where
  "reset_gaps [] start words = bitset_reset_range words start 65536"
| "reset_gaps (r # rs) start words =
     reset_gaps rs (run_stop r) (bitset_reset_range words start (ucast (rl_value r)))"

text \<open>
  The in-place variant (\<open>*dst == src_2\<close>) works on \<open>src_2\<close> where the other one works on a clone;
  the values are the same.
\<close>

definition run_bitset_container_intersection :: "run_container \<Rightarrow> bitset_container \<Rightarrow> container_t" where
  "run_bitset_container_intersection src_1 src_2 =
     (if run_container_is_full src_1 then Bitset_c (bitset_container_clone src_2)
      else let card = run_container_cardinality src_1
           in if card \<le> DEFAULT_MAX_SIZE
              then let card = (if card > bc_cardinality src_2 then bc_cardinality src_2 else card);
                       answer = array_container_create_given_capacity card;
                       cells = filter (bitset_container_contains src_2) (run_cells (rc_runs src_1))
                   in Array_c (answer\<lparr>ac_array := cells, ac_cardinality := int (length cells)\<rparr>)
              else let answer = bitset_container_clone src_2;
                       answer = answer\<lparr>bc_words := reset_gaps (rc_runs src_1) 0 (bc_words answer)\<rparr>
                   in bitset_or_array (answer\<lparr>bc_cardinality := bitset_container_compute_cardinality answer\<rparr>))"

definition run_bitset_container_intersection_cardinality :: "run_container \<Rightarrow> bitset_container \<Rightarrow> int" where
  "run_bitset_container_intersection_cardinality src_1 src_2 =
     (if run_container_is_full src_1 then bc_cardinality src_2
      else fold (\<lambda>r answer. answer + int (bitset_lenrange_cardinality (bc_words src_2) (ucast (rl_value r)) (ucast (rl_length r))))
             (rc_runs src_1) 0)"

definition run_bitset_container_intersect :: "run_container \<Rightarrow> bitset_container \<Rightarrow> bool" where
  "run_bitset_container_intersect src_1 src_2 =
     (if run_container_is_full src_1 then \<not> bitset_container_empty src_2
      else \<exists>r \<in> set (rc_runs src_1). \<not> bitset_lenrange_empty (bc_words src_2) (ucast (rl_value r)) (ucast (rl_length r)))"

definition bitset_bitset_container_intersection :: "bitset_container \<Rightarrow> bitset_container \<Rightarrow> container_t" where
  "bitset_bitset_container_intersection src_1 src_2 =
     (let newCardinality = bitset_container_and_justcard src_1 src_2
      in if newCardinality > DEFAULT_MAX_SIZE
         then Bitset_c ((bitset_container_and_nocard src_1 src_2 bitset_container_create)\<lparr>bc_cardinality := newCardinality\<rparr>)
         else Array_c ((array_container_create_given_capacity newCardinality)
                \<lparr>ac_cardinality := newCardinality,
                 ac_array := bitset_extract_intersection_setbits_uint16 (bc_words src_1) (bc_words src_2) 0\<rparr>))"

definition bitset_bitset_container_intersection_inplace :: "bitset_container \<Rightarrow> bitset_container \<Rightarrow> container_t" where
  "bitset_bitset_container_intersection_inplace src_1 src_2 =
     (let newCardinality = bitset_container_and_justcard src_1 src_2
      in if newCardinality > DEFAULT_MAX_SIZE
         then Bitset_c ((bitset_container_and_nocard src_1 src_2 src_1)\<lparr>bc_cardinality := newCardinality\<rparr>)
         else Array_c ((array_container_create_given_capacity newCardinality)
                \<lparr>ac_cardinality := newCardinality,
                 ac_array := bitset_extract_intersection_setbits_uint16 (bc_words src_1) (bc_words src_2) 0\<rparr>))"

section \<open>An array and a bitset\<close>

lemma array_filter_correct:
  assumes "array_inv a" and "ac_cardinality a \<le> ac_capacity out"
  shows "array_inv (out\<lparr>ac_array := filter P (ac_array a), ac_cardinality := int (length (filter P (ac_array a)))\<rparr>)"
    and "array_abs (out\<lparr>ac_array := filter P (ac_array a), ac_cardinality := n\<rparr>) = {x \<in> array_abs a. P x}"
    and "int (length (filter P (ac_array a))) = int (card {x \<in> array_abs a. P x})"
    and "int (length (filter P (ac_array a))) \<le> ac_cardinality a"
proof -
  have s: "ssorted (filter P (ac_array a))" using assms(1) by (simp add: ssorted_filter array_simps)
  show len: "int (length (filter P (ac_array a))) \<le> ac_cardinality a" using assms(1) by (simp add: array_simps)
  show "array_inv (out\<lparr>ac_array := filter P (ac_array a), ac_cardinality := int (length (filter P (ac_array a)))\<rparr>)"
    by (rule array_inv_update [OF s]) (use len assms(2) in linarith)
  show "array_abs (out\<lparr>ac_array := filter P (ac_array a), ac_cardinality := n\<rparr>) = {x \<in> array_abs a. P x}"
    by (auto simp: array_abs_def)
  show "int (length (filter P (ac_array a))) = int (card {x \<in> array_abs a. P x})"
    using ssorted_card [OF s] by (simp add: array_abs_def)
qed

lemma grown_room:
  assumes "array_inv a"
  shows "ac_cardinality a \<le> ac_capacity (if ac_capacity dst < ac_cardinality a then array_container_grow dst (ac_cardinality a) False else dst)"
  using with_room_capacity [of "ac_cardinality a" dst] array_inv_bound [OF assms] by (simp add: with_room_def)

lemma array_bitset_intersection_correct:
  assumes "array_inv a" and "bitset_wf b"
  shows "array_inv (array_bitset_container_intersection a b dst)"
    and "array_abs (array_bitset_container_intersection a b dst) = array_abs a \<inter> bitset_abs b"
    and "ac_cardinality (array_bitset_container_intersection a b dst) \<le> ac_cardinality a"
    and "array_bitset_container_intersection_cardinality a b = int (card (array_abs a \<inter> bitset_abs b))"
    and "array_bitset_container_intersect a b \<longleftrightarrow> array_abs a \<inter> bitset_abs b \<noteq> {}"
proof -
  have P: "bitset_container_contains b = (\<lambda>x. x \<in> bitset_abs b)" using bitset_contains_correct [OF assms(2)] by blast
  note F = array_filter_correct [OF assms(1) grown_room [OF assms(1), of dst], where P = "\<lambda>x. x \<in> bitset_abs b"]
  show "array_inv (array_bitset_container_intersection a b dst)"
    "array_abs (array_bitset_container_intersection a b dst) = array_abs a \<inter> bitset_abs b"
    "ac_cardinality (array_bitset_container_intersection a b dst) \<le> ac_cardinality a"
    using F assms by (simp_all add: array_bitset_container_intersection_def Let_def cells_of_eq P Int_def)
  have "fold (\<lambda>key newcard. newcard + of_bool (P key)) xs n = n + int (length (filter P xs))" for P :: "u16 \<Rightarrow> bool" and xs n
    by (induction xs arbitrary: n) simp_all
  then show "array_bitset_container_intersection_cardinality a b = int (card (array_abs a \<inter> bitset_abs b))"
    using F(3) assms by (simp add: array_bitset_container_intersection_cardinality_def cells_of_eq P Int_def)
  show "array_bitset_container_intersect a b \<longleftrightarrow> array_abs a \<inter> bitset_abs b \<noteq> {}"
    using assms by (auto simp: array_bitset_container_intersect_def cells_of_eq P array_abs_def)
qed

section \<open>An array and a run container\<close>

lemma skip_runs_below_correct:
  "runs_ok (rle # rs) \<Longrightarrow>
     (case skip_runs_below v rle rs of
        None \<Rightarrow> \<forall>n \<ge> unat v. \<not> covers (rle # rs) n
      | Some (r', rs') \<Rightarrow> runs_ok (r' # rs') \<and> unat v \<le> rend r' \<and> (\<forall>n \<ge> unat v. covers (r' # rs') n \<longleftrightarrow> covers (rle # rs) n))"
proof (induction v rle rs rule: skip_runs_below.induct)
  case (2 v rle r rs)
  show ?case
  proof (cases "rend rle < unat v")
    case True
    have "runs_ok (r # rs)" using "2.prems" by (simp add: runs_ok_Cons)
    note IH = "2.IH" [OF True this]
    have "covers (rle # r # rs) n \<longleftrightarrow> covers (r # rs) n" if "unat v \<le> n" for n
      using True that by (auto simp: in_run_def)
    then show ?thesis using IH True by (auto split: option.splits)
  qed (use "2.prems" in simp)
qed (auto simp: in_run_def)

lemma array_run_inter_loop_correct:
  "ssorted array \<Longrightarrow> runs_ok (rle # rs) \<Longrightarrow>
     array_run_inter_loop array pos rle rs = filter (\<lambda>x. covers (rle # rs) (unat x)) (drop pos array)"
proof (induction array pos rle rs rule: array_run_inter_loop.induct)
  case (1 array pos rle rs)
  show ?case
  proof (cases "pos < length array")
    case lt: True
    define v where "v = array ! pos"
    have drop: "drop pos array = v # drop (pos + 1) array" using lt by (simp add: v_def Cons_nth_drop_Suc)
    have ge: "unat v \<le> unat x" if "x \<in> set (drop pos array)" for x
      using that ssorted_drop [OF "1.prems"(1), of pos] unfolding drop by (auto simp: word_less_nat_alt)
    note skip = skip_runs_below_correct [OF "1.prems"(2), of v]
    show ?thesis
    proof (cases "skip_runs_below v rle rs")
      case None
      then have "filter (\<lambda>x. covers (rle # rs) (unat x)) (drop pos array) = []"
        using skip ge by (simp add: filter_empty_conv)
      then show ?thesis using lt None by (simp add: array_run_inter_loop.simps [of array pos] v_def)
    next
      case (Some p)
      obtain r' rs' where p: "p = (r', rs')" by (cases p)
      have ok: "runs_ok (r' # rs')" and le: "unat v \<le> rend r'"
        and eq: "\<And>n. unat v \<le> n \<Longrightarrow> covers (r' # rs') n \<longleftrightarrow> covers (rle # rs) n"
        using skip by (auto simp: Some p)
      have filter: "filter (\<lambda>x. covers (rle # rs) (unat x)) (drop pos array) = filter (\<lambda>x. covers (r' # rs') (unat x)) (drop pos array)"
        using eq ge by (intro filter_cong) auto
      show ?thesis
      proof (cases "rl_value r' > v")
        case True
        let ?q = "advanceUntil array (int pos) (length array) (rl_value r')"
        have IH: "array_run_inter_loop array ?q r' rs' = filter (\<lambda>x. covers (r' # rs') (unat x)) (drop ?q array)"
          using "1.IH"(1) [OF lt v_def Some p [symmetric] True "1.prems"(1) ok] .
        have q: "?q = max (pos + 1) (lower_bound array (rl_value r'))" by (rule advanceUntil_index [OF "1.prems"(1) lt])
        have below: "x < rl_value r'" if "x \<in> set (take (?q - pos) (drop pos array))" for x
        proof -
          obtain i where i: "i < ?q - pos" "pos + i < length array" "x = array ! (pos + i)"
            using \<open>x \<in> _\<close> by (auto simp: in_set_conv_nth)
          show ?thesis
          proof (cases "i = 0")
            case False
            then have "pos + i < lower_bound array (rl_value r')" using i(1) q by (simp add: max_def split: if_splits)
            then show ?thesis using i(3) by (simp add: lower_bound_nth)
          qed (use True i(3) in \<open>simp add: v_def\<close>)
        qed
        have no: "\<not> covers (r' # rs') (unat x)" if "x < rl_value r'" for x
          using covers_from [OF ok, of "unat x"] that by (auto simp: rstart_def word_less_nat_alt)
        have "drop pos array = take (?q - pos) (drop pos array) @ drop ?q array"
        proof -
          have "drop (?q - pos) (drop pos array) = drop ?q array" using q by simp
          then show ?thesis by (metis append_take_drop_id)
        qed
        then have "filter (\<lambda>x. covers (r' # rs') (unat x)) (drop pos array)
            = filter (\<lambda>x. covers (r' # rs') (unat x)) (take (?q - pos) (drop pos array))
              @ filter (\<lambda>x. covers (r' # rs') (unat x)) (drop ?q array)" by (metis filter_append)
        moreover have "filter (\<lambda>x. covers (r' # rs') (unat x)) (take (?q - pos) (drop pos array)) = []"
          using below no by (simp add: filter_empty_conv)
        moreover have "array_run_inter_loop array pos rle rs = array_run_inter_loop array ?q r' rs'"
          using lt Some True by (simp add: array_run_inter_loop.simps [of array pos] v_def p)
        ultimately show ?thesis using IH filter by simp
      next
        case False
        have "array_run_inter_loop array (pos + 1) r' rs' = filter (\<lambda>x. covers (r' # rs') (unat x)) (drop (pos + 1) array)"
          using "1.IH"(2) [OF lt v_def Some p [symmetric] False "1.prems"(1) ok] .
        moreover have "array_run_inter_loop array pos rle rs = v # array_run_inter_loop array (pos + 1) r' rs'"
          using lt Some False by (simp add: array_run_inter_loop.simps [of array pos] v_def p)
        moreover have "covers (r' # rs') (unat v)"
          using False le by (simp add: in_run_def rstart_def word_le_nat_alt not_less)
        then have "filter (\<lambda>x. covers (r' # rs') (unat x)) (drop pos array)
            = v # filter (\<lambda>x. covers (r' # rs') (unat x)) (drop (pos + 1) array)"
          unfolding drop by (simp only: filter.simps if_True)
        ultimately show ?thesis unfolding filter by (simp only:)
      qed
    qed
  qed (simp add: array_run_inter_loop.simps [of array pos])
qed

lemma array_run_icard_loop_eq:
  "array_run_icard_loop array pos rle rs n = n + int (length (array_run_inter_loop array pos rle rs))"
proof (induction array pos rle rs n rule: array_run_icard_loop.induct)
  case (1 array pos rle rs n)
  then show ?case
    by (subst array_run_icard_loop.simps, subst array_run_inter_loop.simps) (auto simp: Let_def split: option.splits)
qed

lemma array_run_intersect_loop_eq:
  "array_run_intersect_loop array pos rle rs \<longleftrightarrow> array_run_inter_loop array pos rle rs \<noteq> []"
proof (induction array pos rle rs rule: array_run_intersect_loop.induct)
  case (1 array pos rle rs)
  then show ?case
    by (subst array_run_intersect_loop.simps, subst array_run_inter_loop.simps) (auto simp: Let_def split: option.splits)
qed

lemma array_run_cells:
  assumes "array_inv a" and "run_inv r" and "rc_n_runs r \<noteq> 0"
  shows "array_run_inter_loop (ac_array a) 0 (rc_runs r ! 0) (drop 1 (rc_runs r)) = filter (\<lambda>x. x \<in> run_abs r) (ac_array a)"
proof -
  obtain q qs where q: "rc_runs r = q # qs" using assms(2,3) by (cases "rc_runs r") (auto simp: run_inv_def)
  then show ?thesis using array_run_inter_loop_correct [of "ac_array a" q qs 0] assms
    by (simp add: array_simps run_simps run_abs_def) (metis run_inv_simps(1))
qed

text \<open>A run container with no run only gives the right result in an empty \<open>dst\<close>.\<close>

lemma array_run_intersection_correct:
  assumes inv: "array_inv a" "run_inv r" and dst: "run_abs r \<noteq> {} \<or> dst = array_container_create_given_capacity n \<and> 0 \<le> n"
  shows "array_inv (array_run_container_intersection a r dst)"
    and "array_abs (array_run_container_intersection a r dst) = array_abs a \<inter> run_abs r"
    and "ac_cardinality (array_run_container_intersection a r dst) \<le> ac_cardinality a"
proof -
  let ?d = "if ac_capacity dst < ac_cardinality a then array_container_grow dst (ac_cardinality a) False else dst"
  note F = array_filter_correct [OF inv(1) grown_room [OF inv(1), of dst], where P = "\<lambda>x. x \<in> run_abs r"]
  have full: "run_abs r = UNIV" if "run_container_is_full r" using that inv by (simp add: run_full_iff)
  have zero: "run_abs r = {}" if "rc_n_runs r = 0" using that inv by (simp add: run_empty_iff run_inv_def)
  have empty: "array_inv ?d \<and> array_abs ?d = {} \<and> ac_cardinality ?d = 0" if "rc_n_runs r = 0"
    using zero [OF that] dst grown_room [OF inv(1), of dst] array_inv_bound [OF inv(1)]
    by (auto simp: array_container_create_given_capacity_def array_container_grow_def Let_def array_inv_def array_abs_def
        split: if_splits)
  have "array_inv (array_run_container_intersection a r dst) \<and>
    array_abs (array_run_container_intersection a r dst) = array_abs a \<inter> run_abs r \<and>
    ac_cardinality (array_run_container_intersection a r dst) \<le> ac_cardinality a"
  proof (cases "run_container_is_full r")
    case True
    then show ?thesis using array_copy_correct [OF inv(1), of dst] inv(1) full
      by (simp add: array_run_container_intersection_def array_abs_def array_simps)
  next
    case False
    then show ?thesis using F empty zero array_run_cells [OF inv] array_inv_bound [OF inv(1)] inv(1)
      by (auto simp: array_run_container_intersection_def Let_def cells_of_eq Int_def)
  qed
  then show "array_inv (array_run_container_intersection a r dst)"
    "array_abs (array_run_container_intersection a r dst) = array_abs a \<inter> run_abs r"
    "ac_cardinality (array_run_container_intersection a r dst) \<le> ac_cardinality a" by simp_all
qed

lemma array_run_intersection_counts:
  assumes inv: "array_inv a" "run_inv r"
  shows "array_run_container_intersection_cardinality a r = int (card (array_abs a \<inter> run_abs r))"
    and "array_run_container_intersect a r \<longleftrightarrow> array_abs a \<inter> run_abs r \<noteq> {}"
proof -
  note F = array_filter_correct [OF inv(1) grown_room [OF inv(1), of a], where P = "\<lambda>x. x \<in> run_abs r"]
  have full: "run_abs r = UNIV" if "run_container_is_full r" using that inv by (simp add: run_full_iff)
  have zero: "run_abs r = {}" if "rc_n_runs r = 0" using that inv by (simp add: run_empty_iff run_inv_def)
  have e: "array_container_empty a \<longleftrightarrow> array_abs a = {}" using inv(1) by (simp add: array_container_empty_def array_inv_def array_abs_def)
  show "array_run_container_intersection_cardinality a r = int (card (array_abs a \<inter> run_abs r))"
    unfolding array_run_container_intersection_cardinality_def cells_of_eq [OF inv(1)] array_run_icard_loop_eq
    using F(3) full zero array_run_cells [OF inv] array_inv_card [OF inv(1)] by (simp add: Int_def)
  have "filter (\<lambda>x. x \<in> run_abs r) (ac_array a) \<noteq> [] \<longleftrightarrow> array_abs a \<inter> run_abs r \<noteq> {}"
    by (auto simp: filter_empty_conv array_abs_def)
  then show "array_run_container_intersect a r \<longleftrightarrow> array_abs a \<inter> run_abs r \<noteq> {}"
    using full zero array_run_cells [OF inv] e inv(1)
    by (simp add: array_run_container_intersect_def cells_of_eq array_run_intersect_loop_eq)
qed

section \<open>A run container and a bitset\<close>

lemma reset_gaps_correct:
  "runs_ok rs \<Longrightarrow> length ws = 1024 \<Longrightarrow> unat s \<le> 65536 \<Longrightarrow> \<forall>r \<in> set rs. unat s \<le> rstart r \<Longrightarrow>
     length (reset_gaps rs s ws) = 1024 \<and>
     bits_of (reset_gaps rs s ws) = {n \<in> bits_of ws. n < unat s \<or> covers rs n}"
proof (induction rs s ws rule: reset_gaps.induct)
  case (1 s ws)
  then show ?case using bits_of_ranges(2) [of ws s 65536] bits_of_less [of ws] by auto
next
  case (2 r rs s ws)
  let ?ws = "bitset_reset_range ws s (ucast (rl_value r))"
  have start: "unat (ucast (rl_value r) :: u32) = rstart r" by (simp add: rstart_def)
  have ok: "runs_ok rs" and lt: "rend r < 65536" and sep: "\<forall>q \<in> set rs. rend r + 1 < rstart q"
    using "2.prems"(1) by (simp_all add: runs_ok_Cons)
  have ws: "length ?ws = 1024" "bits_of ?ws = bits_of ws - {unat s ..< rstart r}"
    using bits_of_ranges(2) [of ws s "ucast (rl_value r)"] "2.prems"(2,4) less_imp_le [OF rstart_less [of r]]
    unfolding start by simp_all
  have IH: "length (reset_gaps rs (run_stop r) ?ws) = 1024 \<and>
      bits_of (reset_gaps rs (run_stop r) ?ws) = {n \<in> bits_of ?ws. n < unat (run_stop r) \<or> covers rs n}"
    by (rule "2.IH" [OF ok ws(1)]) (use lt sep in \<open>auto simp: run_stop_unat\<close>)
  have tail: "rend r + 1 < n" if "covers rs n" for n using covers_tail [OF "2.prems"(1) that] .
  have "n \<in> bits_of ?ws \<and> (n < unat (run_stop r) \<or> covers rs n) \<longleftrightarrow> n \<in> bits_of ws \<and> (n < unat s \<or> covers (r # rs) n)" for n
    using tail [of n] "2.prems"(4) rstart_le_rend [of r] by (auto simp: ws run_stop_unat in_run_def)
  then show ?case using IH by auto
qed

lemma clone_words: "bc_words (bitset_container_clone b) = bc_words b" "bc_cardinality (bitset_container_clone b) = bc_cardinality b"
  by (simp_all add: bitset_container_clone_def)

lemma bitset_clone_eq: "bitset_container_clone b = b"
  by (simp add: bitset_container_clone_def)

lemma reset_gaps_abs:
  assumes "run_inv r" and "bitset_wf b"
  shows "length (reset_gaps (rc_runs r) 0 (bc_words b)) = 1024"
    and "words_abs (reset_gaps (rc_runs r) 0 (bc_words b)) = run_abs r \<inter> bitset_abs b"
  using reset_gaps_correct [of "rc_runs r" "bc_words b" 0] assms abs_of_bits [OF assms(2)]
  by (auto simp: run_simps bitset_wf_def words_abs_def run_abs_def)

lemma run_cells_filter:
  fixes P :: "u16 \<Rightarrow> bool"
  assumes inv: "run_inv r"
  defines "cells \<equiv> filter P (run_cells (rc_runs r))"
  shows "ssorted cells" and "set cells = {x \<in> run_abs r. P x}" and "length cells = card {x \<in> run_abs r. P x}"
proof -
  show s: "ssorted cells" and e: "set cells = {x \<in> run_abs r. P x}"
    using run_cells_sorted [OF inv] by (auto simp: cells_def ssorted_filter)
  show "length cells = card {x \<in> run_abs r. P x}" using ssorted_card [OF s] e by simp
qed

lemma sorted_array:
  assumes "ssorted cells" and "int (length cells) \<le> m"
  shows "array_inv ((array_container_create_given_capacity m)\<lparr>ac_array := cells, ac_cardinality := int (length cells)\<rparr>)"
    and "array_abs ((array_container_create_given_capacity m)\<lparr>ac_array := cells, ac_cardinality := k\<rparr>) = set cells"
  using assms by (simp_all add: array_inv_def array_abs_def array_container_create_given_capacity_def)

lemma run_bitset_intersection_correct:
  assumes inv: "run_inv r" "bitset_inv b" and big: "4096 < bc_cardinality b"
  shows "container_inv (run_bitset_container_intersection r b)"
    and "container_abs (run_bitset_container_intersection r b) = run_abs r \<inter> bitset_abs b"
proof -
  have wf: "bitset_wf b" using inv(2) by (rule bitset_inv_wf)
  have P: "bitset_container_contains b = (\<lambda>x. x \<in> bitset_abs b)" using bitset_contains_correct [OF wf] by blast
  have full: "run_abs r = UNIV" if "run_container_is_full r" using that inv(1) by (simp add: run_full_iff)
  note C = run_cells_filter [OF inv(1), where P = "\<lambda>x. x \<in> bitset_abs b"]
  have n: "run_container_cardinality r = int (card (run_abs r))" by (rule rc.cardinality_abs [OF inv(1)])
  have le: "card {x \<in> run_abs r. x \<in> bitset_abs b} \<le> card (run_abs r)" by (rule card_mono) auto
  have G: "bitset_inv (b\<lparr>bc_words := reset_gaps (rc_runs r) 0 (bc_words b), bc_cardinality := bitset_container_compute_cardinality
      (b\<lparr>bc_words := reset_gaps (rc_runs r) 0 (bc_words b)\<rparr>)\<rparr>)"
    "bitset_abs (b\<lparr>bc_words := reset_gaps (rc_runs r) 0 (bc_words b), bc_cardinality := bitset_container_compute_cardinality
      (b\<lparr>bc_words := reset_gaps (rc_runs r) 0 (bc_words b)\<rparr>)\<rparr>) = run_abs r \<inter> bitset_abs b"
    by (rule recounted_bitset [OF reset_gaps_abs [OF inv(1) wf]])+
  have "container_inv (run_bitset_container_intersection r b) \<and>
    container_abs (run_bitset_container_intersection r b) = run_abs r \<inter> bitset_abs b"
  proof (cases "run_container_is_full r")
    case True
    then show ?thesis using full inv big by (simp add: run_bitset_container_intersection_def bitset_clone_eq)
  next
    case nf: False
    show ?thesis
    proof (cases "run_container_cardinality r \<le> 4096")
      case True
      then have "(if run_container_cardinality r > bc_cardinality b then bc_cardinality b else run_container_cardinality r)
          = run_container_cardinality r" using big by simp
      then show ?thesis using sorted_array [OF C(1), of "run_container_cardinality r"] C(2,3) n le True nf
        by (auto simp: run_bitset_container_intersection_def Let_def P)
    next
      case False
      then show ?thesis using nf bitset_or_array_correct [OF G(1)] G(2)
        by (simp add: run_bitset_container_intersection_def Let_def bitset_clone_eq)
    qed
  qed
  then show "container_inv (run_bitset_container_intersection r b)"
    "container_abs (run_bitset_container_intersection r b) = run_abs r \<inter> bitset_abs b" by simp_all
qed

lemma lenrange_of_run:
  assumes "bitset_wf b" and "rend r < 65536"
  shows "bitset_lenrange_cardinality (bc_words b) (ucast (rl_value r)) (ucast (rl_length r))
       = card {x \<in> bitset_abs b. in_run r (unat x)}"
    and "bitset_lenrange_empty (bc_words b) (ucast (rl_value r)) (ucast (rl_length r))
       \<longleftrightarrow> {x \<in> bitset_abs b. in_run r (unat x)} = {}"
proof -
  let ?S = "{n. rstart r \<le> n \<and> n \<le> rend r \<and> wbit (bc_words b) n}"
  have S: "?S = unat ` {x \<in> bitset_abs b. in_run r (unat x)}"
  proof (intro set_eqI iffI)
    fix n assume n: "n \<in> ?S"
    then have "n < 65536" using assms(2) by simp
    then have u: "unat (word_of_nat n :: u16) = n" by simp
    then have "(word_of_nat n :: u16) \<in> {x \<in> bitset_abs b. in_run r (unat x)}" using n by (simp add: bitset_abs_def in_run_def)
    then show "n \<in> unat ` {x \<in> bitset_abs b. in_run r (unat x)}" using u by (metis (no_types, lifting) image_eqI)
  qed (auto simp: bitset_abs_def in_run_def)
  have b: "rstart r + unat (rl_length r) = rend r" by (simp add: rstart_def rend_def)
  have len: "length (bc_words b) = 1024" using assms(1) by (simp add: bitset_wf_def)
  show "bitset_lenrange_cardinality (bc_words b) (ucast (rl_value r)) (ucast (rl_length r))
       = card {x \<in> bitset_abs b. in_run r (unat x)}"
    "bitset_lenrange_empty (bc_words b) (ucast (rl_value r)) (ucast (rl_length r))
       \<longleftrightarrow> {x \<in> bitset_abs b. in_run r (unat x)} = {}"
    using lenrange_counts [of "ucast (rl_value r)" "ucast (rl_length r)" "bc_words b"] S b assms(2) len
    by (simp_all add: card_image inj_unat_word flip: rstart_def)
qed

lemma run_bitset_icard_fold:
  "bitset_wf b \<Longrightarrow> runs_ok rs \<Longrightarrow>
     fold (\<lambda>r answer. answer + int (bitset_lenrange_cardinality (bc_words b) (ucast (rl_value r)) (ucast (rl_length r)))) rs n
       = n + int (card {x \<in> bitset_abs b. covers rs (unat x)})"
proof (induction rs arbitrary: n)
  case (Cons r rs)
  have ok: "runs_ok rs" and e: "rend r < 65536" using Cons.prems(2) by (simp_all add: runs_ok_Cons)
  have "{x \<in> bitset_abs b. covers (r # rs) (unat x)} = {x \<in> bitset_abs b. in_run r (unat x)} \<union> {x \<in> bitset_abs b. covers rs (unat x)}"
    by auto
  moreover have "{x \<in> bitset_abs b. in_run r (unat x)} \<inter> {x \<in> bitset_abs b. covers rs (unat x)} = {}"
    using covers_tail [OF Cons.prems(2)] by (fastforce simp: in_run_def)
  ultimately have "card {x \<in> bitset_abs b. covers (r # rs) (unat x)}
      = card {x \<in> bitset_abs b. in_run r (unat x)} + card {x \<in> bitset_abs b. covers rs (unat x)}"
    by (simp add: card_Un_disjoint)
  then show ?case using Cons.IH [OF Cons.prems(1) ok] lenrange_of_run(1) [OF Cons.prems(1) e] by simp
qed simp

lemma run_bitset_intersection_counts:
  assumes inv: "run_inv r" "bitset_inv b"
  shows "run_bitset_container_intersection_cardinality r b = int (card (run_abs r \<inter> bitset_abs b))"
    and "run_bitset_container_intersect r b \<longleftrightarrow> run_abs r \<inter> bitset_abs b \<noteq> {}"
proof -
  have wf: "bitset_wf b" using inv(2) by (rule bitset_inv_wf)
  have ok: "runs_ok (rc_runs r)" using inv(1) by (rule run_inv_simps)
  have full: "run_abs r = UNIV" if "run_container_is_full r" using that inv(1) by (simp add: run_full_iff)
  have "{x \<in> bitset_abs b. covers (rc_runs r) (unat x)} = run_abs r \<inter> bitset_abs b" by (auto simp: run_abs_def)
  then show "run_bitset_container_intersection_cardinality r b = int (card (run_abs r \<inter> bitset_abs b))"
    using full run_bitset_icard_fold [OF wf ok, of 0] bitset_inv_card [OF inv(2)]
    by (simp add: run_bitset_container_intersection_cardinality_def)
  have "(\<exists>q \<in> set (rc_runs r). \<not> bitset_lenrange_empty (bc_words b) (ucast (rl_value q)) (ucast (rl_length q)))
      \<longleftrightarrow> run_abs r \<inter> bitset_abs b \<noteq> {}"
    using lenrange_of_run(2) [OF wf run_ends [OF ok]] by (auto simp: run_abs_def covers_def)
  then show "run_bitset_container_intersect r b \<longleftrightarrow> run_abs r \<inter> bitset_abs b \<noteq> {}"
    using full bitset_container_empty_correct [OF bitset_inv_lazy [OF inv(2)]]
    by (simp add: run_bitset_container_intersect_def)
qed

section \<open>Two bitsets\<close>

lemma bitset_bitset_intersection_correct:
  assumes "bitset_wf a" and "bitset_wf b"
  shows "container_inv (bitset_bitset_container_intersection a b)"
    and "container_abs (bitset_bitset_container_intersection a b) = bitset_abs a \<inter> bitset_abs b"
    and "container_inv (bitset_bitset_container_intersection_inplace a b)"
    and "container_abs (bitset_bitset_container_intersection_inplace a b) = bitset_abs a \<inter> bitset_abs b"
proof -
  let ?ws = "map2 (AND) (bc_words a) (bc_words b)"
  have l: "length (bc_words a) = 1024" "length (bc_words b) = 1024" "length ?ws = 1024" using assms by (simp_all add: bitset_wf_def)
  have abs: "words_abs ?ws = bitset_abs a \<inter> bitset_abs b"
    using map2_abs(2) [OF assms bitwise_ops(2), of "\<lparr>bc_cardinality = 0, bc_words = ?ws\<rparr>"] bitset_abs_words(3) [OF l(3), of 0] by auto
  have n: "bitset_container_and_justcard a b = int (card (bitset_abs a \<inter> bitset_abs b))" by (rule bitset_justcard_correct(2) [OF assms])
  have bits: "bitset_inv ((bitset_container_and_nocard a b d)\<lparr>bc_cardinality := bitset_container_and_justcard a b\<rparr>)"
    "bitset_abs ((bitset_container_and_nocard a b d)\<lparr>bc_cardinality := bitset_container_and_justcard a b\<rparr>) = bitset_abs a \<inter> bitset_abs b" for d
    using counted_bitset [OF l(3) abs n, of d] by (simp_all add: bitset_container_and_nocard_def bitset_container_fn_nocard_def)
  have cells: "bitset_extract_intersection_setbits_uint16 (bc_words a) (bc_words b) 0 = sorted_list_of_set (bitset_abs a \<inter> bitset_abs b)"
    using extract_intersection_positions [of "bc_words a" "bc_words b" 0] extract_sorted [OF l(3)] abs l by simp
  show "container_inv (bitset_bitset_container_intersection a b)"
    "container_abs (bitset_bitset_container_intersection a b) = bitset_abs a \<inter> bitset_abs b"
    "container_inv (bitset_bitset_container_intersection_inplace a b)"
    "container_abs (bitset_bitset_container_intersection_inplace a b) = bitset_abs a \<inter> bitset_abs b"
    using bits sorted_cells_container [OF cells n]
    by (auto simp: bitset_bitset_container_intersection_def bitset_bitset_container_intersection_inplace_def Let_def
        array_container_create_given_capacity_def)
qed

end
