(* ===== verification/Mixed_Tests.thy ===== *)
theory Mixed_Tests
  imports Mixed_Intersection
begin

text \<open>
  Subset and equality tests between containers of different types, from
  \<open>src/containers/mixed_subset.c\<close> and \<open>src/containers/mixed_equal.c\<close>. They compare cardinalities
  where these are known and then walk over runs, cells or bits; an early \<open>return false\<close> out of
  the loop over the bits of a word is the result \<open>None\<close> of that loop.
\<close>

section \<open>Definitions\<close>

definition array_container_is_subset_bitset :: "array_container \<Rightarrow> bitset_container \<Rightarrow> bool" where
  "array_container_is_subset_bitset container1 container2 =
     (if bc_cardinality container2 \<noteq> BITSET_UNKNOWN_CARDINALITY \<and> bc_cardinality container2 < ac_cardinality container1
      then False
      else \<forall>v \<in> set (cells_of container1). bitset_container_contains container2 v)"

fun run_subset_array_loop :: "rle16 list \<Rightarrow> u16 list \<Rightarrow> int \<Rightarrow> bool" where
  "run_subset_array_loop [] array stop_pos = True"
| "run_subset_array_loop (r # rs) array stop_pos =
     (let start_pos = advanceUntil array stop_pos (length array) (word_of_nat (rstart r));
          stop_pos = advanceUntil array stop_pos (length array) (word_of_nat (rend r))
      in if stop_pos = length array then False
         else if int stop_pos - int start_pos \<noteq> int (rend r) - int (rstart r) \<or> unat (array ! start_pos) \<noteq> rstart r
              \<or> unat (array ! stop_pos) \<noteq> rend r then False
         else run_subset_array_loop rs array (int stop_pos))"

definition run_container_is_subset_array :: "run_container \<Rightarrow> array_container \<Rightarrow> bool" where
  "run_container_is_subset_array container1 container2 =
     (if run_container_cardinality container1 > ac_cardinality container2 then False
      else run_subset_array_loop (rc_runs container1) (cells_of container2) (- 1))"

fun array_subset_run_loop :: "u16 list \<Rightarrow> rle16 list \<Rightarrow> bool" where
  "array_subset_run_loop [] rs = True"
| "array_subset_run_loop (v # cells) [] = False"
| "array_subset_run_loop (v # cells) (r # rs) =
     (if unat v < rstart r then False
      else if unat v > rend r then array_subset_run_loop (v # cells) rs
      else array_subset_run_loop cells (r # rs))"

definition array_container_is_subset_run :: "array_container \<Rightarrow> run_container \<Rightarrow> bool" where
  "array_container_is_subset_run container1 container2 =
     (if ac_cardinality container1 > run_container_cardinality container2 then False
      else array_subset_run_loop (cells_of container1) (rc_runs container2))"

definition run_container_is_subset_bitset :: "run_container \<Rightarrow> bitset_container \<Rightarrow> bool" where
  "run_container_is_subset_bitset container1 container2 =
     (let card = (if bc_cardinality container2 \<noteq> BITSET_UNKNOWN_CARDINALITY then bc_cardinality container2
                  else bitset_container_compute_cardinality container2)
      in if card < run_container_cardinality container1 then False
         else \<forall>r \<in> set (rc_runs container1). \<forall>j \<in> set [rstart r ..< Suc (rend r)].
                bitset_container_contains container2 (word_of_nat j))"

text \<open>The bits of one word against the runs that are left.\<close>

function subset_run_word :: "u64 \<Rightarrow> nat \<Rightarrow> rle16 list \<Rightarrow> (u64 \<times> rle16 list) option" where
  "subset_run_word w i_bitset [] = Some (w, [])"
| "subset_run_word w i_bitset (r # rs) =
     (if w \<noteq> 0
      then let t = w AND (NOT w + 1);
               v = word_of_nat (i_bitset * 64 + roaring_trailing_zeroes w) :: u16
           in if unat v < rstart r then None
              else if unat v > rend r then subset_run_word w i_bitset rs
              else subset_run_word (w XOR t) i_bitset (r # rs)
      else Some (w, r # rs))"
  by pat_completeness auto
termination
  by (relation "measures [\<lambda>(w, i, rs). length rs, \<lambda>(w, i, rs). roaring_hamming w]")
    (auto simp: xor_lowest clear_lowest_less)

declare subset_run_word.simps(2) [simp del]

fun subset_run_words :: "u64 list \<Rightarrow> nat \<Rightarrow> rle16 list \<Rightarrow> bool" where
  "subset_run_words [] i_bitset rs = True"
| "subset_run_words (w # words) i_bitset [] \<longleftrightarrow> (\<forall>w \<in> set (w # words). w = 0)"
| "subset_run_words (w # words) i_bitset (r # rs) =
     (case subset_run_word w i_bitset (r # rs) of
        None \<Rightarrow> False
      | Some (w, rs) \<Rightarrow> if w = 0 then subset_run_words words (i_bitset + 1) rs else False)"

definition bitset_container_is_subset_run :: "bitset_container \<Rightarrow> run_container \<Rightarrow> bool" where
  "bitset_container_is_subset_run container1 container2 =
     (if bc_cardinality container1 \<noteq> BITSET_UNKNOWN_CARDINALITY
         \<and> bc_cardinality container1 > run_container_cardinality container2 then False
      else subset_run_words (bc_words container1) 0 (rc_runs container2))"

text \<open>The bits of one word against the cells that are left.\<close>

function equal_word :: "u64 \<Rightarrow> nat \<Rightarrow> u16 list \<Rightarrow> u16 list option" where
  "equal_word w i cells =
     (if w \<noteq> 0
      then let t = w AND (NOT w + 1);
               r = word_of_nat (i * 64 + roaring_trailing_zeroes w) :: u16
           in case cells of [] \<Rightarrow> None
              | c # cells \<Rightarrow> if c \<noteq> r then None else equal_word (w XOR t) i cells
      else Some cells)"
  by pat_completeness auto
termination
  by (relation "measure (\<lambda>(w, i, cells). roaring_hamming w)") (auto simp: xor_lowest clear_lowest_less)

declare equal_word.simps [simp del]

fun equal_words :: "u64 list \<Rightarrow> nat \<Rightarrow> u16 list \<Rightarrow> bool" where
  "equal_words [] i cells \<longleftrightarrow> cells = []"
| "equal_words (w # words) i cells =
     (case equal_word w i cells of None \<Rightarrow> False | Some cells \<Rightarrow> equal_words words (i + 1) cells)"

definition array_container_equal_bitset :: "array_container \<Rightarrow> bitset_container \<Rightarrow> bool" where
  "array_container_equal_bitset container1 container2 =
     (if bc_cardinality container2 \<noteq> BITSET_UNKNOWN_CARDINALITY \<and> bc_cardinality container2 \<noteq> ac_cardinality container1
      then False
      else equal_words (bc_words container2) 0 (cells_of container1))"

fun run_equals_array_loop :: "rle16 list \<Rightarrow> u16 list \<Rightarrow> nat \<Rightarrow> bool" where
  "run_equals_array_loop [] array pos = True"
| "run_equals_array_loop (r # rs) array pos =
     (let run_start = rstart r; le = unat (rl_length r)
      in if unat (array ! pos) \<noteq> run_start then False
         else if unat (array ! (pos + le)) \<noteq> run_start + le then False
         else run_equals_array_loop rs array (pos + (le + 1)))"

definition run_container_equals_array :: "run_container \<Rightarrow> array_container \<Rightarrow> bool" where
  "run_container_equals_array container1 container2 =
     (if run_container_cardinality container1 \<noteq> ac_cardinality container2 then False
      else run_equals_array_loop (rc_runs container1) (ac_array container2) 0)"

definition run_container_equals_bitset :: "run_container \<Rightarrow> bitset_container \<Rightarrow> bool" where
  "run_container_equals_bitset container1 container2 =
     (let run_card = run_container_cardinality container1;
          bitset_card = (if bc_cardinality container2 \<noteq> BITSET_UNKNOWN_CARDINALITY then bc_cardinality container2
                         else bitset_container_compute_cardinality container2)
      in if bitset_card \<noteq> run_card then False
         else \<forall>r \<in> set (rc_runs container1).
                if rl_length r \<noteq> 0 then bitset_container_contains_range container2 (ucast (rl_value r)) (run_stop r)
                else bitset_container_contains container2 (rl_value r))"

section \<open>Tests against a bitset\<close>

lemma array_subset_bitset_correct:
  assumes "array_inv a" and "bitset_lazy_inv b"
  shows "array_container_is_subset_bitset a b \<longleftrightarrow> array_abs a \<subseteq> bitset_abs b"
proof -
  have le: "card (array_abs a) \<le> card (bitset_abs b)" if "array_abs a \<subseteq> bitset_abs b" using that by (simp add: card_mono)
  have all: "(\<forall>v \<in> set (ac_array a). bitset_container_contains b v) \<longleftrightarrow> array_abs a \<subseteq> bitset_abs b"
    using bitset_contains_correct [OF bitset_lazy_wf [OF assms(2)]] by (auto simp: array_abs_def)
  have "bc_cardinality b \<noteq> BITSET_UNKNOWN_CARDINALITY \<and> bc_cardinality b < ac_cardinality a
      \<Longrightarrow> \<not> array_abs a \<subseteq> bitset_abs b"
    using le assms(2) array_inv_card [OF assms(1)] by (auto simp: bitset_lazy_inv_def)
  then show ?thesis unfolding array_container_is_subset_bitset_def cells_of_eq [OF assms(1)] all by auto
qed

lemma lazy_card:
  assumes "bitset_lazy_inv b"
  shows "(if bc_cardinality b \<noteq> BITSET_UNKNOWN_CARDINALITY then bc_cardinality b
      else bitset_container_compute_cardinality b) = int (card (bitset_abs b))"
  using assms compute_cardinality_correct by (auto simp: bitset_lazy_inv_def)

lemma run_values_in:
  assumes "runs_ok (rc_runs r)"
  shows "run_abs r \<subseteq> S \<longleftrightarrow> (\<forall>q \<in> set (rc_runs r). \<forall>j \<in> set [rstart q ..< Suc (rend q)]. word_of_nat j \<in> S)"
proof
  assume sub: "run_abs r \<subseteq> S"
  show "\<forall>q \<in> set (rc_runs r). \<forall>j \<in> set [rstart q ..< Suc (rend q)]. word_of_nat j \<in> S"
  proof (intro ballI)
    fix q j assume q: "q \<in> set (rc_runs r)" and j: "j \<in> set [rstart q ..< Suc (rend q)]"
    have in_q: "rstart q \<le> j" "j \<le> rend q" using j by (auto simp del: upt_Suc)
    then have "unat (word_of_nat j :: u16) = j" using run_ends [OF assms q] by simp
    then have "word_of_nat j \<in> run_abs r" using q in_q by (auto simp: run_abs_def covers_def in_run_def)
    then show "word_of_nat j \<in> S" using sub by blast
  qed
next
  assume all: "\<forall>q \<in> set (rc_runs r). \<forall>j \<in> set [rstart q ..< Suc (rend q)]. word_of_nat j \<in> S"
  show "run_abs r \<subseteq> S"
  proof
    fix x assume "x \<in> run_abs r"
    then obtain q where "q \<in> set (rc_runs r)" "rstart q \<le> unat x" "unat x \<le> rend q"
      by (auto simp: run_abs_def covers_def in_run_def)
    then have "q \<in> set (rc_runs r)" "unat x \<in> set [rstart q ..< Suc (rend q)]" by (auto simp del: upt_Suc)
    from bspec [OF bspec [OF all this(1)] this(2)] show "x \<in> S" by simp
  qed
qed

lemma run_subset_bitset_correct:
  assumes "run_inv r" and "bitset_lazy_inv b"
  shows "run_container_is_subset_bitset r b \<longleftrightarrow> run_abs r \<subseteq> bitset_abs b"
proof -
  have le: "card (run_abs r) \<le> card (bitset_abs b)" if "run_abs r \<subseteq> bitset_abs b" using that by (simp add: card_mono)
  show ?thesis
    unfolding run_container_is_subset_bitset_def Let_def lazy_card [OF assms(2)]
      bitset_contains_correct [OF bitset_lazy_wf [OF assms(2)]] rc.cardinality_abs [OF assms(1)]
      run_values_in [OF run_inv_simps(1) [OF assms(1)], symmetric]
    using le by auto
qed

lemma run_equals_bitset_correct:
  assumes "run_inv r" and "bitset_lazy_inv b"
  shows "run_container_equals_bitset r b \<longleftrightarrow> run_abs r = bitset_abs b"
proof -
  have wf: "bitset_wf b" using assms(2) by (rule bitset_lazy_wf)
  have ok: "runs_ok (rc_runs r)" using assms(1) by (rule run_inv_simps)
  have one: "(if rl_length q \<noteq> 0 then bitset_container_contains_range b (ucast (rl_value q)) (run_stop q)
        else bitset_container_contains b (rl_value q)) \<longleftrightarrow> {x. in_run q (unat x)} \<subseteq> bitset_abs b"
    if q: "q \<in> set (rc_runs r)" for q
  proof (cases "rl_length q = 0")
    case True
    then have "{x. in_run q (unat x)} = {rl_value q}"
      by (auto simp: in_run_def rstart_def rend_def word_unat_eq_iff)
    then show ?thesis using True bitset_contains_correct [OF wf] by simp
  next
    case False
    have "unat (ucast (rl_value q) :: u32) = rstart q" by (simp add: rstart_def)
    moreover have "unat (run_stop q) = rend q + 1" by (rule run_stop_unat)
    moreover have "u16_range (rstart q) (rend q + 1) = {x. in_run q (unat x)}" by (auto simp: in_run_def)
    ultimately show ?thesis using False bitset_get_range_correct [OF wf, of "ucast (rl_value q)" "run_stop q"]
        run_ends [OF ok q] rstart_le_rend [of q] by (simp add: bitset_container_contains_range_def)
  qed
  have "(\<forall>q \<in> set (rc_runs r). {x :: u16. in_run q (unat x)} \<subseteq> bitset_abs b) \<longleftrightarrow> run_abs r \<subseteq> bitset_abs b"
    by (auto simp: run_abs_def covers_def)
  moreover have "card (bitset_abs b) = card (run_abs r) \<and> run_abs r \<subseteq> bitset_abs b \<longleftrightarrow> run_abs r = bitset_abs b"
    using card_subset_eq [of "bitset_abs b" "run_abs r"] by auto
  ultimately show ?thesis
    unfolding run_container_equals_bitset_def Let_def lazy_card [OF assms(2)]
    using one rc.cardinality_abs [OF assms(1)] by (simp cong: if_cong) blast
qed

section \<open>Runs and cells\<close>

lemma run_in_cells:
  assumes inv: "array_inv a" and r: "rend r < 65536"
  defines "p \<equiv> lower_bound (ac_array a) (word_of_nat (rstart r))" and "q \<equiv> lower_bound (ac_array a) (word_of_nat (rend r))"
  shows "q \<noteq> length (ac_array a) \<and> int q - int p = int (rend r) - int (rstart r) \<and> unat (ac_array a ! p) = rstart r
        \<and> unat (ac_array a ! q) = rend r \<longleftrightarrow> {x. in_run r (unat x)} \<subseteq> array_abs a" (is "?hit \<longleftrightarrow> ?sub")
proof
  have s: "ssorted (ac_array a)" using inv by (rule array_inv_sorted)
  have b: "unat (word_of_nat (rstart r) :: u16) = rstart r" "unat (word_of_nat (rend r) :: u16) = rend r" using r by simp_all
  have pl: "q \<le> length (ac_array a)" by (simp add: q_def)
  {
    assume hit: ?hit
    then have q: "q = p + (rend r - rstart r)" using rstart_le_rend [of r] by linarith
    then have l: "p + (Suc (rend r) - rstart r) \<le> length (ac_array a)" "p + (Suc (rend r) - rstart r) - 1 = q"
      using hit pl rstart_le_rend [of r] by linarith+
    show ?sub
    proof
      fix x :: u16 assume "x \<in> {x. in_run r (unat x)}"
      then have x: "rstart r \<le> unat x" "unat x \<le> rend r" by (simp_all add: in_run_def)
      show "x \<in> array_abs a" unfolding array_abs_def
      proof (rule array_range_contiguous [OF s l(1)])
        show "unat (ac_array a ! (p + (Suc (rend r) - rstart r) - 1)) = unat (ac_array a ! p) + (Suc (rend r) - rstart r) - 1"
          using hit l(2) rstart_le_rend [of r] by simp
      qed (use hit x in auto)
    qed
  }
  {
    assume sub: ?sub
    have "u16_range (rstart r) (Suc (rend r)) \<subseteq> array_abs a" using sub by (auto simp: in_run_def subset_iff less_Suc_eq_le)
    moreover have "unat (word_of_nat (rend r) :: u16) = Suc (rend r) - 1" "rstart r < Suc (rend r)" "Suc (rend r) \<le> 65536"
      using b(2) r rstart_le_rend [of r] by linarith+
    ultimately have at: "p + (Suc (rend r) - rstart r) \<le> length (ac_array a)"
        "ac_array a ! (p + (Suc (rend r) - rstart r) - 1) = word_of_nat (rend r)"
      using array_range_present [OF inv b(1), of "word_of_nat (rend r)" "Suc (rend r)"] unfolding p_def by blast+
    have at_p: "ac_array a ! p = word_of_nat (rstart r)"
      using subsetD [OF sub, of "word_of_nat (rstart r)"] b array_mem_lower_bound [OF inv, of "word_of_nat (rstart r)"]
      by (simp add: p_def)
    have at_q: "q < length (ac_array a)" "ac_array a ! q = word_of_nat (rend r)"
      using subsetD [OF sub, of "word_of_nat (rend r)"] b array_mem_lower_bound [OF inv, of "word_of_nat (rend r)"]
      by (simp_all add: q_def)
    have "p + (Suc (rend r) - rstart r) - 1 = q"
      using at at_q ssorted_imp_distinct [OF s] nth_eq_iff_index_eq [of "ac_array a" "p + (Suc (rend r) - rstart r) - 1" q]
        rstart_le_rend [of r] by auto
    then show ?hit using at_p at_q b rstart_le_rend [of r] by auto
  }
qed

lemma run_subset_array_loop_correct:
  assumes inv: "array_inv a"
  shows "runs_ok rs \<Longrightarrow> nat (pos + 1) \<le> length (ac_array a) \<Longrightarrow>
     \<forall>r \<in> set rs. nat (pos + 1) \<le> lower_bound (ac_array a) (word_of_nat (rstart r)) \<Longrightarrow>
     run_subset_array_loop rs (ac_array a) pos \<longleftrightarrow> (\<forall>r \<in> set rs. {x. in_run r (unat x)} \<subseteq> array_abs a)"
proof (induction rs arbitrary: pos)
  case (Cons r rs)
  have s: "ssorted (ac_array a)" using inv by (rule array_inv_sorted)
  have r: "rend r < 65536" "runs_ok rs" using Cons.prems(1) by (simp_all add: runs_ok_Cons)
  define p q where "p = lower_bound (ac_array a) (word_of_nat (rstart r))"
    and "q = lower_bound (ac_array a) (word_of_nat (rend r))"
  have "p \<le> q" unfolding p_def q_def using r rstart_le_rend [of r]
    by (intro lower_bound_mono [OF s]) (simp add: word_le_nat_alt)
  moreover have "nat (pos + 1) \<le> p" using Cons.prems(3) by (simp add: p_def)
  ultimately have ends: "advanceUntil (ac_array a) pos (length (ac_array a)) (word_of_nat (rstart r)) = p"
      "advanceUntil (ac_array a) pos (length (ac_array a)) (word_of_nat (rend r)) = q"
    using advanceUntil_correct [OF s refl Cons.prems(2)] by (auto simp: p_def q_def max_def)
  have hit: "q \<noteq> length (ac_array a) \<and> int q - int p = int (rend r) - int (rstart r) \<and> unat (ac_array a ! p) = rstart r
        \<and> unat (ac_array a ! q) = rend r \<longleftrightarrow> {x. in_run r (unat x)} \<subseteq> array_abs a"
    unfolding p_def q_def by (rule run_in_cells [OF inv r(1)])
  have rest: "run_subset_array_loop rs (ac_array a) (int q) \<longleftrightarrow> (\<forall>r \<in> set rs. {x. in_run r (unat x)} \<subseteq> array_abs a)"
    if q: "q \<noteq> length (ac_array a)" "unat (ac_array a ! q) = rend r"
  proof (rule Cons.IH [OF r(2)])
    have lt: "q < length (ac_array a)" using q(1) lower_bound_le [of "ac_array a" "word_of_nat (rend r)"] unfolding q_def by linarith
    then show "nat (int q + 1) \<le> length (ac_array a)" by simp
    have "q < lower_bound (ac_array a) (word_of_nat (rstart t))" if "t \<in> set rs" for t
      using that Cons.prems(1) q(2) ssorted_nth_less_iff [OF s lt, of "word_of_nat (rstart t)"]
      by (auto simp: runs_ok_Cons word_less_nat_alt)
    then show "\<forall>t \<in> set rs. nat (int q + 1) \<le> lower_bound (ac_array a) (word_of_nat (rstart t))"
      by (auto simp: nat_add_distrib Suc_le_eq)
  qed
  show ?case unfolding run_subset_array_loop.simps Let_def ends using hit rest by auto
qed simp

lemma run_subset_array_correct:
  assumes "run_inv r" and "array_inv a"
  shows "run_container_is_subset_array r a \<longleftrightarrow> run_abs r \<subseteq> array_abs a"
proof -
  have le: "card (run_abs r) \<le> card (array_abs a)" if "run_abs r \<subseteq> array_abs a" using that by (simp add: card_mono)
  have "run_subset_array_loop (rc_runs r) (ac_array a) (- 1) \<longleftrightarrow> run_abs r \<subseteq> array_abs a"
    using run_subset_array_loop_correct [OF assms(2) run_inv_simps(1) [OF assms(1)], of "- 1"]
    by (auto simp: run_abs_def covers_def)
  then show ?thesis unfolding run_container_is_subset_array_def cells_of_eq [OF assms(2)]
    unfolding rc.cardinality_abs [OF assms(1)] array_inv_card [OF assms(2)] using le by auto
qed

lemma array_subset_run_loop_correct:
  "ssorted cells \<Longrightarrow> runs_ok rs \<Longrightarrow> array_subset_run_loop cells rs \<longleftrightarrow> (\<forall>x \<in> set cells. covers rs (unat x))"
proof (induction cells rs rule: array_subset_run_loop.induct)
  case (3 v cells r rs)
  have later: "\<not> covers rs n" if "n \<le> rend r + 1" for n
    using that 3(4) covers_from [of _ _ n] by (fastforce simp: covers_def in_run_def runs_ok_Cons)
  consider (below) "unat v < rstart r" | (above) "unat v > rend r" | (inside) "in_run r (unat v)"
    unfolding in_run_def by linarith
  then show ?case
  proof cases
    case below
    then show ?thesis using later [of "unat v"] rstart_le_rend [of r] by (auto simp: in_run_def)
  next
    case above
    then have "covers (r # rs) (unat x) \<longleftrightarrow> covers rs (unat x)" if "x \<in> set (v # cells)" for x
      using that 3(3) by (auto simp: in_run_def word_less_nat_alt)
    then show ?thesis using above 3(1) 3(3,4) rstart_le_rend [of r] by (auto simp: runs_ok_Cons)
  next
    case inside
    then have "\<not> unat v < rstart r" "\<not> unat v > rend r" by (simp_all add: in_run_def)
    then show ?thesis using inside 3(2-4) by simp
  qed
qed (auto simp: covers_def)

lemma array_subset_run_correct:
  assumes "array_inv a" and "run_inv r"
  shows "array_container_is_subset_run a r \<longleftrightarrow> array_abs a \<subseteq> run_abs r"
proof -
  have le: "card (array_abs a) \<le> card (run_abs r)" if "array_abs a \<subseteq> run_abs r" using that by (simp add: card_mono)
  have "array_subset_run_loop (ac_array a) (rc_runs r) \<longleftrightarrow> array_abs a \<subseteq> run_abs r"
    using array_subset_run_loop_correct [OF array_inv_sorted [OF assms(1)] run_inv_simps(1) [OF assms(2)]]
    by (auto simp: run_abs_def array_abs_def)
  then show ?thesis unfolding array_container_is_subset_run_def cells_of_eq [OF assms(1)]
    unfolding rc.cardinality_abs [OF assms(2)] array_inv_card [OF assms(1)] using le by auto
qed

section \<open>Cells and bits\<close>

lemma subset_run_word_correct:
  "(subset_run_word w i rs = None \<longrightarrow> \<not> array_subset_run_loop (extract_word w (word_of_nat (i * 64)) @ rest) rs) \<and>
   (\<forall>w' rs'. subset_run_word w i rs = Some (w', rs') \<longrightarrow> (w' = 0 \<or> rs' = []) \<and>
      array_subset_run_loop (extract_word w (word_of_nat (i * 64)) @ rest) rs
        = array_subset_run_loop (extract_word w' (word_of_nat (i * 64)) @ rest) rs')"
proof (induction w i rs rule: subset_run_word.induct)
  case (2 w i r rs)
  show ?case
  proof (cases "w = 0")
    case False
    define v :: u16 where "v = word_of_nat (i * 64 + roaring_trailing_zeroes w)"
    have ext: "extract_word w (word_of_nat (i * 64)) = v # extract_word (w AND (w - 1)) (word_of_nat (i * 64))"
      by (subst extract_word.simps) (simp add: False v_def)
    note IH = 2 [OF False refl v_def]
    have step: "subset_run_word w i (r # rs) = (if unat v < rstart r then None else if unat v > rend r
        then subset_run_word w i rs else subset_run_word (w AND (w - 1)) i (r # rs))"
      by (simp add: subset_run_word.simps(2) [of w] False v_def [symmetric] xor_lowest Let_def del: of_nat_add of_nat_mult)
    consider (below) "unat v < rstart r" | (above) "\<not> unat v < rstart r" "unat v > rend r"
      | (inside) "\<not> unat v < rstart r" "\<not> unat v > rend r" by blast
    then show ?thesis
    proof cases
      case below
      then show ?thesis by (simp add: ext step del: of_nat_mult)
    next
      case above
      then show ?thesis using IH(1) by (simp add: ext step del: of_nat_mult)
    next
      case inside
      then show ?thesis using IH(2) by (simp add: ext step xor_lowest False del: of_nat_mult)
    qed
  qed (simp add: subset_run_word.simps(2) [of 0])
qed simp

lemma extract_word_Nil: "extract_word w base = [] \<longleftrightarrow> w = 0"
  by (subst extract_word.simps) simp

lemma loop_Nil: "array_subset_run_loop cells [] \<longleftrightarrow> cells = []"
  by (cases cells) simp_all

lemma subset_run_words_correct:
  "subset_run_words ws i rs \<longleftrightarrow> array_subset_run_loop (bitset_extract_setbits_uint16 ws (word_of_nat (i * 64))) rs"
proof (induction ws i rs rule: subset_run_words.induct)
  case (2 w ws i)
  have nil: "bitset_extract_setbits_uint16 ws base = [] \<longleftrightarrow> (\<forall>w \<in> set ws. w = 0)" for ws and base :: u16
    by (induction ws arbitrary: base) (simp_all add: extract_word_Nil)
  show ?case using nil [of "w # ws"] by (simp add: loop_Nil)
next
  case (3 w ws i r rs)
  have base: "word_of_nat (i * 64) + 64 = (word_of_nat ((i + 1) * 64) :: u16)" by (simp add: add.commute)
  show ?case
    using subset_run_word_correct [where w = w and i = i and rs = "r # rs"
      and rest = "bitset_extract_setbits_uint16 ws (word_of_nat ((i + 1) * 64))"] 3
    by (cases "subset_run_word w i (r # rs)") (auto simp: base loop_Nil extract_word.simps [of 0] extract_word_Nil simp del: of_nat_mult)
qed simp

lemma bitset_subset_run_correct:
  assumes "bitset_lazy_inv b" and "run_inv r"
  shows "bitset_container_is_subset_run b r \<longleftrightarrow> bitset_abs b \<subseteq> run_abs r"
proof -
  have wf: "bitset_wf b" using assms(1) by (rule bitset_lazy_wf)
  have len: "length (bc_words b) = 1024" using wf by (simp add: bitset_wf_def)
  have le: "card (bitset_abs b) \<le> card (run_abs r)" if "bitset_abs b \<subseteq> run_abs r" using that by (simp add: card_mono)
  have "subset_run_words (bc_words b) 0 (rc_runs r) \<longleftrightarrow> bitset_abs b \<subseteq> run_abs r"
    using array_subset_run_loop_correct [OF _ run_inv_simps(1) [OF assms(2)]]
    by (auto simp: subset_run_words_correct extract_sorted [OF len] words_abs_wf [OF wf] ssorted_sorted_list run_abs_def)
  then show ?thesis unfolding bitset_container_is_subset_run_def rc.cardinality_abs [OF assms(2)]
    using le assms(1) by (auto simp: bitset_lazy_inv_def)
qed

lemma equal_word_correct:
  "equal_word w i cells = Some rest \<longleftrightarrow> cells = extract_word w (word_of_nat (i * 64)) @ rest"
proof (induction w i cells rule: equal_word.induct)
  case (1 w i cells)
  show ?case
  proof (cases "w = 0")
    case True
    then show ?thesis using extract_word_Nil [of w] by (subst equal_word.simps) auto
  next
    case False
    define v :: u16 where "v = word_of_nat (i * 64 + roaring_trailing_zeroes w)"
    have ext: "extract_word w (word_of_nat (i * 64)) = v # extract_word (w AND (w - 1)) (word_of_nat (i * 64))"
      by (subst extract_word.simps) (simp add: False v_def)
    show ?thesis using 1 [OF False refl v_def] False
      by (subst equal_word.simps) (cases cells, auto simp: ext v_def [symmetric] xor_lowest Let_def simp del: of_nat_add of_nat_mult)
  qed
qed

lemma equal_words_correct:
  "equal_words ws i cells \<longleftrightarrow> cells = bitset_extract_setbits_uint16 ws (word_of_nat (i * 64))"
proof (induction ws i cells rule: equal_words.induct)
  case (2 w ws i cells)
  have base: "word_of_nat (i * 64) + 64 = (word_of_nat ((i + 1) * 64) :: u16)" by (simp add: add.commute)
  show ?case
  proof (cases "equal_word w i cells")
    case None
    then have "cells \<noteq> extract_word w (word_of_nat (i * 64)) @ rest" for rest
      using equal_word_correct [of w i cells rest] by simp
    then show ?thesis using None by simp
  next
    case (Some rest)
    then have "cells = extract_word w (word_of_nat (i * 64)) @ rest" by (simp add: equal_word_correct)
    then show ?thesis using Some 2 [OF Some] base by (simp add: add.commute del: of_nat_mult)
  qed
qed simp

lemma array_equal_bitset_correct:
  assumes "array_inv a" and "bitset_lazy_inv b"
  shows "array_container_equal_bitset a b \<longleftrightarrow> array_abs a = bitset_abs b"
proof -
  have wf: "bitset_wf b" using assms(2) by (rule bitset_lazy_wf)
  have len: "length (bc_words b) = 1024" using wf by (simp add: bitset_wf_def)
  have "equal_words (bc_words b) 0 (ac_array a) \<longleftrightarrow> ac_array a = sorted_list_of_set (bitset_abs b)"
    by (simp add: equal_words_correct extract_sorted [OF len] words_abs_wf [OF wf])
  also have "\<dots> \<longleftrightarrow> array_abs a = bitset_abs b"
    using ssorted_set_unique [OF array_inv_sorted [OF assms(1)] ssorted_sorted_list, of "bitset_abs b"]
    by (auto simp: array_abs_def)
  finally show ?thesis unfolding array_container_equal_bitset_def cells_of_eq [OF assms(1)]
    unfolding array_inv_card [OF assms(1)] using assms(2) by (auto simp: bitset_lazy_inv_def)
qed

section \<open>Equality of runs and cells\<close>

lemma run_cells_Cons: "run_cells (r # rs) = map word_of_nat [rstart r ..< Suc (rend r)] @ run_cells rs"
  by (simp add: run_cells_def)

lemma run_equals_loop_complete:
  "runs_ok rs \<Longrightarrow> array = pre @ run_cells rs \<Longrightarrow> run_equals_array_loop rs array (length pre)"
proof (induction rs arbitrary: pre)
  case (Cons r rs)
  have r: "rend r < 65536" "rend r = rstart r + unat (rl_length r)"
    using Cons.prems(1) by (simp_all add: runs_ok_Cons rend_def rstart_def)
  let ?c = "map word_of_nat [rstart r ..< Suc (rend r)] :: u16 list"
  have eq: "array = (pre @ ?c) @ run_cells rs" using Cons.prems(2) by (simp only: run_cells_Cons append_assoc)
  have c: "length ?c = unat (rl_length r) + 1" using r by simp
  have "array ! (length pre + j) = ?c ! j" if "j < length ?c" for j
    using that by (simp only: eq nth_append length_append) simp
  then have nth: "unat (array ! (length pre + j)) = rstart r + j" if "j \<le> unat (rl_length r)" for j
    using that c r by (simp del: upt_Suc of_nat_add)
  have "run_equals_array_loop rs array (length (pre @ ?c))"
    using Cons.IH [OF _ eq] Cons.prems(1) by (simp only: runs_ok_Cons)
  then have "run_equals_array_loop rs array (length pre + (unat (rl_length r) + 1))" using c by (simp only: length_append)
  then show ?case using nth [of 0] nth [of "unat (rl_length r)"] by (simp add: Let_def)
qed simp

lemma run_equals_loop_sound:
  assumes "ssorted array"
  shows "runs_ok rs \<Longrightarrow> pos + sum_list (map run_size rs) \<le> length array \<Longrightarrow> run_equals_array_loop rs array pos \<Longrightarrow>
     covers rs (unat x) \<Longrightarrow> x \<in> set array"
proof (induction rs arbitrary: pos)
  case (Cons r rs)
  have r: "rend r = rstart r + unat (rl_length r)" "run_size r = unat (rl_length r) + 1"
    by (simp_all add: rend_def rstart_def run_size_def)
  have hit: "unat (array ! pos) = rstart r" "unat (array ! (pos + unat (rl_length r))) = rstart r + unat (rl_length r)"
    and rest: "run_equals_array_loop rs array (pos + run_size r)"
    using Cons.prems(3) r(2) by (simp_all add: Let_def split: if_splits)
  show ?case
  proof (cases "in_run r (unat x)")
    case True
    show ?thesis
      by (rule array_range_contiguous [OF assms, of pos "run_size r"])
        (use True r hit Cons.prems(2) in \<open>auto simp: in_run_def\<close>)
  next
    case False
    then show ?thesis using Cons.IH [OF _ _ rest] Cons.prems by (auto simp: runs_ok_Cons)
  qed
qed simp

lemma run_equals_array_correct:
  assumes "run_inv r" and "array_inv a"
  shows "run_container_equals_array r a \<longleftrightarrow> run_abs r = array_abs a"
proof -
  have ok: "runs_ok (rc_runs r)" using assms(1) by (rule run_inv_simps)
  have card_a: "card (array_abs a) = length (ac_array a)"
    using array_inv_card [OF assms(2)] assms(2) by (simp add: array_simps)
  have "run_equals_array_loop (rc_runs r) (ac_array a) 0" if "run_abs r = array_abs a"
  proof -
    have "ac_array a = run_cells (rc_runs r)"
      unfolding run_cells_sorted [OF assms(1)] that array_abs_def
      using ssorted_set_unique [OF array_inv_sorted [OF assms(2)] ssorted_sorted_list, of "set (ac_array a)"] by simp
    then show ?thesis using run_equals_loop_complete [OF ok, of "ac_array a" "[]"] by simp
  qed
  moreover have "run_abs r = array_abs a"
    if "card (run_abs r) = card (array_abs a)" "run_equals_array_loop (rc_runs r) (ac_array a) 0"
  proof (rule card_subset_eq)
    have "sum_list (map run_size (rc_runs r)) = length (ac_array a)"
      using that(1) card_a card_run_abs [OF assms(1)] by simp
    then show "run_abs r \<subseteq> array_abs a"
      using run_equals_loop_sound [OF array_inv_sorted [OF assms(2)] ok, of 0] that(2)
      by (auto simp: run_abs_def array_abs_def)
  qed (use that in simp_all)
  ultimately show ?thesis unfolding run_container_equals_array_def rc.cardinality_abs [OF assms(1)]
      array_inv_card [OF assms(2)] by auto
qed

interpretation array_in_bitset: set_test array_inv array_abs bitset_lazy_inv bitset_abs array_container_is_subset_bitset "(\<subseteq>)"
  by unfold_locales (rule array_subset_bitset_correct)

interpretation run_in_array: set_test run_inv run_abs array_inv array_abs run_container_is_subset_array "(\<subseteq>)"
  by unfold_locales (rule run_subset_array_correct)

interpretation array_in_run: set_test array_inv array_abs run_inv run_abs array_container_is_subset_run "(\<subseteq>)"
  by unfold_locales (rule array_subset_run_correct)

interpretation run_in_bitset: set_test run_inv run_abs bitset_lazy_inv bitset_abs run_container_is_subset_bitset "(\<subseteq>)"
  by unfold_locales (rule run_subset_bitset_correct)

interpretation bitset_in_run: set_test bitset_lazy_inv bitset_abs run_inv run_abs bitset_container_is_subset_run "(\<subseteq>)"
  by unfold_locales (rule bitset_subset_run_correct)

interpretation array_is_bitset: set_test array_inv array_abs bitset_lazy_inv bitset_abs array_container_equal_bitset "(=)"
  by unfold_locales (rule array_equal_bitset_correct)

interpretation run_is_array: set_test run_inv run_abs array_inv array_abs run_container_equals_array "(=)"
  by unfold_locales (rule run_equals_array_correct)

interpretation run_is_bitset: set_test run_inv run_abs bitset_lazy_inv bitset_abs run_container_equals_bitset "(=)"
  by unfold_locales (rule run_equals_bitset_correct)

end
