(* ===== verification/Mixed_Negation.thy ===== *)
theory Mixed_Negation
  imports Mixed_Tests
begin

text \<open>
  Complement of a container, in full or on a range \<open>[range_start, range_end)\<close>, from
  \<open>src/containers/mixed_negation.c\<close>. The boolean or type code the functions return and the
  container they store in \<open>*dst\<close> are one value of \<open>container_t\<close>. The in-place negation of a run
  container writes the runs of the result over the runs it still has to read: the model keeps
  the cells of the shared array next to the container that is being built.
\<close>

unbundle bit_operations_syntax

section \<open>Definitions\<close>

definition array_container_negation :: "array_container \<Rightarrow> bitset_container \<Rightarrow> bitset_container" where
  "array_container_negation src dst =
     (let dst = bitset_container_set_all dst
      in if ac_cardinality src = 0 then dst
         else let (words, card) = bitset_clear_list (bc_words dst) 65536 (cells_of src)
              in dst\<lparr>bc_words := words, bc_cardinality := int32_of card\<rparr>)"

text \<open>The values in the range that are not among the cells from \<open>in_pos\<close> to \<open>last_index\<close>.\<close>

function negated_cells :: "u16 list \<Rightarrow> int \<Rightarrow> int \<Rightarrow> int \<Rightarrow> int \<Rightarrow> u16 list" where
  "negated_cells array in_pos last_index val_in_range range_end =
     (if val_in_range < range_end \<and> in_pos \<le> last_index
      then if word_of_int val_in_range \<noteq> array ! nat in_pos
           then word_of_int val_in_range # negated_cells array in_pos last_index (val_in_range + 1) range_end
           else negated_cells array (in_pos + 1) last_index (val_in_range + 1) range_end
      else map word_of_int [val_in_range .. range_end - 1])"
  by pat_completeness auto
termination by (relation "measure (\<lambda>(array, in_pos, last_index, val_in_range, range_end). nat (range_end - val_in_range))") auto

declare negated_cells.simps [simp del]

definition array_container_negation_range :: "array_container \<Rightarrow> int \<Rightarrow> int \<Rightarrow> container_t" where
  "array_container_negation_range src range_start range_end =
     (if range_start \<ge> range_end then Array_c (array_container_clone src)
      else let start_index = binarySearch (ac_array src) (ac_len src) (word_of_int range_start);
               start_index = (if start_index < 0 then - start_index - 1 else start_index);
               last_index = binarySearch (ac_array src) (ac_len src) (word_of_int (range_end - 1));
               last_index = (if last_index < 0 then - last_index - 2 else last_index);
               current_values_in_range = last_index - start_index + 1;
               span_to_be_flipped = range_end - range_start;
               new_values_in_range = span_to_be_flipped - current_values_in_range;
               cardinality_change = new_values_in_range - current_values_in_range;
               new_cardinality = ac_cardinality src + cardinality_change
           in if new_cardinality > DEFAULT_MAX_SIZE
              then let temp = bitset_container_from_array src
                   in Bitset_c (temp\<lparr>bc_words := bitset_flip_range (bc_words temp) (word_of_int range_start) (word_of_int range_end),
                        bc_cardinality := new_cardinality\<rparr>)
              else let arr = array_container_create_given_capacity new_cardinality
                   in if new_cardinality = 0 then Array_c (arr\<lparr>ac_cardinality := new_cardinality\<rparr>)
                      else Array_c (arr\<lparr>ac_array := take (nat start_index) (ac_array src)
                               @ negated_cells (ac_array src) start_index last_index range_start range_end
                               @ take (nat (ac_cardinality src - (last_index + 1))) (drop (nat (last_index + 1)) (ac_array src)),
                             ac_cardinality := new_cardinality\<rparr>))"

definition array_container_negation_range_inplace :: "array_container \<Rightarrow> int \<Rightarrow> int \<Rightarrow> container_t" where
  "array_container_negation_range_inplace src range_start range_end =
     array_container_negation_range src range_start range_end"

definition bitset_container_negation_range :: "bitset_container \<Rightarrow> int \<Rightarrow> int \<Rightarrow> container_t" where
  "bitset_container_negation_range src range_start range_end =
     (let t = bitset_container_clone src;
          t = t\<lparr>bc_words := bitset_flip_range (bc_words t) (word_of_int range_start) (word_of_int range_end)\<rparr>;
          t = t\<lparr>bc_cardinality := bitset_container_compute_cardinality t\<rparr>
      in if bc_cardinality t > DEFAULT_MAX_SIZE then Bitset_c t else Array_c (array_container_from_bitset t))"

definition bitset_container_negation_range_inplace :: "bitset_container \<Rightarrow> int \<Rightarrow> int \<Rightarrow> container_t" where
  "bitset_container_negation_range_inplace src range_start range_end =
     (let src = src\<lparr>bc_words := bitset_flip_range (bc_words src) (word_of_int range_start) (word_of_int range_end)\<rparr>;
          src = src\<lparr>bc_cardinality := bitset_container_compute_cardinality src\<rparr>
      in if bc_cardinality src > DEFAULT_MAX_SIZE then Bitset_c src else Array_c (array_container_from_bitset src))"

definition bitset_container_negation :: "bitset_container \<Rightarrow> container_t" where
  "bitset_container_negation src = bitset_container_negation_range src 0 65536"

definition bitset_container_negation_inplace :: "bitset_container \<Rightarrow> container_t" where
  "bitset_container_negation_inplace src = bitset_container_negation_range_inplace src 0 65536"

text \<open>The call of \<open>run_container_smart_append_exclusive\<close> for a run, and for the range.\<close>

abbreviation append_exclusive :: "rle16 \<Rightarrow> run_container \<Rightarrow> run_container" where
  "append_exclusive r ans \<equiv> run_container_smart_append_exclusive ans (rl_value r) (rl_length r)"

definition range_run :: "int \<Rightarrow> int \<Rightarrow> rle16" where
  "range_run range_start range_end =
     \<lparr>rl_value = word_of_int range_start, rl_length = word_of_int (range_end - range_start - 1)\<rparr>"

definition run_container_negation_range :: "run_container \<Rightarrow> int \<Rightarrow> int \<Rightarrow> container_t" where
  "run_container_negation_range src range_start range_end =
     (if range_end \<le> range_start then Run_c (run_container_clone src)
      else let ans = run_container_create_given_capacity (rc_n_runs src + 1);
               before = takeWhile (\<lambda>r. uint (rl_value r) < range_start) (rc_runs src);
               ans = ans\<lparr>rc_runs := before, rc_n_runs := int (length before)\<rparr>;
               ans = append_exclusive (range_run range_start range_end) ans;
               ans = fold append_exclusive (drop (length before) (rc_runs src)) ans
           in convert_run_to_efficient_container ans)"

text \<open>
  The in-place version. \<open>cells\<close> is the array \<open>src->runs\<close>; the container under construction has
  its live runs at the front of it, so each append overwrites that part of \<open>cells\<close>.
\<close>

definition written :: "run_container \<Rightarrow> rle16 list \<Rightarrow> rle16 list" where
  "written ans cells = rc_runs ans @ drop (length (rc_runs ans)) cells"

function negation_inplace_loop :: "nat \<Rightarrow> nat \<Rightarrow> rle16 \<Rightarrow> rle16 \<Rightarrow> run_container \<Rightarrow> rle16 list \<Rightarrow> run_container \<times> rle16 list" where
  "negation_inplace_loop k my_nbr_runs buffered next_run ans cells =
     (if k < my_nbr_runs
      then let next_run = (if k + 1 < my_nbr_runs then cells ! (k + 1) else next_run);
               ans = append_exclusive buffered ans
           in negation_inplace_loop (k + 1) my_nbr_runs next_run next_run ans (written ans cells)
      else (ans, cells))"
  by pat_completeness auto
termination by (relation "measure (\<lambda>(k, my_nbr_runs, buffered, next_run, ans, cells). my_nbr_runs - k)") auto

declare negation_inplace_loop.simps [simp del]

text \<open>Whether a full container has no room for the result: neither end of the range meets the end of a run.\<close>

definition no_space_for_inplace :: "run_container \<Rightarrow> int \<Rightarrow> int \<Rightarrow> bool" where
  "no_space_for_inplace src range_start range_end =
     (let last_val_before_range = (range_start > 0 \<and> run_container_contains src (word_of_int (range_start - 1)));
          first_val_in_range = run_container_contains src (word_of_int range_start);
          last_val_in_range = run_container_contains src (word_of_int (range_end - 1));
          first_val_past_range = (range_end \<noteq> 65536 \<and> run_container_contains src (word_of_int range_end))
      in last_val_before_range = first_val_in_range \<and> last_val_in_range = first_val_past_range)"

definition negation_inplace_runs :: "run_container \<Rightarrow> int \<Rightarrow> int \<Rightarrow> run_container \<times> rle16 list" where
  "negation_inplace_runs src range_start range_end =
     (let my_nbr_runs = rc_len src;
          k = length (takeWhile (\<lambda>r. uint (rl_value r) < range_start) (rc_runs src));
          ans = src\<lparr>rc_n_runs := int k, rc_runs := take k (rc_runs src)\<rparr>;
          buffered = (if k < my_nbr_runs then rc_runs src ! k else MAKE_RLE16 0 0);
          ans = append_exclusive (range_run range_start range_end) ans
      in negation_inplace_loop k my_nbr_runs buffered (MAKE_RLE16 0 0) ans (written ans (rc_runs src)))"

definition run_container_negation_range_inplace :: "run_container \<Rightarrow> int \<Rightarrow> int \<Rightarrow> container_t" where
  "run_container_negation_range_inplace src range_start range_end =
     (if range_end \<le> range_start then Run_c src
      else if rc_capacity src = rc_n_runs src \<and> no_space_for_inplace src range_start range_end
      then run_container_negation_range src range_start range_end
      else convert_run_to_efficient_container (fst (negation_inplace_runs src range_start range_end)))"

definition run_container_negation :: "run_container \<Rightarrow> container_t" where
  "run_container_negation src = run_container_negation_range src 0 65536"

definition run_container_negation_inplace :: "run_container \<Rightarrow> container_t" where
  "run_container_negation_inplace src = run_container_negation_range_inplace src 0 65536"

section \<open>Arrays\<close>

lemma array_container_negation_correct:
  assumes "array_inv a" and "bitset_wf dst"
  shows "bitset_inv (array_container_negation a dst)" and "bitset_abs (array_container_negation a dst) = - array_abs a"
proof -
  let ?d = "bitset_container_set_all dst"
  have d: "bitset_inv ?d" "bitset_abs ?d = UNIV" by (simp_all add: bitset_set_all_correct)
  have n: "bc_cardinality ?d = 65536" by (simp add: bitset_container_set_all_def)
  have len: "length (bc_words ?d) = 1024" using inv_words [OF d(1)] by simp
  have w: "words_abs (bc_words ?d) = UNIV" using words_abs_wf [OF bitset_inv_wf [OF d(1)]] d(2) by simp
  have cnt: "(65536 :: int) = int (card (bits_of (bc_words ?d)))" using card_bits_inv [OF d(1)] n by simp
  note L = listed_bitset(4-6) [OF len cnt, of "ac_array a", unfolded w]
  have diff: "UNIV - set (ac_array a) = - array_abs a" by (auto simp: array_abs_def)
  have empty: "array_abs a = {}" if "ac_cardinality a = 0"
    using that array_inv_card [OF assms(1)] by simp
  have "array_container_negation a dst = (if ac_cardinality a = 0 then ?d
      else ?d\<lparr>bc_words := fst (bitset_clear_list (bc_words ?d) 65536 (ac_array a)),
              bc_cardinality := int32_of (snd (bitset_clear_list (bc_words ?d) 65536 (ac_array a)))\<rparr>)"
    unfolding array_container_negation_def cells_of_eq [OF assms(1)] by (simp add: case_prod_unfold Let_def)
  then show "bitset_inv (array_container_negation a dst)" "bitset_abs (array_container_negation a dst) = - array_abs a"
    using d empty counted_bitset [OF L(1) L(2) [unfolded diff] L(3) [unfolded diff], of ?d] by (simp_all split: if_splits)
qed

section \<open>Ranges of bits\<close>

text \<open>The values of the range, and the set with the range complemented.\<close>

definition int_range :: "int \<Rightarrow> int \<Rightarrow> u16 set" where
  "int_range s e = {x. s \<le> uint x \<and> uint x < e}"

lemma unat_word_of_int:
  fixes s :: int
  assumes "0 \<le> s"
  shows "s \<le> 65536 \<Longrightarrow> unat (word_of_int s :: u32) = nat s" and "s < 65536 \<Longrightarrow> unat (word_of_int s :: u16) = nat s"
    and "s < 65536 \<Longrightarrow> uint (word_of_int s :: u16) = s"
  using assms by (simp_all add: unsigned_of_int take_bit_eq_mod)

lemma int_range_nat: "0 \<le> s \<Longrightarrow> int_range s e = {x. unat x \<in> {nat s ..< nat e}}"
  by (auto simp: int_range_def uint_u16_int [symmetric] nat_le_iff zless_nat_eq_int_zless nat_less_iff)

lemma flip_words:
  assumes "length ws = 1024" and "0 \<le> s" and "s \<le> e" and "e \<le> 65536"
  defines "ws' \<equiv> bitset_flip_range ws (word_of_int s) (word_of_int e)"
  shows "length ws' = 1024" and "words_abs ws' = sym_diff (words_abs ws) (int_range s e)"
proof -
  have u: "unat (word_of_int s :: u32) = nat s" "unat (word_of_int e :: u32) = nat e"
    using assms(2-4) by (simp_all add: unat_word_of_int)
  have le: "nat s \<le> nat e" "nat e \<le> 65536" using assms(2-4) by simp_all
  have b: "bits_of ws' = sym_diff (bits_of ws) {nat s ..< nat e}"
    unfolding ws'_def using bits_of_ranges(3) [OF assms(1), of "word_of_int s" "word_of_int e"] u le by simp
  show len: "length ws' = 1024" unfolding ws'_def using assms(1) by simp
  have "words_abs ws' = {x. (x \<in> words_abs ws) \<noteq> (unat x \<in> {nat s ..< nat e})}"
    by (rule words_abs_update [OF assms(1)]) (auto simp: b)
  then show "words_abs ws' = sym_diff (words_abs ws) (int_range s e)"
    unfolding int_range_nat [OF assms(2)] by auto
qed

lemma flip_recounted:
  assumes "bitset_wf b" and "0 \<le> s" and "s \<le> e" and "e \<le> 65536"
  defines "t \<equiv> b\<lparr>bc_words := bitset_flip_range (bc_words b) (word_of_int s) (word_of_int e)\<rparr>"
  shows "bitset_inv (t\<lparr>bc_cardinality := bitset_container_compute_cardinality t\<rparr>)"
    and "bitset_abs (t\<lparr>bc_cardinality := bitset_container_compute_cardinality t\<rparr>) = sym_diff (bitset_abs b) (int_range s e)"
proof -
  have len: "length (bc_words b) = 1024" using assms(1) by (simp add: bitset_wf_def)
  note F = flip_words [OF len assms(2-4), unfolded words_abs_wf [OF assms(1)]]
  show "bitset_inv (t\<lparr>bc_cardinality := bitset_container_compute_cardinality t\<rparr>)"
    "bitset_abs (t\<lparr>bc_cardinality := bitset_container_compute_cardinality t\<rparr>) = sym_diff (bitset_abs b) (int_range s e)"
    using recounted_bitset [OF F, of b] by (simp_all add: t_def)
qed

lemma bitset_negation_inplace_eq:
  "bitset_container_negation_range_inplace b s e = bitset_container_negation_range b s e"
  by (simp add: bitset_container_negation_range_inplace_def bitset_container_negation_range_def bitset_clone_eq)

lemma bitset_negation_range_correct:
  assumes "bitset_wf b" and "0 \<le> s" and "s \<le> e" and "e \<le> 65536"
  shows "container_inv (bitset_container_negation_range b s e)"
    and "container_abs (bitset_container_negation_range b s e) = sym_diff (bitset_abs b) (int_range s e)"
proof -
  let ?t = "b\<lparr>bc_words := bitset_flip_range (bc_words b) (word_of_int s) (word_of_int e)\<rparr>"
  have eq: "bitset_container_negation_range b s e
      = bitset_or_array (?t\<lparr>bc_cardinality := bitset_container_compute_cardinality ?t\<rparr>)"
    by (simp add: bitset_container_negation_range_def bitset_or_array_def bitset_clone_eq Let_def)
  show "container_inv (bitset_container_negation_range b s e)"
    "container_abs (bitset_container_negation_range b s e) = sym_diff (bitset_abs b) (int_range s e)"
    unfolding eq using bitset_or_array_correct flip_recounted [OF assms] by simp_all
qed

section \<open>Ranges of cells\<close>

lemma word_of_int_range:
  assumes "0 \<le> s" and "e \<le> 65536"
  shows "ssorted (map (word_of_int :: int \<Rightarrow> u16) [s .. e - 1])" and "set (map word_of_int [s .. e - 1]) = int_range s e"
    and "distinct (map (word_of_int :: int \<Rightarrow> u16) [s .. e - 1])"
proof -
  show sorted: "ssorted (map (word_of_int :: int \<Rightarrow> u16) [s .. e - 1])"
    unfolding sorted_wrt_map
  proof (rule sorted_wrt_mono_rel [OF _ sorted_wrt_upto])
    show "(word_of_int x :: u16) < word_of_int y" if "x \<in> set [s .. e - 1]" "y \<in> set [s .. e - 1]" "x < y" for x y
      using that assms by (simp add: word_less_def unat_word_of_int)
  qed
  then show "distinct (map (word_of_int :: int \<Rightarrow> u16) [s .. e - 1])" by (rule ssorted_imp_distinct)
  have "x \<in> (word_of_int :: int \<Rightarrow> u16) ` {s .. e - 1} \<longleftrightarrow> x \<in> int_range s e" for x
  proof
    assume "x \<in> int_range s e"
    then show "x \<in> word_of_int ` {s .. e - 1}" by (intro image_eqI [of _ _ "uint x"]) (simp_all add: int_range_def)
  qed (use assms in \<open>auto simp: int_range_def unat_word_of_int\<close>)
  then show "set (map word_of_int [s .. e - 1]) = int_range s e" by auto
qed

lemma negated_cells_correct:
  assumes s: "ssorted array" and e: "e \<le> 65536"
  shows "0 \<le> v \<Longrightarrow> 0 \<le> i \<Longrightarrow> l < int (length array) \<Longrightarrow>
     (\<And>j. i \<le> int j \<Longrightarrow> int j \<le> l \<Longrightarrow> v \<le> uint (array ! j) \<and> uint (array ! j) < e) \<Longrightarrow>
     negated_cells array i l v e = filter (\<lambda>x. \<not> (\<exists>j. i \<le> int j \<and> int j \<le> l \<and> array ! j = x)) (map word_of_int [v .. e - 1])"
proof (induction "nat (e - v)" arbitrary: i v rule: less_induct)
  case less
  show ?case
  proof (cases "v < e \<and> i \<le> l")
    case False
    have "\<not> (i \<le> int j \<and> int j \<le> l \<and> array ! j \<in> int_range v e)" for j using False less.prems(4) [of j]
      by (auto simp: int_range_def)
    then have "\<not> (\<exists>j. i \<le> int j \<and> int j \<le> l \<and> array ! j = x)" if "x \<in> set (map word_of_int [v .. e - 1])" for x
      using that word_of_int_range(2) [OF less.prems(1) e] by blast
    then show ?thesis using False by (subst negated_cells.simps) (auto intro!: filter_True [symmetric])
  next
    case True
    have up: "[v .. e - 1] = v # [v + 1 .. e - 1]" using True by (simp add: upto.simps)
    have i: "nat i < length array" "int (nat i) = i" using True less.prems by auto
    have vi: "v \<le> uint (array ! nat i)" "uint (array ! nat i) < e" using less.prems(4) [of "nat i"] True i by auto
    have above: "uint (array ! nat i) < uint (array ! j)" if "i < int j" "int j \<le> l" for j
      using ssorted_nth_less [OF s, of "nat i" j] that less.prems by (auto simp: word_less_def)
    show ?thesis
    proof (cases "word_of_int v = array ! nat i")
      case eq: True
      then have v: "uint (array ! nat i) = v" using less.prems(1) True e by (metis unat_word_of_int(3) order_less_le_trans)
      have "negated_cells array i l v e = negated_cells array (i + 1) l (v + 1) e"
        using True eq by (subst negated_cells.simps) simp
      also have "\<dots> = filter (\<lambda>x. \<not> (\<exists>j. i + 1 \<le> int j \<and> int j \<le> l \<and> array ! j = x)) (map word_of_int [v + 1 .. e - 1])"
        using above v less.prems True by (intro less.hyps) (auto simp: add1_zle_eq)
      also have "\<dots> = filter (\<lambda>x. \<not> (\<exists>j. i \<le> int j \<and> int j \<le> l \<and> array ! j = x)) (map word_of_int [v + 1 .. e - 1])"
      proof (rule filter_cong [OF refl])
        fix x :: u16 assume "x \<in> set (map word_of_int [v + 1 .. e - 1])"
        then have "x \<in> int_range (v + 1) e" using word_of_int_range(2) [of "v + 1" e] less.prems(1) e by simp
        then have "x \<noteq> array ! nat i" using v by (auto simp: int_range_def)
        then have "x \<noteq> array ! j" if "int j = i" for j using that by auto
        then show "(\<nexists>j. i + 1 \<le> int j \<and> int j \<le> l \<and> array ! j = x) \<longleftrightarrow> (\<nexists>j. i \<le> int j \<and> int j \<le> l \<and> array ! j = x)"
          by (metis add1_zle_eq order_less_le)
      qed
      finally have rest: "negated_cells array i l v e
          = filter (\<lambda>x. \<not> (\<exists>j. i \<le> int j \<and> int j \<le> l \<and> array ! j = x)) (map word_of_int [v + 1 .. e - 1])" .
      have "\<exists>j. i \<le> int j \<and> int j \<le> l \<and> array ! j = word_of_int v" using eq i True by (intro exI [of _ "nat i"]) auto
      then show ?thesis unfolding up list.map filter.simps rest by (simp only: simp_thms if_False)
    next
      case ne: False
      then have lt: "v < uint (array ! nat i)" using vi(1) by (metis order_less_le word_of_int_uint)
      have from_v: "v < uint (array ! j)" if "i \<le> int j" "int j \<le> l" for j
        using above [of j] lt that i by (cases "i = int j") auto
      have "negated_cells array i l v e = word_of_int v # negated_cells array i l (v + 1) e"
        using True ne by (subst negated_cells.simps) simp
      moreover have "negated_cells array i l (v + 1) e
          = filter (\<lambda>x. \<not> (\<exists>j. i \<le> int j \<and> int j \<le> l \<and> array ! j = x)) (map word_of_int [v + 1 .. e - 1])"
        using from_v less.prems True by (intro less.hyps) (auto simp: add1_zle_eq)
      moreover have "\<not> (\<exists>j. i \<le> int j \<and> int j \<le> l \<and> array ! j = word_of_int v)"
        using from_v less.prems(1) True e by (metis order_less_irrefl order_less_le_trans unat_word_of_int(3))
      ultimately show ?thesis using up by simp
    qed
  qed
qed

section \<open>Ranges of an array container\<close>

lemma word_less_of_int: "0 \<le> s \<Longrightarrow> s < 65536 \<Longrightarrow> (x :: u16) < word_of_int s \<longleftrightarrow> uint x < s"
  and word_le_of_int: "0 \<le> s \<Longrightarrow> s < 65536 \<Longrightarrow> (word_of_int s :: u16) \<le> x \<longleftrightarrow> s \<le> uint x"
  by (simp_all add: word_less_def word_le_def unat_word_of_int)

lemma ssorted_nth_eq_iff:
  assumes s: "ssorted xs" and j: "j < length xs"
  shows "xs ! j = k \<longleftrightarrow> k \<in> set xs \<and> j = lower_bound xs k"
proof
  assume k: "xs ! j = k"
  then have "k \<in> set xs" using j by auto
  then have "lower_bound xs k < length xs" "xs ! lower_bound xs k = xs ! j" using ssorted_mem_iff [OF s, of k] k by simp_all
  then show "k \<in> set xs \<and> j = lower_bound xs k"
    using nth_eq_iff_index_eq [OF ssorted_imp_distinct [OF s] _ j] \<open>k \<in> set xs\<close> by simp
qed (simp add: ssorted_mem_iff [OF s])

text \<open>Where the range starts and ends among the cells.\<close>

lemma negation_range_indices:
  assumes s: "ssorted xs" and b: "0 \<le> s" "s < e" "e \<le> 65536"
  defines "i \<equiv> binarySearch xs (length xs) (word_of_int s)" and "l \<equiv> binarySearch xs (length xs) (word_of_int (e - 1))"
  defines "start \<equiv> (if i < 0 then - i - 1 else i)" and "stop \<equiv> (if l < 0 then - l - 2 else l)"
  shows "0 \<le> start" and "start \<le> int (length xs)" and "- 1 \<le> stop" and "stop < int (length xs)" and "start \<le> stop + 1"
    and "j < length xs \<Longrightarrow> start \<le> int j \<longleftrightarrow> s \<le> uint (xs ! j)" and "j < length xs \<Longrightarrow> int j \<le> stop \<longleftrightarrow> uint (xs ! j) < e"
proof -
  let ?p = "lower_bound xs (word_of_int s)" and ?q = "lower_bound xs (word_of_int (e - 1))"
  have start: "start = int ?p"
    using search_result_found [OF s] search_result_absent [OF s] binarySearch_prefix [of "length xs" xs] s
    by (cases "word_of_int s \<in> set xs") (simp_all add: start_def i_def)
  have stop: "stop = (if word_of_int (e - 1) \<in> set xs then int ?q else int ?q - 1)"
    using search_result_found [OF s] search_result_absent [OF s] binarySearch_prefix [of "length xs" xs] s
    by (cases "word_of_int (e - 1) \<in> set xs") (simp_all add: stop_def l_def)
  have e: "0 \<le> e - 1" "e - 1 < 65536" using b by simp_all
  note q = ssorted_mem_iff [OF s, of "word_of_int (e - 1)"]
  show "0 \<le> start" "start \<le> int (length xs)" "- 1 \<le> stop" by (simp_all add: start stop)
  show lt: "stop < int (length xs)"
    using q lower_bound_le [of xs "word_of_int (e - 1)"] unfolding stop by (auto simp del: lower_bound_le)
  have "?p \<le> ?q" using b e by (intro lower_bound_mono [OF s]) (simp add: word_le_def unat_word_of_int del: of_int_diff)
  then show "start \<le> stop + 1" by (simp add: start stop)
  assume j: "j < length xs"
  have "start \<le> int j \<longleftrightarrow> \<not> xs ! j < word_of_int s" using ssorted_nth_less_iff [OF s j, of "word_of_int s"] unfolding start by linarith
  then show "start \<le> int j \<longleftrightarrow> s \<le> uint (xs ! j)" using word_less_of_int [OF b(1), of "xs ! j"] b by linarith
  have less: "xs ! j < word_of_int (e - 1) \<longleftrightarrow> j < ?q" by (rule ssorted_nth_less_iff [OF s j])
  have same: "xs ! j = word_of_int (e - 1) \<longleftrightarrow> word_of_int (e - 1) \<in> set xs \<and> j = ?q"
    by (rule ssorted_nth_eq_iff [OF s j])
  have at_e: "xs ! j = word_of_int (e - 1) \<longleftrightarrow> uint (xs ! j) = e - 1"
    using unat_word_of_int(3) [OF e] by (metis word_of_int_uint)
  have "uint (xs ! j) < e \<longleftrightarrow> xs ! j < word_of_int (e - 1) \<or> xs ! j = word_of_int (e - 1)"
    using word_less_of_int [OF e, of "xs ! j"] at_e by linarith
  then show "int j \<le> stop \<longleftrightarrow> uint (xs ! j) < e" using less same by (auto simp: stop)
qed

lemma card_sym_diff:
  fixes A B :: "u16 set"
  shows "int (card (sym_diff A B)) = int (card A) + int (card B) - 2 * int (card (A \<inter> B))"
proof -
  have "int (card A) = int (card (A - B)) + int (card (A \<inter> B))" "int (card B) = int (card (B - A)) + int (card (A \<inter> B))"
    using card_Int_Diff [of A B] card_Int_Diff [of B A] by (simp_all add: Int_commute)
  moreover have "card (sym_diff A B) = card (A - B) + card (B - A)" by (rule card_Un_disjoint) auto
  ultimately show ?thesis by simp
qed

lemma card_int_range: "0 \<le> s \<Longrightarrow> s \<le> e \<Longrightarrow> e \<le> 65536 \<Longrightarrow> int (card (int_range s e)) = e - s"
proof -
  assume b: "0 \<le> s" "s \<le> e" "e \<le> 65536"
  note R = word_of_int_range [OF b(1,3)]
  have "card (int_range s e) = length (map (word_of_int :: int \<Rightarrow> u16) [s .. e - 1])"
    unfolding R(2) [symmetric] by (rule distinct_card [OF R(3)])
  then show ?thesis using b by simp
qed

lemma set_drop_conv: "x \<in> set (drop n xs) \<longleftrightarrow> (\<exists>j. n \<le> j \<and> j < length xs \<and> x = xs ! j)"
proof
  assume "x \<in> set (drop n xs)"
  then obtain i where "i < length (drop n xs)" "drop n xs ! i = x" unfolding in_set_conv_nth by blast
  then have "n + i < length xs" "x = xs ! (n + i)" by simp_all
  then show "\<exists>j. n \<le> j \<and> j < length xs \<and> x = xs ! j" by (intro exI [of _ "n + i"]) simp
next
  assume "\<exists>j. n \<le> j \<and> j < length xs \<and> x = xs ! j"
  then obtain j where "n \<le> j" "j < length xs" "x = xs ! j" by blast
  then show "x \<in> set (drop n xs)" unfolding in_set_conv_nth by (intro exI [of _ "j - n"]) simp
qed

lemma flipped_cells:
  assumes s: "ssorted xs" and b: "0 \<le> s" "s < e" "e \<le> 65536"
    and ix: "0 \<le> start" "start \<le> int (length xs)" "- 1 \<le> stop" "stop < int (length xs)" "start \<le> stop + 1"
    and from_s: "\<And>j. j < length xs \<Longrightarrow> start \<le> int j \<longleftrightarrow> s \<le> uint (xs ! j)"
    and to_e: "\<And>j. j < length xs \<Longrightarrow> int j \<le> stop \<longleftrightarrow> uint (xs ! j) < e"
  defines "cells \<equiv> take (nat start) xs @ negated_cells xs start stop s e @ drop (nat (stop + 1)) xs"
  shows "ssorted cells" and "set cells = sym_diff (set xs) (int_range s e)"
    and "stop - start + 1 = int (card (set xs \<inter> int_range s e))"
proof -
  let ?in = "\<lambda>x. \<exists>j. start \<le> int j \<and> int j \<le> stop \<and> xs ! j = x"
  have within: "?in x \<longleftrightarrow> x \<in> set xs \<and> x \<in> int_range s e" for x
  proof
    assume "?in x"
    then obtain j where "start \<le> int j" "int j \<le> stop" "xs ! j = x" by blast
    moreover from this have "j < length xs" using ix(4) by linarith
    ultimately show "x \<in> set xs \<and> x \<in> int_range s e" using from_s [of j] to_e [of j] by (auto simp: int_range_def)
  next
    assume "x \<in> set xs \<and> x \<in> int_range s e"
    then obtain j where "j < length xs" "xs ! j = x" "s \<le> uint (xs ! j)" "uint (xs ! j) < e"
      by (auto simp: int_range_def in_set_conv_nth)
    then show "?in x" using from_s [of j] to_e [of j] by blast
  qed
  have neg: "negated_cells xs start stop s e = filter (\<lambda>x. x \<notin> set xs) (map word_of_int [s .. e - 1])"
  proof -
    have "negated_cells xs start stop s e = filter (\<lambda>x. \<not> ?in x) (map word_of_int [s .. e - 1])"
    proof (rule negated_cells_correct [OF s b(3)])
      show "s \<le> uint (xs ! j) \<and> uint (xs ! j) < e" if "start \<le> int j" "int j \<le> stop" for j
        using that from_s [of j] to_e [of j] ix(4) by linarith
    qed (use b ix in auto)
    also have "\<dots> = filter (\<lambda>x. x \<notin> set xs) (map word_of_int [s .. e - 1])"
      unfolding within using word_of_int_range(2) [OF b(1,3)] by (intro filter_cong) auto
    finally show ?thesis .
  qed
  have N: "ssorted (negated_cells xs start stop s e)" "set (negated_cells xs start stop s e) = int_range s e - set xs"
    using word_of_int_range(1,2) [OF b(1,3)] by (auto simp: neg ssorted_filter)
  have pre: "set (take (nat start) xs) = {x \<in> set xs. uint x < s}"
  proof (intro set_eqI iffI)
    fix x assume "x \<in> set (take (nat start) xs)"
    then obtain j where "j < nat start" "j < length xs" "x = xs ! j" by (auto simp: in_set_conv_nth)
    then show "x \<in> {x \<in> set xs. uint x < s}" using from_s [of j] by auto
  next
    fix x assume "x \<in> {x \<in> set xs. uint x < s}"
    then obtain j where j: "j < length xs" "x = xs ! j" "uint (xs ! j) < s" by (auto simp: in_set_conv_nth)
    then have "j < nat start" using from_s [of j] by simp
    then show "x \<in> set (take (nat start) xs)" using j by (auto simp: in_set_conv_nth)
  qed
  have post: "set (drop (nat (stop + 1)) xs) = {x \<in> set xs. e \<le> uint x}"
  proof (intro set_eqI iffI)
    fix x assume "x \<in> set (drop (nat (stop + 1)) xs)"
    then obtain j where "nat (stop + 1) \<le> j" "j < length xs" "x = xs ! j" by (auto simp: set_drop_conv)
    then show "x \<in> {x \<in> set xs. e \<le> uint x}" using to_e [of j] ix by auto
  next
    fix x assume "x \<in> {x \<in> set xs. e \<le> uint x}"
    then obtain j where "j < length xs" "x = xs ! j" "e \<le> uint (xs ! j)" by (auto simp: in_set_conv_nth)
    then show "x \<in> set (drop (nat (stop + 1)) xs)" using to_e [of j] ix by (auto simp: set_drop_conv intro!: exI [of _ j])
  qed
  show "set cells = sym_diff (set xs) (int_range s e)"
    by (auto simp: cells_def pre post N(2) int_range_def)
  show "ssorted cells" unfolding cells_def sorted_wrt_append
    using N ssorted_take [OF s] ssorted_drop [OF s] b(2) by (auto simp: pre post int_range_def word_less_def)
  have "set xs = set (take (nat start) xs) \<union> (set xs \<inter> int_range s e) \<union> set (drop (nat (stop + 1)) xs)"
    by (auto simp: pre post int_range_def)
  moreover have "set (take (nat start) xs) \<inter> (set xs \<inter> int_range s e) = {}"
    "(set (take (nat start) xs) \<union> (set xs \<inter> int_range s e)) \<inter> set (drop (nat (stop + 1)) xs) = {}"
    unfolding pre post using b(2) by (auto simp: int_range_def)
  ultimately have "card (set xs) = card (set (take (nat start) xs)) + card (set xs \<inter> int_range s e) + card (set (drop (nat (stop + 1)) xs))"
    by (metis (no_types, lifting) List.finite_set card_Un_disjoint finite_Int finite_UnI)
  then have "length xs = length (take (nat start) xs) + card (set xs \<inter> int_range s e) + length (drop (nat (stop + 1)) xs)"
    unfolding ssorted_card [OF s] ssorted_card [OF ssorted_take [OF s]] ssorted_card [OF ssorted_drop [OF s]] .
  then show "stop - start + 1 = int (card (set xs \<inter> int_range s e))" using ix by simp
qed

lemma array_negation_range_correct:
  assumes inv: "array_inv a" "ac_cardinality a \<le> 4096" and b: "0 \<le> s" "e \<le> 65536"
  shows "container_inv (array_container_negation_range a s e)"
    and "container_abs (array_container_negation_range a s e) = sym_diff (array_abs a) (int_range s e)"
proof -
  let ?xs = "ac_array a"
  have xs: "ssorted ?xs" "ac_len a = length ?xs" "ac_cardinality a = int (length ?xs)" using inv(1) by (simp_all add: array_simps)
  have "container_inv (array_container_negation_range a s e)
      \<and> container_abs (array_container_negation_range a s e) = sym_diff (array_abs a) (int_range s e)"
  proof (cases "s < e")
    case False
    then have "int_range s e = {}" by (auto simp: int_range_def)
    then show ?thesis using False inv by (simp add: array_container_negation_range_def array_clone_eq)
  next
    case lt: True
    define i where "i = binarySearch ?xs (length ?xs) (word_of_int s)"
    define l where "l = binarySearch ?xs (length ?xs) (word_of_int (e - 1))"
    define start where "start = (if i < 0 then - i - 1 else i)"
    define stop where "stop = (if l < 0 then - l - 2 else l)"
    note ix = negation_range_indices [OF xs(1) b(1) lt b(2), folded i_def l_def, folded start_def stop_def]
    define cells where "cells = take (nat start) ?xs @ negated_cells ?xs start stop s e @ drop (nat (stop + 1)) ?xs"
    note C = flipped_cells [OF xs(1) b(1) lt b(2) ix, folded cells_def]
    define m where "m = int (card (sym_diff (array_abs a) (int_range s e)))"
    have m: "ac_cardinality a + (e - s - (stop - start + 1) - (stop - start + 1)) = m"
      using C(3) card_sym_diff [of "array_abs a" "int_range s e"] card_int_range [OF b(1) _ b(2)] lt array_inv_card [OF inv(1)]
      by (simp add: m_def array_abs_def)
    have post: "take (nat (ac_cardinality a - (stop + 1))) (drop (nat (stop + 1)) ?xs) = drop (nat (stop + 1)) ?xs"
      using ix(3,4) xs(3) by simp
    let ?t = "bitset_container_from_array a"
    have eq: "array_container_negation_range a s e = (if m > 4096
        then Bitset_c (?t\<lparr>bc_words := bitset_flip_range (bc_words ?t) (word_of_int s) (word_of_int e), bc_cardinality := m\<rparr>)
        else if m = 0 then Array_c ((array_container_create_given_capacity m)\<lparr>ac_cardinality := m\<rparr>)
        else Array_c ((array_container_create_given_capacity m)\<lparr>ac_array := cells, ac_cardinality := m\<rparr>))"
      unfolding array_container_negation_range_def xs(2) i_def [symmetric] l_def [symmetric] Let_def
        start_def [symmetric] stop_def [symmetric] m post cells_def [symmetric]
      using lt by simp
    have t: "bitset_inv ?t" "bitset_abs ?t = array_abs a" using bitset_from_array_correct [OF inv(1)] by simp_all
    note F = flip_words [OF inv_words(1) [OF t(1)] b(1) _ b(2), unfolded words_abs_wf [OF bitset_inv_wf [OF t(1)]] t(2)]
    have big: "bitset_inv (?t\<lparr>bc_words := bitset_flip_range (bc_words ?t) (word_of_int s) (word_of_int e), bc_cardinality := m\<rparr>)
        \<and> bitset_abs (?t\<lparr>bc_words := bitset_flip_range (bc_words ?t) (word_of_int s) (word_of_int e), bc_cardinality := m\<rparr>)
          = sym_diff (array_abs a) (int_range s e)"
      using counted_bitset [OF F m_def] lt by simp
    have "set cells = sym_diff (array_abs a) (int_range s e)" using C(2) by (simp add: array_abs_def)
    then have len: "int (length cells) = m" using ssorted_card [OF C(1)] by (simp only: m_def)
    have small: "array_inv ((array_container_create_given_capacity m)\<lparr>ac_array := cells, ac_cardinality := m\<rparr>)
        \<and> array_abs ((array_container_create_given_capacity m)\<lparr>ac_array := cells, ac_cardinality := m\<rparr>) = sym_diff (array_abs a) (int_range s e)"
      using sorted_array [OF C(1), of m] len C(2) by (simp add: array_abs_def)
    have zero: "(array_container_create_given_capacity m)\<lparr>ac_cardinality := m\<rparr>
        = (array_container_create_given_capacity m)\<lparr>ac_array := cells, ac_cardinality := m\<rparr>" if "m = 0"
      using that len by (simp add: array_container_create_given_capacity_def)
    have "array_container_negation_range a s e = (if m > 4096
        then Bitset_c (?t\<lparr>bc_words := bitset_flip_range (bc_words ?t) (word_of_int s) (word_of_int e), bc_cardinality := m\<rparr>)
        else Array_c ((array_container_create_given_capacity m)\<lparr>ac_array := cells, ac_cardinality := m\<rparr>))"
      unfolding eq using zero by presburger
    then show ?thesis using big small by simp
  qed
  then show "container_inv (array_container_negation_range a s e)"
    "container_abs (array_container_negation_range a s e) = sym_diff (array_abs a) (int_range s e)" by simp_all
qed

section \<open>Runs\<close>

lemma smart_append_count:
  assumes "rc_n_runs c = int (length (rc_runs c))"
    and "run_container_smart_append_exclusive c v l = c'"
  shows "rc_n_runs c' = int (length (rc_runs c'))" and "length (rc_runs c') \<le> Suc (length (rc_runs c))"
    and "rc_capacity c' = rc_capacity c"
proof -
  define P where "P x \<longleftrightarrow> rc_n_runs x = int (length (rc_runs x)) \<and> length (rc_runs x) \<le> Suc (length (rc_runs c))
      \<and> rc_capacity x = rc_capacity c" for x :: run_container
  have P: "P (push_run c q)" "P (set_run c i q)" "P (push_run (set_run c i p) q)" for p q i
    using assms(1) by (simp_all add: P_def)
  have shorter: "P (c\<lparr>rc_n_runs := rc_n_runs c - 1, rc_runs := take (nat (rc_n_runs c - 1)) (rc_runs c)\<rparr>)"
    if "\<not> (rc_n_runs c = 0 \<or> Q)" for Q using that assms(1) by (simp add: P_def of_nat_diff Suc_leI)
  have choose: "(a \<Longrightarrow> P x) \<Longrightarrow> (\<not> a \<Longrightarrow> P y) \<Longrightarrow> P (if a then x else y)" for a x y by simp
  have "P c'" unfolding assms(2) [symmetric] run_container_smart_append_exclusive_def Let_def
    by (intro choose P) (erule shorter)
  then show "rc_n_runs c' = int (length (rc_runs c'))" "length (rc_runs c') \<le> Suc (length (rc_runs c))" "rc_capacity c' = rc_capacity c"
    by (simp_all add: P_def)
qed

lemma smart_append_capacity:
  "run_container_smart_append_exclusive (c\<lparr>rc_capacity := m\<rparr>) v l = (run_container_smart_append_exclusive c v l)\<lparr>rc_capacity := m\<rparr>"
  by (simp add: run_container_smart_append_exclusive_def Let_def push_run_def set_run_def)

lemma smart_appends:
  "room_for c (length rs) \<Longrightarrow> runs_ok rs \<Longrightarrow> apart (rc_runs c) rs [] \<Longrightarrow>
     room_for (fold append_exclusive rs c) 0 \<and>
     (\<forall>n. covers (rc_runs (fold append_exclusive rs c)) n \<longleftrightarrow> covers (rc_runs c) n \<noteq> covers rs n)"
proof (induction rs arbitrary: c)
  case (Cons r rs)
  let ?c = "append_exclusive r c"
  have step: "room_for ?c (length rs) \<and> apart (rc_runs ?c) rs [] \<and> (\<forall>n. covers (rc_runs ?c) n \<longleftrightarrow> covers (rc_runs c) n \<noteq> in_run r n)"
    by (rule smart_append_step) (use Cons.prems in auto)
  have out: "\<not> (in_run r n \<and> covers rs n)" for n using Cons.prems(2) by (auto simp: runs_ok_Cons covers_def in_run_def)
  have IH: "room_for (fold append_exclusive rs ?c) 0 \<and>
      (\<forall>n. covers (rc_runs (fold append_exclusive rs ?c)) n \<longleftrightarrow> covers (rc_runs ?c) n \<noteq> covers rs n)"
    by (rule Cons.IH) (use step Cons.prems(2) in \<open>simp_all add: runs_ok_Cons\<close>)
  have "covers (rc_runs (fold append_exclusive rs ?c)) n \<longleftrightarrow> covers (rc_runs c) n \<noteq> (in_run r n \<or> covers rs n)" for n
    using IH step out [of n] by blast
  then show ?case using IH by simp
qed simp

lemma range_run_simps:
  assumes "0 \<le> s" and "s < e" and "e \<le> 65536"
  shows "rstart (range_run s e) = nat s" and "rend (range_run s e) = nat e - 1"
    and "in_run (range_run s e) n \<longleftrightarrow> nat s \<le> n \<and> n < nat e"
proof -
  have u: "unat (word_of_int s :: u16) = nat s" "unat (word_of_int (e - s - 1) :: u16) = nat (e - s - 1)"
    using assms by (simp_all add: unat_word_of_int del: of_int_diff)
  show a: "rstart (range_run s e) = nat s" "rend (range_run s e) = nat e - 1"
    using u assms by (simp_all add: range_run_def rstart_def rend_def nat_diff_distrib del: of_int_diff)
  have "0 < nat e" using assms by simp
  then show "in_run (range_run s e) n \<longleftrightarrow> nat s \<le> n \<and> n < nat e" unfolding in_run_def a by (simp add: less_eq_Suc_le le_diff_conv2)
qed

lemma negated_runs:
  assumes ok: "runs_ok rs" and b: "0 \<le> s" "s < e" "e \<le> 65536"
  defines "D \<equiv> takeWhile (\<lambda>r. uint (rl_value r) < s) rs"
  assumes c: "rc_runs c = D" "rc_n_runs c = int (length D)" "int (length rs) + 1 \<le> rc_capacity c"
  defines "c' \<equiv> fold append_exclusive (drop (length D) rs) (append_exclusive (range_run s e) c)"
  shows "room_for c' 0" and "covers (rc_runs c') n \<longleftrightarrow> covers rs n \<noteq> (nat s \<le> n \<and> n < nat e)"
proof -
  let ?E = "drop (length D) rs" and ?R = "range_run s e"
  have split: "rs = D @ ?E" by (simp add: D_def flip: dropWhile_eq_drop)
  have oks: "runs_ok D" "runs_ok ?E" "\<forall>d \<in> set D. \<forall>x \<in> set ?E. rend d + 1 < rstart x"
    using ok runs_ok_append [of D ?E] split by auto
  note R = range_run_simps [OF b]
  have before: "rstart d < nat s" if "d \<in> set D" for d
    using set_takeWhileD [OF that [unfolded D_def]] unfolding rstart_def zless_nat_eq_int_zless uint_u16_int by blast
  have after: "nat s \<le> rstart x" if "x \<in> set ?E" for x
  proof (cases ?E)
    case (Cons y ys)
    have "?E = dropWhile (\<lambda>r. uint (rl_value r) < s) rs" by (simp add: D_def flip: dropWhile_eq_drop)
    then have "\<not> uint (rl_value y) < s" using Cons by (metis dropWhile_eq_Cons_conv)
    then have "nat s \<le> rstart y" unfolding rstart_def nat_le_iff uint_u16_int by linarith
    also have "rstart y \<le> rstart x" using that oks(2) Cons runs_ok_starts [of y ys x] by auto
    finally show ?thesis .
  qed (use that in simp)
  have apart: "apart (rc_runs c) [?R] ?E"
  proof (cases "D = []")
    case False
    then have "last D \<in> set D" by simp
    then show ?thesis using before [of "last D"] after oks(3) unfolding apart_def c(1) R by (fastforce simp: R)
  qed (simp add: apart_def c)
  have step: "room_for (append_exclusive ?R c) (length ?E) \<and> apart (rc_runs (append_exclusive ?R c)) [] ?E \<and>
      (\<forall>n. covers (rc_runs (append_exclusive ?R c)) n \<longleftrightarrow> covers (rc_runs c) n \<noteq> in_run ?R n)"
  proof (rule smart_append_step)
    have "length D + length ?E = length rs" using split by (metis length_append)
    then show "room_for c (Suc (length ?E))" using c oks(1) unfolding room_for_def by simp
    show "runs_ok [?R]" using R(2) b by (simp add: runs_ok_Cons)
    show "\<forall>x \<in> set ?E. rstart ?R \<le> rstart x" using after R by simp
  qed (rule apart)
  have all: "room_for c' 0 \<and> (\<forall>n. covers (rc_runs c') n \<longleftrightarrow> covers (rc_runs (append_exclusive ?R c)) n \<noteq> covers ?E n)"
    unfolding c'_def by (rule smart_appends) (use step oks(2) apart_commute in auto)
  then show "room_for c' 0" by simp
  have "covers rs n \<longleftrightarrow> covers D n \<noteq> covers ?E n"
  proof -
    have "covers rs n \<longleftrightarrow> covers D n \<or> covers ?E n" by (subst split) (simp add: covers_def bex_Un)
    moreover have "\<not> (covers D n \<and> covers ?E n)" using oks(3) unfolding covers_def in_run_def by fastforce
    ultimately show ?thesis by blast
  qed
  then show "covers (rc_runs c') n \<longleftrightarrow> covers rs n \<noteq> (nat s \<le> n \<and> n < nat e)"
    using all step R(3) [of n] unfolding c(1) by auto
qed

lemma negated_abs:
  assumes "\<And>n. covers (rc_runs c') n \<longleftrightarrow> covers (rc_runs r) n \<noteq> (nat s \<le> n \<and> n < nat e)" and "0 \<le> s"
  shows "run_abs c' = sym_diff (run_abs r) (int_range s e)"
  using assms by (auto simp: run_abs_def int_range_nat)

lemma run_clone_eq: "run_inv r \<Longrightarrow> run_container_clone r = r"
  by (cases r) (simp add: run_container_clone_def run_container_create_given_capacity_def run_inv_def)

lemma run_negation_range_correct:
  assumes inv: "run_inv r" and b: "0 \<le> s" "e \<le> 65536"
  shows "container_inv (run_container_negation_range r s e)"
    and "container_abs (run_container_negation_range r s e) = sym_diff (run_abs r) (int_range s e)"
proof -
  have "container_inv (run_container_negation_range r s e) \<and>
      container_abs (run_container_negation_range r s e) = sym_diff (run_abs r) (int_range s e)"
  proof (cases "s < e")
    case False
    then have "int_range s e = {}" by (auto simp: int_range_def)
    then show ?thesis using False inv by (simp add: run_container_negation_range_def run_clone_eq)
  next
    case True
    define D where "D = takeWhile (\<lambda>q. uint (rl_value q) < s) (rc_runs r)"
    define c where "c = (run_container_create_given_capacity (rc_n_runs r + 1))\<lparr>rc_runs := D, rc_n_runs := int (length D)\<rparr>"
    define c' where "c' = fold append_exclusive (drop (length D) (rc_runs r)) (append_exclusive (range_run s e) c)"
    have c: "rc_runs c = D" "rc_n_runs c = int (length D)" "int (length (rc_runs r)) + 1 \<le> rc_capacity c"
      using inv by (simp_all add: c_def run_container_create_given_capacity_def run_inv_def)
    note N = negated_runs [OF run_inv_simps(1) [OF inv] b(1) True b(2) c [unfolded D_def], folded D_def, folded c'_def]
    have "run_inv c'" using N(1) by (simp add: room_for_def run_inv_def)
    moreover have "run_container_negation_range r s e = convert_run_to_efficient_container c'"
      using True by (simp add: run_container_negation_range_def Let_def c'_def c_def D_def)
    ultimately show ?thesis using convert_run_to_efficient_correct [of c'] negated_abs [OF N(2) b(1)] by simp
  qed
  then show "container_inv (run_container_negation_range r s e)"
    "container_abs (run_container_negation_range r s e) = sym_diff (run_abs r) (int_range s e)" by simp_all
qed

section \<open>Runs in place\<close>

text \<open>
  Where membership changes: a list of runs has two edges for each run, and flipping a range
  moves only the edges at its two ends.
\<close>

definition edges :: "nat set \<Rightarrow> nat set" where
  "edges B = {n. (n \<in> B) \<noteq> (0 < n \<and> n - 1 \<in> B)}"

lemma edges_runs: "runs_ok rs \<Longrightarrow> finite (edges {n. covers rs n}) \<and> card (edges {n. covers rs n}) = 2 * length rs"
proof (induction rs)
  case Nil
  then show ?case by (simp add: edges_def covers_def)
next
  case (Cons r rs)
  let ?E = "edges {n. covers rs n}"
  have above: "rend r + 1 < n" if "covers rs n" for n
    using that Cons.prems by (auto simp: covers_def in_run_def runs_ok_Cons)
  have far: "rend r + 1 < n" if "n \<in> ?E" for n
  proof (cases "covers rs n")
    case False
    then have "0 < n" "covers rs (n - 1)" using that by (auto simp: edges_def)
    then show ?thesis using above [of "n - 1"] by simp
  qed (rule above)
  have low: "n < rend r + 2 \<Longrightarrow> \<not> covers rs n" for n using above [of n] by auto
  have "edges {n. covers (r # rs) n} = insert (rstart r) (insert (rend r + 1) ?E)" (is "?L = ?R")
  proof (intro set_eqI)
    fix n
    show "n \<in> ?L \<longleftrightarrow> n \<in> ?R"
    proof (cases "n < rend r + 2")
      case True
      then have "\<not> covers rs n" "\<not> covers rs (n - 1)" using low by auto
      then have "n \<in> ?L \<longleftrightarrow> in_run r n \<noteq> (0 < n \<and> in_run r (n - 1))" by (simp add: edges_def)
      also have "\<dots> \<longleftrightarrow> n = rstart r \<or> n = rend r + 1" using rstart_le_rend [of r] True unfolding in_run_def by arith
      also have "\<dots> \<longleftrightarrow> n \<in> ?R" using far [of n] True by auto
      finally show ?thesis .
    next
      case False
      then have "\<not> in_run r n" "\<not> in_run r (n - 1)" by (auto simp: in_run_def)
      then show ?thesis using False rstart_le_rend [of r] by (auto simp: edges_def)
    qed
  qed
  moreover have "rstart r \<notin> insert (rend r + 1) ?E" "rend r + 1 \<notin> ?E"
    using far [of "rstart r"] far [of "rend r + 1"] rstart_le_rend [of r] by auto
  moreover have "finite ?E \<and> card ?E = 2 * length rs" using Cons by (simp add: runs_ok_Cons)
  ultimately show ?case by simp
qed

lemma edges_flip:
  assumes "s < e"
  shows "edges {n. (n \<in> B) \<noteq> (s \<le> n \<and> n < e)} = sym_diff (edges B) {s, e}"
proof (intro set_eqI)
  fix n
  have "(s \<le> n \<and> n < e) \<noteq> (0 < n \<and> s \<le> n - 1 \<and> n - 1 < e) \<longleftrightarrow> n = s \<or> n = e"
    using assms by arith
  then show "n \<in> edges {n. (n \<in> B) \<noteq> (s \<le> n \<and> n < e)} \<longleftrightarrow> n \<in> sym_diff (edges B) {s, e}"
    by (auto simp: edges_def)
qed

lemma runs_after_flip:
  assumes ok: "runs_ok rs" "runs_ok rs'" and lt: "s < e"
    and flip: "\<And>n. covers rs' n \<longleftrightarrow> covers rs n \<noteq> (s \<le> n \<and> n < e)"
  shows "length rs' \<le> length rs + 1"
    and "s \<in> edges {n. covers rs n} \<or> e \<in> edges {n. covers rs n} \<Longrightarrow> length rs' \<le> length rs"
proof -
  let ?E = "edges {n. covers rs n}" and ?E' = "edges {n. covers rs' n}"
  have E': "?E' = sym_diff ?E {s, e}" using edges_flip [OF lt, of "{n. covers rs n}"] flip by simp
  note fin = edges_runs [OF ok(1)] edges_runs [OF ok(2)]
  have "card ?E' \<le> card (?E \<union> {s, e})" unfolding E' using fin by (intro card_mono) auto
  also have "\<dots> \<le> card ?E + 2" using card_Un_le [of ?E "{s, e}"] lt by simp
  finally show "length rs' \<le> length rs + 1" using fin by simp
  assume "s \<in> ?E \<or> e \<in> ?E"
  then obtain a b where ab: "a \<in> ?E" "{s, e} = {a, b}" by blast
  have "card ?E' \<le> card (insert b (?E - {a}))" unfolding E' ab(2) using fin ab(1) by (intro card_mono) auto
  also have "\<dots> \<le> card ?E" using ab(1) fin card_insert_le_m1 [of "card ?E" "?E - {a}" b]
    by (cases "card ?E") (auto simp: card_insert_if)
  finally show "length rs' \<le> length rs" using fin by simp
qed

text \<open>The buffer of depth one: the loop never reads a cell it has overwritten.\<close>

lemma negation_inplace_loop_eq:
  assumes "length runs = m"
  shows "k < m \<longrightarrow> buffered = runs ! k \<Longrightarrow> (\<And>j. k < j \<Longrightarrow> j < m \<Longrightarrow> cells ! j = runs ! j) \<Longrightarrow> m \<le> length cells \<Longrightarrow>
     rc_n_runs ans = int (length (rc_runs ans)) \<Longrightarrow> length (rc_runs ans) \<le> k + 1 \<Longrightarrow>
     fst (negation_inplace_loop k m buffered next_run ans cells) = fold append_exclusive (drop k runs) ans"
proof (induction "m - k" arbitrary: k buffered next_run ans cells)
  case 0
  then show ?case using assms by (subst negation_inplace_loop.simps) simp
next
  case (Suc d)
  then have k: "k < m" by simp
  let ?ans = "append_exclusive buffered ans" and ?nxt = "if k + 1 < m then cells ! (k + 1) else next_run"
  note count = smart_append_count [OF Suc.prems(4) refl, of "rl_value buffered" "rl_length buffered"]
  have "negation_inplace_loop k m buffered next_run ans cells
      = negation_inplace_loop (k + 1) m ?nxt ?nxt ?ans (written ?ans cells)"
    using k by (subst negation_inplace_loop.simps) (simp add: Let_def)
  also have "fst \<dots> = fold append_exclusive (drop (k + 1) runs) ?ans"
  proof (rule Suc.hyps)
    show "d = m - (k + 1)" using Suc.hyps(2) by simp
    show "k + 1 < m \<longrightarrow> ?nxt = runs ! (k + 1)" using Suc.prems(2) by simp
    show "written ?ans cells ! j = runs ! j" if "k + 1 < j" "j < m" for j
      using that count(2) Suc.prems(2) [of j] Suc.prems(3,5) by (simp add: written_def nth_append)
    show "m \<le> length (written ?ans cells)" using Suc.prems(3) by (simp add: written_def)
    show "rc_n_runs ?ans = int (length (rc_runs ?ans))" by (rule count(1))
    show "length (rc_runs ?ans) \<le> k + 1 + 1" using count(2) Suc.prems(5) by simp
  qed
  also have "\<dots> = fold append_exclusive (drop k runs) ans"
    using k assms Suc.prems(1) by (simp flip: Cons_nth_drop_Suc)
  finally show ?case .
qed

lemma no_space_edges:
  assumes inv: "run_inv r" and b: "0 \<le> s" "s < e" "e \<le> 65536"
  shows "no_space_for_inplace r s e \<longleftrightarrow> nat s \<notin> edges {n. covers (rc_runs r) n} \<and> nat e \<notin> edges {n. covers (rc_runs r) n}"
proof -
  have has: "run_container_contains r (word_of_int v) \<longleftrightarrow> covers (rc_runs r) (nat v)" if "0 \<le> v" "v < 65536" for v
    using rc.contains_abs [OF inv] that by (simp add: run_abs_def unat_word_of_int)
  have top: "\<not> covers (rc_runs r) 65536" using run_ends [OF run_inv_simps(1) [OF inv]] by (fastforce simp: covers_def in_run_def)
  have "0 < s \<Longrightarrow> nat (s - 1) = nat s - 1" "nat (e - 1) = nat e - 1" "0 < nat s \<longleftrightarrow> 0 < s" "0 < nat e" using b by auto
  moreover have "(0 < s \<and> run_container_contains r (word_of_int (s - 1))) = (0 < s \<and> covers (rc_runs r) (nat (s - 1)))"
    using has [of "s - 1"] b by auto
  moreover have "run_container_contains r (word_of_int s) = covers (rc_runs r) (nat s)"
    "run_container_contains r (word_of_int (e - 1)) = covers (rc_runs r) (nat (e - 1))"
    using has [of s] has [of "e - 1"] b by simp_all
  moreover have "(e \<noteq> 65536 \<and> run_container_contains r (word_of_int e)) = covers (rc_runs r) (nat e)"
    using has [of e] b top by (cases "e = 65536") auto
  ultimately show ?thesis unfolding no_space_for_inplace_def Let_def edges_def by auto
qed

lemma negation_inplace_runs_correct:
  assumes inv: "run_inv r" and b: "0 \<le> s" "s < e" "e \<le> 65536"
  defines "c' \<equiv> fst (negation_inplace_runs r s e)"
  shows "runs_ok (rc_runs c')" and "covers (rc_runs c') n \<longleftrightarrow> covers (rc_runs r) n \<noteq> (nat s \<le> n \<and> n < nat e)"
    and "rc_n_runs c' = int (length (rc_runs c'))" and "rc_capacity c' = rc_capacity r"
proof -
  let ?rs = "rc_runs r"
  define D where "D = takeWhile (\<lambda>q. uint (rl_value q) < s) ?rs"
  have len: "rc_len r = length ?rs" "length D \<le> length ?rs" using inv by (simp_all add: run_simps D_def length_takeWhile_le)
  have take: "take (length D) ?rs = D" unfolding D_def by (metis takeWhile_eq_take)
  define ans where "ans = r\<lparr>rc_n_runs := int (length D), rc_runs := D\<rparr>"
  define nxt where "nxt = append_exclusive (range_run s e) ans"
  have ans: "rc_n_runs ans = int (length (rc_runs ans))" "rc_runs ans = D" "rc_capacity ans = rc_capacity r" by (simp_all add: ans_def)
  note count = smart_append_count [OF ans(1) nxt_def [symmetric]]
  have "fst (negation_inplace_runs r s e) = fold append_exclusive (drop (length D) ?rs) nxt"
    unfolding negation_inplace_runs_def Let_def len(1) D_def [symmetric] take ans_def [symmetric] nxt_def [symmetric]
  proof (rule negation_inplace_loop_eq [OF refl])
    show "written nxt ?rs ! j = ?rs ! j" if "length D < j" "j < length ?rs" for j
      using that count(2) ans(2) by (simp add: written_def nth_append)
  qed (use count ans len in \<open>auto simp: written_def\<close>)
  moreover have "fold append_exclusive rs (c\<lparr>rc_capacity := m\<rparr>) = (fold append_exclusive rs c)\<lparr>rc_capacity := m\<rparr>" for rs c m
    by (induction rs arbitrary: c) (simp_all add: smart_append_capacity)
  moreover have "nxt\<lparr>rc_capacity := m\<rparr> = append_exclusive (range_run s e) (ans\<lparr>rc_capacity := m\<rparr>)" for m
    by (simp add: nxt_def smart_append_capacity)
  ultimately have eq: "c'\<lparr>rc_capacity := rc_capacity r + 1\<rparr>
      = fold append_exclusive (drop (length D) ?rs) (append_exclusive (range_run s e) (ans\<lparr>rc_capacity := rc_capacity r + 1\<rparr>))"
    unfolding c'_def by metis
  have room: "rc_runs (ans\<lparr>rc_capacity := rc_capacity r + 1\<rparr>) = D"
    "rc_n_runs (ans\<lparr>rc_capacity := rc_capacity r + 1\<rparr>) = int (length D)"
    "int (length ?rs) + 1 \<le> rc_capacity (ans\<lparr>rc_capacity := rc_capacity r + 1\<rparr>)"
    using inv by (simp_all add: ans_def run_inv_def)
  note N = negated_runs [OF run_inv_simps(1) [OF inv] b room [unfolded D_def], folded D_def, folded eq]
  show "runs_ok (rc_runs c')" "covers (rc_runs c') n \<longleftrightarrow> covers (rc_runs r) n \<noteq> (nat s \<le> n \<and> n < nat e)"
    "rc_n_runs c' = int (length (rc_runs c'))"
    using N by (simp_all add: room_for_def)
  have "rc_capacity (fold append_exclusive rs c) = rc_capacity c" if "rc_n_runs c = int (length (rc_runs c))" for rs c
    using that by (induction rs arbitrary: c) (simp_all add: smart_append_count [OF _ refl])
  then show "rc_capacity c' = rc_capacity r"
    unfolding c'_def \<open>fst (negation_inplace_runs r s e) = _\<close> using count ans by simp
qed

lemma negation_inplace_room:
  assumes inv: "run_inv r" and b: "0 \<le> s" "s < e" "e \<le> 65536"
    and room: "rc_n_runs r < rc_capacity r \<or> \<not> no_space_for_inplace r s e"
  defines "c \<equiv> fst (negation_inplace_runs r s e)"
  shows "run_inv c \<and> rc_capacity c = rc_capacity r \<and> rc_n_runs c \<le> rc_capacity r"
proof -
  note N = negation_inplace_runs_correct [OF inv b, folded c_def]
  note F = runs_after_flip [OF run_inv_simps(1) [OF inv] N(1) _ N(2)]
  have n: "rc_n_runs r = int (length (rc_runs r))" "rc_n_runs r \<le> rc_capacity r" using inv by (simp_all add: run_inv_def)
  have "int (length (rc_runs c)) \<le> rc_capacity r"
  proof (cases "rc_n_runs r < rc_capacity r")
    case True
    have "length (rc_runs c) \<le> length (rc_runs r) + 1" using F(1) b by simp
    then show ?thesis using n True by simp
  next
    case False
    then have "nat s \<in> edges {n. covers (rc_runs r) n} \<or> nat e \<in> edges {n. covers (rc_runs r) n}"
      using room no_space_edges [OF inv b] by blast
    then have "length (rc_runs c) \<le> length (rc_runs r)" using F(2) b by simp
    then show ?thesis using n by simp
  qed
  then show ?thesis using N(1,3,4) by (simp add: run_inv_def)
qed

lemma run_negation_inplace_correct:
  assumes inv: "run_inv r" and b: "0 \<le> s" "e \<le> 65536"
  shows "container_inv (run_container_negation_range_inplace r s e)"
    and "container_abs (run_container_negation_range_inplace r s e) = sym_diff (run_abs r) (int_range s e)"
proof -
  have "container_inv (run_container_negation_range_inplace r s e) \<and>
      container_abs (run_container_negation_range_inplace r s e) = sym_diff (run_abs r) (int_range s e)"
  proof (cases "e \<le> s")
    case True
    then have "int_range s e = {}" by (auto simp: int_range_def)
    then show ?thesis using True inv by (simp add: run_container_negation_range_inplace_def)
  next
    case False
    then have lt: "s < e" by simp
    show ?thesis
    proof (cases "rc_capacity r = rc_n_runs r \<and> no_space_for_inplace r s e")
      case True
      then show ?thesis using run_negation_range_correct [OF inv b] lt by (simp add: run_container_negation_range_inplace_def)
    next
      case room: False
      let ?c = "fst (negation_inplace_runs r s e)"
      note N = negation_inplace_runs_correct [OF inv b(1) lt b(2)]
      have "rc_n_runs r < rc_capacity r \<or> \<not> no_space_for_inplace r s e"
        using room inv by (auto simp: run_inv_def)
      then have "run_inv ?c" using negation_inplace_room [OF inv b(1) lt b(2)] by blast
      moreover have "run_container_negation_range_inplace r s e = convert_run_to_efficient_container ?c"
        using room lt by (auto simp: run_container_negation_range_inplace_def)
      ultimately show ?thesis using convert_run_to_efficient_correct [of ?c] negated_abs [OF N(2) b(1)] by simp
    qed
  qed
  then show "container_inv (run_container_negation_range_inplace r s e)"
    "container_abs (run_container_negation_range_inplace r s e) = sym_diff (run_abs r) (int_range s e)" by simp_all
qed

end
