(* ===== verification/Mixed_Xor.thy ===== *)
theory Mixed_Xor
  imports Mixed_Negation
begin

text \<open>
  Symmetric differences of containers of different types, and of two arrays, runs or bitsets with
  a result in canonical form, from \<open>src/containers/mixed_xor.c\<close>. A function that returns whether
  the result is a bitset, or its type code, and stores the container in \<open>*dst\<close> returns a
  \<open>container_t\<close>. Bits are flipped in a bitset, runs and cells are merged by start and appended
  with \<open>run_container_smart_append_exclusive\<close>.
\<close>

section \<open>Definitions\<close>

definition array_bitset_container_xor :: "array_container \<Rightarrow> bitset_container \<Rightarrow> container_t" where
  "array_bitset_container_xor src_1 src_2 =
     (let result = bitset_container_copy src_2 bitset_container_create;
          (words, n) = bitset_flip_list_withcard (bc_words result) (of_int (bc_cardinality result)) (cells_of src_1)
      in bitset_or_array (result\<lparr>bc_words := words, bc_cardinality := int32_of n\<rparr>))"

definition array_bitset_container_lazy_xor :: "array_container \<Rightarrow> bitset_container \<Rightarrow> bitset_container \<Rightarrow> bitset_container" where
  "array_bitset_container_lazy_xor src_1 src_2 dst =
     (let dst = bitset_container_copy src_2 dst
      in dst\<lparr>bc_words := bitset_flip_list (bc_words dst) (cells_of src_1), bc_cardinality := BITSET_UNKNOWN_CARDINALITY\<rparr>)"

definition run_bitset_container_xor :: "run_container \<Rightarrow> bitset_container \<Rightarrow> container_t" where
  "run_bitset_container_xor src_1 src_2 =
     (let result = bitset_container_copy src_2 bitset_container_create;
          result = result\<lparr>bc_words := flip_runs_range (rc_runs src_1) (bc_words result)\<rparr>
      in bitset_or_array (result\<lparr>bc_cardinality := bitset_container_compute_cardinality result\<rparr>))"

definition run_bitset_container_lazy_xor :: "run_container \<Rightarrow> bitset_container \<Rightarrow> bitset_container \<Rightarrow> bitset_container" where
  "run_bitset_container_lazy_xor src_1 src_2 dst =
     (let dst = bitset_container_copy src_2 dst;
          dst = dst\<lparr>bc_words := flip_runs_range (rc_runs src_1) (bc_words dst)\<rparr>
      in dst\<lparr>bc_cardinality := BITSET_UNKNOWN_CARDINALITY\<rparr>)"

fun array_run_xor_loop :: "rle16 list \<Rightarrow> u16 list \<Rightarrow> run_container \<Rightarrow> run_container" where
  "array_run_xor_loop (r # rs) (v # cells) dst =
     (if rl_value r \<le> v
      then array_run_xor_loop rs (v # cells) (append_exclusive r dst)
      else array_run_xor_loop (r # rs) cells (run_container_smart_append_exclusive dst v 0))"
| "array_run_xor_loop [] (v # cells) dst =
     array_run_xor_loop [] cells (run_container_smart_append_exclusive dst v 0)"
| "array_run_xor_loop (r # rs) [] dst = array_run_xor_loop rs [] (append_exclusive r dst)"
| "array_run_xor_loop [] [] dst = dst"

definition array_run_container_lazy_xor :: "array_container \<Rightarrow> run_container \<Rightarrow> run_container \<Rightarrow> run_container" where
  "array_run_container_lazy_xor src_1 src_2 dst =
     (let dst = run_container_grow dst (ac_cardinality src_1 + rc_n_runs src_2) False
      in array_run_xor_loop (rc_runs src_2) (cells_of src_1) (dst\<lparr>rc_n_runs := 0, rc_runs := []\<rparr>))"

definition array_array_container_xor :: "array_container \<Rightarrow> array_container \<Rightarrow> container_t" where
  "array_array_container_xor src_1 src_2 =
     (let totalCardinality = ac_cardinality src_1 + ac_cardinality src_2
      in if totalCardinality \<le> DEFAULT_MAX_SIZE
         then Array_c (array_container_xor src_1 src_2 (array_container_create_given_capacity totalCardinality))
         else let ourbitset = bitset_container_from_array src_1;
                  (words, n) = bitset_flip_list_withcard (bc_words ourbitset) (of_int (ac_cardinality src_1)) (cells_of src_2)
              in bitset_or_array (ourbitset\<lparr>bc_words := words, bc_cardinality := int32_of n\<rparr>))"

definition array_array_container_lazy_xor :: "array_container \<Rightarrow> array_container \<Rightarrow> container_t" where
  "array_array_container_lazy_xor src_1 src_2 =
     (let totalCardinality = ac_cardinality src_1 + ac_cardinality src_2
      in if totalCardinality \<le> ARRAY_LAZY_LOWERBOUND
         then Array_c (array_container_xor src_1 src_2 (array_container_create_given_capacity totalCardinality))
         else let ourbitset = bitset_container_from_array src_1
              in Bitset_c (ourbitset\<lparr>bc_words := bitset_flip_list (bc_words ourbitset) (cells_of src_2),
                   bc_cardinality := BITSET_UNKNOWN_CARDINALITY\<rparr>))"

definition bitset_array_container_ixor :: "bitset_container \<Rightarrow> array_container \<Rightarrow> container_t" where
  "bitset_array_container_ixor src_1 src_2 =
     (let (words, n) = bitset_flip_list_withcard (bc_words src_1) (of_int (bc_cardinality src_1)) (cells_of src_2)
      in bitset_or_array (src_1\<lparr>bc_words := words, bc_cardinality := int32_of n\<rparr>))"

definition array_run_container_xor :: "array_container \<Rightarrow> run_container \<Rightarrow> container_t" where
  "array_run_container_xor src_1 src_2 =
     (if ac_cardinality src_1 < 32
      then convert_run_to_efficient_container_and_free (array_run_container_lazy_xor src_1 src_2 run_container_create)
      else let card = run_container_cardinality src_2
           in if card \<le> DEFAULT_MAX_SIZE
              then array_array_container_xor (array_container_from_run src_2) src_1
              else bitset_array_container_ixor (bitset_container_from_run src_2) src_1)"

definition run_run_container_xor :: "run_container \<Rightarrow> run_container \<Rightarrow> container_t" where
  "run_run_container_xor src_1 src_2 =
     convert_run_to_efficient_container_and_free (run_container_xor src_1 src_2 run_container_create)"

definition bitset_bitset_container_xor :: "bitset_container \<Rightarrow> bitset_container \<Rightarrow> container_t" where
  "bitset_bitset_container_xor src_1 src_2 = bitset_or_array (bitset_container_xor src_1 src_2 bitset_container_create)"

definition bitset_bitset_container_ixor :: "bitset_container \<Rightarrow> bitset_container \<Rightarrow> container_t" where
  "bitset_bitset_container_ixor src_1 src_2 = bitset_or_array (bitset_container_xor src_1 src_2 src_1)"

definition array_bitset_container_ixor :: "array_container \<Rightarrow> bitset_container \<Rightarrow> container_t" where
  "array_bitset_container_ixor src_1 src_2 = array_bitset_container_xor src_1 src_2"

definition run_bitset_container_ixor :: "run_container \<Rightarrow> bitset_container \<Rightarrow> container_t" where
  "run_bitset_container_ixor src_1 src_2 = run_bitset_container_xor src_1 src_2"

definition bitset_run_container_ixor :: "bitset_container \<Rightarrow> run_container \<Rightarrow> container_t" where
  "bitset_run_container_ixor src_1 src_2 = run_bitset_container_xor src_2 src_1"

definition array_run_container_ixor :: "array_container \<Rightarrow> run_container \<Rightarrow> container_t" where
  "array_run_container_ixor src_1 src_2 = array_run_container_xor src_1 src_2"

definition run_array_container_ixor :: "run_container \<Rightarrow> array_container \<Rightarrow> container_t" where
  "run_array_container_ixor src_1 src_2 = array_run_container_xor src_2 src_1"

definition array_array_container_ixor :: "array_container \<Rightarrow> array_container \<Rightarrow> container_t" where
  "array_array_container_ixor src_1 src_2 = array_array_container_xor src_1 src_2"

definition run_run_container_ixor :: "run_container \<Rightarrow> run_container \<Rightarrow> container_t" where
  "run_run_container_ixor src_1 src_2 = run_run_container_xor src_1 src_2"

section \<open>Flipping bits\<close>

text \<open>A counted bitset after the bits of an array are flipped.\<close>

lemma flipped_bitset:
  assumes "bitset_inv b" and "array_inv a" and "n = bc_cardinality b"
  defines "wn \<equiv> bitset_flip_list_withcard (bc_words b) (of_int n) (ac_array a)"
  shows "bitset_inv (d\<lparr>bc_words := fst wn, bc_cardinality := int32_of (snd wn)\<rparr>)"
    and "bitset_abs (d\<lparr>bc_words := fst wn, bc_cardinality := int32_of (snd wn)\<rparr>) = sym_diff (bitset_abs b) (array_abs a)"
proof -
  have "distinct (ac_array a)" using assms(2) by (simp add: array_simps ssorted_imp_distinct)
  note L = listed_bitset(7-9) [OF inv_words(1) [OF assms(1)] card_bits_inv [OF assms(1)] this]
  note L = L [unfolded words_abs_wf [OF bitset_inv_wf [OF assms(1)]]]
  show "bitset_inv (d\<lparr>bc_words := fst wn, bc_cardinality := int32_of (snd wn)\<rparr>)"
    "bitset_abs (d\<lparr>bc_words := fst wn, bc_cardinality := int32_of (snd wn)\<rparr>) = sym_diff (bitset_abs b) (array_abs a)"
    using counted_bitset [OF L, of d] by (simp_all add: wn_def assms(3) array_abs_def)
qed

lemma array_bitset_xor_correct:
  assumes "array_inv a" and "bitset_inv b"
  shows "container_inv (array_bitset_container_xor a b)"
    and "container_abs (array_bitset_container_xor a b) = sym_diff (array_abs a) (bitset_abs b)"
  using bitset_or_array_correct [OF flipped_bitset(1) [OF assms(2,1) refl]] flipped_bitset(2) [OF assms(2,1) refl]
  unfolding array_bitset_container_xor_def cells_of_eq [OF assms(1)] Let_def copy_words case_prod_unfold by auto

lemma bitset_array_ixor_correct:
  assumes "bitset_inv b" and "array_inv a"
  shows "container_inv (bitset_array_container_ixor b a)"
    and "container_abs (bitset_array_container_ixor b a) = sym_diff (bitset_abs b) (array_abs a)"
  using bitset_or_array_correct [OF flipped_bitset(1) [OF assms refl]] flipped_bitset(2) [OF assms refl]
  unfolding bitset_array_container_ixor_def cells_of_eq [OF assms(2)] Let_def case_prod_unfold by auto

lemma array_bitset_lazy_xor_correct:
  assumes "array_inv a" and "bitset_wf b"
  shows "bitset_lazy_inv (array_bitset_container_lazy_xor a b dst)"
    and "bitset_abs (array_bitset_container_lazy_xor a b dst) = sym_diff (array_abs a) (bitset_abs b)"
proof -
  have d: "distinct (ac_array a)" using assms(1) by (simp add: array_simps ssorted_imp_distinct)
  have len: "length (bc_words b) = 1024" using assms(2) by (simp add: bitset_wf_def)
  note U = uncounted_bitset [OF listed_words(3,4) [OF len d], unfolded words_abs_wf [OF assms(2)]]
  show "bitset_lazy_inv (array_bitset_container_lazy_xor a b dst)"
    "bitset_abs (array_bitset_container_lazy_xor a b dst) = sym_diff (array_abs a) (bitset_abs b)"
    using U by (auto simp: array_bitset_container_lazy_xor_def cells_of_eq [OF assms(1)] copy_words array_abs_def)
qed

lemma run_bitset_xor_correct:
  assumes "run_inv r" and "bitset_wf b"
  shows "container_inv (run_bitset_container_xor r b)"
    and "container_abs (run_bitset_container_xor r b) = sym_diff (run_abs r) (bitset_abs b)"
    and "bitset_lazy_inv (run_bitset_container_lazy_xor r b dst)"
    and "bitset_abs (run_bitset_container_lazy_xor r b dst) = sym_diff (run_abs r) (bitset_abs b)"
proof -
  have len: "length (bc_words b) = 1024" using assms(2) by (simp add: bitset_wf_def)
  have ok: "runs_ok (rc_runs r)" using assms(1) by (rule run_inv_simps)
  have W: "length (flip_runs_range (rc_runs r) (bc_words b)) = 1024"
    "words_abs (flip_runs_range (rc_runs r) (bc_words b)) = sym_diff (run_abs r) (bitset_abs b)"
    using runs_range_correct(5) [OF ok len] runs_range_abs(3) [OF ok len] words_abs_wf [OF assms(2)]
    by (auto simp: run_abs_def)
  show "container_inv (run_bitset_container_xor r b)"
    "container_abs (run_bitset_container_xor r b) = sym_diff (run_abs r) (bitset_abs b)"
    "bitset_lazy_inv (run_bitset_container_lazy_xor r b dst)"
    "bitset_abs (run_bitset_container_lazy_xor r b dst) = sym_diff (run_abs r) (bitset_abs b)"
    using bitset_or_array_correct [OF recounted_bitset(1) [OF W]] recounted_bitset(2) [OF W] uncounted_bitset [OF W]
    by (simp_all add: run_bitset_container_xor_def run_bitset_container_lazy_xor_def Let_def copy_words)
qed

lemma array_array_xor_correct:
  assumes inv: "array_inv a" "array_inv b"
  shows "container_inv (array_array_container_xor a b)"
    and "container_abs (array_array_container_xor a b) = sym_diff (array_abs a) (array_abs b)"
    and "container_lazy_inv (array_array_container_lazy_xor a b)"
    and "container_abs (array_array_container_lazy_xor a b) = sym_diff (array_abs a) (array_abs b)"
proof -
  let ?t = "bitset_container_from_array a"
  have t: "bitset_inv ?t" "bitset_abs ?t = array_abs a" using bitset_from_array_correct [OF inv(1)] by simp_all
  have n: "ac_cardinality a = bc_cardinality ?t" using array_inv_card [OF inv(1)] bitset_inv_card [OF t(1)] t(2) by simp
  note X = array_xor_correct [OF inv]
  have small: "ac_cardinality (array_container_xor a b d) \<le> ac_cardinality a + ac_cardinality b" for d
    unfolding array_inv_card [OF X(1)] array_inv_card [OF inv(1)] array_inv_card [OF inv(2)] X(2)
    using card_sym_diff [of "array_abs a" "array_abs b"] by simp
  show "container_inv (array_array_container_xor a b)"
    "container_abs (array_array_container_xor a b) = sym_diff (array_abs a) (array_abs b)"
    using X order_trans [OF small] bitset_or_array_correct [OF flipped_bitset(1) [OF t(1) inv(2) n]]
      flipped_bitset(2) [OF t(1) inv(2) n] t(2)
    unfolding array_array_container_xor_def cells_of_eq [OF inv(2)] Let_def case_prod_unfold
    by simp_all
  have d: "distinct (ac_array b)" using inv(2) by (simp add: array_simps ssorted_imp_distinct)
  note U = uncounted_bitset [OF listed_words(3,4) [OF inv_words(1) [OF t(1)] d], unfolded words_abs_wf [OF bitset_inv_wf [OF t(1)]] t(2)]
  show "container_lazy_inv (array_array_container_lazy_xor a b)"
    "container_abs (array_array_container_lazy_xor a b) = sym_diff (array_abs a) (array_abs b)"
    using X U unfolding array_array_container_lazy_xor_def cells_of_eq [OF inv(2)] Let_def
    by (simp_all add: array_abs_def)
qed

lemma bitset_bitset_xor_correct:
  assumes "bitset_wf a" and "bitset_wf b"
  shows "container_inv (bitset_bitset_container_xor a b)"
    and "container_abs (bitset_bitset_container_xor a b) = sym_diff (bitset_abs a) (bitset_abs b)"
    and "container_inv (bitset_bitset_container_ixor a b)"
    and "container_abs (bitset_bitset_container_ixor a b) = sym_diff (bitset_abs a) (bitset_abs b)"
  using bitset_xor.oper_inv [OF assms] bitset_xor.oper_abs [OF assms] bitset_or_array_correct
  by (auto simp: bitset_bitset_container_xor_def bitset_bitset_container_ixor_def)

lemma run_run_xor_correct:
  assumes "run_inv a" and "run_inv b"
  shows "container_inv (run_run_container_xor a b)"
    and "container_abs (run_run_container_xor a b) = sym_diff (run_abs a) (run_abs b)"
  using run_xor_correct [OF assms] convert_run_and_free_correct by (simp_all add: run_run_container_xor_def)

section \<open>Runs and cells\<close>

text \<open>What is appended never leaves the last run behind the values still to come.\<close>

definition ahead :: "rle16 list \<Rightarrow> rle16 list \<Rightarrow> u16 list \<Rightarrow> bool" where
  "ahead D rs cells \<longleftrightarrow> D \<noteq> [] \<longrightarrow>
     (\<forall>r \<in> set rs. rstart (last D) \<le> rstart r) \<and> (\<forall>v \<in> set cells. rstart (last D) \<le> unat v) \<and>
     ((\<forall>r \<in> set rs. rend (last D) + 1 < rstart r) \<or> (\<forall>v \<in> set cells. rend (last D) < unat v))"

lemma smart_append_last:
  assumes c: "runs_ok (D @ [l])" "rc_runs c = D @ [l]" "rc_n_runs c = int (length D + 1)"
    and r: "rend r < 65536" "rstart l \<le> rstart r"
  defines "D' \<equiv> rc_runs (append_exclusive r c)"
  shows "D' = [] \<or> (rstart (last D') \<le> rstart r \<or> rstart r \<le> rend l \<and> rstart (last D') = min (rend r) (rend l) + 1)"
    and "D' = [] \<or> rend (last D') = rend r \<or> rend (last D') = rend l \<or> rend (last D') < rstart r"
proof -
  have i: "nat (rc_n_runs c - 1) = length D" "rc_runs c ! length D = l" "rc_n_runs c \<noteq> 0" using c by simp_all
  have l: "rend l < 65536" "\<forall>d \<in> set D. rend d + 1 < rstart l" using c(1) by (auto simp: runs_ok_append runs_ok_Cons)
  have new_end: "rstart r + unat (rl_length r) + 1 = rend r + 1" by (simp add: rend_def rstart_def)
  have eta: "\<lparr>rl_value = rl_value r, rl_length = rl_length r\<rparr> = r" by simp
  have start: "unat (rl_value r) = rstart r" by (simp add: rstart_def)
  have same: "rl_value r = rl_value l \<longleftrightarrow> rstart r = rstart l" by (simp add: rstart_def word_unat_eq_iff)
  define q where "q = l\<lparr>rl_length := rl_length l + (rl_length r + 1)\<rparr>"
  define p where "p = l\<lparr>rl_length := rl_value r - rl_value l - 1\<rparr>"
  define lo where "lo = MAKE_RLE16 (rend r + 1) (rend l + 1 - (rend r + 1) - 1)"
  define hi where "hi = MAKE_RLE16 (rend l + 1) (rend r + 1 - (rend l + 1) - 1)"
  note le = rstart_le_rend [of r] rstart_le_rend [of l]
  have D': "D' = (if rstart r > rend l + 1 then D @ [l, r] else if rend l + 1 = rstart r then D @ [q]
      else if rstart r = rstart l then (if rend r < rend l then D @ [lo] else if rend r > rend l then D @ [hi] else D)
      else if rend r < rend l then D @ [p, lo] else if rend r > rend l then D @ [p, hi] else D @ [p])"
    unfolding D'_def run_container_smart_append_exclusive_def Let_def new_end eta start i(1,2) same
    using i(3) by (simp add: c(2) p_def q_def lo_def hi_def)
  have q: "rstart q = rstart l \<and> rend q = rend r" if "rend l + 1 = rstart r"
  proof -
    have "unat (rl_length l + (rl_length r + 1)) = rend r - rstart l"
      using that r(1) by (simp add: unat_word_ariths rend_def rstart_def)
    then show ?thesis using that le r by (simp add: q_def)
  qed
  have p: "rstart p = rstart l \<and> rend p = rstart r - 1" if "rstart l < rstart r"
  proof -
    have "unat (rl_value r - rl_value l - 1) = rstart r - rstart l - 1"
      using that by (simp add: rstart_def unat_sub_if_size word_size)
    then show ?thesis using that by (simp add: p_def)
  qed
  have lo: "rend r < rend l \<Longrightarrow> rstart lo = rend r + 1 \<and> rend lo = rend l" using l(1) by (simp add: lo_def)
  have hi: "rend l < rend r \<Longrightarrow> rstart hi = rend l + 1 \<and> rend hi = rend r" using r(1) by (simp add: hi_def)
  have d: "D = [] \<or> rstart (last D) \<le> rend (last D) \<and> rend (last D) + 1 < rstart l"
    using l(2) rstart_le_rend [of "last D"] last_in_set [of D] by blast
  consider (new) "rstart r > rend l + 1" | (merge) "rend l + 1 = rstart r"
    | (same) "rstart r = rstart l" | (meet) "rstart l < rstart r" "rstart r \<le> rend l" using r(2) by linarith
  then have "D' = [] \<or> (rstart (last D') \<le> rstart r \<or> rstart r \<le> rend l \<and> rstart (last D') = min (rend r) (rend l) + 1)
      \<and> (rend (last D') = rend r \<or> rend (last D') = rend l \<or> rend (last D') < rstart r)"
  proof cases
    case new
    then show ?thesis by (simp add: D')
  next
    case merge
    then show ?thesis using q r(2) by (simp add: D')
  next
    case same
    then have "\<not> rstart r > rend l + 1" "rend l + 1 \<noteq> rstart r" using le by auto
    then show ?thesis using same d lo hi le by (cases "rend r" "rend l" rule: linorder_cases) (auto simp: D')
  next
    case meet
    then have "\<not> rstart r > rend l + 1" "rend l + 1 \<noteq> rstart r" "rstart r \<noteq> rstart l" by auto
    then show ?thesis using meet p lo hi le by (cases "rend r" "rend l" rule: linorder_cases) (auto simp: D')
  qed
  then show "D' = [] \<or> (rstart (last D') \<le> rstart r \<or> rstart r \<le> rend l \<and> rstart (last D') = min (rend r) (rend l) + 1)"
    "D' = [] \<or> rend (last D') = rend r \<or> rend (last D') = rend l \<or> rend (last D') < rstart r" by blast+
qed

lemma smart_append_room:
  assumes "room_for c (Suc k)" and "rend r < 65536" and "rc_runs c \<noteq> [] \<longrightarrow> rstart (last (rc_runs c)) \<le> rstart r"
  shows "room_for (append_exclusive r c) k"
    and "covers (rc_runs (append_exclusive r c)) n \<longleftrightarrow> covers (rc_runs c) n \<noteq> in_run r n"
  using smart_append_step [OF assms(1), of r "[]" "[]"] assms(2,3) by (auto simp: runs_ok_Cons apart_def)

lemma ahead_append:
  assumes room: "room_for c (Suc k)" and r: "rend r < 65536" "rc_runs c \<noteq> [] \<longrightarrow> rstart (last (rc_runs c)) \<le> rstart r"
    and below: "\<forall>x \<in> set rs. rstart r \<le> rstart x" "\<forall>v \<in> set cells. rstart r \<le> unat v"
    and past: "(\<forall>x \<in> set rs. rend r + 1 < rstart x) \<and> (rc_runs c \<noteq> [] \<longrightarrow>
        rend (last (rc_runs c)) < rstart r \<or> (\<forall>v \<in> set cells. rend (last (rc_runs c)) < unat v))
      \<or> (\<forall>v \<in> set cells. rend r < unat v) \<and> (\<forall>x \<in> set rs. rend r < rstart x) \<and> (rc_runs c \<noteq> [] \<longrightarrow>
        rend (last (rc_runs c)) < rstart r \<or> (\<forall>x \<in> set rs. rend (last (rc_runs c)) + 1 < rstart x))"
  shows "ahead (rc_runs (append_exclusive r c)) rs cells"
proof (cases "rc_runs c" rule: rev_cases)
  case Nil
  then have "rc_runs (append_exclusive r c) = [r]"
    using room by (simp add: run_container_smart_append_exclusive_def Let_def room_for_def)
  then show ?thesis using below past by (auto simp: ahead_def)
next
  case (snoc D l)
  then have c: "runs_ok (D @ [l])" "rc_n_runs c = int (length D + 1)" "rstart l \<le> rstart r"
    using room r(2) by (simp_all add: room_for_def)
  define D' where "D' = rc_runs (append_exclusive r c)"
  note L = smart_append_last [OF c(1) snoc c(2) r(1) c(3), folded D'_def]
  show ?thesis
  proof (cases "D' = []")
    case False
    have le: "rstart r \<le> rend r" by (rule rstart_le_rend)
    have s: "rstart (last D') \<le> rstart r \<or> rstart r \<le> rend l \<and> rstart (last D') = min (rend r) (rend l) + 1"
      and e: "rend (last D') = rend r \<or> rend (last D') = rend l \<or> rend (last D') < rstart r" using L False by blast+
    have p: "(\<forall>x \<in> set rs. rend r + 1 < rstart x) \<and> (rend l < rstart r \<or> (\<forall>v \<in> set cells. rend l < unat v))
      \<or> (\<forall>v \<in> set cells. rend r < unat v) \<and> (\<forall>x \<in> set rs. rend r < rstart x)
          \<and> (rend l < rstart r \<or> (\<forall>x \<in> set rs. rend l + 1 < rstart x))"
      using past snoc by simp
    have "rstart (last D') \<le> rstart x" if "x \<in> set rs" for x using s p below(1) that by (fastforce simp: min_def)
    moreover have "rstart (last D') \<le> unat v" if "v \<in> set cells" for v using s p below(2) that by (fastforce simp: min_def)
    moreover have "(\<forall>x \<in> set rs. rend (last D') + 1 < rstart x) \<or> (\<forall>v \<in> set cells. rend (last D') < unat v)"
      using e p below le by (smt (verit) add_less_mono1 less_trans order_less_le_trans not_less)
    ultimately show ?thesis by (simp add: ahead_def D'_def [symmetric])
  qed (simp add: ahead_def D'_def)
qed

lemma xor_run_step:
  assumes room: "room_for c (Suc k)" and ok: "runs_ok (r # rs)" and le: "\<forall>v \<in> set cells. rstart r \<le> unat v"
    and ah: "ahead (rc_runs c) (r # rs) cells"
  shows "room_for (append_exclusive r c) k \<and> ahead (rc_runs (append_exclusive r c)) rs cells \<and>
     (\<forall>n. covers (rc_runs (append_exclusive r c)) n \<longleftrightarrow> covers (rc_runs c) n \<noteq> in_run r n)"
proof -
  have pre: "rend r < 65536" "rc_runs c \<noteq> [] \<longrightarrow> rstart (last (rc_runs c)) \<le> rstart r"
    using ok ah by (auto simp: runs_ok_Cons ahead_def)
  have rs: "\<forall>x \<in> set rs. rend r + 1 < rstart x" "\<forall>x \<in> set rs. rstart r \<le> rstart x"
    using ok runs_ok_starts [OF ok] by (auto simp: runs_ok_Cons)
  have "rc_runs c \<noteq> [] \<longrightarrow> rend (last (rc_runs c)) < rstart r \<or> (\<forall>v \<in> set cells. rend (last (rc_runs c)) < unat v)"
    using ah by (auto simp: ahead_def)
  then show ?thesis using ahead_append [OF room pre rs(2) le] rs(1) smart_append_room [OF room pre] by blast
qed

lemma xor_cell_step:
  assumes room: "room_for c (Suc k)" and s: "ssorted (v # cells)" and below: "\<forall>x \<in> set rs. unat v < rstart x"
    and ah: "ahead (rc_runs c) rs (v # cells)"
  defines "c' \<equiv> run_container_smart_append_exclusive c v 0"
  shows "room_for c' k \<and> ahead (rc_runs c') rs cells \<and> (\<forall>n. covers (rc_runs c') n \<longleftrightarrow> covers (rc_runs c) n \<noteq> (n = unat v))"
proof -
  define q :: rle16 where "q = \<lparr>rl_value = v, rl_length = 0\<rparr>"
  have q: "rstart q = unat v" "rend q = unat v" "in_run q n \<longleftrightarrow> n = unat v" for n
    by (auto simp: rstart_def rend_def in_run_def q_def)
  have c': "c' = append_exclusive q c" by (simp add: c'_def q_def)
  have pre: "rend q < 65536" "rc_runs c \<noteq> [] \<longrightarrow> rstart (last (rc_runs c)) \<le> rstart q"
    using ah by (auto simp: q ahead_def)
  have cells: "\<forall>w \<in> set cells. rend q < unat w" using s by (simp add: q word_less_nat_alt)
  then have from_v: "\<forall>w \<in> set cells. rstart q \<le> unat w" by (auto simp: q)
  have rs: "\<forall>x \<in> set rs. rend q < rstart x" "\<forall>x \<in> set rs. rstart q \<le> rstart x"
    using below by (auto simp: q)
  have "rc_runs c \<noteq> [] \<longrightarrow> rend (last (rc_runs c)) < rstart q \<or> (\<forall>x \<in> set rs. rend (last (rc_runs c)) + 1 < rstart x)"
    using ah by (auto simp: ahead_def q)
  then show ?thesis unfolding c' using ahead_append [OF room pre rs(2) from_v] cells rs(1) smart_append_room [OF room pre] q(3) by blast
qed

lemma array_run_xor_loop_correct:
  "room_for c (length rs + length cells) \<Longrightarrow> runs_ok rs \<Longrightarrow> ssorted cells \<Longrightarrow> ahead (rc_runs c) rs cells \<Longrightarrow>
     run_inv (array_run_xor_loop rs cells c) \<and>
     (\<forall>n. covers (rc_runs (array_run_xor_loop rs cells c)) n \<longleftrightarrow> covers (rc_runs c) n \<noteq> (covers rs n \<noteq> (n \<in> unat ` set cells)))"
proof (induction rs cells c rule: array_run_xor_loop.induct)
  case (1 r rs v cells c)
  have dj: "\<not> (in_run r n \<and> covers rs n)" for n using covers_tail [OF "1.prems"(2), of n] by (auto simp: in_run_def)
  have dv: "unat v \<notin> unat ` set cells" using "1.prems"(3) by (auto simp: inj_image_mem_iff [OF inj_unat_u16])
  show ?case
  proof (cases "rl_value r \<le> v")
    case True
    have "rstart r \<le> unat v" using True by (simp add: rstart_def word_le_nat_alt)
    then have "\<forall>w \<in> set (v # cells). rstart r \<le> unat w" using "1.prems"(3) by (auto simp: word_less_nat_alt)
    then have step: "room_for (append_exclusive r c) (length rs + length (v # cells)) \<and>
        ahead (rc_runs (append_exclusive r c)) rs (v # cells) \<and>
        (\<forall>n. covers (rc_runs (append_exclusive r c)) n \<longleftrightarrow> covers (rc_runs c) n \<noteq> in_run r n)"
      using "1.prems" by (intro xor_run_step) auto
    have "runs_ok rs" using "1.prems"(2) by (simp add: runs_ok_Cons)
    note IH = "1.IH"(1) [OF True conjunct1 [OF step] this "1.prems"(3)]
    show ?thesis using IH step dj unfolding array_run_xor_loop.simps if_P [OF True] covers_simps(2) by blast
  next
    case False
    let ?c = "run_container_smart_append_exclusive c v 0"
    have "unat v < rstart r" using False by (simp add: rstart_def word_le_nat_alt)
    then have "\<forall>x \<in> set (r # rs). unat v < rstart x"
      using runs_ok_starts [OF "1.prems"(2)] by (auto intro: order_less_le_trans)
    then have step: "room_for ?c (length (r # rs) + length cells) \<and> ahead (rc_runs ?c) (r # rs) cells \<and>
        (\<forall>n. covers (rc_runs ?c) n \<longleftrightarrow> covers (rc_runs c) n \<noteq> (n = unat v))"
      using "1.prems" by (intro xor_cell_step) auto
    have "ssorted cells" using "1.prems"(3) by simp
    note IH = "1.IH"(2) [OF False conjunct1 [OF step] "1.prems"(2) this conjunct1 [OF conjunct2 [OF step]]]
    have mem: "n \<in> unat ` set (v # cells) \<longleftrightarrow> (n = unat v) \<noteq> (n \<in> unat ` set cells)" for n
      unfolding list.set image_insert insert_iff using dv by blast
    have "covers (rc_runs (array_run_xor_loop (r # rs) cells ?c)) n
        \<longleftrightarrow> covers (rc_runs c) n \<noteq> (covers (r # rs) n \<noteq> (n \<in> unat ` set (v # cells)))" for n
      unfolding mem using spec [OF conjunct2 [OF IH], of n] spec [OF conjunct2 [OF conjunct2 [OF step]], of n] by argo
    then show ?thesis using conjunct1 [OF IH] unfolding array_run_xor_loop.simps if_not_P [OF False] by (intro conjI allI)
  qed
next
  case (2 v cells c)
  let ?c = "run_container_smart_append_exclusive c v 0"
  have step: "room_for ?c (length [] + length cells) \<and> ahead (rc_runs ?c) [] cells \<and>
      (\<forall>n. covers (rc_runs ?c) n \<longleftrightarrow> covers (rc_runs c) n \<noteq> (n = unat v))"
    using "2.prems" by (intro xor_cell_step) auto
  have "ssorted cells" using "2.prems"(3) by simp
  note IH = "2.IH" [OF conjunct1 [OF step] "2.prems"(2) this conjunct1 [OF conjunct2 [OF step]]]
  have "unat v \<notin> unat ` set cells" using "2.prems"(3) by (auto simp: inj_image_mem_iff [OF inj_unat_u16])
  then have mem: "n \<in> unat ` set (v # cells) \<longleftrightarrow> (n = unat v) \<noteq> (n \<in> unat ` set cells)" for n
    unfolding list.set image_insert insert_iff by blast
  have "covers (rc_runs (array_run_xor_loop [] cells ?c)) n
      \<longleftrightarrow> covers (rc_runs c) n \<noteq> (covers [] n \<noteq> (n \<in> unat ` set (v # cells)))" for n
    unfolding mem using spec [OF conjunct2 [OF IH], of n] spec [OF conjunct2 [OF conjunct2 [OF step]], of n] by argo
  then show ?case using conjunct1 [OF IH] unfolding array_run_xor_loop.simps by (intro conjI allI)
next
  case (3 r rs c)
  have dj: "\<not> (in_run r n \<and> covers rs n)" for n using covers_tail [OF "3.prems"(2), of n] by (auto simp: in_run_def)
  have step: "room_for (append_exclusive r c) (length rs + length []) \<and> ahead (rc_runs (append_exclusive r c)) rs [] \<and>
      (\<forall>n. covers (rc_runs (append_exclusive r c)) n \<longleftrightarrow> covers (rc_runs c) n \<noteq> in_run r n)"
    using "3.prems" by (intro xor_run_step) auto
  have "runs_ok rs" using "3.prems"(2) by (simp add: runs_ok_Cons)
  note IH = "3.IH" [OF conjunct1 [OF step] this "3.prems"(3)]
  show ?case using IH step dj unfolding array_run_xor_loop.simps covers_simps(2) by blast
next
  case (4 c)
  then show ?case by (simp add: room_for_def run_inv_def)
qed

lemma array_run_lazy_xor_correct:
  assumes inv: "array_inv a" "run_inv r"
  shows "run_inv (array_run_container_lazy_xor a r dst)"
    and "run_abs (array_run_container_lazy_xor a r dst) = sym_diff (array_abs a) (run_abs r)"
proof -
  define d where "d = (run_container_grow dst (ac_cardinality a + rc_n_runs r) False)\<lparr>rc_n_runs := 0, rc_runs := []\<rparr>"
  have "ac_cardinality a + rc_n_runs r \<le> rc_capacity d"
    by (simp add: d_def)
  then have d: "room_for d (length (rc_runs r) + length (ac_array a))" "rc_runs d = []"
    using inv by (simp_all add: room_for_def d_def run_inv_def array_simps del: grow_run_simps(4))
  have "run_inv (array_run_xor_loop (rc_runs r) (ac_array a) d) \<and>
     (\<forall>n. covers (rc_runs (array_run_xor_loop (rc_runs r) (ac_array a) d)) n
        \<longleftrightarrow> covers (rc_runs d) n \<noteq> (covers (rc_runs r) n \<noteq> (n \<in> unat ` set (ac_array a))))"
    using d inv by (intro array_run_xor_loop_correct) (auto simp: ahead_def run_inv_def array_simps)
  moreover have "array_run_container_lazy_xor a r dst = array_run_xor_loop (rc_runs r) (ac_array a) d"
    unfolding array_run_container_lazy_xor_def cells_of_eq [OF inv(1)] Let_def d_def ..
  ultimately show "run_inv (array_run_container_lazy_xor a r dst)"
    "run_abs (array_run_container_lazy_xor a r dst) = sym_diff (array_abs a) (run_abs r)"
    using d(2) by (auto simp: run_abs_def array_abs_def inj_image_mem_iff [OF inj_unat_u16])
qed

lemma array_run_xor_correct:
  assumes inv: "array_inv a" "run_inv r"
  shows "container_inv (array_run_container_xor a r)"
    and "container_abs (array_run_container_xor a r) = sym_diff (array_abs a) (run_abs r)"
proof -
  note L = array_run_lazy_xor_correct [OF inv, of run_container_create]
  note A = array_array_xor_correct(1,2) [OF array_from_run_correct(1) [OF inv(2)] inv(1)]
  note B = bitset_array_ixor_correct [OF bitset_from_run_correct(1) [OF inv(2)] inv(1)]
  show "container_inv (array_run_container_xor a r)"
    unfolding array_run_container_xor_def Let_def using convert_run_and_free_correct(1) [OF L(1)] A(1) B(1) by simp
  show "container_abs (array_run_container_xor a r) = sym_diff (array_abs a) (run_abs r)"
    unfolding array_run_container_xor_def Let_def
    using convert_run_and_free_correct(2) [OF L(1)] L(2) A(2) B(2) array_from_run_correct(2) [OF inv(2)] bitset_from_run_correct(2) [OF inv(2)]
    by auto
qed

lemmas xor_inplace_defs = array_bitset_container_ixor_def run_bitset_container_ixor_def bitset_run_container_ixor_def
  array_run_container_ixor_def run_array_container_ixor_def array_array_container_ixor_def run_run_container_ixor_def

interpretation array_bitset_xor: set_operation array_inv array_abs bitset_inv bitset_abs container_inv container_abs
  array_bitset_container_xor "(\<noteq>)"
  by unfold_locales (auto simp: array_bitset_xor_correct)

interpretation run_bitset_xor: set_operation run_inv run_abs bitset_wf bitset_abs container_inv container_abs
  run_bitset_container_xor "(\<noteq>)"
  by unfold_locales (auto simp: run_bitset_xor_correct)

interpretation array_run_xor: set_operation array_inv array_abs run_inv run_abs container_inv container_abs
  array_run_container_xor "(\<noteq>)"
  by unfold_locales (auto simp: array_run_xor_correct)

interpretation array_array_xor: set_operation array_inv array_abs array_inv array_abs container_inv container_abs
  array_array_container_xor "(\<noteq>)"
  by unfold_locales (auto simp: array_array_xor_correct)

interpretation run_run_xor: set_operation run_inv run_abs run_inv run_abs container_inv container_abs
  run_run_container_xor "(\<noteq>)"
  by unfold_locales (auto simp: run_run_xor_correct)

interpretation bitset_bitset_xor: set_operation bitset_wf bitset_abs bitset_wf bitset_abs container_inv container_abs
  bitset_bitset_container_xor "(\<noteq>)"
  by unfold_locales (auto simp: bitset_bitset_xor_correct)

end
