(* ===== verification/Mixed_Andnot.thy ===== *)
theory Mixed_Andnot
  imports Mixed_Xor
begin

text \<open>
  Differences of containers of different types, and of two runs or bitsets with a result in
  canonical form, from \<open>src/containers/mixed_andnot.c\<close>. A function that returns whether the result
  is a bitset, or its type code, and stores the container in \<open>*dst\<close> returns a \<open>container_t\<close>; the
  functions that write into an array container return that container. The loops over the values
  of an array from an index are \<open>advanceUntil\<close> and a position that steps back by one where the
  value has to be seen again.
\<close>

section \<open>Definitions\<close>

definition array_bitset_container_andnot :: "array_container \<Rightarrow> bitset_container \<Rightarrow> array_container \<Rightarrow> array_container" where
  "array_bitset_container_andnot src_1 src_2 dst =
     (let dst = (if ac_capacity dst < ac_cardinality src_1 then array_container_grow dst (ac_cardinality src_1) False else dst);
          cells = filter (\<lambda>key. \<not> bitset_container_contains src_2 key) (cells_of src_1)
      in dst\<lparr>ac_array := cells, ac_cardinality := int (length cells)\<rparr>)"

definition array_bitset_container_iandnot :: "array_container \<Rightarrow> bitset_container \<Rightarrow> array_container" where
  "array_bitset_container_iandnot src_1 src_2 = array_bitset_container_andnot src_1 src_2 src_1"

definition bitset_array_container_andnot :: "bitset_container \<Rightarrow> array_container \<Rightarrow> container_t" where
  "bitset_array_container_andnot src_1 src_2 =
     (let result = bitset_container_copy src_1 bitset_container_create;
          (words, n) = bitset_clear_list (bc_words result) (of_int (bc_cardinality result)) (cells_of src_2)
      in bitset_or_array (result\<lparr>bc_words := words, bc_cardinality := int32_of n\<rparr>))"

definition bitset_array_container_iandnot :: "bitset_container \<Rightarrow> array_container \<Rightarrow> container_t" where
  "bitset_array_container_iandnot src_1 src_2 =
     (let (words, n) = bitset_clear_list (bc_words src_1) (of_int (bc_cardinality src_1)) (cells_of src_2)
      in bitset_or_array (src_1\<lparr>bc_words := words, bc_cardinality := int32_of n\<rparr>))"

text \<open>Outside the runs the words are cleared, inside they are flipped.\<close>

fun flip_runs_clear_gaps :: "rle16 list \<Rightarrow> u32 \<Rightarrow> u64 list \<Rightarrow> u64 list" where
  "flip_runs_clear_gaps [] last_pos words = bitset_reset_range words last_pos 65536"
| "flip_runs_clear_gaps (rle # rs) last_pos words =
     (let start = ucast (rl_value rle);
          words = bitset_reset_range words last_pos start;
          words = bitset_flip_range words start (run_stop rle)
      in flip_runs_clear_gaps rs (run_stop rle) words)"

definition run_bitset_container_andnot :: "run_container \<Rightarrow> bitset_container \<Rightarrow> container_t" where
  "run_bitset_container_andnot src_1 src_2 =
     (let card = run_container_cardinality src_1
      in if card \<le> DEFAULT_MAX_SIZE
         then let answer = array_container_create_given_capacity card;
                  cells = filter (\<lambda>run_value. \<not> bitset_container_get src_2 run_value) (run_cells (rc_runs src_1))
              in Array_c (answer\<lparr>ac_array := cells, ac_cardinality := int (length cells)\<rparr>)
         else let answer = bitset_container_clone src_2;
                  answer = answer\<lparr>bc_words := flip_runs_clear_gaps (rc_runs src_1) 0 (bc_words answer)\<rparr>
              in bitset_or_array (answer\<lparr>bc_cardinality := bitset_container_compute_cardinality answer\<rparr>))"

definition run_bitset_container_iandnot :: "run_container \<Rightarrow> bitset_container \<Rightarrow> container_t" where
  "run_bitset_container_iandnot src_1 src_2 = run_bitset_container_andnot src_1 src_2"

definition bitset_run_container_andnot :: "bitset_container \<Rightarrow> run_container \<Rightarrow> container_t" where
  "bitset_run_container_andnot src_1 src_2 =
     (let result = bitset_container_copy src_1 bitset_container_create;
          result = result\<lparr>bc_words := reset_runs_range (rc_runs src_2) (bc_words result)\<rparr>
      in bitset_or_array (result\<lparr>bc_cardinality := bitset_container_compute_cardinality result\<rparr>))"

definition bitset_run_container_iandnot :: "bitset_container \<Rightarrow> run_container \<Rightarrow> container_t" where
  "bitset_run_container_iandnot src_1 src_2 =
     (let src_1 = src_1\<lparr>bc_words := reset_runs_range (rc_runs src_2) (bc_words src_1)\<rparr>
      in bitset_or_array (src_1\<lparr>bc_cardinality := bitset_container_compute_cardinality src_1\<rparr>))"

text \<open>The values from \<open>i\<close> on that are kept of a run, and the position the array is left at.\<close>

function subtract_in_run :: "u16 list \<Rightarrow> nat \<Rightarrow> nat \<Rightarrow> u16 \<Rightarrow> nat \<Rightarrow> u16 list \<times> nat" where
  "subtract_in_run array i stop next_nonincluded in_array_pos =
     (if i < stop
      then if i \<noteq> unat next_nonincluded
           then let (out, pos) = subtract_in_run array (i + 1) stop next_nonincluded in_array_pos
                in (word_of_nat i # out, pos)
           else if in_array_pos + 1 \<ge> length array
                then subtract_in_run array (i + 1) stop 0 in_array_pos
                else subtract_in_run array (i + 1) stop (array ! (in_array_pos + 1)) (in_array_pos + 1)
      else ([], in_array_pos))"
  by pat_completeness auto
termination by (relation "measure (\<lambda>(array, i, stop, next_nonincluded, in_array_pos). stop - i)") auto

declare subtract_in_run.simps [simp del]

fun subtract_runs :: "u16 list \<Rightarrow> rle16 list \<Rightarrow> int \<Rightarrow> u16 list" where
  "subtract_runs array [] in_array_pos = []"
| "subtract_runs array (r # rs) in_array_pos =
     (let start = rstart r;
          stop = rend r + 1;
          in_array_pos = advanceUntil array in_array_pos (length array) (word_of_nat start)
      in if in_array_pos \<ge> length array
         then map word_of_nat [start ..< stop] @ subtract_runs array rs (int in_array_pos)
         else let next_nonincluded = array ! in_array_pos
              in if unat next_nonincluded \<ge> stop
                 then map word_of_nat [start ..< stop] @ subtract_runs array rs (int in_array_pos - 1)
                 else let (out, in_array_pos) = subtract_in_run array start stop next_nonincluded in_array_pos
                      in out @ subtract_runs array rs (int in_array_pos - 1))"

definition run_array_array_subtract :: "run_container \<Rightarrow> array_container \<Rightarrow> u16 list" where
  "run_array_array_subtract rc a_in = subtract_runs (cells_of a_in) (rc_runs rc) (- 1)"

text \<open>The current piece \<open>[start, stop)\<close> of a run, the runs after it, and the values that are left.\<close>

function run_array_andnot_loop :: "nat \<Rightarrow> nat \<Rightarrow> rle16 list \<Rightarrow> u16 list \<Rightarrow> rle16 list" where
  "run_array_andnot_loop start stop rs [] = MAKE_RLE16 start (stop - start - 1) # rs"
| "run_array_andnot_loop start stop rs (v # cells) =
     (let xstart = unat v
      in if stop \<le> xstart
         then MAKE_RLE16 start (stop - start - 1) #
                (case rs of [] \<Rightarrow> [] | r # rs' \<Rightarrow> run_array_andnot_loop (rstart r) (rend r + 1) rs' (v # cells))
         else if xstart + 1 \<le> start then run_array_andnot_loop start stop rs cells
         else (if start < xstart then [MAKE_RLE16 start (xstart - start - 1)] else []) @
              (if xstart + 1 < stop then run_array_andnot_loop (xstart + 1) stop rs (v # cells)
               else (case rs of [] \<Rightarrow> [] | r # rs' \<Rightarrow> run_array_andnot_loop (rstart r) (rend r + 1) rs' (v # cells))))"
  by pat_completeness auto
termination
  by (relation "measures [\<lambda>(start, stop, rs, cells). length rs + length cells, \<lambda>(start, stop, rs, cells). stop - start]") auto

definition run_array_container_andnot :: "run_container \<Rightarrow> array_container \<Rightarrow> container_t" where
  "run_array_container_andnot src_1 src_2 =
     (let card = run_container_cardinality src_1
      in if card \<le> 32
         then if ac_cardinality src_2 = 0 then Run_c (run_container_clone src_1)
              else let answer = run_container_create_given_capacity (card + ac_cardinality src_2);
                       runs = (case rc_runs src_1 of [] \<Rightarrow> []
                               | r # rs \<Rightarrow> run_array_andnot_loop (rstart r) (rend r + 1) rs (cells_of src_2))
                   in convert_run_to_efficient_container (answer\<lparr>rc_runs := runs, rc_n_runs := int (length runs)\<rparr>)
         else if card \<le> DEFAULT_MAX_SIZE
         then let ac = array_container_create_given_capacity card;
                  cells = run_array_array_subtract src_1 src_2
              in Array_c (ac\<lparr>ac_array := cells, ac_cardinality := int (length cells)\<rparr>)
         else bitset_array_container_iandnot (bitset_container_from_run src_1) src_2)"

definition run_array_container_iandnot :: "run_container \<Rightarrow> array_container \<Rightarrow> container_t" where
  "run_array_container_iandnot src_1 src_2 = run_array_container_andnot src_1 src_2"

lemma run_end_below: "\<not> unat (v :: u16) \<le> m \<Longrightarrow> m < 65537"
  using unat_u16_less [of v] by linarith

text \<open>
  The values that are in no run: \<open>run_start\<close> and \<open>run_end\<close> are those of the current run, both
  \<open>65537\<close> when there is none left.
\<close>

function drop_run_cells :: "u16 list \<Rightarrow> nat \<Rightarrow> nat \<Rightarrow> rle16 list \<Rightarrow> u16 list" where
  "drop_run_cells [] run_start run_end rs = []"
| "drop_run_cells (v # cells) run_start run_end rs =
     (if unat v < run_start then v # drop_run_cells cells run_start run_end rs
      else if unat v \<le> run_end then drop_run_cells cells run_start run_end rs
      else case rs of [] \<Rightarrow> drop_run_cells (v # cells) 65537 65537 []
           | r # rs' \<Rightarrow> drop_run_cells (v # cells) (rstart r) (rend r) rs')"
  by pat_completeness auto
termination
  by (relation "measures [\<lambda>(cells, run_start, run_end, rs). length cells + length rs,
        \<lambda>(cells, run_start, run_end, rs). 65537 - run_end]") (auto intro: run_end_below)

definition array_run_container_andnot :: "array_container \<Rightarrow> run_container \<Rightarrow> array_container \<Rightarrow> array_container" where
  "array_run_container_andnot src_1 src_2 dst =
     (let dst = (if ac_cardinality src_1 > ac_capacity dst then array_container_grow dst (ac_cardinality src_1) False else dst)
      in case rc_runs src_2 of
           [] \<Rightarrow> dst\<lparr>ac_array := cells_of src_1, ac_cardinality := ac_cardinality src_1\<rparr>
         | r # rs \<Rightarrow> let cells = drop_run_cells (cells_of src_1) (rstart r) (rend r) rs
                    in dst\<lparr>ac_array := cells, ac_cardinality := int (length cells)\<rparr>)"

definition array_run_container_iandnot :: "array_container \<Rightarrow> run_container \<Rightarrow> array_container" where
  "array_run_container_iandnot src_1 src_2 = array_run_container_andnot src_1 src_2 src_1"

definition run_run_container_andnot :: "run_container \<Rightarrow> run_container \<Rightarrow> container_t" where
  "run_run_container_andnot src_1 src_2 =
     convert_run_to_efficient_container_and_free (run_container_andnot src_1 src_2 run_container_create)"

definition run_run_container_iandnot :: "run_container \<Rightarrow> run_container \<Rightarrow> container_t" where
  "run_run_container_iandnot src_1 src_2 = run_run_container_andnot src_1 src_2"

definition array_array_container_andnot :: "array_container \<Rightarrow> array_container \<Rightarrow> array_container \<Rightarrow> array_container" where
  "array_array_container_andnot src_1 src_2 dst = array_container_andnot src_1 src_2 dst"

definition array_array_container_iandnot :: "array_container \<Rightarrow> array_container \<Rightarrow> array_container" where
  "array_array_container_iandnot src_1 src_2 = array_container_andnot src_1 src_2 src_1"

definition bitset_bitset_container_andnot :: "bitset_container \<Rightarrow> bitset_container \<Rightarrow> container_t" where
  "bitset_bitset_container_andnot src_1 src_2 = bitset_or_array (bitset_container_andnot src_1 src_2 bitset_container_create)"

definition bitset_bitset_container_iandnot :: "bitset_container \<Rightarrow> bitset_container \<Rightarrow> container_t" where
  "bitset_bitset_container_iandnot src_1 src_2 = bitset_or_array (bitset_container_andnot src_1 src_2 src_1)"

section \<open>Bitsets\<close>

lemma array_bitset_andnot_correct:
  assumes "array_inv a" and "bitset_wf b"
  shows "array_inv (array_bitset_container_andnot a b dst)"
    and "array_abs (array_bitset_container_andnot a b dst) = array_abs a - bitset_abs b"
    and "ac_cardinality (array_bitset_container_andnot a b dst) \<le> ac_cardinality a"
proof -
  define d where "d = (if ac_capacity dst < ac_cardinality a then array_container_grow dst (ac_cardinality a) False else dst)"
  let ?P = "\<lambda>x. \<not> bitset_container_contains b x"
  have room: "ac_cardinality a \<le> ac_capacity d" unfolding d_def by (rule grown_room [OF assms(1)])
  have eq: "array_bitset_container_andnot a b dst
      = d\<lparr>ac_array := filter ?P (ac_array a), ac_cardinality := int (length (filter ?P (ac_array a)))\<rparr>"
    unfolding array_bitset_container_andnot_def cells_of_eq [OF assms(1)] by (simp add: d_def Let_def)
  note F = array_filter_correct [OF assms(1) room, where P = ?P]
  show "array_inv (array_bitset_container_andnot a b dst)" unfolding eq by (rule F(1))
  show "array_abs (array_bitset_container_andnot a b dst) = array_abs a - bitset_abs b"
    unfolding eq F(2) using bitset_contains_correct [OF assms(2)] by auto
  show "ac_cardinality (array_bitset_container_andnot a b dst) \<le> ac_cardinality a" unfolding eq using F(4) by simp
qed

text \<open>A counted bitset after the bits of an array are cleared.\<close>

lemma cleared_bitset:
  assumes "bitset_inv b" and "array_inv a"
  defines "wn \<equiv> bitset_clear_list (bc_words b) (of_int (bc_cardinality b)) (ac_array a)"
  shows "bitset_inv (d\<lparr>bc_words := fst wn, bc_cardinality := int32_of (snd wn)\<rparr>)"
    and "bitset_abs (d\<lparr>bc_words := fst wn, bc_cardinality := int32_of (snd wn)\<rparr>) = bitset_abs b - array_abs a"
proof -
  note L = listed_bitset(4-6) [OF inv_words(1) [OF assms(1)] card_bits_inv [OF assms(1)], of "ac_array a"]
  note L = L [unfolded words_abs_wf [OF bitset_inv_wf [OF assms(1)]]]
  show "bitset_inv (d\<lparr>bc_words := fst wn, bc_cardinality := int32_of (snd wn)\<rparr>)"
    "bitset_abs (d\<lparr>bc_words := fst wn, bc_cardinality := int32_of (snd wn)\<rparr>) = bitset_abs b - array_abs a"
    using counted_bitset [OF L, of d] by (simp_all add: wn_def array_abs_def)
qed

lemma bitset_array_andnot_correct:
  assumes "bitset_inv b" and "array_inv a"
  shows "container_inv (bitset_array_container_andnot b a)"
    and "container_abs (bitset_array_container_andnot b a) = bitset_abs b - array_abs a"
    and "container_inv (bitset_array_container_iandnot b a)"
    and "container_abs (bitset_array_container_iandnot b a) = bitset_abs b - array_abs a"
  using bitset_or_array_correct [OF cleared_bitset(1) [OF assms]] cleared_bitset(2) [OF assms]
  unfolding bitset_array_container_andnot_def bitset_array_container_iandnot_def cells_of_eq [OF assms(2)]
    Let_def copy_words case_prod_unfold by simp_all

lemma bitset_run_andnot_correct:
  assumes "bitset_wf b" and "run_inv r"
  shows "container_inv (bitset_run_container_andnot b r)"
    and "container_abs (bitset_run_container_andnot b r) = bitset_abs b - run_abs r"
    and "container_inv (bitset_run_container_iandnot b r)"
    and "container_abs (bitset_run_container_iandnot b r) = bitset_abs b - run_abs r"
proof -
  have len: "length (bc_words b) = 1024" using assms(1) by (simp add: bitset_wf_def)
  have ok: "runs_ok (rc_runs r)" using assms(2) by (rule run_inv_simps)
  have W: "length (reset_runs_range (rc_runs r) (bc_words b)) = 1024"
    "words_abs (reset_runs_range (rc_runs r) (bc_words b)) = bitset_abs b - run_abs r"
    using runs_range_correct(7) [OF ok len] runs_range_abs(4) [OF ok len] words_abs_wf [OF assms(1)]
    by (auto simp: run_abs_def)
  show "container_inv (bitset_run_container_andnot b r)" "container_abs (bitset_run_container_andnot b r) = bitset_abs b - run_abs r"
    "container_inv (bitset_run_container_iandnot b r)" "container_abs (bitset_run_container_iandnot b r) = bitset_abs b - run_abs r"
    using bitset_or_array_correct [OF recounted_bitset(1) [OF W]] recounted_bitset(2) [OF W]
    by (simp_all add: bitset_run_container_andnot_def bitset_run_container_iandnot_def Let_def copy_words)
qed

lemma flip_runs_clear_gaps_correct:
  "runs_ok rs \<Longrightarrow> length ws = 1024 \<Longrightarrow> unat s \<le> 65536 \<Longrightarrow> \<forall>r \<in> set rs. unat s \<le> rstart r \<Longrightarrow>
     length (flip_runs_clear_gaps rs s ws) = 1024 \<and>
     bits_of (flip_runs_clear_gaps rs s ws) = {n. n < unat s \<and> n \<in> bits_of ws \<or> covers rs n \<and> n \<notin> bits_of ws}"
proof (induction rs s ws rule: flip_runs_clear_gaps.induct)
  case (1 s ws)
  then show ?case using bits_of_ranges(2) [of ws s 65536] bits_of_less [of ws] by auto
next
  case (2 r rs s ws)
  let ?w = "bitset_reset_range ws s (ucast (rl_value r))"
  let ?ws = "bitset_flip_range ?w (ucast (rl_value r)) (run_stop r)"
  have start: "unat (ucast (rl_value r) :: u32) = rstart r" by (simp add: rstart_def)
  have ok: "runs_ok rs" and lt: "rend r < 65536" and sep: "\<forall>q \<in> set rs. rend r + 1 < rstart q"
    using "2.prems"(1) by (simp_all add: runs_ok_Cons)
  have w: "length ?w = 1024" "bits_of ?w = bits_of ws - {unat s ..< rstart r}"
    using bits_of_ranges(2) [of ws s "ucast (rl_value r)"] "2.prems"(2,4) less_imp_le [OF rstart_less [of r]]
    unfolding start by simp_all
  have ws: "length ?ws = 1024" "bits_of ?ws = sym_diff (bits_of ?w) {rstart r ..< rend r + 1}"
    using bits_of_ranges(3) [OF w(1), of "ucast (rl_value r)" "run_stop r"] w(1) lt rstart_le_rend [of r]
    unfolding start run_stop_unat by simp_all
  have IH: "length (flip_runs_clear_gaps rs (run_stop r) ?ws) = 1024 \<and> bits_of (flip_runs_clear_gaps rs (run_stop r) ?ws)
      = {n. n < unat (run_stop r) \<and> n \<in> bits_of ?ws \<or> covers rs n \<and> n \<notin> bits_of ?ws}"
    by (rule "2.IH" [OF refl refl refl ok ws(1)]) (use lt sep in \<open>auto simp: run_stop_unat\<close>)
  have tail: "rend r + 1 < n" if "covers rs n" for n using covers_tail [OF "2.prems"(1) that] .
  have "n < unat (run_stop r) \<and> n \<in> bits_of ?ws \<or> covers rs n \<and> n \<notin> bits_of ?ws
      \<longleftrightarrow> n < unat s \<and> n \<in> bits_of ws \<or> covers (r # rs) n \<and> n \<notin> bits_of ws" for n
    using tail [of n] "2.prems"(4) rstart_le_rend [of r] by (auto simp: ws w run_stop_unat in_run_def)
  then show ?case using IH by (simp add: Let_def)
qed

lemma run_bitset_andnot_correct:
  assumes inv: "run_inv r" "bitset_wf b"
  shows "container_inv (run_bitset_container_andnot r b)"
    and "container_abs (run_bitset_container_andnot r b) = run_abs r - bitset_abs b"
proof -
  have len: "length (bc_words b) = 1024" using inv(2) by (simp add: bitset_wf_def)
  let ?ws = "flip_runs_clear_gaps (rc_runs r) 0 (bc_words b)"
  have W: "length ?ws = 1024" "words_abs ?ws = run_abs r - bitset_abs b"
    using flip_runs_clear_gaps_correct [OF run_inv_simps(1) [OF inv(1)] len, of 0] abs_of_bits [OF inv(2)]
    by (auto simp: words_abs_def run_abs_def)
  have P: "(\<lambda>x. \<not> bitset_container_get b x) = (\<lambda>x. x \<notin> bitset_abs b)"
    using bitset_contains_correct [OF inv(2)] by (simp add: bitset_container_contains_def)
  note C = run_cells_filter [OF inv(1), where P = "\<lambda>x. x \<notin> bitset_abs b"]
  have n: "run_container_cardinality r = int (card (run_abs r))" by (rule rc.cardinality_abs [OF inv(1)])
  have le: "card {x \<in> run_abs r. x \<notin> bitset_abs b} \<le> card (run_abs r)" by (rule card_mono) auto
  have small: "container_inv (Array_c ((array_container_create_given_capacity (run_container_cardinality r))
        \<lparr>ac_array := filter (\<lambda>x. x \<notin> bitset_abs b) (run_cells (rc_runs r)),
         ac_cardinality := int (length (filter (\<lambda>x. x \<notin> bitset_abs b) (run_cells (rc_runs r))))\<rparr>))
      \<and> container_abs (Array_c ((array_container_create_given_capacity (run_container_cardinality r))
        \<lparr>ac_array := filter (\<lambda>x. x \<notin> bitset_abs b) (run_cells (rc_runs r)),
         ac_cardinality := int (length (filter (\<lambda>x. x \<notin> bitset_abs b) (run_cells (rc_runs r))))\<rparr>)) = run_abs r - bitset_abs b"
    if "run_container_cardinality r \<le> 4096"
    using sorted_array [OF C(1), of "run_container_cardinality r"] C(2,3) le n that by auto
  show "container_inv (run_bitset_container_andnot r b)"
    "container_abs (run_bitset_container_andnot r b) = run_abs r - bitset_abs b"
    using small bitset_or_array_correct [OF recounted_bitset(1) [OF W]] recounted_bitset(2) [OF W]
    unfolding run_bitset_container_andnot_def Let_def P clone_words bitset_clone_eq by auto
qed

lemma bitset_bitset_andnot_correct:
  assumes "bitset_wf a" and "bitset_wf b"
  shows "container_inv (bitset_bitset_container_andnot a b)"
    and "container_abs (bitset_bitset_container_andnot a b) = bitset_abs a - bitset_abs b"
    and "container_inv (bitset_bitset_container_iandnot a b)"
    and "container_abs (bitset_bitset_container_iandnot a b) = bitset_abs a - bitset_abs b"
  using bitset_andnot.oper_inv [OF assms] bitset_andnot.oper_abs [OF assms] bitset_or_array_correct
  by (auto simp: bitset_bitset_container_andnot_def bitset_bitset_container_iandnot_def)

lemma run_run_andnot_correct:
  assumes "run_inv a" and "run_inv b"
  shows "container_inv (run_run_container_andnot a b)"
    and "container_abs (run_run_container_andnot a b) = run_abs a - run_abs b"
  using run_andnot_correct [OF assms] convert_run_and_free_correct by (simp_all add: run_run_container_andnot_def)

section \<open>Runs and cells\<close>

lemma lower_bound_next:
  fixes xs :: "u16 list"
  assumes "ssorted xs" and "i < 65536"
  shows "lower_bound xs (word_of_nat i) \<le> j \<Longrightarrow> j < length xs \<Longrightarrow> i \<le> unat (xs ! j)"
    and "j < lower_bound xs (word_of_nat i) \<Longrightarrow> unat (xs ! j) < i"
  using ssorted_nth_ge [OF assms(1), of "word_of_nat i" j] lower_bound_nth [of j xs "word_of_nat i"] assms(2)
  by (simp_all add: word_le_nat_alt word_less_nat_alt)

text \<open>
  The next value of the array inside a run: either the one at \<open>pos\<close>, the first that is not below
  \<open>i\<close>, or none, and then \<open>0\<close> stands in for it.
\<close>

definition next_value :: "u16 list \<Rightarrow> nat \<Rightarrow> u16 \<Rightarrow> nat \<Rightarrow> bool" where
  "next_value xs i v pos \<longleftrightarrow> pos < length xs \<and> (\<forall>j < pos. unat (xs ! j) < i) \<and>
     (v = xs ! pos \<and> i \<le> unat v \<or> v = 0 \<and> 0 < i \<and> pos + 1 = length xs \<and> unat (xs ! pos) < i)"

lemma next_value_hit:
  assumes s: "ssorted xs" and nv: "next_value xs i v pos" and hit: "i = unat v"
  shows "word_of_nat i \<in> set xs"
    and "pos + 1 \<ge> length xs \<Longrightarrow> next_value xs (i + 1) 0 pos"
    and "\<not> pos + 1 \<ge> length xs \<Longrightarrow> next_value xs (i + 1) (xs ! (pos + 1)) (pos + 1)"
proof -
  have v: "v = xs ! pos" "pos < length xs" "\<forall>j < pos. unat (xs ! j) < i" using nv hit by (auto simp: next_value_def)
  show "word_of_nat i \<in> set xs" using v hit by simp
  show "next_value xs (i + 1) 0 pos" if "pos + 1 \<ge> length xs"
    using that v hit by (auto simp: next_value_def intro: less_SucI)
  assume "\<not> pos + 1 \<ge> length xs"
  then have lt: "pos + 1 < length xs" by simp
  have "i < unat (xs ! (pos + 1))" using ssorted_nth_less [OF s _ lt, of pos] v(1) hit by (simp add: word_less_nat_alt)
  then show "next_value xs (i + 1) (xs ! (pos + 1)) (pos + 1)"
    using lt v hit by (auto simp: next_value_def less_Suc_eq)
qed

lemma next_value_miss:
  assumes s: "ssorted xs" and nv: "next_value xs i v pos" and miss: "i \<noteq> unat v" and i: "i < 65536"
  shows "word_of_nat i \<notin> set xs" and "next_value xs (i + 1) v pos"
proof -
  have cases: "pos < length xs" "\<forall>j < pos. unat (xs ! j) < i"
    "v = xs ! pos \<and> i < unat v \<or> v = 0 \<and> 0 < i \<and> pos + 1 = length xs \<and> unat (xs ! pos) < i"
    using nv miss by (auto simp: next_value_def)
  then show "next_value xs (i + 1) v pos" by (auto simp: next_value_def less_Suc_eq)
  show "word_of_nat i \<notin> set xs"
  proof
    assume "word_of_nat i \<in> set xs"
    then obtain j where j: "j < length xs" "unat (xs ! j) = i" using i by (auto simp: in_set_conv_nth)
    then have "pos \<le> j" using cases(2) by (metis less_irrefl not_le)
    then have "pos = j \<or> pos < j \<and> xs ! pos < xs ! j" using ssorted_nth_less [OF s _ j(1)] by auto
    then show False using cases j \<open>pos \<le> j\<close> by (auto simp: word_less_nat_alt)
  qed
qed

lemma subtract_in_run_correct:
  "ssorted xs \<Longrightarrow> e \<le> 65536 \<Longrightarrow> next_value xs i v pos \<Longrightarrow> i \<le> e \<Longrightarrow>
     (case subtract_in_run xs i e v pos of (out, pos') \<Rightarrow>
        out = filter (\<lambda>x. x \<notin> set xs) (map word_of_nat [i ..< e]) \<and> pos' < length xs \<and> (\<forall>j < pos'. unat (xs ! j) < e))"
proof (induction xs i e v pos rule: subtract_in_run.induct)
  case (1 xs i e v pos)
  note s = "1.prems"(1) and e = "1.prems"(2) and nv = "1.prems"(3)
  show ?case
  proof (cases "i < e")
    case False
    then have "i = e" using "1.prems"(4) by simp
    then show ?thesis using nv by (subst subtract_in_run.simps) (simp add: next_value_def)
  next
    case True
    have up: "[i ..< e] = i # [i + 1 ..< e]" using True by (simp add: upt_conv_Cons)
    have i: "i < 65536" "i + 1 \<le> e" using True e by linarith+
    consider (miss) "i \<noteq> unat v" | (last) "\<not> i \<noteq> unat v" "pos + 1 \<ge> length xs" | (more) "\<not> i \<noteq> unat v" "\<not> pos + 1 \<ge> length xs"
      by blast
    then show ?thesis
    proof cases
      case miss
      have "subtract_in_run xs i e v pos = (case subtract_in_run xs (i + 1) e v pos of (out, pos) \<Rightarrow> (word_of_nat i # out, pos))"
        using True miss by (subst subtract_in_run.simps) simp
      then show ?thesis
        using "1.IH"(1) [OF True miss s e next_value_miss(2) [OF s nv miss i(1)] i(2)] next_value_miss(1) [OF s nv miss i(1)]
        unfolding up by (simp add: case_prod_unfold)
    next
      case last
      have "subtract_in_run xs i e v pos = subtract_in_run xs (i + 1) e 0 pos"
        using True last by (subst subtract_in_run.simps) simp
      then show ?thesis
        using "1.IH"(2) [OF True last s e next_value_hit(2) [OF s nv _ last(2)] i(2)] next_value_hit(1) [OF s nv] last(1)
        unfolding up by (simp add: case_prod_unfold)
    next
      case more
      have "subtract_in_run xs i e v pos = subtract_in_run xs (i + 1) e (xs ! (pos + 1)) (pos + 1)"
        using True more by (subst subtract_in_run.simps) simp
      then show ?thesis
        using "1.IH"(3) [OF True more s e next_value_hit(3) [OF s nv _ more(2)] i(2)] next_value_hit(1) [OF s nv] more(1)
        unfolding up by (simp add: case_prod_unfold)
    qed
  qed
qed

lemma filter_run:
  assumes "e \<le> 65536" and "\<And>j. j < length xs \<Longrightarrow> \<not> (s \<le> unat (xs ! j) \<and> unat (xs ! j) < e)"
  shows "filter (\<lambda>x. x \<notin> set xs) (map word_of_nat [s ..< e]) = map (word_of_nat :: nat \<Rightarrow> u16) [s ..< e]"
proof (rule filter_True, intro ballI notI)
  fix x :: u16 assume "x \<in> set (map word_of_nat [s ..< e])" "x \<in> set xs"
  then obtain j n where "j < length xs" "xs ! j = word_of_nat n" "s \<le> n" "n < e" by (auto simp: in_set_conv_nth)
  then show False using assms(2) [of j] assms(1) by simp
qed

lemma subtract_runs_correct:
  assumes s: "ssorted xs"
  shows "runs_ok rs \<Longrightarrow> - 1 \<le> pos \<Longrightarrow>
     \<forall>r \<in> set rs. nat (pos + 1) \<le> lower_bound xs (word_of_nat (rstart r))
       \<or> int (length xs) \<le> pos \<and> lower_bound xs (word_of_nat (rstart r)) = length xs \<Longrightarrow>
     subtract_runs xs rs pos = filter (\<lambda>x. x \<notin> set xs) (run_cells rs)"
proof (induction rs arbitrary: pos)
  case Nil
  then show ?case by (simp add: run_cells_def)
next
  case (Cons r rs)
  let ?lb = "\<lambda>q. lower_bound xs (word_of_nat (rstart q))"
  define A where "A = advanceUntil xs pos (length xs) (word_of_nat (rstart r))"
  have ok: "runs_ok rs" "rend r + 1 \<le> 65536" "\<forall>q \<in> set rs. rend r + 1 < rstart q" using Cons.prems(1) by (simp_all add: runs_ok_Cons)
  have A: "A = ?lb r \<or> length xs \<le> A \<and> ?lb r = length xs"
  proof (cases "nat (pos + 1) \<le> ?lb r")
    case True
    then have "nat (pos + 1) \<le> length xs" by (rule order_trans) simp
    then show ?thesis using advanceUntil_correct [OF s refl, of pos "word_of_nat (rstart r)"] True by (simp add: A_def)
  next
    case False
    then have "int (length xs) \<le> pos" and top: "?lb r = length xs" using Cons.prems(3) by auto
    then have "length xs \<le> nat (pos + 1)" by simp
    then show ?thesis using top by (simp add: A_def advanceUntil_def)
  qed
  have mono: "?lb r \<le> ?lb q" if "q \<in> set rs" for q
    using that ok(3) rstart_le_rend [of r] by (intro lower_bound_mono [OF s]) (auto simp: word_le_nat_alt)
  have cells: "run_cells (r # rs) = map word_of_nat [rstart r ..< rend r + 1] @ run_cells rs"
    using run_cells_Cons [of r rs] by simp
  consider (past) "A \<ge> length xs" | (beyond) "A < length xs" "unat (xs ! A) \<ge> rend r + 1"
    | (meet) "A < length xs" "\<not> unat (xs ! A) \<ge> rend r + 1" by linarith
  then show ?case
  proof cases
    case past
    then have top: "?lb r = length xs" using A by (metis le_antisym lower_bound_le)
    have "filter (\<lambda>x. x \<notin> set xs) (map word_of_nat [rstart r ..< rend r + 1]) = map word_of_nat [rstart r ..< rend r + 1]"
      using lower_bound_next(2) [OF s rstart_less [of r]] top by (intro filter_run [OF ok(2)]) fastforce
    moreover have "subtract_runs xs rs (int A) = filter (\<lambda>x. x \<notin> set xs) (run_cells rs)"
    proof (rule Cons.IH [OF ok(1)])
      have "?lb q = length xs" if "q \<in> set rs" for q using mono [OF that] top lower_bound_le [of xs] by (metis le_antisym)
      then show "\<forall>q \<in> set rs. nat (int A + 1) \<le> ?lb q \<or> int (length xs) \<le> int A \<and> ?lb q = length xs" using past by simp
    qed simp
    ultimately show ?thesis using past by (simp add: cells A_def [symmetric] Let_def del: upt_Suc)
  next
    case beyond
    then have lb: "A = ?lb r" using A by simp
    have "filter (\<lambda>x. x \<notin> set xs) (map word_of_nat [rstart r ..< rend r + 1]) = map word_of_nat [rstart r ..< rend r + 1]"
    proof (rule filter_run [OF ok(2)])
      fix j assume j: "j < length xs"
      show "\<not> (rstart r \<le> unat (xs ! j) \<and> unat (xs ! j) < rend r + 1)"
      proof (cases "j < A")
        case True
        then show ?thesis using lower_bound_next(2) [OF s rstart_less [of r], of j] lb by auto
      next
        case False
        then have "xs ! A \<le> xs ! j" using ssorted_nth_le [OF s, of A j] j by simp
        then show ?thesis using beyond(2) by (auto simp: word_le_nat_alt)
      qed
    qed
    moreover have "subtract_runs xs rs (int A - 1) = filter (\<lambda>x. x \<notin> set xs) (run_cells rs)"
      by (rule Cons.IH [OF ok(1)]) (use mono lb in auto)
    ultimately show ?thesis using beyond by (simp add: cells A_def [symmetric] Let_def del: upt_Suc)
  next
    case meet
    then have lb: "A = ?lb r" using A by simp
    obtain out p where sub: "subtract_in_run xs (rstart r) (rend r + 1) (xs ! A) A = (out, p)"
      by (cases "subtract_in_run xs (rstart r) (rend r + 1) (xs ! A) A")
    have "next_value xs (rstart r) (xs ! A) A"
      using meet(1) lower_bound_next [OF s rstart_less [of r]] lb by (simp add: next_value_def)
    then have out: "out = filter (\<lambda>x. x \<notin> set xs) (map word_of_nat [rstart r ..< rend r + 1])" "p < length xs"
      "\<forall>j < p. unat (xs ! j) < rend r + 1"
      using subtract_in_run_correct [OF s ok(2), of "rstart r" "xs ! A" A] sub rstart_le_rend [of r] by simp_all
    have "p \<le> ?lb q" if q: "q \<in> set rs" for q
    proof (rule ccontr)
      assume "\<not> p \<le> ?lb q"
      then have "unat (xs ! ?lb q) < rend r + 1" "?lb q < length xs" using out(2,3) by auto
      then show False using lower_bound_next(1) [OF s rstart_less [of q], of "?lb q"] ok(3) q by auto
    qed
    then have "subtract_runs xs rs (int p - 1) = filter (\<lambda>x. x \<notin> set xs) (run_cells rs)"
      by (intro Cons.IH [OF ok(1)]) auto
    then show ?thesis using meet sub out(1) by (simp add: cells A_def [symmetric] Let_def del: upt_Suc)
  qed
qed

abbreviation single_run :: "u16 \<Rightarrow> rle16" where
  "single_run v \<equiv> \<lparr>rl_value = v, rl_length = 0\<rparr>"

lemma single_run_ends: "rstart (single_run v) = unat v" "rend (single_run v) = unat v" "in_run (single_run v) n \<longleftrightarrow> n = unat v"
  by (auto simp: rstart_def rend_def in_run_def)

lemma single_runs:
  shows "ssorted cells \<Longrightarrow> runs_apart (map single_run cells)" and "covers (map single_run cells) n \<longleftrightarrow> n \<in> unat ` set cells"
proof -
  assume "ssorted cells"
  then have "sorted_wrt (\<lambda>x y. unat x < unat y) cells" by (rule sorted_wrt_mono_rel [rotated]) (simp add: word_less_nat_alt)
  then show "runs_apart (map single_run cells)" by (simp add: runs_apart_def sorted_wrt_map single_run_ends)
qed (auto simp: single_run_ends covers_def)

lemma run_array_andnot_loop_eq: "run_array_andnot_loop s e rs cells = run_andnot_loop s e rs (map single_run cells)"
proof (induction s e rs cells rule: run_array_andnot_loop.induct)
  case (2 s e rs v cells)
  consider (before) "e \<le> unat v" | (skip) "\<not> e \<le> unat v" "unat v + 1 \<le> s"
    | (split) "\<not> e \<le> unat v" "\<not> unat v + 1 \<le> s" "unat v + 1 < e"
    | (over) "\<not> e \<le> unat v" "\<not> unat v + 1 \<le> s" "\<not> unat v + 1 < e" by linarith
  then show ?case
  proof cases
    case before
    then show ?thesis using 2(1) [OF refl before] by (cases rs) (simp_all add: single_run_ends)
  next
    case skip
    then show ?thesis using 2(2) [OF refl skip] by (simp add: single_run_ends)
  next
    case split
    then show ?thesis using 2(3) [OF refl split]
      by (simp only: run_array_andnot_loop.simps(2) [of s e rs v cells] list.map run_andnot_loop.simps(2) [of s e rs "single_run v"]
          Let_def single_run_ends if_False if_True)
  next
    case over
    then show ?thesis using 2(4) [OF refl over]
      by (cases rs) (simp_all only: run_array_andnot_loop.simps(2) [of s e _ v cells] list.map list.case
          run_andnot_loop.simps(2) [of s e _ "single_run v"] Let_def single_run_ends if_False)
  qed
qed simp

lemma run_array_pieces:
  assumes inv: "run_inv r" "array_inv a" and "int (length (rc_runs r)) \<le> m"
  defines "runs \<equiv> (case rc_runs r of [] \<Rightarrow> [] | q # qs \<Rightarrow> run_array_andnot_loop (rstart q) (rend q + 1) qs (ac_array a))"
  defines "c \<equiv> (run_container_create_given_capacity (m + ac_cardinality a))\<lparr>rc_runs := runs, rc_n_runs := int (length runs)\<rparr>"
  shows "run_inv c" and "run_abs c = run_abs r - array_abs a"
proof -
  have runs: "runs = andnot_rest (rc_runs r) (map single_run (ac_array a))"
    by (simp add: runs_def andnot_rest_def run_array_andnot_loop_eq cong: list.case_cong)
  have "runs_apart (map single_run (ac_array a))" using single_runs(1) inv(2) by (simp add: array_simps)
  note R = andnot_rest_correct [OF run_inv_simps(1) [OF inv(1)] run_andnot_loop_correct [OF _ this], folded runs]
  show "run_inv c" using R(1,2) inv(2) assms(3)
    by (simp add: c_def run_inv_def run_container_create_given_capacity_def array_simps)
  have "covers runs n \<longleftrightarrow> covers (rc_runs r) n \<and> n \<notin> unat ` array_abs a" for n
    using R(3) single_runs(2) by (simp add: array_abs_def)
  then show "run_abs c = run_abs r - array_abs a"
    by (auto simp: c_def run_abs_def inj_image_mem_iff [OF inj_unat_u16])
qed

lemma runs_le_cardinality: "run_inv r \<Longrightarrow> int (length (rc_runs r)) \<le> run_container_cardinality r"
proof -
  assume inv: "run_inv r"
  have "length rs \<le> sum_list (map run_size rs)" for rs by (induction rs) (simp_all add: run_size_def)
  then show ?thesis using rc.cardinality_abs [OF inv] card_run_abs [OF inv] by simp
qed

lemma run_array_andnot_correct:
  assumes inv: "run_inv r" "array_inv a"
  shows "container_inv (run_array_container_andnot r a)"
    and "container_abs (run_array_container_andnot r a) = run_abs r - array_abs a"
proof -
  let ?n = "run_container_cardinality r"
  define cells where "cells = run_array_array_subtract r a"
  have cells: "cells = filter (\<lambda>x. x \<notin> array_abs a) (run_cells (rc_runs r))"
    unfolding cells_def run_array_array_subtract_def cells_of_eq [OF inv(2)] array_abs_def
    by (rule subtract_runs_correct) (use inv in \<open>auto simp: array_simps run_simps\<close>)
  note C = run_cells_filter [OF inv(1), where P = "\<lambda>x. x \<notin> array_abs a", folded cells]
  have "card {x \<in> run_abs r. x \<notin> array_abs a} \<le> card (run_abs r)" by (rule card_mono) auto
  then have n: "int (length cells) \<le> ?n" using C(3) rc.cardinality_abs [OF inv(1)] by simp
  have empty: "array_abs a = {}" if "ac_cardinality a = 0" using that array_inv_card [OF inv(2)] by simp
  have t: "bitset_inv (bitset_container_from_run r)" "bitset_abs (bitset_container_from_run r) = run_abs r"
    using bitset_from_run_correct [OF inv(1)] by simp_all
  note P = run_array_pieces [OF inv runs_le_cardinality [OF inv(1)]]
  consider (none) "?n \<le> 32" "ac_cardinality a = 0" | (few) "?n \<le> 32" "ac_cardinality a \<noteq> 0"
    | (some) "\<not> ?n \<le> 32" "?n \<le> 4096" | (many) "\<not> ?n \<le> 32" "\<not> ?n \<le> 4096" by blast
  then have "container_inv (run_array_container_andnot r a) \<and> container_abs (run_array_container_andnot r a) = run_abs r - array_abs a"
  proof cases
    case none
    then show ?thesis using inv empty by (simp add: run_array_container_andnot_def run_clone_eq)
  next
    case few
    show ?thesis unfolding run_array_container_andnot_def cells_of_eq [OF inv(2)] Let_def
      using few convert_run_to_efficient_correct [OF P(1)] P(2) by simp
  next
    case some
    show ?thesis unfolding run_array_container_andnot_def cells_def [symmetric] Let_def
      using some sorted_array [OF C(1) n] C(2) n by auto
  next
    case many
    then show ?thesis using bitset_array_andnot_correct(3,4) [OF t(1) inv(2)] t(2)
      by (simp add: run_array_container_andnot_def)
  qed
  then show "container_inv (run_array_container_andnot r a)"
    "container_abs (run_array_container_andnot r a) = run_abs r - array_abs a" by simp_all
qed

lemma drop_run_cells_correct:
  "ssorted cells \<Longrightarrow> runs_ok rs \<Longrightarrow> s \<le> e \<Longrightarrow> \<forall>r \<in> set rs. e < rstart r \<Longrightarrow>
     drop_run_cells cells s e rs = filter (\<lambda>v. \<not> (s \<le> unat v \<and> unat v \<le> e \<or> covers rs (unat v))) cells"
proof (induction cells s e rs rule: drop_run_cells.induct)
  case (2 v cells s e rs)
  have far: "e < n" if "covers rs n" for n using covers_above [OF 2(8) that] .
  consider (below) "unat v < s" | (inside) "\<not> unat v < s" "unat v \<le> e" | (above) "\<not> unat v < s" "\<not> unat v \<le> e" by linarith
  then show ?case
  proof cases
    case below
    then show ?thesis using 2(1) [OF below] 2(5-8) far [of "unat v"] by auto
  next
    case inside
    then show ?thesis using 2(2) [OF inside] 2(5-8) by auto
  next
    case above
    have out: "\<not> unat w \<le> e" if "w \<in> set (v # cells)" for w
      using that above(2) 2(5) by (auto simp: word_less_nat_alt)
    show ?thesis
    proof (cases rs)
      case Nil
      have "drop_run_cells (v # cells) s e rs = drop_run_cells (v # cells) 65537 65537 []"
        using above Nil by simp
      also have "\<dots> = filter (\<lambda>w. \<not> (65537 \<le> unat w \<and> unat w \<le> 65537 \<or> covers [] (unat w))) (v # cells)"
        by (rule 2(3) [OF above Nil 2(5)]) simp_all
      also have "\<dots> = filter (\<lambda>w. \<not> (s \<le> unat w \<and> unat w \<le> e \<or> covers rs (unat w))) (v # cells)"
      proof (rule filter_cong [OF refl])
        fix w assume "w \<in> set (v # cells)"
        moreover have "\<not> 65537 \<le> unat w" using unat_u16_less [of w] by linarith
        ultimately show "(\<not> (65537 \<le> unat w \<and> unat w \<le> 65537 \<or> covers [] (unat w)))
            = (\<not> (s \<le> unat w \<and> unat w \<le> e \<or> covers rs (unat w)))" using out [of w] Nil by simp
      qed
      finally show ?thesis .
    next
      case (Cons r qs)
      have "drop_run_cells (v # cells) s e rs = drop_run_cells (v # cells) (rstart r) (rend r) qs"
        using above Cons by simp
      also have "\<dots> = filter (\<lambda>w. \<not> (rstart r \<le> unat w \<and> unat w \<le> rend r \<or> covers qs (unat w))) (v # cells)"
        by (rule 2(4) [OF above Cons 2(5)]) (use 2(6) Cons rstart_le_rend [of r] in \<open>auto simp: runs_ok_Cons\<close>)
      also have "\<dots> = filter (\<lambda>w. \<not> (s \<le> unat w \<and> unat w \<le> e \<or> covers rs (unat w))) (v # cells)"
        by (rule filter_cong [OF refl]) (use out Cons in \<open>auto simp: in_run_def\<close>)
      finally show ?thesis .
    qed
  qed
qed simp

lemma array_run_andnot_correct:
  assumes inv: "array_inv a" "run_inv r"
  shows "array_inv (array_run_container_andnot a r dst)"
    and "array_abs (array_run_container_andnot a r dst) = array_abs a - run_abs r"
    and "ac_cardinality (array_run_container_andnot a r dst) \<le> ac_cardinality a"
proof -
  define d where "d = (if ac_capacity dst < ac_cardinality a then array_container_grow dst (ac_cardinality a) False else dst)"
  let ?cells = "filter (\<lambda>v. v \<notin> run_abs r) (ac_array a)"
  have room: "ac_cardinality a \<le> ac_capacity d" unfolding d_def by (rule grown_room [OF inv(1)])
  have s: "ssorted (ac_array a)" "ac_cardinality a = int (length (ac_array a))" using inv(1) by (simp_all add: array_simps)
  have eq: "array_run_container_andnot a r dst = d\<lparr>ac_array := ?cells, ac_cardinality := int (length ?cells)\<rparr>"
  proof (cases "rc_runs r")
    case Nil
    have "d = (if ac_cardinality a > ac_capacity dst then array_container_grow dst (ac_cardinality a) False else dst)"
      by (simp add: d_def)
    then show ?thesis unfolding array_run_container_andnot_def cells_of_eq [OF inv(1)] Let_def
      using s Nil by (simp only: list.case) (simp add: run_abs_def)
  next
    case (Cons q qs)
    have ok: "runs_ok (q # qs)" using inv(2) Cons by (metis run_inv_simps(1))
    have "drop_run_cells (ac_array a) (rstart q) (rend q) qs
        = filter (\<lambda>v. \<not> (rstart q \<le> unat v \<and> unat v \<le> rend q \<or> covers qs (unat v))) (ac_array a)"
      by (rule drop_run_cells_correct) (use ok s rstart_le_rend [of q] in \<open>auto simp: runs_ok_Cons\<close>)
    also have "\<dots> = ?cells" by (simp add: run_abs_def Cons in_run_def)
    finally show ?thesis unfolding array_run_container_andnot_def cells_of_eq [OF inv(1)]
      by (simp add: Cons d_def [symmetric] Let_def)
  qed
  note F = array_filter_correct [OF inv(1) room, where P = "\<lambda>v. v \<notin> run_abs r"]
  show "array_inv (array_run_container_andnot a r dst)" unfolding eq by (rule F(1))
  show "array_abs (array_run_container_andnot a r dst) = array_abs a - run_abs r" unfolding eq F(2) by auto
  show "ac_cardinality (array_run_container_andnot a r dst) \<le> ac_cardinality a" unfolding eq using F(4) by simp
qed

lemmas andnot_inplace_defs = array_bitset_container_iandnot_def run_bitset_container_iandnot_def
  run_array_container_iandnot_def array_run_container_iandnot_def run_run_container_iandnot_def
  array_array_container_iandnot_def

interpretation array_bitset_minus: set_operation array_inv array_abs bitset_wf bitset_abs array_inv array_abs
  "\<lambda>a b. array_bitset_container_andnot a b dst" "\<lambda>x y. x \<and> \<not> y" for dst
  by unfold_locales (simp_all add: array_bitset_andnot_correct)

interpretation bitset_array_minus: set_operation bitset_inv bitset_abs array_inv array_abs container_inv container_abs
  bitset_array_container_andnot "\<lambda>x y. x \<and> \<not> y"
  by unfold_locales (simp_all add: bitset_array_andnot_correct)

interpretation run_bitset_minus: set_operation run_inv run_abs bitset_wf bitset_abs container_inv container_abs
  run_bitset_container_andnot "\<lambda>x y. x \<and> \<not> y"
  by unfold_locales (simp_all add: run_bitset_andnot_correct)

interpretation bitset_run_minus: set_operation bitset_wf bitset_abs run_inv run_abs container_inv container_abs
  bitset_run_container_andnot "\<lambda>x y. x \<and> \<not> y"
  by unfold_locales (simp_all add: bitset_run_andnot_correct)

interpretation run_array_minus: set_operation run_inv run_abs array_inv array_abs container_inv container_abs
  run_array_container_andnot "\<lambda>x y. x \<and> \<not> y"
  by unfold_locales (simp_all add: run_array_andnot_correct)

interpretation array_run_minus: set_operation array_inv array_abs run_inv run_abs array_inv array_abs
  "\<lambda>a r. array_run_container_andnot a r dst" "\<lambda>x y. x \<and> \<not> y" for dst
  by unfold_locales (simp_all add: array_run_andnot_correct)

interpretation run_run_minus: set_operation run_inv run_abs run_inv run_abs container_inv container_abs
  run_run_container_andnot "\<lambda>x y. x \<and> \<not> y"
  by unfold_locales (simp_all add: run_run_andnot_correct)

interpretation bitset_bitset_minus: set_operation bitset_wf bitset_abs bitset_wf bitset_abs container_inv container_abs
  bitset_bitset_container_andnot "\<lambda>x y. x \<and> \<not> y"
  by unfold_locales (simp_all add: bitset_bitset_andnot_correct)

end
