(* ===== verification/Mixed_Properties.thy ===== *)
theory Mixed_Properties
  imports Run_Properties Bitset_Properties Mixed_Andnot
begin

text \<open>
  The properties of the conversions between the types of containers and of the operations on
  containers of different types, each a consequence of the lemmas of the theories below it, with
  an application to concrete containers.
\<close>

section \<open>Concrete containers\<close>

abbreviation array_4_9 :: array_container where
  "array_4_9 \<equiv> \<lparr>ac_cardinality = 2, ac_capacity = 4, ac_array = [4, 9]\<rparr>"

lemma array_4_9: "array_inv array_4_9" "array_abs array_4_9 = {4, 9}" "ac_cardinality array_4_9 \<le> 4096"
  by (simp_all add: array_inv_def array_abs_def)

abbreviation full_bitset :: bitset_container where
  "full_bitset \<equiv> bitset_container_set_all bitset_container_create"

lemma full_bitset: "bitset_inv full_bitset" "bitset_abs full_bitset = UNIV" "4096 < bc_cardinality full_bitset"
  using bitset_set_all_correct by (simp_all add: bitset_container_set_all_def)

lemma run_2_5_9_set: "run_abs run_2_5_9 = {2, 3, 4, 5, 9}"
proof -
  have "run_abs run_2_5_9 = set (run_cells (rc_runs run_2_5_9))" using run_cells_sorted [OF run_examples(1)] by simp
  also have "\<dots> = {2, 3, 4, 5, 9}" by (simp add: run_cells_def rstart_def rend_def upt_rec)
  finally show ?thesis .
qed

section \<open>Conversions\<close>

text \<open>C30: every conversion of \<open>convert.c\<close> keeps the set of values; conversions to a given type give
  a well-formed container of that type, those that choose the type give the canonical form (an
  array holds at most 4096 values, a bitset more). \<open>convert_run_to_efficient_container\<close> ends with
  the smallest of the three sizes, and \<open>convert_run_optimize\<close> never makes a container larger.\<close>

theorem conversions_spec:
  assumes "array_inv a" and "bitset_inv b" and "run_inv r" and "container_inv c"
  shows "bitset_inv (bitset_container_from_array a) \<and> bitset_abs (bitset_container_from_array a) = array_abs a
     \<and> array_inv (array_container_from_bitset b) \<and> array_abs (array_container_from_bitset b) = bitset_abs b
     \<and> array_abs (array_container_from_bitset (bitset_container_from_array a)) = array_abs a
     \<and> run_inv (run_container_from_array a) \<and> run_abs (run_container_from_array a) = array_abs a
     \<and> array_inv (array_container_from_run r) \<and> array_abs (array_container_from_run r) = run_abs r
     \<and> array_abs (array_container_from_run (run_container_from_array a)) = array_abs a
     \<and> bitset_inv (bitset_container_from_run r) \<and> bitset_abs (bitset_container_from_run r) = run_abs r
     \<and> container_inv (convert_to_bitset_or_array_container r (run_container_cardinality r))
     \<and> container_abs (convert_to_bitset_or_array_container r (run_container_cardinality r)) = run_abs r
     \<and> container_inv (convert_run_to_efficient_container r) \<and> container_abs (convert_run_to_efficient_container r) = run_abs r
     \<and> container_size_in_bytes (convert_run_to_efficient_container r)
         = min (run_container_size_in_bytes r) (min 8192 (2 * int (card (run_abs r))))
     \<and> container_inv (convert_run_optimize c) \<and> container_abs (convert_run_optimize c) = container_abs c
     \<and> container_size_in_bytes (convert_run_optimize c) \<le> container_size_in_bytes c"
  using bitset_from_array_correct [OF assms(1)] array_from_bitset_correct [OF assms(2)] run_from_array_correct [OF assms(1)]
    array_from_bitset_correct [OF bitset_from_array_correct(1) [OF assms(1)]]
    array_from_run_correct [OF run_from_array_correct(1) [OF assms(1)]]
    array_from_run_correct [OF assms(3)] bitset_from_run_correct [OF assms(3)]
    convert_to_bitset_or_array_correct [OF assms(3) refl] convert_run_to_efficient_correct [OF assms(3)]
    convert_run_to_efficient_size [OF assms(3)] convert_run_optimize_correct [OF assms(4)] convert_run_optimize_size [OF assms(4)]
  by simp

theorem conversions_spec_witness:
  "array_abs (array_container_from_run run_2_5_9) = {2, 3, 4, 5, 9} \<and> bitset_abs (bitset_container_from_array array_4_9) = {4, 9}"
  using conversions_spec [OF array_4_9(1) full_bitset(1) run_examples(1), of "Array_c array_4_9"] array_4_9
  by (simp add: run_2_5_9_set)

section \<open>Set operations\<close>

text \<open>C31: the unions of an array and a bitset, a run container and a bitset, an array and a run
  container, and two arrays hold the union of the sets, in canonical form where the function
  chooses the type; the lazy versions too, up to the unknown cardinality of a bitset. The unions of a run
  container and a bitset assert that the run container is not full; an array and a run container must not
  be empty.\<close>

theorem mixed_union_spec:
  assumes "array_inv a" and "array_inv a'" and "bitset_inv b" and "run_inv r"
  shows "bitset_inv (array_bitset_container_union a b d) \<and> bitset_abs (array_bitset_container_union a b d) = array_abs a \<union> bitset_abs b
     \<and> bitset_lazy_inv (array_bitset_container_lazy_union a b d)
     \<and> bitset_abs (array_bitset_container_lazy_union a b d) = array_abs a \<union> bitset_abs b
     \<and> (\<not> run_container_is_full r \<longrightarrow>
          bitset_inv (run_bitset_container_union r b d) \<and> bitset_abs (run_bitset_container_union r b d) = run_abs r \<union> bitset_abs b
        \<and> bitset_lazy_inv (run_bitset_container_lazy_union r b d)
        \<and> bitset_abs (run_bitset_container_lazy_union r b d) = run_abs r \<union> bitset_abs b)
     \<and> (array_abs a \<noteq> {} \<and> run_abs r \<noteq> {} \<longrightarrow>
          run_inv (array_run_container_union a r run_container_create)
        \<and> run_abs (array_run_container_union a r run_container_create) = array_abs a \<union> run_abs r
        \<and> run_inv (array_run_container_inplace_union a r) \<and> run_abs (array_run_container_inplace_union a r) = array_abs a \<union> run_abs r)
     \<and> container_inv (array_array_container_union a a') \<and> container_abs (array_array_container_union a a') = array_abs a \<union> array_abs a'
     \<and> container_inv (array_array_container_inplace_union a a')
     \<and> container_abs (array_array_container_inplace_union a a') = array_abs a \<union> array_abs a'
     \<and> container_lazy_inv (array_array_container_lazy_union a a')
     \<and> container_abs (array_array_container_lazy_union a a') = array_abs a \<union> array_abs a'
     \<and> container_lazy_inv (array_array_container_lazy_inplace_union a a')
     \<and> container_abs (array_array_container_lazy_inplace_union a a') = array_abs a \<union> array_abs a'"
proof -
  have wf: "bitset_wf b" using assms(3) by (rule bitset_inv_wf)
  have new: "rc_runs run_container_create = []" "rc_n_runs run_container_create = 0"
    by (simp_all add: run_container_create_def run_container_create_given_capacity_def)
  show ?thesis
    using array_bitset_union_correct [OF assms(1,3), of d] array_bitset_lazy_union_correct [OF assms(1) wf, of d]
      run_bitset_union_correct [OF assms(4) wf, of d] array_run_union_correct(1) [OF assms(1,4) _ _ new]
      array_run_union_correct(2) [OF assms(1,4)] array_array_union_correct [OF assms(1,2)]
      array_array_inplace_union_correct [OF assms(1,2)] array_array_lazy_union_correct [OF assms(1,2)]
    by simp
qed

theorem mixed_union_spec_witness:
  "run_abs (array_run_container_union array_4_9 run_2_5_9 run_container_create) = {4, 9} \<union> {2, 3, 4, 5, 9}
   \<and> bitset_abs (run_bitset_container_union run_2_5_9 bitset_container_create bitset_container_create) = {2, 3, 4, 5, 9}"
proof -
  have ne: "array_abs array_4_9 \<noteq> {} \<and> run_abs run_2_5_9 \<noteq> {}" by (simp add: array_4_9 run_2_5_9_set)
  have "(7 :: u16) \<notin> run_abs run_2_5_9" unfolding run_2_5_9_set by simp
  then have "run_abs run_2_5_9 \<noteq> UNIV" by blast
  then have partial: "\<not> run_container_is_full run_2_5_9" using run_full_iff [OF run_examples(1)] by blast
  have empty: "bitset_inv bitset_container_create" "bitset_abs bitset_container_create = {}" by (simp_all add: bitset_create_correct)
  note spec = mixed_union_spec [OF array_4_9(1) array_4_9(1) empty(1) run_examples(1), of bitset_container_create]
  have "run_abs (array_run_container_union array_4_9 run_2_5_9 run_container_create) = array_abs array_4_9 \<union> run_abs run_2_5_9"
    using spec by - ((elim conjE impE [OF _ ne])+, assumption)
  moreover have "bitset_abs (run_bitset_container_union run_2_5_9 bitset_container_create bitset_container_create)
      = run_abs run_2_5_9 \<union> bitset_abs bitset_container_create"
    using spec by - ((elim conjE impE [OF _ partial])+, assumption)
  ultimately show ?thesis unfolding array_4_9(2) run_2_5_9_set empty(2) by simp
qed

text \<open>C32: the intersections of containers of different types hold the intersection of the sets, in
  canonical form where the function chooses the type; the cardinality functions count it and the
  tests tell whether it is empty. (Canonical bitsets hold more than 4096 values; the intersection
  with a run container relies on it.)\<close>

theorem mixed_intersection_spec:
  assumes "array_inv a" and "bitset_inv b" and "4096 < bc_cardinality b" and "bitset_inv b'" and "run_inv r" and "run_abs r \<noteq> {}"
  shows "array_inv (array_bitset_container_intersection a b d) \<and> array_abs (array_bitset_container_intersection a b d) = array_abs a \<inter> bitset_abs b
     \<and> array_bitset_container_intersection_cardinality a b = int (card (array_abs a \<inter> bitset_abs b))
     \<and> (array_bitset_container_intersect a b \<longleftrightarrow> array_abs a \<inter> bitset_abs b \<noteq> {})
     \<and> array_inv (array_run_container_intersection a r d) \<and> array_abs (array_run_container_intersection a r d) = array_abs a \<inter> run_abs r
     \<and> array_run_container_intersection_cardinality a r = int (card (array_abs a \<inter> run_abs r))
     \<and> (array_run_container_intersect a r \<longleftrightarrow> array_abs a \<inter> run_abs r \<noteq> {})
     \<and> container_inv (run_bitset_container_intersection r b) \<and> container_abs (run_bitset_container_intersection r b) = run_abs r \<inter> bitset_abs b
     \<and> run_bitset_container_intersection_cardinality r b = int (card (run_abs r \<inter> bitset_abs b))
     \<and> (run_bitset_container_intersect r b \<longleftrightarrow> run_abs r \<inter> bitset_abs b \<noteq> {})
     \<and> container_inv (bitset_bitset_container_intersection b b')
     \<and> container_abs (bitset_bitset_container_intersection b b') = bitset_abs b \<inter> bitset_abs b'
     \<and> container_inv (bitset_bitset_container_intersection_inplace b b')
     \<and> container_abs (bitset_bitset_container_intersection_inplace b b') = bitset_abs b \<inter> bitset_abs b'"
proof -
  have wf: "bitset_wf b" "bitset_wf b'" using assms(2,4) by (simp_all add: bitset_inv_wf)
  show ?thesis
    using array_bitset_intersection_correct(1,2) [OF assms(1) wf(1), of d] array_bitset_intersection_correct(4,5) [OF assms(1) wf(1)]
      array_run_intersection_correct [OF assms(1,5) disjI1 [OF assms(6)], of d]
      array_run_intersection_counts [OF assms(1,5)] run_bitset_intersection_correct [OF assms(5,2,3)]
      run_bitset_intersection_counts [OF assms(5,2)] bitset_bitset_intersection_correct [OF wf]
    by - ((elim conjE)?, intro conjI; assumption)
qed

theorem mixed_intersection_spec_witness:
  "array_run_container_intersection_cardinality array_4_9 run_2_5_9 = 2"
proof -
  have "array_run_container_intersection_cardinality array_4_9 run_2_5_9 = int (card (array_abs array_4_9 \<inter> run_abs run_2_5_9))"
    using mixed_intersection_spec [OF array_4_9(1) full_bitset(1,3) full_bitset(1) run_examples(1), where d = array_4_9] by (simp add: run_2_5_9_set)
  then show ?thesis by (simp add: array_4_9 run_2_5_9_set)
qed

text \<open>The subset and equality tests between containers of different types decide inclusion and
  equality of the sets, whether or not the cardinality of a bitset is known.\<close>

theorem mixed_tests_spec:
  assumes "array_inv a" and "bitset_lazy_inv b" and "run_inv r"
  shows "(array_container_is_subset_bitset a b \<longleftrightarrow> array_abs a \<subseteq> bitset_abs b)
     \<and> (run_container_is_subset_array r a \<longleftrightarrow> run_abs r \<subseteq> array_abs a)
     \<and> (array_container_is_subset_run a r \<longleftrightarrow> array_abs a \<subseteq> run_abs r)
     \<and> (run_container_is_subset_bitset r b \<longleftrightarrow> run_abs r \<subseteq> bitset_abs b)
     \<and> (bitset_container_is_subset_run b r \<longleftrightarrow> bitset_abs b \<subseteq> run_abs r)
     \<and> (array_container_equal_bitset a b \<longleftrightarrow> array_abs a = bitset_abs b)
     \<and> (run_container_equals_array r a \<longleftrightarrow> run_abs r = array_abs a)
     \<and> (run_container_equals_bitset r b \<longleftrightarrow> run_abs r = bitset_abs b)"
  using array_in_bitset.test_rel [OF assms(1,2)] run_in_array.test_rel [OF assms(3,1)] array_in_run.test_rel [OF assms(1,3)]
    run_in_bitset.test_rel [OF assms(3,2)] bitset_in_run.test_rel [OF assms(2,3)] array_is_bitset.test_rel [OF assms(1,2)]
    run_is_array.test_rel [OF assms(3,1)] run_is_bitset.test_rel [OF assms(3,2)] by - (intro conjI; assumption)

theorem mixed_tests_spec_witness:
  "array_container_is_subset_run array_4_9 run_2_5_9 \<and> \<not> run_container_is_subset_array run_2_5_9 array_4_9"
proof -
  note T = mixed_tests_spec [OF array_4_9(1) bitset_inv_lazy [OF full_bitset(1)] run_examples(1)]
  have "(array_container_is_subset_run array_4_9 run_2_5_9 \<longleftrightarrow> array_abs array_4_9 \<subseteq> run_abs run_2_5_9)
      \<and> (run_container_is_subset_array run_2_5_9 array_4_9 \<longleftrightarrow> run_abs run_2_5_9 \<subseteq> array_abs array_4_9)"
    using T by - (elim conjE, intro conjI; assumption)
  then show ?thesis unfolding array_4_9(2) run_2_5_9_set by simp
qed

text \<open>C33: negation, of the whole container or of a range, complements the set there, with a result in
  canonical form. The in-place negation of a run container, which writes the new runs over those
  it still has to read behind a buffer of one run, computes the same set.\<close>

theorem negation_spec:
  assumes "array_inv a" and "ac_cardinality a \<le> 4096" and "bitset_inv b" and "run_inv r"
    and "0 \<le> s" and "s \<le> e" and "e \<le> 65536"
  shows "bitset_inv (array_container_negation a b) \<and> bitset_abs (array_container_negation a b) = - array_abs a
     \<and> container_inv (array_container_negation_range a s e)
     \<and> container_abs (array_container_negation_range a s e) = sym_diff (array_abs a) {x. s \<le> uint x \<and> uint x < e}
     \<and> container_inv (bitset_container_negation b) \<and> container_abs (bitset_container_negation b) = - bitset_abs b
     \<and> container_inv (bitset_container_negation_range b s e)
     \<and> container_abs (bitset_container_negation_range b s e) = sym_diff (bitset_abs b) {x. s \<le> uint x \<and> uint x < e}
     \<and> container_inv (bitset_container_negation_range_inplace b s e)
     \<and> container_abs (bitset_container_negation_range_inplace b s e) = sym_diff (bitset_abs b) {x. s \<le> uint x \<and> uint x < e}
     \<and> container_inv (run_container_negation r) \<and> container_abs (run_container_negation r) = - run_abs r
     \<and> container_inv (run_container_negation_range r s e)
     \<and> container_abs (run_container_negation_range r s e) = sym_diff (run_abs r) {x. s \<le> uint x \<and> uint x < e}
     \<and> container_inv (run_container_negation_range_inplace r s e)
     \<and> container_abs (run_container_negation_range_inplace r s e) = sym_diff (run_abs r) {x. s \<le> uint x \<and> uint x < e}"
proof -
  have wf: "bitset_wf b" using assms(3) by (rule bitset_inv_wf)
  have "uint x < 65536" for x :: u16 using uint_lt2p [of x] by simp
  then have all: "sym_diff S (int_range 0 65536) = - S" for S by (auto simp: int_range_def)
  note range = int_range_def [symmetric]
  show ?thesis unfolding range bitset_container_negation_def run_container_negation_def bitset_negation_inplace_eq
    using array_container_negation_correct [OF assms(1) wf] array_negation_range_correct [OF assms(1,2,5,7)]
      bitset_negation_range_correct [OF wf assms(5-7)] bitset_negation_range_correct [OF wf, of 0 65536]
      run_negation_range_correct [OF assms(4,5,7)] run_negation_range_correct [OF assms(4), of 0 65536]
      run_negation_inplace_correct [OF assms(4,5,7)] all by simp
qed

theorem negation_spec_witness:
  "container_abs (run_container_negation_range_inplace run_2_5_9 4 9) = sym_diff {2, 3, 4, 5, 9} {x. 4 \<le> uint x \<and> uint x < 9}"
proof -
  have "container_abs (run_container_negation_range_inplace run_2_5_9 4 9) = sym_diff (run_abs run_2_5_9) {x. 4 \<le> uint x \<and> uint x < 9}"
    using negation_spec [OF array_4_9(1,3) full_bitset(1) run_examples(1), of 4 9] by simp
  then show ?thesis unfolding run_2_5_9_set .
qed

text \<open>C34: the in-place negation of a run container never needs more cells than the container has:
  when it is full and the test \<open>no_space_for_inplace\<close> fails, an end of the range meets an end of a
  run, and the result has no more runs than before; otherwise there is room for one run more.\<close>

theorem run_negation_room_spec:
  assumes "run_inv r" and "0 \<le> s" and "s < e" and "e \<le> 65536"
    and "rc_n_runs r < rc_capacity r \<or> \<not> no_space_for_inplace r s e"
  shows "run_inv (fst (negation_inplace_runs r s e))
     \<and> rc_capacity (fst (negation_inplace_runs r s e)) = rc_capacity r
     \<and> rc_n_runs (fst (negation_inplace_runs r s e)) \<le> rc_capacity r"
  by (rule negation_inplace_room [OF assms])

theorem run_negation_room_spec_witness:
  "rc_n_runs (fst (negation_inplace_runs run_2_5_9 4 9)) \<le> 2"
proof -
  have "\<not> no_space_for_inplace run_2_5_9 4 9" by code_simp
  then show ?thesis using run_negation_room_spec [OF run_examples(1), of 4 9] by simp
qed

text \<open>C35: the symmetric differences of containers of different types, of two arrays, runs or bitsets
  hold the symmetric difference of the sets in canonical form; the lazy versions hold it up to the
  unknown cardinality of a bitset, or as a run container.\<close>

theorem mixed_xor_spec:
  assumes "array_inv a" and "array_inv a'" and "bitset_inv b" and "bitset_inv b'" and "run_inv r" and "run_inv r'"
  shows "container_inv (array_bitset_container_xor a b) \<and> container_abs (array_bitset_container_xor a b) = sym_diff (array_abs a) (bitset_abs b)
     \<and> container_inv (run_bitset_container_xor r b) \<and> container_abs (run_bitset_container_xor r b) = sym_diff (run_abs r) (bitset_abs b)
     \<and> container_inv (array_run_container_xor a r) \<and> container_abs (array_run_container_xor a r) = sym_diff (array_abs a) (run_abs r)
     \<and> container_inv (array_array_container_xor a a') \<and> container_abs (array_array_container_xor a a') = sym_diff (array_abs a) (array_abs a')
     \<and> container_inv (run_run_container_xor r r') \<and> container_abs (run_run_container_xor r r') = sym_diff (run_abs r) (run_abs r')
     \<and> container_inv (bitset_bitset_container_xor b b') \<and> container_abs (bitset_bitset_container_xor b b') = sym_diff (bitset_abs b) (bitset_abs b')
     \<and> container_inv (bitset_array_container_ixor b a) \<and> container_abs (bitset_array_container_ixor b a) = sym_diff (bitset_abs b) (array_abs a)
     \<and> bitset_lazy_inv (array_bitset_container_lazy_xor a b d)
     \<and> bitset_abs (array_bitset_container_lazy_xor a b d) = sym_diff (array_abs a) (bitset_abs b)
     \<and> bitset_lazy_inv (run_bitset_container_lazy_xor r b d)
     \<and> bitset_abs (run_bitset_container_lazy_xor r b d) = sym_diff (run_abs r) (bitset_abs b)
     \<and> run_inv (array_run_container_lazy_xor a r q) \<and> run_abs (array_run_container_lazy_xor a r q) = sym_diff (array_abs a) (run_abs r)
     \<and> container_lazy_inv (array_array_container_lazy_xor a a')
     \<and> container_abs (array_array_container_lazy_xor a a') = sym_diff (array_abs a) (array_abs a')"
proof -
  have wf: "bitset_wf b" "bitset_wf b'" using assms(3,4) by (simp_all add: bitset_inv_wf)
  show ?thesis
    using array_bitset_xor_correct [OF assms(1,3)] run_bitset_xor_correct(1,2) [OF assms(5) wf(1)]
      run_bitset_xor_correct(3,4) [OF assms(5) wf(1), of d] array_run_xor_correct [OF assms(1,5)]
      array_array_xor_correct [OF assms(1,2)] run_run_xor_correct [OF assms(5,6)] bitset_bitset_xor_correct(1,2) [OF wf]
      bitset_array_ixor_correct [OF assms(3,1)] array_bitset_lazy_xor_correct [OF assms(1) wf(1), of d]
      array_run_lazy_xor_correct [OF assms(1,5), of q] by - ((elim conjE)?, intro conjI; assumption)
qed

theorem mixed_xor_spec_witness:
  "container_abs (array_run_container_xor array_4_9 run_2_5_9) = sym_diff {4, 9} {2, 3, 4, 5, 9}"
proof -
  have "container_abs (array_run_container_xor array_4_9 run_2_5_9) = sym_diff (array_abs array_4_9) (run_abs run_2_5_9)"
    using mixed_xor_spec [OF array_4_9(1) array_4_9(1) full_bitset(1) full_bitset(1) run_examples(1,1),
      where d = bitset_container_create and q = run_container_create] by - (elim conjE, assumption)
  then show ?thesis unfolding array_4_9(2) run_2_5_9_set .
qed

text \<open>C36: the differences of containers of different types, of two runs or bitsets hold the difference
  of the sets, in canonical form where the function chooses the type; a difference from an array
  stays a well-formed array that is not larger.\<close>

theorem mixed_andnot_spec:
  assumes "array_inv a" and "bitset_inv b" and "bitset_inv b'" and "run_inv r" and "run_inv r'"
  shows "array_inv (array_bitset_container_andnot a b d) \<and> array_abs (array_bitset_container_andnot a b d) = array_abs a - bitset_abs b
     \<and> ac_cardinality (array_bitset_container_andnot a b d) \<le> ac_cardinality a
     \<and> container_inv (bitset_array_container_andnot b a) \<and> container_abs (bitset_array_container_andnot b a) = bitset_abs b - array_abs a
     \<and> container_inv (bitset_array_container_iandnot b a) \<and> container_abs (bitset_array_container_iandnot b a) = bitset_abs b - array_abs a
     \<and> container_inv (run_bitset_container_andnot r b) \<and> container_abs (run_bitset_container_andnot r b) = run_abs r - bitset_abs b
     \<and> container_inv (bitset_run_container_andnot b r) \<and> container_abs (bitset_run_container_andnot b r) = bitset_abs b - run_abs r
     \<and> container_inv (bitset_run_container_iandnot b r) \<and> container_abs (bitset_run_container_iandnot b r) = bitset_abs b - run_abs r
     \<and> container_inv (run_array_container_andnot r a) \<and> container_abs (run_array_container_andnot r a) = run_abs r - array_abs a
     \<and> array_inv (array_run_container_andnot a r d) \<and> array_abs (array_run_container_andnot a r d) = array_abs a - run_abs r
     \<and> ac_cardinality (array_run_container_andnot a r d) \<le> ac_cardinality a
     \<and> container_inv (run_run_container_andnot r r') \<and> container_abs (run_run_container_andnot r r') = run_abs r - run_abs r'
     \<and> container_inv (bitset_bitset_container_andnot b b')
     \<and> container_abs (bitset_bitset_container_andnot b b') = bitset_abs b - bitset_abs b'
     \<and> container_inv (bitset_bitset_container_iandnot b b')
     \<and> container_abs (bitset_bitset_container_iandnot b b') = bitset_abs b - bitset_abs b'"
proof -
  have wf: "bitset_wf b" "bitset_wf b'" using assms(2,3) by (simp_all add: bitset_inv_wf)
  show ?thesis
    using array_bitset_andnot_correct [OF assms(1) wf(1), of d] bitset_array_andnot_correct [OF assms(2,1)]
      run_bitset_andnot_correct [OF assms(4) wf(1)] bitset_run_andnot_correct [OF wf(1) assms(4)]
      run_array_andnot_correct [OF assms(4,1)] array_run_andnot_correct [OF assms(1,4), of d]
      run_run_andnot_correct [OF assms(4,5)] bitset_bitset_andnot_correct [OF wf] by - ((elim conjE)?, intro conjI; assumption)
qed

theorem mixed_andnot_spec_witness:
  "container_abs (run_array_container_andnot run_2_5_9 array_4_9) = {2, 3, 4, 5, 9} - {4, 9}"
proof -
  have "container_abs (run_array_container_andnot run_2_5_9 array_4_9) = run_abs run_2_5_9 - array_abs array_4_9"
    using mixed_andnot_spec [OF array_4_9(1) full_bitset(1) full_bitset(1) run_examples(1,1), where d = array_4_9] by - (elim conjE, assumption)
  then show ?thesis unfolding array_4_9(2) run_2_5_9_set .
qed

end
