(* ===== verification/Containers.thy ===== *)
theory Containers
  imports Mixed_Andnot
begin

text \<open>
  The dispatch of \<open>include/roaring/containers/containers.h\<close>: each operation takes containers with
  their type codes and calls the code for that type or pair of types. A container and its type
  code are one value of \<open>container_t\<close>, so the type code written to \<open>*result_type\<close> is the
  constructor of the result; the destination containers the code creates are created here as well,
  because some of the routines look at their capacity. The containers are not shared ones: the
  wrapper with a reference count is unwrapped before the dispatch, as \<open>container_unwrap_shared\<close> does.
\<close>

section \<open>Size, shape and conversion\<close>

fun container_to_bitset :: "container_t \<Rightarrow> bitset_container" where
  "container_to_bitset (Bitset_c c) = c"
| "container_to_bitset (Array_c c) = bitset_container_from_array c"
| "container_to_bitset (Run_c c) = bitset_container_from_run c"

fun container_get_cardinality :: "container_t \<Rightarrow> int" where
  "container_get_cardinality (Bitset_c c) = bc_cardinality c"
| "container_get_cardinality (Array_c c) = ac_cardinality c"
| "container_get_cardinality (Run_c c) = run_container_cardinality c"

fun container_is_full :: "container_t \<Rightarrow> bool" where
  "container_is_full (Bitset_c c) \<longleftrightarrow> bc_cardinality c = 65536"
| "container_is_full (Array_c c) \<longleftrightarrow> ac_cardinality c = 65536"
| "container_is_full (Run_c c) \<longleftrightarrow> run_container_is_full c"

fun container_shrink_to_fit :: "container_t \<Rightarrow> container_t \<times> int" where
  "container_shrink_to_fit (Bitset_c c) = (Bitset_c c, 0)"
| "container_shrink_to_fit (Array_c c) = (case array_container_shrink_to_fit c of (c', n) \<Rightarrow> (Array_c c', n))"
| "container_shrink_to_fit (Run_c c) = (case run_container_shrink_to_fit c of (c', n) \<Rightarrow> (Run_c c', n))"

text \<open>\<open>cardinality\<close> is computed on 32 bits before it is widened.\<close>

definition container_range_of_ones :: "u32 \<Rightarrow> u32 \<Rightarrow> container_t" where
  "container_range_of_ones range_start range_end =
     (let cardinality = range_end - range_start + 1
      in if cardinality \<le> 2 then Array_c (array_container_create_range range_start range_end)
         else Run_c (run_container_create_range range_start range_end))"

definition container_from_range :: "u32 \<Rightarrow> u32 \<Rightarrow> u16 \<Rightarrow> container_t option" where
  "container_from_range lo hi step =
     (if step = 0 then None
      else if step = 1 then Some (container_range_of_ones lo hi)
      else let size = uint ((hi - lo + ucast step - 1) div ucast step)
           in if size \<le> DEFAULT_MAX_SIZE
              then map_option Array_c (array_container_add_from_range (array_container_create_given_capacity size) lo hi step)
              else map_option Bitset_c (bitset_container_add_from_range bitset_container_create lo hi step))"

fun container_repair_after_lazy :: "container_t \<Rightarrow> container_t" where
  "container_repair_after_lazy (Bitset_c c) =
     (let bc = c\<lparr>bc_cardinality := bitset_container_compute_cardinality c\<rparr>
      in if bc_cardinality bc \<le> DEFAULT_MAX_SIZE then Array_c (array_container_from_bitset bc) else Bitset_c bc)"
| "container_repair_after_lazy (Array_c c) = Array_c c"
| "container_repair_after_lazy (Run_c c) = convert_run_to_efficient_container_and_free c"

fun container_write :: "container_t \<Rightarrow> u8 list \<times> int" where
  "container_write (Bitset_c c) = bitset_container_write c"
| "container_write (Array_c c) = array_container_write c"
| "container_write (Run_c c) = run_container_write c"

fun container_nonzero_cardinality :: "container_t \<Rightarrow> bool" where
  "container_nonzero_cardinality (Bitset_c c) = bitset_container_const_nonzero_cardinality c"
| "container_nonzero_cardinality (Array_c c) = array_container_nonzero_cardinality c"
| "container_nonzero_cardinality (Run_c c) = run_container_nonzero_cardinality c"

text \<open>The values written and their number.\<close>

fun container_to_uint32_array :: "container_t \<Rightarrow> u32 \<Rightarrow> int \<times> u32 list" where
  "container_to_uint32_array (Bitset_c c) base =
     (let out = bitset_container_to_uint32_array c base in (int (length out), out))"
| "container_to_uint32_array (Array_c c) base = array_container_to_uint32_array c base"
| "container_to_uint32_array (Run_c c) base = run_container_to_uint32_array c base"

fun container_clone :: "container_t \<Rightarrow> container_t" where
  "container_clone (Bitset_c c) = Bitset_c (bitset_container_clone c)"
| "container_clone (Array_c c) = Array_c (array_container_clone c)"
| "container_clone (Run_c c) = Run_c (run_container_clone c)"

datatype container_error = Bitset_invalid bitset_validate_error | Array_invalid validate_error | Run_invalid run_validate_error

fun container_internal_validate :: "container_t \<Rightarrow> container_error option" where
  "container_internal_validate (Bitset_c c) = map_option Bitset_invalid (bitset_container_validate c)"
| "container_internal_validate (Array_c c) = map_option Array_invalid (array_container_validate c)"
| "container_internal_validate (Run_c c) = map_option Run_invalid (run_container_validate c)"

section \<open>Single values\<close>

fun container_add :: "container_t \<Rightarrow> u16 \<Rightarrow> container_t" where
  "container_add (Bitset_c c) val = Bitset_c (bitset_container_set c val)"
| "container_add (Array_c ac) val =
     (case array_container_try_add ac val DEFAULT_MAX_SIZE of (ac', result) \<Rightarrow>
        if result \<noteq> - 1 then Array_c ac'
        else let bitset = bitset_container_from_array ac'
             in Bitset_c (fst (bitset_container_add bitset val)))"
| "container_add (Run_c c) val = Run_c (fst (run_container_add c val))"

fun container_remove :: "container_t \<Rightarrow> u16 \<Rightarrow> container_t" where
  "container_remove (Bitset_c c) val =
     (case bitset_container_remove c val of (c', removed) \<Rightarrow>
        if removed \<and> bc_cardinality c' \<le> DEFAULT_MAX_SIZE then Array_c (array_container_from_bitset c')
        else Bitset_c c')"
| "container_remove (Array_c c) val = Array_c (fst (array_container_remove c val))"
| "container_remove (Run_c c) val = Run_c (fst (run_container_remove c val))"

fun container_contains :: "container_t \<Rightarrow> u16 \<Rightarrow> bool" where
  "container_contains (Bitset_c c) val = bitset_container_get c val"
| "container_contains (Array_c c) val = array_container_contains c val"
| "container_contains (Run_c c) val = run_container_contains c val"

fun container_contains_range :: "container_t \<Rightarrow> u32 \<Rightarrow> u32 \<Rightarrow> bool" where
  "container_contains_range (Bitset_c c) range_start range_end = bitset_container_get_range c range_start range_end"
| "container_contains_range (Array_c c) range_start range_end = array_container_contains_range c range_start range_end"
| "container_contains_range (Run_c c) range_start range_end = run_container_contains_range c range_start range_end"

section \<open>Comparisons\<close>

fun container_equals :: "container_t \<Rightarrow> container_t \<Rightarrow> bool" where
  "container_equals (Bitset_c c1) (Bitset_c c2) = bitset_container_equals c1 c2"
| "container_equals (Bitset_c c1) (Run_c c2) = run_container_equals_bitset c2 c1"
| "container_equals (Run_c c1) (Bitset_c c2) = run_container_equals_bitset c1 c2"
| "container_equals (Bitset_c c1) (Array_c c2) = array_container_equal_bitset c2 c1"
| "container_equals (Array_c c1) (Bitset_c c2) = array_container_equal_bitset c1 c2"
| "container_equals (Array_c c1) (Run_c c2) = run_container_equals_array c2 c1"
| "container_equals (Run_c c1) (Array_c c2) = run_container_equals_array c1 c2"
| "container_equals (Array_c c1) (Array_c c2) = array_container_equals c1 c2"
| "container_equals (Run_c c1) (Run_c c2) = run_container_equals c1 c2"

fun container_is_subset :: "container_t \<Rightarrow> container_t \<Rightarrow> bool" where
  "container_is_subset (Bitset_c c1) (Bitset_c c2) = bitset_container_is_subset c1 c2"
| "container_is_subset (Bitset_c c1) (Run_c c2) = bitset_container_is_subset_run c1 c2"
| "container_is_subset (Run_c c1) (Bitset_c c2) = run_container_is_subset_bitset c1 c2"
| "container_is_subset (Bitset_c c1) (Array_c c2) = False"
| "container_is_subset (Array_c c1) (Bitset_c c2) = array_container_is_subset_bitset c1 c2"
| "container_is_subset (Array_c c1) (Run_c c2) = array_container_is_subset_run c1 c2"
| "container_is_subset (Run_c c1) (Array_c c2) = run_container_is_subset_array c1 c2"
| "container_is_subset (Array_c c1) (Array_c c2) = array_container_is_subset c1 c2"
| "container_is_subset (Run_c c1) (Run_c c2) = run_container_is_subset c1 c2"

section \<open>Intersection\<close>

fun container_and :: "container_t \<Rightarrow> container_t \<Rightarrow> container_t" where
  "container_and (Bitset_c c1) (Bitset_c c2) = bitset_bitset_container_intersection c1 c2"
| "container_and (Array_c c1) (Array_c c2) = Array_c (array_container_intersection c1 c2 array_container_create)"
| "container_and (Run_c c1) (Run_c c2) =
     convert_run_to_efficient_container_and_free (run_container_intersection c1 c2 run_container_create)"
| "container_and (Bitset_c c1) (Array_c c2) = Array_c (array_bitset_container_intersection c2 c1 array_container_create)"
| "container_and (Array_c c1) (Bitset_c c2) = Array_c (array_bitset_container_intersection c1 c2 array_container_create)"
| "container_and (Bitset_c c1) (Run_c c2) = run_bitset_container_intersection c2 c1"
| "container_and (Run_c c1) (Bitset_c c2) = run_bitset_container_intersection c1 c2"
| "container_and (Array_c c1) (Run_c c2) = Array_c (array_run_container_intersection c1 c2 array_container_create)"
| "container_and (Run_c c1) (Array_c c2) = Array_c (array_run_container_intersection c2 c1 array_container_create)"

fun container_and_cardinality :: "container_t \<Rightarrow> container_t \<Rightarrow> int" where
  "container_and_cardinality (Bitset_c c1) (Bitset_c c2) = bitset_container_and_justcard c1 c2"
| "container_and_cardinality (Array_c c1) (Array_c c2) = array_container_intersection_cardinality c1 c2"
| "container_and_cardinality (Run_c c1) (Run_c c2) = run_container_intersection_cardinality c1 c2"
| "container_and_cardinality (Bitset_c c1) (Array_c c2) = array_bitset_container_intersection_cardinality c2 c1"
| "container_and_cardinality (Array_c c1) (Bitset_c c2) = array_bitset_container_intersection_cardinality c1 c2"
| "container_and_cardinality (Bitset_c c1) (Run_c c2) = run_bitset_container_intersection_cardinality c2 c1"
| "container_and_cardinality (Run_c c1) (Bitset_c c2) = run_bitset_container_intersection_cardinality c1 c2"
| "container_and_cardinality (Array_c c1) (Run_c c2) = array_run_container_intersection_cardinality c1 c2"
| "container_and_cardinality (Run_c c1) (Array_c c2) = array_run_container_intersection_cardinality c2 c1"

fun container_intersect :: "container_t \<Rightarrow> container_t \<Rightarrow> bool" where
  "container_intersect (Bitset_c c1) (Bitset_c c2) = bitset_container_intersect c1 c2"
| "container_intersect (Array_c c1) (Array_c c2) = array_container_intersect c1 c2"
| "container_intersect (Run_c c1) (Run_c c2) = run_container_intersect c1 c2"
| "container_intersect (Bitset_c c1) (Array_c c2) = array_bitset_container_intersect c2 c1"
| "container_intersect (Array_c c1) (Bitset_c c2) = array_bitset_container_intersect c1 c2"
| "container_intersect (Bitset_c c1) (Run_c c2) = run_bitset_container_intersect c2 c1"
| "container_intersect (Run_c c1) (Bitset_c c2) = run_bitset_container_intersect c1 c2"
| "container_intersect (Array_c c1) (Run_c c2) = array_run_container_intersect c1 c2"
| "container_intersect (Run_c c1) (Array_c c2) = array_run_container_intersect c2 c1"

fun container_iand :: "container_t \<Rightarrow> container_t \<Rightarrow> container_t" where
  "container_iand (Bitset_c c1) (Bitset_c c2) = bitset_bitset_container_intersection_inplace c1 c2"
| "container_iand (Array_c c1) (Array_c c2) = Array_c (array_container_intersection_inplace c1 c2)"
| "container_iand (Run_c c1) (Run_c c2) =
     convert_run_to_efficient_container_and_free (run_container_intersection c1 c2 run_container_create)"
| "container_iand (Bitset_c c1) (Array_c c2) = Array_c (array_bitset_container_intersection c2 c1 array_container_create)"
| "container_iand (Array_c c1) (Bitset_c c2) = Array_c (array_bitset_container_intersection c1 c2 c1)"
| "container_iand (Bitset_c c1) (Run_c c2) = run_bitset_container_intersection c2 c1"
| "container_iand (Run_c c1) (Bitset_c c2) = run_bitset_container_intersection c1 c2"
| "container_iand (Array_c c1) (Run_c c2) = Array_c (array_run_container_intersection c1 c2 array_container_create)"
| "container_iand (Run_c c1) (Array_c c2) = Array_c (array_run_container_intersection c2 c1 array_container_create)"

section \<open>Union\<close>

fun container_or :: "container_t \<Rightarrow> container_t \<Rightarrow> container_t" where
  "container_or (Bitset_c c1) (Bitset_c c2) = Bitset_c (bitset_container_or c1 c2 bitset_container_create)"
| "container_or (Array_c c1) (Array_c c2) = array_array_container_union c1 c2"
| "container_or (Run_c c1) (Run_c c2) =
     convert_run_to_efficient_container_and_free (run_container_union c1 c2 run_container_create)"
| "container_or (Bitset_c c1) (Array_c c2) = Bitset_c (array_bitset_container_union c2 c1 bitset_container_create)"
| "container_or (Array_c c1) (Bitset_c c2) = Bitset_c (array_bitset_container_union c1 c2 bitset_container_create)"
| "container_or (Bitset_c c1) (Run_c c2) =
     (if run_container_is_full c2 then Run_c (run_container_copy c2 run_container_create)
      else Bitset_c (run_bitset_container_union c2 c1 bitset_container_create))"
| "container_or (Run_c c1) (Bitset_c c2) =
     (if run_container_is_full c1 then Run_c (run_container_copy c1 run_container_create)
      else Bitset_c (run_bitset_container_union c1 c2 bitset_container_create))"
| "container_or (Array_c c1) (Run_c c2) =
     convert_run_to_efficient_container_and_free (array_run_container_union c1 c2 run_container_create)"
| "container_or (Run_c c1) (Array_c c2) =
     convert_run_to_efficient_container_and_free (array_run_container_union c2 c1 run_container_create)"

fun container_lazy_or :: "container_t \<Rightarrow> container_t \<Rightarrow> container_t" where
  "container_lazy_or (Bitset_c c1) (Bitset_c c2) = Bitset_c (bitset_container_or_nocard c1 c2 bitset_container_create)"
| "container_lazy_or (Array_c c1) (Array_c c2) = array_array_container_lazy_union c1 c2"
| "container_lazy_or (Run_c c1) (Run_c c2) =
     convert_run_to_efficient_container_and_free (run_container_union c1 c2 run_container_create)"
| "container_lazy_or (Bitset_c c1) (Array_c c2) = Bitset_c (array_bitset_container_lazy_union c2 c1 bitset_container_create)"
| "container_lazy_or (Array_c c1) (Bitset_c c2) = Bitset_c (array_bitset_container_lazy_union c1 c2 bitset_container_create)"
| "container_lazy_or (Bitset_c c1) (Run_c c2) =
     (if run_container_is_full c2 then Run_c (run_container_copy c2 run_container_create)
      else Bitset_c (run_bitset_container_lazy_union c2 c1 bitset_container_create))"
| "container_lazy_or (Run_c c1) (Bitset_c c2) =
     (if run_container_is_full c1 then Run_c (run_container_copy c1 run_container_create)
      else Bitset_c (run_bitset_container_lazy_union c1 c2 bitset_container_create))"
| "container_lazy_or (Array_c c1) (Run_c c2) = Run_c (array_run_container_union c1 c2 run_container_create)"
| "container_lazy_or (Run_c c1) (Array_c c2) = Run_c (array_run_container_union c2 c1 run_container_create)"

text \<open>\<open>CROARING_OR_BITSET_CONVERSION_TO_FULL\<close> is set: a bitset that becomes full turns into a run.\<close>

fun container_ior :: "container_t \<Rightarrow> container_t \<Rightarrow> container_t" where
  "container_ior (Bitset_c c1) (Bitset_c c2) =
     (let c1' = bitset_container_or c1 c2 c1
      in if bc_cardinality c1' = 65536 then Run_c (run_container_create_range 0 65536) else Bitset_c c1')"
| "container_ior (Array_c c1) (Array_c c2) = array_array_container_inplace_union c1 c2"
| "container_ior (Run_c c1) (Run_c c2) = convert_run_to_efficient_container (run_container_union_inplace c1 c2)"
| "container_ior (Bitset_c c1) (Array_c c2) = Bitset_c (array_bitset_container_union c2 c1 c1)"
| "container_ior (Array_c c1) (Bitset_c c2) = Bitset_c (array_bitset_container_union c1 c2 bitset_container_create)"
| "container_ior (Bitset_c c1) (Run_c c2) =
     (if run_container_is_full c2 then Run_c (run_container_copy c2 run_container_create)
      else Bitset_c (run_bitset_container_union c2 c1 c1))"
| "container_ior (Run_c c1) (Bitset_c c2) =
     (if run_container_is_full c1 then Run_c c1
      else Bitset_c (run_bitset_container_union c1 c2 bitset_container_create))"
| "container_ior (Array_c c1) (Run_c c2) =
     convert_run_to_efficient_container_and_free (array_run_container_union c1 c2 run_container_create)"
| "container_ior (Run_c c1) (Array_c c2) = convert_run_to_efficient_container (array_run_container_inplace_union c2 c1)"

text \<open>\<open>CROARING_LAZY_OR_BITSET_CONVERSION_TO_FULL\<close> is set: two bitsets get their cardinality here too.\<close>

fun container_lazy_ior :: "container_t \<Rightarrow> container_t \<Rightarrow> container_t" where
  "container_lazy_ior (Bitset_c c1) (Bitset_c c2) =
     (let c1' = bitset_container_or c1 c2 c1
      in if bc_cardinality c1' = 65536 then Run_c (run_container_create_range 0 65536) else Bitset_c c1')"
| "container_lazy_ior (Array_c c1) (Array_c c2) = array_array_container_lazy_inplace_union c1 c2"
| "container_lazy_ior (Run_c c1) (Run_c c2) = convert_run_to_efficient_container (run_container_union_inplace c1 c2)"
| "container_lazy_ior (Bitset_c c1) (Array_c c2) = Bitset_c (array_bitset_container_lazy_union c2 c1 c1)"
| "container_lazy_ior (Array_c c1) (Bitset_c c2) = Bitset_c (array_bitset_container_lazy_union c1 c2 bitset_container_create)"
| "container_lazy_ior (Bitset_c c1) (Run_c c2) =
     (if run_container_is_full c2 then Run_c (run_container_copy c2 run_container_create)
      else Bitset_c (run_bitset_container_lazy_union c2 c1 c1))"
| "container_lazy_ior (Run_c c1) (Bitset_c c2) =
     (if run_container_is_full c1 then Run_c c1
      else Bitset_c (run_bitset_container_lazy_union c1 c2 bitset_container_create))"
| "container_lazy_ior (Array_c c1) (Run_c c2) = Run_c (array_run_container_union c1 c2 run_container_create)"
| "container_lazy_ior (Run_c c1) (Array_c c2) = Run_c (array_run_container_inplace_union c2 c1)"

section \<open>Symmetric difference\<close>

fun container_xor :: "container_t \<Rightarrow> container_t \<Rightarrow> container_t" where
  "container_xor (Bitset_c c1) (Bitset_c c2) = bitset_bitset_container_xor c1 c2"
| "container_xor (Array_c c1) (Array_c c2) = array_array_container_xor c1 c2"
| "container_xor (Run_c c1) (Run_c c2) = run_run_container_xor c1 c2"
| "container_xor (Bitset_c c1) (Array_c c2) = array_bitset_container_xor c2 c1"
| "container_xor (Array_c c1) (Bitset_c c2) = array_bitset_container_xor c1 c2"
| "container_xor (Bitset_c c1) (Run_c c2) = run_bitset_container_xor c2 c1"
| "container_xor (Run_c c1) (Bitset_c c2) = run_bitset_container_xor c1 c2"
| "container_xor (Array_c c1) (Run_c c2) = array_run_container_xor c1 c2"
| "container_xor (Run_c c1) (Array_c c2) = array_run_container_xor c2 c1"

text \<open>The pointers \<open>lo\<close> and \<open>hi\<close> that are not \<open>NULL\<close> are the two flags.\<close>

fun container_add_offset :: "container_t \<Rightarrow> bool \<Rightarrow> bool \<Rightarrow> u16 \<Rightarrow> container_t option \<times> container_t option" where
  "container_add_offset (Bitset_c c) lo hi offset =
     (case bitset_container_offset c lo hi offset of (l, h) \<Rightarrow> (map_option Bitset_c l, map_option Bitset_c h))"
| "container_add_offset (Array_c c) lo hi offset =
     (case array_container_offset c lo hi offset of (l, h) \<Rightarrow> (map_option Array_c l, map_option Array_c h))"
| "container_add_offset (Run_c c) lo hi offset =
     (case run_container_offset c lo hi offset of (l, h) \<Rightarrow> (map_option Run_c l, map_option Run_c h))"

fun container_lazy_xor :: "container_t \<Rightarrow> container_t \<Rightarrow> container_t" where
  "container_lazy_xor (Bitset_c c1) (Bitset_c c2) = Bitset_c (bitset_container_xor_nocard c1 c2 bitset_container_create)"
| "container_lazy_xor (Array_c c1) (Array_c c2) = array_array_container_lazy_xor c1 c2"
| "container_lazy_xor (Run_c c1) (Run_c c2) = run_run_container_xor c1 c2"
| "container_lazy_xor (Bitset_c c1) (Array_c c2) = Bitset_c (array_bitset_container_lazy_xor c2 c1 bitset_container_create)"
| "container_lazy_xor (Array_c c1) (Bitset_c c2) = Bitset_c (array_bitset_container_lazy_xor c1 c2 bitset_container_create)"
| "container_lazy_xor (Bitset_c c1) (Run_c c2) = Bitset_c (run_bitset_container_lazy_xor c2 c1 bitset_container_create)"
| "container_lazy_xor (Run_c c1) (Bitset_c c2) = Bitset_c (run_bitset_container_lazy_xor c1 c2 bitset_container_create)"
| "container_lazy_xor (Array_c c1) (Run_c c2) = Run_c (array_run_container_lazy_xor c1 c2 run_container_create)"
| "container_lazy_xor (Run_c c1) (Array_c c2) = Run_c (array_run_container_lazy_xor c2 c1 run_container_create)"

fun container_ixor :: "container_t \<Rightarrow> container_t \<Rightarrow> container_t" where
  "container_ixor (Bitset_c c1) (Bitset_c c2) = bitset_bitset_container_ixor c1 c2"
| "container_ixor (Array_c c1) (Array_c c2) = array_array_container_ixor c1 c2"
| "container_ixor (Run_c c1) (Run_c c2) = run_run_container_ixor c1 c2"
| "container_ixor (Bitset_c c1) (Array_c c2) = bitset_array_container_ixor c1 c2"
| "container_ixor (Array_c c1) (Bitset_c c2) = array_bitset_container_ixor c1 c2"
| "container_ixor (Bitset_c c1) (Run_c c2) = bitset_run_container_ixor c1 c2"
| "container_ixor (Run_c c1) (Bitset_c c2) = run_bitset_container_ixor c1 c2"
| "container_ixor (Array_c c1) (Run_c c2) = array_run_container_ixor c1 c2"
| "container_ixor (Run_c c1) (Array_c c2) = run_array_container_ixor c1 c2"

text \<open>Only two bitsets are treated lazily; a bitset of unknown cardinality is counted first.\<close>

definition with_known_cardinality :: "bitset_container \<Rightarrow> bitset_container" where
  "with_known_cardinality bc =
     (if bc_cardinality bc = BITSET_UNKNOWN_CARDINALITY
      then bc\<lparr>bc_cardinality := bitset_container_compute_cardinality bc\<rparr> else bc)"

fun container_lazy_ixor :: "container_t \<Rightarrow> container_t \<Rightarrow> container_t" where
  "container_lazy_ixor (Bitset_c c1) (Bitset_c c2) = Bitset_c (bitset_container_xor_nocard c1 c2 c1)"
| "container_lazy_ixor (Bitset_c c1) c2 = container_ixor (Bitset_c (with_known_cardinality c1)) c2"
| "container_lazy_ixor c1 c2 = container_ixor c1 c2"

section \<open>Difference\<close>

fun container_andnot :: "container_t \<Rightarrow> container_t \<Rightarrow> container_t" where
  "container_andnot (Bitset_c c1) (Bitset_c c2) = bitset_bitset_container_andnot c1 c2"
| "container_andnot (Array_c c1) (Array_c c2) = Array_c (array_array_container_andnot c1 c2 array_container_create)"
| "container_andnot (Run_c c1) (Run_c c2) =
     (if run_container_is_full c2 then Array_c array_container_create else run_run_container_andnot c1 c2)"
| "container_andnot (Bitset_c c1) (Array_c c2) = bitset_array_container_andnot c1 c2"
| "container_andnot (Array_c c1) (Bitset_c c2) = Array_c (array_bitset_container_andnot c1 c2 array_container_create)"
| "container_andnot (Bitset_c c1) (Run_c c2) =
     (if run_container_is_full c2 then Array_c array_container_create else bitset_run_container_andnot c1 c2)"
| "container_andnot (Run_c c1) (Bitset_c c2) = run_bitset_container_andnot c1 c2"
| "container_andnot (Array_c c1) (Run_c c2) =
     (if run_container_is_full c2 then Array_c array_container_create
      else Array_c (array_run_container_andnot c1 c2 array_container_create))"
| "container_andnot (Run_c c1) (Array_c c2) = run_array_container_andnot c1 c2"

fun container_iandnot :: "container_t \<Rightarrow> container_t \<Rightarrow> container_t" where
  "container_iandnot (Bitset_c c1) (Bitset_c c2) = bitset_bitset_container_iandnot c1 c2"
| "container_iandnot (Array_c c1) (Array_c c2) = Array_c (array_array_container_iandnot c1 c2)"
| "container_iandnot (Run_c c1) (Run_c c2) = run_run_container_iandnot c1 c2"
| "container_iandnot (Bitset_c c1) (Array_c c2) = bitset_array_container_iandnot c1 c2"
| "container_iandnot (Array_c c1) (Bitset_c c2) = Array_c (array_bitset_container_iandnot c1 c2)"
| "container_iandnot (Bitset_c c1) (Run_c c2) = bitset_run_container_iandnot c1 c2"
| "container_iandnot (Run_c c1) (Bitset_c c2) = run_bitset_container_iandnot c1 c2"
| "container_iandnot (Array_c c1) (Run_c c2) = Array_c (array_run_container_iandnot c1 c2)"
| "container_iandnot (Run_c c1) (Array_c c2) = run_array_container_iandnot c1 c2"

section \<open>Iteration, complement and order queries\<close>

fun container_iterate :: "container_t \<Rightarrow> u32 \<Rightarrow> (u32 \<Rightarrow> 's \<Rightarrow> bool \<times> 's) \<Rightarrow> 's \<Rightarrow> bool \<times> 's" where
  "container_iterate (Bitset_c c) base iterator ptr = bitset_container_iterate c base iterator ptr"
| "container_iterate (Array_c c) base iterator ptr = array_container_iterate c base iterator ptr"
| "container_iterate (Run_c c) base iterator ptr = run_container_iterate c base iterator ptr"

fun container_iterate64 :: "container_t \<Rightarrow> u32 \<Rightarrow> (u64 \<Rightarrow> 's \<Rightarrow> bool \<times> 's) \<Rightarrow> u64 \<Rightarrow> 's \<Rightarrow> bool \<times> 's" where
  "container_iterate64 (Bitset_c c) base iterator high_bits ptr = bitset_container_iterate64 c base iterator high_bits ptr"
| "container_iterate64 (Array_c c) base iterator high_bits ptr = array_container_iterate64 c base iterator high_bits ptr"
| "container_iterate64 (Run_c c) base iterator high_bits ptr = run_container_iterate64 c base iterator high_bits ptr"

fun container_not :: "container_t \<Rightarrow> container_t" where
  "container_not (Bitset_c c) = bitset_container_negation c"
| "container_not (Array_c c) = Bitset_c (array_container_negation c bitset_container_create)"
| "container_not (Run_c c) = run_container_negation c"

text \<open>The \<open>uint32_t\<close> bounds are passed as \<open>int\<close>.\<close>

fun container_not_range :: "container_t \<Rightarrow> u32 \<Rightarrow> u32 \<Rightarrow> container_t" where
  "container_not_range (Bitset_c c) range_start range_end = bitset_container_negation_range c (sint range_start) (sint range_end)"
| "container_not_range (Array_c c) range_start range_end = array_container_negation_range c (sint range_start) (sint range_end)"
| "container_not_range (Run_c c) range_start range_end = run_container_negation_range c (sint range_start) (sint range_end)"

fun container_inot :: "container_t \<Rightarrow> container_t" where
  "container_inot (Bitset_c c) = bitset_container_negation_inplace c"
| "container_inot (Array_c c) = Bitset_c (array_container_negation c bitset_container_create)"
| "container_inot (Run_c c) = run_container_negation_inplace c"

fun container_inot_range :: "container_t \<Rightarrow> u32 \<Rightarrow> u32 \<Rightarrow> container_t" where
  "container_inot_range (Bitset_c c) range_start range_end =
     bitset_container_negation_range_inplace c (sint range_start) (sint range_end)"
| "container_inot_range (Array_c c) range_start range_end =
     array_container_negation_range_inplace c (sint range_start) (sint range_end)"
| "container_inot_range (Run_c c) range_start range_end =
     run_container_negation_range_inplace c (sint range_start) (sint range_end)"

text \<open>\<open>Inr\<close> is the element that was found, \<open>Inl\<close> the \<open>start_rank\<close> for the next container.\<close>

fun container_select :: "container_t \<Rightarrow> u32 \<Rightarrow> u32 \<Rightarrow> u32 + u32" where
  "container_select (Bitset_c c) start_rank rank = bitset_container_select c start_rank rank"
| "container_select (Array_c c) start_rank rank = array_container_select c start_rank rank"
| "container_select (Run_c c) start_rank rank = run_container_select c start_rank rank"

fun container_maximum :: "container_t \<Rightarrow> u16" where
  "container_maximum (Bitset_c c) = bitset_container_maximum c"
| "container_maximum (Array_c c) = array_container_maximum c"
| "container_maximum (Run_c c) = run_container_maximum c"

fun container_minimum :: "container_t \<Rightarrow> u16" where
  "container_minimum (Bitset_c c) = bitset_container_minimum c"
| "container_minimum (Array_c c) = array_container_minimum c"
| "container_minimum (Run_c c) = run_container_minimum c"

fun container_rank :: "container_t \<Rightarrow> u16 \<Rightarrow> int" where
  "container_rank (Bitset_c c) x = int (bitset_container_rank c x)"
| "container_rank (Array_c c) x = array_container_rank c x"
| "container_rank (Run_c c) x = int (run_container_rank c x)"

fun container_rank_many :: "container_t \<Rightarrow> u64 \<Rightarrow> u32 list \<Rightarrow> nat \<times> u64 list" where
  "container_rank_many (Bitset_c c) start_rank queries = bitset_container_rank_many c start_rank queries"
| "container_rank_many (Array_c c) start_rank queries = array_container_rank_many c start_rank queries"
| "container_rank_many (Run_c c) start_rank queries = run_container_rank_many c start_rank queries"

fun container_get_index :: "container_t \<Rightarrow> u16 \<Rightarrow> int" where
  "container_get_index (Bitset_c c) x = bitset_container_get_index c x"
| "container_get_index (Array_c c) x = array_container_get_index c x"
| "container_get_index (Run_c c) x = run_container_get_index c x"

section \<open>Ranges\<close>

text \<open>All values from \<open>lo\<close> to \<open>hi\<close> are added; \<open>max - min + 1\<close> is computed on 32 bits.\<close>

fun container_add_range :: "container_t \<Rightarrow> u32 \<Rightarrow> u32 \<Rightarrow> container_t" where
  "container_add_range (Bitset_c bitset) lo hi =
     (let union_cardinality = bc_cardinality bitset + uint (hi - lo + 1)
            - int (bitset_lenrange_cardinality (bc_words bitset) lo (hi - lo))
      in if union_cardinality = 65536 then Run_c (run_container_create_range 0 65536)
         else Bitset_c (bitset\<lparr>bc_words := bitset_set_lenrange (bc_words bitset) lo (hi - lo),
                               bc_cardinality := union_cardinality\<rparr>))"
| "container_add_range (Array_c arr) lo hi =
     (let nvals_greater = count_greater (ac_array arr) (nat (ac_cardinality arr)) (ucast hi);
          nvals_less = int (count_less (ac_array arr) (nat (ac_cardinality arr - nvals_greater)) (ucast lo));
          union_cardinality = nvals_less + uint (hi - lo + 1) + nvals_greater
      in if union_cardinality = 65536 then Run_c (run_container_create_range 0 65536)
         else if union_cardinality \<le> DEFAULT_MAX_SIZE
         then Array_c (array_container_add_range_nvals arr lo hi nvals_less nvals_greater)
         else let bitset = bitset_container_from_array arr
              in Bitset_c (bitset\<lparr>bc_words := bitset_set_lenrange (bc_words bitset) lo (hi - lo),
                                  bc_cardinality := union_cardinality\<rparr>))"
| "container_add_range (Run_c run) lo hi =
     (let nruns_greater = rle16_count_greater (rc_runs run) (nat (rc_n_runs run)) (ucast hi);
          nruns_less = rle16_count_less (rc_runs run) (nat (rc_n_runs run - nruns_greater)) (ucast lo);
          run_size_bytes = (nruns_less + 1 + nruns_greater) * 4;
          bitset_size_bytes = 1024 * 8
      in if run_size_bytes \<le> bitset_size_bytes
         then Run_c (run_container_add_range_nruns run lo hi nruns_less nruns_greater)
         else container_from_run_range run lo hi)"

text \<open>\<open>None\<close> is the \<open>NULL\<close> that says that no value is left.\<close>

fun container_remove_range :: "container_t \<Rightarrow> u32 \<Rightarrow> u32 \<Rightarrow> container_t option" where
  "container_remove_range (Bitset_c bitset) lo hi =
     (let result_cardinality = bc_cardinality bitset - int (bitset_lenrange_cardinality (bc_words bitset) lo (hi - lo));
          bitset' = bitset\<lparr>bc_words := bitset_reset_range (bc_words bitset) lo (hi + 1), bc_cardinality := result_cardinality\<rparr>
      in if result_cardinality = 0 then None
         else if result_cardinality \<le> DEFAULT_MAX_SIZE then Some (Array_c (array_container_from_bitset bitset'))
         else Some (Bitset_c bitset'))"
| "container_remove_range (Array_c arr) lo hi =
     (let nvals_greater = count_greater (ac_array arr) (nat (ac_cardinality arr)) (ucast hi);
          nvals_less = int (count_less (ac_array arr) (nat (ac_cardinality arr - nvals_greater)) (ucast lo));
          result_cardinality = nvals_less + nvals_greater
      in if result_cardinality = 0 then None
         else Some (Array_c (array_container_remove_range arr (of_int nvals_less)
                (of_int (ac_cardinality arr - result_cardinality)))))"
| "container_remove_range (Run_c run) lo hi =
     (if rc_n_runs run = 0 then None
      else if lo \<le> ucast (run_container_minimum run) \<and> hi \<ge> ucast (run_container_maximum run) then None
      else Some (convert_run_to_efficient_container (run_container_remove_range run lo hi)))"

end
