(* ===== verification/Containers_Correct.thy ===== *)
theory Containers_Correct
  imports Containers
begin

text \<open>
  The dispatched operations on \<open>container_t\<close> compute the set operations of their arguments and keep
  the canonical form, whatever the types of the two containers are; the lazy ones keep
  \<open>container_lazy_inv\<close>, which \<open>container_repair_after_lazy\<close> turns back into the canonical form.
\<close>

section \<open>Canonical and lazy containers\<close>

text \<open>A container in the middle of a chain of lazy operations.\<close>

fun container_lazy_ok :: "container_t \<Rightarrow> bool" where
  "container_lazy_ok (Bitset_c b) \<longleftrightarrow> bitset_lazy_inv b"
| "container_lazy_ok (Array_c a) \<longleftrightarrow> array_inv a \<and> ac_cardinality a \<le> 4096"
| "container_lazy_ok (Run_c r) \<longleftrightarrow> run_inv r"

lemma container_inv_lazy: "container_inv c \<Longrightarrow> container_lazy_ok c"
  by (cases c) (auto simp: bitset_lazy_inv_def bitset_inv_def)

lemma bitset_lazy_wf: "bitset_lazy_inv b \<Longrightarrow> bitset_wf b" "bitset_inv b \<Longrightarrow> bitset_lazy_inv b"
  by (auto simp: bitset_lazy_inv_def bitset_inv_def)

lemma bitset_superset_big:
  "bitset_inv b \<Longrightarrow> bitset_inv c \<Longrightarrow> 4096 < bc_cardinality c \<Longrightarrow> bitset_abs c \<subseteq> bitset_abs b \<Longrightarrow> 4096 < bc_cardinality b"
  using card_mono [of "bitset_abs b" "bitset_abs c"] by (simp add: bitset_inv_def)

lemma full_iff_card: "S = UNIV \<longleftrightarrow> card S = 65536" for S :: "u16 set"
  using card_subset_eq [of UNIV S] by (auto simp: card_word)

lemma container_cardinality_abs: "container_inv c \<Longrightarrow> container_get_cardinality c = int (card (container_abs c))"
  by (cases c) (simp_all add: bitset_inv_def array_inv_card rc.cardinality_abs)

lemma container_contains_correct: "container_lazy_ok c \<Longrightarrow> container_contains c x \<longleftrightarrow> x \<in> container_abs c"
  by (cases c) (simp_all add: array_contains_correct run_contains_correct bitset_lazy_wf
      bitset_contains_correct [unfolded bitset_container_contains_def])

lemma container_nonzero_correct:
  assumes "container_lazy_ok c"
  shows "container_nonzero_cardinality c \<longleftrightarrow> container_abs c \<noteq> {}"
proof (cases c)
  case (Array_c a)
  then show ?thesis using assms array_inv_card [of a]
    by (simp add: array_container_nonzero_cardinality_def card_gt_0_iff)
qed (use assms in \<open>simp_all add: bitset_container_const_nonzero_cardinality_def bitset_container_empty_correct run_empty_correct(2)\<close>)

lemma container_is_full_correct:
  assumes "container_inv c"
  shows "container_is_full c \<longleftrightarrow> container_abs c = UNIV"
  using assms by (cases c) (simp_all add: run_full_iff bitset_inv_def full_iff_card array_inv_card)

lemma container_to_bitset_correct:
  "container_inv c \<Longrightarrow> bitset_inv (container_to_bitset c) \<and> bitset_abs (container_to_bitset c) = container_abs c"
  by (cases c) (simp_all add: bitset_from_array_correct bitset_from_run_correct)

lemma container_clone_correct:
  "container_inv c \<Longrightarrow> container_inv (container_clone c) \<and> container_abs (container_clone c) = container_abs c"
  by (cases c) (auto simp: bitset_clone_eq run_clone_eq array_container_clone_def array_inv_def array_abs_def
      array_container_create_given_capacity_def)

lemma container_repair_correct:
  assumes "container_lazy_ok c"
  shows "container_inv (container_repair_after_lazy c) \<and> container_abs (container_repair_after_lazy c) = container_abs c"
proof (cases c)
  case (Bitset_c b)
  let ?b = "b\<lparr>bc_cardinality := bitset_container_compute_cardinality b\<rparr>"
  have "bitset_wf b" using assms Bitset_c by (simp add: bitset_lazy_wf)
  then have "bitset_inv ?b" and "bitset_abs ?b = bitset_abs b"
    by (simp_all add: bitset_inv_def bitset_wf_def bitset_abs_def compute_cardinality_correct)
  moreover have "container_repair_after_lazy c = bitset_or_array ?b"
    by (simp add: Bitset_c bitset_or_array_def)
  ultimately show ?thesis using bitset_or_array_correct [of ?b] by (simp add: Bitset_c)
qed (use assms in \<open>simp_all add: convert_run_and_free_correct\<close>)

section \<open>Single values\<close>

lemma container_add_correct:
  assumes "container_inv c"
  shows "container_inv (container_add c x) \<and> container_abs (container_add c x) = insert x (container_abs c)"
proof (cases c)
  case (Bitset_c b)
  then have b: "bitset_inv b" "4096 < bc_cardinality b" using assms by simp_all
  have "4096 < bc_cardinality (fst (bitset_container_add b x))"
    using bitset_superset_big [OF _ b(1,2)] bitset_add_correct [OF b(1), of x] by blast
  then show ?thesis using bitset_add_correct [OF b(1), of x] by (simp add: Bitset_c bitset_set_eq_add)
next
  case (Array_c a)
  then have a: "array_inv a" "ac_cardinality a \<le> 4096" using assms by simp_all
  obtain a' r where r: "array_container_try_add a x 4096 = (a', r)" by (cases "array_container_try_add a x 4096")
  note t = array_try_add_correct [OF a(1) r]
  show ?thesis
  proof (cases "r = - 1")
    case True
    then have x: "x \<notin> array_abs a" "\<not> ac_cardinality a < 4096" and a': "array_inv a'" "array_abs a' = array_abs a"
      using t by (simp_all split: if_splits)
    let ?b = "bitset_container_from_array a'"
    have b: "bitset_inv ?b" "bitset_abs ?b = array_abs a" using bitset_from_array_correct [OF a'(1)] a'(2) by simp_all
    note add = bitset_add_correct [OF b(1), of x]
    have "bc_cardinality (fst (bitset_container_add ?b x)) = int (card (insert x (array_abs a)))"
      using add b(2) by (metis bitset_inv_def)
    moreover have "ac_cardinality a = int (card (array_abs a))" using array_inv_card [OF a(1)] .
    ultimately have "4096 < bc_cardinality (fst (bitset_container_add ?b x))" using x by simp
    then show ?thesis using add b(2) True by (simp add: Array_c r)
  next
    case False
    have "ac_cardinality a' \<le> 4096"
      using t a False array_inv_card [OF a(1)] array_inv_card [OF t(1)] by (auto simp: card_insert_if split: if_splits)
    moreover have "array_abs a' = insert x (array_abs a)" using t False by (auto split: if_splits)
    ultimately show ?thesis using t(1) False by (simp add: Array_c r)
  qed
next
  case (Run_c r)
  then show ?thesis using assms run_add_correct [of r x] by simp
qed

lemma container_remove_correct:
  assumes "container_inv c"
  shows "container_inv (container_remove c x) \<and> container_abs (container_remove c x) = container_abs c - {x}"
proof (cases c)
  case (Bitset_c b)
  then have b: "bitset_inv b" "4096 < bc_cardinality b" using assms by simp_all
  obtain b' r where r: "bitset_container_remove b x = (b', r)" by (cases "bitset_container_remove b x")
  have b': "bitset_inv b'" "bitset_abs b' = bitset_abs b - {x}" "r \<longleftrightarrow> x \<in> bitset_abs b"
    using bitset_remove_correct [OF b(1), of x] r by simp_all
  have "bc_cardinality b' = bc_cardinality b" if "\<not> r"
    using b'(1-3) b(1) that by (simp add: bitset_inv_def)
  then show ?thesis
    using b(2) b'(1,2) array_from_bitset_correct [OF b'(1)] by (cases r; cases "bc_cardinality b' \<le> 4096") (simp_all add: Bitset_c r)
next
  case (Array_c a)
  then have a: "array_inv a" "ac_cardinality a \<le> 4096" using assms by simp_all
  note rem = array_remove_correct [OF a(1), of x]
  then have "ac_cardinality (fst (array_container_remove a x)) \<le> 4096"
    using array_inv_card [of "fst (array_container_remove a x)"] array_inv_card [OF a(1)] a(2)
      card_mono [of "array_abs a" "array_abs a - {x}"] by auto
  then show ?thesis using rem by (simp add: Array_c)
next
  case (Run_c r)
  then show ?thesis using assms run_remove_correct [of r x] by simp
qed

text \<open>
  The tagged container is a container in the sense of \<open>Container_Spec\<close>, as the three types it
  stands for are; the callers find out whether an element is new by a test before the update.
\<close>

interpretation ct: container container_inv container_abs container_contains
  "\<lambda>c x. (container_add c x, \<not> container_contains c x)" "\<lambda>c x. (container_remove c x, container_contains c x)"
  container_get_cardinality
  by unfold_locales
    (simp_all add: container_contains_correct container_inv_lazy container_add_correct container_remove_correct
      container_cardinality_abs)

lemma container_contains_range_correct:
  assumes "container_inv c" and "unat s < unat e" and "unat e \<le> 65536"
  shows "container_contains_range c s e \<longleftrightarrow> u16_range (unat s) (unat e) \<subseteq> container_abs c"
proof (cases c)
  case (Run_c r)
  have "(\<forall>v \<in> {unat s ..< unat e}. covers (rc_runs r) v) \<longleftrightarrow> u16_range (unat s) (unat e) \<subseteq> run_abs r"
  proof
    assume "\<forall>v \<in> {unat s ..< unat e}. covers (rc_runs r) v"
    then show "u16_range (unat s) (unat e) \<subseteq> run_abs r" by (auto simp: u16_range_def run_abs_def)
  next
    assume sub: "u16_range (unat s) (unat e) \<subseteq> run_abs r"
    show "\<forall>v \<in> {unat s ..< unat e}. covers (rc_runs r) v"
    proof
      fix v assume v: "v \<in> {unat s ..< unat e}"
      then have n: "unat (word_of_nat v :: u16) = v" using assms(3) by simp
      then have "word_of_nat v \<in> u16_range (unat s) (unat e)" using v by (simp add: u16_range_def)
      then show "covers (rc_runs r) v" using subsetD [OF sub, of "word_of_nat v"] n by (simp add: run_abs_def)
    qed
  qed
  then show ?thesis using assms run_contains_range_correct [of r s e] by (simp add: Run_c)
qed (use assms in \<open>simp_all add: bitset_get_range_correct bitset_inv_wf array_contains_range_correct\<close>)

section \<open>Comparisons\<close>

lemma container_equals_correct:
  assumes "container_lazy_ok a" and "container_lazy_ok b"
  shows "container_equals a b \<longleftrightarrow> container_abs a = container_abs b"
  using assms by (cases a; cases b)
    (auto simp: bitset_equals_correct run_equals_bitset_correct array_equal_bitset_correct run_equals_array_correct
      array_equals_correct run_equals_correct)

lemma container_is_subset_correct:
  assumes "container_inv a" and "container_inv b"
  shows "container_is_subset a b \<longleftrightarrow> container_abs a \<subseteq> container_abs b"
proof -
  have "\<not> bitset_abs c \<subseteq> array_abs d" if "bitset_inv c" "4096 < bc_cardinality c" "array_inv d" "ac_cardinality d \<le> 4096" for c d
    using card_mono [of "array_abs d" "bitset_abs c"] that array_inv_card [of d] by (auto simp: bitset_inv_def)
  then show ?thesis using assms by (cases a; cases b)
    (simp_all add: bitset_is_subset_correct bitset_subset_run_correct run_subset_bitset_correct array_subset_bitset_correct
      array_subset_run_correct run_subset_array_correct array_is_subset_correct run_is_subset_correct bitset_lazy_wf)
qed

lemma container_intersect_correct:
  assumes "container_inv a" and "container_inv b"
  shows "container_intersect a b \<longleftrightarrow> container_abs a \<inter> container_abs b \<noteq> {}"
  using assms by (cases a; cases b)
    (simp_all add: bitset_intersect_correct array_intersection_cardinality_correct run_intersect_correct bitset_inv_wf
      array_bitset_intersection_correct run_bitset_intersection_counts array_run_intersection_counts Int_commute)

lemma container_and_cardinality_correct:
  assumes "container_inv a" and "container_inv b"
  shows "container_and_cardinality a b = int (card (container_abs a \<inter> container_abs b))"
  using assms by (cases a; cases b)
    (simp_all add: bitset_justcard_correct array_intersection_cardinality_correct run_intersection_cardinality_correct
      bitset_inv_wf array_bitset_intersection_correct run_bitset_intersection_counts array_run_intersection_counts Int_commute)

interpretation container_subset: set_test container_inv container_abs container_inv container_abs container_is_subset "(\<subseteq>)"
  by unfold_locales (rule container_is_subset_correct)

interpretation container_same: set_test container_lazy_ok container_abs container_lazy_ok container_abs container_equals "(=)"
  by unfold_locales (rule container_equals_correct)

interpretation container_meet: set_test container_inv container_abs container_inv container_abs container_intersect
  "\<lambda>S T. S \<inter> T \<noteq> {}"
  by unfold_locales (rule container_intersect_correct)

section \<open>Intersection\<close>

lemma array_small: "array_inv c \<Longrightarrow> array_inv a \<Longrightarrow> ac_cardinality a \<le> 4096 \<Longrightarrow> array_abs c \<subseteq> array_abs a \<Longrightarrow> ac_cardinality c \<le> 4096"
  using card_mono [of "array_abs a" "array_abs c"] by (simp add: array_inv_card)

lemma array_array_intersection_small:
  assumes "array_inv a" and "array_inv b" and "ac_cardinality a \<le> 4096"
  shows "ac_cardinality (array_container_intersection a b out) \<le> 4096"
    and "ac_cardinality (array_container_intersection_inplace a b) \<le> 4096"
  by (rule array_small [OF _ assms(1,3)]; simp add: array_intersection_correct [OF assms(1,2)])+

lemma array_create_intersection:
  assumes "array_inv a" and "run_inv r"
  shows "array_inv (array_run_container_intersection a r array_container_create)"
    and "array_abs (array_run_container_intersection a r array_container_create) = array_abs a \<inter> run_abs r"
    and "ac_cardinality (array_run_container_intersection a r array_container_create) \<le> ac_cardinality a"
  using array_run_intersection_correct [OF assms, of array_container_create 0] by (simp_all add: array_container_create_def)

lemmas and_cases = bitset_bitset_intersection_correct array_intersection_correct array_array_intersection_small
  convert_run_and_free_correct run_intersection_correct array_bitset_intersection_correct(1,2)
  order_trans [OF array_bitset_intersection_correct(3)] run_bitset_intersection_correct
  array_create_intersection(1,2) order_trans [OF array_create_intersection(3)] bitset_inv_wf Int_commute

lemma container_and_correct:
  assumes "container_inv a" and "container_inv b"
  shows "container_inv (container_and a b) \<and> container_abs (container_and a b) = container_abs a \<inter> container_abs b"
  using assms by (cases a; cases b) (simp_all add: and_cases)

lemma container_iand_correct:
  assumes "container_inv a" and "container_inv b"
  shows "container_inv (container_iand a b) \<and> container_abs (container_iand a b) = container_abs a \<inter> container_abs b"
  using assms by (cases a; cases b) (simp_all add: and_cases)

section \<open>Union\<close>

text \<open>The unions of runs read the first run of each side: no container of a bitmap is empty.\<close>

lemma bitset_or_simps:
  assumes "bitset_wf a" and "bitset_wf b"
  shows "bitset_inv (bitset_container_or a b dst)" and "bitset_abs (bitset_container_or a b dst) = bitset_abs a \<union> bitset_abs b"
    and "bitset_lazy_inv (bitset_container_or_nocard a b dst)"
    and "bitset_abs (bitset_container_or_nocard a b dst) = bitset_abs a \<union> bitset_abs b"
  using bitset_or.oper_inv [OF assms] bitset_or.oper_abs [OF assms]
    bitset_or_nocard.oper_inv [OF assms] bitset_or_nocard.oper_abs [OF assms] by auto

lemma bitset_union_big:
  assumes b: "bitset_inv b" "4096 < bc_cardinality b"
  shows "bitset_inv a \<Longrightarrow> 4096 < bc_cardinality (bitset_container_or a b dst)"
    and "array_inv c \<Longrightarrow> 4096 < bc_cardinality (array_bitset_container_union c b dst)"
    and "run_inv r \<Longrightarrow> \<not> run_container_is_full r \<Longrightarrow> 4096 < bc_cardinality (run_bitset_container_union r b dst)"
proof -
  show "bitset_inv a \<Longrightarrow> 4096 < bc_cardinality (bitset_container_or a b dst)"
    by (rule bitset_superset_big [OF _ b]) (simp_all add: bitset_or_simps bitset_inv_wf b(1))
  show "array_inv c \<Longrightarrow> 4096 < bc_cardinality (array_bitset_container_union c b dst)"
    by (rule bitset_superset_big [OF _ b]) (simp_all add: array_bitset_union_correct b(1))
  show "run_inv r \<Longrightarrow> \<not> run_container_is_full r \<Longrightarrow> 4096 < bc_cardinality (run_bitset_container_union r b dst)"
    by (rule bitset_superset_big [OF _ b]) (simp_all add: run_bitset_union_correct bitset_inv_wf b(1))
qed

lemma run_full_abs: "run_inv r \<Longrightarrow> run_container_is_full r \<Longrightarrow> run_abs r = UNIV"
  using run_full_iff by blast

lemma array_run_union_create:
  assumes "array_inv a" "run_inv r" "array_abs a \<noteq> {}" "run_abs r \<noteq> {}"
  shows "run_inv (array_run_container_union a r run_container_create)"
    and "run_abs (array_run_container_union a r run_container_create) = array_abs a \<union> run_abs r"
    and "run_inv (array_run_container_inplace_union a r)"
    and "run_abs (array_run_container_inplace_union a r) = array_abs a \<union> run_abs r"
  using array_run_union_correct(1) [OF assms, of run_container_create] array_run_union_correct(2) [OF assms]
  by (simp_all add: run_container_create_def run_container_create_given_capacity_def)

lemma full_run:
  "run_inv (run_container_create_range 0 65536)" "run_abs (run_container_create_range 0 65536) = UNIV"
  using run_create_range_correct [of 0 65536] unat_u16_less by auto

lemma full_bitset_abs: "bitset_inv b \<Longrightarrow> bc_cardinality b = 65536 \<Longrightarrow> bitset_abs b = UNIV"
  by (simp add: bitset_inv_def full_iff_card)

lemmas or_cases = array_array_union_correct array_array_inplace_union_correct convert_run_and_free_correct
  convert_run_to_efficient_correct run_union_correct array_run_union_create
  array_bitset_union_correct run_bitset_union_correct bitset_inv_wf run_copy_correct run_full_abs bitset_or_simps
  bitset_union_big full_run Un_commute

lemma container_or_correct:
  assumes "container_inv a" and "container_inv b" and "container_abs a \<noteq> {}" and "container_abs b \<noteq> {}"
  shows "container_inv (container_or a b) \<and> container_abs (container_or a b) = container_abs a \<union> container_abs b"
  using assms by (cases a; cases b) (simp_all add: or_cases)

lemma bitset_ior_full:
  assumes "bitset_wf a" "bitset_wf b" and "bc_cardinality (bitset_container_or a b dst) = 65536"
  shows "bitset_abs a \<union> bitset_abs b = UNIV"
  using full_bitset_abs [OF _ assms(3)] bitset_or_simps(1,2) [OF assms(1,2), of dst] by simp

lemma container_ior_correct:
  assumes "container_inv a" and "container_inv b" and "container_abs a \<noteq> {}" and "container_abs b \<noteq> {}"
  shows "container_inv (container_ior a b) \<and> container_abs (container_ior a b) = container_abs a \<union> container_abs b"
  using assms by (cases a; cases b) (simp_all add: or_cases Let_def bitset_ior_full)

section \<open>Lazy unions\<close>

lemma lazy_ok_sum:
  assumes inv: "array_inv a" "array_inv b" and c: "container_lazy_inv c" "container_abs c \<subseteq> array_abs a \<union> array_abs b"
    and small: "\<And>d. c = Array_c d \<Longrightarrow> ac_cardinality a + ac_cardinality b \<le> 4096"
  shows "container_lazy_ok c"
proof (cases c)
  case (Array_c d)
  have "card (array_abs d) \<le> card (array_abs a \<union> array_abs b)" using c(2) Array_c by (intro card_mono) simp_all
  also have "\<dots> \<le> card (array_abs a) + card (array_abs b)" by (rule card_Un_le)
  finally show ?thesis
    using small [OF Array_c] array_inv_card [of d] array_inv_card [OF inv(1)] array_inv_card [OF inv(2)] c(1) Array_c by simp
qed (use c in simp_all)

lemma array_lazy_union_small:
  assumes inv: "array_inv a" "array_inv b"
  shows "container_lazy_ok (array_array_container_lazy_union a b) \<and>
       container_abs (array_array_container_lazy_union a b) = array_abs a \<union> array_abs b"
    and "container_lazy_ok (array_array_container_lazy_inplace_union a b) \<and>
       container_abs (array_array_container_lazy_inplace_union a b) = array_abs a \<union> array_abs b"
proof -
  have "array_array_container_lazy_union a b = Array_c d \<Longrightarrow> ac_cardinality a + ac_cardinality b \<le> 4096"
    and "array_array_container_lazy_inplace_union a b = Array_c d \<Longrightarrow> ac_cardinality a + ac_cardinality b \<le> 4096" for d
    by (auto simp: array_array_container_lazy_union_def array_array_container_lazy_inplace_union_def Let_def split: if_splits)
  then show "container_lazy_ok (array_array_container_lazy_union a b) \<and>
       container_abs (array_array_container_lazy_union a b) = array_abs a \<union> array_abs b"
    and "container_lazy_ok (array_array_container_lazy_inplace_union a b) \<and>
       container_abs (array_array_container_lazy_inplace_union a b) = array_abs a \<union> array_abs b"
    using lazy_ok_sum [OF inv] array_array_lazy_union_correct [OF inv] by (metis order_refl)+
qed

lemmas lazy_or_cases = array_lazy_union_small convert_run_and_free_correct convert_run_to_efficient_correct container_inv_lazy
  run_union_correct array_run_union_create array_bitset_lazy_union_correct run_bitset_union_correct bitset_lazy_wf bitset_inv_wf
  run_copy_correct run_full_abs bitset_or_simps full_run Un_commute

lemma container_lazy_or_correct:
  assumes "container_lazy_ok a" and "container_lazy_ok b" and "container_abs a \<noteq> {}" and "container_abs b \<noteq> {}"
  shows "container_lazy_ok (container_lazy_or a b) \<and> container_abs (container_lazy_or a b) = container_abs a \<union> container_abs b"
  using assms by (cases a; cases b) (simp_all add: lazy_or_cases)

lemma container_lazy_ior_correct:
  assumes "container_lazy_ok a" and "container_lazy_ok b" and "container_abs a \<noteq> {}" and "container_abs b \<noteq> {}"
  shows "container_lazy_ok (container_lazy_ior a b) \<and> container_abs (container_lazy_ior a b) = container_abs a \<union> container_abs b"
  using assms by (cases a; cases b) (simp_all add: lazy_or_cases Let_def bitset_ior_full)

section \<open>Symmetric difference\<close>

lemmas xor_cases = bitset_bitset_xor_correct array_array_xor_correct run_run_xor_correct array_bitset_xor_correct
  run_bitset_xor_correct array_run_xor_correct bitset_array_ixor_correct bitset_inv_wf xor_inplace_defs Un_commute

lemma container_xor_correct:
  assumes "container_inv a" and "container_inv b"
  shows "container_inv (container_xor a b) \<and> container_abs (container_xor a b) = sym_diff (container_abs a) (container_abs b)"
  using assms by (cases a; cases b) (simp_all add: xor_cases)

lemma container_ixor_correct:
  assumes "container_inv a" and "container_inv b"
  shows "container_inv (container_ixor a b) \<and> container_abs (container_ixor a b) = sym_diff (container_abs a) (container_abs b)"
  using assms by (cases a; cases b) (simp_all add: xor_cases)

lemma array_lazy_xor_small:
  assumes inv: "array_inv a" "array_inv b"
  shows "container_lazy_ok (array_array_container_lazy_xor a b) \<and>
       container_abs (array_array_container_lazy_xor a b) = sym_diff (array_abs a) (array_abs b)"
proof -
  have "array_array_container_lazy_xor a b = Array_c d \<Longrightarrow> ac_cardinality a + ac_cardinality b \<le> 4096" for d
    by (auto simp: array_array_container_lazy_xor_def Let_def split: if_splits)
  then show ?thesis using lazy_ok_sum [OF inv] array_array_xor_correct(3,4) [OF inv] by blast
qed

lemma bitset_xor_lazy:
  assumes "bitset_wf a" and "bitset_wf b"
  shows "bitset_lazy_inv (bitset_container_xor_nocard a b dst)"
    and "bitset_abs (bitset_container_xor_nocard a b dst) = sym_diff (bitset_abs a) (bitset_abs b)"
proof -
  have x: "bitwise (XOR) (\<noteq>)" by (simp add: bitwise_def bit_xor_iff)
  show "bitset_lazy_inv (bitset_container_xor_nocard a b dst)"
    and "bitset_abs (bitset_container_xor_nocard a b dst) = sym_diff (bitset_abs a) (bitset_abs b)"
    using bitset_fn_correct(3,4) [OF assms x, where dst = dst] by (auto simp: bitset_container_xor_nocard_def)
qed

lemmas lazy_xor_cases = bitset_xor_lazy array_lazy_xor_small run_run_xor_correct array_bitset_lazy_xor_correct
  run_bitset_xor_correct(3,4) array_run_lazy_xor_correct container_inv_lazy bitset_lazy_wf bitset_inv_wf Un_commute

lemma container_lazy_xor_correct:
  assumes "container_lazy_ok a" and "container_lazy_ok b"
  shows "container_lazy_ok (container_lazy_xor a b) \<and>
    container_abs (container_lazy_xor a b) = sym_diff (container_abs a) (container_abs b)"
  using assms by (cases a; cases b) (simp_all add: lazy_xor_cases)

lemma known_cardinality_inv:
  assumes "bitset_lazy_inv b"
  shows "bitset_inv (with_known_cardinality b)" and "bitset_abs (with_known_cardinality b) = bitset_abs b"
  using assms by (auto simp: with_known_cardinality_def bitset_lazy_inv_def bitset_inv_def bitset_wf_def bitset_abs_def
      compute_cardinality_correct)

lemma container_lazy_ixor_correct:
  assumes "container_lazy_ok a" and "container_inv b"
  shows "container_lazy_ok (container_lazy_ixor a b) \<and>
    container_abs (container_lazy_ixor a b) = sym_diff (container_abs a) (container_abs b)"
  using assms by (cases a; cases b)
    (simp_all add: xor_cases container_inv_lazy bitset_xor_lazy bitset_lazy_wf known_cardinality_inv)

section \<open>Difference\<close>

lemma array_create_empty: "array_inv array_container_create" "array_abs array_container_create = {}" "ac_cardinality array_container_create = 0"
  by (simp_all add: array_container_create_def array_container_create_given_capacity_def array_inv_def array_abs_def)

lemma array_array_andnot_small:
  assumes "array_inv a" and "array_inv b" and "ac_cardinality a \<le> 4096"
  shows "ac_cardinality (array_container_andnot a b out) \<le> 4096"
  by (rule array_small [OF _ assms(1,3)]) (use array_andnot_correct [OF assms(1,2)] in auto)

lemmas andnot_cases = bitset_bitset_andnot_correct array_andnot_correct array_array_andnot_small run_run_andnot_correct
  bitset_array_andnot_correct array_bitset_andnot_correct(1,2) order_trans [OF array_bitset_andnot_correct(3)]
  bitset_run_andnot_correct run_bitset_andnot_correct array_run_andnot_correct(1,2) order_trans [OF array_run_andnot_correct(3)]
  run_array_andnot_correct array_create_empty run_full_abs bitset_inv_wf andnot_inplace_defs array_array_container_andnot_def

lemma container_andnot_correct:
  assumes "container_inv a" and "container_inv b"
  shows "container_inv (container_andnot a b) \<and> container_abs (container_andnot a b) = container_abs a - container_abs b"
  using assms by (cases a; cases b) (simp_all add: andnot_cases)

lemma container_iandnot_correct:
  assumes "container_inv a" and "container_inv b"
  shows "container_inv (container_iandnot a b) \<and> container_abs (container_iandnot a b) = container_abs a - container_abs b"
  using assms by (cases a; cases b) (simp_all add: andnot_cases)

interpretation container_minus: set_operation container_inv container_abs container_inv container_abs container_inv container_abs
  container_andnot "\<lambda>x y. x \<and> \<not> y"
  by unfold_locales (simp_all add: container_andnot_correct)

interpretation container_sym_diff: set_operation container_inv container_abs container_inv container_abs container_inv container_abs
  container_xor "(\<noteq>)"
  by unfold_locales (auto simp: container_xor_correct)

interpretation container_inter: set_operation container_inv container_abs container_inv container_abs container_inv container_abs
  container_and "(\<and>)"
  by unfold_locales (simp_all add: container_and_correct)

text \<open>The union is a set operation on the containers a bitmap holds.\<close>

interpretation container_union: set_operation "\<lambda>c. container_inv c \<and> container_abs c \<noteq> {}" container_abs
  "\<lambda>c. container_inv c \<and> container_abs c \<noteq> {}" container_abs "\<lambda>c. container_inv c \<and> container_abs c \<noteq> {}" container_abs
  container_or "(\<or>)"
  by unfold_locales (auto simp: container_or_correct)

end
