(* ===== verification/Containers_Ranges.thy ===== *)
theory Containers_Ranges
  imports Containers_Correct
begin

text \<open>
  Building containers from ranges, adding and removing ranges, complements, order queries and the
  serialized bytes of a container of any type.
\<close>

unbundle bit_operations_syntax

section \<open>Arithmetic progressions\<close>

lemma progression_empty: "\<not> v < hi \<Longrightarrow> progression v hi step = {}"
  by (rule equals0I) (simp add: progression_def)

lemma Suc_div_self: "0 < d \<Longrightarrow> Suc (x div d) = (x + d) div d" for x d :: nat
  by (simp add: div_add_self2)

lemma card_progression:
  assumes "hi \<le> 65536" and "0 < step"
  shows "card (progression lo hi step) = (hi - lo + step - 1) div step"
proof (induction "hi - lo" arbitrary: lo rule: less_induct)
  case less
  show ?case
  proof (cases "lo < hi")
    case True
    then have "word_of_nat lo \<notin> progression (lo + step) hi step"
      using assms by (simp add: progression_def)
    then have "card (progression lo hi step) = Suc (card (progression (lo + step) hi step))"
      using progression_step [OF True assms] by simp
    also have "card (progression (lo + step) hi step) = (hi - (lo + step) + step - 1) div step"
      using less True assms by simp
    also have "Suc \<dots> = (hi - (lo + step) + step - 1 + step) div step" using assms(2) by (rule Suc_div_self)
    also have "\<dots> = (hi - lo + step - 1) div step"
    proof (cases "lo + step \<le> hi")
      case False
      then have "(hi - lo + step - 1) div step = 1" using True assms(2)
        by (intro div_nat_eqI) simp_all
      moreover have "(hi - (lo + step) + step - 1 + step) div step = 1" using False assms(2)
        by (intro div_nat_eqI) simp_all
      ultimately show ?thesis by simp
    qed (use assms(2) in \<open>simp add: algebra_simps\<close>)
    finally show ?thesis .
  qed (use assms(2) in \<open>simp add: progression_empty\<close>)
qed

lemma step_mask_correct:
  fixes step u :: u32
  assumes "0 < unat step" and "unat step \<le> 64"
  shows "unat u < 128 \<Longrightarrow> \<exists>p. step_mask step u pattern = Some p \<and>
    (\<forall>n < 64. bit p n \<longleftrightarrow> bit pattern n \<or> unat u \<le> n \<and> unat step dvd n - unat u)"
proof (induction "64 - unat u" arbitrary: u pattern rule: less_induct)
  case less
  show ?case
  proof (cases "u < 64")
    case True
    then have v: "unat u < 64" by (simp add: word_less_nat_alt)
    have us: "unat (u + step) = unat u + unat step"
      using unat_u32_add [of u step] v assms(2) by simp
    have e: "step_mask step u pattern = step_mask step (u + step) (pattern OR bit_at (unat u))"
      using True by (subst step_mask.simps) simp
    have "64 - (unat u + unat step) < 64 - unat u" using v assms(1) by linarith
    then obtain p where p: "step_mask step (u + step) (pattern OR bit_at (unat u)) = Some p"
      "\<forall>n < 64. bit p n \<longleftrightarrow> bit (pattern OR bit_at (unat u)) n
          \<or> unat u + unat step \<le> n \<and> unat step dvd n - (unat u + unat step)"
      using less.hyps [of "u + step" "pattern OR bit_at (unat u)"] v us assms(2) by auto
    have "bit p n \<longleftrightarrow> bit pattern n \<or> unat u \<le> n \<and> unat step dvd n - unat u" if n: "n < 64" for n
    proof -
      have "unat step dvd n - unat u \<longleftrightarrow> unat step dvd n - (unat u + unat step)" if "unat u + unat step \<le> n"
      proof -
        have "n - unat u = (n - (unat u + unat step)) + unat step" using that by arith
        then show ?thesis by simp
      qed
      moreover have "\<not> unat step dvd n - unat u" if "unat u < n" "n < unat u + unat step"
        using that by (simp add: nat_dvd_not_less)
      moreover have "bit (bit_at (unat u)) n \<longleftrightarrow> n = unat u" using v by (auto simp: bit_single)
      ultimately show ?thesis using p(2) n assms(1)
        by (cases "unat u + unat step \<le> n"; cases "n = unat u") (auto simp: bit_or_iff)
    qed
    then show ?thesis using e p(1) by simp
  next
    case False
    then have "64 \<le> unat u" by (simp add: word_less_nat_alt)
    then show ?thesis using False by (subst step_mask.simps) auto
  qed
qed

lemma step_mask_dividing:
  fixes step lo :: u32
  assumes "0 < unat step" and "unat step dvd 64"
  obtains p where "step_mask step (lo mod step) 0 = Some p"
    and "\<And>n. unat lo \<le> n \<Longrightarrow> bit p (n mod 64) \<longleftrightarrow> unat step dvd n - unat lo"
proof -
  let ?d = "unat step"
  have le: "?d \<le> 64" using assms(2) by (rule dvd_imp_le) simp
  have v: "unat (lo mod step) = unat lo mod ?d" by (simp add: unat_mod_distrib)
  have vd: "unat lo mod ?d < ?d" using assms(1) by simp
  obtain p where p: "step_mask step (lo mod step) 0 = Some p"
    "\<forall>n < 64. bit p n \<longleftrightarrow> unat lo mod ?d \<le> n \<and> ?d dvd n - unat lo mod ?d"
    using step_mask_correct [OF assms(1) le, of "lo mod step" 0] v vd le by auto
  have "bit p (n mod 64) \<longleftrightarrow> ?d dvd n - unat lo" if n: "unat lo \<le> n" for n
  proof -
    have m: "n mod 64 mod ?d = n mod ?d" using assms(2) by (rule mod_mod_cancel)
    have "unat lo mod ?d \<le> n mod 64 \<and> ?d dvd n mod 64 - unat lo mod ?d \<longleftrightarrow> n mod 64 mod ?d = unat lo mod ?d mod ?d"
    proof
      assume "unat lo mod ?d \<le> n mod 64 \<and> ?d dvd n mod 64 - unat lo mod ?d"
      then show "n mod 64 mod ?d = unat lo mod ?d mod ?d" using mod_eq_dvd_iff_nat by blast
    next
      assume e: "n mod 64 mod ?d = unat lo mod ?d mod ?d"
      then have "unat lo mod ?d \<le> n mod 64" by (metis mod_less_eq_dividend mod_mod_trivial)
      then show "unat lo mod ?d \<le> n mod 64 \<and> ?d dvd n mod 64 - unat lo mod ?d" using e mod_eq_dvd_iff_nat by blast
    qed
    also have "\<dots> \<longleftrightarrow> n mod ?d = unat lo mod ?d" by (simp add: m)
    also have "\<dots> \<longleftrightarrow> ?d dvd n - unat lo" using mod_eq_dvd_iff_nat [OF n] by simp
    finally show ?thesis using p(2) by simp
  qed
  then show ?thesis using that p(1) by blast
qed

text \<open>A range added to an empty bitset, by a repeated pattern or value by value.\<close>

lemma bitset_add_loop_correct:
  assumes step: "0 < unat step" "unat step < 65536" and hi: "unat hi \<le> 65536"
  shows "bitset_inv b \<Longrightarrow> \<exists>b'. bitset_add_loop hi step v b = Some b' \<and> bitset_inv b' \<and>
       bitset_abs b' = bitset_abs b \<union> progression (unat v) (unat hi) (unat step)"
proof (induction "unat hi - unat v" arbitrary: v b rule: less_induct)
  case less
  show ?case
  proof (cases "v < hi")
    case True
    then have v: "unat v < unat hi" by (simp add: word_less_nat_alt)
    have u: "unat (v + step) = unat v + unat step"
      using unat_u32_add [of v step] v hi step(2) by simp
    let ?b = "fst (bitset_container_add b (ucast v))"
    have b: "bitset_inv ?b" "bitset_abs ?b = insert (ucast v) (bitset_abs b)"
      using bitset_add_correct [OF less.prems] by simp_all
    have "unat hi - (unat v + unat step) < unat hi - unat v" using v step(1) by linarith
    then obtain b' where b': "bitset_add_loop hi step (v + step) ?b = Some b'" "bitset_inv b'"
        "bitset_abs b' = bitset_abs ?b \<union> progression (unat v + unat step) (unat hi) (unat step)"
      using less.hyps [of "v + step" ?b] b(1) u by auto
    have "progression (unat v) (unat hi) (unat step) = insert (ucast v) (progression (unat v + unat step) (unat hi) (unat step))"
      using progression_step [OF v hi step(1)] by simp
    moreover have "bitset_add_loop hi step v b = bitset_add_loop hi step (v + step) ?b"
      using True by (subst bitset_add_loop.simps) simp
    ultimately show ?thesis using b' b(2) by auto
  next
    case False
    then have "progression (unat v) (unat hi) (unat step) = {}"
      by (intro progression_empty) (simp add: word_less_nat_alt)
    then show ?thesis using False less.prems by (subst bitset_add_loop.simps) simp
  qed
qed

lemma range_count:
  fixes lo hi step :: u32
  assumes le: "unat lo \<le> unat hi" and hi: "unat hi \<le> 65536" and step: "0 < unat step" "unat step < 65536"
  shows "uint ((hi - lo + step - 1) div step) = int (card (progression (unat lo) (unat hi) (unat step)))"
    and "sint ((hi - lo + step - 1) div step) = int (card (progression (unat lo) (unat hi) (unat step)))"
proof -
  have d: "unat (hi - lo) = unat hi - unat lo" using le by (rule unat_u32_diff)
  have a: "unat (hi - lo + step) = unat hi - unat lo + unat step"
    using unat_u32_add [of "hi - lo" step] d hi step(2) by simp
  then have "unat (hi - lo + step - 1) = unat hi - unat lo + unat step - 1"
    using unat_u32_pred [of "hi - lo + step"] step(1) by simp
  then have n: "unat ((hi - lo + step - 1) div step) = card (progression (unat lo) (unat hi) (unat step))"
    by (simp add: unat_div_distrib card_progression [OF hi step(1)])
  then show u: "uint ((hi - lo + step - 1) div step) = int (card (progression (unat lo) (unat hi) (unat step)))"
    by (simp add: uint_nat del: of_nat_unat)
  have "card (progression (unat lo) (unat hi) (unat step)) \<le> 65536"
    using card_mono [of UNIV "progression (unat lo) (unat hi) (unat step)"] by (simp add: card_word)
  then show "sint ((hi - lo + step - 1) div step) = int (card (progression (unat lo) (unat hi) (unat step)))"
    using sint_u32_small [of "(hi - lo + step - 1) div step"] n by simp
qed

lemma span_cut:
  "a \<le> N \<and> N \<le> b \<and> (N = a \<longrightarrow> p) \<and> (N = b \<longrightarrow> q) \<longleftrightarrow> (a < N \<or> a = N \<and> p) \<and> (N < b \<or> N = b \<and> q)"
  for a b N :: nat
  by auto

lemma pattern_words:
  fixes lo hi :: u32 and words :: "u64 list"
  assumes lt: "unat lo < unat hi" and hi: "unat hi \<le> 65536" and zero: "words = replicate 1024 0"
    and pat: "\<And>n. unat lo \<le> n \<Longrightarrow> bit pattern (n mod 64) \<longleftrightarrow> unat step dvd n - unat lo"
  defines "a \<equiv> unat (lo div 64)" and "b \<equiv> unat ((hi - 1) div 64)"
    and "f \<equiv> ones_from (unat (lo mod 64))" and "l \<equiv> ones_upto (last_shift hi)"
  defines "ws \<equiv> (if a = b then words[a := words ! a OR (pattern AND (f AND l))]
     else (for_words (\<lambda>_. pattern) (a + 1) b (words[a := pattern AND f]))[b := pattern AND l])"
  shows "length ws = 1024" and "words_abs ws = progression (unat lo) (unat hi) (unat step)"
proof -
  show len: "length ws = 1024" by (simp add: ws_def zero)
  note ri = range_indices [OF lt]
  have bl: "b < length words" using hi lt by (simp add: b_def ri(3) zero)
  have "wbit ws n \<longleftrightarrow> unat lo \<le> n \<and> n < unat hi \<and> unat step dvd n - unat lo" if n: "n < 65536" for n
  proof -
    have n': "n < 64 * length words" using n by (simp add: zero)
    have m: "n mod 64 < 64" by simp
    have z: "\<not> wbit words n" using n by (simp add: zero wbit_def)
    have fl: "bit f (n mod 64) \<longleftrightarrow> unat lo mod 64 \<le> n mod 64" "bit l (n mod 64) \<longleftrightarrow> n mod 64 \<le> (unat hi - 1) mod 64"
      unfolding f_def l_def ri by (simp_all add: bit_first_mask bit_last_mask)
    have r: "unat lo \<le> n \<and> n < unat hi \<longleftrightarrow> (a < n div 64 \<or> a = n div 64 \<and> bit f (n mod 64)) \<and> (n div 64 < b \<or> n div 64 = b \<and> bit l (n mod 64))"
      unfolding fl range_cut(1) [OF lt] a_def b_def ri by (rule span_cut)
    show ?thesis
    proof (cases "a = b")
      case True
      then show ?thesis unfolding ws_def using r z bl pat [of n] m
        by (cases "n div 64 = b") (auto simp: wbit_def bit_or_iff bit_and_iff)
    next
      case False
      then have ab: "a < b" using range_cut(2) [OF lt] by (simp add: a_def b_def ri)
      show ?thesis
        unfolding ws_def if_not_P [OF False] wbit_span [OF ab bl n']
        using ab r z pat [of n] by (auto simp: bit_and_iff)
    qed
  qed
  then show "words_abs ws = progression (unat lo) (unat hi) (unat step)"
    using len by (auto simp: words_abs_def progression_def bits_of_def)
qed

lemma bitset_add_from_range_correct:
  assumes step: "step \<noteq> 0" and lt: "unat lo < unat hi" and hi: "unat hi \<le> 65536"
  obtains b' where "bitset_container_add_from_range bitset_container_create lo hi step = Some b'" and "bitset_inv b'"
    and "bitset_abs b' = progression (unat lo) (unat hi) (unat step)"
proof -
  let ?s = "ucast step :: u32"
  have st: "0 < unat step" using step by (simp add: unat_gt_0)
  have us: "unat ?s = unat step" by simp
  have sl: "unat ?s < 65536" by simp
  show ?thesis
  proof (cases "64 mod ?s = 0")
    case True
    have "unat (64 mod ?s) = 64 mod unat step" by (simp add: unat_mod_distrib)
    then have dvd: "unat ?s dvd 64" using True by (simp add: mod_eq_0_iff_dvd)
    have st32: "0 < unat ?s" using st by simp
    obtain p where p: "step_mask ?s (lo mod ?s) 0 = Some p"
      "\<And>n. unat lo \<le> n \<Longrightarrow> bit p (n mod 64) \<longleftrightarrow> unat ?s dvd n - unat lo"
      using step_mask_dividing [OF st32 dvd, of lo] by blast
    define words :: "u64 list" where "words = replicate 1024 0"
    have w: "bc_words bitset_container_create = words" by (simp add: words_def bitset_container_create_def)
    note ws = pattern_words [OF lt hi words_def, of p ?s, OF p(2)]
    let ?n = "sint ((hi - lo + ?s - 1) div ?s)"
    have n: "?n = int (card (progression (unat lo) (unat hi) (unat ?s)))"
      using range_count(2) [of lo hi ?s] lt hi st by simp
    let ?a = "unat (lo div 64)" and ?b = "unat ((hi - 1) div 64)"
      and ?f = "ones_from (unat (lo mod 64))" and ?l = "ones_upto (last_shift hi)"
    define ws where "ws = (if ?a = ?b then words[?a := words ! ?a OR (p AND (?f AND ?l))]
      else (for_words (\<lambda>_. p) (?a + 1) ?b (words[?a := p AND ?f]))[?b := p AND ?l])"
    have ws1: "length ws = 1024" "words_abs ws = progression (unat lo) (unat hi) (unat ?s)"
      unfolding ws_def using ws by simp_all
    let ?r = "bitset_container_create\<lparr>bc_words := ws, bc_cardinality := ?n\<rparr>"
    have "bitset_container_add_from_range bitset_container_create lo hi step = Some ?r"
      using step True p(1) by (simp add: bitset_container_add_from_range_def Let_def w ws_def)
    moreover have "bitset_inv ?r" and "bitset_abs ?r = progression (unat lo) (unat hi) (unat step)"
      using counted_bitset [OF ws1 n, of bitset_container_create] ws1(2) us
        by (simp_all add: words_abs_wf [symmetric] bitset_wf_def ws1(1))
    ultimately show ?thesis using that by blast
  next
    case False
    then have "bitset_container_add_from_range bitset_container_create lo hi step = bitset_add_loop hi ?s lo bitset_container_create"
      using step by (simp add: bitset_container_add_from_range_def)
    then show ?thesis using bitset_add_loop_correct [of ?s hi bitset_container_create lo] st sl hi that
      by (auto simp: bitset_create_correct)
  qed
qed

section \<open>Making containers\<close>

lemma container_range_of_ones_correct:
  assumes "unat lo \<le> unat hi" and "unat hi \<le> 65536"
  shows "container_inv (container_range_of_ones lo hi)"
    and "container_abs (container_range_of_ones lo hi) = {x. unat lo \<le> unat x \<and> unat x < unat hi}"
proof -
  have d: "unat (hi - lo) = unat hi - unat lo" using assms(1) by (rule unat_u32_diff)
  have "unat (hi - lo + 1) = unat hi - unat lo + 1" using unat_u32_add [of "hi - lo" 1] d assms(2) by simp
  then have c: "hi - lo + 1 \<le> 2 \<longleftrightarrow> unat hi - unat lo \<le> 1" by (simp add: word_le_nat_alt)
  note a = array_create_range_correct [OF assms]
  have "card (array_abs (array_container_create_range lo hi)) = unat hi - unat lo"
    using a(2) assms(2) by (simp add: card_u16_range)
  then have "ac_cardinality (array_container_create_range lo hi) \<le> 4096" if "hi - lo + 1 \<le> 2"
    using array_inv_card [OF a(1)] that c by simp
  then show "container_inv (container_range_of_ones lo hi)"
    and "container_abs (container_range_of_ones lo hi) = {x. unat lo \<le> unat x \<and> unat x < unat hi}"
    using a run_create_range_correct [of lo hi] c assms(2)
    by (auto simp: container_range_of_ones_def Let_def u16_range_def)
qed

lemma container_from_range_correct:
  assumes lt: "unat lo < unat hi" and hi: "unat hi \<le> 65536" and step: "step \<noteq> 0"
  obtains c where "container_from_range lo hi step = Some c" and "container_inv c"
    and "container_abs c = progression (unat lo) (unat hi) (unat step)"
proof (cases "step = 1")
  case True
  have "progression (unat lo) (unat hi) 1 = {x. unat lo \<le> unat x \<and> unat x < unat hi}" by (auto simp: progression_def)
  then show ?thesis using that [of "container_range_of_ones lo hi"] container_range_of_ones_correct [of lo hi] lt hi True
    by (simp add: container_from_range_def)
next
  case False
  let ?n = "uint ((hi - lo + ucast step - 1) div (ucast step :: u32))"
  have n: "?n = int (card (progression (unat lo) (unat hi) (unat step)))"
    using range_count(1) [of lo hi "ucast step"] lt hi step by (simp add: unat_gt_0)
  show ?thesis
  proof (cases "?n \<le> 4096")
    case True
    let ?a = "array_container_create_given_capacity ?n"
    have "array_inv ?a" and e: "array_abs ?a = {}"
      by (simp_all add: array_container_create_given_capacity_def array_inv_def array_abs_def)
    then obtain c' where c': "array_container_add_from_range ?a lo hi step = Some c'" "array_inv c'"
      "array_abs c' = progression (unat lo) (unat hi) (unat step)"
      using array_add_from_range_correct [of ?a step hi lo] step hi by auto
    have "ac_cardinality c' \<le> 4096" using array_inv_card [OF c'(2)] c'(3) n True by simp
    then show ?thesis using that [of "Array_c c'"] c' True False step by (simp add: container_from_range_def)
  next
    case big: False
    obtain b' where b': "bitset_container_add_from_range bitset_container_create lo hi step = Some b'" "bitset_inv b'"
      "bitset_abs b' = progression (unat lo) (unat hi) (unat step)"
      using bitset_add_from_range_correct [OF step lt hi] by blast
    have "4096 < bc_cardinality b'" using b'(2,3) n big by (simp add: bitset_inv_def)
    then show ?thesis using that [of "Bitset_c b'"] b' big False step by (simp add: container_from_range_def)
  qed
qed

section \<open>Adding and removing ranges\<close>

abbreviation closed_range :: "u32 \<Rightarrow> u32 \<Rightarrow> u16 set" where
  "closed_range lo hi \<equiv> {x. unat lo \<le> unat x \<and> unat x \<le> unat hi}"

lemma closed_range_u16: "closed_range lo hi = u16_range (unat lo) (Suc (unat hi))"
  by (auto simp: u16_range_def)

lemma closed_range_card:
  "unat lo \<le> unat hi \<Longrightarrow> unat hi < 65536 \<Longrightarrow> card (closed_range lo hi) = unat hi - unat lo + 1"
  by (simp only: closed_range_u16) (subst card_u16_range, simp_all)

lemma closed_range_uint:
  assumes "unat lo \<le> unat hi" and "unat hi < 65536"
  shows "uint (hi - lo + 1) = int (card (closed_range lo hi))"
proof -
  have d: "unat (hi - lo) = unat hi - unat lo" using assms(1) by (rule unat_u32_diff)
  have "unat (hi - lo + 1) = unat hi - unat lo + 1" using unat_u32_add [of "hi - lo" 1] d assms(2) by simp
  then show ?thesis by (simp add: closed_range_card [OF assms] uint_nat del: of_nat_unat)
qed

lemma lenrange_card:
  assumes wf: "bitset_wf b" and le: "unat lo \<le> unat hi" and hi: "unat hi < 65536"
  shows "bitset_lenrange_cardinality (bc_words b) lo (hi - lo) = card (bitset_abs b \<inter> closed_range lo hi)"
    and "bitset_wf (b\<lparr>bc_words := bitset_set_lenrange (bc_words b) lo (hi - lo)\<rparr>)"
    and "bitset_abs (b\<lparr>bc_words := bitset_set_lenrange (bc_words b) lo (hi - lo), bc_cardinality := n\<rparr>)
      = bitset_abs b \<union> closed_range lo hi"
proof -
  have len: "length (bc_words b) = 1024" using wf by (simp add: bitset_wf_def)
  have d: "unat lo + unat (hi - lo) = unat hi" using unat_u32_diff [OF le] le by simp
  have lt: "unat lo + unat (hi - lo) < 64 * length (bc_words b)" "length (bc_words b) \<le> 1048576" using d hi len by simp_all
  have img: "{n. unat lo \<le> n \<and> n \<le> unat hi \<and> wbit (bc_words b) n} = unat ` (bitset_abs b \<inter> closed_range lo hi)"
  proof (intro set_eqI iffI)
    fix n assume n: "n \<in> {n. unat lo \<le> n \<and> n \<le> unat hi \<and> wbit (bc_words b) n}"
    then have u: "unat (word_of_nat n :: u16) = n" using hi by simp
    then have "word_of_nat n \<in> bitset_abs b \<inter> closed_range lo hi" using n by (simp add: bitset_abs_def)
    then show "n \<in> unat ` (bitset_abs b \<inter> closed_range lo hi)"
      by (rule image_eqI [rotated]) (simp add: u)
  qed (auto simp: bitset_abs_def)
  show "bitset_lenrange_cardinality (bc_words b) lo (hi - lo) = card (bitset_abs b \<inter> closed_range lo hi)"
    unfolding lenrange_counts(1) [OF lt] d img by (rule card_image) (rule inj_on_subset [OF inj_unat_u16 subset_UNIV])
  note bits = bits_of_lenrange [OF len, of lo "hi - lo", unfolded d, OF hi]
  then show "bitset_wf (b\<lparr>bc_words := bitset_set_lenrange (bc_words b) lo (hi - lo)\<rparr>)" by (simp add: bitset_wf_def)
  show "bitset_abs (b\<lparr>bc_words := bitset_set_lenrange (bc_words b) lo (hi - lo), bc_cardinality := n\<rparr>)
      = bitset_abs b \<union> closed_range lo hi"
    using bits bitset_abs_words(2) [OF bits(2)] words_abs_wf [OF wf] by (auto simp: words_abs_def)
qed

lemma card_Un_range: "int (card (S \<union> R)) = int (card S) + int (card R) - int (card (S \<inter> R))" for S R :: "u16 set"
  using card_Un_Int [of S R] by simp

lemma ssorted_split:
  fixes h :: "'a::linorder"
  shows "ssorted xs \<Longrightarrow> xs = filter (\<lambda>x. x \<le> h) xs @ filter (\<lambda>x. \<not> x \<le> h) xs"
proof (induction xs)
  case (Cons x xs)
  show ?case
  proof (cases "x \<le> h")
    case False
    then have "\<forall>y \<in> set xs. \<not> y \<le> h" using Cons.prems by (auto dest: less_trans)
    then show ?thesis using False by (simp add: filter_id_conv)
  next
    case True
    have "xs = filter (\<lambda>x. x \<le> h) xs @ filter (\<lambda>x. \<not> x \<le> h) xs" by (rule Cons.IH) (use Cons.prems in simp)
    then show ?thesis using True by (metis append_Cons filter.simps(2))
  qed
qed simp

lemma card_union_split: "card (S \<union> R) = card (S - R) + card R" for S R :: "u16 set"
  by (metis Diff_disjoint Int_commute Un_Diff_cancel2 card_Un_disjoint finite)

text \<open>The counts that the array case takes are those of the values below and above the range.\<close>

lemma array_range_counts:
  assumes inv: "array_inv a" and le: "unat lo \<le> unat hi" and hi: "unat hi < 65536"
  defines "ng \<equiv> count_greater (ac_array a) (nat (ac_cardinality a)) (ucast hi)"
  defines "nl \<equiv> int (count_less (ac_array a) (nat (ac_cardinality a - ng)) (ucast lo))"
  shows "ng = int (card {x \<in> array_abs a. unat hi < unat x})" and "nl = int (card {x \<in> array_abs a. unat x < unat lo})"
    and "nl + ng = int (card (array_abs a - closed_range lo hi))"
proof -
  let ?A = "ac_array a"
  have s: "ssorted ?A" and n: "nat (ac_cardinality a) = length ?A" using inv by (simp_all add: array_inv_def)
  have u: "unat (ucast lo :: u16) = unat lo" "unat (ucast hi :: u16) = unat hi"
    using le hi by (simp_all add: unat_ucast_u32_u16)
  show ng: "ng = int (card {x \<in> array_abs a. unat hi < unat x})"
    unfolding ng_def n using count_greater_card [of "length ?A" ?A "ucast hi"] s u
    by (simp add: array_abs_def word_less_nat_alt)
  let ?k = "nat (ac_cardinality a - ng)"
  have len: "length (filter (\<lambda>x. \<not> x \<le> ucast hi) ?A) = card {x \<in> set ?A. ucast hi < x}"
    using ssorted_card [OF ssorted_filter [OF s, of "\<lambda>x. \<not> x \<le> ucast hi"]] by (simp add: not_le)
  have split: "?A = filter (\<lambda>x. x \<le> ucast hi) ?A @ filter (\<lambda>x. \<not> x \<le> ucast hi) ?A" by (rule ssorted_split [OF s])
  have "ng = int (length (filter (\<lambda>x. \<not> x \<le> ucast hi) ?A))"
    unfolding ng_def n len using count_greater_card [of "length ?A" ?A "ucast hi"] s by simp
  then have kl: "?k = length (filter (\<lambda>x. x \<le> ucast hi) ?A)"
    using arg_cong [OF split, of length] inv by (simp add: array_inv_def)
  have "take ?k (filter (\<lambda>x. x \<le> ucast hi) ?A @ filter (\<lambda>x. \<not> x \<le> ucast hi) ?A) = filter (\<lambda>x. x \<le> ucast hi) ?A"
    unfolding kl by simp
  then have take: "take ?k ?A = filter (\<lambda>x. x \<le> ucast hi) ?A" using split by metis
  have k: "?k \<le> length ?A" unfolding kl by simp
  have "count_less ?A ?k (ucast lo) = card {x \<in> set (take ?k ?A). x < ucast lo}"
    by (rule count_less_card [OF k]) (rule ssorted_take [OF s])
  moreover have "{x \<in> set (take ?k ?A). x < ucast lo} = {x \<in> array_abs a. unat x < unat lo}"
    unfolding take using u le by (auto simp: array_abs_def word_less_nat_alt word_le_nat_alt)
  ultimately show nl: "nl = int (card {x \<in> array_abs a. unat x < unat lo})" by (simp add: nl_def)
  have "array_abs a - closed_range lo hi = {x \<in> array_abs a. unat x < unat lo} \<union> {x \<in> array_abs a. unat hi < unat x}"
    by auto
  moreover have "{x \<in> array_abs a. unat x < unat lo} \<inter> {x \<in> array_abs a. unat hi < unat x} = {}" using le by auto
  ultimately show "nl + ng = int (card (array_abs a - closed_range lo hi))"
    by (simp add: nl ng card_Un_disjoint)
qed

lemma range_bitset_counted:
  assumes inv: "bitset_inv b" and le: "unat lo \<le> unat hi" and hi: "unat hi < 65536"
    and n: "n = int (card (bitset_abs b \<union> closed_range lo hi))"
  defines "b' \<equiv> b\<lparr>bc_words := bitset_set_lenrange (bc_words b) lo (hi - lo), bc_cardinality := n\<rparr>"
  shows "bitset_inv b'" and "bitset_abs b' = bitset_abs b \<union> closed_range lo hi"
proof -
  note l = lenrange_card [OF bitset_inv_wf [OF inv] le hi]
  show abs: "bitset_abs b' = bitset_abs b \<union> closed_range lo hi" unfolding b'_def by (rule l(3))
  then show "bitset_inv b'" using l(2) n by (simp add: bitset_inv_def bitset_wf_def b'_def)
qed

lemma full_add_range: "S \<union> R = UNIV \<Longrightarrow> container_inv (Run_c (run_container_create_range 0 65536))
    \<and> container_abs (Run_c (run_container_create_range 0 65536)) = S \<union> R"
  by (simp add: full_run)

lemma container_add_range_correct:
  assumes inv: "container_inv c" and le: "unat lo \<le> unat hi" and hi: "unat hi < 65536"
  shows "container_inv (container_add_range c lo hi) \<and>
    container_abs (container_add_range c lo hi) = container_abs c \<union> closed_range lo hi"
proof (cases c)
  case (Bitset_c b)
  then have b: "bitset_inv b" "4096 < bc_cardinality b" using inv by simp_all
  let ?n = "bc_cardinality b + uint (hi - lo + 1) - int (bitset_lenrange_cardinality (bc_words b) lo (hi - lo))"
  let ?U = "bitset_abs b \<union> closed_range lo hi"
  have n: "?n = int (card ?U)"
    unfolding closed_range_uint [OF le hi] lenrange_card(1) [OF bitset_inv_wf [OF b(1)] le hi] card_Un_range
    using b(1) by (simp add: bitset_inv_def)
  note r = range_bitset_counted [OF b(1) le hi n]
  have "card (bitset_abs b) \<le> card ?U" by (intro card_mono) simp_all
  then have big: "4096 < ?n" unfolding n using b by (simp add: bitset_inv_def)
  show ?thesis
  proof (cases "?n = 65536")
    case True
    then have "card ?U = 65536" unfolding n by linarith
    then have "?U = UNIV" by (rule full_iff_card [THEN iffD2])
    then show ?thesis using True full_add_range [of "bitset_abs b" "closed_range lo hi"] by (simp add: Bitset_c Let_def)
  next
    case False
    have "bc_cardinality (b\<lparr>bc_words := bitset_set_lenrange (bc_words b) lo (hi - lo), bc_cardinality := ?n\<rparr>) = ?n" by simp
    then show ?thesis using r big False by (simp only: Bitset_c container_add_range.simps Let_def if_False container_inv.simps container_abs.simps simp_thms)
  qed
next
  case (Array_c a)
  then have a: "array_inv a" "ac_cardinality a \<le> 4096" using inv by simp_all
  define ng nl where "ng = count_greater (ac_array a) (nat (ac_cardinality a)) (ucast hi)"
    and "nl = int (count_less (ac_array a) (nat (ac_cardinality a - ng)) (ucast lo))"
  note counts = array_range_counts [OF a(1) le hi, folded ng_def, folded nl_def]
  let ?U = "array_abs a \<union> closed_range lo hi" and ?n = "nl + uint (hi - lo + 1) + ng"
  have "card ?U = card (array_abs a - closed_range lo hi) + card (closed_range lo hi)"
    by (rule card_union_split)
  then have n: "?n = int (card ?U)" unfolding closed_range_uint [OF le hi] using counts(3) by simp
  note add = array_add_range_nvals_correct [OF a(1) le hi counts(2,1), folded closed_range_u16]
  note b = bitset_from_array_correct [OF a(1)]
  have e: "container_add_range c lo hi =
    (if ?n = 65536 then Run_c (run_container_create_range 0 65536)
     else if ?n \<le> 4096 then Array_c (array_container_add_range_nvals a lo hi nl ng)
     else Bitset_c ((bitset_container_from_array a)\<lparr>bc_words := bitset_set_lenrange (bc_words (bitset_container_from_array a)) lo (hi - lo), bc_cardinality := ?n\<rparr>))"
    by (simp add: Array_c Let_def ng_def [symmetric] nl_def [symmetric])
  consider "?n = 65536" | "?n \<noteq> 65536" "?n \<le> 4096" | "?n \<noteq> 65536" "\<not> ?n \<le> 4096" by blast
  then show ?thesis
  proof cases
    case 1
    then have "card ?U = 65536" unfolding n by linarith
    then have "?U = UNIV" by (rule full_iff_card [THEN iffD2])
    then show ?thesis using full_add_range [of "array_abs a" "closed_range lo hi"] unfolding e if_P [OF 1] by (simp add: Array_c)
  next
    case 2
    then have "ac_cardinality (array_container_add_range_nvals a lo hi nl ng) \<le> 4096"
      using array_inv_card [OF add(1)] add(2) n by simp
    then show ?thesis unfolding e if_not_P [OF 2(1)] if_P [OF 2(2)] using add by (simp add: Array_c)
  next
    case 3
    have "?n = int (card (bitset_abs (bitset_container_from_array a) \<union> closed_range lo hi))" using n b(2) by simp
    note r = range_bitset_counted [OF b(1) le hi this]
    show ?thesis unfolding e if_not_P [OF 3(1)] if_not_P [OF 3(2)] using r b(2) 3(2) by (simp add: Array_c)
  qed
next
  case (Run_c r)
  then have r: "run_inv r" using inv by simp
  have e: "rc_len r = nat (rc_n_runs r)" by simp
  note add = run_add_range_counted(1) [OF r le hi]
  show ?thesis using add container_from_run_range_correct [OF r le hi] by (simp add: Run_c Let_def)
qed

lemma card_remaining: "int (card (S - R)) = int (card S) - int (card (S \<inter> R))" for S R :: "u16 set"
  using card_Diff_subset_Int [of S R] card_mono [of S "S \<inter> R"] by (simp add: of_nat_diff)

lemma array_remove_counted:
  assumes inv: "array_inv a" and le: "unat lo \<le> unat hi" and hi: "unat hi < 65536"
    and nl: "nl = int (card {x \<in> array_abs a. unat x < unat lo})"
    and k: "k = int (card (array_abs a - closed_range lo hi))"
  defines "c \<equiv> array_container_remove_range a (of_int nl) (of_int (ac_cardinality a - k))"
  shows "array_inv c" and "array_abs c = array_abs a - closed_range lo hi"
proof -
  have small: "card S \<le> 65536" for S :: "u16 set" using card_mono [of UNIV S] by (simp add: card_word)
  have pos: "unat (of_int nl :: u32) = card {x \<in> array_abs a. unat x < unat lo}"
    using small [of "{x \<in> array_abs a. unat x < unat lo}"] by (simp add: nl)
  have "ac_cardinality a - k = int (card (array_abs a \<inter> closed_range lo hi))"
    using card_remaining [of "array_abs a" "closed_range lo hi"] array_inv_card [OF inv] k by simp
  then have count: "unat (of_int (ac_cardinality a - k) :: u32) = card (array_abs a \<inter> closed_range lo hi)"
    using small [of "array_abs a \<inter> closed_range lo hi"] by (simp del: of_int_diff)
  have "{x \<in> array_abs a. unat x \<le> unat hi} = {x \<in> array_abs a. unat x < unat lo} \<union> (array_abs a \<inter> closed_range lo hi)"
    using le by auto
  then have "card {x \<in> array_abs a. unat x < unat lo} + card (array_abs a \<inter> closed_range lo hi)
      = card {x \<in> array_abs a. unat x \<le> unat hi}"
    by (subst card_Un_disjoint [symmetric]) auto
  then show "array_inv c" and "array_abs c = array_abs a - closed_range lo hi"
    unfolding c_def using array_remove_range_correct [OF inv le hi pos] pos count by (simp_all add: closed_range_u16 del: of_int_diff)
qed

text \<open>The result of a removal: nothing where nothing is left.\<close>

definition removes :: "container_t option \<Rightarrow> u16 set \<Rightarrow> bool" where
  "removes c S \<longleftrightarrow> (case c of None \<Rightarrow> S = {} | Some c' \<Rightarrow> container_inv c' \<and> container_abs c' = S \<and> S \<noteq> {})"

lemma removes_simps [simp]:
  "removes None S \<longleftrightarrow> S = {}" "removes (Some c) S \<longleftrightarrow> container_inv c \<and> container_abs c = S \<and> S \<noteq> {}"
  by (simp_all add: removes_def)

lemma container_remove_range_correct:
  assumes inv: "container_inv c" and le: "unat lo \<le> unat hi" and hi: "unat hi < 65536"
  shows "removes (container_remove_range c lo hi) (container_abs c - closed_range lo hi)"
proof (cases c)
  case (Bitset_c b)
  then have b: "bitset_inv b" "4096 < bc_cardinality b" using inv by simp_all
  let ?D = "bitset_abs b - closed_range lo hi"
  let ?n = "bc_cardinality b - int (bitset_lenrange_cardinality (bc_words b) lo (hi - lo))"
  let ?b = "b\<lparr>bc_words := bitset_reset_range (bc_words b) lo (hi + 1), bc_cardinality := ?n\<rparr>"
  have n: "?n = int (card ?D)"
    unfolding lenrange_card(1) [OF bitset_inv_wf [OF b(1)] le hi] card_remaining using b(1) by (simp add: bitset_inv_def)
  have len: "length (bc_words b) = 1024" using b(1) by (simp add: bitset_inv_def bitset_wf_def)
  have h: "unat (hi + 1) = Suc (unat hi)" using unat_u32_add [of hi 1] hi by simp
  have len': "length (bitset_reset_range (bc_words b) lo (hi + 1)) = 1024" using len by simp
  have "bits_of (bitset_reset_range (bc_words b) lo (hi + 1)) = bits_of (bc_words b) - {unat lo ..< Suc (unat hi)}"
    using bits_of_ranges(2) [OF len, of lo "hi + 1"] h le hi by simp
  then have abs: "bitset_abs ?b = ?D"
    using bitset_abs_words(2) [OF len'] words_abs_wf [OF bitset_inv_wf [OF b(1)]] by (auto simp: words_abs_def)
  then have bi: "bitset_inv ?b" using n len' by (simp add: bitset_inv_def bitset_wf_def)
  have e: "container_remove_range c lo hi = (if ?n = 0 then None
      else if ?n \<le> 4096 then Some (Array_c (array_container_from_bitset ?b)) else Some (Bitset_c ?b))"
    by (simp add: Bitset_c Let_def)
  have z: "?n = 0 \<longleftrightarrow> ?D = {}" unfolding n by simp
  note ab = array_from_bitset_correct [OF bi]
  have ca: "container_abs c = bitset_abs b" by (simp add: Bitset_c)
  consider "?n = 0" | "?n \<noteq> 0" "?n \<le> 4096" | "?n \<noteq> 0" "\<not> ?n \<le> 4096" by blast
  then show ?thesis
  proof cases
    case 1
    then show ?thesis unfolding e if_P [OF 1] using z by (simp add: Bitset_c)
  next
    case 2
    have "ac_cardinality (array_container_from_bitset ?b) \<le> 4096" using ab 2(2) by simp
    then show ?thesis unfolding e if_not_P [OF 2(1)] if_P [OF 2(2)] removes_simps container_inv.simps container_abs.simps ca
      using ab abs z 2(1) by blast
  next
    case 3
    have "4096 < bc_cardinality ?b" using 3(2) by simp
    then show ?thesis unfolding e if_not_P [OF 3(1)] if_not_P [OF 3(2)] removes_simps container_inv.simps container_abs.simps ca
      using bi abs z 3(1) by blast
  qed
next
  case (Array_c a)
  then have a: "array_inv a" "ac_cardinality a \<le> 4096" using inv by simp_all
  define ng nl where "ng = count_greater (ac_array a) (nat (ac_cardinality a)) (ucast hi)"
    and "nl = int (count_less (ac_array a) (nat (ac_cardinality a - ng)) (ucast lo))"
  note counts = array_range_counts [OF a(1) le hi, folded ng_def, folded nl_def]
  note rem = array_remove_counted [OF a(1) le hi counts(2,3)]
  let ?c = "array_container_remove_range a (of_int nl) (of_int (ac_cardinality a - (nl + ng)))"
  have e: "container_remove_range c lo hi = (if nl + ng = 0 then None else Some (Array_c ?c))"
    by (simp only: Array_c container_remove_range.simps Let_def ng_def [symmetric] nl_def [symmetric])
  have "ac_cardinality ?c \<le> 4096" by (rule array_small [OF rem(1) a]) (use rem(2) in blast)
  moreover have "nl + ng = 0 \<longleftrightarrow> array_abs a - closed_range lo hi = {}" unfolding counts(3) by simp
  ultimately show ?thesis unfolding e using rem by (cases "nl + ng = 0") (simp_all add: Array_c)
next
  case (Run_c r)
  then have r: "run_inv r" using inv by simp
  have empty: "rc_n_runs r = 0 \<longleftrightarrow> run_abs r = {}"
    using run_empty_correct(1) [OF r] by (simp add: run_container_empty_def)
  let ?mn = "run_container_minimum r" and ?mx = "run_container_maximum r"
  have u: "lo \<le> ucast ?mn \<longleftrightarrow> unat lo \<le> unat ?mn" "hi \<ge> ucast ?mx \<longleftrightarrow> unat ?mx \<le> unat hi"
    by (simp_all add: word_le_nat_alt)
  show ?thesis
  proof (cases "run_abs r = {}")
    case False
    note mm = run_min_max_correct [OF r False]
    have sub: "unat lo \<le> unat ?mn \<and> unat ?mx \<le> unat hi \<longleftrightarrow> run_abs r - closed_range lo hi = {}"
    proof
      assume b: "unat lo \<le> unat ?mn \<and> unat ?mx \<le> unat hi"
      have "x \<in> closed_range lo hi" if "x \<in> run_abs r" for x
        using that mm b by (auto simp: word_le_nat_alt intro: order_trans)
      then show "run_abs r - closed_range lo hi = {}" by blast
    qed (use mm in blast)
    have "container_remove_range c lo hi = (if run_abs r - closed_range lo hi = {} then None
        else Some (convert_run_to_efficient_container (run_container_remove_range r lo hi)))"
      using False by (simp only: Run_c container_remove_range.simps u sub empty if_False)
    then show ?thesis using run_remove_range_correct [OF r le hi] convert_run_to_efficient_correct [of "run_container_remove_range r lo hi"]
      by (simp add: Run_c)
  qed (simp add: Run_c empty)
qed

section \<open>Complements\<close>

lemma sint_range: "unat (s :: u32) \<le> 65536 \<Longrightarrow> sint s = int (unat s)"
  by (rule sint_u32_small) simp

lemma int_range_u32: "int_range (int a) (int b) = {x. a \<le> unat x \<and> unat x < b}"
  using int_range_nat [of "int a" "int b"] by simp

lemma container_not_range_correct:
  assumes inv: "container_inv c" and le: "unat s \<le> unat e" and e: "unat e \<le> 65536"
  shows "container_inv (container_not_range c s e) \<and>
      container_abs (container_not_range c s e) = sym_diff (container_abs c) {x. unat s \<le> unat x \<and> unat x < unat e}"
    and "container_inv (container_inot_range c s e) \<and>
      container_abs (container_inot_range c s e) = sym_diff (container_abs c) {x. unat s \<le> unat x \<and> unat x < unat e}"
proof -
  have b: "sint s = int (unat s)" "sint e = int (unat e)" using sint_range le e by simp_all
  note r = int_range_u32 [of "unat s" "unat e"]
  have "container_inv (container_not_range c s e) \<and> container_inv (container_inot_range c s e)
    \<and> container_abs (container_not_range c s e) = sym_diff (container_abs c) (int_range (int (unat s)) (int (unat e)))
    \<and> container_abs (container_inot_range c s e) = sym_diff (container_abs c) (int_range (int (unat s)) (int (unat e)))"
    using inv le e by (cases c)
      (simp_all add: b bitset_negation_inplace_eq array_container_negation_range_inplace_def bitset_negation_range_correct
        bitset_inv_wf array_negation_range_correct run_negation_range_correct run_negation_inplace_correct del: of_nat_unat)
  then show "container_inv (container_not_range c s e) \<and>
      container_abs (container_not_range c s e) = sym_diff (container_abs c) {x. unat s \<le> unat x \<and> unat x < unat e}"
    and "container_inv (container_inot_range c s e) \<and>
      container_abs (container_inot_range c s e) = sym_diff (container_abs c) {x. unat s \<le> unat x \<and> unat x < unat e}"
    unfolding r by blast+
qed

lemma array_negation_big:
  assumes "array_inv a" and "ac_cardinality a \<le> 4096" and "bitset_wf dst"
  shows "4096 < bc_cardinality (array_container_negation a dst)"
proof -
  note n = array_container_negation_correct [OF assms(1,3)]
  have "card (- array_abs a) = 65536 - card (array_abs a)" 
    unfolding Compl_eq_Diff_UNIV by (subst card_Diff_subset) (simp_all add: card_word)
  moreover have "card (array_abs a) \<le> 4096" using assms(2) array_inv_card [OF assms(1)] by simp
  ultimately show ?thesis using n by (simp add: bitset_inv_def)
qed

lemma int_range_all: "int_range 0 65536 = UNIV"
  using int_range_u32 [of 0 65536] by simp

lemma container_not_correct:
  assumes inv: "container_inv c"
  shows "container_inv (container_not c) \<and> container_abs (container_not c) = - container_abs c"
    and "container_inv (container_inot c) \<and> container_abs (container_inot c) = - container_abs c"
proof -
  note defs = bitset_container_negation_def bitset_container_negation_inplace_def run_container_negation_def
    run_container_negation_inplace_def bitset_negation_inplace_eq
  have w: "bitset_wf bitset_container_create" by (simp add: bitset_wf_def bitset_container_create_def)
  show "container_inv (container_not c) \<and> container_abs (container_not c) = - container_abs c"
    using inv by (cases c) (simp_all add: defs bitset_negation_range_correct bitset_inv_wf array_container_negation_correct w
        array_negation_big run_negation_range_correct int_range_all Compl_eq_Diff_UNIV [symmetric])
  show "container_inv (container_inot c) \<and> container_abs (container_inot c) = - container_abs c"
    using inv by (cases c) (simp_all add: defs bitset_negation_range_correct bitset_inv_wf array_container_negation_correct w
        array_negation_big run_negation_inplace_correct int_range_all Compl_eq_Diff_UNIV [symmetric])
qed

section \<open>Order queries\<close>

lemma array_cells_sorted: "array_inv a \<Longrightarrow> ac_array a = sorted_list_of_set (array_abs a)"
  by (rule ssorted_set_unique) (simp_all add: array_inv_def array_abs_def ssorted_sorted_list)

lemma array_cells_card: "array_inv a \<Longrightarrow> length (ac_array a) = card (array_abs a)"
  by (simp add: array_inv_def array_abs_def ssorted_card)

lemma container_rank_correct:
  "container_inv c \<Longrightarrow> container_rank c x = int (card {y \<in> container_abs c. y \<le> x})"
  by (cases c) (simp_all add: bitset_rank_correct bitset_inv_wf array_rank_correct run_rank_correct)

lemma container_get_index_correct:
  "container_inv c \<Longrightarrow> container_get_index c x =
     (if x \<in> container_abs c then int (card {y \<in> container_abs c. y < x}) else - 1)"
  by (cases c) (simp_all add: bitset_get_index_correct bitset_inv_wf array_get_index_correct run_get_index_correct)

lemma container_select_correct:
  assumes "container_inv c" and "s \<le> r" and "unat s + card (container_abs c) < 4294967296"
  shows "container_select c s r =
     (if unat s + card (container_abs c) \<le> unat r then Inl (s + word_of_nat (card (container_abs c)))
      else Inr (ucast (sorted_list_of_set (container_abs c) ! (unat r - unat s))))"
proof (cases c)
  case (Array_c a)
  then have a: "array_inv a" using assms(1) by simp
  show ?thesis using array_select_correct [OF a, of s r] assms(2,3) array_cells_sorted [OF a] array_cells_card [OF a]
    by (simp add: Array_c)
qed (use assms in \<open>simp_all add: bitset_select_correct run_select_correct\<close>)

lemma bitset_big_64:
  assumes "bitset_inv b" and "4096 < bc_cardinality b"
  shows "\<exists>y \<in> bitset_abs b. 64 \<le> unat y"
proof (rule ccontr)
  assume "\<not> (\<exists>y \<in> bitset_abs b. 64 \<le> unat y)"
  then have "bitset_abs b \<subseteq> u16_range 0 64" by (auto simp: u16_range_def)
  then have "card (bitset_abs b) \<le> card (u16_range 0 64)" by (rule card_mono [rotated]) simp
  then show False using assms card_u16_range [of 64 0] by (simp add: bitset_inv_def)
qed

lemma container_min_max_correct:
  assumes inv: "container_inv c" and ne: "container_abs c \<noteq> {}"
  shows "container_minimum c = Min (container_abs c)" and "container_maximum c = Max (container_abs c)"
proof -
  have "container_minimum c \<in> container_abs c \<and> (\<forall>y \<in> container_abs c. container_minimum c \<le> y)"
    using assms by (cases c) (simp_all add: bitset_minimum_correct bitset_inv_wf array_minimum_correct run_min_max_correct)
  then show "container_minimum c = Min (container_abs c)" by (metis Min_eqI finite)
  have "container_maximum c \<in> container_abs c \<and> (\<forall>y \<in> container_abs c. y \<le> container_maximum c)"
  proof (cases c)
    case (Bitset_c b)
    then show ?thesis using bitset_maximum_correct(1) [of b] bitset_big_64 [of b] inv by (simp add: bitset_inv_wf)
  qed (use assms in \<open>simp_all add: array_maximum_correct run_min_max_correct\<close>)
  then show "container_maximum c = Max (container_abs c)" by (metis Max_eqI finite)
qed

lemma container_rank_many_correct:
  assumes "container_inv c" and "run = takeWhile (\<lambda>q. drop_bit 16 q = drop_bit 16 (hd qs)) qs"
    and "sorted (map (\<lambda>q. ucast q :: u16) run)"
  shows "container_rank_many c start qs =
     (length run, map (\<lambda>q. start + word_of_nat (card {y \<in> container_abs c. y \<le> ucast q})) run)"
proof (cases c)
  case (Bitset_c b)
  then show ?thesis using bitset_rank_many_correct [OF _ assms(2,3), of b start] assms(1) by (simp add: bitset_inv_wf)
next
  case (Array_c a)
  then show ?thesis using array_rank_many_correct [OF _ assms(2,3), of a start] assms(1) by simp
next
  case (Run_c r)
  then show ?thesis using run_rank_many_correct [OF _ assms(2,3), of r start] assms(1) by simp
qed

section \<open>Values and bytes out\<close>

lemma container_to_uint32_array_correct:
  assumes "container_lazy_ok c"
  shows "container_to_uint32_array c base =
    (int (card (container_abs c)), map (\<lambda>x. base + ucast x) (sorted_list_of_set (container_abs c)))"
  using assms by (cases c)
    (simp_all add: Let_def bitset_to_uint32_array_correct bitset_lazy_wf array_to_uint32_array_correct run_to_uint32_array_correct add.commute)

lemma container_iterate_correct:
  assumes "container_lazy_ok c"
  shows "container_iterate c base f s =
      iterate_values f (map (\<lambda>x. base + ucast x) (sorted_list_of_set (container_abs c))) s"
    and "container_iterate64 c base g high s =
      iterate_values g (map (\<lambda>x. high OR ucast (base + ucast x)) (sorted_list_of_set (container_abs c))) s"
proof -
  have m: "iterate_values (\<lambda>v. g (h v)) xs p = iterate_values g (map h xs) p"
    for g :: "u64 \<Rightarrow> 's \<Rightarrow> bool \<times> 's" and h :: "u32 \<Rightarrow> u64" and xs p
    by (induction xs arbitrary: p) (simp_all split: prod.splits)
  have a: "take (ac_len a) (ac_array a) = sorted_list_of_set (array_abs a)" if "array_inv a" for a
    using array_cells_sorted [OF that] that by (simp add: array_inv_def)
  show "container_iterate c base f s =
      iterate_values f (map (\<lambda>x. base + ucast x) (sorted_list_of_set (container_abs c))) s"
    using assms by (cases c) (simp_all add: bitset_iterate_correct bitset_lazy_wf array_container_iterate_def a
        run_iterate_correct add.commute)
  have "bitset_container_iterate64 b base g high s =
      iterate_values g (map (\<lambda>x. high OR ucast (base + ucast x)) (sorted_list_of_set (bitset_abs b))) s"
    if "bitset_wf b" for b
    using bitset_iterate_correct [OF that, of base "\<lambda>v. g (high OR ucast v)" s] m [of g "\<lambda>v. high OR ucast v"]
    by (simp add: bitset_container_iterate_def bitset_container_iterate64_def o_def add.commute)
  then show "container_iterate64 c base g high s =
      iterate_values g (map (\<lambda>x. high OR ucast (base + ucast x)) (sorted_list_of_set (container_abs c))) s"
    using assms by (cases c) (simp_all add: bitset_lazy_wf array_container_iterate64_def a run_iterate_correct add.commute)
qed

lemma container_write_size:
  assumes "container_inv c"
  shows "snd (container_write c) = container_size_in_bytes c"
    and "int (length (fst (container_write c))) = container_size_in_bytes c"
proof -
  show s: "snd (container_write c) = container_size_in_bytes c"
    by (cases c) (simp_all add: bitset_container_write_def array_container_write_def run_container_write_def)
  have "int (length (fst (container_write c))) = snd (container_write c)"
  proof (cases c)
    case (Bitset_c b)
    then show ?thesis using bitset_write_read(1) [of b] assms by (simp add: bitset_inv_wf)
  next
    case (Array_c a)
    then show ?thesis using array_write_read(2) [of a] assms by simp
  next
    case (Run_c r)
    then show ?thesis using run_write_read(1) [of r] assms by simp
  qed
  then show "int (length (fst (container_write c))) = container_size_in_bytes c" using s by simp
qed

text \<open>
  What the model asks of any container before it is validated: its initialised cells are as many as its
  count says (none for a negative count), and a bitset has its 1024 words. Order, capacity, limits, the
  counts of bitsets and emptiness are for the validation to find out.
\<close>

fun container_cells :: "container_t \<Rightarrow> bool" where
  "container_cells (Bitset_c b) \<longleftrightarrow> length (bc_words b) = 1024"
| "container_cells (Array_c a) \<longleftrightarrow> length (ac_array a) = nat (ac_cardinality a)"
| "container_cells (Run_c r) \<longleftrightarrow> length (rc_runs r) = nat (rc_n_runs r)"

lemma container_inv_cells: "container_inv c \<Longrightarrow> container_cells c"
  by (cases c) (auto simp: bitset_inv_def bitset_wf_def array_inv_def run_inv_def)

lemma container_validate_correct:
  assumes "container_cells c"
  shows "container_internal_validate c = None \<longleftrightarrow> container_inv c \<and> container_abs c \<noteq> {}"
proof (cases c)
  case (Bitset_c b)
  then show ?thesis using assms bitset_validate_correct [of b] by (auto simp: bitset_wf_def bitset_inv_def)
next
  case (Array_c a)
  have ne: "array_abs a \<noteq> {} \<longleftrightarrow> 0 < ac_cardinality a" if "array_inv a"
    using array_inv_card [OF that] by (simp add: card_gt_0_iff)
  show ?thesis
  proof (cases "ac_cardinality a < 0")
    case True
    then show ?thesis by (simp add: Array_c array_container_validate_def array_inv_def)
  next
    case False
    then have "ac_cardinality a = int (length (ac_array a))" using assms by (simp add: Array_c)
    then show ?thesis using array_validate_correct [of a] ne by (auto simp: Array_c)
  qed
next
  case (Run_c r)
  have ne: "run_abs r \<noteq> {} \<longleftrightarrow> rc_runs r \<noteq> []" if "run_inv r"
    using run_empty_correct(1) [OF that] that by (simp add: run_container_empty_def run_inv_def)
  show ?thesis
  proof (cases "rc_n_runs r < 0")
    case True
    then show ?thesis by (simp add: Run_c run_container_validate_def run_inv_def)
  next
    case False
    then have "rc_n_runs r = int (length (rc_runs r))" using assms by (simp add: Run_c)
    then show ?thesis using run_validate_correct [of r] ne by (auto simp: Run_c)
  qed
qed

section \<open>Shifts\<close>

definition moved :: "container_t option \<Rightarrow> u16 set \<Rightarrow> u16 \<Rightarrow> bool" where
  "moved c S d \<longleftrightarrow> (case c of None \<Rightarrow> S = {} | Some l \<Rightarrow> container_lazy_ok l \<and> container_abs l = (\<lambda>x. x + d) ` S)"

lemma array_image_small:
  assumes "array_inv l" and "array_abs l = f ` S" and "S \<subseteq> array_abs a" and "array_inv a" and "ac_cardinality a \<le> 4096"
  shows "ac_cardinality l \<le> 4096"
proof -
  have "card (array_abs l) \<le> card S" unfolding assms(2) by (rule card_image_le) simp
  also have "\<dots> \<le> card (array_abs a)" using assms(3) by (rule card_mono [rotated]) simp
  finally show ?thesis using assms(5) array_inv_card [OF assms(1)] array_inv_card [OF assms(4)] by simp
qed

lemma container_add_offset_correct:
  assumes inv: "container_inv c" and d: "d \<noteq> 0" and r: "container_add_offset c True True d = (lo, hi)"
  shows "moved lo {x \<in> container_abs c. unat x + unat d < 65536} d"
    and "moved hi {x \<in> container_abs c. 65536 \<le> unat x + unat d} d"
proof -
  let ?L = "{x \<in> container_abs c. unat x + unat d < 65536}" and ?H = "{x \<in> container_abs c. 65536 \<le> unat x + unat d}"
  have "moved lo ?L d \<and> moved hi ?H d"
  proof (cases c)
    case (Bitset_c b)
    obtain l h where o: "bitset_container_offset b True True d = (l, h)" by (cases "bitset_container_offset b True True d")
    have "lo = map_option Bitset_c l" "hi = map_option Bitset_c h" using r o by (simp_all add: Bitset_c)
    then show ?thesis using bitset_offset_correct [OF _ o] inv
      by (auto simp: moved_def Bitset_c bitset_lazy_wf split: option.splits)
  next
    case (Array_c a)
    then have a: "array_inv a" "ac_cardinality a \<le> 4096" using inv by simp_all
    obtain l h where o: "array_container_offset a True True d = (l, h)" by (cases "array_container_offset a True True d")
    have e: "lo = map_option Array_c l" "hi = map_option Array_c h" using r o by (simp_all add: Array_c)
    have s: "{x \<in> array_abs a. P x} \<subseteq> array_abs a" for P by blast
    show ?thesis unfolding e using array_offset_correct [OF a(1) d o] array_image_small [OF _ _ s a]
      by (auto simp: moved_def Array_c split: option.splits)
  next
    case (Run_c q)
    obtain l h where o: "run_container_offset q True True d = (l, h)" by (cases "run_container_offset q True True d")
    have "lo = map_option Run_c l" "hi = map_option Run_c h" using r o by (simp_all add: Run_c)
    then show ?thesis using run_offset_correct [OF _ d o] inv
      by (auto simp: moved_def Run_c split: option.splits)
  qed
  then show "moved lo ?L d" "moved hi ?H d" by blast+
qed

end
