(* ===== verification/Containers_Properties.thy ===== *)
theory Containers_Properties
  imports Mixed_Properties Containers_Ranges
begin

text \<open>
  The properties of the tagged container that \<open>containers.h\<close> dispatches on, each a consequence of
  the lemmas of \<open>Containers_Correct\<close> and \<open>Containers_Ranges\<close>, with an application to concrete
  containers.
\<close>

section \<open>Concrete containers\<close>

lemma container_4_9: "container_inv (Array_c array_4_9)" "container_abs (Array_c array_4_9) = {4, 9}"
  by (simp_all add: array_4_9)

lemma container_2_5_9: "container_inv (Run_c run_2_5_9)" "container_abs (Run_c run_2_5_9) = {2, 3, 4, 5, 9}"
  using run_examples(1) by (simp_all only: container_inv.simps container_abs.simps run_2_5_9_set)

lemma containers_nonempty: "container_abs (Array_c array_4_9) \<noteq> {}" "container_abs (Run_c run_2_5_9) \<noteq> {}"
  unfolding container_4_9 container_2_5_9 by simp_all

section \<open>Set operations\<close>

text \<open>C37: for any pair of container types, intersection, symmetric difference and difference, and the
  union of two non-empty containers, give a container in canonical form (an array of at most 4096
  values, a bitset of more, or a run container) that holds the set operation of the two sets; the
  in-place versions give the same set, and the subset, equality and intersection tests and the
  cardinality of the intersection agree with the sets.\<close>

theorem container_set_operations_spec:
  assumes "container_inv a" and "container_inv b" and "container_abs a \<noteq> {}" and "container_abs b \<noteq> {}"
  shows "container_inv (container_and a b) \<and> container_abs (container_and a b) = container_abs a \<inter> container_abs b
     \<and> container_inv (container_iand a b) \<and> container_abs (container_iand a b) = container_abs a \<inter> container_abs b
     \<and> container_inv (container_or a b) \<and> container_abs (container_or a b) = container_abs a \<union> container_abs b
     \<and> container_inv (container_ior a b) \<and> container_abs (container_ior a b) = container_abs a \<union> container_abs b
     \<and> container_inv (container_xor a b) \<and> container_abs (container_xor a b) = sym_diff (container_abs a) (container_abs b)
     \<and> container_inv (container_ixor a b) \<and> container_abs (container_ixor a b) = sym_diff (container_abs a) (container_abs b)
     \<and> container_inv (container_andnot a b) \<and> container_abs (container_andnot a b) = container_abs a - container_abs b
     \<and> container_inv (container_iandnot a b) \<and> container_abs (container_iandnot a b) = container_abs a - container_abs b
     \<and> (container_is_subset a b \<longleftrightarrow> container_abs a \<subseteq> container_abs b)
     \<and> (container_equals a b \<longleftrightarrow> container_abs a = container_abs b)
     \<and> (container_intersect a b \<longleftrightarrow> container_abs a \<inter> container_abs b \<noteq> {})
     \<and> container_and_cardinality a b = int (card (container_abs a \<inter> container_abs b))"
  using container_and_correct [OF assms(1,2)] container_iand_correct [OF assms(1,2)]
    container_or_correct [OF assms] container_ior_correct [OF assms]
    container_xor_correct [OF assms(1,2)] container_ixor_correct [OF assms(1,2)]
    container_andnot_correct [OF assms(1,2)] container_iandnot_correct [OF assms(1,2)]
    container_subset.test_rel [OF assms(1,2)]
    container_same.test_rel [OF container_inv_lazy [OF assms(1)] container_inv_lazy [OF assms(2)]]
    container_meet.test_rel [OF assms(1,2)] container_and_cardinality_correct [OF assms(1,2)]
  by - ((elim conjE)?, intro conjI; assumption)

theorem container_set_operations_spec_witness:
  "container_abs (container_and (Array_c array_4_9) (Run_c run_2_5_9)) = {4, 9} \<inter> {2, 3, 4, 5, 9}"
proof -
  have "container_abs (container_and (Array_c array_4_9) (Run_c run_2_5_9))
      = container_abs (Array_c array_4_9) \<inter> container_abs (Run_c run_2_5_9)"
    using container_set_operations_spec [OF container_4_9(1) container_2_5_9(1) containers_nonempty]
    by - (elim conjE, assumption)
  then show ?thesis unfolding container_4_9 container_2_5_9 .
qed

lemma lazy_ior_chain:
  assumes "container_lazy_ok c" and "container_abs c \<noteq> {}" and "\<forall>d \<in> set ds. container_lazy_ok d \<and> container_abs d \<noteq> {}"
  shows "container_lazy_ok (foldl container_lazy_ior c ds) \<and>
    container_abs (foldl container_lazy_ior c ds) = container_abs c \<union> \<Union> (container_abs ` set ds)"
  using assms
proof (induction ds arbitrary: c)
  case (Cons d ds)
  then have d: "container_lazy_ok d" "container_abs d \<noteq> {}" by simp_all
  note step = container_lazy_ior_correct [OF Cons.prems(1) d(1) Cons.prems(2) d(2)]
  show ?case using Cons.IH [of "container_lazy_ior c d"] step Cons.prems by (simp add: Un_assoc)
qed simp

lemma lazy_ixor_chain:
  assumes "container_lazy_ok c" and "\<forall>d \<in> set ds. container_inv d"
  shows "container_lazy_ok (foldl container_lazy_ixor c ds) \<and>
    container_abs (foldl container_lazy_ixor c ds) = foldl (\<lambda>S d. sym_diff S (container_abs d)) (container_abs c) ds"
  using assms
proof (induction ds arbitrary: c)
  case (Cons d ds)
  then show ?case
    using Cons.IH [of "container_lazy_ixor c d"] container_lazy_ixor_correct [OF Cons.prems(1), of d] by simp
qed simp

text \<open>C38: a chain of lazy in-place unions, or of lazy in-place symmetric differences, in which bitsets
  carry an unknown cardinality and may hold few values, ends after \<open>container_repair_after_lazy\<close> in
  a canonical container that holds the union, or the symmetric difference, of all the sets.\<close>

theorem container_lazy_spec:
  assumes "container_lazy_ok c" and "container_abs c \<noteq> {}"
    and "\<forall>d \<in> set ds. container_lazy_ok d \<and> container_abs d \<noteq> {}" and "\<forall>d \<in> set es. container_inv d"
  shows "container_inv (container_repair_after_lazy (foldl container_lazy_ior c ds))
     \<and> container_abs (container_repair_after_lazy (foldl container_lazy_ior c ds)) = container_abs c \<union> \<Union> (container_abs ` set ds)
     \<and> container_inv (container_repair_after_lazy (foldl container_lazy_ixor c es))
     \<and> container_abs (container_repair_after_lazy (foldl container_lazy_ixor c es))
         = foldl (\<lambda>S d. sym_diff S (container_abs d)) (container_abs c) es"
  using lazy_ior_chain [OF assms(1-3)] lazy_ixor_chain [OF assms(1,4)] container_repair_correct by simp

theorem container_lazy_spec_witness:
  "container_abs (container_repair_after_lazy (container_lazy_ior (Array_c array_4_9) (Run_c run_2_5_9))) = {4, 9} \<union> {2, 3, 4, 5, 9}"
proof -
  have "\<forall>d \<in> set [Run_c run_2_5_9]. container_lazy_ok d \<and> container_abs d \<noteq> {}"
    using container_inv_lazy [OF container_2_5_9(1)] containers_nonempty(2) by simp
  note chain = container_lazy_spec [OF container_inv_lazy [OF container_4_9(1)] containers_nonempty(1) this, of "[]"]
  have "\<forall>d \<in> set []. container_inv d" by simp
  from chain [OF this] have "container_abs (container_repair_after_lazy (foldl container_lazy_ior (Array_c array_4_9) [Run_c run_2_5_9]))
      = container_abs (Array_c array_4_9) \<union> \<Union> (container_abs ` set [Run_c run_2_5_9])" by - (elim conjE, assumption)
  then show ?thesis by (simp only: foldl.simps list.set image_insert image_empty ccpo_Sup_singleton container_4_9 container_2_5_9)
qed

section \<open>Updates\<close>

text \<open>C39: adding and removing a value, and complementing a range or everything, give a canonical
  container with exactly that change; adding a range \<open>lo..hi\<close> gives the union with it, and removing
  it gives the difference, as \<open>NULL\<close> exactly when nothing is left.\<close>

theorem container_update_spec:
  assumes "container_inv c" and "unat lo \<le> unat hi" and "unat hi < 65536"
  shows "container_inv (container_add c x) \<and> container_abs (container_add c x) = insert x (container_abs c)
     \<and> container_inv (container_remove c x) \<and> container_abs (container_remove c x) = container_abs c - {x}
     \<and> container_inv (container_add_range c lo hi)
     \<and> container_abs (container_add_range c lo hi) = container_abs c \<union> {y. unat lo \<le> unat y \<and> unat y \<le> unat hi}
     \<and> (case container_remove_range c lo hi of
          None \<Rightarrow> container_abs c \<subseteq> {y. unat lo \<le> unat y \<and> unat y \<le> unat hi}
        | Some d \<Rightarrow> container_inv d \<and> container_abs d \<noteq> {}
            \<and> container_abs d = container_abs c - {y. unat lo \<le> unat y \<and> unat y \<le> unat hi})
     \<and> container_inv (container_not_range c lo hi)
     \<and> container_abs (container_not_range c lo hi) = sym_diff (container_abs c) {y. unat lo \<le> unat y \<and> unat y < unat hi}
     \<and> container_inv (container_inot_range c lo hi)
     \<and> container_abs (container_inot_range c lo hi) = sym_diff (container_abs c) {y. unat lo \<le> unat y \<and> unat y < unat hi}
     \<and> container_inv (container_not c) \<and> container_abs (container_not c) = - container_abs c
     \<and> container_inv (container_inot c) \<and> container_abs (container_inot c) = - container_abs c"
proof -
  have "case container_remove_range c lo hi of
          None \<Rightarrow> container_abs c \<subseteq> {y. unat lo \<le> unat y \<and> unat y \<le> unat hi}
        | Some d \<Rightarrow> container_inv d \<and> container_abs d \<noteq> {}
            \<and> container_abs d = container_abs c - {y. unat lo \<le> unat y \<and> unat y \<le> unat hi}"
    using container_remove_range_correct [OF assms]
    by (cases "container_remove_range c lo hi") (simp_all only: removes_simps option.case Diff_eq_empty_iff simp_thms)
  then show ?thesis
    using container_add_correct [OF assms(1)] container_remove_correct [OF assms(1)] container_add_range_correct [OF assms]
      container_not_range_correct [OF assms(1,2)] container_not_correct [OF assms(1)] less_imp_le [OF assms(3)]
    by - ((elim conjE)?, intro conjI; (assumption | blast))
qed

theorem container_update_spec_witness:
  "container_abs (container_add_range (Run_c run_2_5_9) 4 4) = {2, 3, 4, 5, 9} \<union> {y. 4 \<le> unat y \<and> unat y \<le> 4}"
proof -
  have le: "unat (4 :: u32) \<le> unat (4 :: u32)" "unat (4 :: u32) < 65536" by simp_all
  have "container_abs (container_add_range (Run_c run_2_5_9) 4 4)
      = container_abs (Run_c run_2_5_9) \<union> {y. unat (4 :: u32) \<le> unat y \<and> unat y \<le> unat (4 :: u32)}"
    using container_update_spec [OF container_2_5_9(1) le, of 0] by - (elim conjE, assumption)
  then show ?thesis unfolding container_2_5_9 by simp
qed

section \<open>Queries\<close>

text \<open>C40: cardinality, membership, fullness and emptiness, rank, index, minimum and maximum of a canonical
  container are those of its set (the last two when it has a value); reading it out and iterating over it
  visit its values in increasing order; it is written in exactly \<open>container_size_in_bytes\<close> bytes; a clone
  is equal to it as a set. The validation takes any container \<open>d\<close>, of whatever order, capacity, count or
  size, and accepts it exactly when it is canonical and not empty.\<close>

theorem container_query_spec:
  assumes "container_inv c" and "container_cells d"
  shows "container_get_cardinality c = int (card (container_abs c))
     \<and> (container_contains c x \<longleftrightarrow> x \<in> container_abs c)
     \<and> (container_is_full c \<longleftrightarrow> container_abs c = UNIV)
     \<and> (container_nonzero_cardinality c \<longleftrightarrow> container_abs c \<noteq> {})
     \<and> container_rank c x = int (card {y \<in> container_abs c. y \<le> x})
     \<and> container_get_index c x = (if x \<in> container_abs c then int (card {y \<in> container_abs c. y < x}) else - 1)
     \<and> (container_abs c \<noteq> {} \<longrightarrow> container_minimum c = Min (container_abs c) \<and> container_maximum c = Max (container_abs c))
     \<and> container_to_uint32_array c base
         = (int (card (container_abs c)), map (\<lambda>x. base + ucast x) (sorted_list_of_set (container_abs c)))
     \<and> container_iterate c base f s = iterate_values f (map (\<lambda>x. base + ucast x) (sorted_list_of_set (container_abs c))) s
     \<and> snd (container_write c) = container_size_in_bytes c
     \<and> int (length (fst (container_write c))) = container_size_in_bytes c
     \<and> (container_internal_validate d = None \<longleftrightarrow> container_inv d \<and> container_abs d \<noteq> {})
     \<and> container_inv (container_clone c) \<and> container_abs (container_clone c) = container_abs c"
    using container_cardinality_abs [OF assms(1)] container_contains_correct [OF container_inv_lazy [OF assms(1)], of x]
      container_is_full_correct [OF assms(1)] container_nonzero_correct [OF container_inv_lazy [OF assms(1)]]
      container_rank_correct [OF assms(1), of x] container_get_index_correct [OF assms(1), of x]
      container_min_max_correct [OF assms(1)] container_to_uint32_array_correct [OF container_inv_lazy [OF assms(1)], of base]
      container_iterate_correct(1) [OF container_inv_lazy [OF assms(1)], of base f s] container_write_size [OF assms(1)]
      container_validate_correct [OF assms(2)] container_clone_correct [OF assms(1)]
    by simp

theorem container_query_spec_witness:
  "container_rank (Array_c array_4_9) 6 = int (card {y \<in> {4, 9 :: u16}. y \<le> 6}) \<and> container_maximum (Array_c array_4_9) = Max {4, 9}
   \<and> container_internal_validate (Array_c \<lparr>ac_cardinality = 2, ac_capacity = 2, ac_array = [9, 4]\<rparr>) \<noteq> None"
proof -
  let ?d = "Array_c \<lparr>ac_cardinality = 2, ac_capacity = 2, ac_array = [9, 4]\<rparr>"
  have d: "container_cells ?d" "\<not> container_inv ?d" by (simp_all add: array_inv_def)
  note spec = container_query_spec [OF container_4_9(1) d(1), of 6 0 "\<lambda>_ s. (True, s)" "()"]
  have "container_rank (Array_c array_4_9) 6 = int (card {y \<in> container_abs (Array_c array_4_9). y \<le> 6})"
    "container_abs (Array_c array_4_9) \<noteq> {} \<longrightarrow> container_minimum (Array_c array_4_9) = Min (container_abs (Array_c array_4_9))
      \<and> container_maximum (Array_c array_4_9) = Max (container_abs (Array_c array_4_9))"
    "container_internal_validate ?d = None \<longleftrightarrow> container_inv ?d \<and> container_abs ?d \<noteq> {}"
    using spec by - (elim conjE, assumption)+
  then show ?thesis using d(2) containers_nonempty(1) unfolding container_4_9 by blast
qed

end
