(* ===== verification/Roaring_Array.thy ===== *)
theory Roaring_Array
  imports Containers_Ranges
begin

text \<open>
  \<open>include/roaring/roaring_array.h\<close> and \<open>src/roaring_array.c\<close> without the serialization: the table
  of a bitmap from the high 16 bits of its values to containers. The C code keeps three parallel
  arrays (\<open>keys\<close>, \<open>containers\<close>, \<open>typecodes\<close>) that are always moved together; here they are one list of
  entries, a type code being the constructor of its container. The list holds the live cells, so
  \<open>size\<close> is its length, and \<open>allocation_size\<close> is kept beside it. A container that two bitmaps share
  under copy on write is the same value in both, because every write goes to a writable copy
  (\<open>get_writable_copy_if_shared\<close>); freeing has no counterpart and allocation succeeds.
\<close>

section \<open>The table\<close>

record roaring_array =
  ra_allocation_size :: int
  ra_entries :: "(u16 \<times> container_t) list"
  ra_flags :: u8

abbreviation ra_size :: "roaring_array \<Rightarrow> nat" where
  "ra_size ra \<equiv> length (ra_entries ra)"

abbreviation ra_keys :: "roaring_array \<Rightarrow> u16 list" where
  "ra_keys ra \<equiv> map fst (ra_entries ra)"

abbreviation ra_containers :: "roaring_array \<Rightarrow> container_t list" where
  "ra_containers ra \<equiv> map snd (ra_entries ra)"

definition ra_get_size :: "roaring_array \<Rightarrow> int" where
  "ra_get_size ra = int (ra_size ra)"

definition ra_init :: roaring_array where
  "ra_init = \<lparr>ra_allocation_size = 0, ra_entries = [], ra_flags = 0\<rparr>"

definition ra_init_with_capacity :: "u32 \<Rightarrow> roaring_array" where
  "ra_init_with_capacity cap =
     (let cap = (if cap > 0x10000 then 0x10000 else cap)
      in if cap > 0 then ra_init\<lparr>ra_allocation_size := uint cap\<rparr> else ra_init)"

definition realloc_array :: "roaring_array \<Rightarrow> int \<Rightarrow> roaring_array" where
  "realloc_array ra new_capacity = ra\<lparr>ra_allocation_size := new_capacity\<rparr>"

text \<open>A cell takes \<open>sizeof(uint16_t) + sizeof(container_t *) + sizeof(uint8_t)\<close> bytes.\<close>

definition ra_shrink_to_fit :: "roaring_array \<Rightarrow> roaring_array \<times> int" where
  "ra_shrink_to_fit ra =
     (let savings = (ra_allocation_size ra - ra_get_size ra) * (2 + 8 + 1)
      in ((realloc_array ra (ra_get_size ra))\<lparr>ra_allocation_size := ra_get_size ra\<rparr>, savings))"

definition extend_array :: "roaring_array \<Rightarrow> int \<Rightarrow> roaring_array" where
  "extend_array ra k =
     (let desired_size = ra_get_size ra + k; max_containers = 65536
      in if desired_size > ra_allocation_size ra
         then let new_capacity = (if ra_get_size ra < 1024 then 2 * desired_size else 5 * desired_size div 4);
                  new_capacity = (if new_capacity > max_containers then max_containers else new_capacity)
              in realloc_array ra new_capacity
         else ra)"

text \<open>A copy for a second bitmap: the same container, now shared, or a clone.\<close>

definition get_copy_of_container :: "container_t \<Rightarrow> bool \<Rightarrow> container_t" where
  "get_copy_of_container c copy_on_write = (if copy_on_write then c else container_clone c)"

definition ra_overwrite :: "roaring_array \<Rightarrow> roaring_array \<Rightarrow> bool \<Rightarrow> roaring_array" where
  "ra_overwrite source dest copy_on_write =
     (if ra_size source = 0 then dest\<lparr>ra_entries := []\<rparr>
      else let dest = (if ra_allocation_size dest < ra_get_size source then realloc_array dest (ra_get_size source) else dest)
           in dest\<lparr>ra_entries := map (\<lambda>(k, c). (k, get_copy_of_container c copy_on_write)) (ra_entries source)\<rparr>)"

definition ra_reset :: "roaring_array \<Rightarrow> roaring_array" where
  "ra_reset ra = fst (ra_shrink_to_fit (ra\<lparr>ra_entries := []\<rparr>))"

definition ra_clear_without_containers :: "roaring_array \<Rightarrow> roaring_array" where
  "ra_clear_without_containers ra = ra\<lparr>ra_entries := [], ra_allocation_size := 0\<rparr>"

section \<open>Search\<close>

text \<open>The last key is tried first.\<close>

definition ra_get_index :: "roaring_array \<Rightarrow> u16 \<Rightarrow> int" where
  "ra_get_index ra x =
     (if ra_size ra = 0 \<or> ra_keys ra ! (ra_size ra - 1) = x then ra_get_size ra - 1
      else binarySearch (ra_keys ra) (ra_size ra) x)"

definition ra_get_container_at_index :: "roaring_array \<Rightarrow> nat \<Rightarrow> container_t" where
  "ra_get_container_at_index ra i = snd (ra_entries ra ! i)"

definition ra_get_key_at_index :: "roaring_array \<Rightarrow> nat \<Rightarrow> u16" where
  "ra_get_key_at_index ra i = fst (ra_entries ra ! i)"

definition ra_get_container :: "roaring_array \<Rightarrow> u16 \<Rightarrow> container_t option" where
  "ra_get_container ra x =
     (let i = binarySearch (ra_keys ra) (ra_size ra) x
      in if i < 0 then None else Some (snd (ra_entries ra ! nat i)))"

definition ra_advance_until :: "roaring_array \<Rightarrow> u16 \<Rightarrow> int \<Rightarrow> nat" where
  "ra_advance_until ra x pos = advanceUntil (ra_keys ra) pos (ra_size ra) x"

text \<open>The containers that are passed over are freed.\<close>

function ra_advance_until_freeing :: "roaring_array \<Rightarrow> u16 \<Rightarrow> nat \<Rightarrow> nat" where
  "ra_advance_until_freeing ra x pos =
     (if pos < ra_size ra \<and> ra_keys ra ! pos < x then ra_advance_until_freeing ra x (pos + 1) else pos)"
  by auto
termination by (relation "measure (\<lambda>(ra, x, pos). ra_size ra - pos)") auto

declare ra_advance_until_freeing.simps [simp del]

section \<open>Writing, moving and appending cells\<close>

definition ra_set_container_at_index :: "roaring_array \<Rightarrow> nat \<Rightarrow> container_t \<Rightarrow> roaring_array" where
  "ra_set_container_at_index ra i c = ra\<lparr>ra_entries := (ra_entries ra)[i := (fst (ra_entries ra ! i), c)]\<rparr>"

definition ra_replace_key_and_container_at_index :: "roaring_array \<Rightarrow> nat \<Rightarrow> u16 \<Rightarrow> container_t \<Rightarrow> roaring_array" where
  "ra_replace_key_and_container_at_index ra i key c = ra\<lparr>ra_entries := (ra_entries ra)[i := (key, c)]\<rparr>"

definition ra_append :: "roaring_array \<Rightarrow> u16 \<Rightarrow> container_t \<Rightarrow> roaring_array" where
  "ra_append ra key c = (let ra = extend_array ra 1 in ra\<lparr>ra_entries := ra_entries ra @ [(key, c)]\<rparr>)"

definition ra_append_copy :: "roaring_array \<Rightarrow> roaring_array \<Rightarrow> nat \<Rightarrow> bool \<Rightarrow> roaring_array" where
  "ra_append_copy ra sa index copy_on_write =
     (let ra = extend_array ra 1
      in ra\<lparr>ra_entries := ra_entries ra
              @ [(fst (ra_entries sa ! index), get_copy_of_container (snd (ra_entries sa ! index)) copy_on_write)]\<rparr>)"

function ra_append_copies_until_loop :: "roaring_array \<Rightarrow> u16 \<Rightarrow> bool \<Rightarrow> nat \<Rightarrow> roaring_array \<Rightarrow> roaring_array" where
  "ra_append_copies_until_loop sa stopping_key copy_on_write i ra =
     (if i < ra_size sa
      then if ra_keys sa ! i \<ge> stopping_key then ra
           else ra_append_copies_until_loop sa stopping_key copy_on_write (i + 1) (ra_append_copy ra sa i copy_on_write)
      else ra)"
  by auto
termination by (relation "measure (\<lambda>(sa, k, cow, i, ra). ra_size sa - i)") auto

declare ra_append_copies_until_loop.simps [simp del]

definition ra_append_copies_until :: "roaring_array \<Rightarrow> roaring_array \<Rightarrow> u16 \<Rightarrow> bool \<Rightarrow> roaring_array" where
  "ra_append_copies_until ra sa stopping_key copy_on_write = ra_append_copies_until_loop sa stopping_key copy_on_write 0 ra"

text \<open>The cells \<open>start_index\<close> to \<open>end_index - 1\<close> of \<open>sa\<close>.\<close>

definition ra_append_copy_range :: "roaring_array \<Rightarrow> roaring_array \<Rightarrow> nat \<Rightarrow> nat \<Rightarrow> bool \<Rightarrow> roaring_array" where
  "ra_append_copy_range ra sa start_index end_index copy_on_write =
     (let ra = extend_array ra (int end_index - int start_index)
      in ra\<lparr>ra_entries := ra_entries ra
              @ map (\<lambda>i. (fst (ra_entries sa ! i), get_copy_of_container (snd (ra_entries sa ! i)) copy_on_write))
                  [start_index ..< end_index]\<rparr>)"

definition ra_append_copies_after :: "roaring_array \<Rightarrow> roaring_array \<Rightarrow> u16 \<Rightarrow> bool \<Rightarrow> roaring_array" where
  "ra_append_copies_after ra sa before_start copy_on_write =
     (let start_location = ra_get_index sa before_start;
          start_location = (if start_location \<ge> 0 then start_location + 1 else - start_location - 1)
      in ra_append_copy_range ra sa (nat start_location) (ra_size sa) copy_on_write)"

definition ra_append_move_range :: "roaring_array \<Rightarrow> roaring_array \<Rightarrow> nat \<Rightarrow> nat \<Rightarrow> roaring_array" where
  "ra_append_move_range ra sa start_index end_index =
     (let ra = extend_array ra (int end_index - int start_index)
      in ra\<lparr>ra_entries := ra_entries ra @ map (\<lambda>i. ra_entries sa ! i) [start_index ..< end_index]\<rparr>)"

definition ra_append_range :: "roaring_array \<Rightarrow> roaring_array \<Rightarrow> nat \<Rightarrow> nat \<Rightarrow> bool \<Rightarrow> roaring_array" where
  "ra_append_range ra sa start_index end_index copy_on_write =
     (let ra = extend_array ra (int end_index - int start_index)
      in ra\<lparr>ra_entries := ra_entries ra
              @ map (\<lambda>i. (fst (ra_entries sa ! i), get_copy_of_container (snd (ra_entries sa ! i)) copy_on_write))
                  [start_index ..< end_index]\<rparr>)"

definition ra_insert_new_key_value_at :: "roaring_array \<Rightarrow> nat \<Rightarrow> u16 \<Rightarrow> container_t \<Rightarrow> roaring_array" where
  "ra_insert_new_key_value_at ra i key c =
     (let ra = extend_array ra 1 in ra\<lparr>ra_entries := list_insert_at i (key, c) (ra_entries ra)\<rparr>)"

definition ra_downsize :: "roaring_array \<Rightarrow> nat \<Rightarrow> roaring_array" where
  "ra_downsize ra new_length = ra\<lparr>ra_entries := take new_length (ra_entries ra)\<rparr>"

definition ra_remove_at_index :: "roaring_array \<Rightarrow> nat \<Rightarrow> roaring_array" where
  "ra_remove_at_index ra i = ra\<lparr>ra_entries := list_remove_at i (ra_entries ra)\<rparr>"

definition ra_remove_at_index_and_free :: "roaring_array \<Rightarrow> nat \<Rightarrow> roaring_array" where
  "ra_remove_at_index_and_free ra i = ra_remove_at_index ra i"

text \<open>The cells from \<open>begin\<close> to \<open>end - 1\<close> are moved down to \<open>new_begin\<close>; the length stays.\<close>

definition ra_copy_range :: "roaring_array \<Rightarrow> nat \<Rightarrow> nat \<Rightarrow> nat \<Rightarrow> roaring_array" where
  "ra_copy_range ra first stop new_begin =
     ra\<lparr>ra_entries := take new_begin (ra_entries ra) @ take (stop - first) (drop first (ra_entries ra))
          @ drop (new_begin + (stop - first)) (ra_entries ra)\<rparr>"

text \<open>The last \<open>count\<close> cells are moved by \<open>distance\<close>. Cells that are new between the two parts keep what the
  memory held: the old cell where there was one, anything beyond the old end.\<close>

definition ra_shift_tail :: "roaring_array \<Rightarrow> int \<Rightarrow> int \<Rightarrow> roaring_array" where
  "ra_shift_tail ra count distance =
     (let ra = (if distance > 0 then extend_array ra distance else ra);
          srcpos = ra_get_size ra - count;
          dstpos = srcpos + distance
      in ra\<lparr>ra_entries := take (nat dstpos) (ra_entries ra @ replicate (nat distance) undefined)
              @ drop (nat srcpos) (ra_entries ra)\<rparr>)"

section \<open>Reading everything\<close>

fun entries_to_uint32_array :: "(u16 \<times> container_t) list \<Rightarrow> u32 list" where
  "entries_to_uint32_array [] = []"
| "entries_to_uint32_array ((key, c) # es) =
     snd (container_to_uint32_array c (push_bit 16 (ucast key))) @ entries_to_uint32_array es"

definition ra_to_uint32_array :: "roaring_array \<Rightarrow> u32 list" where
  "ra_to_uint32_array ra = entries_to_uint32_array (ra_entries ra)"

fun is_run_container :: "container_t \<Rightarrow> bool" where
  "is_run_container (Run_c _) = True"
| "is_run_container _ = False"

definition ra_has_run_container :: "roaring_array \<Rightarrow> bool" where
  "ra_has_run_container ra \<longleftrightarrow> (\<exists>c \<in> set (ra_containers ra). is_run_container c)"

end
