(* ===== verification/Roaring_Entries.thy ===== *)
theory Roaring_Entries
  imports Roaring_Array
begin

text \<open>
  What a table of a bitmap means: the keys are strictly increasing and no container is empty
  (\<open>entries_ok\<close>, for canonical containers \<open>entries_inv\<close>), \<open>at es k\<close> is the set of low halves stored
  under the high half \<open>k\<close>, and \<open>entries_abs\<close> the set of 32-bit values. \<open>merge_entries\<close> is the
  reference for every loop of \<open>roaring.c\<close> that walks two tables together; the locale
  \<open>entries_merge\<close> proves once what it computes, and each operation on containers interprets it.
\<close>

section \<open>Tables as sets of values\<close>

abbreviation high16 :: "u32 \<Rightarrow> u16" where
  "high16 x \<equiv> ucast (drop_bit 16 x)"

abbreviation low16 :: "u32 \<Rightarrow> u16" where
  "low16 x \<equiv> ucast x"

definition at :: "(u16 \<times> container_t) list \<Rightarrow> u16 \<Rightarrow> u16 set" where
  "at es k = (case map_of es k of None \<Rightarrow> {} | Some c \<Rightarrow> container_abs c)"

definition entries_ok :: "(container_t \<Rightarrow> bool) \<Rightarrow> (u16 \<times> container_t) list \<Rightarrow> bool" where
  "entries_ok P es \<longleftrightarrow> ssorted (map fst es) \<and> (\<forall>e \<in> set es. P (snd e) \<and> container_abs (snd e) \<noteq> {})"

abbreviation entries_inv :: "(u16 \<times> container_t) list \<Rightarrow> bool" where
  "entries_inv \<equiv> entries_ok container_inv"

definition entries_abs :: "(u16 \<times> container_t) list \<Rightarrow> u32 set" where
  "entries_abs es = {x. low16 x \<in> at es (high16 x)}"

lemma at_Nil [simp]: "at [] k = {}"
  by (simp add: at_def)

lemma at_Cons [simp]: "at ((k', c) # es) k = (if k = k' then container_abs c else at es k)"
  by (simp add: at_def)

lemma at_Cons_pair: "at (e # es) k = (if k = fst e then container_abs (snd e) else at es k)"
  by (cases e) simp

lemma at_absent: "k \<notin> fst ` set es \<Longrightarrow> at es k = {}"
  by (simp add: at_def map_of_eq_None_iff [THEN iffD2])

lemma at_below: "\<forall>j \<in> fst ` set es. k < j \<Longrightarrow> at es k = {}"
  using at_absent by blast

lemma at_append: "at (xs @ ys) k = (if k \<in> fst ` set xs then at xs k else at ys k)"
  by (induction xs) (auto simp: at_def)

lemma entries_ok_Nil [simp]: "entries_ok P []"
  by (simp add: entries_ok_def)

lemma entries_ok_Cons [simp]:
  "entries_ok P ((k, c) # es) \<longleftrightarrow> P c \<and> container_abs c \<noteq> {} \<and> (\<forall>k' \<in> fst ` set es. k < k') \<and> entries_ok P es"
  by (auto simp: entries_ok_def)

lemma entries_ok_append:
  "entries_ok P (xs @ ys) \<longleftrightarrow> entries_ok P xs \<and> entries_ok P ys \<and> (\<forall>k \<in> fst ` set xs. \<forall>k' \<in> fst ` set ys. k < k')"
  by (auto simp: entries_ok_def sorted_wrt_append)

lemma at_append_ok: "entries_ok P (xs @ ys) \<Longrightarrow> at (xs @ ys) k = at xs k \<union> at ys k"
proof (cases "k \<in> fst ` set xs")
  case True
  moreover assume "entries_ok P (xs @ ys)"
  ultimately have "k \<notin> fst ` set ys" unfolding entries_ok_append by blast
  then show ?thesis using True at_absent [of k ys] by (simp add: at_append)
qed (simp add: at_append at_absent)

lemma entries_ok_sorted: "entries_ok P es \<Longrightarrow> ssorted (map fst es)"
  by (simp add: entries_ok_def)

lemma entries_ok_nth: "entries_ok P es \<Longrightarrow> i < length es \<Longrightarrow> P (snd (es ! i)) \<and> container_abs (snd (es ! i)) \<noteq> {}"
  by (simp add: entries_ok_def)

lemma entries_ok_take: "entries_ok P es \<Longrightarrow> entries_ok P (take n es)"
  by (metis append_take_drop_id entries_ok_append)

lemma entries_ok_drop: "entries_ok P es \<Longrightarrow> entries_ok P (drop n es)"
  by (metis append_take_drop_id entries_ok_append)

lemma entries_ok_weaken: "entries_ok P es \<Longrightarrow> (\<And>c. P c \<Longrightarrow> Q c) \<Longrightarrow> entries_ok Q es"
  by (auto simp: entries_ok_def)

lemma at_nonempty: "entries_ok P es \<Longrightarrow> at es k \<noteq> {} \<longleftrightarrow> k \<in> fst ` set es"
proof
  assume "entries_ok P es" and "k \<in> fst ` set es"
  then show "at es k \<noteq> {}"
  proof (induction es)
    case (Cons e es)
    then show ?case by (cases e; cases "k = fst e") auto
  qed simp
qed (use at_absent in blast)

lemma at_nth:
  assumes "ssorted (map fst es)" and "i < length es"
  shows "at es (fst (es ! i)) = container_abs (snd (es ! i))"
proof -
  have "map_of es (fst (es ! i)) = Some (snd (es ! i))"
    by (rule map_of_is_SomeI) (simp_all add: assms ssorted_imp_distinct)
  then show ?thesis by (simp add: at_def)
qed

lemma at_keys: "entries_ok P es \<Longrightarrow> fst ` set es = {k. at es k \<noteq> {}}"
  using at_nonempty by blast

lemma keys_determined:
  assumes "entries_ok P xs" and "entries_ok Q ys" and "\<And>k. at xs k \<noteq> {} \<longleftrightarrow> at ys k \<noteq> {}"
  shows "map fst xs = map fst ys"
  by (rule ssorted_set_unique) (simp_all add: entries_ok_sorted [OF assms(1)] entries_ok_sorted [OF assms(2)]
      at_keys [OF assms(1)] at_keys [OF assms(2)] assms(3))

lemma high_low: "x = (push_bit 16 (ucast (high16 x)) OR ucast (low16 x) :: u32)"
  by (rule bit_word_eqI) (auto simp: bit_simps)

lemma high_low_join:
  "high16 (push_bit 16 (ucast k) OR ucast y) = k" "low16 (push_bit 16 (ucast k) OR ucast y) = y"
  by (rule bit_word_eqI, auto simp: bit_simps dest: bit_imp_le_length)+

lemma entries_abs_join: "push_bit 16 (ucast k) OR ucast y \<in> entries_abs es \<longleftrightarrow> y \<in> at es k"
  unfolding entries_abs_def mem_Collect_eq high_low_join ..

lemma at_from_abs: "at es k = {y. push_bit 16 (ucast k) OR ucast y \<in> entries_abs es}"
  unfolding entries_abs_join by simp

lemma entries_abs_eq_iff: "entries_abs xs = entries_abs ys \<longleftrightarrow> at xs = at ys"
proof
  assume "entries_abs xs = entries_abs ys"
  then show "at xs = at ys" using at_from_abs by presburger
qed (simp add: entries_abs_def)

section \<open>Changing one entry\<close>

lemma at_update:
  assumes "ssorted (map fst es)" and "i < length es"
  shows "at (es[i := (fst (es ! i), c)]) k = (if k = fst (es ! i) then container_abs c else at es k)"
proof -
  have split: "es = take i es @ es ! i # drop (Suc i) es" by (rule id_take_nth_drop [OF assms(2)])
  have upd: "es[i := (fst (es ! i), c)] = take i es @ (fst (es ! i), c) # drop (Suc i) es"
    using assms(2) by (simp add: upd_conv_take_nth_drop)
  have "ssorted (map fst (take i es) @ fst (es ! i) # map fst (drop (Suc i) es))"
    using assms(1) split by (metis list.simps(9) map_append)
  then have "fst (es ! i) \<notin> fst ` set (take i es)" by (auto simp: sorted_wrt_append)
  then show ?thesis unfolding upd by (subst (3) split) (auto simp: at_append at_Cons_pair)
qed

lemma entries_ok_update:
  assumes "entries_ok P es" and "i < length es" and "P c" and "container_abs c \<noteq> {}"
  shows "entries_ok P (es[i := (fst (es ! i), c)])"
proof -
  have "map fst (es[i := (fst (es ! i), c)]) = map fst es" by (simp add: map_update list_update_same_conv assms(2))
  then show ?thesis using assms set_update_subset_insert [of es i "(fst (es ! i), c)"] by (auto simp: entries_ok_def)
qed

lemma entries_insert:
  assumes "entries_ok P es" and "k \<notin> fst ` set es" and "P c" and "container_abs c \<noteq> {}"
  defines "es' \<equiv> list_insert_at (lower_bound (map fst es) k) (k, c) es"
  shows "entries_ok P es'" and "at es' k' = (if k' = k then container_abs c else at es k')"
proof -
  let ?p = "lower_bound (map fst es) k"
  have "map fst es' = list_insert_at ?p k (map fst es)"
    by (simp add: es'_def list_insert_at_def take_map drop_map)
  moreover have "ssorted (list_insert_at ?p k (map fst es))"
    using assms(2) by (intro ssorted_insert_at entries_ok_sorted [OF assms(1)]) simp
  ultimately show "entries_ok P es'" using assms(1,3,4) by (auto simp: entries_ok_def es'_def)
  have cut: "at es k' = (if k' \<in> fst ` set (take ?p es) then at (take ?p es) k' else at (drop ?p es) k')"
    by (metis append_take_drop_id at_append)
  have "k \<notin> fst ` set (take ?p es)" using assms(2) by (auto dest: in_set_takeD)
  then show "at es' k' = (if k' = k then container_abs c else at es k')"
    unfolding es'_def list_insert_at_def at_append at_Cons cut by simp
qed

lemma entries_remove:
  assumes "entries_ok P es" and "i < length es"
  shows "entries_ok P (list_remove_at i es)"
    and "at (list_remove_at i es) k = (if k = fst (es ! i) then {} else at es k)"
proof -
  have split: "es = take i es @ es ! i # drop (Suc i) es" by (rule id_take_nth_drop [OF assms(2)])
  have "map fst (list_remove_at i es) = list_remove_at i (map fst es)"
    by (simp add: list_remove_at_def take_map drop_map)
  then have sorted: "ssorted (map fst (list_remove_at i es))"
    using ssorted_remove_at [OF entries_ok_sorted [OF assms(1)]] by simp
  moreover have "set (list_remove_at i es) \<subseteq> set es"
    by (auto simp: list_remove_at_def dest: in_set_takeD in_set_dropD)
  ultimately show "entries_ok P (list_remove_at i es)" using assms(1) by (auto simp: entries_ok_def)
  have ok: "entries_ok P (take i es @ (fst (es ! i), snd (es ! i)) # drop (Suc i) es)" using assms(1) split by simp
  then have "fst (es ! i) \<notin> fst ` set (take i es)" "fst (es ! i) \<notin> fst ` set (drop (Suc i) es)"
    unfolding entries_ok_append entries_ok_Cons by fastforce+
  then show "at (list_remove_at i es) k = (if k = fst (es ! i) then {} else at es k)"
    unfolding list_remove_at_def
    by (subst (2) split) (auto simp: at_append at_absent at_Cons_pair)
qed

section \<open>Walking two tables\<close>

text \<open>The reference: entries with one key only are copied by \<open>cl\<close> or \<open>cr\<close>, or dropped; two containers
  under the same key are combined, and an empty result is dropped.\<close>

fun merge_entries :: "(container_t \<Rightarrow> container_t) option \<Rightarrow> (container_t \<Rightarrow> container_t) option \<Rightarrow>
    (u16 \<Rightarrow> container_t \<Rightarrow> container_t \<Rightarrow> container_t) \<Rightarrow> (u16 \<times> container_t) list \<Rightarrow> (u16 \<times> container_t) list \<Rightarrow>
    (u16 \<times> container_t) list" where
  "merge_entries cl cr f [] ys = (case cr of None \<Rightarrow> [] | Some h \<Rightarrow> map (\<lambda>(k, c). (k, h c)) ys)"
| "merge_entries cl cr f (x # xs) [] = (case cl of None \<Rightarrow> [] | Some h \<Rightarrow> map (\<lambda>(k, c). (k, h c)) (x # xs))"
| "merge_entries cl cr f ((k1, c1) # xs) ((k2, c2) # ys) =
     (if k1 = k2
      then (if container_abs (f k1 c1 c2) = {} then [] else [(k1, f k1 c1 c2)]) @ merge_entries cl cr f xs ys
      else if k1 < k2
      then (case cl of None \<Rightarrow> [] | Some h \<Rightarrow> [(k1, h c1)]) @ merge_entries cl cr f xs ((k2, c2) # ys)
      else (case cr of None \<Rightarrow> [] | Some h \<Rightarrow> [(k2, h c2)]) @ merge_entries cl cr f ((k1, c1) # xs) ys)"

text \<open>The walk reads only what lies ahead: keys of the result are keys of the arguments.\<close>

lemma merge_entries_keys: "fst ` set (merge_entries cl cr f xs ys) \<subseteq> fst ` set xs \<union> fst ` set ys"
proof (induction cl cr f xs ys rule: merge_entries.induct)
  case (3 cl cr f k1 c1 xs k2 c2 ys)
  then show ?case
    by (cases "k1 = k2"; cases "k1 < k2"; cases cl; cases cr) (auto simp del: merge_entries.simps simp: merge_entries.simps(3))
qed (force split: option.splits)+

lemma merge_entries_right:
  "merge_entries cl cr f xs [] = (case cl of None \<Rightarrow> [] | Some h \<Rightarrow> map (\<lambda>(k, c). (k, h c)) xs)"
  by (cases xs) (simp_all split: option.split)

lemma map_entries:
  assumes "entries_ok P xs" and "\<And>c. P c \<Longrightarrow> Q (h c) \<and> container_abs (h c) = container_abs c"
  shows "entries_ok Q (map (\<lambda>(k, c). (k, h c)) xs)" and "at (map (\<lambda>(k, c). (k, h c)) xs) k = at xs k"
proof -
  have keys: "fst ` set (map (\<lambda>(k, c). (k, h c)) xs) = fst ` set xs" for xs :: "(u16 \<times> container_t) list"
    by (simp add: image_image case_prod_unfold)
  show "entries_ok Q (map (\<lambda>(k, c). (k, h c)) xs)" using assms
  proof (induction xs)
    case (Cons e xs)
    then show ?case using keys [of xs] by (cases e) simp
  qed simp
  show "at (map (\<lambda>(k, c). (k, h c)) xs) k = at xs k" using assms by (induction xs) auto
qed

locale entries_merge =
  fixes P1 P2 P3 :: "container_t \<Rightarrow> bool"
    and cl cr :: "(container_t \<Rightarrow> container_t) option"
    and f :: "u16 \<Rightarrow> container_t \<Rightarrow> container_t \<Rightarrow> container_t"
    and member :: "bool \<Rightarrow> bool \<Rightarrow> bool"
  assumes f_correct: "P1 a \<Longrightarrow> P2 b \<Longrightarrow> container_abs a \<noteq> {} \<Longrightarrow> container_abs b \<noteq> {} \<Longrightarrow>
      P3 (f k a b) \<and> container_abs (f k a b) = {x. member (x \<in> container_abs a) (x \<in> container_abs b)}"
    and cl_none: "cl = None \<Longrightarrow> \<not> member True False"
    and cl_some: "cl = Some h \<Longrightarrow> member True False \<and> (\<forall>c. P1 c \<longrightarrow> P3 (h c) \<and> container_abs (h c) = container_abs c)"
    and cr_none: "cr = None \<Longrightarrow> \<not> member False True"
    and cr_some: "cr = Some h \<Longrightarrow> member False True \<and> (\<forall>c. P2 c \<longrightarrow> P3 (h c) \<and> container_abs (h c) = container_abs c)"
    and member_neither: "\<not> member False False"
begin

lemma left_only:
  assumes "entries_ok P1 xs"
  shows "entries_ok P3 (merge_entries cl cr f xs []) \<and> at (merge_entries cl cr f xs []) k = {x. member (x \<in> at xs k) False}"
proof (cases cl)
  case None
  then show ?thesis using cl_none member_neither by (simp add: merge_entries_right) (metis (full_types))
next
  case (Some h)
  show ?thesis
    using map_entries [OF assms, of P3 h] cl_some [OF Some] member_neither by (auto simp: merge_entries_right Some) (metis (full_types))
qed

lemma right_only:
  assumes "entries_ok P2 ys"
  shows "entries_ok P3 (merge_entries cl cr f [] ys) \<and> at (merge_entries cl cr f [] ys) k = {x. member False (x \<in> at ys k)}"
proof (cases cr)
  case None
  then show ?thesis using cr_none member_neither by simp (metis (full_types))
next
  case (Some h)
  show ?thesis
    using map_entries [OF assms, of P3 h] cr_some [OF Some] member_neither by (auto simp: Some) (metis (full_types))
qed

lemma left_head:
  assumes "P1 c" and "container_abs c \<noteq> {}" and m: "entries_ok P3 m" "\<forall>j \<in> fst ` set m. k' < j"
    and at_m: "at m k = {x. member (x \<in> (if k = k' then {} else S)) (x \<in> T)}" and T: "k = k' \<Longrightarrow> T = {}"
  defines "r \<equiv> (case cl of None \<Rightarrow> [] | Some h \<Rightarrow> [(k', h c)]) @ m"
  shows "entries_ok P3 r \<and> at r k = {x. member (x \<in> (if k = k' then container_abs c else S)) (x \<in> T)}"
proof (cases cl)
  case None
  then show ?thesis using cl_none [OF None] member_neither m at_m T
    by (cases "k = k'") (auto simp: r_def, metis (full_types))
next
  case (Some h)
  then show ?thesis using cl_some [OF Some] member_neither m at_m T assms(1,2)
    by (cases "k = k'") (auto simp: r_def, metis (full_types))
qed

lemma right_head:
  assumes "P2 c" and "container_abs c \<noteq> {}" and m: "entries_ok P3 m" "\<forall>j \<in> fst ` set m. k' < j"
    and at_m: "at m k = {x. member (x \<in> T) (x \<in> (if k = k' then {} else S))}" and T: "k = k' \<Longrightarrow> T = {}"
  defines "r \<equiv> (case cr of None \<Rightarrow> [] | Some h \<Rightarrow> [(k', h c)]) @ m"
  shows "entries_ok P3 r \<and> at r k = {x. member (x \<in> T) (x \<in> (if k = k' then container_abs c else S))}"
proof (cases cr)
  case None
  then show ?thesis using cr_none [OF None] member_neither m at_m T
    by (cases "k = k'") (auto simp: r_def, metis (full_types))
next
  case (Some h)
  then show ?thesis using cr_some [OF Some] member_neither m at_m T assms(1,2)
    by (cases "k = k'") (auto simp: r_def, metis (full_types))
qed

lemma below_all:
  fixes k' :: u16
  shows "\<forall>j \<in> fst ` set xs. k' < j \<Longrightarrow> \<forall>j \<in> fst ` set ys. k' < j \<Longrightarrow> \<forall>j \<in> fst ` set (merge_entries cl cr f xs ys). k' < j"
  by (meson UnE subsetD merge_entries_keys)

lemma merge_correct:
  assumes "entries_ok P1 xs" and "entries_ok P2 ys"
  shows "entries_ok P3 (merge_entries cl cr f xs ys) \<and>
    at (merge_entries cl cr f xs ys) k = {x. member (x \<in> at xs k) (x \<in> at ys k)}"
  using assms
proof (induction "length xs + length ys" arbitrary: xs ys rule: less_induct)
  case less
  consider (left) "ys = []" | (right) "xs = []" | (both) k1 c1 xs' k2 c2 ys' where "xs = (k1, c1) # xs'" "ys = (k2, c2) # ys'"
    by (metis list.exhaust prod.exhaust)
  then show ?case
  proof cases
    case left
    then show ?thesis using left_only [OF less.prems(1)] by simp
  next
    case right
    then show ?thesis using right_only [OF less.prems(2)] by simp
  next
    case both
    note [simp] = both
    have ok: "P1 c1" "container_abs c1 \<noteq> {}" "\<forall>j \<in> fst ` set xs'. k1 < j" "entries_ok P1 xs'"
      "P2 c2" "container_abs c2 \<noteq> {}" "\<forall>j \<in> fst ` set ys'. k2 < j" "entries_ok P2 ys'"
      using less.prems by simp_all
    consider (eq) "k1 = k2" | (lt) "k1 < k2" | (gt) "k2 < k1" by (rule linorder_cases)
    then show ?thesis
    proof cases
      case eq
      let ?m = "merge_entries cl cr f xs' ys'"
      have IH: "entries_ok P3 ?m" "at ?m k = {x. member (x \<in> at xs' k) (x \<in> at ys' k)}"
        using less.hyps [of xs' ys'] ok by simp_all
      have keys: "\<forall>j \<in> fst ` set ?m. k1 < j" using ok(3,7) by (intro below_all) (simp_all add: eq)
      then have none: "at ?m k1 = {}" by (intro at_absent) blast
      note f = f_correct [OF ok(1,5,2,6), of k1]
      show ?thesis using IH keys none f by (cases "k = k1") (simp_all add: eq)
    next
      case lt
      let ?m = "merge_entries cl cr f xs' ys"
      have IH: "entries_ok P3 ?m" "at ?m k = {x. member (x \<in> at xs' k) (x \<in> at ys k)}"
        using less.hyps [of xs' ys] ok by simp_all
      have above: "\<forall>j \<in> fst ` set ys. k1 < j" using ok(7) lt by auto
      then have keys: "\<forall>j \<in> fst ` set ?m. k1 < j" using ok(3) by (intro below_all)
      have none: "at xs' k1 = {}" "at ys k1 = {}" using at_below [OF ok(3)] at_below [OF above] .
      have step: "merge_entries cl cr f xs ys = (case cl of None \<Rightarrow> [] | Some h \<Rightarrow> [(k1, h c1)]) @ ?m"
        using less_imp_neq [OF lt] lt by simp
      have at_m: "at ?m k = {x. member (x \<in> (if k = k1 then {} else at xs' k)) (x \<in> at ys k)}"
        using IH(2) none by auto
      show ?thesis
        using left_head [OF ok(1,2) IH(1) keys at_m] none unfolding step by (simp only: both(1) at_Cons)
    next
      case gt
      let ?m = "merge_entries cl cr f xs ys'"
      have IH: "entries_ok P3 ?m" "at ?m k = {x. member (x \<in> at xs k) (x \<in> at ys' k)}"
        using less.hyps [of xs ys'] ok by simp_all
      have above: "\<forall>j \<in> fst ` set xs. k2 < j" using ok(3) gt by auto
      then have keys: "\<forall>j \<in> fst ` set ?m. k2 < j" using ok(7) by (intro below_all)
      have none: "at ys' k2 = {}" "at xs k2 = {}" using at_below [OF ok(7)] at_below [OF above] .
      have step: "merge_entries cl cr f xs ys = (case cr of None \<Rightarrow> [] | Some h \<Rightarrow> [(k2, h c2)]) @ ?m"
        using less_imp_neq [OF gt] gt by auto
      have at_m: "at ?m k = {x. member (x \<in> at xs k) (x \<in> (if k = k2 then {} else at ys' k))}"
        using IH(2) none by auto
      show ?thesis
        using right_head [OF ok(5,6) IH(1) keys at_m] none unfolding step by (simp only: both(2) at_Cons)
    qed
  qed
qed

end

end
