(* ===== verification/Roaring_Table.thy ===== *)
theory Roaring_Table
  imports Roaring_Entries
begin

text \<open>
  The operations of \<open>roaring_array.c\<close> against the meaning of a table. \<open>ra_ok P\<close> is the invariant of a
  table: sorted keys, non-empty containers that satisfy \<open>P\<close>, no more cells in use than allocated,
  only known flags. Searching a key is an instance of \<open>sorted_search\<close>.
\<close>

section \<open>The invariant of a table\<close>

definition flags_ok :: "u8 \<Rightarrow> bool" where
  "flags_ok flags \<longleftrightarrow> flags AND NOT 3 = 0"

definition ra_ok :: "(container_t \<Rightarrow> bool) \<Rightarrow> roaring_array \<Rightarrow> bool" where
  "ra_ok P ra \<longleftrightarrow> entries_ok P (ra_entries ra) \<and> ra_get_size ra \<le> ra_allocation_size ra \<and> flags_ok (ra_flags ra)"

abbreviation ra_inv :: "roaring_array \<Rightarrow> bool" where
  "ra_inv \<equiv> ra_ok container_inv"

abbreviation ra_lazy_ok :: "roaring_array \<Rightarrow> bool" where
  "ra_lazy_ok \<equiv> ra_ok container_lazy_ok"

definition ra_abs :: "roaring_array \<Rightarrow> u32 set" where
  "ra_abs ra = entries_abs (ra_entries ra)"

lemma ra_ok_entries: "ra_ok P ra \<Longrightarrow> entries_ok P (ra_entries ra)"
  by (simp add: ra_ok_def)

lemma ra_ok_sorted: "ra_ok P ra \<Longrightarrow> ssorted (ra_keys ra)"
  unfolding ra_ok_def by (blast intro: entries_ok_sorted)

lemma entries_ok_size: "entries_ok P es \<Longrightarrow> length es \<le> 65536"
proof -
  assume "entries_ok P es"
  then have "card (set (map fst es)) = length es" using ssorted_card entries_ok_sorted by (metis length_map)
  moreover have "card (set (map fst es)) \<le> CARD(u16)" by (rule card_mono) simp_all
  ultimately show ?thesis by (simp add: card_word)
qed

lemma ra_inv_lazy: "ra_inv ra \<Longrightarrow> ra_lazy_ok ra"
  by (auto simp: ra_ok_def intro: entries_ok_weaken container_inv_lazy)

lemma mem_ra_abs: "x \<in> ra_abs ra \<longleftrightarrow> low16 x \<in> at (ra_entries ra) (high16 x)"
  by (simp add: ra_abs_def entries_abs_def)

lemma ra_abs_eqI: "(\<And>k. at (ra_entries r) k = at (ra_entries s) k) \<Longrightarrow> ra_abs r = ra_abs s"
  by (simp add: ra_abs_def entries_abs_def)

lemma ra_empty_iff: "ra_ok P ra \<Longrightarrow> ra_abs ra = {} \<longleftrightarrow> ra_entries ra = []"
proof
  assume ok: "ra_ok P ra" and none: "ra_abs ra = {}"
  have "at (ra_entries ra) k = {}" for k using none by (simp add: ra_abs_def at_from_abs)
  then show "ra_entries ra = []" using at_keys [OF ra_ok_entries [OF ok]] by simp
qed (simp add: ra_abs_def entries_abs_def)

section \<open>Cells in use and allocated cells\<close>

definition room :: "roaring_array \<Rightarrow> bool" where
  "room ra \<longleftrightarrow> min (ra_get_size ra) 65536 \<le> ra_allocation_size ra"

lemma extend_simps [simp]:
  "ra_entries (extend_array ra k) = ra_entries ra" "ra_flags (extend_array ra k) = ra_flags ra"
  by (simp_all add: extend_array_def realloc_array_def Let_def)

lemma extend_room: "0 \<le> k \<Longrightarrow> min (int (ra_size ra) + k) 65536 \<le> ra_allocation_size (extend_array ra k)"
  by (simp add: extend_array_def realloc_array_def Let_def ra_get_size_def) linarith

lemma room_appended:
  "int (length xs) = k \<Longrightarrow> room (extend_array ra k\<lparr>ra_entries := ra_entries ra @ xs\<rparr>)"
  using extend_room [of k ra] by (auto simp: room_def ra_get_size_def)

lemma init_simps [simp]:
  "ra_entries ra_init = []" "ra_flags ra_init = 0" "room ra_init" "ra_entries (ra_init_with_capacity n) = []"
  "ra_flags (ra_init_with_capacity n) = 0" "room (ra_init_with_capacity n)"
  by (simp_all add: ra_init_def ra_init_with_capacity_def room_def ra_get_size_def Let_def)

lemma flags_ok_0 [simp]: "flags_ok 0"
  by (simp add: flags_ok_def)

lemma ra_ok_init: "ra_ok P ra_init" "ra_ok P (ra_init_with_capacity n)"
  by (simp_all add: ra_ok_def ra_get_size_def ra_init_def ra_init_with_capacity_def Let_def)

lemma append_simps [simp]:
  "ra_entries (ra_append ra k c) = ra_entries ra @ [(k, c)]" "ra_flags (ra_append ra k c) = ra_flags ra"
  "room (ra_append ra k c)"
  by (simp_all add: ra_append_def Let_def room_appended)

definition copy_entries :: "bool \<Rightarrow> (u16 \<times> container_t) list \<Rightarrow> (u16 \<times> container_t) list" where
  "copy_entries cow es = map (\<lambda>(k, c). (k, get_copy_of_container c cow)) es"

lemma room_appended_range:
  "i \<le> j \<Longrightarrow> length xs = j - i \<Longrightarrow> room (extend_array ra (int j - int i)\<lparr>ra_entries := ra_entries ra @ xs\<rparr>)"
  by (rule room_appended) simp

lemma copied_cells:
  "j \<le> length es \<Longrightarrow> map (\<lambda>i. (fst (es ! i), h (snd (es ! i)))) [i ..< j] = map (\<lambda>(k, c). (k, h c)) (take (j - i) (drop i es))"
  by (rule nth_equalityI) (auto simp: case_prod_unfold)

lemma append_copy_range_simps:
  assumes "j \<le> ra_size sa"
  shows "ra_entries (ra_append_copy_range ra sa i j cow) = ra_entries ra @ copy_entries cow (take (j - i) (drop i (ra_entries sa)))"
    and "ra_flags (ra_append_copy_range ra sa i j cow) = ra_flags ra"
    and "i \<le> j \<Longrightarrow> room (ra_append_copy_range ra sa i j cow)"
  using copied_cells [OF assms, of "\<lambda>c. get_copy_of_container c cow" i]
  by (simp_all add: ra_append_copy_range_def Let_def copy_entries_def) (rule room_appended_range, use assms in simp_all)

lemma append_range_eq: "ra_append_range = ra_append_copy_range"
  by (simp add: fun_eq_iff ra_append_range_def ra_append_copy_range_def)

lemma append_move_range_simps:
  assumes "j \<le> ra_size sa"
  shows "ra_entries (ra_append_move_range ra sa i j) = ra_entries ra @ take (j - i) (drop i (ra_entries sa))"
    and "ra_flags (ra_append_move_range ra sa i j) = ra_flags ra"
    and "i \<le> j \<Longrightarrow> room (ra_append_move_range ra sa i j)"
  using copied_cells [OF assms, of "\<lambda>c. c" i]
  by (simp_all add: ra_append_move_range_def Let_def) (rule room_appended_range, use assms in simp_all)

lemma insert_simps [simp]:
  "ra_entries (ra_insert_new_key_value_at ra i k c) = list_insert_at i (k, c) (ra_entries ra)"
  "ra_flags (ra_insert_new_key_value_at ra i k c) = ra_flags ra"
  "room (ra_insert_new_key_value_at ra i k c)"
  using extend_room [of 1 ra] by (auto simp: ra_insert_new_key_value_at_def Let_def room_def ra_get_size_def)

lemma room_small: "entries_ok P (ra_entries ra) \<Longrightarrow> room ra \<Longrightarrow> ra_get_size ra \<le> ra_allocation_size ra"
  using entries_ok_size [of P "ra_entries ra"] by (simp add: room_def ra_get_size_def)

lemma ra_okI: "entries_ok P (ra_entries ra) \<Longrightarrow> room ra \<Longrightarrow> flags_ok (ra_flags ra) \<Longrightarrow> ra_ok P ra"
  using room_small by (simp add: ra_ok_def)

lemma ra_ok_room: "ra_ok P ra \<Longrightarrow> room ra"
  by (simp add: ra_ok_def room_def min.coboundedI1)

lemma copy_correct:
  assumes "container_inv c"
  shows "container_inv (get_copy_of_container c cow) \<and> container_abs (get_copy_of_container c cow) = container_abs c"
  using container_clone_correct [OF assms] assms by (simp add: get_copy_of_container_def)

lemma copy_entries_correct:
  assumes "entries_inv es"
  shows "entries_inv (copy_entries cow es)" and "at (copy_entries cow es) k = at es k"
  using map_entries [OF assms, of container_inv "\<lambda>c. get_copy_of_container c cow"] copy_correct
  by (simp_all add: copy_entries_def)

lemma copy_entries_simps [simp]:
  "copy_entries cow [] = []" "copy_entries cow ((k, c) # es) = (k, get_copy_of_container c cow) # copy_entries cow es"
  "fst ` set (copy_entries cow es) = fst ` set es" "length (copy_entries cow es) = length es"
  by (simp_all add: copy_entries_def image_image case_prod_unfold)

lemma clone_lazy:
  "container_lazy_ok c \<Longrightarrow> container_lazy_ok (get_copy_of_container c cow) \<and>
    container_abs (get_copy_of_container c cow) = container_abs c"
  by (cases c) (auto simp: get_copy_of_container_def bitset_clone_eq run_clone_eq array_container_clone_def array_inv_def
      array_abs_def array_container_create_given_capacity_def)

section \<open>Search\<close>

lemma ra_get_index_correct:
  assumes "ssorted (ra_keys ra)"
  shows "ra_get_index ra k = search_result (ra_keys ra) k"
proof (cases "ra_size ra = 0 \<or> ra_keys ra ! (ra_size ra - 1) = k")
  case False
  then show ?thesis using bs.search_correct [of "ra_keys ra" "ra_size ra" k] assms
    by (simp only: ra_get_index_def if_False list.map_ident length_map)
next
  case True
  show ?thesis
  proof (cases "ra_size ra = 0")
    case False
    let ?n = "ra_size ra - 1"
    have k: "ra_keys ra ! ?n = k" and n: "?n < length (ra_keys ra)" using True False by auto
    have "lower_bound (ra_keys ra) k = ?n"
      by (rule lower_bound_eqI) (use k n assms in \<open>auto intro: ssorted_nth_less simp del: nth_map\<close>)
    then show ?thesis using True False k n
      by (simp add: ra_get_index_def search_result_def Let_def ra_get_size_def of_nat_diff Suc_leI del: nth_map)
  qed (simp add: ra_get_index_def search_result_def ra_get_size_def)
qed

interpretation ra_search: sorted_search "\<lambda>es n k. ra_get_index (ra_init\<lparr>ra_entries := es\<rparr>) k" fst
  by unfold_locales (simp add: ra_get_index_correct)

lemma ra_get_index_entries: "ra_get_index ra k = ra_get_index (ra_init\<lparr>ra_entries := ra_entries ra\<rparr>) k"
  by (simp only: ra_get_index_def ra_get_size_def ra_init_def roaring_array.update_convs roaring_array.select_convs)

lemma ra_index_cases:
  assumes "ra_ok P ra"
  obtains (found) i where "ra_get_index ra k = int i" "i < ra_size ra" "fst (ra_entries ra ! i) = k" "k \<in> fst ` set (ra_entries ra)"
      "at (ra_entries ra) k = container_abs (snd (ra_entries ra ! i))" "P (snd (ra_entries ra ! i))"
      "container_abs (snd (ra_entries ra ! i)) \<noteq> {}" "i = lower_bound (ra_keys ra) k"
    | (absent) "ra_get_index ra k < 0" "nat (- ra_get_index ra k - 1) = lower_bound (ra_keys ra) k" "k \<notin> fst ` set (ra_entries ra)"
      "at (ra_entries ra) k = {}" "ra_get_index ra k = - int (lower_bound (ra_keys ra) k) - 1"
proof (cases "0 \<le> ra_get_index ra k")
  case True
  have sorted: "ssorted (map fst (ra_entries ra))" by (rule ra_ok_sorted [OF assms])
  define i where "i = nat (ra_get_index ra k)"
  have i: "i < ra_size ra" "fst (ra_entries ra ! i) = k"
    using ra_search.found_nth [OF sorted, of k] True unfolding i_def by (simp_all add: ra_get_index_entries [of ra])
  have mem: "k \<in> fst ` set (ra_entries ra)" using i by (metis image_eqI nth_mem)
  have "i = lower_bound (ra_keys ra) k"
    using ra_search.found_index [OF sorted mem] unfolding i_def by (simp add: ra_get_index_entries [of ra])
  then show ?thesis
    using found [of i] i mem True at_nth [OF sorted i(1)] entries_ok_nth [OF ra_ok_entries [OF assms] i(1)] by (simp add: i_def)
next
  case False
  have sorted: "ssorted (map fst (ra_entries ra))" by (rule ra_ok_sorted [OF assms])
  have "k \<notin> fst ` set (ra_entries ra)"
    using ra_search.found_iff [OF sorted, of k] False by (simp add: ra_get_index_entries [of ra])
  then show ?thesis
    using absent False ra_search.absent_index [OF sorted, of k] ra_search.absent_value [OF sorted, of k] at_absent
    by (simp add: ra_get_index_entries [of ra])
qed

lemma ra_get_container_correct:
  assumes "ra_ok P ra"
  shows "ra_get_container ra k = map_of (ra_entries ra) k"
proof -
  have sorted: "ssorted (ra_keys ra)" by (rule ra_ok_sorted [OF assms])
  let ?i = "binarySearch (ra_keys ra) (ra_size ra) k"
  show ?thesis
  proof (cases "?i < 0")
    case True
    then have "k \<notin> set (ra_keys ra)" using bs.found_iff [of "ra_keys ra" k] sorted by simp
    then have "map_of (ra_entries ra) k = None" by (simp add: map_of_eq_None_iff)
    then show ?thesis using True by (simp add: ra_get_container_def)
  next
    case False
    then have i: "nat ?i < ra_size ra" "fst (ra_entries ra ! nat ?i) = k"
      using bs.found_nth [of "ra_keys ra" k] sorted nth_map [of "nat ?i" "ra_entries ra" fst] by (simp_all add: linorder_not_less)
    have "map_of (ra_entries ra) (fst (ra_entries ra ! nat ?i)) = Some (snd (ra_entries ra ! nat ?i))"
      by (rule map_of_is_SomeI) (simp add: sorted ssorted_imp_distinct, simp only: prod.collapse nth_mem [OF i(1)])
    then show ?thesis using False i by (simp add: ra_get_container_def)
  qed
qed

lemma lower_bound_split:
  assumes "ssorted (map fst es)"
  shows "take (lower_bound (map fst es) k) es = filter (\<lambda>e. fst e < k) es"
    and "drop (lower_bound (map fst es) k) es = filter (\<lambda>e. \<not> fst e < k) es"
proof -
  have "take (lower_bound (map fst es) k) es = filter (\<lambda>e. fst e < k) es \<and>
      drop (lower_bound (map fst es) k) es = filter (\<lambda>e. \<not> fst e < k) es" using assms
  proof (induction es)
    case (Cons e es)
    then have "\<not> fst e < k \<Longrightarrow> filter (\<lambda>e. fst e < k) es = [] \<and> filter (\<lambda>e. \<not> fst e < k) es = es"
      by (auto simp: filter_empty_conv filter_id_conv)
    then show ?case using Cons by (auto simp: lower_bound_Cons)
  qed simp
  then show "take (lower_bound (map fst es) k) es = filter (\<lambda>e. fst e < k) es"
    "drop (lower_bound (map fst es) k) es = filter (\<lambda>e. \<not> fst e < k) es" by blast+
qed

section \<open>Skipping entries while walking\<close>

lemma ra_advance_until_correct:
  assumes "ssorted (ra_keys ra)" and "p < ra_size ra"
  shows "ra_advance_until ra k (int p) = max (p + 1) (lower_bound (ra_keys ra) k)"
  using advanceUntil_index [of "ra_keys ra" p k] assms by (simp add: ra_advance_until_def)

lemma drop_lower_bound:
  "drop (lower_bound (map fst es) k) es = dropWhile (\<lambda>e. fst e < k) es"
  "take (lower_bound (map fst es) k) es = takeWhile (\<lambda>e. fst e < k) es"
  by (induction es) (auto simp: lower_bound_Cons)

lemma advance_skips:
  assumes "ssorted (ra_keys ra)" and "p < ra_size ra" and "ra_keys ra ! p < k"
  defines "q \<equiv> ra_advance_until ra k (int p)"
  shows "p < q" and "q \<le> ra_size ra"
    and "drop q (ra_entries ra) = dropWhile (\<lambda>e. fst e < k) (drop p (ra_entries ra))"
    and "take (q - p) (drop p (ra_entries ra)) = takeWhile (\<lambda>e. fst e < k) (drop p (ra_entries ra))"
proof -
  let ?l = "lower_bound (ra_keys ra) k"
  have pl: "p < ?l" using assms(2,3) ssorted_nth_less_iff [OF assms(1), of p k] by simp
  then have q: "q = ?l" using ra_advance_until_correct [OF assms(1,2)] by (simp add: q_def)
  then show "p < q" "q \<le> ra_size ra" using pl lower_bound_le [of "ra_keys ra" k] by simp_all
  have below: "\<forall>e \<in> set (take p (ra_entries ra)). fst e < k"
  proof
    fix e assume "e \<in> set (take p (ra_entries ra))"
    then obtain i where "i < p" "e = ra_entries ra ! i" using assms(2) by (auto simp: in_set_conv_nth)
    then show "fst e < k" using lower_bound_nth [of i "ra_keys ra" k] pl assms(2) by simp
  qed
  have cut: "lower_bound (map fst (drop p (ra_entries ra))) k = ?l - p"
  proof -
    have "takeWhile (\<lambda>x. x < k) (ra_keys ra) = map fst (take p (ra_entries ra)) @ takeWhile (\<lambda>x. x < k) (map fst (drop p (ra_entries ra)))"
      by (subst append_take_drop_id [of p "ra_entries ra", symmetric], subst map_append, rule takeWhile_append2) (use below in auto)
    then show ?thesis using assms(2) by (simp add: lower_bound_def)
  qed
  show "drop q (ra_entries ra) = dropWhile (\<lambda>e. fst e < k) (drop p (ra_entries ra))"
    using pl unfolding q by (simp flip: drop_lower_bound add: cut)
  show "take (q - p) (drop p (ra_entries ra)) = takeWhile (\<lambda>e. fst e < k) (drop p (ra_entries ra))"
    unfolding q by (simp flip: drop_lower_bound add: cut)
qed

lemma advance_freeing_skips:
  "p \<le> ra_size ra \<Longrightarrow> p \<le> ra_advance_until_freeing ra k p \<and> ra_advance_until_freeing ra k p \<le> ra_size ra \<and>
    drop (ra_advance_until_freeing ra k p) (ra_entries ra) = dropWhile (\<lambda>e. fst e < k) (drop p (ra_entries ra))"
proof (induction ra k p rule: ra_advance_until_freeing.induct)
  case (1 ra k p)
  show ?case
  proof (cases "p < ra_size ra")
    case True
    then have d: "drop p (ra_entries ra) = ra_entries ra ! p # drop (Suc p) (ra_entries ra)" by (simp add: Cons_nth_drop_Suc)
    show ?thesis
    proof (cases "ra_keys ra ! p < k")
      case less: True
      have step: "ra_advance_until_freeing ra k p = ra_advance_until_freeing ra k (p + 1)"
        using True less by (subst ra_advance_until_freeing.simps) simp
      show ?thesis using 1 True less unfolding step d by simp
    next
      case False
      have step: "ra_advance_until_freeing ra k p = p" using False by (subst ra_advance_until_freeing.simps) simp
      show ?thesis using False True unfolding step d by simp
    qed
  next
    case False
    have step: "ra_advance_until_freeing ra k p = p" using False by (subst ra_advance_until_freeing.simps) simp
    show ?thesis using False 1 unfolding step by simp
  qed
qed

lemma merge_step:
  "k1 < k2 \<Longrightarrow> merge_entries cl cr f ((k1, c1) # xs) ((k2, c2) # ys) =
     (case cl of None \<Rightarrow> [] | Some h \<Rightarrow> [(k1, h c1)]) @ merge_entries cl cr f xs ((k2, c2) # ys)"
  "k2 < k1 \<Longrightarrow> merge_entries cl cr f ((k1, c1) # xs) ((k2, c2) # ys) =
     (case cr of None \<Rightarrow> [] | Some h \<Rightarrow> [(k2, h c2)]) @ merge_entries cl cr f ((k1, c1) # xs) ys"
  using less_imp_neq [of k1 k2] less_imp_neq [of k2 k1] by auto

lemma merge_skip_left:
  "merge_entries None cr f xs ((k, c) # ys) = merge_entries None cr f (dropWhile (\<lambda>e. fst e < k) xs) ((k, c) # ys)"
proof (induction xs)
  case (Cons e xs)
  then show ?case by (cases e; cases "fst e < k") (simp_all only: fst_conv dropWhile.simps merge_step if_True if_False option.case append.simps)
qed (simp only: dropWhile.simps)

lemma merge_skip_right:
  "merge_entries cl None f ((k, c) # xs) ys = merge_entries cl None f ((k, c) # xs) (dropWhile (\<lambda>e. fst e < k) ys)"
proof (induction ys)
  case (Cons e ys)
  then show ?case by (cases e; cases "fst e < k") (simp_all only: fst_conv dropWhile.simps merge_step if_True if_False option.case append.simps)
qed (simp only: dropWhile.simps)

lemma merge_copy_left:
  "merge_entries (Some h) cr f xs ((k, c) # ys) =
    map (\<lambda>(k, c). (k, h c)) (takeWhile (\<lambda>e. fst e < k) xs) @ merge_entries (Some h) cr f (dropWhile (\<lambda>e. fst e < k) xs) ((k, c) # ys)"
proof (induction xs)
  case (Cons e xs)
  then show ?case by (cases e; cases "fst e < k")
    (simp_all only: fst_conv dropWhile.simps takeWhile.simps merge_step if_True if_False option.case append.simps list.map prod.case)
qed (simp only: dropWhile.simps takeWhile.simps list.map append.simps)

end
