(* ===== verification/Roaring_Setops.thy ===== *)
theory Roaring_Setops
  imports Roaring_Table
begin

text \<open>
  The set operations of \<open>src/roaring.c\<close>: the loops that walk two tables with an index into each. An
  index is always below the size of its table, so the casts of an index to \<open>uint16_t\<close> are left out.
  The in-place operations look at whether a container of their first argument is a shared one, and
  then compute into a new container; \<open>shared k\<close> says so for the container under the key \<open>k\<close>.
\<close>

section \<open>Creating and copying bitmaps\<close>

type_synonym roaring_bitmap = roaring_array

definition is_cow :: "roaring_bitmap \<Rightarrow> bool" where
  "is_cow r \<longleftrightarrow> ra_flags r AND 1 \<noteq> 0"

definition roaring_bitmap_get_copy_on_write :: "roaring_bitmap \<Rightarrow> bool" where
  "roaring_bitmap_get_copy_on_write r \<longleftrightarrow> ra_flags r AND 1 \<noteq> 0"

definition roaring_bitmap_set_copy_on_write :: "roaring_bitmap \<Rightarrow> bool \<Rightarrow> roaring_bitmap" where
  "roaring_bitmap_set_copy_on_write r cow =
     (if cow then r\<lparr>ra_flags := ra_flags r OR 1\<rparr> else r\<lparr>ra_flags := ra_flags r AND NOT 1\<rparr>)"

definition roaring_bitmap_create_with_capacity :: "u32 \<Rightarrow> roaring_bitmap" where
  "roaring_bitmap_create_with_capacity cap = ra_init_with_capacity cap"

definition roaring_bitmap_create :: roaring_bitmap where
  "roaring_bitmap_create = roaring_bitmap_create_with_capacity 0"

definition roaring_bitmap_copy :: "roaring_bitmap \<Rightarrow> roaring_bitmap" where
  "roaring_bitmap_copy r =
     (let ans = ra_overwrite r (ra_init_with_capacity (word_of_nat (ra_size r))) (is_cow r)
      in roaring_bitmap_set_copy_on_write ans (is_cow r))"

definition roaring_bitmap_overwrite :: "roaring_bitmap \<Rightarrow> roaring_bitmap \<Rightarrow> roaring_bitmap" where
  "roaring_bitmap_overwrite dest src = ra_overwrite src (roaring_bitmap_set_copy_on_write dest (is_cow src)) (is_cow src)"

definition roaring_bitmap_clear :: "roaring_bitmap \<Rightarrow> roaring_bitmap" where
  "roaring_bitmap_clear r = ra_reset r"

section \<open>Intersection\<close>

text \<open>Every step brings an index closer to the end of its table.\<close>

lemma advance_less: "p < ra_size ra \<Longrightarrow> ra_size ra - ra_advance_until ra k (int p) < ra_size ra - p"
  unfolding ra_advance_until_def by (intro diff_less_mono2 advanceUntil_after)

lemma freeing_less:
  assumes "p < ra_size ra" and "fst (ra_entries ra ! p) < k"
  shows "ra_size ra - ra_advance_until_freeing ra k p < ra_size ra - p"
proof -
  have "p < ra_advance_until_freeing ra k p"
    using assms advance_freeing_skips [of "p + 1" ra k] by (subst ra_advance_until_freeing.simps) simp
  then show ?thesis using assms(1) by (rule diff_less_mono2)
qed

function and_loop :: "roaring_bitmap \<Rightarrow> roaring_bitmap \<Rightarrow> nat \<Rightarrow> nat \<Rightarrow> roaring_bitmap \<Rightarrow> roaring_bitmap" where
  "and_loop x1 x2 pos1 pos2 answer =
     (if pos1 < ra_size x1 \<and> pos2 < ra_size x2
      then let s1 = ra_get_key_at_index x1 pos1; s2 = ra_get_key_at_index x2 pos2
           in if s1 = s2
              then let c = container_and (ra_get_container_at_index x1 pos1) (ra_get_container_at_index x2 pos2);
                       answer = (if container_nonzero_cardinality c then ra_append answer s1 c else answer)
                   in and_loop x1 x2 (pos1 + 1) (pos2 + 1) answer
              else if s1 < s2 then and_loop x1 x2 (ra_advance_until x1 s2 (int pos1)) pos2 answer
              else and_loop x1 x2 pos1 (ra_advance_until x2 s1 (int pos2)) answer
      else answer)"
  by auto
termination
  by (relation "measures [\<lambda>(x1, x2, pos1, pos2, answer). ra_size x1 - pos1, \<lambda>(x1, x2, pos1, pos2, answer). ra_size x2 - pos2]")
     (auto simp: advance_less)

declare and_loop.simps [simp del]

definition roaring_bitmap_and :: "roaring_bitmap \<Rightarrow> roaring_bitmap \<Rightarrow> roaring_bitmap" where
  "roaring_bitmap_and x1 x2 =
     (let length1 = ra_size x1; length2 = ra_size x2;
          neededcap = (if length1 > length2 then length2 else length1);
          answer = roaring_bitmap_set_copy_on_write (roaring_bitmap_create_with_capacity (word_of_nat neededcap))
                     (is_cow x1 \<or> is_cow x2)
      in and_loop x1 x2 0 0 answer)"

text \<open>The result is written to the front of \<open>x1\<close>, behind the index that is read.\<close>

function and_inplace_loop :: "(u16 \<Rightarrow> bool) \<Rightarrow> roaring_bitmap \<Rightarrow> roaring_bitmap \<Rightarrow> nat \<Rightarrow> nat \<Rightarrow> nat \<Rightarrow> roaring_bitmap \<times> nat" where
  "and_inplace_loop shared x1 x2 pos1 pos2 intersection_size =
     (if pos1 < ra_size x1 \<and> pos2 < ra_size x2
      then let s1 = ra_get_key_at_index x1 pos1; s2 = ra_get_key_at_index x2 pos2
           in if s1 = s2
              then let c1 = ra_get_container_at_index x1 pos1; c2 = ra_get_container_at_index x2 pos2;
                       c = (if shared s1 then container_and c1 c2 else container_iand c1 c2)
                   in if container_nonzero_cardinality c
                      then and_inplace_loop shared (ra_replace_key_and_container_at_index x1 intersection_size s1 c) x2
                             (pos1 + 1) (pos2 + 1) (intersection_size + 1)
                      else and_inplace_loop shared x1 x2 (pos1 + 1) (pos2 + 1) intersection_size
              else if s1 < s2 then and_inplace_loop shared x1 x2 (ra_advance_until_freeing x1 s2 pos1) pos2 intersection_size
              else and_inplace_loop shared x1 x2 pos1 (ra_advance_until x2 s1 (int pos2)) intersection_size
      else (x1, intersection_size))"
  by auto
termination
  by (relation "measures [\<lambda>(sh, x1, x2, pos1, pos2, k). ra_size x1 - pos1, \<lambda>(sh, x1, x2, pos1, pos2, k). ra_size x2 - pos2]")
     (auto simp: advance_less freeing_less ra_get_key_at_index_def ra_replace_key_and_container_at_index_def)

declare and_inplace_loop.simps [simp del]

definition roaring_bitmap_and_inplace :: "(u16 \<Rightarrow> bool) \<Rightarrow> roaring_bitmap \<Rightarrow> roaring_bitmap \<Rightarrow> roaring_bitmap" where
  "roaring_bitmap_and_inplace shared x1 x2 =
     (case and_inplace_loop shared x1 x2 0 0 0 of (x1, intersection_size) \<Rightarrow> ra_downsize x1 intersection_size)"

section \<open>Union and symmetric difference\<close>

lemma walk_simps [simp]:
  "ra_size (ra_set_container_at_index ra i c) = ra_size ra" "ra_size (ra_replace_key_and_container_at_index ra i k c) = ra_size ra"
  "i < ra_size ra \<Longrightarrow> ra_size (ra_remove_at_index ra i) = ra_size ra - 1"
  "ra_size (ra_insert_new_key_value_at ra i k c) = Suc (ra_size ra)"
  by (simp_all add: ra_set_container_at_index_def ra_replace_key_and_container_at_index_def ra_remove_at_index_def)

text \<open>The loop of \<open>roaring_bitmap_or\<close>, \<open>roaring_bitmap_xor\<close>, \<open>roaring_bitmap_lazy_or\<close> and
  \<open>roaring_bitmap_lazy_xor\<close>: the four functions repeat it with another operation on the containers, and
  the symmetric differences also test whether the result is empty (\<open>keep\<close>). Containers under a key
  of one bitmap only are copied; under copy on write the copy is shared and its value stays.\<close>

function copying_loop :: "(container_t \<Rightarrow> container_t \<Rightarrow> container_t) \<Rightarrow> (container_t \<Rightarrow> bool) \<Rightarrow>
    roaring_bitmap \<Rightarrow> roaring_bitmap \<Rightarrow> nat \<Rightarrow> nat \<Rightarrow> roaring_bitmap \<Rightarrow> roaring_bitmap \<times> nat \<times> nat" where
  "copying_loop combine keep x1 x2 pos1 pos2 answer =
     (if pos1 < ra_size x1 \<and> pos2 < ra_size x2
      then let s1 = ra_get_key_at_index x1 pos1; s2 = ra_get_key_at_index x2 pos2;
               c1 = ra_get_container_at_index x1 pos1; c2 = ra_get_container_at_index x2 pos2
           in if s1 = s2
              then let c = combine c1 c2;
                       answer = (if keep c then ra_append answer s1 c else answer)
                   in copying_loop combine keep x1 x2 (pos1 + 1) (pos2 + 1) answer
              else if s1 < s2
              then copying_loop combine keep x1 x2 (pos1 + 1) pos2 (ra_append answer s1 (get_copy_of_container c1 (is_cow x1)))
              else copying_loop combine keep x1 x2 pos1 (pos2 + 1) (ra_append answer s2 (get_copy_of_container c2 (is_cow x2)))
      else (answer, pos1, pos2))"
  by auto
termination
  by (relation "measures [\<lambda>(combine, keep, x1, x2, pos1, pos2, answer). ra_size x1 - pos1, \<lambda>(combine, keep, x1, x2, pos1, pos2, answer). ra_size x2 - pos2]")
     (auto simp: advance_less walk_simps)

declare copying_loop.simps [simp del]

text \<open>What the four functions do around the loop.\<close>

definition copying_walk :: "(container_t \<Rightarrow> container_t \<Rightarrow> container_t) \<Rightarrow> (container_t \<Rightarrow> bool) \<Rightarrow>
    roaring_bitmap \<Rightarrow> roaring_bitmap \<Rightarrow> roaring_bitmap" where
  "copying_walk combine keep x1 x2 =
     (let length1 = ra_size x1; length2 = ra_size x2
      in if length1 = 0 then roaring_bitmap_copy x2
         else if length2 = 0 then roaring_bitmap_copy x1
         else let answer = roaring_bitmap_set_copy_on_write (roaring_bitmap_create_with_capacity (word_of_nat (length1 + length2)))
                             (is_cow x1 \<or> is_cow x2)
              in case copying_loop combine keep x1 x2 0 0 answer of (answer, pos1, pos2) \<Rightarrow>
                   if pos1 = length1 then ra_append_copy_range answer x2 pos2 length2 (is_cow x2)
                   else if pos2 = length2 then ra_append_copy_range answer x1 pos1 length1 (is_cow x1)
                   else answer)"

definition roaring_bitmap_or :: "roaring_bitmap \<Rightarrow> roaring_bitmap \<Rightarrow> roaring_bitmap" where
  "roaring_bitmap_or = copying_walk container_or (\<lambda>c. True)"

definition roaring_bitmap_xor :: "roaring_bitmap \<Rightarrow> roaring_bitmap \<Rightarrow> roaring_bitmap" where
  "roaring_bitmap_xor = copying_walk container_xor container_nonzero_cardinality"

fun is_bitset_container :: "container_t \<Rightarrow> bool" where
  "is_bitset_container (Bitset_c _) = True"
| "is_bitset_container _ = False"

definition lazy_or_containers :: "bool \<Rightarrow> container_t \<Rightarrow> container_t \<Rightarrow> container_t" where
  "lazy_or_containers bitsetconversion c1 c2 =
     (if bitsetconversion \<and> \<not> is_bitset_container c1 \<and> \<not> is_bitset_container c2
      then container_lazy_ior (Bitset_c (container_to_bitset c1)) c2
      else container_lazy_or c1 c2)"

definition roaring_bitmap_lazy_or :: "roaring_bitmap \<Rightarrow> roaring_bitmap \<Rightarrow> bool \<Rightarrow> roaring_bitmap" where
  "roaring_bitmap_lazy_or x1 x2 bitsetconversion = copying_walk (lazy_or_containers bitsetconversion) (\<lambda>c. True) x1 x2"

definition roaring_bitmap_lazy_xor :: "roaring_bitmap \<Rightarrow> roaring_bitmap \<Rightarrow> roaring_bitmap" where
  "roaring_bitmap_lazy_xor = copying_walk container_lazy_xor container_nonzero_cardinality"

section \<open>Union and symmetric difference in place\<close>

text \<open>As soon as a container has to be inserted or removed, the rest is merged into a new table. The
  number of distinct keys that are left gives its capacity.\<close>

fun count_distinct :: "u16 list \<Rightarrow> u16 list \<Rightarrow> nat" where
  "count_distinct (k1 # ks1) (k2 # ks2) =
     1 + (if k1 < k2 then count_distinct ks1 (k2 # ks2)
          else if k1 > k2 then count_distinct (k1 # ks1) ks2
          else count_distinct ks1 ks2)"
| "count_distinct ks1 ks2 = length ks1 + length ks2"

function merge_bulk_loop :: "(u16 \<Rightarrow> bool) \<Rightarrow> bool \<Rightarrow> roaring_bitmap \<Rightarrow> roaring_bitmap \<Rightarrow> nat \<Rightarrow> nat \<Rightarrow>
    roaring_array \<Rightarrow> roaring_array \<times> nat \<times> nat" where
  "merge_bulk_loop shared is_xor x1 x2 pos1 pos2 merged =
     (if pos1 < ra_size x1 \<and> pos2 < ra_size x2
      then let k1 = ra_keys x1 ! pos1; k2 = ra_keys x2 ! pos2; c1 = snd (ra_entries x1 ! pos1); c2 = snd (ra_entries x2 ! pos2)
           in if k1 < k2 then merge_bulk_loop shared is_xor x1 x2 (pos1 + 1) pos2 (ra_append merged k1 c1)
              else if k1 > k2
              then merge_bulk_loop shared is_xor x1 x2 pos1 (pos2 + 1) (ra_append merged k2 (get_copy_of_container c2 (is_cow x2)))
              else let merged =
                     (if is_xor
                      then let c = (if shared k1 then container_xor c1 c2 else container_ixor c1 c2)
                           in if container_nonzero_cardinality c then ra_append merged k1 c else merged
                      else if container_is_full c1 then ra_append merged k1 c1
                      else ra_append merged k1 (if shared k1 then container_or c1 c2 else container_ior c1 c2))
                   in merge_bulk_loop shared is_xor x1 x2 (pos1 + 1) (pos2 + 1) merged
      else (merged, pos1, pos2))"
  by auto
termination
  by (relation "measures [\<lambda>(sh, is_xor, x1, x2, pos1, pos2, merged). ra_size x1 - pos1, \<lambda>(sh, is_xor, x1, x2, pos1, pos2, merged). ra_size x2 - pos2]")
     (auto simp: advance_less walk_simps)

declare merge_bulk_loop.simps [simp del]

definition append_cells :: "roaring_array \<Rightarrow> (u16 \<times> container_t) list \<Rightarrow> roaring_array" where
  "append_cells ra es = fold (\<lambda>(k, c) ra. ra_append ra k c) es ra"

definition roaring_inplace_merge_bulk :: "(u16 \<Rightarrow> bool) \<Rightarrow> roaring_bitmap \<Rightarrow> roaring_bitmap \<Rightarrow> nat \<Rightarrow> nat \<Rightarrow> nat \<Rightarrow> bool \<Rightarrow>
    roaring_bitmap" where
  "roaring_inplace_merge_bulk shared x1 x2 dst left right is_xor =
     (let distinct = count_distinct (drop left (ra_keys x1)) (drop right (ra_keys x2));
          total = dst + distinct;
          merged = ra_init_with_capacity (if total > 0 then word_of_nat total else 1);
          merged = append_cells merged (take dst (ra_entries x1))
      in case merge_bulk_loop shared is_xor x1 x2 left right merged of (merged, left, right) \<Rightarrow>
           let merged = append_cells merged (drop left (ra_entries x1));
               merged = append_cells merged (map (\<lambda>(k, c). (k, get_copy_of_container c (is_cow x2))) (drop right (ra_entries x2)))
           in merged\<lparr>ra_flags := ra_flags x1\<rparr>)"

function or_inplace_loop :: "(u16 \<Rightarrow> bool) \<Rightarrow> roaring_bitmap \<Rightarrow> roaring_bitmap \<Rightarrow> nat \<Rightarrow> nat \<Rightarrow> roaring_bitmap" where
  "or_inplace_loop shared x1 x2 pos1 pos2 =
     (if pos1 < ra_size x1 \<and> pos2 < ra_size x2
      then let s1 = ra_get_key_at_index x1 pos1; s2 = ra_get_key_at_index x2 pos2
           in if s1 = s2
              then let c1 = ra_get_container_at_index x1 pos1; c2 = ra_get_container_at_index x2 pos2;
                       x1 = (if container_is_full c1 then x1
                             else ra_set_container_at_index x1 pos1
                                    (if shared s1 then container_or c1 c2 else container_ior c1 c2))
                   in or_inplace_loop shared x1 x2 (pos1 + 1) (pos2 + 1)
              else if s1 < s2 then or_inplace_loop shared x1 x2 (pos1 + 1) pos2
              else roaring_inplace_merge_bulk shared x1 x2 pos1 pos1 pos2 False
      else if pos1 = ra_size x1 then ra_append_copy_range x1 x2 pos2 (ra_size x2) (is_cow x2)
      else x1)"
  by auto
termination
  by (relation "measures [\<lambda>(sh, x1, x2, pos1, pos2). ra_size x1 - pos1, \<lambda>(sh, x1, x2, pos1, pos2). ra_size x2 - pos2]")
     (auto simp: advance_less walk_simps)

declare or_inplace_loop.simps [simp del]

definition roaring_bitmap_or_inplace :: "(u16 \<Rightarrow> bool) \<Rightarrow> roaring_bitmap \<Rightarrow> roaring_bitmap \<Rightarrow> roaring_bitmap" where
  "roaring_bitmap_or_inplace shared x1 x2 =
     (if ra_size x2 = 0 then x1
      else if ra_size x1 = 0 then roaring_bitmap_overwrite x1 x2
      else or_inplace_loop shared x1 x2 0 0)"

function xor_inplace_loop :: "(u16 \<Rightarrow> bool) \<Rightarrow> roaring_bitmap \<Rightarrow> roaring_bitmap \<Rightarrow> nat \<Rightarrow> nat \<Rightarrow> roaring_bitmap" where
  "xor_inplace_loop shared x1 x2 pos1 pos2 =
     (if pos1 < ra_size x1 \<and> pos2 < ra_size x2
      then let s1 = ra_get_key_at_index x1 pos1; s2 = ra_get_key_at_index x2 pos2
           in if s1 = s2
              then let c1 = ra_get_container_at_index x1 pos1; c2 = ra_get_container_at_index x2 pos2;
                       c = (if shared s1 then container_xor c1 c2 else container_ixor c1 c2)
                   in if container_nonzero_cardinality c
                      then xor_inplace_loop shared (ra_set_container_at_index x1 pos1 c) x2 (pos1 + 1) (pos2 + 1)
                      else roaring_inplace_merge_bulk shared x1 x2 pos1 (pos1 + 1) (pos2 + 1) True
              else if s1 < s2 then xor_inplace_loop shared x1 x2 (pos1 + 1) pos2
              else roaring_inplace_merge_bulk shared x1 x2 pos1 pos1 pos2 True
      else if pos1 = ra_size x1 then ra_append_copy_range x1 x2 pos2 (ra_size x2) (is_cow x2)
      else x1)"
  by auto
termination
  by (relation "measures [\<lambda>(sh, x1, x2, pos1, pos2). ra_size x1 - pos1, \<lambda>(sh, x1, x2, pos1, pos2). ra_size x2 - pos2]")
     (auto simp: advance_less walk_simps)

declare xor_inplace_loop.simps [simp del]

definition roaring_bitmap_xor_inplace :: "(u16 \<Rightarrow> bool) \<Rightarrow> roaring_bitmap \<Rightarrow> roaring_bitmap \<Rightarrow> roaring_bitmap" where
  "roaring_bitmap_xor_inplace shared x1 x2 =
     (if ra_size x2 = 0 then x1
      else if ra_size x1 = 0 then roaring_bitmap_overwrite x1 x2
      else xor_inplace_loop shared x1 x2 0 0)"

section \<open>Difference\<close>

function andnot_loop :: "roaring_bitmap \<Rightarrow> roaring_bitmap \<Rightarrow> nat \<Rightarrow> nat \<Rightarrow> roaring_bitmap \<Rightarrow> roaring_bitmap \<times> nat \<times> nat" where
  "andnot_loop x1 x2 pos1 pos2 answer =
     (if pos1 < ra_size x1 \<and> pos2 < ra_size x2
      then let s1 = ra_get_key_at_index x1 pos1; s2 = ra_get_key_at_index x2 pos2
           in if s1 = s2
              then let c = container_andnot (ra_get_container_at_index x1 pos1) (ra_get_container_at_index x2 pos2);
                       answer = (if container_nonzero_cardinality c then ra_append answer s1 c else answer)
                   in andnot_loop x1 x2 (pos1 + 1) (pos2 + 1) answer
              else if s1 < s2
              then let next_pos1 = ra_advance_until x1 s2 (int pos1)
                   in andnot_loop x1 x2 next_pos1 pos2 (ra_append_copy_range answer x1 pos1 next_pos1 (is_cow x1))
              else andnot_loop x1 x2 pos1 (ra_advance_until x2 s1 (int pos2)) answer
      else (answer, pos1, pos2))"
  by auto
termination
  by (relation "measures [\<lambda>(x1, x2, pos1, pos2, answer). ra_size x1 - pos1, \<lambda>(x1, x2, pos1, pos2, answer). ra_size x2 - pos2]")
     (auto simp: advance_less walk_simps)

declare andnot_loop.simps [simp del]

definition roaring_bitmap_andnot :: "roaring_bitmap \<Rightarrow> roaring_bitmap \<Rightarrow> roaring_bitmap" where
  "roaring_bitmap_andnot x1 x2 =
     (let length1 = ra_size x1; length2 = ra_size x2
      in if length1 = 0 then roaring_bitmap_set_copy_on_write roaring_bitmap_create (is_cow x1 \<or> is_cow x2)
         else if length2 = 0 then roaring_bitmap_copy x1
         else let answer = roaring_bitmap_set_copy_on_write (roaring_bitmap_create_with_capacity (word_of_nat length1))
                             (is_cow x1 \<or> is_cow x2)
              in case andnot_loop x1 x2 0 0 answer of (answer, pos1, pos2) \<Rightarrow>
                   if pos2 = length2 then ra_append_copy_range answer x1 pos1 length1 (is_cow x1) else answer)"

function andnot_inplace_loop :: "(u16 \<Rightarrow> bool) \<Rightarrow> roaring_bitmap \<Rightarrow> roaring_bitmap \<Rightarrow> nat \<Rightarrow> nat \<Rightarrow> nat \<Rightarrow>
    roaring_bitmap \<times> nat \<times> nat" where
  "andnot_inplace_loop shared x1 x2 pos1 pos2 intersection_size =
     (if pos1 < ra_size x1 \<and> pos2 < ra_size x2
      then let s1 = ra_get_key_at_index x1 pos1; s2 = ra_get_key_at_index x2 pos2; c1 = ra_get_container_at_index x1 pos1
           in if s1 = s2
              then let c2 = ra_get_container_at_index x2 pos2;
                       c = (if shared s1 then container_andnot c1 c2 else container_iandnot c1 c2)
                   in if container_nonzero_cardinality c
                      then andnot_inplace_loop shared (ra_replace_key_and_container_at_index x1 intersection_size s1 c) x2
                             (pos1 + 1) (pos2 + 1) (intersection_size + 1)
                      else andnot_inplace_loop shared x1 x2 (pos1 + 1) (pos2 + 1) intersection_size
              else if s1 < s2
              then andnot_inplace_loop shared
                     (if pos1 \<noteq> intersection_size then ra_replace_key_and_container_at_index x1 intersection_size s1 c1 else x1) x2
                     (pos1 + 1) pos2 (intersection_size + 1)
              else andnot_inplace_loop shared x1 x2 pos1 (ra_advance_until x2 s1 (int pos2)) intersection_size
      else (x1, pos1, intersection_size))"
  by auto
termination
  by (relation "measures [\<lambda>(sh, x1, x2, pos1, pos2, k). ra_size x1 - pos1, \<lambda>(sh, x1, x2, pos1, pos2, k). ra_size x2 - pos2]")
     (auto simp: advance_less walk_simps)

declare andnot_inplace_loop.simps [simp del]

definition roaring_bitmap_andnot_inplace :: "(u16 \<Rightarrow> bool) \<Rightarrow> roaring_bitmap \<Rightarrow> roaring_bitmap \<Rightarrow> roaring_bitmap" where
  "roaring_bitmap_andnot_inplace shared x1 x2 =
     (if ra_size x2 = 0 then x1
      else if ra_size x1 = 0 then roaring_bitmap_clear x1
      else case andnot_inplace_loop shared x1 x2 0 0 0 of (x1, pos1, intersection_size) \<Rightarrow>
             let length1 = ra_size x1
             in if pos1 < length1
                then ra_downsize (if pos1 > intersection_size then ra_copy_range x1 pos1 length1 intersection_size else x1)
                       (intersection_size + (length1 - pos1))
                else ra_downsize x1 intersection_size)"

section \<open>Lazy operations in place, repair, and many bitmaps\<close>

text \<open>\<open>get_writable_copy_if_shared\<close> clones a shared container.\<close>

definition get_writable_copy_if_shared :: "bool \<Rightarrow> container_t \<Rightarrow> container_t" where
  "get_writable_copy_if_shared is_shared c = (if is_shared then container_clone c else c)"

function lazy_or_inplace_loop :: "(u16 \<Rightarrow> bool) \<Rightarrow> bool \<Rightarrow> roaring_bitmap \<Rightarrow> roaring_bitmap \<Rightarrow> nat \<Rightarrow> nat \<Rightarrow> roaring_bitmap" where
  "lazy_or_inplace_loop shared bitsetconversion x1 x2 pos1 pos2 =
     (if pos1 < ra_size x1 \<and> pos2 < ra_size x2
      then let s1 = ra_get_key_at_index x1 pos1; s2 = ra_get_key_at_index x2 pos2; c2 = ra_get_container_at_index x2 pos2
           in if s1 = s2
              then let c1 = ra_get_container_at_index x1 pos1;
                       x1 = (if container_is_full c1 then x1
                             else let c1 = (if \<not> bitsetconversion \<or> is_bitset_container c1
                                            then get_writable_copy_if_shared (shared s1) c1
                                            else Bitset_c (container_to_bitset c1))
                                  in ra_set_container_at_index x1 pos1 (container_lazy_ior c1 c2))
                   in lazy_or_inplace_loop shared bitsetconversion x1 x2 (pos1 + 1) (pos2 + 1)
              else if s1 < s2 then lazy_or_inplace_loop shared bitsetconversion x1 x2 (pos1 + 1) pos2
              else lazy_or_inplace_loop shared bitsetconversion
                     (ra_insert_new_key_value_at x1 pos1 s2 (get_copy_of_container c2 (is_cow x2))) x2 (pos1 + 1) (pos2 + 1)
      else if pos1 = ra_size x1 then ra_append_copy_range x1 x2 pos2 (ra_size x2) (is_cow x2)
      else x1)"
  by auto
termination
  by (relation "measures [\<lambda>(sh, b, x1, x2, pos1, pos2). ra_size x1 - pos1, \<lambda>(sh, b, x1, x2, pos1, pos2). ra_size x2 - pos2]")
     (auto simp: advance_less walk_simps)

declare lazy_or_inplace_loop.simps [simp del]

definition roaring_bitmap_lazy_or_inplace :: "(u16 \<Rightarrow> bool) \<Rightarrow> roaring_bitmap \<Rightarrow> roaring_bitmap \<Rightarrow> bool \<Rightarrow> roaring_bitmap" where
  "roaring_bitmap_lazy_or_inplace shared x1 x2 bitsetconversion =
     (if ra_size x2 = 0 then x1
      else if ra_size x1 = 0 then roaring_bitmap_overwrite x1 x2
      else lazy_or_inplace_loop shared bitsetconversion x1 x2 0 0)"

function lazy_xor_inplace_loop :: "(u16 \<Rightarrow> bool) \<Rightarrow> roaring_bitmap \<Rightarrow> roaring_bitmap \<Rightarrow> nat \<Rightarrow> nat \<Rightarrow> roaring_bitmap" where
  "lazy_xor_inplace_loop shared x1 x2 pos1 pos2 =
     (if pos1 < ra_size x1 \<and> pos2 < ra_size x2
      then let s1 = ra_get_key_at_index x1 pos1; s2 = ra_get_key_at_index x2 pos2; c2 = ra_get_container_at_index x2 pos2
           in if s1 = s2
              then let c1 = ra_get_container_at_index x1 pos1;
                       c = (if shared s1 then container_lazy_xor c1 c2 else container_lazy_ixor c1 c2)
                   in if container_nonzero_cardinality c
                      then lazy_xor_inplace_loop shared (ra_set_container_at_index x1 pos1 c) x2 (pos1 + 1) (pos2 + 1)
                      else lazy_xor_inplace_loop shared (ra_remove_at_index x1 pos1) x2 pos1 (pos2 + 1)
              else if s1 < s2 then lazy_xor_inplace_loop shared x1 x2 (pos1 + 1) pos2
              else lazy_xor_inplace_loop shared
                     (ra_insert_new_key_value_at x1 pos1 s2 (get_copy_of_container c2 (is_cow x2))) x2 (pos1 + 1) (pos2 + 1)
      else if pos1 = ra_size x1 then ra_append_copy_range x1 x2 pos2 (ra_size x2) (is_cow x2)
      else x1)"
  by auto
termination
  by (relation "measures [\<lambda>(sh, x1, x2, pos1, pos2). ra_size x1 - pos1, \<lambda>(sh, x1, x2, pos1, pos2). ra_size x2 - pos2]")
     (auto simp: advance_less walk_simps)

declare lazy_xor_inplace_loop.simps [simp del]

definition roaring_bitmap_lazy_xor_inplace :: "(u16 \<Rightarrow> bool) \<Rightarrow> roaring_bitmap \<Rightarrow> roaring_bitmap \<Rightarrow> roaring_bitmap" where
  "roaring_bitmap_lazy_xor_inplace shared x1 x2 =
     (if ra_size x2 = 0 then x1
      else if ra_size x1 = 0 then roaring_bitmap_overwrite x1 x2
      else lazy_xor_inplace_loop shared x1 x2 0 0)"

definition roaring_bitmap_repair_after_lazy :: "roaring_bitmap \<Rightarrow> roaring_bitmap" where
  "roaring_bitmap_repair_after_lazy r = r\<lparr>ra_entries := map (\<lambda>(k, c). (k, container_repair_after_lazy c)) (ra_entries r)\<rparr>"

text \<open>\<open>CROARING_LAZY_OR_BITSET_CONVERSION\<close> is \<open>true\<close>. The containers that the answer shares with an
  argument change from one step to the next: \<open>shared i\<close> says which they are at step \<open>i\<close>.\<close>

fun lazy_or_rest :: "(nat \<Rightarrow> u16 \<Rightarrow> bool) \<Rightarrow> nat \<Rightarrow> roaring_bitmap list \<Rightarrow> roaring_bitmap \<Rightarrow> roaring_bitmap" where
  "lazy_or_rest shared i [] answer = answer"
| "lazy_or_rest shared i (x # xs) answer = lazy_or_rest shared (i + 1) xs (roaring_bitmap_lazy_or_inplace (shared i) answer x True)"

fun roaring_bitmap_or_many :: "(nat \<Rightarrow> u16 \<Rightarrow> bool) \<Rightarrow> roaring_bitmap list \<Rightarrow> roaring_bitmap" where
  "roaring_bitmap_or_many shared [] = roaring_bitmap_create"
| "roaring_bitmap_or_many shared [x] = roaring_bitmap_copy x"
| "roaring_bitmap_or_many shared (x # y # xs) =
     roaring_bitmap_repair_after_lazy (lazy_or_rest shared 2 xs (roaring_bitmap_lazy_or x y True))"

fun lazy_xor_rest :: "(nat \<Rightarrow> u16 \<Rightarrow> bool) \<Rightarrow> nat \<Rightarrow> roaring_bitmap list \<Rightarrow> roaring_bitmap \<Rightarrow> roaring_bitmap" where
  "lazy_xor_rest shared i [] answer = answer"
| "lazy_xor_rest shared i (x # xs) answer = lazy_xor_rest shared (i + 1) xs (roaring_bitmap_lazy_xor_inplace (shared i) answer x)"

fun roaring_bitmap_xor_many :: "(nat \<Rightarrow> u16 \<Rightarrow> bool) \<Rightarrow> roaring_bitmap list \<Rightarrow> roaring_bitmap" where
  "roaring_bitmap_xor_many shared [] = roaring_bitmap_create"
| "roaring_bitmap_xor_many shared [x] = roaring_bitmap_copy x"
| "roaring_bitmap_xor_many shared (x # y # xs) =
     roaring_bitmap_repair_after_lazy (lazy_xor_rest shared 2 xs (roaring_bitmap_lazy_xor x y))"

end
