(* ===== verification/Roaring_Setops_Correct.thy ===== *)
theory Roaring_Setops_Correct
  imports Roaring_Setops
begin

text \<open>
  The set operations of \<open>roaring.c\<close> compute the operations on sets of values: every loop appends to
  what is done so far the \<open>merge_entries\<close> of what lies ahead, and \<open>merge_entries\<close> is interpreted
  for the operation on containers that the loop uses.
\<close>

section \<open>The merges of the library\<close>

interpretation and_merge: entries_merge container_inv container_inv container_inv None None "\<lambda>_. container_and" "(\<and>)"
  by unfold_locales (use container_and_correct in \<open>auto simp: Int_def\<close>)

interpretation iand_merge: entries_merge container_inv container_inv container_inv None None
  "\<lambda>k c1 c2. if shared k then container_and c1 c2 else container_iand c1 c2" "(\<and>)"
  for shared
  by unfold_locales (use container_and_correct container_iand_correct in \<open>auto simp: Int_def\<close>)

lemma drop_cell:
  "p < ra_size ra \<Longrightarrow> drop p (ra_entries ra) = (ra_get_key_at_index ra p, ra_get_container_at_index ra p) # drop (p + 1) (ra_entries ra)"
  by (simp add: ra_get_key_at_index_def ra_get_container_at_index_def Cons_nth_drop_Suc)

lemma cell_ok: "ra_ok P ra \<Longrightarrow> p < ra_size ra \<Longrightarrow> P (ra_get_container_at_index ra p) \<and> container_abs (ra_get_container_at_index ra p) \<noteq> {}"
  using entries_ok_nth [OF ra_ok_entries, of P ra p] by (simp add: ra_get_container_at_index_def)

lemma advance_entries:
  "ra_ok P ra \<Longrightarrow> p < ra_size ra \<Longrightarrow> ra_get_key_at_index ra p < k \<Longrightarrow>
     drop (ra_advance_until ra k (int p)) (ra_entries ra) = dropWhile (\<lambda>e. fst e < k) (drop p (ra_entries ra))"
  by (intro advance_skips(3) ra_ok_sorted) (simp_all add: ra_get_key_at_index_def)

lemma nonzero_inv: "container_inv c \<Longrightarrow> container_nonzero_cardinality c \<longleftrightarrow> container_abs c \<noteq> {}"
  by (intro container_nonzero_correct container_inv_lazy)

text \<open>\<open>grows ra xs r\<close>: \<open>r\<close> is \<open>ra\<close> with the entries \<open>xs\<close> appended.\<close>

definition grows :: "roaring_array \<Rightarrow> (u16 \<times> container_t) list \<Rightarrow> roaring_array \<Rightarrow> bool" where
  "grows ra xs r \<longleftrightarrow> ra_entries r = ra_entries ra @ xs \<and> ra_flags r = ra_flags ra \<and> (room ra \<longrightarrow> room r)"

lemma grows_refl [simp]: "grows ra [] r \<longleftrightarrow> ra_entries r = ra_entries ra \<and> ra_flags r = ra_flags ra \<and> (room ra \<longrightarrow> room r)"
  by (simp add: grows_def)

lemma grows_append: "grows (ra_append ra k c) xs r \<Longrightarrow> grows ra ((k, c) # xs) r"
  by (simp add: grows_def)

lemma grows_trans: "grows ra xs r \<Longrightarrow> grows r ys r' \<Longrightarrow> grows ra (xs @ ys) r'"
  by (simp add: grows_def)

lemma grows_ok:
  "grows ra xs r \<Longrightarrow> ra_entries ra = [] \<Longrightarrow> room ra \<Longrightarrow> flags_ok (ra_flags ra) \<Longrightarrow> entries_ok P xs \<Longrightarrow> ra_ok P r \<and> ra_entries r = xs"
  by (auto simp: grows_def intro: ra_okI)

section \<open>Intersection\<close>

lemma and_loop_correct:
  assumes "ra_inv x1" and "ra_inv x2"
  shows "grows answer (merge_entries None None (\<lambda>_. container_and) (drop pos1 (ra_entries x1)) (drop pos2 (ra_entries x2)))
    (and_loop x1 x2 pos1 pos2 answer)"
  using assms
proof (induction x1 x2 pos1 pos2 answer rule: and_loop.induct)
  case (1 x1 x2 pos1 pos2 answer)
  note ok = "1.prems"
  show ?case
  proof (cases "pos1 < ra_size x1 \<and> pos2 < ra_size x2")
    case True
    let ?s1 = "ra_get_key_at_index x1 pos1" and ?s2 = "ra_get_key_at_index x2 pos2"
    let ?c1 = "ra_get_container_at_index x1 pos1" and ?c2 = "ra_get_container_at_index x2 pos2"
    have p: "pos1 < ra_size x1" "pos2 < ra_size x2" using True by simp_all
    note cells = drop_cell [OF p(1)] drop_cell [OF p(2)]
    note c1 = cell_ok [OF ok(1) p(1)] and c2 = cell_ok [OF ok(2) p(2)]
    consider (eq) "?s1 = ?s2" | (lt) "?s1 < ?s2" | (gt) "?s2 < ?s1" by (rule linorder_cases)
    then show ?thesis
    proof cases
      case eq
      let ?c = "container_and ?c1 ?c2"
      have z: "container_nonzero_cardinality ?c \<longleftrightarrow> container_abs ?c \<noteq> {}"
        using container_and_correct c1 c2 by (intro nonzero_inv) blast
      have step: "and_loop x1 x2 pos1 pos2 answer =
          and_loop x1 x2 (pos1 + 1) (pos2 + 1) (if container_nonzero_cardinality ?c then ra_append answer ?s1 ?c else answer)"
        using True eq by (subst and_loop.simps) (simp add: Let_def)
      show ?thesis unfolding step cells
        using "1.IH"(1) [OF True refl refl eq refl refl ok] by (cases "container_abs ?c = {}") (simp_all add: eq z grows_append)
    next
      case lt
      have step: "and_loop x1 x2 pos1 pos2 answer = and_loop x1 x2 (ra_advance_until x1 ?s2 (int pos1)) pos2 answer"
        using True lt by (subst and_loop.simps) (simp add: Let_def)
      show ?thesis
        using "1.IH"(2) [OF True refl refl less_imp_neq [OF lt] lt ok] unfolding step cells(2) advance_entries [OF ok(1) p(1) lt]
        by (subst merge_skip_left)
    next
      case gt
      have step: "and_loop x1 x2 pos1 pos2 answer = and_loop x1 x2 pos1 (ra_advance_until x2 ?s1 (int pos2)) answer"
        using True gt by (subst and_loop.simps) (auto simp: Let_def)
      show ?thesis
        using "1.IH"(3) [OF True refl refl less_imp_neq [OF gt, symmetric] less_not_sym [OF gt] ok]
        unfolding step cells(1) advance_entries [OF ok(2) p(2) gt] by (subst merge_skip_right)
    qed
  next
    case False
    have step: "and_loop x1 x2 pos1 pos2 answer = answer" using False by (subst and_loop.simps) auto
    show ?thesis unfolding step using False by (auto simp: merge_entries_right)
  qed
qed

section \<open>Flags and copies\<close>

lemma flags_ok_bits: "flags_ok f \<longleftrightarrow> (\<forall>n. bit f n \<longrightarrow> n < 2)"
proof -
  have three: "(3 :: u8) = mask 2" by (simp add: mask_eq_exp_minus_1)
  show ?thesis
    using bit_imp_le_length [of f] unfolding flags_ok_def three bit_eq_iff by (auto simp: bit_simps)
qed

lemma is_cow_bit: "is_cow r \<longleftrightarrow> bit (ra_flags r) 0"
  by (simp add: is_cow_def and_one_eq bit_0 odd_iff_mod_2_eq_one)

lemma set_cow_simps [simp]:
  "ra_entries (roaring_bitmap_set_copy_on_write r cow) = ra_entries r"
  "ra_allocation_size (roaring_bitmap_set_copy_on_write r cow) = ra_allocation_size r"
  "flags_ok (ra_flags r) \<Longrightarrow> flags_ok (ra_flags (roaring_bitmap_set_copy_on_write r cow))"
  "room (roaring_bitmap_set_copy_on_write r cow) \<longleftrightarrow> room r"
  "is_cow (roaring_bitmap_set_copy_on_write r cow) \<longleftrightarrow> cow"
  by (auto simp: roaring_bitmap_set_copy_on_write_def flags_ok_bits bit_simps room_def ra_get_size_def is_cow_bit)

lemma overwrite_simps [simp]:
  "ra_entries (ra_overwrite src dest cow) = copy_entries cow (ra_entries src)"
  "ra_flags (ra_overwrite src dest cow) = ra_flags dest"
  by (simp_all add: ra_overwrite_def copy_entries_def realloc_array_def Let_def)

lemma overwrite_room: "0 \<le> ra_allocation_size dest \<Longrightarrow> ra_get_size (ra_overwrite src dest cow) \<le> ra_allocation_size (ra_overwrite src dest cow)"
  by (auto simp: ra_overwrite_def realloc_array_def Let_def ra_get_size_def)

lemma init_alloc: "0 \<le> ra_allocation_size (ra_init_with_capacity n)"
  by (simp add: ra_init_with_capacity_def ra_init_def Let_def)

lemma ra_ok_alloc: "ra_ok P ra \<Longrightarrow> 0 \<le> ra_allocation_size ra"
  by (simp add: ra_ok_def ra_get_size_def)

lemma copy_entries_ok:
  assumes "\<And>c. P c \<Longrightarrow> P (get_copy_of_container c cow) \<and> container_abs (get_copy_of_container c cow) = container_abs c"
    and "entries_ok P es"
  shows "entries_ok P (copy_entries cow es)" and "at (copy_entries cow es) k = at es k"
  using map_entries [OF assms(2), of P "\<lambda>c. get_copy_of_container c cow"] assms(1) by (simp_all add: copy_entries_def)

lemma overwrite_ok:
  assumes "\<And>c cow. P c \<Longrightarrow> P (get_copy_of_container c cow) \<and> container_abs (get_copy_of_container c cow) = container_abs c"
    and "ra_ok P src" and "0 \<le> ra_allocation_size dest" and "flags_ok (ra_flags dest)"
  shows "ra_ok P (ra_overwrite src dest cow)"
    and "at (ra_entries (ra_overwrite src dest cow)) k = at (ra_entries src) k"
  using copy_entries_ok [OF assms(1) ra_ok_entries [OF assms(2)]] overwrite_room [OF assms(3)] assms(4) by (simp_all add: ra_ok_def)

text \<open>Both kinds of invariant survive a copy.\<close>

definition copyable :: "(container_t \<Rightarrow> bool) \<Rightarrow> bool" where
  "copyable P \<longleftrightarrow> (\<forall>c cow. P c \<longrightarrow> P (get_copy_of_container c cow) \<and> container_abs (get_copy_of_container c cow) = container_abs c)"

lemma copyable [simp]: "copyable container_inv" "copyable container_lazy_ok"
  using copy_correct clone_lazy by (simp_all add: copyable_def)

lemma roaring_bitmap_copy_ok:
  assumes "copyable P" and "ra_ok P r"
  shows "ra_ok P (roaring_bitmap_copy r)" and "at (ra_entries (roaring_bitmap_copy r)) k = at (ra_entries r) k"
    and "is_cow (roaring_bitmap_copy r) = is_cow r"
  using overwrite_ok [OF _ assms(2), of "ra_init_with_capacity (word_of_nat (ra_size r))"] init_alloc assms(1)
  by (simp_all add: roaring_bitmap_copy_def ra_ok_def ra_get_size_def copyable_def)

lemma roaring_bitmap_overwrite_ok:
  assumes "copyable P" and "ra_ok P src" and "ra_ok Q dest"
  shows "ra_ok P (roaring_bitmap_overwrite dest src)"
    and "at (ra_entries (roaring_bitmap_overwrite dest src)) k = at (ra_entries src) k"
  using overwrite_ok [OF _ assms(2), of "roaring_bitmap_set_copy_on_write dest (is_cow src)"] ra_ok_alloc [OF assms(3)] assms(1,3)
  by (simp_all add: roaring_bitmap_overwrite_def ra_ok_def copyable_def)

lemma create_ok [simp]: "ra_ok P roaring_bitmap_create" "ra_entries roaring_bitmap_create = []"
  "ra_ok P (roaring_bitmap_create_with_capacity n)" "room (roaring_bitmap_create_with_capacity n)" "ra_entries (roaring_bitmap_create_with_capacity n) = []"
  by (simp_all add: roaring_bitmap_create_def roaring_bitmap_create_with_capacity_def ra_ok_init)

text \<open>A new answer: no entries, room, known flags.\<close>

lemma fresh_answer [simp]:
  "ra_entries (roaring_bitmap_set_copy_on_write (roaring_bitmap_create_with_capacity n) cow) = []"
  "room (roaring_bitmap_set_copy_on_write (roaring_bitmap_create_with_capacity n) cow)"
  "flags_ok (ra_flags (roaring_bitmap_set_copy_on_write (roaring_bitmap_create_with_capacity n) cow))"
  by (simp_all add: roaring_bitmap_create_with_capacity_def)

lemma grows_fresh:
  assumes "grows (roaring_bitmap_set_copy_on_write (roaring_bitmap_create_with_capacity n) cow) xs r" and "entries_ok P xs"
  shows "ra_ok P r" and "ra_entries r = xs"
  using grows_ok [OF assms(1) _ _ _ assms(2)] by simp_all

text \<open>From the two halves of a value to its whole.\<close>

lemma ra_abs_combined:
  assumes "\<And>k. at (ra_entries r) k = {x. member (x \<in> at (ra_entries x1) k) (x \<in> at (ra_entries x2) k)}"
  shows "ra_abs r = {x. member (x \<in> ra_abs x1) (x \<in> ra_abs x2)}"
  by (auto simp: mem_ra_abs assms)

lemma roaring_bitmap_and_correct:
  assumes "ra_inv x1" and "ra_inv x2"
  shows "ra_inv (roaring_bitmap_and x1 x2) \<and> ra_abs (roaring_bitmap_and x1 x2) = ra_abs x1 \<inter> ra_abs x2"
proof -
  let ?m = "merge_entries None None (\<lambda>_. container_and) (ra_entries x1) (ra_entries x2)"
  have m: "entries_inv ?m" "\<And>k. at ?m k = {x. x \<in> at (ra_entries x1) k \<and> x \<in> at (ra_entries x2) k}"
    using and_merge.merge_correct [OF ra_ok_entries [OF assms(1)] ra_ok_entries [OF assms(2)]] by blast+
  have r: "ra_inv (roaring_bitmap_and x1 x2)" "ra_entries (roaring_bitmap_and x1 x2) = ?m"
    using grows_fresh [OF and_loop_correct [OF assms, of _ 0 0, unfolded drop_0] m(1)]
    by (simp_all add: roaring_bitmap_and_def Let_def)
  then show ?thesis using ra_abs_combined [of "roaring_bitmap_and x1 x2" "(\<and>)" x1 x2] m(2) by auto
qed

section \<open>Copying walks\<close>

abbreviation copier :: "bool \<Rightarrow> (container_t \<Rightarrow> container_t) option" where
  "copier cow \<equiv> Some (\<lambda>c. get_copy_of_container c cow)"

lemma copy_entries_map: "copy_entries cow es = map (\<lambda>(k, c). (k, get_copy_of_container c cow)) es"
  by (simp add: copy_entries_def)

text \<open>The test for an empty result is right on containers of the two kinds.\<close>

definition keeps :: "(container_t \<Rightarrow> bool) \<Rightarrow> (container_t \<Rightarrow> bool) \<Rightarrow> (container_t \<Rightarrow> container_t \<Rightarrow> container_t) \<Rightarrow>
    (container_t \<Rightarrow> bool) \<Rightarrow> bool" where
  "keeps P1 P2 combine keep \<longleftrightarrow> (\<forall>a b. P1 a \<longrightarrow> P2 b \<longrightarrow> container_abs a \<noteq> {} \<longrightarrow> container_abs b \<noteq> {} \<longrightarrow>
     (keep (combine a b) \<longleftrightarrow> container_abs (combine a b) \<noteq> {}))"

text \<open>What a loop that returns its answer and its two indices has done: one table is used up, and the
  answer has grown by the front part of the merge.\<close>

definition walked :: "roaring_array \<Rightarrow> (u16 \<times> container_t) list \<Rightarrow> (nat \<Rightarrow> nat \<Rightarrow> (u16 \<times> container_t) list) \<Rightarrow> nat \<Rightarrow> nat \<Rightarrow>
    roaring_array \<times> nat \<times> nat \<Rightarrow> bool" where
  "walked answer m rest n1 n2 result \<longleftrightarrow> (case result of (r, p, q) \<Rightarrow>
     p \<le> n1 \<and> q \<le> n2 \<and> (p = n1 \<or> q = n2) \<and> (\<exists>xs. grows answer xs r \<and> m = xs @ rest p q))"

lemma walked_append: "walked (ra_append answer k c) m rest n1 n2 result \<Longrightarrow> walked answer ((k, c) # m) rest n1 n2 result"
  unfolding walked_def by (auto split: prod.splits) (metis append_Cons grows_append)+

lemma walked_grows: "grows answer xs r \<Longrightarrow> walked r m rest n1 n2 result \<Longrightarrow> walked answer (xs @ m) rest n1 n2 result"
  unfolding walked_def by (auto split: prod.splits) (metis append_assoc grows_trans)+

lemma walked_end: "p \<le> n1 \<Longrightarrow> q \<le> n2 \<Longrightarrow> p = n1 \<or> q = n2 \<Longrightarrow> walked answer (rest p q) rest n1 n2 (answer, p, q)"
  unfolding walked_def by (auto intro!: exI [of _ "[]"])

lemma walkedE:
  assumes "walked answer m rest n1 n2 result"
  obtains r p q xs where "result = (r, p, q)" "p \<le> n1" "q \<le> n2" "p = n1 \<or> q = n2" "grows answer xs r" "m = xs @ rest p q"
  using assms unfolding walked_def by (auto split: prod.splits)

abbreviation copy_merge where
  "copy_merge combine x1 x2 p q \<equiv> merge_entries (copier (is_cow x1)) (copier (is_cow x2)) (\<lambda>_. combine)
     (drop p (ra_entries x1)) (drop q (ra_entries x2))"

lemma copying_loop_correct:
  assumes "ra_ok P1 x1" and "ra_ok P2 x2" and "keeps P1 P2 combine keep" and "pos1 \<le> ra_size x1" and "pos2 \<le> ra_size x2"
  shows "walked answer (copy_merge combine x1 x2 pos1 pos2) (copy_merge combine x1 x2) (ra_size x1) (ra_size x2)
    (copying_loop combine keep x1 x2 pos1 pos2 answer)"
  using assms
proof (induction combine keep x1 x2 pos1 pos2 answer rule: copying_loop.induct)
  case (1 combine keep x1 x2 pos1 pos2 answer)
  note ok = "1.prems"
  show ?case
  proof (cases "pos1 < ra_size x1 \<and> pos2 < ra_size x2")
    case True
    let ?s1 = "ra_get_key_at_index x1 pos1" and ?s2 = "ra_get_key_at_index x2 pos2"
    let ?c1 = "ra_get_container_at_index x1 pos1" and ?c2 = "ra_get_container_at_index x2 pos2"
    have p: "pos1 < ra_size x1" "pos2 < ra_size x2" using True by simp_all
    note cells = drop_cell [OF p(1)] drop_cell [OF p(2)]
    note c1 = cell_ok [OF ok(1) p(1)] and c2 = cell_ok [OF ok(2) p(2)]
    have next_ok: "pos1 + 1 \<le> ra_size x1" "pos2 + 1 \<le> ra_size x2" using p by simp_all
    consider (eq) "?s1 = ?s2" | (lt) "?s1 < ?s2" | (gt) "?s2 < ?s1" by (rule linorder_cases)
    then show ?thesis
    proof cases
      case eq
      let ?c = "combine ?c1 ?c2"
      have z: "keep ?c \<longleftrightarrow> container_abs ?c \<noteq> {}" using ok(3) c1 c2 unfolding keeps_def by blast
      have step: "copying_loop combine keep x1 x2 pos1 pos2 answer =
          copying_loop combine keep x1 x2 (pos1 + 1) (pos2 + 1) (if keep ?c then ra_append answer ?s1 ?c else answer)"
        using True eq by (subst copying_loop.simps) (simp add: Let_def)
      have m: "copy_merge combine x1 x2 pos1 pos2 =
          (if keep ?c then [(?s1, ?c)] else []) @ copy_merge combine x1 x2 (pos1 + 1) (pos2 + 1)"
        unfolding cells using eq z by simp
      note IH = "1.IH"(1) [OF True refl refl refl refl eq refl refl ok(1,2,3) next_ok]
      show ?thesis unfolding step m using IH by (cases "keep ?c") (simp_all add: walked_append)
    next
      case lt
      have step: "copying_loop combine keep x1 x2 pos1 pos2 answer =
          copying_loop combine keep x1 x2 (pos1 + 1) pos2 (ra_append answer ?s1 (get_copy_of_container ?c1 (is_cow x1)))"
        using True lt less_imp_neq [OF lt] by (subst copying_loop.simps) (simp add: Let_def)
      have m: "copy_merge combine x1 x2 pos1 pos2 =
          (?s1, get_copy_of_container ?c1 (is_cow x1)) # copy_merge combine x1 x2 (pos1 + 1) pos2"
        unfolding cells merge_step(1) [OF lt] by simp
      show ?thesis unfolding step m
        using "1.IH"(2) [OF True refl refl refl refl less_imp_neq [OF lt] lt ok(1,2,3) next_ok(1) ok(5)] by (rule walked_append)
    next
      case gt
      have step: "copying_loop combine keep x1 x2 pos1 pos2 answer =
          copying_loop combine keep x1 x2 pos1 (pos2 + 1) (ra_append answer ?s2 (get_copy_of_container ?c2 (is_cow x2)))"
        using True gt less_not_sym [OF gt] less_imp_neq [OF gt] by (subst copying_loop.simps) (auto simp: Let_def)
      have m: "copy_merge combine x1 x2 pos1 pos2 =
          (?s2, get_copy_of_container ?c2 (is_cow x2)) # copy_merge combine x1 x2 pos1 (pos2 + 1)"
        unfolding cells merge_step(2) [OF gt] by simp
      show ?thesis unfolding step m
        using "1.IH"(3) [OF True refl refl refl refl less_imp_neq [OF gt, symmetric] less_not_sym [OF gt] ok(1,2,3) ok(4) next_ok(2)]
        by (rule walked_append)
    qed
  next
    case False
    have step: "copying_loop combine keep x1 x2 pos1 pos2 answer = (answer, pos1, pos2)"
      using False by (subst copying_loop.simps) auto
    show ?thesis unfolding step by (rule walked_end) (use False ok(4,5) in auto)
  qed
qed

lemma merge_Nil: "merge_entries (Some h) (Some h') f [] ys = map (\<lambda>(k, c). (k, h' c)) ys"
  "merge_entries (Some h) (Some h') f xs [] = map (\<lambda>(k, c). (k, h c)) xs"
  by (simp_all add: merge_entries_right)

lemma grows_copy_range:
  "p \<le> ra_size x \<Longrightarrow> grows r (copy_entries cow (drop p (ra_entries x))) (ra_append_copy_range r x p (ra_size x) cow)"
  using append_copy_range_simps [of "ra_size x" x] by (simp add: grows_def)

lemma copying_walk_correct:
  assumes "ra_ok P1 x1" and "ra_ok P2 x2" and "keeps P1 P2 combine keep"
    and "ra_entries x1 \<noteq> []" and "ra_entries x2 \<noteq> []"
  obtains n cow where "grows (roaring_bitmap_set_copy_on_write (roaring_bitmap_create_with_capacity n) cow)
      (copy_merge combine x1 x2 0 0) (copying_walk combine keep x1 x2)"
proof -
  let ?a = "roaring_bitmap_set_copy_on_write (roaring_bitmap_create_with_capacity (word_of_nat (ra_size x1 + ra_size x2)))
              (is_cow x1 \<or> is_cow x2)"
  have "walked ?a (copy_merge combine x1 x2 0 0) (copy_merge combine x1 x2) (ra_size x1) (ra_size x2)
      (copying_loop combine keep x1 x2 0 0 ?a)" by (rule copying_loop_correct [OF assms(1-3)]) simp_all
  then obtain r p q xs where loop: "copying_loop combine keep x1 x2 0 0 ?a = (r, p, q)" and pq: "p \<le> ra_size x1" "q \<le> ra_size x2"
      "p = ra_size x1 \<or> q = ra_size x2" and xs: "grows ?a xs r" "copy_merge combine x1 x2 0 0 = xs @ copy_merge combine x1 x2 p q"
    by (rule walkedE)
  have "grows ?a (copy_merge combine x1 x2 0 0) (copying_walk combine keep x1 x2)"
  proof (cases "p = ra_size x1")
    case True
    have "copying_walk combine keep x1 x2 = ra_append_copy_range r x2 q (ra_size x2) (is_cow x2)"
      using True assms(4,5) by (simp add: copying_walk_def Let_def loop del: of_nat_add)
    then show ?thesis using grows_trans [OF xs(1) grows_copy_range [OF pq(2)]] True
      unfolding xs(2) by (simp add: merge_Nil copy_entries_map)
  next
    case False
    then have q: "q = ra_size x2" using pq(3) by simp
    have "copying_walk combine keep x1 x2 = ra_append_copy_range r x1 p (ra_size x1) (is_cow x1)"
      using False q assms(4,5) by (simp add: copying_walk_def Let_def loop del: of_nat_add)
    then show ?thesis using grows_trans [OF xs(1) grows_copy_range [OF pq(1)]] q
      unfolding xs(2) by (simp add: merge_Nil copy_entries_map)
  qed
  then show ?thesis by (rule that)
qed

lemma ra_ok_weaken: "ra_ok P ra \<Longrightarrow> (\<And>c. P c \<Longrightarrow> Q c) \<Longrightarrow> ra_ok Q ra"
  by (auto simp: ra_ok_def intro: entries_ok_weaken)

lemma copying_walk_spec:
  assumes m: "\<And>cow1 cow2. entries_merge P1 P2 P3 (copier cow1) (copier cow2) (\<lambda>_. combine) member"
    and keep: "keeps P1 P2 combine keep" and P: "copyable P1" "copyable P2" "\<And>c. P1 c \<Longrightarrow> P3 c" "\<And>c. P2 c \<Longrightarrow> P3 c"
    and ok: "ra_ok P1 x1" "ra_ok P2 x2"
  shows "ra_ok P3 (copying_walk combine keep x1 x2)"
    and "ra_abs (copying_walk combine keep x1 x2) = {x. member (x \<in> ra_abs x1) (x \<in> ra_abs x2)}"
proof -
  let ?r = "copying_walk combine keep x1 x2"
  have member: "member True False" "member False True" "\<not> member False False"
    using entries_merge.cl_some [OF m refl] entries_merge.cr_some [OF m refl] entries_merge.member_neither [OF m] by blast+
  have ids: "{x. member False (x \<in> A)} = A" "{x. member (x \<in> A) False} = A" for A :: "u16 set"
  proof -
    have "member False (x \<in> A) \<longleftrightarrow> x \<in> A" "member (x \<in> A) False \<longleftrightarrow> x \<in> A" for x using member by (cases "x \<in> A"; simp)+
    then show "{x. member False (x \<in> A)} = A" "{x. member (x \<in> A) False} = A" by simp_all
  qed
  have "ra_ok P3 ?r \<and> (\<forall>k. at (ra_entries ?r) k = {x. member (x \<in> at (ra_entries x1) k) (x \<in> at (ra_entries x2) k)})"
  proof (cases "ra_entries x1 = [] \<or> ra_entries x2 = []")
    case True
    then consider (left) "ra_entries x1 = []" | (right) "ra_entries x1 \<noteq> []" "ra_entries x2 = []" by blast
    then show ?thesis
    proof cases
      case left
      then have "?r = roaring_bitmap_copy x2" by (simp add: copying_walk_def)
      then show ?thesis using roaring_bitmap_copy_ok [OF P(2) ok(2)] P(4) left by (simp add: ra_ok_weaken ids)
    next
      case right
      then have "?r = roaring_bitmap_copy x1" by (simp add: copying_walk_def)
      then show ?thesis using roaring_bitmap_copy_ok [OF P(1) ok(1)] P(3) right by (simp add: ra_ok_weaken ids)
    qed
  next
    case False
    let ?m = "copy_merge combine x1 x2 0 0"
    have mm: "entries_ok P3 ?m" "\<And>k. at ?m k = {x. member (x \<in> at (ra_entries x1) k) (x \<in> at (ra_entries x2) k)}"
      using entries_merge.merge_correct [OF m ra_ok_entries [OF ok(1)] ra_ok_entries [OF ok(2)]] by simp_all
    obtain n cow where g: "grows (roaring_bitmap_set_copy_on_write (roaring_bitmap_create_with_capacity n) cow) ?m ?r"
      using copying_walk_correct [OF ok keep] False by blast
    show ?thesis using grows_fresh [OF g mm(1)] mm(2) by simp
  qed
  then show "ra_ok P3 ?r" "ra_abs ?r = {x. member (x \<in> ra_abs x1) (x \<in> ra_abs x2)}"
    using ra_abs_combined [of ?r member x1 x2] by blast+
qed

lemma set_forms:
  "A \<union> B = {x. x \<in> A \<or> x \<in> B}" "sym_diff A B = {x. (x \<in> A) \<noteq> (x \<in> B)}" "A \<inter> B = {x. x \<in> A \<and> x \<in> B}"
  "A - B = {x. x \<in> A \<and> x \<notin> B}"
  by auto

interpretation or_merge: entries_merge container_inv container_inv container_inv "copier cow1" "copier cow2" "\<lambda>_. container_or" "(\<or>)"
  for cow1 cow2
  by unfold_locales (auto simp only: container_or_correct set_forms(1) copy_correct option.inject option.distinct simp_thms)

interpretation xor_merge: entries_merge container_inv container_inv container_inv "copier cow1" "copier cow2" "\<lambda>_. container_xor" "(\<noteq>)"
  for cow1 cow2
  by unfold_locales (auto simp only: container_xor_correct set_forms(2) copy_correct option.inject option.distinct simp_thms)

lemma lazy_or_containers_correct:
  assumes "container_inv a" and "container_inv b" and "container_abs a \<noteq> {}" and "container_abs b \<noteq> {}"
  shows "container_lazy_ok (lazy_or_containers conv a b) \<and> container_abs (lazy_or_containers conv a b) = container_abs a \<union> container_abs b"
proof -
  have bits: "container_lazy_ok (Bitset_c (container_to_bitset a))" "container_abs (Bitset_c (container_to_bitset a)) = container_abs a"
    using container_to_bitset_correct [OF assms(1)] by (simp_all add: bitset_lazy_wf)
  show ?thesis
    using container_lazy_ior_correct [OF bits(1) container_inv_lazy [OF assms(2)]] container_lazy_or_correct [OF container_inv_lazy [OF assms(1)]
      container_inv_lazy [OF assms(2)]] assms(3,4) bits(2) by (simp add: lazy_or_containers_def)
qed

interpretation lazy_or_merge: entries_merge container_inv container_inv container_lazy_ok "copier cow1" "copier cow2"
  "\<lambda>_. lazy_or_containers conv" "(\<or>)" for conv cow1 cow2
  by unfold_locales (auto simp only: lazy_or_containers_correct set_forms(1) copy_correct container_inv_lazy option.inject
      option.distinct simp_thms)

interpretation lazy_xor_merge: entries_merge container_inv container_inv container_lazy_ok "copier cow1" "copier cow2"
  "\<lambda>_. container_lazy_xor" "(\<noteq>)" for cow1 cow2
  by unfold_locales (auto simp only: container_lazy_xor_correct set_forms(2) copy_correct container_inv_lazy option.inject
      option.distinct simp_thms)

lemma roaring_bitmap_or_correct:
  assumes "ra_inv x1" and "ra_inv x2"
  shows "ra_inv (roaring_bitmap_or x1 x2) \<and> ra_abs (roaring_bitmap_or x1 x2) = ra_abs x1 \<union> ra_abs x2"
  using copying_walk_spec [OF or_merge.entries_merge_axioms _ copyable(1) copyable(1) _ _ assms, of "\<lambda>_. True"] container_or_correct
  by (auto simp: roaring_bitmap_or_def keeps_def)

lemma roaring_bitmap_xor_correct:
  assumes "ra_inv x1" and "ra_inv x2"
  shows "ra_inv (roaring_bitmap_xor x1 x2) \<and> ra_abs (roaring_bitmap_xor x1 x2) = sym_diff (ra_abs x1) (ra_abs x2)"
proof -
  have "keeps container_inv container_inv container_xor container_nonzero_cardinality"
    using container_xor_correct nonzero_inv unfolding keeps_def by blast
  then show ?thesis
    using copying_walk_spec [OF xor_merge.entries_merge_axioms _ copyable(1) copyable(1) _ _ assms, of container_nonzero_cardinality]
    by (auto simp: roaring_bitmap_xor_def)
qed

lemma roaring_bitmap_lazy_or_correct:
  assumes "ra_inv x1" and "ra_inv x2"
  shows "ra_lazy_ok (roaring_bitmap_lazy_or x1 x2 conv) \<and> ra_abs (roaring_bitmap_lazy_or x1 x2 conv) = ra_abs x1 \<union> ra_abs x2"
  using copying_walk_spec [OF lazy_or_merge.entries_merge_axioms _ copyable(1) copyable(1) _ _ assms, of conv "\<lambda>_. True"]
    lazy_or_containers_correct container_inv_lazy
  by (auto simp: roaring_bitmap_lazy_or_def keeps_def)

lemma roaring_bitmap_lazy_xor_correct:
  assumes "ra_inv x1" and "ra_inv x2"
  shows "ra_lazy_ok (roaring_bitmap_lazy_xor x1 x2) \<and> ra_abs (roaring_bitmap_lazy_xor x1 x2) = sym_diff (ra_abs x1) (ra_abs x2)"
proof -
  have "keeps container_inv container_inv container_lazy_xor container_nonzero_cardinality"
    using container_lazy_xor_correct container_inv_lazy container_nonzero_correct unfolding keeps_def by blast
  then show ?thesis
    using copying_walk_spec [OF lazy_xor_merge.entries_merge_axioms _ copyable(1) copyable(1) _ _ assms, of container_nonzero_cardinality]
      container_inv_lazy by (auto simp: roaring_bitmap_lazy_xor_def)
qed

end
