(* ===== verification/Roaring_Inplace.thy ===== *)
theory Roaring_Inplace
  imports Roaring_Setops_Correct
begin

text \<open>
  The set operations in place: what an in-place loop leaves in front of its index is final, what lies
  behind it is still untouched, and the two together are the \<open>merge_entries\<close> of the arguments.
\<close>

section \<open>Cells in front of and behind an index\<close>

definition cells_ok :: "(container_t \<Rightarrow> bool) \<Rightarrow> (u16 \<times> container_t) list \<Rightarrow> bool" where
  "cells_ok P es \<longleftrightarrow> (\<forall>e \<in> set es. P (snd e) \<and> container_abs (snd e) \<noteq> {})"

lemma cells_ok_simps [simp]:
  "cells_ok P []" "cells_ok P (e # es) \<longleftrightarrow> P (snd e) \<and> container_abs (snd e) \<noteq> {} \<and> cells_ok P es"
  by (auto simp: cells_ok_def)

lemma cells_ok_drop: "cells_ok P (drop n es) \<Longrightarrow> n \<le> m \<Longrightarrow> cells_ok P (drop m es)"
  unfolding cells_ok_def by (meson set_drop_subset_set_drop subsetD)

lemma cells_ok_entries: "ra_ok P ra \<Longrightarrow> cells_ok P (drop n (ra_entries ra))"
  by (auto simp: ra_ok_def entries_ok_def cells_ok_def dest: in_set_dropD)

lemma cell_ahead:
  assumes "cells_ok P (drop p (ra_entries ra))" and "p < ra_size ra"
  shows "P (ra_get_container_at_index ra p)" and "container_abs (ra_get_container_at_index ra p) \<noteq> {}"
    and "cells_ok P (drop (p + 1) (ra_entries ra))"
  using assms unfolding drop_cell [OF assms(2)] by simp_all

lemma set_cell:
  assumes "p < ra_size ra"
  shows "take (p + 1) (ra_entries (ra_set_container_at_index ra p c)) = take p (ra_entries ra) @ [(ra_get_key_at_index ra p, c)]"
    and "drop (p + 1) (ra_entries (ra_set_container_at_index ra p c)) = drop (p + 1) (ra_entries ra)"
    and "ra_flags (ra_set_container_at_index ra p c) = ra_flags ra"
    and "room (ra_set_container_at_index ra p c) = room ra"
  using assms by (simp_all add: ra_set_container_at_index_def ra_get_key_at_index_def room_def ra_get_size_def take_Suc_conv_app_nth)

lemma keep_cell:
  "p < ra_size ra \<Longrightarrow> take (p + 1) (ra_entries ra) = take p (ra_entries ra) @ [(ra_get_key_at_index ra p, ra_get_container_at_index ra p)]"
  by (simp add: take_Suc_conv_app_nth ra_get_key_at_index_def ra_get_container_at_index_def)

lemma insert_cell:
  assumes "p \<le> ra_size ra"
  shows "take (p + 1) (ra_entries (ra_insert_new_key_value_at ra p k c)) = take p (ra_entries ra) @ [(k, c)]"
    and "drop (p + 1) (ra_entries (ra_insert_new_key_value_at ra p k c)) = drop p (ra_entries ra)"
  using assms by (simp_all add: list_insert_at_def)

lemma remove_cell:
  assumes "p < ra_size ra"
  shows "take p (ra_entries (ra_remove_at_index ra p)) = take p (ra_entries ra)"
    and "drop p (ra_entries (ra_remove_at_index ra p)) = drop (p + 1) (ra_entries ra)"
    and "ra_flags (ra_remove_at_index ra p) = ra_flags ra"
  using assms by (simp_all add: ra_remove_at_index_def list_remove_at_def)

text \<open>\<open>became x m r\<close>: \<open>r\<close> holds the entries \<open>m\<close>, with the flags of \<open>x\<close>, and has room for them.\<close>

definition became :: "roaring_array \<Rightarrow> (u16 \<times> container_t) list \<Rightarrow> roaring_array \<Rightarrow> bool" where
  "became x m r \<longleftrightarrow> ra_entries r = m \<and> ra_flags r = ra_flags x \<and> room r"

lemma became_ok:
  assumes "became x m r" and "flags_ok (ra_flags x)" and "entries_ok P m"
  shows "ra_ok P r"
  using assms by (simp add: became_def ra_okI)

lemma became_cong: "ra_flags x = ra_flags y \<Longrightarrow> became x m r \<longleftrightarrow> became y m r"
  by (simp add: became_def)

section \<open>Merging the rest into a new table\<close>

definition or_cells :: "(u16 \<Rightarrow> bool) \<Rightarrow> u16 \<Rightarrow> container_t \<Rightarrow> container_t \<Rightarrow> container_t" where
  "or_cells shared k c1 c2 = (if container_is_full c1 then c1 else if shared k then container_or c1 c2 else container_ior c1 c2)"

definition xor_cells :: "(u16 \<Rightarrow> bool) \<Rightarrow> u16 \<Rightarrow> container_t \<Rightarrow> container_t \<Rightarrow> container_t" where
  "xor_cells shared k c1 c2 = (if shared k then container_xor c1 c2 else container_ixor c1 c2)"

lemma or_cells_correct:
  assumes "container_inv a" "container_inv b" "container_abs a \<noteq> {}" "container_abs b \<noteq> {}"
  shows "container_inv (or_cells shared k a b) \<and> container_abs (or_cells shared k a b) = container_abs a \<union> container_abs b"
  using container_or_correct [OF assms] container_ior_correct [OF assms] container_is_full_correct [OF assms(1)] assms(1)
  by (auto simp: or_cells_def)

lemma xor_cells_correct:
  assumes "container_inv a" "container_inv b"
  shows "container_inv (xor_cells shared k a b) \<and> container_abs (xor_cells shared k a b) = sym_diff (container_abs a) (container_abs b)"
  using container_xor_correct [OF assms] container_ixor_correct [OF assms] by (simp add: xor_cells_def)

interpretation or_inplace_merge: entries_merge container_inv container_inv container_inv "Some (\<lambda>c. c)" "copier cow2"
  "or_cells shared" "(\<or>)" for cow2 shared
  by unfold_locales (auto simp only: or_cells_correct set_forms(1) copy_correct option.inject option.distinct simp_thms)

interpretation xor_inplace_merge: entries_merge container_inv container_inv container_inv "Some (\<lambda>c. c)" "copier cow2"
  "xor_cells shared" "(\<noteq>)" for cow2 shared
  by unfold_locales (auto simp only: xor_cells_correct set_forms(2) copy_correct option.inject option.distinct simp_thms)

abbreviation bulk_cells :: "(u16 \<Rightarrow> bool) \<Rightarrow> bool \<Rightarrow> u16 \<Rightarrow> container_t \<Rightarrow> container_t \<Rightarrow> container_t" where
  "bulk_cells shared is_xor \<equiv> (if is_xor then xor_cells shared else or_cells shared)"

abbreviation bulk_merge where
  "bulk_merge f x1 x2 p q \<equiv> merge_entries (Some (\<lambda>c. c)) (copier (is_cow x2)) f (drop p (ra_entries x1)) (drop q (ra_entries x2))"

lemma merge_bulk_loop_correct:
  assumes "cells_ok container_inv (drop pos1 (ra_entries x1))" and "cells_ok container_inv (drop pos2 (ra_entries x2))"
    and "pos1 \<le> ra_size x1" and "pos2 \<le> ra_size x2"
  shows "walked answer (bulk_merge (bulk_cells shared is_xor) x1 x2 pos1 pos2) (bulk_merge (bulk_cells shared is_xor) x1 x2)
    (ra_size x1) (ra_size x2) (merge_bulk_loop shared is_xor x1 x2 pos1 pos2 answer)"
  using assms
proof (induction shared is_xor x1 x2 pos1 pos2 answer rule: merge_bulk_loop.induct)
  case (1 shared is_xor x1 x2 pos1 pos2 answer)
  note ok = "1.prems"
  show ?case
  proof (cases "pos1 < ra_size x1 \<and> pos2 < ra_size x2")
    case True
    let ?s1 = "ra_get_key_at_index x1 pos1" and ?s2 = "ra_get_key_at_index x2 pos2"
    let ?c1 = "ra_get_container_at_index x1 pos1" and ?c2 = "ra_get_container_at_index x2 pos2"
    let ?f = "bulk_cells shared is_xor"
    have p: "pos1 < ra_size x1" "pos2 < ra_size x2" using True by simp_all
    have keys: "ra_keys x1 ! pos1 = ?s1" "ra_keys x2 ! pos2 = ?s2" "snd (ra_entries x1 ! pos1) = ?c1" "snd (ra_entries x2 ! pos2) = ?c2"
      using p by (simp_all add: ra_get_key_at_index_def ra_get_container_at_index_def)
    note cells = drop_cell [OF p(1)] drop_cell [OF p(2)]
    note c1 = cell_ahead [OF ok(1) p(1)] and c2 = cell_ahead [OF ok(2) p(2)]
    have next_ok: "pos1 + 1 \<le> ra_size x1" "pos2 + 1 \<le> ra_size x2" using p by simp_all
    note unfolded = merge_bulk_loop.simps [of shared is_xor x1 x2 pos1 pos2 answer, unfolded keys Let_def]
    note IHs = "1.IH" [OF True refl refl refl refl, unfolded keys]
    consider (eq) "?s1 = ?s2" | (lt) "?s1 < ?s2" | (gt) "?s2 < ?s1" by (rule linorder_cases)
    then show ?thesis
    proof cases
      case eq
      let ?c = "?f ?s1 ?c1 ?c2"
      have no: "\<not> ?s1 < ?s2" "\<not> ?s2 < ?s1" using eq by simp_all
      have inv: "container_inv ?c" using or_cells_correct [OF c1(1) c2(1) c1(2) c2(2)] xor_cells_correct [OF c1(1) c2(1)] by simp
      have union: "\<not> is_xor \<Longrightarrow> container_abs ?c \<noteq> {}"
        using or_cells_correct [OF c1(1) c2(1) c1(2) c2(2)] c1(2) by simp
      let ?a = "if container_abs ?c \<noteq> {} then ra_append answer ?s1 ?c else answer"
      have a: "(if is_xor
          then let c = if shared ?s1 then container_xor ?c1 ?c2 else container_ixor ?c1 ?c2
               in if container_nonzero_cardinality c then ra_append answer ?s1 c else answer
          else if container_is_full ?c1 then ra_append answer ?s1 ?c1
          else ra_append answer ?s1 (if shared ?s1 then container_or ?c1 ?c2 else container_ior ?c1 ?c2)) = ?a"
        using nonzero_inv [OF inv] union by (auto simp: Let_def xor_cells_def or_cells_def)
      have step: "merge_bulk_loop shared is_xor x1 x2 pos1 pos2 answer = merge_bulk_loop shared is_xor x1 x2 (pos1 + 1) (pos2 + 1) ?a"
        unfolding unfolded a [unfolded Let_def] using True no by simp
      have m: "bulk_merge ?f x1 x2 pos1 pos2 = (if container_abs ?c \<noteq> {} then [(?s1, ?c)] else []) @ bulk_merge ?f x1 x2 (pos1 + 1) (pos2 + 1)"
        unfolding cells using eq by simp
      show ?thesis unfolding step m using IHs(3) [OF no a [symmetric] c1(3) c2(3) next_ok] by (cases "container_abs ?c \<noteq> {}") (simp_all add: walked_append)
    next
      case lt
      have step: "merge_bulk_loop shared is_xor x1 x2 pos1 pos2 answer = merge_bulk_loop shared is_xor x1 x2 (pos1 + 1) pos2 (ra_append answer ?s1 ?c1)"
        unfolding unfolded using True lt by simp
      have m: "bulk_merge ?f x1 x2 pos1 pos2 = (?s1, ?c1) # bulk_merge ?f x1 x2 (pos1 + 1) pos2"
        unfolding cells merge_step(1) [OF lt] by simp
      show ?thesis unfolding step m using IHs(1) [OF lt c1(3) ok(2) next_ok(1) ok(4)] by (rule walked_append)
    next
      case gt
      have step: "merge_bulk_loop shared is_xor x1 x2 pos1 pos2 answer =
          merge_bulk_loop shared is_xor x1 x2 pos1 (pos2 + 1) (ra_append answer ?s2 (get_copy_of_container ?c2 (is_cow x2)))"
        unfolding unfolded using True gt less_not_sym [OF gt] by simp
      have m: "bulk_merge ?f x1 x2 pos1 pos2 = (?s2, get_copy_of_container ?c2 (is_cow x2)) # bulk_merge ?f x1 x2 pos1 (pos2 + 1)"
        unfolding cells merge_step(2) [OF gt] by simp
      show ?thesis unfolding step m using IHs(2) [OF less_not_sym [OF gt] gt ok(1) c2(3) ok(3) next_ok(2)] by (rule walked_append)
    qed
  next
    case False
    have step: "merge_bulk_loop shared is_xor x1 x2 pos1 pos2 answer = (answer, pos1, pos2)"
      using False by (subst merge_bulk_loop.simps) auto
    show ?thesis unfolding step by (rule walked_end) (use False ok(3,4) in auto)
  qed
qed

lemma append_cells_simps:
  "ra_entries (append_cells ra es) = ra_entries ra @ es" "ra_flags (append_cells ra es) = ra_flags ra"
  "room ra \<Longrightarrow> room (append_cells ra es)"
proof -
  have "grows ra es (append_cells ra es)"
  proof (induction es arbitrary: ra)
    case (Cons e es)
    have "append_cells ra (e # es) = append_cells (ra_append ra (fst e) (snd e)) es" by (simp add: append_cells_def case_prod_unfold)
    then show ?case using grows_append [OF Cons.IH, of ra "fst e" "snd e"] by simp
  qed (simp add: append_cells_def)
  then show "ra_entries (append_cells ra es) = ra_entries ra @ es" "ra_flags (append_cells ra es) = ra_flags ra"
    "room ra \<Longrightarrow> room (append_cells ra es)" by (simp_all add: grows_def)
qed

lemma merge_bulk_correct:
  assumes "cells_ok container_inv (drop left (ra_entries x1))" and "cells_ok container_inv (drop right (ra_entries x2))"
    and "left \<le> ra_size x1" and "right \<le> ra_size x2"
  shows "became x1 (take dst (ra_entries x1) @ bulk_merge (bulk_cells shared is_xor) x1 x2 left right)
    (roaring_inplace_merge_bulk shared x1 x2 dst left right is_xor)"
proof -
  define n where "n = dst + count_distinct (drop left (ra_keys x1)) (drop right (ra_keys x2))"
  define a where "a = append_cells (ra_init_with_capacity (if n > 0 then word_of_nat n else 1)) (take dst (ra_entries x1))"
  have a: "ra_entries a = take dst (ra_entries x1)" "room a" by (simp_all add: a_def append_cells_simps)
  let ?m = "bulk_merge (bulk_cells shared is_xor) x1 x2"
  have "walked a (?m left right) ?m (ra_size x1) (ra_size x2) (merge_bulk_loop shared is_xor x1 x2 left right a)"
    by (rule merge_bulk_loop_correct [OF assms])
  then obtain r p q xs where loop: "merge_bulk_loop shared is_xor x1 x2 left right a = (r, p, q)"
    and pq: "p = ra_size x1 \<or> q = ra_size x2" and xs: "grows a xs r" "?m left right = xs @ ?m p q" by (rule walkedE)
  define b where "b = append_cells (append_cells r (drop p (ra_entries x1))) (copy_entries (is_cow x2) (drop q (ra_entries x2)))"
  have res: "roaring_inplace_merge_bulk shared x1 x2 dst left right is_xor = b\<lparr>ra_flags := ra_flags x1\<rparr>"
    unfolding roaring_inplace_merge_bulk_def Let_def n_def [symmetric] a_def [symmetric] loop prod.case b_def copy_entries_map ..
  have rest: "?m p q = drop p (ra_entries x1) @ copy_entries (is_cow x2) (drop q (ra_entries x2))"
    using pq by (auto simp: merge_Nil copy_entries_map)
  have b: "room b" "ra_entries b = take dst (ra_entries x1) @ ?m left right"
    using xs a rest by (simp_all add: b_def append_cells_simps grows_def)
  have "room (b\<lparr>ra_flags := ra_flags x1\<rparr>) = room b" by (simp add: room_def ra_get_size_def)
  then show ?thesis using b by (simp add: res became_def)
qed

section \<open>Union and symmetric difference in place\<close>

lemma grows_became:
  assumes "grows x ys r" and "room x"
  shows "became x (ra_entries x @ ys) r"
  using assms by (simp add: grows_def became_def)

lemma inplace_end:
  assumes "\<not> (pos1 < ra_size x1 \<and> pos2 < ra_size x2)" and "pos1 \<le> ra_size x1" and "pos2 \<le> ra_size x2" and "room x1"
  shows "became x1 (take pos1 (ra_entries x1) @ bulk_merge f x1 x2 pos1 pos2)
    (if pos1 = ra_size x1 then ra_append_copy_range x1 x2 pos2 (ra_size x2) (is_cow x2) else x1)"
proof (cases "pos1 = ra_size x1")
  case True
  then show ?thesis using grows_became [OF grows_copy_range [OF assms(3)] assms(4)] by (simp add: copy_entries_map)
next
  case False
  then have "pos2 = ra_size x2" using assms by simp
  then show ?thesis using False assms(4) by (simp add: became_def merge_Nil)
qed

lemma or_inplace_loop_correct:
  assumes "cells_ok container_inv (drop pos1 (ra_entries x1))" and "ra_inv x2" and "room x1"
    and "pos1 \<le> ra_size x1" and "pos2 \<le> ra_size x2"
  shows "became x1 (take pos1 (ra_entries x1) @ bulk_merge (or_cells shared) x1 x2 pos1 pos2) (or_inplace_loop shared x1 x2 pos1 pos2)"
  using assms
proof (induction shared x1 x2 pos1 pos2 rule: or_inplace_loop.induct)
  case (1 shared x1 x2 pos1 pos2)
  note ok = "1.prems"
  note c2s = cells_ok_entries [OF ok(2)]
  show ?case
  proof (cases "pos1 < ra_size x1 \<and> pos2 < ra_size x2")
    case True
    let ?s1 = "ra_get_key_at_index x1 pos1" and ?s2 = "ra_get_key_at_index x2 pos2"
    let ?c1 = "ra_get_container_at_index x1 pos1" and ?c2 = "ra_get_container_at_index x2 pos2"
    have p: "pos1 < ra_size x1" "pos2 < ra_size x2" using True by simp_all
    note cells = drop_cell [OF p(1)] drop_cell [OF p(2)]
    note c1 = cell_ahead [OF ok(1) p(1)] and c2 = cell_ok [OF ok(2) p(2)]
    have next_ok: "pos1 + 1 \<le> ra_size x1" "pos2 + 1 \<le> ra_size x2" using p by simp_all
    consider (eq) "?s1 = ?s2" | (lt) "?s1 < ?s2" | (gt) "?s2 < ?s1" by (rule linorder_cases)
    then show ?thesis
    proof cases
      case eq
      let ?c = "or_cells shared ?s1 ?c1 ?c2"
      let ?x = "if container_is_full ?c1 then x1
                else ra_set_container_at_index x1 pos1 (if shared ?s1 then container_or ?c1 ?c2 else container_ior ?c1 ?c2)"
      have x: "take (pos1 + 1) (ra_entries ?x) = take pos1 (ra_entries x1) @ [(?s1, ?c)]"
        "drop (pos1 + 1) (ra_entries ?x) = drop (pos1 + 1) (ra_entries x1)" "ra_flags ?x = ra_flags x1" "room ?x" "ra_size ?x = ra_size x1"
        using keep_cell [OF p(1)] set_cell [OF p(1)] ok(3) by (simp_all add: or_cells_def)
      have ne: "container_abs ?c \<noteq> {}" using or_cells_correct [of ?c1 ?c2 shared ?s1] c1 c2 by auto
      have step: "or_inplace_loop shared x1 x2 pos1 pos2 = or_inplace_loop shared ?x x2 (pos1 + 1) (pos2 + 1)"
        using True eq by (subst or_inplace_loop.simps) (simp add: Let_def)
      have m: "bulk_merge (or_cells shared) x1 x2 pos1 pos2 = (?s1, ?c) # bulk_merge (or_cells shared) x1 x2 (pos1 + 1) (pos2 + 1)"
        unfolding cells using eq ne by simp
      have "became ?x (take (pos1 + 1) (ra_entries ?x) @ bulk_merge (or_cells shared) ?x x2 (pos1 + 1) (pos2 + 1))
          (or_inplace_loop shared ?x x2 (pos1 + 1) (pos2 + 1))"
        by (rule "1.IH"(1) [OF True refl refl eq refl refl refl]) (use x c1(3) ok next_ok in simp_all)
      then show ?thesis unfolding step m x(1) x(2) became_cong [OF x(3)] by simp
    next
      case lt
      have step: "or_inplace_loop shared x1 x2 pos1 pos2 = or_inplace_loop shared x1 x2 (pos1 + 1) pos2"
        using True lt less_imp_neq [OF lt] by (subst or_inplace_loop.simps) (simp add: Let_def)
      have m: "bulk_merge (or_cells shared) x1 x2 pos1 pos2 = (?s1, ?c1) # bulk_merge (or_cells shared) x1 x2 (pos1 + 1) pos2"
        unfolding cells merge_step(1) [OF lt] by simp
      show ?thesis unfolding step m
        using "1.IH"(2) [OF True refl refl less_imp_neq [OF lt] lt c1(3) ok(2,3) next_ok(1) ok(5)] keep_cell [OF p(1)] by simp
    next
      case gt
      have step: "or_inplace_loop shared x1 x2 pos1 pos2 = roaring_inplace_merge_bulk shared x1 x2 pos1 pos1 pos2 False"
        using True less_not_sym [OF gt] less_imp_neq [OF gt] by (subst or_inplace_loop.simps) (auto simp: Let_def)
      show ?thesis unfolding step using merge_bulk_correct [OF ok(1) c2s ok(4,5), where dst = pos1 and shared = shared and is_xor = False] by simp
    qed
  next
    case False
    then have "or_inplace_loop shared x1 x2 pos1 pos2
        = (if pos1 = ra_size x1 then ra_append_copy_range x1 x2 pos2 (ra_size x2) (is_cow x2) else x1)"
      by (subst or_inplace_loop.simps) auto
    then show ?thesis using inplace_end [OF False ok(4,5,3)] by simp
  qed
qed

lemma xor_inplace_loop_correct:
  assumes "cells_ok container_inv (drop pos1 (ra_entries x1))" and "ra_inv x2" and "room x1"
    and "pos1 \<le> ra_size x1" and "pos2 \<le> ra_size x2"
  shows "became x1 (take pos1 (ra_entries x1) @ bulk_merge (xor_cells shared) x1 x2 pos1 pos2) (xor_inplace_loop shared x1 x2 pos1 pos2)"
  using assms
proof (induction shared x1 x2 pos1 pos2 rule: xor_inplace_loop.induct)
  case (1 shared x1 x2 pos1 pos2)
  note ok = "1.prems"
  note c2s = cells_ok_entries [OF ok(2)]
  show ?case
  proof (cases "pos1 < ra_size x1 \<and> pos2 < ra_size x2")
    case True
    let ?s1 = "ra_get_key_at_index x1 pos1" and ?s2 = "ra_get_key_at_index x2 pos2"
    let ?c1 = "ra_get_container_at_index x1 pos1" and ?c2 = "ra_get_container_at_index x2 pos2"
    have p: "pos1 < ra_size x1" "pos2 < ra_size x2" using True by simp_all
    note cells = drop_cell [OF p(1)] drop_cell [OF p(2)]
    note c1 = cell_ahead [OF ok(1) p(1)] and c2 = cell_ok [OF ok(2) p(2)]
    have next_ok: "pos1 + 1 \<le> ra_size x1" "pos2 + 1 \<le> ra_size x2" using p by simp_all
    consider (eq) "?s1 = ?s2" | (lt) "?s1 < ?s2" | (gt) "?s2 < ?s1" by (rule linorder_cases)
    then show ?thesis
    proof cases
      case eq
      let ?c = "xor_cells shared ?s1 ?c1 ?c2"
      have c: "(if shared ?s1 then container_xor ?c1 ?c2 else container_ixor ?c1 ?c2) = ?c" by (simp add: xor_cells_def)
      have inv: "container_inv ?c" using xor_cells_correct c1 c2 by blast
      show ?thesis
      proof (cases "container_abs ?c = {}")
        case empty: True
        have z: "\<not> container_nonzero_cardinality ?c" using nonzero_inv [OF inv] empty by simp
        have step: "xor_inplace_loop shared x1 x2 pos1 pos2 = roaring_inplace_merge_bulk shared x1 x2 pos1 (pos1 + 1) (pos2 + 1) True"
          using True eq z unfolding xor_cells_def by (subst xor_inplace_loop.simps) (cases "shared ?s1"; simp add: Let_def)
        have m: "bulk_merge (xor_cells shared) x1 x2 pos1 pos2 = bulk_merge (xor_cells shared) x1 x2 (pos1 + 1) (pos2 + 1)"
          unfolding cells using eq empty by simp
        show ?thesis unfolding step m
          using merge_bulk_correct [OF c1(3) c2s next_ok, where dst = pos1 and shared = shared and is_xor = True] by simp
      next
        case ne: False
        let ?x = "ra_set_container_at_index x1 pos1 ?c"
        note x = set_cell [OF p(1), of ?c]
        have nz: "container_nonzero_cardinality ?c" using nonzero_inv [OF inv] ne by simp
        have step: "xor_inplace_loop shared x1 x2 pos1 pos2 = xor_inplace_loop shared ?x x2 (pos1 + 1) (pos2 + 1)"
          using True eq nz unfolding xor_cells_def by (subst xor_inplace_loop.simps) (cases "shared ?s1"; simp add: Let_def)
        have m: "bulk_merge (xor_cells shared) x1 x2 pos1 pos2 = (?s1, ?c) # bulk_merge (xor_cells shared) x1 x2 (pos1 + 1) (pos2 + 1)"
          unfolding cells using eq ne by simp
        have "became ?x (take (pos1 + 1) (ra_entries ?x) @ bulk_merge (xor_cells shared) ?x x2 (pos1 + 1) (pos2 + 1))
            (xor_inplace_loop shared ?x x2 (pos1 + 1) (pos2 + 1))"
          by (rule "1.IH"(1) [OF True refl refl eq refl refl c [symmetric] nz]) (use x c1(3) ok next_ok in simp_all)
        then show ?thesis unfolding step m x(1) x(2) became_cong [OF x(3)] by simp
      qed
    next
      case lt
      have step: "xor_inplace_loop shared x1 x2 pos1 pos2 = xor_inplace_loop shared x1 x2 (pos1 + 1) pos2"
        using True lt less_imp_neq [OF lt] by (subst xor_inplace_loop.simps) (simp add: Let_def)
      have m: "bulk_merge (xor_cells shared) x1 x2 pos1 pos2 = (?s1, ?c1) # bulk_merge (xor_cells shared) x1 x2 (pos1 + 1) pos2"
        unfolding cells merge_step(1) [OF lt] by simp
      show ?thesis unfolding step m
        using "1.IH"(2) [OF True refl refl less_imp_neq [OF lt] lt c1(3) ok(2,3) next_ok(1) ok(5)] keep_cell [OF p(1)] by simp
    next
      case gt
      have step: "xor_inplace_loop shared x1 x2 pos1 pos2 = roaring_inplace_merge_bulk shared x1 x2 pos1 pos1 pos2 True"
        using True less_not_sym [OF gt] less_imp_neq [OF gt] by (subst xor_inplace_loop.simps) (auto simp: Let_def)
      show ?thesis unfolding step using merge_bulk_correct [OF ok(1) c2s ok(4,5), where dst = pos1 and shared = shared and is_xor = True] by simp
    qed
  next
    case False
    then have "xor_inplace_loop shared x1 x2 pos1 pos2
        = (if pos1 = ra_size x1 then ra_append_copy_range x1 x2 pos2 (ra_size x2) (is_cow x2) else x1)"
      by (subst xor_inplace_loop.simps) auto
    then show ?thesis using inplace_end [OF False ok(4,5,3)] by simp
  qed
qed

text \<open>What \<open>became\<close> says of the whole operation, given what the merge computes.\<close>

lemma became_spec:
  assumes "became x1 m r" and "ra_ok P x1" and "entries_ok Q m"
    and "\<And>k. at m k = {x. member (x \<in> at (ra_entries x1) k) (x \<in> at (ra_entries x2) k)}"
  shows "ra_ok Q r \<and> ra_abs r = {x. member (x \<in> ra_abs x1) (x \<in> ra_abs x2)}"
proof -
  have "ra_entries r = m" "flags_ok (ra_flags x1)" using assms(1,2) by (simp_all add: became_def ra_ok_def)
  then show ?thesis using became_ok [OF assms(1) _ assms(3)] ra_abs_combined [of r member x1 x2] assms(4) by simp
qed

lemma overwrite_inv:
  assumes "ra_inv src" and "ra_ok Q dest"
  shows "ra_inv (roaring_bitmap_overwrite dest src) \<and> ra_abs (roaring_bitmap_overwrite dest src) = ra_abs src"
  using roaring_bitmap_overwrite_ok [OF copyable(1) assms] ra_abs_eqI [of "roaring_bitmap_overwrite dest src" src] by simp

lemma ra_abs_Nil: "ra_entries r = [] \<Longrightarrow> ra_abs r = {}"
  by (simp add: ra_abs_def entries_abs_def)

lemma roaring_bitmap_or_inplace_correct:
  assumes "ra_inv x1" and "ra_inv x2"
  shows "ra_inv (roaring_bitmap_or_inplace shared x1 x2) \<and> ra_abs (roaring_bitmap_or_inplace shared x1 x2) = ra_abs x1 \<union> ra_abs x2"
proof -
  have "became x1 (bulk_merge (or_cells shared) x1 x2 0 0) (or_inplace_loop shared x1 x2 0 0)"
    using or_inplace_loop_correct [OF cells_ok_entries [OF assms(1)] assms(2) ra_ok_room [OF assms(1)], of 0 0] by simp
  then have "ra_inv (or_inplace_loop shared x1 x2 0 0) \<and> ra_abs (or_inplace_loop shared x1 x2 0 0) = {x. x \<in> ra_abs x1 \<or> x \<in> ra_abs x2}"
    by (rule became_spec [OF _ assms(1)])
      (use or_inplace_merge.merge_correct [OF ra_ok_entries [OF assms(1)] ra_ok_entries [OF assms(2)]] in auto)
  then show ?thesis
    using overwrite_inv [OF assms(2,1)] assms ra_abs_Nil [of x1] ra_abs_Nil [of x2]
    by (auto simp: roaring_bitmap_or_inplace_def)
qed

lemma roaring_bitmap_xor_inplace_correct:
  assumes "ra_inv x1" and "ra_inv x2"
  shows "ra_inv (roaring_bitmap_xor_inplace shared x1 x2) \<and>
    ra_abs (roaring_bitmap_xor_inplace shared x1 x2) = sym_diff (ra_abs x1) (ra_abs x2)"
proof -
  have "became x1 (bulk_merge (xor_cells shared) x1 x2 0 0) (xor_inplace_loop shared x1 x2 0 0)"
    using xor_inplace_loop_correct [OF cells_ok_entries [OF assms(1)] assms(2) ra_ok_room [OF assms(1)], of 0 0] by simp
  then have "ra_inv (xor_inplace_loop shared x1 x2 0 0) \<and>
      ra_abs (xor_inplace_loop shared x1 x2 0 0) = {x. (x \<in> ra_abs x1) \<noteq> (x \<in> ra_abs x2)}"
    by (rule became_spec [OF _ assms(1)])
      (use xor_inplace_merge.merge_correct [OF ra_ok_entries [OF assms(1)] ra_ok_entries [OF assms(2)]] in simp_all)
  then show ?thesis
    using overwrite_inv [OF assms(2,1)] assms ra_abs_Nil [of x1] ra_abs_Nil [of x2]
    by (simp add: roaring_bitmap_xor_inplace_def set_forms(2))
qed

end
