(* ===== verification/Roaring_Difference.thy ===== *)
theory Roaring_Difference
  imports Roaring_Inplace
begin

text \<open>
  Intersection in place, and difference: the loops that write their result to the front of the table
  they read, and the loop that copies whole stretches of entries.
\<close>

section \<open>Writing behind the index that is read\<close>

lemma replace_cell:
  assumes "k \<le> p" and "p < ra_size ra"
  shows "take (k + 1) (ra_entries (ra_replace_key_and_container_at_index ra k key c)) = take k (ra_entries ra) @ [(key, c)]"
    and "drop (p + 1) (ra_entries (ra_replace_key_and_container_at_index ra k key c)) = drop (p + 1) (ra_entries ra)"
    and "ra_flags (ra_replace_key_and_container_at_index ra k key c) = ra_flags ra"
    and "ra_allocation_size (ra_replace_key_and_container_at_index ra k key c) = ra_allocation_size ra"
  using assms by (simp_all add: ra_replace_key_and_container_at_index_def take_Suc_conv_app_nth)

text \<open>\<open>shrunk x m r n\<close>: the first \<open>n\<close> cells of \<open>r\<close> are \<open>m\<close>, in the cells that \<open>x\<close> had.\<close>

definition shrunk :: "roaring_array \<Rightarrow> (u16 \<times> container_t) list \<Rightarrow> roaring_array \<Rightarrow> nat \<Rightarrow> bool" where
  "shrunk x m r n \<longleftrightarrow> take n (ra_entries r) = m \<and> ra_flags r = ra_flags x \<and> ra_allocation_size r = ra_allocation_size x
     \<and> ra_size r = ra_size x"

lemma shrunk_cong:
  "ra_flags x = ra_flags y \<Longrightarrow> ra_allocation_size x = ra_allocation_size y \<Longrightarrow> ra_size x = ra_size y \<Longrightarrow> shrunk x m r n \<longleftrightarrow> shrunk y m r n"
  by (simp add: shrunk_def)

lemma shrunk_spec:
  assumes "shrunk x1 m r n" and "ra_ok P x1" and "entries_ok Q m"
    and "\<And>k. at m k = {x. member (x \<in> at (ra_entries x1) k) (x \<in> at (ra_entries x2) k)}"
  shows "ra_ok Q (ra_downsize r n) \<and> ra_abs (ra_downsize r n) = {x. member (x \<in> ra_abs x1) (x \<in> ra_abs x2)}"
proof -
  have e: "ra_entries (ra_downsize r n) = m" using assms(1) by (simp add: shrunk_def ra_downsize_def)
  have "length m \<le> ra_size x1" using assms(1) unfolding shrunk_def by (metis length_take min.cobounded1)
  then have "ra_ok Q (ra_downsize r n)"
    using assms by (auto simp: ra_ok_def e ra_get_size_def) (auto simp: shrunk_def ra_downsize_def)
  then show ?thesis using ra_abs_combined [of "ra_downsize r n" member x1 x2] assms(4) e by simp
qed

section \<open>Intersection in place\<close>

definition and_cells :: "(u16 \<Rightarrow> bool) \<Rightarrow> u16 \<Rightarrow> container_t \<Rightarrow> container_t \<Rightarrow> container_t" where
  "and_cells shared k c1 c2 = (if shared k then container_and c1 c2 else container_iand c1 c2)"

lemma and_cells_correct:
  assumes "container_inv a" "container_inv b"
  shows "container_inv (and_cells shared k a b) \<and> container_abs (and_cells shared k a b) = container_abs a \<inter> container_abs b"
  using container_and_correct [OF assms] container_iand_correct [OF assms] by (simp add: and_cells_def)

interpretation and_inplace_merge: entries_merge container_inv container_inv container_inv None None "and_cells shared" "(\<and>)"
  for shared
  by unfold_locales (auto simp only: and_cells_correct set_forms(3) option.distinct simp_thms)

abbreviation ahead_merge where
  "ahead_merge cl f x1 x2 p q \<equiv> merge_entries cl None f (drop p (ra_entries x1)) (drop q (ra_entries x2))"

lemma and_inplace_loop_correct:
  assumes "cells_ok container_inv (drop pos1 (ra_entries x1))" and "ra_inv x2" and "k \<le> pos1" and "pos1 \<le> ra_size x1"
  shows "case_prod (shrunk x1 (take k (ra_entries x1) @ ahead_merge None (and_cells shared) x1 x2 pos1 pos2))
    (and_inplace_loop shared x1 x2 pos1 pos2 k)"
  using assms
proof (induction shared x1 x2 pos1 pos2 k rule: and_inplace_loop.induct)
  case (1 shared x1 x2 pos1 pos2 k)
  note ok = "1.prems"
  let ?m = "ahead_merge None (and_cells shared)"
  show ?case
  proof (cases "pos1 < ra_size x1 \<and> pos2 < ra_size x2")
    case True
    let ?s1 = "ra_get_key_at_index x1 pos1" and ?s2 = "ra_get_key_at_index x2 pos2"
    let ?c1 = "ra_get_container_at_index x1 pos1" and ?c2 = "ra_get_container_at_index x2 pos2"
    have p: "pos1 < ra_size x1" "pos2 < ra_size x2" using True by simp_all
    note cells = drop_cell [OF p(1)] drop_cell [OF p(2)]
    note c1 = cell_ahead [OF ok(1) p(1)] and c2 = cell_ok [OF ok(2) p(2)]
    consider (eq) "?s1 = ?s2" | (lt) "?s1 < ?s2" | (gt) "?s2 < ?s1" by (rule linorder_cases)
    then show ?thesis
    proof cases
      case eq
      let ?c = "and_cells shared ?s1 ?c1 ?c2"
      have c: "?c = (if shared ?s1 then container_and ?c1 ?c2 else container_iand ?c1 ?c2)" by (simp add: and_cells_def)
      have inv: "container_inv ?c" using and_cells_correct c1 c2 by blast
      show ?thesis
      proof (cases "container_nonzero_cardinality ?c")
        case nz: True
        let ?x = "ra_replace_key_and_container_at_index x1 k ?s1 ?c"
        note x = replace_cell [OF ok(3) p(1), of ?s1 ?c]
        have step: "and_inplace_loop shared x1 x2 pos1 pos2 k = and_inplace_loop shared ?x x2 (pos1 + 1) (pos2 + 1) (k + 1)"
          using True eq nz unfolding and_cells_def by (subst and_inplace_loop.simps) (cases "shared ?s1"; simp add: Let_def)
        have m: "?m x1 x2 pos1 pos2 = (?s1, ?c) # ?m x1 x2 (pos1 + 1) (pos2 + 1)"
          unfolding cells using eq nz nonzero_inv [OF inv] by simp
        have "case_prod (shrunk ?x (take (k + 1) (ra_entries ?x) @ ?m ?x x2 (pos1 + 1) (pos2 + 1)))
            (and_inplace_loop shared ?x x2 (pos1 + 1) (pos2 + 1) (k + 1))"
          by (rule "1.IH"(1) [OF True refl refl eq refl refl c nz]) (use x c1(3) ok p in simp_all)
        then show ?thesis unfolding step m x(1) x(2) case_prod_unfold
          using shrunk_cong [OF x(3) x(4)] by simp
      next
        case z: False
        have step: "and_inplace_loop shared x1 x2 pos1 pos2 k = and_inplace_loop shared x1 x2 (pos1 + 1) (pos2 + 1) k"
          using True eq z unfolding and_cells_def by (subst and_inplace_loop.simps) (cases "shared ?s1"; simp add: Let_def)
        have m: "?m x1 x2 pos1 pos2 = ?m x1 x2 (pos1 + 1) (pos2 + 1)"
          unfolding cells using eq z nonzero_inv [OF inv] by simp
        show ?thesis unfolding step m by (rule "1.IH"(2) [OF True refl refl eq refl refl c z]) (use c1(3) ok p in simp_all)
      qed
    next
      case lt
      let ?q = "ra_advance_until_freeing x1 ?s2 pos1"
      note q = advance_freeing_skips [OF ok(4), of ?s2]
      have step: "and_inplace_loop shared x1 x2 pos1 pos2 k = and_inplace_loop shared x1 x2 ?q pos2 k"
        using True lt less_imp_neq [OF lt] by (subst and_inplace_loop.simps) (simp add: Let_def)
      have m: "?m x1 x2 pos1 pos2 = ?m x1 x2 ?q pos2" using q unfolding cells(2) by (subst merge_skip_left) simp
      have "cells_ok container_inv (drop ?q (ra_entries x1))" using q cells_ok_drop [OF ok(1)] by blast
      then show ?thesis unfolding step m
        by (rule "1.IH"(3) [OF True refl refl less_imp_neq [OF lt] lt _ ok(2)]) (use q ok(3) in simp_all)
    next
      case gt
      let ?q = "ra_advance_until x2 ?s1 (int pos2)"
      have step: "and_inplace_loop shared x1 x2 pos1 pos2 k = and_inplace_loop shared x1 x2 pos1 ?q k"
        using True less_not_sym [OF gt] less_imp_neq [OF gt] by (subst and_inplace_loop.simps) (auto simp: Let_def)
      have m: "?m x1 x2 pos1 pos2 = ?m x1 x2 pos1 ?q"
        unfolding cells(1) advance_entries [OF ok(2) p(2) gt] by (subst merge_skip_right) simp
      show ?thesis unfolding step m
        by (rule "1.IH"(4) [OF True refl refl less_imp_neq [OF gt, symmetric] less_not_sym [OF gt] ok])
    qed
  next
    case False
    have step: "and_inplace_loop shared x1 x2 pos1 pos2 k = (x1, k)" using False by (subst and_inplace_loop.simps) auto
    have "?m x1 x2 pos1 pos2 = []" using False by (auto simp: merge_entries_right)
    then show ?thesis unfolding step by (simp add: shrunk_def)
  qed
qed

lemma roaring_bitmap_and_inplace_correct:
  assumes "ra_inv x1" and "ra_inv x2"
  shows "ra_inv (roaring_bitmap_and_inplace shared x1 x2) \<and> ra_abs (roaring_bitmap_and_inplace shared x1 x2) = ra_abs x1 \<inter> ra_abs x2"
proof -
  let ?m = "ahead_merge None (and_cells shared) x1 x2 0 0"
  obtain r n where rn: "and_inplace_loop shared x1 x2 0 0 0 = (r, n)" by fastforce
  have "shrunk x1 ?m r n"
    using and_inplace_loop_correct [OF cells_ok_entries [OF assms(1)] assms(2), of 0 0 shared 0] by (simp add: rn)
  then have "ra_inv (ra_downsize r n) \<and> ra_abs (ra_downsize r n) = {x. x \<in> ra_abs x1 \<and> x \<in> ra_abs x2}"
    by (rule shrunk_spec [OF _ assms(1)])
      (use and_inplace_merge.merge_correct [OF ra_ok_entries [OF assms(1)] ra_ok_entries [OF assms(2)]] in simp_all)
  then show ?thesis by (simp add: roaring_bitmap_and_inplace_def rn set_forms(3))
qed

section \<open>Difference\<close>

interpretation andnot_merge: entries_merge container_inv container_inv container_inv "copier cow1" None "\<lambda>_. container_andnot"
  "\<lambda>x y. x \<and> \<not> y" for cow1
  by unfold_locales (auto simp only: container_andnot_correct set_forms(4) copy_correct option.inject option.distinct simp_thms)

abbreviation andnot_ahead where
  "andnot_ahead x1 x2 p q \<equiv> ahead_merge (copier (is_cow x1)) (\<lambda>_. container_andnot) x1 x2 p q"

lemma andnot_loop_correct:
  assumes "ra_inv x1" and "ra_inv x2" and "pos1 \<le> ra_size x1" and "pos2 \<le> ra_size x2"
  shows "walked answer (andnot_ahead x1 x2 pos1 pos2) (andnot_ahead x1 x2) (ra_size x1) (ra_size x2) (andnot_loop x1 x2 pos1 pos2 answer)"
  using assms
proof (induction x1 x2 pos1 pos2 answer rule: andnot_loop.induct)
  case (1 x1 x2 pos1 pos2 answer)
  note ok = "1.prems"
  show ?case
  proof (cases "pos1 < ra_size x1 \<and> pos2 < ra_size x2")
    case True
    let ?s1 = "ra_get_key_at_index x1 pos1" and ?s2 = "ra_get_key_at_index x2 pos2"
    let ?c1 = "ra_get_container_at_index x1 pos1" and ?c2 = "ra_get_container_at_index x2 pos2"
    have p: "pos1 < ra_size x1" "pos2 < ra_size x2" using True by simp_all
    note cells = drop_cell [OF p(1)] drop_cell [OF p(2)]
    note c1 = cell_ok [OF ok(1) p(1)] and c2 = cell_ok [OF ok(2) p(2)]
    consider (eq) "?s1 = ?s2" | (lt) "?s1 < ?s2" | (gt) "?s2 < ?s1" by (rule linorder_cases)
    then show ?thesis
    proof cases
      case eq
      let ?c = "container_andnot ?c1 ?c2"
      have z: "container_nonzero_cardinality ?c \<longleftrightarrow> container_abs ?c \<noteq> {}"
        using container_andnot_correct c1 c2 by (intro nonzero_inv) blast
      have step: "andnot_loop x1 x2 pos1 pos2 answer =
          andnot_loop x1 x2 (pos1 + 1) (pos2 + 1) (if container_nonzero_cardinality ?c then ra_append answer ?s1 ?c else answer)"
        using True eq by (subst andnot_loop.simps) (simp add: Let_def)
      have m: "andnot_ahead x1 x2 pos1 pos2 =
          (if container_nonzero_cardinality ?c then [(?s1, ?c)] else []) @ andnot_ahead x1 x2 (pos1 + 1) (pos2 + 1)"
        unfolding cells using eq z by simp
      have next_ok: "pos1 + 1 \<le> ra_size x1" "pos2 + 1 \<le> ra_size x2" using p by simp_all
      show ?thesis unfolding step m using "1.IH"(1) [OF True refl refl eq refl refl ok(1,2) next_ok]
        by (cases "container_nonzero_cardinality ?c") (simp_all add: walked_append)
    next
      case lt
      let ?q = "ra_advance_until x1 ?s2 (int pos1)"
      have "ra_keys x1 ! pos1 < ?s2" using lt p(1) by (simp add: ra_get_key_at_index_def)
      note q = advance_skips [OF ra_ok_sorted [OF ok(1)] p(1) this]
      have step: "andnot_loop x1 x2 pos1 pos2 answer =
          andnot_loop x1 x2 ?q pos2 (ra_append_copy_range answer x1 pos1 ?q (is_cow x1))"
        using True lt less_imp_neq [OF lt] by (subst andnot_loop.simps) (simp add: Let_def)
      have m: "andnot_ahead x1 x2 pos1 pos2 =
          copy_entries (is_cow x1) (take (?q - pos1) (drop pos1 (ra_entries x1))) @ andnot_ahead x1 x2 ?q pos2"
        unfolding q(3,4) cells(2) copy_entries_map by (subst merge_copy_left) simp
      have g: "grows answer (copy_entries (is_cow x1) (take (?q - pos1) (drop pos1 (ra_entries x1))))
          (ra_append_copy_range answer x1 pos1 ?q (is_cow x1))"
        using append_copy_range_simps [OF q(2)] q(1) by (simp add: grows_def)
      show ?thesis unfolding step m
        by (rule walked_grows [OF g "1.IH"(2) [OF True refl refl less_imp_neq [OF lt] lt refl ok(1,2) q(2) ok(4)]])
    next
      case gt
      let ?q = "ra_advance_until x2 ?s1 (int pos2)"
      have step: "andnot_loop x1 x2 pos1 pos2 answer = andnot_loop x1 x2 pos1 ?q answer"
        using True less_not_sym [OF gt] less_imp_neq [OF gt] by (subst andnot_loop.simps) (auto simp: Let_def)
      have "ra_keys x2 ! pos2 < ?s1" using gt p(2) by (simp add: ra_get_key_at_index_def)
      note q = advance_skips [OF ra_ok_sorted [OF ok(2)] p(2) this]
      have m: "andnot_ahead x1 x2 pos1 pos2 = andnot_ahead x1 x2 pos1 ?q"
        unfolding cells(1) q(3) by (subst merge_skip_right) simp
      show ?thesis unfolding step m
        by (rule "1.IH"(3) [OF True refl refl less_imp_neq [OF gt, symmetric] less_not_sym [OF gt] ok(1-3) q(2)])
    qed
  next
    case False
    have step: "andnot_loop x1 x2 pos1 pos2 answer = (answer, pos1, pos2)" using False by (subst andnot_loop.simps) auto
    show ?thesis unfolding step by (rule walked_end) (use False ok(3,4) in auto)
  qed
qed

lemma roaring_bitmap_andnot_correct:
  assumes "ra_inv x1" and "ra_inv x2"
  shows "ra_inv (roaring_bitmap_andnot x1 x2) \<and> ra_abs (roaring_bitmap_andnot x1 x2) = ra_abs x1 - ra_abs x2"
proof (cases "ra_entries x1 = [] \<or> ra_entries x2 = []")
  case True
  have "ra_inv (roaring_bitmap_set_copy_on_write roaring_bitmap_create cow)" for cow
    by (simp add: ra_ok_def ra_get_size_def roaring_bitmap_create_def roaring_bitmap_create_with_capacity_def init_alloc)
  then show ?thesis
    using True roaring_bitmap_copy_ok [OF copyable(1) assms(1)] ra_abs_eqI [of "roaring_bitmap_copy x1" x1]
      ra_abs_Nil [of x1] ra_abs_Nil [of x2] ra_abs_Nil [of "roaring_bitmap_set_copy_on_write roaring_bitmap_create _"]
    by (auto simp: roaring_bitmap_andnot_def Let_def)
next
  case False
  let ?a = "roaring_bitmap_set_copy_on_write (roaring_bitmap_create_with_capacity (word_of_nat (ra_size x1))) (is_cow x1 \<or> is_cow x2)"
  let ?m = "andnot_ahead x1 x2"
  have "walked ?a (?m 0 0) ?m (ra_size x1) (ra_size x2) (andnot_loop x1 x2 0 0 ?a)" by (rule andnot_loop_correct [OF assms]) simp_all
  then obtain r p q xs where loop: "andnot_loop x1 x2 0 0 ?a = (r, p, q)" and pq: "p \<le> ra_size x1" "p = ra_size x1 \<or> q = ra_size x2"
    and xs: "grows ?a xs r" "?m 0 0 = xs @ ?m p q" by (rule walkedE)
  have res: "roaring_bitmap_andnot x1 x2 = (if q = ra_size x2 then ra_append_copy_range r x1 p (ra_size x1) (is_cow x1) else r)"
    using False by (simp add: roaring_bitmap_andnot_def Let_def loop)
  have g: "grows ?a (?m 0 0) (roaring_bitmap_andnot x1 x2)"
  proof (cases "q = ra_size x2")
    case True
    then show ?thesis using grows_trans [OF xs(1) grows_copy_range [OF pq(1)]] unfolding xs(2) res
      by (simp add: merge_entries_right copy_entries_map)
  next
    case False
    then show ?thesis using xs(1) pq(2) unfolding xs(2) res by simp
  qed
  have m: "entries_inv (?m 0 0)" "\<And>k. at (?m 0 0) k = {x. x \<in> at (ra_entries x1) k \<and> x \<notin> at (ra_entries x2) k}"
    using andnot_merge.merge_correct [OF ra_ok_entries [OF assms(1)] ra_ok_entries [OF assms(2)]] by simp_all
  show ?thesis
    using grows_fresh [OF g m(1)] ra_abs_combined [of "roaring_bitmap_andnot x1 x2" "\<lambda>x y. x \<and> \<not> y" x1 x2] m(2)
    by (simp add: set_forms(4))
qed

section \<open>Difference in place\<close>

definition andnot_cells :: "(u16 \<Rightarrow> bool) \<Rightarrow> u16 \<Rightarrow> container_t \<Rightarrow> container_t \<Rightarrow> container_t" where
  "andnot_cells shared k c1 c2 = (if shared k then container_andnot c1 c2 else container_iandnot c1 c2)"

lemma andnot_cells_correct:
  assumes "container_inv a" "container_inv b"
  shows "container_inv (andnot_cells shared k a b) \<and> container_abs (andnot_cells shared k a b) = container_abs a - container_abs b"
  using container_andnot_correct [OF assms] container_iandnot_correct [OF assms] by (simp add: andnot_cells_def)

interpretation andnot_inplace_merge: entries_merge container_inv container_inv container_inv "Some (\<lambda>c. c)" None
  "andnot_cells shared" "\<lambda>x y. x \<and> \<not> y" for shared
  by unfold_locales (auto simp only: andnot_cells_correct set_forms(4) option.inject option.distinct simp_thms)

lemma move_cell:
  assumes "k \<le> p" and "p < ra_size ra"
  defines "r \<equiv> if p \<noteq> k then ra_replace_key_and_container_at_index ra k (ra_get_key_at_index ra p) (ra_get_container_at_index ra p) else ra"
  shows "take (k + 1) (ra_entries r) = take k (ra_entries ra) @ [(ra_get_key_at_index ra p, ra_get_container_at_index ra p)]"
    and "drop (p + 1) (ra_entries r) = drop (p + 1) (ra_entries ra)" and "ra_flags r = ra_flags ra"
    and "ra_allocation_size r = ra_allocation_size ra" and "ra_size r = ra_size ra"
  using replace_cell [OF assms(1,2)] keep_cell [OF assms(2)] unfolding r_def by auto

text \<open>The loop stops with the rest of \<open>x1\<close> from \<open>p\<close> on still to be moved down.\<close>

definition slid :: "roaring_array \<Rightarrow> (u16 \<times> container_t) list \<Rightarrow> roaring_array \<times> nat \<times> nat \<Rightarrow> bool" where
  "slid x m result \<longleftrightarrow> (case result of (r, p, n) \<Rightarrow> n \<le> p \<and> p \<le> ra_size r \<and> ra_size r = ra_size x
     \<and> take n (ra_entries r) @ drop p (ra_entries r) = m \<and> ra_flags r = ra_flags x \<and> ra_allocation_size r = ra_allocation_size x)"

lemma slid_cong:
  "ra_flags x = ra_flags y \<Longrightarrow> ra_allocation_size x = ra_allocation_size y \<Longrightarrow> ra_size x = ra_size y \<Longrightarrow> slid x m r \<longleftrightarrow> slid y m r"
  by (simp add: slid_def)

lemma andnot_inplace_loop_correct:
  assumes "cells_ok container_inv (drop pos1 (ra_entries x1))" and "ra_inv x2" and "k \<le> pos1" and "pos1 \<le> ra_size x1"
  shows "slid x1 (take k (ra_entries x1) @ ahead_merge (Some (\<lambda>c. c)) (andnot_cells shared) x1 x2 pos1 pos2)
    (andnot_inplace_loop shared x1 x2 pos1 pos2 k)"
  using assms
proof (induction shared x1 x2 pos1 pos2 k rule: andnot_inplace_loop.induct)
  case (1 shared x1 x2 pos1 pos2 k)
  note ok = "1.prems"
  let ?m = "ahead_merge (Some (\<lambda>c. c)) (andnot_cells shared)"
  show ?case
  proof (cases "pos1 < ra_size x1 \<and> pos2 < ra_size x2")
    case True
    let ?s1 = "ra_get_key_at_index x1 pos1" and ?s2 = "ra_get_key_at_index x2 pos2"
    let ?c1 = "ra_get_container_at_index x1 pos1" and ?c2 = "ra_get_container_at_index x2 pos2"
    have p: "pos1 < ra_size x1" "pos2 < ra_size x2" using True by simp_all
    note cells = drop_cell [OF p(1)] drop_cell [OF p(2)]
    note c1 = cell_ahead [OF ok(1) p(1)] and c2 = cell_ok [OF ok(2) p(2)]
    consider (eq) "?s1 = ?s2" | (lt) "?s1 < ?s2" | (gt) "?s2 < ?s1" by (rule linorder_cases)
    then show ?thesis
    proof cases
      case eq
      let ?c = "andnot_cells shared ?s1 ?c1 ?c2"
      have c: "?c = (if shared ?s1 then container_andnot ?c1 ?c2 else container_iandnot ?c1 ?c2)" by (simp add: andnot_cells_def)
      have inv: "container_inv ?c" using andnot_cells_correct c1 c2 by blast
      show ?thesis
      proof (cases "container_nonzero_cardinality ?c")
        case nz: True
        let ?x = "ra_replace_key_and_container_at_index x1 k ?s1 ?c"
        note x = replace_cell [OF ok(3) p(1), of ?s1 ?c]
        have step: "andnot_inplace_loop shared x1 x2 pos1 pos2 k = andnot_inplace_loop shared ?x x2 (pos1 + 1) (pos2 + 1) (k + 1)"
          using True eq nz unfolding andnot_cells_def by (subst andnot_inplace_loop.simps) (cases "shared ?s1"; simp add: Let_def)
        have m: "?m x1 x2 pos1 pos2 = (?s1, ?c) # ?m x1 x2 (pos1 + 1) (pos2 + 1)"
          unfolding cells using eq nz nonzero_inv [OF inv] by simp
        have "slid ?x (take (k + 1) (ra_entries ?x) @ ?m ?x x2 (pos1 + 1) (pos2 + 1))
            (andnot_inplace_loop shared ?x x2 (pos1 + 1) (pos2 + 1) (k + 1))"
          by (rule "1.IH"(1) [OF True refl refl refl eq refl c nz]) (use x c1(3) ok p in simp_all)
        then show ?thesis unfolding step m x(1) x(2) using slid_cong [OF x(3) x(4)] by simp
      next
        case z: False
        have step: "andnot_inplace_loop shared x1 x2 pos1 pos2 k = andnot_inplace_loop shared x1 x2 (pos1 + 1) (pos2 + 1) k"
          using True eq z unfolding andnot_cells_def by (subst andnot_inplace_loop.simps) (cases "shared ?s1"; simp add: Let_def)
        have m: "?m x1 x2 pos1 pos2 = ?m x1 x2 (pos1 + 1) (pos2 + 1)"
          unfolding cells using eq z nonzero_inv [OF inv] by simp
        show ?thesis unfolding step m by (rule "1.IH"(2) [OF True refl refl refl eq refl c z]) (use c1(3) ok p in simp_all)
      qed
    next
      case lt
      let ?x = "if pos1 \<noteq> k then ra_replace_key_and_container_at_index x1 k ?s1 ?c1 else x1"
      note x = move_cell [OF ok(3) p(1)]
      have step: "andnot_inplace_loop shared x1 x2 pos1 pos2 k = andnot_inplace_loop shared ?x x2 (pos1 + 1) pos2 (k + 1)"
        using True lt less_imp_neq [OF lt] by (subst andnot_inplace_loop.simps) (simp add: Let_def)
      have m: "?m x1 x2 pos1 pos2 = (?s1, ?c1) # ?m x1 x2 (pos1 + 1) pos2"
        unfolding cells merge_step(1) [OF lt] by simp
      have ahead: "cells_ok container_inv (drop (pos1 + 1) (ra_entries ?x))" "pos1 + 1 \<le> ra_size ?x"
        unfolding x(2) x(5) using c1(3) p(1) by simp_all
      have "slid ?x (take (k + 1) (ra_entries ?x) @ ?m ?x x2 (pos1 + 1) pos2) (andnot_inplace_loop shared ?x x2 (pos1 + 1) pos2 (k + 1))"
        by (rule "1.IH"(3) [OF True refl refl refl less_imp_neq [OF lt] lt ahead(1) ok(2) _ ahead(2)]) (use ok(3) in simp)
      then show ?thesis unfolding step m x(1) x(2) using slid_cong [OF x(3) x(4) x(5)] by simp
    next
      case gt
      let ?q = "ra_advance_until x2 ?s1 (int pos2)"
      have step: "andnot_inplace_loop shared x1 x2 pos1 pos2 k = andnot_inplace_loop shared x1 x2 pos1 ?q k"
        using True less_not_sym [OF gt] less_imp_neq [OF gt] by (subst andnot_inplace_loop.simps) (auto simp: Let_def)
      have m: "?m x1 x2 pos1 pos2 = ?m x1 x2 pos1 ?q"
        unfolding cells(1) advance_entries [OF ok(2) p(2) gt] by (subst merge_skip_right) simp
      show ?thesis unfolding step m
        by (rule "1.IH"(4) [OF True refl refl refl less_imp_neq [OF gt, symmetric] less_not_sym [OF gt] ok])
    qed
  next
    case False
    have step: "andnot_inplace_loop shared x1 x2 pos1 pos2 k = (x1, pos1, k)" using False by (subst andnot_inplace_loop.simps) auto
    have "?m x1 x2 pos1 pos2 = drop pos1 (ra_entries x1)" using False by (auto simp: merge_entries_right)
    then show ?thesis unfolding step using ok(3,4) by (simp add: slid_def)
  qed
qed

lemma roaring_bitmap_andnot_inplace_correct:
  assumes "ra_inv x1" and "ra_inv x2"
  shows "ra_inv (roaring_bitmap_andnot_inplace shared x1 x2) \<and> ra_abs (roaring_bitmap_andnot_inplace shared x1 x2) = ra_abs x1 - ra_abs x2"
proof (cases "ra_entries x1 = [] \<or> ra_entries x2 = []")
  case True
  have "ra_inv (roaring_bitmap_clear x1)" "ra_entries (roaring_bitmap_clear x1) = []"
    using assms(1) by (simp_all add: roaring_bitmap_clear_def ra_reset_def ra_shrink_to_fit_def realloc_array_def Let_def ra_ok_def
        ra_get_size_def)
  then show ?thesis
    using True assms(1) ra_abs_Nil [of x1] ra_abs_Nil [of x2] ra_abs_Nil [of "roaring_bitmap_clear x1"]
    by (auto simp: roaring_bitmap_andnot_inplace_def)
next
  case False
  let ?m = "ahead_merge (Some (\<lambda>c. c)) (andnot_cells shared) x1 x2 0 0"
  obtain r p n where rpn: "andnot_inplace_loop shared x1 x2 0 0 0 = (r, p, n)" by (metis prod.exhaust)
  have s: "slid x1 ?m (r, p, n)"
    using andnot_inplace_loop_correct [OF cells_ok_entries [OF assms(1)] assms(2), of 0 0 shared 0] by (simp add: rpn)
  let ?r = "if p > n then ra_copy_range r p (ra_size r) n else r" and ?n = "n + (ra_size r - p)"
  have res: "roaring_bitmap_andnot_inplace shared x1 x2 = ra_downsize ?r ?n"
    using False s by (auto simp: roaring_bitmap_andnot_inplace_def rpn Let_def slid_def ra_downsize_def ra_copy_range_def)
  have "take n (ra_entries r) @ drop p (ra_entries r) = ?m" "n \<le> p" "p \<le> ra_size r" using s by (simp_all add: slid_def)
  then have "take ?n (ra_entries ?r) = ?m" "ra_size ?r = ra_size r" by (cases "p > n"; simp add: ra_copy_range_def)+
  then have "shrunk x1 ?m ?r ?n" using s by (simp add: shrunk_def slid_def ra_copy_range_def)
  then have "ra_inv (ra_downsize ?r ?n) \<and> ra_abs (ra_downsize ?r ?n) = {x. x \<in> ra_abs x1 \<and> \<not> x \<in> ra_abs x2}"
    by (rule shrunk_spec [OF _ assms(1)])
      (use andnot_inplace_merge.merge_correct [OF ra_ok_entries [OF assms(1)] ra_ok_entries [OF assms(2)]] in simp_all)
  then show ?thesis unfolding res by (simp add: set_forms(4))
qed

end
