(* ===== verification/Roaring_Lazy.thy ===== *)
theory Roaring_Lazy
  imports Roaring_Difference
begin

text \<open>
  The lazy operations in place, their repair, and the union and symmetric difference of many bitmaps.
  A lazy bitmap may hold bitsets of unknown cardinality and bitsets with few values.
\<close>

section \<open>Lazy union in place\<close>

definition lazy_or_cells :: "(u16 \<Rightarrow> bool) \<Rightarrow> bool \<Rightarrow> u16 \<Rightarrow> container_t \<Rightarrow> container_t \<Rightarrow> container_t" where
  "lazy_or_cells shared conv k c1 c2 =
     (if container_is_full c1 then c1
      else container_lazy_ior (if \<not> conv \<or> is_bitset_container c1 then get_writable_copy_if_shared (shared k) c1
                               else Bitset_c (container_to_bitset c1)) c2)"

lemma lazy_full: "container_lazy_ok c \<Longrightarrow> container_is_full c \<Longrightarrow> container_abs c = UNIV"
proof (cases c)
  case (Bitset_c b)
  assume "container_lazy_ok c" "container_is_full c"
  then have "bitset_inv b" "bc_cardinality b = 65536" using Bitset_c by (auto simp: bitset_lazy_inv_def bitset_inv_def)
  then show ?thesis using full_bitset_abs Bitset_c by simp
next
  case (Array_c a)
  assume "container_lazy_ok c" "container_is_full c"
  then show ?thesis using Array_c by simp
next
  case (Run_c r)
  assume "container_lazy_ok c" "container_is_full c"
  then show ?thesis using Run_c run_full_abs by simp
qed

lemma lazy_or_cells_correct:
  assumes "container_lazy_ok a" "container_inv b" "container_abs a \<noteq> {}" "container_abs b \<noteq> {}"
  shows "container_lazy_ok (lazy_or_cells shared conv k a b) \<and>
    container_abs (lazy_or_cells shared conv k a b) = container_abs a \<union> container_abs b"
proof (cases "container_is_full a")
  case True
  then show ?thesis using assms(1) lazy_full by (simp add: lazy_or_cells_def)
next
  case False
  let ?c = "if \<not> conv \<or> is_bitset_container a then get_writable_copy_if_shared (shared k) a else Bitset_c (container_to_bitset a)"
  have "\<not> is_bitset_container a \<Longrightarrow> container_inv a" using assms(1) by (cases a) simp_all
  then have c: "container_lazy_ok ?c \<and> container_abs ?c = container_abs a"
    using clone_lazy [OF assms(1), of False] container_to_bitset_correct [of a] assms(1)
    by (auto simp: get_writable_copy_if_shared_def get_copy_of_container_def bitset_lazy_wf)
  then show ?thesis using container_lazy_ior_correct [of ?c b] assms container_inv_lazy False by (simp add: lazy_or_cells_def)
qed

interpretation lazy_or_inplace_merge: entries_merge container_lazy_ok container_inv container_lazy_ok "Some (\<lambda>c. c)" "copier cow2"
  "lazy_or_cells shared conv" "(\<or>)" for cow2 shared conv
  by unfold_locales (auto simp only: lazy_or_cells_correct set_forms(1) copy_correct container_inv_lazy option.inject option.distinct simp_thms)

lemma remove_room: "p < ra_size ra \<Longrightarrow> room ra \<Longrightarrow> room (ra_remove_at_index ra p)"
  by (simp add: room_def ra_remove_at_index_def ra_get_size_def)

lemma lazy_or_inplace_loop_correct:
  assumes "cells_ok container_lazy_ok (drop pos1 (ra_entries x1))" and "ra_inv x2" and "room x1"
    and "pos1 \<le> ra_size x1" and "pos2 \<le> ra_size x2"
  shows "became x1 (take pos1 (ra_entries x1) @ bulk_merge (lazy_or_cells shared conv) x1 x2 pos1 pos2)
    (lazy_or_inplace_loop shared conv x1 x2 pos1 pos2)"
  using assms
proof (induction shared conv x1 x2 pos1 pos2 rule: lazy_or_inplace_loop.induct)
  case (1 shared conv x1 x2 pos1 pos2)
  note ok = "1.prems"
  let ?m = "bulk_merge (lazy_or_cells shared conv)"
  show ?case
  proof (cases "pos1 < ra_size x1 \<and> pos2 < ra_size x2")
    case True
    let ?s1 = "ra_get_key_at_index x1 pos1" and ?s2 = "ra_get_key_at_index x2 pos2"
    let ?c1 = "ra_get_container_at_index x1 pos1" and ?c2 = "ra_get_container_at_index x2 pos2"
    have p: "pos1 < ra_size x1" "pos2 < ra_size x2" using True by simp_all
    note cells = drop_cell [OF p(1)] drop_cell [OF p(2)]
    note c1 = cell_ahead [OF ok(1) p(1)] and c2 = cell_ok [OF ok(2) p(2)]
    have next_ok: "pos1 + 1 \<le> ra_size x1" "pos2 + 1 \<le> ra_size x2" using p by simp_all
    consider (eq) "?s1 = ?s2" | (lt) "?s1 < ?s2" | (gt) "?s2 < ?s1" by (rule linorder_cases)
    then show ?thesis
    proof cases
      case eq
      let ?c = "lazy_or_cells shared conv ?s1 ?c1 ?c2"
      let ?x = "if container_is_full ?c1 then x1
                else ra_set_container_at_index x1 pos1
                       (container_lazy_ior (if \<not> conv \<or> is_bitset_container ?c1 then get_writable_copy_if_shared (shared ?s1) ?c1
                                            else Bitset_c (container_to_bitset ?c1)) ?c2)"
      have x: "take (pos1 + 1) (ra_entries ?x) = take pos1 (ra_entries x1) @ [(?s1, ?c)]"
        "drop (pos1 + 1) (ra_entries ?x) = drop (pos1 + 1) (ra_entries x1)" "ra_flags ?x = ra_flags x1" "room ?x" "ra_size ?x = ra_size x1"
        using keep_cell [OF p(1)] set_cell [OF p(1)] ok(3) by (simp_all add: lazy_or_cells_def)
      have ne: "container_abs ?c \<noteq> {}" using lazy_or_cells_correct [of ?c1 ?c2 shared conv ?s1] c1 c2 by auto
      have step: "lazy_or_inplace_loop shared conv x1 x2 pos1 pos2 = lazy_or_inplace_loop shared conv ?x x2 (pos1 + 1) (pos2 + 1)"
        using True eq by (subst lazy_or_inplace_loop.simps) (simp add: Let_def)
      have m: "?m x1 x2 pos1 pos2 = (?s1, ?c) # ?m x1 x2 (pos1 + 1) (pos2 + 1)"
        unfolding cells using eq ne by simp
      have "became ?x (take (pos1 + 1) (ra_entries ?x) @ ?m ?x x2 (pos1 + 1) (pos2 + 1))
          (lazy_or_inplace_loop shared conv ?x x2 (pos1 + 1) (pos2 + 1))"
        by (rule "1.IH"(1) [OF True refl refl refl eq refl]) (use x c1(3) ok next_ok in \<open>simp_all add: Let_def\<close>)
      then show ?thesis unfolding step m x(1) x(2) became_cong [OF x(3)] by simp
    next
      case lt
      have step: "lazy_or_inplace_loop shared conv x1 x2 pos1 pos2 = lazy_or_inplace_loop shared conv x1 x2 (pos1 + 1) pos2"
        using True lt less_imp_neq [OF lt] by (subst lazy_or_inplace_loop.simps) (simp add: Let_def)
      have m: "?m x1 x2 pos1 pos2 = (?s1, ?c1) # ?m x1 x2 (pos1 + 1) pos2"
        unfolding cells merge_step(1) [OF lt] by simp
      show ?thesis unfolding step m
        using "1.IH"(2) [OF True refl refl refl less_imp_neq [OF lt] lt c1(3) ok(2,3) next_ok(1) ok(5)] keep_cell [OF p(1)] by simp
    next
      case gt
      let ?c = "get_copy_of_container ?c2 (is_cow x2)"
      let ?x = "ra_insert_new_key_value_at x1 pos1 ?s2 ?c"
      note x = insert_cell [OF ok(4), of ?s2 ?c]
      have step: "lazy_or_inplace_loop shared conv x1 x2 pos1 pos2 = lazy_or_inplace_loop shared conv ?x x2 (pos1 + 1) (pos2 + 1)"
        using True less_not_sym [OF gt] less_imp_neq [OF gt] by (subst lazy_or_inplace_loop.simps) (auto simp: Let_def)
      have m: "?m x1 x2 pos1 pos2 = (?s2, ?c) # ?m x1 x2 pos1 (pos2 + 1)"
        unfolding cells merge_step(2) [OF gt] by simp
      have "became ?x (take (pos1 + 1) (ra_entries ?x) @ ?m ?x x2 (pos1 + 1) (pos2 + 1))
          (lazy_or_inplace_loop shared conv ?x x2 (pos1 + 1) (pos2 + 1))"
        by (rule "1.IH"(3) [OF True refl refl refl less_imp_neq [OF gt, symmetric] less_not_sym [OF gt] _ ok(2)])
          (use x(2) ok(1,4) next_ok in simp_all)
      then show ?thesis unfolding step m x using became_cong [of ?x x1] by simp
    qed
  next
    case False
    then have "lazy_or_inplace_loop shared conv x1 x2 pos1 pos2
        = (if pos1 = ra_size x1 then ra_append_copy_range x1 x2 pos2 (ra_size x2) (is_cow x2) else x1)"
      by (subst lazy_or_inplace_loop.simps) auto
    then show ?thesis using inplace_end [OF False ok(4,5,3)] by simp
  qed
qed

lemma overwrite_lazy:
  assumes "ra_inv src" and "ra_ok Q dest"
  shows "ra_lazy_ok (roaring_bitmap_overwrite dest src) \<and> ra_abs (roaring_bitmap_overwrite dest src) = ra_abs src"
  using overwrite_inv [OF assms] ra_inv_lazy by blast

lemma roaring_bitmap_lazy_or_inplace_correct:
  assumes "ra_lazy_ok x1" and "ra_inv x2"
  shows "ra_lazy_ok (roaring_bitmap_lazy_or_inplace shared x1 x2 conv) \<and>
    ra_abs (roaring_bitmap_lazy_or_inplace shared x1 x2 conv) = ra_abs x1 \<union> ra_abs x2"
proof -
  let ?r = "lazy_or_inplace_loop shared conv x1 x2 0 0"
  have "became x1 (bulk_merge (lazy_or_cells shared conv) x1 x2 0 0) ?r"
    using lazy_or_inplace_loop_correct [OF cells_ok_entries [OF assms(1)] assms(2) ra_ok_room [OF assms(1)], of 0 0] by simp
  then have "ra_lazy_ok ?r \<and> ra_abs ?r = {x. x \<in> ra_abs x1 \<or> x \<in> ra_abs x2}"
    by (rule became_spec [OF _ assms(1)])
      (use lazy_or_inplace_merge.merge_correct [OF ra_ok_entries [OF assms(1)] ra_ok_entries [OF assms(2)]] in simp_all)
  then show ?thesis
    using overwrite_lazy [OF assms(2,1)] assms ra_abs_Nil [of x1] ra_abs_Nil [of x2]
    by (simp add: roaring_bitmap_lazy_or_inplace_def set_forms(1))
qed

section \<open>Lazy symmetric difference in place\<close>

definition lazy_xor_cells :: "(u16 \<Rightarrow> bool) \<Rightarrow> u16 \<Rightarrow> container_t \<Rightarrow> container_t \<Rightarrow> container_t" where
  "lazy_xor_cells shared k c1 c2 = (if shared k then container_lazy_xor c1 c2 else container_lazy_ixor c1 c2)"

lemma lazy_xor_cells_correct:
  assumes "container_lazy_ok a" "container_inv b"
  shows "container_lazy_ok (lazy_xor_cells shared k a b) \<and>
    container_abs (lazy_xor_cells shared k a b) = sym_diff (container_abs a) (container_abs b)"
  using container_lazy_xor_correct [OF assms(1) container_inv_lazy [OF assms(2)]] container_lazy_ixor_correct [OF assms]
  by (simp add: lazy_xor_cells_def)

interpretation lazy_xor_inplace_merge: entries_merge container_lazy_ok container_inv container_lazy_ok "Some (\<lambda>c. c)" "copier cow2"
  "lazy_xor_cells shared" "(\<noteq>)" for cow2 shared
  by unfold_locales (auto simp only: lazy_xor_cells_correct set_forms(2) copy_correct container_inv_lazy option.inject option.distinct simp_thms)

lemma lazy_xor_inplace_loop_correct:
  assumes "cells_ok container_lazy_ok (drop pos1 (ra_entries x1))" and "ra_inv x2" and "room x1"
    and "pos1 \<le> ra_size x1" and "pos2 \<le> ra_size x2"
  shows "became x1 (take pos1 (ra_entries x1) @ bulk_merge (lazy_xor_cells shared) x1 x2 pos1 pos2)
    (lazy_xor_inplace_loop shared x1 x2 pos1 pos2)"
  using assms
proof (induction shared x1 x2 pos1 pos2 rule: lazy_xor_inplace_loop.induct)
  case (1 shared x1 x2 pos1 pos2)
  note ok = "1.prems"
  let ?m = "bulk_merge (lazy_xor_cells shared)"
  show ?case
  proof (cases "pos1 < ra_size x1 \<and> pos2 < ra_size x2")
    case True
    let ?s1 = "ra_get_key_at_index x1 pos1" and ?s2 = "ra_get_key_at_index x2 pos2"
    let ?c1 = "ra_get_container_at_index x1 pos1" and ?c2 = "ra_get_container_at_index x2 pos2"
    have p: "pos1 < ra_size x1" "pos2 < ra_size x2" using True by simp_all
    note cells = drop_cell [OF p(1)] drop_cell [OF p(2)]
    note c1 = cell_ahead [OF ok(1) p(1)] and c2 = cell_ok [OF ok(2) p(2)]
    have next_ok: "pos1 + 1 \<le> ra_size x1" "pos2 + 1 \<le> ra_size x2" using p by simp_all
    consider (eq) "?s1 = ?s2" | (lt) "?s1 < ?s2" | (gt) "?s2 < ?s1" by (rule linorder_cases)
    then show ?thesis
    proof cases
      case eq
      let ?c = "lazy_xor_cells shared ?s1 ?c1 ?c2"
      have c: "?c = (if shared ?s1 then container_lazy_xor ?c1 ?c2 else container_lazy_ixor ?c1 ?c2)" by (simp add: lazy_xor_cells_def)
      have z: "container_nonzero_cardinality ?c \<longleftrightarrow> container_abs ?c \<noteq> {}"
        using lazy_xor_cells_correct c1 c2 by (intro container_nonzero_correct) blast
      show ?thesis
      proof (cases "container_nonzero_cardinality ?c")
        case nz: True
        let ?x = "ra_set_container_at_index x1 pos1 ?c"
        note x = set_cell [OF p(1), of ?c]
        have step: "lazy_xor_inplace_loop shared x1 x2 pos1 pos2 = lazy_xor_inplace_loop shared ?x x2 (pos1 + 1) (pos2 + 1)"
          using True eq nz unfolding lazy_xor_cells_def by (subst lazy_xor_inplace_loop.simps) (cases "shared ?s1"; simp add: Let_def)
        have m: "?m x1 x2 pos1 pos2 = (?s1, ?c) # ?m x1 x2 (pos1 + 1) (pos2 + 1)" unfolding cells using eq nz z by simp
        have "became ?x (take (pos1 + 1) (ra_entries ?x) @ ?m ?x x2 (pos1 + 1) (pos2 + 1))
            (lazy_xor_inplace_loop shared ?x x2 (pos1 + 1) (pos2 + 1))"
          by (rule "1.IH"(1) [OF True refl refl refl eq refl c nz]) (use x c1(3) ok next_ok in simp_all)
        then show ?thesis unfolding step m x(1) x(2) became_cong [OF x(3)] by simp
      next
        case empty: False
        let ?x = "ra_remove_at_index x1 pos1"
        note x = remove_cell [OF p(1)]
        have step: "lazy_xor_inplace_loop shared x1 x2 pos1 pos2 = lazy_xor_inplace_loop shared ?x x2 pos1 (pos2 + 1)"
          using True eq empty unfolding lazy_xor_cells_def by (subst lazy_xor_inplace_loop.simps) (cases "shared ?s1"; simp add: Let_def)
        have m: "?m x1 x2 pos1 pos2 = ?m x1 x2 (pos1 + 1) (pos2 + 1)" unfolding cells using eq empty z by simp
        have "became ?x (take pos1 (ra_entries ?x) @ ?m ?x x2 pos1 (pos2 + 1)) (lazy_xor_inplace_loop shared ?x x2 pos1 (pos2 + 1))"
          by (rule "1.IH"(2) [OF True refl refl refl eq refl c empty])
            (use x(2) c1(3) ok(2) remove_room [OF p(1) ok(3)] next_ok p in simp_all)
        then show ?thesis unfolding step m x(1) x(2) became_cong [OF x(3)] by simp
      qed
    next
      case lt
      have step: "lazy_xor_inplace_loop shared x1 x2 pos1 pos2 = lazy_xor_inplace_loop shared x1 x2 (pos1 + 1) pos2"
        using True lt less_imp_neq [OF lt] by (subst lazy_xor_inplace_loop.simps) (simp add: Let_def)
      have m: "?m x1 x2 pos1 pos2 = (?s1, ?c1) # ?m x1 x2 (pos1 + 1) pos2"
        unfolding cells merge_step(1) [OF lt] by simp
      show ?thesis unfolding step m
        using "1.IH"(3) [OF True refl refl refl less_imp_neq [OF lt] lt c1(3) ok(2,3) next_ok(1) ok(5)] keep_cell [OF p(1)] by simp
    next
      case gt
      let ?c = "get_copy_of_container ?c2 (is_cow x2)"
      let ?x = "ra_insert_new_key_value_at x1 pos1 ?s2 ?c"
      note x = insert_cell [OF ok(4), of ?s2 ?c]
      have step: "lazy_xor_inplace_loop shared x1 x2 pos1 pos2 = lazy_xor_inplace_loop shared ?x x2 (pos1 + 1) (pos2 + 1)"
        using True less_not_sym [OF gt] less_imp_neq [OF gt] by (subst lazy_xor_inplace_loop.simps) (auto simp: Let_def)
      have m: "?m x1 x2 pos1 pos2 = (?s2, ?c) # ?m x1 x2 pos1 (pos2 + 1)"
        unfolding cells merge_step(2) [OF gt] by simp
      have "became ?x (take (pos1 + 1) (ra_entries ?x) @ ?m ?x x2 (pos1 + 1) (pos2 + 1))
          (lazy_xor_inplace_loop shared ?x x2 (pos1 + 1) (pos2 + 1))"
        by (rule "1.IH"(4) [OF True refl refl refl less_imp_neq [OF gt, symmetric] less_not_sym [OF gt] _ ok(2)])
          (use x(2) ok(1,4) next_ok in simp_all)
      then show ?thesis unfolding step m x using became_cong [of ?x x1] by simp
    qed
  next
    case False
    then have "lazy_xor_inplace_loop shared x1 x2 pos1 pos2
        = (if pos1 = ra_size x1 then ra_append_copy_range x1 x2 pos2 (ra_size x2) (is_cow x2) else x1)"
      by (subst lazy_xor_inplace_loop.simps) auto
    then show ?thesis using inplace_end [OF False ok(4,5,3)] by simp
  qed
qed

lemma roaring_bitmap_lazy_xor_inplace_correct:
  assumes "ra_lazy_ok x1" and "ra_inv x2"
  shows "ra_lazy_ok (roaring_bitmap_lazy_xor_inplace shared x1 x2) \<and>
    ra_abs (roaring_bitmap_lazy_xor_inplace shared x1 x2) = sym_diff (ra_abs x1) (ra_abs x2)"
proof -
  let ?r = "lazy_xor_inplace_loop shared x1 x2 0 0"
  have "became x1 (bulk_merge (lazy_xor_cells shared) x1 x2 0 0) ?r"
    using lazy_xor_inplace_loop_correct [OF cells_ok_entries [OF assms(1)] assms(2) ra_ok_room [OF assms(1)], of 0 0] by simp
  then have "ra_lazy_ok ?r \<and> ra_abs ?r = {x. (x \<in> ra_abs x1) \<noteq> (x \<in> ra_abs x2)}"
    by (rule became_spec [OF _ assms(1)])
      (use lazy_xor_inplace_merge.merge_correct [OF ra_ok_entries [OF assms(1)] ra_ok_entries [OF assms(2)]] in simp_all)
  then show ?thesis
    using overwrite_lazy [OF assms(2,1)] assms ra_abs_Nil [of x1] ra_abs_Nil [of x2]
    by (simp add: roaring_bitmap_lazy_xor_inplace_def set_forms(2))
qed

section \<open>Repair, and many bitmaps\<close>

lemma roaring_bitmap_repair_correct:
  assumes "ra_lazy_ok r"
  shows "ra_inv (roaring_bitmap_repair_after_lazy r) \<and> ra_abs (roaring_bitmap_repair_after_lazy r) = ra_abs r"
proof -
  have "entries_inv (ra_entries (roaring_bitmap_repair_after_lazy r)) \<and>
      (\<forall>k. at (ra_entries (roaring_bitmap_repair_after_lazy r)) k = at (ra_entries r) k)"
    using map_entries [OF ra_ok_entries [OF assms], of container_inv container_repair_after_lazy] container_repair_correct
    by (simp add: roaring_bitmap_repair_after_lazy_def)
  then show ?thesis using assms ra_abs_eqI [of "roaring_bitmap_repair_after_lazy r" r]
    by (simp add: ra_ok_def ra_get_size_def) (simp add: roaring_bitmap_repair_after_lazy_def)
qed

lemma lazy_or_rest_correct:
  assumes "ra_lazy_ok answer" and "\<forall>x \<in> set xs. ra_inv x"
  shows "ra_lazy_ok (lazy_or_rest shared i xs answer) \<and> ra_abs (lazy_or_rest shared i xs answer) = ra_abs answer \<union> \<Union> (ra_abs ` set xs)"
  using assms
proof (induction xs arbitrary: i answer)
  case (Cons x xs)
  then show ?case using roaring_bitmap_lazy_or_inplace_correct [of answer x "shared i" True] by (simp add: Un_assoc)
qed simp

lemma lazy_xor_rest_correct:
  assumes "ra_lazy_ok answer" and "\<forall>x \<in> set xs. ra_inv x"
  shows "ra_lazy_ok (lazy_xor_rest shared i xs answer) \<and>
    ra_abs (lazy_xor_rest shared i xs answer) = foldl (\<lambda>S x. sym_diff S (ra_abs x)) (ra_abs answer) xs"
  using assms
proof (induction xs arbitrary: i answer)
  case (Cons x xs)
  then show ?case using roaring_bitmap_lazy_xor_inplace_correct [of answer x "shared i"] by simp
qed simp

lemma roaring_bitmap_copy_correct:
  assumes "ra_inv x"
  shows "ra_inv (roaring_bitmap_copy x) \<and> ra_abs (roaring_bitmap_copy x) = ra_abs x"
  using roaring_bitmap_copy_ok [OF copyable(1) assms] ra_abs_eqI [of "roaring_bitmap_copy x" x] by simp

lemma roaring_bitmap_or_many_correct:
  assumes "\<forall>x \<in> set xs. ra_inv x"
  shows "ra_inv (roaring_bitmap_or_many shared xs) \<and> ra_abs (roaring_bitmap_or_many shared xs) = \<Union> (ra_abs ` set xs)"
proof (cases "(shared, xs)" rule: roaring_bitmap_or_many.cases)
  case (1 sh)
  then show ?thesis by (simp add: ra_abs_Nil)
next
  case (2 sh x)
  then show ?thesis using roaring_bitmap_copy_correct assms by simp
next
  case (3 sh x y ys)
  then have inv: "ra_inv x" "ra_inv y" "\<forall>z \<in> set ys. ra_inv z" using assms by simp_all
  show ?thesis
    using roaring_bitmap_lazy_or_correct [OF inv(1,2), of True] lazy_or_rest_correct [of "roaring_bitmap_lazy_or x y True" ys shared 2]
      roaring_bitmap_repair_correct inv(3) 3 by (simp add: Un_assoc)
qed

lemma roaring_bitmap_xor_many_correct:
  assumes "\<forall>x \<in> set xs. ra_inv x"
  shows "ra_inv (roaring_bitmap_xor_many shared xs) \<and>
    ra_abs (roaring_bitmap_xor_many shared xs) = foldl (\<lambda>S x. sym_diff S (ra_abs x)) {} xs"
proof (cases "(shared, xs)" rule: roaring_bitmap_xor_many.cases)
  case (1 sh)
  then show ?thesis by (simp add: ra_abs_Nil)
next
  case (2 sh x)
  then show ?thesis using roaring_bitmap_copy_correct assms by simp
next
  case (3 sh x y ys)
  then have inv: "ra_inv x" "ra_inv y" "\<forall>z \<in> set ys. ra_inv z" using assms by simp_all
  show ?thesis
    using roaring_bitmap_lazy_xor_correct [OF inv(1,2)] lazy_xor_rest_correct [of "roaring_bitmap_lazy_xor x y" ys shared 2]
      roaring_bitmap_repair_correct inv(3) 3 by simp
qed

end
