(* ===== verification/Roaring_Bitmap.thy ===== *)
theory Roaring_Bitmap
  imports Roaring_Lazy
begin

text \<open>
  Single values, lists of values and the bulk context of \<open>src/roaring.c\<close>. A bulk context remembers the
  container that was used last: its index and its key, or nothing (the pointer is \<open>NULL\<close>). The
  container it points at is the one at that index. A container that is shared is replaced by a copy
  of itself before it is changed, which leaves its value.
\<close>

section \<open>Values\<close>

definition roaring_bitmap_contains :: "roaring_bitmap \<Rightarrow> u32 \<Rightarrow> bool" where
  "roaring_bitmap_contains r val =
     (let hb = high16 val; i = ra_get_index r hb
      in if i < 0 then False else container_contains (ra_get_container_at_index r (nat i)) (low16 val))"

definition roaring_bitmap_add :: "roaring_bitmap \<Rightarrow> u32 \<Rightarrow> roaring_bitmap" where
  "roaring_bitmap_add r val =
     (let hb = high16 val; i = ra_get_index r hb
      in if i \<ge> 0
         then ra_set_container_at_index r (nat i) (container_add (ra_get_container_at_index r (nat i)) (low16 val))
         else ra_insert_new_key_value_at r (nat (- i - 1)) hb (container_add (Array_c array_container_create) (low16 val)))"

fun typecode :: "container_t \<Rightarrow> u8" where
  "typecode (Bitset_c _) = 1"
| "typecode (Array_c _) = 2"
| "typecode (Run_c _) = 3"

text \<open>Adding to a container gives another object exactly when its type changes.\<close>

definition roaring_bitmap_add_checked :: "roaring_bitmap \<Rightarrow> u32 \<Rightarrow> roaring_bitmap \<times> bool" where
  "roaring_bitmap_add_checked r val =
     (let hb = high16 val; i = ra_get_index r hb
      in if i \<ge> 0
         then let c = ra_get_container_at_index r (nat i);
                  oldCardinality = container_get_cardinality c;
                  container2 = container_add c (low16 val)
              in (ra_set_container_at_index r (nat i) container2,
                  if typecode container2 \<noteq> typecode c then True
                  else oldCardinality \<noteq> container_get_cardinality container2)
         else (ra_insert_new_key_value_at r (nat (- i - 1)) hb (container_add (Array_c array_container_create) (low16 val)), True))"

definition roaring_bitmap_remove :: "roaring_bitmap \<Rightarrow> u32 \<Rightarrow> roaring_bitmap" where
  "roaring_bitmap_remove r val =
     (let hb = high16 val; i = ra_get_index r hb
      in if i \<ge> 0
         then let container2 = container_remove (ra_get_container_at_index r (nat i)) (low16 val);
                  r = ra_set_container_at_index r (nat i) container2
              in if container_nonzero_cardinality container2 then r else ra_remove_at_index_and_free r (nat i)
         else r)"

definition roaring_bitmap_remove_checked :: "roaring_bitmap \<Rightarrow> u32 \<Rightarrow> roaring_bitmap \<times> bool" where
  "roaring_bitmap_remove_checked r val =
     (let hb = high16 val; i = ra_get_index r hb
      in if i \<ge> 0
         then let c = ra_get_container_at_index r (nat i);
                  oldCardinality = container_get_cardinality c;
                  container2 = container_remove c (low16 val);
                  r = ra_set_container_at_index r (nat i) container2;
                  newCardinality = container_get_cardinality container2;
                  r = (if newCardinality \<noteq> 0 then r else ra_remove_at_index_and_free r (nat i))
              in (r, oldCardinality \<noteq> newCardinality)
         else (r, False))"

section \<open>Many values\<close>

text \<open>The index of the container that was touched is returned for the context.\<close>

definition containerptr_roaring_bitmap_add :: "roaring_bitmap \<Rightarrow> u32 \<Rightarrow> roaring_bitmap \<times> nat" where
  "containerptr_roaring_bitmap_add r val =
     (let hb = high16 val; i = ra_get_index r hb
      in if i \<ge> 0
         then (ra_set_container_at_index r (nat i) (container_add (ra_get_container_at_index r (nat i)) (low16 val)), nat i)
         else (ra_insert_new_key_value_at r (nat (- i - 1)) hb (container_add (Array_c array_container_create) (low16 val)),
               nat (- i - 1)))"

type_synonym roaring_bulk_context = "(nat \<times> u16) option"

definition add_bulk_impl :: "roaring_bitmap \<Rightarrow> roaring_bulk_context \<Rightarrow> u32 \<Rightarrow> roaring_bitmap \<times> roaring_bulk_context" where
  "add_bulk_impl r ctx val =
     (let key = high16 val
      in case ctx of
           Some (idx, key') \<Rightarrow>
             if key' = key
             then (ra_set_container_at_index r idx (container_add (ra_get_container_at_index r idx) (low16 val)), ctx)
             else (case containerptr_roaring_bitmap_add r val of (r, idx) \<Rightarrow> (r, Some (idx, key)))
         | None \<Rightarrow> (case containerptr_roaring_bitmap_add r val of (r, idx) \<Rightarrow> (r, Some (idx, key))))"

definition roaring_bitmap_add_bulk :: "roaring_bitmap \<Rightarrow> roaring_bulk_context \<Rightarrow> u32 \<Rightarrow> roaring_bitmap \<times> roaring_bulk_context" where
  "roaring_bitmap_add_bulk r ctx val = add_bulk_impl r ctx val"

fun add_bulk_all :: "roaring_bitmap \<Rightarrow> roaring_bulk_context \<Rightarrow> u32 list \<Rightarrow> roaring_bitmap" where
  "add_bulk_all r ctx [] = r"
| "add_bulk_all r ctx (val # vals) = (case add_bulk_impl r ctx val of (r, ctx) \<Rightarrow> add_bulk_all r ctx vals)"

text \<open>The first value is added twice: once to set the context up, once by the loop.\<close>

fun roaring_bitmap_add_many :: "roaring_bitmap \<Rightarrow> u32 list \<Rightarrow> roaring_bitmap" where
  "roaring_bitmap_add_many r [] = r"
| "roaring_bitmap_add_many r (val # vals) =
     (case containerptr_roaring_bitmap_add r val of (r, idx) \<Rightarrow> add_bulk_all r (Some (idx, high16 val)) (val # vals))"

definition roaring_bitmap_of_ptr :: "u32 list \<Rightarrow> roaring_bitmap" where
  "roaring_bitmap_of_ptr vals = roaring_bitmap_add_many roaring_bitmap_create vals"

definition roaring_bitmap_of :: "u32 list \<Rightarrow> roaring_bitmap" where
  "roaring_bitmap_of vals = add_bulk_all roaring_bitmap_create None vals"

definition roaring_bitmap_contains_bulk :: "roaring_bitmap \<Rightarrow> roaring_bulk_context \<Rightarrow> u32 \<Rightarrow> roaring_bulk_context \<times> bool" where
  "roaring_bitmap_contains_bulk r ctx val =
     (let key = high16 val;
          search = (let start_idx = (case ctx of Some (idx, key') \<Rightarrow> if key' < key then int idx else - 1 | None \<Rightarrow> - 1);
                        idx = ra_advance_until r key start_idx
                    in if idx = ra_size r then (ctx, False)
                       else let ctx = Some (idx, ra_get_key_at_index r idx)
                            in if ra_get_key_at_index r idx \<noteq> key then (ctx, False)
                               else (ctx, container_contains (ra_get_container_at_index r idx) (low16 val)))
      in case ctx of
           Some (idx, key') \<Rightarrow>
             if key' = key then (ctx, container_contains (ra_get_container_at_index r idx) (low16 val)) else search
         | None \<Rightarrow> search)"

text \<open>\<open>pos\<close> is the index of the container of the previous value, negative if there is none.\<close>

fun remove_many_loop :: "roaring_bitmap \<Rightarrow> int \<Rightarrow> u32 list \<Rightarrow> roaring_bitmap" where
  "remove_many_loop r pos [] = r"
| "remove_many_loop r pos (val # vals) =
     (let key = high16 val;
          pos = (if pos < 0 \<or> key \<noteq> ra_keys r ! nat pos then ra_get_index r key else pos)
      in if pos \<ge> 0
         then let new_container = container_remove (snd (ra_entries r ! nat pos)) (low16 val);
                  r = ra_replace_key_and_container_at_index r (nat pos) key new_container
              in if \<not> container_nonzero_cardinality new_container
                 then remove_many_loop (ra_remove_at_index r (nat pos)) (- 1) vals
                 else remove_many_loop r pos vals
         else remove_many_loop r pos vals)"

definition roaring_bitmap_remove_many :: "roaring_bitmap \<Rightarrow> u32 list \<Rightarrow> roaring_bitmap" where
  "roaring_bitmap_remove_many r vals = (if vals = [] \<or> ra_size r = 0 then r else remove_many_loop r (- 1) vals)"

section \<open>One key changes\<close>

text \<open>\<open>changed ra k S r\<close>: \<open>r\<close> is a well-formed table that differs from \<open>ra\<close> in the set under \<open>k\<close>, now \<open>S\<close>.\<close>

definition changed :: "roaring_array \<Rightarrow> u16 \<Rightarrow> u16 set \<Rightarrow> roaring_array \<Rightarrow> bool" where
  "changed ra k S r \<longleftrightarrow> ra_inv r \<and> (\<forall>k'. at (ra_entries r) k' = (if k' = k then S else at (ra_entries ra) k'))"

lemma changed_inv: "changed ra k S r \<Longrightarrow> ra_inv r"
  by (simp add: changed_def)

lemma same_halves: "x = v \<longleftrightarrow> high16 x = high16 v \<and> low16 x = low16 v"
proof
  assume halves: "high16 x = high16 v \<and> low16 x = low16 v"
  have "x = push_bit 16 (ucast (high16 x)) OR ucast (low16 x)" by (rule high_low)
  also have "\<dots> = push_bit 16 (ucast (high16 v)) OR ucast (low16 v)" by (simp only: halves)
  also have "\<dots> = v" by (rule high_low [symmetric])
  finally show "x = v" .
qed simp

lemma changed_abs:
  assumes "changed ra (high16 v) S r" and "\<And>y. y \<in> S \<longleftrightarrow> (if y = low16 v then p else y \<in> at (ra_entries ra) (high16 v))"
  shows "ra_abs r = (if p then insert v (ra_abs ra) else ra_abs ra - {v})"
proof -
  have cells: "at (ra_entries r) k' = (if k' = high16 v then S else at (ra_entries ra) k')" for k'
    using assms(1) by (simp only: changed_def)
  have "x \<in> ra_abs r \<longleftrightarrow> (if x = v then p else x \<in> ra_abs ra)" for x
    by (cases "high16 x = high16 v"; cases "low16 x = low16 v")
      (simp_all only: cells mem_ra_abs same_halves [of x v] assms(2) if_True if_False simp_thms)
  then show ?thesis by (intro set_eqI) (cases p, simp_all only: if_True if_False insert_iff Diff_iff singleton_iff, simp_all)
qed

lemma set_changed:
  assumes "ra_inv ra" and "i < ra_size ra" and "fst (ra_entries ra ! i) = k" and "container_inv c" and "container_abs c \<noteq> {}"
  shows "changed ra k (container_abs c) (ra_set_container_at_index ra i c)"
  using entries_ok_update [OF ra_ok_entries [OF assms(1)] assms(2,4,5)] at_update [OF ra_ok_sorted [OF assms(1)] assms(2), of c] assms(1,3)
  by (simp add: changed_def ra_ok_def ra_set_container_at_index_def ra_get_size_def)

lemma remove_changed:
  assumes "ra_inv ra" and "i < ra_size ra" and "fst (ra_entries ra ! i) = k"
  shows "changed ra k {} (ra_remove_at_index ra i)"
  using entries_remove [OF ra_ok_entries [OF assms(1)] assms(2)] assms
  by (simp add: changed_def ra_ok_def ra_remove_at_index_def ra_get_size_def)

lemma insert_changed:
  assumes "ra_inv ra" and "k \<notin> fst ` set (ra_entries ra)" and "container_inv c" and "container_abs c \<noteq> {}"
  shows "changed ra k (container_abs c) (ra_insert_new_key_value_at ra (lower_bound (ra_keys ra) k) k c)"
proof -
  have "ra_inv (ra_insert_new_key_value_at ra (lower_bound (ra_keys ra) k) k c)"
    using entries_insert(1) [OF ra_ok_entries [OF assms(1)] assms(2-4)] assms(1) by (intro ra_okI) (simp_all add: ra_ok_def)
  then show ?thesis using entries_insert(2) [OF ra_ok_entries [OF assms(1)] assms(2-4)] by (simp add: changed_def)
qed

lemma set_remove_cell:
  "i < ra_size ra \<Longrightarrow> ra_remove_at_index (ra_set_container_at_index ra i c) i = ra_remove_at_index ra i"
  "i < ra_size ra \<Longrightarrow> ra_remove_at_index (ra_replace_key_and_container_at_index ra i k c) i = ra_remove_at_index ra i"
  by (simp_all add: ra_remove_at_index_def ra_set_container_at_index_def ra_replace_key_and_container_at_index_def list_remove_at_def)

text \<open>A container that has become empty is removed with its key.\<close>

lemma set_or_remove_changed:
  assumes "ra_inv ra" and "i < ra_size ra" and "fst (ra_entries ra ! i) = k" and "container_inv c"
  shows "changed ra k (container_abs c)
    (if container_nonzero_cardinality c then ra_set_container_at_index ra i c else ra_remove_at_index ra i)"
  using set_changed [OF assms] remove_changed [OF assms(1-3)] nonzero_inv [OF assms(4)] by auto

section \<open>Single values\<close>

lemma roaring_bitmap_contains_correct: "ra_inv r \<Longrightarrow> roaring_bitmap_contains r v \<longleftrightarrow> v \<in> ra_abs r"
  by (erule ra_index_cases [where k = "high16 v"])
    (simp_all add: roaring_bitmap_contains_def mem_ra_abs Let_def ra_get_container_at_index_def container_contains_correct container_inv_lazy)

lemma first_value:
  "container_inv (container_add (Array_c array_container_create) y)" "container_abs (container_add (Array_c array_container_create) y) = {y}"
  using container_add_correct [of "Array_c array_container_create" y] array_create_empty by simp_all

text \<open>Adding a value and finding the container that holds it.\<close>

lemma containerptr_add_correct:
  assumes "ra_inv r" and "containerptr_roaring_bitmap_add r v = (r', i)"
  shows "ra_inv r'" and "ra_abs r' = insert v (ra_abs r)" and "i < ra_size r'" and "fst (ra_entries r' ! i) = high16 v"
    and "roaring_bitmap_add r v = r'"
proof -
  have "changed r (high16 v) (insert (low16 v) (at (ra_entries r) (high16 v))) r' \<and> i < ra_size r' \<and> fst (ra_entries r' ! i) = high16 v
      \<and> roaring_bitmap_add r v = r'"
    using assms(1)
  proof (cases rule: ra_index_cases [where k = "high16 v"])
    case (found j)
    let ?c = "container_add (snd (ra_entries r ! j)) (low16 v)"
    have c: "container_inv ?c" "container_abs ?c = insert (low16 v) (at (ra_entries r) (high16 v))"
      using container_add_correct [OF found(6)] found(5) by simp_all
    have r: "r' = ra_set_container_at_index r j ?c" "i = j" "roaring_bitmap_add r v = ra_set_container_at_index r j ?c"
      using assms(2) by (auto simp: found(1) containerptr_roaring_bitmap_add_def roaring_bitmap_add_def Let_def ra_get_container_at_index_def)
    show ?thesis using set_changed [OF assms(1) found(2,3) c(1)] c(2) found(2,3) by (simp add: r ra_set_container_at_index_def)
  next
    case absent
    let ?c = "container_add (Array_c array_container_create) (low16 v)" and ?p = "lower_bound (ra_keys r) (high16 v)"
    have r: "r' = ra_insert_new_key_value_at r ?p (high16 v) ?c" "i = ?p" "roaring_bitmap_add r v = ra_insert_new_key_value_at r ?p (high16 v) ?c"
      using assms(2) absent(1,2)
      by (auto simp: containerptr_roaring_bitmap_add_def roaring_bitmap_add_def Let_def simp del: container_add.simps)
    have "?p \<le> ra_size r" using lower_bound_le [of "ra_keys r"] by simp
    then show ?thesis using insert_changed [OF assms(1) absent(3), of ?c] absent(4) first_value
      by (simp add: r list_insert_at_def nth_append)
  qed
  then show "ra_inv r'" "ra_abs r' = insert v (ra_abs r)" "i < ra_size r'" "fst (ra_entries r' ! i) = high16 v"
    "roaring_bitmap_add r v = r'"
    using changed_inv changed_abs [of r v "insert (low16 v) (at (ra_entries r) (high16 v))" r' True] by auto
qed

lemma roaring_bitmap_add_correct:
  assumes "ra_inv r"
  shows "ra_inv (roaring_bitmap_add r v)" and "ra_abs (roaring_bitmap_add r v) = insert v (ra_abs r)"
  using containerptr_add_correct [OF assms prod.collapse [symmetric], of v] by simp_all

lemma typecode_cardinality:
  "container_inv c \<Longrightarrow> container_inv d \<Longrightarrow> container_abs c = container_abs d \<Longrightarrow>
    container_get_cardinality c = container_get_cardinality d"
  by (simp add: container_cardinality_abs)

text \<open>A new type code means a new value: a canonical container changes its type only with its set.\<close>

lemma add_keeps_type:
  assumes "container_inv c" and "x \<in> container_abs c"
  shows "typecode (container_add c x) = typecode c"
proof (cases c)
  case (Array_c a)
  have ok: "array_inv a" "ac_cardinality a \<le> 4096" "x \<in> array_abs a" using assms by (simp_all add: Array_c)
  have "snd (array_container_try_add a x DEFAULT_MAX_SIZE) = 0"
    using array_try_add_correct(3) [OF ok(1) prod.collapse [symmetric], of x DEFAULT_MAX_SIZE] ok(3) by simp
  then show ?thesis by (simp add: Array_c case_prod_unfold)
qed simp_all

lemma roaring_bitmap_add_checked_correct:
  assumes "ra_inv r" and "roaring_bitmap_add_checked r v = (r', new)"
  shows "r' = roaring_bitmap_add r v" and "new \<longleftrightarrow> v \<notin> ra_abs r"
proof -
  have "r' = roaring_bitmap_add r v \<and> (new \<longleftrightarrow> v \<notin> ra_abs r)" using assms(1)
  proof (cases rule: ra_index_cases [where k = "high16 v"])
    case (found j)
    let ?c = "snd (ra_entries r ! j)"
    have c: "container_inv (container_add ?c (low16 v))" "container_abs (container_add ?c (low16 v)) = insert (low16 v) (container_abs ?c)"
      using container_add_correct [OF found(6)] by simp_all
    have mem: "v \<in> ra_abs r \<longleftrightarrow> low16 v \<in> container_abs ?c" by (simp only: mem_ra_abs found(5))
    have more: "low16 v \<notin> container_abs ?c \<Longrightarrow> container_get_cardinality ?c \<noteq> container_get_cardinality (container_add ?c (low16 v))"
      using c by (simp add: container_cardinality_abs found(6) del: container_add.simps)
    have same: "low16 v \<in> container_abs ?c \<Longrightarrow> container_get_cardinality (container_add ?c (low16 v)) = container_get_cardinality ?c"
      using c found(6) by (intro typecode_cardinality) (simp_all add: insert_absorb)
    have r: "r' = roaring_bitmap_add r v" "new \<longleftrightarrow> typecode (container_add ?c (low16 v)) \<noteq> typecode ?c \<or>
        container_get_cardinality ?c \<noteq> container_get_cardinality (container_add ?c (low16 v))"
      using assms(2) by (auto simp: found(1) roaring_bitmap_add_checked_def roaring_bitmap_add_def Let_def ra_get_container_at_index_def
          simp del: container_add.simps split: if_splits)
    have "new \<longleftrightarrow> v \<notin> ra_abs r" unfolding r(2) mem using more same add_keeps_type [OF found(6)] by metis
    then show ?thesis using r(1) by blast
  next
    case absent
    have "v \<notin> ra_abs r" by (simp only: mem_ra_abs absent(4) empty_iff not_False_eq_True)
    then show ?thesis
      using assms(2) absent(1) by (simp_all add: roaring_bitmap_add_checked_def roaring_bitmap_add_def Let_def)
  qed
  then show "r' = roaring_bitmap_add r v" "new \<longleftrightarrow> v \<notin> ra_abs r" by blast+
qed

text \<open>Removing a value: the container stays, smaller, or goes with its key.\<close>

lemma remove_value_cell:
  assumes inv: "ra_inv r" and i: "i < ra_size r" "fst (ra_entries r ! i) = high16 v"
  defines "c \<equiv> container_remove (snd (ra_entries r ! i)) (low16 v)"
  defines "s \<equiv> (if container_nonzero_cardinality c then ra_set_container_at_index r i c else ra_remove_at_index r i)"
  shows "ra_inv s" and "ra_abs s = ra_abs r - {v}"
proof -
  have old: "container_inv (snd (ra_entries r ! i))" using entries_ok_nth [OF ra_ok_entries [OF inv] i(1)] by blast
  have c: "container_inv c" "container_abs c = at (ra_entries r) (high16 v) - {low16 v}"
    using container_remove_correct [OF old, of "low16 v"] at_nth [OF ra_ok_sorted [OF inv] i(1)] by (simp_all add: c_def i(2) del: container_remove.simps)
  have "changed r (high16 v) (container_abs c) s" unfolding s_def by (rule set_or_remove_changed [OF inv i c(1)])
  then show "ra_inv s" "ra_abs s = ra_abs r - {v}"
    using changed_inv changed_abs [of r v "container_abs c" s False] c(2) by auto
qed

lemma remove_absent: "ra_ok P r \<Longrightarrow> at (ra_entries r) (high16 v) = {} \<Longrightarrow> ra_abs r - {v} = ra_abs r"
  using mem_ra_abs [of v r] by auto

lemma roaring_bitmap_remove_correct:
  assumes "ra_inv r"
  shows "ra_inv (roaring_bitmap_remove r v)" and "ra_abs (roaring_bitmap_remove r v) = ra_abs r - {v}"
proof -
  have "ra_inv (roaring_bitmap_remove r v) \<and> ra_abs (roaring_bitmap_remove r v) = ra_abs r - {v}"
    using assms
  proof (cases rule: ra_index_cases [where k = "high16 v"])
    case (found j)
    then show ?thesis using remove_value_cell [OF assms found(2,3)]
      by (auto simp: roaring_bitmap_remove_def Let_def ra_get_container_at_index_def ra_remove_at_index_and_free_def set_remove_cell
          simp del: container_remove.simps split: if_splits)
  next
    case absent
    then show ?thesis using assms remove_absent [OF assms absent(4)] by (simp add: roaring_bitmap_remove_def Let_def)
  qed
  then show "ra_inv (roaring_bitmap_remove r v)" "ra_abs (roaring_bitmap_remove r v) = ra_abs r - {v}" by blast+
qed

lemma roaring_bitmap_remove_checked_correct:
  assumes "ra_inv r" and "roaring_bitmap_remove_checked r v = (r', old)"
  shows "r' = roaring_bitmap_remove r v" and "old \<longleftrightarrow> v \<in> ra_abs r"
proof -
  have "r' = roaring_bitmap_remove r v \<and> (old \<longleftrightarrow> v \<in> ra_abs r)" using assms(1)
  proof (cases rule: ra_index_cases [where k = "high16 v"])
    case (found j)
    let ?c = "snd (ra_entries r ! j)"
    have c: "container_inv (container_remove ?c (low16 v))" "container_abs (container_remove ?c (low16 v)) = container_abs ?c - {low16 v}"
      using container_remove_correct [OF found(6)] by simp_all
    have zero: "container_nonzero_cardinality (container_remove ?c (low16 v)) \<longleftrightarrow> container_get_cardinality (container_remove ?c (low16 v)) \<noteq> 0"
      using container_nonzero_correct [OF container_inv_lazy [OF c(1)]] container_cardinality_abs [OF c(1)] by simp
    have mem: "v \<in> ra_abs r \<longleftrightarrow> low16 v \<in> container_abs ?c" by (simp only: mem_ra_abs found(5))
    have less: "low16 v \<in> container_abs ?c \<Longrightarrow> card (container_abs ?c - {low16 v}) \<noteq> card (container_abs ?c)"
      by (metis card_Diff1_less finite less_irrefl)
    have r: "r' = roaring_bitmap_remove r v" "old \<longleftrightarrow> container_get_cardinality ?c \<noteq> container_get_cardinality (container_remove ?c (low16 v))"
      using assms(2) by (auto simp: found(1) zero roaring_bitmap_remove_checked_def roaring_bitmap_remove_def Let_def
          ra_get_container_at_index_def simp del: container_remove.simps split: if_splits)
    have "old \<longleftrightarrow> v \<in> ra_abs r"
      unfolding r(2) mem container_cardinality_abs [OF c(1)] container_cardinality_abs [OF found(6)] c(2)
      using less by (cases "low16 v \<in> container_abs ?c") auto
    then show ?thesis using r(1) by blast
  next
    case absent
    have "v \<notin> ra_abs r" by (simp only: mem_ra_abs absent(4) empty_iff not_False_eq_True)
    then show ?thesis
      using assms(2) absent(1) by (simp_all add: roaring_bitmap_remove_checked_def roaring_bitmap_remove_def Let_def)
  qed
  then show "r' = roaring_bitmap_remove r v" "old \<longleftrightarrow> v \<in> ra_abs r" by blast+
qed

section \<open>Many values\<close>

text \<open>A context is good for a table when it names a cell and that cell's key.\<close>

definition context_ok :: "roaring_bitmap \<Rightarrow> roaring_bulk_context \<Rightarrow> bool" where
  "context_ok r ctx \<longleftrightarrow> (case ctx of None \<Rightarrow> True | Some (i, k) \<Rightarrow> i < ra_size r \<and> fst (ra_entries r ! i) = k)"

lemma add_bulk_correct:
  assumes "ra_inv r" and "context_ok r ctx" and "add_bulk_impl r ctx v = (r', ctx')"
  shows "ra_inv r'" and "ra_abs r' = insert v (ra_abs r)" and "context_ok r' ctx'" and "r' = roaring_bitmap_add r v"
proof -
  have "ra_inv r' \<and> ra_abs r' = insert v (ra_abs r) \<and> context_ok r' ctx' \<and> r' = roaring_bitmap_add r v"
  proof (cases "\<exists>i. ctx = Some (i, high16 v)")
    case True
    then obtain i where ctx: "ctx = Some (i, high16 v)" by blast
    then have i: "i < ra_size r" "fst (ra_entries r ! i) = high16 v" using assms(2) by (simp_all add: context_ok_def)
    have "ra_get_index r (high16 v) = int i"
      using assms(1)
    proof (cases rule: ra_index_cases [where k = "high16 v"])
      case (found j)
      have "ra_keys r ! i = ra_keys r ! j" using i found(2,3) by simp
      then have "i = j"
        using i(1) found(2) nth_eq_iff_index_eq [OF ssorted_imp_distinct [OF ra_ok_sorted [OF assms(1)]], of i j]
        by (simp only: length_map)
      then show ?thesis using found(1) by simp
    next
      case absent
      then show ?thesis using i by (metis image_eqI nth_mem)
    qed
    then have "r' = roaring_bitmap_add r v" "ctx' = ctx" "r' = fst (containerptr_roaring_bitmap_add r v)"
      "i = snd (containerptr_roaring_bitmap_add r v)"
      using assms(3) by (auto simp: ctx add_bulk_impl_def roaring_bitmap_add_def containerptr_roaring_bitmap_add_def Let_def
          simp del: container_add.simps)
    then show ?thesis using containerptr_add_correct [OF assms(1) prod.collapse [symmetric], of v]
      by (simp add: ctx context_ok_def)
  next
    case False
    then have step: "containerptr_roaring_bitmap_add r v = (r', fst (the ctx'))" "ctx' = Some (fst (the ctx'), high16 v)"
      using assms(3) by (auto simp: add_bulk_impl_def Let_def split: option.splits prod.splits if_splits)
    show ?thesis
      using containerptr_add_correct [OF assms(1) step(1)] by (subst step(2)) (simp add: context_ok_def)
  qed
  then show "ra_inv r'" "ra_abs r' = insert v (ra_abs r)" "context_ok r' ctx'" "r' = roaring_bitmap_add r v" by blast+
qed

lemma roaring_bitmap_add_bulk_correct:
  assumes "ra_inv r" and "context_ok r ctx" and "roaring_bitmap_add_bulk r ctx v = (r', ctx')"
  shows "ra_inv r'" and "ra_abs r' = insert v (ra_abs r)" and "context_ok r' ctx'"
  using add_bulk_correct [OF assms(1,2)] assms(3) by (simp_all add: roaring_bitmap_add_bulk_def)

lemma add_bulk_all_correct:
  assumes "ra_inv r" and "context_ok r ctx"
  shows "ra_inv (add_bulk_all r ctx vals) \<and> ra_abs (add_bulk_all r ctx vals) = ra_abs r \<union> set vals"
  using assms
proof (induction r ctx vals rule: add_bulk_all.induct)
  case (2 r ctx val vals)
  obtain r' ctx' where step: "add_bulk_impl r ctx val = (r', ctx')" by fastforce
  show ?case using 2 add_bulk_correct [OF 2(2,3) step] by (simp add: step)
qed simp

lemma roaring_bitmap_add_many_correct:
  assumes "ra_inv r"
  shows "ra_inv (roaring_bitmap_add_many r vals)" and "ra_abs (roaring_bitmap_add_many r vals) = ra_abs r \<union> set vals"
proof -
  have "ra_inv (roaring_bitmap_add_many r vals) \<and> ra_abs (roaring_bitmap_add_many r vals) = ra_abs r \<union> set vals"
  proof (cases vals)
    case (Cons v vs)
    obtain r' i where step: "containerptr_roaring_bitmap_add r v = (r', i)" by fastforce
    have ctx: "context_ok r' (Some (i, high16 v))" using containerptr_add_correct [OF assms step] by (simp add: context_ok_def)
    show ?thesis
      using add_bulk_all_correct [OF containerptr_add_correct(1) [OF assms step] ctx, of vals] containerptr_add_correct(2) [OF assms step]
      by (simp add: Cons step del: add_bulk_all.simps)
  qed (simp add: assms)
  then show "ra_inv (roaring_bitmap_add_many r vals)" "ra_abs (roaring_bitmap_add_many r vals) = ra_abs r \<union> set vals" by blast+
qed

lemma create_empty: "ra_inv roaring_bitmap_create" "ra_abs roaring_bitmap_create = {}"
  using create_ok by (simp_all add: roaring_bitmap_create_def ra_ok_init ra_abs_def entries_abs_def)

lemma roaring_bitmap_of_ptr_correct:
  "ra_inv (roaring_bitmap_of_ptr vals)" "ra_abs (roaring_bitmap_of_ptr vals) = set vals"
  using roaring_bitmap_add_many_correct [OF create_empty(1), of vals] by (simp_all add: roaring_bitmap_of_ptr_def create_empty)

lemma roaring_bitmap_of_correct: "ra_inv (roaring_bitmap_of vals)" "ra_abs (roaring_bitmap_of vals) = set vals"
  using add_bulk_all_correct [OF create_empty(1), of None vals] by (simp_all add: roaring_bitmap_of_def create_empty context_ok_def)

lemma bulk_search:
  assumes "ra_inv r" and "context_ok r ctx"
  shows "ra_advance_until r k (case ctx of Some (idx, key') \<Rightarrow> if key' < k then int idx else - 1 | None \<Rightarrow> - 1) = lower_bound (ra_keys r) k"
proof -
  have fresh: "ra_advance_until r k (- 1) = lower_bound (ra_keys r) k"
    using advanceUntil_correct [OF ra_ok_sorted [OF assms(1)] refl, of "- 1" k] by (simp add: ra_advance_until_def)
  show ?thesis
  proof (cases ctx)
    case (Some c)
    obtain i k' where c: "c = (i, k')" by fastforce
    then have i: "i < ra_size r" "ra_keys r ! i = k'" using assms(2) by (simp_all add: context_ok_def Some)
    have "ra_advance_until r k (int i) = lower_bound (ra_keys r) k" if "k' < k"
      using ra_advance_until_correct [OF ra_ok_sorted [OF assms(1)] i(1), of k] ssorted_nth_less_iff [OF ra_ok_sorted [OF assms(1)], of i k] i that
      by simp
    then show ?thesis using fresh by (simp add: Some c)
  qed (simp add: fresh)
qed

lemma cell_index:
  assumes "ra_ok P r" and "i < ra_size r" and "fst (ra_entries r ! i) = k"
  shows "lower_bound (ra_keys r) k = i"
proof -
  have "ra_keys r ! i = k" "i < length (ra_keys r)" using assms(2,3) by simp_all
  then show ?thesis
    by (intro lower_bound_eqI) (use ra_ok_sorted [OF assms(1)] in \<open>auto intro: ssorted_nth_less simp del: nth_map\<close>)
qed

lemma roaring_bitmap_contains_bulk_correct:
  assumes "ra_inv r" and "context_ok r ctx" and "roaring_bitmap_contains_bulk r ctx v = (ctx', found)"
  shows "context_ok r ctx'" and "found \<longleftrightarrow> v \<in> ra_abs r"
proof -
  have at_cell: "container_contains (ra_get_container_at_index r i) (low16 v) \<longleftrightarrow> v \<in> ra_abs r"
    if "i < ra_size r" "fst (ra_entries r ! i) = high16 v" for i
    using entries_ok_nth [OF ra_ok_entries [OF assms(1)] that(1)] at_nth [OF ra_ok_sorted [OF assms(1)] that(1)]
    by (simp add: mem_ra_abs that ra_get_container_at_index_def container_contains_correct container_inv_lazy)
  let ?p = "lower_bound (ra_keys r) (high16 v)"
  have "context_ok r ctx' \<and> (found \<longleftrightarrow> v \<in> ra_abs r)"
  proof (cases "\<exists>i. ctx = Some (i, high16 v)")
    case True
    then show ?thesis using assms(2,3) at_cell by (auto simp: roaring_bitmap_contains_bulk_def context_ok_def)
  next
    case False
    define search where "search = (if ?p = ra_size r then (ctx, False)
      else if ra_get_key_at_index r ?p \<noteq> high16 v then (Some (?p, ra_get_key_at_index r ?p), False)
      else (Some (?p, ra_get_key_at_index r ?p), container_contains (ra_get_container_at_index r ?p) (low16 v)))"
    have result: "(ctx', found) = search"
      using False assms(3) unfolding roaring_bitmap_contains_bulk_def Let_def bulk_search [OF assms(1,2)]
      by (auto simp: search_def split: option.splits if_splits)
    have le: "?p \<le> ra_size r" using lower_bound_le [of "ra_keys r"] by simp
    have absent: "v \<notin> ra_abs r" if "?p = ra_size r \<or> fst (ra_entries r ! ?p) \<noteq> high16 v"
      using assms(1)
    proof (cases rule: ra_index_cases [where k = "high16 v"])
      case (found i)
      then show ?thesis using that by auto
    qed (simp add: mem_ra_abs)
    show ?thesis
    proof (cases "?p = ra_size r \<or> fst (ra_entries r ! ?p) \<noteq> high16 v")
      case True
      then have "found = False" "ctx' = ctx \<or> (ctx' = Some (?p, ra_get_key_at_index r ?p) \<and> ?p < ra_size r)"
        using result le by (auto simp: search_def ra_get_key_at_index_def split: if_splits)
      then show ?thesis using absent [OF True] assms(2) by (auto simp: ra_get_key_at_index_def context_ok_def)
    next
      case False
      then show ?thesis using result le at_cell [of ?p] by (simp add: search_def ra_get_key_at_index_def context_ok_def)
    qed
  qed
  then show "context_ok r ctx'" "found \<longleftrightarrow> v \<in> ra_abs r" by blast+
qed

lemma remove_many_loop_correct:
  assumes "ra_inv r" and "pos < 0 \<or> nat pos < ra_size r"
  shows "ra_inv (remove_many_loop r pos vals) \<and> ra_abs (remove_many_loop r pos vals) = ra_abs r - set vals"
  using assms
proof (induction vals arbitrary: r pos)
  case (Cons v vals)
  define p where "p = (if pos < 0 \<or> high16 v \<noteq> ra_keys r ! nat pos then ra_get_index r (high16 v) else pos)"
  have step: "remove_many_loop r pos (v # vals) =
     (if p \<ge> 0
      then let new_container = container_remove (snd (ra_entries r ! nat p)) (low16 v);
               r = ra_replace_key_and_container_at_index r (nat p) (high16 v) new_container
           in if \<not> container_nonzero_cardinality new_container
              then remove_many_loop (ra_remove_at_index r (nat p)) (- 1) vals
              else remove_many_loop r p vals
      else remove_many_loop r p vals)"
    by (simp only: remove_many_loop.simps Let_def p_def)
  have sets: "ra_abs r - {v} - set vals = ra_abs r - set (v # vals)" by auto
  show ?case
  proof (cases "p < 0")
    case True
    then have "ra_get_index r (high16 v) < 0" using Cons.prems(2) by (auto simp: p_def split: if_splits)
    then have "at (ra_entries r) (high16 v) = {}"
      by (cases rule: ra_index_cases [OF Cons.prems(1), of "high16 v"]) simp_all
    then show ?thesis using Cons.IH [OF Cons.prems(1), of p] True sets remove_absent [OF Cons.prems(1)] by (simp add: step del: remove_many_loop.simps)
  next
    case False
    let ?i = "nat p"
    have i: "?i < ra_size r" "fst (ra_entries r ! ?i) = high16 v"
    proof -
      have "?i < ra_size r \<and> fst (ra_entries r ! ?i) = high16 v"
      proof (cases "pos < 0 \<or> high16 v \<noteq> ra_keys r ! nat pos")
        case True
        then have "p = ra_get_index r (high16 v)" by (simp add: p_def)
        then show ?thesis using False by (cases rule: ra_index_cases [OF Cons.prems(1), of "high16 v"]) simp_all
      next
        case same: False
        then have "p = pos" "nat pos < ra_size r" using Cons.prems(2) by (auto simp: p_def)
        then show ?thesis using same by simp
      qed
      then show "?i < ra_size r" "fst (ra_entries r ! ?i) = high16 v" by blast+
    qed
    let ?c = "container_remove (snd (ra_entries r ! ?i)) (low16 v)"
    have replaced: "ra_replace_key_and_container_at_index r ?i (high16 v) ?c = ra_set_container_at_index r ?i ?c"
      by (simp add: ra_replace_key_and_container_at_index_def ra_set_container_at_index_def i(2))
    have size: "ra_size (ra_set_container_at_index r ?i ?c) = ra_size r" by (simp add: ra_set_container_at_index_def)
    show ?thesis
    proof (cases "container_nonzero_cardinality ?c")
      case True
      have s: "ra_inv (ra_set_container_at_index r ?i ?c)" "ra_abs (ra_set_container_at_index r ?i ?c) = ra_abs r - {v}"
        using remove_value_cell [OF Cons.prems(1) i] True by simp_all
      show ?thesis using Cons.IH [OF s(1), of p] i(1) False True s(2) sets by (simp add: step replaced size del: container_remove.simps remove_many_loop.simps)
    next
      case gone: False
      have s: "ra_inv (ra_remove_at_index r ?i)" "ra_abs (ra_remove_at_index r ?i) = ra_abs r - {v}"
        using remove_value_cell [OF Cons.prems(1) i] gone by simp_all
      show ?thesis using Cons.IH [OF s(1), of "- 1"] i(1) False gone s(2) sets
        by (simp add: step replaced set_remove_cell del: container_remove.simps remove_many_loop.simps)
    qed
  qed
qed simp

lemma roaring_bitmap_remove_many_correct:
  assumes "ra_inv r"
  shows "ra_inv (roaring_bitmap_remove_many r vals)" and "ra_abs (roaring_bitmap_remove_many r vals) = ra_abs r - set vals"
proof -
  have "ra_size r = 0 \<Longrightarrow> ra_abs r = {}" by (simp add: ra_empty_iff [OF assms])
  then show "ra_inv (roaring_bitmap_remove_many r vals)" "ra_abs (roaring_bitmap_remove_many r vals) = ra_abs r - set vals"
    using remove_many_loop_correct [OF assms, of "- 1" vals] assms by (auto simp: roaring_bitmap_remove_many_def)
qed

end
