(* ===== verification/Roaring_Order.thy ===== *)
theory Roaring_Order
  imports Roaring_Bitmap
begin

text \<open>
  The order of 32-bit values by their halves, and what it makes of a table: the values of a table in
  increasing order are the values of its containers one after the other (\<open>entries_values\<close>), and a
  count over a table is the sum of the counts over its containers.
\<close>

section \<open>Halves and order\<close>

definition join :: "u16 \<Rightarrow> u16 \<Rightarrow> u32" where
  "join k y = push_bit 16 (ucast k) OR ucast y"

lemma high16_join [simp]: "high16 (join k y) = k"
  unfolding join_def by (rule high_low_join)

lemma low16_join [simp]: "low16 (join k y) = y"
  unfolding join_def by (rule high_low_join)

lemma join_halves [simp]: "join (high16 x) (low16 x) = x"
  unfolding join_def by (rule high_low [symmetric])

lemma unat_halves: "unat (high16 x) = unat x div 65536" "unat (low16 x) = unat x mod 65536"
  using unat_ucast_u32_u16 [OF unat_high16(2) [of x]]
  by (simp_all add: unat_high16(1)) (simp add: unsigned_ucast_eq take_bit_eq_mod)

lemma unat_join: "unat (join k y) = unat k * 65536 + unat y"
  using unat_halves [of "join k y"] div_mult_mod_eq [of "unat (join k y)" 65536] by simp

lemma pair_order:
  fixes a b a' b' :: nat
  assumes "b < 65536" and "b' < 65536"
  shows "a * 65536 + b < a' * 65536 + b' \<longleftrightarrow> a < a' \<or> a = a' \<and> b < b'"
    and "a * 65536 + b \<le> a' * 65536 + b' \<longleftrightarrow> a < a' \<or> a = a' \<and> b \<le> b'"
  using assms by (cases a a' rule: linorder_cases; auto)+

lemma join_less: "join k y < join k' y' \<longleftrightarrow> k < k' \<or> k = k' \<and> y < y'"
  unfolding word_less_nat_alt unat_join word_unat_eq_iff [of k] by (rule pair_order) simp_all

lemma join_le: "join k y \<le> join k' y' \<longleftrightarrow> k < k' \<or> k = k' \<and> y \<le> y'"
  unfolding word_less_nat_alt word_le_nat_alt unat_join word_unat_eq_iff [of k] by (rule pair_order) simp_all

lemma halves_less: "x < y \<longleftrightarrow> high16 x < high16 y \<or> high16 x = high16 y \<and> low16 x < low16 y"
  using join_less [of "high16 x" "low16 x" "high16 y" "low16 y"] by simp

lemma halves_le: "x \<le> y \<longleftrightarrow> high16 x < high16 y \<or> high16 x = high16 y \<and> low16 x \<le> low16 y"
  using join_le [of "high16 x" "low16 x" "high16 y" "low16 y"] by simp

lemma join_inject [simp]: "join k y = join k' y' \<longleftrightarrow> k = k' \<and> y = y'"
  by (metis high16_join low16_join)

lemma inj_join: "inj (join k)"
  by (rule injI) simp

lemma join_mem: "join k y \<in> entries_abs es \<longleftrightarrow> y \<in> at es k"
  unfolding join_def by (rule entries_abs_join)

lemma join_plus: "push_bit 16 (ucast k) + ucast y = join k y"
proof -
  have "push_bit 16 (ucast k) AND ucast y = (0 :: u32)" by (rule bit_word_eqI) (auto simp: bit_simps dest: bit_imp_le_length)
  then show ?thesis unfolding join_def by (simp add: disjunctive_add_eq_or)
qed

section \<open>The values of a table\<close>

lemma entries_abs_Nil [simp]: "entries_abs [] = {}"
  by (simp add: entries_abs_def)

lemma entries_abs_key: "x \<in> entries_abs es \<Longrightarrow> high16 x \<in> fst ` set es"
  using at_absent [of "high16 x" es] by (auto simp: entries_abs_def)

lemma entries_abs_Cons:
  assumes "entries_ok P ((k, c) # es)"
  shows "entries_abs ((k, c) # es) = join k ` container_abs c \<union> entries_abs es"
    and "join k ` container_abs c \<inter> entries_abs es = {}"
    and "x \<in> entries_abs es \<Longrightarrow> k < high16 x"
proof -
  have above: "\<forall>k' \<in> fst ` set es. k < k'" using assms by simp
  show later: "x \<in> entries_abs es \<Longrightarrow> k < high16 x" for x using entries_abs_key above by blast
  have "x \<in> entries_abs ((k, c) # es) \<longleftrightarrow> x \<in> join k ` container_abs c \<union> entries_abs es" for x
  proof (cases "high16 x = k")
    case True
    then have "x = join k (low16 x)" by (metis join_halves)
    then have "x \<in> join k ` container_abs c \<longleftrightarrow> low16 x \<in> container_abs c" using inj_image_mem_iff [OF inj_join] by metis
    moreover have "x \<notin> entries_abs es" using later [of x] True by blast
    ultimately show ?thesis using True by (simp only: entries_abs_def mem_Collect_eq at_Cons Un_iff if_True simp_thms)
  next
    case False
    then have "x \<notin> join k ` container_abs c" by (metis high16_join imageE)
    then show ?thesis using False by (simp only: entries_abs_def mem_Collect_eq at_Cons Un_iff if_False simp_thms)
  qed
  then show "entries_abs ((k, c) # es) = join k ` container_abs c \<union> entries_abs es" by blast
  show "join k ` container_abs c \<inter> entries_abs es = {}" using later by fastforce
qed

text \<open>Counting the values with a property, container by container.\<close>

lemma count_Cons:
  assumes "entries_ok P ((k, c) # es)"
  shows "card {x \<in> entries_abs ((k, c) # es). Q x} = card {y \<in> container_abs c. Q (join k y)} + card {x \<in> entries_abs es. Q x}"
proof -
  have split: "{x \<in> entries_abs ((k, c) # es). Q x} = join k ` {y \<in> container_abs c. Q (join k y)} \<union> {x \<in> entries_abs es. Q x}"
    unfolding entries_abs_Cons(1) [OF assms] by blast
  have "join k ` {y \<in> container_abs c. Q (join k y)} \<inter> {x \<in> entries_abs es. Q x} = {}" using entries_abs_Cons(2) [OF assms] by blast
  then show ?thesis unfolding split by (simp add: card_Un_disjoint card_image inj_on_subset [OF inj_join])
qed

lemma card_Cons:
  "entries_ok P ((k, c) # es) \<Longrightarrow> card (entries_abs ((k, c) # es)) = card (container_abs c) + card (entries_abs es)"
  using count_Cons [of P k c es "\<lambda>_. True"] by simp

lemma count_above:
  assumes "entries_ok P ((k, c) # es)" and "\<And>x. high16 x > k \<Longrightarrow> \<not> Q x"
  shows "card {x \<in> entries_abs ((k, c) # es). Q x} = card {y \<in> container_abs c. Q (join k y)}"
proof -
  have "{x \<in> entries_abs es. Q x} = {}" using assms(2) entries_abs_Cons(3) [OF assms(1)] by blast
  then show ?thesis using count_Cons [OF assms(1), of Q] by simp
qed

lemma count_fits: "card {x \<in> S. Q x} \<le> 4294967296" "card S \<le> 4294967296" for S :: "u32 set"
proof -
  have "card T \<le> card (UNIV :: u32 set)" for T :: "u32 set" by (rule card_mono) simp_all
  then show "card {x \<in> S. Q x} \<le> 4294967296" "card S \<le> 4294967296" by (simp_all add: card_word)
qed

definition entries_values :: "(u16 \<times> container_t) list \<Rightarrow> u32 list" where
  "entries_values es = concat (map (\<lambda>(k, c). map (join k) (sorted_list_of_set (container_abs c))) es)"

lemma entries_values_simps [simp]:
  "entries_values [] = []"
  "entries_values ((k, c) # es) = map (join k) (sorted_list_of_set (container_abs c)) @ entries_values es"
  by (simp_all add: entries_values_def)

lemma ssorted_map_join: "ssorted ys \<Longrightarrow> ssorted (map (join k) ys)"
  by (simp add: sorted_wrt_map join_less)

lemma entries_values_correct:
  assumes "entries_ok P es"
  shows "set (entries_values es) = entries_abs es" and "ssorted (entries_values es)"
proof -
  have "set (entries_values es) = entries_abs es \<and> ssorted (entries_values es)" using assms
  proof (induction es)
    case (Cons e es)
    obtain k c where e: "e = (k, c)" by (cases e)
    have ok: "entries_ok P ((k, c) # es)" using Cons.prems by (simp only: e)
    have IH: "set (entries_values es) = entries_abs es" "ssorted (entries_values es)" using Cons.IH ok by simp_all
    have less: "x < y" if "x \<in> join k ` container_abs c" and "y \<in> entries_abs es" for x y
    proof -
      have "high16 x = k" using that(1) by (metis high16_join imageE)
      then show ?thesis using entries_abs_Cons(3) [OF ok that(2)] by (simp only: halves_less simp_thms)
    qed
    show ?case using IH less unfolding e
      by (simp add: entries_abs_Cons(1) [OF ok] sorted_wrt_append ssorted_map_join del: at_Cons)
  qed simp
  then show "set (entries_values es) = entries_abs es" "ssorted (entries_values es)" by blast+
qed

lemma entries_values_sorted:
  "entries_ok P es \<Longrightarrow> entries_values es = sorted_list_of_set (entries_abs es)"
  by (rule ssorted_set_unique) (simp_all add: entries_values_correct)

lemma ra_card_Nil: "ra_entries r = [] \<Longrightarrow> card (ra_abs r) = 0"
  by (simp add: ra_abs_def)

text \<open>Skipping entries in front of a key loses only values below it.\<close>

lemma dropWhile_abs:
  assumes "entries_ok P es"
  shows "entries_abs (dropWhile (\<lambda>e. fst e < k) es) = {x \<in> entries_abs es. k \<le> high16 x}"
  using assms
proof (induction es)
  case (Cons e es)
  obtain k' c where e: "e = (k', c)" by (cases e)
  have ok: "entries_ok P ((k', c) # es)" using Cons.prems by (simp only: e)
  show ?case
  proof (cases "k' < k")
    case True
    have "x \<in> join k' ` container_abs c \<Longrightarrow> \<not> k \<le> high16 x" for x using True by (metis high16_join imageE linorder_not_less)
    then show ?thesis using Cons.IH ok True unfolding e entries_abs_Cons(1) [OF ok] by (auto simp del: at_Cons)
  next
    case False
    have "x \<in> entries_abs ((k', c) # es) \<Longrightarrow> k \<le> high16 x" for x
      using False entries_abs_key [of x "(k', c) # es"] ok by (auto simp: linorder_not_less intro: order_trans less_imp_le)
    then show ?thesis using False unfolding e by auto
  qed
qed simp

end
