(* ===== verification/Roaring_Queries.thy ===== *)
theory Roaring_Queries
  imports Roaring_Order
begin

text \<open>
  The questions \<open>src/roaring.c\<close> asks of one bitmap: counting, ranks, selection, extrema, listing and
  iterating, ranges, validation, and the changes of form (run compression, shrinking) that keep the
  set. A loop over the cells of a table runs over the list of its entries.
\<close>

section \<open>Counting\<close>

fun cardinality_loop :: "(u16 \<times> container_t) list \<Rightarrow> u64 \<Rightarrow> u64" where
  "cardinality_loop [] count = count"
| "cardinality_loop ((key, c) # es) count = cardinality_loop es (count + of_int (container_get_cardinality c))"

definition roaring_bitmap_get_cardinality :: "roaring_bitmap \<Rightarrow> u64" where
  "roaring_bitmap_get_cardinality r = cardinality_loop (ra_entries r) 0"

fun range_cardinality_loop :: "(u16 \<times> container_t) list \<Rightarrow> u16 \<Rightarrow> u32 \<Rightarrow> u64 \<Rightarrow> u64" where
  "range_cardinality_loop [] maxhb range_end count = count"
| "range_cardinality_loop ((key, c) # es) maxhb range_end count =
     (if key < maxhb then range_cardinality_loop es maxhb range_end (count + of_int (container_get_cardinality c))
      else if key = maxhb then count + of_int (container_rank c (low16 range_end))
      else count)"

definition roaring_bitmap_range_cardinality_closed :: "roaring_bitmap \<Rightarrow> u32 \<Rightarrow> u32 \<Rightarrow> u64" where
  "roaring_bitmap_range_cardinality_closed r range_start range_end =
     (if range_start > range_end then 0
      else let minhb = high16 range_start; maxhb = high16 range_end; i = ra_get_index r minhb
           in if i \<ge> 0
              then let c = ra_get_container_at_index r (nat i);
                       count = (if minhb = maxhb then of_int (container_rank c (low16 range_end))
                                else of_int (container_get_cardinality c));
                       count = (if low16 range_start \<noteq> 0 then count - of_int (container_rank c (low16 range_start - 1)) else count)
                   in range_cardinality_loop (drop (nat i + 1) (ra_entries r)) maxhb range_end count
              else range_cardinality_loop (drop (nat (- i - 1)) (ra_entries r)) maxhb range_end 0)"

definition roaring_bitmap_range_cardinality :: "roaring_bitmap \<Rightarrow> u64 \<Rightarrow> u64 \<Rightarrow> u64" where
  "roaring_bitmap_range_cardinality r range_start range_end =
     (if range_start \<ge> range_end \<or> range_start > 0xFFFFFFFF + 1 then 0
      else roaring_bitmap_range_cardinality_closed r (ucast range_start) (ucast (range_end - 1)))"

definition roaring_bitmap_is_empty :: "roaring_bitmap \<Rightarrow> bool" where
  "roaring_bitmap_is_empty r \<longleftrightarrow> ra_size r = 0"

section \<open>Ranks, selection, extrema\<close>

fun rank_loop :: "(u16 \<times> container_t) list \<Rightarrow> u32 \<Rightarrow> u64 \<Rightarrow> u64" where
  "rank_loop [] x count = count"
| "rank_loop ((key, c) # es) x count =
     (if high16 x > key then rank_loop es x (count + of_int (container_get_cardinality c))
      else if high16 x = key then count + of_int (container_rank c (low16 x))
      else count)"

definition roaring_bitmap_rank :: "roaring_bitmap \<Rightarrow> u32 \<Rightarrow> u64" where
  "roaring_bitmap_rank bm x = rank_loop (ra_entries bm) x 0"

text \<open>A container answers at least the query that led to it, so the queries run out.\<close>

lemma rank_many_consumes: "0 < fst (container_rank_many c start (x # qs))"
  by (cases c) (auto simp: array_container_rank_many_def bitset_container_rank_many_def run_container_rank_many_def Let_def split: prod.splits)

function rank_many_entries :: "(u16 \<times> container_t) list \<Rightarrow> u32 list \<Rightarrow> u64 \<Rightarrow> u64 list" where
  "rank_many_entries [] iter count = map (\<lambda>_. count) iter"
| "rank_many_entries (e # es) [] count = []"
| "rank_many_entries ((key, c) # es) (x # iter) count =
     (if high16 x > key then rank_many_entries es (x # iter) (count + of_int (container_get_cardinality c))
      else if high16 x = key
      then snd (container_rank_many c count (x # iter))
             @ rank_many_entries ((key, c) # es) (drop (fst (container_rank_many c count (x # iter))) (x # iter)) count
      else count # rank_many_entries ((key, c) # es) iter count)"
  by pat_completeness auto
termination
proof (relation "measure (\<lambda>(es, iter, count). length es + length iter)", goal_cases)
  case (3 key c es x iter count)
  have "length (drop (fst (container_rank_many c count (x # iter))) (x # iter)) < length (x # iter)"
    using rank_many_consumes [of c count x iter] by (simp only: length_drop) simp
  then show ?case by simp
qed simp_all

declare rank_many_entries.simps(3) [simp del]

definition roaring_bitmap_rank_many :: "roaring_bitmap \<Rightarrow> u32 list \<Rightarrow> u64 list" where
  "roaring_bitmap_rank_many bm queries = rank_many_entries (ra_entries bm) queries 0"

text \<open>The index is looked up first; the loop then counts what lies before it.\<close>

fun index_loop :: "roaring_bitmap \<Rightarrow> int \<Rightarrow> (u16 \<times> container_t) list \<Rightarrow> u32 \<Rightarrow> int \<Rightarrow> int" where
  "index_loop bm high_idx [] x index = index"
| "index_loop bm high_idx ((key, c) # es) x index =
     (if high16 x > key then index_loop bm high_idx es x (index + container_get_cardinality c)
      else if high16 x = key
      then let low_idx = container_get_index (ra_get_container_at_index bm (nat high_idx)) (low16 x)
           in if low_idx < 0 then - 1 else index + low_idx
      else - 1)"

definition roaring_bitmap_get_index :: "roaring_bitmap \<Rightarrow> u32 \<Rightarrow> int" where
  "roaring_bitmap_get_index bm x =
     (let high_idx = ra_get_index bm (high16 x)
      in if high_idx < 0 then - 1 else index_loop bm high_idx (ra_entries bm) x 0)"

definition roaring_bitmap_minimum :: "roaring_bitmap \<Rightarrow> u32" where
  "roaring_bitmap_minimum bm =
     (if ra_size bm > 0
      then ucast (container_minimum (ra_get_container_at_index bm 0)) OR push_bit 16 (ucast (ra_get_key_at_index bm 0))
      else 0xFFFFFFFF)"

definition roaring_bitmap_maximum :: "roaring_bitmap \<Rightarrow> u32" where
  "roaring_bitmap_maximum bm =
     (if ra_size bm > 0
      then ucast (container_maximum (ra_get_container_at_index bm (ra_size bm - 1)))
             OR push_bit 16 (ucast (ra_get_key_at_index bm (ra_size bm - 1)))
      else 0)"

text \<open>\<open>None\<close> is the answer \<open>false\<close>, \<open>Some element\<close> the answer \<open>true\<close> with the element written.\<close>

fun select_loop :: "(u16 \<times> container_t) list \<Rightarrow> u32 \<Rightarrow> u32 \<Rightarrow> u32 option" where
  "select_loop [] start_rank rank = None"
| "select_loop ((key, c) # es) start_rank rank =
     (case container_select c start_rank rank of
        Inl start_rank \<Rightarrow> select_loop es start_rank rank
      | Inr element \<Rightarrow> Some (element OR push_bit 16 (ucast key)))"

definition roaring_bitmap_select :: "roaring_bitmap \<Rightarrow> u32 \<Rightarrow> u32 option" where
  "roaring_bitmap_select bm rank = select_loop (ra_entries bm) 0 rank"

section \<open>Listing and iterating\<close>

definition roaring_bitmap_to_uint32_array :: "roaring_bitmap \<Rightarrow> u32 list" where
  "roaring_bitmap_to_uint32_array r = ra_to_uint32_array r"

fun iterate_entries :: "(u16 \<times> container_t) list \<Rightarrow> (u32 \<Rightarrow> 's \<Rightarrow> bool \<times> 's) \<Rightarrow> 's \<Rightarrow> bool \<times> 's" where
  "iterate_entries [] iterator ptr = (True, ptr)"
| "iterate_entries ((key, c) # es) iterator ptr =
     (case container_iterate c (push_bit 16 (ucast key)) iterator ptr of (continue, ptr) \<Rightarrow>
        if \<not> continue then (False, ptr) else iterate_entries es iterator ptr)"

definition roaring_iterate :: "roaring_bitmap \<Rightarrow> (u32 \<Rightarrow> 's \<Rightarrow> bool \<times> 's) \<Rightarrow> 's \<Rightarrow> bool \<times> 's" where
  "roaring_iterate r iterator ptr = iterate_entries (ra_entries r) iterator ptr"

fun iterate64_entries :: "(u16 \<times> container_t) list \<Rightarrow> (u64 \<Rightarrow> 's \<Rightarrow> bool \<times> 's) \<Rightarrow> u64 \<Rightarrow> 's \<Rightarrow> bool \<times> 's" where
  "iterate64_entries [] iterator high_bits ptr = (True, ptr)"
| "iterate64_entries ((key, c) # es) iterator high_bits ptr =
     (case container_iterate64 c (push_bit 16 (ucast key)) iterator high_bits ptr of (continue, ptr) \<Rightarrow>
        if \<not> continue then (False, ptr) else iterate64_entries es iterator high_bits ptr)"

definition roaring_iterate64 :: "roaring_bitmap \<Rightarrow> (u64 \<Rightarrow> 's \<Rightarrow> bool \<times> 's) \<Rightarrow> u64 \<Rightarrow> 's \<Rightarrow> bool \<times> 's" where
  "roaring_iterate64 r iterator high_bits ptr = iterate64_entries (ra_entries r) iterator high_bits ptr"

section \<open>Ranges\<close>

definition roaring_bitmap_contains_range_closed :: "roaring_bitmap \<Rightarrow> u32 \<Rightarrow> u32 \<Rightarrow> bool" where
  "roaring_bitmap_contains_range_closed r range_start range_end =
     (if range_start > range_end then True
      else if range_end = range_start then roaring_bitmap_contains r range_start
      else let hb_rs = high16 range_start; hb_re = high16 range_end;
               span = uint hb_re - uint hb_rs;
               hlc_sz = ra_get_size r
           in if hlc_sz < span + 1 then False
              else let is = ra_get_index r hb_rs; ie = ra_get_index r hb_re
                   in if ie < 0 \<or> is < 0 \<or> ie - is \<noteq> span \<or> ie \<ge> hlc_sz then False
                      else let lb_rs = range_start AND 0xFFFF; lb_re = (range_end AND 0xFFFF) + 1;
                               c = ra_get_container_at_index r (nat is)
                           in if hb_rs = hb_re then container_contains_range c lb_rs lb_re
                              else if \<not> container_contains_range c lb_rs (push_bit 16 1) then False
                              else if \<not> container_contains_range (ra_get_container_at_index r (nat ie)) 0 lb_re then False
                              else list_all (\<lambda>i. container_is_full (ra_get_container_at_index r i)) [nat (is + 1) ..< nat ie])"

definition roaring_bitmap_contains_range :: "roaring_bitmap \<Rightarrow> u64 \<Rightarrow> u64 \<Rightarrow> bool" where
  "roaring_bitmap_contains_range r range_start range_end =
     (if range_start \<ge> range_end \<or> range_start > 0xFFFFFFFF + 1 then True
      else roaring_bitmap_contains_range_closed r (ucast range_start) (ucast (range_end - 1)))"

section \<open>Changing the form\<close>

text \<open>The answer of the first two says whether a container is a run, and whether one was.\<close>

definition roaring_bitmap_run_optimize :: "roaring_bitmap \<Rightarrow> roaring_bitmap \<times> bool" where
  "roaring_bitmap_run_optimize r =
     (let es = map (\<lambda>(k, c). (k, convert_run_optimize c)) (ra_entries r)
      in (r\<lparr>ra_entries := es\<rparr>, list_ex (\<lambda>(k, c). is_run_container c) es))"

fun without_runs :: "container_t \<Rightarrow> container_t" where
  "without_runs (Run_c c) = convert_to_bitset_or_array_container c (run_container_cardinality c)"
| "without_runs c = c"

definition roaring_bitmap_remove_run_compression :: "roaring_bitmap \<Rightarrow> roaring_bitmap \<times> bool" where
  "roaring_bitmap_remove_run_compression r =
     (r\<lparr>ra_entries := map (\<lambda>(k, c). (k, without_runs c)) (ra_entries r)\<rparr>,
      list_ex (\<lambda>(k, c). is_run_container c) (ra_entries r))"

definition roaring_bitmap_shrink_to_fit :: "roaring_bitmap \<Rightarrow> roaring_bitmap \<times> int" where
  "roaring_bitmap_shrink_to_fit r =
     (let answer = fold (\<lambda>(k, c) answer. answer + snd (container_shrink_to_fit c)) (ra_entries r) 0;
          r = r\<lparr>ra_entries := map (\<lambda>(k, c). (k, fst (container_shrink_to_fit c))) (ra_entries r)\<rparr>
      in case ra_shrink_to_fit r of (r, n) \<Rightarrow> (r, answer + n))"

section \<open>Validation\<close>

datatype bitmap_error = Negative_allocation | More_containers_than_allocated | Invalid_flags | Keys_not_increasing
  | Shared_container_without_cow | Container_invalid container_error

fun keys_loop :: "u16 \<Rightarrow> u16 list \<Rightarrow> bool" where
  "keys_loop prev_key [] = True"
| "keys_loop prev_key (key # keys) = (if key \<le> prev_key then False else keys_loop key keys)"

fun validate_containers :: "(u16 \<Rightarrow> bool) \<Rightarrow> bool \<Rightarrow> (u16 \<times> container_t) list \<Rightarrow> bitmap_error option" where
  "validate_containers shared cow [] = None"
| "validate_containers shared cow ((key, c) # es) =
     (if shared key \<and> \<not> cow then Some Shared_container_without_cow
      else case container_internal_validate c of
             Some e \<Rightarrow> Some (Container_invalid e)
           | None \<Rightarrow> validate_containers shared cow es)"

text \<open>A size is a length here and no pointer is \<open>NULL\<close>; \<open>shared k\<close> says that the container under the
  key \<open>k\<close> is a shared one.\<close>

definition roaring_bitmap_internal_validate :: "(u16 \<Rightarrow> bool) \<Rightarrow> roaring_bitmap \<Rightarrow> bitmap_error option" where
  "roaring_bitmap_internal_validate shared r =
     (if ra_allocation_size r < 0 then Some Negative_allocation
      else if ra_get_size r > ra_allocation_size r then Some More_containers_than_allocated
      else if ra_flags r AND NOT (1 OR 2) \<noteq> 0 then Some Invalid_flags
      else if ra_size r = 0 then None
      else if \<not> keys_loop (hd (ra_keys r)) (tl (ra_keys r)) then Some Keys_not_increasing
      else validate_containers shared (roaring_bitmap_get_copy_on_write r) (ra_entries r))"

end
