(* ===== verification/Roaring_Queries_Correct.thy ===== *)
theory Roaring_Queries_Correct
  imports Roaring_Queries
begin

text \<open>
  The questions asked of a bitmap are questions about its set: cardinality, rank, index, extrema,
  selection and listing against \<open>card\<close>, \<open>Min\<close>, \<open>Max\<close> and the sorted list of the set, and the changes of
  form keep it.
\<close>

section \<open>Counting\<close>

lemma join_le_iff: "join k y \<le> x \<longleftrightarrow> k < high16 x \<or> k = high16 x \<and> y \<le> low16 x"
  using halves_le [of "join k y" x] by simp

lemma join_less_iff: "join k y < x \<longleftrightarrow> k < high16 x \<or> k = high16 x \<and> y < low16 x"
  using halves_less [of "join k y" x] by simp

lemma above_not_le: "high16 x < high16 y \<Longrightarrow> \<not> y \<le> x" "high16 x < high16 y \<Longrightarrow> \<not> y < x"
  by (auto simp: halves_le [of y x] halves_less [of y x])

lemma cardinality_loop_correct:
  "entries_inv es \<Longrightarrow> cardinality_loop es n = n + word_of_nat (card (entries_abs es))"
proof (induction es n rule: cardinality_loop.induct)
  case (2 k c es n)
  then show ?case by (simp add: container_cardinality_abs card_Cons [OF 2(2)] del: at_Cons)
qed simp

lemma u64_small: "n \<le> 4294967296 \<Longrightarrow> unat (word_of_nat n :: u64) = n"
  by simp

lemma roaring_bitmap_get_cardinality_correct:
  assumes "ra_inv r"
  shows "roaring_bitmap_get_cardinality r = word_of_nat (card (ra_abs r))"
    and "unat (roaring_bitmap_get_cardinality r) = card (ra_abs r)"
proof -
  show eq: "roaring_bitmap_get_cardinality r = word_of_nat (card (ra_abs r))"
    using cardinality_loop_correct [OF ra_ok_entries [OF assms], of 0] by (simp add: roaring_bitmap_get_cardinality_def ra_abs_def)
  show "unat (roaring_bitmap_get_cardinality r) = card (ra_abs r)" unfolding eq by (rule u64_small [OF count_fits(2)])
qed

text \<open>The table of a bitmap is a container of 32-bit values.\<close>

interpretation bitmap: container ra_inv ra_abs roaring_bitmap_contains roaring_bitmap_add_checked roaring_bitmap_remove_checked
  "\<lambda>r. int (unat (roaring_bitmap_get_cardinality r))"
proof (unfold_locales, goal_cases)
  case (1 r v)
  then show ?case by (rule roaring_bitmap_contains_correct)
next
  case (2 r v)
  then show ?case using roaring_bitmap_add_checked_correct [OF 2 prod.collapse [symmetric], of v] roaring_bitmap_add_correct [OF 2, of v] by simp
next
  case (3 r v)
  then show ?case
    using roaring_bitmap_remove_checked_correct [OF 3 prod.collapse [symmetric], of v] roaring_bitmap_remove_correct [OF 3, of v] by simp
next
  case (4 r)
  then show ?case by (simp only: roaring_bitmap_get_cardinality_correct(2))
qed

lemma roaring_bitmap_is_empty_correct: "ra_inv r \<Longrightarrow> roaring_bitmap_is_empty r \<longleftrightarrow> ra_abs r = {}"
  by (simp add: roaring_bitmap_is_empty_def ra_empty_iff)

section \<open>Ranks\<close>

lemma rank_Cons:
  assumes "entries_ok P ((k, c) # es)"
  shows "card {y \<in> entries_abs ((k, c) # es). y \<le> x} =
     (if k < high16 x then card (container_abs c) + card {y \<in> entries_abs es. y \<le> x}
      else if k = high16 x then card {y \<in> container_abs c. y \<le> low16 x} else 0)"
proof -
  consider "k < high16 x" | "k = high16 x" | "high16 x < k" by (rule linorder_cases)
  then show ?thesis
  proof cases
    case 1
    then show ?thesis using count_Cons [OF assms, of "\<lambda>y. y \<le> x"] by (simp add: join_le_iff del: at_Cons)
  next
    case 2
    then show ?thesis using count_above [OF assms, of "\<lambda>y. y \<le> x"] above_not_le(1) by (simp add: join_le_iff del: at_Cons)
  next
    case 3
    then have "card {y \<in> entries_abs ((k, c) # es). y \<le> x} = card {y \<in> container_abs c. join k y \<le> x}"
      by (intro count_above [OF assms] above_not_le(1)) (rule order.strict_trans)
    then show ?thesis using 3 by (simp add: join_le_iff less_not_sym less_imp_neq [THEN not_sym])
  qed
qed

lemma rank_loop_correct:
  "entries_inv es \<Longrightarrow> rank_loop es x n = n + word_of_nat (card {y \<in> entries_abs es. y \<le> x})"
proof (induction es x n rule: rank_loop.induct)
  case (2 k c es x n)
  then show ?case unfolding rank_Cons [OF 2(2)] by (simp add: container_cardinality_abs container_rank_correct del: at_Cons)
qed simp

lemma roaring_bitmap_rank_correct:
  assumes "ra_inv r"
  shows "unat (roaring_bitmap_rank r x) = card {y \<in> ra_abs r. y \<le> x}"
  using rank_loop_correct [OF ra_ok_entries [OF assms], of x 0] u64_small [OF count_fits(1)]
  by (simp add: roaring_bitmap_rank_def ra_abs_def)

lemma sorted_run_low:
  assumes "sorted qs" and "\<forall>q \<in> set qs. high16 q = k"
  shows "sorted (map (\<lambda>q. low16 q) qs)"
  using assms by (induction qs) (auto simp: halves_le)

lemma rank_many_correct:
  "entries_inv es \<Longrightarrow> sorted qs \<Longrightarrow>
    rank_many_entries es qs n = map (\<lambda>q. n + word_of_nat (card {y \<in> entries_abs es. y \<le> q})) qs"
proof (induction es qs n rule: rank_many_entries.induct)
  case (3 k c es x iter n)
  let ?es = "(k, c) # es"
  note rank = rank_Cons [OF 3(4)]
  have c: "container_inv c" and es: "entries_inv es" using 3(4) by simp_all
  have later: "high16 x \<le> high16 q" if "q \<in> set (x # iter)" for q
    using 3(5) that halves_le [of x q] by auto
  consider (lt) "k < high16 x" | (eq) "k = high16 x" | (gt) "high16 x < k" by (rule linorder_cases)
  then show ?case
  proof cases
    case lt
    have "rank_many_entries ?es (x # iter) n = rank_many_entries es (x # iter) (n + word_of_nat (card (container_abs c)))"
      using lt c by (simp add: rank_many_entries.simps(3) container_cardinality_abs)
    also have "\<dots> = map (\<lambda>q. n + word_of_nat (card (container_abs c)) + word_of_nat (card {y \<in> entries_abs es. y \<le> q})) (x # iter)"
      using 3(1) [OF lt es 3(5)] c by (simp only: container_cardinality_abs of_int_of_nat_eq)
    also have "\<dots> = map (\<lambda>q. n + word_of_nat (card {y \<in> entries_abs ?es. y \<le> q})) (x # iter)"
      by (rule map_cong [OF refl]) (use lt later in \<open>simp add: rank order.strict_trans2 del: at_Cons\<close>)
    finally show ?thesis .
  next
    case eq
    define run where "run = takeWhile (\<lambda>q. drop_bit 16 q = drop_bit 16 (hd (x # iter))) (x # iter)"
    have in_run: "\<forall>q \<in> set run. high16 q = k" using eq by (auto simp: run_def dest: set_takeWhileD)
    have "sorted run" using 3(5) unfolding run_def by (metis sorted_wrt_append takeWhile_dropWhile_id)
    then have low: "sorted (map (\<lambda>q. low16 q) run)" using in_run by (rule sorted_run_low)
    have many: "container_rank_many c n (x # iter) = (length run, map (\<lambda>q. n + word_of_nat (card {y \<in> container_abs c. y \<le> low16 q})) run)"
      by (rule container_rank_many_correct [OF c run_def low])
    have split: "x # iter = run @ drop (length run) (x # iter)"
      unfolding run_def by (metis takeWhile_eq_take append_take_drop_id)
    have rest: "sorted (drop (length run) (x # iter))" using 3(5) by (rule sorted_wrt_drop)
    have answers: "map (\<lambda>q. n + word_of_nat (card {y \<in> container_abs c. y \<le> low16 q})) run
        = map (\<lambda>q. n + word_of_nat (card {y \<in> entries_abs ?es. y \<le> q})) run"
      by (rule map_cong [OF refl]) (use in_run in \<open>simp add: rank del: at_Cons\<close>)
    have "rank_many_entries ?es (x # iter) n =
        map (\<lambda>q. n + word_of_nat (card {y \<in> entries_abs ?es. y \<le> q})) run @ rank_many_entries ?es (drop (length run) (x # iter)) n"
      using eq by (subst rank_many_entries.simps(3)) (simp only: many fst_conv snd_conv answers less_irrefl if_False if_True simp_thms)
    also have "rank_many_entries ?es (drop (length run) (x # iter)) n
        = map (\<lambda>q. n + word_of_nat (card {y \<in> entries_abs ?es. y \<le> q})) (drop (length run) (x # iter))"
      using 3(2) [OF _ eq [symmetric]] 3(4) rest eq by (simp only: many fst_conv less_irrefl not_False_eq_True)
    finally show ?thesis unfolding map_append [symmetric] split [symmetric] .
  next
    case gt
    then have no: "\<not> k < high16 x" "high16 x \<noteq> k" by auto
    have tail: "sorted iter" using 3(5) by simp
    have zero: "card {y \<in> entries_abs ?es. y \<le> x} = 0" using no rank [of x] by (simp del: at_Cons)
    have step: "rank_many_entries ?es (x # iter) n = n # rank_many_entries ?es iter n"
      using no by (simp only: rank_many_entries.simps(3) if_False)
    show ?thesis unfolding step 3(3) [OF no 3(4) tail] by (simp only: list.map zero semiring_1_class.of_nat_0 add_0_right)
  qed
qed simp_all

lemma roaring_bitmap_rank_many_correct:
  assumes "ra_inv r" and "sorted qs"
  shows "roaring_bitmap_rank_many r qs = map (\<lambda>q. word_of_nat (card {y \<in> ra_abs r. y \<le> q})) qs"
  using rank_many_correct [OF ra_ok_entries [OF assms(1)] assms(2), of 0] by (simp add: roaring_bitmap_rank_many_def ra_abs_def)

section \<open>Index\<close>

lemma index_loop_correct:
  assumes "entries_inv es" and "map_of es (high16 x) = Some (ra_get_container_at_index r (nat i))"
  shows "index_loop r i es x n =
    (if x \<in> entries_abs es then n + int (card {y \<in> entries_abs es. y < x}) else - 1)"
  using assms
proof (induction r i es x n rule: index_loop.induct)
  case (2 r i k c es x n)
  have c: "container_inv c" and es: "entries_inv es" and above: "\<forall>k' \<in> fst ` set es. k < k'" using 2(2) by simp_all
  show ?case
  proof (cases "k = high16 x")
    case True
    have x: "x \<in> entries_abs ((k, c) # es) \<longleftrightarrow> low16 x \<in> container_abs c" by (simp add: entries_abs_def True)
    have "card {y \<in> entries_abs ((k, c) # es). y < x} = card {y \<in> container_abs c. y < low16 x}"
      using count_above [OF 2(2), of "\<lambda>y. y < x"] above_not_le(2) True by (simp add: join_less_iff del: at_Cons)
    then show ?thesis using 2(3) True c unfolding x by (auto simp: container_get_index_correct Let_def)
  next
    case False
    then have mem: "high16 x \<in> fst ` set es" using 2(3) by (metis fun_upd_apply map_of.simps(2) map_of_eq_None_iff option.distinct(1) fst_conv)
    then have lt: "k < high16 x" using above by blast
    have map: "map_of es (high16 x) = Some (ra_get_container_at_index r (nat i))" using 2(3) False by simp
    have x: "x \<in> entries_abs ((k, c) # es) \<longleftrightarrow> x \<in> entries_abs es" using False by (simp add: entries_abs_def)
    have "card {y \<in> entries_abs ((k, c) # es). y < x} = card (container_abs c) + card {y \<in> entries_abs es. y < x}"
      using count_Cons [OF 2(2), of "\<lambda>y. y < x"] lt by (simp add: join_less_iff del: at_Cons)
    then show ?thesis using 2(1) [OF lt es map] lt c unfolding x by (simp add: container_cardinality_abs)
  qed
qed simp

lemma roaring_bitmap_get_index_correct:
  assumes "ra_inv r"
  shows "roaring_bitmap_get_index r x = (if x \<in> ra_abs r then int (card {y \<in> ra_abs r. y < x}) else - 1)"
  using assms
proof (cases rule: ra_index_cases [where k = "high16 x"])
  case (found i)
  have "map_of (ra_entries r) (fst (ra_entries r ! i)) = Some (snd (ra_entries r ! i))"
    by (rule map_of_is_SomeI) (simp_all add: ssorted_imp_distinct [OF ra_ok_sorted [OF assms]] found(2))
  then have "index_loop r (int i) (ra_entries r) x 0 =
      (if x \<in> entries_abs (ra_entries r) then 0 + int (card {y \<in> entries_abs (ra_entries r). y < x}) else - 1)"
    by (intro index_loop_correct ra_ok_entries [OF assms]) (simp add: found(3) ra_get_container_at_index_def)
  then show ?thesis using found(1) by (simp add: roaring_bitmap_get_index_def ra_abs_def)
next
  case absent
  then show ?thesis by (simp add: roaring_bitmap_get_index_def mem_ra_abs)
qed

section \<open>Extrema\<close>

lemma edge_value:
  assumes "ra_inv r" and "i < ra_size r"
  shows "container_inv (snd (ra_entries r ! i))" and "container_abs (snd (ra_entries r ! i)) \<noteq> {}"
    and "join (fst (ra_entries r ! i)) y \<in> ra_abs r \<longleftrightarrow> y \<in> container_abs (snd (ra_entries r ! i))"
  using entries_ok_nth [OF ra_ok_entries [OF assms(1)] assms(2)] at_nth [OF ra_ok_sorted [OF assms(1)] assms(2)]
  by (simp_all add: mem_ra_abs)

lemma value_cell:
  assumes "ra_inv r" and "x \<in> ra_abs r"
  obtains i where "i < ra_size r" and "fst (ra_entries r ! i) = high16 x" and "low16 x \<in> container_abs (snd (ra_entries r ! i))"
  using assms(1)
proof (cases rule: ra_index_cases [where k = "high16 x"])
  case (found i)
  then show ?thesis using that assms(2) by (simp add: mem_ra_abs)
next
  case absent
  then show ?thesis using assms(2) by (simp add: mem_ra_abs)
qed

lemma keys_le:
  assumes "ra_inv r" and "i \<le> j" and "j < ra_size r"
  shows "fst (ra_entries r ! i) \<le> fst (ra_entries r ! j)" and "i < j \<Longrightarrow> fst (ra_entries r ! i) < fst (ra_entries r ! j)"
  using ssorted_nth_le [OF ra_ok_sorted [OF assms(1)] assms(2)] ssorted_nth_less [OF ra_ok_sorted [OF assms(1)], of i j] assms(2,3)
  by simp_all

lemma roaring_bitmap_minimum_correct:
  assumes "ra_inv r" and "ra_abs r \<noteq> {}"
  shows "roaring_bitmap_minimum r = Min (ra_abs r)"
proof -
  have 0: "0 < ra_size r" using assms ra_empty_iff [OF assms(1)] by simp
  let ?c = "snd (ra_entries r ! 0)" and ?k = "fst (ra_entries r ! 0)"
  note e = edge_value [OF assms(1) 0]
  have eq: "roaring_bitmap_minimum r = join ?k (Min (container_abs ?c))"
    using 0 container_min_max_correct(1) [OF e(1,2)]
    by (simp add: roaring_bitmap_minimum_def join_def ra_get_container_at_index_def ra_get_key_at_index_def or.commute)
  have "Min (ra_abs r) = join ?k (Min (container_abs ?c))"
  proof (rule Min_eqI)
    fix y assume "y \<in> ra_abs r"
    then obtain i where i: "i < ra_size r" "fst (ra_entries r ! i) = high16 y" "low16 y \<in> container_abs (snd (ra_entries r ! i))"
      by (rule value_cell [OF assms(1)])
    show "join ?k (Min (container_abs ?c)) \<le> y"
      using keys_le(2) [OF assms(1) _ i(1), of 0] i by (cases "i = 0") (simp_all add: join_le_iff)
  qed (simp_all add: e Min_in)
  then show ?thesis using eq by simp
qed

lemma roaring_bitmap_maximum_correct:
  assumes "ra_inv r" and "ra_abs r \<noteq> {}"
  shows "roaring_bitmap_maximum r = Max (ra_abs r)"
proof -
  let ?n = "ra_size r - 1"
  have n: "?n < ra_size r" "ra_entries r \<noteq> []" using assms ra_empty_iff [OF assms(1)] by simp_all
  let ?c = "snd (ra_entries r ! ?n)" and ?k = "fst (ra_entries r ! ?n)"
  note e = edge_value [OF assms(1) n(1)]
  have eq: "roaring_bitmap_maximum r = join ?k (Max (container_abs ?c))"
    using n container_min_max_correct(2) [OF e(1,2)]
    by (simp add: roaring_bitmap_maximum_def join_def ra_get_container_at_index_def ra_get_key_at_index_def or.commute)
  have "Max (ra_abs r) = join ?k (Max (container_abs ?c))"
  proof (rule Max_eqI)
    fix y assume "y \<in> ra_abs r"
    then obtain i where i: "i < ra_size r" "fst (ra_entries r ! i) = high16 y" "low16 y \<in> container_abs (snd (ra_entries r ! i))"
      by (rule value_cell [OF assms(1)])
    show "y \<le> join ?k (Max (container_abs ?c))"
      using keys_le(2) [OF assms(1) _ n(1), of i] i by (cases "i = ?n") (simp_all add: halves_le [of y])
  next
    show "join ?k (Max (container_abs ?c)) \<in> ra_abs r" unfolding e(3) using e(2) by (intro Max_in) simp_all
  qed simp
  then show ?thesis using eq by simp
qed

lemma roaring_bitmap_extrema_empty:
  "ra_inv r \<Longrightarrow> ra_abs r = {} \<Longrightarrow> roaring_bitmap_minimum r = 0xFFFFFFFF \<and> roaring_bitmap_maximum r = 0"
  by (simp add: roaring_bitmap_minimum_def roaring_bitmap_maximum_def ra_empty_iff)

section \<open>Selection\<close>

text \<open>The values of a bitmap in order; \<open>start\<close> values lie before the entries that are left.\<close>

lemma entries_values_length: "entries_ok P es \<Longrightarrow> length (entries_values es) = card (entries_abs es)"
  using ssorted_card [OF entries_values_correct(2)] entries_values_correct(1) by metis

lemma select_loop_correct:
  assumes "entries_inv es" and "s \<le> rank" and "unat s + card (entries_abs es) < 4294967296"
  shows "select_loop es s rank =
    (if unat s + card (entries_abs es) \<le> unat rank then None else Some (entries_values es ! (unat rank - unat s)))"
  using assms
proof (induction es s rank rule: select_loop.induct)
  case (2 k c es s rank)
  have c: "container_inv c" and es: "entries_inv es" using 2(2) by simp_all
  let ?n = "card (container_abs c)"
  have card: "card (entries_abs ((k, c) # es)) = ?n + card (entries_abs es)" by (rule card_Cons [OF 2(2)])
  then have fits: "unat s + ?n < 4294967296" using 2(4) by (simp del: at_Cons)
  note here = container_select_correct [OF c 2(3) fits]
  have len: "length (sorted_list_of_set (container_abs c)) = ?n" by simp
  have s: "unat s \<le> unat rank" using 2(3) by (simp add: word_le_nat_alt)
  show ?case
  proof (cases "unat s + ?n \<le> unat rank")
    case True
    let ?s = "s + word_of_nat ?n"
    have s': "unat ?s = unat s + ?n"
    proof -
      have "?s = word_of_nat (unat s + ?n)" by simp
      then show ?thesis using fits by (simp only: unat_u32_of_nat)
    qed
    then have le: "?s \<le> rank" using True by (simp add: word_le_nat_alt)
    have total: "unat ?s + card (entries_abs es) < 4294967296" using 2(4) card s' by simp
    have "select_loop ((k, c) # es) s rank = select_loop es ?s rank" using here True by simp
    also have "\<dots> = (if unat ?s + card (entries_abs es) \<le> unat rank then None else Some (entries_values es ! (unat rank - unat ?s)))"
      using here True by (intro 2(1) es le total) simp
    finally show ?thesis unfolding card s' using True len by (simp add: nth_append)
  next
    case False
    have "select_loop ((k, c) # es) s rank = Some (join k (sorted_list_of_set (container_abs c) ! (unat rank - unat s)))"
      using here False by (simp add: join_def or.commute)
    moreover have "unat rank - unat s < ?n" using False s by linarith
    ultimately show ?thesis unfolding card using False len by (simp add: nth_append)
  qed
qed (simp add: word_le_nat_alt)

lemma roaring_bitmap_select_correct:
  assumes "ra_inv r" and "card (ra_abs r) < 4294967296"
  shows "roaring_bitmap_select r rank =
    (if card (ra_abs r) \<le> unat rank then None else Some (sorted_list_of_set (ra_abs r) ! unat rank))"
  using select_loop_correct [OF ra_ok_entries [OF assms(1)], of 0 rank] assms(2) entries_values_sorted [OF ra_ok_entries [OF assms(1)]]
  by (simp add: roaring_bitmap_select_def ra_abs_def)

text \<open>With all \<open>2 ^ 32\<close> values the 32-bit rank wraps: a full bitset container at the end gives up.\<close>

lemma select_wraps:
  assumes "bc_cardinality b = 65536"
  shows "container_select (Bitset_c b) 0xFFFF0000 rank = Inl 0"
proof -
  have "(0xFFFF0000 + 65536 :: u32) = 0" by code_simp
  then show ?thesis by (simp only: container_select.simps bitset_container_select_def assms of_int_numeral Let_def word_zero_le if_True)
qed

section \<open>Listing and iterating\<close>

lemma listed: "map (\<lambda>x. push_bit 16 (ucast k) + ucast x) ys = map (join k) ys"
  by (simp only: join_plus)

lemma entries_to_uint32_array_correct: "entries_ok P es \<Longrightarrow> (\<And>c. P c \<Longrightarrow> container_lazy_ok c) \<Longrightarrow>
    entries_to_uint32_array es = entries_values es"
  by (induction es rule: entries_to_uint32_array.induct) (simp_all add: container_to_uint32_array_correct listed del: map_map)

lemma roaring_bitmap_to_uint32_array_correct:
  assumes "ra_inv r"
  shows "roaring_bitmap_to_uint32_array r = sorted_list_of_set (ra_abs r)"
  using entries_to_uint32_array_correct [OF ra_ok_entries [OF assms] container_inv_lazy] entries_values_sorted [OF ra_ok_entries [OF assms]]
  by (simp add: roaring_bitmap_to_uint32_array_def ra_to_uint32_array_def ra_abs_def)

lemma iterate_entries_correct:
  "entries_inv es \<Longrightarrow> iterate_entries es f s = iterate_values f (entries_values es) s"
proof (induction es f s rule: iterate_entries.induct)
  case (2 k c es f s)
  have c: "container_lazy_ok c" and es: "entries_inv es" using 2(2) container_inv_lazy by auto
  show ?case using container_iterate_correct(1) [OF c, of "push_bit 16 (ucast k)" f s, unfolded listed] 2(1) es
    by (auto simp: iterate_values_append split: prod.split)
qed simp

lemma iterate64_entries_correct:
  "entries_inv es \<Longrightarrow> iterate64_entries es f high s = iterate_values f (map (\<lambda>x. high OR ucast x) (entries_values es)) s"
proof (induction es f high s rule: iterate64_entries.induct)
  case (2 k c es f high s)
  have c: "container_lazy_ok c" and es: "entries_inv es" using 2(2) container_inv_lazy by auto
  show ?case using container_iterate_correct(2) [OF c, of "push_bit 16 (ucast k)" f high s, unfolded join_plus] 2(1) es
    by (auto simp: iterate_values_append comp_def split: prod.split)
qed simp

lemma roaring_iterate_correct:
  assumes "ra_inv r"
  shows "roaring_iterate r f s = iterate_values f (sorted_list_of_set (ra_abs r)) s"
    and "roaring_iterate64 r g high s = iterate_values g (map (\<lambda>x. high OR ucast x) (sorted_list_of_set (ra_abs r))) s"
  using iterate_entries_correct [OF ra_ok_entries [OF assms]] iterate64_entries_correct [OF ra_ok_entries [OF assms]]
    entries_values_sorted [OF ra_ok_entries [OF assms]]
  by (simp_all add: roaring_iterate_def roaring_iterate64_def ra_abs_def)

section \<open>Changing the form\<close>

lemma map_containers:
  assumes "ra_inv r" and "\<And>c. container_inv c \<Longrightarrow> container_inv (h c) \<and> container_abs (h c) = container_abs c"
  shows "ra_inv (r\<lparr>ra_entries := map (\<lambda>(k, c). (k, h c)) (ra_entries r)\<rparr>)"
    and "ra_abs (r\<lparr>ra_entries := map (\<lambda>(k, c). (k, h c)) (ra_entries r)\<rparr>) = ra_abs r"
  using map_entries [OF ra_ok_entries [OF assms(1)] assms(2)] assms(1)
  by (simp_all add: ra_ok_def ra_get_size_def) (intro ra_abs_eqI, simp)

lemma roaring_bitmap_run_optimize_correct:
  assumes "ra_inv r"
  shows "ra_inv (fst (roaring_bitmap_run_optimize r))" and "ra_abs (fst (roaring_bitmap_run_optimize r)) = ra_abs r"
    and "snd (roaring_bitmap_run_optimize r) \<longleftrightarrow> ra_has_run_container (fst (roaring_bitmap_run_optimize r))"
  using map_containers [OF assms convert_run_optimize_correct]
  by (simp_all add: roaring_bitmap_run_optimize_def Let_def ra_has_run_container_def list_ex_iff case_prod_unfold)

lemma without_runs_correct:
  "container_inv c \<Longrightarrow> container_inv (without_runs c) \<and> container_abs (without_runs c) = container_abs c"
  using convert_to_bitset_or_array_correct [OF _ refl] by (cases c) auto

lemma without_runs_shape: "\<not> is_run_container (without_runs c)"
  by (cases c) (simp_all add: convert_to_bitset_or_array_container_def Let_def)

lemma roaring_bitmap_remove_run_compression_correct:
  assumes "ra_inv r"
  shows "ra_inv (fst (roaring_bitmap_remove_run_compression r))"
    and "ra_abs (fst (roaring_bitmap_remove_run_compression r)) = ra_abs r"
    and "\<not> ra_has_run_container (fst (roaring_bitmap_remove_run_compression r))"
    and "snd (roaring_bitmap_remove_run_compression r) \<longleftrightarrow> ra_has_run_container r"
  using map_containers [OF assms without_runs_correct] without_runs_shape
  by (simp_all add: roaring_bitmap_remove_run_compression_def ra_has_run_container_def list_ex_iff case_prod_unfold)

lemma container_shrink_correct:
  "container_inv c \<Longrightarrow> container_inv (fst (container_shrink_to_fit c)) \<and> container_abs (fst (container_shrink_to_fit c)) = container_abs c"
proof (cases c)
  case (Array_c a)
  moreover assume "container_inv c"
  moreover have "ac_cardinality (fst (array_container_shrink_to_fit a)) = ac_cardinality a"
    by (simp add: array_container_shrink_to_fit_def Let_def)
  ultimately show ?thesis using array_shrink_correct [of a] by (simp add: case_prod_unfold array_abs_def)
next
  case (Run_c r)
  moreover assume "container_inv c"
  ultimately show ?thesis by (auto simp: run_container_shrink_to_fit_def run_inv_def run_abs_def)
qed simp

lemma roaring_bitmap_shrink_to_fit_correct:
  assumes "ra_inv r"
  shows "ra_inv (fst (roaring_bitmap_shrink_to_fit r))" and "ra_abs (fst (roaring_bitmap_shrink_to_fit r)) = ra_abs r"
    and "ra_allocation_size (fst (roaring_bitmap_shrink_to_fit r)) = ra_get_size r"
  using map_containers [OF assms container_shrink_correct] assms
  by (simp_all add: roaring_bitmap_shrink_to_fit_def ra_shrink_to_fit_def realloc_array_def Let_def ra_ok_def ra_get_size_def ra_abs_def)

section \<open>Validation\<close>

lemma keys_loop_sorted: "keys_loop k ks \<longleftrightarrow> ssorted (k # ks)"
  by (induction k ks rule: keys_loop.induct) (auto simp: linorder_not_le)

lemma validate_containers_correct:
  "\<forall>e \<in> set es. container_cells (snd e) \<Longrightarrow>
    validate_containers shared cow es = None \<longleftrightarrow>
      (\<forall>e \<in> set es. container_inv (snd e) \<and> container_abs (snd e) \<noteq> {}) \<and> (\<forall>e \<in> set es. shared (fst e) \<longrightarrow> cow)"
proof (induction es)
  case (Cons e es)
  obtain k c where e: "e = (k, c)" by (cases e)
  have c: "container_cells c" using Cons.prems by (simp add: e)
  show ?case using Cons container_validate_correct [OF c] by (auto simp: e split: option.split)
qed simp

lemma roaring_bitmap_internal_validate_correct:
  assumes "\<forall>e \<in> set (ra_entries r). container_cells (snd e)"
  shows "roaring_bitmap_internal_validate shared r = None \<longleftrightarrow>
    ra_inv r \<and> (\<forall>k \<in> set (ra_keys r). shared k \<longrightarrow> roaring_bitmap_get_copy_on_write r)"
proof (cases "ra_entries r")
  case Nil
  then show ?thesis by (auto simp: roaring_bitmap_internal_validate_def ra_ok_def flags_ok_def ra_get_size_def)
next
  case (Cons e es)
  then have "keys_loop (hd (ra_keys r)) (tl (ra_keys r)) \<longleftrightarrow> ssorted (ra_keys r)" by (simp only: keys_loop_sorted list.map list.sel)
  then show ?thesis using validate_containers_correct [OF assms, of shared "roaring_bitmap_get_copy_on_write r"] Cons
    by (auto simp: roaring_bitmap_internal_validate_def ra_ok_def entries_ok_def flags_ok_def ra_get_size_def simp del: validate_containers.simps)
qed

end
