(* ===== verification/Roaring_Range_Queries.thy ===== *)
theory Roaring_Range_Queries
  imports Roaring_Queries_Correct
begin

text \<open>
  Questions about a range of values: how many of them a bitmap has, and whether it has all of them.
\<close>

section \<open>Counting the values of a range\<close>

lemma range_loop_rank: "range_cardinality_loop es (high16 x) x n = rank_loop es x n"
  by (induction es arbitrary: n) (auto simp: less_imp_neq)

lemma entries_from_key:
  assumes "entries_ok P es"
  shows "entries_abs (drop (lower_bound (map fst es) k) es) = {x \<in> entries_abs es. k \<le> high16 x}"
  unfolding drop_lower_bound by (rule dropWhile_abs [OF assms])

lemma low_below: "low16 s \<noteq> 0 \<Longrightarrow> z \<le> low16 s - 1 \<longleftrightarrow> z < low16 s" for z :: u16
  using unat_minus_one [of "low16 s"] by (auto simp: word_le_nat_alt word_less_nat_alt unat_gt_0 [symmetric])

lemma range_cell_count:
  fixes s e :: u32
  assumes c: "container_inv c" and k: "k = high16 s" and le: "s \<le> e"
  defines "n \<equiv> (if high16 s = high16 e then of_int (container_rank c (low16 e)) else of_int (container_get_cardinality c)) :: u64"
  shows "(if low16 s \<noteq> 0 then n - of_int (container_rank c (low16 s - 1)) else n)
    = word_of_nat (card {z \<in> container_abs c. s \<le> join k z \<and> join k z \<le> e})"
proof -
  let ?upto = "{z \<in> container_abs c. join k z \<le> e}" and ?below = "{z \<in> container_abs c. z < low16 s}"
  have n: "n = word_of_nat (card ?upto)"
    using le unfolding n_def k by (auto simp: container_rank_correct container_cardinality_abs c join_le_iff halves_le [of s e])
  have sub: "?below \<subseteq> ?upto" using le by (auto simp: k join_le_iff halves_le [of s e])
  have diff: "{z \<in> container_abs c. s \<le> join k z \<and> join k z \<le> e} = ?upto - ?below"
    by (auto simp: k halves_le [of s])
  have "card ?below \<le> card ?upto" using sub by (intro card_mono) simp_all
  then have "word_of_nat (card (?upto - ?below)) = (word_of_nat (card ?upto) - word_of_nat (card ?below) :: u64)"
    using sub by (simp add: card_Diff_subset of_nat_diff)
  moreover have "of_int (container_rank c (low16 s - 1)) = (word_of_nat (card ?below) :: u64)" if "low16 s \<noteq> 0"
    using that by (simp add: container_rank_correct c low_below)
  moreover have "?below = {}" if "low16 s = 0" using that by simp
  ultimately show ?thesis unfolding n diff by auto
qed

lemma roaring_bitmap_range_cardinality_closed_correct:
  assumes "ra_inv r"
  shows "unat (roaring_bitmap_range_cardinality_closed r s e) = card {x \<in> ra_abs r. s \<le> x \<and> x \<le> e}"
proof (cases "s \<le> e")
  case True
  let ?es = "ra_entries r" and ?k = "high16 s"
  let ?rest = "drop (lower_bound (ra_keys r) ?k) ?es"
  have ok: "entries_inv ?rest" by (rule entries_ok_drop [OF ra_ok_entries [OF assms]])
  have rest: "entries_abs ?rest = {x \<in> ra_abs r. ?k \<le> high16 x}" unfolding ra_abs_def by (rule entries_from_key [OF ra_ok_entries [OF assms]])
  have "?k \<le> high16 x" if "s \<le> x" for x using that unfolding halves_le [of s] by (auto intro: less_imp_le)
  then have all: "{x \<in> ra_abs r. s \<le> x \<and> x \<le> e} = {x \<in> entries_abs ?rest. s \<le> x \<and> x \<le> e}" unfolding rest by blast
  have no: "\<not> s > e" using True by simp
  have "roaring_bitmap_range_cardinality_closed r s e = word_of_nat (card {x \<in> ra_abs r. s \<le> x \<and> x \<le> e})"
    using assms
  proof (cases rule: ra_index_cases [where k = ?k])
    case (found i)
    let ?c = "snd (?es ! i)"
    have cut: "?rest = (?k, ?c) # drop (i + 1) ?es"
      using found(2,3,8) Cons_nth_drop_Suc [of i ?es] by (metis Suc_eq_plus1 prod.collapse)
    note ok' = ok [unfolded cut]
    have later: "{x \<in> entries_abs (drop (i + 1) ?es). s \<le> x \<and> x \<le> e} = {x \<in> entries_abs (drop (i + 1) ?es). x \<le> e}"
    proof -
      have "s \<le> x" if "x \<in> entries_abs (drop (i + 1) ?es)" for x
        using entries_abs_Cons(3) [OF ok' that] by (simp only: halves_le [of s] simp_thms)
      then show ?thesis by blast
    qed
    have ok'': "entries_inv (drop (i + 1) ?es)" using ok' by simp
    have "card {x \<in> ra_abs r. s \<le> x \<and> x \<le> e} = card {z \<in> container_abs ?c. s \<le> join ?k z \<and> join ?k z \<le> e}
        + card {x \<in> entries_abs (drop (i + 1) ?es). x \<le> e}"
      unfolding all cut count_Cons [OF ok'] later ..
    moreover have "roaring_bitmap_range_cardinality_closed r s e
        = word_of_nat (card {z \<in> container_abs ?c. s \<le> join ?k z \<and> join ?k z \<le> e})
          + word_of_nat (card {x \<in> entries_abs (drop (i + 1) ?es). x \<le> e})"
      using found(1) no range_cell_count [OF found(6) refl True]
      by (simp add: roaring_bitmap_range_cardinality_closed_def Let_def range_loop_rank rank_loop_correct [OF ok'' [unfolded Suc_eq_plus1 [symmetric]]]
          ra_get_container_at_index_def del: of_int_of_nat_eq)
    ultimately show ?thesis by simp
  next
    case absent
    have "?k \<noteq> high16 x" if "x \<in> ra_abs r" for x using that absent(3) entries_abs_key [of x ?es] unfolding ra_abs_def by metis
    then have "?k < high16 x" if "x \<in> ra_abs r" "?k \<le> high16 x" for x using that by (metis order.order_iff_strict)
    then have "s \<le> x" if "x \<in> ra_abs r" "?k \<le> high16 x" for x using that by (simp only: halves_le [of s x] simp_thms)
    then have above: "{x \<in> entries_abs ?rest. s \<le> x \<and> x \<le> e} = {x \<in> entries_abs ?rest. x \<le> e}" unfolding rest by blast
    show ?thesis using absent(1,2) no unfolding all above
      by (simp add: roaring_bitmap_range_cardinality_closed_def Let_def range_loop_rank rank_loop_correct [OF ok])
  qed
  then show ?thesis by (simp only: u64_small [OF count_fits(1)])
next
  case False
  then have "{x \<in> ra_abs r. s \<le> x \<and> x \<le> e} = {}" "s > e" by auto
  then show ?thesis by (simp only: roaring_bitmap_range_cardinality_closed_def if_True card.empty unsigned_0)
qed

text \<open>A half-open range within \<open>2 ^ 32\<close>.\<close>

lemma u32_bounds:
  fixes lo hi :: u64
  assumes "unat lo < unat hi" and "unat hi \<le> 4294967296"
  shows "unat (ucast lo :: u32) = unat lo" and "unat (ucast (hi - 1) :: u32) = unat hi - 1"
proof -
  have "unat (hi - 1) = unat hi - 1" using assms(1) by (intro unat_minus_one) auto
  then show "unat (ucast lo :: u32) = unat lo" "unat (ucast (hi - 1) :: u32) = unat hi - 1"
    using assms by (simp_all add: unsigned_ucast_eq take_bit_eq_mod)
qed

lemma roaring_bitmap_range_cardinality_correct:
  assumes "ra_inv r" and "unat hi \<le> 4294967296"
  shows "unat (roaring_bitmap_range_cardinality r lo hi) = card {x \<in> ra_abs r. unat lo \<le> unat x \<and> unat x < unat hi}"
proof (cases "unat lo < unat hi")
  case True
  note b = u32_bounds [OF True assms(2)]
  have "\<not> lo \<ge> hi" using True by (simp add: word_le_nat_alt)
  moreover have "\<not> lo > 0xFFFFFFFF + 1" using True assms(2) by (simp add: word_less_nat_alt)
  ultimately have "roaring_bitmap_range_cardinality r lo hi = roaring_bitmap_range_cardinality_closed r (ucast lo) (ucast (hi - 1))"
    by (simp only: roaring_bitmap_range_cardinality_def simp_thms if_False)
  then have "unat (roaring_bitmap_range_cardinality r lo hi) = card {x \<in> ra_abs r. ucast lo \<le> x \<and> x \<le> ucast (hi - 1)}"
    using roaring_bitmap_range_cardinality_closed_correct [OF assms(1)] by simp
  moreover have "ucast lo \<le> x \<and> x \<le> ucast (hi - 1) \<longleftrightarrow> unat lo \<le> unat x \<and> unat x < unat hi" for x :: u32
    unfolding word_le_nat_alt b using True by auto
  ultimately show ?thesis by simp
next
  case False
  then have "{x \<in> ra_abs r. unat lo \<le> unat x \<and> unat x < unat hi} = {}" by auto
  then show ?thesis using False by (simp add: roaring_bitmap_range_cardinality_def word_le_nat_alt)
qed

text \<open>An end beyond \<open>2 ^ 32\<close> is cut to 32 bits, not clamped: nearly every value is missed.\<close>

lemma range_cardinality_wraps:
  "roaring_bitmap_range_cardinality r 0 0x100000001 = roaring_bitmap_range_cardinality_closed r 0 0"
proof -
  have "ucast (0x100000001 - 1 :: u64) = (0 :: u32)" "\<not> (0 :: u64) \<ge> 0x100000001" "\<not> (0 :: u64) > 0xFFFFFFFF + 1" by code_simp+
  then show ?thesis by (simp only: roaring_bitmap_range_cardinality_def simp_thms if_False ucast_0)
qed

section \<open>Containing a range\<close>

lemma all_join: "(\<forall>x. P x) \<longleftrightarrow> (\<forall>k y. P (join k y))"
  by (metis join_halves)

lemma range_in_halves:
  assumes "s \<le> e"
  shows "{s .. e} \<subseteq> ra_abs r \<longleftrightarrow>
    (if high16 s = high16 e then {low16 s .. low16 e} \<subseteq> at (ra_entries r) (high16 s)
     else {low16 s ..} \<subseteq> at (ra_entries r) (high16 s) \<and> {.. low16 e} \<subseteq> at (ra_entries r) (high16 e)
       \<and> (\<forall>k. high16 s < k \<and> k < high16 e \<longrightarrow> at (ra_entries r) k = UNIV))"
proof -
  have all: "{s .. e} \<subseteq> ra_abs r \<longleftrightarrow> (\<forall>k y. s \<le> join k y \<and> join k y \<le> e \<longrightarrow> y \<in> at (ra_entries r) k)"
  proof -
    have "{s .. e} \<subseteq> ra_abs r \<longleftrightarrow> (\<forall>x. s \<le> x \<and> x \<le> e \<longrightarrow> x \<in> ra_abs r)" by (simp only: subset_eq Ball_def atLeastAtMost_iff)
    also have "\<dots> \<longleftrightarrow> (\<forall>k y. s \<le> join k y \<and> join k y \<le> e \<longrightarrow> join k y \<in> ra_abs r)" by (rule all_join)
    finally show ?thesis by (simp only: mem_ra_abs high16_join low16_join)
  qed
  have le: "s \<le> join k y \<longleftrightarrow> high16 s < k \<or> high16 s = k \<and> low16 s \<le> y" for k y
    using halves_le [of s "join k y"] by simp
  show ?thesis
  proof (cases "high16 s = high16 e")
    case True
    then have cells: "s \<le> join k y \<and> join k y \<le> e \<longleftrightarrow> k = high16 s \<and> low16 s \<le> y \<and> y \<le> low16 e" for k y
      unfolding le join_le_iff by auto
    show ?thesis by (simp only: all [unfolded cells] if_P [OF True]) (simp add: subset_eq Ball_def)
  next
    case False
    then have lt: "high16 s < high16 e" using assms halves_le [of s e] by auto
    then have cells: "s \<le> join k y \<and> join k y \<le> e \<longleftrightarrow>
        k = high16 s \<and> low16 s \<le> y \<or> k = high16 e \<and> y \<le> low16 e \<or> high16 s < k \<and> k < high16 e" for k y
      unfolding le join_le_iff by auto
    show ?thesis by (simp only: all [unfolded cells] if_not_P [OF False]) (auto simp: subset_eq Ball_def set_eq_iff)
  qed
qed

text \<open>The keys of the range are all there when the two ends are as far apart as their keys.\<close>

lemma card_keys: "a \<le> b \<Longrightarrow> card {a ..< b} = unat b - unat a" for a b :: u16
proof -
  assume "a \<le> b"
  have "unat ` {a ..< b} = {unat a ..< unat b}"
  proof (intro equalityI subsetI)
    fix n assume "n \<in> {unat a ..< unat b}"
    then have "unat (word_of_nat n :: u16) = n" using unat_u16_less [of b] by (intro unat_u16_of_nat) (auto simp del: unat_u16_less)
    then show "n \<in> unat ` {a ..< b}" using \<open>n \<in> _\<close>
      by (intro image_eqI [of _ _ "word_of_nat n"]) (simp_all add: word_le_nat_alt word_less_nat_alt)
  qed (auto simp: word_le_nat_alt word_less_nat_alt)
  moreover have "card (unat ` {a ..< b}) = card {a ..< b}" by (rule card_image) (simp add: inj_on_def word_unat_eq_iff)
  ultimately show ?thesis by simp
qed

lemma span_keys:
  fixes a b :: u16
  assumes "ssorted ks" and "a \<le> b"
  shows "lower_bound ks b - lower_bound ks a = unat b - unat a \<longleftrightarrow> {a ..< b} \<subseteq> set ks"
proof -
  have split: "{x \<in> set ks. x < b} = {x \<in> set ks. x < a} \<union> {x \<in> set ks. a \<le> x \<and> x < b}" using assms(2) by auto
  have "lower_bound ks b = lower_bound ks a + card {x \<in> set ks. a \<le> x \<and> x < b}"
    unfolding lower_bound_card [OF assms(1)] split by (rule card_Un_disjoint) auto
  then have diff: "lower_bound ks b - lower_bound ks a = card ({a ..< b} \<inter> set ks)"
    by (simp add: Int_def conj_commute)
  show ?thesis
  proof
    assume "lower_bound ks b - lower_bound ks a = unat b - unat a"
    then have "card ({a ..< b} \<inter> set ks) = card {a ..< b}" using diff card_keys [OF assms(2)] by simp
    then have "{a ..< b} \<inter> set ks = {a ..< b}" by (intro card_subset_eq) simp_all
    then show "{a ..< b} \<subseteq> set ks" by blast
  next
    assume "{a ..< b} \<subseteq> set ks"
    then have "{a ..< b} \<inter> set ks = {a ..< b}" by blast
    then show "lower_bound ks b - lower_bound ks a = unat b - unat a" using diff card_keys [OF assms(2)] by simp
  qed
qed

lemma key_present: "ra_inv r \<Longrightarrow> k \<in> set (ra_keys r) \<longleftrightarrow> 0 \<le> ra_get_index r k"
  by (erule ra_index_cases [where k = k]) auto

lemma keys_between:
  assumes "ra_inv r" and "a \<in> set (ra_keys r)" and "b \<in> set (ra_keys r)" and "a \<le> b"
  shows "ra_get_index r b - ra_get_index r a = uint b - uint a \<longleftrightarrow> {a .. b} \<subseteq> set (ra_keys r)"
proof -
  have sorted: "ssorted (ra_keys r)" by (rule ra_ok_sorted [OF assms(1)])
  have index: "ra_get_index r k = int (lower_bound (ra_keys r) k)" if "k \<in> set (ra_keys r)" for k
    unfolding ra_get_index_correct [OF sorted] by (rule search_result_found [OF sorted that])
  have "lower_bound (ra_keys r) a \<le> lower_bound (ra_keys r) b" by (rule lower_bound_mono [OF sorted assms(4)])
  moreover have "unat a \<le> unat b" using assms(4) by (simp add: word_le_nat_alt)
  ultimately have "ra_get_index r b - ra_get_index r a = uint b - uint a \<longleftrightarrow>
      lower_bound (ra_keys r) b - lower_bound (ra_keys r) a = unat b - unat a"
    unfolding index [OF assms(2)] index [OF assms(3)] uint_nat by linarith
  also have "\<dots> \<longleftrightarrow> {a ..< b} \<subseteq> set (ra_keys r)" by (rule span_keys [OF sorted assms(4)])
  also have "\<dots> \<longleftrightarrow> {a .. b} \<subseteq> set (ra_keys r)" using assms(3) ivl_disj_un_singleton(6) [OF assms(4)] by blast
  finally show ?thesis .
qed

text \<open>The containers strictly between two cells are those of the keys strictly between the two keys.\<close>

lemma full_between:
  assumes "ra_inv r" and "{a .. b} \<subseteq> set (ra_keys r)" and "a < b"
  shows "list_all (\<lambda>i. container_is_full (ra_get_container_at_index r i)) [lower_bound (ra_keys r) a + 1 ..< lower_bound (ra_keys r) b]
     \<longleftrightarrow> (\<forall>k. a < k \<and> k < b \<longrightarrow> at (ra_entries r) k = UNIV)"
proof -
  have sorted: "ssorted (ra_keys r)" by (rule ra_ok_sorted [OF assms(1)])
  let ?lb = "lower_bound (ra_keys r)"
  have key: "?lb k < ra_size r" "fst (ra_entries r ! ?lb k) = k" if "k \<in> set (ra_keys r)" for k
    using that ssorted_mem_iff [OF sorted, of k] by auto
  have ab: "a \<in> set (ra_keys r)" "b \<in> set (ra_keys r)" using assms(2,3) by auto
  have full: "container_is_full (ra_get_container_at_index r i) \<longleftrightarrow> at (ra_entries r) (fst (ra_entries r ! i)) = UNIV"
    if "i < ra_size r" for i
    using edge_value(1) [OF assms(1) that] at_nth [OF sorted that] container_is_full_correct by (simp add: ra_get_container_at_index_def)
  show ?thesis
  proof (intro iffI allI impI)
    fix k
    assume all: "list_all (\<lambda>i. container_is_full (ra_get_container_at_index r i)) [?lb a + 1 ..< ?lb b]" and k: "a < k \<and> k < b"
    then have "k \<in> {a .. b}" by (simp add: less_imp_le)
    then have "k \<in> set (ra_keys r)" by (rule subsetD [OF assms(2)])
    note i = key [OF this]
    have "?lb a < ?lb k" using key(1) [OF ab(1)] key(2) [OF ab(1)] ssorted_nth_less_iff [OF sorted, of "?lb a" k] k by simp
    moreover have "?lb k < ?lb b" using i ssorted_nth_less_iff [OF sorted, of "?lb k" b] k by simp
    ultimately show "at (ra_entries r) k = UNIV" using all full [OF i(1)] i(2) by (simp add: list_all_iff)
  next
    assume between: "\<forall>k. a < k \<and> k < b \<longrightarrow> at (ra_entries r) k = UNIV"
    have "container_is_full (ra_get_container_at_index r i)" if "?lb a + 1 \<le> i" "i < ?lb b" for i
    proof -
      have i: "i < ra_size r" using that(2) key(1) [OF ab(2)] by simp
      have "fst (ra_entries r ! i) < b" using ssorted_nth_less_iff [OF sorted, of i b] that(2) i by simp
      moreover have "a < fst (ra_entries r ! i)" using keys_le(2) [OF assms(1) _ i, of "?lb a"] that(1) key(2) [OF ab(1)] by simp
      ultimately show ?thesis using between full [OF i] by blast
    qed
    then show "list_all (\<lambda>i. container_is_full (ra_get_container_at_index r i)) [?lb a + 1 ..< ?lb b]" by (simp add: list_all_iff)
  qed
qed

lemma low_range: "unat (s AND 0xFFFF :: u32) = unat (low16 s)" "unat ((s AND 0xFFFF) + 1 :: u32) = unat (low16 s) + 1"
proof -
  have "s AND 0xFFFF = take_bit 16 s" by (simp add: take_bit_eq_mask mask_eq_exp_minus_1)
  then have "s AND 0xFFFF = ucast (low16 s)" by (intro bit_word_eqI) (auto simp: bit_simps dest: bit_imp_le_length)
  then show low: "unat (s AND 0xFFFF :: u32) = unat (low16 s)" by simp
  have one: "(s AND 0xFFFF) + 1 = word_of_nat (unat (low16 s) + 1)" unfolding low [symmetric] by simp
  show "unat ((s AND 0xFFFF) + 1 :: u32) = unat (low16 s) + 1"
    unfolding one by (rule unat_u32_of_nat) (use unat_u16_less [of "low16 s"] in linarith)
qed

lemma u16_ranges:
  "u16_range (unat a) (Suc (unat b)) = {a .. b}" "u16_range (unat a) 65536 = {a ..}" "u16_range 0 (Suc (unat b)) = {.. b}"
  by (auto simp: u16_range_def word_le_nat_alt less_Suc_eq_le)

lemma roaring_bitmap_contains_range_closed_correct:
  assumes "ra_inv r"
  shows "roaring_bitmap_contains_range_closed r s e \<longleftrightarrow> {s .. e} \<subseteq> ra_abs r"
proof -
  consider "s > e" | "s = e" | "s < e" by (rule linorder_cases)
  then show ?thesis
  proof cases
    case 3
    let ?hs = "high16 s" and ?he = "high16 e" and ?es = "ra_entries r"
    have hh: "?hs \<le> ?he" using 3 unfolding halves_less [of s] by auto
    have sorted: "ssorted (ra_keys r)" by (rule ra_ok_sorted [OF assms])
    have keys: "k \<in> set (ra_keys r)" if "y \<in> at ?es k" for k y using that at_absent [of k ?es] by auto
    define shape where "shape \<longleftrightarrow> {?hs .. ?he} \<subseteq> set (ra_keys r)"
    have need: "{s .. e} \<subseteq> ra_abs r \<Longrightarrow> shape"
    proof -
      assume sub: "{s .. e} \<subseteq> ra_abs r"
      have "k \<in> set (ra_keys r)" if "?hs \<le> k" "k \<le> ?he" for k
      proof -
        have "\<exists>x. s \<le> x \<and> x \<le> e \<and> high16 x = k"
        proof (cases "k = ?hs")
          case True
          then show ?thesis using 3 by (intro exI [of _ s]) simp
        next
          case False
          then show ?thesis using that 
            by (intro exI [of _ "if k = ?he then e else join k 0"]) (auto simp: join_le_iff halves_le [of s] halves_le [of e e])
        qed
        then obtain x where "x \<in> ra_abs r" "high16 x = k" using sub by auto
        then show ?thesis using entries_abs_key [of x ?es] by (simp add: ra_abs_def)
      qed
      then show shape unfolding shape_def subset_eq Ball_def atLeastAtMost_iff by blast
    qed
    have small: "int (ra_size r) < uint ?he - uint ?hs + 1 \<Longrightarrow> \<not> shape"
    proof
      assume few: "int (ra_size r) < uint ?he - uint ?hs + 1" and shape
      have "k \<in> set (ra_keys r) - {?he}" if "k \<in> {?hs ..< ?he}" for k
      proof -
        have "k \<in> {?hs .. ?he}" "k \<noteq> ?he" using that by auto
        then show ?thesis using subsetD [OF \<open>shape\<close> [unfolded shape_def]] by blast
      qed
      then have "card {?hs ..< ?he} \<le> card (set (ra_keys r) - {?he})" by (intro card_mono subsetI) simp_all
      moreover have "card (set (ra_keys r) - {?he}) < card (set (ra_keys r))" using \<open>shape\<close> hh by (intro card_Diff1_less) (auto simp: shape_def)
      moreover have "card (set (ra_keys r)) = ra_size r" using ssorted_card [OF sorted] by simp
      moreover have "unat ?hs \<le> unat ?he" using hh by (simp add: word_le_nat_alt)
      ultimately show False using few card_keys [OF hh] unfolding uint_nat by linarith
    qed
    have index: "ra_get_index r ?he < 0 \<or> ra_get_index r ?hs < 0 \<or> ra_get_index r ?he - ra_get_index r ?hs \<noteq> uint ?he - uint ?hs
        \<or> ra_get_index r ?he \<ge> ra_get_size r \<longleftrightarrow> \<not> shape"
    proof (cases "?hs \<in> set (ra_keys r) \<and> ?he \<in> set (ra_keys r)")
      case True
      then have ix: "ra_get_index r ?he = int (lower_bound (ra_keys r) ?he)" "lower_bound (ra_keys r) ?he < ra_size r"
        using ra_get_index_correct [OF sorted] search_result_found [OF sorted] ssorted_mem_iff [OF sorted, of ?he] by simp_all
      show ?thesis using keys_between [OF assms _ _ hh] True key_present [OF assms] ix
        by (simp add: shape_def ra_get_size_def linorder_not_le [symmetric] del: set_map)
    next
      case False
      then have "\<not> shape" using hh by (auto simp: shape_def)
      then show ?thesis using False key_present [OF assms, of ?he] key_present [OF assms, of ?hs] by (auto simp: linorder_not_le)
    qed
    note contains = container_contains_range_correct
    show ?thesis
    proof (cases shape)
      case False
      then have "\<not> roaring_bitmap_contains_range_closed r s e"
        using 3 index by (auto simp: roaring_bitmap_contains_range_closed_def Let_def)
      then show ?thesis using need False by blast
    next
      case True
      then have present: "?hs \<in> set (ra_keys r)" "?he \<in> set (ra_keys r)" using hh by (auto simp: shape_def)
      obtain i where i: "ra_get_index r ?hs = int i" "i < ra_size r" "container_inv (snd (?es ! i))"
          "at ?es ?hs = container_abs (snd (?es ! i))" "i = lower_bound (ra_keys r) ?hs"
        using assms present(1) by (cases rule: ra_index_cases [where k = ?hs]) auto
      obtain j where j: "ra_get_index r ?he = int j" "j < ra_size r" "container_inv (snd (?es ! j))"
          "at ?es ?he = container_abs (snd (?es ! j))" "j = lower_bound (ra_keys r) ?he"
        using assms present(2) by (cases rule: ra_index_cases [where k = ?he]) auto
      have not_small: "\<not> ra_get_size r < uint ?he - uint ?hs + 1" using small True by (auto simp: ra_get_size_def)
      have eval: "roaring_bitmap_contains_range_closed r s e \<longleftrightarrow>
          (if ?hs = ?he then container_contains_range (snd (?es ! i)) (s AND 0xFFFF) ((e AND 0xFFFF) + 1)
           else container_contains_range (snd (?es ! i)) (s AND 0xFFFF) (push_bit 16 1)
             \<and> container_contains_range (snd (?es ! j)) 0 ((e AND 0xFFFF) + 1)
             \<and> list_all (\<lambda>i. container_is_full (ra_get_container_at_index r i)) [i + 1 ..< j])"
        using 3 not_small index True i(1) j(1)
        by (auto simp: roaring_bitmap_contains_range_closed_def Let_def ra_get_container_at_index_def nat_add_distrib)
      have first: "container_contains_range (snd (?es ! i)) (s AND 0xFFFF) (push_bit 16 1) \<longleftrightarrow> {low16 s ..} \<subseteq> at ?es ?hs"
        using contains [OF i(3), of "s AND 0xFFFF" "push_bit 16 1"] unat_u16_less [of "low16 s"]
        by (simp add: low_range push_bit_of_1 i(4) u16_ranges)
      have last: "container_contains_range (snd (?es ! j)) 0 ((e AND 0xFFFF) + 1) \<longleftrightarrow> {.. low16 e} \<subseteq> at ?es ?he"
        using contains [OF j(3), of 0 "(e AND 0xFFFF) + 1"] unat_u16_less [of "low16 e"]
        by (simp add: low_range j(4) u16_ranges)
      have only: "container_contains_range (snd (?es ! i)) (s AND 0xFFFF) ((e AND 0xFFFF) + 1) \<longleftrightarrow> {low16 s .. low16 e} \<subseteq> at ?es ?hs"
        if "?hs = ?he"
      proof -
        have "low16 s \<le> low16 e" using 3 that halves_less [of s e] by simp
        then show ?thesis
          using contains [OF i(3), of "s AND 0xFFFF" "(e AND 0xFFFF) + 1"] unat_u16_less [of "low16 e"]
          by (simp add: low_range i(4) u16_ranges word_le_nat_alt)
      qed
      have middle: "list_all (\<lambda>i. container_is_full (ra_get_container_at_index r i)) [i + 1 ..< j]
          \<longleftrightarrow> (\<forall>k. ?hs < k \<and> k < ?he \<longrightarrow> at ?es k = UNIV)" if "?hs \<noteq> ?he"
        unfolding i(5) j(5) using hh that by (intro full_between [OF assms True [unfolded shape_def]]) simp
      show ?thesis
        unfolding eval range_in_halves [OF less_imp_le [OF 3]] first last
        by (cases "?hs = ?he") (simp_all only: if_True if_False only middle simp_thms not_False_eq_True)
    qed
  qed (auto simp: roaring_bitmap_contains_range_closed_def roaring_bitmap_contains_correct [OF assms])
qed

lemma roaring_bitmap_contains_range_correct:
  assumes "ra_inv r" and "unat hi \<le> 4294967296"
  shows "roaring_bitmap_contains_range r lo hi \<longleftrightarrow> {x. unat lo \<le> unat x \<and> unat x < unat hi} \<subseteq> ra_abs r"
proof (cases "unat lo < unat hi")
  case True
  note b = u32_bounds [OF True assms(2)]
  have "\<not> lo \<ge> hi" using True by (simp add: word_le_nat_alt)
  moreover have "\<not> lo > 0xFFFFFFFF + 1" using True assms(2) by (simp add: word_less_nat_alt)
  ultimately have "roaring_bitmap_contains_range r lo hi \<longleftrightarrow> {ucast lo .. ucast (hi - 1)} \<subseteq> ra_abs r"
    by (simp only: roaring_bitmap_contains_range_def simp_thms if_False roaring_bitmap_contains_range_closed_correct [OF assms(1)])
  moreover have "{ucast lo .. ucast (hi - 1)} = {x :: u32. unat lo \<le> unat x \<and> unat x < unat hi}"
    unfolding set_eq_iff atLeastAtMost_iff mem_Collect_eq word_le_nat_alt b using True by auto
  ultimately show ?thesis by simp
next
  case False
  then show ?thesis by (simp add: roaring_bitmap_contains_range_def word_le_nat_alt) auto
qed

end
