(* ===== verification/Roaring_Compare.thy ===== *)
theory Roaring_Compare
  imports Roaring_Range_Queries
begin

text \<open>
  The questions \<open>src/roaring.c\<close> asks of two bitmaps: equality, inclusion, whether they meet, and the
  cardinalities of their combinations, which are all computed from that of the intersection.
\<close>

section \<open>The loops\<close>

definition roaring_bitmap_equals :: "roaring_bitmap \<Rightarrow> roaring_bitmap \<Rightarrow> bool" where
  "roaring_bitmap_equals r1 r2 =
     (if ra_size r1 \<noteq> ra_size r2 then False
      else if \<not> list_all (\<lambda>i. ra_keys r1 ! i = ra_keys r2 ! i) [0 ..< ra_size r1] then False
      else list_all (\<lambda>i. container_equals (ra_get_container_at_index r1 i) (ra_get_container_at_index r2 i)) [0 ..< ra_size r1])"

function is_subset_loop :: "roaring_bitmap \<Rightarrow> roaring_bitmap \<Rightarrow> nat \<Rightarrow> nat \<Rightarrow> bool" where
  "is_subset_loop r1 r2 pos1 pos2 =
     (if pos1 < ra_size r1 \<and> pos2 < ra_size r2
      then let s1 = ra_get_key_at_index r1 pos1; s2 = ra_get_key_at_index r2 pos2
           in if s1 = s2
              then if \<not> container_is_subset (ra_get_container_at_index r1 pos1) (ra_get_container_at_index r2 pos2) then False
                   else is_subset_loop r1 r2 (pos1 + 1) (pos2 + 1)
              else if s1 < s2 then False
              else is_subset_loop r1 r2 pos1 (ra_advance_until r2 s1 (int pos2))
      else pos1 = ra_size r1)"
  by auto
termination
  by (relation "measures [\<lambda>(r1, r2, pos1, pos2). ra_size r1 - pos1, \<lambda>(r1, r2, pos1, pos2). ra_size r2 - pos2]")
     (auto simp: advance_less)

declare is_subset_loop.simps [simp del]

definition roaring_bitmap_is_subset :: "roaring_bitmap \<Rightarrow> roaring_bitmap \<Rightarrow> bool" where
  "roaring_bitmap_is_subset r1 r2 = is_subset_loop r1 r2 0 0"

definition roaring_bitmap_is_strict_subset :: "roaring_bitmap \<Rightarrow> roaring_bitmap \<Rightarrow> bool" where
  "roaring_bitmap_is_strict_subset r1 r2 \<longleftrightarrow>
     roaring_bitmap_get_cardinality r2 > roaring_bitmap_get_cardinality r1 \<and> roaring_bitmap_is_subset r1 r2"

text \<open>\<open>answer\<close> stays \<open>0\<close> in \<open>roaring_bitmap_intersect\<close>, so the end of the loop is \<open>False\<close>.\<close>

function intersect_loop :: "roaring_bitmap \<Rightarrow> roaring_bitmap \<Rightarrow> nat \<Rightarrow> nat \<Rightarrow> bool" where
  "intersect_loop x1 x2 pos1 pos2 =
     (if pos1 < ra_size x1 \<and> pos2 < ra_size x2
      then let s1 = ra_get_key_at_index x1 pos1; s2 = ra_get_key_at_index x2 pos2
           in if s1 = s2
              then if container_intersect (ra_get_container_at_index x1 pos1) (ra_get_container_at_index x2 pos2) then True
                   else intersect_loop x1 x2 (pos1 + 1) (pos2 + 1)
              else if s1 < s2 then intersect_loop x1 x2 (ra_advance_until x1 s2 (int pos1)) pos2
              else intersect_loop x1 x2 pos1 (ra_advance_until x2 s1 (int pos2))
      else False)"
  by auto
termination
  by (relation "measures [\<lambda>(x1, x2, pos1, pos2). ra_size x1 - pos1, \<lambda>(x1, x2, pos1, pos2). ra_size x2 - pos2]")
     (auto simp: advance_less)

declare intersect_loop.simps [simp del]

definition roaring_bitmap_intersect :: "roaring_bitmap \<Rightarrow> roaring_bitmap \<Rightarrow> bool" where
  "roaring_bitmap_intersect x1 x2 = intersect_loop x1 x2 0 0"

function and_cardinality_loop :: "roaring_bitmap \<Rightarrow> roaring_bitmap \<Rightarrow> nat \<Rightarrow> nat \<Rightarrow> u64 \<Rightarrow> u64" where
  "and_cardinality_loop x1 x2 pos1 pos2 answer =
     (if pos1 < ra_size x1 \<and> pos2 < ra_size x2
      then let s1 = ra_get_key_at_index x1 pos1; s2 = ra_get_key_at_index x2 pos2
           in if s1 = s2
              then and_cardinality_loop x1 x2 (pos1 + 1) (pos2 + 1)
                     (answer + of_int (container_and_cardinality (ra_get_container_at_index x1 pos1) (ra_get_container_at_index x2 pos2)))
              else if s1 < s2 then and_cardinality_loop x1 x2 (ra_advance_until x1 s2 (int pos1)) pos2 answer
              else and_cardinality_loop x1 x2 pos1 (ra_advance_until x2 s1 (int pos2)) answer
      else answer)"
  by auto
termination
  by (relation "measures [\<lambda>(x1, x2, pos1, pos2, answer). ra_size x1 - pos1, \<lambda>(x1, x2, pos1, pos2, answer). ra_size x2 - pos2]")
     (auto simp: advance_less)

declare and_cardinality_loop.simps [simp del]

definition roaring_bitmap_and_cardinality :: "roaring_bitmap \<Rightarrow> roaring_bitmap \<Rightarrow> u64" where
  "roaring_bitmap_and_cardinality x1 x2 = and_cardinality_loop x1 x2 0 0 0"

definition roaring_bitmap_or_cardinality :: "roaring_bitmap \<Rightarrow> roaring_bitmap \<Rightarrow> u64" where
  "roaring_bitmap_or_cardinality x1 x2 =
     roaring_bitmap_get_cardinality x1 + roaring_bitmap_get_cardinality x2 - roaring_bitmap_and_cardinality x1 x2"

definition roaring_bitmap_andnot_cardinality :: "roaring_bitmap \<Rightarrow> roaring_bitmap \<Rightarrow> u64" where
  "roaring_bitmap_andnot_cardinality x1 x2 = roaring_bitmap_get_cardinality x1 - roaring_bitmap_and_cardinality x1 x2"

definition roaring_bitmap_xor_cardinality :: "roaring_bitmap \<Rightarrow> roaring_bitmap \<Rightarrow> u64" where
  "roaring_bitmap_xor_cardinality x1 x2 =
     roaring_bitmap_get_cardinality x1 + roaring_bitmap_get_cardinality x2 - 2 * roaring_bitmap_and_cardinality x1 x2"

section \<open>Equality\<close>

lemma keys_from_abs:
  assumes "ra_inv r1" and "ra_inv r2" and "ra_abs r1 = ra_abs r2"
  shows "ra_keys r1 = ra_keys r2"
proof (rule keys_determined [OF ra_ok_entries [OF assms(1)] ra_ok_entries [OF assms(2)]])
  fix k
  have "at (ra_entries r1) = at (ra_entries r2)" using assms(3) by (simp only: ra_abs_def entries_abs_eq_iff)
  then show "at (ra_entries r1) k \<noteq> {} \<longleftrightarrow> at (ra_entries r2) k \<noteq> {}" by simp
qed

lemma roaring_bitmap_equals_correct:
  assumes "ra_inv r1" and "ra_inv r2"
  shows "roaring_bitmap_equals r1 r2 \<longleftrightarrow> ra_abs r1 = ra_abs r2"
proof -
  have cell: "container_equals (ra_get_container_at_index r1 i) (ra_get_container_at_index r2 i) \<longleftrightarrow>
      at (ra_entries r1) (ra_keys r1 ! i) = at (ra_entries r2) (ra_keys r2 ! i)" if "i < ra_size r1" "i < ra_size r2" for i
    using edge_value(1) [OF assms(1) that(1)] edge_value(1) [OF assms(2) that(2)] that
      at_nth [OF ra_ok_sorted [OF assms(1)] that(1)] at_nth [OF ra_ok_sorted [OF assms(2)] that(2)]
    by (simp add: ra_get_container_at_index_def container_equals_correct container_inv_lazy)
  have keys: "ra_size r1 = ra_size r2 \<and> list_all (\<lambda>i. ra_keys r1 ! i = ra_keys r2 ! i) [0 ..< ra_size r1] \<longleftrightarrow> ra_keys r1 = ra_keys r2"
    by (auto simp: list_eq_iff_nth_eq [of "ra_keys r1"] list_all_iff simp del: nth_map)
  have eval: "roaring_bitmap_equals r1 r2 \<longleftrightarrow> ra_keys r1 = ra_keys r2 \<and>
      list_all (\<lambda>i. container_equals (ra_get_container_at_index r1 i) (ra_get_container_at_index r2 i)) [0 ..< ra_size r1]"
    unfolding keys [symmetric] by (auto simp: roaring_bitmap_equals_def)
  show ?thesis
  proof (cases "ra_keys r1 = ra_keys r2")
    case True
    then have size: "ra_size r1 = ra_size r2" by (metis length_map)
    have "(\<forall>i < ra_size r1. at (ra_entries r1) (ra_keys r1 ! i) = at (ra_entries r2) (ra_keys r1 ! i)) \<longleftrightarrow>
        (\<forall>k \<in> set (ra_keys r1). at (ra_entries r1) k = at (ra_entries r2) k)"
      unfolding all_set_conv_all_nth length_map ..
    also have "\<dots> \<longleftrightarrow> at (ra_entries r1) = at (ra_entries r2)"
    proof -
      have "at (ra_entries r1) k = {} \<and> at (ra_entries r2) k = {}" if "k \<notin> set (ra_keys r1)" for k
        using that True at_absent [of k "ra_entries r1"] at_absent [of k "ra_entries r2"] by (metis set_map)
      then show ?thesis by (auto simp: fun_eq_iff simp del: set_map)
    qed
    finally have "(\<forall>i < ra_size r1. at (ra_entries r1) (ra_keys r1 ! i) = at (ra_entries r2) (ra_keys r1 ! i)) \<longleftrightarrow>
        ra_abs r1 = ra_abs r2" by (simp only: ra_abs_def entries_abs_eq_iff)
    moreover have "roaring_bitmap_equals r1 r2 \<longleftrightarrow>
        (\<forall>i < ra_size r1. at (ra_entries r1) (ra_keys r1 ! i) = at (ra_entries r2) (ra_keys r1 ! i))"
      using True cell size by (simp add: eval list_all_iff Ball_def del: nth_map)
    ultimately show ?thesis by simp
  next
    case False
    then show ?thesis using keys_from_abs [OF assms] eval by blast
  qed
qed

section \<open>Walking two tables for a test or a count\<close>

text \<open>What the first two entries decide about the two sets.\<close>

lemma heads_equal:
  assumes "entries_ok P ((k, c) # xs)" and "entries_ok Q ((k, d) # ys)"
  shows "entries_abs ((k, c) # xs) \<inter> entries_abs ((k, d) # ys)
      = join k ` (container_abs c \<inter> container_abs d) \<union> entries_abs xs \<inter> entries_abs ys"
    and "entries_abs ((k, c) # xs) \<subseteq> entries_abs ((k, d) # ys) \<longleftrightarrow>
      container_abs c \<subseteq> container_abs d \<and> entries_abs xs \<subseteq> entries_abs ys"
    and "join k ` (container_abs c \<inter> container_abs d) \<inter> (entries_abs xs \<inter> entries_abs ys) = {}"
proof -
  have x: "z \<notin> join k ` S" if "z \<in> entries_abs xs" for z S using entries_abs_Cons(3) [OF assms(1) that] by (metis high16_join imageE less_irrefl)
  have y: "z \<notin> join k ` S" if "z \<in> entries_abs ys" for z S using entries_abs_Cons(3) [OF assms(2) that] by (metis high16_join imageE less_irrefl)
  note both = entries_abs_Cons(1) [OF assms(1)] entries_abs_Cons(1) [OF assms(2)]
  have inter: "join k ` container_abs c \<inter> join k ` container_abs d = join k ` (container_abs c \<inter> container_abs d)"
    by (rule image_Int [OF inj_join, symmetric])
  show "entries_abs ((k, c) # xs) \<inter> entries_abs ((k, d) # ys)
      = join k ` (container_abs c \<inter> container_abs d) \<union> entries_abs xs \<inter> entries_abs ys"
    unfolding both inter [symmetric] using x y by blast
  have "join k ` container_abs c \<subseteq> join k ` container_abs d \<longleftrightarrow> container_abs c \<subseteq> container_abs d"
    by (rule inj_image_subset_iff [OF inj_join])
  then show "entries_abs ((k, c) # xs) \<subseteq> entries_abs ((k, d) # ys) \<longleftrightarrow>
      container_abs c \<subseteq> container_abs d \<and> entries_abs xs \<subseteq> entries_abs ys"
    unfolding both using x y by blast
  show "join k ` (container_abs c \<inter> container_abs d) \<inter> (entries_abs xs \<inter> entries_abs ys) = {}" using x by blast
qed

lemma skipped:
  assumes "entries_ok P xs" and "entries_ok Q ((k, d) # ys)"
  shows "entries_abs (dropWhile (\<lambda>e. fst e < k) xs) \<inter> entries_abs ((k, d) # ys) = entries_abs xs \<inter> entries_abs ((k, d) # ys)"
    and "entries_abs ((k, d) # ys) \<subseteq> entries_abs (dropWhile (\<lambda>e. fst e < k) xs) \<longleftrightarrow> entries_abs ((k, d) # ys) \<subseteq> entries_abs xs"
proof -
  have "k \<le> high16 z" if "z \<in> entries_abs ((k, d) # ys)" for z
    using that entries_abs_Cons(3) [OF assms(2)] unfolding entries_abs_Cons(1) [OF assms(2)]
    by (metis UnE high16_join imageE less_imp_le order_refl)
  then show "entries_abs (dropWhile (\<lambda>e. fst e < k) xs) \<inter> entries_abs ((k, d) # ys) = entries_abs xs \<inter> entries_abs ((k, d) # ys)"
    "entries_abs ((k, d) # ys) \<subseteq> entries_abs (dropWhile (\<lambda>e. fst e < k) xs) \<longleftrightarrow> entries_abs ((k, d) # ys) \<subseteq> entries_abs xs"
    unfolding dropWhile_abs [OF assms(1)] by blast+
qed

lemma not_subset_less:
  assumes "entries_ok P ((k, c) # xs)" and "entries_ok Q ((k', d) # ys)" and "k < k'"
  shows "\<not> entries_abs ((k, c) # xs) \<subseteq> entries_abs ((k', d) # ys)"
proof -
  obtain y where "y \<in> container_abs c" using assms(1) by auto
  then have "join k y \<in> entries_abs ((k, c) # xs)" by (simp add: join_mem)
  moreover have "join k y \<notin> entries_abs ((k', d) # ys)"
  proof
    assume "join k y \<in> entries_abs ((k', d) # ys)"
    then have "k \<in> fst ` set ((k', d) # ys)" using entries_abs_key [of "join k y" "(k', d) # ys"] by (simp only: high16_join)
    then show False using assms(2,3) by fastforce
  qed
  ultimately show ?thesis by blast
qed

text \<open>The entries from an index on, with the head taken off.\<close>

lemma heads:
  assumes "p < ra_size x"
  shows "drop p (ra_entries x) = (ra_get_key_at_index x p, ra_get_container_at_index x p) # drop (p + 1) (ra_entries x)"
  using assms by (simp add: ra_get_key_at_index_def ra_get_container_at_index_def Cons_nth_drop_Suc)

lemma head_inv: "ra_inv x \<Longrightarrow> p < ra_size x \<Longrightarrow> container_inv (ra_get_container_at_index x p)"
  unfolding ra_get_container_at_index_def by (rule edge_value(1))

lemma advanced:
  assumes "ra_inv x" and "p < ra_size x" and "ra_get_key_at_index x p < k"
  shows "ra_advance_until x k (int p) \<le> ra_size x"
    and "drop (ra_advance_until x k (int p)) (ra_entries x) = dropWhile (\<lambda>e. fst e < k) (drop p (ra_entries x))"
  using advance_skips [OF ra_ok_sorted [OF assms(1)] assms(2), of k] assms(2,3) by (simp_all add: ra_get_key_at_index_def)

lemma rest_ok: "ra_inv x \<Longrightarrow> entries_inv (drop p (ra_entries x))"
  by (rule entries_ok_drop [OF ra_ok_entries])

lemma is_subset_loop_correct:
  "ra_inv r1 \<Longrightarrow> ra_inv r2 \<Longrightarrow> pos1 \<le> ra_size r1 \<Longrightarrow> pos2 \<le> ra_size r2 \<Longrightarrow>
    is_subset_loop r1 r2 pos1 pos2 \<longleftrightarrow> entries_abs (drop pos1 (ra_entries r1)) \<subseteq> entries_abs (drop pos2 (ra_entries r2))"
proof (induction r1 r2 pos1 pos2 rule: is_subset_loop.induct)
  case (1 r1 r2 pos1 pos2)
  note ok1 = rest_ok [OF 1(3), of pos1] and ok2 = rest_ok [OF 1(4), of pos2]
  show ?case
  proof (cases "pos1 < ra_size r1 \<and> pos2 < ra_size r2")
    case True
    let ?s1 = "ra_get_key_at_index r1 pos1" and ?s2 = "ra_get_key_at_index r2 pos2"
    let ?c1 = "ra_get_container_at_index r1 pos1" and ?c2 = "ra_get_container_at_index r2 pos2"
    note h1 = heads [OF conjunct1 [OF True]] and h2 = heads [OF conjunct2 [OF True]]
    consider (eq) "?s1 = ?s2" | (lt) "?s1 < ?s2" | (gt) "?s2 < ?s1" by (rule linorder_cases)
    then show ?thesis
    proof cases
      case eq
      have step: "is_subset_loop r1 r2 pos1 pos2 \<longleftrightarrow> container_is_subset ?c1 ?c2 \<and> is_subset_loop r1 r2 (pos1 + 1) (pos2 + 1)"
        using True eq by (subst is_subset_loop.simps) (simp add: Let_def)
      have test: "container_is_subset ?c1 ?c2 \<longleftrightarrow> container_abs ?c1 \<subseteq> container_abs ?c2"
        using True by (intro container_is_subset_correct head_inv 1(3,4)) simp_all
      have IH: "container_is_subset ?c1 ?c2 \<Longrightarrow> is_subset_loop r1 r2 (pos1 + 1) (pos2 + 1) \<longleftrightarrow>
          entries_abs (drop (pos1 + 1) (ra_entries r1)) \<subseteq> entries_abs (drop (pos2 + 1) (ra_entries r2))"
        using True by (intro 1(1) [OF True refl refl eq] 1(3,4)) simp_all
      show ?thesis
        unfolding step h1 h2 eq heads_equal(2) [OF ok1 [unfolded h1 eq] ok2 [unfolded h2]] using IH test by blast
    next
      case lt
      have "\<not> is_subset_loop r1 r2 pos1 pos2" using True lt by (subst is_subset_loop.simps) (simp add: Let_def less_imp_neq [OF lt])
      then show ?thesis unfolding h1 h2 using not_subset_less [OF ok1 [unfolded h1] ok2 [unfolded h2] lt] by blast
    next
      case gt
      let ?q = "ra_advance_until r2 ?s1 (int pos2)"
      note q = advanced [OF 1(4) conjunct2 [OF True] gt]
      have no: "?s1 \<noteq> ?s2" "\<not> ?s1 < ?s2" using gt by auto
      have step: "is_subset_loop r1 r2 pos1 pos2 \<longleftrightarrow> is_subset_loop r1 r2 pos1 ?q"
        using True no by (subst is_subset_loop.simps) (simp add: Let_def)
      have "is_subset_loop r1 r2 pos1 ?q \<longleftrightarrow> entries_abs (drop pos1 (ra_entries r1)) \<subseteq> entries_abs (drop ?q (ra_entries r2))"
        using True q(1) by (intro 1(2) [OF True refl refl no] 1(3,4)) simp_all
      also have "\<dots> \<longleftrightarrow> entries_abs (drop pos1 (ra_entries r1)) \<subseteq> entries_abs (drop pos2 (ra_entries r2))"
        unfolding q(2) unfolding h1 by (rule skipped(2) [OF ok2 ok1 [unfolded h1]])
      finally show ?thesis unfolding step .
    qed
  next
    case False
    have stop: "is_subset_loop r1 r2 pos1 pos2 \<longleftrightarrow> pos1 = ra_size r1" using False by (subst is_subset_loop.simps) auto
    show ?thesis
    proof (cases "pos1 = ra_size r1")
      case True
      then show ?thesis unfolding stop by simp
    next
      case more: False
      then have "pos1 < ra_size r1" "pos2 = ra_size r2" using False 1(5,6) by auto
      then show ?thesis unfolding stop using more entries_abs_Cons(1) [OF ok1 [unfolded heads [OF \<open>pos1 < ra_size r1\<close>]]]
          head_inv [OF 1(3)] edge_value(2) [OF 1(3), of pos1]
        by (simp add: heads ra_get_container_at_index_def del: at_Cons)
    qed
  qed
qed

lemma roaring_bitmap_is_subset_correct:
  "ra_inv r1 \<Longrightarrow> ra_inv r2 \<Longrightarrow> roaring_bitmap_is_subset r1 r2 \<longleftrightarrow> ra_abs r1 \<subseteq> ra_abs r2"
  by (simp add: roaring_bitmap_is_subset_def is_subset_loop_correct ra_abs_def)

lemma roaring_bitmap_is_strict_subset_correct:
  assumes "ra_inv r1" and "ra_inv r2"
  shows "roaring_bitmap_is_strict_subset r1 r2 \<longleftrightarrow> ra_abs r1 \<subset> ra_abs r2"
proof -
  have "card (ra_abs r1) < card (ra_abs r2) \<and> ra_abs r1 \<subseteq> ra_abs r2 \<longleftrightarrow> ra_abs r1 \<subset> ra_abs r2"
    using psubset_card_mono [of "ra_abs r2" "ra_abs r1"] by auto
  then show ?thesis
    by (simp add: roaring_bitmap_is_strict_subset_def word_less_nat_alt roaring_bitmap_get_cardinality_correct(2) assms
        roaring_bitmap_is_subset_correct)
qed

lemma intersect_loop_correct:
  "ra_inv x1 \<Longrightarrow> ra_inv x2 \<Longrightarrow> pos1 \<le> ra_size x1 \<Longrightarrow> pos2 \<le> ra_size x2 \<Longrightarrow>
    intersect_loop x1 x2 pos1 pos2 \<longleftrightarrow> entries_abs (drop pos1 (ra_entries x1)) \<inter> entries_abs (drop pos2 (ra_entries x2)) \<noteq> {}"
proof (induction x1 x2 pos1 pos2 rule: intersect_loop.induct)
  case (1 x1 x2 pos1 pos2)
  note ok1 = rest_ok [OF 1(4), of pos1] and ok2 = rest_ok [OF 1(5), of pos2]
  show ?case
  proof (cases "pos1 < ra_size x1 \<and> pos2 < ra_size x2")
    case True
    let ?s1 = "ra_get_key_at_index x1 pos1" and ?s2 = "ra_get_key_at_index x2 pos2"
    let ?c1 = "ra_get_container_at_index x1 pos1" and ?c2 = "ra_get_container_at_index x2 pos2"
    note h1 = heads [OF conjunct1 [OF True]] and h2 = heads [OF conjunct2 [OF True]]
    consider (eq) "?s1 = ?s2" | (lt) "?s1 < ?s2" | (gt) "?s2 < ?s1" by (rule linorder_cases)
    then show ?thesis
    proof cases
      case eq
      have step: "intersect_loop x1 x2 pos1 pos2 \<longleftrightarrow> container_intersect ?c1 ?c2 \<or> intersect_loop x1 x2 (pos1 + 1) (pos2 + 1)"
        using True eq by (subst intersect_loop.simps) (simp add: Let_def)
      have test: "container_intersect ?c1 ?c2 \<longleftrightarrow> container_abs ?c1 \<inter> container_abs ?c2 \<noteq> {}"
        using True by (intro container_intersect_correct head_inv 1(4,5)) simp_all
      have IH: "\<not> container_intersect ?c1 ?c2 \<Longrightarrow> intersect_loop x1 x2 (pos1 + 1) (pos2 + 1) \<longleftrightarrow>
          entries_abs (drop (pos1 + 1) (ra_entries x1)) \<inter> entries_abs (drop (pos2 + 1) (ra_entries x2)) \<noteq> {}"
        using True by (intro 1(1) [OF True refl refl eq] 1(4,5)) simp_all
      show ?thesis
        unfolding step h1 h2 eq heads_equal(1) [OF ok1 [unfolded h1 eq] ok2 [unfolded h2]] using IH test by blast
    next
      case lt
      let ?q = "ra_advance_until x1 ?s2 (int pos1)"
      note q = advanced [OF 1(4) conjunct1 [OF True] lt]
      have step: "intersect_loop x1 x2 pos1 pos2 \<longleftrightarrow> intersect_loop x1 x2 ?q pos2"
        using True lt by (subst intersect_loop.simps) (simp add: Let_def less_imp_neq [OF lt])
      have "intersect_loop x1 x2 ?q pos2 \<longleftrightarrow> entries_abs (drop ?q (ra_entries x1)) \<inter> entries_abs (drop pos2 (ra_entries x2)) \<noteq> {}"
        using True q(1) by (intro 1(2) [OF True refl refl less_imp_neq [OF lt] lt] 1(4,5)) simp_all
      also have "\<dots> \<longleftrightarrow> entries_abs (drop pos1 (ra_entries x1)) \<inter> entries_abs (drop pos2 (ra_entries x2)) \<noteq> {}"
        unfolding q(2) unfolding h2 skipped(1) [OF ok1 ok2 [unfolded h2]] ..
      finally show ?thesis unfolding step .
    next
      case gt
      let ?q = "ra_advance_until x2 ?s1 (int pos2)"
      note q = advanced [OF 1(5) conjunct2 [OF True] gt]
      have no: "?s1 \<noteq> ?s2" "\<not> ?s1 < ?s2" using gt by auto
      have step: "intersect_loop x1 x2 pos1 pos2 \<longleftrightarrow> intersect_loop x1 x2 pos1 ?q"
        using True no by (subst intersect_loop.simps) (simp add: Let_def)
      have "intersect_loop x1 x2 pos1 ?q \<longleftrightarrow> entries_abs (drop pos1 (ra_entries x1)) \<inter> entries_abs (drop ?q (ra_entries x2)) \<noteq> {}"
        using True q(1) by (intro 1(3) [OF True refl refl no] 1(4,5)) simp_all
      also have "\<dots> \<longleftrightarrow> entries_abs (drop pos1 (ra_entries x1)) \<inter> entries_abs (drop pos2 (ra_entries x2)) \<noteq> {}"
        unfolding q(2) unfolding h1 using skipped(1) [OF ok2 ok1 [unfolded h1]] by (simp only: Int_commute)
      finally show ?thesis unfolding step .
    qed
  next
    case False
    then have "drop pos1 (ra_entries x1) = [] \<or> drop pos2 (ra_entries x2) = []" by auto
    moreover have "\<not> intersect_loop x1 x2 pos1 pos2" using False by (subst intersect_loop.simps) auto
    ultimately show ?thesis by auto
  qed
qed

lemma roaring_bitmap_intersect_correct:
  "ra_inv x1 \<Longrightarrow> ra_inv x2 \<Longrightarrow> roaring_bitmap_intersect x1 x2 \<longleftrightarrow> ra_abs x1 \<inter> ra_abs x2 \<noteq> {}"
  by (simp add: roaring_bitmap_intersect_def intersect_loop_correct ra_abs_def)

section \<open>Cardinalities of combinations\<close>

lemma heads_count:
  assumes "entries_ok P ((k, c) # xs)" and "entries_ok Q ((k, d) # ys)"
  shows "card (entries_abs ((k, c) # xs) \<inter> entries_abs ((k, d) # ys))
    = card (container_abs c \<inter> container_abs d) + card (entries_abs xs \<inter> entries_abs ys)"
  unfolding heads_equal(1) [OF assms]
  by (subst card_Un_disjoint [OF _ _ heads_equal(3) [OF assms]]) (simp_all add: card_image inj_on_subset [OF inj_join])

lemma and_cardinality_loop_correct:
  "ra_inv x1 \<Longrightarrow> ra_inv x2 \<Longrightarrow> pos1 \<le> ra_size x1 \<Longrightarrow> pos2 \<le> ra_size x2 \<Longrightarrow>
    and_cardinality_loop x1 x2 pos1 pos2 n
      = n + word_of_nat (card (entries_abs (drop pos1 (ra_entries x1)) \<inter> entries_abs (drop pos2 (ra_entries x2))))"
proof (induction x1 x2 pos1 pos2 n rule: and_cardinality_loop.induct)
  case (1 x1 x2 pos1 pos2 n)
  note ok1 = rest_ok [OF 1(4), of pos1] and ok2 = rest_ok [OF 1(5), of pos2]
  show ?case
  proof (cases "pos1 < ra_size x1 \<and> pos2 < ra_size x2")
    case True
    let ?s1 = "ra_get_key_at_index x1 pos1" and ?s2 = "ra_get_key_at_index x2 pos2"
    let ?c1 = "ra_get_container_at_index x1 pos1" and ?c2 = "ra_get_container_at_index x2 pos2"
    note h1 = heads [OF conjunct1 [OF True]] and h2 = heads [OF conjunct2 [OF True]]
    consider (eq) "?s1 = ?s2" | (lt) "?s1 < ?s2" | (gt) "?s2 < ?s1" by (rule linorder_cases)
    then show ?thesis
    proof cases
      case eq
      let ?n = "n + of_int (container_and_cardinality ?c1 ?c2)"
      have step: "and_cardinality_loop x1 x2 pos1 pos2 n = and_cardinality_loop x1 x2 (pos1 + 1) (pos2 + 1) ?n"
        using True eq by (subst and_cardinality_loop.simps) (simp add: Let_def)
      have here: "container_and_cardinality ?c1 ?c2 = int (card (container_abs ?c1 \<inter> container_abs ?c2))"
        using True by (intro container_and_cardinality_correct head_inv 1(4,5)) simp_all
      have IH: "and_cardinality_loop x1 x2 (pos1 + 1) (pos2 + 1) ?n = ?n + word_of_nat
          (card (entries_abs (drop (pos1 + 1) (ra_entries x1)) \<inter> entries_abs (drop (pos2 + 1) (ra_entries x2))))"
        using True by (intro 1(1) [OF True refl refl eq] 1(4,5)) simp_all
      show ?thesis
        unfolding step IH unfolding h1 h2 eq heads_count [OF ok1 [unfolded h1 eq] ok2 [unfolded h2]] here
        by (simp add: add.assoc)
    next
      case lt
      let ?q = "ra_advance_until x1 ?s2 (int pos1)"
      note q = advanced [OF 1(4) conjunct1 [OF True] lt]
      have step: "and_cardinality_loop x1 x2 pos1 pos2 n = and_cardinality_loop x1 x2 ?q pos2 n"
        using True lt by (subst and_cardinality_loop.simps) (simp add: Let_def less_imp_neq [OF lt])
      have "and_cardinality_loop x1 x2 ?q pos2 n = n + word_of_nat
          (card (entries_abs (drop ?q (ra_entries x1)) \<inter> entries_abs (drop pos2 (ra_entries x2))))"
        using True q(1) by (intro 1(2) [OF True refl refl less_imp_neq [OF lt] lt] 1(4,5)) simp_all
      then show ?thesis unfolding step q(2) unfolding h2 skipped(1) [OF ok1 ok2 [unfolded h2]] .
    next
      case gt
      let ?q = "ra_advance_until x2 ?s1 (int pos2)"
      note q = advanced [OF 1(5) conjunct2 [OF True] gt]
      have no: "?s1 \<noteq> ?s2" "\<not> ?s1 < ?s2" using gt by auto
      have step: "and_cardinality_loop x1 x2 pos1 pos2 n = and_cardinality_loop x1 x2 pos1 ?q n"
        using True no by (subst and_cardinality_loop.simps) (simp add: Let_def)
      have "and_cardinality_loop x1 x2 pos1 ?q n = n + word_of_nat
          (card (entries_abs (drop pos1 (ra_entries x1)) \<inter> entries_abs (drop ?q (ra_entries x2))))"
        using True q(1) by (intro 1(3) [OF True refl refl no] 1(4,5)) simp_all
      then show ?thesis unfolding step q(2) unfolding h1 using skipped(1) [OF ok2 ok1 [unfolded h1]] by (simp only: Int_commute)
    qed
  next
    case False
    then have "drop pos1 (ra_entries x1) = [] \<or> drop pos2 (ra_entries x2) = []" by auto
    moreover have "and_cardinality_loop x1 x2 pos1 pos2 n = n" using False by (subst and_cardinality_loop.simps) auto
    ultimately show ?thesis by auto
  qed
qed

lemma and_cardinality_eq:
  "ra_inv x1 \<Longrightarrow> ra_inv x2 \<Longrightarrow> roaring_bitmap_and_cardinality x1 x2 = word_of_nat (card (ra_abs x1 \<inter> ra_abs x2))"
  by (simp add: roaring_bitmap_and_cardinality_def and_cardinality_loop_correct ra_abs_def)

lemma roaring_bitmap_combined_cardinality:
  assumes "ra_inv x1" and "ra_inv x2"
  shows "unat (roaring_bitmap_and_cardinality x1 x2) = card (ra_abs x1 \<inter> ra_abs x2)"
    and "unat (roaring_bitmap_or_cardinality x1 x2) = card (ra_abs x1 \<union> ra_abs x2)"
    and "unat (roaring_bitmap_andnot_cardinality x1 x2) = card (ra_abs x1 - ra_abs x2)"
    and "unat (roaring_bitmap_xor_cardinality x1 x2) = card (sym_diff (ra_abs x1) (ra_abs x2))"
proof -
  let ?A = "ra_abs x1" and ?B = "ra_abs x2"
  note inter = and_cardinality_eq [OF assms] and c1 = roaring_bitmap_get_cardinality_correct(1) [OF assms(1)]
    and c2 = roaring_bitmap_get_cardinality_correct(1) [OF assms(2)]
  have union: "card ?A + card ?B = card (?A \<union> ?B) + card (?A \<inter> ?B)" by (rule card_Un_Int) simp_all
  have diff: "card ?A = card (?A - ?B) + card (?A \<inter> ?B)" for A B by (metis card_Diff_subset_Int card_mono add.commute finite inf_le1 le_add_diff_inverse)
  have sym: "card (?A \<union> ?B) = card (sym_diff ?A ?B) + card (?A \<inter> ?B)"
  proof -
    have "?A \<union> ?B = sym_diff ?A ?B \<union> (?A \<inter> ?B)" by blast
    moreover have "sym_diff ?A ?B \<inter> (?A \<inter> ?B) = {}" by blast
    ultimately show ?thesis by (metis card_Un_disjoint finite)
  qed
  have words: "(word_of_nat (a + b) - word_of_nat b :: u64) = word_of_nat a" for a b by simp
  show "unat (roaring_bitmap_and_cardinality x1 x2) = card (?A \<inter> ?B)" unfolding inter by (rule u64_small [OF count_fits(2)])
  have "roaring_bitmap_or_cardinality x1 x2 = word_of_nat (card (?A \<union> ?B))"
    unfolding roaring_bitmap_or_cardinality_def inter c1 c2 of_nat_add [symmetric] union words ..
  then show "unat (roaring_bitmap_or_cardinality x1 x2) = card (?A \<union> ?B)" by (simp only: u64_small [OF count_fits(2)])
  have "roaring_bitmap_andnot_cardinality x1 x2 = word_of_nat (card (?A - ?B))"
    unfolding roaring_bitmap_andnot_cardinality_def inter c1 diff words ..
  then show "unat (roaring_bitmap_andnot_cardinality x1 x2) = card (?A - ?B)" by (simp only: u64_small [OF count_fits(2)])
  have "roaring_bitmap_xor_cardinality x1 x2 = word_of_nat (card (sym_diff ?A ?B))"
    unfolding roaring_bitmap_xor_cardinality_def inter c1 c2 of_nat_add [symmetric] union sym by simp
  then show "unat (roaring_bitmap_xor_cardinality x1 x2) = card (sym_diff ?A ?B)" by (simp only: u64_small [OF count_fits(2)])
qed

end
