(* ===== verification/Roaring_Flip.thy ===== *)
theory Roaring_Flip
  imports Roaring_Compare
begin

text \<open>
  Complementing a range of values (\<open>roaring_bitmap_flip\<close> of \<open>src/roaring.c\<close>), into a new bitmap that is
  built from front to back, or in place. \<open>flipped\<close> is the set of low halves that a key must end up
  with; a new bitmap is right below a key and empty from there on, a bitmap changed in place is right
  below a key and unchanged from there on.
\<close>

section \<open>The code\<close>

definition insert_flipped_container :: "roaring_array \<Rightarrow> roaring_array \<Rightarrow> u16 \<Rightarrow> u16 \<Rightarrow> u16 \<Rightarrow> roaring_array" where
  "insert_flipped_container ans_arr x1_arr hb lb_start lb_end =
     (let i = ra_get_index x1_arr hb; j = ra_get_index ans_arr hb
      in if i \<ge> 0
         then let flipped_container =
                    container_not_range (ra_get_container_at_index x1_arr (nat i)) (ucast lb_start) (ucast lb_end + 1)
              in if container_nonzero_cardinality flipped_container
                 then ra_insert_new_key_value_at ans_arr (nat (- j - 1)) hb flipped_container
                 else ans_arr
         else ra_insert_new_key_value_at ans_arr (nat (- j - 1)) hb (container_range_of_ones (ucast lb_start) (ucast lb_end + 1)))"

definition inplace_flip_container :: "roaring_array \<Rightarrow> u16 \<Rightarrow> u16 \<Rightarrow> u16 \<Rightarrow> roaring_array" where
  "inplace_flip_container x1_arr hb lb_start lb_end =
     (let i = ra_get_index x1_arr hb
      in if i \<ge> 0
         then let flipped_container =
                    container_inot_range (ra_get_container_at_index x1_arr (nat i)) (ucast lb_start) (ucast lb_end + 1)
              in if container_nonzero_cardinality flipped_container
                 then ra_set_container_at_index x1_arr (nat i) flipped_container
                 else ra_remove_at_index x1_arr (nat i)
         else ra_insert_new_key_value_at x1_arr (nat (- i - 1)) hb (container_range_of_ones (ucast lb_start) (ucast lb_end + 1)))"

definition insert_fully_flipped_container :: "roaring_array \<Rightarrow> roaring_array \<Rightarrow> u16 \<Rightarrow> roaring_array" where
  "insert_fully_flipped_container ans_arr x1_arr hb =
     (let i = ra_get_index x1_arr hb; j = ra_get_index ans_arr hb
      in if i \<ge> 0
         then let flipped_container = container_not (ra_get_container_at_index x1_arr (nat i))
              in if container_nonzero_cardinality flipped_container
                 then ra_insert_new_key_value_at ans_arr (nat (- j - 1)) hb flipped_container
                 else ans_arr
         else ra_insert_new_key_value_at ans_arr (nat (- j - 1)) hb (container_range_of_ones 0 0x10000))"

definition inplace_fully_flip_container :: "roaring_array \<Rightarrow> u16 \<Rightarrow> roaring_array" where
  "inplace_fully_flip_container x1_arr hb =
     (let i = ra_get_index x1_arr hb
      in if i \<ge> 0
         then let flipped_container = container_inot (ra_get_container_at_index x1_arr (nat i))
              in if container_nonzero_cardinality flipped_container
                 then ra_set_container_at_index x1_arr (nat i) flipped_container
                 else ra_remove_at_index x1_arr (nat i)
         else ra_insert_new_key_value_at x1_arr (nat (- i - 1)) hb (container_range_of_ones 0 0x10000))"

text \<open>The loop over whole containers counts in 32 bits, so it also ends when the last key is \<open>0xFFFF\<close>.\<close>

definition roaring_bitmap_flip_closed :: "roaring_bitmap \<Rightarrow> u32 \<Rightarrow> u32 \<Rightarrow> roaring_bitmap" where
  "roaring_bitmap_flip_closed x1 range_start range_end =
     (if range_start > range_end then roaring_bitmap_copy x1
      else let ans = roaring_bitmap_set_copy_on_write roaring_bitmap_create (is_cow x1);
               hb_start = high16 range_start; lb_start = low16 range_start; hb_end = high16 range_end; lb_end = low16 range_end;
               ans = ra_append_copies_until ans x1 hb_start (is_cow x1)
           in if hb_start = hb_end
              then ra_append_copies_after (insert_flipped_container ans x1 hb_start lb_start lb_end) x1 hb_end (is_cow x1)
              else let ans = (if lb_start > 0 then insert_flipped_container ans x1 hb_start lb_start 0xFFFF else ans);
                       hb_start = (if lb_start > 0 then hb_start + 1 else hb_start);
                       hb_end = (if lb_end \<noteq> 0xFFFF then hb_end - 1 else hb_end);
                       ans = fold (\<lambda>hb ans. insert_fully_flipped_container ans x1 (word_of_nat hb)) [unat hb_start ..< unat hb_end + 1] ans;
                       ans = (if lb_end \<noteq> 0xFFFF then insert_flipped_container ans x1 (hb_end + 1) 0 lb_end else ans);
                       hb_end = (if lb_end \<noteq> 0xFFFF then hb_end + 1 else hb_end)
                   in ra_append_copies_after ans x1 hb_end (is_cow x1))"

definition roaring_bitmap_flip :: "roaring_bitmap \<Rightarrow> u64 \<Rightarrow> u64 \<Rightarrow> roaring_bitmap" where
  "roaring_bitmap_flip x1 range_start range_end =
     (if range_start \<ge> range_end \<or> range_start > 0xFFFFFFFF + 1 then roaring_bitmap_copy x1
      else roaring_bitmap_flip_closed x1 (ucast range_start) (ucast (range_end - 1)))"

definition roaring_bitmap_flip_inplace_closed :: "roaring_bitmap \<Rightarrow> u32 \<Rightarrow> u32 \<Rightarrow> roaring_bitmap" where
  "roaring_bitmap_flip_inplace_closed x1 range_start range_end =
     (if range_start > range_end then x1
      else let hb_start = high16 range_start; lb_start = low16 range_start; hb_end = high16 range_end; lb_end = low16 range_end
           in if hb_start = hb_end then inplace_flip_container x1 hb_start lb_start lb_end
              else let x1 = (if lb_start > 0 then inplace_flip_container x1 hb_start lb_start 0xFFFF else x1);
                       hb_start = (if lb_start > 0 then hb_start + 1 else hb_start);
                       hb_end = (if lb_end \<noteq> 0xFFFF then hb_end - 1 else hb_end);
                       x1 = fold (\<lambda>hb x1. inplace_fully_flip_container x1 (word_of_nat hb)) [unat hb_start ..< unat hb_end + 1] x1
                   in if lb_end \<noteq> 0xFFFF then inplace_flip_container x1 (hb_end + 1) 0 lb_end else x1)"

definition roaring_bitmap_flip_inplace :: "roaring_bitmap \<Rightarrow> u64 \<Rightarrow> u64 \<Rightarrow> roaring_bitmap" where
  "roaring_bitmap_flip_inplace x1 range_start range_end =
     (if range_start \<ge> range_end \<or> range_start > 0xFFFFFFFF + 1 then x1
      else roaring_bitmap_flip_inplace_closed x1 (ucast range_start) (ucast (range_end - 1)))"

section \<open>One container\<close>

lemma low_bounds:
  fixes a b :: u16
  shows "unat (ucast a :: u32) = unat a" and "unat (ucast b + 1 :: u32) = unat b + 1"
proof -
  have b: "unat b + 1 < 4294967296" using unat_u16_less [of b] by linarith
  have "ucast b = (word_of_nat (unat b) :: u32)" using b by (simp add: word_unat_eq_iff)
  then have "(ucast b + 1 :: u32) = word_of_nat (unat b + 1)" by simp
  then show "unat (ucast b + 1 :: u32) = unat b + 1" using unat_u32_of_nat [OF b] by (simp only:)
qed simp

lemma flip_range: "{x. unat (ucast a :: u32) \<le> unat x \<and> unat x < unat (ucast b + 1 :: u32)} = {a .. b}" for a b :: u16
  unfolding low_bounds by (auto simp: word_le_nat_alt)

lemma not_range_sets:
  assumes "container_inv c" and "a \<le> b"
  shows "container_inv (container_not_range c (ucast a) (ucast b + 1))"
    and "container_abs (container_not_range c (ucast a) (ucast b + 1)) = sym_diff (container_abs c) {a .. b}"
    and "container_inv (container_inot_range c (ucast a) (ucast b + 1))"
    and "container_abs (container_inot_range c (ucast a) (ucast b + 1)) = sym_diff (container_abs c) {a .. b}"
proof -
  have b: "unat (ucast a :: u32) \<le> unat (ucast b + 1 :: u32)" "unat (ucast b + 1 :: u32) \<le> 65536"
    using assms(2) unat_u16_less [of b] unfolding low_bounds word_le_nat_alt by linarith+
  show "container_inv (container_not_range c (ucast a) (ucast b + 1))"
    "container_abs (container_not_range c (ucast a) (ucast b + 1)) = sym_diff (container_abs c) {a .. b}"
    "container_inv (container_inot_range c (ucast a) (ucast b + 1))"
    "container_abs (container_inot_range c (ucast a) (ucast b + 1)) = sym_diff (container_abs c) {a .. b}"
    using container_not_range_correct [OF assms(1) b] unfolding flip_range by blast+
qed

lemma ones_sets:
  assumes "a \<le> b"
  shows "container_inv (container_range_of_ones (ucast a) (ucast b + 1))"
    and "container_abs (container_range_of_ones (ucast a) (ucast b + 1)) = {a .. b}"
proof -
  have b: "unat (ucast a :: u32) \<le> unat (ucast b + 1 :: u32)" "unat (ucast b + 1 :: u32) \<le> 65536"
    using assms unat_u16_less [of b] unfolding low_bounds word_le_nat_alt by linarith+
  show "container_inv (container_range_of_ones (ucast a) (ucast b + 1))"
    "container_abs (container_range_of_ones (ucast a) (ucast b + 1)) = {a .. b}"
    using container_range_of_ones_correct [OF b] unfolding flip_range by blast+
qed

lemma every_low: "container_inv (container_range_of_ones 0 0x10000)" "container_abs (container_range_of_ones 0 0x10000) = UNIV"
proof -
  have "{x :: u16. unat (0 :: u32) \<le> unat x \<and> unat x < unat (0x10000 :: u32)} = UNIV" by auto
  then show "container_inv (container_range_of_ones 0 0x10000)" "container_abs (container_range_of_ones 0 0x10000) = UNIV"
    using container_range_of_ones_correct [of 0 "0x10000"] by simp_all
qed

text \<open>A key that is not in the table yet, with a container that may be empty.\<close>

lemma insert_or_not_changed:
  assumes "ra_inv ans" and "at (ra_entries ans) k = {}" and "container_inv c"
  shows "changed ans k (container_abs c)
    (if container_nonzero_cardinality c then ra_insert_new_key_value_at ans (nat (- ra_get_index ans k - 1)) k c else ans)"
proof (cases "container_abs c = {}")
  case True
  then have "\<not> container_nonzero_cardinality c" using container_nonzero_correct [OF container_inv_lazy [OF assms(3)]] by simp
  then show ?thesis using True assms(1,2) by (simp add: changed_def)
next
  case False
  then have nz: "container_nonzero_cardinality c" using container_nonzero_correct [OF container_inv_lazy [OF assms(3)]] by simp
  show ?thesis
    using assms(1)
  proof (cases rule: ra_index_cases [where k = k])
    case (found i)
    then show ?thesis using assms(2) by simp
  next
    case absent
    show ?thesis using insert_changed [OF assms(1) absent(3) assms(3) False] nz absent(2) by simp
  qed
qed

lemma insert_changed':
  assumes "ra_inv ans" and "at (ra_entries ans) k = {}" and "container_inv c" and "container_abs c \<noteq> {}"
  shows "changed ans k (container_abs c) (ra_insert_new_key_value_at ans (nat (- ra_get_index ans k - 1)) k c)"
  using insert_or_not_changed [OF assms(1-3)] container_nonzero_correct [OF container_inv_lazy [OF assms(3)]] assms(4) by simp

lemma insert_flipped_changed:
  assumes "ra_inv x" and "ra_inv ans" and "at (ra_entries ans) k = {}" and "a \<le> b"
  shows "changed ans k (sym_diff (at (ra_entries x) k) {a .. b}) (insert_flipped_container ans x k a b)"
  using assms(1)
proof (cases rule: ra_index_cases [where k = k])
  case (found i)
  note c = not_range_sets(1,2) [OF found(6) assms(4)]
  show ?thesis using insert_or_not_changed [OF assms(2,3) c(1)] found(1,5) c(2)
    by (simp add: insert_flipped_container_def Let_def ra_get_container_at_index_def del: container_not_range.simps split del: if_split)
next
  case absent
  have "{a .. b} \<noteq> {}" using assms(4) by auto
  then show ?thesis using insert_changed' [OF assms(2,3) ones_sets(1) [OF assms(4)]] ones_sets(2) [OF assms(4)] absent(1,4)
    by (simp add: insert_flipped_container_def Let_def)
qed

lemma insert_fully_flipped_changed:
  assumes "ra_inv x" and "ra_inv ans" and "at (ra_entries ans) k = {}"
  shows "changed ans k (- at (ra_entries x) k) (insert_fully_flipped_container ans x k)"
  using assms(1)
proof (cases rule: ra_index_cases [where k = k])
  case (found i)
  note c = conjunct1 [OF container_not_correct(1) [OF found(6)]] conjunct2 [OF container_not_correct(1) [OF found(6)]]
  show ?thesis using insert_or_not_changed [OF assms(2,3) c(1)] found(1,5) c(2)
    by (simp add: insert_fully_flipped_container_def Let_def ra_get_container_at_index_def del: container_not.simps split del: if_split)
next
  case absent
  show ?thesis using insert_changed' [OF assms(2,3) every_low(1)] every_low(2) absent(1,4)
    by (simp add: insert_fully_flipped_container_def Let_def)
qed

lemma inplace_flip_changed:
  assumes "ra_inv x" and "a \<le> b"
  shows "changed x k (sym_diff (at (ra_entries x) k) {a .. b}) (inplace_flip_container x k a b)"
  using assms(1)
proof (cases rule: ra_index_cases [where k = k])
  case (found i)
  note c = not_range_sets(3,4) [OF found(6) assms(2)]
  show ?thesis using set_or_remove_changed [OF assms(1) found(2,3) c(1)] found(1,5) c(2)
    by (simp add: inplace_flip_container_def Let_def ra_get_container_at_index_def del: container_inot_range.simps split del: if_split cong del: if_weak_cong)
next
  case absent
  have "{a .. b} \<noteq> {}" using assms(2) by auto
  then show ?thesis using insert_changed' [OF assms(1) absent(4) ones_sets(1) [OF assms(2)]] ones_sets(2) [OF assms(2)] absent(1,4)
    by (simp add: inplace_flip_container_def Let_def)
qed

lemma inplace_fully_flip_changed:
  assumes "ra_inv x"
  shows "changed x k (- at (ra_entries x) k) (inplace_fully_flip_container x k)"
  using assms
proof (cases rule: ra_index_cases [where k = k])
  case (found i)
  note c = conjunct1 [OF container_not_correct(2) [OF found(6)]] conjunct2 [OF container_not_correct(2) [OF found(6)]]
  show ?thesis using set_or_remove_changed [OF assms found(2,3) c(1)] found(1,5) c(2)
    by (simp add: inplace_fully_flip_container_def Let_def ra_get_container_at_index_def del: container_inot.simps split del: if_split cong del: if_weak_cong)
next
  case absent
  show ?thesis using insert_changed' [OF assms absent(4) every_low(1)] every_low(2) absent(1,4)
    by (simp add: inplace_fully_flip_container_def Let_def)
qed

section \<open>From key to key\<close>

text \<open>Below position \<open>p\<close> the sets are those of \<open>F\<close>, from there on those of \<open>G\<close>.\<close>

definition reached :: "(u16 \<Rightarrow> u16 set) \<Rightarrow> (u16 \<Rightarrow> u16 set) \<Rightarrow> nat \<Rightarrow> roaring_array \<Rightarrow> bool" where
  "reached F G p r \<longleftrightarrow> ra_inv r \<and> (\<forall>k. at (ra_entries r) k = (if unat k < p then F k else G k))"

lemma reached_inv: "reached F G p r \<Longrightarrow> ra_inv r"
  by (simp add: reached_def)

lemma reached_next: "reached F G p r \<Longrightarrow> unat k = p \<Longrightarrow> at (ra_entries r) k = G k"
  by (simp add: reached_def)

lemma reached_step:
  assumes "reached F G p r" and "changed r k (F k) r'" and "unat k = p"
  shows "reached F G (p + 1) r'"
  unfolding reached_def
proof (intro conjI allI)
  show "ra_inv r'" using assms(2) by (rule changed_inv)
  fix k'
  show "at (ra_entries r') k' = (if unat k' < p + 1 then F k' else G k')"
  proof (cases "k' = k")
    case False
    then have "unat k' \<noteq> p" using assms(3) by (auto simp: word_unat_eq_iff)
    then show ?thesis using assms(1,2) False by (simp add: reached_def changed_def less_Suc_eq)
  qed (use assms(2,3) in \<open>simp add: changed_def\<close>)
qed

lemma reached_fold:
  assumes "reached F G p r" and "p \<le> q" and "q \<le> 65536"
    and "\<And>k r. p \<le> unat k \<Longrightarrow> unat k < q \<Longrightarrow> reached F G (unat k) r \<Longrightarrow> changed r k (F k) (step k r)"
  shows "reached F G q (fold (\<lambda>n r. step (word_of_nat n) r) [p ..< q] r)"
  using assms(2-4)
proof (induction "q - p" arbitrary: q)
  case 0
  then show ?case using assms(1) by simp
next
  case (Suc d)
  obtain q' where q: "q = Suc q'" "p \<le> q'" using Suc.hyps(2) by (cases q) auto
  have n: "unat (word_of_nat q' :: u16) = q'" using Suc.prems(2) q by simp
  have IH: "reached F G q' (fold (\<lambda>n r. step (word_of_nat n) r) [p ..< q'] r)"
    using Suc.hyps(2) Suc.prems q by (intro Suc.hyps(1)) auto
  have "changed (fold (\<lambda>n r. step (word_of_nat n) r) [p ..< q'] r) (word_of_nat q') (F (word_of_nat q'))
      (step (word_of_nat q') (fold (\<lambda>n r. step (word_of_nat n) r) [p ..< q'] r))"
    using q IH by (intro Suc.prems(3)) (simp_all add: n)
  then have "reached F G (q' + 1) (step (word_of_nat q') (fold (\<lambda>n r. step (word_of_nat n) r) [p ..< q'] r))"
    by (rule reached_step [OF IH _ n])
  then show ?case using q by simp
qed

lemma reached_all:
  assumes "reached F G p r" and "\<And>k. p \<le> unat k \<Longrightarrow> G k = F k"
  shows "ra_inv r \<and> (\<forall>k. at (ra_entries r) k = F k)"
  using assms by (simp add: reached_def linorder_not_less)

section \<open>Copying the ends\<close>

lemma at_join: "at es k = {y. join k y \<in> entries_abs es}"
  by (simp add: join_mem)

lemma dropWhile_at:
  "entries_ok P es \<Longrightarrow> at (dropWhile (\<lambda>e. fst e < k) es) k' = (if k \<le> k' then at es k' else {})"
  unfolding at_join by (simp add: dropWhile_abs)

lemma takeWhile_at:
  assumes "entries_ok P es"
  shows "at (takeWhile (\<lambda>e. fst e < k) es) k' = (if k' < k then at es k' else {})"
proof (cases "k' < k")
  case True
  have "at es k' = at (takeWhile (\<lambda>e. fst e < k) es) k' \<union> at (dropWhile (\<lambda>e. fst e < k) es) k'"
    using at_append_ok [of P "takeWhile (\<lambda>e. fst e < k) es" "dropWhile (\<lambda>e. fst e < k) es" k'] assms by simp
  moreover have "\<not> k \<le> k'" using True by simp
  ultimately show ?thesis using True dropWhile_at [OF assms, of k k'] by simp
next
  case False
  then have "k' \<notin> fst ` set (takeWhile (\<lambda>e. fst e < k) es)" by (auto dest: set_takeWhileD)
  then show ?thesis using False at_absent by simp
qed

lemma append_copy_simps:
  assumes "i < ra_size sa"
  shows "ra_entries (ra_append_copy ra sa i cow) = ra_entries ra @ copy_entries cow [ra_entries sa ! i]"
    and "ra_flags (ra_append_copy ra sa i cow) = ra_flags ra" and "room (ra_append_copy ra sa i cow)"
  by (cases "ra_entries sa ! i"; simp add: ra_append_copy_def Let_def room_appended)+

lemma append_copies_until_loop_simps:
  "i \<le> ra_size sa \<Longrightarrow> room ra \<Longrightarrow>
    ra_entries (ra_append_copies_until_loop sa k cow i ra) = ra_entries ra @ copy_entries cow (takeWhile (\<lambda>e. fst e < k) (drop i (ra_entries sa)))
    \<and> ra_flags (ra_append_copies_until_loop sa k cow i ra) = ra_flags ra \<and> room (ra_append_copies_until_loop sa k cow i ra)"
proof (induction sa k cow i ra rule: ra_append_copies_until_loop.induct)
  case (1 sa k cow i ra)
  show ?case
  proof (cases "i < ra_size sa")
    case True
    then have d: "drop i (ra_entries sa) = ra_entries sa ! i # drop (i + 1) (ra_entries sa)" by (simp add: Cons_nth_drop_Suc)
    have key: "ra_keys sa ! i = fst (ra_entries sa ! i)" using True by simp
    show ?thesis
    proof (cases "k \<le> ra_keys sa ! i")
      case stop: True
      have "ra_append_copies_until_loop sa k cow i ra = ra" using True stop by (subst ra_append_copies_until_loop.simps) simp
      moreover have "\<not> fst (ra_entries sa ! i) < k" using stop key by simp
      ultimately show ?thesis using 1(3) unfolding d by simp
    next
      case False
      have step: "ra_append_copies_until_loop sa k cow i ra = ra_append_copies_until_loop sa k cow (i + 1) (ra_append_copy ra sa i cow)"
        using True False by (subst ra_append_copies_until_loop.simps) simp
      have IH: "ra_entries (ra_append_copies_until_loop sa k cow (i + 1) (ra_append_copy ra sa i cow)) =
            ra_entries (ra_append_copy ra sa i cow) @ copy_entries cow (takeWhile (\<lambda>e. fst e < k) (drop (i + 1) (ra_entries sa)))
          \<and> ra_flags (ra_append_copies_until_loop sa k cow (i + 1) (ra_append_copy ra sa i cow)) = ra_flags (ra_append_copy ra sa i cow)
          \<and> room (ra_append_copies_until_loop sa k cow (i + 1) (ra_append_copy ra sa i cow))"
        using True append_copy_simps(3) [OF True] by (intro 1(1) [OF True False]) simp_all
      obtain k' c where e: "ra_entries sa ! i = (k', c)" by (cases "ra_entries sa ! i")
      then have "k' < k" using False key by simp
      then show ?thesis using IH append_copy_simps(1,2) [OF True] unfolding step d by (simp add: e)
    qed
  next
    case False
    have "ra_append_copies_until_loop sa k cow i ra = ra" using False by (subst ra_append_copies_until_loop.simps) simp
    then show ?thesis using False 1(2,3) by simp
  qed
qed

lemma append_copies_until_reached:
  assumes "ra_inv sa" and "ra_entries ra = []" and "room ra" and "flags_ok (ra_flags ra)"
    and "\<And>k'. k' < k \<Longrightarrow> F k' = at (ra_entries sa) k'"
  shows "reached F (\<lambda>_. {}) (unat k) (ra_append_copies_until ra sa k cow)"
proof -
  let ?front = "takeWhile (\<lambda>e. fst e < k) (ra_entries sa)" and ?r = "ra_append_copies_until ra sa k cow"
  have r: "ra_entries ?r = copy_entries cow ?front" "ra_flags ?r = ra_flags ra" "room ?r"
    using append_copies_until_loop_simps [of 0 sa ra k cow] assms(2,3) by (simp_all add: ra_append_copies_until_def)
  have "entries_inv (?front @ dropWhile (\<lambda>e. fst e < k) (ra_entries sa))" using ra_ok_entries [OF assms(1)] by simp
  then have front: "entries_inv ?front" unfolding entries_ok_append by blast
  have "ra_inv ?r" using copy_entries_correct(1) [OF front] r assms(4) by (intro ra_okI) simp_all
  moreover have "at (ra_entries ?r) k' = (if unat k' < unat k then F k' else {})" for k'
    using copy_entries_correct(2) [OF front] takeWhile_at [OF ra_ok_entries [OF assms(1)], of k k'] assms(5)
    by (simp add: r word_less_nat_alt)
  ultimately show ?thesis by (simp add: reached_def)
qed

lemma after_location:
  fixes k :: u16
  assumes "ra_inv sa"
  defines "l \<equiv> (if ra_get_index sa k \<ge> 0 then ra_get_index sa k + 1 else - ra_get_index sa k - 1)"
  shows "nat l \<le> ra_size sa" and "at (drop (nat l) (ra_entries sa)) k' = (if k < k' then at (ra_entries sa) k' else {})"
    and "\<forall>j \<in> fst ` set (drop (nat l) (ra_entries sa)). k < j"
proof -
  let ?es = "ra_entries sa"
  have lb: "at (drop (lower_bound (ra_keys sa) k) ?es) k' = (if k \<le> k' then at ?es k' else {})"
    unfolding drop_lower_bound by (rule dropWhile_at [OF ra_ok_entries [OF assms(1)]])
  have ok: "entries_inv (drop (lower_bound (ra_keys sa) k) ?es)" by (rule entries_ok_drop [OF ra_ok_entries [OF assms(1)]])
  have "nat l \<le> ra_size sa \<and> at (drop (nat l) ?es) k' = (if k < k' then at ?es k' else {}) \<and> (\<forall>j \<in> fst ` set (drop (nat l) ?es). k < j)"
    using assms(1)
  proof (cases rule: ra_index_cases [where k = k])
    case (found i)
    have l: "nat l = i + 1" using found(1) by (simp add: l_def nat_add_distrib)
    have cut: "drop (lower_bound (ra_keys sa) k) ?es = (k, snd (?es ! i)) # drop (i + 1) ?es"
      using found(2,3,8) Cons_nth_drop_Suc [of i ?es] by (metis Suc_eq_plus1 prod.collapse)
    have above: "\<forall>j \<in> fst ` set (drop (i + 1) ?es). k < j" using ok [unfolded cut] by simp
    then have "at (drop (i + 1) ?es) k = {}" by (rule at_below)
    then have "at (drop (i + 1) ?es) k' = (if k < k' then at ?es k' else {})"
      using lb [unfolded cut at_Cons] by (cases "k' = k") (auto simp: order.order_iff_strict)
    then show ?thesis using found(2) above by (simp only: l) simp
  next
    case absent
    have l: "nat l = lower_bound (ra_keys sa) k" using absent(1,2) by (simp add: l_def)
    have "k < j" if "j \<in> fst ` set (drop (lower_bound (ra_keys sa) k) ?es)" for j
    proof -
      have "at (drop (lower_bound (ra_keys sa) k) ?es) j \<noteq> {}" using at_nonempty [OF ok] that by blast
      moreover have "at (drop (lower_bound (ra_keys sa) k) ?es) j = (if k \<le> j then at ?es j else {})"
        unfolding drop_lower_bound by (rule dropWhile_at [OF ra_ok_entries [OF assms(1)]])
      ultimately show ?thesis using absent(4) by (cases "k = j") (auto split: if_splits)
    qed
    then show ?thesis unfolding l lb using absent(4) lower_bound_le [of "ra_keys sa" k] by (auto simp: order.order_iff_strict)
  qed
  then show "nat l \<le> ra_size sa" "at (drop (nat l) ?es) k' = (if k < k' then at ?es k' else {})"
    "\<forall>j \<in> fst ` set (drop (nat l) ?es). k < j" by blast+
qed

lemma append_copies_after_reached:
  fixes cow :: bool
  assumes "ra_inv sa" and "reached F (\<lambda>_. {}) (unat k + 1) ra"
  defines "r \<equiv> ra_append_copies_after ra sa k cow"
  shows "ra_inv r" and "at (ra_entries r) k' = (if k < k' then at (ra_entries sa) k' else F k')"
proof -
  let ?l = "nat (if ra_get_index sa k \<ge> 0 then ra_get_index sa k + 1 else - ra_get_index sa k - 1)"
  let ?rest = "drop ?l (ra_entries sa)"
  note l = after_location [OF assms(1), of k]
  have rest: "entries_inv ?rest" by (rule entries_ok_drop [OF ra_ok_entries [OF assms(1)]])
  have r: "ra_entries r = ra_entries ra @ copy_entries cow ?rest" "ra_flags r = ra_flags ra" "room r"
    using append_copy_range_simps [OF order_refl, where i = ?l and sa = sa and ra = ra and cow = cow] l(1)
    by (simp_all add: r_def ra_append_copies_after_def Let_def)
  have inv: "ra_inv ra" using assms(2) by (rule reached_inv)
  have below: "j \<le> k" if "j \<in> fst ` set (ra_entries ra)" for j
  proof -
    have "at (ra_entries ra) j \<noteq> {}" using at_nonempty [OF ra_ok_entries [OF inv]] that by blast
    then have "unat j < unat k + 1" using assms(2) by (auto simp: reached_def split: if_splits)
    then show ?thesis by (simp add: word_le_nat_alt)
  qed
  have ok: "entries_inv (ra_entries ra @ copy_entries cow ?rest)"
    unfolding entries_ok_append copy_entries_simps(3)
    using ra_ok_entries [OF inv] copy_entries_correct(1) [OF rest] below l(3) order.strict_trans1 by blast
  then show "ra_inv r" using r inv by (intro ra_okI) (simp_all add: ra_ok_def)
  show "at (ra_entries r) k' = (if k < k' then at (ra_entries sa) k' else F k')"
    unfolding r(1) at_append_ok [OF ok] copy_entries_correct(2) [OF rest] l(2)
    using assms(2) by (auto simp: reached_def word_less_nat_alt)
qed

section \<open>Complementing a range\<close>

definition flipped :: "roaring_array \<Rightarrow> u32 \<Rightarrow> u32 \<Rightarrow> u16 \<Rightarrow> u16 set" where
  "flipped x s e k = sym_diff (at (ra_entries x) k) {y. s \<le> join k y \<and> join k y \<le> e}"

lemma flipped_abs:
  assumes "\<And>k. at (ra_entries r) k = flipped x s e k"
  shows "ra_abs r = sym_diff (ra_abs x) {s .. e}"
proof -
  have "z \<in> ra_abs r \<longleftrightarrow> z \<in> sym_diff (ra_abs x) {s .. e}" for z
    by (simp add: mem_ra_abs assms flipped_def)
  then show ?thesis by blast
qed

lemma le_join_iff: "x \<le> join k y \<longleftrightarrow> high16 x < k \<or> high16 x = k \<and> low16 x \<le> y"
  using halves_le [of x "join k y"] by simp

lemma u16_top: "y \<le> (0xFFFF :: u16)"
proof -
  have "unat y \<le> 65535" using unat_u16_less [of y] by linarith
  then show ?thesis by (simp add: word_le_nat_alt)
qed

lemma u16_succ: "unat x + 1 < 65536 \<Longrightarrow> unat (x + 1) = unat x + 1" for x :: u16
proof -
  assume "unat x + 1 < 65536"
  then have "unat (word_of_nat (unat x + 1) :: u16) = unat x + 1" by (rule unat_u16_of_nat)
  moreover have "word_of_nat (unat x + 1) = x + 1" by simp
  ultimately show ?thesis by (simp only:)
qed

lemma flipped_at:
  shows "k < high16 s \<or> high16 e < k \<Longrightarrow> flipped x s e k = at (ra_entries x) k"
    and "high16 s = high16 e \<Longrightarrow> flipped x s e (high16 s) = sym_diff (at (ra_entries x) (high16 s)) {low16 s .. low16 e}"
    and "high16 s < high16 e \<Longrightarrow> flipped x s e (high16 s) = sym_diff (at (ra_entries x) (high16 s)) {low16 s .. 0xFFFF}"
    and "high16 s < high16 e \<Longrightarrow> flipped x s e (high16 e) = sym_diff (at (ra_entries x) (high16 e)) {0 .. low16 e}"
    and "high16 s \<le> k \<Longrightarrow> k \<le> high16 e \<Longrightarrow> (k = high16 s \<longrightarrow> low16 s = 0) \<Longrightarrow> (k = high16 e \<longrightarrow> low16 e = 0xFFFF) \<Longrightarrow>
      flipped x s e k = - at (ra_entries x) k"
proof -
  note top = u16_top
  show "k < high16 s \<or> high16 e < k \<Longrightarrow> flipped x s e k = at (ra_entries x) k"
    unfolding flipped_def le_join_iff join_le_iff by auto
  show "high16 s = high16 e \<Longrightarrow> flipped x s e (high16 s) = sym_diff (at (ra_entries x) (high16 s)) {low16 s .. low16 e}"
    unfolding flipped_def le_join_iff join_le_iff by auto
  show "high16 s < high16 e \<Longrightarrow> flipped x s e (high16 s) = sym_diff (at (ra_entries x) (high16 s)) {low16 s .. 0xFFFF}"
    unfolding flipped_def le_join_iff join_le_iff using top by auto
  show "high16 s < high16 e \<Longrightarrow> flipped x s e (high16 e) = sym_diff (at (ra_entries x) (high16 e)) {0 .. low16 e}"
    unfolding flipped_def le_join_iff join_le_iff by auto
  show "high16 s \<le> k \<Longrightarrow> k \<le> high16 e \<Longrightarrow> (k = high16 s \<longrightarrow> low16 s = 0) \<Longrightarrow> (k = high16 e \<longrightarrow> low16 e = 0xFFFF) \<Longrightarrow>
      flipped x s e k = - at (ra_entries x) k"
  proof -
    assume h: "high16 s \<le> k" "k \<le> high16 e" "k = high16 s \<longrightarrow> low16 s = 0" "k = high16 e \<longrightarrow> low16 e = 0xFFFF"
    have "s \<le> join k y \<and> join k y \<le> e" for y
      unfolding le_join_iff join_le_iff using h top [of y] word_zero_le [of y]
      by (cases "k = high16 s"; cases "k = high16 e") (simp_all add: order.order_iff_strict)
    then show ?thesis unfolding flipped_def by auto
  qed
qed

text \<open>The steps between the two ends, for either way of flipping: first the partial container in front,
  then the whole ones, then the partial one behind.\<close>

lemma flip_steps:
  fixes s e :: u32
  assumes lt: "high16 s < high16 e" and start: "reached (flipped x s e) G (unat (high16 s)) r"
    and part: "\<And>r k a b. ra_inv r \<Longrightarrow> at (ra_entries r) k = G k \<Longrightarrow> a \<le> b \<Longrightarrow>
      changed r k (sym_diff (at (ra_entries x) k) {a .. b}) (flip_part r k a b)"
    and all: "\<And>r k. ra_inv r \<Longrightarrow> at (ra_entries r) k = G k \<Longrightarrow> changed r k (- at (ra_entries x) k) (flip_all r k)"
  defines "r1 \<equiv> (if low16 s > 0 then flip_part r (high16 s) (low16 s) 0xFFFF else r)"
    and "hs \<equiv> (if low16 s > 0 then high16 s + 1 else high16 s)"
    and "he \<equiv> (if low16 e \<noteq> 0xFFFF then high16 e - 1 else high16 e)"
  defines "r2 \<equiv> fold (\<lambda>hb r. flip_all r (word_of_nat hb)) [unat hs ..< unat he + 1] r1"
  shows "reached (flipped x s e) G (unat (high16 e) + 1) (if low16 e \<noteq> 0xFFFF then flip_part r2 (he + 1) 0 (low16 e) else r2)"
proof -
  note top = u16_top
  have nat_lt: "unat (high16 s) < unat (high16 e)" using lt by (simp add: word_less_nat_alt)
  have hs: "unat hs = (if low16 s > 0 then unat (high16 s) + 1 else unat (high16 s))"
  proof -
    have "unat (high16 s + 1) = unat (high16 s) + 1"
      using nat_lt unat_u16_less [of "high16 e"] by (intro u16_succ) linarith
    then show ?thesis by (simp add: hs_def)
  qed
  have pred: "unat (high16 e - 1) = unat (high16 e) - 1" using nat_lt by (intro unat_minus_one) auto
  then have he: "unat he + 1 = (if low16 e \<noteq> 0xFFFF then unat (high16 e) else unat (high16 e) + 1)" using nat_lt by (simp add: he_def)
  have r1: "reached (flipped x s e) G (unat hs) r1"
  proof (cases "low16 s > 0")
    case True
    have "changed r (high16 s) (flipped x s e (high16 s)) r1"
      using True part [OF reached_inv [OF start] reached_next [OF start refl] top] flipped_at(3) [OF lt] by (simp add: r1_def)
    then show ?thesis using reached_step [OF start _ refl] hs True by simp
  next
    case False
    then show ?thesis using start hs by (simp add: r1_def)
  qed
  have r2: "reached (flipped x s e) G (unat he + 1) r2"
    unfolding r2_def
  proof (rule reached_fold [OF r1])
    show "unat hs \<le> unat he + 1" "unat he + 1 \<le> 65536"
      using hs he nat_lt less_imp_le [OF unat_u16_less [of "high16 e"]] unat_u16_less [of "high16 e"]
      by (auto split: if_splits simp: Suc_le_eq simp del: unat_u16_less)
    fix k :: u16 and r
    assume k: "unat hs \<le> unat k" "unat k < unat he + 1" and r: "reached (flipped x s e) G (unat k) r"
    have "high16 s \<le> k" "k \<le> high16 e" using k hs he by (auto simp: word_le_nat_alt split: if_splits)
    moreover have "k = high16 s \<longrightarrow> low16 s = 0" using k(1) hs by (auto simp: word_gt_0 split: if_splits)
    moreover have "k = high16 e \<longrightarrow> low16 e = 0xFFFF" using k(2) he by (auto split: if_splits)
    ultimately have "flipped x s e k = - at (ra_entries x) k" by (rule flipped_at(5))
    then show "changed r k (flipped x s e k) (flip_all r k)" using all [OF reached_inv [OF r] reached_next [OF r refl]] by simp
  qed
  show ?thesis
  proof (cases "low16 e \<noteq> 0xFFFF")
    case True
    then have pos: "he + 1 = high16 e" "unat (high16 e) = unat he + 1" using he by (simp_all add: he_def)
    have "changed r2 (high16 e) (flipped x s e (high16 e)) (flip_part r2 (high16 e) 0 (low16 e))"
      using part [OF reached_inv [OF r2] reached_next [OF r2 pos(2)], of 0 "low16 e"] flipped_at(4) [OF lt] by simp
    then show ?thesis using reached_step [OF r2 _ pos(2)] True pos by simp
  next
    case False
    then show ?thesis using r2 he by simp
  qed
qed

lemma roaring_bitmap_flip_closed_correct:
  assumes "ra_inv x"
  shows "ra_inv (roaring_bitmap_flip_closed x s e)" and "ra_abs (roaring_bitmap_flip_closed x s e) = sym_diff (ra_abs x) {s .. e}"
proof -
  let ?F = "flipped x s e" and ?G = "\<lambda>_ :: u16. {} :: u16 set" and ?cow = "is_cow x"
  have "ra_inv (roaring_bitmap_flip_closed x s e) \<and> ra_abs (roaring_bitmap_flip_closed x s e) = sym_diff (ra_abs x) {s .. e}"
  proof (cases "s > e")
    case True
    then have "{s .. e} = {}" by simp
    then show ?thesis
      using True roaring_bitmap_copy_ok [OF copyable(1) assms] ra_abs_eqI [of "roaring_bitmap_copy x" x]
      by (simp add: roaring_bitmap_flip_closed_def)
  next
    case False
    then have le: "high16 s \<le> high16 e" using halves_le [of s e] by auto
    define ans where "ans = ra_append_copies_until (roaring_bitmap_set_copy_on_write roaring_bitmap_create ?cow) x (high16 s) ?cow"
    have ans: "reached ?F ?G (unat (high16 s)) ans"
      unfolding ans_def roaring_bitmap_create_def
      using flipped_at(1) by (intro append_copies_until_reached [OF assms]) (simp_all add: roaring_bitmap_create_with_capacity_def)
    have final: "ra_inv (ra_append_copies_after r x (high16 e) ?cow) \<and>
        ra_abs (ra_append_copies_after r x (high16 e) ?cow) = sym_diff (ra_abs x) {s .. e}"
      if r: "reached ?F ?G (unat (high16 e) + 1) r" for r
      using append_copies_after_reached [OF assms r] flipped_at(1) [of _ s e x]
      by (intro conjI flipped_abs) simp_all
    show ?thesis
    proof (cases "high16 s = high16 e")
      case True
      have low: "low16 s \<le> low16 e" using False True halves_le [of s e] by (simp add: linorder_not_less)
      have "changed ans (high16 s) (?F (high16 s)) (insert_flipped_container ans x (high16 s) (low16 s) (low16 e))"
        using insert_flipped_changed [OF assms reached_inv [OF ans] reached_next [OF ans refl] low] flipped_at(2) [OF True] by simp
      from reached_step [OF ans this refl] final show ?thesis
        using False True by (simp add: roaring_bitmap_flip_closed_def Let_def ans_def)
    next
      case distinct: False
      then have lt: "high16 s < high16 e" using le by simp
      let ?he = "if low16 e \<noteq> 0xFFFF then high16 e - 1 else high16 e"
      have restored: "(if low16 e \<noteq> 0xFFFF then ?he + 1 else ?he) = high16 e" by simp
      note steps = flip_steps [OF lt ans, of "\<lambda>r k. insert_flipped_container r x k" "\<lambda>r k. insert_fully_flipped_container r x k",
          OF insert_flipped_changed [OF assms] insert_fully_flipped_changed [OF assms]]
      show ?thesis
        unfolding roaring_bitmap_flip_closed_def Let_def if_not_P [OF False] if_not_P [OF distinct] restored ans_def [symmetric]
        by (rule final [OF steps])
    qed
  qed
  then show "ra_inv (roaring_bitmap_flip_closed x s e)" "ra_abs (roaring_bitmap_flip_closed x s e) = sym_diff (ra_abs x) {s .. e}"
    by blast+
qed

lemma roaring_bitmap_flip_inplace_closed_correct:
  assumes "ra_inv x"
  shows "ra_inv (roaring_bitmap_flip_inplace_closed x s e)"
    and "ra_abs (roaring_bitmap_flip_inplace_closed x s e) = sym_diff (ra_abs x) {s .. e}"
proof -
  let ?F = "flipped x s e" and ?G = "at (ra_entries x)"
  have "ra_inv (roaring_bitmap_flip_inplace_closed x s e) \<and> ra_abs (roaring_bitmap_flip_inplace_closed x s e) = sym_diff (ra_abs x) {s .. e}"
  proof (cases "s > e")
    case True
    then have "{s .. e} = {}" by simp
    then show ?thesis using True assms by (simp add: roaring_bitmap_flip_inplace_closed_def)
  next
    case False
    then have le: "high16 s \<le> high16 e" using halves_le [of s e] by auto
    have start: "reached ?F ?G (unat (high16 s)) x"
      using assms flipped_at(1) [of _ s e x] by (simp add: reached_def word_less_nat_alt)
    have final: "ra_inv r \<and> ra_abs r = sym_diff (ra_abs x) {s .. e}" if r: "reached ?F ?G (unat (high16 e) + 1) r" for r
    proof -
      have "?G k = ?F k" if "unat (high16 e) + 1 \<le> unat k" for k
        using that flipped_at(1) [of k s e x] by (simp add: word_less_nat_alt)
      then show ?thesis using reached_all [OF r] flipped_abs [of r x s e] by blast
    qed
    have part: "changed r k (sym_diff (?G k) {a .. b}) (inplace_flip_container r k a b)"
      if "ra_inv r" "at (ra_entries r) k = ?G k" "a \<le> b" for r k a b
      using inplace_flip_changed [OF that(1,3), of k] that(2) by simp
    have all: "changed r k (- ?G k) (inplace_fully_flip_container r k)" if "ra_inv r" "at (ra_entries r) k = ?G k" for r k
      using inplace_fully_flip_changed [OF that(1), of k] that(2) by simp
    show ?thesis
    proof (cases "high16 s = high16 e")
      case True
      have low: "low16 s \<le> low16 e" using False True halves_le [of s e] by (simp add: linorder_not_less)
      have "changed x (high16 s) (?F (high16 s)) (inplace_flip_container x (high16 s) (low16 s) (low16 e))"
        using part [OF assms refl low, of "high16 s"] flipped_at(2) [OF True] by simp
      then have "reached ?F ?G (unat (high16 e) + 1) (inplace_flip_container x (high16 s) (low16 s) (low16 e))"
        using reached_step [OF start _ refl] True by simp
      from final [OF this] show ?thesis
        unfolding roaring_bitmap_flip_inplace_closed_def Let_def if_not_P [OF False] if_P [OF True] .
    next
      case distinct: False
      then have lt: "high16 s < high16 e" using le by simp
      show ?thesis
        unfolding roaring_bitmap_flip_inplace_closed_def Let_def if_not_P [OF False] if_not_P [OF distinct]
        by (rule final [OF flip_steps [OF lt start part all]])
    qed
  qed
  then show "ra_inv (roaring_bitmap_flip_inplace_closed x s e)"
    "ra_abs (roaring_bitmap_flip_inplace_closed x s e) = sym_diff (ra_abs x) {s .. e}"
    by blast+
qed

text \<open>Half-open ranges within \<open>2 ^ 32\<close>.\<close>

lemma half_open_range:
  assumes "unat hi \<le> 4294967296" and "unat lo < unat (hi :: u64)"
  shows "\<not> (lo \<ge> hi \<or> lo > 0xFFFFFFFF + 1)" and "{ucast lo .. ucast (hi - 1)} = {x :: u32. unat lo \<le> unat x \<and> unat x < unat hi}"
proof -
  note b = u32_bounds [OF assms(2,1)]
  have "\<not> lo \<ge> hi" using assms(2) by (simp add: word_le_nat_alt)
  moreover have "\<not> lo > 0xFFFFFFFF + 1" using assms by (simp add: word_less_nat_alt)
  ultimately show "\<not> (lo \<ge> hi \<or> lo > 0xFFFFFFFF + 1)" by blast
  show "{ucast lo .. ucast (hi - 1)} = {x :: u32. unat lo \<le> unat x \<and> unat x < unat hi}"
    unfolding set_eq_iff atLeastAtMost_iff mem_Collect_eq word_le_nat_alt b using assms(2) by auto
qed

lemma empty_range:
  fixes lo hi :: u64
  assumes "\<not> unat lo < unat hi"
  shows "lo \<ge> hi" and "{x :: u32. unat lo \<le> unat x \<and> unat x < unat hi} = {}"
  using assms by (auto simp: word_le_nat_alt)

lemma roaring_bitmap_flip_correct:
  assumes "ra_inv x" and "unat hi \<le> 4294967296"
  shows "ra_inv (roaring_bitmap_flip x lo hi)"
    and "ra_abs (roaring_bitmap_flip x lo hi) = sym_diff (ra_abs x) {v. unat lo \<le> unat v \<and> unat v < unat hi}"
    and "ra_inv (roaring_bitmap_flip_inplace x lo hi)"
    and "ra_abs (roaring_bitmap_flip_inplace x lo hi) = sym_diff (ra_abs x) {v. unat lo \<le> unat v \<and> unat v < unat hi}"
proof -
  let ?V = "{v :: u32. unat lo \<le> unat v \<and> unat v < unat hi}"
  have "ra_inv (roaring_bitmap_flip x lo hi) \<and> ra_abs (roaring_bitmap_flip x lo hi) = sym_diff (ra_abs x) ?V \<and>
      ra_inv (roaring_bitmap_flip_inplace x lo hi) \<and> ra_abs (roaring_bitmap_flip_inplace x lo hi) = sym_diff (ra_abs x) ?V"
  proof (cases "unat lo < unat hi")
    case True
    note r = half_open_range [OF assms(2) True]
    show ?thesis
      unfolding roaring_bitmap_flip_def roaring_bitmap_flip_inplace_def if_not_P [OF r(1)] r(2) [symmetric]
      using roaring_bitmap_flip_closed_correct [OF assms(1)] roaring_bitmap_flip_inplace_closed_correct [OF assms(1)] by blast
  next
    case False
    note e = empty_range [OF False]
    have "ra_inv (roaring_bitmap_copy x)" "ra_abs (roaring_bitmap_copy x) = ra_abs x"
      using roaring_bitmap_copy_ok [OF copyable(1) assms(1)] ra_abs_eqI [of "roaring_bitmap_copy x" x] by simp_all
    then show ?thesis using assms(1) e(1) unfolding e(2) roaring_bitmap_flip_def roaring_bitmap_flip_inplace_def by simp
  qed
  then show "ra_inv (roaring_bitmap_flip x lo hi)" "ra_abs (roaring_bitmap_flip x lo hi) = sym_diff (ra_abs x) ?V"
    "ra_inv (roaring_bitmap_flip_inplace x lo hi)" "ra_abs (roaring_bitmap_flip_inplace x lo hi) = sym_diff (ra_abs x) ?V"
    by blast+
qed

end
