(* ===== verification/Roaring_Ranges.thy ===== *)
theory Roaring_Ranges
  imports Roaring_Flip
begin

text \<open>
  Adding and removing a range of values (\<open>src/roaring.c\<close>). Adding opens a gap in the table for every
  key of the range and fills it from behind; removing moves the containers that are left to the front
  and closes the gap. The cells of a new gap hold whatever the memory holds until they are written.
\<close>

section \<open>The code\<close>

lemma less_toward: "unat (key - low) < unat (key - (low - 1))" if "key \<noteq> low - 1" for key low :: u32
proof -
  have pred: "unat (d - 1) < unat d" if "d \<noteq> 0" for d :: u32 using that by (simp add: unat_minus_one unat_gt_0)
  show ?thesis using pred [of "key - (low - 1)"] that by simp
qed

text \<open>The key runs down to \<open>min_key\<close>, and below \<open>0\<close> when that is \<open>0\<close>. A range of step \<open>1\<close> always gives a container.\<close>

function add_range_loop :: "u32 \<Rightarrow> u32 \<Rightarrow> roaring_bitmap \<Rightarrow> int \<Rightarrow> int \<Rightarrow> u32 \<Rightarrow> roaring_bitmap" where
  "add_range_loop lo hi r src dst key =
     (let min_key = drop_bit 16 lo; max_key = drop_bit 16 hi
      in if key = min_key - 1 then r
         else let container_min = (if min_key = key then lo AND 0xffff else 0);
                  container_max = (if max_key = key then hi AND 0xffff else 0xffff)
              in if src \<ge> 0 \<and> ucast (ra_keys r ! nat src) = key
                 then add_range_loop lo hi
                        (ra_replace_key_and_container_at_index r (nat dst) (ucast key)
                          (container_add_range (ra_get_container_at_index r (nat src)) container_min container_max))
                        (src - 1) (dst - 1) (key - 1)
                 else (case container_from_range container_min (container_max + 1) 1 of
                         Some c \<Rightarrow> add_range_loop lo hi (ra_replace_key_and_container_at_index r (nat dst) (ucast key) c)
                                     src (dst - 1) (key - 1)
                       | None \<Rightarrow> r))"
  by auto
termination
  by (relation "measure (\<lambda>(lo, hi, r, src, dst, key). unat (key - (drop_bit 16 lo - 1)))") (use less_toward in auto)

declare add_range_loop.simps [simp del]

definition roaring_bitmap_add_range_closed :: "roaring_bitmap \<Rightarrow> u32 \<Rightarrow> u32 \<Rightarrow> roaring_bitmap" where
  "roaring_bitmap_add_range_closed r lo hi =
     (if lo > hi then r
      else let min_key = drop_bit 16 lo; max_key = drop_bit 16 hi;
               num_required_containers = uint (max_key - min_key + 1);
               suffix_length = count_greater (ra_keys r) (ra_size r) (ucast max_key);
               prefix_length = int (count_less (ra_keys r) (nat (ra_get_size r - suffix_length)) (ucast min_key));
               common_length = ra_get_size r - prefix_length - suffix_length;
               r = (if num_required_containers > common_length
                    then ra_shift_tail r suffix_length (num_required_containers - common_length) else r);
               src = prefix_length + common_length - 1;
               dst = ra_get_size r - suffix_length - 1
           in add_range_loop lo hi r src dst max_key)"

definition roaring_bitmap_add_range :: "roaring_bitmap \<Rightarrow> u64 \<Rightarrow> u64 \<Rightarrow> roaring_bitmap" where
  "roaring_bitmap_add_range r lo hi =
     (if hi \<le> lo \<or> lo > 0xFFFFFFFF + 1 then r
      else roaring_bitmap_add_range_closed r (ucast lo) (ucast (hi - 1)))"

function remove_range_loop :: "u32 \<Rightarrow> u32 \<Rightarrow> roaring_bitmap \<Rightarrow> nat \<Rightarrow> nat \<Rightarrow> roaring_bitmap \<times> nat \<times> nat" where
  "remove_range_loop lo hi r src dst =
     (let min_key = drop_bit 16 lo; max_key = drop_bit 16 hi
      in if src < ra_size r \<and> ucast (ra_keys r ! src) \<le> max_key
         then let container_min = (if min_key = ucast (ra_keys r ! src) then lo AND 0xffff else 0);
                  container_max = (if max_key = ucast (ra_keys r ! src) then hi AND 0xffff else 0xffff)
              in case container_remove_range (ra_get_container_at_index r src) container_min container_max of
                   Some c \<Rightarrow> remove_range_loop lo hi (ra_replace_key_and_container_at_index r dst (ra_keys r ! src) c) (src + 1) (dst + 1)
                 | None \<Rightarrow> remove_range_loop lo hi r (src + 1) dst
         else (r, src, dst))"
  by auto
termination
  by (relation "measure (\<lambda>(lo, hi, r, src, dst). ra_size r - src)") (auto simp: ra_replace_key_and_container_at_index_def)

declare remove_range_loop.simps [simp del]

definition roaring_bitmap_remove_range_closed :: "roaring_bitmap \<Rightarrow> u32 \<Rightarrow> u32 \<Rightarrow> roaring_bitmap" where
  "roaring_bitmap_remove_range_closed r lo hi =
     (if lo > hi then r
      else let min_key = drop_bit 16 lo;
               src = count_less (ra_keys r) (ra_size r) (ucast min_key)
           in case remove_range_loop lo hi r src src of (r, src, dst) \<Rightarrow>
                if src > dst then ra_shift_tail r (ra_get_size r - int src) (int dst - int src) else r)"

definition roaring_bitmap_remove_range :: "roaring_bitmap \<Rightarrow> u64 \<Rightarrow> u64 \<Rightarrow> roaring_bitmap" where
  "roaring_bitmap_remove_range r lo hi =
     (if hi \<le> lo \<or> lo > 0xFFFFFFFF + 1 then r
      else roaring_bitmap_remove_range_closed r (ucast lo) (ucast (hi - 1)))"

section \<open>The part of the range under one key\<close>

definition cell_range :: "u32 \<Rightarrow> u32 \<Rightarrow> u16 \<Rightarrow> u16 set" where
  "cell_range lo hi k = {y. lo \<le> join k y \<and> join k y \<le> hi}"

lemma wide_key [simp]: "(drop_bit 16 x = (ucast k :: u32)) \<longleftrightarrow> high16 x = k" "(ucast k \<le> (drop_bit 16 x :: u32)) \<longleftrightarrow> k \<le> high16 x"
  "unat (drop_bit 16 x :: u32) = unat (high16 x)"
proof -
  show n: "unat (drop_bit 16 x :: u32) = unat (high16 x)" by (simp only: unat_high16(1) unat_halves(1))
  show "(drop_bit 16 x = (ucast k :: u32)) \<longleftrightarrow> high16 x = k" by (simp add: word_unat_eq_iff [of "drop_bit 16 x"] word_unat_eq_iff [of "high16 x"] n)
  show "(ucast k \<le> (drop_bit 16 x :: u32)) \<longleftrightarrow> k \<le> high16 x" by (simp add: word_le_nat_alt n)
qed

text \<open>The bounds the code computes for the container under a key of the range.\<close>

lemma cell_bounds:
  fixes lo hi :: u32 and k :: u16
  assumes "lo \<le> hi" and "high16 lo \<le> k" and "k \<le> high16 hi"
  defines "a \<equiv> (if drop_bit 16 lo = (ucast k :: u32) then lo AND 0xffff else 0)"
    and "b \<equiv> (if drop_bit 16 hi = (ucast k :: u32) then hi AND 0xffff else 0xffff)"
  shows "unat a \<le> unat b" and "unat b < 65536" and "closed_range a b = cell_range lo hi k" and "cell_range lo hi k \<noteq> {}"
proof -
  have a: "unat a = (if high16 lo = k then unat (low16 lo) else 0)" by (simp add: a_def low_range)
  have b: "unat b = (if high16 hi = k then unat (low16 hi) else 65535)" by (simp add: b_def low_range)
  have low: "high16 lo = high16 hi \<Longrightarrow> low16 lo \<le> low16 hi" using assms(1) halves_le [of lo hi] by simp
  show "unat b < 65536" by (simp add: b)
  show ab: "unat a \<le> unat b"
    using low less_imp_le [OF unat_u16_less [of "low16 lo"]] unat_u16_less [of "low16 lo"]
    unfolding a b by (auto simp: word_le_nat_alt simp del: unat_u16_less)
  have "lo \<le> join k y \<longleftrightarrow> unat a \<le> unat y" for y
    unfolding le_join_iff a using assms(2) by (auto simp: word_le_nat_alt order.order_iff_strict word_less_nat_alt word_unat_eq_iff)
  moreover have "join k y \<le> hi \<longleftrightarrow> unat y \<le> unat b" for y
  proof -
    have "unat y \<le> 65535" using unat_u16_less [of y] by linarith
    then show ?thesis
      unfolding join_le_iff b using assms(3) by (auto simp: word_le_nat_alt order.order_iff_strict word_less_nat_alt word_unat_eq_iff)
  qed
  ultimately show eq: "closed_range a b = cell_range lo hi k" by (simp add: cell_range_def)
  have "unat a < 65536" by (simp add: a)
  then have "unat (word_of_nat (unat a) :: u16) = unat a" by (rule unat_u16_of_nat)
  then have "word_of_nat (unat a) \<in> closed_range a b" using ab by simp
  then show "cell_range lo hi k \<noteq> {}" unfolding eq by blast
qed

lemma cell_range_outside: "k < high16 lo \<or> high16 hi < k \<Longrightarrow> cell_range lo hi k = {}"
  unfolding cell_range_def le_join_iff join_le_iff by auto

lemma ranged_abs:
  assumes "\<And>k. at (ra_entries r) k = (if add then at (ra_entries x) k \<union> cell_range lo hi k else at (ra_entries x) k - cell_range lo hi k)"
  shows "ra_abs r = (if add then ra_abs x \<union> {lo .. hi} else ra_abs x - {lo .. hi})"
proof -
  have "z \<in> ra_abs r \<longleftrightarrow> z \<in> (if add then ra_abs x \<union> {lo .. hi} else ra_abs x - {lo .. hi})" for z
    by (cases add) (simp_all add: mem_ra_abs assms cell_range_def)
  then show ?thesis by blast
qed

section \<open>Removing\<close>

text \<open>Every entry is kept, changed or dropped on its own.\<close>

definition map_cells :: "(u16 \<Rightarrow> container_t \<Rightarrow> container_t option) \<Rightarrow> (u16 \<times> container_t) list \<Rightarrow> (u16 \<times> container_t) list" where
  "map_cells h es = concat (map (\<lambda>(k, c). case h k c of None \<Rightarrow> [] | Some c' \<Rightarrow> [(k, c')]) es)"

lemma map_cells_simps [simp]:
  "map_cells h [] = []" "map_cells h ((k, c) # es) = (case h k c of None \<Rightarrow> [] | Some c' \<Rightarrow> [(k, c')]) @ map_cells h es"
  "map_cells h (xs @ ys) = map_cells h xs @ map_cells h ys"
  by (simp_all add: map_cells_def)

lemma dropWhile_above:
  fixes k :: u16
  shows "sorted (map fst es) \<Longrightarrow> e \<in> set (dropWhile (\<lambda>e. fst e \<le> k) es) \<Longrightarrow> k < fst e"
proof (induction es)
  case (Cons x es)
  show ?case
  proof (cases "fst x \<le> k")
    case False
    then have "fst x \<le> fst e" using Cons.prems by auto
    then show ?thesis using False by (simp add: linorder_not_le order.strict_trans2)
  qed (use Cons in simp)
qed simp

lemma map_cells_keep: "\<forall>e \<in> set es. h (fst e) (snd e) = Some (snd e) \<Longrightarrow> map_cells h es = es"
  by (induction es) auto

lemma map_cells_cong: "\<forall>e \<in> set es. h (fst e) (snd e) = g (fst e) (snd e) \<Longrightarrow> map_cells h es = map_cells g es"
  by (induction es) auto

lemma map_cells_correct:
  assumes "entries_inv es" and "\<And>k c. container_inv c \<Longrightarrow> container_abs c \<noteq> {} \<Longrightarrow> removes (h k c) (g k (container_abs c))"
  shows "entries_inv (map_cells h es) \<and> fst ` set (map_cells h es) \<subseteq> fst ` set es
    \<and> at (map_cells h es) k = (if k \<in> fst ` set es then g k (at es k) else {})"
  using assms(1)
proof (induction es)
  case (Cons e es)
  obtain k' c where e: "e = (k', c)" by (cases e)
  have IH: "entries_inv (map_cells h es)" "fst ` set (map_cells h es) \<subseteq> fst ` set es"
    "at (map_cells h es) k = (if k \<in> fst ` set es then g k (at es k) else {})"
    using Cons by (simp_all add: e)
  have above: "\<forall>j \<in> fst ` set es. k' < j" and c: "container_inv c" "container_abs c \<noteq> {}" using Cons.prems by (simp_all add: e)
  have none: "k' \<notin> fst ` set es" using above by blast
  note r = assms(2) [OF c, of k']
  show ?case
  proof (cases "h k' c")
    case None
    then have "g k' (container_abs c) = {}" using r by simp
    then show ?thesis using IH none None at_absent [of k' "map_cells h es"] by (cases "k = k'") (auto simp: e)
  next
    case (Some c')
    then have c': "container_inv c'" "container_abs c' = g k' (container_abs c)" "container_abs c' \<noteq> {}" using r by auto
    have "\<forall>j \<in> fst ` set (map_cells h es). k' < j" using IH(2) above by blast
    then show ?thesis using IH c' none Some by (auto simp: e)
  qed
qed simp

definition remove_cell_range :: "u32 \<Rightarrow> u32 \<Rightarrow> u16 \<Rightarrow> container_t \<Rightarrow> container_t option" where
  "remove_cell_range lo hi k c =
     (if k < high16 lo \<or> high16 hi < k then Some c
      else container_remove_range c (if drop_bit 16 lo = (ucast k :: u32) then lo AND 0xffff else 0)
             (if drop_bit 16 hi = (ucast k :: u32) then hi AND 0xffff else 0xffff))"

lemma remove_cell_range_removes:
  assumes "lo \<le> hi" and "container_inv c" and "container_abs c \<noteq> {}"
  shows "removes (remove_cell_range lo hi k c) (container_abs c - cell_range lo hi k)"
proof (cases "k < high16 lo \<or> high16 hi < k")
  case True
  then show ?thesis using assms cell_range_outside [OF True] by (simp add: remove_cell_range_def)
next
  case False
  then have k: "high16 lo \<le> k" "k \<le> high16 hi" by auto
  note b = cell_bounds [OF assms(1) k]
  show ?thesis
    unfolding remove_cell_range_def if_not_P [OF False] b(3) [symmetric] by (rule container_remove_range_correct [OF assms(2) b(1,2)])
qed

lemma remove_range_loop_correct:
  assumes "remove_range_loop lo hi r src dst = (r', src', dst')" and "high16 lo \<le> high16 hi"
    and "dst \<le> src" and "src \<le> ra_size r" and "\<forall>e \<in> set (drop src (ra_entries r)). high16 lo \<le> fst e"
  shows "take dst' (ra_entries r') = take dst (ra_entries r)
        @ map_cells (remove_cell_range lo hi) (takeWhile (\<lambda>e. fst e \<le> high16 hi) (drop src (ra_entries r)))
      \<and> drop src' (ra_entries r') = dropWhile (\<lambda>e. fst e \<le> high16 hi) (drop src (ra_entries r))
      \<and> dst' \<le> src' \<and> src' \<le> ra_size r' \<and> ra_size r' = ra_size r \<and> ra_flags r' = ra_flags r \<and> ra_allocation_size r' = ra_allocation_size r"
  using assms
proof (induction lo hi r src dst rule: remove_range_loop.induct)
  case (1 lo hi r src dst)
  show ?case
  proof (cases "src < ra_size r \<and> ucast (ra_keys r ! src) \<le> (drop_bit 16 hi :: u32)")
    case True
    obtain k c where e: "ra_entries r ! src = (k, c)" by fastforce
    have key: "ra_keys r ! src = k" using True e by simp
    then have khi: "k \<le> high16 hi" using True unfolding key by simp
    have d: "drop src (ra_entries r) = (k, c) # drop (src + 1) (ra_entries r)" using True e Cons_nth_drop_Suc [of src "ra_entries r"] by simp
    have klo: "high16 lo \<le> k" using 1(7) unfolding d by simp
    have inside: "\<not> (k < high16 lo \<or> high16 hi < k)" using khi klo by (simp add: linorder_not_less)
    let ?a = "if drop_bit 16 lo = (ucast k :: u32) then lo AND 0xffff else 0"
      and ?b = "if drop_bit 16 hi = (ucast k :: u32) then hi AND 0xffff else 0xffff"
    have cell: "remove_cell_range lo hi k c = container_remove_range c ?a ?b"
      unfolding remove_cell_range_def if_not_P [OF inside] ..
    have container: "ra_get_container_at_index r src = c" by (simp add: ra_get_container_at_index_def e)
    have rest: "\<forall>e \<in> set (drop (src + 1) (ra_entries r)). high16 lo \<le> fst e" using 1(7) unfolding d by simp
    have here: "src < ra_size r \<and> ucast k \<le> (drop_bit 16 hi :: u32)" using True unfolding key .
    show ?thesis
    proof (cases "remove_cell_range lo hi k c")
      case None
      have step: "remove_range_loop lo hi r src dst = remove_range_loop lo hi r (src + 1) dst"
        by (subst remove_range_loop.simps)
          (simp only: Let_def key container trans [OF cell [symmetric] None] here if_True option.case simp_thms)
      have "take dst' (ra_entries r') = take dst (ra_entries r)
          @ map_cells (remove_cell_range lo hi) (takeWhile (\<lambda>e. fst e \<le> high16 hi) (drop (src + 1) (ra_entries r)))
        \<and> drop src' (ra_entries r') = dropWhile (\<lambda>e. fst e \<le> high16 hi) (drop (src + 1) (ra_entries r))
        \<and> dst' \<le> src' \<and> src' \<le> ra_size r' \<and> ra_size r' = ra_size r \<and> ra_flags r' = ra_flags r \<and> ra_allocation_size r' = ra_allocation_size r"
        using None cell container key 1(3-6) True rest step
        by (intro 1(1) [OF refl refl True refl refl]) (simp_all del: wide_key)
      then show ?thesis using None khi unfolding d by simp
    next
      case (Some c')
      let ?r = "ra_replace_key_and_container_at_index r dst k c'"
      have step: "remove_range_loop lo hi r src dst = remove_range_loop lo hi ?r (src + 1) (dst + 1)"
        by (subst remove_range_loop.simps)
          (simp only: Let_def key container trans [OF cell [symmetric] Some] here if_True option.case simp_thms)
      have dst: "dst < ra_size r" using True 1(5) by simp
      have dr: "drop (src + 1) (ra_entries ?r) = drop (src + 1) (ra_entries r)"
        using 1(5) by (simp add: ra_replace_key_and_container_at_index_def)
      have tr: "take (dst + 1) (ra_entries ?r) = take dst (ra_entries r) @ [(k, c')]"
        using dst by (simp add: ra_replace_key_and_container_at_index_def take_Suc_conv_app_nth)
      have "take dst' (ra_entries r') = take (dst + 1) (ra_entries ?r)
          @ map_cells (remove_cell_range lo hi) (takeWhile (\<lambda>e. fst e \<le> high16 hi) (drop (src + 1) (ra_entries ?r)))
        \<and> drop src' (ra_entries r') = dropWhile (\<lambda>e. fst e \<le> high16 hi) (drop (src + 1) (ra_entries ?r))
        \<and> dst' \<le> src' \<and> src' \<le> ra_size r' \<and> ra_size r' = ra_size ?r \<and> ra_flags r' = ra_flags ?r \<and> ra_allocation_size r' = ra_allocation_size ?r"
        using Some cell container key 1(3-6) True rest step dr
        by (intro 1(2) [OF refl refl True refl refl, unfolded key]) (simp_all del: wide_key)
      then show ?thesis using Some khi dst unfolding dr tr unfolding d by (simp add: ra_replace_key_and_container_at_index_def)
    qed
  next
    case False
    have "remove_range_loop lo hi r src dst = (r, src, dst)"
      by (subst remove_range_loop.simps) (simp only: Let_def if_not_P [OF False])
    then have stop: "r' = r" "src' = src" "dst' = dst" using 1(3) by simp_all
    have "drop src (ra_entries r) = [] \<or> \<not> fst (hd (drop src (ra_entries r))) \<le> high16 hi"
      using False by (auto simp: hd_drop_conv_nth)
    then have none: "takeWhile (\<lambda>e. fst e \<le> high16 hi) (drop src (ra_entries r)) = []"
      "dropWhile (\<lambda>e. fst e \<le> high16 hi) (drop src (ra_entries r)) = drop src (ra_entries r)"
      by (cases "drop src (ra_entries r)"; simp)+
    show ?thesis unfolding stop none using 1(5,6) by simp
  qed
qed

lemma roaring_bitmap_remove_range_closed_correct:
  assumes "ra_inv r"
  shows "ra_inv (roaring_bitmap_remove_range_closed r lo hi)"
    and "ra_abs (roaring_bitmap_remove_range_closed r lo hi) = ra_abs r - {lo .. hi}"
proof -
  have "ra_inv (roaring_bitmap_remove_range_closed r lo hi) \<and> ra_abs (roaring_bitmap_remove_range_closed r lo hi) = ra_abs r - {lo .. hi}"
  proof (cases "lo > hi")
    case True
    then have "{lo .. hi} = {}" by simp
    then show ?thesis using True assms by (simp add: roaring_bitmap_remove_range_closed_def)
  next
    case False
    let ?es = "ra_entries r" and ?h = "remove_cell_range lo hi"
    have sorted: "ssorted (ra_keys r)" by (rule ra_ok_sorted [OF assms])
    let ?src = "lower_bound (ra_keys r) (high16 lo)"
    have src: "count_less (ra_keys r) (ra_size r) (ucast (drop_bit 16 lo :: u32)) = ?src"
      using count_less_prefix [of "ra_size r" "ra_keys r"] sorted by simp
    obtain r' src' dst' where loop: "remove_range_loop lo hi r ?src ?src = (r', src', dst')" by (metis prod_cases3)
    have le: "high16 lo \<le> high16 hi" using False halves_le [of lo hi] by auto
    have above: "\<forall>e \<in> set (drop ?src ?es). high16 lo \<le> fst e"
      unfolding lower_bound_split(2) [OF sorted] by auto
    have finished: "take dst' (ra_entries r') = take ?src ?es @ map_cells ?h (takeWhile (\<lambda>e. fst e \<le> high16 hi) (drop ?src ?es))"
      "drop src' (ra_entries r') = dropWhile (\<lambda>e. fst e \<le> high16 hi) (drop ?src ?es)" "dst' \<le> src'" "src' \<le> ra_size r'"
      "ra_size r' = ra_size r" "ra_flags r' = ra_flags r" "ra_allocation_size r' = ra_allocation_size r"
      using remove_range_loop_correct [OF loop le order_refl _ above] lower_bound_le [of "ra_keys r" "high16 lo"] by simp_all
    let ?r = "if src' > dst' then ra_shift_tail r' (ra_get_size r' - int src') (int dst' - int src') else r'"
    have result: "roaring_bitmap_remove_range_closed r lo hi = ?r"
      using False unfolding roaring_bitmap_remove_range_closed_def Let_def src loop by simp
    have shifted: "ra_entries ?r = take dst' (ra_entries r') @ drop src' (ra_entries r')" "ra_flags ?r = ra_flags r'"
      "ra_allocation_size ?r = ra_allocation_size r'"
      using finished(3,4) by (auto simp: ra_shift_tail_def Let_def ra_get_size_def)
    let ?front = "take ?src ?es" and ?mid = "takeWhile (\<lambda>e. fst e \<le> high16 hi) (drop ?src ?es)"
      and ?tail = "dropWhile (\<lambda>e. fst e \<le> high16 hi) (drop ?src ?es)"
    have front: "map_cells ?h ?front = ?front"
      unfolding lower_bound_split(1) [OF sorted] by (rule map_cells_keep) (simp add: remove_cell_range_def)
    have "sorted (map fst (drop ?src ?es))" using ssorted_imp_sorted [OF ssorted_drop [OF sorted, of ?src]] by (simp add: drop_map)
    then have "high16 hi < fst e" if "e \<in> set ?tail" for e using that by (rule dropWhile_above)
    then have tail: "map_cells ?h ?tail = ?tail" by (intro map_cells_keep) (simp add: remove_cell_range_def)
    have whole: "?es = ?front @ ?mid @ ?tail" by simp
    have entries: "ra_entries ?r = map_cells ?h ?es"
      unfolding shifted finished(1,2) by (subst (7) whole) (simp only: map_cells_simps(3) front tail append.assoc)
    have ok: "entries_inv (map_cells ?h ?es)" and at: "at (map_cells ?h ?es) k = at ?es k - cell_range lo hi k" for k
      using map_cells_correct [OF ra_ok_entries [OF assms], of ?h "\<lambda>k S. S - cell_range lo hi k" k] remove_cell_range_removes [of lo hi] False
        at_absent [of k ?es] by (auto split: if_splits)
    have size: "length (ra_entries ?r) \<le> ra_size r" unfolding shifted using finished(3-5) by simp
    have "ra_inv ?r" using ok size assms finished(6,7) unfolding ra_ok_def entries shifted(2,3) by (simp add: ra_get_size_def entries)
    moreover have "ra_abs ?r = ra_abs r - {lo .. hi}" using ranged_abs [of ?r False r lo hi] at by (simp add: entries)
    ultimately show ?thesis unfolding result by blast
  qed
  then show "ra_inv (roaring_bitmap_remove_range_closed r lo hi)"
    "ra_abs (roaring_bitmap_remove_range_closed r lo hi) = ra_abs r - {lo .. hi}" by blast+
qed

section \<open>Adding\<close>

text \<open>The number of entries whose key, read as a number, is below \<open>p\<close>.\<close>

definition keys_below :: "(u16 \<times> container_t) list \<Rightarrow> nat \<Rightarrow> nat" where
  "keys_below es p = length (takeWhile (\<lambda>e. unat (fst e) < p) es)"

lemma keys_below_le: "keys_below es p \<le> length es"
  by (simp add: keys_below_def length_takeWhile_le)

lemma keys_below_bound: "keys_below es (unat k) = lower_bound (map fst es) k"
  by (simp add: keys_below_def lower_bound_def takeWhile_map word_less_nat_alt comp_def)

lemma keys_below_Suc:
  assumes "ssorted (map fst es)"
  shows "keys_below es (Suc (unat k)) = (if k \<in> fst ` set es then Suc (keys_below es (unat k)) else keys_below es (unat k))"
  using assms
proof (induction es)
  case (Cons e es)
  show ?case
  proof (cases "fst e" k rule: linorder_cases)
    case less
    then show ?thesis using Cons by (auto simp: keys_below_def word_less_nat_alt)
  next
    case equal
    then have "takeWhile (\<lambda>e. unat (fst e) < Suc (unat k)) es = []" using Cons.prems by (cases es) (auto simp: word_less_nat_alt)
    then show ?thesis using equal by (auto simp: keys_below_def)
  next
    case greater
    then have "k \<notin> fst ` set (e # es)" using Cons.prems by fastforce
    then show ?thesis using greater by (simp add: keys_below_def word_less_nat_alt)
  qed
qed (simp add: keys_below_def)

lemma keys_below_step:
  assumes "ssorted (map fst es)" and "p < 65536"
  shows "keys_below es (Suc p) = (if word_of_nat p \<in> fst ` set es then Suc (keys_below es p) else keys_below es p)"
  using keys_below_Suc [OF assms(1), of "word_of_nat p"] assms(2) by simp

lemma keys_below_grows:
  assumes "ssorted (map fst es)" and "p + n \<le> 65536"
  shows "keys_below es p \<le> keys_below es (p + n)" and "keys_below es (p + n) \<le> keys_below es p + n"
proof -
  have "keys_below es p \<le> keys_below es (p + n) \<and> keys_below es (p + n) \<le> keys_below es p + n" using assms(2)
    by (induction n) (simp_all add: keys_below_step [OF assms(1)] le_SucI)
  then show "keys_below es p \<le> keys_below es (p + n)" "keys_below es (p + n) \<le> keys_below es p + n" by blast+
qed

lemma keys_below_nth:
  assumes "ssorted (map fst es)" and "k \<in> fst ` set es"
  shows "keys_below es (unat k) < length es" and "fst (es ! keys_below es (unat k)) = k"
    and "map_of es k = Some (snd (es ! keys_below es (unat k)))"
proof -
  show i: "keys_below es (unat k) < length es" "fst (es ! keys_below es (unat k)) = k"
    using ssorted_mem_iff [OF assms(1), of k] assms(2) unfolding keys_below_bound by auto
  have "map_of es (fst (es ! keys_below es (unat k))) = Some (snd (es ! keys_below es (unat k)))"
    by (rule map_of_is_SomeI) (simp_all add: ssorted_imp_distinct assms(1) i(1))
  then show "map_of es k = Some (snd (es ! keys_below es (unat k)))" by (simp only: i(2))
qed

definition add_cell_range :: "u32 \<Rightarrow> u32 \<Rightarrow> (u16 \<times> container_t) list \<Rightarrow> u16 \<Rightarrow> container_t" where
  "add_cell_range lo hi es k =
     (let a = (if drop_bit 16 lo = (ucast k :: u32) then lo AND 0xffff else 0);
          b = (if drop_bit 16 hi = (ucast k :: u32) then hi AND 0xffff else 0xffff)
      in case map_of es k of Some c \<Rightarrow> container_add_range c a b | None \<Rightarrow> container_range_of_ones a (b + 1))"

lemma add_cell_range_correct:
  assumes "lo \<le> hi" and "high16 lo \<le> k" and "k \<le> high16 hi" and "entries_inv es"
  shows "container_inv (add_cell_range lo hi es k)"
    and "container_abs (add_cell_range lo hi es k) = at es k \<union> cell_range lo hi k"
    and "container_abs (add_cell_range lo hi es k) \<noteq> {}"
proof -
  let ?a = "if drop_bit 16 lo = (ucast k :: u32) then lo AND 0xffff else 0"
    and ?b = "if drop_bit 16 hi = (ucast k :: u32) then hi AND 0xffff else 0xffff"
  note b = cell_bounds [OF assms(1-3)]
  have both: "container_inv (add_cell_range lo hi es k) \<and> container_abs (add_cell_range lo hi es k) = at es k \<union> cell_range lo hi k"
  proof (cases "map_of es k")
    case None
    have ub: "unat (?b + 1) = unat ?b + 1"
    proof -
      have "unat (word_of_nat (unat ?b + 1) :: u32) = unat ?b + 1" using b(2) by (intro unat_u32_of_nat) linarith
      moreover have "word_of_nat (unat ?b + 1) = ?b + 1" by simp
      ultimately show ?thesis by (simp only:)
    qed
    have le: "unat ?a \<le> unat (?b + 1)" "unat (?b + 1) \<le> 65536" using b(1,2) unfolding ub by linarith+
    have "{x :: u16. unat ?a \<le> unat x \<and> unat x < unat (?b + 1)} = cell_range lo hi k"
      unfolding ub b(3) [symmetric] less_Suc_eq_le [symmetric] Suc_eq_plus1 ..
    then show ?thesis using container_range_of_ones_correct [OF le] None
      by (simp only: add_cell_range_def Let_def option.case at_def Un_empty_left simp_thms)
  next
    case (Some c)
    have "(k, c) \<in> set es" using Some by (rule map_of_SomeD)
    then have "container_inv c" using assms(4) by (auto simp: entries_ok_def)
    then show ?thesis using container_add_range_correct [OF _ b(1,2), of c] Some unfolding b(3)
      by (simp only: add_cell_range_def Let_def option.case at_def simp_thms)
  qed
  then show "container_inv (add_cell_range lo hi es k)" "container_abs (add_cell_range lo hi es k) = at es k \<union> cell_range lo hi k" by blast+
  then show "container_abs (add_cell_range lo hi es k) \<noteq> {}" using b(4) by blast
qed

definition range_block :: "u32 \<Rightarrow> u32 \<Rightarrow> (u16 \<times> container_t) list \<Rightarrow> nat \<Rightarrow> nat \<Rightarrow> (u16 \<times> container_t) list" where
  "range_block lo hi es p q = map (\<lambda>i. (word_of_nat i, add_cell_range lo hi es (word_of_nat i))) [p ..< q]"

lemma range_block_correct:
  assumes "lo \<le> hi" and "entries_inv es" and "unat (high16 lo) \<le> p" and "q \<le> unat (high16 hi) + 1"
  shows "entries_inv (range_block lo hi es p q)"
    and "at (range_block lo hi es p q) k = (if p \<le> unat k \<and> unat k < q then at es k \<union> cell_range lo hi k else {})"
    and "fst ` set (range_block lo hi es p q) = {k. p \<le> unat k \<and> unat k < q}"
proof -
  have "entries_inv (range_block lo hi es p q)
      \<and> at (range_block lo hi es p q) k = (if p \<le> unat k \<and> unat k < q then at es k \<union> cell_range lo hi k else {})
      \<and> fst ` set (range_block lo hi es p q) = {k. p \<le> unat k \<and> unat k < q}"
    using assms(4)
  proof (induction q)
    case (Suc q)
    show ?case
    proof (cases "p \<le> q")
      case False
      then show ?thesis by (auto simp: range_block_def)
    next
      case True
      let ?k = "word_of_nat q :: u16"
      have q: "unat ?k = q" using Suc.prems unat_u16_less [of "high16 hi"] by (intro unat_u16_of_nat) linarith
      have cut: "range_block lo hi es p (Suc q) = range_block lo hi es p q @ [(?k, add_cell_range lo hi es ?k)]"
        using True by (simp add: range_block_def)
      have bounds: "high16 lo \<le> ?k" "?k \<le> high16 hi" using True assms(3) Suc.prems by (simp_all add: word_le_nat_alt q)
      note c = add_cell_range_correct [OF assms(1) bounds assms(2)]
      have IH: "entries_inv (range_block lo hi es p q)"
        "at (range_block lo hi es p q) k = (if p \<le> unat k \<and> unat k < q then at es k \<union> cell_range lo hi k else {})"
        "fst ` set (range_block lo hi es p q) = {k. p \<le> unat k \<and> unat k < q}" using Suc by simp_all
      have ok: "entries_inv (range_block lo hi es p (Suc q))"
        unfolding cut entries_ok_append using IH(1,3) c by (auto simp: word_less_nat_alt q)
      have keys: "fst ` set (range_block lo hi es p (Suc q)) = {k. p \<le> unat k \<and> unat k < Suc q}"
        unfolding cut using IH(3) True q by (auto simp: less_Suc_eq word_unat_eq_iff)
      note split = at_append_ok [OF ok [unfolded cut], of k, folded cut]
      have "at (range_block lo hi es p (Suc q)) k = (if p \<le> unat k \<and> unat k < Suc q then at es k \<union> cell_range lo hi k else {})"
      proof (cases "unat k = q")
        case True
        then have "k = ?k" using q by (simp add: word_unat_eq_iff)
        then show ?thesis using split c(2) True \<open>p \<le> q\<close> unfolding IH(2) by simp
      next
        case False
        then have "k \<noteq> ?k" using q by metis
        then show ?thesis using split False unfolding IH(2) by (simp add: less_Suc_eq)
      qed
      then show ?thesis using ok keys by blast
    qed
  qed (simp add: range_block_def)
  then show "entries_inv (range_block lo hi es p q)"
    "at (range_block lo hi es p q) k = (if p \<le> unat k \<and> unat k < q then at es k \<union> cell_range lo hi k else {})"
    "fst ` set (range_block lo hi es p q) = {k. p \<le> unat k \<and> unat k < q}" by blast+
qed

lemma range_block_Suc:
  "p \<le> q \<Longrightarrow> range_block lo hi es p (Suc q) = range_block lo hi es p q @ [(word_of_nat q, add_cell_range lo hi es (word_of_nat q))]"
  "range_block lo hi es p p = []"
  by (simp_all add: range_block_def)

text \<open>The source index stands on the key looked at exactly when the table has it.\<close>

lemma keys_below_here:
  assumes "ssorted (map fst es)" and "p < 65536" and "src + 1 = int (keys_below es (Suc p))"
    and "take (keys_below es (Suc p)) xs = take (keys_below es (Suc p)) es"
  shows "src \<ge> 0 \<and> fst (xs ! nat src) = word_of_nat p \<longleftrightarrow> word_of_nat p \<in> fst ` set es"
    and "word_of_nat p \<in> fst ` set es \<Longrightarrow> map_of es (word_of_nat p) = Some (snd (xs ! nat src))"
proof -
  let ?k = "word_of_nat p :: u16"
  have k: "unat ?k = p" using assms(2) by simp
  note step = keys_below_step [OF assms(1,2)]
  have same: "xs ! i = es ! i" if "i < keys_below es (Suc p)" for i
    using arg_cong [OF assms(4), of "\<lambda>zs. zs ! i"] that by simp
  have hit: "src = int (keys_below es p)" "xs ! nat src = es ! keys_below es p" if "?k \<in> fst ` set es"
    using that step assms(3) same by simp_all
  note nth = keys_below_nth [OF assms(1), of ?k, unfolded k]
  show "map_of es ?k = Some (snd (xs ! nat src))" if "?k \<in> fst ` set es" using nth(3) hit(2) that by simp
  have "\<not> (src \<ge> 0 \<and> fst (xs ! nat src) = ?k)" if no: "?k \<notin> fst ` set es"
  proof (rule notI, elim conjE)
    assume src: "src \<ge> 0" and fst: "fst (xs ! nat src) = ?k"
    have i: "nat src < keys_below es (Suc p)" using src assms(3) by linarith
    then have "nat src < length es" using keys_below_le order.strict_trans2 by blast
    then have "fst (es ! nat src) \<in> fst ` set es" by simp
    then show False using no fst same [OF i] by simp
  qed
  moreover have "src \<ge> 0 \<and> fst (xs ! nat src) = ?k" if yes: "?k \<in> fst ` set es"
    using hit [OF yes] nth(2) [OF yes] by simp
  ultimately show "src \<ge> 0 \<and> fst (xs ! nat src) = ?k \<longleftrightarrow> ?k \<in> fst ` set es" by blast
qed

lemma widened: "(ucast x = (ucast y :: u32)) \<longleftrightarrow> x = y" "ucast (ucast x :: u32) = x" for x y :: u16
  by (simp add: word_unat_eq_iff) (rule bit_word_eqI, simp add: bit_simps)

lemma add_range_loop_correct:
  assumes "lo \<le> hi" and "entries_inv es" and "m = unat (high16 lo)"
    and "m + n \<le> unat (high16 hi) + 1" and "key + 1 = word_of_nat (m + n)"
    and "src + 1 = int (keys_below es (m + n))" and "dst + 1 = int (keys_below es m + n)"
    and "take (keys_below es (m + n)) (ra_entries r) = take (keys_below es (m + n)) es"
    and "keys_below es m + n \<le> ra_size r"
  shows "add_range_loop lo hi r src dst key
    = r\<lparr>ra_entries := take (keys_below es m) es @ range_block lo hi es m (m + n) @ drop (keys_below es m + n) (ra_entries r)\<rparr>"
  using assms(4-9)
proof (induction n arbitrary: r src dst key)
  case 0
  have key: "key = drop_bit 16 lo - 1"
  proof -
    have "word_of_nat m = (word_of_nat (unat (drop_bit 16 lo :: u32)) :: u32)" by (simp only: assms(3) wide_key(3))
    then have "word_of_nat m = (drop_bit 16 lo :: u32)" by (simp only: of_nat_unat ucast_id)
    then show ?thesis using 0(2) by (simp add: eq_diff_eq)
  qed
  have "ra_entries r = take (keys_below es m) es @ drop (keys_below es m) (ra_entries r)"
    using 0(5) append_take_drop_id [of "keys_below es m" "ra_entries r"] by simp
  then show ?case by (subst add_range_loop.simps) (simp add: key Let_def range_block_Suc(2))
next
  case (Suc n)
  let ?p = "m + n"
  define j :: u16 where "j = word_of_nat (m + n)"
  have sorted: "ssorted (map fst es)" using assms(2) by (rule entries_ok_sorted)
  have p: "?p < 65536" using Suc.prems(1) unat_u16_less [of "high16 hi"] by linarith
  have k: "unat j = ?p" unfolding j_def using p by (rule unat_u16_of_nat)
  have wide: "(ucast j :: u32) = word_of_nat ?p" unfolding k [symmetric] by simp
  have key: "key = ucast j"
  proof -
    have "key + 1 = word_of_nat ?p + 1" using Suc.prems(2) by simp
    then show ?thesis unfolding wide by simp
  qed
  have going: "key \<noteq> drop_bit 16 lo - 1"
  proof
    assume "key = drop_bit 16 lo - 1"
    then have "(word_of_nat (m + Suc n) :: u32) = drop_bit 16 lo" using Suc.prems(2) by simp
    moreover have "unat (word_of_nat (m + Suc n) :: u32) = m + Suc n" using p by (intro unat_u32_of_nat) simp
    ultimately show False using wide_key(3) [of lo] assms(3) by simp
  qed
  let ?d = "keys_below es m + n" and ?c = "add_cell_range lo hi es j"
  have dst: "nat dst = ?d" "dst - 1 + 1 = int (keys_below es m + n)" using Suc.prems(4) by linarith+
  have d: "?d < ra_size r" using Suc.prems(6) by simp
  have grow: "keys_below es ?p \<le> ?d" using keys_below_grows(2) [OF sorted, of m n] p by simp
  let ?r = "ra_replace_key_and_container_at_index r ?d j ?c"
  have entries: "ra_entries ?r = (ra_entries r)[?d := (j, ?c)]" by (simp add: ra_replace_key_and_container_at_index_def)
  have le: "keys_below es ?p \<le> keys_below es (m + Suc n)" using keys_below_grows(1) [OF sorted, of ?p 1] p by simp
  have "take (keys_below es ?p) (ra_entries r) = take (keys_below es ?p) es"
    using arg_cong [OF Suc.prems(5), of "take (keys_below es ?p)"] le by (simp add: min_absorb1)
  then have untouched: "take (keys_below es ?p) (ra_entries ?r) = take (keys_below es ?p) es" using grow by (simp add: entries)
  have rec: "add_range_loop lo hi ?r src' (dst - 1) (key - 1)
      = ?r\<lparr>ra_entries := take (keys_below es m) es @ range_block lo hi es m ?p @ drop ?d (ra_entries ?r)\<rparr>"
    if "src' + 1 = int (keys_below es ?p)" for src'
    using Suc.prems(1) d that dst(2) untouched wide by (intro Suc.IH) (simp_all add: key entries)
  have finish: "?r\<lparr>ra_entries := take (keys_below es m) es @ range_block lo hi es m ?p @ drop ?d (ra_entries ?r)\<rparr>
      = r\<lparr>ra_entries := take (keys_below es m) es @ range_block lo hi es m (m + Suc n) @ drop (keys_below es m + Suc n) (ra_entries r)\<rparr>"
  proof -
    have "drop ?d (ra_entries ?r) = (j, ?c) # drop (Suc ?d) (ra_entries r)"
      unfolding entries using d by (simp add: drop_update_swap Cons_nth_drop_Suc [symmetric] del: Cons_nth_drop_Suc)
    then show ?thesis by (simp add: range_block_Suc(1) [of m "m + n", folded j_def] ra_replace_key_and_container_at_index_def)
  qed
  have whole: "m + Suc n = Suc ?p" by simp
  note here = keys_below_here [OF sorted p Suc.prems(3) [unfolded whole] Suc.prems(5) [unfolded whole], folded j_def]
  let ?a = "if drop_bit 16 lo = key then lo AND 0xffff else 0" and ?b = "if drop_bit 16 hi = key then hi AND 0xffff else 0xffff"
  have narrow: "ucast key = j" unfolding key by (rule widened(2))
  have found: "(src \<ge> 0 \<and> ucast (ra_keys r ! nat src) = key) \<longleftrightarrow> j \<in> fst ` set es"
  proof -
    have "nat src < ra_size r" if "src \<ge> 0"
      using Suc.prems(3,4,6) keys_below_grows(2) [OF sorted, of m "Suc n"] p that by simp
    then have "(src \<ge> 0 \<and> ucast (ra_keys r ! nat src) = key) \<longleftrightarrow> src \<ge> 0 \<and> fst (ra_entries r ! nat src) = j"
      unfolding key widened(1) [of _ j, symmetric] by auto
    then show ?thesis using here(1) by blast
  qed
  show ?case
  proof (cases "j \<in> fst ` set es")
    case True
    have c: "container_add_range (ra_get_container_at_index r (nat src)) ?a ?b = ?c"
      unfolding add_cell_range_def Let_def here(2) [OF True] key by (simp add: ra_get_container_at_index_def)
    have src': "src - 1 + 1 = int (keys_below es ?p)" using Suc.prems(3) keys_below_step [OF sorted p, folded j_def] True by simp
    show ?thesis
      by (subst add_range_loop.simps)
        (simp only: Let_def if_not_P [OF going] found True if_True dst(1) c narrow rec [OF src'] finish)
  next
    case False
    have none: "map_of es j = None" using False by (simp add: map_of_eq_None_iff)
    have c: "container_from_range ?a (?b + 1) 1 = Some ?c"
      unfolding add_cell_range_def Let_def none option.case container_from_range_def key by simp
    have src': "src + 1 = int (keys_below es ?p)" using Suc.prems(3) keys_below_step [OF sorted p, folded j_def] False by simp
    show ?thesis
      by (subst add_range_loop.simps)
        (simp only: Let_def if_not_P [OF going] found False if_False c option.case dst(1) narrow rec [OF src'] finish)
  qed
qed

text \<open>The two counts give the entries before and after the range.\<close>

lemma keys_below_counts:
  assumes "ssorted (map fst es)" and "j \<le> k"
  shows "count_greater (map fst es) (length es) k = int (length es) - int (keys_below es (Suc (unat k)))"
    and "count_less (map fst es) (nat (int (length es) - count_greater (map fst es) (length es) k)) j = keys_below es (unat j)"
proof -
  let ?ks = "map fst es"
  have "count_greater ?ks (length ?ks) k = int (length ?ks) - int (lower_bound ?ks k) - of_bool (k \<in> set ?ks)"
    using assms(1) binarySearch_prefix [of "length ?ks" ?ks k] search_result_found [of ?ks k] search_result_absent [of ?ks k]
    by (simp add: count_greater_def Let_def)
  then show ng: "count_greater ?ks (length es) k = int (length es) - int (keys_below es (Suc (unat k)))"
    unfolding keys_below_Suc [OF assms(1)] keys_below_bound by simp
  let ?n = "keys_below es (Suc (unat k))"
  have cut: "length (takeWhile P (take n xs)) = min n (length (takeWhile P xs))" for P n and xs :: "u16 list"
    by (induction xs arbitrary: n) (auto simp: take_Cons split: nat.split)
  have ssorted: "ssorted (take ?n ?ks)" by (rule ssorted_take [OF assms(1)])
  have "keys_below es (unat j) \<le> keys_below es (unat j + (Suc (unat k) - unat j))"
  proof (rule keys_below_grows(1) [OF assms(1)])
    show "unat j + (Suc (unat k) - unat j) \<le> 65536"
      using assms(2) unat_u16_less [of k] unfolding word_le_nat_alt by linarith
  qed
  then have le: "keys_below es (unat j) \<le> ?n" using assms(2) by (simp add: word_le_nat_alt le_SucI)
  have "count_less ?ks ?n j = lower_bound (take ?n ?ks) j" by (rule count_less_prefix [OF _ ssorted]) (simp add: keys_below_le)
  also have "\<dots> = min ?n (keys_below es (unat j))" unfolding keys_below_bound by (simp only: lower_bound_def cut)
  finally show "count_less ?ks (nat (int (length es) - count_greater ?ks (length es) k)) j = keys_below es (unat j)"
    using le unfolding ng by simp
qed

lemma keys_below_parts:
  assumes "entries_ok P es"
  shows "take (keys_below es p) es = takeWhile (\<lambda>e. unat (fst e) < p) es"
    and "drop (keys_below es p) es = dropWhile (\<lambda>e. unat (fst e) < p) es"
    and "entries_ok P (take (keys_below es p) es)" and "entries_ok P (drop (keys_below es p) es)"
    and "k \<in> fst ` set (take (keys_below es p) es) \<longleftrightarrow> k \<in> fst ` set es \<and> unat k < p"
    and "k \<in> fst ` set (drop (keys_below es p) es) \<longleftrightarrow> k \<in> fst ` set es \<and> p \<le> unat k"
    and "at (take (keys_below es p) es) k = (if unat k < p then at es k else {})"
    and "at (drop (keys_below es p) es) k = (if p \<le> unat k then at es k else {})"
proof -
  let ?t = "take (keys_below es p) es" and ?d = "drop (keys_below es p) es"
  show t: "?t = takeWhile (\<lambda>e. unat (fst e) < p) es" and d: "?d = dropWhile (\<lambda>e. unat (fst e) < p) es"
    unfolding keys_below_def takeWhile_eq_take [symmetric] dropWhile_eq_drop [symmetric] by simp_all
  have whole: "entries_ok P (?t @ ?d)" using assms by simp
  then show "entries_ok P ?t" "entries_ok P ?d" unfolding entries_ok_append by blast+
  have low: "unat (fst e) < p" if "e \<in> set ?t" for e using that unfolding t by (rule set_takeWhileD [THEN conjunct2])
  have high: "p \<le> unat (fst e)" if "e \<in> set ?d" for e
  proof -
    have "?d \<noteq> []" using that by auto
    then have first: "p \<le> unat (fst (hd ?d))" unfolding d using hd_dropWhile [of "\<lambda>e. unat (fst e) < p" es] by (simp add: linorder_not_less)
    have "sorted (map fst ?d)"
      using ssorted_imp_sorted [OF ssorted_drop [OF entries_ok_sorted [OF assms], of "keys_below es p"]] by (simp add: drop_map)
    then have "fst (hd ?d) \<le> fst e" using that by (cases ?d) auto
    then show ?thesis using first by (simp add: word_le_nat_alt)
  qed
  have split: "k \<in> fst ` set es \<longleftrightarrow> k \<in> fst ` set ?t \<or> k \<in> fst ` set ?d"
    by (subst (1) append_take_drop_id [of "keys_below es p" es, symmetric]) (simp only: set_append image_Un Un_iff)
  have lows: "k \<in> fst ` set ?t \<Longrightarrow> unat k < p" and highs: "k \<in> fst ` set ?d \<Longrightarrow> \<not> unat k < p"
    using low high by (blast, metis imageE linorder_not_less)
  show mem_t: "k \<in> fst ` set ?t \<longleftrightarrow> k \<in> fst ` set es \<and> unat k < p" using split lows highs by blast
  show mem_d: "k \<in> fst ` set ?d \<longleftrightarrow> k \<in> fst ` set es \<and> p \<le> unat k"
    using split lows highs unfolding linorder_not_less [symmetric] by blast
  have at: "at es k = at ?t k \<union> at ?d k" using at_append_ok [OF whole, of k] by simp
  have "unat k < p \<Longrightarrow> at ?d k = {}" "p \<le> unat k \<Longrightarrow> at ?t k = {}"
    using mem_t mem_d by (simp_all add: at_absent)
  then show "at ?t k = (if unat k < p then at es k else {})" "at ?d k = (if p \<le> unat k then at es k else {})"
    unfolding at by (cases "unat k < p"; simp)+
qed

lemma required_containers:
  assumes "lo \<le> hi"
  shows "uint (drop_bit 16 hi - drop_bit 16 lo + (1 :: u32)) = int (unat (high16 hi) + 1 - unat (high16 lo))"
proof -
  let ?a = "drop_bit 16 lo :: u32" and ?b = "drop_bit 16 hi :: u32"
  have le: "?a \<le> ?b" unfolding word_le_nat_alt wide_key(3) using halves_le [of lo hi] assms by (auto simp: word_le_nat_alt word_less_nat_alt)
  have d: "unat (?b - ?a) = unat (high16 hi) - unat (high16 lo)" unfolding unat_sub [OF le] wide_key(3) ..
  have fits: "unat (high16 hi) - unat (high16 lo) + 1 < 4294967296" using unat_u16_less [of "high16 hi"] by linarith
  have "?b - ?a + 1 = word_of_nat (unat (?b - ?a) + 1)" by simp
  then have "unat (?b - ?a + 1) = unat (high16 hi) - unat (high16 lo) + 1"
    using unat_u32_of_nat [OF fits] unfolding d by (simp only:)
  moreover have "unat (high16 lo) \<le> unat (high16 hi)" using le unfolding word_le_nat_alt wide_key(3) .
  ultimately have "unat (?b - ?a + 1) = unat (high16 hi) + 1 - unat (high16 lo)" by linarith
  then show ?thesis by (metis uint_nat)
qed

lemma add_range_entries:
  assumes "entries_inv es" and "lo \<le> hi"
  defines "res \<equiv> take (keys_below es (unat (high16 lo))) es @ range_block lo hi es (unat (high16 lo)) (Suc (unat (high16 hi)))
      @ drop (keys_below es (Suc (unat (high16 hi)))) es"
  shows "entries_inv res" and "at res k = at es k \<union> cell_range lo hi k"
proof -
  let ?m = "unat (high16 lo)" and ?q = "Suc (unat (high16 hi))"
  let ?t = "take (keys_below es ?m) es" and ?b = "range_block lo hi es ?m ?q" and ?d = "drop (keys_below es ?q) es"
  note t = keys_below_parts(3,5,7) [OF assms(1), where p = ?m] and d = keys_below_parts(4,6,8) [OF assms(1), where p = ?q]
  have q: "?q \<le> unat (high16 hi) + 1" by simp
  note b = range_block_correct [OF assms(2,1) order_refl q]
  have le: "?m \<le> unat (high16 hi)" using halves_le [of lo hi] assms(2) by (auto simp: word_le_nat_alt word_less_nat_alt)
  have bd: "entries_inv (?b @ ?d)"
    unfolding entries_ok_append by (intro conjI b(1) d(1) ballI) (simp add: b(3) d(2) word_less_nat_alt)
  have later: "?m \<le> unat k" if "k \<in> fst ` set (?b @ ?d)" for k
    using that le unfolding set_append image_Un Un_iff b(3) d(2) by auto
  have "entries_inv (?t @ (?b @ ?d))"
    unfolding entries_ok_append [of _ ?t]
  proof (intro conjI t(1) bd ballI)
    fix k k' assume "k \<in> fst ` set ?t" and k': "k' \<in> fst ` set (?b @ ?d)"
    then have "unat k < ?m" using t(2) by blast
    then show "k < k'" using later [OF k'] by (simp add: word_less_nat_alt)
  qed
  then show ok: "entries_inv res" unfolding res_def .
  have "at res k = at ?t k \<union> (at ?b k \<union> at ?d k)"
    unfolding res_def at_append_ok [OF ok [unfolded res_def]] at_append_ok [OF bd] ..
  also have "\<dots> = at es k \<union> cell_range lo hi k"
  proof (cases "?m \<le> unat k \<and> unat k < ?q")
    case True
    then show ?thesis unfolding t(3) b(2) d(3) by simp
  next
    case False
    then have "cell_range lo hi k = {}" by (intro cell_range_outside) (auto simp: word_less_nat_alt)
    then show ?thesis using False le unfolding t(3) b(2) d(3) by auto
  qed
  finally show "at res k = at es k \<union> cell_range lo hi k" .
qed

lemma roaring_bitmap_add_range_closed_correct:
  assumes "ra_inv r"
  shows "ra_inv (roaring_bitmap_add_range_closed r lo hi)"
    and "ra_abs (roaring_bitmap_add_range_closed r lo hi) = ra_abs r \<union> {lo .. hi}"
proof -
  have "ra_inv (roaring_bitmap_add_range_closed r lo hi) \<and> ra_abs (roaring_bitmap_add_range_closed r lo hi) = ra_abs r \<union> {lo .. hi}"
  proof (cases "lo > hi")
    case True
    then have "{lo .. hi} = {}" by simp
    then show ?thesis using True assms by (simp add: roaring_bitmap_add_range_closed_def)
  next
    case False
    then have le: "lo \<le> hi" by simp
    let ?es = "ra_entries r" and ?m = "unat (high16 lo)" and ?q = "Suc (unat (high16 hi))"
    have es: "entries_inv ?es" and sorted: "ssorted (ra_keys r)" using assms by (rule ra_ok_entries, rule ra_ok_sorted)
    have hl: "high16 lo \<le> high16 hi" using halves_le [of lo hi] le by auto
    then have mq: "?m \<le> unat (high16 hi)" by (simp add: word_le_nat_alt)
    note counts = keys_below_counts [OF sorted hl, unfolded length_map]
    define n where "n = ?q - ?m"
    have n: "?m + n = ?q" "int (unat (high16 hi) + 1 - ?m) = int n" using mq by (simp_all add: n_def)
    define low high where "low = keys_below ?es ?m" and "high = keys_below ?es ?q"
    have grow: "low \<le> high" "high \<le> low + n"
      using keys_below_grows [OF sorted, of ?m n] unat_u16_less [of "high16 hi"] unfolding n(1) low_def high_def by simp_all
    have fits: "high \<le> ra_size r" unfolding high_def by (rule keys_below_le)
    define r' where "r' = (if int n > int high - int low then ra_shift_tail r (int (ra_size r) - int high) (int n - (int high - int low)) else r)"
    have "take high (ra_entries r') = take high ?es \<and> drop (low + n) (ra_entries r') = drop high ?es
        \<and> ra_size r' = ra_size r + n - (high - low) \<and> ra_flags r' = ra_flags r \<and> room r'"
    proof (cases "int n > int high - int low")
      case True
      define d where "d = low + n - high"
      have d: "int n - (int high - int low) = int d" "high + d = low + n" using grow by (simp_all add: d_def)
      have pos: "int d > 0" using True d(1) by linarith
      have entries: "ra_entries r' = take (low + n) (?es @ replicate d undefined) @ drop high ?es"
        and other: "ra_flags r' = ra_flags r" "ra_allocation_size r' = ra_allocation_size (extend_array r (int d))"
        unfolding r'_def if_P [OF True] d(1) using pos d(2) by (simp_all add: ra_shift_tail_def Let_def ra_get_size_def nat_int_add)
      have len: "length (take (low + n) (?es @ replicate d undefined)) = low + n" using fits d(2) by simp
      have size: "ra_size r' = ra_size r + d" unfolding entries length_append len using fits d(2) by simp
      have "room r'" using extend_room [of "int d" r] by (simp add: room_def other(2) size ra_get_size_def)
      moreover have "take high (ra_entries r') = take high ?es" unfolding entries using grow fits len by (simp add: min_absorb1)
      moreover have "drop k (xs @ ys) = ys" if "length xs = k" for k and xs ys :: "(u16 \<times> container_t) list" using that by simp
      from this [OF len] have "drop (low + n) (ra_entries r') = drop high ?es" unfolding entries .
      ultimately show ?thesis using size other(1) grow d(2) by simp
    next
      case False
      then have "high = low + n" using grow by simp
      then show ?thesis unfolding r'_def if_not_P [OF False] using ra_ok_room [OF assms] by simp
    qed
    then have head: "take high (ra_entries r') = take high ?es" and tail: "drop (low + n) (ra_entries r') = drop high ?es"
      and size: "ra_size r' = ra_size r + n - (high - low)" and flags: "ra_flags r' = ra_flags r" and room: "room r'" by blast+
    let ?res = "take low ?es @ range_block lo hi ?es ?m ?q @ drop high ?es"
    have max: "drop_bit 16 hi + 1 = (word_of_nat (?m + n) :: u32)"
    proof -
      have "word_of_nat (?m + n) = (word_of_nat (unat (drop_bit 16 hi :: u32)) :: u32) + 1" unfolding n(1) wide_key(3) by simp
      then show ?thesis by (simp only: of_nat_unat ucast_id)
    qed
    have loop: "add_range_loop lo hi r' (int high - 1) (ra_get_size r' - (int (ra_size r) - int high) - 1) (drop_bit 16 hi) = r'\<lparr>ra_entries := ?res\<rparr>"
    proof -
      have dst: "ra_get_size r' - (int (ra_size r) - int high) - 1 = int low + int n - 1"
        using size grow fits by (simp add: ra_get_size_def)
      have "low + n \<le> ra_size r'" using size grow fits by simp
      then have "add_range_loop lo hi r' (int high - 1) (int low + int n - 1) (drop_bit 16 hi) = r'\<lparr>ra_entries := take (keys_below ?es ?m) ?es
          @ range_block lo hi ?es ?m (?m + n) @ drop (keys_below ?es ?m + n) (ra_entries r')\<rparr>"
        using head n(1) unfolding high_def low_def
        by (intro add_range_loop_correct [OF le es refl _ max]) (simp_all del: wide_key add: n(1))
      then show ?thesis unfolding dst n(1) low_def [symmetric] tail .
    qed
    have result: "roaring_bitmap_add_range_closed r lo hi = r'\<lparr>ra_entries := ?res\<rparr>"
    proof -
      have size: "ra_get_size r = int (ra_size r)" by (rule ra_get_size_def)
      have above: "count_greater (ra_keys r) (ra_size r) (high16 hi) = int (ra_size r) - int high"
        unfolding high_def by (rule counts(1))
      have below: "count_less (ra_keys r) (nat (int (ra_size r) - (int (ra_size r) - int high))) (high16 lo) = low"
        unfolding low_def above [symmetric] by (rule counts(2))
      have common: "int (ra_size r) - int low - (int (ra_size r) - int high) = int high - int low"
        "int low + (int high - int low) - 1 = int high - 1" by simp_all
      show ?thesis
        unfolding roaring_bitmap_add_range_closed_def Let_def if_not_P [OF False] required_containers [OF le] n(2)
          above size below common r'_def [symmetric] by (rule loop)
    qed
    note res = add_range_entries [OF es le, folded low_def high_def]
    have "ra_inv (r'\<lparr>ra_entries := ?res\<rparr>)" 
    proof -
      have "length ?res = ra_size r'" using fits grow size n(1) mq by (simp add: range_block_def)
      then show ?thesis using res(1) room flags assms by (intro ra_okI) (simp_all add: room_def ra_get_size_def ra_ok_def)
    qed
    moreover have "ra_abs (r'\<lparr>ra_entries := ?res\<rparr>) = ra_abs r \<union> {lo .. hi}"
      using ranged_abs [of "r'\<lparr>ra_entries := ?res\<rparr>" True r lo hi] res(2) by simp
    ultimately show ?thesis unfolding result by blast
  qed
  then show "ra_inv (roaring_bitmap_add_range_closed r lo hi)"
    "ra_abs (roaring_bitmap_add_range_closed r lo hi) = ra_abs r \<union> {lo .. hi}" by blast+
qed

text \<open>Half-open ranges within \<open>2 ^ 32\<close>.\<close>

lemma roaring_bitmap_ranges_correct:
  assumes "ra_inv r" and "unat hi \<le> 4294967296"
  shows "ra_inv (roaring_bitmap_add_range r lo hi)"
    and "ra_abs (roaring_bitmap_add_range r lo hi) = ra_abs r \<union> {v. unat lo \<le> unat v \<and> unat v < unat hi}"
    and "ra_inv (roaring_bitmap_remove_range r lo hi)"
    and "ra_abs (roaring_bitmap_remove_range r lo hi) = ra_abs r - {v. unat lo \<le> unat v \<and> unat v < unat hi}"
proof -
  let ?V = "{v :: u32. unat lo \<le> unat v \<and> unat v < unat hi}"
  have "ra_inv (roaring_bitmap_add_range r lo hi) \<and> ra_abs (roaring_bitmap_add_range r lo hi) = ra_abs r \<union> ?V \<and>
      ra_inv (roaring_bitmap_remove_range r lo hi) \<and> ra_abs (roaring_bitmap_remove_range r lo hi) = ra_abs r - ?V"
  proof (cases "unat lo < unat hi")
    case True
    note h = half_open_range [OF assms(2) True]
    show ?thesis
      unfolding roaring_bitmap_add_range_def roaring_bitmap_remove_range_def if_not_P [OF h(1)] h(2) [symmetric]
      using roaring_bitmap_add_range_closed_correct [OF assms(1)] roaring_bitmap_remove_range_closed_correct [OF assms(1)] by blast
  next
    case False
    note e = empty_range [OF False]
    show ?thesis using assms(1) e(1) unfolding e(2) roaring_bitmap_add_range_def roaring_bitmap_remove_range_def by simp
  qed
  then show "ra_inv (roaring_bitmap_add_range r lo hi)" "ra_abs (roaring_bitmap_add_range r lo hi) = ra_abs r \<union> ?V"
    "ra_inv (roaring_bitmap_remove_range r lo hi)" "ra_abs (roaring_bitmap_remove_range r lo hi) = ra_abs r - ?V"
    by blast+
qed

end
