(* ===== verification/Roaring_Serial.thy ===== *)
theory Roaring_Serial
  imports Roaring_Compare
begin

text \<open>
  The portable serialization format of \<open>src/roaring_array.c\<close> and its callers in \<open>src/roaring.c\<close>. A buffer
  is the list of its bytes. Reading keeps the position in the buffer next to the number of bytes the code
  has asked for; a read that leaves the buffer is the outcome \<open>Fault\<close>, a buffer that the code rejects is
  \<open>Failed\<close>. Integers are little-endian in the buffer whatever the host is.
\<close>

section \<open>Bytes\<close>

definition u32_to_le :: "u32 \<Rightarrow> u8 list" where
  "u32_to_le v = [ucast v, ucast (drop_bit 8 v), ucast (drop_bit 16 v), ucast (drop_bit 24 v)]"

definition u32_from_le :: "u8 list \<Rightarrow> u32" where
  "u32_from_le b = ucast (b ! 0) + push_bit 8 (ucast (b ! 1)) + push_bit 16 (ucast (b ! 2)) + push_bit 24 (ucast (b ! 3))"

datatype 'a reading = Fault | Failed | Read 'a

primrec and_then :: "'a reading \<Rightarrow> ('a \<Rightarrow> 'b reading) \<Rightarrow> 'b reading" where
  "and_then Fault f = Fault"
| "and_then Failed f = Failed"
| "and_then (Read x) f = f x"

text \<open>The \<open>n\<close> bytes at position \<open>pos\<close>, and the check \<open>if (asked > maxbytes)\<close> before a read.\<close>

definition fetch :: "u8 list \<Rightarrow> nat \<Rightarrow> nat \<Rightarrow> u8 list reading" where
  "fetch buf pos n = (if pos + n \<le> length buf then Read (take n (drop pos buf)) else Fault)"

definition within :: "nat \<Rightarrow> nat \<Rightarrow> 'a reading \<Rightarrow> 'a reading" where
  "within maxbytes asked r = (if asked > maxbytes then Failed else r)"

section \<open>Writing\<close>

definition SERIAL_COOKIE_NO_RUNCONTAINER :: u32 where "SERIAL_COOKIE_NO_RUNCONTAINER = 12346"
definition SERIAL_COOKIE :: u32 where "SERIAL_COOKIE = 12347"
definition NO_OFFSET_THRESHOLD :: int where "NO_OFFSET_THRESHOLD = 4"

definition ra_portable_header_size :: "roaring_array \<Rightarrow> int" where
  "ra_portable_header_size ra =
     (let size = ra_get_size ra
      in if ra_has_run_container ra
         then if size < NO_OFFSET_THRESHOLD then 4 + (size + 7) div 8 + 4 * size
              else 4 + (size + 7) div 8 + 8 * size
         else 4 + 4 + 8 * size)"

definition ra_portable_size_in_bytes :: "roaring_array \<Rightarrow> int" where
  "ra_portable_size_in_bytes ra = foldl (\<lambda>count c. count + container_size_in_bytes c) (ra_portable_header_size ra) (ra_containers ra)"

text \<open>The bytes that say which containers are run containers: bit \<open>i mod 8\<close> of byte \<open>i div 8\<close>.\<close>

definition run_flags :: "container_t list \<Rightarrow> u8 list" where
  "run_flags cs = foldl (\<lambda>bytes i. if is_run_container (cs ! i) then bytes[i div 8 := bytes ! (i div 8) OR push_bit (i mod 8) 1] else bytes)
     (replicate ((length cs + 7) div 8) 0) [0 ..< length cs]"

fun write_offsets :: "container_t list \<Rightarrow> u32 \<Rightarrow> u8 list" where
  "write_offsets [] startOffset = []"
| "write_offsets (c # cs) startOffset = u32_to_le startOffset @ write_offsets cs (startOffset + of_int (container_size_in_bytes c))"

definition ra_portable_serialize :: "roaring_array \<Rightarrow> u8 list \<times> nat" where
  "ra_portable_serialize ra =
     (let hasrun = ra_has_run_container ra;
          size = ra_get_size ra;
          s = (size + 7) div 8;
          header = (if hasrun then u32_to_le (SERIAL_COOKIE OR push_bit 16 (of_int (size - 1))) @ run_flags (ra_containers ra)
                    else u32_to_le SERIAL_COOKIE_NO_RUNCONTAINER @ u32_to_le (of_int size));
          startOffset = (if hasrun then if size < NO_OFFSET_THRESHOLD then 4 + 4 * size + s else 4 + 8 * size + s
                         else 4 + 4 + 4 * size + 4 * size);
          keyscards = concat (map (\<lambda>(k, c). u16_to_le k @ u16_to_le (of_int (container_get_cardinality c - 1))) (ra_entries ra));
          offsets = (if \<not> hasrun \<or> size \<ge> NO_OFFSET_THRESHOLD then write_offsets (ra_containers ra) (of_int startOffset) else []);
          buf = header @ keyscards @ offsets @ concat (map (\<lambda>c. fst (container_write c)) (ra_containers ra))
      in (buf, length buf))"

section \<open>Reading\<close>

text \<open>
  The part that \<open>ra_portable_deserialize_size\<close> and \<open>ra_portable_deserialize\<close> share: the cookie and the number
  of containers, then the bytes that flag run containers and the keys with the cardinalities. The result is
  the number of containers, the positions of the flags (with \<open>hasrun\<close>) and of the keys, and the bytes asked
  for so far, which is the position in the buffer. Offsets that are present are skipped.
\<close>

definition read_cookie :: "u8 list \<Rightarrow> nat \<Rightarrow> (bool \<times> int \<times> nat) reading" where
  "read_cookie buf maxbytes =
     within maxbytes 4 (and_then (fetch buf 0 4) (\<lambda>b.
       let cookie = u32_from_le b
       in if cookie AND 0xFFFF \<noteq> SERIAL_COOKIE \<and> cookie \<noteq> SERIAL_COOKIE_NO_RUNCONTAINER then Failed
          else if cookie AND 0xFFFF = SERIAL_COOKIE then Read (True, uint (drop_bit 16 cookie) + 1, 4)
          else within maxbytes 8 (and_then (fetch buf 4 4) (\<lambda>b. Read (False, sint (u32_from_le b), 8)))))"

definition read_header :: "u8 list \<Rightarrow> nat \<Rightarrow> (bool \<times> nat \<times> nat \<times> nat \<times> nat) reading" where
  "read_header buf maxbytes =
     and_then (read_cookie buf maxbytes) (\<lambda>(hasrun, cells, asked).
       if cells < 0 \<or> cells > 65536 then Failed
       else let cells = nat cells;
                flags = asked;
                keyscards = (if hasrun then flags + (cells + 7) div 8 else flags)
            in within maxbytes keyscards
                 (within maxbytes (keyscards + 4 * cells) (Read (hasrun, cells, flags, keyscards, keyscards + 4 * cells))))"

definition skip_offsets :: "nat \<Rightarrow> bool \<Rightarrow> nat \<Rightarrow> nat \<Rightarrow> nat reading" where
  "skip_offsets maxbytes hasrun cells asked =
     (if \<not> hasrun \<or> int cells \<ge> NO_OFFSET_THRESHOLD then within maxbytes (asked + 4 * cells) (Read (asked + 4 * cells)) else Read asked)"

text \<open>Whether container \<open>k\<close> is flagged as a run container, and its cardinality.\<close>

definition read_kind :: "u8 list \<Rightarrow> bool \<Rightarrow> nat \<Rightarrow> nat \<Rightarrow> nat \<Rightarrow> (bool \<times> nat) reading" where
  "read_kind buf hasrun flags keyscards k =
     and_then (fetch buf (keyscards + 4 * k + 2) 2) (\<lambda>b.
       let thiscard = unat (u16_from_le b) + 1
       in if hasrun then and_then (fetch buf (flags + k div 8) 1) (\<lambda>f. Read (bit (f ! 0) (k mod 8), thiscard))
          else Read (False, thiscard))"

function size_loop :: "u8 list \<Rightarrow> nat \<Rightarrow> bool \<Rightarrow> nat \<Rightarrow> nat \<Rightarrow> nat \<Rightarrow> nat \<Rightarrow> nat \<Rightarrow> nat \<Rightarrow> nat reading" where
  "size_loop buf maxbytes hasrun flags keyscards cells k pos asked =
     (if k < cells
      then and_then (read_kind buf hasrun flags keyscards k) (\<lambda>(isrun, thiscard).
             if isrun
             then within maxbytes (asked + 2) (and_then (fetch buf pos 2) (\<lambda>b.
                    let containersize = unat (u16_from_le b) * 4
                    in within maxbytes (asked + 2 + containersize)
                         (size_loop buf maxbytes hasrun flags keyscards cells (k + 1) (pos + 2 + containersize) (asked + 2 + containersize))))
             else let containersize = (if int thiscard > DEFAULT_MAX_SIZE then 1024 * 8 else thiscard * 2)
                  in within maxbytes (asked + containersize)
                       (size_loop buf maxbytes hasrun flags keyscards cells (k + 1) (pos + containersize) (asked + containersize)))
      else Read asked)"
  by auto
termination
  by (relation "measure (\<lambda>(buf, maxbytes, hasrun, flags, keyscards, cells, k, pos, asked). cells - k)") auto

declare size_loop.simps [simp del]

text \<open>\<open>0\<close> stands for a buffer that is rejected.\<close>

definition ra_portable_deserialize_size :: "u8 list \<Rightarrow> nat \<Rightarrow> nat reading" where
  "ra_portable_deserialize_size buf maxbytes =
     (case and_then (read_header buf maxbytes) (\<lambda>(hasrun, cells, flags, keyscards, pos).
             and_then (skip_offsets maxbytes hasrun cells pos) (\<lambda>pos.
               size_loop buf maxbytes hasrun flags keyscards cells 0 pos pos)) of
        Failed \<Rightarrow> Read 0 | r \<Rightarrow> r)"

text \<open>
  A read by a container routine, which tells how many bytes it has read. A bitset is read into a new
  container whose words are not initialised in the code; all of them are read.
\<close>

definition fetch_container :: "(u8 list \<Rightarrow> 'c \<times> int) \<Rightarrow> u8 list \<Rightarrow> nat \<Rightarrow> ('c \<times> nat) reading" where
  "fetch_container read buf pos =
     (case read (drop pos buf) of (c, n) \<Rightarrow> if int pos + n \<le> int (length buf) then Read (c, pos + nat n) else Fault)"

function read_containers :: "u8 list \<Rightarrow> nat \<Rightarrow> bool \<Rightarrow> nat \<Rightarrow> nat \<Rightarrow> u16 list \<Rightarrow> nat \<Rightarrow> nat \<Rightarrow> nat \<Rightarrow> roaring_array
    \<Rightarrow> (roaring_array \<times> nat) reading" where
  "read_containers buf maxbytes hasrun flags keyscards keys k pos readbytes answer =
     (if k < length keys
      then and_then (read_kind buf hasrun flags keyscards k) (\<lambda>(isrun, thiscard).
             if isrun
             then within maxbytes (readbytes + 2) (and_then (fetch buf pos 2) (\<lambda>b.
                    let readbytes = readbytes + 2 + unat (u16_from_le b) * 4
                    in within maxbytes readbytes
                         (and_then (fetch_container (run_container_read (int thiscard) run_container_create) buf pos) (\<lambda>(c, pos).
                            read_containers buf maxbytes hasrun flags keyscards keys (k + 1) pos readbytes
                              (answer\<lparr>ra_entries := ra_entries answer @ [(keys ! k, Run_c c)]\<rparr>)))))
             else if int thiscard > DEFAULT_MAX_SIZE
             then let readbytes = readbytes + 1024 * 8
                  in within maxbytes readbytes
                       (and_then (fetch_container (bitset_container_read (int thiscard) bitset_container_create) buf pos) (\<lambda>(c, pos).
                          read_containers buf maxbytes hasrun flags keyscards keys (k + 1) pos readbytes
                            (answer\<lparr>ra_entries := ra_entries answer @ [(keys ! k, Bitset_c c)]\<rparr>)))
             else let readbytes = readbytes + thiscard * 2
                  in within maxbytes readbytes
                       (and_then (fetch_container (array_container_read (int thiscard) (array_container_create_given_capacity (int thiscard))) buf pos) (\<lambda>(c, pos).
                          read_containers buf maxbytes hasrun flags keyscards keys (k + 1) pos readbytes
                            (answer\<lparr>ra_entries := ra_entries answer @ [(keys ! k, Array_c c)]\<rparr>))))
      else Read (answer, readbytes))"
  by auto
termination
  by (relation "measure (\<lambda>(buf, maxbytes, hasrun, flags, keyscards, keys, k, pos, readbytes, answer). length keys - k)") auto

declare read_containers.simps [simp del]

definition read_keys :: "u8 list \<Rightarrow> nat \<Rightarrow> nat \<Rightarrow> u16 list reading" where
  "read_keys buf keyscards cells =
     and_then (fetch buf keyscards (4 * cells)) (\<lambda>b. Read (map (\<lambda>k. u16_from_le (take 2 (drop (4 * k) b))) [0 ..< cells]))"

definition ra_portable_deserialize :: "u8 list \<Rightarrow> nat \<Rightarrow> (roaring_array \<times> nat) reading" where
  "ra_portable_deserialize buf maxbytes =
     and_then (read_header buf maxbytes) (\<lambda>(hasrun, cells, flags, keyscards, pos).
       and_then (read_keys buf keyscards cells) (\<lambda>keys.
         and_then (skip_offsets maxbytes hasrun cells pos) (\<lambda>pos.
           read_containers buf maxbytes hasrun flags keyscards keys 0 pos pos (ra_init_with_capacity (of_nat cells)))))"

section \<open>Bitmaps\<close>

definition roaring_bitmap_portable_size_in_bytes :: "roaring_bitmap \<Rightarrow> int" where
  "roaring_bitmap_portable_size_in_bytes r = ra_portable_size_in_bytes r"

definition roaring_bitmap_portable_serialize :: "roaring_bitmap \<Rightarrow> u8 list \<times> nat" where
  "roaring_bitmap_portable_serialize r = ra_portable_serialize r"

definition roaring_bitmap_portable_deserialize_size :: "u8 list \<Rightarrow> nat \<Rightarrow> nat reading" where
  "roaring_bitmap_portable_deserialize_size buf maxbytes = ra_portable_deserialize_size buf maxbytes"

text \<open>\<open>None\<close> stands for \<open>NULL\<close>.\<close>

definition roaring_bitmap_portable_deserialize_safe :: "u8 list \<Rightarrow> nat \<Rightarrow> roaring_bitmap option reading" where
  "roaring_bitmap_portable_deserialize_safe buf maxbytes =
     (case ra_portable_deserialize buf maxbytes of
        Fault \<Rightarrow> Fault
      | Failed \<Rightarrow> Read None
      | Read (ans, bytesread) \<Rightarrow> Read (Some (roaring_bitmap_set_copy_on_write ans False)))"

definition roaring_bitmap_portable_deserialize :: "u8 list \<Rightarrow> roaring_bitmap option reading" where
  "roaring_bitmap_portable_deserialize buf = roaring_bitmap_portable_deserialize_safe buf (2 ^ 64 - 1)"

definition CROARING_SERIALIZATION_ARRAY_UINT32 :: u8 where "CROARING_SERIALIZATION_ARRAY_UINT32 = 1"
definition CROARING_SERIALIZATION_CONTAINER :: u8 where "CROARING_SERIALIZATION_CONTAINER = 2"

definition roaring_bitmap_serialize :: "roaring_bitmap \<Rightarrow> u8 list \<times> nat" where
  "roaring_bitmap_serialize r =
     (let portablesize = roaring_bitmap_portable_size_in_bytes r;
          cardinality = roaring_bitmap_get_cardinality r;
          sizeasarray = cardinality * 4 + 4
      in if of_int portablesize < sizeasarray
         then (case roaring_bitmap_portable_serialize r of (bytes, n) \<Rightarrow> (CROARING_SERIALIZATION_CONTAINER # bytes, n + 1))
         else (CROARING_SERIALIZATION_ARRAY_UINT32 # u32_to_le (ucast cardinality) @ concat (map u32_to_le (roaring_bitmap_to_uint32_array r)),
               1 + unat sizeasarray))"

definition roaring_bitmap_size_in_bytes :: "roaring_bitmap \<Rightarrow> u64" where
  "roaring_bitmap_size_in_bytes r =
     (let portablesize = of_int (roaring_bitmap_portable_size_in_bytes r);
          sizeasarray = roaring_bitmap_get_cardinality r * 4 + 4
      in if portablesize < sizeasarray then portablesize + 1 else sizeasarray + 1)"

text \<open>The values written one by one, added through a bulk context.\<close>

fun read_values :: "u8 list \<Rightarrow> nat \<Rightarrow> nat \<Rightarrow> roaring_bitmap \<Rightarrow> roaring_bulk_context \<Rightarrow> roaring_bitmap option reading" where
  "read_values buf pos 0 bitmap context = Read (Some bitmap)"
| "read_values buf pos (Suc n) bitmap context =
     and_then (fetch buf pos 4) (\<lambda>b.
       case roaring_bitmap_add_bulk bitmap context (u32_from_le b) of (bitmap, context) \<Rightarrow>
         read_values buf (pos + 4) n bitmap context)"

definition roaring_bitmap_deserialize :: "u8 list \<Rightarrow> roaring_bitmap option reading" where
  "roaring_bitmap_deserialize buf =
     and_then (fetch buf 0 1) (\<lambda>kind.
       if kind ! 0 = CROARING_SERIALIZATION_ARRAY_UINT32
       then and_then (fetch buf 1 4) (\<lambda>b. read_values buf 5 (unat (u32_from_le b)) roaring_bitmap_create None)
       else if kind ! 0 = CROARING_SERIALIZATION_CONTAINER then roaring_bitmap_portable_deserialize (drop 1 buf)
       else Read None)"

definition roaring_bitmap_deserialize_safe :: "u8 list \<Rightarrow> nat \<Rightarrow> roaring_bitmap option reading" where
  "roaring_bitmap_deserialize_safe buf maxbytes =
     (if maxbytes < 1 then Read None
      else and_then (fetch buf 0 1) (\<lambda>kind.
        if kind ! 0 = CROARING_SERIALIZATION_ARRAY_UINT32
        then if maxbytes < 1 + 4 then Read None
             else and_then (fetch buf 1 4) (\<lambda>b.
               if maxbytes < 1 + 4 + unat (u32_from_le b) * 4 then Read None
               else read_values buf 5 (unat (u32_from_le b)) roaring_bitmap_create None)
        else if kind ! 0 = CROARING_SERIALIZATION_CONTAINER
        then roaring_bitmap_portable_deserialize_safe (drop 1 buf) (maxbytes - 1)
        else Read None))"

section \<open>No read leaves the buffer\<close>

text \<open>The code never reads outside the buffer, and if it accepts, then \<open>P\<close> holds of the result.\<close>

primrec ensures :: "('a \<Rightarrow> bool) \<Rightarrow> 'a reading \<Rightarrow> bool" where
  "ensures P Fault \<longleftrightarrow> False"
| "ensures P Failed \<longleftrightarrow> True"
| "ensures P (Read x) \<longleftrightarrow> P x"

lemma ensures_iff: "ensures P r \<longleftrightarrow> r \<noteq> Fault \<and> (\<forall>x. r = Read x \<longrightarrow> P x)"
  by (cases r) auto

lemma ensures_and_then: "ensures Q r \<Longrightarrow> (\<And>x. Q x \<Longrightarrow> ensures P (f x)) \<Longrightarrow> ensures P (and_then r f)"
  by (cases r) auto

lemma ensures_within: "(n \<le> m \<Longrightarrow> ensures P r) \<Longrightarrow> ensures P (within m n r)"
  by (simp add: within_def)

lemma ensures_fetch: "pos + n \<le> length buf \<Longrightarrow> ensures (\<lambda>b. b = take n (drop pos buf)) (fetch buf pos n)"
  by (simp add: fetch_def)

lemma ensures_weaken: "ensures P r \<Longrightarrow> (\<And>x. P x \<Longrightarrow> Q x) \<Longrightarrow> ensures Q r"
  by (cases r) auto

lemma read_cookie_ensures:
  assumes "maxbytes \<le> length buf"
  shows "ensures (\<lambda>(hasrun, cells, asked). 4 \<le> asked \<and> asked \<le> maxbytes) (read_cookie buf maxbytes)"
  unfolding read_cookie_def Let_def
  using assms by (auto intro!: ensures_within ensures_and_then [OF ensures_fetch])

text \<open>Where the parts of the header are.\<close>

definition header_ok :: "nat \<Rightarrow> bool \<times> nat \<times> nat \<times> nat \<times> nat \<Rightarrow> bool" where
  "header_ok maxbytes = (\<lambda>(hasrun, cells, flags, keyscards, pos).
     cells \<le> 65536 \<and> keyscards = (if hasrun then flags + (cells + 7) div 8 else flags) \<and> pos = keyscards + 4 * cells \<and> 4 \<le> pos \<and> pos \<le> maxbytes)"

lemma read_header_ensures:
  assumes "maxbytes \<le> length buf"
  shows "ensures (header_ok maxbytes) (read_header buf maxbytes)"
  unfolding read_header_def Let_def
  by (rule ensures_and_then [OF read_cookie_ensures [OF assms]]) (auto intro!: ensures_within simp: header_ok_def)

lemma skip_offsets_ensures:
  "pos \<le> maxbytes \<Longrightarrow> ensures (\<lambda>p. pos \<le> p \<and> p \<le> maxbytes) (skip_offsets maxbytes hasrun cells pos)"
  by (auto simp: skip_offsets_def intro!: ensures_within)

lemma read_kind_ensures:
  assumes "header_ok maxbytes (hasrun, cells, flags, keyscards, pos)" and "maxbytes \<le> length buf" and "k < cells"
  shows "ensures (\<lambda>(isrun, card). 0 < card \<and> card \<le> 65536) (read_kind buf hasrun flags keyscards k)"
proof -
  have card: "unat (u16_from_le b) < 65536" for b by (rule unat_u16_less)
  have cell: "keyscards + 4 * k + 2 + 2 \<le> length buf" using assms by (auto simp: header_ok_def)
  have "k div 8 < (cells + 7) div 8" using assms(3) by linarith
  then have flag: "hasrun \<Longrightarrow> flags + k div 8 + 1 \<le> length buf" using assms by (auto simp: header_ok_def)
  show ?thesis
    unfolding read_kind_def Let_def
  proof (rule ensures_and_then [OF ensures_fetch [OF cell]], goal_cases)
    case (1 b)
    show ?case using card [of b] ensures_fetch [OF flag] by (auto simp: Suc_le_eq intro: ensures_and_then)
  qed
qed

text \<open>A container routine reads as many bytes as it says.\<close>

lemma reads_size:
  "snd (run_container_read n c buf) = 2 + 4 * int (unat (u16_from_le (take 2 buf)))"
  "snd (bitset_container_read n b buf) = 8192" "snd (array_container_read n a buf) = 2 * n"
  by (simp_all add: run_container_read_def bitset_container_read_def array_container_read_def Let_def run_container_size_in_bytes_def
    run_container_serialized_size_in_bytes_def
    bitset_container_size_in_bytes_def array_container_size_in_bytes_def run_container_grow_def array_container_grow_def)

lemma fetch_container_read:
  assumes "snd (f (drop pos buf)) = int n" and "pos + n \<le> length buf"
  shows "fetch_container f buf pos = Read (fst (f (drop pos buf)), pos + n)"
  using assms by (cases "f (drop pos buf)") (simp add: fetch_container_def)

text \<open>
  The quick check and the reading go through the same bytes: the reading ends where the check says, and
  fails where the check fails.
\<close>

lemma read_containers_size:
  assumes "header_ok maxbytes (hasrun, length keys, flags, keyscards, start)" and "maxbytes \<le> length buf" and "pos \<le> maxbytes"
  shows "ensures (\<lambda>(ra, n). pos \<le> n \<and> n \<le> maxbytes) (read_containers buf maxbytes hasrun flags keyscards keys k pos pos answer)
    \<and> map_reading snd (read_containers buf maxbytes hasrun flags keyscards keys k pos pos answer)
      = size_loop buf maxbytes hasrun flags keyscards (length keys) k pos pos"
  using assms(3)
proof (induction "length keys - k" arbitrary: k pos answer rule: less_induct)
  case less
  let ?read = "\<lambda>k pos answer. read_containers buf maxbytes hasrun flags keyscards keys k pos pos answer"
    and ?size = "\<lambda>k pos. size_loop buf maxbytes hasrun flags keyscards (length keys) k pos pos"
  show ?case
  proof (cases "k < length keys")
    case False
    then show ?thesis using less.prems by (subst (1 2) read_containers.simps, subst size_loop.simps) simp
  next
    case True
    have IH: "ensures (\<lambda>(ra, n). pos \<le> n \<and> n \<le> maxbytes) (?read (k + 1) pos' answer') \<and> map_reading snd (?read (k + 1) pos' answer') = ?size (k + 1) pos'"
      if "pos \<le> pos'" and "pos' \<le> maxbytes" for pos' answer'
    proof -
      have "ensures (\<lambda>(ra, n). pos' \<le> n \<and> n \<le> maxbytes) (?read (k + 1) pos' answer') \<and> map_reading snd (?read (k + 1) pos' answer') = ?size (k + 1) pos'"
        using less.hyps [of "k + 1" pos' answer'] True that(2) by simp
      then show ?thesis using that(1) ensures_weaken [of "\<lambda>(ra, n). pos' \<le> n \<and> n \<le> maxbytes" "?read (k + 1) pos' answer'"] by auto
    qed
    obtain isrun card where kind: "read_kind buf hasrun flags keyscards k = Failed \<or> read_kind buf hasrun flags keyscards k = Read (isrun, card)"
      using read_kind_ensures [OF assms(1,2) True] by (cases "read_kind buf hasrun flags keyscards k") auto
    note reading = trans [OF read_containers.simps if_P [OF True], of buf maxbytes hasrun flags keyscards pos pos answer]
      and sizing = trans [OF size_loop.simps if_P [OF True], of buf maxbytes hasrun flags keyscards pos pos]
    from kind show ?thesis
    proof
      assume "read_kind buf hasrun flags keyscards k = Failed"
      then show ?thesis unfolding reading sizing by simp
    next
      assume kind: "read_kind buf hasrun flags keyscards k = Read (isrun, card)"
      have container: "ensures (\<lambda>(ra, n). pos \<le> n \<and> n \<le> maxbytes) (within maxbytes (pos + n) (and_then (fetch_container f buf pos)
            (\<lambda>(c, pos'). read_containers buf maxbytes hasrun flags keyscards keys (k + 1) pos' (pos + n) (g c))))
          \<and> map_reading snd (within maxbytes (pos + n) (and_then (fetch_container f buf pos)
              (\<lambda>(c, pos'). read_containers buf maxbytes hasrun flags keyscards keys (k + 1) pos' (pos + n) (g c))))
            = within maxbytes (pos + n) (?size (k + 1) (pos + n))"
        if "snd (f (drop pos buf)) = int n" for f :: "u8 list \<Rightarrow> 'c \<times> int" and g n
        using IH [of "pos + n" "g (fst (f (drop pos buf)))"] fetch_container_read [of f pos buf n, OF that] assms(2)
        by (simp add: within_def)
      show ?thesis
      proof (cases isrun)
        case True
        have head: "pos + 2 \<le> maxbytes \<Longrightarrow> fetch buf pos 2 = Read (take 2 (drop pos buf))" using assms(2) by (simp add: fetch_def)
        let ?n = "2 + unat (u16_from_le (take 2 (drop pos buf))) * 4"
        have "snd (run_container_read (int card) run_container_create (drop pos buf)) = int ?n" unfolding reads_size by simp
        from container [of "run_container_read (int card) run_container_create" ?n, OF this,
          of "\<lambda>c. answer\<lparr>ra_entries := ra_entries answer @ [(keys ! k, Run_c c)]\<rparr>"] head
        show ?thesis unfolding reading sizing kind by (auto simp: True within_def Let_def add.assoc)
      next
        case False
        show ?thesis
        proof (cases "int card > DEFAULT_MAX_SIZE")
          case big: True
          from container [of "bitset_container_read (int card) bitset_container_create" "1024 * 8"
            "\<lambda>c. answer\<lparr>ra_entries := ra_entries answer @ [(keys ! k, Bitset_c c)]\<rparr>"]
          show ?thesis using big unfolding reading sizing kind by (simp add: False reads_size Let_def)
        next
          case small: False
          from container [of "array_container_read (int card) (array_container_create_given_capacity (int card))" "card * 2"
            "\<lambda>c. answer\<lparr>ra_entries := ra_entries answer @ [(keys ! k, Array_c c)]\<rparr>"]
          show ?thesis using small unfolding reading sizing kind by (simp add: False reads_size Let_def)
        qed
      qed
    qed
  qed
qed

lemma ra_portable_deserialize_bounds:
  assumes "maxbytes \<le> length buf"
  shows "ensures (\<lambda>(ra, n). 0 < n \<and> n \<le> maxbytes) (ra_portable_deserialize buf maxbytes)"
    and "ra_portable_deserialize_size buf maxbytes
      = (case ra_portable_deserialize buf maxbytes of Fault \<Rightarrow> Fault | Failed \<Rightarrow> Read 0 | Read (ra, n) \<Rightarrow> Read n)"
proof -
  have "ensures (\<lambda>(ra, n). 0 < n \<and> n \<le> maxbytes) (ra_portable_deserialize buf maxbytes)
    \<and> ra_portable_deserialize_size buf maxbytes
      = (case ra_portable_deserialize buf maxbytes of Fault \<Rightarrow> Fault | Failed \<Rightarrow> Read 0 | Read (ra, n) \<Rightarrow> Read n)"
  proof (cases "read_header buf maxbytes")
    case (Read h)
    obtain hasrun cells flags keyscards pos where h: "h = (hasrun, cells, flags, keyscards, pos)" by (cases h)
    have ok: "header_ok maxbytes (hasrun, cells, flags, keyscards, pos)" using read_header_ensures [OF assms] by (simp add: Read h)
    then have p: "pos \<le> maxbytes" "keyscards + 4 * cells \<le> length buf" using assms by (simp_all add: header_ok_def)
    obtain keys where keys: "read_keys buf keyscards cells = Read keys" "length keys = cells"
      using p(2) by (simp add: read_keys_def fetch_def)
    note skip = skip_offsets_ensures [OF p(1), of hasrun cells]
    show ?thesis
    proof (cases "skip_offsets maxbytes hasrun cells pos")
      case (Read start)
      then have start: "start \<le> maxbytes" "0 < start" using skip ok by (simp_all add: header_ok_def)
      from read_containers_size [OF ok [folded keys(2)] assms start(1), of 0 "ra_init_with_capacity (of_nat cells)"]
      have loop: "ensures (\<lambda>(ra, n). start \<le> n \<and> n \<le> maxbytes) (ra_portable_deserialize buf maxbytes)"
        "size_loop buf maxbytes hasrun flags keyscards cells 0 start start = map_reading snd (ra_portable_deserialize buf maxbytes)"
        using Read \<open>read_header buf maxbytes = Read h\<close> h keys by (simp_all add: ra_portable_deserialize_def)
      then show ?thesis using Read start(2) \<open>read_header buf maxbytes = Read h\<close> h
        by (cases "ra_portable_deserialize buf maxbytes") (auto simp: ra_portable_deserialize_size_def)
    qed (use skip \<open>read_header buf maxbytes = Read h\<close> h keys in
      \<open>simp_all add: ra_portable_deserialize_def ra_portable_deserialize_size_def\<close>)
  qed (use read_header_ensures [OF assms] in \<open>simp_all add: ra_portable_deserialize_def ra_portable_deserialize_size_def\<close>)
  then show size: "ra_portable_deserialize_size buf maxbytes
      = (case ra_portable_deserialize buf maxbytes of Fault \<Rightarrow> Fault | Failed \<Rightarrow> Read 0 | Read (ra, n) \<Rightarrow> Read n)"
    and "ensures (\<lambda>(ra, n). 0 < n \<and> n \<le> maxbytes) (ra_portable_deserialize buf maxbytes)"
    by blast+
qed

section \<open>Round trip\<close>

lemma length_le [simp]: "length (u16_to_le v) = 2" "length (u32_to_le w) = 4"
  by (simp_all add: u16_to_le_def u32_to_le_def)

lemma u32_from_to_le [simp]: "u32_from_le (u32_to_le v) = v"
proof -
  define b :: "nat \<Rightarrow> u32" where "b k = push_bit (8 * k) (ucast (ucast (drop_bit (8 * k) v) :: u8))" for k
  have bits: "bit (b k) n \<longleftrightarrow> 8 * k \<le> n \<and> n < 8 * k + 8 \<and> n < 32 \<and> bit v n" for k n
    by (auto simp: b_def bit_simps)
  have part: "m * 8 \<le> n \<and> n < m * 8 + 8 \<Longrightarrow> n div 8 = m" for m n :: nat by linarith
  have disjoint: "b i AND b j = 0" if "i \<noteq> j" for i j
    by (rule bit_word_eqI) (use that part [of i] part [of j] in \<open>auto simp: bits bit_and_iff mult.commute\<close>)
  have "u32_from_le (u32_to_le v) = b 0 + b 1 + b 2 + b 3" by (simp add: u32_from_le_def u32_to_le_def b_def)
  also have "\<dots> = ((b 0 OR b 1) OR b 2) OR b 3"
    by (simp add: disjunctive_add_eq_or disjoint bit.conj_disj_distrib2)
  also have "\<dots> = v"
  proof (rule bit_word_eqI)
    fix n assume "n < LENGTH(32)"
    then show "bit (((b 0 OR b 1) OR b 2) OR b 3) n = bit v n" by (auto simp: bit_or_iff bits)
  qed
  finally show ?thesis .
qed

lemma fetch_at:
  assumes "length pre = pos" and "length b = n"
  shows "fetch (pre @ b @ rest) pos n = Read b"
  using assms by (simp add: fetch_def)

lemma bit_run_flags:
  "length (run_flags cs) = (length cs + 7) div 8"
  "k < length cs \<Longrightarrow> bit (run_flags cs ! (k div 8)) (k mod 8) \<longleftrightarrow> is_run_container (cs ! k)"
proof -
  define step where "step = (\<lambda>bytes i. if is_run_container (cs ! i) then bytes[i div 8 := bytes ! (i div 8) OR push_bit (i mod 8) 1] else (bytes :: u8 list))"
  define start where "start = (replicate ((length cs + 7) div 8) 0 :: u8 list)"
  have "length (foldl step start [0 ..< n]) = (length cs + 7) div 8
      \<and> (\<forall>k < length cs. bit (foldl step start [0 ..< n] ! (k div 8)) (k mod 8) \<longleftrightarrow> k < n \<and> is_run_container (cs ! k))"
    if "n \<le> length cs" for n
    using that
  proof (induction n)
    case 0
    have "k div 8 < (length cs + 7) div 8" if "k < length cs" for k using that by linarith
    then show ?case by (simp add: start_def)
  next
    case (Suc n)
    let ?b = "foldl step start [0 ..< n]"
    have IH: "length ?b = (length cs + 7) div 8" "k < length cs \<Longrightarrow> bit (?b ! (k div 8)) (k mod 8) \<longleftrightarrow> k < n \<and> is_run_container (cs ! k)" for k
      using Suc by auto
    have here: "n div 8 < length ?b" unfolding IH(1) using Suc.prems by linarith
    have "bit (step ?b n ! (k div 8)) (k mod 8) \<longleftrightarrow> k < Suc n \<and> is_run_container (cs ! k)" if k: "k < length cs" for k
    proof (cases "is_run_container (cs ! n) \<and> k div 8 = n div 8")
      case True
      have "k = n \<longleftrightarrow> k mod 8 = n mod 8" using True by (metis div_mult_mod_eq)
      then show ?thesis using True here IH(2) [OF k] by (auto simp: step_def bit_simps less_Suc_eq)
    next
      case False
      then have "step ?b n ! (k div 8) = ?b ! (k div 8)" by (auto simp: step_def)
      then show ?thesis using IH(2) [OF k] False by (auto simp: less_Suc_eq)
    qed
    then show ?case using IH(1) by (simp add: step_def)
  qed
  from this [OF order_refl] show "length (run_flags cs) = (length cs + 7) div 8"
    "k < length cs \<Longrightarrow> bit (run_flags cs ! (k div 8)) (k mod 8) \<longleftrightarrow> is_run_container (cs ! k)"
    unfolding run_flags_def step_def start_def by simp_all
qed

text \<open>The container read back is the one written, up to the capacity it is given.\<close>

definition reread :: "container_t \<Rightarrow> container_t \<Rightarrow> bool" where
  "reread c c' \<longleftrightarrow> container_inv c' \<and> container_abs c' = container_abs c \<and> (is_run_container c' \<longleftrightarrow> is_run_container c)"

abbreviation container_bytes :: "container_t \<Rightarrow> u8 list" where
  "container_bytes c \<equiv> fst (container_write c)"

lemma reread_run:
  assumes "run_inv r"
  shows "reread (Run_c r) (Run_c (fst (run_container_read n run_container_create (container_bytes (Run_c r) @ rest))))"
    and "snd (run_container_read n run_container_create (container_bytes (Run_c r) @ rest)) = int (length (container_bytes (Run_c r)))"
    and "4 * unat (u16_from_le (take 2 (container_bytes (Run_c r) @ rest))) + 2 = length (container_bytes (Run_c r))"
proof -
  note len = run_write_read(1) [OF assms] and rw = run_write_read(2-) [OF assms, where k = n and d = run_container_create and rest = rest]
  show size: "snd (run_container_read n run_container_create (container_bytes (Run_c r) @ rest)) = int (length (container_bytes (Run_c r)))"
    using len rw(3) by simp
  then show "4 * unat (u16_from_le (take 2 (container_bytes (Run_c r) @ rest))) + 2 = length (container_bytes (Run_c r))"
    unfolding reads_size(1) by linarith
  show "reread (Run_c r) (Run_c (fst (run_container_read n run_container_create (container_bytes (Run_c r) @ rest))))"
    using rw(1,2) by (simp add: reread_def run_abs_def)
qed

lemma reread_bitset:
  assumes "container_inv (Bitset_c b)"
  shows "reread (Bitset_c b) (Bitset_c (fst (bitset_container_read (bc_cardinality b) bitset_container_create (container_bytes (Bitset_c b) @ rest))))"
    and "length (container_bytes (Bitset_c b)) = 8192"
proof -
  have wf: "bitset_inv b" "bitset_wf b" using assms by (simp_all add: bitset_inv_def)
  note rw = bitset_write_read(2) [OF wf(2), where d = bitset_container_create and rest = rest]
  have "fst (bitset_container_read (bc_cardinality b) bitset_container_create (container_bytes (Bitset_c b) @ rest)) = b"
    using rw by (simp add: bitset_container_create_def)
  then show "reread (Bitset_c b) (Bitset_c (fst (bitset_container_read (bc_cardinality b) bitset_container_create (container_bytes (Bitset_c b) @ rest))))"
    using assms by (simp only: reread_def simp_thms)
  show "length (container_bytes (Bitset_c b)) = 8192" using bitset_write_read(1) [OF wf(2)] by (simp add: bitset_container_write_def bitset_container_size_in_bytes_def)
qed

lemma reread_array:
  assumes "container_inv (Array_c a)"
  shows "reread (Array_c a) (Array_c (fst (array_container_read (ac_cardinality a) d (container_bytes (Array_c a) @ rest))))"
    and "int (length (container_bytes (Array_c a))) = 2 * ac_cardinality a"
proof -
  have inv: "array_inv a" using assms by simp
  note rw = array_write_read(3,4) [OF inv, where d = d and rest = rest]
  have "ac_cardinality (fst (array_container_read (ac_cardinality a) d (container_bytes (Array_c a) @ rest))) = ac_cardinality a"
    by (simp add: array_container_read_def Let_def array_container_grow_def)
  then show "reread (Array_c a) (Array_c (fst (array_container_read (ac_cardinality a) d (container_bytes (Array_c a) @ rest))))"
    using rw assms by (simp add: reread_def array_abs_def)
  show "int (length (container_bytes (Array_c a))) = 2 * ac_cardinality a"
    using array_write_read(2) [OF inv] by (simp add: array_container_write_def array_container_size_in_bytes_def)
qed

definition reread_entry :: "u16 \<times> container_t \<Rightarrow> u16 \<times> container_t \<Rightarrow> bool" where
  "reread_entry e e' \<longleftrightarrow> fst e' = fst e \<and> reread (snd e) (snd e')"

text \<open>One step of the reading loop over a container that was written.\<close>

lemma read_containers_step:
  assumes "k < length keys" and "read_kind buf hasrun flags keyscards k = Read (is_run_container c, card (container_abs c))"
    and "container_inv c" and "container_abs c \<noteq> {}" and "drop pos buf = container_bytes c @ rest" and "pos + length (container_bytes c) \<le> maxbytes"
    and "pos \<le> length buf"
  shows "\<exists>c'. reread c c' \<and> read_containers buf maxbytes hasrun flags keyscards keys k pos pos answer
      = read_containers buf maxbytes hasrun flags keyscards keys (k + 1) (pos + length (container_bytes c)) (pos + length (container_bytes c))
          (answer\<lparr>ra_entries := ra_entries answer @ [(keys ! k, c')]\<rparr>)"
proof -
  note reading = trans [OF read_containers.simps if_P [OF assms(1)], of buf maxbytes hasrun flags keyscards pos pos answer]
  have "length (drop pos buf) = length (container_bytes c) + length rest" unfolding assms(5) by simp
  then have fits: "pos + length (container_bytes c) \<le> length buf" using assms(7) by simp
  have n: "int (card (container_abs c)) = container_get_cardinality c" by (rule container_cardinality_abs [OF assms(3), symmetric])
  show ?thesis
  proof (cases c)
    case (Run_c r)
    have inv: "run_inv r" using assms(3) by (simp add: Run_c)
    let ?f = "run_container_read (int (card (container_abs c))) run_container_create"
    note rr = reread_run [OF inv, where rest = rest, folded Run_c, folded assms(5)]
    have "fetch_container ?f buf pos = Read (fst (?f (drop pos buf)), pos + length (container_bytes c))"
      using rr(2) fits by (intro fetch_container_read)
    moreover have "fetch buf pos 2 = Read (take 2 (drop pos buf))" using rr(3) fits by (simp add: fetch_def)
    ultimately show ?thesis using rr(1) rr(3) [symmetric] assms(6)
      unfolding reading assms(2) by (intro exI [of _ "Run_c (fst (?f (drop pos buf)))"]) (simp add: Run_c within_def Let_def mult.commute)
  next
    case (Bitset_c b)
    have inv: "container_inv (Bitset_c b)" using assms(3) by (simp add: Bitset_c)
    let ?f = "bitset_container_read (int (card (container_abs c))) bitset_container_create"
    have card: "int (card (container_abs c)) = bc_cardinality b" unfolding n by (simp add: Bitset_c)
    note rr = reread_bitset(1) [OF inv, where rest = rest, folded Bitset_c, folded card, folded assms(5)] reread_bitset(2) [OF inv, folded Bitset_c]
    have "fetch_container ?f buf pos = Read (fst (?f (drop pos buf)), pos + length (container_bytes c))"
      using rr(2) fits by (intro fetch_container_read) (simp add: reads_size)
    moreover have "int (card (container_abs c)) > DEFAULT_MAX_SIZE" using inv unfolding card by simp
    ultimately show ?thesis using rr assms(6)
      unfolding reading assms(2) by (intro exI [of _ "Bitset_c (fst (?f (drop pos buf)))"]) (simp add: Bitset_c within_def Let_def)
  next
    case (Array_c a)
    have inv: "container_inv (Array_c a)" using assms(3) by (simp add: Array_c)
    let ?f = "array_container_read (int (card (container_abs c))) (array_container_create_given_capacity (int (card (container_abs c))))"
    have card: "int (card (container_abs c)) = ac_cardinality a" unfolding n by (simp add: Array_c)
    note rr = reread_array(1) [OF inv, where rest = rest, folded Array_c, folded card, folded assms(5)] reread_array(2) [OF inv, folded Array_c, folded card]
    have len: "length (container_bytes c) = 2 * card (container_abs c)" using rr(2) by linarith
    have "fetch_container ?f buf pos = Read (fst (?f (drop pos buf)), pos + length (container_bytes c))"
      using len fits by (intro fetch_container_read) (simp_all add: reads_size)
    moreover have "\<not> int (card (container_abs c)) > DEFAULT_MAX_SIZE" using inv unfolding card by simp
    ultimately show ?thesis using rr(1) len assms(6)
      unfolding reading assms(2) by (intro exI [of _ "Array_c (fst (?f (drop pos buf)))"]) (simp add: Array_c within_def Let_def mult.commute)
  qed
qed

abbreviation all_written :: "(u16 \<times> container_t) list \<Rightarrow> u8 list" where
  "all_written es \<equiv> concat (map (\<lambda>e. container_bytes (snd e)) es)"

lemma read_containers_written:
  assumes "entries_inv es"
    and "\<forall>k < length es. read_kind buf hasrun flags keyscards k
      = Read (is_run_container (snd (es ! k)), card (container_abs (snd (es ! k))))"
    and "k \<le> length es" and "pos \<le> length buf" and "drop pos buf = all_written (drop k es) @ rest"
    and "pos + length (all_written (drop k es)) \<le> maxbytes"
  shows "\<exists>es'. list_all2 reread_entry (drop k es) es' \<and> read_containers buf maxbytes hasrun flags keyscards (map fst es) k pos pos answer
      = Read (answer\<lparr>ra_entries := ra_entries answer @ es'\<rparr>, pos + length (all_written (drop k es)))"
  using assms(3-6)
proof (induction "length es - k" arbitrary: k pos answer)
  case 0
  then have "k = length es" by simp
  then show ?case by (intro exI [of _ "[]"]) (subst read_containers.simps, simp)
next
  case (Suc m)
  then have k: "k < length es" by simp
  obtain key c where e: "es ! k = (key, c)" by fastforce
  have d: "drop k es = (key, c) # drop (k + 1) es" using Cons_nth_drop_Suc [OF k] by (simp add: e)
  have c: "container_inv c" "container_abs c \<noteq> {}" using nth_mem [OF k] assms(1) unfolding e by (auto simp: entries_ok_def)
  have kind: "read_kind buf hasrun flags keyscards k = Read (is_run_container c, card (container_abs c))" using assms(2) k by (simp add: e)
  have buf: "drop pos buf = container_bytes c @ all_written (drop (k + 1) es) @ rest" using Suc.prems(3) by (simp add: d)
  have fits: "pos + length (container_bytes c) \<le> maxbytes" using Suc.prems(4) by (simp add: d)
  obtain c' where c': "reread c c'" "read_containers buf maxbytes hasrun flags keyscards (map fst es) k pos pos answer
      = read_containers buf maxbytes hasrun flags keyscards (map fst es) (k + 1) (pos + length (container_bytes c)) (pos + length (container_bytes c))
          (answer\<lparr>ra_entries := ra_entries answer @ [(map fst es ! k, c')]\<rparr>)"
    using read_containers_step [OF _ kind c buf fits Suc.prems(2), of "map fst es" answer] k by auto
  have "length (drop pos buf) = length (container_bytes c) + length (all_written (drop (k + 1) es) @ rest)" unfolding buf by simp
  then have inside: "pos + length (container_bytes c) \<le> length buf" using Suc.prems(2) by simp
  have "drop (length (container_bytes c)) (drop pos buf) = all_written (drop (k + 1) es) @ rest" unfolding buf by simp
  then have next_one: "drop (pos + length (container_bytes c)) buf = all_written (drop (k + 1) es) @ rest" by (simp only: drop_drop add.commute)
  have m: "m = length es - (k + 1)" and k1: "k + 1 \<le> length es" using Suc.hyps(2) k by simp_all
  have fits': "pos + length (container_bytes c) + length (all_written (drop (k + 1) es)) \<le> maxbytes" using Suc.prems(4) by (simp add: d)
  obtain es' where es': "list_all2 reread_entry (drop (k + 1) es) es'"
    "read_containers buf maxbytes hasrun flags keyscards (map fst es) (k + 1) (pos + length (container_bytes c)) (pos + length (container_bytes c))
          (answer\<lparr>ra_entries := ra_entries answer @ [(map fst es ! k, c')]\<rparr>)
      = Read (answer\<lparr>ra_entries := ra_entries answer @ (key, c') # es'\<rparr>, pos + length (all_written (drop k es)))"
    using Suc.hyps(1) [OF m k1 inside next_one fits', of "answer\<lparr>ra_entries := ra_entries answer @ [(map fst es ! k, c')]\<rparr>"] k
    by (auto simp: d e add.assoc)
  show ?case
    by (rule exI [of _ "(key, c') # es'"]) (simp add: c' es' [simplified] d reread_entry_def e)
qed

lemma reread_entries:
  assumes "list_all2 reread_entry es es'" and "entries_inv es"
  shows "entries_inv es'" and "entries_abs es' = entries_abs es" and "map fst es' = map fst es"
proof -
  show keys: "map fst es' = map fst es" using assms(1) by (induction rule: list_all2_induct) (auto simp: reread_entry_def)
  have "entries_inv es' \<and> at es' k = at es k" for k using assms
  proof (induction rule: list_all2_induct)
    case (Cons e es e' es')
    have "map fst es' = map fst es" using Cons.hyps(2) by (induction rule: list_all2_induct) (auto simp: reread_entry_def)
    then have "fst ` set es' = fst ` set es" by (metis list.set_map)
    then show ?case using Cons by (cases e; cases e') (auto simp: reread_entry_def reread_def)
  qed simp
  then show "entries_inv es'" "entries_abs es' = entries_abs es" by (auto simp: entries_abs_def)
qed

text \<open>The cells of a table of fields of one length.\<close>

lemma take_cell:
  assumes "\<forall>e \<in> set es. length (f e) = m" and "k < length es"
  shows "take m (drop (m * k) (concat (map f es) @ r)) = f (es ! k)"
  using assms
proof (induction es arbitrary: k)
  case (Cons e es)
  have m: "length (f e) = m" using Cons.prems(1) by simp
  show ?case
  proof (cases k)
    case 0
    then show ?thesis using m by simp
  next
    case (Suc j)
    have "drop (m * k) (concat (map f (e # es)) @ r) = drop (m * j) (drop m (f e @ concat (map f es) @ r))"
      by (simp only: drop_drop Suc mult_Suc_right add.commute list.map concat.simps append.assoc)
    also have "drop m (f e @ concat (map f es) @ r) = concat (map f es) @ r" using m by simp
    finally show ?thesis using Cons Suc by simp
  qed
qed simp

lemma length_cells: "\<forall>e \<in> set es. length (f e) = m \<Longrightarrow> length (concat (map f es)) = m * length es"
  by (induction es) simp_all

abbreviation keycard :: "u16 \<times> container_t \<Rightarrow> u8 list" where
  "keycard \<equiv> \<lambda>(k, c). u16_to_le k @ u16_to_le (of_int (container_get_cardinality c - 1))"

lemma u16_from_to [simp]: "u16_from_le (u16_to_le v) = v"
  by (rule u16_from_to_le)

lemma uint_u32_of_nat: "n < 4294967296 \<Longrightarrow> uint (word_of_nat n :: u32) = int n"
  using unat_u32_of_nat [of n] by (simp only: uint_nat)

lemma one_byte: "i + 1 \<le> length buf \<Longrightarrow> take 1 (drop i buf) = [buf ! i]"
  by (simp add: take_Suc hd_drop_conv_nth)

lemma read_table:
  assumes "drop kc buf = concat (map keycard es) @ r" and "kc \<le> length buf"
  shows "read_keys buf kc (length es) = Read (map fst es)"
    and "k < length es \<Longrightarrow> fetch buf (kc + 4 * k + 2) 2 = Read (u16_to_le (of_int (container_get_cardinality (snd (es ! k)) - 1)))"
proof -
  have m: "\<forall>e \<in> set es. length (keycard e) = 4" by (simp add: split_beta)
  note len = length_cells [OF m]
  have fits: "kc + 4 * length es \<le> length buf"
    using arg_cong [OF assms(1), of length] assms(2) len unfolding length_append length_drop by linarith
  have cell: "take 4 (drop (4 * k) (drop kc buf)) = keycard (es ! k)" if "k < length es" for k
    unfolding assms(1) by (rule take_cell [OF m that])
  have "fetch buf kc (4 * length es) = Read (concat (map keycard es))"
    using fits assms(1) len by (simp add: fetch_def)
  moreover have "u16_from_le (take 2 (drop (4 * k) (concat (map keycard es)))) = fst (es ! k)" if "k < length es" for k
  proof -
    have "take 2 (drop (4 * k) (concat (map keycard es))) = take 2 (take 4 (drop (4 * k) (concat (map keycard es) @ [])))" by simp
    also have "\<dots> = take 2 (keycard (es ! k))" unfolding take_cell [OF m that] ..
    finally show ?thesis by (simp add: split_beta)
  qed
  ultimately show "read_keys buf kc (length es) = Read (map fst es)"
    by (simp add: read_keys_def) (rule nth_equalityI, simp_all)
  assume k: "k < length es"
  have "take 2 (drop (kc + 4 * k + 2) buf) = drop 2 (take 4 (drop (4 * k) (drop kc buf)))"
    by (simp add: drop_take add.commute add.left_commute)
  then show "fetch buf (kc + 4 * k + 2) 2 = Read (u16_to_le (of_int (container_get_cardinality (snd (es ! k)) - 1)))"
    unfolding cell [OF k] using fits k by (simp add: fetch_def split_beta)
qed

lemma cookie_parts:
  fixes w :: u32
  assumes "unat w < 65536"
  shows "(SERIAL_COOKIE OR push_bit 16 w) AND 0xFFFF = SERIAL_COOKIE" and "drop_bit 16 (SERIAL_COOKIE OR push_bit 16 w) = w"
proof -
  have cookie: "SERIAL_COOKIE = take_bit 16 SERIAL_COOKIE" by (simp add: SERIAL_COOKIE_def)
  have c: "n < 16" if "bit SERIAL_COOKIE n" for n using that by (subst (asm) cookie) (simp add: bit_simps)
  have "w = take_bit 16 w" using assms by (simp add: word_unat_eq_iff unsigned_take_bit_eq take_bit_nat_eq_self)
  then have w: "n < 16" if "bit w n" for n using that by (metis bit_take_bit_iff)
  have mask: "(0xFFFF :: u32) = mask 16" by (simp add: mask_eq_exp_minus_1)
  show "(SERIAL_COOKIE OR push_bit 16 w) AND 0xFFFF = SERIAL_COOKIE"
    unfolding mask using c by (intro bit_word_eqI) (auto simp: bit_simps)
  show "drop_bit 16 (SERIAL_COOKIE OR push_bit 16 w) = w"
    using c w by (intro bit_word_eqI) (auto simp: bit_simps)
qed

section \<open>Reading what was written\<close>

text \<open>The parts of a serialized table.\<close>

definition header_bytes :: "roaring_array \<Rightarrow> u8 list" where
  "header_bytes ra = (if ra_has_run_container ra
     then u32_to_le (SERIAL_COOKIE OR push_bit 16 (of_int (ra_get_size ra - 1))) @ run_flags (ra_containers ra)
     else u32_to_le SERIAL_COOKIE_NO_RUNCONTAINER @ u32_to_le (of_int (ra_get_size ra)))"

definition has_offsets :: "roaring_array \<Rightarrow> bool" where
  "has_offsets ra \<longleftrightarrow> \<not> ra_has_run_container ra \<or> ra_get_size ra \<ge> NO_OFFSET_THRESHOLD"

lemma length_write_offsets: "length (write_offsets cs v) = 4 * length cs"
  by (induction cs arbitrary: v) simp_all

lemma serialized_parts:
  obtains offsets where "fst (ra_portable_serialize ra)
      = header_bytes ra @ concat (map keycard (ra_entries ra)) @ offsets @ all_written (ra_entries ra)"
    and "length offsets = (if has_offsets ra then 4 * ra_size ra else 0)"
    and "snd (ra_portable_serialize ra) = length (fst (ra_portable_serialize ra))"
proof -
  define start where "start = (if ra_has_run_container ra
      then if ra_get_size ra < NO_OFFSET_THRESHOLD then 4 + 4 * ra_get_size ra + (ra_get_size ra + 7) div 8
           else 4 + 8 * ra_get_size ra + (ra_get_size ra + 7) div 8
      else 4 + 4 + 4 * ra_get_size ra + 4 * ra_get_size ra)"
  define offsets where "offsets = (if has_offsets ra then write_offsets (ra_containers ra) (of_int start) else [])"
  have containers: "concat (map (\<lambda>c. fst (container_write c)) (ra_containers ra)) = all_written (ra_entries ra)"
    by (simp add: comp_def)
  have "fst (ra_portable_serialize ra) = header_bytes ra @ concat (map keycard (ra_entries ra)) @ offsets @ all_written (ra_entries ra)"
    unfolding ra_portable_serialize_def Let_def fst_conv containers header_bytes_def offsets_def has_offsets_def start_def ..
  moreover have "length offsets = (if has_offsets ra then 4 * ra_size ra else 0)" by (simp add: offsets_def length_write_offsets)
  moreover have "snd (ra_portable_serialize ra) = length (fst (ra_portable_serialize ra))"
    by (simp add: ra_portable_serialize_def Let_def)
  ultimately show ?thesis using that by blast
qed

definition keys_position :: "roaring_array \<Rightarrow> nat" where
  "keys_position ra = (if ra_has_run_container ra then 4 + (ra_size ra + 7) div 8 else 8)"

lemma length_header_bytes: "length (header_bytes ra) = keys_position ra"
  by (simp add: header_bytes_def keys_position_def bit_run_flags(1))

lemma read_cookie_written:
  assumes "ra_size ra \<le> 65536" and "keys_position ra \<le> maxbytes"
  shows "read_cookie (header_bytes ra @ r) maxbytes
    = Read (ra_has_run_container ra, int (ra_size ra), if ra_has_run_container ra then 4 else 8)"
proof (cases "ra_has_run_container ra")
  case True
  define w where "w = (of_int (ra_get_size ra - 1) :: u32)"
  have pos: "0 < ra_size ra" using True by (auto simp: ra_has_run_container_def)
  have "ra_get_size ra - 1 = int (ra_size ra - 1)" using pos unfolding ra_get_size_def by linarith
  then have "w = word_of_nat (ra_size ra - 1)" by (simp only: w_def of_int_of_nat_eq)
  moreover have "unat (word_of_nat (ra_size ra - 1) :: u32) = ra_size ra - 1" using assms(1) by (intro unat_u32_of_nat) simp
  ultimately have w: "unat w = ra_size ra - 1" by simp
  have "unat w < 65536" unfolding w using assms(1) pos by simp
  note cookie = cookie_parts [OF this]
  have n: "uint w + 1 = int (ra_size ra)" using w pos by (simp only: uint_nat)
  have "fetch (header_bytes ra @ r) 0 4 = Read (u32_to_le (SERIAL_COOKIE OR push_bit 16 w))"
    unfolding w_def using True by (simp add: header_bytes_def fetch_def)
  then show ?thesis using True assms(2) n by (simp add: read_cookie_def within_def keys_position_def Let_def cookie(1) cookie(2) [simplified])
next
  case False
  have fits: "ra_size ra < 2 ^ 31" using assms(1) by simp
  have "fetch (header_bytes ra @ r) 0 4 = Read (u32_to_le SERIAL_COOKIE_NO_RUNCONTAINER)"
    "fetch (header_bytes ra @ r) 4 4 = Read (u32_to_le (of_int (ra_get_size ra)))"
    using False by (simp_all add: header_bytes_def fetch_def)
  moreover have "sint (of_int (ra_get_size ra) :: u32) = int (ra_size ra)"
    using fits by (simp add: ra_get_size_def sint_uint uint_u32_of_nat signed_take_bit_int_eq_self)
  moreover have "SERIAL_COOKIE_NO_RUNCONTAINER AND 0xFFFF \<noteq> SERIAL_COOKIE"
    by (simp add: SERIAL_COOKIE_NO_RUNCONTAINER_def SERIAL_COOKIE_def)
  ultimately show ?thesis using False assms(2) by (simp add: read_cookie_def within_def keys_position_def Let_def)
qed

lemma ra_portable_round_trip:
  assumes inv: "ra_inv ra" and room: "length (fst (ra_portable_serialize ra)) \<le> maxbytes"
  shows "\<exists>ra'. ra_portable_deserialize (fst (ra_portable_serialize ra) @ rest) maxbytes
        = Read (ra', length (fst (ra_portable_serialize ra)))
      \<and> ra_inv ra' \<and> ra_abs ra' = ra_abs ra \<and> ra_keys ra' = ra_keys ra"
proof -
  let ?es = "ra_entries ra" and ?n = "ra_size ra" and ?buf = "fst (ra_portable_serialize ra) @ rest" and ?kc = "keys_position ra"
    and ?hasrun = "ra_has_run_container ra"
  define flags where "flags = (if ?hasrun then 4 else 8 :: nat)"
  have es: "entries_inv ?es" and n: "?n \<le> 65536" using ra_ok_entries [OF inv] entries_ok_size by blast+
  obtain offsets where parts: "fst (ra_portable_serialize ra) = header_bytes ra @ concat (map keycard ?es) @ offsets @ all_written ?es"
    and offsets: "length offsets = (if has_offsets ra then 4 * ?n else 0)" using serialized_parts [of ra] by blast
  have m: "\<forall>e \<in> set ?es. length (keycard e) = 4" by (simp add: split_beta)
  have table: "length (concat (map keycard ?es)) = 4 * ?n" by (rule length_cells [OF m])
  define start where "start = ?kc + 4 * ?n + length offsets"
  have total: "length (fst (ra_portable_serialize ra)) = start + length (all_written ?es)"
    unfolding parts start_def length_append length_header_bytes table by simp
  have buf: "?buf = header_bytes ra @ concat (map keycard ?es) @ offsets @ all_written ?es @ rest" unfolding parts by simp
  have drop_kc: "drop ?kc ?buf = concat (map keycard ?es) @ offsets @ all_written ?es @ rest"
    unfolding buf by (simp add: length_header_bytes)
  have in_kc: "?kc \<le> length ?buf" unfolding buf length_append length_header_bytes by simp
  have after: "drop (length xs) (xs @ ys) = ys" for xs ys :: "u8 list" by simp
  have "length (header_bytes ra @ concat (map keycard ?es) @ offsets) = start"
    unfolding start_def length_append length_header_bytes table by simp
  then have drop_start: "drop start ?buf = all_written (drop 0 ?es) @ rest"
    using after [of "header_bytes ra @ concat (map keycard ?es) @ offsets" "all_written ?es @ rest"]
    unfolding buf append.assoc by (simp only: drop_0)
  have in_start: "start \<le> length ?buf" using total by simp
  have cookie: "read_cookie ?buf maxbytes = Read (?hasrun, int ?n, flags)"
    using read_cookie_written [OF n, of maxbytes "concat (map keycard ?es) @ offsets @ all_written ?es @ rest"] room total
    unfolding buf by (simp add: flags_def start_def)
  have kc: "?kc = (if ?hasrun then flags + (?n + 7) div 8 else flags)" by (simp add: keys_position_def flags_def)
  have header: "read_header ?buf maxbytes = Read (?hasrun, ?n, flags, ?kc, ?kc + 4 * ?n)"
    using room total n unfolding read_header_def cookie by (simp add: within_def Let_def kc [symmetric] start_def)
  have skip: "skip_offsets maxbytes ?hasrun ?n (?kc + 4 * ?n) = Read start"
    using room total offsets unfolding skip_offsets_def within_def has_offsets_def ra_get_size_def start_def
    by (cases "\<not> ?hasrun \<or> int ?n \<ge> NO_OFFSET_THRESHOLD") (simp_all split: if_splits)
  note keys = read_table(1) [OF drop_kc in_kc]
  have kinds: "read_kind ?buf ?hasrun flags ?kc k = Read (is_run_container (snd (?es ! k)), card (container_abs (snd (?es ! k))))"
    if k: "k < ?n" for k
  proof -
    let ?c = "snd (?es ! k)"
    have c: "container_inv ?c" "container_abs ?c \<noteq> {}" using nth_mem [OF k] es by (auto simp: entries_ok_def)
    let ?card = "card (container_abs ?c)"
    have card: "0 < ?card" "?card \<le> 65536" using c(2) card_mono [of UNIV "container_abs ?c"] by (simp_all add: card_gt_0_iff card_word)
    have "container_get_cardinality ?c - 1 = int (?card - 1)" using card(1) unfolding container_cardinality_abs [OF c(1)] by linarith
    then have "of_int (container_get_cardinality ?c - 1) = (word_of_nat (?card - 1) :: u16)" by (simp only: of_int_of_nat_eq)
    then have "unat (of_int (container_get_cardinality ?c - 1) :: u16) = ?card - 1" using card by (simp only:) (rule unat_u16_of_nat, simp)
    then have thiscard: "unat (u16_from_le (u16_to_le (of_int (container_get_cardinality ?c - 1)))) + 1 = ?card" using card(1) by simp
    show ?thesis
    proof (cases ?hasrun)
      case True
      have here: "k div 8 < (?n + 7) div 8" using k by linarith
      have bytes: "header_bytes ra = u32_to_le (SERIAL_COOKIE OR push_bit 16 (of_int (ra_get_size ra - 1))) @ run_flags (ra_containers ra)"
        using True by (simp add: header_bytes_def)
      have "?buf ! (4 + k div 8) = run_flags (ra_containers ra) ! (k div 8)"
        unfolding buf bytes using here by (simp add: nth_append bit_run_flags(1))
      moreover have "4 + k div 8 + 1 \<le> length ?buf" using here in_kc kc True by (simp add: flags_def)
      ultimately have "fetch ?buf (flags + k div 8) 1 = Read [run_flags (ra_containers ra) ! (k div 8)]"
        using True one_byte [of "flags + k div 8" ?buf] unfolding fetch_def flags_def by (simp only: if_True)
      then show ?thesis
        using read_table(2) [OF drop_kc in_kc k] thiscard True k by (simp add: read_kind_def Let_def bit_run_flags(2))
    next
      case False
      then have "\<not> is_run_container ?c" using nth_mem [OF k] by (auto simp: ra_has_run_container_def)
      then show ?thesis using read_table(2) [OF drop_kc in_kc k] thiscard False by (simp add: read_kind_def Let_def)
    qed
  qed
  let ?new = "ra_init_with_capacity (of_nat ?n)"
  have fits: "start + length (all_written (drop 0 ?es)) \<le> maxbytes" using room total by simp
  obtain es' where es': "list_all2 reread_entry (drop 0 ?es) es'"
    "read_containers ?buf maxbytes ?hasrun flags ?kc (map fst ?es) 0 start start ?new
      = Read (?new\<lparr>ra_entries := ra_entries ?new @ es'\<rparr>, start + length (all_written (drop 0 ?es)))"
    using read_containers_written [OF es, of ?buf ?hasrun flags ?kc 0 start rest maxbytes ?new] kinds drop_start in_start fits by blast
  let ?ra = "?new\<lparr>ra_entries := es'\<rparr>"
  have same: "entries_inv es'" "entries_abs es' = entries_abs ?es" "map fst es' = ra_keys ra"
    using reread_entries [OF _ es, of es'] es'(1) by simp_all
  have result: "ra_portable_deserialize ?buf maxbytes = Read (?ra, length (fst (ra_portable_serialize ra)))"
    using es'(2) by (simp add: ra_portable_deserialize_def header keys skip total)
  have "length es' = ?n" using arg_cong [OF same(3), of length] by simp
  moreover have "int ?n \<le> ra_allocation_size ?new" "flags_ok (ra_flags ?new)"
    using n by (auto simp: ra_init_with_capacity_def ra_init_def Let_def flags_ok_def word_less_nat_alt uint_u32_of_nat)
  ultimately have "ra_inv ?ra" using same(1) by (simp add: ra_ok_def ra_get_size_def)
  then show ?thesis using result same(2,3) by (auto simp: ra_abs_def)
qed

end
