(* ===== verification/Roaring_Formats.thy ===== *)
theory Roaring_Formats
  imports Roaring_Serial
begin

text \<open>
  What the two serialization formats promise for whole bitmaps: the sizes that are announced, round trips,
  and that the checked functions never read outside the buffer they are given.
\<close>

section \<open>Sizes\<close>

lemma ra_portable_size_correct:
  assumes "ra_inv ra"
  shows "ra_portable_size_in_bytes ra = int (length (fst (ra_portable_serialize ra)))"
proof -
  obtain offsets where parts: "fst (ra_portable_serialize ra)
      = header_bytes ra @ concat (map keycard (ra_entries ra)) @ offsets @ all_written (ra_entries ra)"
    and offsets: "length offsets = (if has_offsets ra then 4 * ra_size ra else 0)" using serialized_parts [of ra] by blast
  have m: "\<forall>e \<in> set (ra_entries ra). length (keycard e) = 4" by (simp add: split_beta)
  have "\<forall>e \<in> set es. container_inv (snd e) \<Longrightarrow>
      foldl (\<lambda>count c. count + container_size_in_bytes c) n (map snd es) = n + int (length (all_written es))" for es n
    by (induction es arbitrary: n) (simp_all add: container_write_size(2) [symmetric])
  then have "ra_portable_size_in_bytes ra = ra_portable_header_size ra + int (length (all_written (ra_entries ra)))"
    using ra_ok_entries [OF assms] by (simp add: ra_portable_size_in_bytes_def entries_ok_def)
  moreover have "ra_portable_header_size ra = int (keys_position ra + 4 * ra_size ra + length offsets)"
    unfolding offsets by (simp add: ra_portable_header_size_def Let_def ra_get_size_def keys_position_def has_offsets_def zdiv_int)
  ultimately show ?thesis unfolding parts length_append length_header_bytes length_cells [OF m] by simp
qed

text \<open>A run container has at most \<open>2 ^ 15\<close> runs, so the sizes stay far below \<open>2 ^ 64\<close>.\<close>

lemma runs_count:
  assumes "runs_ok rs"
  shows "length rs \<le> 32768"
proof (cases "rs = []")
  case False
  have "i < length rs \<Longrightarrow> 2 * i \<le> rstart (rs ! i)" for i
  proof (induction i)
    case (Suc i)
    have "rend (rs ! i) + 1 < rstart (rs ! Suc i)" using runs_gap [OF assms, of i "Suc i"] Suc.prems by simp
    then show ?case using Suc rstart_le_rend [of "rs ! i"] by simp
  qed simp
  from this [of "length rs - 1"] False have "2 * (length rs - 1) \<le> rstart (rs ! (length rs - 1))" by simp
  then show ?thesis using rstart_less [of "rs ! (length rs - 1)"] by linarith
qed simp

lemma container_bytes_bound:
  assumes "container_inv c"
  shows "length (container_bytes c) \<le> 131074"
proof (cases c)
  case (Bitset_c b)
  then show ?thesis using reread_bitset(2) [of b] assms by simp
next
  case (Array_c a)
  then show ?thesis using reread_array(2) [of a] assms by simp
next
  case (Run_c r)
  then have "length (rc_runs r) \<le> 32768" "rc_n_runs r = int (length (rc_runs r))" using assms runs_count by (simp_all add: run_inv_def)
  moreover have "int (length (container_bytes c)) = 2 + 4 * rc_n_runs r"
    using container_write_size(2) [OF assms] by (simp add: Run_c run_container_size_in_bytes_def run_container_serialized_size_in_bytes_def)
  ultimately show ?thesis by linarith
qed

lemma serialized_bound:
  assumes "ra_inv ra"
  shows "length (fst (ra_portable_serialize ra)) \<le> 8590733320"
proof -
  obtain offsets where parts: "fst (ra_portable_serialize ra)
      = header_bytes ra @ concat (map keycard (ra_entries ra)) @ offsets @ all_written (ra_entries ra)"
    and offsets: "length offsets = (if has_offsets ra then 4 * ra_size ra else 0)" using serialized_parts [of ra] by blast
  have m: "\<forall>e \<in> set (ra_entries ra). length (keycard e) = 4" by (simp add: split_beta)
  have n: "ra_size ra \<le> 65536" using entries_ok_size [OF ra_ok_entries [OF assms]] .
  have "\<forall>e \<in> set es. container_inv (snd e) \<Longrightarrow> length (all_written es) \<le> 131074 * length es" for es
    using container_bytes_bound by (induction es) (fastforce simp: add_mono)+
  then have "length (all_written (ra_entries ra)) \<le> 131074 * ra_size ra"
    using ra_ok_entries [OF assms] by (simp add: entries_ok_def)
  moreover have "(ra_size ra + 7) div 8 \<le> 8192" using n by linarith
  then have "keys_position ra \<le> 8196" by (simp add: keys_position_def)
  moreover have "length offsets \<le> 4 * ra_size ra" using offsets by simp
  ultimately show ?thesis using n unfolding parts length_append length_header_bytes length_cells [OF m] by linarith
qed

section \<open>The portable format\<close>

lemma portable_safe_round_trip:
  assumes "ra_inv r" and "length (fst (roaring_bitmap_portable_serialize r)) \<le> maxbytes"
  shows "\<exists>r'. roaring_bitmap_portable_deserialize_safe (fst (roaring_bitmap_portable_serialize r) @ rest) maxbytes = Read (Some r')
    \<and> ra_inv r' \<and> ra_abs r' = ra_abs r"
proof -
  obtain ra' where "ra_portable_deserialize (fst (ra_portable_serialize r) @ rest) maxbytes
      = Read (ra', length (fst (ra_portable_serialize r)))" "ra_inv ra'" "ra_abs ra' = ra_abs r"
    using ra_portable_round_trip [OF assms(1) assms(2) [unfolded roaring_bitmap_portable_serialize_def], of rest] by blast
  then show ?thesis by (intro exI [of _ "roaring_bitmap_set_copy_on_write ra' False"])
      (simp add: roaring_bitmap_portable_deserialize_safe_def roaring_bitmap_portable_serialize_def ra_abs_def ra_ok_def ra_get_size_def)
qed

lemma portable_round_trip:
  assumes "ra_inv r"
  shows "\<exists>r'. roaring_bitmap_portable_deserialize (fst (roaring_bitmap_portable_serialize r) @ rest) = Read (Some r')
    \<and> ra_inv r' \<and> ra_abs r' = ra_abs r"
  unfolding roaring_bitmap_portable_deserialize_def
  using serialized_bound [OF assms] by (intro portable_safe_round_trip assms) (simp add: roaring_bitmap_portable_serialize_def)

lemma portable_size_round_trip:
  assumes "ra_inv r" and "length (fst (roaring_bitmap_portable_serialize r)) \<le> maxbytes"
    and "maxbytes \<le> length (fst (roaring_bitmap_portable_serialize r) @ rest)"
  shows "roaring_bitmap_portable_deserialize_size (fst (roaring_bitmap_portable_serialize r) @ rest) maxbytes
    = Read (snd (roaring_bitmap_portable_serialize r))"
proof -
  have "snd (ra_portable_serialize r) = length (fst (ra_portable_serialize r))" by (simp add: ra_portable_serialize_def Let_def)
  then show ?thesis
    using ra_portable_round_trip [OF assms(1) assms(2) [unfolded roaring_bitmap_portable_serialize_def], of rest]
      ra_portable_deserialize_bounds(2) [OF assms(3) [unfolded roaring_bitmap_portable_serialize_def]]
    by (auto simp: roaring_bitmap_portable_deserialize_size_def roaring_bitmap_portable_serialize_def)
qed

lemma portable_safe_bounds:
  assumes "maxbytes \<le> length buf"
  shows "ensures (\<lambda>n. n \<le> maxbytes) (roaring_bitmap_portable_deserialize_size buf maxbytes)"
    and "ensures (\<lambda>r. r = None \<longleftrightarrow> roaring_bitmap_portable_deserialize_size buf maxbytes = Read 0)
      (roaring_bitmap_portable_deserialize_safe buf maxbytes)"
  using ra_portable_deserialize_bounds [OF assms]
  by (cases "ra_portable_deserialize buf maxbytes";
      auto simp: roaring_bitmap_portable_deserialize_size_def roaring_bitmap_portable_deserialize_safe_def)+

lemma portable_size_answers: "roaring_bitmap_portable_deserialize_size buf maxbytes \<noteq> Failed"
  by (simp add: roaring_bitmap_portable_deserialize_size_def ra_portable_deserialize_size_def split: reading.split)

lemma portable_safe_answers: "roaring_bitmap_portable_deserialize_safe buf maxbytes \<noteq> Failed"
  by (simp add: roaring_bitmap_portable_deserialize_safe_def split: reading.split)

section \<open>The native format\<close>

lemma read_values_correct:
  assumes "ra_inv b" and "context_ok b ctx" and "pos + 4 * n \<le> length buf"
  shows "\<exists>b'. read_values buf pos n b ctx = Read (Some b') \<and> ra_inv b'
    \<and> ra_abs b' = ra_abs b \<union> set (map (\<lambda>i. u32_from_le (take 4 (drop (pos + 4 * i) buf))) [0 ..< n])"
  using assms
proof (induction n arbitrary: pos b ctx)
  case (Suc n)
  let ?v = "u32_from_le (take 4 (drop pos buf))"
  obtain b1 ctx1 where add: "add_bulk_impl b ctx ?v = (b1, ctx1)" by fastforce
  note b1 = add_bulk_correct [OF Suc.prems(1,2) add]
  have "pos + 4 + 4 * n \<le> length buf" using Suc.prems(3) by simp
  from Suc.IH [OF b1(1,3) this] obtain b' where b': "read_values buf (pos + 4) n b1 ctx1 = Read (Some b')" "ra_inv b'"
    "ra_abs b' = ra_abs b1 \<union> set (map (\<lambda>i. u32_from_le (take 4 (drop (pos + 4 + 4 * i) buf))) [0 ..< n])" by blast
  have "fetch buf pos 4 = Read (take 4 (drop pos buf))" using Suc.prems(3) by (simp add: fetch_def)
  then have "read_values buf pos (Suc n) b ctx = Read (Some b')" using b'(1) by (simp add: roaring_bitmap_add_bulk_def add)
  moreover have "map (\<lambda>i. u32_from_le (take 4 (drop (pos + 4 * i) buf))) [0 ..< Suc n]
      = ?v # map (\<lambda>i. u32_from_le (take 4 (drop (pos + 4 + 4 * i) buf))) [0 ..< n]"
    by (simp only: upt_conv_Cons [OF zero_less_Suc] map_Suc_upt [symmetric] list.map map_map) (simp add: comp_def algebra_simps)
  ultimately show ?case using b'(2,3) b1(2) by (intro exI [of _ b']) (simp only: list.set, blast)
qed simp

lemma native_safe_bounds:
  assumes "maxbytes \<le> length buf"
  shows "ensures (\<lambda>r. \<forall>b. r = Some b \<and> buf ! 0 = CROARING_SERIALIZATION_ARRAY_UINT32 \<longrightarrow> ra_inv b) (roaring_bitmap_deserialize_safe buf maxbytes)"
proof (cases "maxbytes < 1")
  case False
  then have kind: "fetch buf 0 1 = Read (take 1 buf)" "take 1 buf ! 0 = buf ! 0" using assms by (simp_all add: fetch_def)
  have list: "ensures (\<lambda>r. \<forall>b. r = Some b \<longrightarrow> ra_inv b) (read_values buf 5 n roaring_bitmap_create None)" if "5 + 4 * n \<le> maxbytes" for n
    using read_values_correct [of roaring_bitmap_create None 5 n buf] that assms by (auto simp: context_ok_def)
  have "maxbytes - 1 \<le> length (drop 1 buf)" using assms by simp
  note portable = portable_safe_bounds(2) [OF this]
  have head: "5 \<le> maxbytes \<Longrightarrow> fetch buf 1 4 = Read (take 4 (drop 1 buf))" using assms by (simp add: fetch_def)
  show ?thesis
  proof (cases "buf ! 0 = CROARING_SERIALIZATION_ARRAY_UINT32")
    case True
    then show ?thesis using False list head
      by (auto simp: roaring_bitmap_deserialize_safe_def kind not_less mult.commute simp del: One_nat_def)
  next
    case native: False
    then show ?thesis using False ensures_weaken [OF portable]
      by (auto simp: roaring_bitmap_deserialize_safe_def kind simp del: One_nat_def)
  qed
qed (simp add: roaring_bitmap_deserialize_safe_def)

lemma native_size:
  assumes "ra_inv r"
  defines "p \<equiv> length (fst (roaring_bitmap_portable_serialize r))" and "a \<equiv> 4 * card (ra_abs r) + 4"
  shows "fst (roaring_bitmap_serialize r) = (if p < a then CROARING_SERIALIZATION_CONTAINER # fst (roaring_bitmap_portable_serialize r)
      else CROARING_SERIALIZATION_ARRAY_UINT32 # u32_to_le (word_of_nat (card (ra_abs r))) @ concat (map u32_to_le (sorted_list_of_set (ra_abs r))))"
    and "snd (roaring_bitmap_serialize r) = (if p < a then p else a) + 1"
    and "roaring_bitmap_size_in_bytes r = word_of_nat ((if p < a then p else a) + 1)"
proof -
  have card: "card (ra_abs r) \<le> 4294967296" by (rule count_fits(2))
  have ab: "a < 2 ^ 64" "a + 1 < 2 ^ 64" using card by (simp_all add: a_def)
  have pb: "p < 2 ^ 64" "p + 1 < 2 ^ 64" using serialized_bound [OF assms(1)] by (simp_all add: p_def roaring_bitmap_portable_serialize_def)
  have size: "roaring_bitmap_portable_size_in_bytes r = int p"
    using ra_portable_size_correct [OF assms(1)] by (simp add: roaring_bitmap_portable_size_in_bytes_def p_def roaring_bitmap_portable_serialize_def)
  have count: "roaring_bitmap_get_cardinality r = word_of_nat (card (ra_abs r))" by (rule roaring_bitmap_get_cardinality_correct(1) [OF assms(1)])
  have array: "roaring_bitmap_get_cardinality r * 4 + 4 = (word_of_nat a :: u64)" unfolding count by (simp add: a_def)
  have wide: "unat (word_of_nat k :: u64) = k" if "k < 2 ^ 64" for k using that by (simp add: unat_of_nat)
  have less: "(of_int (int p) :: u64) < word_of_nat a \<longleftrightarrow> p < a" unfolding of_int_of_nat_eq word_less_nat_alt wide [OF pb(1)] wide [OF ab(1)] ..
  have snd: "snd (roaring_bitmap_portable_serialize r) = p"
    by (simp add: p_def roaring_bitmap_portable_serialize_def ra_portable_serialize_def Let_def)
  have narrow: "ucast (word_of_nat k :: u64) = (word_of_nat k :: u32)" if "k < 2 ^ 64" for k
    using that by (simp add: unsigned_of_nat take_bit_nat_eq_self)
  show "fst (roaring_bitmap_serialize r) = (if p < a then CROARING_SERIALIZATION_CONTAINER # fst (roaring_bitmap_portable_serialize r)
      else CROARING_SERIALIZATION_ARRAY_UINT32 # u32_to_le (word_of_nat (card (ra_abs r))) @ concat (map u32_to_le (sorted_list_of_set (ra_abs r))))"
    using narrow [of "card (ra_abs r)"] card
    unfolding roaring_bitmap_serialize_def Let_def size array less roaring_bitmap_to_uint32_array_correct [OF assms(1)] unfolding count
    by (simp split: prod.split)
  show "snd (roaring_bitmap_serialize r) = (if p < a then p else a) + 1"
    using snd unfolding roaring_bitmap_serialize_def Let_def size array less
    by (cases "roaring_bitmap_portable_serialize r") (auto simp: wide [OF ab(1)])
  show "roaring_bitmap_size_in_bytes r = word_of_nat ((if p < a then p else a) + 1)"
    unfolding roaring_bitmap_size_in_bytes_def Let_def size array less by simp
qed

lemma native_length:
  assumes "ra_inv r"
  shows "length (fst (roaring_bitmap_serialize r)) = snd (roaring_bitmap_serialize r)"
proof -
  have m: "\<forall>v \<in> set vs. length (u32_to_le v) = 4" for vs by simp
  show ?thesis unfolding native_size(1,2) [OF assms] by (simp add: length_cells [OF m])
qed

lemma native_round_trip:
  assumes "ra_inv r" and "length (fst (roaring_bitmap_serialize r)) \<le> maxbytes"
  shows "\<exists>r'. roaring_bitmap_deserialize_safe (fst (roaring_bitmap_serialize r) @ rest) maxbytes = Read (Some r') \<and> ra_inv r' \<and> ra_abs r' = ra_abs r"
    and "\<exists>r'. roaring_bitmap_deserialize (fst (roaring_bitmap_serialize r) @ rest) = Read (Some r') \<and> ra_inv r' \<and> ra_abs r' = ra_abs r"
proof -
  let ?p = "length (fst (roaring_bitmap_portable_serialize r))" and ?a = "4 * card (ra_abs r) + 4"
  let ?buf = "fst (roaring_bitmap_serialize r) @ rest"
  have different: "CROARING_SERIALIZATION_CONTAINER \<noteq> CROARING_SERIALIZATION_ARRAY_UINT32"
    by (simp add: CROARING_SERIALIZATION_CONTAINER_def CROARING_SERIALIZATION_ARRAY_UINT32_def)
  have "(\<exists>r'. roaring_bitmap_deserialize_safe ?buf maxbytes = Read (Some r') \<and> ra_inv r' \<and> ra_abs r' = ra_abs r)
      \<and> (\<exists>r'. roaring_bitmap_deserialize ?buf = Read (Some r') \<and> ra_inv r' \<and> ra_abs r' = ra_abs r)"
  proof (cases "?p < ?a")
    case True
    have bytes: "fst (roaring_bitmap_serialize r) = CROARING_SERIALIZATION_CONTAINER # fst (roaring_bitmap_portable_serialize r)"
      using native_size(1) [OF assms(1)] True by (simp only: if_True)
    have "?p \<le> maxbytes - 1" "1 \<le> maxbytes" using assms(2) unfolding bytes by simp_all
    then show ?thesis
      using portable_safe_round_trip [OF assms(1), of "maxbytes - 1" rest] portable_round_trip [OF assms(1), of rest] different
      unfolding bytes by (simp add: roaring_bitmap_deserialize_safe_def roaring_bitmap_deserialize_def fetch_def)
  next
    case False
    let ?vs = "sorted_list_of_set (ra_abs r)" and ?n = "card (ra_abs r)"
    have bytes: "fst (roaring_bitmap_serialize r) = CROARING_SERIALIZATION_ARRAY_UINT32 # u32_to_le (word_of_nat ?n) @ concat (map u32_to_le ?vs)"
      using native_size(1) [OF assms(1)] False by (simp only: if_False)
    have "?a \<le> 8590733320" using False serialized_bound [OF assms(1)] by (simp add: roaring_bitmap_portable_serialize_def)
    then have n: "unat (word_of_nat ?n :: u32) = ?n" by (intro unat_u32_of_nat) simp
    have m: "\<forall>v \<in> set ?vs. length (u32_to_le v) = 4" by simp
    have len: "length (fst (roaring_bitmap_serialize r)) = 5 + 4 * ?n" unfolding bytes by (simp add: length_cells [OF m])
    have fits: "5 + 4 * ?n \<le> length ?buf" "5 + 4 * ?n \<le> maxbytes" using len assms(2) by simp_all
    have "u32_from_le (take 4 (drop (5 + 4 * i) ?buf)) = ?vs ! i" if "i < ?n" for i
    proof -
      have "drop 5 ?buf = concat (map u32_to_le ?vs) @ rest" unfolding bytes by (simp add: drop_Cons')
      then have "drop (5 + 4 * i) ?buf = drop (4 * i) (concat (map u32_to_le ?vs) @ rest)" by (metis add.commute drop_drop)
      then show ?thesis using take_cell [OF m, of i rest] that by simp
    qed
    then have "map (\<lambda>i. u32_from_le (take 4 (drop (5 + 4 * i) ?buf))) [0 ..< ?n] = ?vs" by (intro nth_equalityI) simp_all
    then obtain b where b: "read_values ?buf 5 ?n roaring_bitmap_create None = Read (Some b)" "ra_inv b" "ra_abs b = ra_abs r"
      using read_values_correct [of roaring_bitmap_create None 5 ?n ?buf] fits by (auto simp: context_ok_def ra_abs_Nil)
    have head: "fetch ?buf 0 1 = Read [CROARING_SERIALIZATION_ARRAY_UINT32]" "fetch ?buf 1 4 = Read (u32_to_le (word_of_nat ?n))"
      unfolding bytes by (simp_all add: fetch_def)
    show ?thesis using b n fits(2) by (simp add: roaring_bitmap_deserialize_safe_def roaring_bitmap_deserialize_def head mult.commute del: One_nat_def)
  qed
  then show "\<exists>r'. roaring_bitmap_deserialize_safe ?buf maxbytes = Read (Some r') \<and> ra_inv r' \<and> ra_abs r' = ra_abs r"
    "\<exists>r'. roaring_bitmap_deserialize ?buf = Read (Some r') \<and> ra_inv r' \<and> ra_abs r' = ra_abs r" by blast+
qed

end
