(* ===== verification/Roaring_Properties.thy ===== *)
theory Roaring_Properties
  imports Containers_Properties Roaring_Compare Roaring_Ranges Roaring_Formats
begin

text \<open>
  The properties of the bitmaps of \<open>src/roaring.c\<close>, each a consequence of the lemmas of the theories
  below, with an application to concrete bitmaps.
\<close>

section \<open>Concrete bitmaps\<close>

abbreviation bitmap_a :: roaring_bitmap where
  "bitmap_a \<equiv> \<lparr>ra_allocation_size = 4, ra_entries = [(0, Array_c array_4_9), (7, Array_c array_4_9)], ra_flags = 0\<rparr>"

abbreviation bitmap_b :: roaring_bitmap where
  "bitmap_b \<equiv> \<lparr>ra_allocation_size = 2, ra_entries = [(0, Run_c run_2_5_9)], ra_flags = 1\<rparr>"

lemma bitmaps_inv: "ra_inv bitmap_a" "ra_inv bitmap_b"
  using container_4_9 container_2_5_9 containers_nonempty
  by (simp_all add: ra_ok_def entries_ok_def ra_get_size_def flags_ok_def)

lemma bitmaps_member: "4 \<in> ra_abs bitmap_a" "9 \<in> ra_abs bitmap_a" "3 \<notin> ra_abs bitmap_a" "3 \<in> ra_abs bitmap_b" "9 \<in> ra_abs bitmap_b"
  unfolding mem_ra_abs roaring_array.select_convs at_Cons container_4_9 container_2_5_9 by simp_all

lemma bitmaps_b_4: "4 \<in> ra_abs bitmap_b"
  unfolding mem_ra_abs roaring_array.select_convs at_Cons container_2_5_9 by simp

section \<open>Set operations\<close>

text \<open>C1: the set operations on bitmaps, creating a new bitmap or changing the first one in place (and then
  whichever of its containers are shared with other bitmaps), give a well-formed bitmap (sorted keys,
  no empty container, every container in canonical form, the cells allocated) that holds the set
  operation of the two sets of 32-bit values.\<close>

theorem roaring_set_operations_spec:
  assumes "ra_inv x1" and "ra_inv x2"
  shows "ra_inv (roaring_bitmap_and x1 x2) \<and> ra_abs (roaring_bitmap_and x1 x2) = ra_abs x1 \<inter> ra_abs x2
     \<and> ra_inv (roaring_bitmap_or x1 x2) \<and> ra_abs (roaring_bitmap_or x1 x2) = ra_abs x1 \<union> ra_abs x2
     \<and> ra_inv (roaring_bitmap_xor x1 x2) \<and> ra_abs (roaring_bitmap_xor x1 x2) = sym_diff (ra_abs x1) (ra_abs x2)
     \<and> ra_inv (roaring_bitmap_andnot x1 x2) \<and> ra_abs (roaring_bitmap_andnot x1 x2) = ra_abs x1 - ra_abs x2
     \<and> ra_inv (roaring_bitmap_and_inplace shared x1 x2) \<and> ra_abs (roaring_bitmap_and_inplace shared x1 x2) = ra_abs x1 \<inter> ra_abs x2
     \<and> ra_inv (roaring_bitmap_or_inplace shared x1 x2) \<and> ra_abs (roaring_bitmap_or_inplace shared x1 x2) = ra_abs x1 \<union> ra_abs x2
     \<and> ra_inv (roaring_bitmap_xor_inplace shared x1 x2)
     \<and> ra_abs (roaring_bitmap_xor_inplace shared x1 x2) = sym_diff (ra_abs x1) (ra_abs x2)
     \<and> ra_inv (roaring_bitmap_andnot_inplace shared x1 x2)
     \<and> ra_abs (roaring_bitmap_andnot_inplace shared x1 x2) = ra_abs x1 - ra_abs x2"
  using roaring_bitmap_and_correct [OF assms] roaring_bitmap_or_correct [OF assms] roaring_bitmap_xor_correct [OF assms]
    roaring_bitmap_andnot_correct [OF assms] roaring_bitmap_and_inplace_correct [OF assms, of shared] roaring_bitmap_or_inplace_correct [OF assms, of shared]
    roaring_bitmap_xor_inplace_correct [OF assms, of shared] roaring_bitmap_andnot_inplace_correct [OF assms, of shared]
  by - ((elim conjE)?, intro conjI; assumption)

theorem roaring_set_operations_spec_witness:
  "4 \<in> ra_abs (roaring_bitmap_or bitmap_a bitmap_b) \<and> 3 \<in> ra_abs (roaring_bitmap_or bitmap_a bitmap_b)"
proof -
  have "ra_abs (roaring_bitmap_or bitmap_a bitmap_b) = ra_abs bitmap_a \<union> ra_abs bitmap_b"
    using roaring_set_operations_spec [OF bitmaps_inv, of "\<lambda>_. False"] by - (elim conjE, assumption)
  then show ?thesis using bitmaps_member by (simp only: Un_iff simp_thms)
qed

text \<open>C3: the union and the symmetric difference of many bitmaps run on lazy bitmaps, whose bitset
  containers may have an unknown cardinality and may be too small: each lazy step keeps that weaker
  invariant and the right set, and the final repair gives a well-formed bitmap that holds the union,
  or the symmetric difference, of all of them.\<close>

theorem roaring_many_spec:
  assumes "\<forall>x \<in> set xs. ra_inv x" and "ra_lazy_ok answer" and "ra_inv x"
  shows "ra_inv (roaring_bitmap_or_many share xs) \<and> ra_abs (roaring_bitmap_or_many share xs) = \<Union> (ra_abs ` set xs)
     \<and> ra_inv (roaring_bitmap_xor_many share xs)
     \<and> ra_abs (roaring_bitmap_xor_many share xs) = foldl (\<lambda>S x. sym_diff S (ra_abs x)) {} xs
     \<and> ra_lazy_ok (roaring_bitmap_lazy_or_inplace shared answer x conv)
     \<and> ra_abs (roaring_bitmap_lazy_or_inplace shared answer x conv) = ra_abs answer \<union> ra_abs x
     \<and> ra_lazy_ok (roaring_bitmap_lazy_xor_inplace shared answer x)
     \<and> ra_abs (roaring_bitmap_lazy_xor_inplace shared answer x) = sym_diff (ra_abs answer) (ra_abs x)
     \<and> ra_inv (roaring_bitmap_repair_after_lazy answer) \<and> ra_abs (roaring_bitmap_repair_after_lazy answer) = ra_abs answer"
  using roaring_bitmap_or_many_correct [OF assms(1), of share] roaring_bitmap_xor_many_correct [OF assms(1), of share]
    roaring_bitmap_lazy_or_inplace_correct [OF assms(2,3), of shared conv] roaring_bitmap_lazy_xor_inplace_correct [OF assms(2,3), of shared]
    roaring_bitmap_repair_correct [OF assms(2)]
  by - ((elim conjE)?, intro conjI; assumption)

theorem roaring_many_spec_witness:
  "ra_abs (roaring_bitmap_or_many (\<lambda>_ _. False) [bitmap_a, bitmap_b, bitmap_a]) = ra_abs bitmap_a \<union> ra_abs bitmap_b"
proof -
  have all: "\<forall>x \<in> set [bitmap_a, bitmap_b, bitmap_a]. ra_inv x" using bitmaps_inv by simp
  have "ra_abs (roaring_bitmap_or_many (\<lambda>_ _. False) [bitmap_a, bitmap_b, bitmap_a])
      = \<Union> (ra_abs ` set [bitmap_a, bitmap_b, bitmap_a])"
    using roaring_many_spec [OF all ra_inv_lazy [OF bitmaps_inv(1)] bitmaps_inv(2), of "\<lambda>_ _. False" "\<lambda>_. False" True]
    by - (elim conjE, assumption)
  then show ?thesis by auto
qed

section \<open>Values\<close>

text \<open>C2: single values, bulk operations and lists of values. Membership is that of the set; adding and
  removing give a well-formed bitmap with one value more or less, and the checked versions say
  whether anything changed; a bulk context that names a cell of the bitmap (or nothing) leads to the
  same result and is good again afterwards; lists are added and removed value by value.\<close>

theorem roaring_update_spec:
  assumes "ra_inv r" and "context_ok r ctx"
  shows "(roaring_bitmap_contains r v \<longleftrightarrow> v \<in> ra_abs r)
     \<and> ra_inv (roaring_bitmap_add r v) \<and> ra_abs (roaring_bitmap_add r v) = insert v (ra_abs r)
     \<and> ra_inv (roaring_bitmap_remove r v) \<and> ra_abs (roaring_bitmap_remove r v) = ra_abs r - {v}
     \<and> roaring_bitmap_add_checked r v = (roaring_bitmap_add r v, v \<notin> ra_abs r)
     \<and> roaring_bitmap_remove_checked r v = (roaring_bitmap_remove r v, v \<in> ra_abs r)
     \<and> fst (roaring_bitmap_add_bulk r ctx v) = roaring_bitmap_add r v
     \<and> context_ok (fst (roaring_bitmap_add_bulk r ctx v)) (snd (roaring_bitmap_add_bulk r ctx v))
     \<and> (snd (roaring_bitmap_contains_bulk r ctx v) \<longleftrightarrow> v \<in> ra_abs r) \<and> context_ok r (fst (roaring_bitmap_contains_bulk r ctx v))
     \<and> ra_inv (roaring_bitmap_add_many r vals) \<and> ra_abs (roaring_bitmap_add_many r vals) = ra_abs r \<union> set vals
     \<and> ra_inv (roaring_bitmap_remove_many r vals) \<and> ra_abs (roaring_bitmap_remove_many r vals) = ra_abs r - set vals
     \<and> ra_inv (roaring_bitmap_of_ptr vals) \<and> ra_abs (roaring_bitmap_of_ptr vals) = set vals
     \<and> ra_inv (roaring_bitmap_of vals) \<and> ra_abs (roaring_bitmap_of vals) = set vals"
proof -
  note add = roaring_bitmap_add_checked_correct [OF assms(1) prod.collapse [symmetric], of v]
    and remove = roaring_bitmap_remove_checked_correct [OF assms(1) prod.collapse [symmetric], of v]
    and bulk = add_bulk_correct [OF assms prod.collapse [symmetric], of v]
    and contains = roaring_bitmap_contains_bulk_correct [OF assms prod.collapse [symmetric], of v]
  have "roaring_bitmap_add_checked r v = (roaring_bitmap_add r v, v \<notin> ra_abs r)"
    "roaring_bitmap_remove_checked r v = (roaring_bitmap_remove r v, v \<in> ra_abs r)"
    using add remove by (auto intro: prod_eqI)
  then show ?thesis
    using roaring_bitmap_contains_correct [OF assms(1), of v] roaring_bitmap_add_correct [OF assms(1), of v]
      roaring_bitmap_remove_correct [OF assms(1), of v] bulk(3,4) contains roaring_bitmap_add_many_correct [OF assms(1), of vals]
      roaring_bitmap_remove_many_correct [OF assms(1), of vals] roaring_bitmap_of_ptr_correct [of vals] roaring_bitmap_of_correct [of vals]
    unfolding roaring_bitmap_add_bulk_def by simp
qed

theorem roaring_update_spec_witness:
  "roaring_bitmap_add_checked bitmap_b 9 = (roaring_bitmap_add bitmap_b 9, False) \<and> ra_abs (roaring_bitmap_of [9, 70000, 3]) = {9, 70000, 3}"
proof -
  note spec = roaring_update_spec [OF bitmaps_inv(2), of None 9 "[9, 70000, 3]"]
  have none: "context_ok bitmap_b None" by (simp add: context_ok_def)
  have "roaring_bitmap_add_checked bitmap_b 9 = (roaring_bitmap_add bitmap_b 9, 9 \<notin> ra_abs bitmap_b)"
    "ra_abs (roaring_bitmap_of [9, 70000, 3]) = set [9, 70000, 3]"
    using spec [OF none] by - (elim conjE, assumption)+
  then show ?thesis using bitmaps_member(5) by simp
qed

section \<open>Questions\<close>

lemma widened_or:
  fixes high :: u64 and x :: u32
  assumes "take_bit 32 high = 0"
  shows "high OR ucast x = high + ucast x"
proof -
  have "\<not> bit high n" if "n < 32" for n using arg_cong [OF assms, of "\<lambda>w. bit w n"] that by (simp add: bit_simps)
  then have "high AND ucast x = 0" by (intro bit_word_eqI) (auto simp: bit_simps dest: bit_imp_le_length)
  then show ?thesis by (simp add: disjunctive_add_eq_or)
qed

text \<open>C4: cardinality, emptiness, rank (also of a sorted list of values at once), index, selection, extrema,
  listing and iterating answer from the sorted set of values, whatever the set is, up to all the
  \<open>2 ^ 32\<close> values; an empty bitmap has the minimum \<open>2 ^ 32 - 1\<close> and the maximum \<open>0\<close>. Selection needs a set
  that is not all of the 32-bit values, because ranks are kept on 32 bits. The 64-bit iteration combines
  the value with \<open>high\<close> by a bitwise or, and does not shift \<open>high\<close> up, as the comment in \<open>roaring.h\<close> says;
  it adds the two when the lower 32 bits of \<open>high\<close> are \<open>0\<close>.\<close>

theorem roaring_query_spec:
  assumes "ra_inv r"
  shows "unat (roaring_bitmap_get_cardinality r) = card (ra_abs r) \<and> (roaring_bitmap_is_empty r \<longleftrightarrow> ra_abs r = {})
     \<and> unat (roaring_bitmap_rank r y) = card {z \<in> ra_abs r. z \<le> y}
     \<and> (sorted qs \<longrightarrow> roaring_bitmap_rank_many r qs = map (\<lambda>q. word_of_nat (card {z \<in> ra_abs r. z \<le> q})) qs)
     \<and> roaring_bitmap_get_index r y = (if y \<in> ra_abs r then int (card {z \<in> ra_abs r. z < y}) else - 1)
     \<and> (card (ra_abs r) < 4294967296 \<longrightarrow>
          roaring_bitmap_select r rank = (if card (ra_abs r) \<le> unat rank then None else Some (sorted_list_of_set (ra_abs r) ! unat rank)))
     \<and> roaring_bitmap_minimum r = (if ra_abs r = {} then 0xFFFFFFFF else Min (ra_abs r))
     \<and> roaring_bitmap_maximum r = (if ra_abs r = {} then 0 else Max (ra_abs r))
     \<and> roaring_bitmap_to_uint32_array r = sorted_list_of_set (ra_abs r)
     \<and> roaring_iterate r f s = iterate_values f (sorted_list_of_set (ra_abs r)) s
     \<and> roaring_iterate64 r g high s = iterate_values g (map (\<lambda>x. high OR ucast x) (sorted_list_of_set (ra_abs r))) s
     \<and> (take_bit 32 high = 0 \<longrightarrow>
          roaring_iterate64 r g high s = iterate_values g (map (\<lambda>x. high + ucast x) (sorted_list_of_set (ra_abs r))) s)"
proof -
  have "roaring_bitmap_minimum r = 0xFFFFFFFF" "roaring_bitmap_maximum r = 0" if "ra_abs r = {}"
    using that ra_empty_iff [OF assms] by (simp_all add: roaring_bitmap_minimum_def roaring_bitmap_maximum_def)
  moreover have "roaring_iterate64 r g high s = iterate_values g (map (\<lambda>x. high + ucast x) (sorted_list_of_set (ra_abs r))) s"
    if "take_bit 32 high = 0"
    unfolding roaring_iterate_correct(2) [OF assms] using widened_or [OF that] by simp
  ultimately show ?thesis
    using roaring_bitmap_get_cardinality_correct(2) [OF assms] roaring_bitmap_is_empty_correct [OF assms]
      roaring_bitmap_rank_correct [OF assms, of y] roaring_bitmap_rank_many_correct [OF assms]
      roaring_bitmap_get_index_correct [OF assms, of y] roaring_bitmap_select_correct [OF assms, of rank]
      roaring_bitmap_minimum_correct [OF assms] roaring_bitmap_maximum_correct [OF assms]
      roaring_bitmap_to_uint32_array_correct [OF assms] roaring_iterate_correct [OF assms]
    by (intro conjI) simp_all
qed

lemma bitmap_a_abs: "ra_abs bitmap_a = {4, 9, 458756, 458761}"
proof -
  have join: "join 0 4 = 4" "join 0 9 = 9" "join 7 4 = 458756" "join 7 9 = 458761" by code_simp+
  have ok: "entries_inv [(0, Array_c array_4_9), (7, Array_c array_4_9)]" "entries_inv [(7, Array_c array_4_9)]"
    using ra_ok_entries [OF bitmaps_inv(1)] by simp_all
  have c: "container_abs (Array_c array_4_9) = {4, 9}" by (simp add: container_4_9 del: container_abs.simps)
  show ?thesis
    unfolding ra_abs_def roaring_array.select_convs entries_abs_Cons(1) [OF ok(1)] entries_abs_Cons(1) [OF ok(2)] c
    by (simp only: image_insert image_empty join entries_abs_Nil Un_insert_left Un_empty_left Un_empty_right)
qed

theorem roaring_query_spec_witness:
  "roaring_bitmap_to_uint32_array bitmap_a = [4, 9, 458756, 458761] \<and> roaring_bitmap_rank_many bitmap_a [5, 9] = [1, 2]
   \<and> roaring_bitmap_select bitmap_a 2 = Some 458756
   \<and> fst (roaring_iterate64 bitmap_a (\<lambda>v s. (v < 0x500000000, s)) 0x500000000 ()) = False"
proof -
  let ?stop = "\<lambda>v (s :: unit). (v < (0x500000000 :: u64), s)" and ?high = "0x500000000 :: u64"
  have listed: "sorted_list_of_set (ra_abs bitmap_a) = [4, 9, 458756, 458761]"
    by (rule ssorted_set_unique) (simp_all add: bitmap_a_abs)
  have card: "card (ra_abs bitmap_a) = 4" by (simp add: bitmap_a_abs)
  have below: "{z \<in> ra_abs bitmap_a. z \<le> 5} = {4}" "{z \<in> ra_abs bitmap_a. z \<le> 9} = {4, 9}" by (auto simp: bitmap_a_abs)
  have high: "take_bit 32 ?high = 0" by simp
  have "sorted [5, 9 :: u32] \<longrightarrow> roaring_bitmap_rank_many bitmap_a [5, 9] = map (\<lambda>q. word_of_nat (card {z \<in> ra_abs bitmap_a. z \<le> q})) [5, 9]"
    "card (ra_abs bitmap_a) < 4294967296 \<longrightarrow>
      roaring_bitmap_select bitmap_a 2
      = (if card (ra_abs bitmap_a) \<le> unat (2 :: u32) then None else Some (sorted_list_of_set (ra_abs bitmap_a) ! unat (2 :: u32)))"
    "roaring_bitmap_to_uint32_array bitmap_a = sorted_list_of_set (ra_abs bitmap_a)"
    "take_bit 32 ?high = 0 \<longrightarrow> roaring_iterate64 bitmap_a ?stop ?high ()
      = iterate_values ?stop (map (\<lambda>x. ?high + ucast x) (sorted_list_of_set (ra_abs bitmap_a))) ()"
    using roaring_query_spec [OF bitmaps_inv(1), of 9 "[5, 9]" 2 "\<lambda>v s. (True, s)" "()" ?stop ?high]
    by - (elim conjE, assumption)+
  then show ?thesis using high by (simp add: listed card below)
qed

text \<open>C6: a range of values. The closed versions count and test the values from the first to the last bound,
  for any two bounds; the half-open versions do so for every end up to \<open>2 ^ 32\<close>.\<close>

theorem roaring_range_query_spec:
  assumes "ra_inv r" and "unat hi \<le> 4294967296"
  shows "unat (roaring_bitmap_range_cardinality_closed r s e) = card {x \<in> ra_abs r. s \<le> x \<and> x \<le> e}
     \<and> (roaring_bitmap_contains_range_closed r s e \<longleftrightarrow> {s .. e} \<subseteq> ra_abs r)
     \<and> unat (roaring_bitmap_range_cardinality r lo hi) = card {x \<in> ra_abs r. unat lo \<le> unat x \<and> unat x < unat hi}
     \<and> (roaring_bitmap_contains_range r lo hi \<longleftrightarrow> {x. unat lo \<le> unat x \<and> unat x < unat hi} \<subseteq> ra_abs r)"
  using roaring_bitmap_range_cardinality_closed_correct [OF assms(1), of s e] roaring_bitmap_contains_range_closed_correct [OF assms(1), of s e]
    roaring_bitmap_range_cardinality_correct [OF assms, of lo] roaring_bitmap_contains_range_correct [OF assms, of lo]
  by (intro conjI)

theorem roaring_range_query_spec_witness:
  "unat (roaring_bitmap_range_cardinality bitmap_a 0 0x100000000) = 4 \<and> \<not> roaring_bitmap_contains_range_closed bitmap_a 3 9"
proof -
  have hi: "unat (0x100000000 :: u64) \<le> 4294967296" by simp
  have "unat (roaring_bitmap_range_cardinality bitmap_a 0 0x100000000)
      = card {x \<in> ra_abs bitmap_a. unat (0 :: u64) \<le> unat x \<and> unat x < unat (0x100000000 :: u64)}"
    "roaring_bitmap_contains_range_closed bitmap_a 3 9 \<longleftrightarrow> {3 .. 9} \<subseteq> ra_abs bitmap_a"
    using roaring_range_query_spec [OF bitmaps_inv(1) hi, of 3 9 0] by - (elim conjE, assumption)+
  moreover have "{x \<in> ra_abs bitmap_a. unat (0 :: u64) \<le> unat x \<and> unat x < unat (0x100000000 :: u64)} = ra_abs bitmap_a" by auto
  moreover have "card (ra_abs bitmap_a) = 4" by (simp add: bitmap_a_abs)
  moreover have "\<not> {3 .. 9} \<subseteq> ra_abs bitmap_a"
  proof
    assume "{3 .. 9} \<subseteq> ra_abs bitmap_a"
    moreover have "3 \<in> {3 .. 9 :: u32}" by simp
    ultimately have "3 \<in> ra_abs bitmap_a" by (rule subsetD)
    with bitmaps_member(3) show False by (rule notE)
  qed
  ultimately show ?thesis by (simp only: not_False_eq_True simp_thms)
qed

text \<open>C7: complementing a range of values, in a new bitmap or in place. The closed versions do so for any two
  bounds, the half-open versions for every end up to \<open>2 ^ 32\<close>; the result is well-formed, so a container
  that becomes empty leaves the table and one that fills up or empties out changes its type.\<close>

theorem roaring_flip_spec:
  assumes "ra_inv x" and "unat hi \<le> 4294967296"
  shows "ra_inv (roaring_bitmap_flip_closed x s e) \<and> ra_abs (roaring_bitmap_flip_closed x s e) = sym_diff (ra_abs x) {s .. e}
     \<and> ra_inv (roaring_bitmap_flip_inplace_closed x s e)
     \<and> ra_abs (roaring_bitmap_flip_inplace_closed x s e) = sym_diff (ra_abs x) {s .. e}
     \<and> ra_inv (roaring_bitmap_flip x lo hi)
     \<and> ra_abs (roaring_bitmap_flip x lo hi) = sym_diff (ra_abs x) {v. unat lo \<le> unat v \<and> unat v < unat hi}
     \<and> ra_inv (roaring_bitmap_flip_inplace x lo hi)
     \<and> ra_abs (roaring_bitmap_flip_inplace x lo hi) = sym_diff (ra_abs x) {v. unat lo \<le> unat v \<and> unat v < unat hi}"
  using roaring_bitmap_flip_closed_correct [OF assms(1), of s e] roaring_bitmap_flip_inplace_closed_correct [OF assms(1), of s e]
    roaring_bitmap_flip_correct [OF assms, of lo]
  by (intro conjI)

theorem roaring_flip_spec_witness:
  "3 \<in> ra_abs (roaring_bitmap_flip_closed bitmap_a 3 70000) \<and> 4 \<notin> ra_abs (roaring_bitmap_flip_closed bitmap_a 3 70000)"
proof -
  have hi: "unat (0x100000000 :: u64) \<le> 4294967296" by simp
  have "ra_abs (roaring_bitmap_flip_closed bitmap_a 3 70000) = sym_diff (ra_abs bitmap_a) {3 .. 70000}"
    using roaring_flip_spec [OF bitmaps_inv(1) hi, of 3 70000 0] by - (elim conjE, assumption)
  moreover have "3 \<in> {3 .. 70000 :: u32}" "4 \<in> {3 .. 70000 :: u32}" by simp_all
  ultimately show ?thesis using bitmaps_member(1,3) by (simp only: Un_iff Diff_iff simp_thms)
qed

text \<open>C8: adding and removing a range of values, which opens or closes a gap in the table of containers. The
  closed versions work for any two bounds, the half-open versions for every end up to \<open>2 ^ 32\<close>.\<close>

theorem roaring_range_update_spec:
  assumes "ra_inv r" and "unat hi \<le> 4294967296"
  shows "ra_inv (roaring_bitmap_add_range_closed r s e) \<and> ra_abs (roaring_bitmap_add_range_closed r s e) = ra_abs r \<union> {s .. e}
     \<and> ra_inv (roaring_bitmap_remove_range_closed r s e) \<and> ra_abs (roaring_bitmap_remove_range_closed r s e) = ra_abs r - {s .. e}
     \<and> ra_inv (roaring_bitmap_add_range r lo hi)
     \<and> ra_abs (roaring_bitmap_add_range r lo hi) = ra_abs r \<union> {v. unat lo \<le> unat v \<and> unat v < unat hi}
     \<and> ra_inv (roaring_bitmap_remove_range r lo hi)
     \<and> ra_abs (roaring_bitmap_remove_range r lo hi) = ra_abs r - {v. unat lo \<le> unat v \<and> unat v < unat hi}"
  using roaring_bitmap_add_range_closed_correct [OF assms(1), of s e] roaring_bitmap_remove_range_closed_correct [OF assms(1), of s e]
    roaring_bitmap_ranges_correct [OF assms, of lo]
  by (intro conjI)

theorem roaring_range_update_spec_witness:
  "3 \<in> ra_abs (roaring_bitmap_add_range_closed bitmap_a 3 70000) \<and> 9 \<notin> ra_abs (roaring_bitmap_remove_range_closed bitmap_a 3 70000)"
proof -
  have hi: "unat (0x100000000 :: u64) \<le> 4294967296" by simp
  have "ra_abs (roaring_bitmap_add_range_closed bitmap_a 3 70000) = ra_abs bitmap_a \<union> {3 .. 70000}"
    "ra_abs (roaring_bitmap_remove_range_closed bitmap_a 3 70000) = ra_abs bitmap_a - {3 .. 70000}"
    using roaring_range_update_spec [OF bitmaps_inv(1) hi, of 3 70000 0] by - (elim conjE, assumption)+
  moreover have "3 \<in> {3 .. 70000 :: u32}" "9 \<in> {3 .. 70000 :: u32}" by simp_all
  ultimately show ?thesis by (simp only: Un_iff Diff_iff simp_thms)
qed

text \<open>C5: comparing two bitmaps decides equality, inclusion, strict inclusion and meeting of their sets, whatever
  the types of their containers, and the four cardinalities computed from the intersection are those of
  the combined sets.\<close>

theorem roaring_compare_spec:
  assumes "ra_inv x1" and "ra_inv x2"
  shows "(roaring_bitmap_equals x1 x2 \<longleftrightarrow> ra_abs x1 = ra_abs x2) \<and> (roaring_bitmap_is_subset x1 x2 \<longleftrightarrow> ra_abs x1 \<subseteq> ra_abs x2)
     \<and> (roaring_bitmap_is_strict_subset x1 x2 \<longleftrightarrow> ra_abs x1 \<subset> ra_abs x2)
     \<and> (roaring_bitmap_intersect x1 x2 \<longleftrightarrow> ra_abs x1 \<inter> ra_abs x2 \<noteq> {})
     \<and> unat (roaring_bitmap_and_cardinality x1 x2) = card (ra_abs x1 \<inter> ra_abs x2)
     \<and> unat (roaring_bitmap_or_cardinality x1 x2) = card (ra_abs x1 \<union> ra_abs x2)
     \<and> unat (roaring_bitmap_andnot_cardinality x1 x2) = card (ra_abs x1 - ra_abs x2)
     \<and> unat (roaring_bitmap_xor_cardinality x1 x2) = card (sym_diff (ra_abs x1) (ra_abs x2))"
  using roaring_bitmap_equals_correct [OF assms] roaring_bitmap_is_subset_correct [OF assms]
    roaring_bitmap_is_strict_subset_correct [OF assms] roaring_bitmap_intersect_correct [OF assms] roaring_bitmap_combined_cardinality [OF assms]
  by (intro conjI)

theorem roaring_compare_spec_witness:
  "roaring_bitmap_intersect bitmap_a bitmap_b \<and> \<not> roaring_bitmap_is_subset bitmap_b bitmap_a"
proof -
  have "roaring_bitmap_intersect bitmap_a bitmap_b \<longleftrightarrow> ra_abs bitmap_a \<inter> ra_abs bitmap_b \<noteq> {}"
    using roaring_compare_spec [OF bitmaps_inv] by - (elim conjE, assumption)
  moreover have "roaring_bitmap_is_subset bitmap_b bitmap_a \<longleftrightarrow> ra_abs bitmap_b \<subseteq> ra_abs bitmap_a"
    using roaring_compare_spec [OF bitmaps_inv(2,1)] by - (elim conjE, assumption)
  moreover have "4 \<in> ra_abs bitmap_b" using bitmaps_b_4 .
  ultimately show ?thesis
    using bitmaps_member(1,3,4) subsetD [of "ra_abs bitmap_b" "ra_abs bitmap_a" 3] IntI [of 4 "ra_abs bitmap_a" "ra_abs bitmap_b"]
    by (simp only: simp_thms) blast
qed

section \<open>Forms and validation\<close>

text \<open>C12: validation accepts exactly the well-formed bitmaps (sorted keys within the allocation, known flags,
  canonical non-empty containers: sorted arrays, separated runs, bitsets with their right count) in which
  only a copy-on-write bitmap has shared containers. Nothing is asked of the containers before, except that
  the initialised cells of each are as many as its count says.\<close>

theorem roaring_validate_spec:
  assumes "\<forall>e \<in> set (ra_entries r). container_cells (snd e)"
  shows "roaring_bitmap_internal_validate shared r = None \<longleftrightarrow>
    ra_inv r \<and> (\<forall>k \<in> set (ra_keys r). shared k \<longrightarrow> roaring_bitmap_get_copy_on_write r)"
  by (rule roaring_bitmap_internal_validate_correct [OF assms])

theorem roaring_validate_spec_witness:
  "roaring_bitmap_internal_validate (\<lambda>_. False) bitmap_a = None
   \<and> roaring_bitmap_internal_validate (\<lambda>_. False)
       (bitmap_a\<lparr>ra_entries := [(0, Array_c \<lparr>ac_cardinality = 2, ac_capacity = 2, ac_array = [9, 4]\<rparr>)]\<rparr>) \<noteq> None"
proof -
  let ?bad = "bitmap_a\<lparr>ra_entries := [(0, Array_c \<lparr>ac_cardinality = 2, ac_capacity = 2, ac_array = [9, 4]\<rparr>)]\<rparr>"
  have "\<forall>e \<in> set (ra_entries bitmap_a). container_cells (snd e)" using container_inv_cells [OF container_4_9(1)] by simp
  moreover have "\<forall>e \<in> set (ra_entries ?bad). container_cells (snd e)" by simp
  moreover have "\<not> ra_inv ?bad" by (simp add: ra_ok_def entries_ok_def array_inv_def)
  ultimately show ?thesis
    using roaring_validate_spec [of bitmap_a "\<lambda>_. False"] roaring_validate_spec [of ?bad "\<lambda>_. False"] bitmaps_inv(1) by blast
qed

text \<open>C13: run compression, its removal and shrinking keep the set and give well-formed bitmaps; the answer
  of the first says whether the result has a run container, that of the second whether the bitmap had
  one, and then none is left; shrinking leaves no allocated cell unused.\<close>

theorem roaring_form_spec:
  assumes "ra_inv r"
  shows "ra_inv (fst (roaring_bitmap_run_optimize r)) \<and> ra_abs (fst (roaring_bitmap_run_optimize r)) = ra_abs r
     \<and> (snd (roaring_bitmap_run_optimize r) \<longleftrightarrow> ra_has_run_container (fst (roaring_bitmap_run_optimize r)))
     \<and> ra_inv (fst (roaring_bitmap_remove_run_compression r)) \<and> ra_abs (fst (roaring_bitmap_remove_run_compression r)) = ra_abs r
     \<and> \<not> ra_has_run_container (fst (roaring_bitmap_remove_run_compression r))
     \<and> (snd (roaring_bitmap_remove_run_compression r) \<longleftrightarrow> ra_has_run_container r)
     \<and> ra_inv (fst (roaring_bitmap_shrink_to_fit r)) \<and> ra_abs (fst (roaring_bitmap_shrink_to_fit r)) = ra_abs r
     \<and> ra_allocation_size (fst (roaring_bitmap_shrink_to_fit r)) = ra_get_size r"
  using roaring_bitmap_run_optimize_correct [OF assms] roaring_bitmap_remove_run_compression_correct [OF assms]
    roaring_bitmap_shrink_to_fit_correct [OF assms]
  by (intro conjI)

theorem roaring_form_spec_witness:
  "ra_abs (fst (roaring_bitmap_remove_run_compression bitmap_b)) = ra_abs bitmap_b \<and>
   \<not> ra_has_run_container (fst (roaring_bitmap_remove_run_compression bitmap_b))"
  using roaring_form_spec [OF bitmaps_inv(2)] by - (elim conjE, intro conjI; assumption)

section \<open>Serialization\<close>

text \<open>C9: the portable format. A bitmap is written in exactly the announced number of bytes; from these bytes,
  with anything after them, both deserialization functions give back a well-formed bitmap with the same set,
  when the limit given to the checked one covers the bytes; and the quick check returns the number of bytes
  written.\<close>

theorem roaring_portable_spec:
  assumes "ra_inv r" and "roaring_bitmap_portable_serialize r = (bytes, n)" and "n \<le> maxbytes"
  shows "length bytes = n \<and> roaring_bitmap_portable_size_in_bytes r = int n
     \<and> (\<exists>r'. roaring_bitmap_portable_deserialize_safe (bytes @ rest) maxbytes = Read (Some r') \<and> ra_inv r' \<and> ra_abs r' = ra_abs r)
     \<and> (\<exists>r'. roaring_bitmap_portable_deserialize (bytes @ rest) = Read (Some r') \<and> ra_inv r' \<and> ra_abs r' = ra_abs r)
     \<and> (maxbytes \<le> n + length rest \<longrightarrow> roaring_bitmap_portable_deserialize_size (bytes @ rest) maxbytes = Read n)"
proof -
  have bytes: "fst (roaring_bitmap_portable_serialize r) = bytes" and snd: "snd (roaring_bitmap_portable_serialize r) = n" using assms(2) by simp_all
  have n: "length bytes = n" using assms(2) by (auto simp: roaring_bitmap_portable_serialize_def ra_portable_serialize_def Let_def)
  have size: "roaring_bitmap_portable_size_in_bytes r = int n"
    using ra_portable_size_correct [OF assms(1)] bytes n by (simp add: roaring_bitmap_portable_size_in_bytes_def roaring_bitmap_portable_serialize_def)
  show ?thesis
    using size portable_safe_round_trip [OF assms(1), of maxbytes rest] portable_round_trip [OF assms(1), of rest]
      portable_size_round_trip [OF assms(1), of maxbytes rest] n assms(3)
    unfolding bytes snd length_append by blast
qed

theorem roaring_portable_spec_witness:
  "\<exists>r'. roaring_bitmap_portable_deserialize_safe (fst (roaring_bitmap_portable_serialize bitmap_a) @ [1, 2]) 100000 = Read (Some r')
     \<and> ra_abs r' = {4, 9, 458756, 458761}"
proof -
  have "snd (roaring_bitmap_portable_serialize bitmap_a) = 32" by code_simp
  then have le: "snd (roaring_bitmap_portable_serialize bitmap_a) \<le> 100000" by simp
  have "\<exists>r'. roaring_bitmap_portable_deserialize_safe (fst (roaring_bitmap_portable_serialize bitmap_a) @ [1, 2]) 100000 = Read (Some r')
      \<and> ra_inv r' \<and> ra_abs r' = ra_abs bitmap_a"
    using roaring_portable_spec [OF bitmaps_inv(1) prod.collapse [symmetric] le, of "[1, 2]"] by - (elim conjE, assumption)
  then show ?thesis unfolding bitmap_a_abs by blast
qed

text \<open>C11: the native format is the shorter of the portable format and the list of the values, with a first byte
  that tells which; it takes the announced number of bytes, and reading it back gives a well-formed bitmap
  with the same set.\<close>

theorem roaring_serialize_spec:
  assumes "ra_inv r" and "roaring_bitmap_serialize r = (bytes, n)" and "n \<le> maxbytes"
  shows "length bytes = n \<and> unat (roaring_bitmap_size_in_bytes r) = n
     \<and> int n = min (roaring_bitmap_portable_size_in_bytes r) (4 * int (card (ra_abs r)) + 4) + 1
     \<and> (\<exists>r'. roaring_bitmap_deserialize_safe (bytes @ rest) maxbytes = Read (Some r') \<and> ra_inv r' \<and> ra_abs r' = ra_abs r)
     \<and> (\<exists>r'. roaring_bitmap_deserialize (bytes @ rest) = Read (Some r') \<and> ra_inv r' \<and> ra_abs r' = ra_abs r)"
proof -
  let ?p = "length (fst (roaring_bitmap_portable_serialize r))" and ?a = "4 * card (ra_abs r) + 4"
  have bytes: "fst (roaring_bitmap_serialize r) = bytes" and snd: "snd (roaring_bitmap_serialize r) = n" using assms(2) by simp_all
  have n: "n = (if ?p < ?a then ?p else ?a) + 1" using native_size(2) [OF assms(1)] unfolding snd .
  have length: "length bytes = n" using native_length [OF assms(1)] unfolding bytes snd .
  have size: "roaring_bitmap_portable_size_in_bytes r = int ?p"
    using ra_portable_size_correct [OF assms(1)] by (simp add: roaring_bitmap_portable_size_in_bytes_def roaring_bitmap_portable_serialize_def)
  have small: "n < 2 ^ 64" using serialized_bound [OF assms(1)] unfolding n by (simp add: roaring_bitmap_portable_serialize_def)
  have "unat (roaring_bitmap_size_in_bytes r) = n"
    unfolding native_size(3) [OF assms(1)] n [symmetric] using small by (simp add: unat_of_nat)
  moreover have "int n = min (roaring_bitmap_portable_size_in_bytes r) (4 * int (card (ra_abs r)) + 4) + 1"
    unfolding size n by (cases "?p < ?a") simp_all
  moreover have fits: "length (fst (roaring_bitmap_serialize r)) \<le> maxbytes" unfolding bytes length by (rule assms(3))
  ultimately show ?thesis
    using length native_round_trip [OF assms(1) fits, of rest] unfolding bytes by (intro conjI)
qed

theorem roaring_serialize_spec_witness:
  "\<exists>r'. roaring_bitmap_deserialize (fst (roaring_bitmap_serialize bitmap_a) @ [1, 2]) = Read (Some r') \<and> ra_abs r' = {4, 9, 458756, 458761}"
proof -
  have "\<exists>r'. roaring_bitmap_deserialize (fst (roaring_bitmap_serialize bitmap_a) @ [1, 2]) = Read (Some r')
      \<and> ra_inv r' \<and> ra_abs r' = ra_abs bitmap_a"
    using roaring_serialize_spec [OF bitmaps_inv(1) prod.collapse [symmetric] order_refl, of "[1, 2]"] by - (elim conjE, assumption)
  then show ?thesis unfolding bitmap_a_abs by blast
qed

text \<open>C10: the checked deserialization functions are safe on every buffer: given the number of bytes in it, or
  less, they never read outside of it, whatever the bytes are. The quick check returns at most the limit, and
  \<open>0\<close> exactly when the portable deserialization gives \<open>NULL\<close>; a list of values, in any order and with
  duplicates, gives a well-formed bitmap.\<close>

theorem roaring_deserialize_safe_spec:
  assumes "maxbytes \<le> length buf"
  shows "roaring_bitmap_portable_deserialize_safe buf maxbytes \<noteq> Fault \<and> roaring_bitmap_deserialize_safe buf maxbytes \<noteq> Fault
     \<and> (\<exists>n. roaring_bitmap_portable_deserialize_size buf maxbytes = Read n \<and> n \<le> maxbytes
          \<and> (n = 0 \<longleftrightarrow> roaring_bitmap_portable_deserialize_safe buf maxbytes = Read None))
     \<and> (\<forall>b. buf ! 0 = CROARING_SERIALIZATION_ARRAY_UINT32 \<and> roaring_bitmap_deserialize_safe buf maxbytes = Read (Some b) \<longrightarrow> ra_inv b)"
proof -
  note size = portable_safe_bounds(1) [OF assms] and safe = portable_safe_bounds(2) [OF assms] and native = native_safe_bounds [OF assms]
  obtain n where n: "roaring_bitmap_portable_deserialize_size buf maxbytes = Read n" "n \<le> maxbytes"
    using size portable_size_answers [of buf maxbytes] unfolding ensures_iff by (cases "roaring_bitmap_portable_deserialize_size buf maxbytes") auto
  have "roaring_bitmap_portable_deserialize_safe buf maxbytes = Read None \<longleftrightarrow> n = 0"
    using safe portable_safe_answers [of buf maxbytes] unfolding ensures_iff n(1)
    by (cases "roaring_bitmap_portable_deserialize_safe buf maxbytes") auto
  then show ?thesis using n safe native unfolding ensures_iff by blast
qed

theorem roaring_deserialize_safe_spec_witness:
  "roaring_bitmap_deserialize_safe [1, 255, 255, 255, 255, 7] 6 \<noteq> Fault \<and> roaring_bitmap_portable_deserialize_safe [58, 48, 0, 0, 9, 0, 0, 0] 8 \<noteq> Fault"
proof -
  have a: "6 \<le> length [1, 255, 255, 255, 255, 7 :: u8]" and b: "8 \<le> length [58, 48, 0, 0, 9, 0, 0, 0 :: u8]" by simp_all
  show ?thesis using roaring_deserialize_safe_spec [OF a] roaring_deserialize_safe_spec [OF b] by blast
qed

end
