(* ===== verification/Spec2Isabelle.thy ===== *)
theory Spec2Isabelle
  imports Array_Properties Roaring_Properties
begin

text \<open>
  Verification of CRoaring, the C library of compressed bitmaps (sets of 32-bit unsigned integers).
  The sources are under \<open>src/\<close> of the repository: \<open>include/roaring/\<close> (headers, with much of the code as
  inline functions) and \<open>src/\<close> (the implementation); the paths below are relative to it.

  \<^bold>\<open>The program.\<close> A bitmap (\<open>roaring_bitmap_t\<close>, \<open>src/roaring.c\<close>) is a table (\<open>roaring_array_t\<close>,
  \<open>src/roaring_array.c\<close>) from the high 16 bits of its values, in increasing order, to containers for the
  low 16 bits. A container is one of three kinds: a sorted array of at most 4096 values
  (\<open>src/containers/array.c\<close>), a bitset of 1024 words (\<open>src/containers/bitset.c\<close>), or a list of runs
  (\<open>src/containers/run.c\<close>). An operation on bitmaps walks over the keys of its arguments and calls the
  dispatch of \<open>include/roaring/containers/containers.h\<close>, which calls the routine for the two kinds at hand
  (\<open>src/containers/mixed_*.c\<close>, \<open>src/containers/convert.c\<close>); these rest on loops over sorted arrays
  (\<open>src/array_util.c\<close>) and over words (\<open>src/bitset_util.c\<close>). Lazy operations leave the cardinality of a
  bitset unknown and may leave a container in the wrong form; a final repair pass restores both.

  \<^bold>\<open>The theories\<close>, from the bottom:
  \<^item> \<open>Prelude\<close>: widths, sorted lists, sets of words, collections of rules. \<open>Container_Spec\<close>: the locales
    \<open>container\<close> (an abstraction to a set, an invariant, membership, insertion, deletion), \<open>set_operation\<close>
    and \<open>set_test\<close>; array, bitset, run and tagged containers and the whole bitmap interpret them.
  \<^item> \<open>Array_Util\<close>, \<open>Array_Advance\<close>, \<open>Array_Setops\<close>, \<open>Array_Skewed\<close>: searches and merging loops of
    \<open>array_util\<close>. \<open>Array_Container\<close>, \<open>Array_Ranges\<close>: \<open>containers/array\<close>. \<open>Array_Properties\<close>: their claims.
  \<^item> \<open>Bitset_Util\<close>, \<open>Bitset_Lists\<close>: \<open>bitset_util\<close>. \<open>Bitset_Container\<close>, \<open>Bitset_Order\<close>, \<open>Bitset_Shift\<close>,
    \<open>Bitset_Bytes\<close>: \<open>containers/bitset\<close>. \<open>Bitset_Properties\<close>: their claims.
  \<^item> \<open>Run_Container\<close> (the code of \<open>containers/run\<close>), \<open>Run_Sets\<close>, \<open>Run_Ops\<close>, \<open>Run_Order\<close>, \<open>Run_Ranges\<close>,
    \<open>Run_Bytes\<close> (what it computes) and \<open>Run_Properties\<close>.
  \<^item> \<open>Convert\<close>, \<open>Convert_Correct\<close>: \<open>containers/convert.c\<close>. \<open>Bitset_Runs\<close> (loops shared by the mixed
    operations) and \<open>Mixed_Union\<close>, \<open>Mixed_Intersection\<close>, \<open>Mixed_Tests\<close>, \<open>Mixed_Negation\<close>, \<open>Mixed_Xor\<close>,
    \<open>Mixed_Andnot\<close>: one theory for each file (two for the tests) of \<open>containers/mixed_*.c\<close>;
    \<open>Mixed_Properties\<close>.
  \<^item> \<open>Containers\<close> (the dispatch of \<open>containers.h\<close>), \<open>Containers_Correct\<close>, \<open>Containers_Ranges\<close> and
    \<open>Containers_Properties\<close>.
  \<^item> \<open>Roaring_Array\<close> (the table of \<open>roaring_array.c\<close>), \<open>Roaring_Entries\<close> and \<open>Roaring_Table\<close> (the set a
    table stands for, its invariant \<open>ra_inv\<close>, what each operation on the table does).
  \<^item> \<open>Roaring_Setops\<close> (set operations of \<open>roaring.c\<close>, eager, in place and lazy), with
    \<open>Roaring_Setops_Correct\<close>, \<open>Roaring_Inplace\<close>, \<open>Roaring_Difference\<close> and \<open>Roaring_Lazy\<close>;
    \<open>Roaring_Bitmap\<close> (single values, bulk contexts, lists of values); \<open>Roaring_Order\<close>, \<open>Roaring_Queries\<close>,
    \<open>Roaring_Queries_Correct\<close>, \<open>Roaring_Range_Queries\<close> (questions about one bitmap); \<open>Roaring_Compare\<close>
    (questions about two); \<open>Roaring_Flip\<close>, \<open>Roaring_Ranges\<close> (complementing, adding and removing ranges);
    \<open>Roaring_Serial\<close> (the portable format of \<open>roaring_array.c\<close>), \<open>Roaring_Formats\<close> (sizes and round trips of
    the portable and the native format); \<open>Roaring_Properties\<close>.

  \<^bold>\<open>State and operations.\<close> A C struct is a record with the names of its fields (prefixes \<open>ac_\<close>, \<open>bc_\<close>,
  \<open>rc_\<close>, \<open>rl_\<close>, \<open>ra_\<close>); a container with its type code is a value of the datatype \<open>container_t\<close>, so the
  type code is the constructor. A C function has a definition with its name; its loops are recursions that
  carry a suffix such as \<open>_loop\<close>. Functions that change an argument return it. Error codes and \<open>NULL\<close>
  results are values of \<open>option\<close> types (a read outside a buffer is the outcome \<open>Fault\<close> of \<open>reading\<close>), and the reasons that validation gives are datatypes.

  \<^bold>\<open>Conventions.\<close>
  \<^item> An allocated array is the list of its initialised cells next to its capacity; the cells beyond have no
    observable content, and growing adds cells whose content is unspecified until they are written.
  \<^item> Values, keys, words and everything the code computes on fixed widths are words of that width, so that
    wrap-around is visible. Indices and sizes that stay far below their bounds are \<open>nat\<close> or \<open>int\<close>, and the
    casts between index types are left out.
  \<^item> The three parallel arrays of the table are one list of pairs of a key and a container.
  \<^item> Allocation succeeds and freeing has no counterpart. A container shared by copy-on-write is the
    container it shares; where the code behaves differently on shared containers, which ones are shared is
    a parameter (\<open>shared\<close>) of the definition and the theorems hold for every choice.
  \<^item> The portable C code is modelled, not the SIMD code that replaces it on some machines.
  \<^item> Arguments and destinations are separate values, so in-place use returns the new value. An \<open>assert\<close> that
    restricts the arguments is \<open>asserting\<close>, which has no result where it fails; an \<open>assert\<close> that a type code is
    one of three, or that two pointers differ, has no counterpart, and the others follow from the invariants.

  \<^bold>\<open>What is shown.\<close> Every container routine is related to a set of 16-bit values by \<open>array_abs\<close>,
  \<open>bitset_abs\<close>, \<open>run_abs\<close> and \<open>container_abs\<close>, and every operation on bitmaps to a set of 32-bit values by
  \<open>ra_abs\<close>: the result is well-formed (\<open>array_inv\<close>, \<open>bitset_inv\<close>, \<open>run_inv\<close>, \<open>container_inv\<close>, \<open>ra_inv\<close>) and
  its set is the operation of the sets. \<open>container_inv\<close> is the canonical form (arrays of at most 4096 values,
  bitsets of more); \<open>ra_inv\<close> asks for sorted keys, canonical non-empty containers and enough allocated
  cells. Validation takes containers with any content (\<open>container_cells\<close> ties the number of cells to the
  count) and accepts exactly those. Serialized bitmaps are read back with the same set, and the checked
  deserialization never leaves its buffer, whatever the bytes are. Lazy chains keep \<open>container_lazy_inv\<close> and \<open>ra_lazy_ok\<close>. Loops that could run forever in C are
  functions with a termination proof, or return an \<open>option\<close> and are shown to return. No fuel is used.

  \<^bold>\<open>Not modelled\<close>: SIMD variants; printing and statistics; the Jaccard index (a quotient of doubles);
  iterators, \<open>roaring_bitmap_from_range\<close>, \<open>roaring_bitmap_add_offset\<close> and the frozen format of
  \<open>roaring.c\<close>; the priority queue of \<open>roaring_priority_queue.c\<close>; the uncompressed \<open>bitset.c\<close>; the 64-bit
  bitmaps and the adaptive radix tree under them; memory hooks, CPU detection, C++ wrappers, benchmarks and
  fuzzing drivers.
\<close>

end
